(* ===== verification/Prelude.thy ===== *)
theory Prelude
  imports Main "HOL-Library.Word" "HOL-Library.Char_ord" "HOL-Library.List_Lexorder" "HOL-Library.AList"
begin

text \<open>
  Shared vocabulary of the development: the error monad every fallible Go function is
  translated into, the loops over it, the rendering of decimal numerals and the machine
  integers of the engine.

  A Go function that returns \<open>(T, error)\<close> becomes a function into \<open>'e + 'a\<close>, with \<open>Inl\<close>
  for the error branch. A Go \<open>for\<close> loop whose body may return early with an error becomes
  \<open>foldE\<close>. Go strings are byte sequences, so \<^typ>\<open>string\<close> is taken as the list of bytes;
  the order on strings and on tuples of strings is Go's bytewise lexicographic one, given
  by the library's orders on characters and lists.
\<close>

named_theorems engine_simps \<open>unfolding equations of the engine's straight-line operations\<close>
named_theorems inv_intros \<open>preservation of component invariants\<close>

type_synonym uint32 = "32 word"
type_synonym uint64 = "64 word"

section \<open>Errors and loops\<close>

definition bindE :: "'e + 'a \<Rightarrow> ('a \<Rightarrow> 'e + 'b) \<Rightarrow> 'e + 'b" where
  "bindE m f = (case m of Inl e \<Rightarrow> Inl e | Inr a \<Rightarrow> f a)"

lemma bindE_simps [simp]:
  "bindE (Inl e) f = Inl e"
  "bindE (Inr a) f = f a"
  by (simp_all add: bindE_def)

lemma bindE_Inr_iff: "bindE m f = Inr b \<longleftrightarrow> (\<exists>a. m = Inr a \<and> f a = Inr b)"
  by (cases m) auto

lemma bindE_InrE [elim!]:
  assumes "bindE m f = Inr b"
  obtains a where "m = Inr a" "f a = Inr b"
  using assms by (auto simp: bindE_Inr_iff)

lemma bindE_cong [fundef_cong]:
  "m = m' \<Longrightarrow> (\<And>a. m' = Inr a \<Longrightarrow> f a = f' a) \<Longrightarrow> bindE m f = bindE m' f'"
  by (cases m') auto

text \<open>The loop \<open>for _, x := range xs { if err := f(x); err != nil { return err } }\<close>.\<close>

primrec foldE :: "('a \<Rightarrow> 's \<Rightarrow> 'e + 's) \<Rightarrow> 'a list \<Rightarrow> 's \<Rightarrow> 'e + 's" where
  "foldE f [] s = Inr s"
| "foldE f (x # xs) s = bindE (f x s) (foldE f xs)"

lemma foldE_append: "foldE f (xs @ ys) s = bindE (foldE f xs s) (foldE f ys)"
  by (induction xs arbitrary: s) (auto simp: bindE_def split: sum.splits)

lemma foldE_inv:
  assumes "foldE f xs s = Inr s'" and "P s"
    and "\<And>x a b. x \<in> set xs \<Longrightarrow> P a \<Longrightarrow> f x a = Inr b \<Longrightarrow> P b"
  shows "P s'"
  using assms
proof (induction xs arbitrary: s)
  case Nil
  then show ?case by simp
next
  case (Cons x xs)
  from Cons.prems(1) obtain a where a: "f x s = Inr a" "foldE f xs a = Inr s'" by auto
  have "P a" using Cons.prems(3) [OF _ Cons.prems(2) a(1)] by simp
  then show ?case using Cons.prems(3) by (intro Cons.IH [OF a(2)]) auto
qed

text \<open>A relation between states that every iteration respects is respected by the loop.\<close>

lemma foldE_rel:
  assumes "foldE f xs s = Inr s'" and "P s" and "\<And>a. R a a"
    and "\<And>a b c. R a b \<Longrightarrow> R b c \<Longrightarrow> R a c"
    and "\<And>x a b. x \<in> set xs \<Longrightarrow> P a \<Longrightarrow> f x a = Inr b \<Longrightarrow> P b \<and> R a b"
  shows "P s' \<and> R s s'"
  using assms
proof (induction xs arbitrary: s)
  case Nil
  then show ?case by simp
next
  case (Cons x xs)
  from Cons.prems(1) obtain a where a: "f x s = Inr a" "foldE f xs a = Inr s'" by auto
  have st: "P a \<and> R s a" using Cons.prems(5) [OF _ Cons.prems(2) a(1)] by simp
  have "P s' \<and> R a s'"
  proof (rule Cons.IH [OF a(2) conjunct1 [OF st] Cons.prems(3)])
    show "R p r" if "R p q" "R q r" for p q r using Cons.prems(4) [OF that] .
    show "P q \<and> R p q" if "z \<in> set xs" "P p" "f z p = Inr q" for z p q
      using Cons.prems(5) [of z] that by simp
  qed
  then show ?case using st Cons.prems(4) by blast
qed

text \<open>An iteration whose effect \<open>Q x\<close> later iterations keep has its effect at the end.\<close>

lemma foldE_effect:
  assumes "foldE f xs s = Inr s'" and "P s" and "x \<in> set xs"
    and "\<And>y a b. y \<in> set xs \<Longrightarrow> P a \<Longrightarrow> f y a = Inr b \<Longrightarrow> P b"
    and "\<And>a b. P a \<Longrightarrow> f x a = Inr b \<Longrightarrow> Q b"
    and "\<And>y a b. y \<in> set xs \<Longrightarrow> P a \<Longrightarrow> Q a \<Longrightarrow> f y a = Inr b \<Longrightarrow> Q b"
  shows "Q s'"
  using assms
proof (induction xs arbitrary: s)
  case Nil
  from Nil.prems(3) show ?case by simp
next
  case (Cons y xs)
  from Cons.prems(1) obtain a where a: "f y s = Inr a" "foldE f xs a = Inr s'" by auto
  have Pa: "P a" using Cons.prems(4) [OF _ Cons.prems(2) a(1)] by simp
  show ?case
  proof (cases "x = y")
    case True
    then have Qa: "Q a" using Cons.prems(5) [OF Cons.prems(2)] a(1) by simp
    have step: "P b \<and> Q b" if "z \<in> set xs" "P c \<and> Q c" "f z c = Inr b" for z c b
      using that Cons.prems(4) [of z c b] Cons.prems(6) [of z c b] by simp
    have "P s' \<and> Q s'"
      by (rule foldE_inv [OF a(2), of "\<lambda>b. P b \<and> Q b"]) (use Pa Qa step in blast)+
    then show ?thesis ..
  next
    case False
    then have x: "x \<in> set xs" using Cons.prems(3) by simp
    show ?thesis
    proof (rule Cons.IH [OF a(2) Pa x])
      show "P q" if "z \<in> set xs" "P p" "f z p = Inr q" for z p q
        using Cons.prems(4) [of z] that by simp
      show "Q q" if "P p" "f x p = Inr q" for p q using Cons.prems(5) [OF that] .
      show "Q q" if "z \<in> set xs" "P p" "Q p" "f z p = Inr q" for z p q
        using Cons.prems(6) [of z] that by simp
    qed
  qed
qed

lemma foldE_total:
  assumes "P s" and "\<And>x a. x \<in> set xs \<Longrightarrow> P a \<Longrightarrow> \<exists>b. f x a = Inr b \<and> P b"
  shows "\<exists>s'. foldE f xs s = Inr s' \<and> P s'"
  using assms
proof (induction xs arbitrary: s)
  case Nil
  then show ?case by simp
next
  case (Cons x xs)
  from Cons.prems(2) [of x s] Cons.prems(1) obtain a where a: "f x s = Inr a" "P a" by auto
  have "\<exists>s'. foldE f xs a = Inr s' \<and> P s'"
    by (rule Cons.IH [OF a(2)]) (use Cons.prems(2) in simp)
  then show ?case using a(1) by simp
qed

section \<open>Decimal numerals\<close>

text \<open>
  \<open>strconv.FormatUint(n, 10)\<close> and the value of a digit string as \<open>strconv.ParseUint\<close>
  computes it, most significant digit first.
\<close>

definition digit_char :: "nat \<Rightarrow> char" where
  "digit_char d = char_of (48 + d)"

definition digit_val :: "char \<Rightarrow> nat" where
  "digit_val c = of_char c - 48"

definition is_digit :: "char \<Rightarrow> bool" where
  "is_digit c \<longleftrightarrow> 48 \<le> (of_char c :: nat) \<and> (of_char c :: nat) \<le> 57"

fun fmt_nat :: "nat \<Rightarrow> string" where
  "fmt_nat n = (if n < 10 then [digit_char n] else fmt_nat (n div 10) @ [digit_char (n mod 10)])"

declare fmt_nat.simps [simp del]

definition parse_digits :: "string \<Rightarrow> nat" where
  "parse_digits s = fold (\<lambda>c n. 10 * n + digit_val c) s 0"

lemma digit_char_val [simp]: "d < 10 \<Longrightarrow> digit_val (digit_char d) = d"
  by (simp add: digit_val_def digit_char_def of_char_of)

lemma is_digit_digit_char [simp]: "d < 10 \<Longrightarrow> is_digit (digit_char d)"
  by (simp add: is_digit_def digit_char_def of_char_of)

lemma digit_char_of_val: "is_digit c \<Longrightarrow> digit_char (digit_val c) = c"
  by (simp add: is_digit_def digit_char_def digit_val_def)

lemma digit_val_less: "is_digit c \<Longrightarrow> digit_val c < 10"
  by (auto simp: is_digit_def digit_val_def)

lemma parse_digits_snoc [simp]: "parse_digits (s @ [c]) = 10 * parse_digits s + digit_val c"
  by (simp add: parse_digits_def)

lemma parse_fmt_nat [simp]: "parse_digits (fmt_nat n) = n"
proof (induction n rule: fmt_nat.induct)
  case (1 n)
  then show ?case
    by (cases "n < 10") (simp_all add: fmt_nat.simps [of n] parse_digits_def)
qed

lemma fmt_nat_digits: "\<forall>c \<in> set (fmt_nat n). is_digit c"
proof (induction n rule: fmt_nat.induct)
  case (1 n)
  then show ?case by (cases "n < 10") (simp_all add: fmt_nat.simps [of n])
qed

lemma fmt_nat_nonempty [simp]: "fmt_nat n \<noteq> []"
  by (subst fmt_nat.simps) simp

lemma fmt_nat_inj [simp]: "fmt_nat m = fmt_nat n \<longleftrightarrow> m = n"
  by (metis parse_fmt_nat)

lemma length_fmt_nat: "n < 10 ^ Suc k \<Longrightarrow> length (fmt_nat n) \<le> Suc k"
proof (induction k arbitrary: n)
  case 0
  then show ?case by (simp add: fmt_nat.simps [of n])
next
  case (Suc k)
  show ?case
  proof (cases "n < 10")
    case True
    then show ?thesis by (simp add: fmt_nat.simps [of n])
  next
    case False
    have "n div 10 < 10 ^ Suc k" using Suc.prems by (simp add: less_mult_imp_div_less)
    then show ?thesis using Suc.IH False by (simp add: fmt_nat.simps [of n])
  qed
qed

end
