(* ===== verification/Interner.thy ===== *)
theory Interner
  imports Prelude
begin

unbundle bit_operations_syntax

text \<open>
  The symbol table of the Datalog engine (\<open>internal/datalog/engine.go\<close>: \<open>interner\<close>,
  \<open>tkey\<close>, \<open>sgKey\<close>) and the reserved integer range of \<open>internal/datalog/builtin.go\<close>.

  Terms are strings at the public boundary and \<^typ>\<open>uint32\<close> symbols inside. A decimal below
  \<open>2\<^sup>31\<close> is its own symbol with the top bit set; every other string is an index into
  \<open>strs\<close>. Tuples and call patterns are packed into fixed-size keys, so that a hash map can
  be indexed by them.

  Reading \<open>strs\<close> out of range panics in Go; here it is \<open>None\<close>.
\<close>

section \<open>State and operations\<close>

type_synonym tuple = "string list"
type_synonym itup = "uint32 list"

record interner =
  ids :: "string \<Rightarrow> uint32 option"
  strs :: "string list"

definition newInterner :: interner where
  "newInterner = \<lparr>ids = Map.empty, strs = []\<rparr>"

definition intSymFlag :: uint32 where
  "intSymFlag = push_bit 31 1"

definition parseIntSym :: "string \<Rightarrow> uint32 option" where
  "parseIntSym s =
     (if s = [] \<or> length s > 10 then None
      else if \<not> list_all is_digit s then None
      else let n = parse_digits s in if n \<ge> 2 ^ 31 then None else Some (of_nat n))"

definition decodeIntSym :: "uint32 \<Rightarrow> int option" where
  "decodeIntSym v = (if v AND intSymFlag \<noteq> 0 then Some (uint (v AND NOT intSymFlag)) else None)"

definition in_id :: "interner \<Rightarrow> string \<Rightarrow> uint32 \<times> interner" where
  "in_id i s =
     (case parseIntSym s of
        Some n \<Rightarrow> (intSymFlag OR n, i)
      | None \<Rightarrow>
          (case ids i s of
             Some v \<Rightarrow> (v, i)
           | None \<Rightarrow>
               let v = of_nat (length (strs i))
               in (v, i\<lparr>ids := (ids i)(s \<mapsto> v), strs := strs i @ [s]\<rparr>)))"

definition in_sym :: "interner \<Rightarrow> uint32 \<Rightarrow> string option" where
  "in_sym i v =
     (if v AND intSymFlag \<noteq> 0 then Some (fmt_nat (unat (v AND NOT intSymFlag)))
      else if unat v < length (strs i) then Some (strs i ! unat v) else None)"

fun intern :: "interner \<Rightarrow> tuple \<Rightarrow> itup \<times> interner" where
  "intern i [] = ([], i)"
| "intern i (s # t) =
     (let (v, i1) = in_id i s; (vs, i2) = intern i1 t in (v # vs, i2))"

fun reveal :: "interner \<Rightarrow> itup \<Rightarrow> tuple option" where
  "reveal i [] = Some []"
| "reveal i (v # vs) =
     (case in_sym i v of
        None \<Rightarrow> None
      | Some s \<Rightarrow> (case reveal i vs of None \<Rightarrow> None | Some t \<Rightarrow> Some (s # t)))"

text \<open>
  The packed keys. The first four symbols fill two 64-bit words; the tail of a wider tuple
  is spilled as little-endian bytes.
\<close>

definition le_bytes :: "uint32 \<Rightarrow> string" where
  "le_bytes v = map (\<lambda>k. char_of (unat (drop_bit (8 * k) v AND 255))) [0, 1, 2, 3]"

record tkey =
  tk_lo :: uint64
  tk_hi :: uint64
  tk_ext :: string

fun key_at :: "nat \<Rightarrow> itup \<Rightarrow> tkey \<Rightarrow> tkey" where
  "key_at p [] k = k"
| "key_at p (s # t) k =
     key_at (Suc p) t
       (let v = ucast s :: uint64 in
        if p = 0 then k\<lparr>tk_lo := tk_lo k OR push_bit 32 v\<rparr>
        else if p = 1 then k\<lparr>tk_lo := tk_lo k OR v\<rparr>
        else if p = 2 then k\<lparr>tk_hi := tk_hi k OR push_bit 32 v\<rparr>
        else if p = 3 then k\<lparr>tk_hi := tk_hi k OR v\<rparr>
        else k\<lparr>tk_ext := tk_ext k @ le_bytes s\<rparr>)"

definition key :: "itup \<Rightarrow> tkey" where
  "key t = key_at 0 t \<lparr>tk_lo = 0, tk_hi = 0, tk_ext = []\<rparr>"

text \<open>A call pattern: \<open>None\<close> is a free argument (a nil pointer in Go).\<close>

type_synonym binds = "uint32 option list"

record sgKey =
  sg_rel :: string
  sg_lo :: uint64
  sg_hi :: uint64
  sg_mask :: "8 word"
  sg_ext :: string

fun subgoalKey_at :: "nat \<Rightarrow> binds \<Rightarrow> sgKey \<Rightarrow> sgKey" where
  "subgoalKey_at p [] k = k"
| "subgoalKey_at p (b # bs) k =
     subgoalKey_at (Suc p) bs
       (let v = (case b of None \<Rightarrow> 0 | Some w \<Rightarrow> ucast w) :: uint64;
            on = (\<lambda>m. if b \<noteq> None then sg_mask k OR m else sg_mask k) in
        if p = 0 then k\<lparr>sg_lo := sg_lo k OR push_bit 32 v, sg_mask := on 1\<rparr>
        else if p = 1 then k\<lparr>sg_lo := sg_lo k OR v, sg_mask := on 2\<rparr>
        else if p = 2 then k\<lparr>sg_hi := sg_hi k OR push_bit 32 v, sg_mask := on 4\<rparr>
        else if p = 3 then k\<lparr>sg_hi := sg_hi k OR v, sg_mask := on 8\<rparr>
        else k\<lparr>sg_ext := sg_ext k @
               (case b of None \<Rightarrow> map char_of [0, 0, 0, 0, 0 :: nat]
                | Some w \<Rightarrow> char_of (1 :: nat) # le_bytes w)\<rparr>)"

definition subgoalKey :: "string \<Rightarrow> binds \<Rightarrow> sgKey" where
  "subgoalKey rel bs =
     subgoalKey_at 0 bs \<lparr>sg_rel = rel, sg_lo = 0, sg_hi = 0, sg_mask = 0, sg_ext = []\<rparr>"

section \<open>Integer symbols\<close>

lemma intSymFlag_eq: "intSymFlag = 2 ^ 31"
  by (simp add: intSymFlag_def push_bit_eq_mult)

lemma bit_intSymFlag: "bit intSymFlag n \<longleftrightarrow> n = 31"
  unfolding intSymFlag_def bit_push_bit_iff bit_1_iff by auto

lemma intSymFlag_nonzero [simp]: "intSymFlag \<noteq> 0"
  using bit_intSymFlag [of 31] by auto

lemma and_flag_nonzero: "(v :: uint32) AND intSymFlag \<noteq> 0 \<longleftrightarrow> bit v 31"
proof -
  have "(v AND intSymFlag \<noteq> 0) \<longleftrightarrow> (\<exists>n. bit (v AND intSymFlag) n)"
    by (metis bit_eqI bit_0_eq bot_fun_def bot_bool_def)
  then show ?thesis by (auto simp: bit_and_iff bit_intSymFlag)
qed

lemma bit31_iff: "bit (v :: uint32) 31 \<longleftrightarrow> 2 ^ 31 \<le> unat v"
proof -
  have "unat v < 2 ^ 32" using unsigned_less [of v] by simp
  then have "unat v div 2 ^ 31 < 2" by (simp add: less_mult_imp_div_less)
  then have "odd (unat v div 2 ^ 31) \<longleftrightarrow> 2 ^ 31 \<le> unat v"
    by (cases "2 ^ 31 \<le> unat v") (auto simp: not_le numeral_2_eq_2 less_Suc_eq div_eq_0_iff)
  moreover have "bit v 31 \<longleftrightarrow> bit (unat v) 31" by (simp add: bit_unsigned_iff)
  ultimately show ?thesis by (simp add: bit_iff_odd)
qed

lemma flag_or_decode:
  assumes "\<not> bit (n :: uint32) 31"
  shows "(intSymFlag OR n) AND NOT intSymFlag = n"
proof (rule bit_word_eqI)
  fix k
  assume "k < LENGTH(32)"
  then show "bit ((intSymFlag OR n) AND NOT intSymFlag) k = bit n k"
    using assms by (auto simp: bit_simps bit_intSymFlag)
qed

lemma flag_or_clear:
  assumes "bit (v :: uint32) 31"
  shows "intSymFlag OR (v AND NOT intSymFlag) = v"
proof (rule bit_word_eqI)
  fix k
  assume "k < LENGTH(32)"
  then show "bit (intSymFlag OR (v AND NOT intSymFlag)) k = bit v k"
    using assms by (auto simp: bit_simps bit_intSymFlag)
qed

lemma bit_flag_or: "bit (intSymFlag OR (n :: uint32)) 31"
  by (simp add: bit_or_iff bit_intSymFlag)

lemma parseIntSym_no_flag: "parseIntSym s = Some n \<Longrightarrow> \<not> bit n 31"
  by (auto simp: parseIntSym_def bit31_iff Let_def unat_of_nat split: if_splits)

lemma parseIntSym_val: "parseIntSym s = Some n \<Longrightarrow> unat n = parse_digits s"
  by (auto simp: parseIntSym_def Let_def unat_of_nat split: if_splits)

lemma parseIntSym_fmt:
  assumes "\<not> bit (n :: uint32) 31"
  shows "parseIntSym (fmt_nat (unat n)) = Some n"
proof -
  have n: "unat n < 2 ^ 31" using assms by (simp add: bit31_iff)
  then have "length (fmt_nat (unat n)) \<le> Suc 9" by (intro length_fmt_nat) simp
  moreover have "list_all is_digit (fmt_nat (unat n))"
    using fmt_nat_digits by (simp add: list_all_iff)
  ultimately show ?thesis using n by (simp add: parseIntSym_def)
qed

lemma decodeIntSym_flag:
  assumes "parseIntSym s = Some n"
  shows "decodeIntSym (intSymFlag OR n) = Some (int (parse_digits s))"
proof -
  have nb: "\<not> bit n 31" using assms by (rule parseIntSym_no_flag)
  have "uint n = int (parse_digits s)" using parseIntSym_val [OF assms] by (metis uint_nat)
  then show ?thesis
    unfolding decodeIntSym_def and_flag_nonzero flag_or_decode [OF nb]
    by (simp add: bit_flag_or)
qed

section \<open>Interning and revealing\<close>

text \<open>
  The table invariant: each assigned symbol names its string, no numeral has an entry, and
  the indices stay below the integer flag.
\<close>

definition interner_ok :: "interner \<Rightarrow> bool" where
  "interner_ok i \<longleftrightarrow> length (strs i) \<le> 2 ^ 31
     \<and> (\<forall>s v. ids i s = Some v \<longrightarrow> parseIntSym s = None \<and> unat v < length (strs i) \<and> strs i ! unat v = s)
     \<and> (\<forall>k < length (strs i). ids i (strs i ! k) = Some (of_nat k))"

text \<open>What a term becomes by going through the table: a numeral is normalised.\<close>

definition canon :: "string \<Rightarrow> string" where
  "canon s = (case parseIntSym s of Some n \<Rightarrow> fmt_nat (unat n) | None \<Rightarrow> s)"

lemma canon_idem [simp]: "canon (canon s) = canon s"
  by (auto simp: canon_def parseIntSym_fmt parseIntSym_no_flag split: option.splits)

lemma newInterner_ok [inv_intros]: "interner_ok newInterner"
  by (simp add: interner_ok_def newInterner_def)

lemma in_id_ok [inv_intros]:
  assumes "interner_ok i" and "length (strs i) < 2 ^ 31"
  shows "interner_ok (snd (in_id i s))"
proof (cases "parseIntSym s = None \<and> ids i s = None")
  case False
  then show ?thesis using assms by (auto simp: in_id_def split: option.splits)
next
  case True
  have len: "unat (of_nat (length (strs i)) :: uint32) = length (strs i)"
    using assms(2) by (simp add: unat_of_nat)
  have "ids i s = None \<Longrightarrow> k < length (strs i) \<Longrightarrow> strs i ! k \<noteq> s" for k
    using assms(1) by (auto simp: interner_ok_def)
  then show ?thesis
    using True assms len
    by (auto simp: interner_ok_def in_id_def nth_append Let_def less_Suc_eq)
qed

lemma in_id_length: "length (strs (snd (in_id i s))) \<le> Suc (length (strs i))"
  by (auto simp: in_id_def Let_def split: option.splits)

lemma in_id_sym:
  assumes "interner_ok i" and "length (strs i) < 2 ^ 31"
  shows "in_sym (snd (in_id i s)) (fst (in_id i s)) = Some (canon s)"
proof (cases "parseIntSym s")
  case (Some n)
  then have "\<not> bit n 31" by (rule parseIntSym_no_flag)
  then show ?thesis
    using Some by (simp add: in_id_def in_sym_def canon_def and_flag_nonzero bit_flag_or flag_or_decode)
next
  case None
  have small: "\<not> bit v 31" if "unat v < 2 ^ 31" for v :: uint32 using that by (simp add: bit31_iff)
  have "unat (of_nat (length (strs i)) :: uint32) = length (strs i)"
    using assms(2) by (simp add: unat_of_nat)
  moreover have "unat v < 2 ^ 31" if "ids i s = Some v" for v
    using that assms by (fastforce simp: interner_ok_def)
  ultimately show ?thesis
    using None assms
    by (auto simp: in_id_def in_sym_def canon_def and_flag_nonzero Let_def interner_ok_def small
        split: option.splits)
qed

lemma in_sym_mono: "in_sym i v = Some t \<Longrightarrow> in_sym (snd (in_id i s)) v = Some t"
  by (auto simp: in_id_def in_sym_def Let_def nth_append split: option.splits if_splits)

lemma in_sym_inj:
  assumes ok: "interner_ok i" and v: "in_sym i v = Some s" and w: "in_sym i w = Some s"
  shows "v = w"
proof -
  have numeral: "parseIntSym s = Some (u AND NOT intSymFlag)"
    if "in_sym i u = Some s" "bit u 31" for u
  proof -
    have "\<not> bit (u AND NOT intSymFlag) 31" by (simp add: bit_simps bit_intSymFlag)
    then show ?thesis using that by (auto simp: in_sym_def and_flag_nonzero parseIntSym_fmt)
  qed
  have index: "ids i s = Some u \<and> parseIntSym s = None"
    if "in_sym i u = Some s" "\<not> bit u 31" for u
    using that ok by (auto simp: in_sym_def and_flag_nonzero interner_ok_def split: if_splits)
  show ?thesis
  proof (cases "bit v 31")
    case True
    with v numeral have "parseIntSym s = Some (v AND NOT intSymFlag)" by blast
    moreover from this w index have "bit w 31" by fastforce
    moreover from this w numeral have "parseIntSym s = Some (w AND NOT intSymFlag)" by blast
    ultimately show ?thesis using True by (metis flag_or_clear option.inject)
  next
    case False
    with v index have "ids i s = Some v \<and> parseIntSym s = None" by blast
    moreover from this w numeral have "\<not> bit w 31" by fastforce
    moreover from this w index have "ids i s = Some w" by blast
    ultimately show ?thesis by simp
  qed
qed

lemma intern_ok [inv_intros]:
  "interner_ok i \<Longrightarrow> length (strs i) + length t \<le> 2 ^ 31 \<Longrightarrow> interner_ok (snd (intern i t))"
proof (induction t arbitrary: i)
  case Nil
  then show ?case by simp
next
  case (Cons s t)
  then have "interner_ok (snd (in_id i s))" by (intro in_id_ok) auto
  moreover have "length (strs (snd (in_id i s))) + length t \<le> 2 ^ 31"
    using Cons.prems(2) in_id_length [of i s] by simp
  ultimately show ?case using Cons.IH by (auto simp: split_beta Let_def)
qed

lemma intern_length [simp]: "length (fst (intern i t)) = length t"
  by (induction t arbitrary: i) (auto simp: split_beta Let_def)

lemma intern_mono: "in_sym i v = Some u \<Longrightarrow> in_sym (snd (intern i t)) v = Some u"
  by (induction t arbitrary: i) (auto simp: split_beta Let_def in_sym_mono)

lemma reveal_intern:
  assumes "interner_ok i" and "length (strs i) + length t \<le> 2 ^ 31"
  shows "reveal (snd (intern i t)) (fst (intern i t)) = Some (map canon t)"
  using assms
proof (induction t arbitrary: i)
  case Nil
  then show ?case by simp
next
  case (Cons s t)
  let ?j = "snd (in_id i s)"
  have ok: "interner_ok ?j" using Cons.prems by (intro in_id_ok) auto
  have len: "length (strs ?j) + length t \<le> 2 ^ 31"
    using Cons.prems(2) in_id_length [of i s] by simp
  have "in_sym ?j (fst (in_id i s)) = Some (canon s)"
    using Cons.prems by (intro in_id_sym) auto
  then show ?case using Cons.IH [OF ok len] by (simp add: split_beta Let_def intern_mono)
qed

lemma reveal_length: "reveal i v = Some t \<Longrightarrow> length t = length v"
  by (induction v arbitrary: t) (auto split: option.splits)

lemma reveal_inj:
  "interner_ok i \<Longrightarrow> reveal i v = Some t \<Longrightarrow> reveal i w = Some t \<Longrightarrow> v = w"
proof (induction v arbitrary: w t)
  case Nil
  then show ?case using reveal_length by fastforce
next
  case (Cons x v)
  from Cons.prems(2) obtain s t' where x: "in_sym i x = Some s" "reveal i v = Some t'" "t = s # t'"
    by (auto split: option.splits)
  with Cons.prems(3) reveal_length [of i w t] obtain y w' where w: "w = y # w'" by (cases w) auto
  with Cons.prems(3) x have "in_sym i y = Some s" "reveal i w' = Some t'"
    by (auto split: option.splits)
  then show ?case using Cons.IH [OF Cons.prems(1)] x w in_sym_inj [OF Cons.prems(1)] by blast
qed

section \<open>Packed keys\<close>

lemma pack_inj:
  fixes a b c d :: uint32
  assumes "push_bit 32 (ucast a :: uint64) OR ucast b = push_bit 32 (ucast c) OR ucast d"
  shows "a = c \<and> b = d"
proof -
  have hi: "ucast (drop_bit 32 (push_bit 32 (ucast x :: uint64) OR ucast y)) = x" for x y :: uint32
    by (rule bit_word_eqI) (auto simp: bit_simps dest: bit_imp_le_length)
  have lo: "ucast (push_bit 32 (ucast x :: uint64) OR ucast y) = y" for x y :: uint32
    by (rule bit_word_eqI) (auto simp: bit_simps)
  show ?thesis using assms hi [of a b] hi [of c d] lo [of a b] lo [of c d] by metis
qed

lemma pack_zero_inj:
  fixes a c :: uint32
  shows "push_bit 32 (ucast a :: uint64) = push_bit 32 (ucast c) \<Longrightarrow> a = c"
  using pack_inj [of a 0 c 0] by simp

lemma le_bytes_length [simp]: "length (le_bytes v) = 4"
  by (simp add: le_bytes_def)

lemma byte_inj:
  fixes v w :: uint32
  assumes "char_of (unat (v AND 255)) = (char_of (unat (w AND 255)) :: char)"
  shows "v AND 255 = w AND 255"
proof -
  have lt: "unat (x AND 255) < 256" for x :: uint32
    using word_and_le1 [of x 255] by (simp add: word_le_nat_alt)
  have "unat (v AND 255) mod 256 = unat (w AND 255) mod 256"
    using assms by (metis of_char_of)
  then have "unat (v AND 255) = unat (w AND 255)"
    using lt [of v] lt [of w] by simp
  then show ?thesis by (rule unsigned_word_eqI)
qed

lemma le_bytes_inj [simp]: "le_bytes v = le_bytes w \<longleftrightarrow> v = w"
proof
  assume eq: "le_bytes v = le_bytes w"
  have byte: "drop_bit (8 * k) v AND 255 = drop_bit (8 * k) w AND 255" if "k < 4" for k
  proof (rule byte_inj)
    from that have k: "k \<in> set [0, 1, 2, 3]" by auto
    show "char_of (unat (drop_bit (8 * k) v AND 255)) = (char_of (unat (drop_bit (8 * k) w AND 255)) :: char)"
      using eq [unfolded le_bytes_def map_eq_conv] k by blast
  qed
  have mask: "(255 :: uint32) = mask 8" by (simp add: mask_eq_exp_minus_1)
  show "v = w"
  proof (rule bit_word_eqI)
    fix n
    assume "n < LENGTH(32)"
    then have k: "n div 8 < 4" by simp
    have "bit (drop_bit (8 * (n div 8)) x AND 255) (n mod 8) = bit x n" for x :: uint32
      unfolding mask by (auto simp: bit_simps intro: order_less_trans [of _ 8])
    then show "bit v n = bit w n" using byte [OF k] by metis
  qed
qed simp

lemma concat_le_bytes_inj:
  "length t = length u \<Longrightarrow> concat (map le_bytes t) = concat (map le_bytes u) \<longleftrightarrow> t = u"
  by (induction t u rule: list_induct2) auto

lemma key_at_tail:
  "4 \<le> p \<Longrightarrow> key_at p t k = k\<lparr>tk_ext := tk_ext k @ concat (map le_bytes t)\<rparr>"
  by (induction p t k rule: key_at.induct) auto

lemma key_eqs:
  "key [] = \<lparr>tk_lo = 0, tk_hi = 0, tk_ext = []\<rparr>"
  "key [a] = \<lparr>tk_lo = push_bit 32 (ucast a), tk_hi = 0, tk_ext = []\<rparr>"
  "key [a, b] = \<lparr>tk_lo = push_bit 32 (ucast a) OR ucast b, tk_hi = 0, tk_ext = []\<rparr>"
  "key [a, b, c] =
     \<lparr>tk_lo = push_bit 32 (ucast a) OR ucast b, tk_hi = push_bit 32 (ucast c), tk_ext = []\<rparr>"
  "key (a # b # c # d # r) =
     \<lparr>tk_lo = push_bit 32 (ucast a) OR ucast b, tk_hi = push_bit 32 (ucast c) OR ucast d,
      tk_ext = concat (map le_bytes r)\<rparr>"
  by (simp_all add: key_def key_at_tail)

lemma list4_cases [case_names n0 n1 n2 n3 n4]:
  assumes "xs = [] \<Longrightarrow> P" and "\<And>a. xs = [a] \<Longrightarrow> P" and "\<And>a b. xs = [a, b] \<Longrightarrow> P"
    and "\<And>a b c. xs = [a, b, c] \<Longrightarrow> P" and "\<And>a b c d r. xs = a # b # c # d # r \<Longrightarrow> P"
  shows P
  using assms by (metis list.exhaust)

lemma key_inj:
  assumes "length t = length u"
  shows "key t = key u \<longleftrightarrow> t = u"
proof (rule iffI)
  assume eq: "key t = key u"
  from assms have len: "length u = length t" by simp
  show "t = u"
  proof (cases t rule: list4_cases)
    case n0
    then show ?thesis using len by simp
  next
    case (n1 a)
    then obtain a' where "u = [a']" using len by (auto simp: length_Suc_conv)
    then show ?thesis using n1 eq by (auto simp: key_eqs dest: pack_zero_inj)
  next
    case (n2 a b)
    then obtain a' b' where "u = [a', b']" using len by (auto simp: length_Suc_conv)
    then show ?thesis using n2 eq by (auto simp: key_eqs dest: pack_inj)
  next
    case (n3 a b c)
    then obtain a' b' c' where "u = [a', b', c']" using len by (auto simp: length_Suc_conv)
    then show ?thesis using n3 eq by (auto simp: key_eqs dest: pack_inj pack_zero_inj)
  next
    case (n4 a b c d r)
    then have "length u = Suc (Suc (Suc (Suc (length r))))" using len by simp
    then obtain a' b' c' d' r' where u: "u = a' # b' # c' # d' # r'" "length r = length r'"
      by (auto simp: length_Suc_conv)
    have "push_bit 32 (ucast a :: uint64) OR ucast b = push_bit 32 (ucast a') OR ucast b'"
      and "push_bit 32 (ucast c :: uint64) OR ucast d = push_bit 32 (ucast c') OR ucast d'"
      and "concat (map le_bytes r) = concat (map le_bytes r')"
      using n4 u(1) eq by (simp_all add: key_eqs)
    then show ?thesis using n4 u pack_inj concat_le_bytes_inj by blast
  qed
qed simp

definition bval :: "uint32 option \<Rightarrow> uint32" where
  "bval b = (case b of None \<Rightarrow> 0 | Some w \<Rightarrow> w)"

definition mbit :: "8 word \<Rightarrow> uint32 option \<Rightarrow> 8 word" where
  "mbit m b = (if b = None then 0 else m)"

definition bext :: "uint32 option \<Rightarrow> string" where
  "bext b = (case b of None \<Rightarrow> map char_of [0, 0, 0, 0, 0 :: nat]
             | Some w \<Rightarrow> char_of (1 :: nat) # le_bytes w)"

lemma bval_inj: "bval b = bval c \<Longrightarrow> (b = None \<longleftrightarrow> c = None) \<Longrightarrow> b = c"
  by (auto simp: bval_def split: option.splits)

lemma bext_inj [simp]: "bext b = bext c \<longleftrightarrow> b = c"
  by (auto simp: bext_def split: option.splits)

lemma bext_length [simp]: "length (bext b) = 5"
  by (auto simp: bext_def split: option.splits)

lemma concat_bext_inj:
  "length t = length u \<Longrightarrow> concat (map bext t) = concat (map bext u) \<longleftrightarrow> t = u"
  by (induction t u rule: list_induct2) auto

lemma mask_inj:
  assumes "mbit 1 a OR mbit 2 b OR mbit 4 c OR mbit 8 d
    = mbit 1 a' OR mbit 2 b' OR mbit 4 c' OR mbit 8 d'"
  shows "(a = None \<longleftrightarrow> a' = None) \<and> (b = None \<longleftrightarrow> b' = None)
    \<and> (c = None \<longleftrightarrow> c' = None) \<and> (d = None \<longleftrightarrow> d' = None)"
proof -
  have b: "bit (mbit 1 x OR mbit 2 y OR mbit 4 z OR mbit 8 w) 0 \<longleftrightarrow> x \<noteq> None"
    "bit (mbit 1 x OR mbit 2 y OR mbit 4 z OR mbit 8 w) 1 \<longleftrightarrow> y \<noteq> None"
    "bit (mbit 1 x OR mbit 2 y OR mbit 4 z OR mbit 8 w) 2 \<longleftrightarrow> z \<noteq> None"
    "bit (mbit 1 x OR mbit 2 y OR mbit 4 z OR mbit 8 w) 3 \<longleftrightarrow> w \<noteq> None" for x y z w
    by (simp_all add: mbit_def bit_or_iff)
  show ?thesis using b [of a b c d, unfolded assms] b [of a' b' c' d'] by blast
qed

lemma subgoalKey_at_step:
  "subgoalKey_at p (b # bs) k =
     subgoalKey_at (Suc p) bs
       (if p = 0 then k\<lparr>sg_lo := sg_lo k OR push_bit 32 (ucast (bval b)), sg_mask := sg_mask k OR mbit 1 b\<rparr>
        else if p = 1 then k\<lparr>sg_lo := sg_lo k OR ucast (bval b), sg_mask := sg_mask k OR mbit 2 b\<rparr>
        else if p = 2 then k\<lparr>sg_hi := sg_hi k OR push_bit 32 (ucast (bval b)), sg_mask := sg_mask k OR mbit 4 b\<rparr>
        else if p = 3 then k\<lparr>sg_hi := sg_hi k OR ucast (bval b), sg_mask := sg_mask k OR mbit 8 b\<rparr>
        else k\<lparr>sg_ext := sg_ext k @ bext b\<rparr>)"
  unfolding subgoalKey_at.simps Let_def
  by (rule arg_cong [where f = "subgoalKey_at (Suc p) bs"])
     (cases b; simp add: bval_def mbit_def bext_def)

lemma subgoalKey_at_tail:
  "4 \<le> p \<Longrightarrow> subgoalKey_at p t k = k\<lparr>sg_ext := sg_ext k @ concat (map bext t)\<rparr>"
  by (induction t arbitrary: p k) (simp_all add: subgoalKey_at_step del: subgoalKey_at.simps(2))

lemma subgoalKey_eqs:
  "subgoalKey rl [] = \<lparr>sg_rel = rl, sg_lo = 0, sg_hi = 0, sg_mask = 0, sg_ext = []\<rparr>"
  "subgoalKey rl [a] = \<lparr>sg_rel = rl, sg_lo = push_bit 32 (ucast (bval a)) OR ucast (bval None), sg_hi = 0,
     sg_mask = mbit 1 a OR mbit 2 None OR mbit 4 None OR mbit 8 None, sg_ext = []\<rparr>"
  "subgoalKey rl [a, b] = \<lparr>sg_rel = rl, sg_lo = push_bit 32 (ucast (bval a)) OR ucast (bval b), sg_hi = 0,
     sg_mask = mbit 1 a OR mbit 2 b OR mbit 4 None OR mbit 8 None, sg_ext = []\<rparr>"
  "subgoalKey rl [a, b, c] = \<lparr>sg_rel = rl, sg_lo = push_bit 32 (ucast (bval a)) OR ucast (bval b),
     sg_hi = push_bit 32 (ucast (bval c)) OR ucast (bval None),
     sg_mask = mbit 1 a OR mbit 2 b OR mbit 4 c OR mbit 8 None, sg_ext = []\<rparr>"
  "subgoalKey rl (a # b # c # d # r) =
     \<lparr>sg_rel = rl, sg_lo = push_bit 32 (ucast (bval a)) OR ucast (bval b),
      sg_hi = push_bit 32 (ucast (bval c)) OR ucast (bval d),
      sg_mask = mbit 1 a OR mbit 2 b OR mbit 4 c OR mbit 8 d, sg_ext = concat (map bext r)\<rparr>"
  by (simp_all add: subgoalKey_def subgoalKey_at_step subgoalKey_at_tail or.assoc bval_def [of None]
      mbit_def [of _ None] del: subgoalKey_at.simps(2))

lemma pack_bval_inj:
  assumes "push_bit 32 (ucast (bval a) :: uint64) OR ucast (bval b) = push_bit 32 (ucast (bval c)) OR ucast (bval d)"
    and "(a = None \<longleftrightarrow> c = None) \<and> (b = None \<longleftrightarrow> d = None)"
  shows "a = c \<and> b = d"
  using pack_inj [OF assms(1)] assms(2) bval_inj by blast

lemma subgoalKey_inj:
  assumes "length t = length u"
  shows "subgoalKey r t = subgoalKey r' u \<longleftrightarrow> r = r' \<and> t = u"
proof (rule iffI)
  assume eq: "subgoalKey r t = subgoalKey r' u"
  from assms have len: "length u = length t" by simp
  show "r = r' \<and> t = u"
  proof (cases t rule: list4_cases)
    case n0
    then show ?thesis using len eq by (simp add: subgoalKey_eqs)
  next
    case (n1 a)
    then obtain a' where "u = [a']" using len by (auto simp: length_Suc_conv)
    then show ?thesis using n1 eq by (auto simp: subgoalKey_eqs dest!: mask_inj dest: pack_bval_inj)
  next
    case (n2 a b)
    then obtain a' b' where "u = [a', b']" using len by (auto simp: length_Suc_conv)
    then show ?thesis using n2 eq by (auto simp: subgoalKey_eqs dest!: mask_inj dest: pack_bval_inj)
  next
    case (n3 a b c)
    then obtain a' b' c' where "u = [a', b', c']" using len by (auto simp: length_Suc_conv)
    then show ?thesis using n3 eq by (auto simp: subgoalKey_eqs dest!: mask_inj dest: pack_bval_inj)
  next
    case (n4 a b c d v)
    then have "length u = Suc (Suc (Suc (Suc (length v))))" using len by simp
    then obtain a' b' c' d' v' where u: "u = a' # b' # c' # d' # v'" "length v = length v'"
      by (auto simp: length_Suc_conv)
    have m: "mbit 1 a OR mbit 2 b OR mbit 4 c OR mbit 8 d = mbit 1 a' OR mbit 2 b' OR mbit 4 c' OR mbit 8 d'"
      and lo: "push_bit 32 (ucast (bval a) :: uint64) OR ucast (bval b) = push_bit 32 (ucast (bval a')) OR ucast (bval b')"
      and hi: "push_bit 32 (ucast (bval c) :: uint64) OR ucast (bval d) = push_bit 32 (ucast (bval c')) OR ucast (bval d')"
      and x: "concat (map bext v) = concat (map bext v')" and r: "r = r'"
      using n4 u(1) eq by (simp_all add: subgoalKey_eqs)
    show ?thesis
      using mask_inj [OF m] pack_bval_inj [OF lo] pack_bval_inj [OF hi] x r n4 u
        concat_bext_inj [of v v'] by simp
  qed
qed simp

section \<open>Properties\<close>

lemma reveal_mono: "reveal i v = Some u \<Longrightarrow> reveal (snd (intern i t)) v = Some u"
  by (induction v arbitrary: u) (auto split: option.splits simp: intern_mono)

text \<open>
  Interning a tuple and revealing the symbols gives the tuple back, with each decimal numeral
  in its normal form; the table stays well formed, and every tuple that was interned before still
  reveals to the same strings.
\<close>

theorem interner_round_trip:
  assumes "interner_ok i" and "length (strs i) + length t \<le> 2 ^ 31"
  shows "interner_ok (snd (intern i t))
    \<and> reveal (snd (intern i t)) (fst (intern i t)) = Some (map canon t)
    \<and> (reveal i v = Some u \<longrightarrow> reveal (snd (intern i t)) v = Some u)"
  using intern_ok [OF assms] reveal_intern [OF assms] reveal_mono by blast

theorem interner_round_trip_witness:
  "reveal (snd (intern newInterner [''b'', ''7''])) (fst (intern newInterner [''b'', ''7''])) = Some [''b'', ''7'']"
proof -
  have "interner_ok newInterner" and "length (strs newInterner) + length [''b'', ''7''] \<le> 2 ^ 31"
    by (rule newInterner_ok) (simp add: newInterner_def)
  from interner_round_trip [OF this, of "[]" "[]"]
  have "reveal (snd (intern newInterner [''b'', ''7''])) (fst (intern newInterner [''b'', ''7'']))
    = Some (map canon [''b'', ''7''])" by blast
  moreover have "digit_char 7 = CHR ''7''"
    using digit_char_of_val [of "CHR ''7''"] by (simp add: is_digit_def digit_val_def)
  then have "map canon [''b'', ''7''] = [''b'', ''7'']"
    by (simp add: canon_def parseIntSym_def is_digit_def parse_digits_def digit_val_def fmt_nat.simps)
  ultimately show ?thesis by simp
qed

text \<open>
  The packed keys are faithful: two tuples of one width have the same key only if they are the
  same tuple, and two call patterns of one width (over any two relations) have the same subgoal
  key only if relation and pattern agree; in particular a bound symbol 0 is told from a free slot.
\<close>

theorem packed_keys_faithful:
  fixes t u :: itup and bs cs :: binds
  assumes "length t = length u" and "length bs = length cs"
  shows "(key t = key u \<longleftrightarrow> t = u) \<and> (subgoalKey r bs = subgoalKey r' cs \<longleftrightarrow> r = r' \<and> bs = cs)"
  using key_inj [OF assms(1)] subgoalKey_inj [OF assms(2)] by blast

theorem packed_keys_faithful_witness:
  "key [1, 2, 3, 4, 5] \<noteq> key [1, 2, 3, 4, 6] \<and> subgoalKey ''p'' [Some 0] \<noteq> subgoalKey ''p'' [None]"
  using packed_keys_faithful [of "[1, 2, 3, 4, 5]" "[1, 2, 3, 4, 6]" "[Some 0]" "[None]" "''p''" "''p''"]
  by simp

text \<open>Revealing is not the inverse of interning on numerals with leading zeros.\<close>

lemma leading_zeros_lost:
  "reveal (snd (intern newInterner [''007''])) (fst (intern newInterner [''007''])) = Some [''7'']"
proof -
  have "digit_char 7 = CHR ''7''"
    using digit_char_of_val [of "CHR ''7''"] by (simp add: is_digit_def digit_val_def)
  moreover have "reveal (snd (intern newInterner [''007''])) (fst (intern newInterner [''007''])) = Some (map canon [''007''])"
    using reveal_intern [OF newInterner_ok, of "[''007'']"] by (simp add: newInterner_def)
  ultimately show ?thesis
    by (simp add: canon_def parseIntSym_def is_digit_def parse_digits_def digit_val_def fmt_nat.simps)
qed

end
