(* ===== verification/Rel_Store.thy ===== *)
theory Rel_Store
  imports Interner
begin

text \<open>
  Tuple storage (\<open>internal/datalog/engine.go\<close>: \<open>relation\<close> and its methods;
  \<open>bottomup.go\<close>: \<open>deltaRelation\<close>).

  A relation keeps its rows in insertion order, a set of packed keys of the rows it has seen,
  and one index per argument position that is built on the first bound lookup and maintained
  by later inserts. The rows live in fixed-capacity blocks.

  Go mutates a relation in place; here each operation returns the new one. A call pattern has
  the relation's arity, which \<open>LoadRules\<close> and \<open>ready\<close> check before any lookup; Go would panic
  on a longer pattern.
\<close>

section \<open>State and operations\<close>

text \<open>A storage block: its capacity and the symbols written to it.\<close>

record chunk =
  ch_cap :: nat
  ch_data :: "uint32 list"

record relation =
  r_name :: string
  r_arity :: int
  r_tuples :: "itup list"
  r_chunks :: "chunk list"
  r_seen :: "tkey \<Rightarrow> bool"
  r_idx :: "(uint32 \<Rightarrow> itup list) list option"

definition chunkRows :: nat where
  "chunkRows = 512"

definition newRelation :: "string \<Rightarrow> int \<Rightarrow> relation" where
  "newRelation name ar =
     \<lparr>r_name = name, r_arity = ar, r_tuples = [], r_chunks = [], r_seen = (\<lambda>_. False), r_idx = None\<rparr>"

text \<open>
  \<open>alloc\<close> opens a block when the row does not fit and returns the row as a view of the block
  together with the new block list. Appending within the capacity never moves a block.
\<close>

definition open_chunk :: "relation \<Rightarrow> chunk list" where
  "open_chunk r =
     (let w = max 1 (nat (r_arity r)); n = length (r_tuples r);
          rows = (let n1 = (if n < 64 then 64 else n) in if n1 > chunkRows then chunkRows else n1)
      in if r_chunks r = []
           \<or> length (ch_data (last (r_chunks r))) + nat (r_arity r) > ch_cap (last (r_chunks r))
         then r_chunks r @ [\<lparr>ch_cap = rows * w, ch_data = []\<rparr>] else r_chunks r)"

definition alloc :: "relation \<Rightarrow> itup \<Rightarrow> itup \<times> relation" where
  "alloc r t =
     (let cs = open_chunk r; c = last cs; start = length (ch_data c); d = ch_data c @ t;
          c' = \<lparr>ch_cap = max (ch_cap c) (length d), ch_data = d\<rparr>
      in (take (nat (r_arity r)) (drop start d), r\<lparr>r_chunks := butlast cs @ [c']\<rparr>))"

text \<open>\<open>indexTuple\<close> files a row under each of its first \<open>arity\<close> arguments.\<close>

definition indexTuple :: "(uint32 \<Rightarrow> itup list) list \<Rightarrow> itup \<Rightarrow> (uint32 \<Rightarrow> itup list) list" where
  "indexTuple ix t =
     map (\<lambda>k. if k < length t then (ix ! k)(t ! k := (ix ! k) (t ! k) @ [t]) else ix ! k)
       [0 ..< length ix]"

definition buildIndex :: "relation \<Rightarrow> relation" where
  "buildIndex r =
     (case r_idx r of
        Some _ \<Rightarrow> r
      | None \<Rightarrow> r\<lparr>r_idx := Some (fold (\<lambda>t ix. indexTuple ix t) (r_tuples r)
                                    (replicate (nat (r_arity r)) (\<lambda>_. [])))\<rparr>)"

definition add :: "relation \<Rightarrow> itup \<Rightarrow> bool \<times> relation" where
  "add r t =
     (if r_seen r (key t) then (False, r)
      else let (stored, r1) = alloc (r\<lparr>r_seen := (r_seen r)(key t := True)\<rparr>) t;
               r2 = r1\<lparr>r_tuples := r_tuples r1 @ [stored]\<rparr>
           in (True, r2\<lparr>r_idx := map_option (\<lambda>ix. indexTuple ix stored) (r_idx r2)\<rparr>))"

definition has :: "relation \<Rightarrow> itup \<Rightarrow> bool" where
  "has r t = r_seen r (key t)"

fun matches :: "itup \<Rightarrow> binds \<Rightarrow> bool" where
  "matches t [] = True"
| "matches [] (b # bs) = (b = None \<and> matches [] bs)"
| "matches (v # t) (b # bs) = ((case b of None \<Rightarrow> True | Some w \<Rightarrow> v = w) \<and> matches t bs)"

definition anyBound :: "binds \<Rightarrow> bool" where
  "anyBound bs = list_ex (\<lambda>b. b \<noteq> None) bs"

text \<open>The bucket loop of \<open>selectCands\<close>: \<open>best\<close> is the smallest bucket so far.\<close>

fun best_bucket :: "(nat \<Rightarrow> uint32 \<Rightarrow> itup list) \<Rightarrow> nat \<Rightarrow> binds \<Rightarrow> itup list option \<Rightarrow> itup list option" where
  "best_bucket bk k [] best = best"
| "best_bucket bk k (None # bs) best = best_bucket bk (Suc k) bs best"
| "best_bucket bk k (Some v # bs) best =
     best_bucket bk (Suc k) bs
       (case best of
          None \<Rightarrow> Some (bk k v)
        | Some c \<Rightarrow> if length (bk k v) < length c then Some (bk k v) else Some c)"

definition selectCands :: "relation \<Rightarrow> binds \<Rightarrow> itup list \<times> relation" where
  "selectCands r bs =
     (let r' = (if anyBound bs then buildIndex r else r);
          bk = (\<lambda>k v. case r_idx r' of Some ix \<Rightarrow> (ix ! k) v | None \<Rightarrow> [])
      in case best_bucket bk 0 bs None of
           None \<Rightarrow> (r_tuples r', r')
         | Some c \<Rightarrow> (c, r'))"

definition exists_match :: "relation \<Rightarrow> binds \<Rightarrow> bool" where
  "exists_match r bs = list_ex (\<lambda>t. matches t bs) (fst (selectCands r bs))"

definition each :: "relation \<Rightarrow> binds \<Rightarrow> (itup \<Rightarrow> 's \<Rightarrow> 'e + 's) \<Rightarrow> 's \<Rightarrow> 'e + 's" where
  "each r bs f s =
     foldE (\<lambda>t s. if matches t bs then f t s else Inr s) (fst (selectCands r bs)) s"

definition match :: "relation \<Rightarrow> binds \<Rightarrow> itup list" where
  "match r bs = filter (\<lambda>t. matches t bs) (fst (selectCands r bs))"

text \<open>
  \<open>deltaRelation\<close>: the rows gained since position \<open>from\<close>, probeable but with an empty
  \<open>seen\<close> set (it is never inserted into).
\<close>

definition deltaRelation :: "relation \<Rightarrow> nat \<Rightarrow> relation option" where
  "deltaRelation r from =
     (if from \<ge> length (r_tuples r) then None
      else Some ((newRelation (r_name r) (r_arity r))\<lparr>r_tuples := drop from (r_tuples r)\<rparr>))"

section \<open>The representation invariant\<close>

definition idx_ok :: "nat \<Rightarrow> itup list \<Rightarrow> (uint32 \<Rightarrow> itup list) list \<Rightarrow> bool" where
  "idx_ok n ts ix \<longleftrightarrow> length ix = n \<and> (\<forall>k < n. \<forall>v. (ix ! k) v = filter (\<lambda>t. t ! k = v) ts)"

definition chunks_ok :: "relation \<Rightarrow> bool" where
  "chunks_ok r \<longleftrightarrow>
     (\<forall>c \<in> set (r_chunks r). length (ch_data c) \<le> ch_cap c \<and> ch_cap c \<le> chunkRows * max 1 (nat (r_arity r)))
     \<and> concat (map ch_data (r_chunks r)) = concat (r_tuples r)"

definition rows_ok :: "nat \<Rightarrow> relation \<Rightarrow> bool" where
  "rows_ok n r \<longleftrightarrow> r_arity r = int n \<and> (\<forall>t \<in> set (r_tuples r). length t = n) \<and> distinct (r_tuples r)
     \<and> (\<forall>ix. r_idx r = Some ix \<longrightarrow> idx_ok n (r_tuples r) ix)"

definition relation_ok :: "nat \<Rightarrow> relation \<Rightarrow> bool" where
  "relation_ok n r \<longleftrightarrow> rows_ok n r \<and> chunks_ok r
     \<and> (\<forall>t. length t = n \<longrightarrow> (r_seen r (key t) \<longleftrightarrow> t \<in> set (r_tuples r)))"

lemma relation_okD:
  assumes "relation_ok n r"
  shows "r_arity r = int n" "\<forall>t \<in> set (r_tuples r). length t = n" "distinct (r_tuples r)"
    "length t = n \<Longrightarrow> r_seen r (key t) \<longleftrightarrow> t \<in> set (r_tuples r)" "rows_ok n r" "chunks_ok r"
  using assms by (auto simp: relation_ok_def rows_ok_def)

lemma newRelation_ok [inv_intros]: "relation_ok n (newRelation name (int n))"
  by (simp add: relation_ok_def rows_ok_def chunks_ok_def newRelation_def)

lemma newRelation_tuples [simp]:
  "r_tuples (newRelation name ar) = []" "r_arity (newRelation name ar) = ar"
  "r_name (newRelation name ar) = name"
  by (simp_all add: newRelation_def)

section \<open>Storage blocks\<close>

lemma open_chunk_facts:
  assumes ok: "chunks_ok r" and ar: "r_arity r = int n"
  defines "cs \<equiv> open_chunk r"
  shows "cs \<noteq> []" and "\<forall>c \<in> set cs. length (ch_data c) \<le> ch_cap c \<and> ch_cap c \<le> chunkRows * max 1 n"
    and "length (ch_data (last cs)) + n \<le> ch_cap (last cs)"
    and "concat (map ch_data cs) = concat (r_tuples r)"
proof -
  have "n \<le> 64 * max 1 n" by simp
  then show "cs \<noteq> []" and "length (ch_data (last cs)) + n \<le> ch_cap (last cs)"
    by (auto simp: cs_def open_chunk_def ar Let_def chunkRows_def max_def)
  show "\<forall>c \<in> set cs. length (ch_data c) \<le> ch_cap c \<and> ch_cap c \<le> chunkRows * max 1 n"
    using ok ar by (auto simp: cs_def open_chunk_def Let_def chunks_ok_def chunkRows_def)
  show "concat (map ch_data cs) = concat (r_tuples r)"
    using ok by (auto simp: cs_def open_chunk_def Let_def chunks_ok_def)
qed

lemma alloc_view:
  assumes "r_arity r = int (length t)"
  shows "fst (alloc r t) = t"
  using assms by (simp add: alloc_def Let_def)

lemma alloc_chunks:
  assumes ok: "chunks_ok r" and ar: "r_arity r = int (length t)"
  shows "chunks_ok (snd (alloc r t)\<lparr>r_tuples := r_tuples r @ [t]\<rparr>)"
proof -
  define cs where "cs = open_chunk r"
  note facts = open_chunk_facts [OF ok ar, folded cs_def]
  define c where "c = last cs"
  have cs: "cs = butlast cs @ [c]" using facts(1) by (simp add: c_def)
  have cap: "length (ch_data c) + length t \<le> ch_cap c" using facts(3) by (simp add: c_def)
  have all: "\<forall>d \<in> set (butlast cs). length (ch_data d) \<le> ch_cap d \<and> ch_cap d \<le> chunkRows * max 1 (length t)"
    using facts(2) by (meson in_set_butlastD)
  have c2: "ch_cap c \<le> chunkRows * max 1 (length t)" using facts(1,2) by (simp add: c_def)
  have "concat (map ch_data (butlast cs)) @ ch_data c = concat (r_tuples r)"
    using facts(4) by (subst (asm) cs) simp
  then show ?thesis
    using all c2 cap ar
    by (auto simp: chunks_ok_def alloc_def Let_def cs_def [symmetric] c_def [symmetric])
qed

section \<open>Indexes\<close>

lemma indexTuple_ok:
  assumes "idx_ok n ts ix" and "length t = n"
  shows "idx_ok n (ts @ [t]) (indexTuple ix t)"
  using assms by (auto simp: idx_ok_def indexTuple_def)

lemma fold_indexTuple_ok:
  assumes "idx_ok n ts ix" and "\<forall>t \<in> set us. length t = n"
  shows "idx_ok n (ts @ us) (fold (\<lambda>t ix. indexTuple ix t) us ix)"
  using assms
proof (induction us arbitrary: ts ix)
  case Nil
  then show ?case by simp
next
  case (Cons u us)
  then have "idx_ok n (ts @ [u]) (indexTuple ix u)" by (intro indexTuple_ok) auto
  then show ?case using Cons.IH [of "ts @ [u]" "indexTuple ix u"] Cons.prems(2) by simp
qed

lemma buildIndex_rows:
  assumes "rows_ok n r"
  shows "rows_ok n (buildIndex r)" and "r_tuples (buildIndex r) = r_tuples r"
    and "\<exists>ix. r_idx (buildIndex r) = Some ix \<and> idx_ok n (r_tuples r) ix"
proof -
  have "idx_ok n [] (replicate n (\<lambda>_. []))" by (simp add: idx_ok_def)
  from fold_indexTuple_ok [OF this, of "r_tuples r"] assms
  have "idx_ok n (r_tuples r) (fold (\<lambda>t ix. indexTuple ix t) (r_tuples r) (replicate n (\<lambda>_. [])))"
    by (simp add: rows_ok_def)
  then show "rows_ok n (buildIndex r)" and "r_tuples (buildIndex r) = r_tuples r"
    and "\<exists>ix. r_idx (buildIndex r) = Some ix \<and> idx_ok n (r_tuples r) ix"
    using assms by (auto simp: buildIndex_def rows_ok_def split: option.splits)
qed

text \<open>The bucket loop returns some bucket of a bound position, or nothing when all are free.\<close>

lemma best_bucket_cases:
  assumes "\<And>k v. k < length bs \<Longrightarrow> bs ! k = Some v \<Longrightarrow> bk (p + k) v = B k v"
  shows "(best_bucket bk p bs best = best \<and> (best = None \<longrightarrow> \<not> anyBound bs))
    \<or> (\<exists>k v. k < length bs \<and> bs ! k = Some v \<and> best_bucket bk p bs best = Some (B k v))"
  using assms
proof (induction bk p bs best arbitrary: B rule: best_bucket.induct)
  case (1 bk k best)
  then show ?case by (simp add: anyBound_def)
next
  case (2 bk k bs best)
  have "(best_bucket bk (Suc k) bs best = best \<and> (best = None \<longrightarrow> \<not> anyBound bs))
    \<or> (\<exists>j v. j < length bs \<and> bs ! j = Some v \<and> best_bucket bk (Suc k) bs best = Some (B (Suc j) v))"
    by (rule "2.IH" [of "\<lambda>j. B (Suc j)"]) (use "2.prems" [of "Suc _"] in simp)
  then show ?case
  proof (elim disjE exE conjE)
    fix j v
    assume "j < length bs" "bs ! j = Some v" "best_bucket bk (Suc k) bs best = Some (B (Suc j) v)"
    then show ?thesis by (intro disjI2 exI [of _ "Suc j"] exI [of _ v]) simp
  qed (simp add: anyBound_def)
next
  case (3 bk k w bs best)
  define nb where "nb = (case best of None \<Rightarrow> Some (bk k w)
     | Some c \<Rightarrow> if length (bk k w) < length c then Some (bk k w) else Some c)"
  have "(best_bucket bk (Suc k) bs nb = nb \<and> (nb = None \<longrightarrow> \<not> anyBound bs))
    \<or> (\<exists>j v. j < length bs \<and> bs ! j = Some v \<and> best_bucket bk (Suc k) bs nb = Some (B (Suc j) v))"
    unfolding nb_def by (rule "3.IH" [of "\<lambda>j. B (Suc j)"]) (use "3.prems" [of "Suc _"] in simp)
  moreover have "nb = Some (B 0 w) \<or> nb = best \<and> best \<noteq> None"
    using "3.prems" [of 0 w] by (auto simp: nb_def split: option.splits)
  ultimately show ?case
  proof (elim disjE exE conjE)
    fix j v
    assume "j < length bs" "bs ! j = Some v" "best_bucket bk (Suc k) bs nb = Some (B (Suc j) v)"
    then show ?thesis by (intro disjI2 exI [of _ "Suc j"] exI [of _ v]) (simp add: nb_def)
  next
    assume "best_bucket bk (Suc k) bs nb = nb" "nb = Some (B 0 w)"
    then show ?thesis by (intro disjI2 exI [of _ 0] exI [of _ w]) (simp add: nb_def)
  qed (auto simp: nb_def)
qed

lemma matches_nth:
  "length bs \<le> length t \<Longrightarrow>
   matches t bs \<longleftrightarrow> (\<forall>k < length bs. \<forall>v. bs ! k = Some v \<longrightarrow> t ! k = v)"
proof (induction t bs rule: matches.induct)
  case (3 v t b bs)
  then show ?case by (auto simp: All_less_Suc2 split: option.splits)
qed auto

lemma matches_free: "\<not> anyBound bs \<Longrightarrow> matches t bs"
  by (induction t bs rule: matches.induct) (auto simp: anyBound_def)

section \<open>Lookups\<close>

text \<open>
  Whatever bucket is scanned, filtering it by the call pattern gives exactly the rows of the
  relation that match the pattern, in insertion order, and building the index changes neither
  the rows nor the answers.
\<close>

lemma selectCands_filter:
  assumes ok: "rows_ok n r" and len: "length bs = n"
  shows "filter (\<lambda>t. matches t bs) (fst (selectCands r bs)) = filter (\<lambda>t. matches t bs) (r_tuples r)"
    and "set (fst (selectCands r bs)) \<subseteq> set (r_tuples r)"
    and "rows_ok n (snd (selectCands r bs))" and "r_tuples (snd (selectCands r bs)) = r_tuples r"
proof -
  define r' where "r' = (if anyBound bs then buildIndex r else r)"
  define bk where "bk = (\<lambda>k v. case r_idx r' of Some ix \<Rightarrow> (ix ! k) v | None \<Rightarrow> [])"
  have r': "rows_ok n r'" "r_tuples r' = r_tuples r"
    using buildIndex_rows [OF ok] ok by (auto simp: r'_def)
  have bk: "bk (0 + k) v = filter (\<lambda>t. t ! k = v) (r_tuples r)" if "k < length bs" "bs ! k = Some v" for k v
  proof -
    have "anyBound bs" using that nth_mem [OF that(1)] by (auto simp: anyBound_def list_ex_iff)
    then obtain ix where "r_idx r' = Some ix" "idx_ok n (r_tuples r) ix"
      using buildIndex_rows(3) [OF ok] by (auto simp: r'_def)
    then show ?thesis using that len by (simp add: bk_def idx_ok_def)
  qed
  have sel: "selectCands r bs = (case best_bucket bk 0 bs None of None \<Rightarrow> (r_tuples r', r') | Some c \<Rightarrow> (c, r'))"
    by (simp add: selectCands_def r'_def [symmetric] bk_def [symmetric] Let_def)
  from sel r' show "rows_ok n (snd (selectCands r bs))" "r_tuples (snd (selectCands r bs)) = r_tuples r"
    by (auto split: option.splits)
  have rows: "\<forall>t \<in> set (r_tuples r). length t = n" using ok by (simp add: rows_ok_def)
  have "(best_bucket bk 0 bs None = None \<and> (None = (None :: itup list option) \<longrightarrow> \<not> anyBound bs))
    \<or> (\<exists>k v. k < length bs \<and> bs ! k = Some v
         \<and> best_bucket bk 0 bs None = Some (filter (\<lambda>t. t ! k = v) (r_tuples r)))"
    by (rule best_bucket_cases) (rule bk)
  then have "filter (\<lambda>t. matches t bs) (fst (selectCands r bs)) = filter (\<lambda>t. matches t bs) (r_tuples r)
    \<and> set (fst (selectCands r bs)) \<subseteq> set (r_tuples r)"
  proof (elim disjE exE conjE)
    assume "best_bucket bk 0 bs None = None"
    then show ?thesis using r' sel by simp
  next
    fix k v
    assume k: "k < length bs" "bs ! k = Some v"
      and b: "best_bucket bk 0 bs None = Some (filter (\<lambda>t. t ! k = v) (r_tuples r))"
    have "filter (\<lambda>t. t ! k = v \<and> matches t bs) (r_tuples r) = filter (\<lambda>t. matches t bs) (r_tuples r)"
      using rows len k by (intro filter_cong) (auto simp: matches_nth)
    then show ?thesis using b sel by (auto simp: conj_commute)
  qed
  then show "filter (\<lambda>t. matches t bs) (fst (selectCands r bs)) = filter (\<lambda>t. matches t bs) (r_tuples r)"
    and "set (fst (selectCands r bs)) \<subseteq> set (r_tuples r)" by simp_all
qed

lemma match_eq:
  "rows_ok n r \<Longrightarrow> length bs = n \<Longrightarrow> match r bs = filter (\<lambda>t. matches t bs) (r_tuples r)"
  by (simp add: match_def selectCands_filter)

lemma exists_match_iff:
  "rows_ok n r \<Longrightarrow> length bs = n \<Longrightarrow> exists_match r bs \<longleftrightarrow> (\<exists>t \<in> set (r_tuples r). matches t bs)"
  using arg_cong [OF selectCands_filter(1) [of n r bs], of set] by (auto simp: exists_match_def list_ex_iff)

lemma selectCands_matching:
  assumes "rows_ok n r" "length bs = n"
  shows "t \<in> set (fst (selectCands r bs)) \<and> matches t bs \<longleftrightarrow> t \<in> set (r_tuples r) \<and> matches t bs"
  using arg_cong [OF selectCands_filter(1) [OF assms], of set] by auto

lemma foldE_filter: "foldE (\<lambda>x s. if P x then f x s else Inr s) xs s = foldE f (filter P xs) s"
  by (induction xs arbitrary: s) (auto simp: bindE_def split: sum.splits)

lemma each_eq:
  "rows_ok n r \<Longrightarrow> length bs = n \<Longrightarrow> each r bs f s = foldE f (filter (\<lambda>t. matches t bs) (r_tuples r)) s"
  by (simp add: each_def foldE_filter selectCands_filter)

lemma deltaRelation_rows:
  assumes "rows_ok n r" and "deltaRelation r from = Some d"
  shows "rows_ok n d" "r_tuples d = drop from (r_tuples r)" "from < length (r_tuples r)"
  using assms set_drop_subset [of "from" "r_tuples r"]
  by (auto simp: deltaRelation_def rows_ok_def newRelation_def split: if_splits)

section \<open>Insertion\<close>

lemma add_eq:
  assumes ok: "relation_ok n r" and len: "length t = n"
  shows "fst (add r t) \<longleftrightarrow> t \<notin> set (r_tuples r)"
    and "r_tuples (snd (add r t)) = (if t \<in> set (r_tuples r) then r_tuples r else r_tuples r @ [t])"
    and "relation_ok n (snd (add r t))"
    and "r_name (snd (add r t)) = r_name r"
proof -
  note okD = relation_okD [OF ok]
  have seen: "r_seen r (key t) \<longleftrightarrow> t \<in> set (r_tuples r)" using okD(4) len by blast
  define r0 where "r0 = r\<lparr>r_seen := (r_seen r)(key t := True)\<rparr>"
  have view: "fst (alloc r0 t) = t" using okD(1) len by (intro alloc_view) (simp add: r0_def)
  have ch: "chunks_ok (snd (alloc r0 t)\<lparr>r_tuples := r_tuples r0 @ [t]\<rparr>)"
    using okD(1,6) len by (intro alloc_chunks) (auto simp: r0_def chunks_ok_def)
  have fr: "r_tuples (snd (alloc r0 t)) = r_tuples r" "r_idx (snd (alloc r0 t)) = r_idx r"
    "r_arity (snd (alloc r0 t)) = r_arity r" "r_name (snd (alloc r0 t)) = r_name r"
    "r_seen (snd (alloc r0 t)) = (r_seen r)(key t := True)"
    by (simp_all add: alloc_def Let_def r0_def)
  have new: "add r t = (True, snd (alloc r0 t)\<lparr>r_tuples := r_tuples r @ [t],
      r_idx := map_option (\<lambda>ix. indexTuple ix t) (r_idx r)\<rparr>)" if "t \<notin> set (r_tuples r)"
    using that seen view fr by (simp add: add_def r0_def [symmetric] split_beta Let_def)
  show "fst (add r t) \<longleftrightarrow> t \<notin> set (r_tuples r)"
    "r_tuples (snd (add r t)) = (if t \<in> set (r_tuples r) then r_tuples r else r_tuples r @ [t])"
    "r_name (snd (add r t)) = r_name r"
    using new seen fr by (auto simp: add_def)
  show "relation_ok n (snd (add r t))"
  proof (cases "t \<in> set (r_tuples r)")
    case True
    then show ?thesis using ok seen by (simp add: add_def)
  next
    case False
    have "rows_ok n (snd (add r t))"
      using okD(1-3,5) len False fr by (auto simp: new [OF False] rows_ok_def indexTuple_ok)
    moreover have "chunks_ok (snd (add r t))"
      using ch by (simp add: new [OF False] chunks_ok_def r0_def)
    moreover have "r_seen (snd (add r t)) (key u) \<longleftrightarrow> u \<in> set (r_tuples (snd (add r t)))" if "length u = n" for u
      using that len okD(4) [of u] key_inj [of u t] by (auto simp: new [OF False] fr)
    ultimately show ?thesis by (simp add: relation_ok_def)
  qed
qed

section \<open>The storage interface\<close>

text \<open>
  What the evaluator relies on: a store of rows of one width, insertion that reports whether
  the row was new, membership, and pattern lookup in insertion order.
\<close>

locale tuple_store =
  fixes rows :: "'r \<Rightarrow> itup list" and ins :: "'r \<Rightarrow> itup \<Rightarrow> bool \<times> 'r"
    and mem :: "'r \<Rightarrow> itup \<Rightarrow> bool" and lookup :: "'r \<Rightarrow> binds \<Rightarrow> itup list"
    and ok :: "nat \<Rightarrow> 'r \<Rightarrow> bool"
  assumes rows_len: "ok n r \<Longrightarrow> t \<in> set (rows r) \<Longrightarrow> length t = n"
    and rows_distinct: "ok n r \<Longrightarrow> distinct (rows r)"
    and ins_new: "ok n r \<Longrightarrow> length t = n \<Longrightarrow> fst (ins r t) \<longleftrightarrow> t \<notin> set (rows r)"
    and ins_rows: "ok n r \<Longrightarrow> length t = n \<Longrightarrow>
      rows (snd (ins r t)) = (if t \<in> set (rows r) then rows r else rows r @ [t])"
    and ins_ok: "ok n r \<Longrightarrow> length t = n \<Longrightarrow> ok n (snd (ins r t))"
    and mem_iff: "ok n r \<Longrightarrow> length t = n \<Longrightarrow> mem r t \<longleftrightarrow> t \<in> set (rows r)"
    and lookup_rows: "ok n r \<Longrightarrow> length bs = n \<Longrightarrow> lookup r bs = filter (\<lambda>t. matches t bs) (rows r)"
begin

lemma mem_ins:
  "ok n r \<Longrightarrow> length t = n \<Longrightarrow> length u = n \<Longrightarrow> mem (snd (ins r t)) u \<longleftrightarrow> u = t \<or> mem r u"
  by (auto simp: mem_iff [OF ins_ok] mem_iff ins_rows)

lemma lookup_ins:
  assumes "ok n r" "length t = n" "length bs = n"
  shows "lookup (snd (ins r t)) bs = (if \<not> mem r t \<and> matches t bs then lookup r bs @ [t] else lookup r bs)"
  using assms by (simp add: lookup_rows [OF ins_ok] lookup_rows mem_iff ins_rows)

lemma ins_many:
  assumes "ok n r" and "\<forall>t \<in> set ts. length t = n"
  shows "ok n (fold (\<lambda>t r. snd (ins r t)) ts r)
    \<and> set (rows (fold (\<lambda>t r. snd (ins r t)) ts r)) = set (rows r) \<union> set ts"
  using assms
proof (induction ts arbitrary: r)
  case Nil
  then show ?case by simp
next
  case (Cons t ts)
  then have "ok n (snd (ins r t))" by (simp add: ins_ok)
  from Cons.IH [OF this] Cons.prems show ?case by (auto simp: ins_rows)
qed

end

interpretation store: tuple_store r_tuples add has match relation_ok
proof unfold_locales
  fix n r t
  assume ok: "relation_ok n r"
  note okD = relation_okD [OF ok]
  show "t \<in> set (r_tuples r) \<Longrightarrow> length t = n" "distinct (r_tuples r)" using okD by auto
  show "length bs = n \<Longrightarrow> match r bs = filter (\<lambda>t. matches t bs) (r_tuples r)" for bs
    using match_eq [OF okD(5)] .
  show "length t = n \<Longrightarrow> has r t \<longleftrightarrow> t \<in> set (r_tuples r)" using okD(4) by (simp add: has_def)
  show "length t = n \<Longrightarrow> fst (add r t) \<longleftrightarrow> t \<notin> set (r_tuples r)"
    "length t = n \<Longrightarrow> r_tuples (snd (add r t)) = (if t \<in> set (r_tuples r) then r_tuples r else r_tuples r @ [t])"
    "length t = n \<Longrightarrow> relation_ok n (snd (add r t))"
    using add_eq [OF ok] by auto
qed

section \<open>Properties\<close>

text \<open>
  Every lookup is exact: whatever index bucket is scanned, \<open>match\<close> returns the rows that
  satisfy the call pattern in insertion order, \<open>exists\<close> tells whether there is one, \<open>each\<close>
  visits just these rows, and the borrowed candidates miss none of them.
\<close>

theorem lookup_exact:
  assumes "relation_ok n r" and "length bs = n"
  shows "match r bs = filter (\<lambda>t. matches t bs) (r_tuples r)
    \<and> (exists_match r bs \<longleftrightarrow> (\<exists>t \<in> set (r_tuples r). matches t bs))
    \<and> each r bs f s = foldE f (filter (\<lambda>t. matches t bs) (r_tuples r)) s
    \<and> filter (\<lambda>t. matches t bs) (fst (selectCands r bs)) = filter (\<lambda>t. matches t bs) (r_tuples r)"
  using match_eq [OF relation_okD(5) [OF assms(1)] assms(2)]
    exists_match_iff [OF relation_okD(5) [OF assms(1)] assms(2)]
    each_eq [OF relation_okD(5) [OF assms(1)] assms(2)]
    selectCands_filter(1) [OF relation_okD(5) [OF assms(1)] assms(2)]
  by simp

theorem lookup_exact_witness:
  "match (snd (add (newRelation ''p'' 2) [5, 6])) [None, Some 6] = [[5, 6]]"
proof -
  have ok: "relation_ok 2 (newRelation ''p'' 2)" using newRelation_ok [of 2] by simp
  have ok': "relation_ok 2 (snd (add (newRelation ''p'' 2) [5, 6]))" using add_eq(3) [OF ok] by simp
  have len: "length [None, Some (6 :: uint32)] = 2" by simp
  from lookup_exact [OF ok' len, of "\<lambda>t s. Inr s" "()"]
  have "match (snd (add (newRelation ''p'' 2) [5, 6])) [None, Some 6]
    = filter (\<lambda>t. matches t [None, Some 6]) (r_tuples (snd (add (newRelation ''p'' 2) [5, 6])))" by (rule conjunct1)
  then show ?thesis using add_eq(2) [OF ok, of "[5, 6]"] by simp
qed

text \<open>
  Insertion keeps the representation invariant (row views inside the storage blocks, the set of
  seen keys, the indexes) and is set insertion that keeps the order: it reports whether the row was
  new, and afterwards the row is present, the earlier rows are unchanged and nothing else appears.
\<close>

theorem insertion_exact:
  assumes "relation_ok n r" and "length t = n" and "length bs = n"
  shows "relation_ok n (snd (add r t))
    \<and> (fst (add r t) \<longleftrightarrow> \<not> has r t)
    \<and> r_tuples (snd (add r t)) = (if has r t then r_tuples r else r_tuples r @ [t])
    \<and> match (snd (add r t)) bs = (if \<not> has r t \<and> matches t bs then match r bs @ [t] else match r bs)"
  using add_eq [OF assms(1,2)] store.mem_iff [OF assms(1,2)] store.lookup_ins [OF assms] by auto

theorem insertion_exact_witness:
  "match (snd (add (newRelation ''p'' 1) [7])) [Some 7] = [[7]]"
proof -
  have ok: "relation_ok 1 (newRelation ''p'' 1)" using newRelation_ok [of 1] by simp
  show ?thesis
    using insertion_exact [OF ok, of "[7]" "[Some 7]"] store.lookup_rows [OF ok, of "[Some 7]"]
      store.mem_iff [OF ok, of "[7]"] by simp
qed

end
