(* ===== verification/Rules.thy ===== *)
theory Rules
  imports Rel_Store
begin

text \<open>
  The rule language (\<open>internal/datalog/parse.go\<close>): the abstract syntax, the tokenizer, the
  recursive-descent parser, aggregate extraction, variable numbering and the safety check.

  The parser's position is the list of remaining tokens. A byte is a letter when its Latin-1
  code point is one, because the tokenizer classifies \<open>rune(src[j])\<close>, a single byte.
\<close>

section \<open>Abstract syntax\<close>

record dterm =
  tm_isVar :: bool
  tm_name :: string
  tm_var :: nat
  tm_sym :: uint32

record literal =
  l_rel :: string
  l_args :: "dterm list"
  l_neg :: bool

record aggSpec =
  ag_fn :: string
  ag_outVar :: string
  ag_inVar :: string
  ag_outSlot :: nat
  ag_inSlot :: nat

record rule =
  ru_head :: literal
  ru_body :: "literal list"
  ru_name :: string
  ru_file :: string
  ru_line :: nat
  ru_nvars :: nat
  ru_agg :: "aggSpec option"

text \<open>
  The errors of the package, one constructor per message, grouped by the phase that raises them.
  \<open>EPanic\<close> stands for a Go run-time panic; \<open>EOutOfFuel\<close> for a recursion of the tabled evaluator
  that is cut off by the fuel of its model.
\<close>

datatype parse_error =
    EUnterminated string nat
  | EStrayColon string nat
  | EUnexpectedChar string nat char
  | EHeadEnd string nat string
  | EBodyEnd string nat string
  | ENotInHead string nat
  | ERelExpected string nat string
  | ERelUpper string nat string
  | ELParen string nat string
  | EArgExpected string nat string
  | EArgEnd string nat string

datatype agg_error =
    EAggNegated string string
  | EAggShape string string
  | EAggTwice string
  | EAggOutMissing string string
  | EAggInHead string string
  | EAggInUnbound string string

datatype safe_error =
    EBuiltinHead string string
  | EBuiltinNegated string string
  | EBuiltinArity string string nat
  | EBuiltinUnbound string string string
  | EFactVar string string
  | EAnonHead string
  | EHeadUnbound string string
  | ENegUnbound string string string

datatype eval_error =
    EUnknownRel string
  | ENotCompleted string
  | ENoFixpoint string nat
  | EMaxTuples string nat
  | EIntOperands string uint32 uint32
  | EAggNonInt string string uint32
  | EHeadVarUnset string string
  | EAggVarUnset string string
  | EOperandUnset string string
  | EOutOfFuel
  | EPanic

datatype load_error =
    EEmptyRelName
  | EFactArity string int nat
  | EArityClash string int int
  | EMissing "(string \<times> string) list"
  | ETooManyVars string nat
  | ENoRules string
  | EPatternArity string int nat
  | ENotStratified "string list"
  | ENotDerivable string

datatype dl_error = ParseE parse_error | AggE agg_error | SafeE safe_error
  | EvalE eval_error | LoadE load_error

definition lit_arity :: "literal \<Rightarrow> nat" where
  "lit_arity l = length (l_args l)"

definition is_builtin :: "string \<Rightarrow> bool" where
  "is_builtin rel = (rel \<in> {''lt'', ''le'', ''ne'', ''contains'', ''prefix''})"

definition builtinArity :: "string \<Rightarrow> nat" where
  "builtinArity rel = (if is_builtin rel then 2 else 0)"

definition isAggName :: "string \<Rightarrow> bool" where
  "isAggName s = (s \<in> {''min'', ''max'', ''count''})"

section \<open>Tokenizer\<close>

datatype tkind = KIdent | KString | KPunct | KInt | KEof

record token =
  tok_kind :: tkind
  tok_text :: string
  tok_line :: nat

definition is_letter :: "char \<Rightarrow> bool" where
  "is_letter c =
     (let n = of_char c :: nat in
      (65 \<le> n \<and> n \<le> 90) \<or> (97 \<le> n \<and> n \<le> 122) \<or> n \<in> {170, 181, 186}
      \<or> (192 \<le> n \<and> n \<le> 214) \<or> (216 \<le> n \<and> n \<le> 246) \<or> (248 \<le> n \<and> n \<le> 255))"

definition is_upper :: "char \<Rightarrow> bool" where
  "is_upper c =
     (let n = of_char c :: nat in (65 \<le> n \<and> n \<le> 90) \<or> (192 \<le> n \<and> n \<le> 214) \<or> (216 \<le> n \<and> n \<le> 222))"

definition is_lower :: "char \<Rightarrow> bool" where
  "is_lower c =
     (let n = of_char c :: nat in
      (97 \<le> n \<and> n \<le> 122) \<or> n = 181 \<or> (223 \<le> n \<and> n \<le> 246) \<or> (248 \<le> n \<and> n \<le> 255))"

definition isIdentStart :: "char \<Rightarrow> bool" where
  "isIdentStart c = (is_letter c \<or> c = CHR ''_'')"

definition isIdentRune :: "char \<Rightarrow> bool" where
  "isIdentRune c = (is_letter c \<or> is_digit c \<or> c = CHR ''_'')"

text \<open>The inner loop of a string token: the text up to the closing quote and what follows it.\<close>

fun scan_string :: "string \<Rightarrow> (string \<times> string) option" where
  "scan_string [] = None"
| "scan_string (c # cs) =
     (if c = CHR 0x22 then Some ([], cs)
      else if c = CHR 0x5C then
        (case cs of
           [] \<Rightarrow> None
         | d # ds \<Rightarrow> (case scan_string ds of None \<Rightarrow> None | Some (t, r) \<Rightarrow> Some (d # t, r)))
      else (case scan_string cs of None \<Rightarrow> None | Some (t, r) \<Rightarrow> Some (c # t, r)))"

lemma scan_string_length: "scan_string s = Some (t, r) \<Longrightarrow> length r < length s"
  by (induction s arbitrary: t r rule: scan_string.induct)
     (fastforce split: if_splits list.splits option.splits)+

definition is_punct :: "char \<Rightarrow> bool" where
  "is_punct c = (c \<in> {CHR ''('', CHR '')'', CHR '','', CHR ''.''})"

abbreviation tok :: "tkind \<Rightarrow> string \<Rightarrow> nat \<Rightarrow> token" where
  "tok k s ln \<equiv> \<lparr>tok_kind = k, tok_text = s, tok_line = ln\<rparr>"

function lex_at :: "string \<Rightarrow> nat \<Rightarrow> string \<Rightarrow> dl_error + token list" where
  "lex_at file ln [] = Inr []"
| "lex_at file ln (c # cs) =
     (if c = CHR 0x0A then lex_at file (Suc ln) cs
      else if c = CHR '' '' \<or> c = CHR 0x09 \<or> c = CHR 0x0D then lex_at file ln cs
      else if c = CHR ''%'' then lex_at file ln (dropWhile (\<lambda>d. d \<noteq> CHR 0x0A) cs)
      else if c = CHR 0x22 then
        (case scan_string cs of
           None \<Rightarrow> Inl (ParseE (EUnterminated file ln))
         | Some (t, r) \<Rightarrow> bindE (lex_at file ln r) (\<lambda>ts. Inr (tok KString t ln # ts)))
      else if is_punct c then bindE (lex_at file ln cs) (\<lambda>ts. Inr (tok KPunct [c] ln # ts))
      else if c = CHR '':'' then
        (case cs of
           [] \<Rightarrow> Inl (ParseE (EStrayColon file ln))
         | d # ds \<Rightarrow>
             if d = CHR ''-'' then bindE (lex_at file ln ds) (\<lambda>ts. Inr (tok KPunct '':-'' ln # ts))
             else Inl (ParseE (EStrayColon file ln)))
      else if is_digit c then
        bindE (lex_at file ln (dropWhile is_digit cs))
          (\<lambda>ts. Inr (tok KInt (c # takeWhile is_digit cs) ln # ts))
      else if isIdentStart c then
        bindE (lex_at file ln (dropWhile isIdentRune cs))
          (\<lambda>ts. Inr (tok KIdent (c # takeWhile isIdentRune cs) ln # ts))
      else Inl (ParseE (EUnexpectedChar file ln c)))"
  by pat_completeness auto
termination
  by (relation "measure (\<lambda>(file, ln, s). length s)")
     (auto simp: less_Suc_eq_le length_dropWhile_le dest!: scan_string_length)

declare lex_at.simps(2) [simp del]

definition lex :: "string \<Rightarrow> string \<Rightarrow> dl_error + token list" where
  "lex src file = lex_at file 1 src"

section \<open>Parser\<close>

definition eofTok :: token where
  "eofTok = tok KEof [] 0"

definition peek :: "token list \<Rightarrow> token" where
  "peek ts = (case ts of [] \<Rightarrow> eofTok | t # _ \<Rightarrow> t)"

definition is_tok :: "token \<Rightarrow> tkind \<Rightarrow> string \<Rightarrow> bool" where
  "is_tok t k s = (tok_kind t = k \<and> tok_text t = s)"

abbreviation varTerm :: "string \<Rightarrow> dterm" where
  "varTerm x \<equiv> \<lparr>tm_isVar = True, tm_name = x, tm_var = 0, tm_sym = 0\<rparr>"

abbreviation conTerm :: "string \<Rightarrow> dterm" where
  "conTerm x \<equiv> \<lparr>tm_isVar = False, tm_name = x, tm_var = 0, tm_sym = 0\<rparr>"

text \<open>
  One argument: the term and the new count of anonymous variables. An identifier token is
  never empty (the tokenizer puts at least its first letter in it).
\<close>

definition p_arg :: "string \<Rightarrow> nat \<Rightarrow> token \<Rightarrow> dl_error + dterm \<times> nat" where
  "p_arg file anon a =
     (case tok_kind a of
        KString \<Rightarrow> Inr (conTerm (tok_text a), anon)
      | KInt \<Rightarrow> Inr (conTerm (tok_text a), anon)
      | KIdent \<Rightarrow>
          (if tok_text a = ''_'' then Inr (varTerm (''_'' @ fmt_nat (Suc anon)), Suc anon)
           else if tok_text a \<noteq> [] \<and> (is_upper (hd (tok_text a)) \<or> hd (tok_text a) = CHR ''_'')
           then Inr (varTerm (tok_text a), anon)
           else Inr (conTerm (tok_text a), anon))
      | _ \<Rightarrow> Inl (ParseE (EArgExpected file (tok_line a) (tok_text a))))"

fun p_args :: "string \<Rightarrow> string \<Rightarrow> nat \<Rightarrow> token list \<Rightarrow> dl_error + dterm list \<times> nat \<times> token list" where
  "p_args file rel anon [] = Inl (ParseE (EArgExpected file 0 []))"
| "p_args file rel anon (a # ts) =
     bindE (p_arg file anon a) (\<lambda>(tm, anon').
       case ts of
         [] \<Rightarrow> Inl (ParseE (EArgEnd file 0 rel))
       | nt # ts' \<Rightarrow>
           if is_tok nt KPunct '','' then
             bindE (p_args file rel anon' ts') (\<lambda>(tms, an, r). Inr (tm # tms, an, r))
           else if is_tok nt KPunct '')'' then Inr ([tm], anon', ts')
           else Inl (ParseE (EArgEnd file (tok_line nt) rel)))"

definition p_literal :: "string \<Rightarrow> bool \<Rightarrow> nat \<Rightarrow> token list \<Rightarrow> dl_error + literal \<times> nat \<times> token list" where
  "p_literal file allowNeg anon ts =
     (let t0 = peek ts; neg = is_tok t0 KIdent ''not'' in
      if neg \<and> \<not> allowNeg then Inl (ParseE (ENotInHead file (tok_line t0)))
      else let ts1 = (if neg then tl ts else ts); t = peek ts1 in
        if tok_kind t \<noteq> KIdent then Inl (ParseE (ERelExpected file (tok_line t) (tok_text t)))
        else if \<not> (tok_text t \<noteq> [] \<and> is_lower (hd (tok_text t))) then Inl (ParseE (ERelUpper file (tok_line t) (tok_text t)))
        else let ts2 = tl ts1; nt = peek ts2 in
          if \<not> is_tok nt KPunct ''('' then Inl (ParseE (ELParen file (tok_line t) (tok_text t)))
          else bindE (p_args file (tok_text t) anon (tl ts2)) (\<lambda>(args, an, r).
            Inr (\<lparr>l_rel = tok_text t, l_args = args, l_neg = neg\<rparr>, an, r)))"

lemma p_args_length: "p_args fl rel anon ts = Inr (tms, an, r) \<Longrightarrow> length r < length ts"
proof (induction fl rel anon ts arbitrary: tms an r rule: p_args.induct)
  case (1 fl rel anon)
  then show ?case by simp
next
  case (2 fl rel anon a ts)
  then show ?case by (fastforce split: list.splits if_splits)
qed

lemma p_literal_length: "p_literal file neg anon ts = Inr (l, an, r) \<Longrightarrow> length r < length ts"
  by (cases ts) (auto simp: p_literal_def Let_def peek_def eofTok_def is_tok_def
      split: if_splits list.splits dest!: p_args_length)

text \<open>The body loop: literals separated by commas, closed by a full stop.\<close>

function p_body :: "string \<Rightarrow> nat \<Rightarrow> string \<Rightarrow> nat \<Rightarrow> token list \<Rightarrow> dl_error + literal list \<times> token list" where
  "p_body file line rel anon ts =
     bindE (p_literal file True anon ts) (\<lambda>(lit, an, r).
       if is_tok (peek r) KPunct '','' then
         bindE (p_body file line rel an (tl r)) (\<lambda>(ls, r'). Inr (lit # ls, r'))
       else if is_tok (peek r) KPunct ''.'' then Inr ([lit], tl r)
       else Inl (ParseE (EBodyEnd file line rel)))"
  by pat_completeness auto
termination
  by (relation "measure (\<lambda>(file, line, rel, anon, ts). length ts)") (auto dest!: p_literal_length)

declare p_body.simps [simp del]

definition p_rule :: "string \<Rightarrow> string \<Rightarrow> token list \<Rightarrow> dl_error + rule \<times> token list" where
  "p_rule file rulefile ts =
     (let line = tok_line (peek ts) in
      bindE (p_literal file False 0 ts) (\<lambda>(head, an, r).
        let mk = (\<lambda>body. \<lparr>ru_head = head, ru_body = body, ru_name = rulefile @ ''/'' @ l_rel head,
                   ru_file = file, ru_line = line, ru_nvars = 0, ru_agg = None\<rparr>) in
        if is_tok (peek r) KPunct ''.'' then Inr (mk [], tl r)
        else if is_tok (peek r) KPunct '':-'' then
          bindE (p_body file line (l_rel head) an (tl r)) (\<lambda>(body, r'). Inr (mk body, r'))
        else Inl (ParseE (EHeadEnd file line (l_rel head)))))"

lemma p_body_length: "p_body fl line rel anon ts = Inr (ls, r) \<Longrightarrow> length r < length ts"
proof (induction fl line rel anon ts arbitrary: ls r rule: p_body.induct)
  case (1 fl line rel anon ts)
  from "1.prems" obtain lit an1 r1 where lit: "p_literal fl True anon ts = Inr (lit, an1, r1)"
    by (subst (asm) p_body.simps) auto
  note len = p_literal_length [OF lit]
  show ?case
  proof (cases "is_tok (peek r1) KPunct '',''")
    case True
    with "1.prems" lit obtain ls' where "p_body fl line rel an1 (tl r1) = Inr (ls', r)"
      by (subst (asm) p_body.simps) auto
    then have "length r < length (tl r1)" using "1.IH" lit True by blast
    then show ?thesis using len by simp
  next
    case False
    with "1.prems" lit have "r = tl r1" by (subst (asm) p_body.simps) (auto split: if_splits)
    then show ?thesis using len by simp
  qed
qed

lemma p_rule_length: "p_rule file rf ts = Inr (ru, r) \<Longrightarrow> length r < length ts"
  by (fastforce simp: p_rule_def Let_def split: if_splits dest: p_literal_length p_body_length)

section \<open>Aggregates and variable slots\<close>

fun agg_scan :: "rule \<Rightarrow> literal list \<Rightarrow> aggSpec option \<Rightarrow> dl_error + literal list \<times> aggSpec option" where
  "agg_scan r [] ag = Inr ([], ag)"
| "agg_scan r (l # ls) ag =
     (if \<not> isAggName (l_rel l) then bindE (agg_scan r ls ag) (\<lambda>(kept, a). Inr (l # kept, a))
      else if l_neg l then Inl (AggE (EAggNegated (ru_name r) (l_rel l)))
      else if length (l_args l) \<noteq> 2 \<or> \<not> tm_isVar (l_args l ! 0) \<or> \<not> tm_isVar (l_args l ! 1)
      then Inl (AggE (EAggShape (ru_name r) (l_rel l)))
      else if ag \<noteq> None then Inl (AggE (EAggTwice (ru_name r)))
      else agg_scan r ls (Some \<lparr>ag_fn = l_rel l, ag_outVar = tm_name (l_args l ! 0),
             ag_inVar = tm_name (l_args l ! 1), ag_outSlot = 0, ag_inSlot = 0\<rparr>))"

definition mentions :: "string \<Rightarrow> literal \<Rightarrow> bool" where
  "mentions x l = list_ex (\<lambda>a. tm_isVar a \<and> tm_name a = x) (l_args l)"

definition extractAgg :: "rule \<Rightarrow> dl_error + rule" where
  "extractAgg r =
     bindE (agg_scan r (ru_body r) (ru_agg r)) (\<lambda>(kept, ag).
       let r1 = r\<lparr>ru_body := kept, ru_agg := ag\<rparr> in
       case ag of
         None \<Rightarrow> Inr r1
       | Some a \<Rightarrow>
           if \<not> mentions (ag_outVar a) (ru_head r) then Inl (AggE (EAggOutMissing (ru_name r) (ag_outVar a)))
           else if mentions (ag_inVar a) (ru_head r) then Inl (AggE (EAggInHead (ru_name r) (ag_inVar a)))
           else if \<not> list_ex (\<lambda>l. \<not> l_neg l \<and> mentions (ag_inVar a) l) kept
           then Inl (AggE (EAggInUnbound (ru_name r) (ag_inVar a)))
           else Inr r1)"

text \<open>The slot of a variable: the one of its last occurrence in the arguments, as the loops leave it.\<close>

definition slot_in :: "string \<Rightarrow> dterm list \<Rightarrow> nat \<Rightarrow> nat" where
  "slot_in x args d = fold (\<lambda>a s. if tm_isVar a \<and> tm_name a = x then tm_var a else s) args d"

definition resolveAggSlots :: "rule \<Rightarrow> rule" where
  "resolveAggSlots r =
     (case ru_agg r of
        None \<Rightarrow> r
      | Some a \<Rightarrow> r\<lparr>ru_agg := Some (a\<lparr>
          ag_outSlot := slot_in (ag_outVar a) (l_args (ru_head r)) (ag_outSlot a),
          ag_inSlot := slot_in (ag_inVar a) (concat (map l_args (ru_body r))) (ag_inSlot a)\<rparr>)\<rparr>)"

type_synonym slots = "(string \<Rightarrow> nat option) \<times> nat"

fun number_args :: "dterm list \<Rightarrow> slots \<Rightarrow> dterm list \<times> slots" where
  "number_args [] st = ([], st)"
| "number_args (a # as) (m, n) =
     (if \<not> tm_isVar a then (let (bs, st) = number_args as (m, n) in (a # bs, st))
      else case m (tm_name a) of
             Some k \<Rightarrow> (let (bs, st) = number_args as (m, n) in (a\<lparr>tm_var := k\<rparr> # bs, st))
           | None \<Rightarrow> (let (bs, st) = number_args as (m(tm_name a \<mapsto> n), Suc n) in (a\<lparr>tm_var := n\<rparr> # bs, st)))"

fun number_body :: "literal list \<Rightarrow> slots \<Rightarrow> literal list \<times> slots" where
  "number_body [] st = ([], st)"
| "number_body (l # ls) st =
     (let (as, st1) = number_args (l_args l) st; (ls', st2) = number_body ls st1
      in (l\<lparr>l_args := as\<rparr> # ls', st2))"

definition assignVars :: "rule \<Rightarrow> rule" where
  "assignVars r =
     (let (hd_args, st1) = number_args (l_args (ru_head r)) (Map.empty, 0);
          (body, st2) = number_body (ru_body r) st1
      in r\<lparr>ru_head := (ru_head r)\<lparr>l_args := hd_args\<rparr>, ru_body := body, ru_nvars := snd st2\<rparr>)"

section \<open>Rule files\<close>

definition trimSuffix :: "string \<Rightarrow> string \<Rightarrow> string" where
  "trimSuffix s suf =
     (if length suf \<le> length s \<and> drop (length s - length suf) s = suf
      then take (length s - length suf) s else s)"

definition rulefile_base :: "string \<Rightarrow> string" where
  "rulefile_base file =
     rev (takeWhile (\<lambda>c. c \<noteq> CHR ''/'' \<and> c \<noteq> CHR 0x5C) (rev (trimSuffix file ''.dl'')))"

function p_rules :: "string \<Rightarrow> string \<Rightarrow> token list \<Rightarrow> dl_error + rule list" where
  "p_rules file base ts =
     (if ts = [] then Inr []
      else bindE (p_rule file base ts) (\<lambda>(r, rest).
             bindE (extractAgg r) (\<lambda>r1.
               bindE (p_rules file base rest) (\<lambda>rs.
                 Inr (resolveAggSlots (assignVars r1) # rs)))))"
  by pat_completeness auto
termination
  by (relation "measure (\<lambda>(file, base, ts). length ts)") (auto dest!: p_rule_length)

declare p_rules.simps [simp del]

definition parseRules :: "string \<Rightarrow> string \<Rightarrow> dl_error + rule list" where
  "parseRules src file = bindE (lex src file) (\<lambda>toks. p_rules file (rulefile_base file) toks)"

section \<open>Safety\<close>

definition arg_vars :: "literal \<Rightarrow> string list" where
  "arg_vars l = map tm_name (filter tm_isVar (l_args l))"

text \<open>The first loop of \<open>checkSafe\<close>: builtins are tests over variables bound earlier in the body.\<close>

fun check_builtins :: "rule \<Rightarrow> string set \<Rightarrow> literal list \<Rightarrow> dl_error + unit" where
  "check_builtins r bound [] = Inr ()"
| "check_builtins r bound (l # ls) =
     (if is_builtin (l_rel l) then
        (if l_neg l then Inl (SafeE (EBuiltinNegated (ru_name r) (l_rel l)))
         else if length (l_args l) \<noteq> builtinArity (l_rel l)
         then Inl (SafeE (EBuiltinArity (ru_name r) (l_rel l) (length (l_args l))))
         else case filter (\<lambda>x. x \<notin> bound) (arg_vars l) of
                x # _ \<Rightarrow> Inl (SafeE (EBuiltinUnbound (ru_name r) (l_rel l) x))
              | [] \<Rightarrow> check_builtins r bound ls)
      else if l_neg l then check_builtins r bound ls
      else check_builtins r (bound \<union> set (arg_vars l)) ls)"

definition pos_vars :: "rule \<Rightarrow> string set" where
  "pos_vars r = (\<Union>l \<in> set (filter (\<lambda>l. \<not> l_neg l) (ru_body r)). set (arg_vars l))"

fun check_head :: "rule \<Rightarrow> string list \<Rightarrow> dl_error + unit" where
  "check_head r [] = Inr ()"
| "check_head r (x # xs) =
     (if (case ru_agg r of Some a \<Rightarrow> x = ag_outVar a | None \<Rightarrow> False) then check_head r xs
      else if x \<noteq> [] \<and> hd x = CHR ''_'' then Inl (SafeE (EAnonHead (ru_name r)))
      else if x \<notin> pos_vars r then Inl (SafeE (EHeadUnbound (ru_name r) x))
      else check_head r xs)"

fun check_negs :: "rule \<Rightarrow> literal list \<Rightarrow> dl_error + unit" where
  "check_negs r [] = Inr ()"
| "check_negs r (l # ls) =
     (if \<not> l_neg l then check_negs r ls
      else case filter (\<lambda>x. x \<notin> pos_vars r) (arg_vars l) of
             x # _ \<Rightarrow> Inl (SafeE (ENegUnbound (ru_name r) x (l_rel l)))
           | [] \<Rightarrow> check_negs r ls)"

definition checkSafe :: "rule \<Rightarrow> dl_error + unit" where
  "checkSafe r =
     (if is_builtin (l_rel (ru_head r)) \<or> isAggName (l_rel (ru_head r))
      then Inl (SafeE (EBuiltinHead (ru_name r) (l_rel (ru_head r))))
      else bindE (check_builtins r {} (ru_body r)) (\<lambda>_.
        if ru_body r = [] then
          (case arg_vars (ru_head r) of
             x # _ \<Rightarrow> Inl (SafeE (EFactVar (ru_name r) x))
           | [] \<Rightarrow> Inr ())
        else bindE (check_head r (arg_vars (ru_head r))) (\<lambda>_. check_negs r (ru_body r))))"

section \<open>Variable slots are a renaming of the variables\<close>

definition slots_ok :: "slots \<Rightarrow> bool" where
  "slots_ok st \<longleftrightarrow> inj_on (fst st) (dom (fst st)) \<and> (\<forall>x k. fst st x = Some k \<longrightarrow> k < snd st)"

definition slots_le :: "slots \<Rightarrow> slots \<Rightarrow> bool" where
  "slots_le st st' \<longleftrightarrow> fst st \<subseteq>\<^sub>m fst st' \<and> snd st \<le> snd st'"

definition numbered_by :: "slots \<Rightarrow> dterm list \<Rightarrow> bool" where
  "numbered_by st as \<longleftrightarrow> (\<forall>a \<in> set as. tm_isVar a \<longrightarrow> fst st (tm_name a) = Some (tm_var a))"

lemma slots_le_refl [simp]: "slots_le st st"
  by (simp add: slots_le_def)

lemma slots_le_trans: "slots_le a b \<Longrightarrow> slots_le b c \<Longrightarrow> slots_le a c"
  by (auto simp: slots_le_def intro: map_le_trans)

lemma numbered_mono: "numbered_by st as \<Longrightarrow> slots_le st st' \<Longrightarrow> numbered_by st' as"
  by (force simp: numbered_by_def slots_le_def map_le_def dom_def)

lemma slots_ok_insert:
  assumes "slots_ok (m, n)" and "m x = None"
  shows "slots_ok (m(x \<mapsto> n), Suc n)" and "slots_le (m, n) (m(x \<mapsto> n), Suc n)"
proof -
  have "m y \<noteq> Some n" for y using assms(1) by (auto simp: slots_ok_def)
  then have "inj_on (m(x \<mapsto> n)) (insert x (dom m))"
    using assms by (auto simp: slots_ok_def inj_on_def)
  then show "slots_ok (m(x \<mapsto> n), Suc n)"
    using assms by (auto simp: slots_ok_def less_Suc_eq split: if_splits)
  show "slots_le (m, n) (m(x \<mapsto> n), Suc n)"
    using assms(2) by (auto simp: slots_le_def map_le_def dom_def)
qed

lemma number_args_ok:
  assumes "slots_ok st" and "number_args as st = (bs, st')"
  shows "slots_ok st' \<and> slots_le st st' \<and> numbered_by st' bs
    \<and> map (\<lambda>a. a\<lparr>tm_var := 0\<rparr>) bs = map (\<lambda>a. a\<lparr>tm_var := 0\<rparr>) as"
  using assms
proof (induction as st arbitrary: bs st' rule: number_args.induct)
  case (1 st)
  then show ?case by (simp add: numbered_by_def)
next
  case (2 a as m n)
  show ?case
  proof (cases "tm_isVar a")
    case False
    with "2.prems" obtain bs' where bs: "bs = a # bs'" and rec: "number_args as (m, n) = (bs', st')"
      by (auto split: prod.splits)
    from "2.IH"(1) [OF False "2.prems"(1) rec] show ?thesis
      using bs False by (auto simp: numbered_by_def)
  next
    case True
    show ?thesis
    proof (cases "m (tm_name a)")
      case None
      with True "2.prems" obtain bs' where bs: "bs = a\<lparr>tm_var := n\<rparr> # bs'"
        and rec: "number_args as (m(tm_name a \<mapsto> n), Suc n) = (bs', st')"
        by (auto split: prod.splits)
      note ins = slots_ok_insert [OF "2.prems"(1) None]
      from "2.IH"(2) [OF _ None ins(1) rec] True
      have ih: "slots_ok st' \<and> slots_le (m(tm_name a \<mapsto> n), Suc n) st' \<and> numbered_by st' bs'
        \<and> map (\<lambda>a. a\<lparr>tm_var := 0\<rparr>) bs' = map (\<lambda>a. a\<lparr>tm_var := 0\<rparr>) as" by simp
      moreover have "fst st' (tm_name a) = Some n"
        using ih by (auto simp: slots_le_def map_le_def)
      ultimately show ?thesis
        using bs slots_le_trans [OF ins(2)] by (auto simp: numbered_by_def)
    next
      case (Some k)
      with True "2.prems" obtain bs' where bs: "bs = a\<lparr>tm_var := k\<rparr> # bs'"
        and rec: "number_args as (m, n) = (bs', st')"
        by (auto split: prod.splits)
      from "2.IH"(3) [OF _ Some "2.prems"(1) rec] True
      have ih: "slots_ok st' \<and> slots_le (m, n) st' \<and> numbered_by st' bs'
        \<and> map (\<lambda>a. a\<lparr>tm_var := 0\<rparr>) bs' = map (\<lambda>a. a\<lparr>tm_var := 0\<rparr>) as" by simp
      moreover have "fst st' (tm_name a) = Some k"
        using ih Some by (force simp: slots_le_def map_le_def dom_def)
      ultimately show ?thesis using bs by (auto simp: numbered_by_def)
    qed
  qed
qed

definition rule_terms :: "rule \<Rightarrow> dterm list" where
  "rule_terms r = l_args (ru_head r) @ concat (map l_args (ru_body r))"

lemma number_body_ok:
  assumes "slots_ok st" and "number_body ls st = (ms, st')"
  shows "slots_ok st' \<and> slots_le st st' \<and> numbered_by st' (concat (map l_args ms))
    \<and> length ms = length ls \<and> map l_rel ms = map l_rel ls \<and> map l_neg ms = map l_neg ls
    \<and> map (map tm_name \<circ> l_args) ms = map (map tm_name \<circ> l_args) ls
    \<and> map (map tm_isVar \<circ> l_args) ms = map (map tm_isVar \<circ> l_args) ls"
  using assms
proof (induction ls arbitrary: st ms)
  case Nil
  then show ?case by (simp add: numbered_by_def)
next
  case (Cons l ls)
  from Cons.prems(2) obtain as st1 ms' where na: "number_args (l_args l) st = (as, st1)"
    and nb: "number_body ls st1 = (ms', st')" and ms: "ms = l\<lparr>l_args := as\<rparr> # ms'"
    by (auto split: prod.splits)
  note h = number_args_ok [OF Cons.prems(1) na]
  note t = Cons.IH [OF conjunct1 [OF h] nb]
  have eq: "map (\<lambda>a. a\<lparr>tm_var := 0\<rparr>) as = map (\<lambda>a. a\<lparr>tm_var := 0\<rparr>) (l_args l)" using h by simp
  have "map tm_name as = map tm_name (l_args l)"
    using arg_cong [OF eq, of "map tm_name"] by (simp add: o_def)
  moreover have "map tm_isVar as = map tm_isVar (l_args l)"
    using arg_cong [OF eq, of "map tm_isVar"] by (simp add: o_def)
  moreover have "numbered_by st' as" using h t numbered_mono by blast
  ultimately show ?case
    using h t ms slots_le_trans [of st st1 st'] by (auto simp: numbered_by_def)
qed

text \<open>
  After \<open>assignVars\<close> two variable occurrences of a rule share a slot exactly when they share a
  name, every slot is below \<open>NVars\<close>, and nothing but the slots has changed.
\<close>

definition well_numbered :: "rule \<Rightarrow> bool" where
  "well_numbered r \<longleftrightarrow>
     (\<forall>a \<in> set (rule_terms r). \<forall>b \<in> set (rule_terms r).
        tm_isVar a \<and> tm_isVar b \<longrightarrow> (tm_var a = tm_var b \<longleftrightarrow> tm_name a = tm_name b))
     \<and> (\<forall>a \<in> set (rule_terms r). tm_isVar a \<longrightarrow> tm_var a < ru_nvars r)"

lemma assignVars_well_numbered: "well_numbered (assignVars r)"
proof -
  obtain ha st1 where h: "number_args (l_args (ru_head r)) (Map.empty, 0) = (ha, st1)" by (rule prod.exhaust)
  obtain body st2 where b: "number_body (ru_body r) st1 = (body, st2)" by (rule prod.exhaust)
  have init: "slots_ok (Map.empty, 0)" by (simp add: slots_ok_def)
  note ho = number_args_ok [OF init h]
  note bo = number_body_ok [OF conjunct1 [OF ho] b]
  have num: "numbered_by st2 (ha @ concat (map l_args body))"
    using ho bo numbered_mono [of st1 ha st2] by (auto simp: numbered_by_def)
  have eq: "assignVars r = r\<lparr>ru_head := (ru_head r)\<lparr>l_args := ha\<rparr>, ru_body := body, ru_nvars := snd st2\<rparr>"
    by (simp add: assignVars_def h b)
  have inj: "x = y" if "fst st2 x = Some k" "fst st2 y = Some k" for x y k
    using that bo by (auto simp: slots_ok_def inj_on_def dom_def)
  have bnd: "k < snd st2" if "fst st2 x = Some k" for x k
    using that bo by (auto simp: slots_ok_def)
  have terms: "rule_terms (assignVars r) = ha @ concat (map l_args body)"
    by (simp add: eq rule_terms_def)
  have fs: "fst st2 (tm_name a) = Some (tm_var a)" if "a \<in> set (rule_terms (assignVars r))" "tm_isVar a" for a
    using num that unfolding terms numbered_by_def by blast
  have nv: "ru_nvars (assignVars r) = snd st2" by (simp add: eq)
  show ?thesis
    unfolding well_numbered_def nv
    by (intro conjI ballI impI iffI) (metis fs inj, metis fs option.inject, metis fs bnd)
qed

lemma assignVars_names:
  "map tm_name (rule_terms (assignVars r)) = map tm_name (rule_terms r)"
  "map tm_isVar (rule_terms (assignVars r)) = map tm_isVar (rule_terms r)"
  "map l_rel (ru_body (assignVars r)) = map l_rel (ru_body r)"
  "map l_neg (ru_body (assignVars r)) = map l_neg (ru_body r)"
proof -
  obtain ha st1 where h: "number_args (l_args (ru_head r)) (Map.empty, 0) = (ha, st1)" by (rule prod.exhaust)
  obtain body st2 where b: "number_body (ru_body r) st1 = (body, st2)" by (rule prod.exhaust)
  have init: "slots_ok (Map.empty, 0)" by (simp add: slots_ok_def)
  note ho = number_args_ok [OF init h]
  note bo = number_body_ok [OF conjunct1 [OF ho] b]
  have eq: "map (\<lambda>a. a\<lparr>tm_var := 0\<rparr>) ha = map (\<lambda>a. a\<lparr>tm_var := 0\<rparr>) (l_args (ru_head r))" using ho by simp
  have hn: "map tm_name ha = map tm_name (l_args (ru_head r))"
    using arg_cong [OF eq, of "map tm_name"] by (simp add: o_def)
  have hv: "map tm_isVar ha = map tm_isVar (l_args (ru_head r))"
    using arg_cong [OF eq, of "map tm_isVar"] by (simp add: o_def)
  have "concat (map (map tm_name \<circ> l_args) body) = concat (map (map tm_name \<circ> l_args) (ru_body r))"
    "concat (map (map tm_isVar \<circ> l_args) body) = concat (map (map tm_isVar \<circ> l_args) (ru_body r))"
    using bo by simp_all
  then show "map tm_name (rule_terms (assignVars r)) = map tm_name (rule_terms r)"
    "map tm_isVar (rule_terms (assignVars r)) = map tm_isVar (rule_terms r)"
    "map l_rel (ru_body (assignVars r)) = map l_rel (ru_body r)"
    "map l_neg (ru_body (assignVars r)) = map l_neg (ru_body r)"
    using bo hn hv by (simp_all add: assignVars_def h b rule_terms_def map_concat)
qed

section \<open>What the safety check accepts\<close>

text \<open>
  Range restriction, stated on its own: a builtin reads variables of earlier positive relational
  literals; a fact is ground; a rule's head variables (but for an aggregate's output) and the
  variables of its negated literals occur in some positive body literal.
\<close>

definition earlier_pos :: "literal list \<Rightarrow> nat \<Rightarrow> string set" where
  "earlier_pos ls k =
     (\<Union>l \<in> set (filter (\<lambda>l. \<not> l_neg l \<and> \<not> is_builtin (l_rel l)) (take k ls)). set (arg_vars l))"

definition builtins_bound :: "string set \<Rightarrow> literal list \<Rightarrow> bool" where
  "builtins_bound bound ls \<longleftrightarrow>
     (\<forall>k < length ls. is_builtin (l_rel (ls ! k)) \<longrightarrow>
        \<not> l_neg (ls ! k) \<and> length (l_args (ls ! k)) = 2
        \<and> set (arg_vars (ls ! k)) \<subseteq> bound \<union> earlier_pos ls k)"

definition safe_rule :: "rule \<Rightarrow> bool" where
  "safe_rule r \<longleftrightarrow>
     \<not> is_builtin (l_rel (ru_head r)) \<and> \<not> isAggName (l_rel (ru_head r))
     \<and> builtins_bound {} (ru_body r)
     \<and> (if ru_body r = [] then arg_vars (ru_head r) = []
        else (\<forall>x \<in> set (arg_vars (ru_head r)).
                (\<exists>a. ru_agg r = Some a \<and> x = ag_outVar a)
                \<or> \<not> (x \<noteq> [] \<and> hd x = CHR ''_'') \<and> x \<in> pos_vars r)
           \<and> (\<forall>l \<in> set (ru_body r). l_neg l \<longrightarrow> set (arg_vars l) \<subseteq> pos_vars r))"

lemma earlier_pos_Cons:
  "earlier_pos (l # ls) (Suc k) =
     (if \<not> l_neg l \<and> \<not> is_builtin (l_rel l) then set (arg_vars l) else {}) \<union> earlier_pos ls k"
  by (auto simp: earlier_pos_def)

lemma earlier_pos_0 [simp]: "earlier_pos ls 0 = {}"
  by (simp add: earlier_pos_def)

lemma builtins_bound_Cons:
  "builtins_bound bound (l # ls) \<longleftrightarrow>
     (if is_builtin (l_rel l)
      then \<not> l_neg l \<and> length (l_args l) = 2 \<and> set (arg_vars l) \<subseteq> bound \<and> builtins_bound bound ls
      else builtins_bound (if l_neg l then bound else bound \<union> set (arg_vars l)) ls)"
  by (auto simp: builtins_bound_def All_less_Suc2 earlier_pos_Cons Un_assoc)

lemma filter_notin_Nil: "filter (\<lambda>x. x \<notin> B) xs = [] \<longleftrightarrow> set xs \<subseteq> B"
  by (auto simp: filter_empty_conv)

lemma check_builtins_iff: "check_builtins r bound ls = Inr () \<longleftrightarrow> builtins_bound bound ls"
proof (induction r bound ls rule: check_builtins.induct)
  case (1 r bound)
  then show ?case by (simp add: builtins_bound_def)
next
  case (2 r bound l ls)
  have ar: "is_builtin (l_rel l) \<Longrightarrow> builtinArity (l_rel l) = 2" by (simp add: builtinArity_def)
  show ?case
  proof (cases "is_builtin (l_rel l)")
    case True
    have sub: "set (arg_vars l) \<subseteq> bound \<longleftrightarrow> filter (\<lambda>x. x \<notin> bound) (arg_vars l) = []"
      by (simp add: filter_notin_Nil)
    show ?thesis
    proof (cases "\<not> l_neg l \<and> length (l_args l) = 2 \<and> filter (\<lambda>x. x \<notin> bound) (arg_vars l) = []")
      case ok: True
      then show ?thesis using True ar "2.IH"(1) by (simp add: builtins_bound_Cons sub)
    next
      case False
      then show ?thesis
        using True ar by (cases "filter (\<lambda>x. x \<notin> bound) (arg_vars l)") (auto simp: builtins_bound_Cons sub)
    qed
  next
    case False
    then show ?thesis using "2.IH"(2,3) by (cases "l_neg l") (simp_all add: builtins_bound_Cons)
  qed
qed

lemma check_head_iff:
  "check_head r xs = Inr () \<longleftrightarrow>
     (\<forall>x \<in> set xs. (\<exists>a. ru_agg r = Some a \<and> x = ag_outVar a)
        \<or> \<not> (x \<noteq> [] \<and> hd x = CHR ''_'') \<and> x \<in> pos_vars r)"
  by (induction r xs rule: check_head.induct) (auto split: option.splits)

lemma check_negs_iff:
  "check_negs r ls = Inr () \<longleftrightarrow> (\<forall>l \<in> set ls. l_neg l \<longrightarrow> set (arg_vars l) \<subseteq> pos_vars r)"
  by (induction r ls rule: check_negs.induct)
     (auto simp: filter_notin_Nil [symmetric] split: list.splits)

lemma bindE_unit: "bindE (m :: 'e + unit) f = Inr y \<longleftrightarrow> m = Inr () \<and> f () = Inr y"
  by (cases m) auto

lemma checkSafe_iff: "checkSafe r = Inr () \<longleftrightarrow> safe_rule r"
proof (cases "ru_body r = []")
  case True
  then show ?thesis
    by (cases "arg_vars (ru_head r)")
       (simp_all add: checkSafe_def safe_rule_def bindE_unit builtins_bound_def)
next
  case False
  then show ?thesis
    by (simp add: checkSafe_def safe_rule_def bindE_unit check_builtins_iff check_head_iff check_negs_iff)
qed

section \<open>Properties\<close>

text \<open>
  The safety check accepts exactly the range-restricted rules: builtins are tests over variables
  of earlier positive literals, facts are ground, and every head variable (but for an aggregate's
  output) and every variable of a negated literal occurs in some positive body literal.
\<close>

theorem checkSafe_range_restriction: "checkSafe r = Inr () \<longleftrightarrow> safe_rule r"
  by (rule checkSafe_iff)

text \<open>
  Variable numbering is a renaming: after it two variable occurrences of a rule share a slot
  exactly when they share a name, every slot is below \<open>NVars\<close>, and names, constants, relations
  and negations are as before.
\<close>

theorem assignVars_renames:
  "well_numbered (assignVars r)
   \<and> map tm_name (rule_terms (assignVars r)) = map tm_name (rule_terms r)
   \<and> map tm_isVar (rule_terms (assignVars r)) = map tm_isVar (rule_terms r)
   \<and> map l_rel (ru_body (assignVars r)) = map l_rel (ru_body r)
   \<and> map l_neg (ru_body (assignVars r)) = map l_neg (ru_body r)"
  using assignVars_well_numbered assignVars_names by blast

end
