(* ===== verification/Strata.thy ===== *)
theory Strata
  imports Rules
begin

text \<open>
  Stratification (\<open>internal/datalog/strata.go\<close>). \<open>stratify\<close> relaxes the strata of the head
  relations round by round, like a longest-path computation over edges of weight 0 (a positive
  read) and 1 (a negated read, or any read of an aggregate rule); \<open>findNegativeCycle\<close> is the
  depth-first search that names a cycle for the error message.

  The main result is that \<open>stratify\<close> succeeds exactly on the stratifiable programs, and that
  it then returns the least stratification.
\<close>

section \<open>The relaxation\<close>

type_synonym dep = "string \<times> bool"

definition head_rels :: "rule list \<Rightarrow> string set" where
  "head_rels rules = set (map (\<lambda>r. l_rel (ru_head r)) rules)"

definition rule_deps :: "string set \<Rightarrow> rule \<Rightarrow> dep list" where
  "rule_deps heads r =
     map (\<lambda>l. (l_rel l, l_neg l \<or> ru_agg r \<noteq> None)) (filter (\<lambda>l. l_rel l \<in> heads) (ru_body r))"

definition deps_of :: "rule list \<Rightarrow> string \<Rightarrow> dep list" where
  "deps_of rules h =
     concat (map (rule_deps (head_rels rules)) (filter (\<lambda>r. l_rel (ru_head r) = h) rules))"

type_synonym strata = "string \<Rightarrow> nat"

definition relax :: "string \<Rightarrow> dep \<Rightarrow> strata \<times> bool \<Rightarrow> strata \<times> bool" where
  "relax h d s =
     (let want = fst s (fst d) + (if snd d then 1 else 0) in
      if want > fst s h then ((fst s)(h := want), True) else s)"

definition relax_round :: "(string \<Rightarrow> dep list) \<Rightarrow> string list \<Rightarrow> strata \<Rightarrow> strata \<times> bool" where
  "relax_round deps names st = fold (\<lambda>h s. fold (relax h) (deps h) s) names (st, False)"

text \<open>At most \<open>rounds\<close> rounds; \<open>None\<close> when every one of them changed something.\<close>

primrec relax_rounds :: "nat \<Rightarrow> (string \<Rightarrow> dep list) \<Rightarrow> string list \<Rightarrow> strata \<Rightarrow> strata option" where
  "relax_rounds 0 deps names st = None"
| "relax_rounds (Suc n) deps names st =
     (let (st', changed) = relax_round deps names st
      in if changed then relax_rounds n deps names st' else Some st')"

definition sorted_heads :: "rule list \<Rightarrow> string list" where
  "sorted_heads rules = sort (remdups (map (\<lambda>r. l_rel (ru_head r)) rules))"

section \<open>Naming a cycle\<close>

definition adj_of :: "rule list \<Rightarrow> string \<Rightarrow> dep list" where
  "adj_of rules h = deps_of rules h"

text \<open>
  The walk: \<open>path\<close> is the current path, its relations are the ones marked \<open>onPath\<close>. The
  fuel bounds the length of the path, which has no repetition.
\<close>

fun cycle_walk :: "nat \<Rightarrow> (string \<Rightarrow> dep list) \<Rightarrow> string list \<Rightarrow> string \<Rightarrow> bool \<Rightarrow> string list option"
  and cycle_walks :: "nat \<Rightarrow> (string \<Rightarrow> dep list) \<Rightarrow> string list \<Rightarrow> dep list \<Rightarrow> bool \<Rightarrow> string list option" where
  "cycle_walk fuel adj path rel sawNeg =
     (if rel \<in> set path then
        (if sawNeg then Some (dropWhile (\<lambda>p. p \<noteq> rel) path @ [rel]) else None)
      else case fuel of
             0 \<Rightarrow> None
           | Suc n \<Rightarrow> cycle_walks n adj (path @ [rel]) (adj rel) sawNeg)"
| "cycle_walks fuel adj path [] sawNeg = None"
| "cycle_walks fuel adj path (e # es) sawNeg =
     (case cycle_walk fuel adj path (fst e) (sawNeg \<or> snd e) of
        Some c \<Rightarrow> Some c
      | None \<Rightarrow> cycle_walks fuel adj path es sawNeg)"

declare cycle_walk.simps [simp del]

fun first_cycle :: "nat \<Rightarrow> (string \<Rightarrow> dep list) \<Rightarrow> string list \<Rightarrow> string list option" where
  "first_cycle fuel adj [] = None"
| "first_cycle fuel adj (f # fs) =
     (case cycle_walk fuel adj [] f False of Some c \<Rightarrow> Some c | None \<Rightarrow> first_cycle fuel adj fs)"

definition findNegativeCycle :: "rule list \<Rightarrow> string list" where
  "findNegativeCycle rules =
     (let froms = sorted_heads rules in
      case first_cycle (Suc (length froms)) (adj_of rules) froms of Some c \<Rightarrow> c | None \<Rightarrow> froms)"

definition stratify :: "rule list \<Rightarrow> dl_error + strata" where
  "stratify rules =
     (let names = sorted_heads rules in
      case relax_rounds (Suc (length names)) (deps_of rules) names (\<lambda>_. 0) of
        Some st \<Rightarrow> Inr st
      | None \<Rightarrow> Inl (LoadE (ENotStratified (findNegativeCycle rules))))"

section \<open>Stratifications\<close>

text \<open>What a stratification is, independently of how one is found.\<close>

definition stratification :: "rule list \<Rightarrow> strata \<Rightarrow> bool" where
  "stratification rules st \<longleftrightarrow>
     (\<forall>r \<in> set rules. \<forall>l \<in> set (ru_body r). l_rel l \<in> head_rels rules \<longrightarrow>
        st (l_rel l) + (if l_neg l \<or> ru_agg r \<noteq> None then 1 else 0) \<le> st (l_rel (ru_head r)))"

definition valid_strata :: "(string \<Rightarrow> dep list) \<Rightarrow> string set \<Rightarrow> strata \<Rightarrow> bool" where
  "valid_strata deps H st \<longleftrightarrow>
     (\<forall>h \<in> H. \<forall>d \<in> set (deps h). st (fst d) + (if snd d then 1 else 0) \<le> st h)"

lemma stratification_iff: "stratification rules st \<longleftrightarrow> valid_strata (deps_of rules) (head_rels rules) st"
  by (fastforce simp: stratification_def valid_strata_def deps_of_def rule_deps_def head_rels_def)

lemma set_sorted_heads [simp]: "set (sorted_heads rules) = head_rels rules"
  by (simp add: sorted_heads_def head_rels_def)

lemma distinct_sorted_heads [simp]: "distinct (sorted_heads rules)"
  by (simp add: sorted_heads_def)

lemma deps_in_heads: "d \<in> set (deps_of rules h) \<Longrightarrow> fst d \<in> head_rels rules"
  by (auto simp: deps_of_def rule_deps_def)

lemma deps_in_heads': "d \<in> set (deps_of rules h) \<Longrightarrow> fst d \<in> set (sorted_heads rules)"
  by (simp add: deps_in_heads)

section \<open>One round\<close>

abbreviation w_of :: "dep \<Rightarrow> nat" where
  "w_of d \<equiv> if snd d then 1 else 0"

lemma relax_mono: "fst s x \<le> fst (relax h d s) x"
  by (simp add: relax_def Let_def)

lemma relax_flag: "snd s \<Longrightarrow> snd (relax h d s)"
  by (simp add: relax_def Let_def)

lemma relax_same: "\<not> snd (relax h d s) \<Longrightarrow> relax h d s = s"
  by (auto simp: relax_def Let_def)

lemma relax_reach: "fst s (fst d) + w_of d \<le> fst (relax h d s) h"
  by (auto simp: relax_def Let_def)

lemma relax_bound:
  assumes "\<And>x. fst s x \<le> L x" and "L (fst d) + w_of d \<le> L h"
  shows "fst (relax h d s) x \<le> L x"
proof -
  have "fst s (fst d) + w_of d \<le> L h" using assms(1) [of "fst d"] assms(2) by simp
  then show ?thesis using assms(1) [of x] by (simp add: relax_def Let_def)
qed

lemma fold_relax_mono: "fst s x \<le> fst (fold (relax h) ds s) x"
proof (induction ds arbitrary: s)
  case (Cons d ds)
  show ?case using relax_mono [of s x h d] Cons.IH [of "relax h d s"] by simp
qed simp

lemma fold_relax_same: "\<not> snd (fold (relax h) ds s) \<Longrightarrow> fold (relax h) ds s = s \<and> \<not> snd s"
proof (induction ds arbitrary: s)
  case (Cons d ds)
  from Cons.IH [of "relax h d s"] Cons.prems
  have "fold (relax h) ds (relax h d s) = relax h d s" "\<not> snd (relax h d s)" by simp_all
  then show ?case using relax_same [of h d s] by auto
qed simp

lemma fold_relax_reach: "d \<in> set ds \<Longrightarrow> fst s (fst d) + w_of d \<le> fst (fold (relax h) ds s) h"
proof (induction ds arbitrary: s)
  case (Cons e ds)
  show ?case
  proof (cases "d = e")
    case True
    then show ?thesis
      using relax_reach [of s d h] fold_relax_mono [of "relax h d s" h h ds] by simp
  next
    case False
    then have "d \<in> set ds" using Cons.prems by simp
    from Cons.IH [OF this, of "relax h e s"] relax_mono [of s "fst d" h e] show ?thesis
      by simp
  qed
qed simp

lemma fold_relax_bound:
  assumes "\<And>x. fst s x \<le> L x" and "\<And>d. d \<in> set ds \<Longrightarrow> L (fst d) + w_of d \<le> L h"
  shows "fst (fold (relax h) ds s) x \<le> L x"
  using assms
proof (induction ds arbitrary: s)
  case (Cons d ds)
  have "fst (relax h d s) y \<le> L y" for y by (rule relax_bound) (use Cons.prems in auto)
  then show ?case using Cons.IH [of "relax h d s"] Cons.prems(2) by simp
qed simp

abbreviation pass :: "(string \<Rightarrow> dep list) \<Rightarrow> string list \<Rightarrow> strata \<times> bool \<Rightarrow> strata \<times> bool" where
  "pass deps names s \<equiv> fold (\<lambda>h s. fold (relax h) (deps h) s) names s"

lemma pass_mono: "fst s x \<le> fst (pass deps names s) x"
proof (induction names arbitrary: s)
  case (Cons h names)
  show ?case
    using fold_relax_mono [of s x h "deps h"] Cons.IH [of "fold (relax h) (deps h) s"] by simp
qed simp

lemma pass_same: "\<not> snd (pass deps names s) \<Longrightarrow> pass deps names s = s \<and> \<not> snd s"
proof (induction names arbitrary: s)
  case (Cons h names)
  from Cons.IH [of "fold (relax h) (deps h) s"] Cons.prems
  have "pass deps names (fold (relax h) (deps h) s) = fold (relax h) (deps h) s"
    "\<not> snd (fold (relax h) (deps h) s)" by simp_all
  then show ?case using fold_relax_same [of h "deps h" s] by auto
qed simp

lemma pass_reach:
  "h \<in> set names \<Longrightarrow> d \<in> set (deps h) \<Longrightarrow> fst s (fst d) + w_of d \<le> fst (pass deps names s) h"
proof (induction names arbitrary: s)
  case (Cons g names)
  let ?s = "fold (relax g) (deps g) s"
  show ?case
  proof (cases "h = g")
    case True
    then show ?thesis
      using fold_relax_reach [where s = s and h = g, OF Cons.prems(2)] pass_mono [of ?s h deps names] by simp
  next
    case False
    then show ?thesis
      using Cons.IH [OF _ Cons.prems(2), of ?s] Cons.prems(1) fold_relax_mono [of s "fst d" g "deps g"]
      by simp
  qed
qed simp

lemma pass_bound:
  assumes "\<And>x. fst s x \<le> L x" and "valid_strata deps (set names) L"
  shows "fst (pass deps names s) x \<le> L x"
  using assms
proof (induction names arbitrary: s)
  case (Cons h names)
  have "fst (fold (relax h) (deps h) s) y \<le> L y" for y
    by (rule fold_relax_bound) (use Cons.prems in \<open>auto simp: valid_strata_def\<close>)
  then show ?case using Cons.IH Cons.prems(2) by (simp add: valid_strata_def)
qed simp

section \<open>The least stratification\<close>

definition least_strata :: "(string \<Rightarrow> dep list) \<Rightarrow> string set \<Rightarrow> strata" where
  "least_strata deps H x = (LEAST n. \<exists>st. valid_strata deps H st \<and> st x = n)"

lemma least_strata_le: "valid_strata deps H st \<Longrightarrow> least_strata deps H x \<le> st x"
  unfolding least_strata_def by (rule Least_le) blast

lemma least_strata_valid:
  assumes "valid_strata deps H st"
  shows "valid_strata deps H (least_strata deps H)"
  unfolding valid_strata_def
proof (intro ballI)
  fix h d
  assume "h \<in> H" "d \<in> set (deps h)"
  have "\<exists>n st. valid_strata deps H st \<and> st h = n" using assms by blast
  from LeastI_ex [OF this] obtain st' where st': "valid_strata deps H st'" "st' h = least_strata deps H h"
    unfolding least_strata_def by blast
  then have "st' (fst d) + w_of d \<le> st' h" using \<open>h \<in> H\<close> \<open>d \<in> set (deps h)\<close>
    unfolding valid_strata_def by blast
  then show "least_strata deps H (fst d) + w_of d \<le> least_strata deps H h"
    using st' least_strata_le [OF st'(1), of "fst d"] by simp
qed

text \<open>
  While some relation is below its least stratum, one of them reads, by a tight edge, a relation
  that has reached its own; otherwise all of them could be lowered by one.
\<close>

lemma tight_edge:
  assumes val: "valid_strata deps H st0" and low: "h0 \<in> H" "st h0 < least_strata deps H h0"
    and le: "\<And>x. st x \<le> least_strata deps H x"
  shows "\<exists>h \<in> H. st h < least_strata deps H h \<and> (\<exists>d \<in> set (deps h).
    least_strata deps H (fst d) + w_of d = least_strata deps H h
    \<and> \<not> (fst d \<in> H \<and> st (fst d) < least_strata deps H (fst d)))"
proof (rule ccontr)
  define L where "L = least_strata deps H"
  define B where "B = {h \<in> H. st h < L h}"
  assume "\<not> ?thesis"
  then have closed: "fst d \<in> B" if "h \<in> B" "d \<in> set (deps h)" "L (fst d) + w_of d = L h" for h d
    using that by (auto simp: B_def L_def)
  define L' where "L' = (\<lambda>x. if x \<in> B then L x - 1 else L x)"
  have L: "valid_strata deps H L" unfolding L_def by (rule least_strata_valid [OF val])
  have "valid_strata deps H L'"
    unfolding valid_strata_def
  proof (intro ballI)
    fix h d
    assume h: "h \<in> H" "d \<in> set (deps h)"
    have ineq: "L (fst d) + w_of d \<le> L h" using L h by (auto simp: valid_strata_def)
    show "L' (fst d) + w_of d \<le> L' h"
    proof (cases "h \<in> B")
      case False
      then show ?thesis using ineq by (auto simp: L'_def)
    next
      case True
      have pos: "0 < L h" "fst d \<in> B \<Longrightarrow> 0 < L (fst d)" using True by (auto simp: B_def)
      have "fst d \<notin> B \<Longrightarrow> L (fst d) + w_of d \<noteq> L h" using closed [OF True h(2)] by blast
      then have "(if fst d \<in> B then L (fst d) - 1 else L (fst d)) + w_of d \<le> L h - 1"
        using ineq pos by (cases "fst d \<in> B"; cases "snd d"; simp)
      then show ?thesis using True by (simp add: L'_def)
    qed
  qed
  then have "L h0 \<le> L' h0" unfolding L_def by (rule least_strata_le)
  moreover have "h0 \<in> B" "0 < L h0" using low by (auto simp: B_def L_def)
  ultimately show False by (simp add: L'_def)
qed

section \<open>Convergence\<close>

text \<open>The relations that have reached their least stratum.\<close>

definition settled :: "(string \<Rightarrow> dep list) \<Rightarrow> string list \<Rightarrow> strata \<Rightarrow> string set" where
  "settled deps names st = {h \<in> set names. least_strata deps (set names) h \<le> st h}"

lemma pass_settles:
  assumes val: "valid_strata deps (set names) st0" and cl: "\<And>h d. d \<in> set (deps h) \<Longrightarrow> fst d \<in> set names"
    and le: "\<And>x. st x \<le> least_strata deps (set names) x"
    and more: "settled deps names st \<noteq> set names"
  shows "card (settled deps names st) < card (settled deps names (fst (pass deps names (st, b))))"
proof (rule psubset_card_mono)
  let ?L = "least_strata deps (set names)" and ?st = "fst (pass deps names (st, b))"
  show "finite (settled deps names ?st)" by (simp add: settled_def)
  have mono: "st x \<le> ?st x" for x using pass_mono [of "(st, b)" x deps names] by simp
  from more obtain h0 where "h0 \<in> set names" "st h0 < ?L h0"
    unfolding settled_def by (metis (no_types, lifting) Collect_mem_eq Collect_cong not_le)
  from tight_edge [OF val this le] obtain h d where h: "h \<in> set names" "st h < ?L h"
    "d \<in> set (deps h)" "?L (fst d) + w_of d = ?L h" "\<not> st (fst d) < ?L (fst d)" using cl by blast
  have "?L h \<le> ?st h" using pass_reach [where deps = deps and s = "(st, b)", OF h(1) h(3)] h(4,5) by simp
  then have "h \<in> settled deps names ?st" "h \<notin> settled deps names st"
    using h(1,2) by (simp_all add: settled_def)
  moreover have "settled deps names st \<subseteq> settled deps names ?st"
    using mono by (force simp: settled_def intro: order_trans)
  ultimately show "settled deps names st \<subset> settled deps names ?st" by blast
qed

lemma relax_rounds_complete:
  assumes val: "valid_strata deps (set names) st0" and cl: "\<And>h d. d \<in> set (deps h) \<Longrightarrow> fst d \<in> set names"
    and le: "\<And>x. st x \<le> least_strata deps (set names) x"
    and n: "card (set names) < n + card (settled deps names st)"
  shows "\<exists>st'. relax_rounds n deps names st = Some st' \<and> (\<forall>x. st' x \<le> least_strata deps (set names) x)"
  using le n
proof (induction n arbitrary: st)
  case 0
  have "card (settled deps names st) \<le> card (set names)"
    by (rule card_mono) (auto simp: settled_def)
  then show ?case using 0 by simp
next
  case (Suc n)
  let ?p = "pass deps names (st, False)"
  have L: "valid_strata deps (set names) (least_strata deps (set names))"
    by (rule least_strata_valid [OF val])
  have le': "fst ?p x \<le> least_strata deps (set names) x" for x
    using pass_bound [of "(st, False)", OF _ L] Suc.prems(1) by simp
  show ?case
  proof (cases "snd ?p")
    case False
    then show ?thesis using le' by (auto simp: relax_round_def split_beta)
  next
    case True
    have "settled deps names st \<noteq> set names"
    proof
      assume all: "settled deps names st = set names"
      have "st h = least_strata deps (set names) h" if "h \<in> set names" for h
        using that all Suc.prems(1) [of h] by (auto simp: settled_def intro: antisym)
      then have "valid_strata deps (set names) st"
        using L cl unfolding valid_strata_def by metis
      then have "relax h d (st, False) = (st, False)" if "h \<in> set names" "d \<in> set (deps h)" for h d
        using that by (auto simp: valid_strata_def relax_def Let_def not_less split: if_splits)
      then have "fold (relax h) (deps h) (st, False) = (st, False)" if "h \<in> set names" for h
        using that by (intro fold_invariant [where P = "\<lambda>s. s = (st, False)" and Q = "\<lambda>d. d \<in> set (deps h)"]) auto
      then have "?p = (st, False)"
        by (intro fold_invariant [where P = "\<lambda>s. s = (st, False)" and Q = "\<lambda>h. h \<in> set names"]) auto
      then show False using True by simp
    qed
    have "card (settled deps names st) < card (settled deps names (fst ?p))"
      by (rule pass_settles [OF val cl Suc.prems(1) \<open>settled deps names st \<noteq> set names\<close>])
    then have "card (set names) < n + card (settled deps names (fst ?p))" using Suc.prems(2) by simp
    then show ?thesis using Suc.IH [OF le'] True by (simp add: relax_round_def split_beta)
  qed
qed

lemma relax_rounds_sound:
  "relax_rounds n deps names st = Some st' \<Longrightarrow> valid_strata deps (set names) st'"
proof (induction n arbitrary: st)
  case (Suc n)
  let ?p = "pass deps names (st, False)"
  show ?case
  proof (cases "snd ?p")
    case True
    then show ?thesis using Suc by (simp add: relax_round_def split_beta)
  next
    case False
    then have st': "st' = fst ?p" using Suc.prems by (simp add: relax_round_def split_beta)
    have "?p = (st, False)" using pass_same [OF False] by simp
    then show ?thesis
      unfolding valid_strata_def st' using pass_reach [of _ names _ deps "(st, False)"] by simp
  qed
qed simp

lemma card_heads: "card (head_rels rules) = length (sorted_heads rules)"
  by (metis distinct_card distinct_sorted_heads set_sorted_heads)

lemma stratify_least:
  "case stratify rules of
     Inr st \<Rightarrow> stratification rules st \<and> (\<forall>st'. stratification rules st' \<longrightarrow> (\<forall>x. st x \<le> st' x))
   | Inl _ \<Rightarrow> \<not> (\<exists>st. stratification rules st)"
proof (cases "relax_rounds (Suc (length (sorted_heads rules))) (deps_of rules) (sorted_heads rules) (\<lambda>_. 0)")
  case None
  have "\<not> stratification rules st" for st
  proof
    assume "stratification rules st"
    then have "valid_strata (deps_of rules) (set (sorted_heads rules)) st" by (simp add: stratification_iff)
    from relax_rounds_complete [where st = "\<lambda>_. 0" and n = "Suc (length (sorted_heads rules))",
        OF this] deps_in_heads' None
    show False by (simp add: card_heads del: relax_rounds.simps)
  qed
  then show ?thesis using None by (simp add: stratify_def Let_def)
next
  case (Some st)
  have v: "stratification rules st"
    using relax_rounds_sound [OF Some] by (simp add: stratification_iff)
  have "st x \<le> st' x" if "stratification rules st'" for st' x
  proof -
    have v': "valid_strata (deps_of rules) (set (sorted_heads rules)) st'"
      using that by (simp add: stratification_iff)
    from relax_rounds_complete [where st = "\<lambda>_. 0" and n = "Suc (length (sorted_heads rules))",
        OF this] deps_in_heads' Some
    have "st x \<le> least_strata (deps_of rules) (set (sorted_heads rules)) x"
      by (simp add: card_heads del: relax_rounds.simps)
    then show ?thesis using least_strata_le [OF v', of x] by simp
  qed
  then show ?thesis using Some v by (simp add: stratify_def Let_def)
qed

section \<open>The reported cycle\<close>

definition reads :: "(string \<Rightarrow> dep list) \<Rightarrow> string \<Rightarrow> string \<Rightarrow> bool" where
  "reads adj x y \<longleftrightarrow> (\<exists>b. (y, b) \<in> set (adj x))"

definition closed_walk :: "(string \<Rightarrow> dep list) \<Rightarrow> string list \<Rightarrow> bool" where
  "closed_walk adj c \<longleftrightarrow> 2 \<le> length c \<and> hd c = last c \<and> successively (reads adj) c"

lemma cycle_walk_closed:
  "successively (reads adj) (path @ [rel]) \<Longrightarrow> cycle_walk fuel adj path rel neg = Some c \<Longrightarrow> closed_walk adj c"
  "path \<noteq> [] \<Longrightarrow> successively (reads adj) path \<Longrightarrow> set es \<subseteq> set (adj (last path)) \<Longrightarrow>
     cycle_walks fuel adj path es neg = Some c \<Longrightarrow> closed_walk adj c"
proof (induction fuel adj path rel neg and fuel adj path es neg
    arbitrary: c and c rule: cycle_walk_cycle_walks.induct)
  case (1 fuel adj path rel neg)
  show ?case
  proof (cases "rel \<in> set path")
    case True
    let ?p = "dropWhile (\<lambda>p. p \<noteq> rel) path"
    have c: "c = ?p @ [rel]"
      using "1.prems"(2) True by (auto simp: cycle_walk.simps split: if_splits)
    have ne: "?p \<noteq> []" using True by (auto simp: dropWhile_eq_Nil_conv)
    then have hd: "hd ?p = rel" using hd_dropWhile [of "\<lambda>p. p \<noteq> rel" path] by simp
    have "successively (reads adj) (takeWhile (\<lambda>p. p \<noteq> rel) path @ ?p @ [rel])"
      using "1.prems"(1) by (simp add: append.assoc [symmetric] del: append.assoc)
    then have "successively (reads adj) (?p @ [rel])" by (simp add: successively_append_iff)
    moreover have "2 \<le> length (?p @ [rel])" using ne by (cases ?p) auto
    ultimately show ?thesis using c ne hd by (simp add: closed_walk_def)
  next
    case False
    then obtain n where n: "fuel = Suc n" and w: "cycle_walks n adj (path @ [rel]) (adj rel) neg = Some c"
      using "1.prems"(2) by (auto simp: cycle_walk.simps split: nat.splits)
    show ?thesis using "1.IH" [OF False n _ "1.prems"(1) _ w] by simp
  qed
next
  case (2 fuel adj path sawNeg)
  then show ?case by simp
next
  case (3 fuel adj path e es sawNeg)
  show ?case
  proof (cases "cycle_walk fuel adj path (fst e) (sawNeg \<or> snd e)")
    case None
    then show ?thesis using 3 by simp
  next
    case (Some c')
    have "reads adj (last path) (fst e)"
      using "3.prems"(3) by (auto simp: reads_def intro: exI [of _ "snd e"])
    then have "successively (reads adj) (path @ [fst e])"
      using "3.prems"(1,2) by (simp add: successively_append_iff)
    then show ?thesis using "3.IH"(1) Some "3.prems"(4) by simp
  qed
qed

lemma first_cycle_closed: "first_cycle fuel adj fs = Some c \<Longrightarrow> closed_walk adj c"
  by (induction fs) (auto split: option.splits dest: cycle_walk_closed(1) [rotated])

section \<open>Properties\<close>

text \<open>
  C39: \<open>stratify\<close> decides stratifiability: when it succeeds the result is a stratification, and the
  least one; when it fails the program has none.
\<close>

theorem stratify_decides:
  "case stratify rules of
     Inr st \<Rightarrow> stratification rules st \<and> (\<forall>st'. stratification rules st' \<longrightarrow> (\<forall>x. st x \<le> st' x))
   | Inl _ \<Rightarrow> \<not> (\<exists>st. stratification rules st)"
  by (rule stratify_least)

theorem stratify_decides_witness: "\<exists>st. stratify [] = Inr st \<and> stratification [] st"
  using stratify_decides [of "[]"] by (auto simp: stratification_def split: sum.splits)

text \<open>
  When \<open>stratify\<close> rejects a program, the relations its error lists are a closed walk of the
  read graph, or, as a fallback, all head relations in order.
\<close>

theorem rejected_cycle_is_closed:
  assumes "stratify rules = Inl (LoadE (ENotStratified c))"
  shows "closed_walk (deps_of rules) c \<or> c = sorted_heads rules"
proof -
  let ?fs = "sorted_heads rules"
  have c: "c = findNegativeCycle rules" using assms by (auto simp: stratify_def Let_def split: option.splits)
  show ?thesis
  proof (cases "first_cycle (Suc (length ?fs)) (adj_of rules) ?fs")
    case (Some d)
    then have "closed_walk (adj_of rules) d" by (rule first_cycle_closed)
    moreover have "adj_of rules = deps_of rules" by (rule ext) (simp add: adj_of_def)
    ultimately show ?thesis using c Some by (simp add: findNegativeCycle_def Let_def)
  qed (simp add: c findNegativeCycle_def Let_def)
qed

theorem rejected_cycle_is_closed_witness:
  "\<exists>rules c. stratify rules = Inl (LoadE (ENotStratified c)) \<and> (closed_walk (deps_of rules) c \<or> c = sorted_heads rules)"
proof -
  define r where "r = \<lparr>ru_head = \<lparr>l_rel = ''p'', l_args = [], l_neg = False\<rparr>,
    ru_body = [\<lparr>l_rel = ''p'', l_args = [], l_neg = True\<rparr>], ru_name = ''p'', ru_file = [], ru_line = 0, ru_nvars = 0, ru_agg = None\<rparr>"
  have "\<not> stratification [r] st" for st by (simp add: stratification_def head_rels_def r_def)
  then have "\<not> isl (stratify [r]) \<Longrightarrow> False"
    using stratify_least [of "[r]"] by (cases "stratify [r]") auto
  then obtain x where x: "stratify [r] = Inl x" by (metis isl_def)
  then have "\<exists>c. x = LoadE (ENotStratified c)" by (auto simp: stratify_def Let_def split: option.splits)
  then obtain c where "stratify [r] = Inl (LoadE (ENotStratified c))" using x by blast
  then show ?thesis using rejected_cycle_is_closed [of "[r]" c] by blast
qed

text \<open>
  The flag of the walk is not reset at the start of the cycle: here the only negated read leads
  into the cycle, and the walk reports the cycle although it has no negated edge.
\<close>

lemma positive_cycle_reported:
  "cycle_walk 5 ((\<lambda>_. [])(''a'' := [(''b'', True)], ''b'' := [(''b'', False)])) [] ''a'' False = Some [''b'', ''b'']"
  by (simp add: cycle_walk.simps)

end
