(* ===== verification/Eval.thy ===== *)
theory Eval
  imports Strata
begin

unbundle bit_operations_syntax

text \<open>
  Rule evaluation (\<open>internal/datalog/solve.go\<close>: \<open>record\<close>, \<open>evalRule\<close>, \<open>join\<close>, \<open>frame\<close>;
  \<open>builtin.go\<close>: \<open>evalBuiltin\<close>; \<open>agg.go\<close>; the \<open>Engine\<close> record of \<open>engine.go\<close>).

  The engine is one record that every operation threads; \<open>en_round\<close> is the \<open>roundState\<close> of the
  innermost fixpoint, which Go passes along as a pointer. A memo table is named by its packed
  subgoal key, where Go holds a pointer to it. The per-argument index of a relation is a cache
  of its rows (see the lookup lemmas of the storage theory), so lookups read the rows and do not
  write the built index back; the cached patterns and plans of a rule are computed where they
  are used, from the same fields.
\<close>

section \<open>Engine state\<close>

datatype tableState = TDirty | TProducing | TComplete

record dtable =
  tb_rel :: relation
  tb_state :: tableState

record dstep =
  ds_relation :: string
  ds_tuple :: tuple
  ds_base :: bool

record derivation =
  dv_rule :: string
  dv_head :: tuple
  dv_body :: "dstep list"

record aggAcc =
  ac_group :: itup
  ac_pos :: "nat option"
  ac_ival :: int
  ac_have :: bool
  ac_distinct :: "uint32 list"
  ac_steps :: "dstep list"

type_synonym dgKey = "string \<times> tkey"

record engine =
  en_demandDriven :: bool
  en_maxTuples :: nat
  en_maxRounds :: nat
  en_base :: "string \<Rightarrow> relation option"
  en_rules :: "string \<Rightarrow> rule list"
  en_ruleOrder :: "rule list"
  en_strata :: "strata option"
  en_syms :: interner
  en_tables :: "sgKey \<Rightarrow> dtable option"
  en_evalDepth :: nat
  en_grown :: nat
  en_round :: "sgKey \<Rightarrow> bool"
  en_aggRel :: "string \<Rightarrow> bool"
  en_agg :: "(tkey \<times> aggAcc) list"
  en_derivs :: "dgKey \<Rightarrow> derivation list"
  en_derivSet :: "string \<Rightarrow> bool"
  en_fastRule :: "dgKey \<Rightarrow> string option"
  en_fastAmb :: "dgKey \<Rightarrow> bool"
  en_recordProv :: bool
  en_loaded :: bool

definition groupKey :: "string \<Rightarrow> itup \<Rightarrow> dgKey" where
  "groupKey rel t = (rel, key t)"

section \<open>Binding frames\<close>

text \<open>A frame has one value per variable slot and a 64-bit mask of the slots that are set.\<close>

record frame =
  fr_val :: "uint32 list"
  fr_set :: uint64

definition newFrame :: "nat \<Rightarrow> frame" where
  "newFrame n = \<lparr>fr_val = replicate n 0, fr_set = 0\<rparr>"

definition frame_get :: "frame \<Rightarrow> nat \<Rightarrow> uint32 option" where
  "frame_get f k = (if fr_set f AND push_bit k 1 \<noteq> 0 then Some (fr_val f ! k) else None)"

definition frame_put :: "frame \<Rightarrow> nat \<Rightarrow> uint32 \<Rightarrow> frame" where
  "frame_put f k v = \<lparr>fr_val = (fr_val f)[k := v], fr_set = fr_set f OR push_bit k 1\<rparr>"

text \<open>\<open>set &^= added\<close>: the join clears the slots a candidate row has set.\<close>

definition frame_unwind :: "frame \<Rightarrow> uint64 \<Rightarrow> frame" where
  "frame_unwind f added = f\<lparr>fr_set := fr_set f AND NOT added\<rparr>"

section \<open>Builtins\<close>

definition str_prefix :: "string \<Rightarrow> string \<Rightarrow> bool" where
  "str_prefix s p = (take (length p) s = p)"

fun str_contains :: "string \<Rightarrow> string \<Rightarrow> bool" where
  "str_contains [] sub = (sub = [])"
| "str_contains (c # s) sub = (str_prefix (c # s) sub \<or> str_contains s sub)"

definition evalBuiltin :: "string \<Rightarrow> uint32 \<Rightarrow> uint32 \<Rightarrow> interner \<Rightarrow> dl_error + bool" where
  "evalBuiltin rel a b syms =
     (if rel = ''ne'' then Inr (a \<noteq> b)
      else if rel = ''contains'' then
        (case (in_sym syms a, in_sym syms b) of
           (Some s, Some t) \<Rightarrow> Inr (str_contains s t) | _ \<Rightarrow> Inl (EvalE EPanic))
      else if rel = ''prefix'' then
        (case (in_sym syms a, in_sym syms b) of
           (Some s, Some t) \<Rightarrow> Inr (str_prefix s t) | _ \<Rightarrow> Inl (EvalE EPanic))
      else case (decodeIntSym a, decodeIntSym b) of
             (Some x, Some y) \<Rightarrow> Inr (if rel = ''lt'' then x < y else x \<le> y)
           | _ \<Rightarrow> Inl (EvalE (EIntOperands rel a b)))"

section \<open>Recording a tuple\<close>

text \<open>
  The dedup key of a derivation interns every string of it, so it may extend the symbol table.
\<close>

fun write_syms :: "interner \<Rightarrow> string list \<Rightarrow> string \<times> interner" where
  "write_syms i [] = ([], i)"
| "write_syms i (s # ss) =
     (let (v, i1) = in_id i s; (b, i2) = write_syms i1 ss in (le_bytes v @ b, i2))"

definition derivKeyFast :: "interner \<Rightarrow> derivation \<Rightarrow> string \<times> interner" where
  "derivKeyFast i d =
     write_syms i (dv_rule d # dv_head d @ concat (map (\<lambda>b. ds_relation b # ds_tuple b) (dv_body d)))"

definition note_rule :: "string \<Rightarrow> dgKey \<Rightarrow> engine \<Rightarrow> engine" where
  "note_rule ruleName gk e =
     (if en_fastAmb e gk then e
      else case en_fastRule e gk of
             Some prev \<Rightarrow>
               if prev \<noteq> ruleName
               then e\<lparr>en_fastRule := (en_fastRule e)(gk := None), en_fastAmb := (en_fastAmb e)(gk := True)\<rparr>
               else e
           | None \<Rightarrow> e\<lparr>en_fastRule := (en_fastRule e)(gk \<mapsto> ruleName)\<rparr>)"

definition note_derivation :: "derivation \<Rightarrow> dgKey \<Rightarrow> engine \<Rightarrow> engine" where
  "note_derivation d gk e =
     (let (k, i) = derivKeyFast (en_syms e) d; e1 = e\<lparr>en_syms := i\<rparr> in
      if en_derivSet e1 k then e1
      else e1\<lparr>en_derivSet := (en_derivSet e1)(k := True),
              en_derivs := (en_derivs e1)(gk := en_derivs e1 gk @ [d])\<rparr>)"

definition record_tuple :: "sgKey \<Rightarrow> itup \<Rightarrow> derivation option \<Rightarrow> string \<Rightarrow> engine \<Rightarrow> dl_error + engine" where
  "record_tuple tk tup d ruleName e =
     (case en_tables e tk of
        None \<Rightarrow> Inl (EvalE EPanic)
      | Some t \<Rightarrow>
          let (new, rl) = add (tb_rel t) tup;
              e1 = e\<lparr>en_tables := (en_tables e)(tk \<mapsto> t\<lparr>tb_rel := rl\<rparr>),
                     en_grown := (if new then Suc (en_grown e) else en_grown e)\<rparr>;
              gk = groupKey (r_name rl) tup in
          if new \<and> length (r_tuples rl) > en_maxTuples e
          then Inl (EvalE (EMaxTuples (r_name rl) (en_maxTuples e)))
          else case d of
                 Some dv \<Rightarrow> Inr (if en_recordProv e then note_derivation dv gk e1
                                 else if ruleName \<noteq> [] then note_rule ruleName gk e1 else e1)
               | None \<Rightarrow> Inr (if ruleName \<noteq> [] \<and> \<not> en_recordProv e then note_rule ruleName gk e1 else e1))"

section \<open>Aggregation\<close>

text \<open>
  The head of an aggregate rule with its output slot left zero, and the position of that slot
  (the last one, as the loop leaves it).
\<close>

fun agg_head :: "nat \<Rightarrow> nat \<Rightarrow> frame \<Rightarrow> dterm list \<Rightarrow> (itup \<times> nat option) option" where
  "agg_head out k fr [] = Some ([], None)"
| "agg_head out k fr (a # as) =
     (case agg_head out (Suc k) fr as of
        None \<Rightarrow> None
      | Some (t, p) \<Rightarrow>
          if \<not> tm_isVar a then Some (tm_sym a # t, p)
          else if tm_var a = out then Some (0 # t, if p = None then Some k else p)
          else (case frame_get fr (tm_var a) of None \<Rightarrow> None | Some v \<Rightarrow> Some (v # t, p)))"

definition acc_update :: "string \<Rightarrow> uint32 \<Rightarrow> int option \<Rightarrow> bool \<Rightarrow> dstep list \<Rightarrow> aggAcc \<Rightarrow> aggAcc" where
  "acc_update fn iv n prov steps ac =
     (if fn = ''count'' then ac\<lparr>ac_distinct := List.insert iv (ac_distinct ac)\<rparr>
      else case n of
             None \<Rightarrow> ac
           | Some x \<Rightarrow>
               if \<not> ac_have ac \<or> (fn = ''min'' \<and> x < ac_ival ac) \<or> (fn = ''max'' \<and> x > ac_ival ac)
               then ac\<lparr>ac_have := True, ac_ival := x, ac_steps := (if prov then steps else ac_steps ac)\<rparr>
               else ac)"

definition aggCollect :: "rule \<Rightarrow> aggSpec \<Rightarrow> frame \<Rightarrow> dstep list \<Rightarrow> engine \<Rightarrow> dl_error + engine" where
  "aggCollect r a fr steps e =
     (case agg_head (ag_outSlot a) 0 fr (l_args (ru_head r)) of
        None \<Rightarrow> Inl (EvalE (EAggVarUnset (ru_name r) ''head''))
      | Some (hd_tup, pos) \<Rightarrow>
          (case frame_get fr (ag_inSlot a) of
             None \<Rightarrow> Inl (EvalE (EAggVarUnset (ru_name r) (ag_inVar a)))
           | Some iv \<Rightarrow>
               let k = key hd_tup; n = decodeIntSym iv;
                   fresh = \<lparr>ac_group = hd_tup, ac_pos = pos, ac_ival = 0,
                            ac_have = False, ac_distinct = [], ac_steps = []\<rparr>;
                   ac = (case map_of (en_agg e) k of None \<Rightarrow> fresh | Some x \<Rightarrow> x) in
               if ag_fn a \<noteq> ''count'' \<and> n = None then Inl (EvalE (EAggNonInt (ru_name r) (ag_fn a) iv))
               else Inr (e\<lparr>en_agg := AList.update k (acc_update (ag_fn a) iv n (en_recordProv e) steps ac) (en_agg e)\<rparr>)))"

text \<open>
  \<open>flushAgg\<close>: the groups in the order of their revealed tuples. Sorting two or more groups
  compares each of them, so a group that cannot be revealed panics.
\<close>

definition sort_groups :: "interner \<Rightarrow> aggAcc list \<Rightarrow> dl_error + aggAcc list" where
  "sort_groups syms acs =
     (if length acs \<le> 1 then Inr acs
      else if list_ex (\<lambda>ac. reveal syms (ac_group ac) = None) acs then Inl (EvalE EPanic)
      else Inr (sort_key (\<lambda>ac. case reveal syms (ac_group ac) of Some t \<Rightarrow> t | None \<Rightarrow> []) acs))"

definition acc_result :: "string \<Rightarrow> aggAcc \<Rightarrow> int option" where
  "acc_result fn ac =
     (if fn = ''count'' then Some (int (length (ac_distinct ac)))
      else if ac_have ac then Some (ac_ival ac) else None)"

definition flush_one :: "rule \<Rightarrow> aggSpec \<Rightarrow> sgKey \<Rightarrow> aggAcc \<Rightarrow> engine \<Rightarrow> dl_error + engine" where
  "flush_one r a tk ac e =
     (case acc_result (ag_fn a) ac of
        None \<Rightarrow> Inr e
      | Some res \<Rightarrow>
          (case ac_pos ac of
             None \<Rightarrow> Inl (EvalE EPanic)
           | Some p \<Rightarrow>
               let h = (ac_group ac)[p := intSymFlag OR of_int res] in
               if en_recordProv e then
                 (case reveal (en_syms e) h of
                    None \<Rightarrow> Inl (EvalE EPanic)
                  | Some ht \<Rightarrow>
                      record_tuple tk h (Some \<lparr>dv_rule = ru_name r, dv_head = ht, dv_body = ac_steps ac\<rparr>) (ru_name r) e)
               else record_tuple tk h None (ru_name r) e))"

definition flushAgg :: "rule \<Rightarrow> aggSpec \<Rightarrow> sgKey \<Rightarrow> engine \<Rightarrow> dl_error + engine" where
  "flushAgg r a tk e =
     bindE (sort_groups (en_syms e) (map snd (en_agg e))) (\<lambda>acs. foldE (flush_one r a tk) acs e)"

section \<open>The join\<close>

text \<open>
  \<open>bodySource\<close> is the interface the two evaluators implement: the candidate rows of a positive
  literal, and whether a negated one has a matching row.
\<close>

record bodySource =
  bs_lit :: "nat \<Rightarrow> literal \<Rightarrow> binds \<Rightarrow> engine \<Rightarrow> dl_error + itup list \<times> engine"
  bs_neg :: "literal \<Rightarrow> binds \<Rightarrow> engine \<Rightarrow> dl_error + bool \<times> engine"

definition termSym :: "frame \<Rightarrow> dterm \<Rightarrow> uint32 option" where
  "termSym fr a = (if tm_isVar a then frame_get fr (tm_var a) else Some (tm_sym a))"

text \<open>Binding a candidate row: constants and bound variables must agree, free ones are set.\<close>

fun unify_args :: "dterm list \<Rightarrow> itup \<Rightarrow> frame \<Rightarrow> frame option" where
  "unify_args [] t fr = Some fr"
| "unify_args (a # as) [] fr = None"
| "unify_args (a # as) (v # t) fr =
     (if \<not> tm_isVar a then (if tm_sym a \<noteq> v then None else unify_args as t fr)
      else case frame_get fr (tm_var a) of
             Some w \<Rightarrow> if w \<noteq> v then None else unify_args as t fr
           | None \<Rightarrow> unify_args as t (frame_put fr (tm_var a) v))"

fun bind_head :: "dterm list \<Rightarrow> binds \<Rightarrow> frame \<Rightarrow> frame option" where
  "bind_head [] bs fr = Some fr"
| "bind_head (a # as) [] fr = Some fr"
| "bind_head (a # as) (None # bs) fr = bind_head as bs fr"
| "bind_head (a # as) (Some v # bs) fr =
     (if \<not> tm_isVar a then (if tm_sym a \<noteq> v then None else bind_head as bs fr)
      else case frame_get fr (tm_var a) of
             Some w \<Rightarrow> if w \<noteq> v then None else bind_head as bs fr
           | None \<Rightarrow> bind_head as bs (frame_put fr (tm_var a) v))"

fun head_tuple :: "frame \<Rightarrow> dterm list \<Rightarrow> itup option" where
  "head_tuple fr [] = Some []"
| "head_tuple fr (a # as) =
     (case termSym fr a of
        None \<Rightarrow> None
      | Some v \<Rightarrow> (case head_tuple fr as of None \<Rightarrow> None | Some t \<Rightarrow> Some (v # t)))"

definition join_emit :: "rule \<Rightarrow> binds \<Rightarrow> sgKey \<Rightarrow> frame \<Rightarrow> dstep list \<Rightarrow> engine \<Rightarrow> dl_error + engine" where
  "join_emit r bs tk fr steps e =
     (case ru_agg r of
        Some a \<Rightarrow> aggCollect r a fr steps e
      | None \<Rightarrow>
          (case head_tuple fr (l_args (ru_head r)) of
             None \<Rightarrow> Inl (EvalE (EHeadVarUnset (ru_name r) (l_rel (ru_head r))))
           | Some h \<Rightarrow>
               if \<not> matches h bs then Inr e
               else if en_recordProv e then
                 (case reveal (en_syms e) h of
                    None \<Rightarrow> Inl (EvalE EPanic)
                  | Some ht \<Rightarrow>
                      record_tuple tk h (Some \<lparr>dv_rule = ru_name r, dv_head = ht, dv_body = steps\<rparr>) (ru_name r) e)
               else record_tuple tk h None (ru_name r) e))"

definition add_step :: "literal \<Rightarrow> itup \<Rightarrow> dstep list \<Rightarrow> engine \<Rightarrow> dl_error + dstep list" where
  "add_step l t steps e =
     (if en_recordProv e then
        (case reveal (en_syms e) t of
           None \<Rightarrow> Inl (EvalE EPanic)
         | Some tt \<Rightarrow> Inr (steps @ [\<lparr>ds_relation = l_rel l, ds_tuple = tt,
             ds_base = (en_rules e (l_rel l) = [] \<and> en_base e (l_rel l) \<noteq> None)\<rparr>]))
      else Inr steps)"

primrec join :: "bodySource \<Rightarrow> rule \<Rightarrow> binds \<Rightarrow> sgKey \<Rightarrow> literal list \<Rightarrow> nat \<Rightarrow> frame \<Rightarrow> dstep list
    \<Rightarrow> engine \<Rightarrow> dl_error + engine" where
  "join src r bs tk [] p fr steps e = join_emit r bs tk fr steps e"
| "join src r bs tk (l # ls) p fr steps e =
     (if is_builtin (l_rel l) then
        (case l_args l of
           x # y # _ \<Rightarrow>
             (case (termSym fr x, termSym fr y) of
                (Some a, Some b) \<Rightarrow>
                  bindE (evalBuiltin (l_rel l) a b (en_syms e)) (\<lambda>holds.
                    if holds then join src r bs tk ls (Suc p) fr steps e else Inr e)
              | _ \<Rightarrow> Inl (EvalE (EOperandUnset (ru_name r) (l_rel l))))
         | _ \<Rightarrow> Inl (EvalE EPanic))
      else if l_neg l then
        bindE (bs_neg src l (map (termSym fr) (l_args l)) e) (\<lambda>(found, e1).
          if found then Inr e1 else join src r bs tk ls (Suc p) fr steps e1)
      else
        bindE (bs_lit src p l (map (termSym fr) (l_args l)) e) (\<lambda>(cands, e1).
          foldE (\<lambda>t e2.
              case unify_args (l_args l) t fr of
                None \<Rightarrow> Inr e2
              | Some fr' \<Rightarrow> bindE (add_step l t steps e2) (\<lambda>steps'.
                  join src r bs tk ls (Suc p) fr' steps' e2))
            cands e1))"

definition evalRule :: "bodySource \<Rightarrow> rule \<Rightarrow> binds \<Rightarrow> sgKey \<Rightarrow> engine \<Rightarrow> dl_error + engine" where
  "evalRule src r bs tk e =
     (case bind_head (l_args (ru_head r)) bs (newFrame (ru_nvars r)) of
        None \<Rightarrow> Inr e
      | Some fr \<Rightarrow>
          (case ru_agg r of
             None \<Rightarrow> join src r bs tk (ru_body r) 0 fr [] e
           | Some a \<Rightarrow>
               bindE (join src r bs tk (ru_body r) 0 fr [] (e\<lparr>en_agg := []\<rparr>)) (\<lambda>e1.
                 bindE (flushAgg r a tk e1) (\<lambda>e2. Inr (e2\<lparr>en_agg := en_agg e\<rparr>)))))"

text \<open>Two groups whose placeholder symbol names nothing make the sort of the groups panic.\<close>

lemma flush_panics_without_symbols:
  "ac_group g = [0, intSymFlag OR 1] \<Longrightarrow> sort_groups newInterner [g, h] = Inl (EvalE EPanic)"
  by (simp add: sort_groups_def newInterner_def in_sym_def)

end
