(* ===== verification/Semantics.thy ===== *)
theory Semantics
  imports Eval
begin

unbundle bit_operations_syntax

text \<open>
  What a rule means, and that the join computes it. A substitution maps variable slots to symbols;
  a frame is a partial substitution. The join is verified once, against the interface that the
  evaluation modes implement (\<open>bodySource\<close> of \<open>internal/datalog/bottomup.go\<close>).
\<close>

section \<open>Frames are partial substitutions\<close>

type_synonym subst = "nat \<Rightarrow> uint32"

definition frame_ok :: "nat \<Rightarrow> frame \<Rightarrow> bool" where
  "frame_ok n fr \<longleftrightarrow> length (fr_val fr) = n \<and> n \<le> 64"

definition bound :: "frame \<Rightarrow> nat set" where
  "bound fr = {k. k < 64 \<and> frame_get fr k \<noteq> None}"

definition agrees :: "subst \<Rightarrow> frame \<Rightarrow> bool" where
  "agrees \<theta> fr \<longleftrightarrow> (\<forall>k < 64. \<forall>v. frame_get fr k = Some v \<longrightarrow> \<theta> k = v)"

lemma mask_bit_iff: "(w :: uint64) AND push_bit k 1 \<noteq> 0 \<longleftrightarrow> k < 64 \<and> bit w k"
proof -
  have "(w AND push_bit k 1 \<noteq> 0) \<longleftrightarrow> (\<exists>n. bit (w AND push_bit k 1) n)"
    by (metis bit_eqI bit_0_eq bot_fun_def bot_bool_def)
  also have "\<dots> \<longleftrightarrow> k < 64 \<and> bit w k"
    by (auto simp: bit_simps)
  finally show ?thesis .
qed

lemma frame_get_iff: "frame_get fr k = (if k < 64 \<and> bit (fr_set fr) k then Some (fr_val fr ! k) else None)"
  unfolding frame_get_def mask_bit_iff ..

lemma frame_get_new [simp]: "frame_get (newFrame n) k = None"
  by (simp add: frame_get_iff newFrame_def)

lemma frame_get_put:
  assumes "frame_ok n fr" "k < n"
  shows "frame_get (frame_put fr k v) j = (if j = k then Some v else frame_get fr j)"
  using assms by (auto simp: frame_get_iff frame_put_def frame_ok_def bit_simps nth_list_update)

lemma frame_ok_put [simp]: "frame_ok n (frame_put fr k v) = frame_ok n fr"
  by (simp add: frame_ok_def frame_put_def)

lemma frame_ok_new: "n \<le> 64 \<Longrightarrow> frame_ok n (newFrame n)"
  by (simp add: frame_ok_def newFrame_def)

lemma bound_new [simp]: "bound (newFrame n) = {}"
  by (simp add: bound_def)

lemma agrees_new [simp]: "agrees \<theta> (newFrame n)"
  by (simp add: agrees_def)

lemma agrees_ex: "\<exists>\<theta>. agrees \<theta> fr"
  by (rule exI [of _ "\<lambda>k. case frame_get fr k of Some v \<Rightarrow> v | None \<Rightarrow> 0"]) (simp add: agrees_def)

lemma bound_put:
  assumes "frame_ok n fr" "k < n"
  shows "bound (frame_put fr k v) = insert k (bound fr)"
  using assms by (auto simp: bound_def frame_get_put frame_ok_def)

lemma agrees_put:
  assumes "frame_ok n fr" "k < n" "frame_get fr k = None"
  shows "agrees \<theta> (frame_put fr k v) \<longleftrightarrow> agrees \<theta> fr \<and> \<theta> k = v"
proof -
  have "k < 64" using assms(1,2) by (simp add: frame_ok_def)
  then show ?thesis
    using assms(3) unfolding agrees_def frame_get_put [OF assms(1,2)] by auto
qed

section \<open>Terms under a substitution\<close>

definition term_val :: "subst \<Rightarrow> dterm \<Rightarrow> uint32" where
  "term_val \<theta> a = (if tm_isVar a then \<theta> (tm_var a) else tm_sym a)"

definition slots_of :: "dterm list \<Rightarrow> nat set" where
  "slots_of as = tm_var ` {a \<in> set as. tm_isVar a}"

definition terms_ok :: "nat \<Rightarrow> dterm list \<Rightarrow> bool" where
  "terms_ok n as \<longleftrightarrow> (\<forall>a \<in> set as. tm_isVar a \<longrightarrow> tm_var a < n)"

definition inst :: "subst \<Rightarrow> literal \<Rightarrow> itup" where
  "inst \<theta> l = map (term_val \<theta>) (l_args l)"

lemma slots_of_Cons:
  "slots_of (a # as) = (if tm_isVar a then insert (tm_var a) (slots_of as) else slots_of as)"
  by (auto simp: slots_of_def)

lemma slots_of_Nil [simp]: "slots_of [] = {}"
  by (simp add: slots_of_def)

lemma termSym_agrees:
  assumes "agrees \<theta> fr" "termSym fr a = Some v"
  shows "term_val \<theta> a = v"
  using assms by (auto simp: agrees_def termSym_def term_val_def frame_get_iff split: if_splits)

lemma termSym_bound:
  assumes "frame_ok n fr" "terms_ok n as" "a \<in> set as" "slots_of as \<subseteq> bound fr" "agrees \<theta> fr"
  shows "termSym fr a = Some (term_val \<theta> a)"
proof (cases "tm_isVar a")
  case True
  then have "tm_var a \<in> bound fr" using assms(3,4) by (auto simp: slots_of_def)
  then obtain v where v: "tm_var a < 64" "frame_get fr (tm_var a) = Some v" by (auto simp: bound_def)
  then show ?thesis using True assms(5) by (simp add: termSym_def term_val_def agrees_def)
qed (simp add: termSym_def term_val_def)

lemma matches_inst:
  assumes "agrees \<theta> fr"
  shows "matches (map (term_val \<theta>) as) (map (termSym fr) as)"
  by (induction as) (auto split: option.splits dest: termSym_agrees [OF assms])

lemma matches_ground:
  assumes "length t = length u"
  shows "matches t (map Some u) \<longleftrightarrow> t = u"
  using assms by (induction t u rule: list_induct2) auto

lemma pattern_ground:
  assumes "frame_ok n fr" "terms_ok n as" "slots_of as \<subseteq> bound fr" "agrees \<theta> fr"
  shows "map (termSym fr) as = map Some (map (term_val \<theta>) as)"
  using termSym_bound [OF assms(1,2) _ assms(3,4)] by simp

lemma head_tuple_bound:
  assumes "frame_ok n fr" "terms_ok n as" "slots_of as \<subseteq> bound fr" "agrees \<theta> fr"
  shows "head_tuple fr as = Some (map (term_val \<theta>) as)"
  using assms
proof (induction as)
  case (Cons a as)
  have "termSym fr a = Some (term_val \<theta> a)"
    using termSym_bound [OF Cons.prems(1,2) _ Cons.prems(3,4), of a] by simp
  moreover have "head_tuple fr as = Some (map (term_val \<theta>) as)"
    using Cons.prems by (intro Cons.IH) (auto simp: terms_ok_def slots_of_Cons split: if_splits)
  ultimately show ?case by simp
qed simp

section \<open>Matching a candidate row\<close>

text \<open>
  Binding a row succeeds exactly for the substitutions that extend the frame and instantiate the
  literal to the row, and binds all its variables.
\<close>

lemma unify_args_spec:
  assumes "frame_ok n fr" "terms_ok n as" "length as = length t"
  shows "case unify_args as t fr of
      None \<Rightarrow> (\<forall>\<theta>. agrees \<theta> fr \<longrightarrow> map (term_val \<theta>) as \<noteq> t)
    | Some fr' \<Rightarrow> frame_ok n fr' \<and> bound fr' = bound fr \<union> slots_of as
        \<and> (\<forall>\<theta>. agrees \<theta> fr' \<longleftrightarrow> agrees \<theta> fr \<and> map (term_val \<theta>) as = t)"
  using assms
proof (induction as t fr rule: unify_args.induct)
  case (3 a as v t fr)
  note ok = "3.prems"(1)
  have tail: "terms_ok n as" "length as = length t" using "3.prems" by (auto simp: terms_ok_def)
  show ?case
  proof (cases "tm_isVar a")
    case False
    then show ?thesis
      using "3.IH"(1) [OF _ _ ok tail] by (auto simp: term_val_def slots_of_Cons split: option.splits)
  next
    case True
    then have k: "tm_var a < n" using "3.prems"(2) by (simp add: terms_ok_def)
    show ?thesis
    proof (cases "frame_get fr (tm_var a)")
      case None
      have ok': "frame_ok n (frame_put fr (tm_var a) v)" using ok by simp
      note ih = "3.IH"(2) [OF _ None ok' tail]
      note ap = agrees_put [OF ok k None] and bp = bound_put [OF ok k]
      show ?thesis
        using ih True None by (auto simp: ap bp term_val_def slots_of_Cons split: option.splits)
    next
      case (Some w)
      then have b: "tm_var a \<in> bound fr" by (auto simp: bound_def frame_get_iff split: if_splits)
      have ag: "agrees \<theta> fr \<Longrightarrow> \<theta> (tm_var a) = w" for \<theta>
        using Some b by (auto simp: agrees_def bound_def)
      show ?thesis
      proof (cases "w = v")
        case eq: True
        have nv: "\<not> \<not> tm_isVar a" and nw: "\<not> w \<noteq> v" using True eq by simp_all
        note ih = "3.IH"(3) [OF nv Some nw ok tail]
        have un: "bound fr \<union> slots_of (a # as) = bound fr \<union> slots_of as"
          using b by (auto simp: slots_of_Cons)
        have st: "unify_args (a # as) (v # t) fr = unify_args as t fr" using True Some eq by simp
        have ins: "agrees \<theta> fr \<and> map (term_val \<theta>) (a # as) = v # t
          \<longleftrightarrow> agrees \<theta> fr \<and> map (term_val \<theta>) as = t" for \<theta>
          using True eq ag by (auto simp: term_val_def)
        show ?thesis using ih ins unfolding un st by (auto split: option.splits)
      next
        case False
        then show ?thesis using True Some ag by (auto simp: term_val_def)
      qed
    qed
  qed
qed (auto simp: slots_of_def)

text \<open>
  The join undoes a row's bindings by clearing the bits it has set; the value slots it leaves
  behind are never read. So continuing with the frame as it was before the row is the same.
\<close>

lemma unify_args_extends:
  assumes "frame_ok n fr" "terms_ok n as" "unify_args as t fr = Some fr'"
  shows "(\<forall>k. bit (fr_set fr) k \<longrightarrow> bit (fr_set fr') k)
    \<and> (\<forall>k < 64. bit (fr_set fr) k \<longrightarrow> fr_val fr' ! k = fr_val fr ! k)"
  using assms
proof (induction as t fr rule: unify_args.induct)
  case (3 a as v t fr)
  have tail: "terms_ok n as" using "3.prems"(2) by (simp add: terms_ok_def)
  show ?case
  proof (cases "tm_isVar a \<and> frame_get fr (tm_var a) = None")
    case True
    then have var: "\<not> \<not> tm_isVar a" and none: "frame_get fr (tm_var a) = None" by simp_all
    have k: "tm_var a < n" using "3.prems"(2) True by (simp add: terms_ok_def)
    then have unset: "\<not> bit (fr_set fr) (tm_var a)"
      using none "3.prems"(1) by (auto simp: frame_get_iff frame_ok_def split: if_splits)
    have ok': "frame_ok n (frame_put fr (tm_var a) v)" using "3.prems"(1) by simp
    have rest: "unify_args as t (frame_put fr (tm_var a) v) = Some fr'"
      using "3.prems"(3) True by simp
    from "3.IH"(2) [OF var none ok' tail rest] unset show ?thesis
      by (auto simp: frame_put_def bit_simps) (metis nth_list_update_neq)
  next
    case False
    then have rest: "unify_args as t fr = Some fr'"
      using "3.prems"(3) by (auto split: if_splits option.splits)
    show ?thesis
    proof (cases "tm_isVar a")
      case True
      with False obtain w where w: "frame_get fr (tm_var a) = Some w" by auto
      then have "\<not> w \<noteq> v" using True "3.prems"(3) by (auto split: if_splits)
      from "3.IH"(3) [OF _ w this "3.prems"(1) tail rest] True show ?thesis by simp
    next
      case con: False
      then have "\<not> tm_sym a \<noteq> v" using "3.prems"(3) by (auto split: if_splits)
      from "3.IH"(1) [OF con this "3.prems"(1) tail rest] show ?thesis .
    qed
  qed
qed auto

lemma frame_unwind_unify:
  assumes "frame_ok n fr" "terms_ok n as" "unify_args as t fr = Some fr'"
  shows "frame_get (frame_unwind fr' (fr_set fr' AND NOT (fr_set fr))) k = frame_get fr k"
  using unify_args_extends [OF assms]
  by (auto simp: frame_get_iff frame_unwind_def bit_simps)

section \<open>Satisfaction of a body\<close>

definition builtin_true :: "interner \<Rightarrow> literal \<Rightarrow> subst \<Rightarrow> bool" where
  "builtin_true S l \<theta> =
     (case inst \<theta> l of a # b # _ \<Rightarrow> evalBuiltin (l_rel l) a b S = Inr True | _ \<Rightarrow> False)"

text \<open>The rows a positive literal may use are given per body position.\<close>

definition lit_sat :: "(nat \<Rightarrow> literal \<Rightarrow> itup set) \<Rightarrow> (literal \<Rightarrow> itup set) \<Rightarrow> interner \<Rightarrow> nat \<Rightarrow> literal \<Rightarrow> subst \<Rightarrow> bool" where
  "lit_sat P N S p l \<theta> \<longleftrightarrow>
     (if is_builtin (l_rel l) then builtin_true S l \<theta>
      else if l_neg l then inst \<theta> l \<notin> N l else inst \<theta> l \<in> P p l)"

fun sat :: "(nat \<Rightarrow> literal \<Rightarrow> itup set) \<Rightarrow> (literal \<Rightarrow> itup set) \<Rightarrow> interner \<Rightarrow> nat \<Rightarrow> literal list \<Rightarrow> subst \<Rightarrow> bool" where
  "sat P N S p [] \<theta> \<longleftrightarrow> True"
| "sat P N S p (l # ls) \<theta> \<longleftrightarrow> lit_sat P N S p l \<theta> \<and> sat P N S (Suc p) ls \<theta>"

lemma sat_append: "sat P N S p (ls @ ms) \<theta> \<longleftrightarrow> sat P N S p ls \<theta> \<and> sat P N S (p + length ls) ms \<theta>"
  by (induction ls arbitrary: p) auto

lemma sat_mono:
  assumes "\<And>q l. P q l \<subseteq> P' q l" "sat P N S p ls \<theta>"
  shows "sat P' N S p ls \<theta>"
  using assms(2)
proof (induction ls arbitrary: p)
  case (Cons l ls)
  then show ?case using assms(1) [of p l] by (auto simp: lit_sat_def split: if_splits)
qed simp

lemma sat_nth:
  "sat P N S p ls \<theta> \<longleftrightarrow> (\<forall>k < length ls. lit_sat P N S (p + k) (ls ! k) \<theta>)"
  by (induction ls arbitrary: p) (auto simp: All_less_Suc2)

text \<open>
  The static condition under which evaluation from left to right is right: builtins and negated
  literals only read slots that an earlier positive literal binds.
\<close>

fun body_ok :: "nat \<Rightarrow> nat set \<Rightarrow> literal list \<Rightarrow> bool" where
  "body_ok n B [] \<longleftrightarrow> True"
| "body_ok n B (l # ls) \<longleftrightarrow> terms_ok n (l_args l)
     \<and> (if is_builtin (l_rel l) then \<not> l_neg l \<and> length (l_args l) = 2 \<and> slots_of (l_args l) \<subseteq> B \<and> body_ok n B ls
        else if l_neg l then slots_of (l_args l) \<subseteq> B \<and> body_ok n B ls
        else body_ok n (B \<union> slots_of (l_args l)) ls)"

fun bound_after :: "nat set \<Rightarrow> literal list \<Rightarrow> nat set" where
  "bound_after B [] = B"
| "bound_after B (l # ls) =
     bound_after (if is_builtin (l_rel l) \<or> l_neg l then B else B \<union> slots_of (l_args l)) ls"

lemma bound_after_append: "bound_after B (ls @ ms) = bound_after (bound_after B ls) ms"
  by (induction ls arbitrary: B) auto

lemma body_ok_mono: "body_ok n B ls \<Longrightarrow> B \<subseteq> B' \<Longrightarrow> body_ok n B' ls"
proof (induction ls arbitrary: B B')
  case (Cons l ls)
  have un: "B \<union> slots_of (l_args l) \<subseteq> B' \<union> slots_of (l_args l)" using Cons.prems(2) by auto
  show ?case
    using Cons.prems Cons.IH [OF _ Cons.prems(2)] Cons.IH [OF _ un] by (auto split: if_splits)
qed simp

section \<open>The interface of a body source\<close>

text \<open>
  What the join relies on. \<open>inv\<close> is an invariant of the engine, \<open>le\<close> its growth order;
  a positive literal is answered with rows of \<open>up\<close>, among them every matching row of \<open>rd e\<close>, the
  rows known when it was asked; a negated one is decided by \<open>neg_rows\<close>.
\<close>

locale body_source =
  fixes src :: bodySource and lit_in :: "literal \<Rightarrow> bool"
    and inv :: "engine \<Rightarrow> bool" and le :: "engine \<Rightarrow> engine \<Rightarrow> bool" and syms :: interner
    and rd :: "engine \<Rightarrow> nat \<Rightarrow> literal \<Rightarrow> itup set" and up :: "nat \<Rightarrow> literal \<Rightarrow> itup set"
    and neg_rows :: "literal \<Rightarrow> itup set"
  assumes le_refl: "le e e"
    and le_trans: "le e1 e2 \<Longrightarrow> le e2 e3 \<Longrightarrow> le e1 e3"
    and inv_syms: "inv e \<Longrightarrow> en_syms e = syms"
    and inv_prov: "inv e \<Longrightarrow> \<not> en_recordProv e"
    and rd_mono: "inv e1 \<Longrightarrow> le e1 e2 \<Longrightarrow> rd e1 p l \<subseteq> rd e2 p l"
    and lit_result: "inv e \<Longrightarrow> lit_in l \<Longrightarrow> \<not> is_builtin (l_rel l) \<Longrightarrow> \<not> l_neg l \<Longrightarrow> length bs = length (l_args l) \<Longrightarrow>
      bs_lit src p l bs e = Inr (cands, e1) \<Longrightarrow>
      inv e1 \<and> le e e1 \<and> (\<forall>t \<in> set cands. length t = length (l_args l) \<and> t \<in> up p l)
      \<and> (\<forall>t \<in> rd e p l. matches t bs \<longrightarrow> t \<in> set cands)"
    and neg_result: "inv e \<Longrightarrow> lit_in l \<Longrightarrow> \<not> is_builtin (l_rel l) \<Longrightarrow> l_neg l \<Longrightarrow> length bs = length (l_args l) \<Longrightarrow>
      bs_neg src l bs e = Inr (found, e1) \<Longrightarrow>
      inv e1 \<and> le e e1 \<and> (found \<longleftrightarrow> (\<exists>t \<in> neg_rows l. matches t bs))
      \<and> (\<forall>t \<in> neg_rows l. length t = length (l_args l))"

text \<open>
  A rule that is evaluated against a source, with what its firings leave behind: \<open>emitted\<close> grows
  with the engine, and reaching the end of the body under \<open>\<theta>\<close> adds \<open>out \<theta>\<close>.
\<close>

locale rule_emission = body_source +
  fixes r :: rule and bs :: binds and tk :: sgKey
    and emitted :: "engine \<Rightarrow> 'x set" and out :: "subst \<Rightarrow> 'x" and want :: "subst \<Rightarrow> bool"
  assumes body_lits: "\<forall>l \<in> set (ru_body r). lit_in l"
    and emitted_mono: "le e1 e2 \<Longrightarrow> emitted e1 \<subseteq> emitted e2"
    and emit_result: "inv e \<Longrightarrow> frame_ok (ru_nvars r) fr \<Longrightarrow> agrees \<theta> fr \<Longrightarrow> bound_after {} (ru_body r) \<subseteq> bound fr \<Longrightarrow>
      sat up neg_rows syms 0 (ru_body r) \<theta> \<Longrightarrow> join_emit r bs tk fr steps e = Inr e1 \<Longrightarrow>
      inv e1 \<and> le e e1 \<and> (want \<theta> \<longrightarrow> out \<theta> \<in> emitted e1)"
begin

lemma emit_all:
  assumes "inv e" "frame_ok (ru_nvars r) fr" "bound_after {} (ru_body r) \<subseteq> bound fr"
    and sat: "\<forall>\<theta>. agrees \<theta> fr \<longrightarrow> sat up neg_rows syms 0 (ru_body r) \<theta>"
    and "join_emit r bs tk fr steps e = Inr e1"
  shows "inv e1 \<and> le e e1 \<and> (\<forall>\<theta>. agrees \<theta> fr \<longrightarrow> want \<theta> \<longrightarrow> out \<theta> \<in> emitted e1)"
proof -
  obtain \<theta> where "agrees \<theta> fr" using agrees_ex by blast
  then show ?thesis using emit_result assms by blast
qed

text \<open>One candidate row: continue below it, or skip it when it does not match.\<close>

definition row_step :: "literal \<Rightarrow> literal list \<Rightarrow> nat \<Rightarrow> frame \<Rightarrow> dstep list \<Rightarrow> itup \<Rightarrow> engine \<Rightarrow> dl_error + engine" where
  "row_step l ls p fr steps t e =
     (case unify_args (l_args l) t fr of
        None \<Rightarrow> Inr e
      | Some fr' \<Rightarrow> bindE (add_step l t steps e) (\<lambda>steps'. join src r bs tk ls (Suc p) fr' steps' e))"

definition good :: "literal list \<Rightarrow> nat \<Rightarrow> frame \<Rightarrow> engine \<Rightarrow> engine \<Rightarrow> bool" where
  "good ls p fr e e' \<longleftrightarrow> inv e' \<and> le e e'
     \<and> (\<forall>\<theta>. agrees \<theta> fr \<longrightarrow> sat (rd e) neg_rows syms p ls \<theta> \<longrightarrow> want \<theta> \<longrightarrow> out \<theta> \<in> emitted e')"

lemma good_skip:
  "inv e \<Longrightarrow> (\<And>\<theta>. agrees \<theta> fr \<Longrightarrow> \<not> sat (rd e) neg_rows syms p ls \<theta>) \<Longrightarrow> good ls p fr e e"
  by (simp add: good_def le_refl)

lemma good_from:
  assumes "inv e" "le e e1" "good ls' (Suc p) fr e1 e'"
    and "\<And>\<theta>. agrees \<theta> fr \<Longrightarrow> sat (rd e) neg_rows syms p ls \<theta> \<Longrightarrow> sat (rd e) neg_rows syms (Suc p) ls' \<theta>"
  shows "good ls p fr e e'"
  using assms(2-) le_trans sat_mono [of "rd e" "rd e1"] rd_mono [OF assms(1,2)] unfolding good_def by blast

lemma join_pos:
  assumes IH: "\<And>q fr' steps' e1 e2. inv e1 \<Longrightarrow> frame_ok (ru_nvars r) fr' \<Longrightarrow> q = Suc p \<Longrightarrow>
      body_ok (ru_nvars r) (bound fr') ls \<Longrightarrow> bound_after {} (pre @ [l]) \<subseteq> bound fr' \<Longrightarrow>
      \<forall>\<theta>. agrees \<theta> fr' \<longrightarrow> sat up neg_rows syms 0 (pre @ [l]) \<theta> \<Longrightarrow>
      join src r bs tk ls q fr' steps' e1 = Inr e2 \<Longrightarrow> good ls q fr' e1 e2"
    and l: "lit_in l" "\<not> is_builtin (l_rel l)" "\<not> l_neg l" and p: "p = length pre"
    and e: "inv e" and fr: "frame_ok (ru_nvars r) fr" "body_ok (ru_nvars r) (bound fr) (l # ls)"
      "bound_after {} pre \<subseteq> bound fr"
    and pre: "\<forall>\<theta>. agrees \<theta> fr \<longrightarrow> sat up neg_rows syms 0 pre \<theta>"
    and cands: "bs_lit src p l (map (termSym fr) (l_args l)) e = Inr (cands, e1)"
    and fold: "foldE (row_step l ls p fr steps) cands e1 = Inr e'"
  shows "good (l # ls) p fr e e'"
proof -
  note res = lit_result [OF e l _ cands, simplified]
  have terms: "terms_ok (ru_nvars r) (l_args l)" using fr(2) by simp
  have step: "inv b \<and> le a b \<and> (\<forall>\<theta>. agrees \<theta> fr \<longrightarrow> inst \<theta> l = t \<longrightarrow> sat (rd a) neg_rows syms (Suc p) ls \<theta> \<longrightarrow>
      want \<theta> \<longrightarrow> out \<theta> \<in> emitted b)"
    if t: "t \<in> set cands" and a: "inv a" and run: "row_step l ls p fr steps t a = Inr b" for t a b
  proof -
    have len: "length (l_args l) = length t" and up: "t \<in> up p l" using res t by auto
    note spec = unify_args_spec [OF fr(1) terms len]
    show ?thesis
    proof (cases "unify_args (l_args l) t fr")
      case None
      with run spec a show ?thesis by (auto simp: row_step_def inst_def le_refl)
    next
      case (Some fr')
      with spec have fr': "frame_ok (ru_nvars r) fr'" "bound fr' = bound fr \<union> slots_of (l_args l)"
        "\<And>\<theta>. agrees \<theta> fr' \<longleftrightarrow> agrees \<theta> fr \<and> inst \<theta> l = t" by (auto simp: inst_def)
      have "add_step l t steps a = Inr steps" using inv_prov [OF a] by (simp add: add_step_def)
      with run Some have j: "join src r bs tk ls (Suc p) fr' steps a = Inr b" by (simp add: row_step_def)
      have "body_ok (ru_nvars r) (bound fr') ls" using fr(2) l fr'(2) by simp
      moreover have "bound_after {} (pre @ [l]) \<subseteq> bound fr'"
        using fr(3) l fr'(2) by (auto simp: bound_after_append)
      moreover have "\<forall>\<theta>. agrees \<theta> fr' \<longrightarrow> sat up neg_rows syms 0 (pre @ [l]) \<theta>"
        using pre fr'(3) l up p by (auto simp: sat_append lit_sat_def)
      ultimately have "good ls (Suc p) fr' a b" using IH [OF a fr'(1) refl _ _ _ j] by blast
      then show ?thesis using fr'(3) by (simp add: good_def)
    qed
  qed
  have tr: "le a c" if "le a b" "le b c" for a b c using le_trans that .
  have "inv e' \<and> le e1 e'"
    by (rule foldE_rel [OF fold, of inv le]) (use res step le_refl tr in blast)+
  moreover have "out \<theta> \<in> emitted e'"
    if ag: "agrees \<theta> fr" and sat: "sat (rd e) neg_rows syms p (l # ls) \<theta>" and w: "want \<theta>" for \<theta>
  proof -
    have "inst \<theta> l \<in> rd e p l" using sat l by (simp add: lit_sat_def)
    moreover have "matches (inst \<theta> l) (map (termSym fr) (l_args l))"
      using matches_inst [OF ag] by (simp add: inst_def)
    ultimately have x: "inst \<theta> l \<in> set cands" using res by blast
    have later: "sat (rd a) neg_rows syms (Suc p) ls \<theta>" if "le e1 a" for a
      using sat_mono [of "rd e" "rd a"] rd_mono [OF e tr [OF _ that]] sat res by auto
    show ?thesis
    proof (rule foldE_effect [OF fold, of "\<lambda>a. inv a \<and> le e1 a" "inst \<theta> l" "\<lambda>a. out \<theta> \<in> emitted a"])
      show "inv e1 \<and> le e1 e1" using res le_refl by blast
      show "inst \<theta> l \<in> set cands" by (rule x)
      show "inv b \<and> le e1 b" if "y \<in> set cands" "inv a \<and> le e1 a" "row_step l ls p fr steps y a = Inr b" for y a b
        using step [OF that(1) _ that(3)] that(2) tr by blast
      show "out \<theta> \<in> emitted b" if "inv a \<and> le e1 a" "row_step l ls p fr steps (inst \<theta> l) a = Inr b" for a b
        using step [OF x _ that(2)] that(1) later ag w by blast
      show "out \<theta> \<in> emitted b"
        if "y \<in> set cands" "inv a \<and> le e1 a" "out \<theta> \<in> emitted a" "row_step l ls p fr steps y a = Inr b" for y a b
        using step [OF that(1) _ that(4)] that(2,3) emitted_mono by blast
    qed
  qed
  ultimately show ?thesis using res tr by (auto simp: good_def)
qed

theorem join_good:
  assumes "inv e" "frame_ok (ru_nvars r) fr" "ru_body r = pre @ ls" "p = length pre"
    and "body_ok (ru_nvars r) (bound fr) ls" "bound_after {} pre \<subseteq> bound fr"
    and "\<forall>\<theta>. agrees \<theta> fr \<longrightarrow> sat up neg_rows syms 0 pre \<theta>"
    and "join src r bs tk ls p fr steps e = Inr e'"
  shows "good ls p fr e e'"
  using assms
proof (induction ls arbitrary: pre p fr steps e e')
  case Nil
  then show ?case using emit_all [of e fr steps e'] by (simp add: good_def)
next
  case (Cons l ls)
  have l: "lit_in l" using body_lits Cons.prems(3) by simp
  have terms: "terms_ok (ru_nvars r) (l_args l)" using Cons.prems(5) by simp
  have body: "ru_body r = (pre @ [l]) @ ls" and p: "Suc p = length (pre @ [l])" using Cons.prems(3,4) by auto
  show ?case
  proof (cases "is_builtin (l_rel l)")
    case True
    with Cons.prems(5) have sl: "slots_of (l_args l) \<subseteq> bound fr" and bo: "body_ok (ru_nvars r) (bound fr) ls"
      and len: "length (l_args l) = 2" by auto
    from len obtain x y where xy: "l_args l = [x, y]" by (auto simp: numeral_2_eq_2 length_Suc_conv)
    from Cons.prems(8) True xy obtain a b where ab: "termSym fr x = Some a" "termSym fr y = Some b"
      by (auto split: option.splits)
    with Cons.prems(8) True xy obtain hb where hb: "evalBuiltin (l_rel l) a b (en_syms e) = Inr hb"
      and run: "(if hb then join src r bs tk ls (Suc p) fr steps e else Inr e) = Inr e'" by auto
    have val: "builtin_true syms l \<theta> \<longleftrightarrow> hb" if "agrees \<theta> fr" for \<theta>
      using termSym_agrees [OF that ab(1)] termSym_agrees [OF that ab(2)] hb inv_syms [OF Cons.prems(1)] xy
      by (simp add: builtin_true_def inst_def)
    show ?thesis
    proof (cases hb)
      case False
      then show ?thesis
        using run val True Cons.prems(1) good_skip [of e fr p "l # ls"] by (auto simp: lit_sat_def)
    next
      case hb: True
      have "bound_after {} (pre @ [l]) \<subseteq> bound fr" using Cons.prems(6) True by (simp add: bound_after_append)
      moreover have "\<forall>\<theta>. agrees \<theta> fr \<longrightarrow> sat up neg_rows syms 0 (pre @ [l]) \<theta>"
        using Cons.prems(7) val hb True by (auto simp: sat_append lit_sat_def)
      ultimately have "good ls (Suc p) fr e e'"
        using Cons.IH [OF Cons.prems(1,2) body p bo] run hb by simp
      then show ?thesis by (rule good_from [OF Cons.prems(1) le_refl]) simp
    qed
  next
    case nb: False
    show ?thesis
    proof (cases "l_neg l")
      case True
      with Cons.prems(5) nb have sl: "slots_of (l_args l) \<subseteq> bound fr" and bo: "body_ok (ru_nvars r) (bound fr) ls" by auto
      from Cons.prems(8) True nb obtain found e1
        where neg: "bs_neg src l (map (termSym fr) (l_args l)) e = Inr (found, e1)"
          and run: "(if found then Inr e1 else join src r bs tk ls (Suc p) fr steps e1) = Inr e'" by auto
      note res = neg_result [OF Cons.prems(1) l nb True _ neg, simplified]
      have val: "inst \<theta> l \<in> neg_rows l \<longleftrightarrow> found" if "agrees \<theta> fr" for \<theta>
      proof -
        have pat: "map (termSym fr) (l_args l) = map Some (inst \<theta> l)"
          using pattern_ground [OF Cons.prems(2) terms sl that] by (simp add: inst_def)
        have "matches t (map Some (inst \<theta> l)) \<longleftrightarrow> t = inst \<theta> l" if "t \<in> neg_rows l" for t
          using res that matches_ground [of t "inst \<theta> l"] by (simp add: inst_def)
        then show ?thesis using res unfolding pat by blast
      qed
      show ?thesis
      proof (cases found)
        case f: True
        then show ?thesis
          using run val True nb res by (auto simp: good_def lit_sat_def)
      next
        case f: False
        have "bound_after {} (pre @ [l]) \<subseteq> bound fr" using Cons.prems(6) True by (simp add: bound_after_append)
        moreover have "\<forall>\<theta>. agrees \<theta> fr \<longrightarrow> sat up neg_rows syms 0 (pre @ [l]) \<theta>"
          using Cons.prems(7) val f True nb by (auto simp: sat_append lit_sat_def)
        ultimately have "good ls (Suc p) fr e1 e'"
          using Cons.IH [OF _ Cons.prems(2) body p bo] run f res by simp
        then show ?thesis using res Cons.prems(1) by (intro good_from [of e e1]) auto
      qed
    next
      case False
      from Cons.prems(8) False nb obtain cands e1
        where lit: "bs_lit src p l (map (termSym fr) (l_args l)) e = Inr (cands, e1)"
          and fold: "foldE (row_step l ls p fr steps) cands e1 = Inr e'"
        unfolding row_step_def by auto
      show ?thesis
        by (rule join_pos [OF _ l nb False Cons.prems(4,1,2,5,6,7) lit fold])
           (rule Cons.IH [where pre = "pre @ [l]"], use body p in simp_all)
    qed
  qed
qed

end

end
