(* ===== verification/Model.thy ===== *)
theory Model
  imports Semantics
begin

unbundle bit_operations_syntax

text \<open>
  The declarative meaning of a stratified program with aggregates: the perfect model. Derivability
  is an inductive predicate relative to an interpretation that decides negated literals and
  aggregate inputs; a perfect model is an interpretation that agrees with what it derives. A
  stratified program has exactly one.
\<close>

section \<open>Consequences of one rule\<close>

type_synonym interp = "string \<Rightarrow> itup set"

abbreviation holds :: "interp \<Rightarrow> interp \<Rightarrow> interner \<Rightarrow> literal list \<Rightarrow> subst \<Rightarrow> bool" where
  "holds I N S ls \<theta> \<equiv> sat (\<lambda>_ l. I (l_rel l)) (\<lambda>l. N (l_rel l)) S 0 ls \<theta>"

definition pos_lit :: "literal \<Rightarrow> bool" where
  "pos_lit l \<longleftrightarrow> \<not> is_builtin (l_rel l) \<and> \<not> l_neg l"

definition side_ok :: "interp \<Rightarrow> interner \<Rightarrow> subst \<Rightarrow> literal \<Rightarrow> bool" where
  "side_ok N S \<theta> l \<longleftrightarrow>
     (if is_builtin (l_rel l) then builtin_true S l \<theta> else l_neg l \<longrightarrow> inst \<theta> l \<notin> N (l_rel l))"

lemma lit_sat_split:
  "lit_sat (\<lambda>_ l. I (l_rel l)) (\<lambda>l. N (l_rel l)) S p l \<theta>
   \<longleftrightarrow> (pos_lit l \<longrightarrow> inst \<theta> l \<in> I (l_rel l)) \<and> side_ok N S \<theta> l"
  by (auto simp: lit_sat_def pos_lit_def side_ok_def)

lemma holds_split_at:
  "sat (\<lambda>_ l. I (l_rel l)) (\<lambda>l. N (l_rel l)) S p ls \<theta>
   \<longleftrightarrow> (\<forall>l \<in> set ls. pos_lit l \<longrightarrow> inst \<theta> l \<in> I (l_rel l)) \<and> (\<forall>l \<in> set ls. side_ok N S \<theta> l)"
  by (induction ls arbitrary: p) (auto simp: lit_sat_split)

text \<open>
  An aggregate rule groups the substitutions that satisfy its body by the head with the output
  slot blanked out, and reduces the input values of each group.
\<close>

definition agg_group :: "aggSpec \<Rightarrow> rule \<Rightarrow> subst \<Rightarrow> itup" where
  "agg_group a r \<theta> =
     map (\<lambda>t. if tm_isVar t \<and> tm_var t = ag_outSlot a then 0 else term_val \<theta> t) (l_args (ru_head r))"

definition agg_pairs :: "interp \<Rightarrow> interner \<Rightarrow> aggSpec \<Rightarrow> rule \<Rightarrow> (itup \<times> uint32) set" where
  "agg_pairs N S a r = {(agg_group a r \<theta>, \<theta> (ag_inSlot a)) | \<theta>. holds N N S (ru_body r) \<theta>}"

definition int_of :: "uint32 \<Rightarrow> int" where
  "int_of v = (case decodeIntSym v of Some x \<Rightarrow> x | None \<Rightarrow> 0)"

definition agg_val :: "string \<Rightarrow> uint32 set \<Rightarrow> int" where
  "agg_val fn V =
     (if fn = ''count'' then int (card V) else if fn = ''min'' then Min (int_of ` V) else Max (int_of ` V))"

text \<open>The last position of the output variable in the head.\<close>

fun out_index :: "nat \<Rightarrow> dterm list \<Rightarrow> nat" where
  "out_index out [] = 0"
| "out_index out (a # as) = (if out \<in> slots_of as then Suc (out_index out as) else 0)"

definition agg_row :: "aggSpec \<Rightarrow> rule \<Rightarrow> itup \<Rightarrow> uint32 set \<Rightarrow> itup" where
  "agg_row a r g V =
     g[out_index (ag_outSlot a) (l_args (ru_head r)) := intSymFlag OR of_int (agg_val (ag_fn a) V)]"

definition agg_rows :: "interp \<Rightarrow> interner \<Rightarrow> aggSpec \<Rightarrow> rule \<Rightarrow> itup set" where
  "agg_rows N S a r = (\<lambda>g. agg_row a r g (agg_pairs N S a r `` {g})) ` fst ` agg_pairs N S a r"

section \<open>Derivability and the perfect model\<close>

inductive derives :: "rule list \<Rightarrow> interp \<Rightarrow> interner \<Rightarrow> interp \<Rightarrow> string \<Rightarrow> itup \<Rightarrow> bool"
  for R :: "rule list" and B :: interp and S :: interner and N :: interp where
  fact: "t \<in> B rel \<Longrightarrow> derives R B S N rel t"
| fire: "r \<in> set R \<Longrightarrow> ru_agg r = None \<Longrightarrow>
    \<forall>l \<in> set (ru_body r). pos_lit l \<longrightarrow> derives R B S N (l_rel l) (inst \<theta> l) \<Longrightarrow>
    \<forall>l \<in> set (ru_body r). side_ok N S \<theta> l \<Longrightarrow>
    derives R B S N (l_rel (ru_head r)) (inst \<theta> (ru_head r))"
| aggr: "r \<in> set R \<Longrightarrow> ru_agg r = Some a \<Longrightarrow> t \<in> agg_rows N S a r \<Longrightarrow>
    derives R B S N (l_rel (ru_head r)) t"

definition perfect_model :: "rule list \<Rightarrow> interp \<Rightarrow> interner \<Rightarrow> interp \<Rightarrow> bool" where
  "perfect_model R B S M \<longleftrightarrow> (\<forall>rel t. t \<in> M rel \<longleftrightarrow> derives R B S M rel t)"

lemma perfect_fact: "perfect_model R B S M \<Longrightarrow> B rel \<subseteq> M rel"
  by (auto simp: perfect_model_def intro: derives.fact)

lemma perfect_fire:
  "perfect_model R B S M \<Longrightarrow> r \<in> set R \<Longrightarrow> ru_agg r = None \<Longrightarrow> holds M M S (ru_body r) \<theta> \<Longrightarrow>
   inst \<theta> (ru_head r) \<in> M (l_rel (ru_head r))"
  by (auto simp: perfect_model_def holds_split_at intro: derives.fire)

lemma perfect_aggr:
  "perfect_model R B S M \<Longrightarrow> r \<in> set R \<Longrightarrow> ru_agg r = Some a \<Longrightarrow> agg_rows M S a r \<subseteq> M (l_rel (ru_head r))"
  by (auto simp: perfect_model_def intro: derives.aggr)

lemma derives_base_only:
  assumes "rel \<notin> head_rels R"
  shows "derives R B S N rel t \<longleftrightarrow> t \<in> B rel"
  using assms by (auto simp: head_rels_def intro: derives.fact elim: derives.cases)

lemma perfect_base_only: "perfect_model R B S M \<Longrightarrow> rel \<notin> head_rels R \<Longrightarrow> M rel = B rel"
  by (auto simp: perfect_model_def derives_base_only)

section \<open>Stratified programs have exactly one perfect model\<close>

text \<open>
  Builtins are never rule heads, so the reads that matter are those of relational literals; those
  of relations without rules are facts.
\<close>

definition agree_below :: "rule list \<Rightarrow> strata \<Rightarrow> nat \<Rightarrow> interp \<Rightarrow> interp \<Rightarrow> bool" where
  "agree_below R st n N N' \<longleftrightarrow> (\<forall>rel. rel \<in> head_rels R \<longrightarrow> st rel < n \<longrightarrow> N rel = N' rel)
     \<and> (\<forall>rel. rel \<notin> head_rels R \<longrightarrow> N rel = N' rel)"

lemma stratification_read:
  assumes "stratification R st" "r \<in> set R" "l \<in> set (ru_body r)" "l_rel l \<in> head_rels R"
  shows "st (l_rel l) \<le> st (l_rel (ru_head r))"
    and "l_neg l \<or> ru_agg r \<noteq> None \<Longrightarrow> st (l_rel l) < st (l_rel (ru_head r))"
proof -
  have "st (l_rel l) + (if l_neg l \<or> ru_agg r \<noteq> None then 1 else 0) \<le> st (l_rel (ru_head r))"
    using assms unfolding stratification_def by blast
  then show "st (l_rel l) \<le> st (l_rel (ru_head r))"
    and "l_neg l \<or> ru_agg r \<noteq> None \<Longrightarrow> st (l_rel l) < st (l_rel (ru_head r))"
    by (auto split: if_splits)
qed

lemma side_ok_agree:
  assumes st: "stratification R st" and r: "r \<in> set R" "l \<in> set (ru_body r)"
    and ag: "agree_below R st (st (l_rel (ru_head r))) N N'"
  shows "side_ok N S \<theta> l \<longleftrightarrow> side_ok N' S \<theta> l"
proof (cases "l_neg l \<and> l_rel l \<in> head_rels R")
  case True
  then have "st (l_rel l) < st (l_rel (ru_head r))" using stratification_read(2) [OF st r] by blast
  then show ?thesis using True ag by (auto simp: side_ok_def agree_below_def)
next
  case False
  then show ?thesis using ag by (auto simp: side_ok_def agree_below_def)
qed

lemma agg_rows_agree:
  assumes st: "stratification R st" and r: "r \<in> set R" "ru_agg r = Some a"
    and ag: "agree_below R st (st (l_rel (ru_head r))) N N'"
  shows "agg_rows N S a r = agg_rows N' S a r"
proof -
  have eq: "N (l_rel l) = N' (l_rel l)" if "l \<in> set (ru_body r)" for l
  proof (cases "l_rel l \<in> head_rels R")
    case True
    then have "st (l_rel l) < st (l_rel (ru_head r))" using stratification_read(2) [OF st r(1) that] r(2) by simp
    then show ?thesis using True ag by (simp add: agree_below_def)
  next
    case False
    then show ?thesis using ag by (simp add: agree_below_def)
  qed
  then have "holds N N S (ru_body r) \<theta> \<longleftrightarrow> holds N' N' S (ru_body r) \<theta>" for \<theta>
    unfolding holds_split_at by (simp add: side_ok_def)
  then have "agg_pairs N S a r = agg_pairs N' S a r" by (simp add: agg_pairs_def)
  then show ?thesis by (simp add: agg_rows_def)
qed

lemma derives_agree:
  assumes st: "stratification R st" and ag: "agree_below R st n N N'"
    and "derives R B S N rel t" and "rel \<in> head_rels R \<Longrightarrow> st rel \<le> n"
  shows "derives R B S N' rel t"
  using assms(3,4)
proof (induction rule: derives.induct)
  case (fact t rel)
  then show ?case by (simp add: derives.fact)
next
  case (fire r \<theta>)
  let ?h = "l_rel (ru_head r)"
  have h: "?h \<in> head_rels R" using fire.hyps(1) by (simp add: head_rels_def)
  with fire.prems have "st ?h \<le> n" by blast
  then have ag': "agree_below R st (st ?h) N N'" using ag by (auto simp: agree_below_def)
  have "derives R B S N' (l_rel l) (inst \<theta> l)" if l: "l \<in> set (ru_body r)" "pos_lit l" for l
  proof -
    have "l_rel l \<in> head_rels R \<Longrightarrow> st (l_rel l) \<le> st ?h"
      using stratification_read(1) [OF st fire.hyps(1) l(1)] .
    then show ?thesis using fire.IH l \<open>st ?h \<le> n\<close> by fastforce
  qed
  moreover have "\<forall>l \<in> set (ru_body r). side_ok N' S \<theta> l"
    using fire.hyps side_ok_agree [OF st fire.hyps(1) _ ag'] by blast
  ultimately show ?case using derives.fire [OF fire.hyps(1,2)] by blast
next
  case (aggr r a t)
  let ?h = "l_rel (ru_head r)"
  have h: "?h \<in> head_rels R" using aggr.hyps(1) by (simp add: head_rels_def)
  with aggr.prems have "st ?h \<le> n" by blast
  then have "agree_below R st (st ?h) N N'" using ag by (auto simp: agree_below_def)
  then show ?case
    using aggr.hyps agg_rows_agree [OF st aggr.hyps(1,2)] derives.aggr by blast
qed

lemma agree_below_sym: "agree_below R st n N N' \<Longrightarrow> agree_below R st n N' N"
  by (simp add: agree_below_def)

lemma perfect_agree:
  assumes st: "stratification R st" and M: "perfect_model R B S M" "perfect_model R B S M'"
  shows "agree_below R st n M M'"
proof (induction n)
  case 0
  show ?case using perfect_base_only [OF M(1)] perfect_base_only [OF M(2)] by (simp add: agree_below_def)
next
  case (Suc n)
  have "M rel = M' rel" if "rel \<in> head_rels R" "st rel < Suc n" for rel
    using that M derives_agree [OF st Suc.IH] derives_agree [OF st agree_below_sym [OF Suc.IH]]
    unfolding perfect_model_def by (intro set_eqI) (metis less_Suc_eq_le)
  then show ?case using Suc.IH by (simp add: agree_below_def)
qed

lemma perfect_model_unique:
  assumes "stratification R st" "perfect_model R B S M" "perfect_model R B S M'"
  shows "M = M'"
proof
  fix rel
  show "M rel = M' rel"
    using perfect_agree [OF assms, of "Suc (st rel)"] by (auto simp: agree_below_def)
qed

text \<open>Construction: stratum by stratum, each reading the finished strata below it.\<close>

primrec strata_model :: "rule list \<Rightarrow> interp \<Rightarrow> interner \<Rightarrow> nat \<Rightarrow> interp" where
  "strata_model R B S 0 rel = B rel"
| "strata_model R B S (Suc n) rel = {t. derives R B S (strata_model R B S n) rel t}"

definition model_of :: "rule list \<Rightarrow> interp \<Rightarrow> interner \<Rightarrow> strata \<Rightarrow> interp" where
  "model_of R B S st rel = strata_model R B S (Suc (st rel)) rel"

lemma strata_model_base: "rel \<notin> head_rels R \<Longrightarrow> strata_model R B S n rel = B rel"
  by (cases n) (auto simp: derives_base_only)

lemma agree_step:
  assumes st: "stratification R st" and ag: "agree_below R st n N N'"
  shows "agree_below R st (Suc n) (\<lambda>rel. {t. derives R B S N rel t}) (\<lambda>rel. {t. derives R B S N' rel t})"
proof -
  have "derives R B S N rel t \<longleftrightarrow> derives R B S N' rel t" if "rel \<in> head_rels R \<longrightarrow> st rel \<le> n" for rel t
    using that derives_agree [OF st ag] derives_agree [OF st agree_below_sym [OF ag]] by blast
  then have "{t. derives R B S N rel t} = {t. derives R B S N' rel t}" if "rel \<in> head_rels R \<longrightarrow> st rel \<le> n" for rel
    using that by blast
  then show ?thesis unfolding agree_below_def less_Suc_eq_le by blast
qed

lemma strata_model_stable:
  assumes st: "stratification R st"
  shows "agree_below R st n (strata_model R B S n) (strata_model R B S (Suc n))"
proof (induction n)
  case 0
  show ?case by (auto simp: agree_below_def derives_base_only)
next
  case (Suc n)
  have eq: "strata_model R B S (Suc m) = (\<lambda>rel. {t. derives R B S (strata_model R B S m) rel t})" for m
    by (rule ext) simp
  show ?case using agree_step [OF st Suc.IH, of B S] unfolding eq [of "Suc n"] eq [of n] .
qed

lemma strata_model_final:
  assumes st: "stratification R st" and "st rel \<le> n"
  shows "strata_model R B S (Suc n) rel = model_of R B S st rel"
  using assms(2)
proof (induction n rule: dec_induct)
  case base
  then show ?case by (simp add: model_of_def)
next
  case (step n)
  then show ?case
    using strata_model_stable [OF st, of "Suc n" B S] strata_model_base [of rel R B S]
    by (cases "rel \<in> head_rels R") (auto simp: agree_below_def simp del: strata_model.simps)
qed

lemma model_of_perfect:
  assumes st: "stratification R st"
  shows "perfect_model R B S (model_of R B S st)"
  unfolding perfect_model_def
proof (intro allI)
  fix rel t
  let ?M = "model_of R B S st" and ?N = "strata_model R B S (st rel)"
  have ag: "agree_below R st (st rel) ?N ?M"
  proof -
    have "?N rl = ?M rl" if "st rl < st rel" for rl
      using strata_model_final [OF st, of rl "st rel - 1"] that by (cases "st rel") simp_all
    then show ?thesis
      using strata_model_base by (auto simp: agree_below_def model_of_def simp del: strata_model.simps)
  qed
  have "t \<in> ?M rel \<longleftrightarrow> derives R B S ?N rel t" by (simp add: model_of_def)
  also have "\<dots> \<longleftrightarrow> derives R B S ?M rel t"
    using derives_agree [OF st ag] derives_agree [OF st agree_below_sym [OF ag]] by blast
  finally show "t \<in> ?M rel \<longleftrightarrow> derives R B S ?M rel t" .
qed

end
