(* ===== verification/BottomUp.thy ===== *)
theory BottomUp
  imports Model "HOL-Library.Sublist"
begin

text \<open>
  Stratified bottom-up evaluation with semi-naive deltas (\<open>internal/datalog/bottomup.go\<close>). A
  component of mutually recursive relations is run to its fixpoint; the components it reads have
  been completed before.

  \<open>bu_full\<close> holds, for each relation materialised so far, the key of its memo table, where Go has
  a pointer to the table's relation; \<open>bu_pos = None\<close> is Go's position \<open>-1\<close>.
\<close>

section \<open>The bottom-up source\<close>

record bottomUp =
  bu_full :: "string \<Rightarrow> sgKey option"
  bu_complete :: "string \<Rightarrow> bool"
  bu_delta :: "string \<Rightarrow> relation option"
  bu_pos :: "nat option"

definition derived :: "engine \<Rightarrow> string \<Rightarrow> bool" where
  "derived e rel = (en_rules e rel \<noteq> [])"

definition full_rel :: "bottomUp \<Rightarrow> engine \<Rightarrow> string \<Rightarrow> relation option" where
  "full_rel bu e rel =
     (case bu_full bu rel of None \<Rightarrow> None | Some k \<Rightarrow> map_option tb_rel (en_tables e k))"

definition bu_source :: "bottomUp \<Rightarrow> engine \<Rightarrow> string \<Rightarrow> relation option" where
  "bu_source bu e rel = (case full_rel bu e rel of Some r \<Rightarrow> Some r | None \<Rightarrow> en_base e rel)"

text \<open>The relation \<open>evalComponent\<close> primes a literal's plan with (\<open>buSrc\<close>).\<close>

definition buSrc :: "bottomUp \<Rightarrow> engine \<Rightarrow> string \<Rightarrow> relation option" where
  "buSrc bu e rel =
     (if derived e rel then (case full_rel bu e rel of Some r \<Rightarrow> Some r | None \<Rightarrow> en_base e rel)
      else en_base e rel)"

definition bu_litTuples :: "bottomUp \<Rightarrow> nat \<Rightarrow> literal \<Rightarrow> binds \<Rightarrow> engine \<Rightarrow> dl_error + itup list \<times> engine" where
  "bu_litTuples bu p l bs e =
     (case (case buSrc bu e (l_rel l) of Some r \<Rightarrow> Some r | None \<Rightarrow> bu_source bu e (l_rel l)) of
        None \<Rightarrow> Inl (EvalE (EUnknownRel (l_rel l)))
      | Some r \<Rightarrow>
          if bu_pos bu = Some p then
            (case bu_delta bu (l_rel l) of
               None \<Rightarrow> Inr ([], e)
             | Some d \<Rightarrow> Inr (fst (selectCands d bs), e))
          else Inr (fst (selectCands r bs), e))"

definition bu_negated :: "bottomUp \<Rightarrow> literal \<Rightarrow> binds \<Rightarrow> engine \<Rightarrow> dl_error + bool \<times> engine" where
  "bu_negated bu l bs e =
     (if \<not> derived e (l_rel l) then
        (case en_base e (l_rel l) of
           None \<Rightarrow> Inl (EvalE (EUnknownRel (l_rel l)))
         | Some br \<Rightarrow> Inr (exists_match br bs, e))
      else if \<not> bu_complete bu (l_rel l) then Inl (EvalE (ENotCompleted (l_rel l)))
      else Inr ((case full_rel bu e (l_rel l) of None \<Rightarrow> False | Some r \<Rightarrow> exists_match r bs), e))"

definition bu_body :: "bottomUp \<Rightarrow> bodySource" where
  "bu_body bu = \<lparr>bs_lit = bu_litTuples bu, bs_neg = bu_negated bu\<rparr>"

section \<open>Tables\<close>

definition arityOf :: "engine \<Rightarrow> string \<Rightarrow> dl_error + int" where
  "arityOf e goal =
     (case en_rules e goal of
        r # _ \<Rightarrow> Inr (int (lit_arity (ru_head r)))
      | [] \<Rightarrow> (case en_base e goal of Some r \<Rightarrow> Inr (r_arity r) | None \<Rightarrow> Inl (EvalE (EUnknownRel goal))))"

definition useBottomUp :: "engine \<Rightarrow> string \<Rightarrow> binds \<Rightarrow> bool" where
  "useBottomUp e goal bs \<longleftrightarrow>
     en_loaded e \<and> en_strata e \<noteq> None \<and> en_rules e goal \<noteq> [] \<and> list_all (\<lambda>b. b = None) bs"

definition free_key :: "string \<Rightarrow> nat \<Rightarrow> sgKey" where
  "free_key rel n = subgoalKey rel (replicate n None)"

definition freeTable :: "engine \<Rightarrow> string \<Rightarrow> nat \<Rightarrow> sgKey \<times> engine" where
  "freeTable e rel n =
     (let k = free_key rel n in
      case en_tables e k of
        Some _ \<Rightarrow> (k, e)
      | None \<Rightarrow> (k, e\<lparr>en_tables := (en_tables e)(k \<mapsto> \<lparr>tb_rel = newRelation rel (int n), tb_state = TDirty\<rparr>)\<rparr>))"

definition set_state :: "sgKey \<Rightarrow> tableState \<Rightarrow> engine \<Rightarrow> engine" where
  "set_state k s e = e\<lparr>en_tables := (en_tables e)(k := map_option (\<lambda>t. t\<lparr>tb_state := s\<rparr>) (en_tables e k))\<rparr>"

definition tb_complete :: "engine \<Rightarrow> sgKey \<Rightarrow> bool" where
  "tb_complete e k = (case en_tables e k of Some t \<Rightarrow> tb_state t = TComplete | None \<Rightarrow> False)"

section \<open>One component\<close>

text \<open>The first loop: materialise the tables, reuse the complete ones, collect the pending ones.\<close>

definition comp_open :: "string \<Rightarrow> bottomUp \<times> string list \<times> engine \<Rightarrow> dl_error + bottomUp \<times> string list \<times> engine" where
  "comp_open rel s =
     (case s of (bu, pend, e) \<Rightarrow>
        bindE (arityOf e rel) (\<lambda>ar.
          let (k, e1) = freeTable e rel (nat ar); bu1 = bu\<lparr>bu_full := (bu_full bu)(rel \<mapsto> k)\<rparr> in
          if tb_complete e1 k
          then Inr (bu1\<lparr>bu_complete := (bu_complete bu1)(rel := True)\<rparr>, pend, e1)
          else Inr (bu1, pend @ [rel], e1)))"

definition head_key :: "bottomUp \<Rightarrow> string \<Rightarrow> sgKey" where
  "head_key bu rel = (case bu_full bu rel of Some k \<Rightarrow> k | None \<Rightarrow> free_key rel 0)"

definition seed_rel :: "bottomUp \<Rightarrow> string \<Rightarrow> engine \<Rightarrow> dl_error + engine" where
  "seed_rel bu rel e =
     (let k = head_key bu rel; e1 = set_state k TProducing e in
      case en_base e1 rel of
        None \<Rightarrow> Inr e1
      | Some br \<Rightarrow> foldE (\<lambda>tup. record_tuple k tup None []) (r_tuples br) e1)"

definition rec_positions :: "string list \<Rightarrow> rule \<Rightarrow> nat list" where
  "rec_positions rels r =
     filter (\<lambda>i. \<not> l_neg (ru_body r ! i) \<and> l_rel (ru_body r ! i) \<in> set rels) [0 ..< length (ru_body r)]"

definition comp_work :: "string list \<Rightarrow> string list \<Rightarrow> engine \<Rightarrow> (rule \<times> nat list) list" where
  "comp_work rels pend e =
     map (\<lambda>r. (r, rec_positions rels r)) (filter (\<lambda>r. l_rel (ru_head r) \<in> set pend) (en_ruleOrder e))"

definition fire_rule :: "bottomUp \<Rightarrow> rule \<Rightarrow> engine \<Rightarrow> dl_error + engine" where
  "fire_rule bu r e =
     evalRule (bu_body bu) r (replicate (lit_arity (ru_head r)) None) (head_key bu (l_rel (ru_head r))) e"

definition round_zero :: "bottomUp \<Rightarrow> (rule \<times> nat list) list \<Rightarrow> engine \<Rightarrow> dl_error + engine" where
  "round_zero bu work e = foldE (\<lambda>w. fire_rule (bu\<lparr>bu_pos := None\<rparr>) (fst w)) work e"

definition semi_round :: "bottomUp \<Rightarrow> (rule \<times> nat list) list \<Rightarrow> engine \<Rightarrow> dl_error + engine" where
  "semi_round bu work e =
     foldE (\<lambda>w. foldE (\<lambda>p. fire_rule (bu\<lparr>bu_pos := Some p\<rparr>) (fst w)) (snd w)) work e"

definition full_len :: "bottomUp \<Rightarrow> engine \<Rightarrow> string \<Rightarrow> nat" where
  "full_len bu e rel = (case full_rel bu e rel of Some r \<Rightarrow> length (r_tuples r) | None \<Rightarrow> 0)"

definition take_deltas :: "bottomUp \<Rightarrow> string list \<Rightarrow> engine \<Rightarrow> (string \<Rightarrow> nat) \<Rightarrow> string \<Rightarrow> relation option" where
  "take_deltas bu pend e mark rel =
     (if rel \<in> set pend then (case full_rel bu e rel of Some r \<Rightarrow> deltaRelation r (mark rel) | None \<Rightarrow> None)
      else None)"

text \<open>
  The round loop; the fuel is the number of rounds that may still run, and when it is used up
  further growth is the error of exceeding \<open>MaxRounds\<close>.
\<close>

primrec semi_rounds :: "nat \<Rightarrow> bottomUp \<Rightarrow> string list \<Rightarrow> (rule \<times> nat list) list \<Rightarrow> (string \<Rightarrow> nat)
    \<Rightarrow> engine \<Rightarrow> dl_error + engine" where
  "semi_rounds 0 bu pend work mark e =
     (if list_ex (\<lambda>rel. take_deltas bu pend e mark rel \<noteq> None) pend
      then Inl (EvalE (ENoFixpoint (hd pend) (en_maxRounds e))) else Inr e)"
| "semi_rounds (Suc n) bu pend work mark e =
     (let deltas = take_deltas bu pend e mark;
          mark' = (\<lambda>rel. if rel \<in> set pend then full_len bu e rel else mark rel) in
      if list_ex (\<lambda>rel. deltas rel \<noteq> None) pend
      then bindE (semi_round (bu\<lparr>bu_delta := deltas\<rparr>) work e) (semi_rounds n bu pend work mark')
      else Inr e)"

definition completeComponent :: "bottomUp \<Rightarrow> string list \<Rightarrow> engine \<Rightarrow> bottomUp \<times> engine" where
  "completeComponent bu pend e =
     (bu\<lparr>bu_complete := (\<lambda>rel. rel \<in> set pend \<or> bu_complete bu rel)\<rparr>,
      fold (\<lambda>rel. set_state (head_key bu rel) TComplete) pend e)"

definition evalComponent :: "string list \<Rightarrow> bottomUp \<times> engine \<Rightarrow> dl_error + bottomUp \<times> engine" where
  "evalComponent rels s =
     bindE (foldE comp_open rels (fst s, [], snd s)) (\<lambda>(bu, pend, e).
       if pend = [] then Inr (bu, e)
       else bindE (foldE (seed_rel bu) pend e) (\<lambda>e1.
         let work = comp_work rels pend e1 in
         bindE (round_zero bu work e1) (\<lambda>e2.
           if list_all (\<lambda>w. snd w = []) work then Inr (completeComponent bu pend e2)
           else bindE (semi_rounds (en_maxRounds e2) bu pend work (\<lambda>_. 0) e2)
                  (\<lambda>e3. Inr (completeComponent bu pend e3)))))"

definition newBottomUp :: bottomUp where
  "newBottomUp = \<lparr>bu_full = Map.empty, bu_complete = (\<lambda>_. False), bu_delta = (\<lambda>_. None), bu_pos = None\<rparr>"

section \<open>Well-formed programs and states\<close>

text \<open>
  What loading establishes: the rules are indexed by head, every relation has one arity, bodies can
  be evaluated from left to right, and every head slot is bound.
\<close>

definition agg_ok :: "aggSpec \<Rightarrow> rule \<Rightarrow> bool" where
  "agg_ok a r \<longleftrightarrow> isAggName (ag_fn a) \<and> ag_inSlot a \<in> bound_after {} (ru_body r)
     \<and> ag_outSlot a \<in> slots_of (l_args (ru_head r))
     \<and> slots_of (l_args (ru_head r)) - {ag_outSlot a} \<subseteq> bound_after {} (ru_body r)"

definition rule_ok :: "(string \<Rightarrow> nat) \<Rightarrow> rule \<Rightarrow> bool" where
  "rule_ok ar r \<longleftrightarrow> ru_nvars r \<le> 64 \<and> body_ok (ru_nvars r) {} (ru_body r)
     \<and> terms_ok (ru_nvars r) (l_args (ru_head r)) \<and> \<not> is_builtin (l_rel (ru_head r))
     \<and> length (l_args (ru_head r)) = ar (l_rel (ru_head r))
     \<and> (\<forall>l \<in> set (ru_body r). \<not> is_builtin (l_rel l) \<longrightarrow> length (l_args l) = ar (l_rel l))
     \<and> (case ru_agg r of None \<Rightarrow> slots_of (l_args (ru_head r)) \<subseteq> bound_after {} (ru_body r)
        | Some a \<Rightarrow> agg_ok a r)"

definition mentioned :: "engine \<Rightarrow> string \<Rightarrow> bool" where
  "mentioned e rel \<longleftrightarrow> (\<exists>r \<in> set (en_ruleOrder e). rel = l_rel (ru_head r)
     \<or> (\<exists>l \<in> set (ru_body r). \<not> is_builtin (l_rel l) \<and> rel = l_rel l))"

definition prog_ok :: "(string \<Rightarrow> nat) \<Rightarrow> engine \<Rightarrow> bool" where
  "prog_ok ar e \<longleftrightarrow>
     (\<forall>rel. en_rules e rel = filter (\<lambda>r. l_rel (ru_head r) = rel) (en_ruleOrder e))
     \<and> (\<forall>r \<in> set (en_ruleOrder e). rule_ok ar r)
     \<and> (\<forall>rel br. mentioned e rel \<longrightarrow> en_base e rel = Some br \<longrightarrow> relation_ok (ar rel) br)"

definition facts :: "engine \<Rightarrow> interp" where
  "facts e rel = (case en_base e rel of Some br \<Rightarrow> set (r_tuples br) | None \<Rightarrow> {})"

text \<open>The model the engine computes.\<close>

definition engine_model :: "engine \<Rightarrow> interp \<Rightarrow> bool" where
  "engine_model e M \<longleftrightarrow> perfect_model (en_ruleOrder e) (facts e) (en_syms e) M"

definition same_prog :: "engine \<Rightarrow> engine \<Rightarrow> bool" where
  "same_prog e e' \<longleftrightarrow> en_ruleOrder e' = en_ruleOrder e \<and> en_rules e' = en_rules e \<and> en_base e' = en_base e
     \<and> en_syms e' = en_syms e \<and> en_recordProv e' = en_recordProv e \<and> en_maxRounds e' = en_maxRounds e
     \<and> en_maxTuples e' = en_maxTuples e \<and> en_loaded e' = en_loaded e \<and> en_strata e' = en_strata e
     \<and> en_aggRel e' = en_aggRel e"

definition trows :: "engine \<Rightarrow> sgKey \<Rightarrow> itup list" where
  "trows e k = (case en_tables e k of Some t \<Rightarrow> r_tuples (tb_rel t) | None \<Rightarrow> [])"

definition grows :: "engine \<Rightarrow> engine \<Rightarrow> bool" where
  "grows e e' \<longleftrightarrow> same_prog e e' \<and> (\<forall>k t. en_tables e k = Some t \<longrightarrow>
     (\<exists>t'. en_tables e' k = Some t' \<and> tb_state t' = tb_state t
        \<and> prefix (r_tuples (tb_rel t)) (r_tuples (tb_rel t'))))"

abbreviation fkey :: "(string \<Rightarrow> nat) \<Rightarrow> string \<Rightarrow> sgKey" where
  "fkey ar rel \<equiv> free_key rel (ar rel)"

definition table_ok :: "interp \<Rightarrow> nat \<Rightarrow> string \<Rightarrow> dtable \<Rightarrow> bool" where
  "table_ok M n rel t \<longleftrightarrow> relation_ok n (tb_rel t) \<and> r_name (tb_rel t) = rel
     \<and> set (r_tuples (tb_rel t)) \<subseteq> M rel \<and> (tb_state t = TComplete \<longrightarrow> set (r_tuples (tb_rel t)) = M rel)"

definition tables_ok :: "interp \<Rightarrow> (string \<Rightarrow> nat) \<Rightarrow> engine \<Rightarrow> bool" where
  "tables_ok M ar e \<longleftrightarrow> (\<forall>rel t. mentioned e rel \<longrightarrow> en_tables e (fkey ar rel) = Some t \<longrightarrow> table_ok M (ar rel) rel t)"

definition bu_ok :: "interp \<Rightarrow> (string \<Rightarrow> nat) \<Rightarrow> bottomUp \<Rightarrow> engine \<Rightarrow> bool" where
  "bu_ok M ar bu e \<longleftrightarrow>
     (\<forall>rel k. bu_full bu rel = Some k \<longrightarrow> k = fkey ar rel \<and> derived e rel \<and> en_tables e k \<noteq> None)
     \<and> (\<forall>rel. bu_complete bu rel \<longrightarrow> bu_full bu rel \<noteq> None \<and> tb_complete e (fkey ar rel))
     \<and> (\<forall>rel d. bu_delta bu rel = Some d \<longrightarrow> rows_ok (ar rel) d \<and> set (r_tuples d) \<subseteq> M rel)"

definition bu_inv :: "interp \<Rightarrow> (string \<Rightarrow> nat) \<Rightarrow> engine \<Rightarrow> bottomUp \<Rightarrow> engine \<Rightarrow> bool" where
  "bu_inv M ar e0 bu e \<longleftrightarrow> same_prog e0 e \<and> prog_ok ar e0 \<and> engine_model e0 M \<and> \<not> en_recordProv e0
     \<and> tables_ok M ar e \<and> bu_ok M ar bu e"

lemma same_prog_refl [simp]: "same_prog e e"
  by (simp add: same_prog_def)

lemma same_prog_trans: "same_prog a b \<Longrightarrow> same_prog b c \<Longrightarrow> same_prog a c"
  by (simp add: same_prog_def)

lemma grows_refl [simp]: "grows e e"
  by (simp add: grows_def)

lemma growsD:
  assumes "grows a b" "en_tables a k = Some t"
  obtains t' where "en_tables b k = Some t'" "tb_state t' = tb_state t"
    "prefix (r_tuples (tb_rel t)) (r_tuples (tb_rel t'))"
  using assms unfolding grows_def by blast

lemma grows_trans:
  assumes "grows a b" "grows b c"
  shows "grows a c"
  unfolding grows_def
proof (intro conjI allI impI)
  show "same_prog a c" using assms same_prog_trans unfolding grows_def by blast
  fix k t
  assume "en_tables a k = Some t"
  with assms(1) obtain t1 where t1: "en_tables b k = Some t1" "tb_state t1 = tb_state t"
    "prefix (r_tuples (tb_rel t)) (r_tuples (tb_rel t1))" by (rule growsD)
  from assms(2) t1(1) obtain t2 where t2: "en_tables c k = Some t2" "tb_state t2 = tb_state t1"
    "prefix (r_tuples (tb_rel t1)) (r_tuples (tb_rel t2))" by (rule growsD)
  show "\<exists>t'. en_tables c k = Some t' \<and> tb_state t' = tb_state t
    \<and> prefix (r_tuples (tb_rel t)) (r_tuples (tb_rel t'))"
    using t1 t2 prefix_order.trans by (intro exI [of _ t2]) auto
qed

lemma grows_trows: "grows a b \<Longrightarrow> prefix (trows a k) (trows b k)"
  by (cases "en_tables a k") (auto simp: grows_def trows_def dest!: spec [of _ k])

lemma grows_complete: "grows a b \<Longrightarrow> tb_complete a k \<Longrightarrow> tb_complete b k"
  unfolding grows_def tb_complete_def by (fastforce split: option.splits)

lemma mentioned_same: "same_prog e e' \<Longrightarrow> mentioned e' rel = mentioned e rel"
  by (simp add: mentioned_def same_prog_def)

lemma derived_iff: "prog_ok ar e \<Longrightarrow> derived e rel \<longleftrightarrow> rel \<in> head_rels (en_ruleOrder e)"
  by (auto simp: derived_def prog_ok_def head_rels_def filter_empty_conv)

lemma derived_same: "same_prog e e' \<Longrightarrow> derived e' rel = derived e rel"
  by (simp add: derived_def same_prog_def)

lemma free_key_rel [simp]: "sg_rel (subgoalKey rel bs) = rel"
proof -
  have "sg_rel (subgoalKey_at p bs k) = sg_rel k" for p k
    by (induction bs arbitrary: p k) (simp_all add: subgoalKey_at_step del: subgoalKey_at.simps(2))
  then show ?thesis by (simp add: subgoalKey_def)
qed

lemma fkey_inj [simp]: "free_key a m = free_key b n \<Longrightarrow> a = b"
  using free_key_rel [of a "replicate m None"] free_key_rel [of b "replicate n None"]
  by (simp add: free_key_def)

lemma rule_mentions:
  assumes "r \<in> set (en_ruleOrder e)"
  shows "mentioned e (l_rel (ru_head r))"
    and "l \<in> set (ru_body r) \<Longrightarrow> \<not> is_builtin (l_rel l) \<Longrightarrow> mentioned e (l_rel l)"
  using assms by (auto simp: mentioned_def)

lemma model_length:
  assumes ok: "prog_ok ar e" and M: "engine_model e M" and rel: "mentioned e rel" and t: "t \<in> M rel"
  shows "length t = ar rel"
proof -
  have "derives (en_ruleOrder e) (facts e) (en_syms e) M rel t"
    using M t by (simp add: engine_model_def perfect_model_def)
  then show ?thesis
  proof cases
    case fact
    then obtain br where "en_base e rel = Some br" "t \<in> set (r_tuples br)"
      by (auto simp: facts_def split: option.splits)
    then show ?thesis using ok rel relation_okD(2) unfolding prog_ok_def by blast
  next
    case (fire r \<theta>)
    then show ?thesis using ok by (simp add: prog_ok_def rule_ok_def inst_def)
  next
    case (aggr r a)
    then have "length t = length (l_args (ru_head r))"
      by (auto simp: agg_rows_def agg_pairs_def agg_row_def agg_group_def)
    then show ?thesis using aggr ok by (simp add: prog_ok_def rule_ok_def)
  qed
qed

section \<open>The source obeys the interface\<close>

definition bu_rows :: "bottomUp \<Rightarrow> engine \<Rightarrow> nat \<Rightarrow> literal \<Rightarrow> itup set" where
  "bu_rows bu e p l =
     (if bu_pos bu = Some p
      then (case bu_delta bu (l_rel l) of None \<Rightarrow> {} | Some d \<Rightarrow> set (r_tuples d))
      else (case bu_source bu e (l_rel l) of None \<Rightarrow> {} | Some r \<Rightarrow> set (r_tuples r)))"

text \<open>Only relations with rules are materialised, so the primed plan and \<open>source\<close> agree.\<close>

lemma buSrc_source:
  assumes "bu_ok M ar bu e"
  shows "buSrc bu e rel = bu_source bu e rel"
proof (cases "bu_full bu rel")
  case None
  then show ?thesis by (simp add: buSrc_def bu_source_def full_rel_def)
next
  case (Some k)
  then have "derived e rel" using assms by (simp add: bu_ok_def)
  then show ?thesis by (simp add: buSrc_def bu_source_def)
qed

lemma full_rel_grows:
  assumes "grows e e'" "full_rel bu e rel = Some r"
  shows "\<exists>r'. full_rel bu e' rel = Some r' \<and> prefix (r_tuples r) (r_tuples r')"
proof -
  from assms(2) obtain k t where k: "bu_full bu rel = Some k" "en_tables e k = Some t" "r = tb_rel t"
    by (auto simp: full_rel_def split: option.splits)
  then obtain t' where "en_tables e' k = Some t'" "prefix (r_tuples (tb_rel t)) (r_tuples (tb_rel t'))"
    using assms(1) unfolding grows_def by blast
  then show ?thesis using k by (simp add: full_rel_def)
qed

lemma derived_mentioned: "prog_ok ar e \<Longrightarrow> derived e rel \<Longrightarrow> mentioned e rel"
  by (auto simp: derived_iff head_rels_def mentioned_def)

lemma bu_invD:
  assumes "bu_inv M ar e0 bu e"
  shows "same_prog e0 e" "prog_ok ar e0" "engine_model e0 M" "\<not> en_recordProv e0" "tables_ok M ar e" "bu_ok M ar bu e"
    "en_ruleOrder e = en_ruleOrder e0" "en_base e = en_base e0" "en_syms e = en_syms e0" "\<not> en_recordProv e"
    "mentioned e rel = mentioned e0 rel" "derived e rel = derived e0 rel"
  using assms mentioned_same derived_same by (auto simp: bu_inv_def same_prog_def)

lemma full_table:
  assumes inv: "bu_inv M ar e0 bu e" and "bu_full bu rel = Some k"
  obtains t where "k = fkey ar rel" "en_tables e k = Some t" "table_ok M (ar rel) rel t" "full_rel bu e rel = Some (tb_rel t)"
proof -
  note d = bu_invD [OF inv]
  from assms(2) d(6) have k: "k = fkey ar rel" "derived e rel" "en_tables e k \<noteq> None" by (auto simp: bu_ok_def)
  then obtain t where t: "en_tables e k = Some t" by blast
  have "mentioned e rel" using k(2) derived_mentioned [OF d(2), of rel] unfolding d(11,12) by blast
  then have "table_ok M (ar rel) rel t" using d(5) t k(1) by (simp add: tables_ok_def)
  then show thesis using that k t assms(2) by (simp add: full_rel_def)
qed

lemma model_has_facts: "engine_model e M \<Longrightarrow> en_base e rel = Some br \<Longrightarrow> set (r_tuples br) \<subseteq> M rel"
  using perfect_fact [of "en_ruleOrder e" "facts e" "en_syms e" M rel] by (simp add: engine_model_def facts_def)

lemma bu_source_ok:
  assumes inv: "bu_inv M ar e0 bu e" and m: "mentioned e0 rel" and r: "bu_source bu e rel = Some r"
  shows "rows_ok (ar rel) r \<and> set (r_tuples r) \<subseteq> M rel"
proof (cases "bu_full bu rel")
  case None
  note d = bu_invD [OF inv]
  from None r have br: "en_base e0 rel = Some r" by (simp add: bu_source_def full_rel_def d(8))
  have "relation_ok (ar rel) r" using d(2) m br by (simp add: prog_ok_def)
  then show ?thesis using relation_okD(5) model_has_facts [OF d(3) br] by blast
next
  case (Some k)
  from inv Some obtain t where "table_ok M (ar rel) rel t" "full_rel bu e rel = Some (tb_rel t)" by (rule full_table)
  then show ?thesis using r relation_okD(5) by (auto simp: bu_source_def table_ok_def)
qed

lemma bu_rows_mono:
  assumes inv: "bu_inv M ar e0 bu e1" and g: "grows e1 e2"
  shows "bu_rows bu e1 p l \<subseteq> bu_rows bu e2 p l"
proof (cases "bu_full bu (l_rel l)")
  case None
  then show ?thesis using g by (simp add: bu_rows_def bu_source_def full_rel_def grows_def same_prog_def)
next
  case (Some k)
  obtain t where "k = fkey ar (l_rel l)" "en_tables e1 k = Some t" "table_ok M (ar (l_rel l)) (l_rel l) t"
    and t: "full_rel bu e1 (l_rel l) = Some (tb_rel t)" by (rule full_table [OF inv Some])
  from full_rel_grows [OF g t] obtain r' where
    "full_rel bu e2 (l_rel l) = Some r'" "prefix (r_tuples (tb_rel t)) (r_tuples r')" by blast
  then show ?thesis using t by (auto simp: bu_rows_def bu_source_def dest: set_mono_prefix)
qed

lemma bu_lit_result:
  assumes inv: "bu_inv M ar e0 bu e" and l: "mentioned e0 (l_rel l)" "length (l_args l) = ar (l_rel l)"
    and len: "length bs = length (l_args l)" and run: "bu_litTuples bu p l bs e = Inr (cands, e1)"
  shows "e1 = e \<and> (\<forall>t \<in> set cands. length t = length (l_args l) \<and> t \<in> M (l_rel l))
    \<and> (\<forall>t \<in> bu_rows bu e p l. matches t bs \<longrightarrow> t \<in> set cands)"
proof -
  note d = bu_invD [OF inv]
  have len': "length bs = ar (l_rel l)" using len l by simp
  have sel: "(\<forall>t \<in> set (fst (selectCands rr bs)). length t = length (l_args l) \<and> t \<in> M (l_rel l))
    \<and> (\<forall>t \<in> set (r_tuples rr). matches t bs \<longrightarrow> t \<in> set (fst (selectCands rr bs)))"
    if rr: "rows_ok (ar (l_rel l)) rr" "set (r_tuples rr) \<subseteq> M (l_rel l)" for rr
  proof -
    have "set (fst (selectCands rr bs)) \<subseteq> set (r_tuples rr)" by (rule selectCands_filter(2) [OF rr(1) len'])
    then show ?thesis
      using rr l selectCands_matching [OF rr(1) len'] by (auto simp: rows_ok_def)
  qed
  from run buSrc_source [OF d(6), of "l_rel l"] obtain rr where rr: "bu_source bu e (l_rel l) = Some rr"
    by (auto simp: bu_litTuples_def split: option.splits)
  show ?thesis
  proof (cases "bu_pos bu = Some p")
    case True
    show ?thesis
    proof (cases "bu_delta bu (l_rel l)")
      case None
      then show ?thesis using run rr True buSrc_source [OF d(6), of "l_rel l"]
        by (simp add: bu_litTuples_def bu_rows_def)
    next
      case (Some dl)
      then have "rows_ok (ar (l_rel l)) dl" "set (r_tuples dl) \<subseteq> M (l_rel l)" using d(6) by (auto simp: bu_ok_def)
      from sel [OF this] show ?thesis
        using run rr True Some buSrc_source [OF d(6), of "l_rel l"] by (auto simp: bu_litTuples_def bu_rows_def)
    qed
  next
    case False
    from bu_source_ok [OF inv l(1) rr] sel have "(\<forall>t \<in> set (fst (selectCands rr bs)). length t = length (l_args l) \<and> t \<in> M (l_rel l))
      \<and> (\<forall>t \<in> set (r_tuples rr). matches t bs \<longrightarrow> t \<in> set (fst (selectCands rr bs)))" by blast
    then show ?thesis
      using run rr False buSrc_source [OF d(6), of "l_rel l"] by (auto simp: bu_litTuples_def bu_rows_def)
  qed
qed

lemma bu_neg_result:
  assumes inv: "bu_inv M ar e0 bu e" and l: "mentioned e0 (l_rel l)" "length (l_args l) = ar (l_rel l)"
    and len: "length bs = length (l_args l)" and run: "bu_negated bu l bs e = Inr (found, e1)"
  shows "e1 = e \<and> (found \<longleftrightarrow> (\<exists>t \<in> M (l_rel l). matches t bs)) \<and> (\<forall>t \<in> M (l_rel l). length t = length (l_args l))"
proof -
  note d = bu_invD [OF inv]
  have len': "length bs = ar (l_rel l)" using len l by simp
  have mlen: "\<forall>t \<in> M (l_rel l). length t = length (l_args l)" using model_length [OF d(2,3) l(1)] l(2) by simp
  show ?thesis
  proof (cases "derived e (l_rel l)")
    case False
    with run obtain br where br: "en_base e0 (l_rel l) = Some br" "found = exists_match br bs" "e1 = e"
      by (auto simp: bu_negated_def d(8) split: option.splits)
    have ok: "relation_ok (ar (l_rel l)) br" using d(2) l(1) br by (simp add: prog_ok_def)
    have "l_rel l \<notin> head_rels (en_ruleOrder e0)" using False derived_iff [OF d(2)] by (simp add: d(12))
    then have "M (l_rel l) = set (r_tuples br)"
      using d(3) perfect_base_only br by (fastforce simp: engine_model_def facts_def)
    then show ?thesis using br exists_match_iff [OF relation_okD(5) [OF ok] len'] mlen by simp
  next
    case True
    with run have c: "bu_complete bu (l_rel l)"
      and f: "found = (case full_rel bu e (l_rel l) of None \<Rightarrow> False | Some r \<Rightarrow> exists_match r bs)" "e1 = e"
      by (auto simp: bu_negated_def split: if_splits)
    from c d(6) obtain k where k: "bu_full bu (l_rel l) = Some k" "tb_complete e (fkey ar (l_rel l))"
      by (auto simp: bu_ok_def)
    from inv k(1) obtain t where t: "k = fkey ar (l_rel l)" "en_tables e k = Some t" "table_ok M (ar (l_rel l)) (l_rel l) t"
      "full_rel bu e (l_rel l) = Some (tb_rel t)" by (rule full_table)
    have "set (r_tuples (tb_rel t)) = M (l_rel l)" using t k by (auto simp: tb_complete_def table_ok_def)
    moreover have "relation_ok (ar (l_rel l)) (tb_rel t)" using t by (simp add: table_ok_def)
    ultimately show ?thesis
      using f t(4) exists_match_iff [OF relation_okD(5) len'] mlen by auto
  qed
qed

section \<open>Recording keeps the invariant\<close>

lemma note_rule_frame [simp]:
  "en_tables (note_rule nm gk e) = en_tables e" "en_agg (note_rule nm gk e) = en_agg e"
  "same_prog e (note_rule nm gk e)"
  by (auto simp: note_rule_def same_prog_def split: option.splits)

lemma record_frame:
  assumes "record_tuple tk tup None nm e = Inr e1" "\<not> en_recordProv e"
  obtains t where "en_tables e tk = Some t"
    "en_tables e1 = (en_tables e)(tk \<mapsto> t\<lparr>tb_rel := snd (add (tb_rel t) tup)\<rparr>)"
    "same_prog e e1" "en_agg e1 = en_agg e"
proof -
  from assms(1) obtain t where t: "en_tables e tk = Some t"
    by (auto simp: record_tuple_def split: option.splits)
  define e' where "e' = e\<lparr>en_tables := (en_tables e)(tk \<mapsto> t\<lparr>tb_rel := snd (add (tb_rel t) tup)\<rparr>),
    en_grown := (if fst (add (tb_rel t) tup) then Suc (en_grown e) else en_grown e)\<rparr>"
  have "same_prog e e'" by (simp add: e'_def same_prog_def)
  moreover have "e1 = e' \<or> e1 = note_rule nm (groupKey (r_name (snd (add (tb_rel t) tup))) tup) e'"
    using assms t by (auto simp: record_tuple_def e'_def split_beta Let_def split: if_splits)
  moreover have "en_agg e' = en_agg e" by (simp add: e'_def)
  ultimately have "same_prog e e1 \<and> en_tables e1 = en_tables e' \<and> en_agg e1 = en_agg e"
    using same_prog_trans [OF _ note_rule_frame(3)] by (metis note_rule_frame(1,2))
  then show thesis using that t by (simp add: e'_def)
qed

lemma tables_ok_update:
  assumes "tables_ok M ar e" "table_ok M (ar rel) rel t'" "en_tables e1 = (en_tables e)(fkey ar rel \<mapsto> t')"
    and "same_prog e e1"
  shows "tables_ok M ar e1"
  using assms by (auto simp: tables_ok_def mentioned_same dest: fkey_inj)

lemma grows_update:
  assumes "en_tables e k = Some t" "en_tables e1 = (en_tables e)(k \<mapsto> t')" "same_prog e e1"
    and "tb_state t' = tb_state t" "prefix (r_tuples (tb_rel t)) (r_tuples (tb_rel t'))"
  shows "grows e e1"
  using assms by (auto simp: grows_def)

lemma bu_ok_grows:
  assumes ok: "bu_ok M ar bu e" and g: "grows e e1"
  shows "bu_ok M ar bu e1"
proof -
  have der: "derived e1 rel = derived e rel" for rel using g derived_same by (simp add: grows_def)
  have tab: "en_tables e k \<noteq> None \<Longrightarrow> en_tables e1 k \<noteq> None" for k using g growsD by blast
  show ?thesis
    using ok tab grows_complete [OF g] unfolding bu_ok_def der by blast
qed

lemma bu_inv_grows:
  assumes "bu_inv M ar e0 bu e" "grows e e1" "tables_ok M ar e1"
  shows "bu_inv M ar e0 bu e1"
proof -
  have "same_prog e0 e1" using assms(1,2) same_prog_trans unfolding bu_inv_def grows_def by blast
  then show ?thesis using assms bu_ok_grows unfolding bu_inv_def by blast
qed

lemma record_inv:
  assumes inv: "bu_inv M ar e0 bu e" and m: "mentioned e0 rel" and tup: "tup \<in> M rel"
    and run: "record_tuple (fkey ar rel) tup None nm e = Inr e1"
  shows "bu_inv M ar e0 bu e1 \<and> grows e e1 \<and> tup \<in> set (trows e1 (fkey ar rel)) \<and> en_agg e1 = en_agg e"
proof -
  note d = bu_invD [OF inv]
  from record_frame [OF run d(10)] obtain t where t: "en_tables e (fkey ar rel) = Some t"
    and e1: "en_tables e1 = (en_tables e)(fkey ar rel \<mapsto> t\<lparr>tb_rel := snd (add (tb_rel t) tup)\<rparr>)"
    and sp: "same_prog e e1" and ag: "en_agg e1 = en_agg e" .
  have tok: "table_ok M (ar rel) rel t" using d(5,11) m t by (simp add: tables_ok_def)
  have len: "length tup = ar rel" using model_length [OF d(2,3) m tup] .
  have ok: "relation_ok (ar rel) (tb_rel t)" using tok by (simp add: table_ok_def)
  note add = add_eq [OF ok len]
  have tok': "table_ok M (ar rel) rel (t\<lparr>tb_rel := snd (add (tb_rel t) tup)\<rparr>)"
    using tok add tup by (auto simp: table_ok_def)
  have g: "grows e e1" by (rule grows_update [OF t e1 sp]) (simp_all add: add(2))
  have "tup \<in> set (trows e1 (fkey ar rel))" using add(2) by (simp add: trows_def e1)
  moreover have "bu_inv M ar e0 bu e1"
    using bu_inv_grows [OF inv g] tables_ok_update [OF d(5) tok' e1 sp] by blast
  ultimately show ?thesis using g ag by simp
qed

section \<open>Firing a rule\<close>

lemma matches_replicate [simp]: "matches t (replicate n None)"
  by (rule matches_free) (simp add: anyBound_def list_ex_iff)

lemma bind_head_free [simp]: "bind_head as (replicate n None) fr = Some fr"
proof (induction as arbitrary: n)
  case (Cons a as)
  then show ?case by (cases n) simp_all
qed simp

definition fire_inv :: "interp \<Rightarrow> (string \<Rightarrow> nat) \<Rightarrow> engine \<Rightarrow> bottomUp \<Rightarrow> rule \<Rightarrow> engine \<Rightarrow> bool" where
  "fire_inv M ar e0 bu r e \<longleftrightarrow> bu_inv M ar e0 bu e \<and> r \<in> set (en_ruleOrder e0) \<and> ru_agg r = None"

lemma inv_rule_lit:
  assumes "prog_ok ar e0" "r \<in> set (en_ruleOrder e0)" "l \<in> set (ru_body r)" "\<not> is_builtin (l_rel l)"
  shows "mentioned e0 (l_rel l)" "length (l_args l) = ar (l_rel l)"
  using assms rule_mentions(2) by (auto simp: prog_ok_def rule_ok_def)

interpretation bu_fire: rule_emission "bu_body bu" "\<lambda>l. l \<in> set (ru_body r)" "fire_inv M ar e0 bu r" grows "en_syms e0"
  "bu_rows bu" "\<lambda>_ l. M (l_rel l)" "\<lambda>l. M (l_rel l)" r "replicate (lit_arity (ru_head r)) None"
  "fkey ar (l_rel (ru_head r))" "\<lambda>e. set (trows e (fkey ar (l_rel (ru_head r))))" "\<lambda>\<theta>. inst \<theta> (ru_head r)" "\<lambda>_. True"
  for bu r M ar e0
proof (unfold_locales)
  show "grows e e" for e by simp
  show "grows e1 e2 \<Longrightarrow> grows e2 e3 \<Longrightarrow> grows e1 e3" for e1 e2 e3 by (rule grows_trans)
  show "\<forall>l \<in> set (ru_body r). l \<in> set (ru_body r)" by simp
  show "grows e1 e2 \<Longrightarrow> set (trows e1 k) \<subseteq> set (trows e2 k)" for e1 e2 k by (metis grows_trows set_mono_prefix)
  fix e
  assume inv: "fire_inv M ar e0 bu r e"
  then have bu: "bu_inv M ar e0 bu e" and r: "r \<in> set (en_ruleOrder e0)" and na: "ru_agg r = None"
    by (simp_all add: fire_inv_def)
  note d = bu_invD [OF bu]
  show "en_syms e = en_syms e0" "\<not> en_recordProv e" using d by simp_all
  show "grows e e2 \<Longrightarrow> bu_rows bu e p l \<subseteq> bu_rows bu e2 p l" for e2 p l by (rule bu_rows_mono [OF bu])
  show "fire_inv M ar e0 bu r e1 \<and> grows e e1
      \<and> (\<forall>t \<in> set cands. length t = length (l_args l) \<and> t \<in> M (l_rel l))
      \<and> (\<forall>t \<in> bu_rows bu e p l. matches t bs \<longrightarrow> t \<in> set cands)"
    if "l \<in> set (ru_body r)" "\<not> is_builtin (l_rel l)" "length bs = length (l_args l)"
      "bs_lit (bu_body bu) p l bs e = Inr (cands, e1)" for l bs p cands e1
  proof -
    from that(4) have "bu_litTuples bu p l bs e = Inr (cands, e1)" by (simp add: bu_body_def)
    from bu_lit_result [OF bu inv_rule_lit [OF d(2) r that(1,2)] that(3) this] inv show ?thesis by simp
  qed
  show "fire_inv M ar e0 bu r e1 \<and> grows e e1 \<and> (found \<longleftrightarrow> (\<exists>t \<in> M (l_rel l). matches t bs))
      \<and> (\<forall>t \<in> M (l_rel l). length t = length (l_args l))"
    if "l \<in> set (ru_body r)" "\<not> is_builtin (l_rel l)" "length bs = length (l_args l)"
      "bs_neg (bu_body bu) l bs e = Inr (found, e1)" for l bs found e1
  proof -
    from that(4) have "bu_negated bu l bs e = Inr (found, e1)" by (simp add: bu_body_def)
    from bu_neg_result [OF bu inv_rule_lit [OF d(2) r that(1,2)] that(3) this] inv show ?thesis by simp
  qed
  show "fire_inv M ar e0 bu r e1 \<and> grows e e1
      \<and> (True \<longrightarrow> inst \<theta> (ru_head r) \<in> set (trows e1 (fkey ar (l_rel (ru_head r)))))"
    if fr: "frame_ok (ru_nvars r) fr" "agrees \<theta> fr" "bound_after {} (ru_body r) \<subseteq> bound fr"
      and sat: "holds M M (en_syms e0) (ru_body r) \<theta>"
      and run: "join_emit r (replicate (lit_arity (ru_head r)) None) (fkey ar (l_rel (ru_head r))) fr steps e = Inr e1"
    for fr \<theta> steps e1
  proof -
    have ro: "rule_ok ar r" using d(2) r by (simp add: prog_ok_def)
    then have h: "terms_ok (ru_nvars r) (l_args (ru_head r))" "slots_of (l_args (ru_head r)) \<subseteq> bound fr"
      using na fr(3) by (auto simp: rule_ok_def)
    have "head_tuple fr (l_args (ru_head r)) = Some (inst \<theta> (ru_head r))"
      using head_tuple_bound [OF fr(1) h fr(2)] by (simp add: inst_def)
    with run na d(10) have rec: "record_tuple (fkey ar (l_rel (ru_head r))) (inst \<theta> (ru_head r)) None (ru_name r) e = Inr e1"
      by (simp add: join_emit_def)
    have "inst \<theta> (ru_head r) \<in> M (l_rel (ru_head r))"
      using perfect_fire [OF _ r na sat] d(3) by (simp add: engine_model_def)
    from record_inv [OF bu rule_mentions(1) [OF r] this rec] show ?thesis using inv by (simp add: fire_inv_def)
  qed
qed

lemma fire_plain:
  assumes inv: "bu_inv M ar e0 bu e" and r: "r \<in> set (en_ruleOrder e0)" "ru_agg r = None"
    and full: "bu_full bu (l_rel (ru_head r)) \<noteq> None" and run: "fire_rule bu r e = Inr e'"
  shows "bu_inv M ar e0 bu e' \<and> grows e e'
    \<and> (\<forall>\<theta>. sat (bu_rows bu e) (\<lambda>l. M (l_rel l)) (en_syms e0) 0 (ru_body r) \<theta> \<longrightarrow>
         inst \<theta> (ru_head r) \<in> set (trows e' (fkey ar (l_rel (ru_head r)))))"
proof -
  note d = bu_invD [OF inv]
  have ro: "rule_ok ar r" using d(2) r by (simp add: prog_ok_def)
  have k: "head_key bu (l_rel (ru_head r)) = fkey ar (l_rel (ru_head r))"
    using full d(6) by (auto simp: head_key_def bu_ok_def)
  have n: "frame_ok (ru_nvars r) (newFrame (ru_nvars r))" using ro by (intro frame_ok_new) (simp add: rule_ok_def)
  have "join (bu_body bu) r (replicate (lit_arity (ru_head r)) None) (fkey ar (l_rel (ru_head r))) (ru_body r) 0
      (newFrame (ru_nvars r)) [] e = Inr e'"
    using run r(2) by (simp add: fire_rule_def evalRule_def k)
  from bu_fire.join_good [of M ar e0 bu r e "newFrame (ru_nvars r)" "[]" "ru_body r", OF _ n _ _ _ _ _ this]
  have "bu_fire.good M ar e0 bu r (ru_body r) 0 (newFrame (ru_nvars r)) e e'"
    using inv r ro by (simp add: fire_inv_def rule_ok_def)
  then show ?thesis by (simp add: bu_fire.good_def fire_inv_def)
qed

end
