(* ===== verification/Aggregate.thy ===== *)
theory Aggregate
  imports BottomUp
begin

unbundle bit_operations_syntax

text \<open>
  Aggregate rules (\<open>internal/datalog/agg.go\<close>) under bottom-up evaluation: the accumulators built
  during the join hold, for every group, exactly the reduction of the values of that group, and
  flushing them records exactly the rows the rule means.
\<close>

section \<open>Accumulators\<close>

definition covers :: "string \<Rightarrow> aggAcc \<Rightarrow> uint32 \<Rightarrow> bool" where
  "covers fn ac v \<longleftrightarrow>
     (if fn = ''count'' then v \<in> set (ac_distinct ac)
      else ac_have ac \<and> decodeIntSym v \<noteq> None
        \<and> (if fn = ''min'' then ac_ival ac \<le> int_of v else int_of v \<le> ac_ival ac))"

definition attained :: "string \<Rightarrow> aggAcc \<Rightarrow> uint32 set \<Rightarrow> bool" where
  "attained fn ac V \<longleftrightarrow>
     (if fn = ''count'' then distinct (ac_distinct ac) \<and> set (ac_distinct ac) \<subseteq> V
      else ac_have ac \<and> (\<exists>v \<in> V. ac_ival ac = int_of v))"

definition fresh_acc :: "itup \<Rightarrow> nat option \<Rightarrow> aggAcc" where
  "fresh_acc g p = \<lparr>ac_group = g, ac_pos = p, ac_ival = 0, ac_have = False, ac_distinct = [], ac_steps = []\<rparr>"

lemma acc_update_frame [simp]:
  "ac_group (acc_update fn iv n pv steps ac) = ac_group ac" "ac_pos (acc_update fn iv n pv steps ac) = ac_pos ac"
  by (auto simp: acc_update_def split: option.splits)

lemma acc_update_covers:
  assumes "isAggName fn" "fn \<noteq> ''count'' \<Longrightarrow> decodeIntSym iv \<noteq> None"
  shows "covers fn (acc_update fn iv (decodeIntSym iv) pv steps ac) iv"
    and "covers fn ac v \<Longrightarrow> covers fn (acc_update fn iv (decodeIntSym iv) pv steps ac) v"
proof -
  have "covers fn (acc_update fn iv (decodeIntSym iv) pv steps ac) iv
    \<and> (covers fn ac v \<longrightarrow> covers fn (acc_update fn iv (decodeIntSym iv) pv steps ac) v)"
  proof (cases "fn = ''count''")
    case True
    then show ?thesis by (simp add: acc_update_def covers_def)
  next
    case False
    then obtain x where x: "decodeIntSym iv = Some x" using assms(2) by blast
    from False assms(1) have "fn = ''min'' \<or> fn = ''max''" by (simp add: isAggName_def)
    then show ?thesis using x by (elim disjE) (auto simp: acc_update_def covers_def int_of_def)
  qed
  then show "covers fn (acc_update fn iv (decodeIntSym iv) pv steps ac) iv"
    and "covers fn ac v \<Longrightarrow> covers fn (acc_update fn iv (decodeIntSym iv) pv steps ac) v" by blast+
qed
lemma acc_update_attained:
  assumes "isAggName fn" "fn \<noteq> ''count'' \<Longrightarrow> decodeIntSym iv \<noteq> None" "iv \<in> V"
    and "attained fn ac V \<or> ac = fresh_acc g p"
  shows "attained fn (acc_update fn iv (decodeIntSym iv) pv steps ac) V"
proof (cases "fn = ''count''")
  case True
  then show ?thesis using assms(3,4) by (auto simp: acc_update_def attained_def fresh_acc_def)
next
  case False
  then obtain x where x: "decodeIntSym iv = Some x" using assms(2) by blast
  then have "\<exists>v \<in> V. x = int_of v" using assms(3) by (intro bexI [of _ iv]) (simp_all add: int_of_def)
  moreover from False assms(4) have "\<not> ac_have ac \<or> (\<exists>v \<in> V. ac_ival ac = int_of v)"
    by (auto simp: attained_def fresh_acc_def)
  ultimately show ?thesis using False x by (simp add: acc_update_def attained_def)
qed

lemma acc_exact:
  assumes fn: "isAggName fn" and at: "attained fn ac V" and cov: "\<And>v. v \<in> V \<Longrightarrow> covers fn ac v"
  shows "acc_result fn ac = Some (agg_val fn V)"
proof (cases "fn = ''count''")
  case True
  then have "set (ac_distinct ac) = V" "distinct (ac_distinct ac)"
    using at cov by (auto simp: attained_def covers_def)
  then show ?thesis using True distinct_card [of "ac_distinct ac"] by (simp add: acc_result_def agg_val_def)
next
  case False
  have fin: "finite (int_of ` V)" by simp
  from False at obtain v where v: "ac_have ac" "v \<in> V" "ac_ival ac = int_of v" by (auto simp: attained_def)
  show ?thesis
  proof (cases "fn = ''min''")
    case True
    then have "\<And>w. w \<in> V \<Longrightarrow> int_of v \<le> int_of w" using cov v(3) False by (force simp: covers_def)
    then have "Min (int_of ` V) = int_of v" using fin v(2) by (intro Min_eqI) auto
    then show ?thesis using v False True by (simp add: acc_result_def agg_val_def)
  next
    case max: False
    then have "\<And>w. w \<in> V \<Longrightarrow> int_of w \<le> int_of v" using cov v(3) False by (force simp: covers_def)
    then have "Max (int_of ` V) = int_of v" using fin v(2) by (intro Max_eqI) auto
    then show ?thesis using v False max by (simp add: acc_result_def agg_val_def)
  qed
qed

section \<open>Collecting one substitution\<close>

lemma agg_head_spec:
  assumes "frame_ok n fr" "terms_ok n as" "slots_of as - {out} \<subseteq> bound fr" "agrees \<theta> fr"
  shows "agg_head out k fr as =
    Some (map (\<lambda>t. if tm_isVar t \<and> tm_var t = out then 0 else term_val \<theta> t) as,
          if out \<in> slots_of as then Some (k + out_index out as) else None)"
  using assms
proof (induction as arbitrary: k)
  case (Cons a as)
  have tail: "terms_ok n as" "slots_of as - {out} \<subseteq> bound fr"
    using Cons.prems by (auto simp: terms_ok_def slots_of_Cons split: if_splits)
  note ih = Cons.IH [OF Cons.prems(1) tail Cons.prems(4), of "Suc k"]
  show ?case
  proof (cases "tm_isVar a \<and> tm_var a \<noteq> out")
    case True
    then have "tm_var a \<in> bound fr" using Cons.prems(3) by (auto simp: slots_of_Cons)
    then have "frame_get fr (tm_var a) = Some (\<theta> (tm_var a))"
      using Cons.prems(4) by (auto simp: bound_def agrees_def)
    then show ?thesis using ih True by (auto simp: slots_of_Cons term_val_def)
  next
    case False
    then show ?thesis using ih by (auto simp: slots_of_Cons term_val_def)
  qed
qed simp

definition agg_covered :: "string \<Rightarrow> engine \<Rightarrow> (itup \<times> uint32) set" where
  "agg_covered fn e =
     {(g, v). \<exists>ac. map_of (en_agg e) (key g) = Some ac \<and> ac_group ac = g \<and> covers fn ac v}"

definition accs_sound :: "interp \<Rightarrow> interner \<Rightarrow> aggSpec \<Rightarrow> rule \<Rightarrow> (tkey \<times> aggAcc) list \<Rightarrow> bool" where
  "accs_sound M S a r accs \<longleftrightarrow> distinct (map fst accs) \<and> (\<forall>(k, ac) \<in> set accs.
     k = key (ac_group ac) \<and> length (ac_group ac) = length (l_args (ru_head r))
     \<and> ac_pos ac = Some (out_index (ag_outSlot a) (l_args (ru_head r)))
     \<and> ac_group ac \<in> fst ` agg_pairs M S a r
     \<and> attained (ag_fn a) ac (agg_pairs M S a r `` {ac_group ac}))"

lemma accs_soundD:
  assumes "accs_sound M S a r accs" "map_of accs k = Some ac"
  shows "k = key (ac_group ac)" "length (ac_group ac) = length (l_args (ru_head r))"
    "ac_pos ac = Some (out_index (ag_outSlot a) (l_args (ru_head r)))"
    "ac_group ac \<in> fst ` agg_pairs M S a r"
    "attained (ag_fn a) ac (agg_pairs M S a r `` {ac_group ac})"
  using assms map_of_SomeD [OF assms(2)] by (auto simp: accs_sound_def)

lemma accs_sound_update:
  assumes "accs_sound M S a r accs" "k = key (ac_group ac)" "length (ac_group ac) = length (l_args (ru_head r))"
    "ac_pos ac = Some (out_index (ag_outSlot a) (l_args (ru_head r)))"
    "ac_group ac \<in> fst ` agg_pairs M S a r"
    "attained (ag_fn a) ac (agg_pairs M S a r `` {ac_group ac})"
  shows "accs_sound M S a r (AList.update k ac accs)"
proof -
  have "distinct (map fst (AList.update k ac accs))" using assms(1) by (simp add: accs_sound_def distinct_update)
  moreover have "(j, b) \<in> set (AList.update k ac accs) \<Longrightarrow> (j, b) = (k, ac) \<or> (j, b) \<in> set accs" for j b
    by (induction accs) (auto split: if_splits)
  ultimately show ?thesis using assms unfolding accs_sound_def split_beta by (metis fst_conv prod.collapse snd_conv)
qed

lemma aggCollect_effect:
  assumes ro: "rule_ok ar r" "ru_agg r = Some a" and fr: "frame_ok (ru_nvars r) fr" "agrees \<theta> fr"
    "bound_after {} (ru_body r) \<subseteq> bound fr" and sat: "holds M M S (ru_body r) \<theta>"
    and snd: "accs_sound M S a r (en_agg e)" and run: "aggCollect r a fr steps e = Inr e1"
  shows "\<exists>accs. e1 = e\<lparr>en_agg := accs\<rparr> \<and> accs_sound M S a r accs
    \<and> agg_covered (ag_fn a) e \<subseteq> agg_covered (ag_fn a) e1
    \<and> (agg_group a r \<theta>, \<theta> (ag_inSlot a)) \<in> agg_covered (ag_fn a) e1"
proof -
  let ?g = "agg_group a r \<theta>" and ?v = "\<theta> (ag_inSlot a)" and ?out = "ag_outSlot a"
  let ?p = "Some (out_index ?out (l_args (ru_head r)))"
  have agg: "agg_ok a r" "terms_ok (ru_nvars r) (l_args (ru_head r))" using ro by (auto simp: rule_ok_def)
  have hs: "slots_of (l_args (ru_head r)) - {?out} \<subseteq> bound fr" "?out \<in> slots_of (l_args (ru_head r))"
    "ag_inSlot a \<in> bound fr" and fn: "isAggName (ag_fn a)" using agg(1) fr(3) by (auto simp: agg_ok_def)
  have hd: "agg_head ?out 0 fr (l_args (ru_head r)) = Some (?g, ?p)"
    using agg_head_spec [OF fr(1) agg(2) hs(1) fr(2), of 0] hs(2) by (simp add: agg_group_def)
  have iv: "frame_get fr (ag_inSlot a) = Some ?v" using hs(3) fr(2) by (auto simp: bound_def agrees_def)
  define ac where "ac = (case map_of (en_agg e) (key ?g) of None \<Rightarrow> fresh_acc ?g ?p | Some x \<Rightarrow> x)"
  define ac' where "ac' = acc_update (ag_fn a) ?v (decodeIntSym ?v) (en_recordProv e) steps ac"
  define accs where "accs = AList.update (key ?g) ac' (en_agg e)"
  have int: "ag_fn a \<noteq> ''count'' \<Longrightarrow> decodeIntSym ?v \<noteq> None"
    using run hd iv by (auto simp: aggCollect_def Let_def split: if_splits)
  have e1: "e1 = e\<lparr>en_agg := accs\<rparr>"
    using run hd iv unfolding accs_def ac'_def ac_def fresh_acc_def
    by (simp add: aggCollect_def Let_def split: if_splits)
  have pair: "(?g, ?v) \<in> agg_pairs M S a r" using sat by (auto simp: agg_pairs_def)
  have len: "length ?g = length (l_args (ru_head r))" by (simp add: agg_group_def)
  have grp: "ac_group ac = ?g \<and> ac_pos ac = ?p \<and> (attained (ag_fn a) ac (agg_pairs M S a r `` {?g}) \<or> ac = fresh_acc ?g ?p)"
  proof (cases "map_of (en_agg e) (key ?g)")
    case None
    then show ?thesis by (simp add: ac_def fresh_acc_def)
  next
    case (Some x)
    note x = accs_soundD [OF snd Some]
    have "?g = ac_group x" using x(1,2) len key_inj [of ?g "ac_group x"] by simp
    then show ?thesis using x Some by (simp add: ac_def)
  qed
  have "accs_sound M S a r accs"
    unfolding accs_def
  proof (rule accs_sound_update [OF snd])
    show "key ?g = key (ac_group ac')" "length (ac_group ac') = length (l_args (ru_head r))" "ac_pos ac' = ?p"
      using grp len by (simp_all add: ac'_def)
    show "ac_group ac' \<in> fst ` agg_pairs M S a r" using grp pair by (force simp: ac'_def)
    show "attained (ag_fn a) ac' (agg_pairs M S a r `` {ac_group ac'})"
      using acc_update_attained [OF fn int, of "agg_pairs M S a r `` {?g}" ac ?g ?p] grp pair by (simp add: ac'_def)
  qed
  moreover have "(?g, ?v) \<in> agg_covered (ag_fn a) e1"
    using acc_update_covers(1) [OF fn int] grp
    by (simp add: agg_covered_def e1 accs_def update_conv ac'_def)
  moreover have "agg_covered (ag_fn a) e \<subseteq> agg_covered (ag_fn a) e1"
  proof
    fix x assume x: "x \<in> agg_covered (ag_fn a) e"
    obtain g v where gv: "x = (g, v)" by (cases x)
    from x gv obtain b where b: "map_of (en_agg e) (key g) = Some b" "ac_group b = g" "covers (ag_fn a) b v"
      by (auto simp: agg_covered_def)
    show "x \<in> agg_covered (ag_fn a) e1"
    proof (cases "key g = key ?g")
      case True
      then have "ac = b" using b by (simp add: ac_def)
      then show ?thesis using b True gv acc_update_covers(2) [OF fn int]
        by (simp add: agg_covered_def e1 accs_def update_conv ac'_def)
    next
      case False
      then show ?thesis using b gv by (simp add: agg_covered_def e1 accs_def update_conv)
    qed
  qed
  ultimately show ?thesis using e1 by blast
qed

section \<open>The join of an aggregate rule\<close>

lemma bu_inv_agg [simp]: "bu_inv M ar e0 bu (e\<lparr>en_agg := x\<rparr>) = bu_inv M ar e0 bu e"
  by (simp add: bu_inv_def same_prog_def tables_ok_def bu_ok_def mentioned_def derived_def tb_complete_def)

lemma grows_agg [simp]: "grows e (e'\<lparr>en_agg := x\<rparr>) = grows e e'" "grows (e\<lparr>en_agg := x\<rparr>) e' = grows e e'"
  by (simp_all add: grows_def same_prog_def)

lemma trows_agg [simp]: "trows (e\<lparr>en_agg := x\<rparr>) k = trows e k"
  by (simp add: trows_def)

lemma bu_rows_agg [simp]: "bu_rows bu (e\<lparr>en_agg := x\<rparr>) = bu_rows bu e"
  by (intro ext) (simp add: bu_rows_def bu_source_def full_rel_def cong: option.case_cong)

definition agg_inv :: "interp \<Rightarrow> (string \<Rightarrow> nat) \<Rightarrow> engine \<Rightarrow> bottomUp \<Rightarrow> rule \<Rightarrow> aggSpec \<Rightarrow> engine \<Rightarrow> bool" where
  "agg_inv M ar e0 bu r a e \<longleftrightarrow> bu_inv M ar e0 bu e \<and> r \<in> set (en_ruleOrder e0) \<and> ru_agg r = Some a
     \<and> accs_sound M (en_syms e0) a r (en_agg e)"

definition agg_le :: "aggSpec \<Rightarrow> engine \<Rightarrow> engine \<Rightarrow> bool" where
  "agg_le a e e' \<longleftrightarrow> grows e e' \<and> agg_covered (ag_fn a) e \<subseteq> agg_covered (ag_fn a) e'"

interpretation bu_agg: rule_emission "bu_body bu" "\<lambda>l. l \<in> set (ru_body r)" "agg_inv M ar e0 bu r a" "agg_le a" "en_syms e0"
  "bu_rows bu" "\<lambda>_ l. M (l_rel l)" "\<lambda>l. M (l_rel l)" r "replicate (lit_arity (ru_head r)) None"
  tk "agg_covered (ag_fn a)" "\<lambda>\<theta>. (agg_group a r \<theta>, \<theta> (ag_inSlot a))" "\<lambda>_. True"
  for bu r a M ar e0 tk
proof (unfold_locales)
  show "agg_le a e e" for e by (simp add: agg_le_def)
  show "agg_le a e1 e2 \<Longrightarrow> agg_le a e2 e3 \<Longrightarrow> agg_le a e1 e3" for e1 e2 e3
    unfolding agg_le_def using grows_trans by blast
  show "\<forall>l \<in> set (ru_body r). l \<in> set (ru_body r)" by simp
  show "agg_le a e1 e2 \<Longrightarrow> agg_covered (ag_fn a) e1 \<subseteq> agg_covered (ag_fn a) e2" for e1 e2 by (simp add: agg_le_def)
  fix e
  assume inv: "agg_inv M ar e0 bu r a e"
  then have bu: "bu_inv M ar e0 bu e" and r: "r \<in> set (en_ruleOrder e0)" and ag: "ru_agg r = Some a"
    and acc: "accs_sound M (en_syms e0) a r (en_agg e)"
    by (simp_all add: agg_inv_def)
  note d = bu_invD [OF bu]
  show "en_syms e = en_syms e0" "\<not> en_recordProv e" using d by simp_all
  show "agg_le a e e2 \<Longrightarrow> bu_rows bu e p l \<subseteq> bu_rows bu e2 p l" for e2 p l
    using bu_rows_mono [OF bu] by (simp add: agg_le_def)
  show "agg_inv M ar e0 bu r a e1 \<and> agg_le a e e1
      \<and> (\<forall>t \<in> set cands. length t = length (l_args l) \<and> t \<in> M (l_rel l))
      \<and> (\<forall>t \<in> bu_rows bu e p l. matches t bs \<longrightarrow> t \<in> set cands)"
    if "l \<in> set (ru_body r)" "\<not> is_builtin (l_rel l)" "length bs = length (l_args l)"
      "bs_lit (bu_body bu) p l bs e = Inr (cands, e1)" for l bs p cands e1
  proof -
    from that(4) have "bu_litTuples bu p l bs e = Inr (cands, e1)" by (simp add: bu_body_def)
    from bu_lit_result [OF bu inv_rule_lit [OF d(2) r that(1,2)] that(3) this] inv show ?thesis
      by (simp add: agg_le_def)
  qed
  show "agg_inv M ar e0 bu r a e1 \<and> agg_le a e e1 \<and> (found \<longleftrightarrow> (\<exists>t \<in> M (l_rel l). matches t bs))
      \<and> (\<forall>t \<in> M (l_rel l). length t = length (l_args l))"
    if "l \<in> set (ru_body r)" "\<not> is_builtin (l_rel l)" "length bs = length (l_args l)"
      "bs_neg (bu_body bu) l bs e = Inr (found, e1)" for l bs found e1
  proof -
    from that(4) have "bu_negated bu l bs e = Inr (found, e1)" by (simp add: bu_body_def)
    from bu_neg_result [OF bu inv_rule_lit [OF d(2) r that(1,2)] that(3) this] inv show ?thesis
      by (simp add: agg_le_def)
  qed
  show "agg_inv M ar e0 bu r a e1 \<and> agg_le a e e1
      \<and> (True \<longrightarrow> (agg_group a r \<theta>, \<theta> (ag_inSlot a)) \<in> agg_covered (ag_fn a) e1)"
    if fr: "frame_ok (ru_nvars r) fr" "agrees \<theta> fr" "bound_after {} (ru_body r) \<subseteq> bound fr"
      and sat: "holds M M (en_syms e0) (ru_body r) \<theta>"
      and run: "join_emit r (replicate (lit_arity (ru_head r)) None) tk fr steps e = Inr e1"
    for fr \<theta> steps e1
  proof -
    have ro: "rule_ok ar r" using d(2) r by (simp add: prog_ok_def)
    from run ag have "aggCollect r a fr steps e = Inr e1" by (simp add: join_emit_def)
    from aggCollect_effect [OF ro ag fr sat acc this] inv show ?thesis
      by (auto simp: agg_inv_def agg_le_def)
  qed
qed

section \<open>Flushing the groups\<close>

lemma sort_groups_set: "sort_groups S acs = Inr acs' \<Longrightarrow> set acs' = set acs"
  by (auto simp: sort_groups_def split: if_splits)

lemma flush_one_effect:
  assumes inv: "bu_inv M ar e0 bu e" and m: "mentioned e0 rel"
    and res: "acc_result (ag_fn a) ac = Some n" and pos: "ac_pos ac = Some p"
    and row: "(ac_group ac)[p := intSymFlag OR of_int n] \<in> M rel"
    and run: "flush_one r a (fkey ar rel) ac e = Inr e1"
  shows "bu_inv M ar e0 bu e1 \<and> grows e e1
    \<and> (ac_group ac)[p := intSymFlag OR of_int n] \<in> set (trows e1 (fkey ar rel))"
proof -
  have "record_tuple (fkey ar rel) ((ac_group ac)[p := intSymFlag OR of_int n]) None (ru_name r) e = Inr e1"
    using run res pos bu_invD(10) [OF inv] by (simp add: flush_one_def Let_def)
  from record_inv [OF inv m row this] show ?thesis by simp
qed

lemma flush_effect:
  assumes inv: "bu_inv M ar e0 bu e" and m: "mentioned e0 rel"
    and all: "\<And>ac. ac \<in> set acs \<Longrightarrow> \<exists>n p. acc_result (ag_fn a) ac = Some n \<and> ac_pos ac = Some p
      \<and> (ac_group ac)[p := intSymFlag OR of_int n] = row ac \<and> row ac \<in> M rel"
    and run: "foldE (flush_one r a (fkey ar rel)) acs e = Inr e1"
  shows "bu_inv M ar e0 bu e1 \<and> grows e e1 \<and> (\<forall>ac \<in> set acs. row ac \<in> set (trows e1 (fkey ar rel)))"
proof -
  have one: "bu_inv M ar e0 bu y \<and> grows x y \<and> row ac \<in> set (trows y (fkey ar rel))"
    if "ac \<in> set acs" "bu_inv M ar e0 bu x" "flush_one r a (fkey ar rel) ac x = Inr y" for ac x y
  proof -
    from all [OF that(1)] obtain n p where np: "acc_result (ag_fn a) ac = Some n" "ac_pos ac = Some p"
      "(ac_group ac)[p := intSymFlag OR of_int n] = row ac" "row ac \<in> M rel" by blast
    show ?thesis using flush_one_effect [OF that(2) m np(1,2) _ that(3)] np by simp
  qed
  have "bu_inv M ar e0 bu e1 \<and> grows e e1"
    by (rule foldE_rel [OF run, of "bu_inv M ar e0 bu" grows]) (use inv one grows_trans grows_refl in blast)+
  moreover have "row ac \<in> set (trows e1 (fkey ar rel))" if ac: "ac \<in> set acs" for ac
  proof (rule foldE_effect [OF run, of "bu_inv M ar e0 bu" ac])
    show "bu_inv M ar e0 bu e" "ac \<in> set acs" by (rule inv, rule ac)
    show "bu_inv M ar e0 bu b" if "y \<in> set acs" "bu_inv M ar e0 bu x" "flush_one r a (fkey ar rel) y x = Inr b" for x y b
      using one [OF that] by simp
    show "row ac \<in> set (trows b (fkey ar rel))" if "bu_inv M ar e0 bu x" "flush_one r a (fkey ar rel) ac x = Inr b" for x b
      using one [OF ac that] by simp
    show "row ac \<in> set (trows b (fkey ar rel))"
      if "y \<in> set acs" "bu_inv M ar e0 bu x" "row ac \<in> set (trows x (fkey ar rel))"
        "flush_one r a (fkey ar rel) y x = Inr b" for x y b
      using one [OF that(1,2,4)] that(3) grows_trows set_mono_prefix by blast
  qed
  ultimately show ?thesis by blast
qed

text \<open>
  The join of an aggregate rule whose inputs are complete: it covers every pair of a group and an
  input value, so every accumulator holds the final result of its group.
\<close>

lemma agg_join_effect:
  assumes inv: "bu_inv M ar e0 bu e" and r: "r \<in> set (en_ruleOrder e0)" "ru_agg r = Some a"
    and reads: "\<And>p l. l \<in> set (ru_body r) \<Longrightarrow> pos_lit l \<Longrightarrow> M (l_rel l) \<subseteq> bu_rows bu e p l"
    and j: "join (bu_body bu) r (replicate (lit_arity (ru_head r)) None) tk (ru_body r) 0
      (newFrame (ru_nvars r)) [] (e\<lparr>en_agg := []\<rparr>) = Inr e1"
  shows "bu_inv M ar e0 bu e1" "accs_sound M (en_syms e0) a r (en_agg e1)" "grows e e1"
    "\<forall>x \<in> agg_pairs M (en_syms e0) a r. x \<in> agg_covered (ag_fn a) e1"
proof -
  let ?S = "en_syms e0"
  note d = bu_invD [OF inv]
  have ro: "rule_ok ar r" using d(2) r by (simp add: prog_ok_def)
  have n: "frame_ok (ru_nvars r) (newFrame (ru_nvars r))" using ro by (intro frame_ok_new) (simp add: rule_ok_def)
  have "agg_inv M ar e0 bu r a (e\<lparr>en_agg := []\<rparr>)" using inv r by (simp add: agg_inv_def accs_sound_def)
  from bu_agg.join_good [OF this n, of "[]" "ru_body r", OF _ _ _ _ _ j] ro
  have good: "bu_agg.good M ar e0 bu r a (ru_body r) 0 (newFrame (ru_nvars r)) (e\<lparr>en_agg := []\<rparr>) e1"
    by (simp add: rule_ok_def)
  then show "bu_inv M ar e0 bu e1" "accs_sound M ?S a r (en_agg e1)" "grows e e1"
    by (simp_all add: bu_agg.good_def agg_inv_def agg_le_def)
  show "\<forall>x \<in> agg_pairs M ?S a r. x \<in> agg_covered (ag_fn a) e1"
  proof
    fix x
    assume "x \<in> agg_pairs M ?S a r"
    then obtain \<theta> where \<theta>: "holds M M ?S (ru_body r) \<theta>" "x = (agg_group a r \<theta>, \<theta> (ag_inSlot a))"
      by (auto simp: agg_pairs_def)
    have "sat (bu_rows bu e) (\<lambda>l. M (l_rel l)) ?S 0 (ru_body r) \<theta>"
      unfolding sat_nth
    proof (intro allI impI)
      fix i assume i: "i < length (ru_body r)"
      then have "lit_sat (\<lambda>_ l. M (l_rel l)) (\<lambda>l. M (l_rel l)) ?S (0 + i) (ru_body r ! i) \<theta>"
        using \<theta>(1) unfolding sat_nth by blast
      then show "lit_sat (bu_rows bu e) (\<lambda>l. M (l_rel l)) ?S (0 + i) (ru_body r ! i) \<theta>"
        using reads [OF nth_mem [OF i], of i] by (auto simp: lit_sat_def pos_lit_def)
    qed
    then show "x \<in> agg_covered (ag_fn a) e1" using good \<theta>(2) by (simp add: bu_agg.good_def)
  qed
qed

lemma acc_in_accs:
  assumes "accs_sound M S a r accs"
  shows "ac \<in> snd ` set accs \<longleftrightarrow> map_of accs (key (ac_group ac)) = Some ac"
proof -
  have dist: "distinct (map fst accs)" using assms by (simp add: accs_sound_def)
  have "ac \<in> snd ` set accs \<longleftrightarrow> (\<exists>j. (j, ac) \<in> set accs)" by force
  also have "\<dots> \<longleftrightarrow> (key (ac_group ac), ac) \<in> set accs" using assms by (auto simp: accs_sound_def)
  finally show ?thesis using dist by simp
qed

lemma acc_final:
  assumes fn: "isAggName (ag_fn a)" and M: "engine_model e0 M" and r: "r \<in> set (en_ruleOrder e0)" "ru_agg r = Some a"
    and snd: "accs_sound M (en_syms e0) a r (en_agg e1)"
    and cov: "\<forall>x \<in> agg_pairs M (en_syms e0) a r. x \<in> agg_covered (ag_fn a) e1" and ac: "ac \<in> snd ` set (en_agg e1)"
  shows "\<exists>n p. acc_result (ag_fn a) ac = Some n \<and> ac_pos ac = Some p
    \<and> (ac_group ac)[p := intSymFlag OR of_int n] = agg_row a r (ac_group ac) (agg_pairs M (en_syms e0) a r `` {ac_group ac})
    \<and> agg_row a r (ac_group ac) (agg_pairs M (en_syms e0) a r `` {ac_group ac}) \<in> M (l_rel (ru_head r))"
proof -
  let ?P = "agg_pairs M (en_syms e0) a r"
  have mo: "map_of (en_agg e1) (key (ac_group ac)) = Some ac" using ac acc_in_accs [OF snd] by simp
  note sd = accs_soundD [OF snd mo]
  have cv: "covers (ag_fn a) ac v" if "v \<in> ?P `` {ac_group ac}" for v
    using bspec [OF cov, of "(ac_group ac, v)"] that mo by (auto simp: agg_covered_def)
  have "acc_result (ag_fn a) ac = Some (agg_val (ag_fn a) (?P `` {ac_group ac}))"
    by (rule acc_exact [OF fn sd(5) cv])
  moreover have "agg_row a r (ac_group ac) (?P `` {ac_group ac}) \<in> agg_rows M (en_syms e0) a r"
    using sd(4) by (auto simp: agg_rows_def)
  then have "agg_row a r (ac_group ac) (?P `` {ac_group ac}) \<in> M (l_rel (ru_head r))"
    using perfect_aggr [OF _ r] M by (auto simp: engine_model_def)
  ultimately show ?thesis using sd(3) by (simp add: agg_row_def)
qed

lemma fire_agg:
  assumes inv: "bu_inv M ar e0 bu e" and r: "r \<in> set (en_ruleOrder e0)" "ru_agg r = Some a"
    and full: "bu_full bu (l_rel (ru_head r)) \<noteq> None" and run: "fire_rule bu r e = Inr e'"
    and reads: "\<And>p l. l \<in> set (ru_body r) \<Longrightarrow> pos_lit l \<Longrightarrow> M (l_rel l) \<subseteq> bu_rows bu e p l"
  shows "bu_inv M ar e0 bu e' \<and> grows e e'
    \<and> agg_rows M (en_syms e0) a r \<subseteq> set (trows e' (fkey ar (l_rel (ru_head r))))"
proof -
  let ?S = "en_syms e0" and ?h = "l_rel (ru_head r)"
  let ?P = "agg_pairs M ?S a r"
  note d = bu_invD [OF inv]
  have ro: "rule_ok ar r" using d(2) r by (simp add: prog_ok_def)
  have fn: "isAggName (ag_fn a)" using ro r by (simp add: rule_ok_def agg_ok_def)
  have k: "head_key bu ?h = fkey ar ?h" using full d(6) by (auto simp: head_key_def bu_ok_def)
  from run r(2) obtain e1 e2 where
    j: "join (bu_body bu) r (replicate (lit_arity (ru_head r)) None) (fkey ar ?h) (ru_body r) 0
      (newFrame (ru_nvars r)) [] (e\<lparr>en_agg := []\<rparr>) = Inr e1"
    and fl: "flushAgg r a (fkey ar ?h) e1 = Inr e2" and e': "e' = e2\<lparr>en_agg := en_agg e\<rparr>"
    by (auto simp: fire_rule_def evalRule_def k)
  note e1 = agg_join_effect [OF inv r reads j]
  define row where "row ac = agg_row a r (ac_group ac) (?P `` {ac_group ac})" for ac :: aggAcc
  from fl obtain acs where acs: "sort_groups (en_syms e1) (map snd (en_agg e1)) = Inr acs"
    and fo: "foldE (flush_one r a (fkey ar ?h)) acs e1 = Inr e2" by (auto simp: flushAgg_def)
  have acs_set: "set acs = snd ` set (en_agg e1)" using sort_groups_set [OF acs] by simp
  have exact: "\<exists>n p. acc_result (ag_fn a) ac = Some n \<and> ac_pos ac = Some p
      \<and> (ac_group ac)[p := intSymFlag OR of_int n] = row ac \<and> row ac \<in> M ?h" if "ac \<in> set acs" for ac
    using acc_final [OF fn d(3) r e1(2,4)] that unfolding acs_set row_def by blast
  note fe = flush_effect [OF e1(1) rule_mentions(1) [OF r(1)] exact fo]
  have "agg_rows M ?S a r \<subseteq> set (trows e2 (fkey ar ?h))"
  proof
    fix t assume "t \<in> agg_rows M ?S a r"
    then obtain g v where g: "(g, v) \<in> ?P" "t = agg_row a r g (?P `` {g})" by (auto simp: agg_rows_def)
    from bspec [OF e1(4) g(1)] obtain ac where "map_of (en_agg e1) (key g) = Some ac" "ac_group ac = g"
      by (auto simp: agg_covered_def)
    then have "ac \<in> set acs" "t = row ac" using acc_in_accs [OF e1(2), of ac] g(2) by (auto simp: row_def acs_set)
    then show "t \<in> set (trows e2 (fkey ar ?h))" using fe by blast
  qed
  then show ?thesis using fe e' e1(3) grows_trans by auto
qed

end
