(* ===== verification/Component.thy ===== *)
theory Component
  imports Aggregate
begin

text \<open>
  \<open>evalComponent\<close> computes the perfect model on its component. Soundness is the invariant that
  every recorded row is in the model; completeness is that the rows are closed under the rules
  when the rounds stop, which the semi-naive rounds maintain up to the marked prefix of each table.
\<close>

section \<open>Opening the tables\<close>

lemma bu_inv_pos [simp]: "bu_inv M ar e0 (bu\<lparr>bu_pos := x\<rparr>) e = bu_inv M ar e0 bu e"
  by (simp add: bu_inv_def bu_ok_def)

lemma arityOf_derived:
  assumes "prog_ok ar e" "derived e rel"
  shows "arityOf e rel = Inr (int (ar rel))"
proof -
  from assms(2) obtain r rs where rs: "en_rules e rel = r # rs" by (cases "en_rules e rel") (auto simp: derived_def)
  then have "r \<in> set (filter (\<lambda>r. l_rel (ru_head r) = rel) (en_ruleOrder e))"
    using assms(1) by (metis list.set_intros(1) prog_ok_def)
  then show ?thesis using assms(1) rs by (auto simp: arityOf_def lit_arity_def prog_ok_def rule_ok_def)
qed

lemma arityOf_same: "same_prog e0 e \<Longrightarrow> arityOf e rel = arityOf e0 rel"
  by (simp add: arityOf_def same_prog_def cong: list.case_cong)

lemma freeTable_inv:
  assumes inv: "bu_inv M ar e0 bu e" and d: "derived e0 rel" and ft: "freeTable e rel (ar rel) = (k, e1)"
  shows "k = fkey ar rel \<and> en_tables e1 k \<noteq> None \<and> grows e e1 \<and> bu_inv M ar e0 bu e1"
proof (cases "en_tables e (fkey ar rel)")
  case (Some t)
  then show ?thesis using ft inv by (auto simp: freeTable_def Let_def)
next
  case None
  note iv = bu_invD [OF inv]
  define t where "t = \<lparr>tb_rel = newRelation rel (int (ar rel)), tb_state = TDirty\<rparr>"
  have k: "k = fkey ar rel" and e1: "e1 = e\<lparr>en_tables := (en_tables e)(fkey ar rel \<mapsto> t)\<rparr>"
    using ft None by (auto simp: freeTable_def Let_def t_def)
  have sp: "same_prog e e1" by (simp add: e1 same_prog_def)
  have g: "grows e e1" using sp None by (auto simp: grows_def e1)
  have "table_ok M (ar rel) rel t" by (simp add: table_ok_def t_def newRelation_ok)
  then have "tables_ok M ar e1" using tables_ok_update [OF iv(5) _ _ sp, of rel t] by (simp add: e1)
  then show ?thesis using bu_inv_grows [OF inv g] g k e1 by simp
qed

text \<open>What the first loop has established after some of the component's relations.\<close>

definition opened :: "interp \<Rightarrow> (string \<Rightarrow> nat) \<Rightarrow> engine \<Rightarrow> bottomUp \<Rightarrow> string list \<Rightarrow> bottomUp \<times> string list \<times> engine \<Rightarrow> bool" where
  "opened M ar e0 bu0 rels s \<longleftrightarrow>
     (case s of (bu, pend, e) \<Rightarrow>
        bu_inv M ar e0 bu e \<and> set pend \<subseteq> set rels
        \<and> (\<forall>rel \<in> set rels. bu_full bu rel = Some (fkey ar rel) \<and> (rel \<notin> set pend \<longrightarrow> bu_complete bu rel))
        \<and> (\<forall>rel \<in> set pend. \<not> tb_complete e (fkey ar rel))
        \<and> (\<forall>rel. bu_complete bu0 rel \<longrightarrow> bu_complete bu rel)
        \<and> (\<forall>rel. bu_complete bu rel \<longrightarrow> bu_complete bu0 rel \<or> rel \<in> set rels)
        \<and> bu_delta bu = bu_delta bu0)"

lemma bu_ok_full:
  assumes "bu_inv M ar e0 bu e" "derived e0 rel" "en_tables e (fkey ar rel) \<noteq> None"
  shows "bu_inv M ar e0 (bu\<lparr>bu_full := (bu_full bu)(rel \<mapsto> fkey ar rel)\<rparr>) e"
    and "tb_complete e (fkey ar rel) \<Longrightarrow>
      bu_inv M ar e0 (bu\<lparr>bu_full := (bu_full bu)(rel \<mapsto> fkey ar rel), bu_complete := (bu_complete bu)(rel := True)\<rparr>) e"
  using assms bu_invD(12) [OF assms(1)] by (auto simp: bu_inv_def bu_ok_def)

lemma comp_open_step:
  assumes op: "opened M ar e0 bu0 rels s" and d: "derived e0 rel" and run: "comp_open rel s = Inr s'"
  shows "opened M ar e0 bu0 (rels @ [rel]) s'"
proof -
  obtain bu pend e where s: "s = (bu, pend, e)" by (metis prod_cases3)
  note o = op [unfolded opened_def s prod.case]
  have inv: "bu_inv M ar e0 bu e" using o by blast
  note iv = bu_invD [OF inv]
  obtain k e1 where ft: "freeTable e rel (ar rel) = (k, e1)" by (rule prod.exhaust)
  note f = freeTable_inv [OF inv d ft]
  have ar: "arityOf e rel = Inr (int (ar rel))" using arityOf_derived [OF iv(2) d] arityOf_same [OF iv(1)] by simp
  have tbc: "tb_complete e1 k' \<longleftrightarrow> tb_complete e k'" for k'
  proof
    assume "tb_complete e1 k'"
    then show "tb_complete e k'"
      using ft by (auto simp: freeTable_def Let_def tb_complete_def split: option.splits if_splits)
  qed (use f grows_complete in blast)
  have inv1: "bu_inv M ar e0 bu e1" and tab: "en_tables e1 (fkey ar rel) \<noteq> None" and k: "k = fkey ar rel" using f by auto
  show ?thesis
  proof (cases "tb_complete e1 k")
    case True
    then have s': "s' = (bu\<lparr>bu_full := (bu_full bu)(rel \<mapsto> fkey ar rel), bu_complete := (bu_complete bu)(rel := True)\<rparr>, pend, e1)"
      using run by (simp add: comp_open_def s ar ft k)
    show ?thesis
      using bu_ok_full(2) [OF inv1 d tab] True k o tbc unfolding opened_def s' prod.case by auto
  next
    case False
    then have s': "s' = (bu\<lparr>bu_full := (bu_full bu)(rel \<mapsto> fkey ar rel)\<rparr>, pend @ [rel], e1)"
      using run by (simp add: comp_open_def s ar ft k)
    show ?thesis
      using bu_ok_full(1) [OF inv1 d tab] False k o tbc unfolding opened_def s' prod.case by auto
  qed
qed

lemma comp_open_all:
  assumes "opened M ar e0 bu0 done s" "\<forall>rel \<in> set rels. derived e0 rel" "foldE comp_open rels s = Inr s'"
  shows "opened M ar e0 bu0 (done @ rels) s'"
  using assms
proof (induction rels arbitrary: "done" s)
  case (Cons rel rels)
  from Cons.prems(3) obtain s1 where s1: "comp_open rel s = Inr s1" "foldE comp_open rels s1 = Inr s'" by auto
  have "opened M ar e0 bu0 (done @ [rel]) s1" using comp_open_step [OF Cons.prems(1) _ s1(1)] Cons.prems(2) by simp
  from Cons.IH [OF this _ s1(2)] Cons.prems(2) show ?case by simp
qed simp

section \<open>Seeding the facts\<close>

lemma set_state_frame:
  "same_prog e (set_state k s e)" "trows (set_state k s e) j = trows e j"
  "en_tables (set_state k s e) j = (if j = k then map_option (\<lambda>t. t\<lparr>tb_state := s\<rparr>) (en_tables e k) else en_tables e j)"
  "tb_complete (set_state k s e) j = (if j = k then en_tables e k \<noteq> None \<and> s = TComplete else tb_complete e j)"
  by (auto simp: set_state_def same_prog_def trows_def tb_complete_def split: option.splits)

lemma set_state_inv:
  assumes inv: "bu_inv M ar e0 bu e" and st: "s = TComplete \<and> set (trows e (fkey ar rel)) = M rel \<or> s \<noteq> TComplete \<and> \<not> bu_complete bu rel"
  shows "bu_inv M ar e0 bu (set_state (fkey ar rel) s e)"
proof -
  note iv = bu_invD [OF inv]
  let ?e = "set_state (fkey ar rel) s e"
  have sp: "same_prog e ?e" by (rule set_state_frame(1))
  have "tables_ok M ar ?e"
    unfolding tables_ok_def mentioned_same [OF sp]
  proof (intro allI impI)
    fix rl t
    assume m: "mentioned e rl" and t: "en_tables ?e (fkey ar rl) = Some t"
    show "table_ok M (ar rl) rl t"
    proof (cases "rl = rel")
      case True
      with t obtain t0 where t0: "en_tables e (fkey ar rel) = Some t0" "t = t0\<lparr>tb_state := s\<rparr>"
        by (auto simp: set_state_frame)
      then have "table_ok M (ar rel) rel t0" using iv(5) m True by (simp add: tables_ok_def)
      then show ?thesis using t0 st True by (auto simp: table_ok_def trows_def)
    next
      case False
      then have "fkey ar rl \<noteq> fkey ar rel" using fkey_inj by blast
      then show ?thesis using t iv(5) m by (simp add: set_state_frame tables_ok_def)
    qed
  qed
  moreover have "bu_ok M ar bu ?e"
    using iv(6) st derived_same [OF sp] by (auto simp: bu_ok_def set_state_frame dest: fkey_inj)
  ultimately show ?thesis using inv same_prog_trans [OF iv(1) sp] by (simp add: bu_inv_def)
qed

definition row_grows :: "engine \<Rightarrow> engine \<Rightarrow> bool" where
  "row_grows e e' \<longleftrightarrow> (\<forall>k. prefix (trows e k) (trows e' k))"

lemma row_grows_trans: "row_grows a b \<Longrightarrow> row_grows b c \<Longrightarrow> row_grows a c"
  unfolding row_grows_def using prefix_order.trans by blast

lemma grows_row_grows: "grows a b \<Longrightarrow> row_grows a b"
  by (simp add: row_grows_def grows_trows)

lemma record_all:
  assumes inv: "bu_inv M ar e0 bu e" and m: "mentioned e0 rel" and M: "set ts \<subseteq> M rel"
    and run: "foldE (\<lambda>tup. record_tuple (fkey ar rel) tup None nm) ts e = Inr e1"
  shows "bu_inv M ar e0 bu e1 \<and> grows e e1 \<and> set ts \<subseteq> set (trows e1 (fkey ar rel))"
proof -
  have one: "bu_inv M ar e0 bu b \<and> grows a b \<and> t \<in> set (trows b (fkey ar rel))"
    if "t \<in> set ts" "bu_inv M ar e0 bu a" "record_tuple (fkey ar rel) t None nm a = Inr b" for t a b
    using record_inv [OF that(2) m _ that(3)] that(1) M by blast
  have "bu_inv M ar e0 bu e1 \<and> grows e e1"
    by (rule foldE_rel [OF run, of "bu_inv M ar e0 bu" grows]) (use inv one grows_trans grows_refl in blast)+
  moreover have "t \<in> set (trows e1 (fkey ar rel))" if t: "t \<in> set ts" for t
  proof (rule foldE_effect [OF run, of "bu_inv M ar e0 bu" t])
    show "bu_inv M ar e0 bu e" "t \<in> set ts" by (rule inv, rule t)
    show "bu_inv M ar e0 bu b" if "y \<in> set ts" "bu_inv M ar e0 bu x" "record_tuple (fkey ar rel) y None nm x = Inr b" for x y b
      using one [OF that] by simp
    show "t \<in> set (trows b (fkey ar rel))" if "bu_inv M ar e0 bu x" "record_tuple (fkey ar rel) t None nm x = Inr b" for x b
      using one [OF t that] by simp
    show "t \<in> set (trows b (fkey ar rel))"
      if "y \<in> set ts" "bu_inv M ar e0 bu x" "t \<in> set (trows x (fkey ar rel))" "record_tuple (fkey ar rel) y None nm x = Inr b" for x y b
      using one [OF that(1,2,4)] that(3) grows_trows set_mono_prefix by blast
  qed
  ultimately show ?thesis by blast
qed

lemma seed_step:
  assumes inv: "bu_inv M ar e0 bu e" and rel: "bu_full bu rel = Some (fkey ar rel)" "\<not> bu_complete bu rel"
    and run: "seed_rel bu rel e = Inr e1"
  shows "bu_inv M ar e0 bu e1 \<and> row_grows e e1 \<and> facts e0 rel \<subseteq> set (trows e1 (fkey ar rel))"
proof -
  note iv = bu_invD [OF inv]
  let ?e = "set_state (fkey ar rel) TProducing e"
  have inv': "bu_inv M ar e0 bu ?e" using set_state_inv [OF inv] rel(2) by blast
  have rg: "row_grows e ?e" by (simp add: row_grows_def set_state_frame)
  have m: "mentioned e0 rel"
    using iv(6) rel(1) derived_mentioned [OF iv(2)] unfolding bu_ok_def iv(12) by blast
  have base: "en_base ?e = en_base e0" using bu_invD(8) [OF inv'] .
  show ?thesis
  proof (cases "en_base e0 rel")
    case None
    then show ?thesis using run rel inv' rg base by (simp add: seed_rel_def head_key_def facts_def)
  next
    case (Some br)
    with run rel base have "foldE (\<lambda>tup. record_tuple (fkey ar rel) tup None []) (r_tuples br) ?e = Inr e1"
      by (simp add: seed_rel_def head_key_def Let_def)
    from record_all [OF inv' m model_has_facts [OF iv(3) Some] this] Some show ?thesis
      using row_grows_trans [OF rg] grows_row_grows by (simp add: facts_def)
  qed
qed

lemma seed_all:
  assumes inv: "bu_inv M ar e0 bu e"
    and rels: "\<forall>rel \<in> set pend. bu_full bu rel = Some (fkey ar rel) \<and> \<not> bu_complete bu rel"
    and run: "foldE (seed_rel bu) pend e = Inr e1"
  shows "bu_inv M ar e0 bu e1 \<and> (\<forall>rel \<in> set pend. facts e0 rel \<subseteq> set (trows e1 (fkey ar rel)))"
proof -
  have one: "bu_inv M ar e0 bu b \<and> row_grows a b \<and> facts e0 rel \<subseteq> set (trows b (fkey ar rel))"
    if "rel \<in> set pend" "bu_inv M ar e0 bu a" "seed_rel bu rel a = Inr b" for rel a b
    using seed_step [OF that(2) _ _ that(3)] rels that(1) by blast
  have "bu_inv M ar e0 bu e1"
    by (rule foldE_inv [OF run, of "bu_inv M ar e0 bu"]) (use inv one in blast)+
  moreover have "facts e0 rel \<subseteq> set (trows e1 (fkey ar rel))" if rel: "rel \<in> set pend" for rel
  proof (rule foldE_effect [OF run, of "bu_inv M ar e0 bu" rel])
    show "bu_inv M ar e0 bu e" "rel \<in> set pend" by (rule inv, rule rel)
    show "bu_inv M ar e0 bu b" if "y \<in> set pend" "bu_inv M ar e0 bu x" "seed_rel bu y x = Inr b" for x y b
      using one [OF that] by simp
    show "facts e0 rel \<subseteq> set (trows b (fkey ar rel))" if "bu_inv M ar e0 bu x" "seed_rel bu rel x = Inr b" for x b
      using one [OF rel that] by simp
    show "facts e0 rel \<subseteq> set (trows b (fkey ar rel))"
      if "y \<in> set pend" "bu_inv M ar e0 bu x" "facts e0 rel \<subseteq> set (trows x (fkey ar rel))" "seed_rel bu y x = Inr b" for x y b
      using one [OF that(1,2,4)] that(3) set_mono_prefix unfolding row_grows_def by blast
  qed
  ultimately show ?thesis by blast
qed

section \<open>What the rules of a component read\<close>

definition settled :: "engine \<Rightarrow> bottomUp \<Rightarrow> string \<Rightarrow> bool" where
  "settled e0 bu rel \<longleftrightarrow> \<not> derived e0 rel \<or> bu_complete bu rel"

text \<open>
  The order of the components guarantees: a rule of the component reads its pending relations or
  settled ones, and an aggregate rule reads settled ones only.
\<close>

definition comp_reads :: "engine \<Rightarrow> bottomUp \<Rightarrow> string list \<Rightarrow> string list \<Rightarrow> bool" where
  "comp_reads e0 bu rels pend \<longleftrightarrow> (\<forall>r \<in> set (en_ruleOrder e0). l_rel (ru_head r) \<in> set pend \<longrightarrow>
     (\<forall>l \<in> set (ru_body r). pos_lit l \<longrightarrow>
        (settled e0 bu (l_rel l) \<or> l_rel l \<in> set pend)
        \<and> (ru_agg r \<noteq> None \<longrightarrow> settled e0 bu (l_rel l) \<and> l_rel l \<notin> set rels)))"

definition comp_state :: "interp \<Rightarrow> (string \<Rightarrow> nat) \<Rightarrow> engine \<Rightarrow> bottomUp \<Rightarrow> string list \<Rightarrow> string list \<Rightarrow> engine \<Rightarrow> bool" where
  "comp_state M ar e0 bu rels pend e \<longleftrightarrow> bu_inv M ar e0 bu e \<and> set pend \<subseteq> set rels
     \<and> (\<forall>rel \<in> set rels. derived e0 rel) \<and> comp_reads e0 bu rels pend
     \<and> (\<forall>rel \<in> set pend. bu_full bu rel = Some (fkey ar rel) \<and> \<not> bu_complete bu rel)"

lemma settled_rows:
  assumes inv: "bu_inv M ar e0 bu e" and s: "settled e0 bu (l_rel l)" and p: "bu_pos bu \<noteq> Some p"
  shows "bu_rows bu e p l = M (l_rel l)"
proof -
  note iv = bu_invD [OF inv]
  show ?thesis
  proof (cases "derived e0 (l_rel l)")
    case False
    then have nf: "bu_full bu (l_rel l) = None"
      using iv(6) unfolding bu_ok_def iv(12) by (cases "bu_full bu (l_rel l)") auto
    have "l_rel l \<notin> head_rels (en_ruleOrder e0)" using False derived_iff [OF iv(2)] by simp
    then have "M (l_rel l) = facts e0 (l_rel l)" using iv(3) perfect_base_only by (auto simp: engine_model_def)
    then show ?thesis using nf p by (simp add: bu_rows_def bu_source_def full_rel_def iv(8) facts_def)
  next
    case True
    then have c: "bu_complete bu (l_rel l)" using s by (simp add: settled_def)
    then obtain k where k: "bu_full bu (l_rel l) = Some k" "tb_complete e (fkey ar (l_rel l))" using iv(6) by (auto simp: bu_ok_def)
    from inv k(1) obtain t where t: "k = fkey ar (l_rel l)" "en_tables e k = Some t" "table_ok M (ar (l_rel l)) (l_rel l) t"
      "full_rel bu e (l_rel l) = Some (tb_rel t)" by (rule full_table)
    then have "set (r_tuples (tb_rel t)) = M (l_rel l)" using k by (auto simp: tb_complete_def table_ok_def)
    then show ?thesis using t p by (simp add: bu_rows_def bu_source_def)
  qed
qed

lemma pending_rows:
  assumes inv: "bu_inv M ar e0 bu e" and f: "bu_full bu (l_rel l) = Some (fkey ar (l_rel l))" and p: "bu_pos bu \<noteq> Some p"
  shows "bu_rows bu e p l = set (trows e (fkey ar (l_rel l)))"
proof -
  from inv f obtain t where "fkey ar (l_rel l) = fkey ar (l_rel l)" "en_tables e (fkey ar (l_rel l)) = Some t"
    "table_ok M (ar (l_rel l)) (l_rel l) t" "full_rel bu e (l_rel l) = Some (tb_rel t)" by (rule full_table)
  then show ?thesis using p by (simp add: bu_rows_def bu_source_def trows_def)
qed

text \<open>Rows of a literal when only a prefix of each pending table counts.\<close>

definition upto :: "interp \<Rightarrow> (string \<Rightarrow> nat) \<Rightarrow> string list \<Rightarrow> (string \<Rightarrow> nat) \<Rightarrow> engine \<Rightarrow> nat \<Rightarrow> literal \<Rightarrow> itup set" where
  "upto M ar pend mark e p l =
     (if l_rel l \<in> set pend then set (take (mark (l_rel l)) (trows e (fkey ar (l_rel l)))) else M (l_rel l))"

definition closed_upto :: "interp \<Rightarrow> (string \<Rightarrow> nat) \<Rightarrow> engine \<Rightarrow> string list \<Rightarrow> (string \<Rightarrow> nat) \<Rightarrow> engine \<Rightarrow> bool" where
  "closed_upto M ar e0 pend mark e \<longleftrightarrow>
     (\<forall>r \<in> set (en_ruleOrder e0). l_rel (ru_head r) \<in> set pend \<longrightarrow> ru_agg r = None \<longrightarrow>
        (\<forall>\<theta>. sat (upto M ar pend mark e) (\<lambda>l. M (l_rel l)) (en_syms e0) 0 (ru_body r) \<theta> \<longrightarrow>
           inst \<theta> (ru_head r) \<in> set (trows e (fkey ar (l_rel (ru_head r))))))"

definition aggs_done :: "interp \<Rightarrow> (string \<Rightarrow> nat) \<Rightarrow> engine \<Rightarrow> string list \<Rightarrow> engine \<Rightarrow> bool" where
  "aggs_done M ar e0 pend e \<longleftrightarrow>
     (\<forall>r \<in> set (en_ruleOrder e0). \<forall>a. l_rel (ru_head r) \<in> set pend \<longrightarrow> ru_agg r = Some a \<longrightarrow>
        agg_rows M (en_syms e0) a r \<subseteq> set (trows e (fkey ar (l_rel (ru_head r)))))"

lemma sat_weaken:
  assumes "sat P N S 0 ls \<theta>"
    and "\<And>i. i < length ls \<Longrightarrow> pos_lit (ls ! i) \<Longrightarrow> inst \<theta> (ls ! i) \<in> P i (ls ! i) \<Longrightarrow> inst \<theta> (ls ! i) \<in> Q i (ls ! i)"
  shows "sat Q N S 0 ls \<theta>"
  using assms unfolding sat_nth by (auto simp: lit_sat_def pos_lit_def)

lemma sat_pos_nth: "sat P N S 0 ls \<theta> \<Longrightarrow> i < length ls \<Longrightarrow> pos_lit (ls ! i) \<Longrightarrow> inst \<theta> (ls ! i) \<in> P i (ls ! i)"
  unfolding sat_nth by (auto simp: lit_sat_def pos_lit_def)

section \<open>Firing the work list\<close>

text \<open>One firing of a rule of the component, at any position and delta.\<close>

lemma fire_step:
  assumes st: "comp_state M ar e0 bu rels pend e" and r: "r \<in> set (en_ruleOrder e0)" "l_rel (ru_head r) \<in> set pend"
    and agg: "ru_agg r \<noteq> None \<Longrightarrow> bu_pos bu = None" and run: "fire_rule bu r e = Inr e'"
  shows "comp_state M ar e0 bu rels pend e' \<and> grows e e'
    \<and> (ru_agg r = None \<longrightarrow> (\<forall>\<theta>. sat (bu_rows bu e) (\<lambda>l. M (l_rel l)) (en_syms e0) 0 (ru_body r) \<theta> \<longrightarrow>
         inst \<theta> (ru_head r) \<in> set (trows e' (fkey ar (l_rel (ru_head r))))))
    \<and> (\<forall>a. ru_agg r = Some a \<longrightarrow> agg_rows M (en_syms e0) a r \<subseteq> set (trows e' (fkey ar (l_rel (ru_head r)))))"
proof -
  have inv: "bu_inv M ar e0 bu e" and full: "bu_full bu (l_rel (ru_head r)) \<noteq> None"
    and reads: "comp_reads e0 bu rels pend" using st r by (auto simp: comp_state_def)
  show ?thesis
  proof (cases "ru_agg r")
    case None
    from fire_plain [OF inv r(1) None full run] st None show ?thesis by (simp add: comp_state_def)
  next
    case (Some a)
    have "M (l_rel l) \<subseteq> bu_rows bu e p l" if "l \<in> set (ru_body r)" "pos_lit l" for p l
    proof -
      have "settled e0 bu (l_rel l)" using reads r that Some by (auto simp: comp_reads_def)
      then show ?thesis using settled_rows [OF inv] agg Some by simp
    qed
    from fire_agg [OF inv r(1) Some full run this] st Some show ?thesis by (simp add: comp_state_def)
  qed
qed

lemma comp_state_pos [simp]: "comp_state M ar e0 (bu\<lparr>bu_pos := x\<rparr>) rels pend e = comp_state M ar e0 bu rels pend e"
  by (simp add: comp_state_def comp_reads_def settled_def)

lemma work_rule:
  assumes "w \<in> set (comp_work rels pend e)" "en_ruleOrder e = en_ruleOrder e0"
  shows "fst w \<in> set (en_ruleOrder e0)" "l_rel (ru_head (fst w)) \<in> set pend" "snd w = rec_positions rels (fst w)"
  using assms by (auto simp: comp_work_def)

lemma rule_work:
  assumes "r \<in> set (en_ruleOrder e0)" "l_rel (ru_head r) \<in> set pend" "en_ruleOrder e = en_ruleOrder e0"
  shows "(r, rec_positions rels r) \<in> set (comp_work rels pend e)"
  using assms by (auto simp: comp_work_def)

lemma round_zero_effect:
  assumes st: "comp_state M ar e0 bu rels pend e1" and run: "round_zero bu (comp_work rels pend e1) e1 = Inr e2"
  shows "comp_state M ar e0 bu rels pend e2 \<and> grows e1 e2
    \<and> closed_upto M ar e0 pend (\<lambda>_. 0) e2 \<and> aggs_done M ar e0 pend e2"
proof -
  let ?bu = "bu\<lparr>bu_pos := None\<rparr>" and ?work = "comp_work rels pend e1"
  have ro: "en_ruleOrder e1 = en_ruleOrder e0" using st bu_invD(7) by (auto simp: comp_state_def)
  have fold: "foldE (\<lambda>w. fire_rule ?bu (fst w)) ?work e1 = Inr e2" using run by (simp add: round_zero_def)
  have one: "comp_state M ar e0 bu rels pend b \<and> grows a b
    \<and> (ru_agg (fst w) = None \<longrightarrow> (\<forall>\<theta>. sat (bu_rows ?bu a) (\<lambda>l. M (l_rel l)) (en_syms e0) 0 (ru_body (fst w)) \<theta> \<longrightarrow>
         inst \<theta> (ru_head (fst w)) \<in> set (trows b (fkey ar (l_rel (ru_head (fst w)))))))
    \<and> (\<forall>g. ru_agg (fst w) = Some g \<longrightarrow> agg_rows M (en_syms e0) g (fst w) \<subseteq> set (trows b (fkey ar (l_rel (ru_head (fst w))))))"
    if "w \<in> set ?work" "comp_state M ar e0 bu rels pend a" "fire_rule ?bu (fst w) a = Inr b" for w a b
    using fire_step [of M ar e0 ?bu rels pend a "fst w" b] work_rule [OF that(1) ro] that(2,3) by simp
  have "comp_state M ar e0 bu rels pend e2 \<and> grows e1 e2"
    by (rule foldE_rel [OF fold, of "comp_state M ar e0 bu rels pend" grows]) (use st one grows_trans grows_refl in blast)+
  moreover have eff: "Q e2"
    if w: "w \<in> set ?work" and mk: "\<And>a b. comp_state M ar e0 bu rels pend a \<Longrightarrow> fire_rule ?bu (fst w) a = Inr b \<Longrightarrow> Q b"
      and keep: "\<And>a b. Q a \<Longrightarrow> grows a b \<Longrightarrow> Q b" for w Q
  proof (rule foldE_effect [OF fold, of "comp_state M ar e0 bu rels pend" w])
    show "comp_state M ar e0 bu rels pend e1" "w \<in> set ?work" by (rule st, rule w)
    show "comp_state M ar e0 bu rels pend b" if "y \<in> set ?work" "comp_state M ar e0 bu rels pend x" "fire_rule ?bu (fst y) x = Inr b" for x y b
      using one [OF that] by simp
    show "Q b" if "comp_state M ar e0 bu rels pend x" "fire_rule ?bu (fst w) x = Inr b" for x b using mk [OF that] .
    show "Q b" if "y \<in> set ?work" "comp_state M ar e0 bu rels pend x" "Q x" "fire_rule ?bu (fst y) x = Inr b" for x y b
      using one [OF that(1,2,4)] keep that(3) by blast
  qed
  have grow_set: "t \<in> set (trows a k) \<Longrightarrow> grows a b \<Longrightarrow> t \<in> set (trows b k)" for t a b k
    using grows_trows set_mono_prefix by blast
  have "closed_upto M ar e0 pend (\<lambda>_. 0) e2"
    unfolding closed_upto_def
  proof (intro ballI impI allI)
    fix r \<theta>
    assume r: "r \<in> set (en_ruleOrder e0)" "l_rel (ru_head r) \<in> set pend" "ru_agg r = None"
      and sat: "sat (upto M ar pend (\<lambda>_. 0) e2) (\<lambda>l. M (l_rel l)) (en_syms e0) 0 (ru_body r) \<theta>"
    show "inst \<theta> (ru_head r) \<in> set (trows e2 (fkey ar (l_rel (ru_head r))))"
    proof (rule eff [OF rule_work [OF r(1,2) ro, of rels]])
      show "inst \<theta> (ru_head r) \<in> set (trows b (fkey ar (l_rel (ru_head r))))"
        if a: "comp_state M ar e0 bu rels pend a" "fire_rule ?bu (fst (r, rec_positions rels r)) a = Inr b" for a b
      proof -
        have "sat (bu_rows ?bu a) (\<lambda>l. M (l_rel l)) (en_syms e0) 0 (ru_body r) \<theta>"
        proof (rule sat_weaken [OF sat])
          fix i
          assume i: "i < length (ru_body r)" "pos_lit (ru_body r ! i)"
            and m: "inst \<theta> (ru_body r ! i) \<in> upto M ar pend (\<lambda>_. 0) e2 i (ru_body r ! i)"
          have np: "l_rel (ru_body r ! i) \<notin> set pend" using m by (auto simp: upto_def)
          have "comp_reads e0 bu rels pend" using a(1) by (simp add: comp_state_def)
          then have "settled e0 bu (l_rel (ru_body r ! i))"
            using r i(2) np nth_mem [OF i(1)] unfolding comp_reads_def by blast
          then have "settled e0 ?bu (l_rel (ru_body r ! i))" by (simp add: settled_def)
          then show "inst \<theta> (ru_body r ! i) \<in> bu_rows ?bu a i (ru_body r ! i)"
            using settled_rows [of M ar e0 ?bu a "ru_body r ! i" i] a(1) m np by (simp add: comp_state_def upto_def)
        qed
        then show ?thesis using one [OF rule_work [OF r(1,2) ro, of rels] a] r(3) by simp
      qed
    qed (rule grow_set)
  qed
  moreover have "aggs_done M ar e0 pend e2"
    unfolding aggs_done_def
  proof (intro ballI impI allI subsetI)
    fix r g t
    assume r: "r \<in> set (en_ruleOrder e0)" "l_rel (ru_head r) \<in> set pend" "ru_agg r = Some g"
      and t: "t \<in> agg_rows M (en_syms e0) g r"
    show "t \<in> set (trows e2 (fkey ar (l_rel (ru_head r))))"
      by (rule eff [OF rule_work [OF r(1,2) ro, of rels]])
         (use one [OF rule_work [OF r(1,2) ro, of rels]] r(3) t in fastforce, rule grow_set)
  qed
  ultimately show ?thesis by blast
qed

section \<open>Semi-naive rounds\<close>

lemma trows_take_grows:
  "grows a b \<Longrightarrow> n \<le> length (trows a k) \<Longrightarrow> take n (trows b k) = take n (trows a k)"
  using grows_trows [of a b k] by (auto elim!: prefixE)

lemma pending_table:
  assumes "comp_state M ar e0 bu rels pend e" "rel \<in> set pend"
  obtains t where "en_tables e (fkey ar rel) = Some t" "table_ok M (ar rel) rel t" "full_rel bu e rel = Some (tb_rel t)"
    "trows e (fkey ar rel) = r_tuples (tb_rel t)"
proof -
  have inv: "bu_inv M ar e0 bu e" and f: "bu_full bu rel = Some (fkey ar rel)" using assms by (auto simp: comp_state_def)
  from inv f obtain t where t: "fkey ar rel = fkey ar rel" "en_tables e (fkey ar rel) = Some t" "table_ok M (ar rel) rel t"
    "full_rel bu e rel = Some (tb_rel t)" by (rule full_table)
  then show thesis using that by (simp add: trows_def)
qed

lemma delta_rows:
  assumes st: "comp_state M ar e0 bu rels pend e" and d: "take_deltas bu pend e mark rel = Some d"
  shows "rel \<in> set pend" "rows_ok (ar rel) d" "r_tuples d = drop (mark rel) (trows e (fkey ar rel))" "set (r_tuples d) \<subseteq> M rel"
proof -
  show rel: "rel \<in> set pend" using d by (auto simp: take_deltas_def split: if_splits)
  from st rel obtain t where t: "en_tables e (fkey ar rel) = Some t" "table_ok M (ar rel) rel t"
    "full_rel bu e rel = Some (tb_rel t)" "trows e (fkey ar rel) = r_tuples (tb_rel t)" by (rule pending_table)
  have dl: "deltaRelation (tb_rel t) (mark rel) = Some d" using d rel t by (simp add: take_deltas_def)
  have ok: "rows_ok (ar rel) (tb_rel t)" using t relation_okD(5) by (simp add: table_ok_def)
  show "rows_ok (ar rel) d" "r_tuples d = drop (mark rel) (trows e (fkey ar rel))"
    using deltaRelation_rows [OF ok dl] t(4) by simp_all
  then show "set (r_tuples d) \<subseteq> M rel" using t(2,4) set_drop_subset by (fastforce simp: table_ok_def)
qed

lemma no_delta_iff:
  assumes st: "comp_state M ar e0 bu rels pend e" and rel: "rel \<in> set pend"
  shows "take_deltas bu pend e mark rel = None \<longleftrightarrow> length (trows e (fkey ar rel)) \<le> mark rel"
    and "full_len bu e rel = length (trows e (fkey ar rel))"
proof -
  from st rel obtain t where t: "en_tables e (fkey ar rel) = Some t" "table_ok M (ar rel) rel t"
    "full_rel bu e rel = Some (tb_rel t)" "trows e (fkey ar rel) = r_tuples (tb_rel t)" by (rule pending_table)
  then show "take_deltas bu pend e mark rel = None \<longleftrightarrow> length (trows e (fkey ar rel)) \<le> mark rel"
    and "full_len bu e rel = length (trows e (fkey ar rel))"
    using rel by (auto simp: take_deltas_def deltaRelation_def full_len_def)
qed

lemma comp_state_delta:
  assumes st: "comp_state M ar e0 bu rels pend e"
  shows "comp_state M ar e0 (bu\<lparr>bu_delta := take_deltas bu pend e mark\<rparr>) rels pend a \<longleftrightarrow> comp_state M ar e0 bu rels pend a"
proof -
  let ?d = "take_deltas bu pend e mark"
  have "\<forall>rel d. ?d rel = Some d \<longrightarrow> rows_ok (ar rel) d \<and> set (r_tuples d) \<subseteq> M rel"
    using delta_rows [OF st] by blast
  moreover have "\<forall>rel d. bu_delta bu rel = Some d \<longrightarrow> rows_ok (ar rel) d \<and> set (r_tuples d) \<subseteq> M rel"
    using st by (simp add: comp_state_def bu_inv_def bu_ok_def)
  ultimately have "bu_inv M ar e0 (bu\<lparr>bu_delta := ?d\<rparr>) a \<longleftrightarrow> bu_inv M ar e0 bu a"
    by (simp add: bu_inv_def bu_ok_def)
  then show ?thesis by (simp add: comp_state_def comp_reads_def settled_def)
qed

text \<open>The bindings of a rule with a row of the last delta at position \<open>p\<close> are found by the firing at \<open>p\<close>.\<close>

lemma delta_sat:
  assumes st: "comp_state M ar e0 bu rels pend e" and g: "grows e a" and sa: "comp_state M ar e0 bu rels pend a"
    and r: "r \<in> set (en_ruleOrder e0)" "l_rel (ru_head r) \<in> set pend"
    and bd: "bd = bu\<lparr>bu_delta := take_deltas bu pend e mark, bu_pos := Some p\<rparr>"
    and rows: "\<And>i. i < length (ru_body r) \<Longrightarrow> pos_lit (ru_body r ! i) \<Longrightarrow> inst \<theta> (ru_body r ! i)
      \<in> (if l_rel (ru_body r ! i) \<in> set pend then set (trows e (fkey ar (l_rel (ru_body r ! i)))) else M (l_rel (ru_body r ! i)))"
    and p: "p < length (ru_body r)" "l_rel (ru_body r ! p) \<in> set pend"
      "inst \<theta> (ru_body r ! p) \<in> set (drop (mark (l_rel (ru_body r ! p))) (trows e (fkey ar (l_rel (ru_body r ! p)))))"
    and sat: "sat P (\<lambda>l. M (l_rel l)) S 0 (ru_body r) \<theta>"
  shows "sat (bu_rows bd a) (\<lambda>l. M (l_rel l)) S 0 (ru_body r) \<theta>"
proof (rule sat_weaken [OF sat])
  fix i
  let ?l = "ru_body r ! i"
  assume i: "i < length (ru_body r)" "pos_lit ?l"
  have inv: "bu_inv M ar e0 bu a" using sa by (simp add: comp_state_def)
  show "inst \<theta> ?l \<in> bu_rows bd a i ?l"
  proof (cases "i = p")
    case True
    let ?rel = "l_rel (ru_body r ! p)"
    have "take_deltas bu pend e mark ?rel \<noteq> None"
      using no_delta_iff(1) [OF st p(2), of mark] p(3) by (auto simp: not_le)
    then obtain d where d: "take_deltas bu pend e mark ?rel = Some d" by blast
    then show ?thesis using delta_rows(3) [OF st d] True p(3) by (simp add: bu_rows_def bd)
  next
    case False
    have src: "bu_rows bd a i ?l = bu_rows (bu\<lparr>bu_pos := None\<rparr>) a i ?l"
      using False by (simp add: bu_rows_def bd bu_source_def full_rel_def)
    show ?thesis
    proof (cases "l_rel ?l \<in> set pend")
      case True
      then have "bu_rows (bu\<lparr>bu_pos := None\<rparr>) a i ?l = set (trows a (fkey ar (l_rel ?l)))"
        using sa by (intro pending_rows [of M ar e0]) (auto simp: comp_state_def)
      then show ?thesis using rows [OF i] True src set_mono_prefix [OF grows_trows [OF g]] by auto
    next
      case np: False
      have "comp_reads e0 bu rels pend" using sa by (simp add: comp_state_def)
      then have "settled e0 bu (l_rel ?l)" using r i np nth_mem [OF i(1)] unfolding comp_reads_def by blast
      then have "bu_rows (bu\<lparr>bu_pos := None\<rparr>) a i ?l = M (l_rel ?l)"
        using inv by (intro settled_rows [of M ar e0]) (auto simp: settled_def)
      then show ?thesis using rows [OF i] np src by simp
    qed
  qed
qed

lemma rec_positions_mem:
  "p \<in> set (rec_positions rels r) \<longleftrightarrow> p < length (ru_body r) \<and> \<not> l_neg (ru_body r ! p) \<and> l_rel (ru_body r ! p) \<in> set rels"
  by (auto simp: rec_positions_def)

lemma derived_not_builtin:
  assumes "prog_ok ar e0" "derived e0 rel"
  shows "\<not> is_builtin rel"
proof -
  obtain r where "r \<in> set (en_ruleOrder e0)" "l_rel (ru_head r) = rel"
    using assms derived_iff by (auto simp: head_rels_def)
  then show ?thesis using assms(1) by (auto simp: prog_ok_def rule_ok_def)
qed

lemma rec_agg:
  assumes st: "comp_state M ar e0 bu rels pend e" and r: "r \<in> set (en_ruleOrder e0)" "l_rel (ru_head r) \<in> set pend"
    and p: "p \<in> set (rec_positions rels r)"
  shows "ru_agg r = None" "pos_lit (ru_body r ! p)"
proof -
  have mem: "ru_body r ! p \<in> set (ru_body r)" "\<not> l_neg (ru_body r ! p)" "l_rel (ru_body r ! p) \<in> set rels"
    using p by (auto simp: rec_positions_mem)
  have "prog_ok ar e0" "derived e0 (l_rel (ru_body r ! p))" using st mem bu_invD(2) by (auto simp: comp_state_def)
  then show pl: "pos_lit (ru_body r ! p)" using derived_not_builtin mem by (simp add: pos_lit_def)
  have "comp_reads e0 bu rels pend" using st by (simp add: comp_state_def)
  then show "ru_agg r = None" using r mem pl unfolding comp_reads_def by blast
qed

text \<open>One round, seen as the sequence of its firings.\<close>

lemma foldE_nested:
  "foldE (\<lambda>w. foldE (f w) (snd w)) ws s = foldE (\<lambda>(w, p). f w p) (concat (map (\<lambda>w. map (Pair w) (snd w)) ws)) s"
proof (induction ws arbitrary: s)
  case (Cons w ws)
  have "foldE (\<lambda>(w, p). f w p) (map (Pair w) ps) s = foldE (f w) ps s" for ps
    by (induction ps arbitrary: s) (simp_all cong: bindE_cong)
  then show ?case using Cons.IH by (simp add: foldE_append cong: bindE_cong)
qed simp

lemma semi_round_effect:
  assumes st: "comp_state M ar e0 bu rels pend e"
    and mk: "\<And>rel. rel \<in> set pend \<Longrightarrow> mark rel \<le> length (trows e (fkey ar rel))"
    and cl: "closed_upto M ar e0 pend mark e"
    and work: "work = comp_work rels pend e1" "en_ruleOrder e1 = en_ruleOrder e0"
    and run: "semi_round (bu\<lparr>bu_delta := take_deltas bu pend e mark\<rparr>) work e = Inr e2"
  shows "comp_state M ar e0 bu rels pend e2 \<and> grows e e2
    \<and> closed_upto M ar e0 pend (\<lambda>rel. if rel \<in> set pend then full_len bu e rel else mark rel) e2"
proof -
  define bd where "bd p = bu\<lparr>bu_delta := take_deltas bu pend e mark, bu_pos := Some p\<rparr>" for p
  define fire where "fire = (\<lambda>(w :: rule \<times> nat list, p). fire_rule (bd p) (fst w))"
  define jobs where "jobs = concat (map (\<lambda>w. map (Pair w) (snd w)) work)"
  let ?mark = "\<lambda>rel. if rel \<in> set pend then full_len bu e rel else mark rel"
  have fold: "foldE fire jobs e = Inr e2"
    using run foldE_nested [of "\<lambda>w p. fire_rule (bd p) (fst w)"]
    by (simp add: semi_round_def fire_def jobs_def bd_def)
  have job: "fst w \<in> set (en_ruleOrder e0) \<and> l_rel (ru_head (fst w)) \<in> set pend \<and> p \<in> set (rec_positions rels (fst w))"
    if "(w, p) \<in> set jobs" for w p
    using that work_rule [of w rels pend e1 e0] work by (auto simp: jobs_def)
  have bdst: "comp_state M ar e0 (bd p) rels pend a \<longleftrightarrow> comp_state M ar e0 bu rels pend a" for p a
    unfolding bd_def comp_state_pos by (rule comp_state_delta [OF st])
  have one: "comp_state M ar e0 bu rels pend b \<and> grows a b
      \<and> (\<forall>\<theta>. sat (bu_rows (bd p) a) (\<lambda>l. M (l_rel l)) (en_syms e0) 0 (ru_body (fst w)) \<theta> \<longrightarrow>
           inst \<theta> (ru_head (fst w)) \<in> set (trows b (fkey ar (l_rel (ru_head (fst w))))))"
    if "(w, p) \<in> set jobs" "comp_state M ar e0 bu rels pend a" "fire (w, p) a = Inr b" for w p a b
  proof -
    have j: "fst w \<in> set (en_ruleOrder e0)" "l_rel (ru_head (fst w)) \<in> set pend" "p \<in> set (rec_positions rels (fst w))"
      using job [OF that(1)] by simp_all
    have na: "ru_agg (fst w) = None" using rec_agg(1) [OF that(2) j] .
    have "fire_rule (bd p) (fst w) a = Inr b" using that(3) by (simp add: fire_def)
    then show ?thesis using fire_step [of M ar e0 "bd p" rels pend a "fst w" b] bdst that(2) j na by simp
  qed
  have fr: "comp_state M ar e0 bu rels pend b \<and> grows a b"
    if "x \<in> set jobs" "comp_state M ar e0 bu rels pend a" "fire x a = Inr b" for x a b
    using one [of "fst x" "snd x" a b] that by simp
  have all: "comp_state M ar e0 bu rels pend e2 \<and> grows e e2"
    by (rule foldE_rel [OF fold, of "comp_state M ar e0 bu rels pend" grows])
       (use st fr grows_trans grows_refl in blast)+
  have "closed_upto M ar e0 pend ?mark e2"
    unfolding closed_upto_def
  proof (intro ballI impI allI)
    fix r \<theta>
    assume r: "r \<in> set (en_ruleOrder e0)" "l_rel (ru_head r) \<in> set pend" "ru_agg r = None"
      and sat: "sat (upto M ar pend ?mark e2) (\<lambda>l. M (l_rel l)) (en_syms e0) 0 (ru_body r) \<theta>"
    have upto_e: "upto M ar pend ?mark e2 i l = (if l_rel l \<in> set pend then set (trows e (fkey ar (l_rel l))) else M (l_rel l))" for i l
      using trows_take_grows [OF conjunct2 [OF all]] no_delta_iff(2) [OF st, of "l_rel l"] by (simp add: upto_def)
    have rows: "inst \<theta> (ru_body r ! i) \<in> (if l_rel (ru_body r ! i) \<in> set pend
        then set (trows e (fkey ar (l_rel (ru_body r ! i)))) else M (l_rel (ru_body r ! i)))"
      if "i < length (ru_body r)" "pos_lit (ru_body r ! i)" for i
      using sat_pos_nth [OF sat that] unfolding upto_e .
    show "inst \<theta> (ru_head r) \<in> set (trows e2 (fkey ar (l_rel (ru_head r))))"
    proof (cases "\<forall>i < length (ru_body r). pos_lit (ru_body r ! i) \<longrightarrow> inst \<theta> (ru_body r ! i) \<in> upto M ar pend mark e i (ru_body r ! i)")
      case True
      then have "sat (upto M ar pend mark e) (\<lambda>l. M (l_rel l)) (en_syms e0) 0 (ru_body r) \<theta>"
        by (intro sat_weaken [OF sat]) blast
      then have "inst \<theta> (ru_head r) \<in> set (trows e (fkey ar (l_rel (ru_head r))))"
        using cl r by (auto simp: closed_upto_def)
      then show ?thesis using set_mono_prefix [OF grows_trows [OF conjunct2 [OF all]]] by blast
    next
      case False
      then obtain p where p: "p < length (ru_body r)" "pos_lit (ru_body r ! p)"
        and new: "inst \<theta> (ru_body r ! p) \<notin> upto M ar pend mark e p (ru_body r ! p)" by blast
      let ?rel = "l_rel (ru_body r ! p)"
      have pe: "?rel \<in> set pend" using rows [OF p] new by (auto simp: upto_def split: if_splits)
      have dr: "inst \<theta> (ru_body r ! p) \<in> set (drop (mark ?rel) (trows e (fkey ar ?rel)))"
        using rows [OF p] new pe by (auto simp: upto_def dest!: in_set_takeD)
           (metis UnE append_take_drop_id set_append)
      have sub: "set pend \<subseteq> set rels" using st by (simp add: comp_state_def)
      have pr: "p \<in> set (rec_positions rels r)" using p pe sub by (auto simp: rec_positions_mem pos_lit_def)
      have jb: "((r, rec_positions rels r), p) \<in> set jobs"
        using rule_work [OF r(1,2) work(2), of rels] pr
        by (auto simp: jobs_def work(1) intro!: bexI [of _ "(r, rec_positions rels r)"])
      show ?thesis
      proof (rule foldE_effect [OF fold, of "\<lambda>a. comp_state M ar e0 bu rels pend a \<and> grows e a" "((r, rec_positions rels r), p)"])
        show "comp_state M ar e0 bu rels pend e \<and> grows e e" using st by simp
        show "((r, rec_positions rels r), p) \<in> set jobs" by (rule jb)
        show "comp_state M ar e0 bu rels pend b \<and> grows e b"
          if "y \<in> set jobs" "comp_state M ar e0 bu rels pend x \<and> grows e x" "fire y x = Inr b" for x y b
          using fr [OF that(1) _ that(3)] that(2) grows_trans by blast
        show "inst \<theta> (ru_head r) \<in> set (trows b (fkey ar (l_rel (ru_head r))))"
          if x: "comp_state M ar e0 bu rels pend x \<and> grows e x" "fire ((r, rec_positions rels r), p) x = Inr b" for x b
          using one [OF jb _ x(2)] delta_sat [OF st _ _ r(1,2) bd_def rows p(1) pe dr sat] x(1) by simp
        show "inst \<theta> (ru_head r) \<in> set (trows b (fkey ar (l_rel (ru_head r))))"
          if "y \<in> set jobs" "comp_state M ar e0 bu rels pend x \<and> grows e x"
            "inst \<theta> (ru_head r) \<in> set (trows x (fkey ar (l_rel (ru_head r))))" "fire y x = Inr b" for x y b
          using fr [OF that(1) _ that(4)] that(2,3) grows_trows set_mono_prefix by blast
      qed
    qed
  qed
  then show ?thesis using all by blast
qed

abbreviation closed_full :: "interp \<Rightarrow> (string \<Rightarrow> nat) \<Rightarrow> engine \<Rightarrow> string list \<Rightarrow> engine \<Rightarrow> bool" where
  "closed_full M ar e0 pend e \<equiv> closed_upto M ar e0 pend (\<lambda>rel. length (trows e (fkey ar rel))) e"

lemma closed_upto_full:
  assumes "closed_upto M ar e0 pend mark e" "\<And>rel. rel \<in> set pend \<Longrightarrow> length (trows e (fkey ar rel)) \<le> mark rel"
  shows "closed_full M ar e0 pend e"
proof -
  have "upto M ar pend (\<lambda>rel. length (trows e (fkey ar rel))) e p l = upto M ar pend mark e p l" for p l
    using assms(2) by (simp add: upto_def)
  then have "upto M ar pend (\<lambda>rel. length (trows e (fkey ar rel))) e = upto M ar pend mark e" by (intro ext)
  then show ?thesis using assms(1) by (simp add: closed_upto_def)
qed

lemma semi_rounds_effect:
  assumes "comp_state M ar e0 bu rels pend e" "\<And>rel. rel \<in> set pend \<Longrightarrow> mark rel \<le> length (trows e (fkey ar rel))"
    and "closed_upto M ar e0 pend mark e" "work = comp_work rels pend e1" "en_ruleOrder e1 = en_ruleOrder e0"
    and "semi_rounds n bu pend work mark e = Inr e'"
  shows "comp_state M ar e0 bu rels pend e' \<and> grows e e' \<and> closed_full M ar e0 pend e'"
  using assms
proof (induction n arbitrary: mark e)
  case 0
  then have "e' = e" "\<forall>rel \<in> set pend. take_deltas bu pend e mark rel = None"
    by (auto simp: list_ex_iff split: if_splits)
  then show ?case using "0.prems" no_delta_iff(1) [OF "0.prems"(1)] closed_upto_full by auto
next
  case (Suc n)
  show ?case
  proof (cases "list_ex (\<lambda>rel. take_deltas bu pend e mark rel \<noteq> None) pend")
    case False
    then have "e' = e" "\<forall>rel \<in> set pend. take_deltas bu pend e mark rel = None"
      using Suc.prems(6) by (auto simp: list_ex_iff Let_def split: if_splits)
    then show ?thesis using Suc.prems no_delta_iff(1) [OF Suc.prems(1)] closed_upto_full by auto
  next
    case True
    let ?mark = "\<lambda>rel. if rel \<in> set pend then full_len bu e rel else mark rel"
    from True Suc.prems(6) obtain a where
      a: "semi_round (bu\<lparr>bu_delta := take_deltas bu pend e mark\<rparr>) work e = Inr a" and
      rest: "semi_rounds n bu pend work ?mark a = Inr e'" by (auto simp: Let_def)
    note eff = semi_round_effect [OF Suc.prems(1-5) a]
    have "?mark rel \<le> length (trows a (fkey ar rel))" if "rel \<in> set pend" for rel
      using that no_delta_iff(2) [OF Suc.prems(1)] prefix_length_le [OF grows_trows, of e a "fkey ar rel"] eff by auto
    from Suc.IH [OF _ this _ Suc.prems(4,5) rest] eff show ?thesis using grows_trans by blast
  qed
qed

section \<open>The component is complete\<close>

lemma component_complete:
  assumes st: "comp_state M ar e0 bu rels pend e" and cl: "closed_full M ar e0 pend e" and ag: "aggs_done M ar e0 pend e"
    and fc: "\<forall>rel \<in> set pend. facts e0 rel \<subseteq> set (trows e (fkey ar rel))" and rel: "rel \<in> set pend"
  shows "M rel \<subseteq> set (trows e (fkey ar rel))"
proof
  fix t
  assume t: "t \<in> M rel"
  have mod: "engine_model e0 M" and sub: "set pend \<subseteq> set rels" using st bu_invD(3) by (auto simp: comp_state_def)
  have der: "derives (en_ruleOrder e0) (facts e0) (en_syms e0) M rl u \<longleftrightarrow> u \<in> M rl" for rl u
    using mod by (simp add: engine_model_def perfect_model_def)
  from t have "derives (en_ruleOrder e0) (facts e0) (en_syms e0) M rel t" using der by simp
  then show "t \<in> set (trows e (fkey ar rel))" using rel
  proof (induction rule: derives.induct)
    case (fact u rl)
    then show ?case using fc by blast
  next
    case (aggr r a u)
    then show ?case using ag by (auto simp: aggs_done_def)
  next
    case (fire r \<theta>)
    have "sat (\<lambda>p l. M (l_rel l)) (\<lambda>l. M (l_rel l)) (en_syms e0) 0 (ru_body r) \<theta>"
      unfolding holds_split_at using fire.IH fire.hyps(3) der by blast
    then have "sat (upto M ar pend (\<lambda>rel. length (trows e (fkey ar rel))) e) (\<lambda>l. M (l_rel l)) (en_syms e0) 0 (ru_body r) \<theta>"
      by (rule sat_weaken) (use fire.IH in \<open>auto simp: upto_def\<close>)
    then show ?case using cl fire.hyps(1,2) fire.prems by (auto simp: closed_upto_def)
  qed
qed

lemma set_states_inv:
  assumes "bu_inv M ar e0 bu e" "\<forall>rel \<in> set pend. set (trows e (fkey ar rel)) = M rel \<and> bu_full bu rel = Some (fkey ar rel)"
  shows "bu_inv M ar e0 bu (fold (\<lambda>rel. set_state (head_key bu rel) TComplete) pend e)
    \<and> (\<forall>rel \<in> set pend. tb_complete (fold (\<lambda>rel. set_state (head_key bu rel) TComplete) pend e) (fkey ar rel))"
  using assms
proof (induction pend arbitrary: e)
  case (Cons rel pend)
  let ?e = "set_state (fkey ar rel) TComplete e"
  have k: "head_key bu rel = fkey ar rel" using Cons.prems(2) by (simp add: head_key_def)
  have inv: "bu_inv M ar e0 bu ?e" using set_state_inv [OF Cons.prems(1)] Cons.prems(2) by simp
  have tab: "en_tables e (fkey ar rel) \<noteq> None"
  proof -
    have "bu_full bu rel = Some (fkey ar rel)" using Cons.prems(2) by simp
    then show ?thesis using bu_invD(6) [OF Cons.prems(1)] unfolding bu_ok_def by blast
  qed
  have "tb_complete (fold (\<lambda>rel. set_state (head_key bu rel) TComplete) ps a) k" if "tb_complete a k" for ps a k
    using that
  proof (induction ps arbitrary: a)
    case (Cons p ps)
    have "tb_complete (set_state (head_key bu p) TComplete a) k"
      using Cons.prems by (auto simp: set_state_frame tb_complete_def split: option.splits)
    then show ?case using Cons.IH by simp
  qed simp
  moreover have "tb_complete ?e (fkey ar rel)" using tab by (simp add: set_state_frame)
  ultimately show ?case
    using Cons.IH [OF inv] Cons.prems(2) by (simp add: set_state_frame k)
qed simp

lemma component_finish:
  assumes st: "comp_state M ar e0 bu rels pend e" and cl: "closed_full M ar e0 pend e" and ag: "aggs_done M ar e0 pend e"
    and fc: "\<forall>rel \<in> set pend. facts e0 rel \<subseteq> set (trows e (fkey ar rel))"
    and fin: "completeComponent bu pend e = (bu', e')"
  shows "bu_inv M ar e0 bu' e' \<and> (\<forall>rel. bu_complete bu' rel \<longleftrightarrow> rel \<in> set pend \<or> bu_complete bu rel)
    \<and> bu_full bu' = bu_full bu \<and> bu_delta bu' = bu_delta bu"
proof -
  have inv: "bu_inv M ar e0 bu e" and full: "\<forall>rel \<in> set pend. bu_full bu rel = Some (fkey ar rel)"
    using st by (auto simp: comp_state_def)
  have "set (trows e (fkey ar rel)) = M rel" if rel: "rel \<in> set pend" for rel
  proof
    from st rel obtain t where "en_tables e (fkey ar rel) = Some t" "table_ok M (ar rel) rel t"
      "full_rel bu e rel = Some (tb_rel t)" "trows e (fkey ar rel) = r_tuples (tb_rel t)" by (rule pending_table)
    then show "set (trows e (fkey ar rel)) \<subseteq> M rel" by (simp add: table_ok_def)
  qed (rule component_complete [OF st cl ag fc rel])
  then have s: "bu_inv M ar e0 bu e' \<and> (\<forall>rel \<in> set pend. tb_complete e' (fkey ar rel))"
    using set_states_inv [OF inv, of pend] full fin by (auto simp: completeComponent_def)
  have bu': "bu' = bu\<lparr>bu_complete := (\<lambda>rel. rel \<in> set pend \<or> bu_complete bu rel)\<rparr>"
    using fin by (simp add: completeComponent_def)
  have b: "bu_ok M ar bu e'" using s bu_invD(6) by blast
  have full': "bu_full bu rel \<noteq> None \<and> tb_complete e' (fkey ar rel)" if "rel \<in> set pend \<or> bu_complete bu rel" for rel
    using that s full b unfolding bu_ok_def by blast
  have eqs: "bu_full bu' = bu_full bu" "bu_delta bu' = bu_delta bu"
    "bu_complete bu' = (\<lambda>rel. rel \<in> set pend \<or> bu_complete bu rel)" by (simp_all add: bu')
  have "bu_ok M ar bu' e'"
    using b full' unfolding bu_ok_def eqs by blast
  then have "bu_inv M ar e0 bu' e'" using s by (simp add: bu_inv_def)
  then show ?thesis by (simp add: bu')
qed

text \<open>The static facts about a component that its place in the order provides.\<close>

definition comp_ready :: "engine \<Rightarrow> bottomUp \<Rightarrow> string list \<Rightarrow> bool" where
  "comp_ready e0 bu rels \<longleftrightarrow> (\<forall>rel \<in> set rels. derived e0 rel)
     \<and> (\<forall>r \<in> set (en_ruleOrder e0). l_rel (ru_head r) \<in> set rels \<longrightarrow>
          (\<forall>l \<in> set (ru_body r). pos_lit l \<longrightarrow>
             (settled e0 bu (l_rel l) \<or> l_rel l \<in> set rels)
             \<and> (ru_agg r \<noteq> None \<longrightarrow> settled e0 bu (l_rel l) \<and> l_rel l \<notin> set rels)))"

lemma opened_state:
  assumes op: "opened M ar e0 bu0 rels (bu, pend, e)" and rd: "comp_ready e0 bu0 rels"
  shows "comp_state M ar e0 bu rels pend e"
proof -
  note o = op [unfolded opened_def prod.case]
  have inv: "bu_inv M ar e0 bu e" using o by blast
  have cmp: "settled e0 bu0 rel \<Longrightarrow> settled e0 bu rel" for rel using o by (auto simp: settled_def)
  have nc: "\<not> bu_complete bu rel" if "rel \<in> set pend" for rel
    using that o bu_invD(6) [OF inv] by (auto simp: bu_ok_def)
  have "comp_reads e0 bu rels pend"
    unfolding comp_reads_def
  proof (intro ballI impI)
    fix r l
    assume r: "r \<in> set (en_ruleOrder e0)" "l_rel (ru_head r) \<in> set pend" and l: "l \<in> set (ru_body r)" "pos_lit l"
    have "l_rel (ru_head r) \<in> set rels" using r(2) o by blast
    then have *: "(settled e0 bu0 (l_rel l) \<or> l_rel l \<in> set rels)
      \<and> (ru_agg r \<noteq> None \<longrightarrow> settled e0 bu0 (l_rel l) \<and> l_rel l \<notin> set rels)"
      using rd r(1) l unfolding comp_ready_def by blast
    moreover have "l_rel l \<in> set rels \<Longrightarrow> l_rel l \<in> set pend \<or> settled e0 bu (l_rel l)"
      using o by (auto simp: settled_def)
    ultimately show "(settled e0 bu (l_rel l) \<or> l_rel l \<in> set pend)
      \<and> (ru_agg r \<noteq> None \<longrightarrow> settled e0 bu (l_rel l) \<and> l_rel l \<notin> set rels)" using cmp by blast
  qed
  then show ?thesis using inv o rd nc by (auto simp: comp_state_def comp_ready_def)
qed

lemma nonrec_full:
  assumes st: "comp_state M ar e0 bu rels pend e" and cl: "closed_upto M ar e0 pend (\<lambda>_. 0) e"
    and nr: "list_all (\<lambda>w. snd w = []) (comp_work rels pend e1)" "en_ruleOrder e1 = en_ruleOrder e0"
  shows "closed_full M ar e0 pend e"
  unfolding closed_upto_def
proof (intro ballI impI allI)
  fix r \<theta>
  assume r: "r \<in> set (en_ruleOrder e0)" "l_rel (ru_head r) \<in> set pend" "ru_agg r = None"
    and sat: "sat (upto M ar pend (\<lambda>rel. length (trows e (fkey ar rel))) e) (\<lambda>l. M (l_rel l)) (en_syms e0) 0 (ru_body r) \<theta>"
  have sub: "set pend \<subseteq> set rels" using st by (simp add: comp_state_def)
  have "rec_positions rels r = []"
    using nr rule_work [OF r(1,2) nr(2), of rels] by (auto simp: list_all_iff)
  then have np: "l_rel (ru_body r ! i) \<notin> set pend" if "i < length (ru_body r)" "pos_lit (ru_body r ! i)" for i
    using rec_positions_mem [of i rels r] that sub by (auto simp: pos_lit_def)
  have "sat (upto M ar pend (\<lambda>_. 0) e) (\<lambda>l. M (l_rel l)) (en_syms e0) 0 (ru_body r) \<theta>"
    by (rule sat_weaken [OF sat]) (use np in \<open>simp add: upto_def\<close>)
  then show "inst \<theta> (ru_head r) \<in> set (trows e (fkey ar (l_rel (ru_head r))))"
    using cl r by (auto simp: closed_upto_def)
qed

lemma evalComponent_result:
  assumes inv: "bu_inv M ar e0 bu e" and rd: "comp_ready e0 bu rels"
    and run: "evalComponent rels (bu, e) = Inr (bu', e')"
  shows "bu_inv M ar e0 bu' e' \<and> (\<forall>rel. bu_complete bu' rel \<longleftrightarrow> rel \<in> set rels \<or> bu_complete bu rel)"
proof -
  from run obtain bu1 pend e1 where op: "foldE comp_open rels (bu, [], e) = Inr (bu1, pend, e1)"
    and rest: "(if pend = [] then Inr (bu1, e1)
       else bindE (foldE (seed_rel bu1) pend e1) (\<lambda>a. let work = comp_work rels pend a in
         bindE (round_zero bu1 work a) (\<lambda>b. if list_all (\<lambda>w. snd w = []) work then Inr (completeComponent bu1 pend b)
           else bindE (semi_rounds (en_maxRounds b) bu1 pend work (\<lambda>_. 0) b) (\<lambda>c. Inr (completeComponent bu1 pend c)))))
      = Inr (bu', e')"
    by (auto simp: evalComponent_def)
  have "opened M ar e0 bu [] (bu, [], e)" using inv by (simp add: opened_def)
  from comp_open_all [OF this _ op] rd have opn: "opened M ar e0 bu rels (bu1, pend, e1)" by (simp add: comp_ready_def)
  note o = opn [unfolded opened_def prod.case]
  have cmp: "rel \<in> set pend \<or> bu_complete bu1 rel \<longleftrightarrow> rel \<in> set rels \<or> bu_complete bu rel" for rel
    using o by blast
  show ?thesis
  proof (cases "pend = []")
    case True
    then show ?thesis using rest o cmp by auto
  next
    case False
    note st1 = opened_state [OF opn rd]
    from False rest obtain a b where seed: "foldE (seed_rel bu1) pend e1 = Inr a"
      and zero: "round_zero bu1 (comp_work rels pend a) a = Inr b"
      and fin: "(if list_all (\<lambda>w. snd w = []) (comp_work rels pend a) then Inr (completeComponent bu1 pend b)
           else bindE (semi_rounds (en_maxRounds b) bu1 pend (comp_work rels pend a) (\<lambda>_. 0) b)
             (\<lambda>c. Inr (completeComponent bu1 pend c))) = Inr (bu', e')"
      by (auto simp: Let_def)
    have sd: "bu_inv M ar e0 bu1 a \<and> (\<forall>rel \<in> set pend. facts e0 rel \<subseteq> set (trows a (fkey ar rel)))"
      by (rule seed_all [OF _ _ seed]) (use st1 in \<open>auto simp: comp_state_def\<close>)
    have sta: "comp_state M ar e0 bu1 rels pend a" using st1 sd by (simp add: comp_state_def)
    have ro: "en_ruleOrder a = en_ruleOrder e0" using sd bu_invD(7) by blast
    note z = round_zero_effect [OF sta zero]
    have keep: "aggs_done M ar e0 pend c \<and> (\<forall>rel \<in> set pend. facts e0 rel \<subseteq> set (trows c (fkey ar rel)))" if g: "grows b c" for c
    proof -
      have "set (trows a k) \<subseteq> set (trows c k)" "set (trows b k) \<subseteq> set (trows c k)" for k
        using grows_trans [of a b c] z g grows_trows set_mono_prefix by blast+
      then show ?thesis using z sd unfolding aggs_done_def by blast
    qed
    have "\<exists>c. comp_state M ar e0 bu1 rels pend c \<and> grows b c \<and> closed_full M ar e0 pend c
        \<and> completeComponent bu1 pend c = (bu', e')"
    proof (cases "list_all (\<lambda>w. snd w = []) (comp_work rels pend a)")
      case True
      then show ?thesis using fin z nonrec_full [OF _ _ True ro] grows_refl by auto
    next
      case False
      then obtain c where c: "semi_rounds (en_maxRounds b) bu1 pend (comp_work rels pend a) (\<lambda>_. 0) b = Inr c"
        "completeComponent bu1 pend c = (bu', e')" using fin by auto
      have "comp_state M ar e0 bu1 rels pend c \<and> grows b c \<and> closed_full M ar e0 pend c"
        by (rule semi_rounds_effect [OF _ _ _ refl ro c(1)]) (use z in auto)
      then show ?thesis using c(2) by blast
    qed
    then obtain c where c: "comp_state M ar e0 bu1 rels pend c" "grows b c" "closed_full M ar e0 pend c"
      "completeComponent bu1 pend c = (bu', e')" by blast
    from component_finish [OF c(1,3) _ _ c(4)] keep [OF c(2)] cmp show ?thesis by simp
  qed
qed

end
