(* ===== verification/Tarjan.thy ===== *)
theory Tarjan
  imports Prelude
begin

text \<open>
  The strongly connected components of \<open>Engine.cone\<close> (\<open>internal/datalog/bottomup.go\<close>): Tarjan's
  algorithm over the reads graph, with edges from a relation to what it reads. Proved of it: the
  components cover the graph, each is mutually reachable, and each comes after every component it
  reads. The stack has its top first, where Go appends at the end. The fuel bounds the recursion
  depth; the number of nodes is enough, because every call visits a new one.
\<close>

section \<open>The algorithm\<close>

record tarjan =
  tj_index :: "string \<Rightarrow> nat option"
  tj_low :: "string \<Rightarrow> nat"
  tj_onStack :: "string \<Rightarrow> bool"
  tj_stack :: "string list"
  tj_next :: nat
  tj_out :: "string list list"

definition tj_push :: "string \<Rightarrow> tarjan \<Rightarrow> tarjan" where
  "tj_push v s = s\<lparr>tj_index := (tj_index s)(v \<mapsto> tj_next s), tj_low := (tj_low s)(v := tj_next s),
     tj_next := Suc (tj_next s), tj_stack := v # tj_stack s, tj_onStack := (tj_onStack s)(v := True)\<rparr>"

definition tj_index_of :: "tarjan \<Rightarrow> string \<Rightarrow> nat" where
  "tj_index_of s v = (case tj_index s v of Some n \<Rightarrow> n | None \<Rightarrow> 0)"

text \<open>The pop loop runs down to and including \<open>v\<close>.\<close>

definition tj_pop :: "string \<Rightarrow> tarjan \<Rightarrow> tarjan" where
  "tj_pop v s =
     (let c = takeWhile (\<lambda>w. w \<noteq> v) (tj_stack s) @ [v] in
      s\<lparr>tj_stack := tl (dropWhile (\<lambda>w. w \<noteq> v) (tj_stack s)),
        tj_onStack := (\<lambda>w. tj_onStack s w \<and> w \<notin> set c), tj_out := tj_out s @ [sort c]\<rparr>)"

fun strong :: "nat \<Rightarrow> (string \<Rightarrow> string list) \<Rightarrow> string \<Rightarrow> tarjan \<Rightarrow> tarjan"
  and strong_edges :: "nat \<Rightarrow> (string \<Rightarrow> string list) \<Rightarrow> string \<Rightarrow> string list \<Rightarrow> tarjan \<Rightarrow> tarjan" where
  "strong 0 adj v s = s"
| "strong (Suc n) adj v s =
     (let s2 = strong_edges n adj v (adj v) (tj_push v s) in
      if tj_low s2 v \<noteq> tj_index_of s2 v then s2 else tj_pop v s2)"
| "strong_edges n adj v [] s = s"
| "strong_edges n adj v (w # ws) s =
     strong_edges n adj v ws
       (if tj_index s w = None
        then (let s1 = strong n adj w s in
              if tj_low s1 w < tj_low s1 v then s1\<lparr>tj_low := (tj_low s1)(v := tj_low s1 w)\<rparr> else s1)
        else if tj_onStack s w \<and> tj_index_of s w < tj_low s v
        then s\<lparr>tj_low := (tj_low s)(v := tj_index_of s w)\<rparr> else s)"

definition tj_init :: tarjan where
  "tj_init = \<lparr>tj_index = Map.empty, tj_low = (\<lambda>_. 0), tj_onStack = (\<lambda>_. False), tj_stack = [], tj_next = 0, tj_out = []\<rparr>"

definition tarjan_comps :: "(string \<Rightarrow> string list) \<Rightarrow> string list \<Rightarrow> string list list" where
  "tarjan_comps adj nodes =
     tj_out (fold (\<lambda>n s. if tj_index s n = None then strong (Suc (length nodes)) adj n s else s) nodes tj_init)"

section \<open>Invariant\<close>

abbreviation reach :: "(string \<Rightarrow> string list) \<Rightarrow> string \<Rightarrow> string \<Rightarrow> bool" where
  "reach adj \<equiv> (\<lambda>x y. y \<in> set (adj x))\<^sup>*\<^sup>*"

definition vis :: "tarjan \<Rightarrow> string set" where
  "vis s = dom (tj_index s)"

definition emitted :: "string list list \<Rightarrow> string set" where
  "emitted cs = \<Union> (set ` set cs)"

text \<open>Components in dependency order, each mutually reachable.\<close>

definition comps_ok :: "(string \<Rightarrow> string list) \<Rightarrow> string list list \<Rightarrow> bool" where
  "comps_ok adj cs \<longleftrightarrow> (\<forall>c \<in> set cs. \<forall>x \<in> set c. \<forall>y \<in> set c. reach adj x y)
     \<and> (\<forall>i < length cs. \<forall>x \<in> set (cs ! i). set (adj x) \<subseteq> emitted (take (Suc i) cs))"

definition tinv :: "(string \<Rightarrow> string list) \<Rightarrow> string set \<Rightarrow> string set \<Rightarrow> tarjan \<Rightarrow> bool" where
  "tinv adj V G s \<longleftrightarrow>
     vis s = set (tj_stack s) \<union> emitted (tj_out s) \<and> set (tj_stack s) \<inter> emitted (tj_out s) = {}
     \<and> distinct (tj_stack s) \<and> (\<forall>x. tj_onStack s x \<longleftrightarrow> x \<in> set (tj_stack s))
     \<and> sorted_wrt (\<lambda>a b. tj_index_of s b < tj_index_of s a) (tj_stack s)
     \<and> (\<forall>x \<in> vis s. tj_index_of s x < tj_next s) \<and> vis s \<subseteq> V \<and> G \<subseteq> set (tj_stack s)
     \<and> (\<forall>x \<in> vis s - G. set (adj x) \<subseteq> vis s)
     \<and> (\<forall>x \<in> set (tj_stack s). \<exists>g \<in> G. tj_index_of s g \<le> tj_index_of s x \<and> reach adj x g)
     \<and> (\<forall>g \<in> G. \<forall>x \<in> set (tj_stack s). tj_index_of s g \<le> tj_index_of s x \<longrightarrow> reach adj g x)
     \<and> comps_ok adj (tj_out s)"

lemma tinvD:
  assumes "tinv adj V G s"
  shows "vis s = set (tj_stack s) \<union> emitted (tj_out s)" "set (tj_stack s) \<inter> emitted (tj_out s) = {}"
    "distinct (tj_stack s)" "tj_onStack s x \<longleftrightarrow> x \<in> set (tj_stack s)"
    "sorted_wrt (\<lambda>a b. tj_index_of s b < tj_index_of s a) (tj_stack s)"
    "x \<in> vis s \<Longrightarrow> tj_index_of s x < tj_next s" "vis s \<subseteq> V" "G \<subseteq> set (tj_stack s)"
    "x \<in> vis s \<Longrightarrow> x \<notin> G \<Longrightarrow> set (adj x) \<subseteq> vis s"
    "x \<in> set (tj_stack s) \<Longrightarrow> \<exists>g \<in> G. tj_index_of s g \<le> tj_index_of s x \<and> reach adj x g"
    "g \<in> G \<Longrightarrow> x \<in> set (tj_stack s) \<Longrightarrow> tj_index_of s g \<le> tj_index_of s x \<Longrightarrow> reach adj g x"
    "comps_ok adj (tj_out s)"
  using assms unfolding tinv_def by blast+

definition extends :: "tarjan \<Rightarrow> tarjan \<Rightarrow> bool" where
  "extends s s' \<longleftrightarrow> (\<forall>x \<in> vis s. tj_index s' x = tj_index s x \<and> tj_low s' x = tj_low s x)
     \<and> (\<exists>ext. tj_stack s' = ext @ tj_stack s) \<and> tj_next s \<le> tj_next s'"

lemma extends_refl [simp]: "extends s s"
  by (simp add: extends_def)

lemma extends_vis: "extends s s' \<Longrightarrow> vis s \<subseteq> vis s'"
  by (auto simp: extends_def vis_def dom_def)

lemma extends_index: "extends s s' \<Longrightarrow> x \<in> vis s \<Longrightarrow> tj_index_of s' x = tj_index_of s x"
  by (simp add: extends_def tj_index_of_def)

lemma extends_trans:
  assumes "extends a b" "extends b c"
  shows "extends a c"
  using assms extends_vis [OF assms(1)] unfolding extends_def by (metis append.assoc order_trans subsetD)

definition tpost :: "(string \<Rightarrow> string list) \<Rightarrow> string set \<Rightarrow> string set \<Rightarrow> string \<Rightarrow> tarjan \<Rightarrow> tarjan \<Rightarrow> bool" where
  "tpost adj V G v s s' \<longleftrightarrow> tinv adj V G s' \<and> extends s s' \<and> v \<in> vis s' \<and> tj_next s \<le> tj_index_of s' v
     \<and> (if v \<in> set (tj_stack s') then \<exists>y \<in> set (tj_stack s'). tj_index_of s' y = tj_low s' v \<and> reach adj v y
        else tj_low s' v = tj_index_of s' v)
     \<and> (\<forall>x \<in> set (tj_stack s') - set (tj_stack s). \<forall>y \<in> set (adj x) \<inter> set (tj_stack s). tj_low s' v \<le> tj_index_of s' y)"

text \<open>\<open>low[v]\<close> is a lower bound for the edges from the nodes pushed since into the older stack.\<close>

definition low_bound :: "(string \<Rightarrow> string list) \<Rightarrow> string \<Rightarrow> string set \<Rightarrow> tarjan \<Rightarrow> tarjan \<Rightarrow> bool" where
  "low_bound adj v D s0 s \<longleftrightarrow> (\<forall>x y. x \<in> set (tj_stack s) \<longrightarrow> x \<notin> set (tj_stack s0) \<longrightarrow> y \<in> set (tj_stack s0) \<longrightarrow>
     y \<in> (if x = v then D else set (adj x)) \<longrightarrow> tj_low s v \<le> tj_index_of s y)"

text \<open>The state inside the edge loop of \<open>v\<close>, with the edges in \<open>D\<close> done.\<close>

definition tloop :: "(string \<Rightarrow> string list) \<Rightarrow> string set \<Rightarrow> string set \<Rightarrow> string \<Rightarrow> string set \<Rightarrow> tarjan \<Rightarrow> tarjan \<Rightarrow> bool" where
  "tloop adj V G v D s0 s \<longleftrightarrow> tinv adj V (insert v G) s \<and> extends s0 s \<and> v \<notin> vis s0 \<and> G \<subseteq> set (tj_stack s0)
     \<and> set (tj_stack s0) \<subseteq> vis s0
     \<and> (\<exists>ext. tj_stack s = ext @ v # tj_stack s0) \<and> tj_index s v = Some (tj_next s0)
     \<and> tj_low s v \<le> tj_next s0 \<and> D \<subseteq> vis s
     \<and> (\<exists>y \<in> set (tj_stack s). tj_index_of s y = tj_low s v \<and> reach adj v y)
     \<and> low_bound adj v D s0 s"

section \<open>Components stay in order\<close>

lemma comps_ok_snoc:
  assumes "comps_ok adj cs" "\<And>x y. x \<in> set c \<Longrightarrow> y \<in> set c \<Longrightarrow> reach adj x y"
    "\<And>x. x \<in> set c \<Longrightarrow> set (adj x) \<subseteq> set c \<union> emitted cs"
  shows "comps_ok adj (cs @ [c])"
proof -
  have "set (adj x) \<subseteq> emitted (take (Suc i) (cs @ [c]))"
    if i: "i < length (cs @ [c])" and x: "x \<in> set ((cs @ [c]) ! i)" for i x
  proof (cases "i < length cs")
    case True
    then have "take (Suc i) (cs @ [c]) = take (Suc i) cs" by simp
    then show ?thesis using assms(1) True x by (auto simp: comps_ok_def nth_append)
  next
    case False
    then have "i = length cs" using i by simp
    then show ?thesis using assms(3) [of x] x by (auto simp: emitted_def nth_append)
  qed
  moreover have "\<forall>d \<in> set (cs @ [c]). \<forall>x \<in> set d. \<forall>y \<in> set d. reach adj x y"
    using assms(1,2) by (auto simp: comps_ok_def)
  ultimately show ?thesis unfolding comps_ok_def by blast
qed

lemma tj_push_loop:
  assumes inv: "tinv adj V G s" and v: "v \<notin> vis s" "v \<in> V" and g: "\<And>g. g \<in> G \<Longrightarrow> reach adj g v"
  shows "tloop adj V G v {} s (tj_push v s)"
proof -
  note d = tinvD [OF inv]
  let ?s = "tj_push v s"
  have fr: "tj_stack ?s = v # tj_stack s" "tj_out ?s = tj_out s" "tj_next ?s = Suc (tj_next s)" "vis ?s = insert v (vis s)"
    "tj_index_of ?s v = tj_next s" "tj_low ?s v = tj_next s" "tj_index ?s v = Some (tj_next s)"
    by (simp_all add: tj_push_def vis_def tj_index_of_def)
  have ix: "tj_index_of ?s x = tj_index_of s x" if "x \<in> vis s" for x
    using that v(1) by (auto simp: tj_push_def tj_index_of_def)
  have stv: "set (tj_stack s) \<subseteq> vis s" using d(1) by blast
  have vs: "v \<notin> set (tj_stack s)" "v \<notin> emitted (tj_out s)" using v(1) d(1) by auto
  have lt: "tj_index_of ?s x < tj_next s" if "x \<in> vis s" for x using ix d(6) that by simp
  have srt: "sorted_wrt (\<lambda>a b. tj_index_of ?s b < tj_index_of ?s a) (tj_stack s)"
    using d(5) ix stv by (metis (no_types, lifting) sorted_wrt_mono_rel subsetD)
  have ext: "extends s ?s"
    unfolding extends_def using v(1) by (auto simp: tj_push_def vis_def)
  have "tinv adj V (insert v G) ?s"
    unfolding tinv_def fr
  proof (intro conjI)
    show "\<forall>x \<in> set (v # tj_stack s). \<exists>h \<in> insert v G. tj_index_of ?s h \<le> tj_index_of ?s x \<and> reach adj x h"
    proof
      fix x assume "x \<in> set (v # tj_stack s)"
      then show "\<exists>h \<in> insert v G. tj_index_of ?s h \<le> tj_index_of ?s x \<and> reach adj x h"
      proof (cases "x = v")
        case False
        then have xs: "x \<in> set (tj_stack s)" using \<open>x \<in> set (v # tj_stack s)\<close> by simp
        with d(10) obtain h where "h \<in> G" "tj_index_of s h \<le> tj_index_of s x" "reach adj x h" by blast
        moreover have "h \<in> vis s" "x \<in> vis s" using \<open>h \<in> G\<close> d(8) stv xs by blast+
        ultimately show ?thesis using ix by (intro bexI [of _ h]) simp_all
      qed auto
    qed
    show "\<forall>h \<in> insert v G. \<forall>x \<in> set (v # tj_stack s). tj_index_of ?s h \<le> tj_index_of ?s x \<longrightarrow> reach adj h x"
    proof (intro ballI impI)
      fix h x
      assume h: "h \<in> insert v G" and x: "x \<in> set (v # tj_stack s)" and le: "tj_index_of ?s h \<le> tj_index_of ?s x"
      show "reach adj h x"
      proof (cases "x = v")
        case True
        then show ?thesis using h g by auto
      next
        case False
        then have xs: "x \<in> set (tj_stack s)" using x by simp
        then have "h \<noteq> v" using le lt [of x] stv fr(5) by auto
        then have hG: "h \<in> G" using h by simp
        have "h \<in> vis s" "x \<in> vis s" using hG d(8) stv xs by blast+
        then show ?thesis using d(11) [OF hG xs] le ix by simp
      qed
    qed
    show "\<forall>x \<in> insert v (vis s) - insert v G. set (adj x) \<subseteq> insert v (vis s)" using d(9) by blast
    show "\<forall>x \<in> insert v (vis s). tj_index_of ?s x < Suc (tj_next s)" using lt fr(5) by (auto simp: less_SucI)
    show "sorted_wrt (\<lambda>a b. tj_index_of ?s b < tj_index_of ?s a) (v # tj_stack s)" using srt lt stv fr(5) by auto
    show "\<forall>x. tj_onStack ?s x \<longleftrightarrow> x \<in> set (v # tj_stack s)" using d(4) by (auto simp: tj_push_def)
  qed (use d vs v in auto)
  moreover have "low_bound adj v {} s ?s" by (auto simp: low_bound_def fr)
  ultimately show ?thesis using ext fr v d(8) stv by (auto simp: tloop_def)
qed

section \<open>One edge\<close>

lemma low_frame [simp]:
  "vis (s\<lparr>tj_low := l\<rparr>) = vis s" "tj_index_of (s\<lparr>tj_low := l\<rparr>) x = tj_index_of s x"
  "tinv adj V G (s\<lparr>tj_low := l\<rparr>) = tinv adj V G s"
  by (simp_all add: vis_def tj_index_of_def tinv_def)

lemma tloopD:
  assumes "tloop adj V G v D s0 s"
  shows "tinv adj V (insert v G) s" "extends s0 s" "v \<notin> vis s0" "G \<subseteq> set (tj_stack s0)" "set (tj_stack s0) \<subseteq> vis s0"
    "tj_index_of s v = tj_next s0" "v \<in> vis s" "tj_low s v \<le> tj_next s0" "D \<subseteq> vis s"
    "set (tj_stack s0) \<subseteq> set (tj_stack s)" "v \<in> set (tj_stack s)"
  using assms by (auto simp: tloop_def tj_index_of_def vis_def)

text \<open>Lowering \<open>low[v]\<close> to the index of a stack node that \<open>v\<close> reaches keeps the loop invariant.\<close>

lemma tloop_lower:
  assumes lp: "tloop adj V G v D s0 s" and y: "y \<in> set (tj_stack s)" "reach adj v y" "tj_index_of s y < tj_low s v"
  shows "tloop adj V G v D s0 (s\<lparr>tj_low := (tj_low s)(v := tj_index_of s y)\<rparr>)"
proof -
  note d = tloopD [OF lp]
  have ex: "extends s0 (s\<lparr>tj_low := (tj_low s)(v := tj_index_of s y)\<rparr>)"
    using d(2,3) by (auto simp: extends_def)
  have "low_bound adj v D s0 (s\<lparr>tj_low := (tj_low s)(v := tj_index_of s y)\<rparr>)"
    using lp y(3) unfolding tloop_def low_bound_def by fastforce
  then show ?thesis
    using lp y ex unfolding tloop_def by auto
qed

lemma edge_seen:
  assumes lp: "tloop adj V G v D s0 s" and w: "w \<in> set (adj v)" "tj_index s w \<noteq> None"
    and hit: "\<not> (tj_onStack s w \<and> tj_index_of s w < tj_low s v)"
  shows "tloop adj V G v (insert w D) s0 s"
proof -
  note d = tloopD [OF lp]
  have wv: "w \<in> vis s" using w by (auto simp: vis_def)
  have "w \<in> set (tj_stack s0) \<Longrightarrow> tj_low s v \<le> tj_index_of s w"
    using hit d(10) tinvD(4) [OF d(1)] by auto
  moreover have "low_bound adj v D s0 s" using lp by (simp add: tloop_def)
  ultimately have "low_bound adj v (insert w D) s0 s" unfolding low_bound_def by (metis insertE)
  then show ?thesis using lp wv unfolding tloop_def by auto
qed

lemma edge_hit:
  assumes lp: "tloop adj V G v D s0 s" and w: "w \<in> set (adj v)" "tj_index s w \<noteq> None"
    and hit: "tj_onStack s w" "tj_index_of s w < tj_low s v"
  shows "tloop adj V G v (insert w D) s0 (s\<lparr>tj_low := (tj_low s)(v := tj_index_of s w)\<rparr>)"
proof (rule edge_seen)
  have "w \<in> set (tj_stack s)" using hit(1) tinvD(4) [OF tloopD(1) [OF lp]] by blast
  then show "tloop adj V G v D s0 (s\<lparr>tj_low := (tj_low s)(v := tj_index_of s w)\<rparr>)"
    using tloop_lower [OF lp] w(1) hit(2) by blast
qed (use w in simp_all)

lemma edge_rec:
  assumes lp: "tloop adj V G v D s0 s" and w: "w \<in> set (adj v)" "w \<notin> vis s"
    and post: "tpost adj V (insert v G) w s s1"
  shows "tloop adj V G v (insert w D) s0
    (if tj_low s1 w < tj_low s1 v then s1\<lparr>tj_low := (tj_low s1)(v := tj_low s1 w)\<rparr> else s1)"
proof -
  note d = tloopD [OF lp]
  have inv1: "tinv adj V (insert v G) s1" and ex: "extends s s1" and wv: "w \<in> vis s1" and nx: "tj_next s \<le> tj_index_of s1 w"
    using post by (auto simp: tpost_def)
  have ix: "tj_index_of s1 x = tj_index_of s x" if "x \<in> vis s" for x by (rule extends_index [OF ex that])
  have stv: "set (tj_stack s) \<subseteq> vis s" using tinvD(1) [OF d(1)] by blast
  have lowv: "tj_low s1 v = tj_low s v" using ex d(7) by (simp add: extends_def)
  obtain ext where st1: "tj_stack s1 = ext @ tj_stack s" using ex by (auto simp: extends_def)
  obtain e0 where st: "tj_stack s = e0 @ v # tj_stack s0" using lp by (auto simp: tloop_def)
  have ws0: "w \<notin> set (tj_stack s0)" using w(2) d(10) stv by blast
  have dist: "distinct (ext @ e0 @ v # tj_stack s0)" using tinvD(3) [OF inv1] st1 st by simp
  have nxv: "tj_next s0 < tj_next s" using tinvD(6) [OF d(1), of v] d(6,7) by simp
  have base: "tloop adj V G v (insert w D) s0 (s1\<lparr>tj_low := (tj_low s1)(v := min (tj_low s1 v) (tj_low s1 w))\<rparr>)"
    if wit: "\<exists>y \<in> set (tj_stack s1). tj_index_of s1 y = min (tj_low s1 v) (tj_low s1 w) \<and> reach adj v y"
  proof -
    let ?s = "s1\<lparr>tj_low := (tj_low s1)(v := min (tj_low s1 v) (tj_low s1 w))\<rparr>"
    have "extends s0 s1" using extends_trans [OF d(2) ex] .
    then have ex': "extends s0 ?s" using d(3) by (auto simp: extends_def)
    have vix: "tj_index s1 v = Some (tj_next s0)" using lp ex d(7) by (auto simp: tloop_def extends_def)
    have c: "min (tj_low s1 v) (tj_low s1 w) \<le> tj_index_of s1 y"
      if x: "x \<in> set (tj_stack s1)" "x \<notin> set (tj_stack s0)"
        and y: "y \<in> set (tj_stack s0)" "y \<in> (if x = v then insert w D else set (adj x))" for x y
    proof (cases "x \<in> set (tj_stack s)")
      case True
      have "y \<in> (if x = v then D else set (adj x))" using y ws0 by (auto split: if_splits)
      then have "tj_low s v \<le> tj_index_of s y" using lp True x y(1) unfolding tloop_def low_bound_def by blast
      moreover have "y \<in> vis s" using y d(10) stv by blast
      ultimately show ?thesis using ix lowv by simp
    next
      case False
      then have "x \<noteq> v" using d(11) by blast
      then have "y \<in> set (adj x) \<inter> set (tj_stack s)" using y d(10) by auto
      then have "tj_low s1 w \<le> tj_index_of s1 y" using post False x unfolding tpost_def by blast
      then show ?thesis by simp
    qed
    show ?thesis
      unfolding tloop_def
    proof (intro conjI)
      show "tinv adj V (insert v G) ?s" using inv1 by simp
      show "\<exists>e. tj_stack ?s = e @ v # tj_stack s0" using st1 st by simp
      show "tj_low ?s v \<le> tj_next s0" using d(8) lowv by simp
      show "insert w D \<subseteq> vis ?s" using wv d(9) extends_vis [OF ex] by auto
      show "\<exists>y \<in> set (tj_stack ?s). tj_index_of ?s y = tj_low ?s v \<and> reach adj v y" using wit by simp
      show "low_bound adj v (insert w D) s0 ?s" unfolding low_bound_def using c by simp
    qed (use ex' vix d in simp_all)
  qed
  show ?thesis
  proof (cases "tj_low s1 w < tj_low s1 v")
    case True
    have "w \<in> set (tj_stack s1)"
    proof (rule ccontr)
      assume "w \<notin> set (tj_stack s1)"
      then have "tj_low s1 w = tj_index_of s1 w" using post by (simp add: tpost_def)
      then show False using True nx nxv d(8) lowv by linarith
    qed
    then obtain y where "y \<in> set (tj_stack s1)" "tj_index_of s1 y = tj_low s1 w" "reach adj w y"
      using post by (auto simp: tpost_def)
    then have "\<exists>y \<in> set (tj_stack s1). tj_index_of s1 y = min (tj_low s1 v) (tj_low s1 w) \<and> reach adj v y"
      using True w(1) by (auto intro!: bexI [of _ y] intro: converse_rtranclp_into_rtranclp)
    from base [OF this] True show ?thesis by (simp add: min_def)
  next
    case False
    from lp obtain y where "y \<in> set (tj_stack s)" "tj_index_of s y = tj_low s v" "reach adj v y" by (auto simp: tloop_def)
    then have "\<exists>y \<in> set (tj_stack s1). tj_index_of s1 y = min (tj_low s1 v) (tj_low s1 w) \<and> reach adj v y"
      using False ix stv lowv st1 by (intro bexI [of _ y]) (auto simp: min_def)
    from base [OF this] False show ?thesis by (simp add: min_def)
  qed
qed

section \<open>Leaving a node\<close>

lemma stack_split:
  assumes lp: "tloop adj V G v D s0 s"
  obtains ext where "tj_stack s = ext @ v # tj_stack s0" "v \<notin> set ext" "v \<notin> set (tj_stack s0)"
    "set ext \<inter> set (tj_stack s0) = {}"
    "\<forall>y \<in> set (tj_stack s0). tj_index_of s y < tj_index_of s v"
    "\<forall>x \<in> set ext. tj_index_of s v < tj_index_of s x"
proof -
  obtain ext where st: "tj_stack s = ext @ v # tj_stack s0" using lp by (auto simp: tloop_def)
  note d = tinvD [OF tloopD(1) [OF lp]]
  show thesis using that [OF st] d(3,5) unfolding st by (auto simp: sorted_wrt_append)
qed

lemma leave_low:
  assumes lp: "tloop adj V G v (set (adj v)) s0 s" and low: "tj_low s v \<noteq> tj_index_of s v"
  shows "tpost adj V G v s0 s"
proof -
  note d = tloopD [OF lp] and t = tinvD [OF tloopD(1) [OF lp]]
  have lt: "tj_low s v < tj_index_of s v" using low d(6,8) by simp
  from lp obtain y where y: "y \<in> set (tj_stack s)" "tj_index_of s y = tj_low s v" "reach adj v y" by (auto simp: tloop_def)
  from t(10) [OF y(1)] y(2) lt obtain g where g: "g \<in> G" "tj_index_of s g \<le> tj_low s v" "reach adj y g" by auto
  have vg: "reach adj v g" using y(3) g(3) by (rule rtranclp_trans)
  have five: "\<exists>h \<in> G. tj_index_of s h \<le> tj_index_of s x \<and> reach adj x h" if x: "x \<in> set (tj_stack s)" for x
  proof -
    from t(10) [OF x] obtain h where h: "h \<in> insert v G" "tj_index_of s h \<le> tj_index_of s x" "reach adj x h" by blast
    show ?thesis
    proof (cases "h = v")
      case True
      then show ?thesis using g(1,2) lt h(2) rtranclp_trans [OF h(3)] vg by (intro bexI [of _ g]) auto
    next
      case False
      then show ?thesis using h by blast
    qed
  qed
  have "tinv adj V G s"
    unfolding tinv_def
  proof (intro conjI)
    show "\<forall>x \<in> vis s - G. set (adj x) \<subseteq> vis s" using t(9) d(9) by blast
    show "\<forall>x \<in> set (tj_stack s). \<exists>h \<in> G. tj_index_of s h \<le> tj_index_of s x \<and> reach adj x h" using five by blast
  qed (use t in auto)
  moreover have "low_bound adj v (set (adj v)) s0 s" using lp by (simp add: tloop_def)
  then have "\<forall>x \<in> set (tj_stack s) - set (tj_stack s0). \<forall>z \<in> set (adj x) \<inter> set (tj_stack s0). tj_low s v \<le> tj_index_of s z"
    unfolding low_bound_def by (auto split: if_splits)
  ultimately show ?thesis using d y by (auto simp: tpost_def)
qed

lemma split_at_mem:
  "v \<notin> set ext \<Longrightarrow> takeWhile (\<lambda>w. w \<noteq> v) (ext @ v # rest) = ext"
  "v \<notin> set ext \<Longrightarrow> dropWhile (\<lambda>w. w \<noteq> v) (ext @ v # rest) = v # rest"
  by (induction ext) auto

lemma leave_pop:
  assumes lp: "tloop adj V G v (set (adj v)) s0 s" and low: "tj_low s v = tj_index_of s v"
  shows "tpost adj V G v s0 (tj_pop v s)"
proof -
  note d = tloopD [OF lp] and t = tinvD [OF tloopD(1) [OF lp]]
  obtain ext where st: "tj_stack s = ext @ v # tj_stack s0" and nv: "v \<notin> set ext" "v \<notin> set (tj_stack s0)"
    and dis: "set ext \<inter> set (tj_stack s0) = {}"
    and low0: "\<forall>y \<in> set (tj_stack s0). tj_index_of s y < tj_index_of s v"
    and high0: "\<forall>x \<in> set ext. tj_index_of s v < tj_index_of s x" by (rule stack_split [OF lp])
  note below = bspec [OF low0] and above = bspec [OF high0]
  have tw: "takeWhile (\<lambda>w. w \<noteq> v) (tj_stack s) = ext" "dropWhile (\<lambda>w. w \<noteq> v) (tj_stack s) = v # tj_stack s0"
    using split_at_mem [OF nv(1)] by (simp_all add: st)
  let ?c = "sort (ext @ [v])" and ?s = "tj_pop v s"
  have fr: "tj_stack ?s = tj_stack s0" "tj_out ?s = tj_out s @ [?c]" "vis ?s = vis s" "tj_next ?s = tj_next s"
    "tj_low ?s = tj_low s" "\<And>x. tj_index_of ?s x = tj_index_of s x" "tj_index ?s = tj_index s"
    "\<And>w. tj_onStack ?s w \<longleftrightarrow> tj_onStack s w \<and> w \<notin> insert v (set ext)"
    by (auto simp: tj_pop_def tw vis_def tj_index_of_def)
  have vx: "reach adj v x" if "x \<in> set ?c" for x
    using that t(11) [of v x] above by (auto simp: st less_imp_le)
  have xv: "reach adj x v" if x: "x \<in> set ?c" for x
  proof -
    have xs: "x \<in> set (tj_stack s)" using x by (auto simp: st)
    from t(10) [OF xs] obtain g where g: "g \<in> insert v G" "reach adj x g" by blast
    have "reach adj g v"
    proof (cases "g = v")
      case False
      then have gG: "g \<in> G" using g(1) by simp
      then have "tj_index_of s g \<le> tj_index_of s v" using d(4) below by (force simp: less_imp_le)
      then show ?thesis using t(11) [of g v] gG d(11) by simp
    qed simp
    then show ?thesis using g(2) by (rule rtranclp_trans [rotated])
  qed
  have closed: "set (adj x) \<subseteq> set ?c \<union> emitted (tj_out s)" if x: "x \<in> set ?c" for x
  proof
    fix y assume y: "y \<in> set (adj x)"
    have xs: "x \<in> set (tj_stack s)" "x \<notin> set (tj_stack s0)" using x nv dis by (auto simp: st)
    have "set (adj x) \<subseteq> vis s"
    proof (cases "x = v")
      case False
      then have "x \<notin> insert v G" using xs(2) d(4) by blast
      then show ?thesis using t(9) xs(1) t(1) by blast
    qed (use d(9) in simp)
    then have "y \<in> set (tj_stack s) \<union> emitted (tj_out s)" using y t(1) by blast
    moreover have "y \<notin> set (tj_stack s0)"
    proof
      assume y0: "y \<in> set (tj_stack s0)"
      have "low_bound adj v (set (adj v)) s0 s" using lp by (simp add: tloop_def)
      then have "tj_low s v \<le> tj_index_of s y" using xs y0 y unfolding low_bound_def by (cases "x = v") auto
      then show False using low below [OF y0] by simp
    qed
    ultimately show "y \<in> set ?c \<union> emitted (tj_out s)" by (auto simp: st)
  qed
  have co: "comps_ok adj (tj_out s @ [?c])"
  proof (rule comps_ok_snoc [OF t(12)])
    show "reach adj x y" if "x \<in> set ?c" "y \<in> set ?c" for x y
      by (rule rtranclp_trans [OF xv [OF that(1)] vx [OF that(2)]])
    show "set (adj x) \<subseteq> set ?c \<union> emitted (tj_out s)" if "x \<in> set ?c" for x by (rule closed [OF that])
  qed
  have "tinv adj V G ?s"
    unfolding tinv_def fr
  proof (intro conjI)
    show "vis s = set (tj_stack s0) \<union> emitted (tj_out s @ [?c])" using t(1) by (auto simp: st emitted_def)
    show "set (tj_stack s0) \<inter> emitted (tj_out s @ [?c]) = {}" using t(2) nv dis by (auto simp: st emitted_def)
    show "distinct (tj_stack s0)" "sorted_wrt (\<lambda>a b. tj_index_of s b < tj_index_of s a) (tj_stack s0)"
      using t(3,5) by (auto simp: st sorted_wrt_append)
    show "\<forall>x. (tj_onStack s x \<and> x \<notin> insert v (set ext)) \<longleftrightarrow> x \<in> set (tj_stack s0)" using t(4) nv dis by (auto simp: st)
    show "\<forall>x \<in> vis s - G. set (adj x) \<subseteq> vis s" using t(9) d(9) by blast
    show "\<forall>x \<in> set (tj_stack s0). \<exists>g \<in> G. tj_index_of s g \<le> tj_index_of s x \<and> reach adj x g"
    proof
      fix x assume x: "x \<in> set (tj_stack s0)"
      then obtain g where "g \<in> insert v G" "tj_index_of s g \<le> tj_index_of s x" "reach adj x g"
        using t(10) [of x] by (auto simp: st)
      then show "\<exists>g \<in> G. tj_index_of s g \<le> tj_index_of s x \<and> reach adj x g" using below [OF x] by auto
    qed
    show "\<forall>g \<in> G. \<forall>x \<in> set (tj_stack s0). tj_index_of s g \<le> tj_index_of s x \<longrightarrow> reach adj g x"
      using t(11) by (auto simp: st)
  qed (use t d co in auto)
  moreover have "extends s0 ?s" using d(2) by (auto simp: extends_def fr)
  ultimately show ?thesis using d nv low by (auto simp: tpost_def fr)
qed

section \<open>The search\<close>

lemma card_new:
  assumes "finite V" "v \<in> V" "v \<notin> W"
  shows "card (V - insert v W) < card (V - W)"
  using assms by (intro psubset_card_mono) auto

lemma strong_spec:
  assumes V: "finite V"
  shows "\<forall>x \<in> V. set (adj x) \<subseteq> V \<Longrightarrow> tinv adj V G s \<Longrightarrow> v \<notin> vis s \<Longrightarrow> v \<in> V \<Longrightarrow> (\<And>g. g \<in> G \<Longrightarrow> reach adj g v) \<Longrightarrow> card (V - vis s) \<le> n \<Longrightarrow>
      tpost adj V G v s (strong n adj v s)"
    and "\<forall>x \<in> V. set (adj x) \<subseteq> V \<Longrightarrow> tloop adj V G v D s0 t \<Longrightarrow> v \<in> V \<Longrightarrow> (\<And>g. g \<in> G \<Longrightarrow> reach adj g v) \<Longrightarrow> set ws \<subseteq> set (adj v) \<Longrightarrow>
      card (V - vis t) \<le> n \<Longrightarrow> tloop adj V G v (D \<union> set ws) s0 (strong_edges n adj v ws t)"
proof (induction n adj v s and n adj v ws t arbitrary: G and G D s0 rule: strong_strong_edges.induct)
  case (1 adj v s)
  then have "v \<in> V - vis s" "card (V - vis s) = 0" by auto
  then show ?case using V by (metis Diff_iff card_0_eq empty_iff finite_Diff)
next
  case (2 n adj v s)
  let ?t = "strong_edges n adj v (adj v) (tj_push v s)"
  have lp: "tloop adj V G v {} s (tj_push v s)" by (rule tj_push_loop) (use 2 in blast)+
  have "vis (tj_push v s) = insert v (vis s)" by (simp add: tj_push_def vis_def)
  then have "card (V - vis (tj_push v s)) \<le> n" using card_new [OF V "2.prems"(4,3)] "2.prems"(6) by simp
  from "2.IH" [OF "2.prems"(1) lp "2.prems"(4,5) subset_refl this] have lp': "tloop adj V G v (set (adj v)) s ?t" by simp
  show ?case using leave_low [OF lp'] leave_pop [OF lp'] by (auto simp: Let_def)
next
  case (3 n adj v t)
  then show ?case by simp
next
  case (4 n adj v w ws t)
  note d = tloopD [OF "4.prems"(2)]
  have w: "w \<in> set (adj v)" and wV: "w \<in> V"
    using "4.prems"(1,3,5) by auto
  define t' where "t' = (if tj_index t w = None
        then (let s1 = strong n adj w t in
              if tj_low s1 w < tj_low s1 v then s1\<lparr>tj_low := (tj_low s1)(v := tj_low s1 w)\<rparr> else s1)
        else if tj_onStack t w \<and> tj_index_of t w < tj_low t v
        then t\<lparr>tj_low := (tj_low t)(v := tj_index_of t w)\<rparr> else t)"
  have step: "tloop adj V G v (insert w D) s0 t' \<and> vis t \<subseteq> vis t'"
  proof (cases "tj_index t w = None")
    case True
    then have nw: "w \<notin> vis t" by (auto simp: vis_def)
    have rw: "reach adj g w" if "g \<in> insert v G" for g
      using that w "4.prems"(4) by (auto intro: rtranclp.rtrancl_into_rtrancl)
    have post: "tpost adj V (insert v G) w t (strong n adj w t)"
      by (rule "4.IH"(1) [OF True "4.prems"(1) d(1) nw wV rw "4.prems"(6)])
    then have "vis t \<subseteq> vis (strong n adj w t)" using extends_vis by (simp add: tpost_def)
    then show ?thesis using edge_rec [OF "4.prems"(2) w nw post] True by (auto simp: t'_def Let_def)
  next
    case False
    then show ?thesis
      using edge_seen [OF "4.prems"(2) w False] edge_hit [OF "4.prems"(2) w False] by (auto simp: t'_def)
  qed
  have "card (V - vis t') \<le> n"
    using step "4.prems"(6) card_mono [of "V - vis t" "V - vis t'"] V by fastforce
  moreover have "strong_edges n adj v (w # ws) t = strong_edges n adj v ws t'" by (simp add: t'_def)
  ultimately show ?case
    using "4.IH"(2) [folded t'_def, OF "4.prems"(1) conjunct1 [OF step] "4.prems"(3,4)] "4.prems"(5) by simp
qed

lemma tarjan_fold:
  assumes V: "finite V" "\<And>x. x \<in> V \<Longrightarrow> set (adj x) \<subseteq> V" "card V \<le> n" "set ns \<subseteq> V" and inv: "tinv adj V {} s"
  shows "tinv adj V {} (fold (\<lambda>m s. if tj_index s m = None then strong n adj m s else s) ns s)
    \<and> set ns \<union> vis s \<subseteq> vis (fold (\<lambda>m s. if tj_index s m = None then strong n adj m s else s) ns s)"
  using V(4) inv
proof (induction ns arbitrary: s)
  case (Cons m ns)
  let ?s = "if tj_index s m = None then strong n adj m s else s"
  have "tinv adj V {} ?s \<and> insert m (vis s) \<subseteq> vis ?s"
  proof (cases "tj_index s m = None")
    case True
    have V2: "\<forall>x \<in> V. set (adj x) \<subseteq> V" using V(2) by blast
    have "card (V - vis s) \<le> n" using V(1,3) card_mono [of V "V - vis s"] by simp
    from strong_spec(1) [OF V(1) V2 Cons.prems(2) _ _ _ this, of m] True Cons.prems(1)
    have "tpost adj V {} m s (strong n adj m s)" by (auto simp: vis_def)
    then show ?thesis using True extends_vis by (auto simp: tpost_def)
  next
    case False
    then show ?thesis using Cons.prems(2) by (auto simp: vis_def)
  qed
  then show ?case using Cons.IH [of ?s] Cons.prems(1) by auto
qed simp

lemma tarjan_comps_correct:
  assumes adj: "\<And>x. x \<in> set nodes \<Longrightarrow> set (adj x) \<subseteq> set nodes"
  shows "comps_ok adj (tarjan_comps adj nodes) \<and> emitted (tarjan_comps adj nodes) = set nodes"
proof -
  let ?f = "fold (\<lambda>m s. if tj_index s m = None then strong (Suc (length nodes)) adj m s else s) nodes tj_init"
  have init: "tinv adj (set nodes) {} tj_init"
    by (simp add: tinv_def tj_init_def vis_def emitted_def comps_ok_def)
  have "card (set nodes) \<le> Suc (length nodes)" using card_length [of nodes] by simp
  from tarjan_fold [OF _ adj this subset_refl init]
  have f: "tinv adj (set nodes) {} ?f" "set nodes \<subseteq> vis ?f" by auto
  note d = tinvD [OF f(1)]
  have "tj_stack ?f = []" using d(10) by (cases "tj_stack ?f") auto
  then show ?thesis using d(1,7,12) f(2) by (auto simp: tarjan_comps_def)
qed

section \<open>Properties\<close>

text \<open>
  C38: The component search is correct on every graph closed under its edges: its components cover
  the nodes, the members of one component reach each other, and every edge leads into the same or
  an earlier component, so evaluating them in order meets only finished dependencies.
\<close>

theorem tarjan_dependency_order:
  assumes "\<forall>x \<in> set nodes. set (adj x) \<subseteq> set nodes"
  shows "emitted (tarjan_comps adj nodes) = set nodes
    \<and> (\<forall>c \<in> set (tarjan_comps adj nodes). \<forall>x \<in> set c. \<forall>y \<in> set c. reach adj x y)
    \<and> (\<forall>i < length (tarjan_comps adj nodes). \<forall>x \<in> set (tarjan_comps adj nodes ! i).
          set (adj x) \<subseteq> emitted (take (Suc i) (tarjan_comps adj nodes)))"
proof -
  have "comps_ok adj (tarjan_comps adj nodes) \<and> emitted (tarjan_comps adj nodes) = set nodes"
    by (rule tarjan_comps_correct) (use assms in blast)
  then show ?thesis by (simp add: comps_ok_def)
qed

theorem tarjan_dependency_order_witness:
  "emitted (tarjan_comps (\<lambda>x. [''b'']) [''a'', ''b'']) = {''a'', ''b''}"
  using tarjan_dependency_order [of "[''a'', ''b'']" "\<lambda>x. [''b'']"] by simp

end
