(* ===== verification/Cone.thy ===== *)
theory Cone
  imports Component Tarjan
begin

text \<open>
  The dependency cone of a goal and the evaluation of a whole goal bottom-up
  (\<open>internal/datalog/bottomup.go\<close>: \<open>cone\<close>, \<open>solveBottomUp\<close>). The goal's table ends up holding
  exactly the goal's relation in the perfect model.
\<close>

section \<open>The cone\<close>

definition reads :: "engine \<Rightarrow> string \<Rightarrow> string list" where
  "reads e rel =
     concat (map (\<lambda>r. map l_rel (filter (\<lambda>l. derived e (l_rel l)) (ru_body r))) (en_rules e rel))"

text \<open>
  The closure \<open>collect\<close>, with the nodes found so far as its state. The fuel bounds the depth of
  the recursion, at most the number of derived relations.
\<close>

primrec collect :: "nat \<Rightarrow> engine \<Rightarrow> string \<Rightarrow> string list \<Rightarrow> string list" where
  "collect 0 e rel seen = seen"
| "collect (Suc n) e rel seen =
     (if rel \<in> set seen \<or> \<not> derived e rel then seen
      else fold (\<lambda>l s. collect n e l s) (reads e rel) (seen @ [rel]))"

fun dedupe :: "string list \<Rightarrow> string list" where
  "dedupe [] = []"
| "dedupe [x] = [x]"
| "dedupe (x # y # xs) = (if x = y then dedupe (y # xs) else x # dedupe (y # xs))"

definition cone_adj :: "engine \<Rightarrow> string \<Rightarrow> string list" where
  "cone_adj e n = dedupe (sort (reads e n))"

definition cone :: "engine \<Rightarrow> string \<Rightarrow> string list list" where
  "cone e goal =
     tarjan_comps (cone_adj e) (sort (collect (Suc (length (en_ruleOrder e))) e goal []))"

definition solveBottomUp :: "string \<Rightarrow> engine \<Rightarrow> dl_error + itup list \<times> engine" where
  "solveBottomUp goal e =
     bindE (foldE evalComponent (cone e goal) (newBottomUp, e)) (\<lambda>(bu, e1).
       bindE (arityOf e1 goal) (\<lambda>ar.
         let (k, e2) = freeTable e1 goal (nat ar) in Inr (trows e2 k, e2)))"

section \<open>The nodes are closed under reads\<close>

lemma set_dedupe [simp]: "set (dedupe xs) = set xs"
  by (induction xs rule: dedupe.induct) auto

lemma reads_derived: "x \<in> set (reads e rel) \<Longrightarrow> derived e x"
  by (auto simp: reads_def)

definition collected :: "engine \<Rightarrow> string list \<Rightarrow> string list \<Rightarrow> bool" where
  "collected e seen s \<longleftrightarrow> set seen \<subseteq> set s \<and> (\<forall>x \<in> set s - set seen. derived e x \<and> set (reads e x) \<subseteq> set s)"

lemma collected_refl [simp]: "collected e s s"
  by (simp add: collected_def)

lemma collected_trans: "collected e a b \<Longrightarrow> collected e b c \<Longrightarrow> collected e a c"
  unfolding collected_def by blast

lemma collect_spec:
  assumes fin: "finite {x. derived e x}"
  shows "card ({x. derived e x} - set seen) \<le> n \<Longrightarrow>
    collected e seen (collect n e rel seen) \<and> (derived e rel \<longrightarrow> rel \<in> set (collect n e rel seen))"
proof (induction n arbitrary: rel seen)
  case 0
  then have "{x. derived e x} \<subseteq> set seen" using fin by simp
  then show ?case by auto
next
  case (Suc n)
  let ?D = "{x. derived e x}"
  have loop: "collected e s (fold (\<lambda>l s. collect n e l s) ls s) \<and> {l \<in> set ls. derived e l} \<subseteq> set (fold (\<lambda>l s. collect n e l s) ls s)"
    if "card (?D - set s) \<le> n" for ls s
    using that
  proof (induction ls arbitrary: s)
    case (Cons l ls)
    have one: "collected e s (collect n e l s) \<and> (derived e l \<longrightarrow> l \<in> set (collect n e l s))"
      by (rule Suc.IH [OF Cons.prems])
    then have "set s \<subseteq> set (collect n e l s)" by (simp add: collected_def)
    then have "?D - set (collect n e l s) \<subseteq> ?D - set s" by blast
    then have "card (?D - set (collect n e l s)) \<le> n"
      using Cons.prems card_mono [OF finite_Diff [OF fin]] le_trans by blast
    note rest = Cons.IH [OF this]
    have "collected e s (fold (\<lambda>l s. collect n e l s) (l # ls) s)"
      using collected_trans [OF conjunct1 [OF one] conjunct1 [OF rest]] by simp
    moreover have "set (collect n e l s) \<subseteq> set (fold (\<lambda>l s. collect n e l s) ls (collect n e l s))"
      using rest unfolding collected_def by blast
    then have "derived e l \<longrightarrow> l \<in> set (fold (\<lambda>l s. collect n e l s) ls (collect n e l s))" using one by blast
    ultimately show ?case using rest by auto
  qed simp
  show ?case
  proof (cases "rel \<in> set seen \<or> \<not> derived e rel")
    case True
    then show ?thesis by auto
  next
    case False
    then have "card (?D - set (seen @ [rel])) \<le> n"
      using card_new [OF fin, of rel "set seen"] Suc.prems by simp
    note l = loop [OF this, of "reads e rel"]
    have "set (reads e rel) \<subseteq> set (collect (Suc n) e rel seen)"
      using l False reads_derived by (auto simp: subset_iff)
    then show ?thesis using l False by (auto simp: collected_def)
  qed
qed

declare collect.simps(2) [simp del]

lemma cone_nodes:
  assumes ok: "prog_ok ar e" and goal: "derived e goal"
  defines "nodes \<equiv> collect (Suc (length (en_ruleOrder e))) e goal []"
  shows "goal \<in> set nodes" "\<And>x. x \<in> set nodes \<Longrightarrow> derived e x \<and> set (reads e x) \<subseteq> set nodes"
proof -
  have D: "{x. derived e x} = head_rels (en_ruleOrder e)" using derived_iff [OF ok] by auto
  have fin: "finite {x. derived e x}" by (simp add: D head_rels_def)
  have "card {x. derived e x} \<le> Suc (length (en_ruleOrder e))"
    unfolding D head_rels_def using card_length [of "map (\<lambda>r. l_rel (ru_head r)) (en_ruleOrder e)"] by simp
  then have "collected e [] nodes \<and> (derived e goal \<longrightarrow> goal \<in> set nodes)"
    unfolding nodes_def by (intro collect_spec [OF fin]) simp
  then show "goal \<in> set nodes" "\<And>x. x \<in> set nodes \<Longrightarrow> derived e x \<and> set (reads e x) \<subseteq> set nodes"
    using goal by (simp_all add: collected_def)
qed

lemma cone_spec:
  assumes ok: "prog_ok ar e" and goal: "derived e goal"
  shows "comps_ok (cone_adj e) (cone e goal)" "goal \<in> emitted (cone e goal)"
    "\<And>x. x \<in> emitted (cone e goal) \<Longrightarrow> derived e x"
proof -
  let ?nodes = "sort (collect (Suc (length (en_ruleOrder e))) e goal [])"
  note n = cone_nodes [OF ok goal]
  have "set (cone_adj e x) \<subseteq> set ?nodes" if "x \<in> set ?nodes" for x
    using n(2) [of x] that by (simp add: cone_adj_def)
  from tarjan_comps_correct [of ?nodes "cone_adj e", OF this]
  have c: "comps_ok (cone_adj e) (cone e goal)" "emitted (cone e goal) = set ?nodes" unfolding cone_def by blast+
  show "comps_ok (cone_adj e) (cone e goal)" by (rule c(1))
  show "goal \<in> emitted (cone e goal)" using n(1) unfolding c(2) by simp
  show "\<And>x. x \<in> emitted (cone e goal) \<Longrightarrow> derived e x" using n(2) unfolding c(2) by simp
qed

section \<open>Components respect the strata\<close>

lemma rule_in_rules: "prog_ok ar e \<Longrightarrow> r \<in> set (en_rules e rel) \<longleftrightarrow> r \<in> set (en_ruleOrder e) \<and> l_rel (ru_head r) = rel"
  by (simp add: prog_ok_def)

lemma adj_iff:
  assumes "prog_ok ar e"
  shows "y \<in> set (cone_adj e x) \<longleftrightarrow> derived e y
    \<and> (\<exists>r \<in> set (en_ruleOrder e). l_rel (ru_head r) = x \<and> (\<exists>l \<in> set (ru_body r). l_rel l = y))"
  using rule_in_rules [OF assms] by (auto simp: cone_adj_def reads_def)

lemma reach_stratum:
  assumes ok: "prog_ok ar e" and st: "stratification (en_ruleOrder e) st" and "reach (cone_adj e) x y"
  shows "st y \<le> st x"
  using assms(3)
proof (induction rule: rtranclp_induct)
  case (step y z)
  then obtain r l where "r \<in> set (en_ruleOrder e)" "l_rel (ru_head r) = y" "l \<in> set (ru_body r)" "l_rel l = z" "derived e z"
    using adj_iff [OF ok] by auto
  then have "st z \<le> st y" using stratification_read(1) [OF st, of r l] derived_iff [OF ok] by auto
  then show ?case using step.IH by simp
qed simp

lemma comp_ready_at:
  assumes ok: "prog_ok ar e" and st: "stratification (en_ruleOrder e) st"
    and cs: "comps_ok (cone_adj e) cs" "i < length cs" "\<And>x. x \<in> emitted cs \<Longrightarrow> derived e x"
    and bu: "\<And>rel. bu_complete bu rel \<longleftrightarrow> rel \<in> emitted (take i cs)"
  shows "comp_ready e bu (cs ! i)"
proof -
  have der: "derived e x" if "x \<in> set (cs ! i)" for x
    using that cs(2,3) nth_mem by (auto simp: emitted_def)
  have "(settled e bu (l_rel l) \<or> l_rel l \<in> set (cs ! i))
      \<and> (ru_agg r \<noteq> None \<longrightarrow> settled e bu (l_rel l) \<and> l_rel l \<notin> set (cs ! i))"
    if r: "r \<in> set (en_ruleOrder e)" "l_rel (ru_head r) \<in> set (cs ! i)" and l: "l \<in> set (ru_body r)" for r l
  proof (cases "derived e (l_rel l)")
    case False
    then show ?thesis using der by (auto simp: settled_def)
  next
    case True
    then have adj: "l_rel l \<in> set (cone_adj e (l_rel (ru_head r)))" using adj_iff [OF ok] r(1) l by auto
    have "set (cone_adj e (l_rel (ru_head r))) \<subseteq> emitted (take (Suc i) cs)"
      using cs(1,2) r(2) by (auto simp: comps_ok_def)
    then have em: "l_rel l \<in> emitted (take i cs) \<or> l_rel l \<in> set (cs ! i)"
      using adj cs(2) by (auto simp: emitted_def take_Suc_conv_app_nth)
    have "l_rel l \<notin> set (cs ! i)" if "ru_agg r \<noteq> None"
    proof
      assume "l_rel l \<in> set (cs ! i)"
      then have "reach (cone_adj e) (l_rel l) (l_rel (ru_head r))"
        using cs(1) r(2) nth_mem [OF cs(2)] unfolding comps_ok_def by blast
      then have "st (l_rel (ru_head r)) \<le> st (l_rel l)" by (rule reach_stratum [OF ok st])
      moreover have "st (l_rel l) < st (l_rel (ru_head r))"
        using stratification_read(2) [OF st r(1) l] that True derived_iff [OF ok] by auto
      ultimately show False by simp
    qed
    then show ?thesis using em bu by (auto simp: settled_def)
  qed
  then show ?thesis using der by (auto simp: comp_ready_def)
qed

section \<open>Whole goals\<close>

definition engine_ok :: "(string \<Rightarrow> nat) \<Rightarrow> interp \<Rightarrow> engine \<Rightarrow> bool" where
  "engine_ok ar M e \<longleftrightarrow> prog_ok ar e \<and> (\<exists>st. stratification (en_ruleOrder e) st) \<and> engine_model e M
     \<and> \<not> en_recordProv e \<and> tables_ok M ar e"

lemma evalComponents_result:
  assumes ok: "prog_ok ar e0" and st: "stratification (en_ruleOrder e0) st"
    and cs: "comps_ok (cone_adj e0) cs" "\<And>x. x \<in> emitted cs \<Longrightarrow> derived e0 x"
    and inv: "bu_inv M ar e0 bu e" and fin: "\<And>rel. bu_complete bu rel \<longleftrightarrow> rel \<in> emitted (take i cs)"
    and run: "foldE evalComponent (drop i cs) (bu, e) = Inr (bu', e')"
  shows "bu_inv M ar e0 bu' e' \<and> (\<forall>rel. bu_complete bu' rel \<longleftrightarrow> rel \<in> emitted cs)"
  using inv fin run
proof (induction "length cs - i" arbitrary: i bu e)
  case 0
  then show ?case by simp
next
  case (Suc n)
  then have i: "i < length cs" by simp
  then have dr: "drop i cs = cs ! i # drop (Suc i) cs" by (simp add: Cons_nth_drop_Suc)
  with Suc.prems(3) obtain bu1 e1 where one: "evalComponent (cs ! i) (bu, e) = Inr (bu1, e1)"
    and rest: "foldE evalComponent (drop (Suc i) cs) (bu1, e1) = Inr (bu', e')" by auto
  have ready: "comp_ready e0 bu (cs ! i)" by (rule comp_ready_at [OF ok st cs(1) i cs(2) Suc.prems(2)])
  note r = evalComponent_result [OF Suc.prems(1) ready one]
  have "bu_complete bu1 rel \<longleftrightarrow> rel \<in> emitted (take (Suc i) cs)" for rel
    using r Suc.prems(2) i by (auto simp: emitted_def take_Suc_conv_app_nth)
  then show ?case using Suc.hyps(1) [of "Suc i"] Suc.hyps(2) r rest by auto
qed

lemma solveBottomUp_result:
  assumes ok: "engine_ok ar M e" and goal: "derived e goal" and run: "solveBottomUp goal e = Inr (ts, e')"
  shows "set ts = M goal \<and> distinct ts \<and> engine_ok ar M e' \<and> same_prog e e' \<and> tb_complete e' (fkey ar goal)"
proof -
  have pr: "prog_ok ar e" and mod: "engine_model e M" and np: "\<not> en_recordProv e" and tb: "tables_ok M ar e"
    using ok by (simp_all add: engine_ok_def)
  obtain st where st: "stratification (en_ruleOrder e) st" using ok by (auto simp: engine_ok_def)
  note c = cone_spec [OF pr goal]
  from run obtain bu e1 where fold: "foldE evalComponent (cone e goal) (newBottomUp, e) = Inr (bu, e1)"
    and rest: "bindE (arityOf e1 goal) (\<lambda>ar. let (k, e2) = freeTable e1 goal (nat ar) in Inr (trows e2 k, e2)) = Inr (ts, e')"
    by (auto simp: solveBottomUp_def)
  have inv0: "bu_inv M ar e newBottomUp e"
    using pr mod np tb by (simp add: bu_inv_def bu_ok_def newBottomUp_def)
  have "bu_complete newBottomUp rel \<longleftrightarrow> rel \<in> emitted (take 0 (cone e goal))" for rel
    by (simp add: newBottomUp_def emitted_def)
  from evalComponents_result [OF pr st c(1,3) inv0 this, of bu e1] fold
  have inv: "bu_inv M ar e bu e1" and cmp: "bu_complete bu goal" using c(2) by auto
  note iv = bu_invD [OF inv]
  have "arityOf e1 goal = Inr (int (ar goal))" using arityOf_derived [OF pr goal] arityOf_same [OF iv(1)] by simp
  moreover from cmp iv(6) have tc: "tb_complete e1 (fkey ar goal)" by (auto simp: bu_ok_def)
  then obtain t where t: "en_tables e1 (fkey ar goal) = Some t" "tb_state t = TComplete"
    by (auto simp: tb_complete_def split: option.splits)
  then have "freeTable e1 goal (ar goal) = (fkey ar goal, e1)" by (simp add: freeTable_def Let_def)
  ultimately have ts: "ts = r_tuples (tb_rel t)" "e' = e1" using rest t by (auto simp: trows_def)
  have "mentioned e1 goal" using derived_mentioned [OF pr goal] iv(11) by simp
  then have "table_ok M (ar goal) goal t" using iv(5) t by (simp add: tables_ok_def)
  then have "set ts = M goal" "distinct ts" using t ts relation_okD(3) by (auto simp: table_ok_def)
  moreover have "engine_ok ar M e1"
  proof -
    have "facts e1 = facts e" by (rule ext) (simp add: facts_def iv(8))
    then have "engine_model e1 M" using mod iv(7,9) by (simp add: engine_model_def)
    moreover have "prog_ok ar e1" using pr iv(1,7,8,11) by (simp add: prog_ok_def same_prog_def)
    ultimately show ?thesis using iv(5,7,10) st by (auto simp: engine_ok_def)
  qed
  ultimately show ?thesis using ts iv(1) tc by simp
qed

end
