(* ===== verification/TopDown.thy ===== *)
theory TopDown
  imports Cone
begin

text \<open>
  The tabled evaluator (\<open>internal/datalog/solve.go\<close>: \<open>solve\<close>, \<open>solveComplete\<close>, \<open>solveNegated\<close>;
  \<open>bottomup.go\<close>: \<open>topDown\<close>). \<open>solve\<close> calls itself through the rule bodies, so its model is one
  step with the recursive call as an argument, iterated with fuel; running out of fuel is an
  error of its own.
\<close>

section \<open>The evaluator\<close>

type_synonym solver = "string \<Rightarrow> binds \<Rightarrow> engine \<Rightarrow> dl_error + itup list \<times> engine"

definition mark_complete :: "(sgKey \<Rightarrow> bool) \<Rightarrow> engine \<Rightarrow> engine" where
  "mark_complete touched e = e\<lparr>en_tables := (\<lambda>k.
     if touched k then map_option (\<lambda>t. t\<lparr>tb_state := TComplete\<rparr>) (en_tables e k) else en_tables e k)\<rparr>"

text \<open>
  The round loop of \<open>solveComplete\<close>. Each round starts with an empty round state; the states of
  the rounds are merged into \<open>touched\<close>, whose tables are final once a round adds nothing.
\<close>

primrec td_rounds :: "nat \<Rightarrow> solver \<Rightarrow> bool \<Rightarrow> string \<Rightarrow> binds \<Rightarrow> (sgKey \<Rightarrow> bool) \<Rightarrow> engine
    \<Rightarrow> dl_error + itup list \<times> engine" where
  "td_rounds 0 slv topLevel rel bs touched e = Inl (EvalE (ENoFixpoint rel (en_maxRounds e)))"
| "td_rounds (Suc i) slv topLevel rel bs touched e =
     bindE (slv rel bs (e\<lparr>en_round := (\<lambda>_. False)\<rparr>)) (\<lambda>(out, e1).
       let touched' = (\<lambda>k. touched k \<or> en_round e1 k) in
       if en_grown e1 = en_grown e
       then Inr (out, if topLevel then mark_complete touched' e1 else e1)
       else td_rounds i slv topLevel rel bs touched' e1)"

definition solveComplete_with :: "solver \<Rightarrow> solver" where
  "solveComplete_with slv rel bs e =
     bindE (td_rounds (en_maxRounds e) slv (en_evalDepth e = 0) rel bs (\<lambda>_. False)
              (e\<lparr>en_evalDepth := Suc (en_evalDepth e)\<rparr>)) (\<lambda>(out, e1).
       Inr (out, e1\<lparr>en_evalDepth := en_evalDepth e1 - 1, en_round := en_round e\<rparr>))"

definition solveNegated_with :: "solver \<Rightarrow> string \<Rightarrow> binds \<Rightarrow> engine \<Rightarrow> dl_error + bool \<times> engine" where
  "solveNegated_with slv rel bs e =
     (if en_rules e rel = [] then
        (case en_base e rel of
           None \<Rightarrow> Inl (EvalE (EUnknownRel rel))
         | Some br \<Rightarrow> Inr (exists_match br bs, e))
      else
        let k = free_key rel (length bs);
            probe = (\<lambda>a. case en_tables a k of Some t \<Rightarrow> exists_match (tb_rel t) bs
                         | None \<Rightarrow> (case en_base a rel of Some br \<Rightarrow> exists_match br bs | None \<Rightarrow> False)) in
        if tb_complete e k then Inr (probe e, e)
        else bindE (solveComplete_with slv rel (replicate (length bs) None) e) (\<lambda>(_, e1).
               let e2 = set_state k TComplete e1 in Inr (probe e2, e2)))"

definition td_litTuples :: "solver \<Rightarrow> nat \<Rightarrow> literal \<Rightarrow> binds \<Rightarrow> engine \<Rightarrow> dl_error + itup list \<times> engine" where
  "td_litTuples slv p l bs e =
     (if \<not> derived e (l_rel l) then
        (case en_base e (l_rel l) of
           None \<Rightarrow> Inl (EvalE (EUnknownRel (l_rel l)))
         | Some br \<Rightarrow> Inr (fst (selectCands br bs), e))
      else slv (l_rel l) bs e)"

definition topDown :: "solver \<Rightarrow> bodySource" where
  "topDown slv = \<lparr>bs_lit = td_litTuples slv, bs_neg = (\<lambda>l. solveNegated_with slv (l_rel l))\<rparr>"

text \<open>Finding or creating the memo table of a subgoal.\<close>

definition open_table :: "string \<Rightarrow> binds \<Rightarrow> engine \<Rightarrow> engine" where
  "open_table rel bs e =
     (case en_tables e (subgoalKey rel bs) of
        Some _ \<Rightarrow> e
      | None \<Rightarrow> e\<lparr>en_tables := (en_tables e)(subgoalKey rel bs \<mapsto>
          \<lparr>tb_rel = newRelation rel (int (length bs)), tb_state = TDirty\<rparr>)\<rparr>)"

definition td_seed :: "string \<Rightarrow> binds \<Rightarrow> engine \<Rightarrow> dl_error + engine" where
  "td_seed rel bs e =
     (case en_base e rel of
        None \<Rightarrow> Inr e
      | Some br \<Rightarrow> each br bs (\<lambda>tup. record_tuple (subgoalKey rel bs) tup None []) e)"

definition td_produce :: "solver \<Rightarrow> string \<Rightarrow> binds \<Rightarrow> engine \<Rightarrow> dl_error + engine" where
  "td_produce slv rel bs e =
     (let k = subgoalKey rel bs; free = replicate (length bs) None in
      if \<not> en_demandDriven e \<and> subgoalKey rel free \<noteq> k then
        bindE (slv rel free e) (\<lambda>(all, e1).
          foldE (\<lambda>tup. record_tuple k tup None []) (filter (\<lambda>t. matches t bs) all) e1)
      else foldE (\<lambda>r. evalRule (topDown slv) r bs k) (en_rules e rel) e)"

definition tb_settle :: "sgKey \<Rightarrow> engine \<Rightarrow> engine" where
  "tb_settle k e =
     (case en_tables e k of
        Some t \<Rightarrow> if tb_state t = TProducing then set_state k TDirty e else e
      | None \<Rightarrow> e)"

definition solve_step :: "solver \<Rightarrow> solver" where
  "solve_step slv rel bs e =
     (if en_aggRel e rel then
        bindE (solveBottomUp rel e) (\<lambda>(its, e1).
          Inr (if anyBound bs then filter (\<lambda>t. matches t bs) its else its, e1))
      else if en_rules e rel = [] then
        (case en_base e rel of
           None \<Rightarrow> Inl (EvalE (EUnknownRel rel))
         | Some br \<Rightarrow> Inr (match br bs, e))
      else
        let k = subgoalKey rel bs; e1 = open_table rel bs e;
            busy = (case en_tables e1 k of Some t \<Rightarrow> tb_state t \<noteq> TDirty | None \<Rightarrow> False) in
        if busy \<or> en_round e1 k then Inr (trows e1 k, e1)
        else
          let e2 = (set_state k TProducing e1)\<lparr>en_round := (en_round e1)(k := True)\<rparr> in
          bindE (td_seed rel bs e2) (\<lambda>e3.
            bindE (td_produce slv rel bs e3) (\<lambda>e4. Inr (trows e4 k, tb_settle k e4))))"

primrec solve :: "nat \<Rightarrow> solver" where
  "solve 0 rel bs e = Inl (EvalE EOutOfFuel)"
| "solve (Suc n) rel bs e = solve_step (\<lambda>rl b a. solve n rl b a) rel bs e"

definition solveComplete :: "nat \<Rightarrow> solver" where
  "solveComplete n = solveComplete_with (solve n)"

section \<open>Goals without rules\<close>

lemma mark_complete_none [simp]: "mark_complete (\<lambda>_. False) e = e"
  by (simp add: mark_complete_def)

text \<open>A relation that is only asserted is answered from its facts in one round.\<close>

lemma solveComplete_base:
  assumes "en_rules e rel = []" "\<not> en_aggRel e rel" "en_base e rel = Some br" "0 < en_maxRounds e"
  shows "solveComplete (Suc n) rel bs e = Inr (match br bs, e)"
proof -
  obtain m where m: "en_maxRounds e = Suc m" using assms(4) by (cases "en_maxRounds e") auto
  show ?thesis
    using assms(1-3) m
    by (simp add: solveComplete_def solveComplete_with_def solve_step_def Let_def)
qed

end
