(* ===== verification/Engine.thy ===== *)
theory Engine
  imports TopDown
begin

text \<open>
  The public operations of the engine (\<open>internal/datalog/engine.go\<close>: \<open>New\<close>, \<open>Assert\<close>,
  \<open>LoadRules\<close>, \<open>Relations\<close>, \<open>reset\<close>; \<open>solve.go\<close>: \<open>Query\<close>, \<open>QueryPattern\<close>, \<open>RuleOf\<close>,
  \<open>Provenance\<close>; \<open>program.go\<close>).

  A Go operation that can fail after it has changed the engine returns the engine beside the
  error (\<open>Assert\<close>); one that fails before any change is a sum (\<open>LoadRules\<close>). The caps of the
  options are non-negative. A missing relation is reported with the rule that reads it; Go
  renders, sorts and deduplicates these pairs for the message.
\<close>

section \<open>Options and construction\<close>

record options =
  op_demandDriven :: bool
  op_maxTuples :: nat
  op_maxRounds :: nat
  op_provenance :: bool

definition withDefaults :: "options \<Rightarrow> options" where
  "withDefaults o1 = o1\<lparr>op_maxTuples := (if op_maxTuples o1 = 0 then 5000000 else op_maxTuples o1),
     op_maxRounds := (if op_maxRounds o1 = 0 then 200 else op_maxRounds o1)\<rparr>"

definition New :: "options \<Rightarrow> engine" where
  "New o0 =
     (let o1 = (if \<not> op_demandDriven o0 \<and> op_maxTuples o0 = 0 \<and> op_maxRounds o0 = 0
                then o0\<lparr>op_demandDriven := True\<rparr> else o0);
          o2 = withDefaults o1 in
      \<lparr>en_demandDriven = op_demandDriven o2, en_maxTuples = op_maxTuples o2, en_maxRounds = op_maxRounds o2,
       en_base = Map.empty, en_rules = (\<lambda>_. []), en_ruleOrder = [], en_strata = None, en_syms = newInterner,
       en_tables = Map.empty, en_evalDepth = 0, en_grown = 0, en_round = (\<lambda>_. False),
       en_aggRel = (\<lambda>_. False), en_agg = [], en_derivs = (\<lambda>_. []), en_derivSet = (\<lambda>_. False),
       en_fastRule = Map.empty, en_fastAmb = (\<lambda>_. False), en_recordProv = op_provenance o1, en_loaded = False\<rparr>)"

definition reset :: "engine \<Rightarrow> engine" where
  "reset e = e\<lparr>en_tables := Map.empty, en_evalDepth := 0, en_grown := 0, en_agg := []\<rparr>"

section \<open>Asserting facts\<close>

primrec assert_rows :: "string \<Rightarrow> nat \<Rightarrow> tuple list \<Rightarrow> relation \<Rightarrow> interner \<Rightarrow> dl_error option \<times> relation \<times> interner" where
  "assert_rows rel mx [] r i = (None, r, i)"
| "assert_rows rel mx (t # ts) r i =
     (let r1 = (if r_arity r < 0 then r\<lparr>r_arity := int (length t)\<rparr> else r) in
      if int (length t) \<noteq> r_arity r1 then (Some (LoadE (EFactArity rel (r_arity r1) (length t))), r1, i)
      else let (it, i1) = intern i t; (new, r2) = add r1 it in
        if new \<and> length (r_tuples r2) > mx then (Some (EvalE (EMaxTuples rel mx)), r2, i1)
        else assert_rows rel mx ts r2 i1)"

definition Assert :: "string \<Rightarrow> tuple list \<Rightarrow> engine \<Rightarrow> dl_error option \<times> engine" where
  "Assert rel tuples e =
     (if rel = [] then (Some (LoadE EEmptyRelName), e)
      else
        let r0 = (case en_base e rel of
                    Some r \<Rightarrow> r
                  | None \<Rightarrow> newRelation rel (case tuples of [] \<Rightarrow> -1 | t # _ \<Rightarrow> int (length t)));
            (err, r, i) = assert_rows rel (en_maxTuples e) tuples r0 (en_syms e);
            e1 = e\<lparr>en_base := (en_base e)(rel \<mapsto> r), en_syms := i\<rparr> in
        (err, if err = None then reset e1 else e1))"

section \<open>Loading rules\<close>

fun check_rules :: "rule list \<Rightarrow> dl_error + unit" where
  "check_rules [] = Inr ()"
| "check_rules (r # rs) =
     bindE (checkSafe r) (\<lambda>_.
       if ru_nvars r > 64 then Inl (LoadE (ETooManyVars (ru_name r) (ru_nvars r))) else check_rules rs)"

type_synonym arities = "string \<Rightarrow> nat option"

fun check_arities :: "literal list \<Rightarrow> arities \<Rightarrow> dl_error + arities" where
  "check_arities [] ar = Inr ar"
| "check_arities (l # ls) ar =
     (if is_builtin (l_rel l) then check_arities ls ar
      else case ar (l_rel l) of
             Some a \<Rightarrow> if a \<noteq> lit_arity l then Inl (LoadE (EArityClash (l_rel l) (int (lit_arity l)) (int a)))
                       else check_arities ls (ar(l_rel l \<mapsto> lit_arity l))
           | None \<Rightarrow> check_arities ls (ar(l_rel l \<mapsto> lit_arity l)))"

definition base_arities :: "engine \<Rightarrow> arities" where
  "base_arities e rel =
     (case en_base e rel of Some r \<Rightarrow> if r_arity r \<ge> 0 then Some (nat (r_arity r)) else None | None \<Rightarrow> None)"

definition rule_lits :: "rule \<Rightarrow> literal list" where
  "rule_lits r = ru_head r # ru_body r"

definition missing_rels :: "engine \<Rightarrow> rule list \<Rightarrow> (string \<times> string) list" where
  "missing_rels e rules =
     concat (map (\<lambda>r. map (\<lambda>l. (l_rel l, ru_name r))
       (filter (\<lambda>l. \<not> (l_rel l \<in> head_rels rules \<or> is_builtin (l_rel l)) \<and> en_base e (l_rel l) = None) (ru_body r))) rules)"

fun intern_args :: "interner \<Rightarrow> dterm list \<Rightarrow> dterm list \<times> interner" where
  "intern_args i [] = ([], i)"
| "intern_args i (a # as) =
     (let (a1, i1) = (if tm_isVar a then (a, i) else let (v, i1) = in_id i (tm_name a) in (a\<lparr>tm_sym := v\<rparr>, i1));
          (as1, i2) = intern_args i1 as in (a1 # as1, i2))"

definition internLit :: "interner \<Rightarrow> literal \<Rightarrow> literal \<times> interner" where
  "internLit i l = (let (as, i1) = intern_args i (l_args l) in (l\<lparr>l_args := as\<rparr>, i1))"

fun internLits :: "interner \<Rightarrow> literal list \<Rightarrow> literal list \<times> interner" where
  "internLits i [] = ([], i)"
| "internLits i (l # ls) = (let (l1, i1) = internLit i l; (ls1, i2) = internLits i1 ls in (l1 # ls1, i2))"

fun internRules :: "interner \<Rightarrow> rule list \<Rightarrow> rule list \<times> interner" where
  "internRules i [] = ([], i)"
| "internRules i (r # rs) =
     (let (h, i1) = internLit i (ru_head r); (b, i2) = internLits i1 (ru_body r);
          (rs1, i3) = internRules i2 rs in (r\<lparr>ru_head := h, ru_body := b\<rparr> # rs1, i3))"

definition backfill :: "arities \<Rightarrow> relation \<Rightarrow> string \<Rightarrow> relation" where
  "backfill ar r rel = (if r_arity r < 0 then (case ar rel of Some a \<Rightarrow> r\<lparr>r_arity := int a\<rparr> | None \<Rightarrow> r) else r)"

text \<open>The last part of \<open>LoadRules\<close>, once every check has passed: the whole engine is updated at once.\<close>

definition install :: "arities \<Rightarrow> strata \<Rightarrow> rule list \<Rightarrow> engine \<Rightarrow> engine" where
  "install ar st all e =
     (let (all1, i) = internRules (en_syms e) all; all2 = map resolveAggSlots all1 in
      reset (e\<lparr>
        en_base := (\<lambda>rel. map_option (\<lambda>r. backfill ar r rel) (en_base e rel)),
        en_syms := i, en_ruleOrder := all2,
        en_rules := (\<lambda>rel. filter (\<lambda>r. l_rel (ru_head r) = rel) all2),
        en_aggRel := (\<lambda>rel. \<exists>r \<in> set all2. l_rel (ru_head r) = rel \<and> ru_agg r \<noteq> None),
        en_strata := Some st, en_loaded := True\<rparr>))"

definition LoadRules :: "string \<Rightarrow> string \<Rightarrow> engine \<Rightarrow> dl_error + engine" where
  "LoadRules src name e =
     bindE (parseRules src name) (\<lambda>rules.
       bindE (check_rules rules) (\<lambda>_.
         let all = en_ruleOrder e @ rules in
         bindE (check_arities (concat (map rule_lits all)) (base_arities e)) (\<lambda>ar.
           bindE (stratify all) (\<lambda>st.
             if missing_rels e all \<noteq> [] then Inl (LoadE (EMissing (missing_rels e all)))
             else Inr (install ar st all e)))))"

section \<open>Queries\<close>

definition ready :: "string \<Rightarrow> nat \<Rightarrow> engine \<Rightarrow> dl_error + unit" where
  "ready goal n e =
     (if \<not> en_loaded e \<and> en_ruleOrder e = [] \<and> en_base e goal = None then Inl (LoadE (ENoRules goal))
      else bindE (arityOf e goal) (\<lambda>want.
        if want \<ge> 0 \<and> int n \<noteq> want then Inl (LoadE (EPatternArity goal want n)) else Inr ()))"

fun bindsOf :: "interner \<Rightarrow> tuple \<Rightarrow> binds \<times> interner" where
  "bindsOf i [] = ([], i)"
| "bindsOf i (s # p) =
     (let (b, i1) = (if s \<noteq> [] then (let (v, i1) = in_id i s in (Some v, i1)) else (None, i));
          (bs, i2) = bindsOf i1 p in (b # bs, i2))"

fun reveal_all :: "interner \<Rightarrow> itup list \<Rightarrow> dl_error + tuple list" where
  "reveal_all i [] = Inr []"
| "reveal_all i (t # ts) =
     (case reveal i t of
        None \<Rightarrow> Inl (EvalE EPanic)
      | Some u \<Rightarrow> bindE (reveal_all i ts) (\<lambda>us. Inr (u # us)))"

text \<open>\<open>compareTuples\<close> is the order of the lists of strings, so \<open>sortTuples\<close> is \<open>sort\<close>.\<close>

definition sortTuples :: "tuple list \<Rightarrow> tuple list" where
  "sortTuples ts = sort ts"

definition QueryPattern :: "nat \<Rightarrow> string \<Rightarrow> tuple \<Rightarrow> engine \<Rightarrow> dl_error + tuple list \<times> engine" where
  "QueryPattern fuel goal pat e =
     bindE (ready goal (length pat) e) (\<lambda>_.
       let (bs, i) = bindsOf (en_syms e) pat; e1 = e\<lparr>en_syms := i\<rparr> in
       bindE (if useBottomUp e1 goal bs then solveBottomUp goal e1 else solveComplete fuel goal bs e1) (\<lambda>(out, e2).
         bindE (reveal_all (en_syms e2) out) (\<lambda>res. Inr (sortTuples res, e2))))"

text \<open>A relation that was declared without tuples and that no rule mentions has arity \<open>-1\<close>; allocating its pattern panics.\<close>

definition Query :: "nat \<Rightarrow> string \<Rightarrow> engine \<Rightarrow> dl_error + tuple list \<times> engine" where
  "Query fuel goal e =
     bindE (arityOf e goal) (\<lambda>a.
       if a < 0 then Inl (EvalE EPanic) else QueryPattern fuel goal (replicate (nat a) []) e)"

definition RuleOf :: "string \<Rightarrow> tuple \<Rightarrow> engine \<Rightarrow> string option \<times> engine" where
  "RuleOf goal t e =
     (let (it, i) = intern (en_syms e) t; gk = groupKey goal it; e1 = e\<lparr>en_syms := i\<rparr> in
      (if en_fastAmb e1 gk then None else en_fastRule e1 gk, e1))"

fun tupleKey :: "tuple \<Rightarrow> string" where
  "tupleKey [] = []"
| "tupleKey [s] = s"
| "tupleKey (s # t) = s @ CHR 0x00 # tupleKey t"

definition derivKey :: "derivation \<Rightarrow> string" where
  "derivKey d = dv_rule d @ CHR 0x01 # tupleKey (dv_head d)
     @ concat (map (\<lambda>b. CHR 0x02 # ds_relation b @ CHR 0x03 # tupleKey (ds_tuple b)) (dv_body d))"

text \<open>The derivations that were recorded for a tuple, in the order of their keys.\<close>

definition derivations_of :: "string \<Rightarrow> tuple \<Rightarrow> engine \<Rightarrow> derivation list \<times> engine" where
  "derivations_of goal t e =
     (let (it, i) = intern (en_syms e) t in (sort_key derivKey (en_derivs e (groupKey goal it)), e\<lparr>en_syms := i\<rparr>))"

definition Provenance :: "nat \<Rightarrow> string \<Rightarrow> tuple \<Rightarrow> engine \<Rightarrow> dl_error + derivation list \<times> engine" where
  "Provenance fuel goal t e =
     bindE (ready goal (length t) e) (\<lambda>_.
       let prev = en_recordProv e in
       if en_aggRel e goal then
         bindE (solveBottomUp goal (reset (e\<lparr>en_recordProv := True\<rparr>))) (\<lambda>(_, e1).
           let (ds, e2) = derivations_of goal t (e1\<lparr>en_recordProv := prev\<rparr>) in
           if ds = [] then Inl (LoadE (ENotDerivable goal)) else Inr (ds, e2))
       else
         let (bs, i) = bindsOf (en_syms e) t; (it, i1) = intern i t; k = subgoalKey goal bs;
             e1 = e\<lparr>en_syms := i1, en_recordProv := True\<rparr>;
             e2 = (if tb_complete e1 k \<and> en_derivs e1 (groupKey goal it) = [] then set_state k TDirty e1 else e1) in
         bindE (solveComplete fuel goal bs e2) (\<lambda>(_, e3).
           let (ds, e4) = derivations_of goal t (e3\<lparr>en_recordProv := prev\<rparr>) in
           if ds = [] then
             (case en_base e4 goal of
                Some r \<Rightarrow> if has r it then Inr ([], e4) else Inl (LoadE (ENotDerivable goal))
              | None \<Rightarrow> Inl (LoadE (ENotDerivable goal)))
           else Inr (ds, e4)))"

definition Relations :: "string list \<Rightarrow> engine \<Rightarrow> (string \<times> int) list" where
  "Relations base_names e =
     (let heads = map (\<lambda>r. l_rel (ru_head r)) (en_ruleOrder e);
          arity = (\<lambda>n. case filter (\<lambda>r. l_rel (ru_head r) = n) (rev (en_ruleOrder e)) of
                         r # _ \<Rightarrow> int (lit_arity (ru_head r))
                       | [] \<Rightarrow> (case en_base e n of Some r \<Rightarrow> r_arity r | None \<Rightarrow> 0)) in
      map (\<lambda>n. (n, arity n)) (sort (remdups (base_names @ heads))))"

section \<open>Programs\<close>

record program =
  pr_src :: string
  pr_name :: string
  pr_base :: "string list"

definition prog_base :: "rule list \<Rightarrow> string list" where
  "prog_base rules =
     sort (remdups (filter (\<lambda>rel. rel \<noteq> [] \<and> rel \<notin> head_rels rules \<and> \<not> is_builtin rel)
       (concat (map (\<lambda>r. map l_rel (ru_body r)) rules))))"

fun check_safe_all :: "rule list \<Rightarrow> dl_error + unit" where
  "check_safe_all [] = Inr ()"
| "check_safe_all (r # rs) = bindE (checkSafe r) (\<lambda>_. check_safe_all rs)"

definition Compile :: "string \<Rightarrow> string \<Rightarrow> dl_error + program" where
  "Compile src name =
     bindE (parseRules src name) (\<lambda>rules.
       bindE (check_safe_all rules) (\<lambda>_.
         bindE (stratify rules) (\<lambda>_. Inr \<lparr>pr_src = src, pr_name = name, pr_base = prog_base rules\<rparr>)))"

text \<open>The fact base: relation names with their tuples, in the order of first mention, and the goals.\<close>

record factRelations =
  fr_rels :: "(string \<times> tuple list) list"
  fr_goals :: "string list"

definition NewFactRelations :: "string list \<Rightarrow> factRelations" where
  "NewFactRelations goals = \<lparr>fr_rels = [], fr_goals = goals\<rparr>"

definition Declare :: "string \<Rightarrow> factRelations \<Rightarrow> factRelations" where
  "Declare rel f = (if map_of (fr_rels f) rel = None then f\<lparr>fr_rels := fr_rels f @ [(rel, [])]\<rparr> else f)"

definition Add :: "string \<Rightarrow> tuple list \<Rightarrow> factRelations \<Rightarrow> factRelations" where
  "Add rel ts f =
     f\<lparr>fr_rels := AList.update rel ((case map_of (fr_rels f) rel of Some us \<Rightarrow> us | None \<Rightarrow> []) @ ts) (fr_rels f)\<rparr>"

fun assert_all :: "(string \<times> tuple list) list \<Rightarrow> engine \<Rightarrow> dl_error + engine" where
  "assert_all [] e = Inr e"
| "assert_all ((rel, ts) # fs) e =
     (case Assert rel ts e of (Some err, _) \<Rightarrow> Inl err | (None, e1) \<Rightarrow> assert_all fs e1)"

fun query_all :: "nat \<Rightarrow> string list \<Rightarrow> engine \<Rightarrow> dl_error + (string \<times> tuple list) list \<times> engine" where
  "query_all fuel [] e = Inr ([], e)"
| "query_all fuel (g # gs) e =
     bindE (Query fuel g e) (\<lambda>(ts, e1).
       bindE (query_all fuel gs e1) (\<lambda>(rest, e2). Inr ((g, ts) # rest, e2)))"

definition Eval_program :: "nat \<Rightarrow> program \<Rightarrow> factRelations \<Rightarrow> dl_error + (string \<times> tuple list) list \<times> engine" where
  "Eval_program fuel p f =
     (let e0 = New \<lparr>op_demandDriven = False, op_maxTuples = 0, op_maxRounds = 0, op_provenance = False\<rparr> in
      bindE (assert_all (sort_key fst (fr_rels f)) e0) (\<lambda>e1.
        bindE (LoadRules (pr_src p) (pr_name p) e1) (\<lambda>e2. query_all fuel (fr_goals f) e2)))"

end
