(* ===== verification/Loading.thy ===== *)
theory Loading
  imports Engine
begin

text \<open>
  What loading establishes. Parsing numbers the variables, the safety check bounds them by name,
  and the arity check fixes one arity per relation; together these are the static conditions the
  evaluator relies on, once every variable of a negated literal is bound by an earlier literal.
\<close>

section \<open>Parsed rules\<close>

definition agg_named :: "rule \<Rightarrow> bool" where
  "agg_named r \<longleftrightarrow> (case ru_agg r of None \<Rightarrow> True
     | Some a \<Rightarrow> isAggName (ag_fn a) \<and> mentions (ag_outVar a) (ru_head r)
         \<and> (\<exists>l \<in> set (ru_body r). \<not> l_neg l \<and> mentions (ag_inVar a) l))"

definition parsed :: "rule \<Rightarrow> bool" where
  "parsed r \<longleftrightarrow> well_numbered r \<and> agg_named r"

lemma agg_scan_fn:
  assumes "agg_scan r ls ag = Inr (kept, ag')" "\<And>a. ag = Some a \<Longrightarrow> isAggName (ag_fn a)" "ag' = Some a"
  shows "isAggName (ag_fn a)"
  using assms
proof (induction r ls ag arbitrary: kept rule: agg_scan.induct)
  case (2 r l ls ag)
  then show ?case by (auto split: if_splits) 
qed auto

lemma extractAgg_named:
  assumes "extractAgg r = Inr r'" "ru_agg r = None"
  shows "agg_named r'"
proof -
  from assms(1) obtain kept ag where sc: "agg_scan r (ru_body r) (ru_agg r) = Inr (kept, ag)"
    and rest: "(let r1 = r\<lparr>ru_body := kept, ru_agg := ag\<rparr> in
       case ag of None \<Rightarrow> Inr r1
       | Some a \<Rightarrow>
           if \<not> mentions (ag_outVar a) (ru_head r) then Inl (AggE (EAggOutMissing (ru_name r) (ag_outVar a)))
           else if mentions (ag_inVar a) (ru_head r) then Inl (AggE (EAggInHead (ru_name r) (ag_inVar a)))
           else if \<not> list_ex (\<lambda>l. \<not> l_neg l \<and> mentions (ag_inVar a) l) kept
           then Inl (AggE (EAggInUnbound (ru_name r) (ag_inVar a)))
           else Inr r1) = Inr r'"
    by (auto simp: extractAgg_def)
  show ?thesis
  proof (cases ag)
    case None
    then show ?thesis using rest by (auto simp: agg_named_def Let_def)
  next
    case (Some a)
    then have "isAggName (ag_fn a)" using agg_scan_fn [OF sc _ Some] assms(2) by simp
    then show ?thesis using rest Some by (auto simp: agg_named_def Let_def list_ex_iff split: if_splits)
  qed
qed

text \<open>Predicates that do not look at the slots survive numbering.\<close>

definition lit_names :: "literal \<Rightarrow> string \<times> bool \<times> (bool \<times> string) list" where
  "lit_names l = (l_rel l, l_neg l, map (\<lambda>a. (tm_isVar a, tm_name a)) (l_args l))"

lemma lit_names_mentions: "lit_names l = lit_names m \<Longrightarrow> mentions x l = mentions x m"
proof -
  assume "lit_names l = lit_names m"
  then have "set (map (\<lambda>a. (tm_isVar a, tm_name a)) (l_args l)) = set (map (\<lambda>a. (tm_isVar a, tm_name a)) (l_args m))"
    by (simp add: lit_names_def)
  moreover have "mentions x k \<longleftrightarrow> (True, x) \<in> set (map (\<lambda>a. (tm_isVar a, tm_name a)) (l_args k))" for k :: literal
    by (auto simp: mentions_def list_ex_iff)
  ultimately show ?thesis by simp
qed

lemma lit_names_pos:
  assumes "lit_names l = lit_names m"
  shows "(\<not> l_neg l \<and> mentions x l) = (\<not> l_neg m \<and> mentions x m)"
proof -
  have "l_neg l = l_neg m" using assms by (simp add: lit_names_def)
  then show ?thesis using lit_names_mentions [OF assms] by simp
qed

lemma bex_map_cong:
  assumes "map f xs = map g ys" "\<And>a b. f a = g b \<Longrightarrow> P a = Q b"
  shows "(\<exists>x \<in> set xs. P x) \<longleftrightarrow> (\<exists>y \<in> set ys. Q y)"
proof -
  have "f ` set xs = g ` set ys" using arg_cong [OF assms(1), of set] by simp
  then show ?thesis using assms(2) by (metis (no_types, lifting) imageE imageI)
qed

lemma agg_named_names:
  assumes "lit_names (ru_head r) = lit_names (ru_head q)" "map lit_names (ru_body r) = map lit_names (ru_body q)"
    and "map_option (\<lambda>a. (ag_fn a, ag_outVar a, ag_inVar a)) (ru_agg r) = map_option (\<lambda>a. (ag_fn a, ag_outVar a, ag_inVar a)) (ru_agg q)"
  shows "agg_named r = agg_named q"
proof -
  have body: "(\<exists>l \<in> set (ru_body r). \<not> l_neg l \<and> mentions x l) \<longleftrightarrow> (\<exists>l \<in> set (ru_body q). \<not> l_neg l \<and> mentions x l)" for x
    by (rule bex_map_cong [OF assms(2) lit_names_pos])
  have head: "mentions x (ru_head r) = mentions x (ru_head q)" for x by (rule lit_names_mentions [OF assms(1)])
  show ?thesis
  proof (cases "ru_agg r")
    case None
    then show ?thesis using assms(3) by (simp add: agg_named_def)
  next
    case (Some a)
    with assms(3) obtain b where "ru_agg q = Some b" "ag_fn a = ag_fn b" "ag_outVar a = ag_outVar b" "ag_inVar a = ag_inVar b"
      by (cases "ru_agg q") auto
    then show ?thesis by (simp add: agg_named_def Some head [of "ag_outVar b"] body [of "ag_inVar b"])
  qed
qed

lemma assignVars_lit_names:
  "lit_names (ru_head (assignVars r)) = lit_names (ru_head r)"
  "map lit_names (ru_body (assignVars r)) = map lit_names (ru_body r)"
  "ru_agg (assignVars r) = ru_agg r"
proof -
  have args: "map (\<lambda>a. (tm_isVar a, tm_name a)) bs = map (\<lambda>a. (tm_isVar a, tm_name a)) as"
    if "number_args as st = (bs, st')" for as bs st st'
    using that
  proof (induction as st arbitrary: bs st' rule: number_args.induct)
    case (2 a as m n)
    then show ?case by (auto split: if_splits option.splits prod.splits)
  qed simp
  have body: "map lit_names ms = map lit_names ls" if "number_body ls st = (ms, st')" for ls ms st st'
    using that
  proof (induction ls arbitrary: st ms)
    case (Cons l ls)
    from Cons.prems obtain as st1 ms' where "number_args (l_args l) st = (as, st1)" "number_body ls st1 = (ms', st')"
      "ms = l\<lparr>l_args := as\<rparr> # ms'" by (auto split: prod.splits)
    then show ?case using Cons.IH args by (simp add: lit_names_def)
  qed simp
  obtain ha st1 where h: "number_args (l_args (ru_head r)) (Map.empty, 0) = (ha, st1)" by (rule prod.exhaust)
  obtain b st2 where b: "number_body (ru_body r) st1 = (b, st2)" by (rule prod.exhaust)
  show "lit_names (ru_head (assignVars r)) = lit_names (ru_head r)"
    "map lit_names (ru_body (assignVars r)) = map lit_names (ru_body r)" "ru_agg (assignVars r) = ru_agg r"
    using args [OF h] body [OF b] by (simp_all add: assignVars_def h b lit_names_def)
qed

lemma resolve_frame [simp]:
  "ru_head (resolveAggSlots r) = ru_head r" "ru_body (resolveAggSlots r) = ru_body r"
  "ru_nvars (resolveAggSlots r) = ru_nvars r" "ru_name (resolveAggSlots r) = ru_name r"
  "map_option (\<lambda>a. (ag_fn a, ag_outVar a, ag_inVar a)) (ru_agg (resolveAggSlots r))
   = map_option (\<lambda>a. (ag_fn a, ag_outVar a, ag_inVar a)) (ru_agg r)"
  by (cases "ru_agg r"; simp add: resolveAggSlots_def)+

lemma p_rule_no_agg: "p_rule file rf ts = Inr (r, rest) \<Longrightarrow> ru_agg r = None"
  by (auto simp: p_rule_def Let_def split: if_splits)

lemma p_rules_parsed:
  "p_rules fl base ts = Inr rules \<Longrightarrow> r \<in> set rules \<Longrightarrow> parsed r"
proof (induction fl base ts arbitrary: rules rule: p_rules.induct)
  case (1 fl base ts)
  show ?case
  proof (cases "ts = []")
    case True
    then show ?thesis using "1.prems" by (simp add: p_rules.simps)
  next
    case False
    with "1.prems"(1) obtain q rest q1 rs where q: "p_rule fl base ts = Inr (q, rest)" "extractAgg q = Inr q1"
      and rs: "p_rules fl base rest = Inr rs" "rules = resolveAggSlots (assignVars q1) # rs"
      by (subst (asm) p_rules.simps) auto
    have "agg_named q1" using extractAgg_named [OF q(2)] p_rule_no_agg [OF q(1)] .
    then have "agg_named (resolveAggSlots (assignVars q1))"
      using agg_named_names [of "resolveAggSlots (assignVars q1)" q1] assignVars_lit_names [of q1] by simp
    moreover have "well_numbered (resolveAggSlots (assignVars q1))"
      using assignVars_well_numbered [of q1] by (simp add: well_numbered_def rule_terms_def)
    ultimately have "parsed (resolveAggSlots (assignVars q1))" by (simp add: parsed_def)
    then show ?thesis using "1.IH" [OF False _ _ _ rs(1)] q "1.prems"(2) rs(2) by auto
  qed
qed

section \<open>What interning leaves alone\<close>

text \<open>
  Loading interns the constants of a rule and resolves its aggregate slots. The static conditions
  see neither, so they can be read off the erased rule.
\<close>

definition erase_lit :: "literal \<Rightarrow> literal" where
  "erase_lit l = l\<lparr>l_args := map (\<lambda>a. a\<lparr>tm_sym := 0\<rparr>) (l_args l)\<rparr>"

definition erase_agg :: "aggSpec \<Rightarrow> aggSpec" where
  "erase_agg a = a\<lparr>ag_outSlot := 0, ag_inSlot := 0\<rparr>"

definition erase :: "rule \<Rightarrow> rule" where
  "erase r = r\<lparr>ru_head := erase_lit (ru_head r), ru_body := map erase_lit (ru_body r),
     ru_agg := map_option erase_agg (ru_agg r)\<rparr>"

lemma erase_lit_fields [simp]:
  "l_rel (erase_lit l) = l_rel l" "l_neg (erase_lit l) = l_neg l" "arg_vars (erase_lit l) = arg_vars l"
  "length (l_args (erase_lit l)) = length (l_args l)" "mentions x (erase_lit l) = mentions x l"
  "lit_arity (erase_lit l) = lit_arity l"
  by (induction "l_args l") (simp_all add: erase_lit_def arg_vars_def mentions_def filter_map o_def list_ex_iff lit_arity_def)

lemma erase_fields [simp]:
  "ru_head (erase r) = erase_lit (ru_head r)" "ru_body (erase r) = map erase_lit (ru_body r)"
  "ru_nvars (erase r) = ru_nvars r" "ru_agg (erase r) = map_option erase_agg (ru_agg r)"
  by (simp_all add: erase_def)

lemma erase_agg_fields [simp]:
  "ag_fn (erase_agg a) = ag_fn a" "ag_outVar (erase_agg a) = ag_outVar a" "ag_inVar (erase_agg a) = ag_inVar a"
  by (simp_all add: erase_agg_def)

lemma earlier_pos_erase [simp]: "earlier_pos (map erase_lit ls) k = earlier_pos ls k"
  by (auto simp: earlier_pos_def take_map)

lemma pos_vars_erase [simp]: "pos_vars (erase r) = pos_vars r"
  by (auto simp: pos_vars_def)

lemma builtins_bound_erase [simp]: "builtins_bound B (map erase_lit ls) = builtins_bound B ls"
  by (simp add: builtins_bound_def)

text \<open>Every variable of a negated literal occurs in an earlier positive literal of the body.\<close>

definition negs_bound :: "string set \<Rightarrow> literal list \<Rightarrow> bool" where
  "negs_bound B ls \<longleftrightarrow> (\<forall>k < length ls. l_neg (ls ! k) \<longrightarrow> set (arg_vars (ls ! k)) \<subseteq> B \<union> earlier_pos ls k)"

definition neg_ordered :: "rule \<Rightarrow> bool" where
  "neg_ordered r \<longleftrightarrow> negs_bound {} (ru_body r)"

lemma neg_ordered_erase [simp]: "neg_ordered (erase r) = neg_ordered r"
  by (simp add: neg_ordered_def negs_bound_def)

lemma safe_rule_erase [simp]: "safe_rule (erase r) = safe_rule r"
  by (cases "ru_agg r") (simp_all add: safe_rule_def)

lemma rule_terms_erase: "rule_terms (erase r) = map (\<lambda>a. a\<lparr>tm_sym := 0\<rparr>) (rule_terms r)"
  by (simp add: rule_terms_def erase_lit_def map_concat o_def)

lemma well_numbered_erase [simp]: "well_numbered (erase r) = well_numbered r"
  by (simp add: well_numbered_def rule_terms_erase)

lemma agg_named_erase [simp]: "agg_named (erase r) = agg_named r"
  by (cases "ru_agg r") (simp_all add: agg_named_def)

lemma parsed_erase [simp]: "parsed (erase r) = parsed r"
  by (simp add: parsed_def)

lemma head_rels_erase: "head_rels (map erase rs) = head_rels rs"
  by (simp add: head_rels_def)

lemma stratification_erase: "stratification (map erase rs) st = stratification rs st"
  by (simp add: stratification_def head_rels_erase)

lemma intern_args_erase: "map (\<lambda>a. a\<lparr>tm_sym := 0\<rparr>) (fst (intern_args i as)) = map (\<lambda>a. a\<lparr>tm_sym := 0\<rparr>) as"
proof (induction as arbitrary: i)
  case (Cons a as)
  then show ?case by (cases "tm_isVar a") (simp_all add: Let_def split_beta)
qed simp

lemma internLit_erase [simp]: "erase_lit (fst (internLit i l)) = erase_lit l"
  using intern_args_erase [of i "l_args l"] by (simp add: internLit_def split_beta erase_lit_def)

lemma internLits_erase [simp]: "map erase_lit (fst (internLits i ls)) = map erase_lit ls"
  by (induction ls arbitrary: i) (simp_all add: split_beta Let_def)

lemma internRules_erase: "map erase (fst (internRules i rs)) = map erase rs"
  by (induction rs arbitrary: i) (simp_all add: split_beta Let_def erase_def)

lemma resolve_erase [simp]: "erase (resolveAggSlots r) = erase r"
  by (cases "ru_agg r") (simp_all add: erase_def resolveAggSlots_def erase_agg_def)

text \<open>So a condition that the erased rule decides passes from the parsed rules to the loaded ones.\<close>

lemma loaded_rule:
  assumes "r \<in> set (map resolveAggSlots (fst (internRules i rs)))"
  obtains q where "q \<in> set rs" "erase r = erase q"
proof -
  have "map erase (map resolveAggSlots (fst (internRules i rs))) = map erase rs"
    using internRules_erase [of i rs] by (simp add: o_def)
  then have "erase ` set (map resolveAggSlots (fst (internRules i rs))) = erase ` set rs" by (metis set_map)
  then have "erase r \<in> erase ` set rs" using assms by blast
  then show thesis using that by blast
qed

section \<open>From names to slots\<close>

definition slot_map :: "rule \<Rightarrow> (string \<Rightarrow> nat) \<Rightarrow> bool" where
  "slot_map r \<sigma> \<longleftrightarrow> (\<forall>a \<in> set (rule_terms r). tm_isVar a \<longrightarrow> tm_var a = \<sigma> (tm_name a))"

lemma slot_map_ex:
  assumes "well_numbered r"
  obtains \<sigma> where "slot_map r \<sigma>"
proof -
  define \<sigma> where "\<sigma> x = tm_var (SOME a. a \<in> set (rule_terms r) \<and> tm_isVar a \<and> tm_name a = x)" for x
  have "tm_var a = \<sigma> (tm_name a)" if a: "a \<in> set (rule_terms r)" "tm_isVar a" for a
  proof -
    define b where "b = (SOME b. b \<in> set (rule_terms r) \<and> tm_isVar b \<and> tm_name b = tm_name a)"
    have "b \<in> set (rule_terms r) \<and> tm_isVar b \<and> tm_name b = tm_name a"
      unfolding b_def by (rule someI [of _ a]) (use a in simp)
    then have "tm_var b = tm_var a" using assms a unfolding well_numbered_def by blast
    then show ?thesis by (simp add: \<sigma>_def b_def)
  qed
  then have "slot_map r \<sigma>" by (simp add: slot_map_def)
  then show thesis by (rule that)
qed

lemma slots_of_names:
  assumes "\<forall>a \<in> set as. tm_isVar a \<longrightarrow> tm_var a = \<sigma> (tm_name a)"
  shows "slots_of as = \<sigma> ` (tm_name ` {a \<in> set as. tm_isVar a})"
  using assms by (auto simp: slots_of_def image_iff)

abbreviation named_by :: "(string \<Rightarrow> nat) \<Rightarrow> literal \<Rightarrow> bool" where
  "named_by \<sigma> l \<equiv> \<forall>a \<in> set (l_args l). tm_isVar a \<longrightarrow> tm_var a = \<sigma> (tm_name a)"

lemma lit_slots: "named_by \<sigma> l \<Longrightarrow> slots_of (l_args l) = \<sigma> ` set (arg_vars l)"
  by (simp add: slots_of_names arg_vars_def)

lemma slot_map_lits:
  assumes "slot_map r \<sigma>"
  shows "named_by \<sigma> (ru_head r)" "l \<in> set (ru_body r) \<Longrightarrow> named_by \<sigma> l"
  using assms by (auto simp: slot_map_def rule_terms_def)

lemma negs_bound_Cons:
  "negs_bound B (l # ls) \<longleftrightarrow> (l_neg l \<longrightarrow> set (arg_vars l) \<subseteq> B)
     \<and> negs_bound (if l_neg l \<or> is_builtin (l_rel l) then B else B \<union> set (arg_vars l)) ls"
  by (auto simp: negs_bound_def All_less_Suc2 earlier_pos_Cons Un_assoc)

lemma body_ok_names:
  assumes "\<forall>l \<in> set ls. named_by \<sigma> l" "\<forall>l \<in> set ls. terms_ok n (l_args l)"
    and "builtins_bound B ls" "negs_bound B ls"
  shows "body_ok n (\<sigma> ` B) ls"
  using assms
proof (induction ls arbitrary: B)
  case (Cons l ls)
  have sl: "slots_of (l_args l) = \<sigma> ` set (arg_vars l)" using Cons.prems(1) by (intro lit_slots) simp
  show ?case
    using Cons.prems Cons.IH [of B] Cons.IH [of "B \<union> set (arg_vars l)"] sl
    by (auto simp: builtins_bound_Cons negs_bound_Cons image_Un split: if_splits)
qed simp

lemma bound_after_names:
  assumes "\<forall>l \<in> set ls. named_by \<sigma> l"
  shows "bound_after (\<sigma> ` B) ls = \<sigma> ` (B \<union> earlier_pos ls (length ls))"
  using assms
proof (induction ls arbitrary: B)
  case (Cons l ls)
  have sl: "slots_of (l_args l) = \<sigma> ` set (arg_vars l)" using Cons.prems(1) by (intro lit_slots) simp
  show ?case
    using Cons.prems Cons.IH [of B] Cons.IH [of "B \<union> set (arg_vars l)"] sl
    by (auto simp: earlier_pos_Cons image_Un)
qed simp

text \<open>The variables of builtins are bound before them, so the positive variables are the bound ones.\<close>

lemma earlier_pos_mono: "earlier_pos ls k \<subseteq> earlier_pos ls (length ls)"
  by (auto simp: earlier_pos_def dest: in_set_takeD)

lemma pos_vars_bound:
  assumes "builtins_bound {} (ru_body r)"
  shows "pos_vars r \<subseteq> earlier_pos (ru_body r) (length (ru_body r))"
proof
  fix x
  assume "x \<in> pos_vars r"
  then obtain l where l: "l \<in> set (ru_body r)" "\<not> l_neg l" "x \<in> set (arg_vars l)" by (auto simp: pos_vars_def)
  show "x \<in> earlier_pos (ru_body r) (length (ru_body r))"
  proof (cases "is_builtin (l_rel l)")
    case True
    from l(1) obtain k where k: "k < length (ru_body r)" "ru_body r ! k = l" by (auto simp: in_set_conv_nth)
    then have "set (arg_vars l) \<subseteq> earlier_pos (ru_body r) k" using assms True by (auto simp: builtins_bound_def)
    then show ?thesis using l(3) earlier_pos_mono by blast
  next
    case False
    then show ?thesis using l by (auto simp: earlier_pos_def)
  qed
qed

lemma slot_in_mentioned:
  assumes "\<forall>a \<in> set as. tm_isVar a \<longrightarrow> tm_var a = \<sigma> (tm_name a)"
    and "d = \<sigma> x \<or> (\<exists>a \<in> set as. tm_isVar a \<and> tm_name a = x)"
  shows "slot_in x as d = \<sigma> x"
  using assms
proof (induction as arbitrary: d)
  case (Cons a as)
  define d' where "d' = (if tm_isVar a \<and> tm_name a = x then tm_var a else d)"
  have "d' = \<sigma> x \<or> (\<exists>a \<in> set as. tm_isVar a \<and> tm_name a = x)" using Cons.prems by (auto simp: d'_def)
  from Cons.IH [OF _ this] Cons.prems(1) show ?case by (simp add: slot_in_def d'_def)
qed (simp add: slot_in_def)

lemma mentions_iff: "mentions x l \<longleftrightarrow> (\<exists>a \<in> set (l_args l). tm_isVar a \<and> tm_name a = x)"
  by (simp add: mentions_def list_ex_iff)

lemma mentions_vars: "mentions x l \<longleftrightarrow> x \<in> set (arg_vars l)"
  by (auto simp: mentions_def list_ex_iff arg_vars_def)

lemma agg_ok_names:
  assumes "slot_map r \<sigma>" "agg_named r" "safe_rule r" "ru_agg r = Some a"
  shows "agg_ok (a\<lparr>ag_outSlot := slot_in (ag_outVar a) (l_args (ru_head r)) (ag_outSlot a),
           ag_inSlot := slot_in (ag_inVar a) (concat (map l_args (ru_body r))) (ag_inSlot a)\<rparr>) (resolveAggSlots r)"
proof -
  note nb = slot_map_lits [OF assms(1)]
  have nm: "isAggName (ag_fn a)" "mentions (ag_outVar a) (ru_head r)" using assms(2,4) by (auto simp: agg_named_def)
  from assms(2,4) obtain l where l: "l \<in> set (ru_body r)" "\<not> l_neg l" "mentions (ag_inVar a) l"
    by (auto simp: agg_named_def)
  have sf: "builtins_bound {} (ru_body r)" "\<forall>x \<in> set (arg_vars (ru_head r)). x = ag_outVar a \<or> x \<in> pos_vars r"
    using assms(3,4) l(1) by (auto simp: safe_rule_def split: if_splits)
  have bnd: "bound_after {} (ru_body r) = \<sigma> ` earlier_pos (ru_body r) (length (ru_body r))"
    using bound_after_names [of "ru_body r" \<sigma> "{}"] nb(2) by simp
  have out: "slot_in (ag_outVar a) (l_args (ru_head r)) (ag_outSlot a) = \<sigma> (ag_outVar a)"
    by (rule slot_in_mentioned) (use nb(1) nm(2) in \<open>auto simp: mentions_iff\<close>)
  have inn: "slot_in (ag_inVar a) (concat (map l_args (ru_body r))) (ag_inSlot a) = \<sigma> (ag_inVar a)"
    by (rule slot_in_mentioned) (use nb(2) l in \<open>auto simp: mentions_iff\<close>)
  have hd: "slots_of (l_args (ru_head r)) = \<sigma> ` set (arg_vars (ru_head r))" by (rule lit_slots [OF nb(1)])
  have "ag_inVar a \<in> pos_vars r" using l mentions_vars by (auto simp: pos_vars_def)
  then have "ag_inVar a \<in> earlier_pos (ru_body r) (length (ru_body r))" using pos_vars_bound [OF sf(1)] by blast
  moreover have "set (arg_vars (ru_head r)) - {ag_outVar a} \<subseteq> earlier_pos (ru_body r) (length (ru_body r))"
    using sf(2) pos_vars_bound [OF sf(1)] by blast
  ultimately show ?thesis using nm by (auto simp: agg_ok_def out inn bnd hd mentions_vars)
qed

text \<open>The static checks together make a rule one that the evaluator can run.\<close>

definition lits_arity :: "(string \<Rightarrow> nat) \<Rightarrow> rule \<Rightarrow> bool" where
  "lits_arity ar r \<longleftrightarrow> (\<forall>l \<in> set (rule_lits r). \<not> is_builtin (l_rel l) \<longrightarrow> lit_arity l = ar (l_rel l))"

definition static_ok :: "rule \<Rightarrow> bool" where
  "static_ok r \<longleftrightarrow> parsed r \<and> safe_rule r \<and> ru_nvars r \<le> 64"

lemma static_ok_erase: "erase r = erase q \<Longrightarrow> static_ok q \<Longrightarrow> static_ok r"
  unfolding static_ok_def by (metis erase_fields(3) parsed_erase safe_rule_erase)

lemma static_rule_ok:
  assumes "static_ok r" "neg_ordered r" "lits_arity ar r"
  shows "rule_ok ar (resolveAggSlots r)"
proof -
  have wn: "well_numbered r" "agg_named r" and sf: "safe_rule r" and nv: "ru_nvars r \<le> 64"
    using assms(1) by (auto simp: static_ok_def parsed_def)
  from wn(1) obtain \<sigma> where \<sigma>: "slot_map r \<sigma>" by (rule slot_map_ex)
  note nb = slot_map_lits [OF \<sigma>]
  have tm: "terms_ok (ru_nvars r) (l_args l)" if "l \<in> set (rule_lits r)" for l
    using wn(1) that by (auto simp: terms_ok_def well_numbered_def rule_terms_def rule_lits_def)
  have bb: "builtins_bound {} (ru_body r)" and hb: "\<not> is_builtin (l_rel (ru_head r))" using sf by (simp_all add: safe_rule_def)
  have body: "body_ok (ru_nvars r) {} (ru_body r)"
    using body_ok_names [of "ru_body r" \<sigma> "ru_nvars r" "{}"] nb(2) tm bb assms(2) by (simp add: neg_ordered_def rule_lits_def)
  have bnd: "bound_after {} (ru_body r) = \<sigma> ` earlier_pos (ru_body r) (length (ru_body r))"
    using bound_after_names [of "ru_body r" \<sigma> "{}"] nb(2) by simp
  have head: "case ru_agg (resolveAggSlots r) of
      None \<Rightarrow> slots_of (l_args (ru_head (resolveAggSlots r))) \<subseteq> bound_after {} (ru_body (resolveAggSlots r))
    | Some a \<Rightarrow> agg_ok a (resolveAggSlots r)"
  proof (cases "ru_agg r")
    case None
    then have "set (arg_vars (ru_head r)) \<subseteq> pos_vars r" using sf by (auto simp: safe_rule_def split: if_splits)
    then have "slots_of (l_args (ru_head r)) \<subseteq> bound_after {} (ru_body r)"
      using pos_vars_bound [OF bb] by (auto simp: lit_slots [OF nb(1)] bnd)
    then show ?thesis using None by (simp add: resolveAggSlots_def)
  next
    case (Some a)
    then show ?thesis using agg_ok_names [OF \<sigma> wn(2) sf Some] by (simp add: resolveAggSlots_def)
  qed
  show ?thesis
    using nv body tm hb assms(3) head
    by (simp add: rule_ok_def lits_arity_def rule_lits_def lit_arity_def)
qed

section \<open>Arities\<close>

lemma check_arities_step:
  assumes "check_arities (l # ls) ar = Inr ar'" "\<not> is_builtin (l_rel l)"
  shows "check_arities ls (ar(l_rel l \<mapsto> lit_arity l)) = Inr ar'" "ar (l_rel l) \<in> {None, Some (lit_arity l)}"
  using assms by (auto split: if_splits option.splits)

lemma check_arities_mono: "check_arities ls ar = Inr ar' \<Longrightarrow> ar rel = Some n \<Longrightarrow> ar' rel = Some n"
proof (induction ls arbitrary: ar)
  case (Cons l ls)
  show ?case
  proof (cases "is_builtin (l_rel l)")
    case False
    note st = check_arities_step [OF Cons.prems(1) False]
    show ?thesis by (rule Cons.IH [OF st(1)]) (use st(2) Cons.prems(2) in auto)
  qed (use Cons in simp)
qed simp

lemma check_arities_lits:
  assumes "check_arities ls ar = Inr ar'" "l \<in> set ls" "\<not> is_builtin (l_rel l)"
  shows "ar' (l_rel l) = Some (lit_arity l)"
  using assms(1,2)
proof (induction ls arbitrary: ar)
  case (Cons k ls)
  show ?case
  proof (cases "l = k")
    case True
    then show ?thesis using check_arities_mono [OF check_arities_step(1) [OF Cons.prems(1)]] assms(3) by simp
  next
    case False
    then have "l \<in> set ls" using Cons.prems(2) by simp
    moreover obtain ar1 where "check_arities ls ar1 = Inr ar'"
      using Cons.prems(1) check_arities_step(1) [OF Cons.prems(1)] by (cases "is_builtin (l_rel k)") auto
    ultimately show ?thesis by (intro Cons.IH)
  qed
qed simp

lemma check_rules_ok: "check_rules rs = Inr () \<longleftrightarrow> (\<forall>r \<in> set rs. safe_rule r \<and> ru_nvars r \<le> 64)"
  by (induction rs) (auto simp: bindE_unit checkSafe_iff)

section \<open>The fact base\<close>

text \<open>A base relation is declared and empty, with no arity yet, or a well-formed relation of one arity.\<close>

definition base_ok :: "engine \<Rightarrow> bool" where
  "base_ok e \<longleftrightarrow> (\<forall>rel br. en_base e rel = Some br \<longrightarrow> br = newRelation rel (-1) \<or> (\<exists>n. relation_ok n br))"

lemma assert_rows_ok:
  assumes "assert_rows rel mx ts r i = (err, r', i')" "r = newRelation rel (-1) \<or> (\<exists>n. relation_ok n r)"
  shows "r' = newRelation rel (-1) \<or> (\<exists>n. relation_ok n r')"
  using assms
proof (induction ts arbitrary: r i)
  case (Cons t ts)
  define r1 where "r1 = (if r_arity r < 0 then r\<lparr>r_arity := int (length t)\<rparr> else r)"
  have r1: "\<exists>n. relation_ok n r1"
  proof (cases "r = newRelation rel (-1)")
    case True
    then have "r1 = newRelation rel (int (length t))" by (simp add: r1_def newRelation_def)
    then show ?thesis using newRelation_ok by blast
  next
    case False
    then obtain n where "relation_ok n r" using Cons.prems(2) by blast
    moreover from this have "r1 = r" using relation_okD(1) by (simp add: r1_def)
    ultimately show ?thesis by blast
  qed
  show ?case
  proof (cases "int (length t) = r_arity r1")
    case False
    then show ?thesis using Cons.prems(1) r1 by (simp add: r1_def [symmetric] Let_def)
  next
    case True
    obtain it i1 where it: "intern i t = (it, i1)" by (rule prod.exhaust)
    obtain new r2 where ad: "add r1 it = (new, r2)" by (rule prod.exhaust)
    from r1 obtain n where n: "relation_ok n r1" by blast
    then have "length it = n" using True it intern_length [of i t] relation_okD(1) [OF n] by simp
    then have r2: "relation_ok n r2" using add_eq(3) [OF n] ad by (metis snd_conv)
    show ?thesis
      using Cons.prems(1) True it ad r2 Cons.IH [of r2 i1]
      by (auto simp: r1_def [symmetric] Let_def split: if_splits)
  qed
qed simp

lemma Assert_base_ok:
  assumes "base_ok e" "Assert rel ts e = (err, e')"
  shows "base_ok e'"
proof (cases "rel = []")
  case True
  then show ?thesis using assms by (simp add: Assert_def)
next
  case False
  define r0 where "r0 = (case en_base e rel of Some r \<Rightarrow> r
     | None \<Rightarrow> newRelation rel (case ts of [] \<Rightarrow> -1 | t # _ \<Rightarrow> int (length t)))"
  obtain er r i where ar: "assert_rows rel (en_maxTuples e) ts r0 (en_syms e) = (er, r, i)"
    by (metis prod.exhaust)
  have "r0 = newRelation rel (-1) \<or> (\<exists>n. relation_ok n r0)"
  proof (cases "en_base e rel")
    case None
    show ?thesis
    proof (cases ts)
      case (Cons t us)
      then have "r0 = newRelation rel (int (length t))" using None by (simp add: r0_def)
      then show ?thesis using newRelation_ok by blast
    qed (use None in \<open>simp add: r0_def\<close>)
  next
    case (Some b)
    then show ?thesis using assms(1) by (simp add: r0_def base_ok_def)
  qed
  then have "r = newRelation rel (-1) \<or> (\<exists>n. relation_ok n r)" by (rule assert_rows_ok [OF ar])
  moreover have "en_base e' = (en_base e)(rel \<mapsto> r)"
    using assms(2) False ar by (auto simp: Assert_def r0_def [symmetric] reset_def Let_def)
  ultimately show ?thesis using assms(1) by (auto simp: base_ok_def)
qed

lemma Assert_frame:
  assumes "Assert rel ts e = (err, e')"
  shows "en_ruleOrder e' = en_ruleOrder e" "en_recordProv e' = en_recordProv e" "en_maxRounds e' = en_maxRounds e"
    "en_aggRel e' = en_aggRel e" "en_rules e' = en_rules e"
proof -
  have "\<exists>b i. e' = e \<or> e' = e\<lparr>en_base := b, en_syms := i\<rparr> \<or> e' = reset (e\<lparr>en_base := b, en_syms := i\<rparr>)"
  proof (cases "rel = []")
    case True
    then show ?thesis using assms by (simp add: Assert_def)
  next
    case False
    define r0 where "r0 = (case en_base e rel of Some r \<Rightarrow> r
       | None \<Rightarrow> newRelation rel (case ts of [] \<Rightarrow> -1 | t # _ \<Rightarrow> int (length t)))"
    obtain er r i where ar: "assert_rows rel (en_maxTuples e) ts r0 (en_syms e) = (er, r, i)"
      by (metis prod.exhaust)
    show ?thesis
      by (rule exI [of _ "(en_base e)(rel \<mapsto> r)"], rule exI [of _ i])
         (use assms False ar in \<open>simp add: Assert_def r0_def [symmetric] Let_def split: if_splits\<close>)
  qed
  then obtain b i where "e' = e \<or> e' = e\<lparr>en_base := b, en_syms := i\<rparr> \<or> e' = reset (e\<lparr>en_base := b, en_syms := i\<rparr>)" by blast
  then show "en_ruleOrder e' = en_ruleOrder e" "en_recordProv e' = en_recordProv e" "en_maxRounds e' = en_maxRounds e"
    "en_aggRel e' = en_aggRel e" "en_rules e' = en_rules e"
    by (elim disjE; simp add: reset_def)+
qed

lemma New_base_ok: "base_ok (New o0)"
  by (simp add: base_ok_def New_def Let_def)

lemma New_frame:
  "en_ruleOrder (New o0) = []" "en_recordProv (New o0) = op_provenance o0" "0 < en_maxRounds (New o0)"
  by (simp_all add: New_def Let_def withDefaults_def)

section \<open>Loading\<close>

definition loadable :: "engine \<Rightarrow> bool" where
  "loadable e \<longleftrightarrow> base_ok e \<and> (\<forall>r \<in> set (en_ruleOrder e). static_ok r)"

definition arity_fun :: "arities \<Rightarrow> string \<Rightarrow> nat" where
  "arity_fun m rel = (case m rel of Some n \<Rightarrow> n | None \<Rightarrow> 0)"

lemma parseRules_parsed: "parseRules src file = Inr rs \<Longrightarrow> r \<in> set rs \<Longrightarrow> parsed r"
  by (auto simp: parseRules_def dest: p_rules_parsed)

lemma install_fields:
  assumes "rs = map resolveAggSlots (fst (internRules (en_syms e) all))"
  shows "en_ruleOrder (install ar st all e) = rs"
    "en_rules (install ar st all e) = (\<lambda>rel. filter (\<lambda>r. l_rel (ru_head r) = rel) rs)"
    "en_aggRel (install ar st all e) = (\<lambda>rel. \<exists>r \<in> set rs. l_rel (ru_head r) = rel \<and> ru_agg r \<noteq> None)"
    "en_base (install ar st all e) = (\<lambda>rel. map_option (\<lambda>r. backfill ar r rel) (en_base e rel))"
    "en_syms (install ar st all e) = snd (internRules (en_syms e) all)"
    "en_tables (install ar st all e) = Map.empty" "en_recordProv (install ar st all e) = en_recordProv e"
    "en_maxRounds (install ar st all e) = en_maxRounds e" "en_strata (install ar st all e) = Some st"
    "en_loaded (install ar st all e)"
proof -
  obtain as i where ir: "internRules (en_syms e) all = (as, i)" by (rule prod.exhaust)
  then have rs: "map resolveAggSlots as = rs" using assms by simp
  have eq: "install ar st all e = reset (e\<lparr>
        en_base := (\<lambda>rel. map_option (\<lambda>r. backfill ar r rel) (en_base e rel)),
        en_syms := i, en_ruleOrder := rs,
        en_rules := (\<lambda>rel. filter (\<lambda>r. l_rel (ru_head r) = rel) rs),
        en_aggRel := (\<lambda>rel. \<exists>r \<in> set rs. l_rel (ru_head r) = rel \<and> ru_agg r \<noteq> None),
        en_strata := Some st, en_loaded := True\<rparr>)"
    unfolding install_def ir Let_def prod.case rs ..
  show "en_ruleOrder (install ar st all e) = rs" unfolding eq reset_def by simp
  show "en_rules (install ar st all e) = (\<lambda>rel. filter (\<lambda>r. l_rel (ru_head r) = rel) rs)" unfolding eq reset_def by simp
  show "en_aggRel (install ar st all e) = (\<lambda>rel. \<exists>r \<in> set rs. l_rel (ru_head r) = rel \<and> ru_agg r \<noteq> None)"
    unfolding eq reset_def by simp
  show "en_base (install ar st all e) = (\<lambda>rel. map_option (\<lambda>r. backfill ar r rel) (en_base e rel))"
    unfolding eq reset_def by simp
  show "en_syms (install ar st all e) = snd (internRules (en_syms e) all)" unfolding eq reset_def ir by simp
  show "en_tables (install ar st all e) = Map.empty" "en_recordProv (install ar st all e) = en_recordProv e"
    "en_maxRounds (install ar st all e) = en_maxRounds e" "en_strata (install ar st all e) = Some st"
    "en_loaded (install ar st all e)" unfolding eq reset_def by simp_all
qed

lemma LoadRules_unfold:
  assumes "LoadRules src name e = Inr e'"
  obtains rules ar st where "parseRules src name = Inr rules" "check_rules rules = Inr ()"
    "check_arities (concat (map rule_lits (en_ruleOrder e @ rules))) (base_arities e) = Inr ar"
    "stratify (en_ruleOrder e @ rules) = Inr st" "e' = install ar st (en_ruleOrder e @ rules) e"
  using assms by (auto simp: LoadRules_def Let_def split: if_splits)

lemma backfill_ok:
  assumes "base_ok e" "en_base e rel = Some br" "ar rel = Some n"
    and "\<And>m. base_arities e rel = Some m \<Longrightarrow> ar rel = Some m"
  shows "relation_ok n (backfill ar br rel)"
proof (cases "br = newRelation rel (-1)")
  case True
  then have "backfill ar br rel = newRelation rel (int n)" using assms(3) by (simp add: backfill_def newRelation_def)
  then show ?thesis using newRelation_ok by simp
next
  case False
  then obtain m where m: "relation_ok m br" using assms(1,2) by (auto simp: base_ok_def)
  note am = relation_okD(1) [OF m]
  then have "base_arities e rel = Some m" using assms(2) by (simp add: base_arities_def)
  then have "m = n" using assms(3,4) by simp
  then show ?thesis using m am by (simp add: backfill_def)
qed

lemma backfill_base_ok:
  assumes "base_ok e"
  shows "base_ok (install ar st all e)"
  unfolding base_ok_def
proof (intro allI impI)
  fix rel br
  assume "en_base (install ar st all e) rel = Some br"
  then obtain b where b: "en_base e rel = Some b" "br = backfill ar b rel" by (auto simp: install_fields(4) [OF refl])
  show "br = newRelation rel (-1) \<or> (\<exists>n. relation_ok n br)"
  proof (cases "b = newRelation rel (-1)")
    case True
    then have "br = newRelation rel (-1) \<or> (\<exists>n. br = newRelation rel (int n))"
      using b by (cases "ar rel") (simp_all add: backfill_def newRelation_def)
    then show ?thesis using newRelation_ok by blast
  next
    case False
    then obtain m where m: "relation_ok m b" using assms b by (auto simp: base_ok_def)
    then have "br = b" using b(2) relation_okD(1) [OF m] by (simp add: backfill_def)
    then show ?thesis using m by blast
  qed
qed

lemma lits_arity_erase [simp]: "lits_arity ar (erase r) = lits_arity ar r"
  by (simp add: lits_arity_def rule_lits_def)

lemma erase_rels:
  assumes "erase r = erase q"
  shows "lits_arity ar r = lits_arity ar q" "l_rel (ru_head r) = l_rel (ru_head q)"
proof -
  show "lits_arity ar r = lits_arity ar q" using assms by (metis lits_arity_erase)
  show "l_rel (ru_head r) = l_rel (ru_head q)" using arg_cong [OF assms, of "\<lambda>r. l_rel (ru_head r)"] by simp
qed

lemma neg_ordered_eq: "erase r = erase q \<Longrightarrow> neg_ordered r = neg_ordered q"
  by (metis neg_ordered_erase)

text \<open>Every mentioned relation has one arity after loading, shared by the rules and the facts.\<close>

lemma install_prog_ok:
  assumes e: "loadable e" and all: "\<forall>r \<in> set all. static_ok r \<and> neg_ordered r"
    and ar: "check_arities (concat (map rule_lits all)) (base_arities e) = Inr ar"
  shows "prog_ok (arity_fun ar) (install ar st all e)"
proof -
  define rs where "rs = map resolveAggSlots (fst (internRules (en_syms e) all))"
  note f = install_fields [OF rs_def, of ar st]
  have lits: "ar (l_rel l) = Some (lit_arity l)" if "q \<in> set all" "l \<in> set (rule_lits q)" "\<not> is_builtin (l_rel l)" for q l
    using check_arities_lits [OF ar _ that(3)] that(1,2) by auto
  have rule: "rule_ok (arity_fun ar) r \<and> lits_arity (arity_fun ar) r \<and> (\<forall>l \<in> set (rule_lits r). \<not> is_builtin (l_rel l) \<longrightarrow> ar (l_rel l) \<noteq> None)"
    if "r \<in> set rs" for r
  proof -
    from that obtain p where p: "p \<in> set (fst (internRules (en_syms e) all))" "r = resolveAggSlots p" by (auto simp: rs_def)
    have "erase p \<in> set (map erase all)"
      unfolding internRules_erase [of "en_syms e" all, symmetric] set_map using p(1) by (rule imageI)
    then obtain q where q: "q \<in> set all" "erase p = erase q" by auto
    have la: "lits_arity (arity_fun ar) q" using lits [OF q(1)] by (auto simp: lits_arity_def arity_fun_def)
    have "static_ok p" using static_ok_erase [OF q(2)] all q(1) by blast
    moreover have "neg_ordered p" using neg_ordered_eq [OF q(2)] all q(1) by blast
    moreover have lp: "lits_arity (arity_fun ar) p" using erase_rels(1) [OF q(2)] la by simp
    ultimately have "rule_ok (arity_fun ar) r" using p(2) static_rule_ok by blast
    moreover have "l_rel ` set (rule_lits r) = l_rel ` set (rule_lits q)"
    proof -
      have "l_rel ` set (rule_lits k) = l_rel ` set (rule_lits (erase k))" for k by (auto simp: rule_lits_def image_image)
      moreover have "erase r = erase q" using q(2) p(2) by simp
      ultimately show ?thesis by metis
    qed
    then have "\<forall>l \<in> set (rule_lits r). \<not> is_builtin (l_rel l) \<longrightarrow> ar (l_rel l) \<noteq> None"
      using lits [OF q(1)] by (metis (no_types, lifting) imageE imageI option.distinct(1))
    moreover have "lits_arity (arity_fun ar) r" using lp p(2) by (simp add: lits_arity_def rule_lits_def)
    ultimately show ?thesis by blast
  qed
  have ment: "ar rel \<noteq> None" if "mentioned (install ar st all e) rel" for rel
    using that rule unfolding mentioned_def f(1)
    by (auto simp: rule_lits_def rule_ok_def)
  have base: "relation_ok (arity_fun ar rel) br"
    if m: "mentioned (install ar st all e) rel" and br: "en_base (install ar st all e) rel = Some br" for rel br
  proof -
    from br obtain b where b: "en_base e rel = Some b" "br = backfill ar b rel" by (auto simp: f(4))
    obtain n where n: "ar rel = Some n" using ment [OF m] by blast
    have "relation_ok n (backfill ar b rel)"
      by (rule backfill_ok) (use e b n check_arities_mono [OF ar] in \<open>auto simp: loadable_def\<close>)
    then show ?thesis using b n by (simp add: arity_fun_def)
  qed
  show ?thesis unfolding prog_ok_def f(1,2) using rule base by blast
qed

lemma install_stratified:
  assumes "stratify all = Inr st"
  shows "stratification (en_ruleOrder (install ar st' all e)) st"
proof -
  have "stratification all st" using stratify_least [of all] assms by simp
  then have "stratification (map erase all) st" by (simp only: stratification_erase)
  moreover have "map erase (en_ruleOrder (install ar st' all e)) = map erase all"
    using internRules_erase [of "en_syms e" all] by (simp add: install_fields(1) [OF refl] o_def)
  ultimately show ?thesis using stratification_erase by metis
qed

lemma install_engine_ok:
  assumes "loadable e" "\<forall>r \<in> set all. static_ok r \<and> neg_ordered r"
    and "check_arities (concat (map rule_lits all)) (base_arities e) = Inr ar" "stratify all = Inr st"
    and "\<not> en_recordProv e"
  defines "e' \<equiv> install ar st all e"
  shows "\<exists>M. engine_ok (arity_fun ar) M e'"
proof -
  have st: "stratification (en_ruleOrder e') st" unfolding e'_def by (rule install_stratified [OF assms(4)])
  have "engine_model e' (model_of (en_ruleOrder e') (facts e') (en_syms e') st)"
    unfolding engine_model_def by (rule model_of_perfect [OF st])
  moreover have "prog_ok (arity_fun ar) e'" unfolding e'_def by (rule install_prog_ok [OF assms(1-3)])
  moreover have "\<not> en_recordProv e'" "en_tables e' = Map.empty"
    using assms(5) by (simp_all add: e'_def install_fields [OF refl])
  ultimately show ?thesis using st unfolding engine_ok_def tables_ok_def by auto
qed

lemma install_loadable:
  assumes "loadable e" "\<forall>r \<in> set all. static_ok r"
  shows "loadable (install ar st all e)"
proof -
  have "static_ok r" if "r \<in> set (en_ruleOrder (install ar st all e))" for r
  proof -
    from that have "r \<in> set (map resolveAggSlots (fst (internRules (en_syms e) all)))" by (simp add: install_fields(1) [OF refl])
    then obtain q where "q \<in> set all" "erase r = erase q" by (rule loaded_rule)
    then show ?thesis using assms(2) static_ok_erase by blast
  qed
  then show ?thesis using assms(1) backfill_base_ok by (simp add: loadable_def)
qed

text \<open>What a successful load leaves: a state that is ready for queries, over the perfect model of its rules and facts.\<close>

definition queryable :: "engine \<Rightarrow> bool" where
  "queryable e \<longleftrightarrow> en_loaded e \<and> en_strata e \<noteq> None
     \<and> (\<forall>rel. en_rules e rel = filter (\<lambda>r. l_rel (ru_head r) = rel) (en_ruleOrder e))
     \<and> (\<forall>rel. en_aggRel e rel \<longrightarrow> en_rules e rel \<noteq> [])"

lemma install_queryable: "queryable (install ar st all e)"
  by (auto simp: queryable_def install_fields [OF refl] filter_empty_conv)

lemma loaded_static:
  assumes "parseRules src name = Inr rules" "check_rules rules = Inr ()"
  shows "\<forall>r \<in> set rules. static_ok r"
  using parseRules_parsed [OF assms(1)] assms(2) by (simp add: check_rules_ok static_ok_def)

lemma LoadRules_ok:
  assumes e: "loadable e" and run: "LoadRules src name e = Inr e'" and np: "\<not> en_recordProv e"
    and neg: "\<forall>r \<in> set (en_ruleOrder e'). neg_ordered r"
  shows "loadable e' \<and> queryable e' \<and> (\<exists>ar M. engine_ok ar M e')"
proof -
  from run obtain rules ar st where p: "parseRules src name = Inr rules" "check_rules rules = Inr ()"
    and ar: "check_arities (concat (map rule_lits (en_ruleOrder e @ rules))) (base_arities e) = Inr ar"
    and st: "stratify (en_ruleOrder e @ rules) = Inr st" and e': "e' = install ar st (en_ruleOrder e @ rules) e"
    by (rule LoadRules_unfold)
  let ?all = "en_ruleOrder e @ rules"
  have stc: "\<forall>r \<in> set ?all. static_ok r" using loaded_static [OF p] e by (auto simp: loadable_def)
  have "neg_ordered q" if "q \<in> set ?all" for q
  proof -
    have eq: "map erase (en_ruleOrder e') = map erase ?all"
      using internRules_erase [of "en_syms e" ?all] by (simp add: e' install_fields(1) [OF refl] o_def)
    have "erase q \<in> set (map erase (en_ruleOrder e'))" unfolding eq using that by auto
    then obtain r where "r \<in> set (en_ruleOrder e')" "erase q = erase r" by auto
    then show ?thesis using neg neg_ordered_eq by blast
  qed
  then have "\<exists>M. engine_ok (arity_fun ar) M e'"
    unfolding e' using stc by (intro install_engine_ok [OF e _ ar st np]) blast
  then show ?thesis using install_loadable [OF e stc] install_queryable by (auto simp: e')
qed

section \<open>Properties\<close>

text \<open>
  Every rule that comes out of the parser is numbered (slots are a renaming of its variables,
  below \<open>NVars\<close>), and an aggregate rule names one of the three functions, puts its output in the
  head and draws its input from a positive body literal.
\<close>

theorem parsed_rules_well_formed:
  assumes "parseRules src name = Inr rules" and "r \<in> set rules"
  shows "well_numbered r \<and> agg_named r"
  using parseRules_parsed [OF assms] by (simp add: parsed_def)

lemma fact_parses: "map_sum id length (parseRules ''p(a).'' ''t'') = Inr 1"
  by code_simp

theorem parsed_rules_well_formed_witness:
  "\<exists>r. parseRules ''p(a).'' ''t'' = Inr [r] \<and> well_numbered r \<and> agg_named r"
proof -
  obtain r where r: "parseRules ''p(a).'' ''t'' = Inr [r]"
    using fact_parses by (cases "parseRules ''p(a).'' ''t''") (auto simp: length_Suc_conv)
  then show ?thesis using parsed_rules_well_formed [OF r, of r] by simp
qed

text \<open>
  A rule that passes the static checks, whose negated literals are bound by earlier ones and
  whose literals have the relations' arities, can be evaluated: every slot fits the 64-bit mask,
  builtins and negated literals are ground when they are reached, and the head is ground at the
  end (but for the aggregate's output).
\<close>

theorem static_checks_suffice:
  assumes "static_ok r" and "neg_ordered r" and "lits_arity ar r"
  shows "rule_ok ar (resolveAggSlots r)"
  by (rule static_rule_ok [OF assms])

theorem static_checks_suffice_witness:
  "\<exists>r. parseRules ''p(a).'' ''t'' = Inr [r] \<and> rule_ok (\<lambda>_. 1) (resolveAggSlots r)"
proof -
  obtain r where r: "parseRules ''p(a).'' ''t'' = Inr [r]"
    using fact_parses by (cases "parseRules ''p(a).'' ''t''") (auto simp: length_Suc_conv)
  have "map_sum id (map (\<lambda>r. (checkSafe r, ru_nvars r, ru_body r, length (l_args (ru_head r))))) (parseRules ''p(a).'' ''t'')
    = Inr [(Inr (), 0, [], 1)]" by code_simp
  then have f: "checkSafe r = Inr ()" "ru_nvars r = 0" "ru_body r = []" "length (l_args (ru_head r)) = 1" by (simp_all add: r)
  have "static_ok r" using parseRules_parsed [OF r] f by (simp add: static_ok_def checkSafe_iff)
  moreover have "neg_ordered r" by (simp add: neg_ordered_def negs_bound_def f)
  moreover have "lits_arity (\<lambda>_. 1) r" using f by (simp add: lits_arity_def rule_lits_def lit_arity_def)
  ultimately show ?thesis using static_checks_suffice [of r "\<lambda>_. 1"] r by blast
qed

text \<open>
  The safety check does not look at the order of the body: it accepts a rule whose negated literal
  comes before the positive one that binds its variable.
\<close>

lemma unordered_negation_accepted:
  "\<exists>r. parseRules ''p(X):-not q(X),r(X).'' ''t'' = Inr [r] \<and> checkSafe r = Inr () \<and> \<not> neg_ordered r"
proof -
  have "map_sum id (map (\<lambda>r. (checkSafe r, map l_neg (ru_body r), map arg_vars (ru_body r)))) (parseRules ''p(X):-not q(X),r(X).'' ''t'')
    = Inr [(Inr (), [True, False], [[''X''], [''X'']])]" by code_simp
  then obtain r where r: "parseRules ''p(X):-not q(X),r(X).'' ''t'' = Inr [r]" "checkSafe r = Inr ()"
    "map l_neg (ru_body r) = [True, False]" "map arg_vars (ru_body r) = [[''X''], [''X'']]"
    by (cases "parseRules ''p(X):-not q(X),r(X).'' ''t''") auto
  then obtain l m where b: "ru_body r = [l, m]" "l_neg l" "arg_vars l = [''X'']" by (auto simp: map_eq_Cons_conv)
  then have "\<not> neg_ordered r" by (auto simp: neg_ordered_def negs_bound_def earlier_pos_def)
  then show ?thesis using r(1,2) by blast
qed

end
