(* ===== verification/Answers.thy ===== *)
theory Answers
  imports Loading "HOL-Library.Multiset"
begin

text \<open>
  What the public operations promise. \<open>Assert\<close> adds the tuples, numerals normalised, to the facts;
  \<open>LoadRules\<close> leaves an engine whose queries are answered from the perfect model of its rules and
  facts; \<open>Program.Eval\<close> puts these together.
\<close>

section \<open>The symbol table grows\<close>

definition sym_le :: "interner \<Rightarrow> interner \<Rightarrow> bool" where
  "sym_le i j \<longleftrightarrow> (\<forall>v s. in_sym i v = Some s \<longrightarrow> in_sym j v = Some s)"

lemma sym_le_refl [simp]: "sym_le i i"
  by (simp add: sym_le_def)

lemma sym_le_trans: "sym_le i j \<Longrightarrow> sym_le j k \<Longrightarrow> sym_le i k"
  by (auto simp: sym_le_def)

lemma sym_le_in_id: "sym_le i (snd (in_id i s))"
  by (simp add: sym_le_def in_sym_mono)

lemma sym_le_intern: "sym_le i (snd (intern i t))"
  by (simp add: sym_le_def intern_mono)

lemma sym_le_reveal: "sym_le i j \<Longrightarrow> reveal i t = Some u \<Longrightarrow> reveal j t = Some u"
  by (induction t arbitrary: u) (auto simp: sym_le_def split: option.splits)

lemma intern_room: "length (strs (snd (intern i t))) \<le> length (strs i) + length t"
proof (induction t arbitrary: i)
  case (Cons s t)
  show ?case using Cons.IH [of "snd (in_id i s)"] in_id_length [of i s] by (simp add: split_beta Let_def)
qed simp

text \<open>Interning the constants of rules, seen as interning the list of their names.\<close>

definition lit_constants :: "literal \<Rightarrow> string list" where
  "lit_constants l = map tm_name (filter (\<lambda>a. \<not> tm_isVar a) (l_args l))"

definition rule_constants :: "rule list \<Rightarrow> string list" where
  "rule_constants rs = concat (map lit_constants (concat (map rule_lits rs)))"

lemma intern_append: "snd (intern i (s @ t)) = snd (intern (snd (intern i s)) t)"
  by (induction s arbitrary: i) (simp_all add: split_beta Let_def)

lemma intern_args_syms: "snd (intern_args i as) = snd (intern i (map tm_name (filter (\<lambda>a. \<not> tm_isVar a) as)))"
proof (induction as arbitrary: i)
  case (Cons a as)
  then show ?case by (cases "tm_isVar a") (simp_all add: Let_def split_beta)
qed simp

lemma internLit_syms: "snd (internLit i l) = snd (intern i (lit_constants l))"
  by (simp add: internLit_def split_beta Let_def intern_args_syms lit_constants_def)

lemma internLits_syms: "snd (internLits i ls) = snd (intern i (concat (map lit_constants ls)))"
  by (induction ls arbitrary: i) (simp_all add: split_beta Let_def internLit_syms intern_append)

lemma internRules_syms: "snd (internRules i rs) = snd (intern i (rule_constants rs))"
  by (induction rs arbitrary: i)
     (simp_all add: split_beta Let_def internLit_syms internLits_syms intern_append rule_constants_def rule_lits_def)

section \<open>Facts by name\<close>

text \<open>The facts of a relation as the caller sees them, and that all of them can be shown.\<close>

definition named_facts :: "engine \<Rightarrow> string \<Rightarrow> tuple set" where
  "named_facts e rel = {u. \<exists>t \<in> facts e rel. reveal (en_syms e) t = Some u}"

definition syms_ok :: "engine \<Rightarrow> bool" where
  "syms_ok e \<longleftrightarrow> interner_ok (en_syms e) \<and> (\<forall>rel. \<forall>t \<in> facts e rel. reveal (en_syms e) t \<noteq> None)"

lemma named_facts_grow:
  assumes "\<forall>t \<in> A. reveal i t \<noteq> None" "sym_le i j"
  shows "{u. \<exists>t \<in> A. reveal j t = Some u} = {u. \<exists>t \<in> A. reveal i t = Some u}"
proof (intro equalityI subsetI)
  fix u
  assume "u \<in> {u. \<exists>t \<in> A. reveal j t = Some u}"
  then obtain t where t: "t \<in> A" "reveal j t = Some u" by blast
  with assms(1) obtain w where w: "reveal i t = Some w" by blast
  then have "reveal j t = Some w" by (rule sym_le_reveal [OF assms(2)])
  then show "u \<in> {u. \<exists>t \<in> A. reveal i t = Some u}" using t w by auto
qed (use sym_le_reveal [OF assms(2)] in blast)

definition row_names :: "interner \<Rightarrow> itup list \<Rightarrow> tuple set" where
  "row_names i rs = {u. \<exists>t \<in> set rs. reveal i t = Some u}"

lemma assert_rows_facts:
  assumes "assert_rows rel mx ts r i = (None, r', i')" "r = newRelation rel (-1) \<or> (\<exists>n. relation_ok n r)"
    and "interner_ok i" "length (strs i) + length (concat ts) \<le> 2 ^ 31" "\<forall>t \<in> set (r_tuples r). reveal i t \<noteq> None"
  shows "interner_ok i' \<and> sym_le i i' \<and> length (strs i') \<le> length (strs i) + length (concat ts)
    \<and> (\<forall>t \<in> set (r_tuples r'). reveal i' t \<noteq> None)
    \<and> row_names i' (r_tuples r') = row_names i (r_tuples r) \<union> map canon ` set ts"
  using assms
proof (induction ts arbitrary: r i)
  case (Cons t ts)
  define r1 where "r1 = (if r_arity r < 0 then r\<lparr>r_arity := int (length t)\<rparr> else r)"
  obtain n where n: "relation_ok n r1" and r1t: "r_tuples r1 = r_tuples r"
  proof (cases "r = newRelation rel (-1)")
    case True
    then have "r1 = newRelation rel (int (length t))" by (simp add: r1_def newRelation_def)
    then show ?thesis using that [of "length t"] newRelation_ok [of "length t" rel] True by simp
  next
    case False
    then obtain n where "relation_ok n r" using Cons.prems(2) by blast
    moreover from this have "r1 = r" using relation_okD(1) by (simp add: r1_def)
    ultimately show ?thesis using that by blast
  qed
  obtain it i1 where it: "intern i t = (it, i1)" by (rule prod.exhaust)
  obtain new r2 where ad: "add r1 it = (new, r2)" by (rule prod.exhaust)
  have len: "int (length t) = r_arity r1" using Cons.prems(1) by (auto simp: r1_def [symmetric] Let_def split: if_splits)
  then have rec: "assert_rows rel mx ts r2 i1 = (None, r', i')"
    using Cons.prems(1) it ad by (auto simp: r1_def [symmetric] Let_def split: if_splits)
  have "length it = n" using len it intern_length [of i t] relation_okD(1) [OF n] by simp
  note ae = add_eq [OF n this]
  have r2: "relation_ok n r2" "set (r_tuples r2) = insert it (set (r_tuples r))"
    using ae ad r1t by (auto split: if_splits)
  have room: "length (strs i) + length t \<le> 2 ^ 31" using Cons.prems(4) by simp
  have i1: "interner_ok i1" "reveal i1 it = Some (map canon t)" "sym_le i i1" "length (strs i1) \<le> length (strs i) + length t"
    using intern_ok [OF Cons.prems(3) room] reveal_intern [OF Cons.prems(3) room] it sym_le_intern [of i t] intern_room [of i t] by simp_all
  have rv: "\<forall>t \<in> set (r_tuples r2). reveal i1 t \<noteq> None"
    using Cons.prems(5) sym_le_reveal [OF i1(3)] i1(2) r2(2) by fastforce
  have ih: "interner_ok i' \<and> sym_le i1 i' \<and> length (strs i') \<le> length (strs i1) + length (concat ts)
    \<and> (\<forall>t \<in> set (r_tuples r'). reveal i' t \<noteq> None)
    \<and> row_names i' (r_tuples r') = row_names i1 (r_tuples r2) \<union> map canon ` set ts"
    by (rule Cons.IH [OF rec _ i1(1) _ rv]) (use r2 i1(4) Cons.prems(4) in auto)
  have "row_names i1 (r_tuples r2) = insert (map canon t) (row_names i1 (r_tuples r))"
    using r2(2) i1(2) by (auto simp: row_names_def)
  moreover have "row_names i1 (r_tuples r) = row_names i (r_tuples r)"
    unfolding row_names_def by (rule named_facts_grow [OF Cons.prems(5) i1(3)])
  ultimately show ?case using ih i1(4) sym_le_trans [OF i1(3)] by auto
qed (simp add: row_names_def)

lemma Assert_unfold:
  assumes "Assert rel ts e = (err, e')" "rel \<noteq> []"
  obtains r i where "assert_rows rel (en_maxTuples e) ts (case en_base e rel of Some r \<Rightarrow> r
       | None \<Rightarrow> newRelation rel (case ts of [] \<Rightarrow> -1 | t # _ \<Rightarrow> int (length t))) (en_syms e) = (err, r, i)"
    "en_base e' = (en_base e)(rel \<mapsto> r)" "en_syms e' = i"
proof -
  define r0 where "r0 = (case en_base e rel of Some r \<Rightarrow> r
     | None \<Rightarrow> newRelation rel (case ts of [] \<Rightarrow> -1 | t # _ \<Rightarrow> int (length t)))"
  obtain er r i where ar: "assert_rows rel (en_maxTuples e) ts r0 (en_syms e) = (er, r, i)"
    by (metis prod.exhaust)
  have "er = err" "en_base e' = (en_base e)(rel \<mapsto> r)" "en_syms e' = i"
    using assms ar by (auto simp: Assert_def r0_def [symmetric] reset_def Let_def)
  then show thesis using that ar by (simp add: r0_def)
qed

lemma Assert_facts:
  assumes base: "base_ok e" and sy: "syms_ok e" and run: "Assert rel ts e = (None, e')"
    and room: "length (strs (en_syms e)) + length (concat ts) \<le> 2 ^ 31"
  shows "syms_ok e' \<and> length (strs (en_syms e')) \<le> length (strs (en_syms e)) + length (concat ts)
    \<and> named_facts e' = (named_facts e)(rel := named_facts e rel \<union> map canon ` set ts)"
proof -
  have ne: "rel \<noteq> []" using run by (auto simp: Assert_def)
  define r0 where "r0 = (case en_base e rel of Some r \<Rightarrow> r
     | None \<Rightarrow> newRelation rel (case ts of [] \<Rightarrow> -1 | t # _ \<Rightarrow> int (length t)))"
  from run ne obtain r i where ar: "assert_rows rel (en_maxTuples e) ts r0 (en_syms e) = (None, r, i)"
    and e': "en_base e' = (en_base e)(rel \<mapsto> r)" "en_syms e' = i" unfolding r0_def by (rule Assert_unfold)
  have r0: "r0 = newRelation rel (-1) \<or> (\<exists>n. relation_ok n r0)"
  proof (cases "en_base e rel")
    case None
    show ?thesis
    proof (cases ts)
      case (Cons t us)
      then have "r0 = newRelation rel (int (length t))" using None by (simp add: r0_def)
      then show ?thesis using newRelation_ok by blast
    qed (use None in \<open>simp add: r0_def\<close>)
  qed (use base in \<open>simp add: r0_def base_ok_def\<close>)
  have f0: "set (r_tuples r0) = facts e rel" by (auto simp: r0_def facts_def split: option.splits)
  have ok: "interner_ok (en_syms e)" "\<forall>t \<in> set (r_tuples r0). reveal (en_syms e) t \<noteq> None"
    using sy unfolding syms_ok_def f0 by blast+
  note res = assert_rows_facts [OF ar r0 ok(1) room ok(2)]
  have fe: "facts e' x = (if x = rel then set (r_tuples r) else facts e x)" for x by (simp add: facts_def e'(1))
  have other: "named_facts e' x = named_facts e x" if "x \<noteq> rel" for x
    unfolding named_facts_def fe e'(2) using that sy res
    by (simp only: if_False) (rule named_facts_grow, auto simp: syms_ok_def)
  have "named_facts e' rel = named_facts e rel \<union> map canon ` set ts"
    using res by (simp add: named_facts_def fe e'(2) row_names_def f0)
  then have "named_facts e' = (named_facts e)(rel := named_facts e rel \<union> map canon ` set ts)"
    by (intro ext) (simp add: other)
  moreover have "reveal (en_syms e') t \<noteq> None" if "t \<in> facts e' x" for x t
  proof (cases "x = rel")
    case True
    then show ?thesis using res that by (simp add: fe e'(2))
  next
    case False
    then have "t \<in> facts e x" using that by (simp add: fe)
    then obtain u where "reveal (en_syms e) t = Some u" using sy by (auto simp: syms_ok_def)
    then show ?thesis using res sym_le_reveal by (fastforce simp: e'(2))
  qed
  ultimately show ?thesis using res by (auto simp: syms_ok_def e'(2))
qed

lemma install_facts: "facts (install ar st all e) = facts e"
proof
  fix rel
  have "r_tuples (backfill ar r rel) = r_tuples r" for r by (simp add: backfill_def split: option.splits)
  then show "facts (install ar st all e) rel = facts e rel"
    by (simp add: facts_def install_fields(4) [OF refl] split: option.splits)
qed

lemma install_syms:
  assumes sy: "syms_ok e" and room: "length (strs (en_syms e)) + length (rule_constants all) \<le> 2 ^ 31"
  shows "syms_ok (install ar st all e)" "named_facts (install ar st all e) = named_facts e"
proof -
  let ?i = "en_syms e" and ?j = "snd (intern (en_syms e) (rule_constants all))"
  have j: "en_syms (install ar st all e) = ?j" by (simp add: install_fields(5) [OF refl] internRules_syms)
  have le: "sym_le ?i ?j" by (rule sym_le_intern)
  have ok: "interner_ok ?j" using sy room by (intro intern_ok) (simp_all add: syms_ok_def)
  have rv: "\<forall>t \<in> facts e rel. reveal ?i t \<noteq> None" for rel using sy by (simp add: syms_ok_def)
  show "named_facts (install ar st all e) = named_facts e"
    by (rule ext) (simp only: named_facts_def install_facts j, rule named_facts_grow [OF rv le])
  have "\<forall>t \<in> facts e rel. reveal ?j t \<noteq> None" for rel using rv [of rel] sym_le_reveal [OF le] by fastforce
  then show "syms_ok (install ar st all e)" using ok by (simp add: syms_ok_def install_facts j)
qed

section \<open>Queries\<close>

lemma bindsOf_free [simp]: "bindsOf i (replicate n []) = (replicate n None, i)"
  by (induction n) simp_all

lemma reveal_all_spec: "reveal_all i ts = Inr us \<longleftrightarrow> map (reveal i) ts = map Some us"
proof (induction ts arbitrary: us)
  case (Cons t ts)
  show ?case
  proof (cases "reveal i t")
    case (Some u)
    then show ?thesis using Cons.IH by (cases us) (auto simp: bindE_Inr_iff)
  qed (cases us, auto)
qed auto

lemma map_Some_set: "map f ts = map Some us \<Longrightarrow> set us = {u. \<exists>t \<in> set ts. f t = Some u} \<and> (\<forall>t \<in> set ts. f t \<noteq> None)"
proof (induction ts arbitrary: us)
  case (Cons t ts)
  then obtain u us' where us: "us = u # us'" "f t = Some u" "map f ts = map Some us'" by (cases us) auto
  show ?case using Cons.IH [OF us(3)] us(1,2) by auto
qed simp

text \<open>The state between queries.\<close>

definition serving :: "(string \<Rightarrow> nat) \<Rightarrow> interp \<Rightarrow> engine \<Rightarrow> bool" where
  "serving ar M e \<longleftrightarrow> engine_ok ar M e \<and> queryable e \<and> base_ok e \<and> 0 < en_maxRounds e"

lemma same_prog_serving:
  assumes "serving ar M e" "same_prog e e'" "engine_ok ar M e'"
  shows "serving ar M e'"
proof -
  have "en_loaded e' = en_loaded e" "en_strata e' = en_strata e" "en_rules e' = en_rules e"
    "en_ruleOrder e' = en_ruleOrder e" "en_aggRel e' = en_aggRel e" "en_base e' = en_base e" "en_maxRounds e' = en_maxRounds e"
    using assms(2) by (simp_all add: same_prog_def)
  then show ?thesis using assms(1,3) unfolding serving_def queryable_def base_ok_def by metis
qed

definition answers :: "engine \<Rightarrow> interp \<Rightarrow> string \<Rightarrow> tuple list \<Rightarrow> bool" where
  "answers e M goal us \<longleftrightarrow> sorted us \<and> set us = {u. \<exists>t \<in> M goal. reveal (en_syms e) t = Some u}
     \<and> (\<forall>t \<in> M goal. reveal (en_syms e) t \<noteq> None)"

lemma free_match:
  assumes "relation_ok n br"
  shows "match br (replicate n None) = r_tuples br"
proof -
  have "\<not> anyBound (replicate n (None :: uint32 option))" by (simp add: anyBound_def list_ex_iff)
  then have "matches t (replicate n None)" for t by (rule matches_free)
  then show ?thesis using match_eq [OF relation_okD(5) [OF assms], of "replicate n None"] by simp
qed

lemma derived_rules: "derived e rel \<longleftrightarrow> en_rules e rel \<noteq> []"
  by (simp add: derived_def)

lemma solve_goal:
  assumes sv: "serving ar M e" and a: "arityOf e goal = Inr a" "0 \<le> a"
    and run: "(if useBottomUp e goal (replicate (nat a) None) then solveBottomUp goal e
               else solveComplete (Suc n) goal (replicate (nat a) None) e) = Inr (ts, e')"
  shows "set ts = M goal \<and> distinct ts \<and> engine_ok ar M e' \<and> same_prog e e'"
proof (cases "derived e goal")
  case True
  have "useBottomUp e goal (replicate (nat a) None)"
    using sv True by (simp add: useBottomUp_def serving_def queryable_def derived_rules list_all_iff)
  then show ?thesis using run solveBottomUp_result [of ar M e goal ts e'] sv True by (simp add: serving_def)
next
  case False
  then have nr: "en_rules e goal = []" by (simp add: derived_rules)
  have na: "\<not> en_aggRel e goal" using sv nr unfolding serving_def queryable_def by blast
  from a nr obtain br where br: "en_base e goal = Some br" "r_arity br = a" by (auto simp: arityOf_def split: option.splits)
  then obtain m where m: "relation_ok m br" using sv a(2) unfolding serving_def base_ok_def by fastforce
  then have am: "nat a = m" using br(2) relation_okD(1) by fastforce
  have "\<not> useBottomUp e goal (replicate (nat a) None)" using nr by (simp add: useBottomUp_def)
  with run have "solveComplete (Suc n) goal (replicate m None) e = Inr (ts, e')" by (simp add: am)
  moreover have "solveComplete (Suc n) goal (replicate m None) e = Inr (match br (replicate m None), e)"
    by (rule solveComplete_base [OF nr na br(1)]) (use sv in \<open>simp add: serving_def\<close>)
  ultimately have ts: "ts = r_tuples br" "e' = e" using free_match [OF m] by simp_all
  have eo: "engine_ok ar M e" using sv by (simp add: serving_def)
  then have "goal \<notin> head_rels (en_ruleOrder e)" using False derived_iff [of ar e goal] by (simp add: engine_ok_def)
  then have "M goal = facts e goal" using eo perfect_base_only unfolding engine_ok_def engine_model_def by blast
  then show ?thesis using ts eo br(1) relation_okD(3) [OF m] by (simp add: facts_def)
qed

lemma Query_answers:
  assumes sv: "serving ar M e" and run: "Query (Suc n) goal e = Inr (us, e')"
  shows "answers e M goal us \<and> serving ar M e' \<and> same_prog e e' \<and> (interner_ok (en_syms e) \<longrightarrow> distinct us)"
proof -
  from run obtain a where a: "arityOf e goal = Inr a" "0 \<le> a" and qp: "QueryPattern (Suc n) goal (replicate (nat a) []) e = Inr (us, e')"
    by (auto simp: Query_def split: if_splits)
  let ?bs = "replicate (nat a) None"
  have e: "e\<lparr>en_syms := en_syms e\<rparr> = e" by simp
  from qp obtain ts vs where s: "(if useBottomUp e goal ?bs then solveBottomUp goal e else solveComplete (Suc n) goal ?bs e) = Inr (ts, e')"
    and v: "reveal_all (en_syms e') ts = Inr vs" "us = sortTuples vs"
    unfolding QueryPattern_def bindsOf_free Let_def prod.case e by auto
  note r = solve_goal [OF sv a s]
  have se: "en_syms e' = en_syms e" using r by (simp add: same_prog_def)
  have mv: "map (reveal (en_syms e)) ts = map Some vs" using v(1) by (simp add: reveal_all_spec se)
  note m = map_Some_set [OF mv]
  have "distinct vs" if "interner_ok (en_syms e)"
  proof -
    have "inj_on (reveal (en_syms e)) (set ts)"
      using m reveal_inj [OF that] by (intro inj_onI) (metis not_Some_eq)
    then have "distinct (map Some vs)" unfolding mv [symmetric] using r by (simp add: distinct_map)
    then show ?thesis by (simp add: distinct_map)
  qed
  then show ?thesis using m r v(2) same_prog_serving [OF sv] by (simp add: answers_def sortTuples_def)
qed

lemma query_all_answers:
  assumes "serving ar M e" "query_all (Suc n) goals e = Inr (res, e')"
  shows "map fst res = goals \<and> (\<forall>(g, us) \<in> set res. answers e M g us) \<and> same_prog e e' \<and> serving ar M e'
    \<and> (interner_ok (en_syms e) \<longrightarrow> (\<forall>(g, us) \<in> set res. distinct us))"
  using assms
proof (induction goals arbitrary: e res)
  case (Cons g gs)
  from Cons.prems(2) obtain us e1 rest where q: "Query (Suc n) g e = Inr (us, e1)"
    "query_all (Suc n) gs e1 = Inr (rest, e')" "res = (g, us) # rest" by auto
  note h = Query_answers [OF Cons.prems(1) q(1)]
  then have sv1: "serving ar M e1" and sy: "en_syms e1 = en_syms e" by (auto simp: same_prog_def)
  note t = Cons.IH [OF sv1 q(2)]
  have "answers e1 M x vs = answers e M x vs" for x vs by (simp add: answers_def sy)
  then show ?case using h t q(3) same_prog_trans [of e e1 e'] sy by auto
qed auto

section \<open>Whole programs\<close>

definition given :: "(string \<times> tuple list) list \<Rightarrow> string \<Rightarrow> tuple set" where
  "given fs rel = (\<Union>(r, ts) \<in> set fs. if r = rel then map canon ` set ts else {})"

definition fact_width :: "(string \<times> tuple list) list \<Rightarrow> nat" where
  "fact_width fs = sum_list (map (\<lambda>(r, ts). length (concat ts)) fs)"

lemma assert_all_frame:
  assumes "assert_all fs e = Inr e'" "base_ok e"
  shows "base_ok e' \<and> en_ruleOrder e' = en_ruleOrder e \<and> en_recordProv e' = en_recordProv e
    \<and> en_maxRounds e' = en_maxRounds e"
  using assms
proof (induction fs arbitrary: e)
  case (Cons f fs)
  obtain rel ts where f: "f = (rel, ts)" by (rule prod.exhaust)
  with Cons.prems(1) obtain e1 where a: "Assert rel ts e = (None, e1)" and rest: "assert_all fs e1 = Inr e'"
    by (auto split: prod.splits option.splits)
  note fr = Assert_frame [OF a]
  from Cons.IH [OF rest Assert_base_ok [OF Cons.prems(2) a]] fr show ?case by simp
qed simp

lemma assert_all_facts:
  assumes "assert_all fs e = Inr e'" "base_ok e" "syms_ok e" "length (strs (en_syms e)) + fact_width fs \<le> 2 ^ 31"
  shows "syms_ok e' \<and> length (strs (en_syms e')) \<le> length (strs (en_syms e)) + fact_width fs
    \<and> (\<forall>rel. named_facts e' rel = named_facts e rel \<union> given fs rel)"
  using assms
proof (induction fs arbitrary: e)
  case (Cons f fs)
  obtain rel ts where f: "f = (rel, ts)" by (rule prod.exhaust)
  with Cons.prems(1) obtain e1 where a: "Assert rel ts e = (None, e1)" and rest: "assert_all fs e1 = Inr e'"
    by (auto split: prod.splits option.splits)
  have room: "length (strs (en_syms e)) + length (concat ts) \<le> 2 ^ 31" using Cons.prems(4) f by (simp add: fact_width_def)
  note h = Assert_facts [OF Cons.prems(2,3) a room]
  have "length (strs (en_syms e1)) + fact_width fs \<le> 2 ^ 31" using h Cons.prems(4) f by (simp add: fact_width_def)
  note t = Cons.IH [OF rest Assert_base_ok [OF Cons.prems(2) a] conjunct1 [OF h] this]
  have "named_facts e' x = named_facts e x \<union> given (f # fs) x" for x
  proof -
    have "given (f # fs) x = (if rel = x then map canon ` set ts else {}) \<union> given fs x" by (simp add: given_def f)
    then show ?thesis using h t by (simp add: Un_assoc)
  qed
  then show ?case using h t f by (simp add: fact_width_def)
qed (simp add: given_def fact_width_def)

lemma New_syms_ok: "syms_ok (New o0)" "named_facts (New o0) rel = {}" "strs (en_syms (New o0)) = []"
proof -
  have "en_syms (New o0) = newInterner" "en_base (New o0) = Map.empty" by (simp_all add: New_def Let_def)
  then show "syms_ok (New o0)" "named_facts (New o0) rel = {}" "strs (en_syms (New o0)) = []"
    using newInterner_ok by (simp_all add: syms_ok_def named_facts_def facts_def newInterner_def)
qed

lemma given_perm: "set fs = set gs \<Longrightarrow> given fs = given gs"
  by (simp add: given_def fun_eq_iff)

lemma fact_width_perm: "mset fs = mset gs \<Longrightarrow> fact_width fs = fact_width gs"
proof -
  assume "mset fs = mset gs"
  then have "mset (map w fs) = mset (map w gs)" for w :: "string \<times> tuple list \<Rightarrow> nat" by simp
  then show ?thesis unfolding fact_width_def by (metis (lifting) sum_mset_sum_list)
qed

text \<open>
  \<open>Eval\<close> answers every goal with the sorted tuples of the perfect model of the parsed rules over
  the given facts.
\<close>

lemma Eval_answers:
  assumes run: "Eval_program (Suc n) p f = Inr (res, e')" and parse: "parseRules (pr_src p) (pr_name p) = Inr rules"
    and neg: "\<forall>r \<in> set rules. neg_ordered r"
    and room: "fact_width (fr_rels f) + length (rule_constants rules) \<le> 2 ^ 31"
  shows "map fst res = fr_goals f \<and> map erase (en_ruleOrder e') = map erase rules
    \<and> named_facts e' = given (fr_rels f)
    \<and> (\<exists>M. perfect_model (en_ruleOrder e') (facts e') (en_syms e') M
          \<and> (\<forall>(g, us) \<in> set res. answers e' M g us \<and> distinct us))"
proof -
  define e0 where "e0 = New \<lparr>op_demandDriven = False, op_maxTuples = 0, op_maxRounds = 0, op_provenance = False\<rparr>"
  from run obtain e1 e2 where as: "assert_all (sort_key fst (fr_rels f)) e0 = Inr e1"
    and ld: "LoadRules (pr_src p) (pr_name p) e1 = Inr e2" and qs: "query_all (Suc n) (fr_goals f) e2 = Inr (res, e')"
    by (auto simp: Eval_program_def e0_def [symmetric] Let_def)
  have b0: "base_ok e0" "en_ruleOrder e0 = []" "\<not> en_recordProv e0" "0 < en_maxRounds e0"
    using New_base_ok New_frame by (simp_all add: e0_def)
  have s0: "syms_ok e0" "\<And>rel. named_facts e0 rel = {}" "strs (en_syms e0) = []" unfolding e0_def by (rule New_syms_ok)+
  have wd: "fact_width (sort_key fst (fr_rels f)) = fact_width (fr_rels f)" by (rule fact_width_perm) simp
  have gv: "given (sort_key fst (fr_rels f)) = given (fr_rels f)" by (rule given_perm) simp
  have b1: "base_ok e1" "en_ruleOrder e1 = []" "\<not> en_recordProv e1" "0 < en_maxRounds e1"
    using assert_all_frame [OF as b0(1)] b0 by simp_all
  have s1: "syms_ok e1" "length (strs (en_syms e1)) \<le> fact_width (fr_rels f)" "named_facts e1 = given (fr_rels f)"
    using assert_all_facts [OF as b0(1) s0(1)] s0(2,3) wd gv room by auto
  from ld obtain ar st where st: "check_rules rules = Inr ()" "check_arities (concat (map rule_lits rules)) (base_arities e1) = Inr ar"
    "stratify rules = Inr st" and e2: "e2 = install ar st rules e1"
  proof (rule LoadRules_unfold)
    fix rs ar st
    assume a: "parseRules (pr_src p) (pr_name p) = Inr rs" "check_rules rs = Inr ()"
      "check_arities (concat (map rule_lits (en_ruleOrder e1 @ rs))) (base_arities e1) = Inr ar"
      "stratify (en_ruleOrder e1 @ rs) = Inr st" "e2 = install ar st (en_ruleOrder e1 @ rs) e1"
    then have "rs = rules" using parse by simp
    then show thesis using that a b1(2) by simp
  qed
  have ldb: "loadable e1" using b1 by (simp add: loadable_def)
  have stc: "\<forall>r \<in> set rules. static_ok r \<and> neg_ordered r" using loaded_static [OF parse st(1)] neg by blast
  from install_engine_ok [OF ldb stc st(2,3) b1(3)] obtain M where M: "engine_ok (arity_fun ar) M e2" by (auto simp: e2)
  have sv: "serving (arity_fun ar) M e2"
    using M install_queryable backfill_base_ok [OF b1(1)] b1(4) by (simp add: serving_def e2 install_fields [OF refl])
  note q = query_all_answers [OF sv qs]
  have sy: "syms_ok e2" "named_facts e2 = given (fr_rels f)"
    using install_syms [OF s1(1), of rules ar st] s1(2,3) room by (simp_all add: e2)
  have same: "en_ruleOrder e' = en_ruleOrder e2" "en_syms e' = en_syms e2" "en_base e' = en_base e2" using q by (simp_all add: same_prog_def)
  then have fe: "facts e' = facts e2" by (simp add: facts_def fun_eq_iff)
  have "map erase (en_ruleOrder e') = map erase rules"
    using internRules_erase [of "en_syms e1" rules] by (simp add: same e2 install_fields(1) [OF refl] o_def)
  moreover have "named_facts e' = given (fr_rels f)" using sy(2) by (simp add: named_facts_def fe same fun_eq_iff)
  moreover have "perfect_model (en_ruleOrder e') (facts e') (en_syms e') M" using M by (simp add: fe same engine_ok_def engine_model_def)
  moreover have "\<forall>(g, us) \<in> set res. answers e' M g us \<and> distinct us"
  proof -
    have "answers e2 M g us = answers e' M g us" for g us by (simp add: answers_def same)
    then show ?thesis using q sy(1) unfolding syms_ok_def by fastforce
  qed
  ultimately show ?thesis using q by blast
qed

end
