(* ===== verification/Progress.thy ===== *)
theory Progress
  imports Answers
begin

unbundle bit_operations_syntax

text \<open>
  When evaluation fails. The engine has checks that \<open>can only fail on a bug of the engine\<close> by its own
  comments (an unbound head variable or operand, a negated relation that is not completed, an
  unknown relation). This theory shows that they never fail on a loaded program, and that the other
  errors have their cause in the data: a cap that the model exceeds, or a symbol that is not a
  number where a number is needed. So a query within the caps returns.
\<close>

section \<open>Loops that fail\<close>

lemma foldE_InlE:
  assumes "foldE f xs s = Inl err" "P s" "\<And>x a b. x \<in> set xs \<Longrightarrow> P a \<Longrightarrow> f x a = Inr b \<Longrightarrow> P b"
  obtains x a where "x \<in> set xs" "P a" "f x a = Inl err"
  using assms
proof (induction xs arbitrary: s thesis)
  case (Cons x xs)
  show ?case
  proof (cases "f x s")
    case (Inl er)
    then have "f x s = Inl err" using Cons.prems(2) by simp
    then show ?thesis using Cons.prems(1) [of x s] Cons.prems(3) by simp
  next
    case (Inr b)
    then have rest: "foldE f xs b = Inl err" using Cons.prems(2) by simp
    have "P b" using Cons.prems(4) [OF _ Cons.prems(3) Inr] by simp
    from Cons.IH [OF _ rest this] Cons.prems(1,4) show ?thesis by (metis list.set_intros(2))
  qed
qed simp

lemma bindE_InlE:
  assumes "bindE m f = Inl err"
  obtains "m = Inl err" | a where "m = Inr a" "f a = Inl err"
  using assms by (cases m) auto

section \<open>Joins that fail\<close>

text \<open>
  The contract of a source whose failures are known: \<open>err_ok\<close> are the errors it may have, and every
  value that a literal can bind is \<open>val_ok\<close>.
\<close>

locale rule_progress = rule_emission +
  fixes err_ok :: "dl_error \<Rightarrow> bool" and val_ok :: "uint32 \<Rightarrow> bool"
  assumes up_vals: "l \<in> set (ru_body r) \<Longrightarrow> \<not> is_builtin (l_rel l) \<Longrightarrow> t \<in> up p l \<Longrightarrow> v \<in> set t \<Longrightarrow> val_ok v"
    and const_vals: "l \<in> set (ru_body r) \<Longrightarrow> a \<in> set (l_args l) \<Longrightarrow> \<not> tm_isVar a \<Longrightarrow> val_ok (tm_sym a)"
    and lit_err: "inv e \<Longrightarrow> l \<in> set (ru_body r) \<Longrightarrow> \<not> is_builtin (l_rel l) \<Longrightarrow> \<not> l_neg l \<Longrightarrow>
      bs_lit src p l pat e = Inl err \<Longrightarrow> err_ok err"
    and neg_err: "inv e \<Longrightarrow> l \<in> set (ru_body r) \<Longrightarrow> \<not> is_builtin (l_rel l) \<Longrightarrow> l_neg l \<Longrightarrow>
      bs_neg src l pat e = Inl err \<Longrightarrow> err_ok err"
    and builtin_err: "l \<in> set (ru_body r) \<Longrightarrow> is_builtin (l_rel l) \<Longrightarrow> val_ok x \<Longrightarrow> val_ok y \<Longrightarrow>
      evalBuiltin (l_rel l) x y syms = Inl err \<Longrightarrow> err_ok err"
    and emit_err: "inv e \<Longrightarrow> frame_ok (ru_nvars r) fr \<Longrightarrow> agrees \<theta> fr \<Longrightarrow> bound_after {} (ru_body r) \<subseteq> bound fr \<Longrightarrow>
      sat up neg_rows syms 0 (ru_body r) \<theta> \<Longrightarrow> join_emit r bs tk fr steps e = Inl err \<Longrightarrow> err_ok err"
begin

definition frame_vals :: "frame \<Rightarrow> bool" where
  "frame_vals fr \<longleftrightarrow> (\<forall>k v. frame_get fr k = Some v \<longrightarrow> val_ok v)"

lemma unify_vals:
  assumes "unify_args as t fr = Some fr'" "frame_ok n fr" "terms_ok n as" "frame_vals fr" "\<forall>v \<in> set t. val_ok v"
  shows "frame_vals fr'"
  using assms
proof (induction as t fr rule: unify_args.induct)
  case (3 a as v t fr)
  have tail: "terms_ok n as" "\<forall>v \<in> set t. val_ok v" using "3.prems"(3,5) by (auto simp: terms_ok_def)
  show ?case
  proof (cases "tm_isVar a")
    case False
    then show ?thesis using "3.prems" "3.IH"(1) [OF False] tail by (auto split: if_splits)
  next
    case True
    then have k: "tm_var a < n" using "3.prems"(3) by (simp add: terms_ok_def)
    show ?thesis
    proof (cases "frame_get fr (tm_var a)")
      case None
      have "frame_vals (frame_put fr (tm_var a) v)"
        using "3.prems"(4,5) frame_get_put [OF "3.prems"(2) k] by (simp add: frame_vals_def)
      then show ?thesis using "3.IH"(2) [OF _ None] "3.prems" tail True None by simp
    next
      case (Some w)
      then show ?thesis using "3.IH"(3) [OF _ Some] "3.prems" tail True by (auto split: if_splits)
    qed
  qed
qed auto

lemma termSym_val:
  assumes "frame_vals fr" "l \<in> set (ru_body r)" "a \<in> set (l_args l)" "termSym fr a = Some v"
  shows "val_ok v"
  using assms const_vals by (auto simp: termSym_def frame_vals_def split: if_splits)

lemma row_step_inv:
  assumes l: "l \<in> set (ru_body r)" "\<not> is_builtin (l_rel l)" "\<not> l_neg l" and body: "ru_body r = pre @ l # ls" "p = length pre"
    and fr: "frame_ok (ru_nvars r) fr" "body_ok (ru_nvars r) (bound fr) (l # ls)" "bound_after {} pre \<subseteq> bound fr"
    and pre: "\<forall>\<theta>. agrees \<theta> fr \<longrightarrow> sat up neg_rows syms 0 pre \<theta>"
    and t: "length t = length (l_args l)" "t \<in> up p l" and u: "unify_args (l_args l) t fr = Some fr'" and a: "inv a"
  shows "frame_ok (ru_nvars r) fr'" "body_ok (ru_nvars r) (bound fr') ls" "bound_after {} (pre @ [l]) \<subseteq> bound fr'"
    "\<forall>\<theta>. agrees \<theta> fr' \<longrightarrow> sat up neg_rows syms 0 (pre @ [l]) \<theta>" "add_step l t steps a = Inr steps"
proof -
  have terms: "terms_ok (ru_nvars r) (l_args l)" using fr(2) by simp
  have fr': "frame_ok (ru_nvars r) fr'" "bound fr' = bound fr \<union> slots_of (l_args l)"
    "\<And>\<theta>. agrees \<theta> fr' \<longleftrightarrow> agrees \<theta> fr \<and> inst \<theta> l = t"
    using unify_args_spec [OF fr(1) terms t(1) [symmetric]] u by (auto simp: inst_def)
  show "frame_ok (ru_nvars r) fr'" by (rule fr'(1))
  show "body_ok (ru_nvars r) (bound fr') ls" using fr(2) l fr'(2) by simp
  show "bound_after {} (pre @ [l]) \<subseteq> bound fr'" using fr(3) l fr'(2) by (auto simp: bound_after_append)
  show "\<forall>\<theta>. agrees \<theta> fr' \<longrightarrow> sat up neg_rows syms 0 (pre @ [l]) \<theta>"
    using pre fr'(3) l t body(2) by (auto simp: sat_append lit_sat_def)
  show "add_step l t steps a = Inr steps" using inv_prov [OF a] by (simp add: add_step_def)
qed

lemma join_pos_err:
  assumes l: "l \<in> set (ru_body r)" "\<not> is_builtin (l_rel l)" "\<not> l_neg l" and body: "ru_body r = pre @ l # ls" "p = length pre"
    and fr: "frame_ok (ru_nvars r) fr" "body_ok (ru_nvars r) (bound fr) (l # ls)" "bound_after {} pre \<subseteq> bound fr"
    and pre: "\<forall>\<theta>. agrees \<theta> fr \<longrightarrow> sat up neg_rows syms 0 pre \<theta>" and vals: "frame_vals fr" and e: "inv e"
    and lit: "bs_lit src p l (map (termSym fr) (l_args l)) e = Inr (cands, e1)"
    and fold: "foldE (row_step l ls p fr steps) cands e1 = Inl err"
    and IH: "\<And>fr' a. inv a \<Longrightarrow> frame_ok (ru_nvars r) fr' \<Longrightarrow> body_ok (ru_nvars r) (bound fr') ls \<Longrightarrow>
      bound_after {} (pre @ [l]) \<subseteq> bound fr' \<Longrightarrow> \<forall>\<theta>. agrees \<theta> fr' \<longrightarrow> sat up neg_rows syms 0 (pre @ [l]) \<theta> \<Longrightarrow>
      frame_vals fr' \<Longrightarrow> join src r bs tk ls (Suc p) fr' steps a = Inl err \<Longrightarrow> err_ok err"
  shows "err_ok err"
proof -
  have li: "lit_in l" using body_lits l(1) by blast
  note res = lit_result [OF e li l(2,3) _ lit, simplified]
  have row: "length t = length (l_args l)" "t \<in> up p l" if "t \<in> set cands" for t using res that by auto
  have keep: "inv b" if "t \<in> set cands" "inv a" "row_step l ls p fr steps t a = Inr b" for t a b
  proof (cases "unify_args (l_args l) t fr")
    case None
    then show ?thesis using that by (simp add: row_step_def)
  next
    case (Some fr')
    note rs = row_step_inv [OF l body fr pre row [OF that(1)] Some that(2)]
    have j: "join src r bs tk ls (Suc p) fr' steps a = Inr b" using that(3) Some rs(5) by (simp add: row_step_def)
    have "good ls (Suc p) fr' a b"
      by (rule join_good [OF that(2) rs(1) _ _ rs(2,3,4) j]) (use body in simp_all)
    then show ?thesis by (simp add: good_def)
  qed
  obtain t a where t: "t \<in> set cands" and a: "inv a" and bad: "row_step l ls p fr steps t a = Inl err"
    by (rule foldE_InlE [OF fold, of inv]) (use res keep in blast)+
  from bad obtain fr' where u: "unify_args (l_args l) t fr = Some fr'" by (auto simp: row_step_def split: option.splits)
  note rs = row_step_inv [OF l body fr pre row [OF t] u a]
  have terms: "terms_ok (ru_nvars r) (l_args l)" using fr(2) by simp
  have "frame_vals fr'"
    by (rule unify_vals [OF u fr(1) terms vals]) (use up_vals [OF l(1,2) row(2) [OF t]] in blast)
  then show ?thesis using IH [OF a rs(1-4)] bad u rs(5) by (simp add: row_step_def)
qed

lemma join_err:
  assumes "inv e" "frame_ok (ru_nvars r) fr" "ru_body r = pre @ ls" "p = length pre"
    and "body_ok (ru_nvars r) (bound fr) ls" "bound_after {} pre \<subseteq> bound fr"
    and "\<forall>\<theta>. agrees \<theta> fr \<longrightarrow> sat up neg_rows syms 0 pre \<theta>" "frame_vals fr"
    and "join src r bs tk ls p fr steps e = Inl err"
  shows "err_ok err"
  using assms
proof (induction ls arbitrary: pre p fr e)
  case Nil
  obtain \<theta> where "agrees \<theta> fr" using agrees_ex by blast
  then show ?case using Nil.prems emit_err by simp
next
  case (Cons l ls)
  have l: "l \<in> set (ru_body r)" and li: "lit_in l" using body_lits Cons.prems(3) by simp_all
  have terms: "terms_ok (ru_nvars r) (l_args l)" using Cons.prems(5) by simp
  have body: "ru_body r = (pre @ [l]) @ ls" and p: "Suc p = length (pre @ [l])" using Cons.prems(3,4) by auto
  show ?case
  proof (cases "is_builtin (l_rel l)")
    case True
    with Cons.prems(5) have sl: "slots_of (l_args l) \<subseteq> bound fr" and bo: "body_ok (ru_nvars r) (bound fr) ls"
      and len: "length (l_args l) = 2" by auto
    from len obtain x y where xy: "l_args l = [x, y]" by (auto simp: numeral_2_eq_2 length_Suc_conv)
    obtain \<theta> where th: "agrees \<theta> fr" using agrees_ex by blast
    obtain a b where ab: "termSym fr x = Some a" "termSym fr y = Some b"
      using termSym_bound [OF Cons.prems(2) terms _ sl th] xy by simp
    have vab: "val_ok a" "val_ok b" using termSym_val [OF Cons.prems(8) l, of x a] termSym_val [OF Cons.prems(8) l, of y b] ab xy by simp_all
    show ?thesis
    proof (cases "evalBuiltin (l_rel l) a b (en_syms e)")
      case (Inl er)
      then show ?thesis using Cons.prems(9) True xy ab builtin_err [OF l True vab] inv_syms [OF Cons.prems(1)] by simp
    next
      case (Inr hb)
      with Cons.prems(9) True xy ab have hb: "hb" and run: "join src r bs tk ls (Suc p) fr steps e = Inl err"
        by (auto split: if_splits)
      have val: "builtin_true syms l \<theta>" if "agrees \<theta> fr" for \<theta>
        using termSym_agrees [OF that ab(1)] termSym_agrees [OF that ab(2)] Inr hb inv_syms [OF Cons.prems(1)] xy
        by (simp add: builtin_true_def inst_def)
      have "bound_after {} (pre @ [l]) \<subseteq> bound fr" using Cons.prems(6) True by (simp add: bound_after_append)
      moreover have "\<forall>\<theta>. agrees \<theta> fr \<longrightarrow> sat up neg_rows syms 0 (pre @ [l]) \<theta>"
        using Cons.prems(7) val True by (auto simp: sat_append lit_sat_def)
      ultimately show ?thesis using Cons.IH [OF Cons.prems(1,2) body p bo _ _ Cons.prems(8) run] by blast
    qed
  next
    case nb: False
    show ?thesis
    proof (cases "l_neg l")
      case True
      with Cons.prems(5) nb have sl: "slots_of (l_args l) \<subseteq> bound fr" and bo: "body_ok (ru_nvars r) (bound fr) ls" by auto
      show ?thesis
      proof (cases "bs_neg src l (map (termSym fr) (l_args l)) e")
        case (Inl er)
        then show ?thesis using Cons.prems(9) True nb neg_err [OF Cons.prems(1) l nb True] by simp
      next
        case (Inr fe)
        obtain found e1 where fe: "fe = (found, e1)" by (rule prod.exhaust)
        with Cons.prems(9) True nb Inr have nf: "\<not> found" and run: "join src r bs tk ls (Suc p) fr steps e1 = Inl err"
          by (auto split: if_splits)
        note res = neg_result [OF Cons.prems(1) li nb True _ Inr [unfolded fe], simplified]
        have val: "inst \<theta> l \<notin> neg_rows l" if "agrees \<theta> fr" for \<theta>
        proof
          assume m: "inst \<theta> l \<in> neg_rows l"
          have "map (termSym fr) (l_args l) = map Some (inst \<theta> l)"
            using pattern_ground [OF Cons.prems(2) terms sl that] by (simp add: inst_def)
          then show False using res m nf matches_ground [of "inst \<theta> l" "inst \<theta> l"] by auto
        qed
        have "bound_after {} (pre @ [l]) \<subseteq> bound fr" using Cons.prems(6) True by (simp add: bound_after_append)
        moreover have "\<forall>\<theta>. agrees \<theta> fr \<longrightarrow> sat up neg_rows syms 0 (pre @ [l]) \<theta>"
          using Cons.prems(7) val True nb by (auto simp: sat_append lit_sat_def)
        moreover have "inv e1" using res by blast
        ultimately show ?thesis using Cons.IH [OF _ Cons.prems(2) body p bo _ _ Cons.prems(8) run] by blast
      qed
    next
      case False
      show ?thesis
      proof (cases "bs_lit src p l (map (termSym fr) (l_args l)) e")
        case (Inl er)
        then show ?thesis using Cons.prems(9) False nb lit_err [OF Cons.prems(1) l nb False] by simp
      next
        case (Inr ce)
        obtain cands e1 where ce: "ce = (cands, e1)" by (rule prod.exhaust)
        have fold: "foldE (row_step l ls p fr steps) cands e1 = Inl err"
          using Cons.prems(9) False nb Inr ce unfolding row_step_def by simp
        show ?thesis
          by (rule join_pos_err [OF l nb False _ Cons.prems(4,2,5,6,7,8,1) Inr [unfolded ce] fold])
             (use Cons.prems(3) body in simp, rule Cons.IH [where pre = "pre @ [l]"], use body p in simp_all)
      qed
    qed
  qed
qed

lemma join_err_start:
  assumes "inv e" "ru_nvars r \<le> 64" "body_ok (ru_nvars r) {} (ru_body r)"
    and "join src r bs tk (ru_body r) 0 (newFrame (ru_nvars r)) steps e = Inl err"
  shows "err_ok err"
  by (rule join_err [OF assms(1) frame_ok_new [OF assms(2)] _ _ _ _ _ _ assms(4), of "[]"])
     (use assms(3) in \<open>simp_all add: frame_vals_def\<close>)

end

section \<open>The reasons of a failure\<close>

definition more_than :: "nat \<Rightarrow> 'a set \<Rightarrow> bool" where
  "more_than n S \<longleftrightarrow> (\<exists>T \<subseteq> S. finite T \<and> n < card T)"

lemma more_than_list: "distinct xs \<Longrightarrow> set xs \<subseteq> S \<Longrightarrow> n < length xs \<Longrightarrow> more_than n S"
  unfolding more_than_def by (metis List.finite_set distinct_card)

definition has_aggregate :: "engine \<Rightarrow> bool" where
  "has_aggregate e \<longleftrightarrow> (\<exists>r \<in> set (en_ruleOrder e). ru_agg r \<noteq> None)"

text \<open>
  An error with the reason that it must have: the model exceeds the cap on tuples, it has more rows
  than the cap on rounds, a comparison or a \<open>min\<close> or \<open>max\<close> meets a symbol that is not a number, or
  the groups of an aggregate are sorted while no string is interned.
\<close>

definition run_error :: "engine \<Rightarrow> interp \<Rightarrow> dl_error \<Rightarrow> bool" where
  "run_error e M err =
     (case err of
        EvalE er \<Rightarrow>
          (case er of
             EMaxTuples rel n \<Rightarrow> n = en_maxTuples e \<and> more_than n (M rel)
           | ENoFixpoint rel n \<Rightarrow> n = en_maxRounds e \<and> more_than n {(x, t). derived e x \<and> t \<in> M x}
           | EIntOperands b x y \<Rightarrow> b \<in> {''lt'', ''le''} \<and> (decodeIntSym x = None \<or> decodeIntSym y = None)
               \<and> (\<exists>r \<in> set (en_ruleOrder e). \<exists>l \<in> set (ru_body r). l_rel l = b)
           | EAggNonInt nm fn v \<Rightarrow> decodeIntSym v = None
               \<and> (\<exists>r \<in> set (en_ruleOrder e). \<exists>a. ru_agg r = Some a \<and> ru_name r = nm \<and> ag_fn a = fn \<and> fn \<in> {''min'', ''max''})
           | EPanic \<Rightarrow> strs (en_syms e) = [] \<and> has_aggregate e
           | _ \<Rightarrow> False)
      | _ \<Rightarrow> False)"

text \<open>
  What loading adds to a well-formed program: every relation a rule reads exists, and every symbol
  of the facts and rules has a name.
\<close>

definition named :: "engine \<Rightarrow> uint32 \<Rightarrow> bool" where
  "named e v \<longleftrightarrow> in_sym (en_syms e) v \<noteq> None \<or> strs (en_syms e) = [] \<and> has_aggregate e"

definition closed_engine :: "engine \<Rightarrow> bool" where
  "closed_engine e \<longleftrightarrow>
     (\<forall>r \<in> set (en_ruleOrder e). \<forall>l \<in> set (ru_body r). is_builtin (l_rel l) \<or> derived e (l_rel l) \<or> en_base e (l_rel l) \<noteq> None)
     \<and> (\<forall>rel. \<forall>t \<in> facts e rel. reveal (en_syms e) t \<noteq> None)
     \<and> (\<forall>r \<in> set (en_ruleOrder e). \<forall>l \<in> set (rule_lits r). \<forall>a \<in> set (l_args l).
          tm_isVar a \<or> in_sym (en_syms e) (tm_sym a) \<noteq> None)"

lemma reveal_iff: "reveal i t \<noteq> None \<longleftrightarrow> (\<forall>v \<in> set t. in_sym i v \<noteq> None)"
  by (induction t) (auto split: option.splits)

lemma flag_test: "(intSymFlag OR v) AND intSymFlag \<noteq> 0"
proof -
  have "bit ((intSymFlag OR v) AND intSymFlag) 31" by (simp add: intSymFlag_def bit_simps)
  then show ?thesis by auto
qed

lemma in_sym_int: "in_sym i (intSymFlag OR v) \<noteq> None"
  using flag_test by (simp add: in_sym_def)

lemma named_zero: "has_aggregate e \<Longrightarrow> named e 0"
  by (cases "strs (en_syms e)") (auto simp: named_def in_sym_def)

lemma bound_after_lit:
  assumes "k \<in> bound_after B ls" "k \<notin> B"
  shows "\<exists>l \<in> set ls. pos_lit l \<and> k \<in> slots_of (l_args l)"
  using assms
proof (induction ls arbitrary: B)
  case (Cons l ls)
  let ?B = "if is_builtin (l_rel l) \<or> l_neg l then B else B \<union> slots_of (l_args l)"
  show ?case
  proof (cases "k \<in> ?B")
    case True
    then show ?thesis using Cons.prems(2) by (auto simp: pos_lit_def split: if_splits)
  next
    case False
    then show ?thesis using Cons.IH [of ?B] Cons.prems(1) by auto
  qed
qed simp

text \<open>Every symbol of the model has a name.\<close>

lemma closed_const:
  assumes "closed_engine e" "r \<in> set (en_ruleOrder e)" "l \<in> set (ru_body r)" "a \<in> set (l_args l)" "\<not> tm_isVar a"
  shows "named e (tm_sym a)"
proof -
  have "l \<in> set (rule_lits r)" using assms(3) by (simp add: rule_lits_def)
  then show ?thesis using assms unfolding closed_engine_def named_def by blast
qed

lemma inst_named:
  assumes "slots_of as \<subseteq> bound_after {} (ru_body r)" "a \<in> set as"
    and const: "\<not> tm_isVar a \<longrightarrow> named e (tm_sym a)"
    and body: "\<forall>l \<in> set (ru_body r). pos_lit l \<longrightarrow> (\<forall>v \<in> set (inst \<theta> l). named e v)"
  shows "named e (term_val \<theta> a)"
proof (cases "tm_isVar a")
  case True
  then have "tm_var a \<in> bound_after {} (ru_body r)" using assms(1,2) by (auto simp: slots_of_def)
  then obtain l where l: "l \<in> set (ru_body r)" "pos_lit l" "tm_var a \<in> slots_of (l_args l)"
    using bound_after_lit [of "tm_var a" "{}"] by auto
  then have "\<theta> (tm_var a) \<in> set (inst \<theta> l)" by (force simp: slots_of_def inst_def term_val_def)
  then show ?thesis using body l True by (auto simp: term_val_def)
qed (use const in \<open>simp add: term_val_def\<close>)

lemma agg_row_vals:
  assumes "t \<in> agg_rows M S a r" "v \<in> set t"
  shows "(\<exists>\<theta>. holds M M S (ru_body r) \<theta> \<and> v \<in> set (agg_group a r \<theta>)) \<or> (\<exists>w. v = intSymFlag OR w)"
proof -
  from assms(1) obtain \<theta> where th: "holds M M S (ru_body r) \<theta>"
    and t: "t = agg_row a r (agg_group a r \<theta>) (agg_pairs M S a r `` {agg_group a r \<theta>})"
    by (auto simp: agg_rows_def agg_pairs_def)
  show ?thesis using assms(2) th set_update_subset_insert unfolding t agg_row_def by fastforce
qed

text \<open>The values of a group are those of the body and the blanked-out slot.\<close>

lemma group_named:
  assumes ro: "rule_ok ar r" "ru_agg r = Some a" and r: "r \<in> set (en_ruleOrder e)" and cl: "closed_engine e"
    and th: "holds M M (en_syms e) (ru_body r) \<theta>" and v: "v \<in> set (agg_group a r \<theta>)"
    and below: "\<And>l u v. l \<in> set (ru_body r) \<Longrightarrow> u \<in> M (l_rel l) \<Longrightarrow> v \<in> set u \<Longrightarrow> named e v"
  shows "named e v"
proof -
  have ag: "agg_ok a r" using ro by (simp add: rule_ok_def)
  have has: "has_aggregate e" using r ro(2) by (auto simp: has_aggregate_def)
  from v obtain x where x: "x \<in> set (l_args (ru_head r))"
    and vx: "v = (if tm_isVar x \<and> tm_var x = ag_outSlot a then 0 else term_val \<theta> x)" by (auto simp: agg_group_def)
  show ?thesis
  proof (cases "tm_isVar x \<and> tm_var x = ag_outSlot a")
    case True
    then show ?thesis using vx named_zero [OF has] by simp
  next
    case False
    have sl: "slots_of [x] \<subseteq> bound_after {} (ru_body r)" using ag x False by (auto simp: agg_ok_def slots_of_def)
    have body: "\<forall>l \<in> set (ru_body r). pos_lit l \<longrightarrow> (\<forall>v \<in> set (inst \<theta> l). named e v)"
      using below th by (auto simp: holds_split_at)
    have con: "\<not> tm_isVar x \<longrightarrow> named e (tm_sym x)"
      using cl r x by (auto simp: closed_engine_def rule_lits_def named_def)
    have "named e (term_val \<theta> x)" by (rule inst_named [OF sl _ con body]) simp
    then show ?thesis using vx False by simp
  qed
qed

lemma derives_named:
  assumes pr: "prog_ok ar e" and st: "stratification (en_ruleOrder e) st" and M: "engine_model e M" and cl: "closed_engine e"
  shows "derives (en_ruleOrder e) (facts e) (en_syms e) M rel t \<Longrightarrow> rel \<in> head_rels (en_ruleOrder e) \<longrightarrow> st rel \<le> n \<Longrightarrow>
    \<forall>v \<in> set t. named e v"
proof (induction n arbitrary: rel t rule: less_induct)
  case (less n)
  have der: "derives (en_ruleOrder e) (facts e) (en_syms e) M rl u \<longleftrightarrow> u \<in> M rl" for rl u
    using M by (simp add: engine_model_def perfect_model_def)
  have con: "named e (tm_sym a)" if "r \<in> set (en_ruleOrder e)" "a \<in> set (l_args (ru_head r))" "\<not> tm_isVar a" for r a
    using cl that by (auto simp: closed_engine_def rule_lits_def named_def)
  have ro: "rule_ok ar r" if "r \<in> set (en_ruleOrder e)" for r using pr that by (simp add: prog_ok_def)
  have hd: "l_rel (ru_head r) \<in> head_rels (en_ruleOrder e)" if "r \<in> set (en_ruleOrder e)" for r
    using that by (auto simp: head_rels_def)
  show ?case
    using less.prems
  proof (induction rule: derives.induct)
    case (fact t rel)
    then show ?case using cl reveal_iff unfolding closed_engine_def named_def by blast
  next
    case (fire r \<theta>)
    have sl: "slots_of (l_args (ru_head r)) \<subseteq> bound_after {} (ru_body r)" using ro [OF fire(1)] fire(2) by (simp add: rule_ok_def)
    have low: "l_rel l \<in> head_rels (en_ruleOrder e) \<longrightarrow> st (l_rel l) \<le> n" if "l \<in> set (ru_body r)" for l
      using stratification_read(1) [OF st fire(1) that] fire.prems hd [OF fire(1)] by auto
    have body: "\<forall>l \<in> set (ru_body r). pos_lit l \<longrightarrow> (\<forall>v \<in> set (inst \<theta> l). named e v)"
    proof (intro ballI impI)
      fix l v
      assume l: "l \<in> set (ru_body r)" "pos_lit l" "v \<in> set (inst \<theta> l)"
      from bspec [OF fire.IH l(1)] l low [OF l(1)] show "named e v" by blast
    qed
    have "named e (term_val \<theta> x)" if "x \<in> set (l_args (ru_head r))" for x
      using inst_named [OF sl that _ body] con [OF fire(1) that] by blast
    then show ?case by (simp add: inst_def)
  next
    case (aggr r a t)
    have below: "\<forall>v \<in> set u. named e v" if l: "l \<in> set (ru_body r)" and u: "u \<in> M (l_rel l)" for l u
    proof (cases "l_rel l \<in> head_rels (en_ruleOrder e)")
      case True
      have "st (l_rel l) < n" using stratification_read(2) [OF st aggr(1) l True] aggr(2,4) hd [OF aggr(1)] by simp
      then show ?thesis using less.IH [of "st (l_rel l)" "l_rel l" u] u der by simp
    next
      case False
      then have "u \<in> facts e (l_rel l)" using M u perfect_base_only unfolding engine_model_def by blast
      then show ?thesis using cl reveal_iff unfolding closed_engine_def named_def by blast
    qed
    show ?case
    proof
      fix v
      assume v: "v \<in> set t"
      from agg_row_vals [OF aggr(3) v] show "named e v"
      proof
        assume "\<exists>w. v = intSymFlag OR w"
        then show ?thesis using in_sym_int by (auto simp: named_def)
      next
        assume "\<exists>\<theta>. holds M M (en_syms e) (ru_body r) \<theta> \<and> v \<in> set (agg_group a r \<theta>)"
        then obtain \<theta> where th: "holds M M (en_syms e) (ru_body r) \<theta>" "v \<in> set (agg_group a r \<theta>)" by blast
        show ?thesis by (rule group_named [OF ro [OF aggr(1)] aggr(2,1) cl th]) (use below in blast)
      qed
    qed
  qed
qed

lemma model_named:
  assumes "prog_ok ar e" "\<exists>st. stratification (en_ruleOrder e) st" "engine_model e M" "closed_engine e" "t \<in> M rel" "v \<in> set t"
  shows "named e v"
proof -
  have "derives (en_ruleOrder e) (facts e) (en_syms e) M rel t" using assms(3,5) by (simp add: engine_model_def perfect_model_def)
  then show ?thesis using assms derives_named by blast
qed

section \<open>Rules that fail\<close>

text \<open>The relations a rule reads are there when it fires, complete if they are negated.\<close>

definition fire_ready :: "interp \<Rightarrow> (string \<Rightarrow> nat) \<Rightarrow> engine \<Rightarrow> bottomUp \<Rightarrow> rule \<Rightarrow> bool" where
  "fire_ready M ar e0 bu r \<longleftrightarrow> prog_ok ar e0 \<and> (\<exists>st. stratification (en_ruleOrder e0) st) \<and> engine_model e0 M
     \<and> closed_engine e0 \<and> r \<in> set (en_ruleOrder e0) \<and> bu_full bu (l_rel (ru_head r)) \<noteq> None
     \<and> (\<forall>l \<in> set (ru_body r). derived e0 (l_rel l) \<longrightarrow>
          bu_full bu (l_rel l) \<noteq> None \<and> (l_neg l \<longrightarrow> bu_complete bu (l_rel l)))"

lemma fire_ready_base:
  assumes "fire_ready M ar e0 bu r" "l \<in> set (ru_body r)" "\<not> is_builtin (l_rel l)" "\<not> derived e0 (l_rel l)"
  shows "en_base e0 (l_rel l) \<noteq> None"
  using assms unfolding fire_ready_def closed_engine_def by blast

lemma lit_never_fails:
  assumes inv: "bu_inv M ar e0 bu e" and rd: "fire_ready M ar e0 bu r" and l: "l \<in> set (ru_body r)" "\<not> is_builtin (l_rel l)"
  shows "bu_litTuples bu p l pat e \<noteq> Inl err"
proof -
  note d = bu_invD [OF inv]
  have "bu_source bu e (l_rel l) \<noteq> None"
  proof (cases "bu_full bu (l_rel l)")
    case None
    then have "\<not> derived e0 (l_rel l)" using rd l unfolding fire_ready_def by blast
    then show ?thesis using fire_ready_base [OF rd l] None by (simp add: bu_source_def full_rel_def d(8))
  next
    case (Some k)
    from inv Some obtain t where "k = fkey ar (l_rel l)" "en_tables e k = Some t" "table_ok M (ar (l_rel l)) (l_rel l) t"
      "full_rel bu e (l_rel l) = Some (tb_rel t)" by (rule full_table)
    then show ?thesis by (simp add: bu_source_def)
  qed
  then show ?thesis using buSrc_source [OF d(6), of "l_rel l"] by (auto simp: bu_litTuples_def split: option.splits)
qed

lemma neg_never_fails:
  assumes inv: "bu_inv M ar e0 bu e" and rd: "fire_ready M ar e0 bu r" and l: "l \<in> set (ru_body r)" "\<not> is_builtin (l_rel l)" "l_neg l"
  shows "bu_negated bu l pat e \<noteq> Inl err"
proof (cases "derived e0 (l_rel l)")
  case True
  then have "bu_complete bu (l_rel l)" using rd l(1,3) by (auto simp: fire_ready_def)
  then show ?thesis using True bu_invD(12) [OF inv] by (simp add: bu_negated_def)
next
  case False
  then obtain br where "en_base e0 (l_rel l) = Some br" using fire_ready_base [OF rd l(1,2)] by blast
  then show ?thesis using False bu_invD(8,12) [OF inv] by (simp add: bu_negated_def)
qed

lemma builtin_fails:
  assumes "named e x" "named e y" "r \<in> set (en_ruleOrder e)" "l \<in> set (ru_body r)" "is_builtin (l_rel l)"
    and "evalBuiltin (l_rel l) x y (en_syms e) = Inl err"
  shows "run_error e M err"
proof -
  have why: "err = EvalE EPanic \<and> (in_sym (en_syms e) x = None \<or> in_sym (en_syms e) y = None)
    \<or> err = EvalE (EIntOperands (l_rel l) x y) \<and> l_rel l \<in> {''lt'', ''le''} \<and> (decodeIntSym x = None \<or> decodeIntSym y = None)"
  proof (cases "l_rel l \<in> {''contains'', ''prefix''}")
    case True
    then have "evalBuiltin (l_rel l) x y (en_syms e) = Inl (EvalE EPanic)
      \<and> (in_sym (en_syms e) x = None \<or> in_sym (en_syms e) y = None) \<or> (\<exists>b. evalBuiltin (l_rel l) x y (en_syms e) = Inr b)"
      by (elim insertE emptyE) (simp_all add: evalBuiltin_def split: option.splits)
    then show ?thesis using assms(6) by auto
  next
    case nt: False
    show ?thesis
    proof (cases "l_rel l = ''ne''")
      case True
      then show ?thesis using assms(6) by (simp add: evalBuiltin_def)
    next
      case False
      then have "l_rel l \<in> {''lt'', ''le''}" using nt assms(5) unfolding is_builtin_def by blast
      then show ?thesis using assms(6)
        by (elim insertE emptyE; cases "decodeIntSym x"; cases "decodeIntSym y") (simp_all add: evalBuiltin_def)
    qed
  qed
  then show ?thesis
  proof
    assume "err = EvalE EPanic \<and> (in_sym (en_syms e) x = None \<or> in_sym (en_syms e) y = None)"
    then show ?thesis using assms(1,2) by (auto simp: run_error_def named_def)
  next
    assume "err = EvalE (EIntOperands (l_rel l) x y) \<and> l_rel l \<in> {''lt'', ''le''} \<and> (decodeIntSym x = None \<or> decodeIntSym y = None)"
    then show ?thesis using assms(3,4) by (auto simp: run_error_def)
  qed
qed

lemma record_fails:
  assumes inv: "bu_inv M ar e0 bu e" and m: "mentioned e0 rel" and tup: "tup \<in> M rel"
    and tab: "en_tables e (fkey ar rel) \<noteq> None" and run: "record_tuple (fkey ar rel) tup None nm e = Inl err"
  shows "run_error e0 M err"
proof -
  note d = bu_invD [OF inv]
  from tab obtain t where t: "en_tables e (fkey ar rel) = Some t" by blast
  have tok: "table_ok M (ar rel) rel t" using d(5,11) m t by (simp add: tables_ok_def)
  have len: "length tup = ar rel" using model_length [OF d(2,3) m tup] .
  have ok: "relation_ok (ar rel) (tb_rel t)" using tok by (simp add: table_ok_def)
  note add = add_eq [OF ok len]
  let ?r = "snd (add (tb_rel t) tup)"
  have mx: "en_maxTuples e = en_maxTuples e0" using d(1) by (simp add: same_prog_def)
  have err: "err = EvalE (EMaxTuples (r_name ?r) (en_maxTuples e))" "en_maxTuples e < length (r_tuples ?r)"
    using run t by (auto simp: record_tuple_def split_beta Let_def split: if_splits)
  have "r_name ?r = rel" using add(4) tok by (simp add: table_ok_def)
  moreover have "more_than (en_maxTuples e) (M rel)"
  proof (rule more_than_list [OF _ _ err(2)])
    show "distinct (r_tuples ?r)" using relation_okD(3) [OF add(3)] .
    show "set (r_tuples ?r) \<subseteq> M rel" using add(2) tok tup by (auto simp: table_ok_def)
  qed
  ultimately show ?thesis using err(1) mx by (simp add: run_error_def)
qed

lemma head_table:
  assumes "bu_inv M ar e0 bu e" "bu_full bu rel \<noteq> None"
  shows "en_tables e (fkey ar rel) \<noteq> None"
  using assms unfolding bu_inv_def bu_ok_def by auto

interpretation bu_fire_err: rule_progress "bu_body bu" "\<lambda>l. l \<in> set (ru_body r)" "fire_inv M ar e0 bu r" grows "en_syms e0"
  "bu_rows bu" "\<lambda>_ l. M (l_rel l)" "\<lambda>l. M (l_rel l)" r "replicate (lit_arity (ru_head r)) None"
  "fkey ar (l_rel (ru_head r))" "\<lambda>e. set (trows e (fkey ar (l_rel (ru_head r))))" "\<lambda>\<theta>. inst \<theta> (ru_head r)" "\<lambda>_. True"
  "\<lambda>err. fire_ready M ar e0 bu r \<longrightarrow> run_error e0 M err" "\<lambda>v. fire_ready M ar e0 bu r \<longrightarrow> named e0 v"
  for bu r M ar e0
proof (unfold_locales)
  fix l t v
  assume "t \<in> M (l_rel l)" "v \<in> set t"
  then show "fire_ready M ar e0 bu r \<longrightarrow> named e0 v" using model_named unfolding fire_ready_def by blast
next
  fix l a
  assume "l \<in> set (ru_body r)" "a \<in> set (l_args l)" "\<not> tm_isVar a"
  then show "fire_ready M ar e0 bu r \<longrightarrow> named e0 (tm_sym a)"
    using closed_const [of e0 r l a] by (simp add: fire_ready_def)
next
  fix l x y err
  assume "l \<in> set (ru_body r)" "is_builtin (l_rel l)" "fire_ready M ar e0 bu r \<longrightarrow> named e0 x" "fire_ready M ar e0 bu r \<longrightarrow> named e0 y"
    "evalBuiltin (l_rel l) x y (en_syms e0) = Inl err"
  then show "fire_ready M ar e0 bu r \<longrightarrow> run_error e0 M err" using builtin_fails unfolding fire_ready_def by blast
next
  fix e l p pat err
  assume "fire_inv M ar e0 bu r e" "l \<in> set (ru_body r)" "\<not> is_builtin (l_rel l)" "bs_lit (bu_body bu) p l pat e = Inl err"
  then show "fire_ready M ar e0 bu r \<longrightarrow> run_error e0 M err"
    using lit_never_fails [of M ar e0 bu e r l p pat err] by (auto simp: fire_inv_def bu_body_def)
next
  fix e l pat err
  assume "fire_inv M ar e0 bu r e" "l \<in> set (ru_body r)" "\<not> is_builtin (l_rel l)" "l_neg l" "bs_neg (bu_body bu) l pat e = Inl err"
  then show "fire_ready M ar e0 bu r \<longrightarrow> run_error e0 M err"
    using neg_never_fails [of M ar e0 bu e r l pat err] by (auto simp: fire_inv_def bu_body_def)
next
  fix e fr \<theta> steps err
  assume inv: "fire_inv M ar e0 bu r e" and fr: "frame_ok (ru_nvars r) fr" "agrees \<theta> fr" "bound_after {} (ru_body r) \<subseteq> bound fr"
    and sat: "holds M M (en_syms e0) (ru_body r) \<theta>"
    and run: "join_emit r (replicate (lit_arity (ru_head r)) None) (fkey ar (l_rel (ru_head r))) fr steps e = Inl err"
  have bu: "bu_inv M ar e0 bu e" and r: "r \<in> set (en_ruleOrder e0)" and na: "ru_agg r = None"
    using inv by (simp_all add: fire_inv_def)
  note d = bu_invD [OF bu]
  have ro: "rule_ok ar r" using d(2) r by (simp add: prog_ok_def)
  then have h: "terms_ok (ru_nvars r) (l_args (ru_head r))" "slots_of (l_args (ru_head r)) \<subseteq> bound fr"
    using na fr(3) by (auto simp: rule_ok_def)
  have "head_tuple fr (l_args (ru_head r)) = Some (inst \<theta> (ru_head r))"
    using head_tuple_bound [OF fr(1) h fr(2)] by (simp add: inst_def)
  with run na d(10) have rec: "record_tuple (fkey ar (l_rel (ru_head r))) (inst \<theta> (ru_head r)) None (ru_name r) e = Inl err"
    by (simp add: join_emit_def)
  have mem: "inst \<theta> (ru_head r) \<in> M (l_rel (ru_head r))"
    using perfect_fire [OF _ r na sat] d(3) by (simp add: engine_model_def)
  show "fire_ready M ar e0 bu r \<longrightarrow> run_error e0 M err"
    using record_fails [OF bu rule_mentions(1) [OF r] mem head_table [OF bu] rec] by (simp add: fire_ready_def)
qed

interpretation bu_agg_err: rule_progress "bu_body bu" "\<lambda>l. l \<in> set (ru_body r)" "agg_inv M ar e0 bu r a" "agg_le a" "en_syms e0"
  "bu_rows bu" "\<lambda>_ l. M (l_rel l)" "\<lambda>l. M (l_rel l)" r "replicate (lit_arity (ru_head r)) None"
  tk "agg_covered (ag_fn a)" "\<lambda>\<theta>. (agg_group a r \<theta>, \<theta> (ag_inSlot a))" "\<lambda>_. True"
  "\<lambda>err. fire_ready M ar e0 bu r \<longrightarrow> run_error e0 M err" "\<lambda>v. fire_ready M ar e0 bu r \<longrightarrow> named e0 v"
  for bu r a M ar e0 tk
proof (unfold_locales)
  fix l t v
  assume "t \<in> M (l_rel l)" "v \<in> set t"
  then show "fire_ready M ar e0 bu r \<longrightarrow> named e0 v" using model_named unfolding fire_ready_def by blast
next
  fix l x
  assume "l \<in> set (ru_body r)" "x \<in> set (l_args l)" "\<not> tm_isVar x"
  then show "fire_ready M ar e0 bu r \<longrightarrow> named e0 (tm_sym x)"
    using closed_const [of e0 r l x] by (simp add: fire_ready_def)
next
  fix l x y err
  assume "l \<in> set (ru_body r)" "is_builtin (l_rel l)" "fire_ready M ar e0 bu r \<longrightarrow> named e0 x" "fire_ready M ar e0 bu r \<longrightarrow> named e0 y"
    "evalBuiltin (l_rel l) x y (en_syms e0) = Inl err"
  then show "fire_ready M ar e0 bu r \<longrightarrow> run_error e0 M err" using builtin_fails unfolding fire_ready_def by blast
next
  fix e l p pat err
  assume "agg_inv M ar e0 bu r a e" "l \<in> set (ru_body r)" "\<not> is_builtin (l_rel l)" "bs_lit (bu_body bu) p l pat e = Inl err"
  then show "fire_ready M ar e0 bu r \<longrightarrow> run_error e0 M err"
    using lit_never_fails [of M ar e0 bu e r l p pat err] by (auto simp: agg_inv_def bu_body_def)
next
  fix e l pat err
  assume "agg_inv M ar e0 bu r a e" "l \<in> set (ru_body r)" "\<not> is_builtin (l_rel l)" "l_neg l" "bs_neg (bu_body bu) l pat e = Inl err"
  then show "fire_ready M ar e0 bu r \<longrightarrow> run_error e0 M err"
    using neg_never_fails [of M ar e0 bu e r l pat err] by (auto simp: agg_inv_def bu_body_def)
next
  fix e fr \<theta> steps err
  assume inv: "agg_inv M ar e0 bu r a e" and fr: "frame_ok (ru_nvars r) fr" "agrees \<theta> fr" "bound_after {} (ru_body r) \<subseteq> bound fr"
    and run: "join_emit r (replicate (lit_arity (ru_head r)) None) tk fr steps e = Inl err"
  have bu: "bu_inv M ar e0 bu e" and r: "r \<in> set (en_ruleOrder e0)" and ag: "ru_agg r = Some a"
    using inv by (simp_all add: agg_inv_def)
  have ro: "rule_ok ar r" using bu_invD(2) [OF bu] r by (simp add: prog_ok_def)
  then have ok: "agg_ok a r" "terms_ok (ru_nvars r) (l_args (ru_head r))" using ag by (simp_all add: rule_ok_def)
  have hs: "slots_of (l_args (ru_head r)) - {ag_outSlot a} \<subseteq> bound fr" "ag_inSlot a \<in> bound fr" and fn: "isAggName (ag_fn a)"
    using ok(1) fr(3) by (auto simp: agg_ok_def)
  have "agg_head (ag_outSlot a) 0 fr (l_args (ru_head r)) \<noteq> None" using agg_head_spec [OF fr(1) ok(2) hs(1) fr(2), of 0] by simp
  moreover have "frame_get fr (ag_inSlot a) \<noteq> None" using hs(2) by (auto simp: bound_def)
  ultimately obtain v where "err = EvalE (EAggNonInt (ru_name r) (ag_fn a) v)" "ag_fn a \<noteq> ''count''" "decodeIntSym v = None"
    using run ag by (auto simp: join_emit_def aggCollect_def Let_def split: if_splits)
  moreover from this fn have "ag_fn a \<in> {''min'', ''max''}" unfolding isAggName_def by blast
  ultimately show "fire_ready M ar e0 bu r \<longrightarrow> run_error e0 M err" using r ag by (auto simp: run_error_def)
qed

lemma fire_fails_plain:
  assumes inv: "bu_inv M ar e0 bu e" and rd: "fire_ready M ar e0 bu r" and na: "ru_agg r = None"
    and run: "fire_rule bu r e = Inl err"
  shows "run_error e0 M err"
proof -
  note d = bu_invD [OF inv]
  have r: "r \<in> set (en_ruleOrder e0)" and full: "bu_full bu (l_rel (ru_head r)) \<noteq> None" using rd by (simp_all add: fire_ready_def)
  have ro: "rule_ok ar r" using d(2) r by (simp add: prog_ok_def)
  have k: "head_key bu (l_rel (ru_head r)) = fkey ar (l_rel (ru_head r))"
    using full d(6) by (auto simp: head_key_def bu_ok_def)
  have j: "join (bu_body bu) r (replicate (lit_arity (ru_head r)) None) (fkey ar (l_rel (ru_head r))) (ru_body r) 0
      (newFrame (ru_nvars r)) [] e = Inl err"
    using run na by (simp add: fire_rule_def evalRule_def k)
  have "fire_inv M ar e0 bu r e" using inv r na by (simp add: fire_inv_def)
  from bu_fire_err.join_err_start [OF this _ _ j] show ?thesis using ro rd by (simp add: rule_ok_def)
qed

lemma flush_fails:
  assumes inv: "bu_inv M ar e0 bu e1" and m: "mentioned e0 rel" and tab: "bu_full bu rel \<noteq> None"
    and all: "\<And>ac. ac \<in> set acs \<Longrightarrow> \<exists>n p. acc_result (ag_fn a) ac = Some n \<and> ac_pos ac = Some p
      \<and> (ac_group ac)[p := intSymFlag OR of_int n] = row ac \<and> row ac \<in> M rel"
    and run: "foldE (flush_one r a (fkey ar rel)) acs e1 = Inl err"
  shows "run_error e0 M err"
proof -
  have rec: "flush_one r a (fkey ar rel) ac e = record_tuple (fkey ar rel) (row ac) None (ru_name r) e \<and> row ac \<in> M rel"
    if ac: "ac \<in> set acs" and "bu_inv M ar e0 bu e" for ac e
  proof -
    from all [OF ac] obtain n p where "acc_result (ag_fn a) ac = Some n" "ac_pos ac = Some p"
      "(ac_group ac)[p := intSymFlag OR of_int n] = row ac" "row ac \<in> M rel" by blast
    then show ?thesis using bu_invD(10) [OF that(2)] by (simp add: flush_one_def Let_def)
  qed
  have keep: "bu_inv M ar e0 bu b" if "ac \<in> set acs" "bu_inv M ar e0 bu x" "flush_one r a (fkey ar rel) ac x = Inr b" for ac x b
    using record_inv [OF that(2) m, of "row ac" "ru_name r" b] rec [OF that(1,2)] that(3) by simp
  obtain ac x where x: "ac \<in> set acs" "bu_inv M ar e0 bu x" "flush_one r a (fkey ar rel) ac x = Inl err"
    by (rule foldE_InlE [OF run, of "bu_inv M ar e0 bu"]) (use inv keep in blast)+
  then show ?thesis using record_fails [OF x(2) m _ head_table [OF x(2) tab], of "row ac" "ru_name r" err] rec [OF x(1,2)] by simp
qed

lemma fire_fails_agg:
  assumes inv: "bu_inv M ar e0 bu e" and rd: "fire_ready M ar e0 bu r" and ag: "ru_agg r = Some a"
    and reads: "\<And>p l. l \<in> set (ru_body r) \<Longrightarrow> pos_lit l \<Longrightarrow> M (l_rel l) \<subseteq> bu_rows bu e p l"
    and run: "fire_rule bu r e = Inl err"
  shows "run_error e0 M err"
proof -
  let ?h = "l_rel (ru_head r)"
  note d = bu_invD [OF inv]
  have r: "r \<in> set (en_ruleOrder e0)" and full: "bu_full bu ?h \<noteq> None" using rd by (simp_all add: fire_ready_def)
  have ro: "rule_ok ar r" using d(2) r by (simp add: prog_ok_def)
  have fn: "isAggName (ag_fn a)" using ro ag by (simp add: rule_ok_def agg_ok_def)
  have k: "head_key bu ?h = fkey ar ?h" using full d(6) by (auto simp: head_key_def bu_ok_def)
  let ?j = "join (bu_body bu) r (replicate (lit_arity (ru_head r)) None) (fkey ar ?h) (ru_body r) 0
      (newFrame (ru_nvars r)) [] (e\<lparr>en_agg := []\<rparr>)"
  show ?thesis
  proof (cases ?j)
    case (Inl er)
    then have j: "?j = Inl err" using run ag by (simp add: fire_rule_def evalRule_def k)
    have "agg_inv M ar e0 bu r a (e\<lparr>en_agg := []\<rparr>)" using inv r ag by (simp add: agg_inv_def accs_sound_def)
    from bu_agg_err.join_err_start [OF this _ _ j] show ?thesis using ro rd by (simp add: rule_ok_def)
  next
    case (Inr e1)
    note e1 = agg_join_effect [OF inv r ag reads Inr]
    have fin: "\<exists>n p. acc_result (ag_fn a) ac = Some n \<and> ac_pos ac = Some p
      \<and> (ac_group ac)[p := intSymFlag OR of_int n] = agg_row a r (ac_group ac) (agg_pairs M (en_syms e0) a r `` {ac_group ac})
      \<and> agg_row a r (ac_group ac) (agg_pairs M (en_syms e0) a r `` {ac_group ac}) \<in> M ?h" if "ac \<in> snd ` set (en_agg e1)" for ac
      by (rule acc_final [OF fn d(3) r ag e1(2,4) that])
    from run ag Inr have fl: "flushAgg r a (fkey ar ?h) e1 = Inl err"
      by (auto simp: fire_rule_def evalRule_def k elim: bindE_InlE)
    then have "sort_groups (en_syms e1) (map snd (en_agg e1)) = Inl err
      \<or> (\<exists>acs. sort_groups (en_syms e1) (map snd (en_agg e1)) = Inr acs \<and> foldE (flush_one r a (fkey ar ?h)) acs e1 = Inl err)"
      unfolding flushAgg_def by (auto elim: bindE_InlE)
    then show ?thesis
    proof
      assume "sort_groups (en_syms e1) (map snd (en_agg e1)) = Inl err"
      then obtain ac where err: "err = EvalE EPanic" and ac: "ac \<in> snd ` set (en_agg e1)" and rv: "reveal (en_syms e1) (ac_group ac) = None"
        by (auto simp: sort_groups_def list_ex_iff split: if_splits)
      have has: "has_aggregate e0" using r ag by (auto simp: has_aggregate_def)
      from fin [OF ac] obtain n p where row: "(ac_group ac)[p := intSymFlag OR of_int n] \<in> M ?h" by metis
      have mo: "map_of (en_agg e1) (key (ac_group ac)) = Some ac" using ac acc_in_accs [OF e1(2)] by simp
      from accs_soundD(4) [OF e1(2) mo] obtain \<theta> where th: "holds M M (en_syms e0) (ru_body r) \<theta>" "ac_group ac = agg_group a r \<theta>"
        by (auto simp: agg_pairs_def)
      have md: "prog_ok ar e0" "\<exists>st. stratification (en_ruleOrder e0) st" "engine_model e0 M" "closed_engine e0"
        using rd by (simp_all add: fire_ready_def)
      have nm: "named e0 v" if "v \<in> set (ac_group ac)" for v
      proof (rule group_named [OF ro ag r md(4) th(1)])
        show "v \<in> set (agg_group a r \<theta>)" using that th(2) by simp
        show "named e0 w" if "u \<in> M (l_rel l)" "w \<in> set u" for l u w using model_named [OF md that] .
      qed
      obtain v where "v \<in> set (ac_group ac)" "in_sym (en_syms e1) v = None" using rv reveal_iff by blast
      then have "strs (en_syms e0) = []" using nm [of v] bu_invD(9) [OF e1(1)] unfolding named_def by metis
      then show ?thesis using err has by (simp add: run_error_def)
    next
      assume "\<exists>acs. sort_groups (en_syms e1) (map snd (en_agg e1)) = Inr acs \<and> foldE (flush_one r a (fkey ar ?h)) acs e1 = Inl err"
      then obtain acs where acs: "sort_groups (en_syms e1) (map snd (en_agg e1)) = Inr acs"
        "foldE (flush_one r a (fkey ar ?h)) acs e1 = Inl err" by blast
      have st: "set acs = snd ` set (en_agg e1)" using sort_groups_set [OF acs(1)] by simp
      show ?thesis
      proof (rule flush_fails [OF e1(1) rule_mentions(1) [OF r] full _ acs(2)])
        fix ac
        assume "ac \<in> set acs"
        then have "ac \<in> snd ` set (en_agg e1)" unfolding st .
        then show "\<exists>n p. acc_result (ag_fn a) ac = Some n \<and> ac_pos ac = Some p
          \<and> (ac_group ac)[p := intSymFlag OR of_int n] = agg_row a r (ac_group ac) (agg_pairs M (en_syms e0) a r `` {ac_group ac})
          \<and> agg_row a r (ac_group ac) (agg_pairs M (en_syms e0) a r `` {ac_group ac}) \<in> M ?h" by (rule fin)
      qed
    qed
  qed
qed

section \<open>Components that fail\<close>

text \<open>The negated relations of a component's rules are complete before it.\<close>

definition comp_negs :: "engine \<Rightarrow> bottomUp \<Rightarrow> string list \<Rightarrow> bool" where
  "comp_negs e0 bu rels \<longleftrightarrow> (\<forall>r \<in> set (en_ruleOrder e0). l_rel (ru_head r) \<in> set rels \<longrightarrow>
     (\<forall>l \<in> set (ru_body r). l_neg l \<longrightarrow> derived e0 (l_rel l) \<longrightarrow> bu_complete bu (l_rel l)))"

definition stratified_closed :: "engine \<Rightarrow> bool" where
  "stratified_closed e \<longleftrightarrow> (\<exists>st. stratification (en_ruleOrder e) st) \<and> closed_engine e"

lemma comp_fire_ready:
  assumes st: "comp_state M ar e0 bu rels pend e" and ng: "comp_negs e0 bu rels" and cl: "stratified_closed e0"
    and r: "r \<in> set (en_ruleOrder e0)" "l_rel (ru_head r) \<in> set pend"
  shows "fire_ready M ar e0 bu r"
proof -
  have inv: "bu_inv M ar e0 bu e" and sub: "set pend \<subseteq> set rels" and rd: "comp_reads e0 bu rels pend"
    and full: "\<And>rel. rel \<in> set pend \<Longrightarrow> bu_full bu rel = Some (fkey ar rel)" using st by (auto simp: comp_state_def)
  note d = bu_invD [OF inv]
  have cf: "bu_complete bu rel \<Longrightarrow> bu_full bu rel \<noteq> None" for rel using d(6) by (simp add: bu_ok_def)
  have "bu_full bu (l_rel l) \<noteq> None \<and> (l_neg l \<longrightarrow> bu_complete bu (l_rel l))"
    if l: "l \<in> set (ru_body r)" "derived e0 (l_rel l)" for l
  proof (cases "l_neg l")
    case True
    then have "bu_complete bu (l_rel l)" using ng r l sub unfolding comp_negs_def by blast
    then show ?thesis using cf by blast
  next
    case False
    then have "pos_lit l" using derived_not_builtin [OF d(2) l(2)] by (simp add: pos_lit_def)
    then have "settled e0 bu (l_rel l) \<or> l_rel l \<in> set pend" using rd r l(1) unfolding comp_reads_def by blast
    then show ?thesis using False l(2) cf full by (auto simp: settled_def)
  qed
  then show ?thesis using d(2,3) cl r full by (simp add: fire_ready_def stratified_closed_def)
qed

lemma comp_fire_fails:
  assumes st: "comp_state M ar e0 bu rels pend e" and rd: "fire_ready M ar e0 bu r" and r: "l_rel (ru_head r) \<in> set pend"
    and agg: "ru_agg r \<noteq> None \<Longrightarrow> bu_pos bu = None" and run: "fire_rule bu r e = Inl err"
  shows "run_error e0 M err"
proof -
  have inv: "bu_inv M ar e0 bu e" and reads: "comp_reads e0 bu rels pend" using st by (auto simp: comp_state_def)
  have ro: "r \<in> set (en_ruleOrder e0)" using rd by (simp add: fire_ready_def)
  show ?thesis
  proof (cases "ru_agg r")
    case None
    show ?thesis by (rule fire_fails_plain [OF inv rd None run])
  next
    case (Some a)
    have "M (l_rel l) \<subseteq> bu_rows bu e p l" if "l \<in> set (ru_body r)" "pos_lit l" for p l
    proof -
      have "settled e0 bu (l_rel l)" using reads ro r that Some by (auto simp: comp_reads_def)
      then show ?thesis using settled_rows [OF inv] agg Some by simp
    qed
    from fire_fails_agg [OF inv rd Some this run] show ?thesis .
  qed
qed

lemma fire_ready_pos [simp]: "fire_ready M ar e0 (bu\<lparr>bu_pos := x\<rparr>) r = fire_ready M ar e0 bu r"
  "fire_ready M ar e0 (bu\<lparr>bu_delta := dl\<rparr>) r = fire_ready M ar e0 bu r"
  by (simp_all add: fire_ready_def)

lemma round_zero_fails:
  assumes st: "comp_state M ar e0 bu rels pend e1" and ng: "comp_negs e0 bu rels" and cl: "stratified_closed e0"
    and run: "round_zero bu (comp_work rels pend e1) e1 = Inl err"
  shows "run_error e0 M err"
proof -
  let ?bu = "bu\<lparr>bu_pos := None\<rparr>" and ?work = "comp_work rels pend e1"
  have ro: "en_ruleOrder e1 = en_ruleOrder e0" using st bu_invD(7) by (auto simp: comp_state_def)
  have fold: "foldE (\<lambda>w. fire_rule ?bu (fst w)) ?work e1 = Inl err" using run by (simp add: round_zero_def)
  have keep: "comp_state M ar e0 bu rels pend b"
    if "w \<in> set ?work" "comp_state M ar e0 bu rels pend a" "fire_rule ?bu (fst w) a = Inr b" for w a b
    using fire_step [of M ar e0 ?bu rels pend a "fst w" b] work_rule [OF that(1) ro] that(2,3) by simp
  obtain w a where w: "w \<in> set ?work" and a: "comp_state M ar e0 bu rels pend a" and bad: "fire_rule ?bu (fst w) a = Inl err"
    by (rule foldE_InlE [OF fold, of "comp_state M ar e0 bu rels pend"]) (use st keep in blast)+
  note wr = work_rule [OF w ro]
  have "fire_ready M ar e0 ?bu (fst w)" using comp_fire_ready [OF a ng cl wr(1,2)] by simp
  then show ?thesis using comp_fire_fails [of M ar e0 ?bu rels pend a "fst w" err] a wr(2) bad by simp
qed

lemma semi_round_fails:
  assumes st: "comp_state M ar e0 bu rels pend e" and ng: "comp_negs e0 bu rels" and cl: "stratified_closed e0"
    and work: "work = comp_work rels pend e1" "en_ruleOrder e1 = en_ruleOrder e0"
    and run: "semi_round (bu\<lparr>bu_delta := take_deltas bu pend e mark\<rparr>) work e = Inl err"
  shows "run_error e0 M err"
proof -
  define bd where "bd p = bu\<lparr>bu_delta := take_deltas bu pend e mark, bu_pos := Some p\<rparr>" for p
  define fire where "fire = (\<lambda>(w :: rule \<times> nat list, p). fire_rule (bd p) (fst w))"
  define jobs where "jobs = concat (map (\<lambda>w. map (Pair w) (snd w)) work)"
  have fold: "foldE fire jobs e = Inl err"
    using run foldE_nested [of "\<lambda>w p. fire_rule (bd p) (fst w)"]
    by (simp add: semi_round_def fire_def jobs_def bd_def)
  have job: "fst w \<in> set (en_ruleOrder e0)" "l_rel (ru_head (fst w)) \<in> set pend" "p \<in> set (rec_positions rels (fst w))"
    if "(w, p) \<in> set jobs" for w p
    using that work_rule [of w rels pend e1 e0] work by (auto simp: jobs_def)
  have bdst: "comp_state M ar e0 (bd p) rels pend a \<longleftrightarrow> comp_state M ar e0 bu rels pend a" for p a
    unfolding bd_def comp_state_pos by (rule comp_state_delta [OF st])
  have keep: "comp_state M ar e0 bu rels pend b"
    if "x \<in> set jobs" "comp_state M ar e0 bu rels pend a" "fire x a = Inr b" for x a b
  proof -
    obtain w p where x: "x = (w, p)" by (rule prod.exhaust)
    note j = job [OF that(1) [unfolded x]]
    have "fire_rule (bd p) (fst w) a = Inr b" using that(3) by (simp add: fire_def x)
    then show ?thesis
      using fire_step [of M ar e0 "bd p" rels pend a "fst w" b] bdst that(2) j(1,2) rec_agg(1) [OF that(2) j] by simp
  qed
  obtain x a where x: "x \<in> set jobs" and a: "comp_state M ar e0 bu rels pend a" and bad: "fire x a = Inl err"
    by (rule foldE_InlE [OF fold, of "comp_state M ar e0 bu rels pend"]) (use st keep in blast)+
  obtain w p where wp: "x = (w, p)" by (rule prod.exhaust)
  note j = job [OF x [unfolded wp]]
  have "fire_ready M ar e0 (bd p) (fst w)" using comp_fire_ready [OF a ng cl j(1,2)] by (simp add: bd_def)
  then show ?thesis
    using comp_fire_fails [of M ar e0 "bd p" rels pend a "fst w" err] bdst a j(2) rec_agg(1) [OF a j] bad by (simp add: fire_def wp)
qed

text \<open>
  The round loop gives up only when the component has more rows than rounds: each round but the
  last raises the mark of a table.
\<close>

lemma rows_more_than:
  assumes st: "comp_state M ar e0 bu rels pend e" and n: "n < (\<Sum>rel \<in> set pend. length (trows e (fkey ar rel)))"
  shows "more_than n {(x, t). derived e0 x \<and> t \<in> M x}"
proof -
  let ?T = "SIGMA rel : set pend. set (trows e (fkey ar rel))"
  have row: "distinct (trows e (fkey ar rel)) \<and> set (trows e (fkey ar rel)) \<subseteq> M rel" if rel: "rel \<in> set pend" for rel
  proof -
    from st rel obtain t where t: "en_tables e (fkey ar rel) = Some t" "table_ok M (ar rel) rel t"
      "full_rel bu e rel = Some (tb_rel t)" "trows e (fkey ar rel) = r_tuples (tb_rel t)" by (rule pending_table)
    then show ?thesis using relation_okD(3) by (auto simp: table_ok_def)
  qed
  have "card ?T = (\<Sum>rel \<in> set pend. card (set (trows e (fkey ar rel))))" by (rule card_SigmaI) simp_all
  also have "\<dots> = (\<Sum>rel \<in> set pend. length (trows e (fkey ar rel)))"
    by (rule sum.cong [OF refl]) (use row distinct_card in blast)
  finally have "n < card ?T" using n by simp
  moreover have "?T \<subseteq> {(x, t). derived e0 x \<and> t \<in> M x}"
    using row st unfolding comp_state_def by blast
  moreover have "finite ?T" by simp
  ultimately show ?thesis unfolding more_than_def by blast
qed

lemma semi_rounds_fails:
  assumes "comp_state M ar e0 bu rels pend e" "comp_negs e0 bu rels" "stratified_closed e0"
    and "\<And>rel. rel \<in> set pend \<Longrightarrow> mark rel \<le> length (trows e (fkey ar rel))"
    and "closed_upto M ar e0 pend mark e" "work = comp_work rels pend e1" "en_ruleOrder e1 = en_ruleOrder e0"
    and "en_maxRounds e0 \<le> n + (\<Sum>rel \<in> set pend. mark rel)"
    and "semi_rounds n bu pend work mark e = Inl err"
  shows "run_error e0 M err"
  using assms
proof (induction n arbitrary: mark e)
  case 0
  then obtain rel where rel: "rel \<in> set pend" "take_deltas bu pend e mark rel \<noteq> None" and err: "err = EvalE (ENoFixpoint (hd pend) (en_maxRounds e))"
    by (auto simp: list_ex_iff split: if_splits)
  have mx: "en_maxRounds e = en_maxRounds e0"
    using "0.prems"(1) by (auto simp: comp_state_def bu_inv_def same_prog_def)
  have "mark rel < length (trows e (fkey ar rel))" using no_delta_iff(1) [OF "0.prems"(1) rel(1)] rel(2) by (simp add: not_le)
  then have "(\<Sum>rel \<in> set pend. mark rel) < (\<Sum>rel \<in> set pend. length (trows e (fkey ar rel)))"
    using "0.prems"(4) rel(1) by (intro sum_strict_mono_ex1) auto
  then have "more_than (en_maxRounds e0) {(x, t). derived e0 x \<and> t \<in> M x}"
    using "0.prems"(8) by (intro rows_more_than [OF "0.prems"(1)]) simp
  then show ?case by (simp add: err mx run_error_def)
next
  case (Suc n)
  let ?mark = "\<lambda>rel. if rel \<in> set pend then full_len bu e rel else mark rel"
  from Suc.prems(9) have some: "list_ex (\<lambda>rel. take_deltas bu pend e mark rel \<noteq> None) pend" by (auto simp: Let_def split: if_splits)
  then obtain rel where rel: "rel \<in> set pend" "take_deltas bu pend e mark rel \<noteq> None" by (auto simp: list_ex_iff)
  show ?case
  proof (cases "semi_round (bu\<lparr>bu_delta := take_deltas bu pend e mark\<rparr>) work e")
    case (Inl er)
    then have "semi_round (bu\<lparr>bu_delta := take_deltas bu pend e mark\<rparr>) work e = Inl err"
      using Suc.prems(9) some by (simp add: Let_def)
    then show ?thesis by (rule semi_round_fails [OF Suc.prems(1-3,6,7)])
  next
    case (Inr a)
    with Suc.prems(9) some have rest: "semi_rounds n bu pend work ?mark a = Inl err" by (simp add: Let_def)
    note eff = semi_round_effect [OF Suc.prems(1,4,5,6,7) Inr]
    note fl = no_delta_iff(2) [OF Suc.prems(1)]
    have mk: "?mark rel \<le> length (trows a (fkey ar rel))" if "rel \<in> set pend" for rel
      using that fl prefix_length_le [OF grows_trows, of e a "fkey ar rel"] eff by auto
    have "mark rel < length (trows e (fkey ar rel))" using no_delta_iff(1) [OF Suc.prems(1) rel(1)] rel(2) by (simp add: not_le)
    then have "(\<Sum>rel \<in> set pend. mark rel) < (\<Sum>rel \<in> set pend. length (trows e (fkey ar rel)))"
      using Suc.prems(4) rel(1) by (intro sum_strict_mono_ex1) auto
    also have "\<dots> = (\<Sum>rel \<in> set pend. ?mark rel)" by (rule sum.cong [OF refl]) (simp add: fl)
    finally have "en_maxRounds e0 \<le> n + (\<Sum>rel \<in> set pend. ?mark rel)" using Suc.prems(8) by simp
    from Suc.IH [OF _ Suc.prems(2,3) mk _ Suc.prems(6,7) this rest] eff show ?thesis by blast
  qed
qed

lemma open_never_fails:
  assumes op: "opened M ar e0 bu0 done s" and d: "derived e0 rel"
  shows "comp_open rel s \<noteq> Inl err"
proof -
  obtain bu pend e where s: "s = (bu, pend, e)" by (metis prod_cases3)
  have "bu_inv M ar e0 bu e" using op by (simp add: opened_def s)
  note iv = bu_invD [OF this]
  have "arityOf e rel = Inr (int (ar rel))" using arityOf_derived [OF iv(2) d] arityOf_same [OF iv(1)] by simp
  then show ?thesis by (simp add: comp_open_def s split_beta Let_def)
qed

lemma open_all_never_fails:
  assumes op: "opened M ar e0 bu0 [] s" and d: "\<forall>rel \<in> set rels. derived e0 rel"
  shows "foldE comp_open rels s \<noteq> Inl err"
proof
  assume fold: "foldE comp_open rels s = Inl err"
  have keep: "\<exists>done. opened M ar e0 bu0 done b" if "rel \<in> set rels" "\<exists>done. opened M ar e0 bu0 done a" "comp_open rel a = Inr b" for rel a b
    using comp_open_step d that by blast
  obtain rel a where "rel \<in> set rels" "\<exists>done. opened M ar e0 bu0 done a" "comp_open rel a = Inl err"
    by (rule foldE_InlE [OF fold, of "\<lambda>a. \<exists>done. opened M ar e0 bu0 done a"]) (use op keep in blast)+
  then show False using open_never_fails d by blast
qed

lemma seed_fails:
  assumes inv: "bu_inv M ar e0 bu e" and rel: "bu_full bu rel = Some (fkey ar rel)" "\<not> bu_complete bu rel"
    and run: "seed_rel bu rel e = Inl err"
  shows "run_error e0 M err"
proof -
  note iv = bu_invD [OF inv]
  let ?e = "set_state (fkey ar rel) TProducing e"
  have inv': "bu_inv M ar e0 bu ?e" using set_state_inv [OF inv] rel(2) by blast
  have m: "mentioned e0 rel"
    using iv(6) rel(1) derived_mentioned [OF iv(2)] unfolding bu_ok_def iv(12) by blast
  have base: "en_base ?e = en_base e0" using bu_invD(8) [OF inv'] .
  from run rel base obtain br where br: "en_base e0 rel = Some br"
    and fold: "foldE (\<lambda>tup. record_tuple (fkey ar rel) tup None []) (r_tuples br) ?e = Inl err"
    by (auto simp: seed_rel_def head_key_def Let_def split: option.splits)
  have mem: "t \<in> M rel" if "t \<in> set (r_tuples br)" for t using model_has_facts [OF iv(3) br] that by blast
  obtain t a where t: "t \<in> set (r_tuples br)" "bu_inv M ar e0 bu a" "record_tuple (fkey ar rel) t None [] a = Inl err"
    by (rule foldE_InlE [OF fold, of "bu_inv M ar e0 bu"]) (use inv' record_inv [OF _ m] mem in blast)+
  show ?thesis by (rule record_fails [OF t(2) m mem [OF t(1)] head_table [OF t(2)] t(3)]) (simp add: rel(1))
qed

lemma evalComponent_fails:
  assumes inv: "bu_inv M ar e0 bu e" and rd: "comp_ready e0 bu rels" and ng: "comp_negs e0 bu rels"
    and cl: "stratified_closed e0" and run: "evalComponent rels (bu, e) = Inl err"
  shows "run_error e0 M err"
proof -
  have op0: "opened M ar e0 bu [] (bu, [], e)" using inv by (simp add: opened_def)
  have der: "\<forall>rel \<in> set rels. derived e0 rel" using rd by (simp add: comp_ready_def)
  obtain bu1 pend e1 where op: "foldE comp_open rels (bu, [], e) = Inr (bu1, pend, e1)"
    using open_all_never_fails [OF op0 der] by (cases "foldE comp_open rels (bu, [], e)") auto
  with run have ne: "pend \<noteq> []" and rest: "bindE (foldE (seed_rel bu1) pend e1) (\<lambda>a. let work = comp_work rels pend a in
         bindE (round_zero bu1 work a) (\<lambda>b. if list_all (\<lambda>w. snd w = []) work then Inr (completeComponent bu1 pend b)
           else bindE (semi_rounds (en_maxRounds b) bu1 pend work (\<lambda>_. 0) b) (\<lambda>c. Inr (completeComponent bu1 pend c))))
      = Inl err"
    by (auto simp: evalComponent_def split: if_splits)
  from comp_open_all [OF op0 der op] have opn: "opened M ar e0 bu rels (bu1, pend, e1)" by simp
  note st1 = opened_state [OF opn rd]
  have pe: "bu_full bu1 rel = Some (fkey ar rel)" "\<not> bu_complete bu1 rel" if "rel \<in> set pend" for rel
    using st1 that by (auto simp: comp_state_def)
  have inv1: "bu_inv M ar e0 bu1 e1" using st1 by (simp add: comp_state_def)
  have ng1: "comp_negs e0 bu1 rels" using ng opn unfolding comp_negs_def opened_def by auto
  show ?thesis
  proof (cases "foldE (seed_rel bu1) pend e1")
    case (Inl er)
    with rest have fold: "foldE (seed_rel bu1) pend e1 = Inl err" by simp
    obtain rel a where "rel \<in> set pend" "bu_inv M ar e0 bu1 a" "seed_rel bu1 rel a = Inl err"
      by (rule foldE_InlE [OF fold, of "bu_inv M ar e0 bu1"]) (use inv1 pe seed_step in blast)+
    then show ?thesis using seed_fails pe by blast
  next
    case seed: (Inr a)
    have sd: "bu_inv M ar e0 bu1 a" using seed_all [OF inv1 _ seed] pe by blast
    have sta: "comp_state M ar e0 bu1 rels pend a" using st1 sd by (simp add: comp_state_def)
    have ro: "en_ruleOrder a = en_ruleOrder e0" using sd bu_invD(7) by blast
    show ?thesis
    proof (cases "round_zero bu1 (comp_work rels pend a) a")
      case (Inl er)
      then have "round_zero bu1 (comp_work rels pend a) a = Inl err" using rest seed by (simp add: Let_def)
      then show ?thesis by (rule round_zero_fails [OF sta ng1 cl])
    next
      case zero: (Inr b)
      note z = round_zero_effect [OF sta zero]
      have stb: "comp_state M ar e0 bu1 rels pend b" using z by blast
      have mx: "en_maxRounds b = en_maxRounds e0" using stb by (auto simp: comp_state_def bu_inv_def same_prog_def)
      have "semi_rounds (en_maxRounds b) bu1 pend (comp_work rels pend a) (\<lambda>_. 0) b = Inl err"
        using rest seed zero by (auto simp: Let_def elim!: bindE_InlE split: if_splits)
      then show ?thesis
        by (rule semi_rounds_fails [OF stb ng1 cl _ _ refl ro, rotated 3]) (use z mx in auto)
    qed
  qed
qed

section \<open>Goals that fail\<close>

lemma comp_negs_at:
  assumes ok: "prog_ok ar e" and st: "stratification (en_ruleOrder e) st"
    and cs: "comps_ok (cone_adj e) cs" "i < length cs" "\<And>x. x \<in> emitted cs \<Longrightarrow> derived e x"
    and bu: "\<And>rel. bu_complete bu rel \<longleftrightarrow> rel \<in> emitted (take i cs)"
  shows "comp_negs e bu (cs ! i)"
  unfolding comp_negs_def
proof (intro ballI impI)
  fix r l
  assume r: "r \<in> set (en_ruleOrder e)" "l_rel (ru_head r) \<in> set (cs ! i)" and l: "l \<in> set (ru_body r)" "l_neg l" "derived e (l_rel l)"
  then have adj: "l_rel l \<in> set (cone_adj e (l_rel (ru_head r)))" using adj_iff [OF ok] by auto
  have "set (cone_adj e (l_rel (ru_head r))) \<subseteq> emitted (take (Suc i) cs)"
    using cs(1,2) r(2) by (auto simp: comps_ok_def)
  then have em: "l_rel l \<in> emitted (take i cs) \<or> l_rel l \<in> set (cs ! i)"
    using adj cs(2) by (auto simp: emitted_def take_Suc_conv_app_nth)
  have "l_rel l \<notin> set (cs ! i)"
  proof
    assume "l_rel l \<in> set (cs ! i)"
    then have "reach (cone_adj e) (l_rel l) (l_rel (ru_head r))"
      using cs(1) r(2) nth_mem [OF cs(2)] unfolding comps_ok_def by blast
    then have "st (l_rel (ru_head r)) \<le> st (l_rel l)" by (rule reach_stratum [OF ok st])
    moreover have "st (l_rel l) < st (l_rel (ru_head r))"
      using stratification_read(2) [OF st r(1) l(1)] l derived_iff [OF ok] by auto
    ultimately show False by simp
  qed
  then show "bu_complete bu (l_rel l)" using em bu by blast
qed

lemma evalComponents_fails:
  assumes ok: "prog_ok ar e0" and st: "stratification (en_ruleOrder e0) st" and cl: "closed_engine e0"
    and cs: "comps_ok (cone_adj e0) cs" "\<And>x. x \<in> emitted cs \<Longrightarrow> derived e0 x"
    and inv: "bu_inv M ar e0 bu e" and fin: "\<And>rel. bu_complete bu rel \<longleftrightarrow> rel \<in> emitted (take i cs)"
    and run: "foldE evalComponent (drop i cs) (bu, e) = Inl err"
  shows "run_error e0 M err"
  using inv fin run
proof (induction "length cs - i" arbitrary: i bu e)
  case 0
  then show ?case by simp
next
  case (Suc n)
  then have i: "i < length cs" by simp
  then have dr: "drop i cs = cs ! i # drop (Suc i) cs" by (simp add: Cons_nth_drop_Suc)
  have ready: "comp_ready e0 bu (cs ! i)" by (rule comp_ready_at [OF ok st cs(1) i cs(2) Suc.prems(2)])
  have negs: "comp_negs e0 bu (cs ! i)" by (rule comp_negs_at [OF ok st cs(1) i cs(2) Suc.prems(2)])
  have scl: "stratified_closed e0" using st cl by (auto simp: stratified_closed_def)
  show ?case
  proof (cases "evalComponent (cs ! i) (bu, e)")
    case (Inl er)
    then have "evalComponent (cs ! i) (bu, e) = Inl err" using Suc.prems(3) dr by simp
    then show ?thesis by (rule evalComponent_fails [OF Suc.prems(1) ready negs scl])
  next
    case (Inr s)
    obtain bu1 e1 where s: "s = (bu1, e1)" by (rule prod.exhaust)
    have rest: "foldE evalComponent (drop (Suc i) cs) (bu1, e1) = Inl err" using Suc.prems(3) dr Inr s by simp
    note r = evalComponent_result [OF Suc.prems(1) ready Inr [unfolded s]]
    have "bu_complete bu1 rel \<longleftrightarrow> rel \<in> emitted (take (Suc i) cs)" for rel
      using r Suc.prems(2) i by (auto simp: emitted_def take_Suc_conv_app_nth)
    then show ?thesis using Suc.hyps(1) [of "Suc i"] Suc.hyps(2) r rest by auto
  qed
qed

lemma solveBottomUp_fails:
  assumes ok: "engine_ok ar M e" and cl: "closed_engine e" and goal: "derived e goal" and run: "solveBottomUp goal e = Inl err"
  shows "run_error e M err"
proof -
  have pr: "prog_ok ar e" and mod: "engine_model e M" and np: "\<not> en_recordProv e" and tb: "tables_ok M ar e"
    using ok by (simp_all add: engine_ok_def)
  obtain st where st: "stratification (en_ruleOrder e) st" using ok by (auto simp: engine_ok_def)
  note c = cone_spec [OF pr goal]
  have inv0: "bu_inv M ar e newBottomUp e"
    using pr mod np tb by (simp add: bu_inv_def bu_ok_def newBottomUp_def)
  have new: "bu_complete newBottomUp rel \<longleftrightarrow> rel \<in> emitted (take 0 (cone e goal))" for rel
    by (simp add: newBottomUp_def emitted_def)
  show ?thesis
  proof (cases "foldE evalComponent (cone e goal) (newBottomUp, e)")
    case (Inl er)
    then have "foldE evalComponent (drop 0 (cone e goal)) (newBottomUp, e) = Inl err" using run by (simp add: solveBottomUp_def)
    from evalComponents_fails [OF pr st cl c(1,3) inv0 new this] show ?thesis .
  next
    case (Inr s)
    obtain bu e1 where s: "s = (bu, e1)" by (rule prod.exhaust)
    from evalComponents_result [OF pr st c(1,3) inv0 new, of bu e1] Inr s
    have "same_prog e e1" using bu_invD(1) by auto
    then have "arityOf e1 goal = Inr (int (ar goal))" using arityOf_derived [OF pr goal] arityOf_same by simp
    then show ?thesis using run Inr s by (simp add: solveBottomUp_def split_beta Let_def)
  qed
qed

section \<open>Queries that fail\<close>

lemma reveal_all_fails: "reveal_all i ts = Inl err \<Longrightarrow> err = EvalE EPanic \<and> (\<exists>t \<in> set ts. reveal i t = None)"
  by (induction ts) (auto split: option.splits elim: bindE_InlE)

lemma Query_fails:
  assumes sv: "serving ar M e" and cl: "closed_engine e" and a: "arityOf e goal = Inr a" "0 \<le> a"
    and run: "Query (Suc n) goal e = Inl err"
  shows "run_error e M err"
proof -
  let ?bs = "replicate (nat a) None"
  let ?solve = "if useBottomUp e goal ?bs then solveBottomUp goal e else solveComplete (Suc n) goal ?bs e"
  have eo: "engine_ok ar M e" and q: "queryable e" and mr: "0 < en_maxRounds e" using sv by (simp_all add: serving_def)
  have "ready goal (nat a) e = Inr ()" using q a by (simp add: ready_def queryable_def)
  then have step: "bindE ?solve (\<lambda>(out, e2). bindE (reveal_all (en_syms e2) out) (\<lambda>res. Inr (sortTuples res, e2))) = Inl err"
    using run a by (simp add: Query_def QueryPattern_def)
  show ?thesis
  proof (cases ?solve)
    case (Inl er)
    then have sol: "?solve = Inl err" using step by simp
    have der: "derived e goal"
    proof (rule ccontr)
      assume "\<not> derived e goal"
      then have nr: "en_rules e goal = []" by (simp add: derived_rules)
      have na: "\<not> en_aggRel e goal" using q nr unfolding queryable_def by blast
      from a nr obtain br where br: "en_base e goal = Some br" by (auto simp: arityOf_def split: option.splits)
      have "?solve = Inr (match br ?bs, e)"
        using solveComplete_base [OF nr na br mr] nr by (simp add: useBottomUp_def)
      then show False using sol by simp
    qed
    have "useBottomUp e goal ?bs"
      using q der by (simp add: useBottomUp_def queryable_def derived_rules list_all_iff)
    then have "solveBottomUp goal e = Inl err" using sol by simp
    then show ?thesis by (rule solveBottomUp_fails [OF eo cl der])
  next
    case (Inr s)
    obtain ts e1 where s: "s = (ts, e1)" by (rule prod.exhaust)
    note r = solve_goal [OF sv a Inr [unfolded s]]
    have se: "en_syms e1 = en_syms e" using r by (simp add: same_prog_def)
    have "reveal_all (en_syms e) ts = Inl err" using step Inr s se by (auto elim: bindE_InlE)
    then obtain t where err: "err = EvalE EPanic" and t: "t \<in> set ts" "reveal (en_syms e) t = None"
      using reveal_all_fails by blast
    then obtain v where v: "v \<in> set t" "in_sym (en_syms e) v = None" using reveal_iff by blast
    have "named e v" using model_named [of ar e M t goal v] eo cl t(1) v(1) r by (simp add: engine_ok_def)
    then show ?thesis using err v(2) by (simp add: run_error_def named_def)
  qed
qed

text \<open>A program in which none of the reasons can be there.\<close>

definition within_caps :: "engine \<Rightarrow> interp \<Rightarrow> bool" where
  "within_caps e M \<longleftrightarrow> (\<forall>rel. \<not> more_than (en_maxTuples e) (M rel))
     \<and> \<not> more_than (en_maxRounds e) {(x, t). derived e x \<and> t \<in> M x}"

definition symbolic :: "engine \<Rightarrow> bool" where
  "symbolic e \<longleftrightarrow> \<not> has_aggregate e
     \<and> (\<forall>r \<in> set (en_ruleOrder e). \<forall>l \<in> set (ru_body r). l_rel l \<notin> {''lt'', ''le''})"

lemma no_run_error: "within_caps e M \<Longrightarrow> symbolic e \<Longrightarrow> \<not> run_error e M err"
  unfolding run_error_def within_caps_def symbolic_def has_aggregate_def
  by (cases err; simp split: eval_error.split) blast

lemma Query_returns:
  assumes "serving ar M e" "closed_engine e" "arityOf e goal = Inr a" "0 \<le> a" "within_caps e M" "symbolic e"
  shows "\<exists>us e'. Query (Suc n) goal e = Inr (us, e') \<and> answers e M goal us"
proof (cases "Query (Suc n) goal e")
  case (Inl err)
  then show ?thesis using Query_fails [OF assms(1-4) Inl] no_run_error [OF assms(5,6)] by blast
next
  case (Inr s)
  then show ?thesis using Query_answers [OF assms(1), of n goal "fst s" "snd s"] by (cases s) auto
qed

section \<open>Loading closes a program\<close>

definition args_named :: "interner \<Rightarrow> literal \<Rightarrow> bool" where
  "args_named i l \<longleftrightarrow> (\<forall>a \<in> set (l_args l). tm_isVar a \<or> in_sym i (tm_sym a) \<noteq> None)"

lemma args_named_mono: "args_named i l \<Longrightarrow> sym_le i j \<Longrightarrow> args_named j l"
  unfolding args_named_def sym_le_def by blast

lemma intern_args_named:
  assumes "interner_ok i" "length (strs i) + length (filter (\<lambda>a. \<not> tm_isVar a) as) \<le> 2 ^ 31" "a \<in> set (fst (intern_args i as))"
  shows "tm_isVar a \<or> in_sym (snd (intern_args i as)) (tm_sym a) \<noteq> None"
  using assms
proof (induction as arbitrary: i)
  case (Cons b as)
  show ?case
  proof (cases "tm_isVar b")
    case True
    then show ?thesis using Cons by (auto simp: split_beta Let_def)
  next
    case False
    let ?i1 = "snd (in_id i (tm_name b))"
    have room: "length (strs i) < 2 ^ 31" using Cons.prems(2) False by simp
    have i1: "interner_ok ?i1" "length (strs ?i1) + length (filter (\<lambda>a. \<not> tm_isVar a) as) \<le> 2 ^ 31"
      using in_id_ok [OF Cons.prems(1) room] in_id_length [of i "tm_name b"] Cons.prems(2) False by simp_all
    have "in_sym ?i1 (fst (in_id i (tm_name b))) \<noteq> None" using in_id_sym [OF Cons.prems(1) room] by simp
    moreover have "sym_le ?i1 (snd (intern_args ?i1 as))" by (simp add: intern_args_syms sym_le_intern)
    ultimately have "in_sym (snd (intern_args ?i1 as)) (fst (in_id i (tm_name b))) \<noteq> None"
      unfolding sym_le_def by blast
    then show ?thesis using Cons.IH [OF i1] Cons.prems(3) False by (auto simp: split_beta Let_def)
  qed
qed simp

lemma internLit_named:
  assumes "interner_ok i" "length (strs i) + length (lit_constants l) \<le> 2 ^ 31"
  shows "args_named (snd (internLit i l)) (fst (internLit i l))"
  using intern_args_named [OF assms(1), of "l_args l"] assms(2)
  by (simp add: args_named_def internLit_def split_beta Let_def lit_constants_def)

lemma internLits_named:
  assumes "interner_ok i" "length (strs i) + length (concat (map lit_constants ls)) \<le> 2 ^ 31" "l \<in> set (fst (internLits i ls))"
  shows "args_named (snd (internLits i ls)) l"
  using assms
proof (induction ls arbitrary: i)
  case (Cons k ls)
  let ?i1 = "snd (internLit i k)"
  have eq: "?i1 = snd (intern i (lit_constants k))" by (rule internLit_syms)
  have i1: "interner_ok ?i1" "length (strs ?i1) + length (concat (map lit_constants ls)) \<le> 2 ^ 31"
    using intern_ok [OF Cons.prems(1), of "lit_constants k"] intern_room [of i "lit_constants k"] Cons.prems(2) by (simp_all add: eq)
  have "args_named ?i1 (fst (internLit i k))" using internLit_named [OF Cons.prems(1)] Cons.prems(2) by simp
  moreover have "sym_le ?i1 (snd (internLits ?i1 ls))" by (simp add: internLits_syms sym_le_intern)
  ultimately have "args_named (snd (internLits ?i1 ls)) (fst (internLit i k))" by (rule args_named_mono)
  then show ?case using Cons.IH [OF i1] Cons.prems(3) by (auto simp: split_beta Let_def)
qed simp

lemma internRules_named:
  assumes "interner_ok i" "length (strs i) + length (rule_constants rs) \<le> 2 ^ 31"
    and "r \<in> set (fst (internRules i rs))" "l \<in> set (rule_lits r)"
  shows "args_named (snd (internRules i rs)) l"
  using assms
proof (induction rs arbitrary: i)
  case (Cons q rs)
  let ?i1 = "snd (internLit i (ru_head q))"
  let ?i2 = "snd (internLits ?i1 (ru_body q))"
  let ?i3 = "snd (internRules ?i2 rs)"
  have len: "length (rule_constants (q # rs)) = length (lit_constants (ru_head q)) + length (concat (map lit_constants (ru_body q)))
      + length (rule_constants rs)" by (simp add: rule_constants_def rule_lits_def)
  have i1: "interner_ok ?i1" "length (strs ?i1) \<le> length (strs i) + length (lit_constants (ru_head q))"
    using intern_ok [OF Cons.prems(1), of "lit_constants (ru_head q)"] intern_room [of i] Cons.prems(2) len by (simp_all add: internLit_syms)
  have i2: "interner_ok ?i2" "length (strs ?i2) \<le> length (strs ?i1) + length (concat (map lit_constants (ru_body q)))"
    using intern_ok [OF i1(1), of "concat (map lit_constants (ru_body q))"] intern_room [of ?i1] i1(2) Cons.prems(2) len
    by (simp_all add: internLits_syms)
  have le: "sym_le ?i1 ?i2" "sym_le ?i2 ?i3" by (simp_all add: internLits_syms internRules_syms sym_le_intern)
  have "args_named ?i1 (fst (internLit i (ru_head q)))" using internLit_named [OF Cons.prems(1)] Cons.prems(2) len by simp
  then have hd: "args_named ?i3 (fst (internLit i (ru_head q)))" using args_named_mono le by blast
  have "args_named ?i2 k" if "k \<in> set (fst (internLits ?i1 (ru_body q)))" for k
    using internLits_named [OF i1(1) _ that] i1(2) Cons.prems(2) len by simp
  then have bd: "args_named ?i3 k" if "k \<in> set (fst (internLits ?i1 (ru_body q)))" for k using that args_named_mono le(2) by blast
  have "length (strs ?i2) + length (rule_constants rs) \<le> 2 ^ 31" using i1(2) i2(2) Cons.prems(2) len by simp
  note ih = Cons.IH [OF i2(1) this]
  have eq: "internRules i (q # rs) = (q\<lparr>ru_head := fst (internLit i (ru_head q)), ru_body := fst (internLits ?i1 (ru_body q))\<rparr>
      # fst (internRules ?i2 rs), ?i3)" by (simp add: split_beta Let_def)
  show ?case using ih hd bd Cons.prems(3,4) unfolding eq by (auto simp: rule_lits_def)
qed simp

lemma LoadRules_closed:
  assumes run: "LoadRules src name e = Inr e'" and parse: "parseRules src name = Inr rules" and sy: "syms_ok e"
    and room: "length (strs (en_syms e)) + length (rule_constants (en_ruleOrder e @ rules)) \<le> 2 ^ 31"
  shows "closed_engine e'"
proof -
  let ?all = "en_ruleOrder e @ rules"
  obtain ar st where e': "e' = install ar st ?all e" and miss: "missing_rels e ?all = []"
    using run parse by (auto simp: LoadRules_def Let_def split: if_splits)
  note f = install_fields [OF refl, of ar st ?all e, folded e']
  have rd: "is_builtin (l_rel l) \<or> derived e' (l_rel l) \<or> en_base e' (l_rel l) \<noteq> None"
    if "r \<in> set (en_ruleOrder e')" "l \<in> set (ru_body r)" for r l
  proof -
    note lb = that(2)
    from that(1) f(1) obtain q where q: "q \<in> set ?all" "erase r = erase q" using loaded_rule by metis
    have "l_rel ` set (ru_body r) = l_rel ` set (ru_body q)"
      using arg_cong [OF q(2), of "\<lambda>r. l_rel ` set (ru_body r)"] by (simp add: image_image)
    then obtain k where k: "k \<in> set (ru_body q)" "l_rel k = l_rel l" using lb by (metis imageE imageI)
    have "l_rel k \<in> head_rels ?all \<or> is_builtin (l_rel k) \<or> en_base e (l_rel k) \<noteq> None"
      using miss q(1) k(1) by (fastforce simp: missing_rels_def filter_empty_conv)
    moreover have "derived e' (l_rel k)" if "l_rel k \<in> head_rels ?all"
    proof -
      from that have "l_rel k \<in> (\<lambda>r. l_rel (ru_head r)) ` set ?all" by (simp only: head_rels_def set_map)
      then obtain p where p: "l_rel k = l_rel (ru_head p)" "p \<in> set ?all" by (rule imageE)
      have "map erase (en_ruleOrder e') = map erase ?all"
        using internRules_erase [of "en_syms e" ?all] by (simp add: f(1) o_def)
      then have "erase ` set (en_ruleOrder e') = erase ` set ?all" by (metis set_map)
      then have "erase p \<in> erase ` set (en_ruleOrder e')" using p(2) by (simp only: imageI)
      then obtain r' where r': "erase p = erase r'" "r' \<in> set (en_ruleOrder e')" by (rule imageE)
      then have "r' \<in> set (en_rules e' (l_rel k))" using p(1) erase_rels(2) [OF r'(1)] by (simp add: f(1,2))
      then show ?thesis by (auto simp: derived_rules)
    qed
    ultimately show ?thesis using k(2) by (auto simp: f(4))
  qed
  have fc: "reveal (en_syms e') t \<noteq> None" if "t \<in> facts e' rel" for rel t
    using install_syms(1) [OF sy room, of ar st] that e' unfolding syms_ok_def by blast
  have cs: "args_named (en_syms e') l" if "r \<in> set (en_ruleOrder e')" "l \<in> set (rule_lits r)" for r l
  proof -
    from that(1) obtain q where q: "q \<in> set (fst (internRules (en_syms e) ?all))" "r = resolveAggSlots q" by (auto simp: f(1))
    then have "l \<in> set (rule_lits q)" using that(2) resolve_frame by (simp add: rule_lits_def)
    then show ?thesis using internRules_named [OF _ room q(1)] sy by (simp add: f(5) syms_ok_def)
  qed
  show ?thesis using rd fc cs unfolding closed_engine_def args_named_def by blast
qed

end
