(* ===== verification/Demo.thy ===== *)
theory Demo
  imports Progress "HOL-Library.Code_Target_Nat"
begin

text \<open>
  A program small enough to be run by the simplifier: one rule, one fact, one goal. The run is the
  concrete input at which the properties of the whole engine are applied.
\<close>

definition demo :: program where
  "demo = \<lparr>pr_src = ''p(X):-q(X).'', pr_name = ''t'', pr_base = [''q'']\<rparr>"

definition demo_facts :: factRelations where
  "demo_facts = Add ''q'' [[''a'']] (NewFactRelations [''p''])"

text \<open>The states the run goes through: an empty engine, the facts, the rules, the answers.\<close>

abbreviation demo_engine :: engine where
  "demo_engine \<equiv> New \<lparr>op_demandDriven = False, op_maxTuples = 0, op_maxRounds = 0, op_provenance = False\<rparr>"

definition demo_rules :: "rule list" where
  "demo_rules = projr (parseRules (pr_src demo) (pr_name demo))"

definition demo_e1 :: engine where
  "demo_e1 = snd (Assert ''q'' [[''a'']] demo_engine)"

definition demo_e2 :: engine where
  "demo_e2 = projr (LoadRules (pr_src demo) (pr_name demo) demo_e1)"

definition demo_e3 :: engine where
  "demo_e3 = snd (projr (Query 1 ''p'' demo_e2))"

section \<open>The evaluated run\<close>

lemma demo_run: "map_sum id fst (Eval_program 1 demo demo_facts) = Inr [(''p'', [[''a'']])]"
  by code_simp

lemma demo_parsed:
  "map_sum id (\<lambda>rs. (list_all (\<lambda>r. ru_agg r = None \<and> list_all (\<lambda>l. \<not> l_neg l \<and> l_rel l \<notin> {''lt'', ''le''}) (ru_body r)) rs,
       length (rule_constants rs), map (\<lambda>r. l_rel (ru_head r)) rs))
     (parseRules (pr_src demo) (pr_name demo)) = Inr (True, 0, [''p''])"
  by code_simp

lemma demo_width: "fact_width (fr_rels demo_facts) = 1"
  by (simp add: fact_width_def demo_facts_def Add_def NewFactRelations_def)

lemma demo_parse: "parseRules (pr_src demo) (pr_name demo) = Inr demo_rules"
  using demo_parsed by (cases "parseRules (pr_src demo) (pr_name demo)") (simp_all add: demo_rules_def)

lemma demo_rules_facts:
  "list_all (\<lambda>r. ru_agg r = None \<and> list_all (\<lambda>l. \<not> l_neg l \<and> l_rel l \<notin> {''lt'', ''le''}) (ru_body r)) demo_rules"
  "length (rule_constants demo_rules) = 0" "map (\<lambda>r. l_rel (ru_head r)) demo_rules = [''p'']"
  using demo_parsed by (simp_all add: demo_parse)

lemma demo_neg: "\<forall>r \<in> set demo_rules. neg_ordered r"
  using demo_rules_facts(1) nth_mem by (fastforce simp: neg_ordered_def negs_bound_def list_all_iff)

lemma demo_states:
  "Assert ''q'' [[''a'']] demo_engine = (None, demo_e1)"
  "LoadRules (pr_src demo) (pr_name demo) demo_e1 = Inr demo_e2"
  "Query 1 ''p'' demo_e2 = Inr ([[''a'']], demo_e3)"
  "Eval_program 1 demo demo_facts = Inr ([(''p'', [[''a'']])], demo_e3)"
proof -
  from demo_run obtain e' where ev: "Eval_program 1 demo demo_facts = Inr ([(''p'', [[''a'']])], e')"
    by (cases "Eval_program 1 demo demo_facts") auto
  have fr: "sort_key fst (fr_rels demo_facts) = [(''q'', [[''a'']])]" "fr_goals demo_facts = [''p'']"
    by (simp_all add: demo_facts_def Add_def NewFactRelations_def)
  from ev obtain e1 e2 where a: "assert_all [(''q'', [[''a'']])] demo_engine = Inr e1"
    and l: "LoadRules (pr_src demo) (pr_name demo) e1 = Inr e2" and q: "query_all 1 [''p''] e2 = Inr ([(''p'', [[''a'']])], e')"
    by (auto simp: Eval_program_def Let_def fr)
  from a have 1: "Assert ''q'' [[''a'']] demo_engine = (None, e1)" by (auto split: prod.splits option.splits)
  from q have 3: "Query 1 ''p'' e2 = Inr ([[''a'']], e')" by auto
  have e1: "demo_e1 = e1" by (simp add: demo_e1_def 1)
  have e2: "demo_e2 = e2" by (simp add: demo_e2_def e1 l)
  have e3: "demo_e3 = e'" by (simp add: demo_e3_def e2 3 [simplified])
  show "Assert ''q'' [[''a'']] demo_engine = (None, demo_e1)" "LoadRules (pr_src demo) (pr_name demo) demo_e1 = Inr demo_e2"
    "Query 1 ''p'' demo_e2 = Inr ([[''a'']], demo_e3)" "Eval_program 1 demo demo_facts = Inr ([(''p'', [[''a'']])], demo_e3)"
    unfolding e1 e2 e3 by (rule 1, rule l, rule 3, rule ev)
qed

section \<open>What holds in the states of the run\<close>

lemma demo_e1_ok:
  "base_ok demo_e1" "en_ruleOrder demo_e1 = []" "\<not> en_recordProv demo_e1" "0 < en_maxRounds demo_e1" "loadable demo_e1"
  "syms_ok demo_e1" "length (strs (en_syms demo_e1)) \<le> 1"
proof -
  note new = New_frame [of "\<lparr>op_demandDriven = False, op_maxTuples = 0, op_maxRounds = 0, op_provenance = False\<rparr>"]
  note fr = Assert_frame [OF demo_states(1)]
  show *: "base_ok demo_e1" "en_ruleOrder demo_e1 = []" "\<not> en_recordProv demo_e1" "0 < en_maxRounds demo_e1"
    using Assert_base_ok [OF New_base_ok demo_states(1)] fr new by simp_all
  then show "loadable demo_e1" by (simp add: loadable_def)
  have "length (strs (en_syms demo_engine)) + length (concat [[''a'']]) \<le> 2 ^ 31" by (simp add: New_syms_ok(3))
  note a = Assert_facts [OF New_base_ok New_syms_ok(1) demo_states(1) this]
  then show "syms_ok demo_e1" by blast
  show "length (strs (en_syms demo_e1)) \<le> 1"
    using a New_syms_ok(3) [of "\<lparr>op_demandDriven = False, op_maxTuples = 0, op_maxRounds = 0, op_provenance = False\<rparr>"] by simp
qed

lemma demo_room: "length (strs (en_syms demo_e1)) + length (rule_constants (en_ruleOrder demo_e1 @ demo_rules)) \<le> 2 ^ 31"
  using demo_e1_ok(2,7) demo_rules_facts(2) by simp

lemma demo_install:
  obtains ar st where "demo_e2 = install ar st demo_rules demo_e1"
proof -
  from demo_states(2) obtain rs ar st where "parseRules (pr_src demo) (pr_name demo) = Inr rs" "check_rules rs = Inr ()"
    "check_arities (concat (map rule_lits (en_ruleOrder demo_e1 @ rs))) (base_arities demo_e1) = Inr ar"
    "stratify (en_ruleOrder demo_e1 @ rs) = Inr st" "demo_e2 = install ar st (en_ruleOrder demo_e1 @ rs) demo_e1"
    by (rule LoadRules_unfold)
  then show thesis using that demo_parse demo_e1_ok(2) by simp
qed

lemma demo_erased: "map erase (en_ruleOrder demo_e2) = map erase demo_rules"
proof -
  obtain ar st where e2: "demo_e2 = install ar st demo_rules demo_e1" by (rule demo_install)
  show ?thesis using internRules_erase [of "en_syms demo_e1" demo_rules] by (simp add: e2 install_fields(1) [OF refl] o_def)
qed

lemma demo_loaded_rule:
  assumes "r \<in> set (en_ruleOrder demo_e2)"
  obtains q where "q \<in> set demo_rules" "erase r = erase q"
proof -
  have "erase r \<in> set (map erase demo_rules)" using assms unfolding demo_erased [symmetric] by auto
  then show thesis using that by auto
qed

lemma demo_loaded_neg: "\<forall>r \<in> set (en_ruleOrder demo_e2). neg_ordered r"
  using demo_loaded_rule demo_neg neg_ordered_eq by metis

lemma demo_heads: "head_rels (en_ruleOrder demo_e2) = {''p''}"
proof -
  have "map (\<lambda>r. l_rel (ru_head r)) (map erase (en_ruleOrder demo_e2)) = map (\<lambda>r. l_rel (ru_head r)) (map erase demo_rules)"
    by (simp only: demo_erased)
  then have "map (\<lambda>r. l_rel (ru_head r)) (en_ruleOrder demo_e2) = map (\<lambda>r. l_rel (ru_head r)) demo_rules" by (simp add: o_def)
  then show ?thesis using demo_rules_facts(3) by (simp only: head_rels_def) simp
qed

lemma demo_engine_ok:
  obtains ar M where "engine_ok ar M demo_e2" "serving ar M demo_e2"
proof -
  from LoadRules_ok [OF demo_e1_ok(5) demo_states(2) demo_e1_ok(3) demo_loaded_neg] obtain ar M
    where l: "loadable demo_e2" "queryable demo_e2" "engine_ok ar M demo_e2" by blast
  obtain ar' st where e2: "demo_e2 = install ar' st demo_rules demo_e1" by (rule demo_install)
  have "0 < en_maxRounds demo_e2" using demo_e1_ok(4) by (simp add: e2 install_fields [OF refl])
  then show thesis using that l by (simp add: serving_def loadable_def)
qed

lemma demo_derived: "derived demo_e2 rel \<longleftrightarrow> rel = ''p''"
proof -
  obtain ar M where "engine_ok ar M demo_e2" "serving ar M demo_e2" by (rule demo_engine_ok)
  then show ?thesis using derived_iff [of ar demo_e2 rel] demo_heads by (simp add: engine_ok_def)
qed

lemma demo_goal: "arityOf demo_e2 ''p'' = Inr a \<Longrightarrow> 0 \<le> a"
  using demo_states(3) by (auto simp: Query_def split: if_splits)

lemma demo_arity:
  obtains a where "arityOf demo_e2 ''p'' = Inr a" "0 \<le> a"
  using demo_states(3) demo_goal by (cases "arityOf demo_e2 ''p''") (auto simp: Query_def)

lemma demo_bottom_up:
  assumes sv: "serving ar M demo_e2"
  obtains ts where "solveBottomUp ''p'' demo_e2 = Inr (ts, demo_e3)" "length ts = 1"
proof -
  let ?e = demo_e2
  obtain a where a: "arityOf ?e ''p'' = Inr a" "0 \<le> a" by (rule demo_arity)
  then have qp: "QueryPattern 1 ''p'' (replicate (nat a) []) ?e = Inr ([[''a'']], demo_e3)"
    using demo_states(3) by (simp add: Query_def)
  have ub: "useBottomUp ?e ''p'' (replicate (nat a) None)"
    using sv demo_derived by (simp add: useBottomUp_def serving_def queryable_def derived_rules list_all_iff)
  have e: "?e\<lparr>en_syms := en_syms ?e\<rparr> = ?e" by simp
  from qp ub obtain ts vs where t: "solveBottomUp ''p'' ?e = Inr (ts, demo_e3)" "reveal_all (en_syms demo_e3) ts = Inr vs"
    "[[''a'']] = sortTuples vs"
    unfolding QueryPattern_def bindsOf_free Let_def prod.case e by auto
  have "length vs = 1" using arg_cong [OF t(3), of length] by (simp add: sortTuples_def)
  moreover have "map (reveal (en_syms demo_e3)) ts = map Some vs" using t(2) by (simp add: reveal_all_spec)
  then have "length ts = length vs" by (rule map_eq_imp_length_eq)
  ultimately show thesis using that t(1) by simp
qed

section \<open>The run is within the caps\<close>

lemma more_than_one: "more_than n S \<Longrightarrow> 1 \<le> n \<Longrightarrow> \<exists>x \<in> S. \<exists>y \<in> S. x \<noteq> y"
proof -
  assume "more_than n S" "1 \<le> n"
  then obtain T where T: "T \<subseteq> S" "finite T" "1 < card T" unfolding more_than_def by auto
  then have "\<not> (\<exists>x. T \<subseteq> {x})" using card_mono [of "{_}" T] by fastforce
  moreover obtain x where "x \<in> T" using T(3) by fastforce
  ultimately show ?thesis using T(1) by blast
qed

lemma Assert_caps: "en_maxTuples (snd (Assert rel ts e)) = en_maxTuples e" "en_maxRounds (snd (Assert rel ts e)) = en_maxRounds e"
  by (simp_all add: Assert_def split_beta Let_def reset_def)

lemma demo_caps: "en_maxTuples demo_e2 = 5000000" "en_maxRounds demo_e2 = 200"
proof -
  obtain ar st where e2: "demo_e2 = install ar st demo_rules demo_e1" by (rule demo_install)
  have e1: "en_maxTuples demo_e1 = en_maxTuples demo_engine" "en_maxRounds demo_e1 = en_maxRounds demo_engine"
    unfolding demo_e1_def by (rule Assert_caps)+
  have "en_maxTuples demo_engine = 5000000" "en_maxRounds demo_engine = 200"
    by (simp_all add: New_def withDefaults_def Let_def)
  then show "en_maxTuples demo_e2 = 5000000" "en_maxRounds demo_e2 = 200"
    by (simp_all add: e2 install_def reset_def split_beta Let_def e1)
qed

lemma demo_closed: "closed_engine demo_e2"
  by (rule LoadRules_closed [OF demo_states(2) demo_parse demo_e1_ok(6) demo_room])

lemma demo_symbolic: "symbolic demo_e2"
proof -
  have rule: "ru_agg r = None" "\<forall>l \<in> set (ru_body r). l_rel l \<notin> {''lt'', ''le''}" if r: "r \<in> set (en_ruleOrder demo_e2)" for r
  proof -
    from r obtain q where q: "q \<in> set demo_rules" "erase r = erase q" by (rule demo_loaded_rule)
    have f: "ru_agg q = None" "\<forall>x \<in> l_rel ` set (ru_body q). x \<notin> {''lt'', ''le''}"
      using q(1) demo_rules_facts(1) by (simp_all add: list_all_iff)
    have "l_rel ` set (ru_body r) = l_rel ` set (ru_body q)" "ru_agg r = None \<longleftrightarrow> ru_agg q = None"
      using arg_cong [OF q(2), of "\<lambda>r. l_rel ` set (ru_body r)"] arg_cong [OF q(2), of "\<lambda>r. ru_agg r = None"]
      by (simp_all add: image_image)
    then have "ru_agg r = None" "\<forall>x \<in> l_rel ` set (ru_body r). x \<notin> {''lt'', ''le''}" using f by simp_all
    then show "ru_agg r = None" "\<forall>l \<in> set (ru_body r). l_rel l \<notin> {''lt'', ''le''}" by simp_all
  qed
  show ?thesis unfolding symbolic_def has_aggregate_def
    by (intro conjI ballI; (rule bspec [OF rule(2)])?) (simp_all add: rule(1))
qed

lemma demo_model:
  assumes sv: "serving ar M demo_e2" and t: "t \<in> M rel" "u \<in> M rel"
  shows "t = u"
proof (cases "rel = ''p''")
  case True
  obtain ts where ts: "solveBottomUp ''p'' demo_e2 = Inr (ts, demo_e3)" "length ts = 1" by (rule demo_bottom_up [OF sv])
  have eo: "engine_ok ar M demo_e2" using sv by (simp add: serving_def)
  have "set ts = M rel" unfolding True by (rule conjunct1 [OF solveBottomUp_result [OF eo _ ts(1)]]) (simp add: demo_derived)
  moreover obtain v where "ts = [v]" using ts(2) by (cases ts) simp_all
  ultimately have "M rel = {v}" by simp
  then show ?thesis using t by simp
next
  case False
  obtain ar' st where e2: "demo_e2 = install ar' st demo_rules demo_e1" by (rule demo_install)
  have "engine_model demo_e2 M" using sv by (simp add: serving_def engine_ok_def)
  moreover have "rel \<notin> head_rels (en_ruleOrder demo_e2)" using False demo_heads by simp
  ultimately have "M rel = facts demo_e2 rel" using perfect_base_only unfolding engine_model_def by blast
  then have f: "t \<in> facts demo_e1 rel" "u \<in> facts demo_e1 rel" using t install_facts by (simp_all add: e2)
  have "length (strs (en_syms demo_engine)) + length (concat [[''a'']]) \<le> 2 ^ 31" by (simp add: New_syms_ok(3))
  note a = Assert_facts [OF New_base_ok New_syms_ok(1) demo_states(1) this]
  have "named_facts demo_e1 rel \<subseteq> {map canon [''a'']}" using a New_syms_ok(2) by simp
  moreover have ok: "interner_ok (en_syms demo_e1)" "reveal (en_syms demo_e1) t \<noteq> None" "reveal (en_syms demo_e1) u \<noteq> None"
    using demo_e1_ok(6) f unfolding syms_ok_def by blast+
  ultimately have "reveal (en_syms demo_e1) t = Some (map canon [''a''])" "reveal (en_syms demo_e1) u = Some (map canon [''a''])"
    using f unfolding named_facts_def by blast+
  then show ?thesis using reveal_inj [OF ok(1)] by metis
qed

lemma demo_within_caps:
  assumes sv: "serving ar M demo_e2"
  shows "within_caps demo_e2 M"
proof -
  have "\<not> more_than 5000000 (M rel)" for rel using more_than_one [of 5000000 "M rel"] demo_model [OF sv] by auto
  moreover have "\<not> more_than 200 {(x, t). derived demo_e2 x \<and> t \<in> M x}"
    using more_than_one [of 200 "{(x, t). derived demo_e2 x \<and> t \<in> M x}"] demo_model [OF sv] demo_derived by auto
  ultimately show ?thesis by (simp add: within_caps_def demo_caps)
qed

end
