(* ===== verification/Value_Lattice.thy ===== *)
theory Value_Lattice
  imports Prelude
begin

text \<open>
  The value lattice of the value graph (\<open>internal/valuegraph/value.go\<close>): what string an expression
  can be. \<open>Concat\<close> and \<open>Union\<close> build values in normal form, \<open>String\<close> renders a value for
  deduplication, \<open>Strings\<close> enumerates the concrete strings with a cap.

  The Go struct is one constructor with all its fields, of which \<open>Kind\<close> says which are in use.
  The sets that Go keeps as maps are lists without duplicates.
\<close>

section \<open>Values\<close>

datatype vkind = KindLiteral | KindConcat | KindUnion | KindOpaque

record origin =
  og_reason :: string
  og_file :: string
  og_line :: int
  og_text :: string

definition zeroOrigin :: origin where
  "zeroOrigin = \<lparr>og_reason = [], og_file = [], og_line = 0, og_text = []\<rparr>"

datatype vvalue = Value (v_kind: vkind) (v_text: string) (v_parts: "vvalue list") (v_origin: origin)
  (v_src: origin) (v_crossings: "origin list")

definition mkValue :: "vkind \<Rightarrow> string \<Rightarrow> vvalue list \<Rightarrow> origin \<Rightarrow> vvalue" where
  "mkValue k t ps og = Value k t ps og zeroOrigin []"

definition ReasonUnsupported :: string where
  "ReasonUnsupported = ''unsupported''"

definition DefaultMaxStrings :: nat where
  "DefaultMaxStrings = 32"

definition wildcard :: string where
  "wildcard = ''*''"

definition Literal :: "string \<Rightarrow> vvalue" where
  "Literal t = mkValue KindLiteral t [] zeroOrigin"

definition Opaque :: "origin \<Rightarrow> vvalue" where
  "Opaque og = mkValue KindOpaque [] []
     (if og_reason og = [] then og\<lparr>og_reason := ReasonUnsupported\<rparr> else og)"

section \<open>Concatenation\<close>

definition flatten :: "vkind \<Rightarrow> vvalue list \<Rightarrow> vvalue list" where
  "flatten k ps = concat (map (\<lambda>p. if v_kind p = k then v_parts p else [p]) ps)"

text \<open>One step of the merge loop, on the values merged so far.\<close>

definition set_text :: "string \<Rightarrow> vvalue \<Rightarrow> vvalue" where
  "set_text t v = Value (v_kind v) t (v_parts v) (v_origin v) (v_src v) (v_crossings v)"

definition merge_step :: "vvalue \<Rightarrow> vvalue list \<Rightarrow> vvalue list" where
  "merge_step p merged =
     (if v_kind p = KindLiteral then
        (if v_text p = [] then merged
         else if merged \<noteq> [] \<and> v_kind (last merged) = KindLiteral
         then butlast merged @ [set_text (v_text (last merged) @ v_text p) (last merged)]
         else merged @ [p])
      else merged @ [p])"

definition Concat :: "vvalue list \<Rightarrow> vvalue" where
  "Concat parts =
     (let merged = fold merge_step (flatten KindConcat parts) [] in
      case merged of
        [] \<Rightarrow> Literal []
      | [v] \<Rightarrow> v
      | _ \<Rightarrow> mkValue KindConcat [] merged zeroOrigin)"

section \<open>Rendering\<close>

fun joinWith :: "string \<Rightarrow> string list \<Rightarrow> string" where
  "joinWith sep [] = []"
| "joinWith sep [s] = s"
| "joinWith sep (s # t # ss) = s @ sep @ joinWith sep (t # ss)"

fun vString :: "vvalue \<Rightarrow> string" where
  "vString (Value k t ps og sr cr) =
     (case k of
        KindLiteral \<Rightarrow> t
      | KindConcat \<Rightarrow> concat (map vString ps)
      | KindUnion \<Rightarrow> ''('' @ joinWith ''|'' (map vString ps) @ '')''
      | KindOpaque \<Rightarrow> ''<'' @ og_reason og @ '':'' @ og_text og @ ''>'')"

section \<open>Union\<close>

definition mergeCrossings :: "origin list \<Rightarrow> origin list \<Rightarrow> origin list" where
  "mergeCrossings a b = (if b = [] then a else fold (\<lambda>og out. if og \<in> set out then out else out @ [og]) (a @ b) [])"

definition set_crossings :: "origin list \<Rightarrow> vvalue \<Rightarrow> vvalue" where
  "set_crossings cs v = Value (v_kind v) (v_text v) (v_parts v) (v_origin v) (v_src v) cs"

text \<open>One step of the dedup loop: the values kept so far, at most one per rendering.\<close>

definition dedup_step :: "vvalue \<Rightarrow> vvalue list \<Rightarrow> vvalue list" where
  "dedup_step p out =
     (if vString p \<in> vString ` set out
      then map (\<lambda>q. if vString q = vString p then set_crossings (mergeCrossings (v_crossings q) (v_crossings p)) q else q) out
      else out @ [p])"

definition Union :: "vvalue list \<Rightarrow> vvalue" where
  "Union parts =
     (let out = sort_key vString (fold dedup_step (flatten KindUnion parts) []) in
      case out of
        [] \<Rightarrow> Opaque (zeroOrigin\<lparr>og_reason := ReasonUnsupported, og_text := ''empty union''\<rparr>)
      | [v] \<Rightarrow> v
      | _ \<Rightarrow> mkValue KindUnion [] out zeroOrigin)"

section \<open>Enumeration\<close>

definition joinSegments :: "string \<Rightarrow> string \<Rightarrow> string" where
  "joinSegments a b =
     (if a \<noteq> [] \<and> last a = CHR ''*'' \<and> b \<noteq> [] \<and> hd b = CHR ''*'' then a @ tl b else a @ b)"

definition dedupeKeys :: "string list \<Rightarrow> string list" where
  "dedupeKeys seen = sort seen"

text \<open>
  The innermost loop of both cases: the strings collected so far, and whether a new one had to be
  dropped because \<open>max\<close> were there already.
\<close>

fun collect_new :: "nat \<Rightarrow> string list \<Rightarrow> string list \<Rightarrow> string list \<times> bool" where
  "collect_new mx [] seen = (seen, False)"
| "collect_new mx (s # ss) seen =
     (if s \<in> set seen then collect_new mx ss seen
      else if length seen \<ge> mx then (seen, True)
      else collect_new mx ss (seen @ [s]))"

fun union_loop :: "nat \<Rightarrow> (string list \<times> bool) list \<Rightarrow> string list \<Rightarrow> bool \<Rightarrow> string list \<times> bool" where
  "union_loop mx [] seen tr = (seen, tr)"
| "union_loop mx ((got, t) # rs) seen tr =
     (case collect_new mx got seen of
        (seen', full) \<Rightarrow> if full then (seen', True) else union_loop mx rs seen' (tr \<or> t))"

fun concat_loop :: "nat \<Rightarrow> (string list \<times> bool) list \<Rightarrow> string list \<Rightarrow> bool \<Rightarrow> string list \<times> bool" where
  "concat_loop mx [] acc tr = (acc, tr)"
| "concat_loop mx ((got, t) # rs) acc tr =
     (case collect_new mx (concat (map (\<lambda>p. map (joinSegments p) got) acc)) [] of
        (acc', full) \<Rightarrow> if full then (acc', True) else concat_loop mx rs acc' (tr \<or> t))"

fun enumerate :: "nat \<Rightarrow> vvalue \<Rightarrow> string list \<times> bool" where
  "enumerate mx (Value k t ps og sr cr) =
     (case k of
        KindLiteral \<Rightarrow> ([t], False)
      | KindOpaque \<Rightarrow> ([wildcard], False)
      | KindUnion \<Rightarrow> (case union_loop mx (map (enumerate mx) ps) [] False of (seen, tr) \<Rightarrow> (dedupeKeys seen, tr))
      | KindConcat \<Rightarrow> concat_loop mx (map (enumerate mx) ps) [[]] False)"

text \<open>
  \<open>strings.TrimSpace(s) == ""\<close>: every code point of \<open>s\<close> is white space, read off its UTF-8 bytes
  (the ASCII spaces, U+0085, U+00A0, U+1680, U+2000 to U+200A, U+2028, U+2029, U+202F, U+205F, U+3000).
\<close>

fun all_space :: "nat list \<Rightarrow> bool" where
  "all_space [] = True"
| "all_space (b # bs) =
     (if b \<in> {9, 10, 11, 12, 13, 32} then all_space bs
      else if b = 0xC2 then (case bs of c # cs \<Rightarrow> c \<in> {0x85, 0xA0} \<and> all_space cs | [] \<Rightarrow> False)
      else (case bs of
              c # d # ds \<Rightarrow> (b = 0xE1 \<and> c = 0x9A \<and> d = 0x80
                 \<or> b = 0xE2 \<and> c = 0x80 \<and> (0x80 \<le> d \<and> d \<le> 0x8A \<or> d \<in> {0xA8, 0xA9, 0xAF})
                 \<or> b = 0xE2 \<and> c = 0x81 \<and> d = 0x9F \<or> b = 0xE3 \<and> c = 0x80 \<and> d = 0x80) \<and> all_space ds
            | _ \<Rightarrow> False))"

fun hasLiteral :: "vvalue \<Rightarrow> bool" where
  "hasLiteral (Value k t ps og sr cr) =
     (case k of
        KindLiteral \<Rightarrow> \<not> all_space (map of_char t)
      | KindOpaque \<Rightarrow> False
      | _ \<Rightarrow> list_ex hasLiteral ps)"

definition Strings :: "vvalue \<Rightarrow> int \<Rightarrow> string list \<times> bool" where
  "Strings v mx =
     (let n = (if mx \<le> 0 then DefaultMaxStrings else nat mx); (got, tr) = enumerate n v in
      (sort got, \<not> tr \<and> hasLiteral v))"

section \<open>Provenance\<close>

fun withSrc :: "vvalue \<Rightarrow> origin \<Rightarrow> vvalue" where
  "withSrc (Value k t ps og sr cr) og1 =
     (if k = KindUnion then Value k t (map (\<lambda>p. withSrc p og1) ps) og sr cr
      else Value k t ps og (if sr = zeroOrigin then og1 else sr) (cr @ [og1]))"

definition CrossedVia :: "vvalue \<Rightarrow> string \<Rightarrow> origin option" where
  "CrossedVia v kind = List.find (\<lambda>og. og_reason og = kind) (v_crossings v)"

definition Alternatives :: "vvalue \<Rightarrow> vvalue list" where
  "Alternatives v = (if v_kind v = KindUnion then v_parts v else [v])"

fun Sources :: "vvalue \<Rightarrow> origin list" where
  "Sources (Value k t ps og sr cr) =
     (if sr \<noteq> zeroOrigin then [sr] else []) @ concat (map Sources ps)"

fun IsDynamic :: "vvalue \<Rightarrow> bool" where
  "IsDynamic (Value k t ps og sr cr) = (k = KindOpaque \<or> list_ex IsDynamic ps)"

fun Origins :: "vvalue \<Rightarrow> origin list" where
  "Origins (Value k t ps og sr cr) = (if k = KindOpaque then [og] else concat (map Origins ps))"

section \<open>What a value denotes\<close>

text \<open>The strings of a value, without the cap: unions are alternatives, concatenations products.\<close>

definition seg_prod :: "string set \<Rightarrow> string set \<Rightarrow> string set" where
  "seg_prod A B = {joinSegments a b |a b. a \<in> A \<and> b \<in> B}"

fun denot :: "vvalue \<Rightarrow> string set" where
  "denot (Value k t ps og sr cr) =
     (case k of
        KindLiteral \<Rightarrow> {t}
      | KindOpaque \<Rightarrow> {wildcard}
      | KindUnion \<Rightarrow> \<Union> (set (map denot ps))
      | KindConcat \<Rightarrow> fold (\<lambda>p A. seg_prod A (denot p)) ps {[]})"

lemma denot_simps [simp]:
  "denot (Value KindLiteral t ps og sr cr) = {t}"
  "denot (Value KindOpaque t ps og sr cr) = {wildcard}"
  "denot (Value KindUnion t ps og sr cr) = \<Union> (denot ` set ps)"
  "denot (Value KindConcat t ps og sr cr) = fold (\<lambda>p A. seg_prod A (denot p)) ps {[]}"
  by simp_all

declare denot.simps [simp del]

section \<open>The enumeration is exact below the cap\<close>

lemma collect_new_spec:
  assumes "collect_new mx ss seen = (out, full)" "distinct seen" "length seen \<le> mx"
  shows "distinct out \<and> length out \<le> mx \<and> set seen \<subseteq> set out \<and> set out \<subseteq> set seen \<union> set ss
    \<and> (\<not> full \<longrightarrow> set out = set seen \<union> set ss)"
  using assms
proof (induction mx ss seen rule: collect_new.induct)
  case (2 mx s ss seen)
  show ?case
  proof (cases "s \<in> set seen")
    case True
    then show ?thesis using 2 by auto
  next
    case new: False
    show ?thesis
    proof (cases "length seen \<ge> mx")
      case True
      then show ?thesis using new "2.prems" by auto
    next
      case False
      have "collect_new mx ss (seen @ [s]) = (out, full)" using "2.prems"(1) new False by simp
      moreover have "distinct (seen @ [s])" "length (seen @ [s]) \<le> mx" using "2.prems"(2) new False by simp_all
      ultimately show ?thesis using "2.IH"(2) [OF new False] by auto
    qed
  qed
qed auto

lemma union_loop_spec:
  assumes "union_loop mx rs seen tr = (out, tr')" "distinct seen" "length seen \<le> mx"
  shows "distinct out \<and> length out \<le> mx
    \<and> (\<not> tr' \<longrightarrow> \<not> tr \<and> (\<forall>r \<in> set rs. \<not> snd r) \<and> set out = set seen \<union> (\<Union>r \<in> set rs. set (fst r)))"
  using assms
proof (induction mx rs seen tr rule: union_loop.induct)
  case (2 mx got t rs seen tr)
  obtain seen' full where c: "collect_new mx got seen = (seen', full)" by (rule prod.exhaust)
  note cs = collect_new_spec [OF c "2.prems"(2,3)]
  show ?case
  proof (cases full)
    case True
    then show ?thesis using "2.prems"(1) c cs by simp
  next
    case False
    have "union_loop mx rs seen' (tr \<or> t) = (out, tr')" using "2.prems"(1) c False by simp
    from "2.IH" [OF c [symmetric] False this] cs False show ?thesis by auto
  qed
qed auto

lemma concat_loop_spec:
  assumes "concat_loop mx rs acc tr = (out, tr')" "distinct acc" "length acc \<le> mx"
  shows "distinct out \<and> length out \<le> mx
    \<and> (\<not> tr' \<longrightarrow> \<not> tr \<and> (\<forall>r \<in> set rs. \<not> snd r) \<and> set out = fold (\<lambda>r A. seg_prod A (set (fst r))) rs (set acc))"
  using assms
proof (induction mx rs acc tr rule: concat_loop.induct)
  case (2 mx got t rs acc tr)
  let ?ps = "concat (map (\<lambda>p. map (joinSegments p) got) acc)"
  obtain acc' full where c: "collect_new mx ?ps [] = (acc', full)" by (rule prod.exhaust)
  have cs: "distinct acc' \<and> length acc' \<le> mx \<and> (\<not> full \<longrightarrow> set acc' = set ?ps)"
    using collect_new_spec [OF c] by simp
  have ps: "set ?ps = seg_prod (set acc) (set got)" by (auto simp: seg_prod_def)
  show ?case
  proof (cases full)
    case True
    then show ?thesis using "2.prems"(1) c cs by simp
  next
    case False
    have "concat_loop mx rs acc' (tr \<or> t) = (out, tr')" using "2.prems"(1) c False by simp
    from "2.IH" [OF c [symmetric] False this] cs False ps show ?thesis by simp
  qed
qed auto

lemma enumerate_spec:
  assumes "1 \<le> mx"
  shows "distinct (fst (enumerate mx v)) \<and> length (fst (enumerate mx v)) \<le> mx
    \<and> (\<not> snd (enumerate mx v) \<longrightarrow> set (fst (enumerate mx v)) = denot v)"
proof (induction v)
  case (Value k t ps og sr cr)
  show ?case
  proof (cases k)
    case KindLiteral
    then show ?thesis using assms by simp
  next
    case KindOpaque
    then show ?thesis using assms by simp
  next
    case KindUnion
    obtain seen tr where u: "union_loop mx (map (enumerate mx) ps) [] False = (seen, tr)" by (rule prod.exhaust)
    note us = union_loop_spec [OF u]
    have "\<not> tr \<longrightarrow> set seen = \<Union> (denot ` set ps)" using us Value.IH by auto
    then show ?thesis using us KindUnion u by (simp add: dedupeKeys_def)
  next
    case KindConcat
    obtain out tr where c: "concat_loop mx (map (enumerate mx) ps) [[]] False = (out, tr)" by (rule prod.exhaust)
    note cs = concat_loop_spec [OF c]
    have "fold (\<lambda>r A. seg_prod A (set (fst r))) (map (enumerate mx) qs) B = fold (\<lambda>p A. seg_prod A (denot p)) qs B"
      if "\<forall>q \<in> set qs. set (fst (enumerate mx q)) = denot q" for qs B
      using that by (induction qs arbitrary: B) simp_all
    moreover have "\<forall>q \<in> set ps. set (fst (enumerate mx q)) = denot q" if "\<not> tr" using cs that Value.IH assms by auto
    ultimately have "\<not> tr \<longrightarrow> set out = denot (Value k t ps og sr cr)" using cs KindConcat assms by simp
    then show ?thesis using cs KindConcat c assms by simp
  qed
qed

section \<open>When nothing is dropped\<close>

text \<open>An upper bound on the number of strings: alternatives add up, segments multiply.\<close>

fun width :: "vvalue \<Rightarrow> nat" where
  "width (Value k t ps og sr cr) =
     (case k of
        KindLiteral \<Rightarrow> 1
      | KindOpaque \<Rightarrow> 1
      | KindUnion \<Rightarrow> sum_list (map width ps)
      | KindConcat \<Rightarrow> prod_list (map width ps))"

lemma collect_new_room:
  assumes "length seen + length ss \<le> mx"
  shows "\<not> snd (collect_new mx ss seen) \<and> length (fst (collect_new mx ss seen)) \<le> length seen + length ss"
  using assms
proof (induction mx ss seen rule: collect_new.induct)
  case (2 mx s ss seen)
  show ?case
  proof (cases "s \<in> set seen")
    case True
    then show ?thesis using 2 by auto
  next
    case False
    then show ?thesis using "2.IH"(2) [OF False] "2.prems" by (simp add: not_le)
  qed
qed simp

lemma union_loop_room:
  assumes "length seen + sum_list (map (length \<circ> fst) rs) \<le> mx" "\<not> tr" "\<forall>r \<in> set rs. \<not> snd r"
  shows "\<not> snd (union_loop mx rs seen tr) \<and> length (fst (union_loop mx rs seen tr)) \<le> length seen + sum_list (map (length \<circ> fst) rs)"
  using assms
proof (induction mx rs seen tr rule: union_loop.induct)
  case (2 mx got t rs seen tr)
  obtain seen' full where c: "collect_new mx got seen = (seen', full)" by (rule prod.exhaust)
  have "\<not> full" "length seen' \<le> length seen + length got" using collect_new_room [of seen got mx] "2.prems"(1) c by auto
  moreover from this have "length seen' + sum_list (map (length \<circ> fst) rs) \<le> mx" using "2.prems"(1) by (simp add: o_def)
  ultimately show ?case using "2.IH" [OF c [symmetric]] "2.prems" c by (auto simp: o_def)
qed simp

lemma concat_loop_room:
  assumes "length acc * prod_list (map (length \<circ> fst) rs) \<le> mx" "\<not> tr" "\<forall>r \<in> set rs. \<not> snd r \<and> fst r \<noteq> []"
  shows "\<not> snd (concat_loop mx rs acc tr) \<and> length (fst (concat_loop mx rs acc tr)) \<le> length acc * prod_list (map (length \<circ> fst) rs)"
  using assms
proof (induction mx rs acc tr rule: concat_loop.induct)
  case (2 mx got t rs acc tr)
  let ?ps = "concat (map (\<lambda>p. map (joinSegments p) got) acc)"
  let ?P = "prod_list (map (length \<circ> fst) rs)"
  have lp: "length ?ps = length acc * length got" by (induction acc) simp_all
  have pos: "1 \<le> ?P"
  proof -
    have "\<forall>r \<in> set rs. 1 \<le> length (fst r)" using "2.prems"(3) by (auto simp: Suc_le_eq)
    then show ?thesis by (induction rs) (auto simp: Suc_le_eq)
  qed
  have le: "length ?ps * ?P \<le> mx" using "2.prems"(1) by (simp add: lp mult.assoc o_def)
  have "length ?ps \<le> length ?ps * ?P" using pos by simp
  then have room: "length ?ps \<le> mx" using le by linarith
  obtain acc' full where c: "collect_new mx ?ps [] = (acc', full)" by (rule prod.exhaust)
  have f: "\<not> full" "length acc' \<le> length ?ps" using collect_new_room [of "[]" ?ps mx] room c by auto
  have "length acc' * ?P \<le> length ?ps * ?P" by (rule mult_le_mono1 [OF f(2)])
  moreover have "length ?ps * ?P = length acc * (length got * ?P)" unfolding lp by (rule mult.assoc)
  ultimately have "length acc' * ?P \<le> mx" "length acc' * ?P \<le> length acc * (length got * ?P)" using le by linarith+
  moreover have "\<not> (tr \<or> t)" "\<forall>r \<in> set rs. \<not> snd r \<and> fst r \<noteq> []" using "2.prems" by auto
  ultimately have "\<not> snd (concat_loop mx rs acc' (tr \<or> t))
    \<and> length (fst (concat_loop mx rs acc' (tr \<or> t))) \<le> length acc * (length got * ?P)"
    using "2.IH" [OF c [symmetric] f(1)] by linarith
  then show ?case using c f(1) by (simp add: o_def)
qed simp

fun filled :: "vvalue \<Rightarrow> bool" where
  "filled (Value k t ps og sr cr) = ((k = KindUnion \<longrightarrow> ps \<noteq> []) \<and> list_all filled ps)"

lemma seg_prod_nonempty: "A \<noteq> {} \<Longrightarrow> B \<noteq> {} \<Longrightarrow> seg_prod A B \<noteq> {}"
  by (auto simp: seg_prod_def)

lemma denot_nonempty: "filled v \<Longrightarrow> denot v \<noteq> {}"
proof (induction v)
  case (Value k t ps og sr cr)
  have ih: "\<forall>p \<in> set ps. denot p \<noteq> {}" using Value by (auto simp: list_all_iff)
  have "fold (\<lambda>p A. seg_prod A (denot p)) qs B \<noteq> {}" if "\<forall>p \<in> set qs. denot p \<noteq> {}" "B \<noteq> {}" for qs B
    using that by (induction qs arbitrary: B) (simp_all add: seg_prod_nonempty)
  then show ?case using ih Value.prems by (cases k) (auto simp: neq_Nil_conv)
qed

lemma width_pos: "filled v \<Longrightarrow> 1 \<le> width v"
proof (induction v)
  case (Value k t ps og sr cr)
  have ih: "\<forall>p \<in> set ps. 1 \<le> width p" using Value by (auto simp: list_all_iff)
  have "1 \<le> prod_list (map width qs)" if "\<forall>p \<in> set qs. 1 \<le> width p" for qs
    using that by (induction qs) (auto simp: Suc_le_eq)
  moreover have "1 \<le> sum_list (map width qs)" if "\<forall>p \<in> set qs. 1 \<le> width p" "qs \<noteq> []" for qs
    using that by (cases qs) auto
  ultimately show ?case using ih Value.prems by (cases k) auto
qed

lemma sum_list_le: "\<forall>x \<in> set xs. f x \<le> g x \<Longrightarrow> sum_list (map f xs) \<le> sum_list (map g (xs :: 'a list) :: nat list)"
  by (induction xs) auto

lemma prod_list_le: "\<forall>x \<in> set xs. f x \<le> g x \<Longrightarrow> prod_list (map f xs) \<le> prod_list (map g (xs :: 'a list) :: nat list)"
  by (induction xs) (auto intro: mult_mono)

lemma member_le_prod_list:
  assumes "p \<in> set ps" "\<forall>q \<in> set ps. 1 \<le> f q"
  shows "f p \<le> prod_list (map f ps :: nat list)"
  using assms
proof (induction ps)
  case (Cons q ps)
  have tl: "1 \<le> prod_list (map f ps)" using Cons.prems(2) by (induction ps) (auto simp: Suc_le_eq)
  show ?case
  proof (cases "p = q")
    case True
    then show ?thesis using tl by simp
  next
    case False
    then have "f p \<le> prod_list (map f ps)" using Cons by auto
    also have "\<dots> \<le> f q * prod_list (map f ps)" using Cons.prems(2) by simp
    finally show ?thesis by simp
  qed
qed simp

lemma enumerate_room:
  assumes "1 \<le> mx" "filled v" "width v \<le> mx"
  shows "\<not> snd (enumerate mx v) \<and> length (fst (enumerate mx v)) \<le> width v"
  using assms(2,3)
proof (induction v)
  case (Value k t ps og sr cr)
  have fl: "\<forall>p \<in> set ps. filled p" using Value.prems(1) by (simp add: list_all_iff)
  have wp: "\<forall>p \<in> set ps. 1 \<le> width p" using fl width_pos by blast
  show ?case
  proof (cases k)
    case KindUnion
    have w: "sum_list (map width ps) \<le> mx" using Value.prems(2) KindUnion by simp
    have "width p \<le> mx" if "p \<in> set ps" for p
      using that w member_le_sum_list [of "width p" "map width ps"] by fastforce
    then have ih: "\<forall>p \<in> set ps. \<not> snd (enumerate mx p) \<and> length (fst (enumerate mx p)) \<le> width p" using Value.IH fl by blast
    have le: "sum_list (map (length \<circ> fst) (map (enumerate mx) ps)) \<le> sum_list (map width ps)"
      unfolding map_map by (rule sum_list_le) (use ih in simp)
    have "\<not> snd (union_loop mx (map (enumerate mx) ps) [] False)
      \<and> length (fst (union_loop mx (map (enumerate mx) ps) [] False)) \<le> length ([] :: string list) + sum_list (map (length \<circ> fst) (map (enumerate mx) ps))"
      by (rule union_loop_room) (use le w ih in auto)
    then show ?thesis using le KindUnion by (auto simp: dedupeKeys_def split: prod.splits)
  next
    case KindConcat
    have w: "prod_list (map width ps) \<le> mx" using Value.prems(2) KindConcat by simp
    have "width p \<le> mx" if "p \<in> set ps" for p
      using member_le_prod_list [OF that wp] w by linarith
    then have ih: "\<forall>p \<in> set ps. \<not> snd (enumerate mx p) \<and> length (fst (enumerate mx p)) \<le> width p" using Value.IH fl by blast
    have ne: "fst (enumerate mx p) \<noteq> []" if "p \<in> set ps" for p
      using enumerate_spec [OF assms(1), of p] denot_nonempty [of p] fl ih that by fastforce
    have le: "prod_list (map (length \<circ> fst) (map (enumerate mx) ps)) \<le> prod_list (map width ps)"
      unfolding map_map by (rule prod_list_le) (use ih in simp)
    have "\<not> snd (concat_loop mx (map (enumerate mx) ps) [[]] False)
      \<and> length (fst (concat_loop mx (map (enumerate mx) ps) [[]] False)) \<le> length [[] :: string] * prod_list (map (length \<circ> fst) (map (enumerate mx) ps))"
      by (rule concat_loop_room) (use le w ih ne in auto)
    then show ?thesis using le KindConcat by auto
  qed auto
qed

section \<open>Segments form a monoid\<close>

lemma joinSegments_unit [simp]: "joinSegments [] b = b" "joinSegments a [] = a"
  by (simp_all add: joinSegments_def)

lemma joinSegments_assoc: "joinSegments (joinSegments a b) c = joinSegments a (joinSegments b c)"
proof (cases b)
  case (Cons x xs)
  show ?thesis
  proof (cases xs rule: rev_cases)
    case Nil
    then show ?thesis using Cons by (cases c) (auto simp: joinSegments_def)
  next
    case (snoc ys y)
    then show ?thesis using Cons by (auto simp: joinSegments_def)
  qed
qed simp

lemma seg_prod_assoc: "seg_prod (seg_prod A B) C = seg_prod A (seg_prod B C)"
proof (intro equalityI subsetI)
  fix s
  assume "s \<in> seg_prod (seg_prod A B) C"
  then obtain a b c where s: "s = joinSegments (joinSegments a b) c" "a \<in> A" "b \<in> B" "c \<in> C" by (auto simp: seg_prod_def)
  then have "s = joinSegments a (joinSegments b c)" by (simp add: joinSegments_assoc)
  then show "s \<in> seg_prod A (seg_prod B C)" using s(2-4) unfolding seg_prod_def by blast
next
  fix s
  assume "s \<in> seg_prod A (seg_prod B C)"
  then obtain a b c where s: "s = joinSegments a (joinSegments b c)" "a \<in> A" "b \<in> B" "c \<in> C" by (auto simp: seg_prod_def)
  then have "s = joinSegments (joinSegments a b) c" by (simp add: joinSegments_assoc)
  then show "s \<in> seg_prod (seg_prod A B) C" using s(2-4) unfolding seg_prod_def by blast
qed

lemma seg_prod_unit [simp]: "seg_prod {[]} B = B" "seg_prod A {[]} = A"
  by (auto simp: seg_prod_def)

definition seg_prods :: "vvalue list \<Rightarrow> string set" where
  "seg_prods ps = fold (\<lambda>p A. seg_prod A (denot p)) ps {[]}"

lemma seg_prods_from: "fold (\<lambda>p A. seg_prod A (denot p)) ps B = seg_prod B (seg_prods ps)"
proof (induction ps arbitrary: B)
  case (Cons p ps)
  have "seg_prods (p # ps) = seg_prod (denot p) (seg_prods ps)" using Cons.IH [of "denot p"] by (simp add: seg_prods_def)
  then show ?case using Cons.IH [of "seg_prod B (denot p)"] by (simp add: seg_prod_assoc)
qed (simp add: seg_prods_def)

lemma seg_prods_simps [simp]:
  "seg_prods [] = {[]}" "seg_prods (p # ps) = seg_prod (denot p) (seg_prods ps)"
proof -
  show "seg_prods [] = {[]}" by (simp add: seg_prods_def)
  show "seg_prods (p # ps) = seg_prod (denot p) (seg_prods ps)"
    using seg_prods_from [of ps "denot p"] by (simp add: seg_prods_def)
qed

lemma seg_prods_append [simp]: "seg_prods (ps @ qs) = seg_prod (seg_prods ps) (seg_prods qs)"
  by (induction ps) (simp_all add: seg_prod_assoc)

lemma denot_concat: "v_kind v = KindConcat \<Longrightarrow> denot v = seg_prods (v_parts v)"
  by (cases v) (simp add: seg_prods_def)

section \<open>Concatenation is associative\<close>

abbreviation is_lit :: "vvalue \<Rightarrow> bool" where
  "is_lit v \<equiv> v_kind v = KindLiteral"

text \<open>The parts of a concatenation in normal form: no nested one, no empty and no adjacent literals.\<close>

definition merged :: "vvalue list \<Rightarrow> bool" where
  "merged ps \<longleftrightarrow> (\<forall>p \<in> set ps. v_kind p \<noteq> KindConcat \<and> (is_lit p \<longrightarrow> v_text p \<noteq> []))
     \<and> successively (\<lambda>p q. \<not> (is_lit p \<and> is_lit q)) ps"

definition concat_nf :: "vvalue \<Rightarrow> bool" where
  "concat_nf v \<longleftrightarrow> (v_kind v = KindConcat \<longrightarrow> 2 \<le> length (v_parts v) \<and> merged (v_parts v))"

lemma set_text_sel [simp]:
  "v_kind (set_text t v) = v_kind v" "v_text (set_text t v) = t" "set_text u (set_text t v) = set_text u v"
  by (simp_all add: set_text_def)

lemma merged_snoc: "merged (ps @ [p]) \<longleftrightarrow> merged ps \<and> v_kind p \<noteq> KindConcat \<and> (is_lit p \<longrightarrow> v_text p \<noteq> [])
    \<and> (ps \<noteq> [] \<longrightarrow> \<not> (is_lit (last ps) \<and> is_lit p))"
  by (auto simp: merged_def successively_append_iff)

lemma merge_step_merged:
  assumes "merged ps" "v_kind p \<noteq> KindConcat"
  shows "merged (merge_step p ps)"
proof (cases "is_lit p \<and> v_text p \<noteq> [] \<and> ps \<noteq> [] \<and> is_lit (last ps)")
  case True
  then obtain qs q where q: "ps = qs @ [q]" "is_lit q" by (metis append_butlast_last_id)
  then have "merge_step p ps = qs @ [set_text (v_text q @ v_text p) q]" using True by (simp add: merge_step_def)
  then show ?thesis using assms(1) q by (simp add: merged_snoc)
next
  case False
  then have "merge_step p ps = (if is_lit p \<and> v_text p = [] then ps else ps @ [p])" by (auto simp: merge_step_def)
  then show ?thesis using assms False by (auto simp: merged_snoc)
qed

lemma fold_merge_merged:
  assumes "merged acc" "\<forall>p \<in> set ps. v_kind p \<noteq> KindConcat"
  shows "merged (fold merge_step ps acc)"
  using assms by (induction ps arbitrary: acc) (simp_all add: merge_step_merged)

lemma flatten_nf: "\<forall>p \<in> set ps. concat_nf p \<Longrightarrow> \<forall>p \<in> set (flatten KindConcat ps). v_kind p \<noteq> KindConcat"
  by (auto simp: flatten_def concat_nf_def merged_def)

lemma merge_twice:
  assumes "is_lit l" "v_text l \<noteq> []" "is_lit p" "v_text p \<noteq> []"
  shows "merge_step (set_text (v_text l @ v_text p) l) B = merge_step p (merge_step l B)"
  using assms by (cases B rule: rev_cases) (auto simp: merge_step_def butlast_append)

lemma fold_merge_idem:
  assumes "\<forall>p \<in> set ps. v_kind p \<noteq> KindConcat"
  shows "fold merge_step (fold merge_step ps []) acc = fold merge_step ps acc"
  using assms
proof (induction ps rule: rev_induct)
  case (snoc p ps)
  let ?m = "fold merge_step ps []"
  have ih: "fold merge_step ?m acc = fold merge_step ps acc" using snoc by simp
  have mg: "merged ?m" by (rule fold_merge_merged) (use snoc.prems in \<open>auto simp: merged_def\<close>)
  show ?case
  proof (cases "is_lit p \<and> v_text p \<noteq> [] \<and> ?m \<noteq> [] \<and> is_lit (last ?m)")
    case True
    then obtain m0 l where m: "?m = m0 @ [l]" "is_lit l" by (metis append_butlast_last_id)
    have lne: "v_text l \<noteq> []" using mg m by (simp add: merged_snoc)
    have "merge_step p ?m = m0 @ [set_text (v_text l @ v_text p) l]" using True m by (simp add: merge_step_def)
    then have "fold merge_step (fold merge_step (ps @ [p]) []) acc
      = merge_step (set_text (v_text l @ v_text p) l) (fold merge_step m0 acc)" by simp
    also have "\<dots> = merge_step p (merge_step l (fold merge_step m0 acc))" using merge_twice m(2) lne True by blast
    also have "\<dots> = fold merge_step (ps @ [p]) acc" using ih m(1) by simp
    finally show ?thesis .
  next
    case False
    show ?thesis
    proof (cases "is_lit p \<and> v_text p = []")
      case True
      then have "merge_step p X = X" for X by (simp add: merge_step_def)
      then show ?thesis using ih by simp
    next
      case nonempty: False
      then have "merge_step p ?m = ?m @ [p]" using False by (auto simp: merge_step_def)
      then show ?thesis using ih by simp
    qed
  qed
qed simp

lemma Concat_nf:
  assumes "\<forall>p \<in> set ps. concat_nf p"
  shows "concat_nf (Concat ps)"
proof -
  have m: "merged (fold merge_step (flatten KindConcat ps) [])"
    by (rule fold_merge_merged [OF _ flatten_nf [OF assms]]) (simp add: merged_def)
  show ?thesis
  proof (cases "fold merge_step (flatten KindConcat ps) []")
    case Nil
    then show ?thesis by (simp add: Concat_def concat_nf_def Literal_def mkValue_def)
  next
    case (Cons v vs)
    then show ?thesis using m by (cases vs) (auto simp: Concat_def concat_nf_def mkValue_def merged_def)
  qed
qed

lemma flatten_append [simp]: "flatten k (ps @ qs) = flatten k ps @ flatten k qs"
  by (simp add: flatten_def)

lemma fold_flatten_Concat:
  assumes "\<forall>p \<in> set ps. concat_nf p"
  shows "fold merge_step (flatten KindConcat [Concat ps]) acc = fold merge_step (flatten KindConcat ps) acc"
proof -
  let ?m = "fold merge_step (flatten KindConcat ps) []"
  have m: "merged ?m" by (rule fold_merge_merged [OF _ flatten_nf [OF assms]]) (simp add: merged_def)
  have idem: "fold merge_step ?m acc = fold merge_step (flatten KindConcat ps) acc" by (rule fold_merge_idem [OF flatten_nf [OF assms]])
  show ?thesis
  proof (cases ?m)
    case Nil
    then show ?thesis using idem by (simp add: Concat_def flatten_def Literal_def mkValue_def merge_step_def)
  next
    case (Cons v vs)
    then show ?thesis
      using m idem by (cases vs) (simp_all add: Concat_def flatten_def mkValue_def merged_def)
  qed
qed

lemma Concat_assoc:
  assumes "\<forall>p \<in> set ps. concat_nf p"
  shows "Concat (xs @ [Concat ps] @ ys) = Concat (xs @ ps @ ys)"
proof -
  have "fold merge_step (flatten KindConcat (xs @ [Concat ps] @ ys)) [] = fold merge_step (flatten KindConcat (xs @ ps @ ys)) []"
    using fold_flatten_Concat [OF assms, of "fold merge_step (flatten KindConcat xs) []"]
    unfolding flatten_append fold_append o_def by simp
  then show ?thesis unfolding Concat_def by simp
qed

text \<open>
  Concatenation means the product of the segments, as long as no literal has a wildcard in it:
  merging two literals does not collapse wildcards where they meet.
\<close>

fun plain :: "vvalue \<Rightarrow> bool" where
  "plain (Value k t ps og sr cr) = ((k = KindLiteral \<longrightarrow> CHR ''*'' \<notin> set t) \<and> list_all plain ps)"

lemma plain_lit: "plain v \<Longrightarrow> is_lit v \<Longrightarrow> CHR ''*'' \<notin> set (v_text v)"
  by (cases v) simp

lemma plain_parts: "plain v \<Longrightarrow> p \<in> set (v_parts v) \<Longrightarrow> plain p"
  by (cases v) (simp add: list_all_iff)

lemma plain_set_text: "plain v \<Longrightarrow> CHR ''*'' \<notin> set t \<Longrightarrow> plain (set_text t v)"
  by (cases v) (simp add: set_text_def)

lemma denot_lit: "is_lit v \<Longrightarrow> denot v = {v_text v}"
  by (cases v) simp

lemma join_plain: "CHR ''*'' \<notin> set a \<Longrightarrow> joinSegments a b = a @ b"
  by (auto simp: joinSegments_def dest: last_in_set)

lemma merge_step_denot:
  assumes "\<forall>q \<in> set ps. plain q" "plain p"
  shows "seg_prods (merge_step p ps) = seg_prod (seg_prods ps) (denot p) \<and> (\<forall>q \<in> set (merge_step p ps). plain q)"
proof (cases "is_lit p \<and> v_text p \<noteq> [] \<and> ps \<noteq> [] \<and> is_lit (last ps)")
  case True
  then obtain qs q where q: "ps = qs @ [q]" "is_lit q" by (metis append_butlast_last_id)
  then have eq: "merge_step p ps = qs @ [set_text (v_text q @ v_text p) q]" using True by (simp add: merge_step_def)
  have st: "CHR ''*'' \<notin> set (v_text q)" "CHR ''*'' \<notin> set (v_text p)" using assms plain_lit q True by auto
  have "seg_prod (denot q) (denot p) = {v_text q @ v_text p}"
    using st True q by (simp add: denot_lit seg_prod_def join_plain)
  moreover have "denot (set_text (v_text q @ v_text p) q) = {v_text q @ v_text p}" using q by (simp add: denot_lit)
  ultimately show ?thesis using assms plain_set_text st q eq by (auto simp: seg_prod_assoc)
next
  case False
  then have "merge_step p ps = (if is_lit p \<and> v_text p = [] then ps else ps @ [p])" by (auto simp: merge_step_def)
  then show ?thesis using assms by (auto simp: denot_lit)
qed

lemma fold_merge_denot:
  assumes "\<forall>q \<in> set acc. plain q" "\<forall>p \<in> set ps. plain p"
  shows "seg_prods (fold merge_step ps acc) = seg_prod (seg_prods acc) (seg_prods ps)"
  using assms
proof (induction ps arbitrary: acc)
  case (Cons p ps)
  have m: "seg_prods (merge_step p acc) = seg_prod (seg_prods acc) (denot p)" "\<forall>q \<in> set (merge_step p acc). plain q"
    using merge_step_denot [OF Cons.prems(1), of p] Cons.prems(2) by auto
  show ?case using Cons.IH [OF m(2)] m(1) Cons.prems(2) by (simp add: seg_prod_assoc)
qed simp

lemma flatten_denot: "seg_prods (flatten KindConcat ps) = seg_prods ps"
  by (induction ps) (auto simp: flatten_def denot_concat)

lemma Concat_denot:
  assumes "\<forall>p \<in> set ps. plain p"
  shows "denot (Concat ps) = seg_prods ps"
proof -
  have "\<forall>p \<in> set (flatten KindConcat ps). plain p" using assms plain_parts by (auto simp: flatten_def split: if_splits)
  then have m: "seg_prods (fold merge_step (flatten KindConcat ps) []) = seg_prods ps"
    using fold_merge_denot [of "[]" "flatten KindConcat ps"] flatten_denot by simp
  show ?thesis
  proof (cases "fold merge_step (flatten KindConcat ps) []")
    case Nil
    then show ?thesis using m by (simp add: Concat_def Literal_def mkValue_def)
  next
    case (Cons v vs)
    then show ?thesis using m by (cases vs) (simp_all add: Concat_def mkValue_def seg_prods_from seg_prod_assoc)
  qed
qed

section \<open>Unions do not depend on the order\<close>

lemma set_crossings_sel [simp]: "vString (set_crossings cs v) = vString v" "denot (set_crossings cs v) = denot v"
  "v_kind (set_crossings cs v) = v_kind v"
  by (cases v; cases "v_kind v"; simp add: set_crossings_def)+

lemma dedup_step_keys:
  assumes "distinct (map vString out)"
  shows "distinct (map vString (dedup_step p out)) \<and> vString ` set (dedup_step p out) = insert (vString p) (vString ` set out)"
proof (cases "vString p \<in> vString ` set out")
  case True
  have "map vString (dedup_step p out) = map vString out" using True by (simp add: dedup_step_def)
  moreover from this have "vString ` set (dedup_step p out) = vString ` set out" by (metis list.set_map)
  ultimately show ?thesis using assms True by auto
next
  case False
  then show ?thesis using assms by (auto simp: dedup_step_def)
qed

lemma dedup_keys:
  assumes "distinct (map vString out)"
  shows "distinct (map vString (fold dedup_step ps out)) \<and> vString ` set (fold dedup_step ps out) = vString ` (set out \<union> set ps)"
  using assms
proof (induction ps arbitrary: out)
  case (Cons p ps)
  note st = dedup_step_keys [OF Cons.prems, of p]
  show ?case using Cons.IH [OF conjunct1 [OF st]] st by (auto simp: image_Un)
qed simp

definition union_nf :: "vvalue \<Rightarrow> bool" where
  "union_nf v \<longleftrightarrow> (v_kind v = KindUnion \<longrightarrow> (\<forall>p \<in> set (v_parts v). v_kind p \<noteq> KindUnion))"

lemma dedup_no_union:
  assumes "\<forall>p \<in> set (out @ ps). v_kind p \<noteq> KindUnion"
  shows "\<forall>p \<in> set (fold dedup_step ps out). v_kind p \<noteq> KindUnion"
  using assms
proof (induction ps arbitrary: out)
  case (Cons p ps)
  show ?case unfolding fold_simps by (rule Cons.IH) (use Cons.prems in \<open>auto simp: dedup_step_def\<close>)
qed simp

lemma flatten_union_nf: "\<forall>p \<in> set ps. union_nf p \<Longrightarrow> \<forall>p \<in> set (flatten KindUnion ps). v_kind p \<noteq> KindUnion"
  by (auto simp: flatten_def union_nf_def)

lemma Union_alternatives:
  assumes "\<forall>p \<in> set ps. union_nf p" "flatten KindUnion ps \<noteq> []"
  shows "map vString (Alternatives (Union ps)) = sorted_list_of_set (vString ` set (flatten KindUnion ps))"
proof -
  let ?out = "sort_key vString (fold dedup_step (flatten KindUnion ps) [])"
  note k = dedup_keys [of "[]" "flatten KindUnion ps", simplified]
  have "distinct (map vString ?out)" using k by (metis distinct_map distinct_sort inj_on_def set_sort)
  moreover have "sorted (map vString ?out)" by simp
  moreover have "set (map vString ?out) = vString ` set (flatten KindUnion ps)" using k by simp
  ultimately have eq: "map vString ?out = sorted_list_of_set (vString ` set (flatten KindUnion ps))"
    by (metis sorted_list_of_set.idem_if_sorted_distinct)
  have ne: "?out \<noteq> []" using k assms(2) by (metis image_is_empty set_empty set_sort)
  have nu: "\<forall>p \<in> set ?out. v_kind p \<noteq> KindUnion"
    using dedup_no_union [of "[]" "flatten KindUnion ps"] flatten_union_nf [OF assms(1)] by simp
  have "Alternatives (Union ps) = ?out"
  proof (cases ?out)
    case (Cons v vs)
    then show ?thesis using nu by (cases vs) (auto simp: Union_def Alternatives_def mkValue_def)
  qed (use ne in simp)
  then show ?thesis using eq by simp
qed

text \<open>Deduplication by rendering keeps the meaning when equal renderings mean the same.\<close>

definition faithful :: "vvalue list \<Rightarrow> bool" where
  "faithful ps \<longleftrightarrow> (\<forall>p \<in> set ps. \<forall>q \<in> set ps. vString p = vString q \<longrightarrow> denot p = denot q)"

lemma dedup_step_denot:
  "\<forall>q \<in> set (dedup_step p out). \<exists>r \<in> set (out @ [p]). vString q = vString r \<and> denot q = denot r"
proof (cases "vString p \<in> vString ` set out")
  case True
  show ?thesis
  proof
    fix q
    assume "q \<in> set (dedup_step p out)"
    then obtain r where "r \<in> set out" "q = r \<or> q = set_crossings (mergeCrossings (v_crossings r) (v_crossings p)) r"
      using True by (auto simp: dedup_step_def split: if_splits)
    then show "\<exists>r \<in> set (out @ [p]). vString q = vString r \<and> denot q = denot r" by auto
  qed
qed (auto simp: dedup_step_def)

lemma dedup_denot:
  "\<forall>q \<in> set (fold dedup_step ps out). \<exists>r \<in> set (out @ ps). vString q = vString r \<and> denot q = denot r"
proof (induction ps arbitrary: out)
  case (Cons p ps)
  show ?case
  proof
    fix q
    assume "q \<in> set (fold dedup_step (p # ps) out)"
    then obtain r where r: "r \<in> set (dedup_step p out @ ps)" "vString q = vString r" "denot q = denot r"
      using Cons.IH [of "dedup_step p out"] unfolding fold_simps by blast
    then show "\<exists>r \<in> set (out @ p # ps). vString q = vString r \<and> denot q = denot r"
      using dedup_step_denot [of p out] by fastforce
  qed
qed auto

lemma Union_denot:
  assumes "\<forall>p \<in> set ps. union_nf p" "flatten KindUnion ps \<noteq> []" "faithful (flatten KindUnion ps)"
  shows "denot (Union ps) = \<Union> (denot ` set ps)"
proof -
  let ?f = "flatten KindUnion ps" and ?d = "fold dedup_step (flatten KindUnion ps) []"
  note k = dedup_keys [of "[]" ?f, simplified]
  have rep: "\<exists>r \<in> set ?f. vString q = vString r \<and> denot q = denot r" if "q \<in> set ?d" for q
    using dedup_denot [of ?f "[]"] that by auto
  have "denot p \<subseteq> \<Union> (denot ` set ?d)" if p: "p \<in> set ?f" for p
  proof -
    have "vString p \<in> vString ` set ?d" using k p by simp
    then obtain q where q: "q \<in> set ?d" "vString q = vString p" by auto
    from rep [OF q(1)] obtain r where r: "r \<in> set ?f" "vString q = vString r" "denot q = denot r" by blast
    have "vString r = vString p" using r(2) q(2) by simp
    then have "denot r = denot p" using assms(3) r(1) p unfolding faithful_def by blast
    then show ?thesis using q(1) r(3) by auto
  qed
  moreover have "denot q \<subseteq> \<Union> (denot ` set ?f)" if "q \<in> set ?d" for q using rep [OF that] by auto
  ultimately have eq: "\<Union> (denot ` set ?d) = \<Union> (denot ` set ?f)" by blast
  have fl: "\<Union> (denot ` set ?f) = \<Union> (denot ` set ps)"
  proof -
    have "\<Union> (denot ` set (flatten KindUnion [p])) = denot p" for p by (cases p) (auto simp: flatten_def)
    moreover have "\<Union> (denot ` set (flatten KindUnion (p # qs))) = \<Union> (denot ` set (flatten KindUnion [p])) \<union> \<Union> (denot ` set (flatten KindUnion qs))" for p qs
      by (auto simp: flatten_def)
    ultimately show ?thesis by (induction ps) (auto simp: flatten_def)
  qed
  have ne: "sort_key vString ?d \<noteq> []" using k assms(2) by (metis image_is_empty set_empty set_sort)
  have "denot (Union ps) = \<Union> (denot ` set (sort_key vString ?d))"
  proof (cases "sort_key vString ?d")
    case (Cons v vs)
    then show ?thesis by (cases vs) (simp_all add: Union_def mkValue_def)
  qed (use ne in simp)
  then show ?thesis using eq fl by simp
qed

section \<open>Provenance is kept\<close>

lemma mergeCrossings_set: "set (mergeCrossings a b) = set a \<union> set b"
proof -
  have "set (fold (\<lambda>og out. if og \<in> set out then out else out @ [og]) xs out) = set out \<union> set xs" for xs out :: "origin list"
    by (induction xs arbitrary: out) auto
  then show ?thesis by (simp add: mergeCrossings_def)
qed

lemma v_crossings_set [simp]: "v_crossings (set_crossings cs v) = cs"
  by (simp add: set_crossings_def)

lemma dedup_step_crossings:
  assumes "q \<in> set (out @ [p])" "c \<in> set (v_crossings q)"
  shows "\<exists>a \<in> set (dedup_step p out). vString a = vString q \<and> c \<in> set (v_crossings a)"
proof (cases "vString p \<in> vString ` set out")
  case False
  then show ?thesis using assms by (auto simp: dedup_step_def)
next
  case True
  define h where "h = (\<lambda>q. if vString q = vString p then set_crossings (mergeCrossings (v_crossings q) (v_crossings p)) q else q)"
  have h: "set (dedup_step p out) = h ` set out" using True by (simp add: dedup_step_def h_def)
  obtain m where m: "m \<in> set out" "vString m = vString p" using True by auto
  have key: "vString (h x) = vString x" "set (v_crossings x) \<subseteq> set (v_crossings (h x))" for x
    by (auto simp: h_def mergeCrossings_set)
  show ?thesis
  proof (cases "q \<in> set out")
    case True
    then show ?thesis using h key [of q] assms(2) by blast
  next
    case False
    then have "q = p" using assms(1) by simp
    then have "c \<in> set (v_crossings (h m))" using m(2) assms(2) by (simp add: h_def mergeCrossings_set)
    then show ?thesis using m h key(1) [of m] \<open>q = p\<close> by fastforce
  qed
qed

lemma dedup_crossings:
  assumes "q \<in> set (out @ ps)" "c \<in> set (v_crossings q)"
  shows "\<exists>a \<in> set (fold dedup_step ps out). vString a = vString q \<and> c \<in> set (v_crossings a)"
  using assms
proof (induction ps arbitrary: out q)
  case (Cons p ps)
  show ?case
  proof (cases "q \<in> set (out @ [p])")
    case True
    from dedup_step_crossings [OF True Cons.prems(2)] obtain a where a: "a \<in> set (dedup_step p out)"
      "vString a = vString q" "c \<in> set (v_crossings a)" by blast
    then show ?thesis using Cons.IH [of a "dedup_step p out"] by auto
  next
    case False
    then show ?thesis using Cons.IH [of q "dedup_step p out"] Cons.prems by auto
  qed
qed auto

lemma Union_crossings:
  assumes "\<forall>p \<in> set ps. union_nf p" "q \<in> set (flatten KindUnion ps)" "c \<in> set (v_crossings q)"
  shows "\<exists>a \<in> set (Alternatives (Union ps)). vString a = vString q \<and> c \<in> set (v_crossings a)"
proof -
  let ?out = "sort_key vString (fold dedup_step (flatten KindUnion ps) [])"
  obtain a where a: "a \<in> set ?out" "vString a = vString q" "c \<in> set (v_crossings a)"
    using dedup_crossings [of q "[]" "flatten KindUnion ps" c] assms(2,3) by auto
  have nu: "\<forall>p \<in> set ?out. v_kind p \<noteq> KindUnion"
    using dedup_no_union [of "[]" "flatten KindUnion ps"] flatten_union_nf [OF assms(1)] by simp
  have "Alternatives (Union ps) = ?out"
  proof (cases ?out)
    case (Cons v vs)
    then show ?thesis using nu by (cases vs) (auto simp: Union_def Alternatives_def mkValue_def)
  qed (use a in simp)
  then show ?thesis using a by auto
qed

lemma withSrc_same: "vString (withSrc v c) = vString v" "denot (withSrc v c) = denot v"
proof -
  show "vString (withSrc v c) = vString v"
  proof (induction v)
    case (Value k t ps og sr cr)
    have eq: "map (\<lambda>x. vString (withSrc x c)) ps = map vString ps" by (rule map_cong [OF refl Value.IH])
    show ?case by (cases k) (simp_all add: o_def eq del: map_eq_conv)
  qed
  show "denot (withSrc v c) = denot v"
  proof (induction v)
    case (Value k t ps og sr cr)
    then show ?case by (cases k) simp_all
  qed
qed

lemma withSrc_crossed:
  assumes "union_nf v" "a \<in> set (Alternatives (withSrc v c))"
  shows "c \<in> set (v_crossings a) \<and> CrossedVia a (og_reason c) \<noteq> None"
proof -
  have leaf: "c \<in> set (v_crossings (withSrc p c))" if "v_kind p \<noteq> KindUnion" for p using that by (cases p) simp
  have "c \<in> set (v_crossings a)"
  proof (cases v)
    case (Value k t ps og sr cr)
    show ?thesis
    proof (cases "k = KindUnion")
      case True
      then show ?thesis using assms Value leaf by (auto simp: Alternatives_def union_nf_def)
    next
      case False
      then show ?thesis using assms(2) Value by (auto simp: Alternatives_def)
    qed
  qed
  moreover from this have "CrossedVia a (og_reason c) \<noteq> None" by (auto simp: CrossedVia_def find_None_iff)
  ultimately show ?thesis by blast
qed

lemma dynamic_origins: "IsDynamic v \<longleftrightarrow> Origins v \<noteq> []"
  by (induction v) (auto simp: list_ex_iff)


section \<open>Properties\<close>

text \<open>
  C40: The enumeration of a value is sorted, free of duplicates and never longer than the cap (32
  when none is given); when it reports success nothing was dropped, and it is exactly the set of
  strings the value denotes; and it always succeeds on a value with concrete text whose alternatives
  multiply out to at most the cap.
\<close>

theorem Strings_exact:
  assumes "Strings v mx = (out, ok)"
  defines "cap \<equiv> (if mx \<le> 0 then 32 else nat mx)"
  shows "sorted out \<and> distinct out \<and> length out \<le> cap \<and> (ok \<longrightarrow> set out = denot v)
    \<and> (filled v \<and> width v \<le> cap \<and> hasLiteral v \<longrightarrow> ok)"
proof -
  have c: "1 \<le> cap" by (cases "mx \<le> 0") (simp_all add: cap_def Suc_le_eq)
  obtain got tr where g: "enumerate cap v = (got, tr)" by (rule prod.exhaust)
  have "(if mx \<le> 0 then DefaultMaxStrings else nat mx) = cap" by (simp add: cap_def DefaultMaxStrings_def)
  then have "out = sort got" "ok = (\<not> tr \<and> hasLiteral v)" using assms(1) g by (simp_all add: Strings_def)
  then show ?thesis using enumerate_spec [OF c, of v] enumerate_room [OF c, of v] g by auto
qed

theorem Strings_exact_witness:
  "Strings (Union [Literal ''b'', Literal ''a'']) 0 = ([''a'', ''b''], True) \<and> denot (Union [Literal ''b'', Literal ''a'']) = {''a'', ''b''}"
proof -
  have run: "Strings (Union [Literal ''b'', Literal ''a'']) 0 = ([''a'', ''b''], True)" by code_simp
  from Strings_exact [OF run] have "set [''a'', ''b''] = denot (Union [Literal ''b'', Literal ''a''])" by blast
  then show ?thesis using run by auto
qed

text \<open>
  How an expression associates its concatenations does not matter: replacing parts by their
  own concatenation gives the same value, metadata included, and the result is in normal form (no
  nested concatenation, no empty literal, no two literals in a row).
\<close>

theorem Concat_associative:
  assumes "\<forall>p \<in> set ps. concat_nf p"
  shows "Concat (xs @ [Concat ps] @ ys) = Concat (xs @ ps @ ys) \<and> concat_nf (Concat ps)"
  using Concat_assoc [OF assms] Concat_nf [OF assms] by blast

theorem Concat_associative_witness:
  "Concat [Literal ''a'', Concat [Literal ''b'', Literal ''c'']] = Concat [Literal ''a'', Literal ''b'', Literal ''c'']"
  using Concat_associative [of "[Literal ''b'', Literal ''c'']" "[Literal ''a'']" "[]"]
  by (simp add: concat_nf_def Literal_def mkValue_def)

text \<open>
  Concatenation denotes the products of the parts' strings, with runs of wildcards collapsed,
  when no literal contains the wildcard character.
\<close>

theorem Concat_meaning:
  assumes "\<forall>p \<in> set ps. plain p"
  shows "denot (Concat ps) = seg_prods ps"
  by (rule Concat_denot [OF assms])

theorem Concat_meaning_witness: "denot (Concat [Literal ''a'', Opaque zeroOrigin, Opaque zeroOrigin]) = {''a*''}"
  using Concat_meaning [of "[Literal ''a'', Opaque zeroOrigin, Opaque zeroOrigin]"]
  by (simp add: Literal_def Opaque_def mkValue_def seg_prod_def joinSegments_def wildcard_def)

text \<open>
  A union does not depend on the order in which its alternatives are found: their renderings
  are the sorted set of the renderings of the flattened parts; and when equal renderings mean the
  same, the union denotes exactly the strings of its parts.
\<close>

theorem Union_order_independent:
  assumes "\<forall>p \<in> set ps. union_nf p" and "flatten KindUnion ps \<noteq> []"
  shows "map vString (Alternatives (Union ps)) = sorted_list_of_set (vString ` set (flatten KindUnion ps))
    \<and> (faithful (flatten KindUnion ps) \<longrightarrow> denot (Union ps) = \<Union> (denot ` set ps))"
  using Union_alternatives [OF assms] Union_denot [OF assms] by blast

theorem Union_order_independent_witness:
  "map vString (Alternatives (Union [Literal ''b'', Literal ''a''])) = map vString (Alternatives (Union [Literal ''a'', Literal ''b'']))"
  using Union_order_independent [of "[Literal ''b'', Literal ''a'']"] Union_order_independent [of "[Literal ''a'', Literal ''b'']"]
  by (simp add: union_nf_def Literal_def mkValue_def flatten_def insert_commute)

text \<open>
  No crossing is lost when alternatives are joined: stamping a crossing on a value changes
  neither its rendering nor its strings and marks every alternative, and a union keeps, for every
  part and every crossing of it, an alternative with the same rendering that carries the crossing.
\<close>

theorem crossings_survive_union:
  assumes "union_nf v" and "\<forall>p \<in> set ps. union_nf p"
  shows "vString (withSrc v c) = vString v \<and> denot (withSrc v c) = denot v
    \<and> (\<forall>a \<in> set (Alternatives (withSrc v c)). CrossedVia a (og_reason c) \<noteq> None)
    \<and> (\<forall>q \<in> set (flatten KindUnion ps). \<forall>d \<in> set (v_crossings q).
          \<exists>a \<in> set (Alternatives (Union ps)). vString a = vString q \<and> d \<in> set (v_crossings a))"
  using withSrc_same withSrc_crossed [OF assms(1)] Union_crossings [OF assms(2)] by blast

theorem crossings_survive_union_witness:
  "\<exists>a \<in> set (Alternatives (Union [Literal ''a'', withSrc (Literal ''a'') (zeroOrigin\<lparr>og_reason := ''x''\<rparr>)])).
     vString a = ''a'' \<and> zeroOrigin\<lparr>og_reason := ''x''\<rparr> \<in> set (v_crossings a)"
  using crossings_survive_union [of "Literal ''a''" "[Literal ''a'', withSrc (Literal ''a'') (zeroOrigin\<lparr>og_reason := ''x''\<rparr>)]" zeroOrigin]
  by (simp add: union_nf_def Literal_def mkValue_def flatten_def)

text \<open>
  Whether a value is dynamic and which origins it names agree: there is an opaque part exactly
  when there is an origin to report.
\<close>

theorem dynamic_has_origin: "IsDynamic v \<longleftrightarrow> Origins v \<noteq> []"
  by (rule dynamic_origins)

text \<open>
  Two limits of the representation. A literal that looks like the rendering of a stopped value
  absorbs it in a union; and flattening a concatenation drops the crossings stamped on it.
\<close>

lemma union_confuses_renderings:
  "Union [Literal ''<param:x>'', Opaque (zeroOrigin\<lparr>og_reason := ''param'', og_text := ''x''\<rparr>)] = Literal ''<param:x>''"
  by (simp add: Union_def flatten_def Literal_def Opaque_def mkValue_def dedup_step_def set_crossings_def mergeCrossings_def zeroOrigin_def)

lemma concat_drops_crossings:
  "v_crossings (Concat [withSrc (Concat [Literal ''a'', Opaque zeroOrigin]) (zeroOrigin\<lparr>og_reason := ''x''\<rparr>), Literal ''b'']) = []
   \<and> list_all (\<lambda>p. v_crossings p = []) (v_parts (Concat [withSrc (Concat [Literal ''a'', Opaque zeroOrigin]) (zeroOrigin\<lparr>og_reason := ''x''\<rparr>), Literal ''b'']))"
  by (simp add: Concat_def flatten_def Literal_def Opaque_def mkValue_def merge_step_def)

end
