(* ===== verification/Jobs.thy ===== *)
theory Jobs
  imports Prelude
begin

text \<open>
  The background-job engine (\<open>internal/jobs/manager.go\<close>) over the jobs table of the operations
  database (\<open>internal/ops/store.go\<close>).

  Every section that the code runs under \<open>m.mu\<close> is one function on the manager's state, and what
  happens between such sections (the goroutine of a job, its database writes) is a step relation
  over these functions. The work of a job itself (indexing, evaluation, reconciliation) is any
  sequence of log lines and progress reports followed by any result or error.

  Time is in milliseconds; a log line is UTF-8 text, on which the JSON encoding of the table is
  lossless. Job ids come from \<open>newJobID\<close>, a clock and random bytes: the step relation takes a
  fresh one.
\<close>

section \<open>The jobs table\<close>

record profileStats =
  pf_alloc :: int
  pf_totalAlloc :: int
  pf_heapObjects :: int
  pf_gc :: int
  pf_hasCPU :: bool

definition zeroProfile :: profileStats where
  "zeroProfile = \<lparr>pf_alloc = 0, pf_totalAlloc = 0, pf_heapObjects = 0, pf_gc = 0, pf_hasCPU = False\<rparr>"

record job =
  jb_id :: string
  jb_kind :: string
  jb_args :: string
  jb_state :: string
  jb_startedAt :: string
  jb_endedAt :: string
  jb_done :: int
  jb_total :: int
  jb_error :: string
  jb_result :: string
  jb_logTail :: "string list"
  jb_profile :: profileStats
  jb_cpu :: "nat list"

definition UpsertJob :: "job \<Rightarrow> job list \<Rightarrow> job list" where
  "UpsertJob j rows =
     (if list_ex (\<lambda>r. jb_id r = jb_id j) rows
      then map (\<lambda>r. if jb_id r = jb_id j then j\<lparr>jb_cpu := (if jb_cpu j \<noteq> [] then jb_cpu j else jb_cpu r)\<rparr> else r) rows
      else rows @ [j])"

text \<open>What a row is read back as: the CPU profile stays in the table, only its presence is told.\<close>

definition scanJob :: "job \<Rightarrow> job" where
  "scanJob r = r\<lparr>jb_profile := (jb_profile r)\<lparr>pf_hasCPU := jb_cpu r \<noteq> []\<rparr>, jb_cpu := []\<rparr>"

definition GetJob :: "string \<Rightarrow> job list \<Rightarrow> job option" where
  "GetJob i rows = map_option scanJob (List.find (\<lambda>r. jb_id r = i) rows)"

definition GetJobProfile :: "string \<Rightarrow> job list \<Rightarrow> nat list option" where
  "GetJobProfile i rows =
     (case List.find (\<lambda>r. jb_id r = i) rows of
        None \<Rightarrow> None
      | Some r \<Rightarrow> if jb_cpu r = [] then None else Some (jb_cpu r))"

definition ListJobs :: "int \<Rightarrow> job list \<Rightarrow> job list" where
  "ListJobs limit rows =
     (let n = (if limit \<le> 0 then 50 else if limit > 1000 then 1000 else nat limit) in
      map scanJob (take n (rev (sort_key (\<lambda>r. [jb_startedAt r, jb_id r]) rows))))"

section \<open>The manager\<close>

datatype jkind = KindIndex | KindEval | KindReconcile | KindInit

fun kind_name :: "jkind \<Rightarrow> string" where
  "kind_name KindIndex = ''index''"
| "kind_name KindEval = ''eval''"
| "kind_name KindReconcile = ''reconcile''"
| "kind_name KindInit = ''init''"

definition Kinds :: "jkind list" where
  "Kinds = [KindIndex, KindEval, KindReconcile, KindInit]"

definition validKind :: "string \<Rightarrow> jkind option" where
  "validKind s = List.find (\<lambda>k. kind_name k = s) Kinds"

definition logRingCap :: nat where
  "logRingCap = 200"

definition logTailReturn :: nat where
  "logTailReturn = 50"

definition progressThrottle :: int where
  "progressThrottle = 100"

record runState =
  rs_job :: job
  rs_canceled :: bool
  rs_log :: "string list"
  rs_lastPersist :: "int option"

record manager =
  mg_ops :: "job list option"
  mg_running :: "jkind \<Rightarrow> runState option"
  mg_profiling :: bool
  mg_sent :: "(string \<times> job) list"

datatype job_error = ErrUnknownKind string | ErrNoOps | ErrInvalidArgs | ErrEvalDirMissing string
  | ErrConflict job | ErrJobNotFound | ErrStale string

definition NewManager :: "job list option \<Rightarrow> manager" where
  "NewManager ops = \<lparr>mg_ops = ops, mg_running = (\<lambda>_. None), mg_profiling = False, mg_sent = []\<rparr>"

text \<open>The running kinds in the order of their names, which decides the conflict that is reported.\<close>

definition running_kinds :: "manager \<Rightarrow> jkind list" where
  "running_kinds m = filter (\<lambda>k. mg_running m k \<noteq> None) [KindEval, KindIndex, KindInit, KindReconcile]"

definition conflictLocked :: "manager \<Rightarrow> jkind \<Rightarrow> job option" where
  "conflictLocked m k =
     (case mg_running m KindIndex of
        Some rs \<Rightarrow> Some (rs_job rs)
      | None \<Rightarrow>
          (case (if k = KindIndex then running_kinds m else []) of
             rk # _ \<Rightarrow> map_option rs_job (mg_running m rk)
           | [] \<Rightarrow> map_option rs_job (mg_running m k)))"

definition normalizeArgs :: "string \<Rightarrow> string" where
  "normalizeArgs raw = (if raw = [] then ''{}'' else raw)"

text \<open>
  \<open>Start\<close> up to the end of its locked section. \<open>corpus\<close> decodes the corpus path of the arguments
  (\<open>None\<close> when they are not valid JSON) and \<open>exists\<close> asks the file system.
\<close>

definition new_run :: "jkind \<Rightarrow> string \<Rightarrow> string \<Rightarrow> string \<Rightarrow> runState" where
  "new_run k args i started =
     \<lparr>rs_job = \<lparr>jb_id = i, jb_kind = kind_name k, jb_args = normalizeArgs args, jb_state = ''running'',
        jb_startedAt = started, jb_endedAt = [], jb_done = 0, jb_total = 0, jb_error = [], jb_result = [],
        jb_logTail = [], jb_profile = zeroProfile, jb_cpu = []\<rparr>,
      rs_canceled = False, rs_log = [], rs_lastPersist = None\<rparr>"

definition preflight :: "(string \<Rightarrow> string option) \<Rightarrow> (string \<Rightarrow> bool) \<Rightarrow> jkind \<Rightarrow> string \<Rightarrow> job_error + unit" where
  "preflight corpus exists k args =
     (if k \<noteq> KindEval then Inr ()
      else bindE (if args = [] then Inr [] else (case corpus args of None \<Rightarrow> Inl ErrInvalidArgs | Some c \<Rightarrow> Inr c)) (\<lambda>c.
        let path = (if c = [] then ''eval/corpus'' else c) in
        if exists path then Inr () else Inl (ErrEvalDirMissing path)))"

definition Start :: "(string \<Rightarrow> string option) \<Rightarrow> (string \<Rightarrow> bool) \<Rightarrow> string \<Rightarrow> string \<Rightarrow> string \<Rightarrow> string \<Rightarrow> manager
    \<Rightarrow> job_error + job \<times> manager" where
  "Start corpus exists kind args i started m =
     (case validKind kind of
        None \<Rightarrow> Inl (ErrUnknownKind kind)
      | Some k \<Rightarrow>
          if mg_ops m = None then Inl ErrNoOps
          else bindE (preflight corpus exists k args) (\<lambda>_.
            case conflictLocked m k of
              Some j \<Rightarrow> Inl (ErrConflict j)
            | None \<Rightarrow>
                let rs = new_run k args i started in
                Inr (rs_job rs, m\<lparr>mg_running := (mg_running m)(k \<mapsto> rs)\<rparr>)))"

definition lastN :: "string list \<Rightarrow> nat \<Rightarrow> string list" where
  "lastN lines n = (if length lines \<le> n then lines else drop (length lines - n) lines)"

definition snapshotLocked :: "runState \<Rightarrow> job" where
  "snapshotLocked rs = (rs_job rs)\<lparr>jb_logTail := lastN (rs_log rs) logTailReturn\<rparr>"

definition appendLog :: "string \<Rightarrow> runState \<Rightarrow> runState" where
  "appendLog line rs =
     (if line = [] then rs
      else let l = rs_log rs @ [line] in
        rs\<lparr>rs_log := (if length l > logRingCap then drop (length l - logRingCap) l else l)\<rparr>)"

text \<open>The live run of an id: the loops of \<open>Get\<close> and \<open>Cancel\<close> over the running map.\<close>

definition live_kind :: "string \<Rightarrow> manager \<Rightarrow> jkind option" where
  "live_kind i m =
     List.find (\<lambda>k. case mg_running m k of Some rs \<Rightarrow> jb_id (rs_job rs) = i | None \<Rightarrow> False) Kinds"

definition Get :: "string \<Rightarrow> manager \<Rightarrow> job_error + job" where
  "Get i m =
     (case (case live_kind i m of None \<Rightarrow> None | Some k \<Rightarrow> mg_running m k) of
        Some rs \<Rightarrow> Inr (snapshotLocked rs)
      | None \<Rightarrow>
          (case mg_ops m of
             None \<Rightarrow> Inl ErrJobNotFound
           | Some rows \<Rightarrow> (case GetJob i rows of None \<Rightarrow> Inl ErrJobNotFound | Some j \<Rightarrow> Inr j)))"

definition List_jobs :: "int \<Rightarrow> manager \<Rightarrow> job_error + job list" where
  "List_jobs limit m =
     (case mg_ops m of
        None \<Rightarrow> Inl ErrNoOps
      | Some rows \<Rightarrow>
          Inr (map (\<lambda>j. case live_kind (jb_id j) m of
                           None \<Rightarrow> j
                         | Some k \<Rightarrow> (case mg_running m k of Some rs \<Rightarrow> snapshotLocked rs | None \<Rightarrow> j))
                 (ListJobs limit rows)))"

definition Cancel :: "string \<Rightarrow> manager \<Rightarrow> (job_error + job) \<times> manager" where
  "Cancel i m =
     (case live_kind i m of
        Some k \<Rightarrow>
          (case mg_running m k of
             Some rs \<Rightarrow> (Inr (snapshotLocked rs), m\<lparr>mg_running := (mg_running m)(k \<mapsto> rs\<lparr>rs_canceled := True\<rparr>)\<rparr>)
           | None \<Rightarrow> (Inl ErrJobNotFound, m))
      | None \<Rightarrow>
          (case mg_ops m of
             None \<Rightarrow> (Inl ErrJobNotFound, m)
           | Some rows \<Rightarrow>
               (case GetJob i rows of
                  None \<Rightarrow> (Inl ErrJobNotFound, m)
                | Some j \<Rightarrow> (if jb_state j = ''running'' then Inl (ErrStale i) else Inr j, m))))"

text \<open>The locked section of \<open>reportProgress\<close>: the snapshot to persist, unless throttled.\<close>

definition reportProgress :: "int \<Rightarrow> int \<Rightarrow> int \<Rightarrow> runState \<Rightarrow> job option \<times> runState" where
  "reportProgress now dn tot rs =
     (let rs1 = rs\<lparr>rs_job := (rs_job rs)\<lparr>jb_done := dn, jb_total := tot\<rparr>\<rparr> in
      if (case rs_lastPersist rs of None \<Rightarrow> False | Some t \<Rightarrow> now - t < progressThrottle) then (None, rs1)
      else let rs2 = rs1\<lparr>rs_lastPersist := Some now\<rparr> in (Some (snapshotLocked rs2), rs2))"

text \<open>How a run ends, and the locked section at the end of \<open>run\<close>.\<close>

definition final_state :: "string option \<Rightarrow> bool \<Rightarrow> string \<times> string" where
  "final_state err canceled =
     (case err of
        None \<Rightarrow> (''succeeded'', [])
      | Some e \<Rightarrow> if canceled then (''canceled'', ''canceled'') else (''failed'', e))"

definition finish :: "string option \<Rightarrow> bool \<Rightarrow> string \<Rightarrow> string \<Rightarrow> profileStats \<Rightarrow> nat list \<Rightarrow> runState \<Rightarrow> job" where
  "finish err cn result ended pf cpu rs =
     (case final_state err cn of (st, msg) \<Rightarrow>
        snapshotLocked (rs\<lparr>rs_job := (rs_job rs)\<lparr>jb_state := st, jb_error := msg, jb_result := result,
          jb_endedAt := ended, jb_profile := pf, jb_cpu := cpu\<rparr>\<rparr>))"

text \<open>A database write that may fail, in which case the row is as before; and a broadcast.\<close>

definition persist :: "bool \<Rightarrow> job \<Rightarrow> manager \<Rightarrow> manager" where
  "persist ok j m = (if ok then m\<lparr>mg_ops := map_option (UpsertJob j) (mg_ops m)\<rparr> else m)"

definition broadcastEvent :: "string \<Rightarrow> job \<Rightarrow> manager \<Rightarrow> manager" where
  "broadcastEvent typ j m = m\<lparr>mg_sent := mg_sent m @ [(typ, j)]\<rparr>"

section \<open>The line writer\<close>

text \<open>\<open>lineWriter.Write\<close>: the lines forwarded so far and the incomplete line.\<close>

fun lw_write :: "string \<Rightarrow> string list \<times> string \<Rightarrow> string list \<times> string" where
  "lw_write [] st = st"
| "lw_write (b # p) (ls, buf) =
     (if b = CHR 0x0A then lw_write p (ls @ [buf], []) else lw_write p (ls, buf @ [b]))"

lemma lw_write_append: "lw_write (p @ q) st = lw_write q (lw_write p st)"
  by (induction p st rule: lw_write.induct) simp_all

definition unlines :: "string list \<times> string \<Rightarrow> string" where
  "unlines st = concat (map (\<lambda>l. l @ [CHR 0x0A]) (fst st)) @ snd st"

lemma lw_write_lines:
  assumes "\<forall>l \<in> set (snd st # fst st). CHR 0x0A \<notin> set l" "lw_write p st = st'"
  shows "unlines st' = unlines st @ p \<and> (\<forall>l \<in> set (snd st' # fst st'). CHR 0x0A \<notin> set l)"
  using assms
proof (induction p st rule: lw_write.induct)
  case (2 b p ls buf)
  show ?case
  proof (cases "b = CHR 0x0A")
    case True
    then show ?thesis using "2.IH"(1) [OF True] "2.prems" by (simp add: unlines_def)
  next
    case False
    then show ?thesis using "2.IH"(2) [OF False] "2.prems" by (simp add: unlines_def)
  qed
qed simp

section \<open>Interleavings\<close>

text \<open>
  Where the goroutine of a job stands: its row is to be written, it is about to take the profile
  lock, it works (with the lock or without, with a progress row to be written or not), its work has
  ended with an error or not and its context was cancelled by then or not, its slot is free and the final row is to be written.
\<close>

datatype thread = Starting jkind | Launched jkind | Working jkind bool "job option"
  | Ending jkind "string option" bool string "nat list" | Finishing job

record system =
  sy_mgr :: manager
  sy_thr :: "string \<Rightarrow> thread option"

definition set_run :: "jkind \<Rightarrow> runState option \<Rightarrow> manager \<Rightarrow> manager" where
  "set_run k r m = m\<lparr>mg_running := (mg_running m)(k := r)\<rparr>"

definition row_ids :: "manager \<Rightarrow> string set" where
  "row_ids m = (case mg_ops m of None \<Rightarrow> {} | Some rows \<Rightarrow> jb_id ` set rows)"

inductive step :: "system \<Rightarrow> system \<Rightarrow> bool" where
  start: "\<lbrakk>Start corpus exists kind args i started (sy_mgr s) = Inr (j, m); validKind kind = Some k;
     sy_thr s i = None; i \<notin> row_ids (sy_mgr s)\<rbrakk> \<Longrightarrow>
     step s (s\<lparr>sy_mgr := m, sy_thr := (sy_thr s)(i \<mapsto> Starting k)\<rparr>)"
| record_start: "\<lbrakk>sy_thr s i = Some (Starting k); mg_running (sy_mgr s) k = Some rs\<rbrakk> \<Longrightarrow>
     step s (s\<lparr>sy_mgr := persist ok (rs_job rs) (sy_mgr s), sy_thr := (sy_thr s)(i \<mapsto> Launched k)\<rparr>)"
| launch: "\<lbrakk>sy_thr s i = Some (Launched k); prof \<longrightarrow> \<not> mg_profiling (sy_mgr s)\<rbrakk> \<Longrightarrow>
     step s (s\<lparr>sy_mgr := (sy_mgr s)\<lparr>mg_profiling := (prof \<or> mg_profiling (sy_mgr s))\<rparr>,
               sy_thr := (sy_thr s)(i \<mapsto> Working k prof None)\<rparr>)"
| log_line: "\<lbrakk>sy_thr s i = Some (Working k prof None); mg_running (sy_mgr s) k = Some rs\<rbrakk> \<Longrightarrow>
     step s (s\<lparr>sy_mgr := set_run k (Some (appendLog line rs)) (sy_mgr s)\<rparr>)"
| progress: "\<lbrakk>sy_thr s i = Some (Working k prof None); mg_running (sy_mgr s) k = Some rs;
     reportProgress now dn tot rs = (pend, rs')\<rbrakk> \<Longrightarrow>
     step s (s\<lparr>sy_mgr := set_run k (Some rs') (sy_mgr s), sy_thr := (sy_thr s)(i \<mapsto> Working k prof pend)\<rparr>)"
| record_progress: "sy_thr s i = Some (Working k prof (Some j)) \<Longrightarrow>
     step s (s\<lparr>sy_mgr := broadcastEvent ''job_progress'' j (persist ok j (sy_mgr s)),
               sy_thr := (sy_thr s)(i \<mapsto> Working k prof None)\<rparr>)"
| cancel: "Cancel i (sy_mgr s) = (res, m) \<Longrightarrow> step s (s\<lparr>sy_mgr := m\<rparr>)"
| work_done: "\<lbrakk>sy_thr s i = Some (Working k prof None); mg_running (sy_mgr s) k = Some rs; \<not> prof \<longrightarrow> cpu = []\<rbrakk> \<Longrightarrow>
     step s (s\<lparr>sy_mgr := (sy_mgr s)\<lparr>mg_profiling := (\<not> prof \<and> mg_profiling (sy_mgr s))\<rparr>,
               sy_thr := (sy_thr s)(i \<mapsto> Ending k err (rs_canceled rs) result cpu)\<rparr>)"
| free_slot: "\<lbrakk>sy_thr s i = Some (Ending k err cn result cpu); mg_running (sy_mgr s) k = Some rs\<rbrakk> \<Longrightarrow>
     step s (s\<lparr>sy_mgr := set_run k None (sy_mgr s),
               sy_thr := (sy_thr s)(i \<mapsto> Finishing (finish err cn result ended pf cpu rs))\<rparr>)"
| record_end: "sy_thr s i = Some (Finishing j) \<Longrightarrow>
     step s (s\<lparr>sy_mgr := broadcastEvent ''job_done'' j (persist ok j (sy_mgr s)), sy_thr := (sy_thr s)(i := None)\<rparr>)"

inductive reachable :: "system \<Rightarrow> bool" where
  boot: "distinct (map jb_id rows) \<Longrightarrow> reachable \<lparr>sy_mgr = NewManager (Some rows), sy_thr = (\<lambda>_. None)\<rparr>"
| next_step: "reachable s \<Longrightarrow> step s s' \<Longrightarrow> reachable s'"

section \<open>Invariant\<close>

fun kind_of_thread :: "thread \<Rightarrow> jkind option" where
  "kind_of_thread (Starting k) = Some k"
| "kind_of_thread (Launched k) = Some k"
| "kind_of_thread (Working k p j) = Some k"
| "kind_of_thread (Ending k e cn r c) = Some k"
| "kind_of_thread (Finishing j) = None"

fun profiles :: "thread \<Rightarrow> bool" where
  "profiles (Working k p j) = p"
| "profiles _ = False"

definition is_running :: "job \<Rightarrow> bool" where
  "is_running j = (jb_state j = ''running'')"

text \<open>The live runs and the goroutines that have not freed their slot are the same.\<close>

definition run_ok :: "jkind \<Rightarrow> runState \<Rightarrow> bool" where
  "run_ok k rs \<longleftrightarrow> jb_kind (rs_job rs) = kind_name k \<and> is_running (rs_job rs) \<and> length (rs_log rs) \<le> logRingCap"

definition slots_inv :: "(jkind \<Rightarrow> runState option) \<Rightarrow> (string \<Rightarrow> thread option) \<Rightarrow> bool" where
  "slots_inv run thr \<longleftrightarrow>
     (\<forall>k rs. run k = Some rs \<longrightarrow> run_ok k rs \<and> (\<exists>t. thr (jb_id (rs_job rs)) = Some t \<and> kind_of_thread t = Some k))
     \<and> (\<forall>i t k. thr i = Some t \<longrightarrow> kind_of_thread t = Some k \<longrightarrow> (\<exists>rs. run k = Some rs \<and> jb_id (rs_job rs) = i))"

abbreviation slots_ok :: "system \<Rightarrow> bool" where
  "slots_ok s \<equiv> slots_inv (mg_running (sy_mgr s)) (sy_thr s)"

definition single_flight :: "system \<Rightarrow> bool" where
  "single_flight s \<longleftrightarrow> (mg_running (sy_mgr s) KindIndex \<noteq> None \<longrightarrow> (\<forall>k. k \<noteq> KindIndex \<longrightarrow> mg_running (sy_mgr s) k = None))"

fun thread_ok :: "string \<Rightarrow> thread \<Rightarrow> bool" where
  "thread_ok i (Working k p (Some j)) = (jb_id j = i \<and> is_running j)"
| "thread_ok i (Finishing j) = (jb_id j = i \<and> \<not> is_running j)"
| "thread_ok i _ = True"

definition threads_ok :: "system \<Rightarrow> bool" where
  "threads_ok s \<longleftrightarrow> (\<forall>i t. sy_thr s i = Some t \<longrightarrow> thread_ok i t)"

definition profile_ok :: "system \<Rightarrow> bool" where
  "profile_ok s \<longleftrightarrow>
     (\<forall>i t. sy_thr s i = Some t \<longrightarrow> profiles t \<longrightarrow> mg_profiling (sy_mgr s))
     \<and> (\<forall>i j t u. sy_thr s i = Some t \<longrightarrow> profiles t \<longrightarrow> sy_thr s j = Some u \<longrightarrow> profiles u \<longrightarrow> i = j)"

definition rows_ok :: "system \<Rightarrow> bool" where
  "rows_ok s \<longleftrightarrow> (\<exists>rows. mg_ops (sy_mgr s) = Some rows \<and> distinct (map jb_id rows)
     \<and> (\<forall>r \<in> set rows. \<not> is_running r \<longrightarrow> sy_thr s (jb_id r) = None))"

definition sys_ok :: "system \<Rightarrow> bool" where
  "sys_ok s \<longleftrightarrow> slots_ok s \<and> single_flight s \<and> threads_ok s \<and> profile_ok s \<and> rows_ok s"

lemma persist_sel [simp]:
  "mg_running (persist ok j m) = mg_running m" "mg_profiling (persist ok j m) = mg_profiling m"
  "mg_running (broadcastEvent e j m) = mg_running m" "mg_profiling (broadcastEvent e j m) = mg_profiling m"
  "mg_ops (broadcastEvent e j m) = mg_ops m"
  "mg_running (set_run k r m) = (mg_running m)(k := r)" "mg_ops (set_run k r m) = mg_ops m"
  "mg_profiling (set_run k r m) = mg_profiling m"
  by (simp_all add: persist_def broadcastEvent_def set_run_def)

lemma slots_invI:
  assumes "\<And>k rs. run k = Some rs \<Longrightarrow> run_ok k rs"
    and "\<And>k rs. run k = Some rs \<Longrightarrow> \<exists>t. thr (jb_id (rs_job rs)) = Some t \<and> kind_of_thread t = Some k"
    and "\<And>i t k. thr i = Some t \<Longrightarrow> kind_of_thread t = Some k \<Longrightarrow> \<exists>rs. run k = Some rs \<and> jb_id (rs_job rs) = i"
  shows "slots_inv run thr"
  using assms unfolding slots_inv_def by blast

lemma slots_runE:
  assumes "slots_inv run thr" "run k = Some rs"
  obtains t where "run_ok k rs" "thr (jb_id (rs_job rs)) = Some t" "kind_of_thread t = Some k"
  using assms unfolding slots_inv_def by blast

lemma slots_thrE:
  assumes "slots_inv run thr" "thr i = Some t" "kind_of_thread t = Some k"
  obtains rs where "run k = Some rs" "jb_id (rs_job rs) = i"
  using assms unfolding slots_inv_def by blast

lemma slots_run:
  assumes inv: "slots_inv run thr" and k: "run k = Some rs" "jb_id (rs_job rs') = jb_id (rs_job rs)" "run_ok k rs'"
  shows "slots_inv (run(k \<mapsto> rs')) thr"
proof (rule slots_invI)
  fix k1 r1
  assume r: "(run(k \<mapsto> rs')) k1 = Some r1"
  obtain r0 where r0: "run k1 = Some r0" "jb_id (rs_job r0) = jb_id (rs_job r1)" "run_ok k1 r0 \<longrightarrow> run_ok k1 r1"
    using r k by (cases "k1 = k") auto
  from inv r0(1) obtain t where "run_ok k1 r0" "thr (jb_id (rs_job r0)) = Some t" "kind_of_thread t = Some k1" by (rule slots_runE)
  then show "run_ok k1 r1" "\<exists>t. thr (jb_id (rs_job r1)) = Some t \<and> kind_of_thread t = Some k1" using r0 by auto
next
  fix i t k1
  assume "thr i = Some t" "kind_of_thread t = Some k1"
  with inv obtain r0 where "run k1 = Some r0" "jb_id (rs_job r0) = i" by (rule slots_thrE)
  then show "\<exists>rs. (run(k \<mapsto> rs')) k1 = Some rs \<and> jb_id (rs_job rs) = i" using k by (cases "k1 = k") auto
qed

lemma slots_thr:
  assumes inv: "slots_inv run thr" and t: "thr i = Some t" "kind_of_thread t' = kind_of_thread t"
  shows "slots_inv run (thr(i \<mapsto> t'))"
proof (rule slots_invI)
  fix k rs
  assume r: "run k = Some rs"
  with inv obtain u where "run_ok k rs" "thr (jb_id (rs_job rs)) = Some u" "kind_of_thread u = Some k" by (rule slots_runE)
  then show "run_ok k rs" "\<exists>u. (thr(i \<mapsto> t')) (jb_id (rs_job rs)) = Some u \<and> kind_of_thread u = Some k" using t by auto
next
  fix j u k
  assume u: "(thr(i \<mapsto> t')) j = Some u" "kind_of_thread u = Some k"
  obtain w where "thr j = Some w" "kind_of_thread w = Some k" using u t by (cases "j = i") auto
  with inv obtain rs where "run k = Some rs" "jb_id (rs_job rs) = j" by (rule slots_thrE)
  then show "\<exists>rs. run k = Some rs \<and> jb_id (rs_job rs) = j" by blast
qed

lemma slots_start:
  assumes inv: "slots_inv run thr"
    and n: "run k = None" "thr i = None" "jb_id (rs_job rs) = i" "run_ok k rs" "kind_of_thread t = Some k"
  shows "slots_inv (run(k \<mapsto> rs)) (thr(i \<mapsto> t))"
proof (rule slots_invI)
  fix k' rs'
  assume r: "(run(k \<mapsto> rs)) k' = Some rs'"
  have "run_ok k' rs' \<and> (\<exists>u. (thr(i \<mapsto> t)) (jb_id (rs_job rs')) = Some u \<and> kind_of_thread u = Some k')"
  proof (cases "k' = k")
    case True
    then show ?thesis using r n by simp
  next
    case False
    then have "run k' = Some rs'" using r by simp
    with inv obtain u where "run_ok k' rs'" "thr (jb_id (rs_job rs')) = Some u" "kind_of_thread u = Some k'" by (rule slots_runE)
    then show ?thesis using n(2) by auto
  qed
  then show "run_ok k' rs'" "\<exists>u. (thr(i \<mapsto> t)) (jb_id (rs_job rs')) = Some u \<and> kind_of_thread u = Some k'" by blast+
next
  fix j u k'
  assume u: "(thr(i \<mapsto> t)) j = Some u" "kind_of_thread u = Some k'"
  show "\<exists>rs'. (run(k \<mapsto> rs)) k' = Some rs' \<and> jb_id (rs_job rs') = j"
  proof (cases "j = i")
    case True
    then show ?thesis using u n by simp
  next
    case False
    then have "thr j = Some u" using u by simp
    from inv this u(2) obtain rs' where "run k' = Some rs'" "jb_id (rs_job rs') = j" by (rule slots_thrE)
    then show ?thesis using n(1) by (intro exI [of _ rs']) auto
  qed
qed

lemma slots_free:
  assumes inv: "slots_inv run thr" and t: "thr i = Some t" "kind_of_thread t = Some k" "kind_of_thread t' = None"
  shows "slots_inv (run(k := None)) (thr(i \<mapsto> t'))"
proof (rule slots_invI)
  fix k' rs
  assume r: "(run(k := None)) k' = Some rs"
  then have ne: "k' \<noteq> k" "run k' = Some rs" by (auto split: if_splits)
  from inv ne(2) obtain u where u: "run_ok k' rs" "thr (jb_id (rs_job rs)) = Some u" "kind_of_thread u = Some k'" by (rule slots_runE)
  then have "jb_id (rs_job rs) \<noteq> i" using t ne(1) by auto
  then show "run_ok k' rs" "\<exists>u. (thr(i \<mapsto> t')) (jb_id (rs_job rs)) = Some u \<and> kind_of_thread u = Some k'" using u by auto
next
  fix j u k'
  assume "(thr(i \<mapsto> t')) j = Some u" "kind_of_thread u = Some k'"
  then have j: "j \<noteq> i" "thr j = Some u" "kind_of_thread u = Some k'" using t(3) by (auto split: if_splits)
  from inv j(2,3) obtain rs where rs: "run k' = Some rs" "jb_id (rs_job rs) = j" by (rule slots_thrE)
  from inv t(1,2) obtain r0 where "run k = Some r0" "jb_id (rs_job r0) = i" by (rule slots_thrE)
  then have "k' \<noteq> k" using rs j(1) by auto
  then show "\<exists>rs. (run(k := None)) k' = Some rs \<and> jb_id (rs_job rs) = j" using rs by auto
qed

lemma slots_none:
  assumes inv: "slots_inv run thr" and t: "thr i = Some t" "kind_of_thread t = None"
  shows "slots_inv run (thr(i := None))"
proof (rule slots_invI)
  fix k rs
  assume r: "run k = Some rs"
  with inv obtain u where u: "run_ok k rs" "thr (jb_id (rs_job rs)) = Some u" "kind_of_thread u = Some k" by (rule slots_runE)
  then have "jb_id (rs_job rs) \<noteq> i" using t by auto
  then show "run_ok k rs" "\<exists>u. (thr(i := None)) (jb_id (rs_job rs)) = Some u \<and> kind_of_thread u = Some k" using u by auto
next
  fix j u k
  assume "(thr(i := None)) j = Some u" "kind_of_thread u = Some k"
  then have "thr j = Some u" "kind_of_thread u = Some k" by (auto split: if_splits)
  with inv obtain rs where "run k = Some rs" "jb_id (rs_job rs) = j" by (rule slots_thrE)
  then show "\<exists>rs. run k = Some rs \<and> jb_id (rs_job rs) = j" by blast
qed

section \<open>The operations under the invariant\<close>

lemma conflict_free:
  assumes "conflictLocked m k = None"
  shows "mg_running m KindIndex = None" "mg_running m k = None" "k = KindIndex \<Longrightarrow> mg_running m k' = None"
proof -
  show i: "mg_running m KindIndex = None" using assms by (auto simp: conflictLocked_def split: option.splits)
  have "running_kinds m = []" if "k = KindIndex"
  proof (rule ccontr)
    assume "running_kinds m \<noteq> []"
    then obtain rk ks where rk: "running_kinds m = rk # ks" by (cases "running_kinds m") auto
    then have "rk \<in> set (running_kinds m)" by simp
    then have "mg_running m rk \<noteq> None" unfolding running_kinds_def set_filter by blast
    then show False using assms i rk that by (auto simp: conflictLocked_def)
  qed
  then show "mg_running m k = None" using assms i by (cases "k = KindIndex") (auto simp: conflictLocked_def)
  show "mg_running m k' = None" if "k = KindIndex"
    using \<open>k = KindIndex \<Longrightarrow> running_kinds m = []\<close> [OF that] by (cases k') (auto simp: running_kinds_def filter_empty_conv split: if_splits)
qed

lemma Start_result:
  assumes "Start corpus exists kind args i started m = Inr (j, m')"
  obtains k where "validKind kind = Some k" "conflictLocked m k = None" "mg_ops m \<noteq> None"
    "j = rs_job (new_run k args i started)" "m' = set_run k (Some (new_run k args i started)) m"
  using assms by (auto simp: Start_def set_run_def Let_def split: option.splits if_splits)

lemma Cancel_result:
  assumes "Cancel i m = (res, m')"
  shows "m' = m \<or> (\<exists>k rs. mg_running m k = Some rs \<and> jb_id (rs_job rs) = i \<and> m' = set_run k (Some (rs\<lparr>rs_canceled := True\<rparr>)) m)"
proof (cases "live_kind i m")
  case None
  then show ?thesis using assms by (auto simp: Cancel_def split: option.splits)
next
  case (Some k)
  then have "case mg_running m k of Some rs \<Rightarrow> jb_id (rs_job rs) = i | None \<Rightarrow> False" by (auto simp: live_kind_def find_Some_iff)
  then obtain rs where "mg_running m k = Some rs" "jb_id (rs_job rs) = i" by (auto split: option.splits)
  then show ?thesis using assms Some by (auto simp: Cancel_def set_run_def)
qed

lemma run_ok_new: "run_ok k (new_run k args i started)"
  by (simp add: run_ok_def new_run_def is_running_def)

lemma run_ok_log: "run_ok k rs \<Longrightarrow> run_ok k (appendLog line rs) \<and> jb_id (rs_job (appendLog line rs)) = jb_id (rs_job rs)"
  by (simp add: run_ok_def appendLog_def Let_def logRingCap_def)

lemma run_ok_progress:
  assumes "reportProgress now dn tot rs = (pend, rs')" "run_ok k rs"
  shows "run_ok k rs' \<and> jb_id (rs_job rs') = jb_id (rs_job rs)
    \<and> (\<forall>j. pend = Some j \<longrightarrow> is_running j \<and> jb_id j = jb_id (rs_job rs) \<and> length (jb_logTail j) \<le> logTailReturn)"
  using assms by (auto simp: reportProgress_def Let_def run_ok_def snapshotLocked_def is_running_def lastN_def split: if_splits)

lemma finish_ended: "jb_id (finish err cn result ended pf cpu rs) = jb_id (rs_job rs) \<and> \<not> is_running (finish err cn result ended pf cpu rs)"
  by (cases err) (simp_all add: finish_def final_state_def snapshotLocked_def is_running_def)

section \<open>Every step keeps the invariant\<close>

lemma step_slots:
  assumes "step s s'" "slots_ok s"
  shows "slots_ok s'"
  using assms
proof (cases rule: step.cases)
  case (start corpus exists kind args i started j m k)
  from start(2) obtain k' where k': "validKind kind = Some k'" "conflictLocked (sy_mgr s) k' = None" "mg_ops (sy_mgr s) \<noteq> None"
    "j = rs_job (new_run k' args i started)" "m = set_run k' (Some (new_run k' args i started)) (sy_mgr s)"
    by (rule Start_result)
  have "slots_inv ((mg_running (sy_mgr s))(k \<mapsto> new_run k args i started)) ((sy_thr s)(i \<mapsto> Starting k))"
    by (rule slots_start [OF assms(2)]) (use k' start conflict_free(2) run_ok_new in \<open>auto simp: new_run_def\<close>)
  then show ?thesis using start k' by simp
next
  case (record_start i k rs ok)
  then show ?thesis using slots_thr [OF assms(2) record_start(2), of "Launched k"] by simp
next
  case (launch i k prof)
  then show ?thesis using slots_thr [OF assms(2) launch(2), of "Working k prof None"] by simp
next
  case (log_line i k prof rs line)
  obtain t where "run_ok k rs" "sy_thr s (jb_id (rs_job rs)) = Some t" "kind_of_thread t = Some k"
    by (rule slots_runE [OF assms(2) log_line(3)])
  then show ?thesis using slots_run [OF assms(2) log_line(3), of "appendLog line rs"] run_ok_log log_line(1) by simp
next
  case (progress i k prof rs now dn tot pend rs')
  obtain t where "run_ok k rs" "sy_thr s (jb_id (rs_job rs)) = Some t" "kind_of_thread t = Some k"
    by (rule slots_runE [OF assms(2) progress(3)])
  then have "slots_inv ((mg_running (sy_mgr s))(k \<mapsto> rs')) (sy_thr s)"
    using slots_run [OF assms(2) progress(3), of rs'] run_ok_progress [OF progress(4)] by blast
  from slots_thr [OF this progress(2), of "Working k prof pend"] show ?thesis using progress(1) by simp
next
  case (record_progress i k prof j ok)
  then show ?thesis using slots_thr [OF assms(2) record_progress(2), of "Working k prof None"] by simp
next
  case (cancel i res m)
  from Cancel_result [OF cancel(2)] show ?thesis
  proof (elim disjE exE conjE)
    fix k rs
    assume rs: "mg_running (sy_mgr s) k = Some rs" "m = set_run k (Some (rs\<lparr>rs_canceled := True\<rparr>)) (sy_mgr s)"
    obtain t where "run_ok k rs" "sy_thr s (jb_id (rs_job rs)) = Some t" "kind_of_thread t = Some k"
      by (rule slots_runE [OF assms(2) rs(1)])
    then have "run_ok k (rs\<lparr>rs_canceled := True\<rparr>)" by (simp add: run_ok_def)
    then show ?thesis using slots_run [OF assms(2) rs(1), of "rs\<lparr>rs_canceled := True\<rparr>"] cancel(1) rs(2) by simp
  qed (use cancel assms(2) in simp)
next
  case (work_done i k prof rs cpu err result)
  then show ?thesis using slots_thr [OF assms(2) work_done(2), of "Ending k err (rs_canceled rs) result cpu"] by simp
next
  case (free_slot i k err cn result cpu rs ended pf)
  then show ?thesis using slots_free [OF assms(2) free_slot(2), of k "Finishing (finish err cn result ended pf cpu rs)"] by simp
next
  case (record_end i j ok)
  then show ?thesis using slots_none [OF assms(2) record_end(2)] by simp
qed

text \<open>The running map changes in three ways: a slot is filled, a run in it is replaced, or it is freed.\<close>

lemma step_running:
  assumes "step s s'"
  shows "mg_running (sy_mgr s') = mg_running (sy_mgr s)
    \<or> (\<exists>k rs. conflictLocked (sy_mgr s) k = None \<and> mg_running (sy_mgr s') = (mg_running (sy_mgr s))(k \<mapsto> rs))
    \<or> (\<exists>k rs rs'. mg_running (sy_mgr s) k = Some rs \<and> mg_running (sy_mgr s') = (mg_running (sy_mgr s))(k \<mapsto> rs'))
    \<or> (\<exists>k. mg_running (sy_mgr s') = (mg_running (sy_mgr s))(k := None))"
  using assms
proof (cases rule: step.cases)
  case (start corpus exists kind args i started j m k)
  from start(2) obtain k' where "validKind kind = Some k'" "conflictLocked (sy_mgr s) k' = None" "mg_ops (sy_mgr s) \<noteq> None"
    "j = rs_job (new_run k' args i started)" "m = set_run k' (Some (new_run k' args i started)) (sy_mgr s)"
    by (rule Start_result)
  then have "conflictLocked (sy_mgr s) k' = None
    \<and> mg_running (sy_mgr s') = (mg_running (sy_mgr s))(k' \<mapsto> new_run k' args i started)" using start(1) by simp
  then show ?thesis by blast
next
  case (cancel i res m)
  from Cancel_result [OF cancel(2)] show ?thesis
  proof (elim disjE exE conjE)
    fix k rs
    assume "mg_running (sy_mgr s) k = Some rs" "m = set_run k (Some (rs\<lparr>rs_canceled := True\<rparr>)) (sy_mgr s)"
    then have "mg_running (sy_mgr s) k = Some rs \<and> mg_running (sy_mgr s') = (mg_running (sy_mgr s))(k \<mapsto> rs\<lparr>rs_canceled := True\<rparr>)"
      using cancel(1) by simp
    then show ?thesis by blast
  qed (use cancel(1) in simp)
next
  case (log_line i k prof rs line)
  then have "mg_running (sy_mgr s) k = Some rs \<and> mg_running (sy_mgr s') = (mg_running (sy_mgr s))(k \<mapsto> appendLog line rs)" by simp
  then show ?thesis by blast
next
  case (progress i k prof rs now dn tot pend rs')
  then have "mg_running (sy_mgr s) k = Some rs \<and> mg_running (sy_mgr s') = (mg_running (sy_mgr s))(k \<mapsto> rs')" by simp
  then show ?thesis by blast
next
  case (free_slot i k err cn result cpu rs ended pf)
  then have "mg_running (sy_mgr s') = (mg_running (sy_mgr s))(k := None)" by simp
  then show ?thesis by blast
qed simp_all

lemma step_single_flight:
  assumes "step s s'" "single_flight s"
  shows "single_flight s'"
  using step_running [OF assms(1)]
proof (elim disjE exE conjE)
  fix k rs
  assume c: "conflictLocked (sy_mgr s) k = None" and m: "mg_running (sy_mgr s') = (mg_running (sy_mgr s))(k \<mapsto> rs)"
  show ?thesis using conflict_free [OF c] m by (auto simp: single_flight_def)
next
  fix k rs rs'
  assume "mg_running (sy_mgr s) k = Some rs" "mg_running (sy_mgr s') = (mg_running (sy_mgr s))(k \<mapsto> rs')"
  then show ?thesis using assms(2) by (auto simp: single_flight_def)
qed (use assms(2) in \<open>auto simp: single_flight_def\<close>)

lemma threads_update:
  assumes "threads_ok s" "sy_thr s' = (sy_thr s)(i := t)" "\<And>u. t = Some u \<Longrightarrow> thread_ok i u"
  shows "threads_ok s'"
  using assms by (auto simp: threads_ok_def split: if_splits)

lemma step_threads:
  assumes "step s s'" "slots_ok s" "threads_ok s"
  shows "threads_ok s'"
  using assms(1)
proof (cases rule: step.cases)
  case (progress i k prof rs now dn tot pend rs')
  obtain t where "run_ok k rs" "sy_thr s (jb_id (rs_job rs)) = Some t" "kind_of_thread t = Some k"
    by (rule slots_runE [OF assms(2) progress(3)])
  note p = run_ok_progress [OF progress(4) \<open>run_ok k rs\<close>]
  have kt: "kind_of_thread (Working k prof None) = Some k" by simp
  obtain r0 where "mg_running (sy_mgr s) k = Some r0" "jb_id (rs_job r0) = i" by (rule slots_thrE [OF assms(2) progress(2) kt])
  then have "jb_id (rs_job rs) = i" using progress(3) by simp
  note ri = this
  have "thread_ok i (Working k prof pend)"
  proof (cases pend)
    case (Some j)
    then have "is_running j \<and> jb_id j = jb_id (rs_job rs)" using p by blast
    then show ?thesis using Some ri by simp
  qed simp
  then show ?thesis by (intro threads_update [OF assms(3), of s' i "Some (Working k prof pend)"]) (simp_all add: progress(1))
next
  case (free_slot i k err cn result cpu rs ended pf)
  have kt: "kind_of_thread (Ending k err cn result cpu) = Some k" by simp
  obtain r0 where "mg_running (sy_mgr s) k = Some r0" "jb_id (rs_job r0) = i" by (rule slots_thrE [OF assms(2) free_slot(2) kt])
  then have "jb_id (rs_job rs) = i" using free_slot(3) by simp
  then have "thread_ok i (Finishing (finish err cn result ended pf cpu rs))" using finish_ended [of err cn result ended pf cpu rs] by simp
  then show ?thesis
    by (intro threads_update [OF assms(3), of s' i "Some (Finishing (finish err cn result ended pf cpu rs))"]) (auto simp: free_slot(1))
qed (use assms(3) in \<open>auto simp: threads_ok_def split: if_splits\<close>)

lemma profile_update:
  assumes "profile_ok s" "sy_thr s' = (sy_thr s)(i := t)" "mg_profiling (sy_mgr s') = mg_profiling (sy_mgr s)"
    and "\<And>u. t = Some u \<Longrightarrow> profiles u \<Longrightarrow> \<exists>w. sy_thr s i = Some w \<and> profiles w"
  shows "profile_ok s'"
proof -
  have old: "\<exists>w. sy_thr s j = Some w \<and> profiles w" if "sy_thr s' j = Some u" "profiles u" for j u
    using that assms(2,4) by (cases "j = i") auto
  show ?thesis
    unfolding profile_ok_def
  proof (intro conjI allI impI)
    fix j u
    assume "sy_thr s' j = Some u" "profiles u"
    then show "mg_profiling (sy_mgr s')" using old assms(1,3) unfolding profile_ok_def by metis
  next
    fix j k u w
    assume "sy_thr s' j = Some u" "profiles u" "sy_thr s' k = Some w" "profiles w"
    then show "j = k" using old assms(1) unfolding profile_ok_def by metis
  qed
qed

lemma step_profile:
  assumes "step s s'" "profile_ok s"
  shows "profile_ok s'"
  using assms(1)
proof (cases rule: step.cases)
  case (start corpus exists kind args i started j m k)
  from start(2) obtain k' where "validKind kind = Some k'" "conflictLocked (sy_mgr s) k' = None" "mg_ops (sy_mgr s) \<noteq> None"
    "j = rs_job (new_run k' args i started)" "m = set_run k' (Some (new_run k' args i started)) (sy_mgr s)"
    by (rule Start_result)
  then show ?thesis using start(1) by (intro profile_update [OF assms(2), of s' i "Some (Starting k)"]) auto
next
  case (record_start i k rs ok)
  then show ?thesis by (intro profile_update [OF assms(2), of s' i "Some (Launched k)"]) auto
next
  case (cancel i res m)
  from Cancel_result [OF cancel(2)] have "mg_profiling m = mg_profiling (sy_mgr s)" by auto
  then show ?thesis using cancel(1) assms(2) by (simp add: profile_ok_def)
next
  case (launch i k prof)
  show ?thesis
  proof (cases prof)
    case True
    then have "\<not> profiles t" if "sy_thr s j = Some t" for j t using that launch(3) assms(2) unfolding profile_ok_def by blast
    then show ?thesis using launch(1) True by (auto simp: profile_ok_def split: if_splits)
  next
    case False
    then show ?thesis using launch by (intro profile_update [OF assms(2), of s' i "Some (Working k prof None)"]) auto
  qed
next
  case (log_line i k prof rs line)
  then show ?thesis using assms(2) by (simp add: profile_ok_def)
next
  case (progress i k prof rs now dn tot pend rs')
  then show ?thesis by (intro profile_update [OF assms(2), of s' i "Some (Working k prof pend)"]) auto
next
  case (record_progress i k prof j ok)
  then show ?thesis by (intro profile_update [OF assms(2), of s' i "Some (Working k prof None)"]) auto
next
  case (work_done i k prof rs cpu err result)
  show ?thesis
  proof (cases prof)
    case True
    have "profiles (Working k prof None)" using True by simp
    then have "\<not> profiles t" if "sy_thr s j = Some t" "j \<noteq> i" for j t
      using that work_done(2) assms(2) unfolding profile_ok_def by blast
    then show ?thesis using work_done(1) by (auto simp: profile_ok_def split: if_splits)
  next
    case False
    then show ?thesis using work_done by (intro profile_update [OF assms(2), of s' i "Some (Ending k err (rs_canceled rs) result cpu)"]) auto
  qed
next
  case (free_slot i k err cn result cpu rs ended pf)
  then show ?thesis by (intro profile_update [OF assms(2), of s' i "Some (Finishing (finish err cn result ended pf cpu rs))"]) auto
next
  case (record_end i j ok)
  then show ?thesis by (intro profile_update [OF assms(2), of s' i None]) auto
qed

text \<open>Rows are only written for a goroutine that is alive, and its id's row is not final before.\<close>

lemma Upsert_ids: "set (map jb_id (UpsertJob j rows)) = insert (jb_id j) (set (map jb_id rows))"
  "distinct (map jb_id rows) \<Longrightarrow> distinct (map jb_id (UpsertJob j rows))"
proof -
  have m: "map jb_id (UpsertJob j rows) = map jb_id rows" if "list_ex (\<lambda>r. jb_id r = jb_id j) rows"
    using that by (simp add: UpsertJob_def)
  show "set (map jb_id (UpsertJob j rows)) = insert (jb_id j) (set (map jb_id rows))"
  proof (cases "list_ex (\<lambda>r. jb_id r = jb_id j) rows")
    case True
    then have "jb_id j \<in> set (map jb_id rows)" by (metis (mono_tags, lifting) imageI list.set_map list_ex_iff)
    then show ?thesis using m [OF True] by (simp add: insert_absorb)
  qed (auto simp: UpsertJob_def)
  show "distinct (map jb_id (UpsertJob j rows))" if "distinct (map jb_id rows)"
  proof (cases "list_ex (\<lambda>r. jb_id r = jb_id j) rows")
    case True
    then show ?thesis using that m [OF True] by simp
  next
    case False
    then show ?thesis using that by (auto simp: UpsertJob_def list_ex_iff)
  qed
qed

lemma Upsert_rows:
  assumes "r \<in> set (UpsertJob j rows)"
  shows "r \<in> set rows \<and> jb_id r \<noteq> jb_id j \<or> jb_id r = jb_id j \<and> jb_state r = jb_state j"
proof (cases "list_ex (\<lambda>r. jb_id r = jb_id j) rows")
  case True
  then have "r \<in> (\<lambda>r. if jb_id r = jb_id j then j\<lparr>jb_cpu := (if jb_cpu j \<noteq> [] then jb_cpu j else jb_cpu r)\<rparr> else r) ` set rows"
    using assms by (simp add: UpsertJob_def)
  then show ?thesis by (auto split: if_splits)
next
  case False
  then show ?thesis using assms by (auto simp: UpsertJob_def list_ex_iff)
qed

lemma Upsert_other: "r \<in> set rows \<Longrightarrow> jb_id r \<noteq> jb_id j \<Longrightarrow> r \<in> set (UpsertJob j rows)"
  by (force simp: UpsertJob_def)

definition table_ok :: "(string \<Rightarrow> thread option) \<Rightarrow> job list \<Rightarrow> bool" where
  "table_ok thr rows \<longleftrightarrow> distinct (map jb_id rows) \<and> (\<forall>r \<in> set rows. \<not> is_running r \<longrightarrow> thr (jb_id r) = None)"

lemma rows_ok_iff: "rows_ok s \<longleftrightarrow> (\<exists>rows. mg_ops (sy_mgr s) = Some rows \<and> table_ok (sy_thr s) rows)"
  by (simp add: rows_ok_def table_ok_def)

lemma table_thr:
  assumes "table_ok thr rows" "thr i \<noteq> None \<or> t = None \<or> i \<notin> jb_id ` set rows"
  shows "table_ok (thr(i := t)) rows"
  using assms by (auto simp: table_ok_def)

lemma table_upsert:
  assumes "table_ok thr rows" "is_running j \<or> thr (jb_id j) = None"
  shows "table_ok thr (UpsertJob j rows)"
  unfolding table_ok_def
proof (intro conjI ballI impI)
  show "distinct (map jb_id (UpsertJob j rows))" using assms(1) Upsert_ids(2) by (simp add: table_ok_def)
  fix r
  assume r: "r \<in> set (UpsertJob j rows)" "\<not> is_running r"
  then show "thr (jb_id r) = None"
    using Upsert_rows [OF r(1)] assms by (auto simp: table_ok_def is_running_def)
qed

lemma persist_ops:
  assumes "mg_ops m = Some rows"
  shows "mg_ops (persist ok j m) = Some (if ok then UpsertJob j rows else rows)"
  using assms by (simp add: persist_def)

lemma step_rows:
  assumes "step s s'" "slots_ok s" "threads_ok s" "rows_ok s"
  shows "rows_ok s'"
proof -
  from assms(4) obtain rows where rows: "mg_ops (sy_mgr s) = Some rows" and tb: "table_ok (sy_thr s) rows" by (auto simp: rows_ok_iff)
  have tok: "thread_ok i t" if "sy_thr s i = Some t" for i t using assms(3) that by (simp add: threads_ok_def)
  show ?thesis
    using assms(1)
  proof (cases rule: step.cases)
    case (start corpus exists kind args i started j m k)
    from start(2) obtain k' where k': "validKind kind = Some k'" "conflictLocked (sy_mgr s) k' = None" "mg_ops (sy_mgr s) \<noteq> None"
      "j = rs_job (new_run k' args i started)" "m = set_run k' (Some (new_run k' args i started)) (sy_mgr s)"
      by (rule Start_result)
    have "table_ok ((sy_thr s)(i \<mapsto> Starting k)) rows" by (rule table_thr [OF tb]) (use start(5) rows in \<open>simp add: row_ids_def\<close>)
    then show ?thesis using start(1) k'(5) rows by (simp add: rows_ok_iff)
  next
    case (record_start i k rs ok)
    obtain t where "run_ok k rs" "sy_thr s (jb_id (rs_job rs)) = Some t" "kind_of_thread t = Some k"
      by (rule slots_runE [OF assms(2) record_start(3)])
    then have "table_ok (sy_thr s) (UpsertJob (rs_job rs) rows)" by (intro table_upsert [OF tb]) (simp add: run_ok_def)
    then have "table_ok ((sy_thr s)(i \<mapsto> Launched k)) (if ok then UpsertJob (rs_job rs) rows else rows)"
      using tb record_start(2) by (intro table_thr) auto
    then show ?thesis using record_start(1) persist_ops [OF rows] by (simp add: rows_ok_iff)
  next
    case (launch i k prof)
    then have "table_ok ((sy_thr s)(i \<mapsto> Working k prof None)) rows" by (intro table_thr [OF tb]) simp
    then show ?thesis using launch(1) rows by (simp add: rows_ok_iff)
  next
    case (log_line i k prof rs line)
    then show ?thesis using tb rows by (simp add: rows_ok_iff)
  next
    case (progress i k prof rs now dn tot pend rs')
    then have "table_ok ((sy_thr s)(i \<mapsto> Working k prof pend)) rows" by (intro table_thr [OF tb]) simp
    then show ?thesis using progress(1) rows by (simp add: rows_ok_iff)
  next
    case (record_progress i k prof j ok)
    have "table_ok (sy_thr s) (UpsertJob j rows)" using tok [OF record_progress(2)] by (intro table_upsert [OF tb]) simp
    then have "table_ok ((sy_thr s)(i \<mapsto> Working k prof None)) (if ok then UpsertJob j rows else rows)"
      using tb record_progress(2) by (intro table_thr) auto
    then show ?thesis using record_progress(1) persist_ops [OF rows] by (simp add: rows_ok_iff)
  next
    case (cancel i res m)
    from Cancel_result [OF cancel(2)] have "mg_ops m = mg_ops (sy_mgr s)" by auto
    then show ?thesis using cancel(1) tb rows by (simp add: rows_ok_iff)
  next
    case (work_done i k prof rs cpu err result)
    then have "table_ok ((sy_thr s)(i \<mapsto> Ending k err (rs_canceled rs) result cpu)) rows" by (intro table_thr [OF tb]) simp
    then show ?thesis using work_done(1) rows by (simp add: rows_ok_iff)
  next
    case (free_slot i k err cn result cpu rs ended pf)
    then have "table_ok ((sy_thr s)(i \<mapsto> Finishing (finish err cn result ended pf cpu rs))) rows" by (intro table_thr [OF tb]) simp
    then show ?thesis using free_slot(1) rows by (simp add: rows_ok_iff)
  next
    case (record_end i j ok)
    have "table_ok ((sy_thr s)(i := None)) rows" by (rule table_thr [OF tb]) simp
    then have "table_ok ((sy_thr s)(i := None)) (if ok then UpsertJob j rows else rows)"
      using table_upsert [of "(sy_thr s)(i := None)" rows j] tok [OF record_end(2)] by simp
    then show ?thesis using record_end(1) persist_ops [OF rows] by (simp add: rows_ok_iff)
  qed
qed

lemma step_ok: "step s s' \<Longrightarrow> sys_ok s \<Longrightarrow> sys_ok s'"
  unfolding sys_ok_def using step_slots step_single_flight step_threads step_profile step_rows by blast

lemma boot_ok: "distinct (map jb_id rows) \<Longrightarrow> sys_ok \<lparr>sy_mgr = NewManager (Some rows), sy_thr = (\<lambda>_. None)\<rparr>"
  by (simp add: sys_ok_def NewManager_def slots_inv_def single_flight_def threads_ok_def profile_ok_def rows_ok_def)

lemma reachable_ok: "reachable s \<Longrightarrow> sys_ok s"
  by (induction rule: reachable.induct) (auto intro: boot_ok step_ok)

section \<open>Final rows\<close>

text \<open>A row that says a job has ended is never written again.\<close>

lemma step_final_row:
  assumes st: "step s s'" and ok: "sys_ok s" and r: "mg_ops (sy_mgr s) = Some rows" "r \<in> set rows" "\<not> is_running r"
  shows "\<exists>rows'. mg_ops (sy_mgr s') = Some rows' \<and> r \<in> set rows'"
proof -
  have tb: "sy_thr s (jb_id r) = None" using ok r unfolding sys_ok_def rows_ok_def by auto
  have tok: "thread_ok i t" if "sy_thr s i = Some t" for i t using ok that by (simp add: sys_ok_def threads_ok_def)
  have sl: "slots_ok s" using ok by (simp add: sys_ok_def)
  have other: "r \<in> set (if b then UpsertJob j rows else rows)" if "sy_thr s (jb_id j) \<noteq> None" for b j
    using Upsert_other [OF r(2), of j] that tb r(2) by (cases "jb_id r = jb_id j") auto
  show ?thesis
    using st
  proof (cases rule: step.cases)
    case (start corpus exists kind args i started j m k)
    from start(2) obtain k' where k': "validKind kind = Some k'" "conflictLocked (sy_mgr s) k' = None" "mg_ops (sy_mgr s) \<noteq> None"
      "j = rs_job (new_run k' args i started)" "m = set_run k' (Some (new_run k' args i started)) (sy_mgr s)"
      by (rule Start_result)
    then show ?thesis using start(1) r by simp
  next
    case (record_start i k rs ok')
    obtain t where "run_ok k rs" "sy_thr s (jb_id (rs_job rs)) = Some t" "kind_of_thread t = Some k"
      by (rule slots_runE [OF sl record_start(3)])
    then show ?thesis using record_start(1) persist_ops [OF r(1)] other [of "rs_job rs" ok'] by simp
  next
    case (record_progress i k prof j ok')
    have "jb_id j = i" using tok [OF record_progress(2)] by simp
    then show ?thesis using record_progress(1,2) persist_ops [OF r(1)] other [of j ok'] by simp
  next
    case (cancel i res m)
    from Cancel_result [OF cancel(2)] have "mg_ops m = mg_ops (sy_mgr s)" by auto
    then show ?thesis using cancel(1) r by simp
  next
    case (record_end i j ok')
    have "jb_id j = i" using tok [OF record_end(2)] by simp
    then show ?thesis using record_end(1,2) persist_ops [OF r(1)] other [of j ok'] by simp
  qed (use r in simp_all)
qed

section \<open>A run that ends\<close>

text \<open>From any point of its work a job can be brought to its end, and its row is then final.\<close>

inductive steps :: "system \<Rightarrow> system \<Rightarrow> bool" where
  refl: "steps s s"
| more: "step s s' \<Longrightarrow> steps s' s'' \<Longrightarrow> steps s s''"

lemma find_upserted:
  "List.find (\<lambda>r. jb_id r = jb_id j) (UpsertJob j rows) = Some r \<Longrightarrow> jb_id r = jb_id j \<and> jb_state r = jb_state j"
proof -
  assume f: "List.find (\<lambda>r. jb_id r = jb_id j) (UpsertJob j rows) = Some r"
  then have "r \<in> set (UpsertJob j rows)" "jb_id r = jb_id j" by (auto simp: find_Some_iff)
  then show ?thesis using Upsert_rows [of r j rows] by blast
qed

lemma find_map_id:
  assumes "\<And>r. jb_id (g r) = b"
  shows "List.find (\<lambda>r. jb_id r = i) (map (\<lambda>r. if jb_id r = b then g r else r) rows)
    = (if i = b then map_option g (List.find (\<lambda>r. jb_id r = i) rows) else List.find (\<lambda>r. jb_id r = i) rows)"
  by (induction rows) (auto simp: assms)

lemma find_upsert:
  "List.find (\<lambda>r. jb_id r = i) (UpsertJob j rows) =
      (if i = jb_id j then Some (case List.find (\<lambda>r. jb_id r = i) rows of
          None \<Rightarrow> j | Some r \<Rightarrow> j\<lparr>jb_cpu := (if jb_cpu j \<noteq> [] then jb_cpu j else jb_cpu r)\<rparr>)
       else List.find (\<lambda>r. jb_id r = i) rows)"
proof (cases "list_ex (\<lambda>r. jb_id r = jb_id j) rows")
  case True
  define g :: "job \<Rightarrow> job" where "g = (\<lambda>r. j\<lparr>jb_cpu := (if jb_cpu j \<noteq> [] then jb_cpu j else jb_cpu r)\<rparr>)"
  have u: "UpsertJob j rows = map (\<lambda>r. if jb_id r = jb_id j then g r else r) rows" using True by (simp add: UpsertJob_def g_def)
  have "jb_id (g r) = jb_id j" for r by (simp add: g_def)
  note m = find_map_id [of g "jb_id j" i rows, OF this]
  have "List.find (\<lambda>r. jb_id r = jb_id j) rows \<noteq> None" using True by (auto simp: find_None_iff list_ex_iff)
  then obtain r where "List.find (\<lambda>r. jb_id r = jb_id j) rows = Some r" by blast
  then show ?thesis unfolding u m by (simp add: g_def)
next
  case False
  then have "List.find (\<lambda>r. jb_id r = jb_id j) rows = None" by (auto simp: find_None_iff list_ex_iff)
  moreover have "List.find P (xs @ [y]) = (case List.find P xs of None \<Rightarrow> if P y then Some y else None | Some z \<Rightarrow> Some z)"
    for P :: "job \<Rightarrow> bool" and xs y by (induction xs) simp_all
  ultimately show ?thesis using False by (simp add: UpsertJob_def split: option.splits)
qed

lemma get_upserted: "\<exists>r. GetJob (jb_id j) (UpsertJob j rows) = Some r \<and> jb_state r = jb_state j"
proof -
  have "jb_id j \<in> set (map jb_id (UpsertJob j rows))" using Upsert_ids(1) by simp
  then obtain r0 where "r0 \<in> set (UpsertJob j rows)" "jb_id r0 = jb_id j" by auto
  then obtain r where "List.find (\<lambda>r. jb_id r = jb_id j) (UpsertJob j rows) = Some r"
    by (cases "List.find (\<lambda>r. jb_id r = jb_id j) (UpsertJob j rows)") (auto simp: find_None_iff)
  then show ?thesis using find_upserted [of j rows r] by (simp add: GetJob_def scanJob_def)
qed

lemma finish_result:
  "jb_state (finish err cn result ended pf cpu rs) = fst (final_state err cn)"
  "jb_result (finish err cn result ended pf cpu rs) = result"
  by (simp_all add: finish_def snapshotLocked_def split: prod.splits)

lemma work_ends:
  assumes ok: "sys_ok s" and t: "sy_thr s i = Some (Working k prof None)" and rs: "mg_running (sy_mgr s) k = Some rs"
  shows "\<exists>s'. steps s s' \<and> sy_thr s' i = None \<and> mg_running (sy_mgr s') k = None
    \<and> (\<exists>j. Get i (sy_mgr s') = Inr j \<and> jb_state j = fst (final_state err (rs_canceled rs)))"
proof -
  have sl: "slots_ok s" using ok by (simp add: sys_ok_def)
  have kt: "kind_of_thread (Working k prof None) = Some k" by simp
  obtain r0 where "mg_running (sy_mgr s) k = Some r0" "jb_id (rs_job r0) = i" by (rule slots_thrE [OF sl t kt])
  then have ri: "jb_id (rs_job rs) = i" using rs by simp
  obtain rows where rows: "mg_ops (sy_mgr s) = Some rows" using ok by (auto simp: sys_ok_def rows_ok_def)
  define s1 where "s1 = s\<lparr>sy_mgr := (sy_mgr s)\<lparr>mg_profiling := (\<not> prof \<and> mg_profiling (sy_mgr s))\<rparr>,
      sy_thr := (sy_thr s)(i \<mapsto> Ending k err (rs_canceled rs) [] [])\<rparr>"
  define j where "j = finish err (rs_canceled rs) [] [] zeroProfile [] rs"
  define s2 where "s2 = s1\<lparr>sy_mgr := set_run k None (sy_mgr s1), sy_thr := (sy_thr s1)(i \<mapsto> Finishing j)\<rparr>"
  define s3 where "s3 = s2\<lparr>sy_mgr := broadcastEvent ''job_done'' j (persist True j (sy_mgr s2)), sy_thr := (sy_thr s2)(i := None)\<rparr>"
  have a: "step s s1" unfolding s1_def by (rule step.work_done [OF t rs]) simp
  have t1: "sy_thr s1 i = Some (Ending k err (rs_canceled rs) [] [])" "mg_running (sy_mgr s1) k = Some rs" using rs by (simp_all add: s1_def)
  have b: "step s1 s2" unfolding s2_def j_def by (rule step.free_slot [OF t1])
  have c: "step s2 s3" unfolding s3_def by (rule step.record_end) (simp add: s2_def)
  have run3: "mg_running (sy_mgr s3) = (mg_running (sy_mgr s))(k := None)" by (simp add: s3_def s2_def s1_def)
  have live: "live_kind i (sy_mgr s3) = None"
  proof -
    have "jb_id (rs_job r) \<noteq> i" if kk: "k' \<noteq> k" and kr: "mg_running (sy_mgr s) k' = Some r" for k' r
    proof
      assume "jb_id (rs_job r) = i"
      obtain u where "run_ok k' r" "sy_thr s (jb_id (rs_job r)) = Some u" "kind_of_thread u = Some k'"
        by (rule slots_runE [OF sl kr])
      then show False using \<open>jb_id (rs_job r) = i\<close> t kk by auto
    qed
    then show ?thesis by (auto simp: live_kind_def find_None_iff run3 split: option.splits)
  qed
  have ji: "jb_id j = i" using finish_ended [of err "rs_canceled rs" "[]" "[]" zeroProfile "[]" rs] ri by (simp add: j_def)
  have "mg_ops (sy_mgr s3) = Some (UpsertJob j rows)" using rows by (simp add: s3_def s2_def s1_def persist_def set_run_def broadcastEvent_def)
  moreover obtain r where "GetJob i (UpsertJob j rows) = Some r" "jb_state r = jb_state j" using get_upserted [of j rows] ji by auto
  ultimately have "Get i (sy_mgr s3) = Inr r" using live by (simp add: Get_def)
  moreover have "jb_state r = fst (final_state err (rs_canceled rs))" using \<open>jb_state r = jb_state j\<close> finish_result(1) by (simp add: j_def)
  moreover have "steps s s3" using a b c by (blast intro: steps.intros)
  moreover have "sy_thr s3 i = None" by (simp add: s3_def)
  moreover have "mg_running (sy_mgr s3) k = None" by (simp add: run3)
  ultimately show ?thesis by blast
qed


lemma reachable_steps: "steps s s' \<Longrightarrow> reachable s \<Longrightarrow> reachable s'"
  by (induction rule: steps.induct) (auto intro: reachable.next_step)

lemma steps_final_row:
  assumes "steps s s'" "reachable s" "mg_ops (sy_mgr s) = Some rows" "r \<in> set rows" "\<not> is_running r"
  shows "\<exists>rows'. mg_ops (sy_mgr s') = Some rows' \<and> r \<in> set rows'"
  using assms
proof (induction arbitrary: rows rule: steps.induct)
  case (more s s1 s2)
  obtain rows1 where "mg_ops (sy_mgr s1) = Some rows1" "r \<in> set rows1"
    using step_final_row [OF more.hyps(1) reachable_ok [OF more.prems(1)] more.prems(2-4)] by blast
  then show ?case using more.IH more.prems(1,4) more.hyps(1) reachable.next_step by blast
qed auto

section \<open>A run as an example\<close>

text \<open>An index job from the empty table, step by step, up to the window in which its slot is free.\<close>

definition ex_run :: runState where
  "ex_run = new_run KindIndex [] ''j1'' ''t0''"

definition ex_boot :: system where
  "ex_boot = \<lparr>sy_mgr = NewManager (Some []), sy_thr = (\<lambda>_. None)\<rparr>"

definition ex_started :: system where
  "ex_started = ex_boot\<lparr>sy_mgr := (sy_mgr ex_boot)\<lparr>mg_running := (mg_running (sy_mgr ex_boot))(KindIndex \<mapsto> ex_run)\<rparr>,
     sy_thr := (sy_thr ex_boot)(''j1'' \<mapsto> Starting KindIndex)\<rparr>"

definition ex_recorded :: system where
  "ex_recorded = ex_started\<lparr>sy_mgr := persist True (rs_job ex_run) (sy_mgr ex_started),
     sy_thr := (sy_thr ex_started)(''j1'' \<mapsto> Launched KindIndex)\<rparr>"

definition ex_working :: system where
  "ex_working = ex_recorded\<lparr>sy_mgr := (sy_mgr ex_recorded)\<lparr>mg_profiling := (True \<or> mg_profiling (sy_mgr ex_recorded))\<rparr>,
     sy_thr := (sy_thr ex_recorded)(''j1'' \<mapsto> Working KindIndex True None)\<rparr>"

definition ex_ending :: system where
  "ex_ending = ex_working\<lparr>sy_mgr := (sy_mgr ex_working)\<lparr>mg_profiling := (\<not> True \<and> mg_profiling (sy_mgr ex_working))\<rparr>,
     sy_thr := (sy_thr ex_working)(''j1'' \<mapsto> Ending KindIndex None (rs_canceled ex_run) [] [])\<rparr>"

definition ex_freed :: system where
  "ex_freed = ex_ending\<lparr>sy_mgr := set_run KindIndex None (sy_mgr ex_ending),
     sy_thr := (sy_thr ex_ending)(''j1'' \<mapsto> Finishing (finish None (rs_canceled ex_run) [] ''t1'' zeroProfile [] ex_run))\<rparr>"

definition ex_ended :: system where
  "ex_ended = ex_freed\<lparr>sy_mgr := broadcastEvent ''job_done'' (finish None (rs_canceled ex_run) [] ''t1'' zeroProfile [] ex_run)
       (persist True (finish None (rs_canceled ex_run) [] ''t1'' zeroProfile [] ex_run) (sy_mgr ex_freed)),
     sy_thr := (sy_thr ex_freed)(''j1'' := None)\<rparr>"

lemmas ex_defs = ex_boot_def ex_started_def ex_recorded_def ex_working_def ex_ending_def ex_freed_def ex_ended_def

lemma validKind_index: "validKind ''index'' = Some KindIndex"
  by (simp add: validKind_def Kinds_def)

lemma ex_runs: "mg_running (sy_mgr ex_started) KindIndex = Some ex_run" "mg_running (sy_mgr ex_working) KindIndex = Some ex_run"
  "mg_running (sy_mgr ex_ending) KindIndex = Some ex_run"
  by (simp_all add: ex_defs)

lemma ex_threads: "sy_thr ex_started ''j1'' = Some (Starting KindIndex)" "sy_thr ex_recorded ''j1'' = Some (Launched KindIndex)"
  "sy_thr ex_working ''j1'' = Some (Working KindIndex True None)"
  "sy_thr ex_ending ''j1'' = Some (Ending KindIndex None (rs_canceled ex_run) [] [])"
  "sy_thr ex_freed ''j1'' = Some (Finishing (finish None (rs_canceled ex_run) [] ''t1'' zeroProfile [] ex_run))"
  by (simp_all add: ex_defs)

lemma ex_start: "Start (\<lambda>_. None) (\<lambda>_. False) ''index'' [] ''j1'' ''t0'' (sy_mgr ex_boot) = Inr (rs_job ex_run, sy_mgr ex_started)"
  by (simp add: Start_def validKind_index preflight_def ex_defs NewManager_def conflictLocked_def running_kinds_def ex_run_def Let_def)

lemma ex_steps: "step ex_boot ex_started" "step ex_started ex_recorded" "step ex_recorded ex_working"
  "step ex_working ex_ending" "step ex_ending ex_freed" "step ex_freed ex_ended"
proof -
  have "step ex_boot (ex_boot\<lparr>sy_mgr := sy_mgr ex_started, sy_thr := (sy_thr ex_boot)(''j1'' \<mapsto> Starting KindIndex)\<rparr>)"
    by (rule step.start [OF ex_start validKind_index]) (simp_all add: ex_boot_def NewManager_def row_ids_def)
  moreover have "ex_boot\<lparr>sy_mgr := sy_mgr ex_started, sy_thr := (sy_thr ex_boot)(''j1'' \<mapsto> Starting KindIndex)\<rparr> = ex_started"
    by (simp add: ex_started_def)
  ultimately show "step ex_boot ex_started" by simp
  show "step ex_started ex_recorded" unfolding ex_recorded_def by (rule step.record_start [OF ex_threads(1) ex_runs(1)])
  show "step ex_recorded ex_working" unfolding ex_working_def
    by (rule step.launch [OF ex_threads(2)]) (simp add: ex_recorded_def ex_started_def ex_boot_def NewManager_def)
  show "step ex_working ex_ending" unfolding ex_ending_def by (rule step.work_done [OF ex_threads(3) ex_runs(2)]) simp
  show "step ex_ending ex_freed" unfolding ex_freed_def by (rule step.free_slot [OF ex_threads(4) ex_runs(3)])
  show "step ex_freed ex_ended" unfolding ex_ended_def by (rule step.record_end [OF ex_threads(5)])
qed

lemma ex_reachable: "reachable ex_boot" "reachable ex_started" "reachable ex_recorded" "reachable ex_working"
  "reachable ex_ending" "reachable ex_freed" "reachable ex_ended"
proof -
  show b: "reachable ex_boot" unfolding ex_boot_def by (rule reachable.boot) simp
  note n = reachable.next_step
  show s: "reachable ex_started" by (rule n [OF b ex_steps(1)])
  show r: "reachable ex_recorded" by (rule n [OF s ex_steps(2)])
  show w: "reachable ex_working" by (rule n [OF r ex_steps(3)])
  show e: "reachable ex_ending" by (rule n [OF w ex_steps(4)])
  show f: "reachable ex_freed" by (rule n [OF e ex_steps(5)])
  show "reachable ex_ended" by (rule n [OF f ex_steps(6)])
qed

section \<open>Properties\<close>

text \<open>
  C37: the single-flight rule. In every reachable state of the job engine, under every interleaving
  of starts, cancellations, log lines, progress reports, database writes and ends of jobs, a running
  job is of the kind of its slot, is marked running and keeps at most 200 log lines, of which a
  snapshot shows at most 50; two jobs that run at the same time have different ids and neither is an
  index job; and at most one job holds the CPU profile.
\<close>

theorem jobs_single_flight:
  assumes "reachable s" "mg_running (sy_mgr s) k = Some rs"
  shows "jb_kind (rs_job rs) = kind_name k \<and> jb_state (rs_job rs) = ''running''
    \<and> length (rs_log rs) \<le> 200 \<and> length (jb_logTail (snapshotLocked rs)) \<le> 50
    \<and> (\<forall>k' rs'. k' \<noteq> k \<longrightarrow> mg_running (sy_mgr s) k' = Some rs' \<longrightarrow>
        k \<noteq> KindIndex \<and> k' \<noteq> KindIndex \<and> jb_id (rs_job rs') \<noteq> jb_id (rs_job rs))
    \<and> (\<forall>i j t u. sy_thr s i = Some t \<longrightarrow> profiles t \<longrightarrow> sy_thr s j = Some u \<longrightarrow> profiles u \<longrightarrow> i = j)"
proof -
  have ok: "sys_ok s" using assms(1) by (rule reachable_ok)
  then have sl: "slots_ok s" and sf: "single_flight s" and pr: "profile_ok s" by (simp_all add: sys_ok_def)
  obtain t where t: "run_ok k rs" "sy_thr s (jb_id (rs_job rs)) = Some t" "kind_of_thread t = Some k"
    by (rule slots_runE [OF sl assms(2)])
  have "k \<noteq> KindIndex \<and> k' \<noteq> KindIndex \<and> jb_id (rs_job rs') \<noteq> jb_id (rs_job rs)"
    if d: "k' \<noteq> k" and r: "mg_running (sy_mgr s) k' = Some rs'" for k' rs'
  proof -
    obtain u where u: "run_ok k' rs'" "sy_thr s (jb_id (rs_job rs')) = Some u" "kind_of_thread u = Some k'"
      by (rule slots_runE [OF sl r])
    then have "jb_id (rs_job rs') \<noteq> jb_id (rs_job rs)" using t d by auto
    then show ?thesis using sf d r assms(2) unfolding single_flight_def by (metis option.distinct(1))
  qed
  then show ?thesis using t(1) pr
    by (simp add: run_ok_def is_running_def logRingCap_def snapshotLocked_def lastN_def logTailReturn_def profile_ok_def)
qed

theorem jobs_single_flight_witness:
  "jb_kind (rs_job ex_run) = ''index'' \<and> length (rs_log ex_run) \<le> 200 \<and> mg_running (sy_mgr ex_working) KindEval = None"
  using jobs_single_flight [OF ex_reachable(4) ex_runs(2)] by (auto simp: not_None_eq [symmetric] simp del: not_None_eq)

text \<open>
  A job that has ended stays ended. Once the table says that a job succeeded, failed or was
  canceled, the row is never changed again, whatever the jobs that run later or at the same time do:
  a late progress write cannot bring a finished job back to running.
\<close>

theorem finished_rows_are_final:
  assumes "reachable s" "steps s s'" "mg_ops (sy_mgr s) = Some rows" "r \<in> set rows" "jb_state r \<noteq> ''running''"
  shows "\<exists>rows'. mg_ops (sy_mgr s') = Some rows' \<and> r \<in> set rows' \<and> (\<forall>r' \<in> set rows'. jb_id r' = jb_id r \<longrightarrow> r' = r)"
proof -
  obtain rows' where r': "mg_ops (sy_mgr s') = Some rows'" "r \<in> set rows'"
    using steps_final_row [OF assms(2,1,3,4)] assms(5) by (auto simp: is_running_def)
  have "rows_ok s'" using reachable_ok [OF reachable_steps [OF assms(2,1)]] by (simp add: sys_ok_def)
  then have "distinct (map jb_id rows')" using r'(1) by (auto simp: rows_ok_def)
  then have "\<forall>r1 \<in> set rows'. jb_id r1 = jb_id r \<longrightarrow> r1 = r" using r'(2) by (auto simp: distinct_map dest: inj_onD)
  then show ?thesis using r' by blast
qed

theorem finished_rows_are_final_witness:
  "\<exists>rows'. mg_ops (sy_mgr ex_ended) = Some rows'
    \<and> finish None False [] ''t1'' zeroProfile [] ex_run \<in> set rows'"
proof -
  have "mg_ops (sy_mgr ex_ended) = Some [finish None False [] ''t1'' zeroProfile [] ex_run]"
    by (simp add: ex_defs NewManager_def persist_def set_run_def broadcastEvent_def UpsertJob_def finish_def final_state_def
      snapshotLocked_def lastN_def ex_run_def new_run_def)
  from finished_rows_are_final [OF ex_reachable(7) steps.refl this, of "finish None False [] ''t1'' zeroProfile [] ex_run"]
  show ?thesis by (auto simp: finish_def final_state_def snapshotLocked_def ex_run_def new_run_def)
qed

text \<open>
  Every job can end. From any reachable state in which a job works, the end of its work with
  the result or the error it has leads, in steps of the job alone, to a state in which its slot is
  free, its goroutine is gone and \<open>Get\<close> answers with the final state: succeeded without an error,
  canceled when it was cancelled and failed otherwise.
\<close>

theorem working_job_ends:
  fixes err :: "string option"
  assumes "reachable s" "sy_thr s i = Some (Working k prof None)" "mg_running (sy_mgr s) k = Some rs"
  shows "\<exists>s'. steps s s' \<and> sy_thr s' i = None \<and> mg_running (sy_mgr s') k = None
    \<and> (\<exists>j. Get i (sy_mgr s') = Inr j
        \<and> jb_state j = (if err = None then ''succeeded'' else if rs_canceled rs then ''canceled'' else ''failed''))"
proof -
  have "fst (final_state err (rs_canceled rs)) = (if err = None then ''succeeded'' else if rs_canceled rs then ''canceled'' else ''failed'')"
    by (simp add: final_state_def split: option.splits)
  then show ?thesis using work_ends [OF reachable_ok [OF assms(1)] assms(2,3), of err] by simp
qed

theorem working_job_ends_witness:
  "\<exists>s'. steps ex_working s' \<and> (\<exists>j. Get ''j1'' (sy_mgr s') = Inr j \<and> jb_state j = ''failed'')"
  using working_job_ends [OF ex_reachable(4) ex_threads(3) ex_runs(2), of "Some ''disk full''"]
  by (auto simp: ex_run_def new_run_def)

text \<open>
  \<open>Start\<close> decides exactly by the single-flight rule. With the database open and valid arguments a job
  is started if and only if no index job runs, no job of its kind runs and, for an index job, no job
  runs at all; otherwise the answer is a conflict that names a job that is running, and nothing
  changes. An unknown kind and a missing database are refused before anything else.
\<close>

theorem Start_decides:
  "case validKind kind of
     None \<Rightarrow> Start corpus exists kind args i started m = Inl (ErrUnknownKind kind)
   | Some k \<Rightarrow>
       if mg_ops m = None then Start corpus exists kind args i started m = Inl ErrNoOps
       else case preflight corpus exists k args of
         Inl e \<Rightarrow> Start corpus exists kind args i started m = Inl e
       | Inr _ \<Rightarrow>
          if mg_running m KindIndex = None \<and> mg_running m k = None
            \<and> \<not> (k = KindIndex \<and> (\<exists>k'. mg_running m k' \<noteq> None))
          then Start corpus exists kind args i started m
            = Inr (rs_job (new_run k args i started), set_run k (Some (new_run k args i started)) m)
          else \<exists>k' rs. mg_running m k' = Some rs \<and> Start corpus exists kind args i started m = Inl (ErrConflict (rs_job rs))"
proof (cases "validKind kind")
  case (Some k)
  have pos: "\<exists>k' rs. mg_running m k' = Some rs \<and> j = rs_job rs" if "conflictLocked m k = Some j" for j
    using that by (auto simp: conflictLocked_def split: option.splits if_splits list.splits)
  have neg: "conflictLocked m k = None" if "mg_running m KindIndex = None" "mg_running m k = None"
    "\<not> (k = KindIndex \<and> (\<exists>k'. mg_running m k' \<noteq> None))"
    using that by (auto simp: conflictLocked_def running_kinds_def)
  show ?thesis
  proof (cases "mg_running m KindIndex = None \<and> mg_running m k = None \<and> \<not> (k = KindIndex \<and> (\<exists>k'. mg_running m k' \<noteq> None))")
    case True
    then have c: "conflictLocked m k = None" using neg by blast
    show ?thesis using Some c True
      by (simp add: Start_def set_run_def Let_def split: sum.splits)
  next
    case False
    have "conflictLocked m k \<noteq> None"
    proof
      assume c: "conflictLocked m k = None"
      have "mg_running m k' = None" if "k = KindIndex" for k' by (rule conflict_free(3) [OF c that])
      then show False using False conflict_free(1,2) [OF c] by auto
    qed
    then obtain j where j: "conflictLocked m k = Some j" by blast
    then obtain k' rs where r: "mg_running m k' = Some rs" "j = rs_job rs" using pos by blast
    have "Start corpus exists kind args i started m = Inl (ErrConflict (rs_job rs))"
      if "mg_ops m \<noteq> None" "preflight corpus exists k args = Inr u" for u
      using that Some j r by (simp add: Start_def)
    moreover have "Start corpus exists kind args i started m = Inl e"
      if "mg_ops m \<noteq> None" "preflight corpus exists k args = Inl e" for e
      using that Some by (auto simp: Start_def)
    ultimately show ?thesis using Some r(1) False
      by (auto simp: Start_def split: sum.splits)
  qed
qed (simp add: Start_def)

text \<open>
  The jobs table. Writing a job and reading it back gives the job, with the presence of a CPU
  profile told and the profile itself kept: a later write without a profile does not lose one that
  is stored. Every other row reads as before, and ids stay unique.
\<close>

theorem upsert_then_get:
  assumes "distinct (map jb_id rows)"
  shows "GetJob (jb_id j) (UpsertJob j rows) = Some (j\<lparr>jb_profile := (jb_profile j)\<lparr>pf_hasCPU :=
      jb_cpu j \<noteq> [] \<or> GetJobProfile (jb_id j) rows \<noteq> None\<rparr>, jb_cpu := []\<rparr>)
    \<and> GetJobProfile (jb_id j) (UpsertJob j rows) = (if jb_cpu j \<noteq> [] then Some (jb_cpu j) else GetJobProfile (jb_id j) rows)
    \<and> (\<forall>i. i \<noteq> jb_id j \<longrightarrow> GetJob i (UpsertJob j rows) = GetJob i rows)
    \<and> distinct (map jb_id (UpsertJob j rows))"
proof -
  have f: "List.find (\<lambda>r. jb_id r = i) (UpsertJob j rows) =
      (if i = jb_id j then Some (case List.find (\<lambda>r. jb_id r = i) rows of
          None \<Rightarrow> j | Some r \<Rightarrow> j\<lparr>jb_cpu := (if jb_cpu j \<noteq> [] then jb_cpu j else jb_cpu r)\<rparr>)
       else List.find (\<lambda>r. jb_id r = i) rows)" for i
    by (rule find_upsert)
  show ?thesis
    using Upsert_ids(2) [OF assms, of j] by (simp add: f GetJob_def GetJobProfile_def scanJob_def split: option.splits)
qed

theorem upsert_then_get_witness:
  "GetJobProfile ''j1'' (UpsertJob (rs_job ex_run) [(rs_job ex_run)\<lparr>jb_cpu := [7]\<rparr>]) = Some [7]"
  using upsert_then_get [of "[(rs_job ex_run)\<lparr>jb_cpu := [7]\<rparr>]" "rs_job ex_run"]
  by (simp add: ex_run_def new_run_def GetJobProfile_def)

text \<open>
  The line writer loses nothing. However the text is cut into writes, the lines forwarded and
  the rest kept in the buffer are the same, contain no line break, and put together again they are
  the text.
\<close>

theorem line_writer_roundtrip:
  "fold lw_write chunks ([], []) = lw_write (concat chunks) ([], [])
   \<and> unlines (lw_write (concat chunks) ([], [])) = concat chunks
   \<and> \<not> list_ex (\<lambda>l. CHR 0x0A \<in> set l) (snd (lw_write (concat chunks) ([], [])) # fst (lw_write (concat chunks) ([], [])))"
proof -
  have "fold lw_write chunks st = lw_write (concat chunks) st" for st
    by (induction chunks arbitrary: st) (simp_all add: lw_write_append)
  moreover have "unlines (lw_write (concat chunks) ([], [])) = unlines ([], []) @ concat chunks
     \<and> (\<forall>l \<in> set (snd (lw_write (concat chunks) ([], [])) # fst (lw_write (concat chunks) ([], []))). CHR 0x0A \<notin> set l)"
    by (rule lw_write_lines) simp_all
  ultimately show ?thesis by (simp add: unlines_def list_ex_iff)
qed

text \<open>
  Between the freeing of its slot and the write of its final row a finished job is reported as
  running, and a cancellation is refused with the message that a previous process died, although
  the process is alive and the job has ended.
\<close>

lemma stale_window:
  "reachable ex_freed"
  "sy_thr ex_freed ''j1'' = Some (Finishing (finish None False [] ''t1'' zeroProfile [] ex_run))"
  "jb_state (finish None False [] ''t1'' zeroProfile [] ex_run) = ''succeeded''"
  "\<exists>j. Get ''j1'' (sy_mgr ex_freed) = Inr j \<and> jb_state j = ''running''"
  "fst (Cancel ''j1'' (sy_mgr ex_freed)) = Inl (ErrStale ''j1'')"
  using ex_reachable(6)
  by (simp_all add: finish_def final_state_def snapshotLocked_def Get_def Cancel_def live_kind_def Kinds_def ex_defs NewManager_def
    persist_def set_run_def GetJob_def UpsertJob_def scanJob_def ex_run_def new_run_def)

end
