(* ===== verification/Flow_Graph.thy ===== *)
theory Flow_Graph
  imports Prelude
begin

text \<open>
  The in-memory flow graph and its traversal (\<open>internal/graph/model.go\<close>: nodes, edges, the
  adjacency index; \<open>internal/graph/query.go\<close>: \<open>TraverseWithPolicy\<close> and the queries built on it).

  A Go map whose iteration order reaches the result is an association list, in iteration order, so
  that a theorem for every list is a theorem for every order. Meta maps are only read by key, and
  a key that is absent reads as the empty string.
\<close>

section \<open>Data\<close>

type_synonym nodeType = string
type_synonym edgeType = string

record sourceRef =
  sr_provider :: string
  sr_confidence :: string
  sr_ref :: string
  sr_observedAt :: int
  sr_codeFile :: string
  sr_codeFunc :: string
  sr_layer :: string
  sr_rule :: string

record node =
  nd_id :: string
  nd_type :: nodeType
  nd_label :: string
  nd_service :: string
  nd_file :: string
  nd_line :: int
  nd_endLine :: int
  nd_language :: string
  nd_meta :: "string \<rightharpoonup> string"

record edge =
  ed_id :: string
  ed_from :: string
  ed_to :: string
  ed_type :: edgeType
  ed_label :: string
  ed_confidence :: string
  ed_method :: string
  ed_path :: string
  ed_meta :: "string \<rightharpoonup> string"
  ed_sources :: "sourceRef list"
  ed_state :: string
  ed_granularity :: string

definition meta_get :: "(string \<rightharpoonup> string) \<Rightarrow> string \<Rightarrow> string" where
  "meta_get m k = (case m k of Some v \<Rightarrow> v | None \<Rightarrow> [])"

definition NodeTypeVariable :: nodeType where "NodeTypeVariable = ''variable''"

definition EdgeTypeContains :: edgeType where "EdgeTypeContains = ''contains''"
definition EdgeTypeDeclares :: edgeType where "EdgeTypeDeclares = ''declares''"
definition EdgeTypeInstantiates :: edgeType where "EdgeTypeInstantiates = ''instantiates''"
definition EdgeTypeUsesType :: edgeType where "EdgeTypeUsesType = ''uses_type''"
definition EdgeTypeImports :: edgeType where "EdgeTypeImports = ''imports''"

definition structuralEdgeTypes :: "edgeType \<Rightarrow> bool" where
  "structuralEdgeTypes t \<longleftrightarrow>
     t \<in> {EdgeTypeContains, EdgeTypeDeclares, EdgeTypeInstantiates, EdgeTypeUsesType, EdgeTypeImports}"

section \<open>The adjacency index\<close>

record adjacencyIndex =
  ix_nodes :: "(string \<times> node) list"
  ix_out :: "(string \<times> edge list) list"
  ix_in :: "(string \<times> edge list) list"

definition NewAdjacencyIndex :: adjacencyIndex where
  "NewAdjacencyIndex = \<lparr>ix_nodes = [], ix_out = [], ix_in = []\<rparr>"

definition node_of :: "adjacencyIndex \<Rightarrow> string \<Rightarrow> node option" where
  "node_of idx v = map_of (ix_nodes idx) v"

definition adj_list :: "(string \<times> edge list) list \<Rightarrow> string \<Rightarrow> edge list" where
  "adj_list m v = (case map_of m v of Some es \<Rightarrow> es | None \<Rightarrow> [])"

definition outEdges :: "adjacencyIndex \<Rightarrow> string \<Rightarrow> edge list" where
  "outEdges idx v = adj_list (ix_out idx) v"

definition inEdges :: "adjacencyIndex \<Rightarrow> string \<Rightarrow> edge list" where
  "inEdges idx v = adj_list (ix_in idx) v"

definition AddNode :: "node \<Rightarrow> adjacencyIndex \<Rightarrow> adjacencyIndex" where
  "AddNode n idx = idx\<lparr>ix_nodes := AList.update (nd_id n) n (ix_nodes idx)\<rparr>"

definition AddEdge :: "edge \<Rightarrow> adjacencyIndex \<Rightarrow> adjacencyIndex" where
  "AddEdge e idx = idx\<lparr>
     ix_out := AList.update (ed_from e) (outEdges idx (ed_from e) @ [e]) (ix_out idx),
     ix_in := AList.update (ed_to e) (inEdges idx (ed_to e) @ [e]) (ix_in idx)\<rparr>"

text \<open>The edges in the order of the map, first occurrence of each identifier.\<close>

fun first_by_id :: "edge list \<Rightarrow> string list \<Rightarrow> edge list" where
  "first_by_id [] seen = []"
| "first_by_id (e # es) seen =
     (if ed_id e \<in> set seen then first_by_id es seen else e # first_by_id es (ed_id e # seen))"

definition AllEdges :: "adjacencyIndex \<Rightarrow> edge list" where
  "AllEdges idx = sort_key ed_id (first_by_id (concat (map snd (ix_out idx))) [])"

text \<open>\<open>BuildIndex\<close> once its two queries have returned their rows.\<close>

definition BuildIndex :: "node list \<Rightarrow> edge list \<Rightarrow> adjacencyIndex" where
  "BuildIndex ns es = fold AddEdge es (fold AddNode ns NewAdjacencyIndex)"

section \<open>Traversal\<close>

datatype traversalMode = BFS | DFS

record traversalPolicy =
  tp_terminal :: "edgeType \<Rightarrow> bool"
  tp_dropLocals :: bool

definition RawPolicy :: traversalPolicy where
  "RawPolicy = \<lparr>tp_terminal = (\<lambda>_. False), tp_dropLocals = False\<rparr>"

definition BlastRadiusPolicy :: traversalPolicy where
  "BlastRadiusPolicy = \<lparr>tp_terminal = (\<lambda>_. False), tp_dropLocals = True\<rparr>"

definition ContainmentTerminal :: traversalPolicy where
  "ContainmentTerminal = BlastRadiusPolicy\<lparr>tp_terminal := (\<lambda>t. t \<in> {EdgeTypeContains, EdgeTypeDeclares})\<rparr>"

definition isLocalVariable :: "node option \<Rightarrow> bool" where
  "isLocalVariable n = (case n of None \<Rightarrow> False
     | Some n \<Rightarrow> nd_type n = NodeTypeVariable \<and> meta_get (nd_meta n) ''scope'' = ''captured'')"

record traversalResult =
  tr_id :: string
  tr_node :: "node option"
  tr_via :: "edge option"
  tr_depth :: nat
  tr_structural :: bool

record queueItem =
  qi_id :: string
  qi_via :: "edge option"
  qi_depth :: nat
  qi_terminal :: bool
  qi_structural :: bool

definition DirIn :: string where "DirIn = ''in''"
definition DirOut :: string where "DirOut = ''out''"

definition dir_edges :: "adjacencyIndex \<Rightarrow> string \<Rightarrow> string \<Rightarrow> edge list" where
  "dir_edges idx dir v = (if dir = DirIn then inEdges idx v else outEdges idx v)"

definition far_end :: "string \<Rightarrow> edge \<Rightarrow> string" where
  "far_end dir e = (if dir = DirIn then ed_from e else ed_to e)"

text \<open>The loop over the edges of the current item: it extends the queue and the visited set.\<close>

fun push_edges :: "adjacencyIndex \<Rightarrow> string \<Rightarrow> traversalPolicy \<Rightarrow> queueItem \<Rightarrow> edge list \<Rightarrow> string list
    \<Rightarrow> queueItem list \<times> string list" where
  "push_edges idx dir pol cur [] vis = ([], vis)"
| "push_edges idx dir pol cur (e # es) vis =
     (let v = far_end dir e in
      if v \<in> set vis then push_edges idx dir pol cur es vis
      else if tp_dropLocals pol \<and> isLocalVariable (node_of idx v) then push_edges idx dir pol cur es (v # vis)
      else let (q, vis1) = push_edges idx dir pol cur es (v # vis) in
        (\<lparr>qi_id = v, qi_via = Some e, qi_depth = Suc (qi_depth cur), qi_terminal = tp_terminal pol (ed_type e),
          qi_structural = (qi_structural cur \<or> structuralEdgeTypes (ed_type e))\<rparr> # q, vis1))"

definition pop :: "traversalMode \<Rightarrow> queueItem list \<Rightarrow> (queueItem \<times> queueItem list) option" where
  "pop mode q = (if q = [] then None
     else if mode = BFS then Some (hd q, tl q) else Some (last q, butlast q))"

definition halts :: "int \<Rightarrow> queueItem \<Rightarrow> bool" where
  "halts maxDepth cur \<longleftrightarrow> maxDepth > 0 \<and> int (qi_depth cur) \<ge> maxDepth \<or> qi_terminal cur"

definition report :: "adjacencyIndex \<Rightarrow> queueItem \<Rightarrow> traversalResult list" where
  "report idx cur = (if qi_depth cur > 0 then
     [\<lparr>tr_id = qi_id cur, tr_node = node_of idx (qi_id cur), tr_via = qi_via cur, tr_depth = qi_depth cur,
       tr_structural = qi_structural cur\<rparr>] else [])"

definition ends :: "adjacencyIndex \<Rightarrow> string set" where
  "ends idx = (\<Union>e \<in> set (concat (map snd (ix_out idx @ ix_in idx))). {ed_from e, ed_to e})"

lemma finite_ends [simp]: "finite (ends idx)"
  by (simp add: ends_def)

lemma adj_list_in: "e \<in> set (adj_list m v) \<Longrightarrow> e \<in> set (concat (map snd m))"
  using map_of_SomeD [of m v] by (cases "map_of m v") (force simp: adj_list_def)+

lemma far_end_in: "e \<in> set (dir_edges idx dir v) \<Longrightarrow> far_end dir e \<in> ends idx"
  using adj_list_in [of e "ix_out idx" v] adj_list_in [of e "ix_in idx" v]
  by (auto simp: dir_edges_def far_end_def ends_def outEdges_def inEdges_def split: if_splits)

text \<open>Each pass of the loop pops one item, and an item that is pushed takes a node from the unvisited ones.\<close>

lemma push_edges_measure:
  assumes "push_edges idx dir pol cur es vis = (q, vis')" "far_end dir ` set es \<subseteq> U" "finite U"
  shows "card (U - set vis') + length q \<le> card (U - set vis)"
  using assms(1,2)
proof (induction es arbitrary: vis vis' q)
  case (Cons e es)
  let ?v = "far_end dir e"
  have less: "?v \<notin> set vis \<Longrightarrow> card (U - set (?v # vis)) < card (U - set vis)"
    using Cons.prems(2) assms(3) by (intro psubset_card_mono) auto
  show ?case
  proof (cases "?v \<in> set vis")
    case True
    then show ?thesis using Cons by (simp add: Let_def)
  next
    case False
    obtain q1 vis1 where rest: "push_edges idx dir pol cur es (?v # vis) = (q1, vis1)" by (rule prod.exhaust)
    have "card (U - set vis1) + length q1 \<le> card (U - set (?v # vis))"
      using Cons.IH [OF rest] Cons.prems(2) by simp
    then show ?thesis using less [OF False] Cons.prems(1) False rest by (auto simp: Let_def split: if_splits)
  qed
qed simp

lemma pop_length: "pop mode q = Some (cur, rest) \<Longrightarrow> length q = Suc (length rest)"
  by (cases q) (auto simp: pop_def split: if_splits)

function trav_loop :: "adjacencyIndex \<Rightarrow> string \<Rightarrow> traversalMode \<Rightarrow> int \<Rightarrow> traversalPolicy \<Rightarrow> queueItem list
    \<Rightarrow> string list \<Rightarrow> traversalResult list" where
  "trav_loop idx dir mode maxDepth pol q vis =
     (case pop mode q of
        None \<Rightarrow> []
      | Some (cur, rest) \<Rightarrow>
          report idx cur @
          (if halts maxDepth cur then trav_loop idx dir mode maxDepth pol rest vis
           else let (new, vis1) = push_edges idx dir pol cur (dir_edges idx dir (qi_id cur)) vis in
             trav_loop idx dir mode maxDepth pol (rest @ new) vis1))"
  by pat_completeness auto

termination
proof (relation "measure (\<lambda>(idx, dir, mode, mx, pol, q, vis). card (ends idx - set vis) + length q)")
  fix idx dir mode mx pol q vis cr cur rest
  assume "pop mode q = Some cr" "(cur, rest) = cr" "halts mx cur"
  then show "((idx, dir, mode, mx, pol, rest, vis), idx, dir, mode, mx, pol, q, vis)
      \<in> measure (\<lambda>(idx, dir, mode, mx, pol, q, vis). card (ends idx - set vis) + length q)"
    using pop_length by fastforce
next
  fix idx dir mode mx pol q vis cr cur rest nv new vis1
  assume p: "pop mode q = Some cr" "(cur, rest) = cr" "\<not> halts mx cur"
    and n: "nv = push_edges idx dir pol cur (dir_edges idx dir (qi_id cur)) vis" "(new, vis1) = nv"
  have "card (ends idx - set vis1) + length new \<le> card (ends idx - set vis)"
    using push_edges_measure [of idx dir pol cur "dir_edges idx dir (qi_id cur)" vis new vis1 "ends idx"] n far_end_in by auto
  then show "((idx, dir, mode, mx, pol, rest @ new, vis1), idx, dir, mode, mx, pol, q, vis)
      \<in> measure (\<lambda>(idx, dir, mode, mx, pol, q, vis). card (ends idx - set vis) + length q)"
    using p pop_length by fastforce
qed simp

definition TraverseWithPolicy :: "adjacencyIndex \<Rightarrow> string \<Rightarrow> string \<Rightarrow> traversalMode \<Rightarrow> int \<Rightarrow> traversalPolicy
    \<Rightarrow> traversalResult list" where
  "TraverseWithPolicy idx start dir mode maxDepth pol =
     (if node_of idx start = None then []
      else trav_loop idx dir mode maxDepth pol
        [\<lparr>qi_id = start, qi_via = None, qi_depth = 0, qi_terminal = False, qi_structural = False\<rparr>] [start])"

definition Traverse :: "adjacencyIndex \<Rightarrow> string \<Rightarrow> string \<Rightarrow> traversalMode \<Rightarrow> int \<Rightarrow> traversalResult list" where
  "Traverse idx start dir mode maxDepth = TraverseWithPolicy idx start dir mode maxDepth RawPolicy"

definition Ancestors :: "adjacencyIndex \<Rightarrow> string \<Rightarrow> int \<Rightarrow> traversalResult list" where
  "Ancestors idx start maxDepth = Traverse idx start DirIn BFS maxDepth"

definition AncestorsWithPolicy :: "adjacencyIndex \<Rightarrow> string \<Rightarrow> int \<Rightarrow> traversalPolicy \<Rightarrow> traversalResult list" where
  "AncestorsWithPolicy idx start maxDepth pol = TraverseWithPolicy idx start DirIn BFS maxDepth pol"

definition Descendants :: "adjacencyIndex \<Rightarrow> string \<Rightarrow> int \<Rightarrow> traversalResult list" where
  "Descendants idx start maxDepth = Traverse idx start DirOut BFS maxDepth"

declare trav_loop.simps [simp del]

end
