(* ===== verification/Frontier.thy ===== *)
theory Frontier
  imports Prelude
begin

text \<open>
  Breadth-first search, once for all searches of the code: the state is a queue of nodes with their
  depths and a set of visited nodes. The locale shows that a queue that is worked off in order holds
  every node at its distance from the sources, under a limit on the depths that are expanded.
\<close>

section \<open>Distances\<close>

primrec reach_in :: "('v \<Rightarrow> 'v list) \<Rightarrow> 'v set \<Rightarrow> nat \<Rightarrow> 'v \<Rightarrow> bool" where
  "reach_in adj S 0 v \<longleftrightarrow> v \<in> S"
| "reach_in adj S (Suc n) v \<longleftrightarrow> (\<exists>u. reach_in adj S n u \<and> v \<in> set (adj u))"

text \<open>The distance from the sources is \<open>n\<close>.\<close>

definition at_dist :: "('v \<Rightarrow> 'v list) \<Rightarrow> 'v set \<Rightarrow> nat \<Rightarrow> 'v \<Rightarrow> bool" where
  "at_dist adj S n v \<longleftrightarrow> reach_in adj S n v \<and> (\<forall>m < n. \<not> reach_in adj S m v)"

lemma at_dist_unique: "at_dist adj S n v \<Longrightarrow> at_dist adj S m v \<Longrightarrow> n = m"
  by (metis at_dist_def linorder_neqE_nat)

lemma reach_at_dist: "reach_in adj S n v \<Longrightarrow> \<exists>m \<le> n. at_dist adj S m v"
  using exists_least_iff [of "\<lambda>n. reach_in adj S n v"] unfolding at_dist_def by (metis not_le)

lemma at_dist_pred:
  assumes "at_dist adj S (Suc n) v"
  obtains u where "at_dist adj S n u" "v \<in> set (adj u)"
proof -
  from assms obtain u where u: "reach_in adj S n u" "v \<in> set (adj u)" by (auto simp: at_dist_def)
  have "\<not> reach_in adj S m u" if "m < n" for m
  proof
    assume "reach_in adj S m u"
    then have "reach_in adj S (Suc m) v" using u(2) by auto
    then show False using assms that by (simp add: at_dist_def del: reach_in.simps)
  qed
  then show thesis using that u by (auto simp: at_dist_def)
qed

lemma reach_in_star: "(\<exists>n. reach_in adj S n v) \<longleftrightarrow> (\<exists>s \<in> S. (\<lambda>a b. b \<in> set (adj a))\<^sup>*\<^sup>* s v)"
proof
  assume "\<exists>n. reach_in adj S n v"
  then obtain n where "reach_in adj S n v" ..
  then show "\<exists>s \<in> S. (\<lambda>a b. b \<in> set (adj a))\<^sup>*\<^sup>* s v"
    by (induction n arbitrary: v) (auto intro: rtranclp.rtrancl_into_rtrancl)
next
  assume "\<exists>s \<in> S. (\<lambda>a b. b \<in> set (adj a))\<^sup>*\<^sup>* s v"
  then obtain s where "s \<in> S" "(\<lambda>a b. b \<in> set (adj a))\<^sup>*\<^sup>* s v" by blast
  from this(2,1) show "\<exists>n. reach_in adj S n v"
  proof (induction rule: rtranclp_induct)
    case base
    then show ?case by (metis reach_in.simps(1))
  next
    case (step u v)
    then show ?case by (metis reach_in.simps(2))
  qed
qed

section \<open>The queue\<close>

locale bfs_frontier =
  fixes adj :: "'v \<Rightarrow> 'v list" and S :: "'v set" and expands :: "nat \<Rightarrow> bool"
  assumes finite_limit: "expands (Suc d) \<Longrightarrow> expands d"
begin

text \<open>The depths that are reported: all nodes on the way were expanded.\<close>

definition near :: "nat \<Rightarrow> bool" where
  "near d \<longleftrightarrow> (d = 0 \<or> expands (d - 1))"

lemma near_Suc: "near (Suc d) \<Longrightarrow> near d \<and> expands d"
  using finite_limit by (cases d) (auto simp: near_def)

lemma near_le: "near d \<Longrightarrow> m \<le> d \<Longrightarrow> near m"
  using near_Suc by (induction d) (auto simp: le_Suc_eq)

definition frontier :: "('v \<times> nat) list \<Rightarrow> 'v set \<Rightarrow> bool" where
  "frontier q vis \<longleftrightarrow> S \<subseteq> vis \<and> distinct (map fst q) \<and> sorted (map snd q)
     \<and> (\<forall>x \<in> set q. fst x \<in> vis \<and> at_dist adj S (snd x) (fst x) \<and> near (snd x) \<and> snd x \<le> Suc (snd (hd q)))
     \<and> (\<forall>v \<in> vis. \<forall>d. at_dist adj S d v \<longrightarrow> expands d \<longrightarrow> v \<in> fst ` set q \<or> set (adj v) \<subseteq> vis)"

text \<open>The rows that are still to come.\<close>

definition outcome :: "('v \<times> nat) list \<Rightarrow> 'v set \<Rightarrow> ('v \<times> nat) set" where
  "outcome q vis = set q \<union> {(v, d). at_dist adj S d v \<and> near d \<and> v \<notin> vis}"

lemma frontier_init:
  assumes "distinct vs" "set vs = S"
  shows "frontier (map (\<lambda>v. (v, 0)) vs) S" "outcome (map (\<lambda>v. (v, 0)) vs) S = {(v, d). at_dist adj S d v \<and> near d}"
proof -
  have fq: "fst ` (\<lambda>v. (v, 0 :: nat)) ` S = S" by force
  have mono: "sorted (map (\<lambda>v. 0 :: nat) vs)" by (induction vs) auto
  show "frontier (map (\<lambda>v. (v, 0)) vs) S"
    using assms mono by (auto simp: frontier_def near_def at_dist_def o_def image_image)
  have "at_dist adj S d v \<longleftrightarrow> d = 0" if "v \<in> S" for v d
    using that by (cases d) (auto simp: at_dist_def)
  then show "outcome (map (\<lambda>v. (v, 0)) vs) S = {(v, d). at_dist adj S d v \<and> near d}"
    using assms(2) by (auto simp: outcome_def near_def at_dist_def)
qed

text \<open>Every node up to the depth at the head of the queue has been visited.\<close>

lemma visited_upto:
  assumes "frontier q vis" "at_dist adj S m v" "near m" "q \<noteq> [] \<Longrightarrow> m \<le> snd (hd q)"
  shows "v \<in> vis"
  using assms(2-4)
proof (induction m arbitrary: v)
  case 0
  then show ?case using assms(1) by (auto simp: frontier_def at_dist_def)
next
  case (Suc m)
  from Suc.prems(1) obtain u where u: "at_dist adj S m u" "v \<in> set (adj u)" by (rule at_dist_pred)
  have nm: "near m" "expands m" using near_Suc [OF Suc.prems(2)] by simp_all
  have uv: "u \<in> vis" by (rule Suc.IH [OF u(1) nm(1)]) (use Suc.prems(3) in simp)
  have "u \<notin> fst ` set q"
  proof
    assume "u \<in> fst ` set q"
    then obtain d where d: "(u, d) \<in> set q" by auto
    then have "at_dist adj S d u" using assms(1) by (auto simp: frontier_def)
    then have "d = m" by (rule at_dist_unique [OF _ u(1)])
    moreover have "sorted (map snd q)" using assms(1) by (simp add: frontier_def)
    then have "snd (hd q) \<le> d" using d by (cases q) auto
    moreover have "q \<noteq> []" using d by auto
    ultimately show False using Suc.prems(3) by simp
  qed
  then show ?case using assms(1) uv u nm(2) unfolding frontier_def by blast
qed

lemma outcome_empty: "frontier [] vis \<Longrightarrow> outcome [] vis = {}"
  using visited_upto [of "[]" vis] by (auto simp: outcome_def)

lemma frontier_stop:
  assumes "frontier ((v, d) # q) vis" "\<not> expands d"
  shows "frontier q vis" "outcome ((v, d) # q) vis = insert (v, d) (outcome q vis)"
proof -
  note f = assms(1) [unfolded frontier_def]
  have "snd x \<le> Suc (snd (hd q))" if "x \<in> set q" for x
  proof -
    have "d \<le> snd (hd q)" using f that by (cases q) auto
    then show ?thesis using f that by fastforce
  qed
  moreover have "w \<in> fst ` set q \<or> set (adj w) \<subseteq> vis" if "w \<in> vis" "at_dist adj S e w" "expands e" for w e
  proof -
    have "w \<noteq> v" using f that assms(2) at_dist_unique by fastforce
    moreover have "w \<in> fst ` set ((v, d) # q) \<or> set (adj w) \<subseteq> vis" using f that by blast
    ultimately show ?thesis by simp
  qed
  ultimately show "frontier q vis" using f by (simp add: frontier_def)
  show "outcome ((v, d) # q) vis = insert (v, d) (outcome q vis)" by (auto simp: outcome_def)
qed

text \<open>
  The head is expanded: its new neighbours go to the end of the queue. More nodes may be marked as
  visited, when they cannot be reached (\<open>dropped\<close>).
\<close>

lemma frontier_expand:
  assumes fr: "frontier ((v, d) # q) vis" and ex: "expands d"
    and new: "distinct new" "set new = set (adj v) - vis" and vis': "vis' = vis \<union> set new \<union> dropped"
    and dropped: "\<And>w n. w \<in> dropped \<Longrightarrow> \<not> reach_in adj S n w"
  shows "frontier (q @ map (\<lambda>w. (w, Suc d)) new) vis'"
    "outcome ((v, d) # q) vis = insert (v, d) (outcome (q @ map (\<lambda>w. (w, Suc d)) new) vis')"
proof -
  note f = fr [unfolded frontier_def]
  have v: "at_dist adj S d v" "near d" using f by auto
  have news: "at_dist adj S (Suc d) w" if "w \<in> set new" for w
  proof -
    have w: "w \<in> set (adj v)" "w \<notin> vis" using that new(2) by auto
    have r: "reach_in adj S (Suc d) w" using v(1) w(1) by (auto simp: at_dist_def)
    have "\<not> reach_in adj S m w" if "m < Suc d" for m
    proof
      assume "reach_in adj S m w"
      from reach_at_dist [OF this] obtain k where k: "k \<le> m" "at_dist adj S k w" by blast
      have "k \<le> d" using k(1) that by simp
      then have "w \<in> vis" using visited_upto [OF fr k(2) near_le [OF v(2)]] by simp
      then show False using w(2) by simp
    qed
    then show ?thesis using r by (simp add: at_dist_def del: reach_in.simps)
  qed
  let ?q = "q @ map (\<lambda>w. (w, Suc d)) new"
  have le: "snd x \<le> Suc d" "d \<le> snd x" if "x \<in> set q" for x using f that by auto
  have hd: "d \<le> snd (hd ?q)" if "?q \<noteq> []"
  proof (cases q)
    case Nil
    then show ?thesis using that by (cases new) simp_all
  next
    case (Cons x xs)
    then show ?thesis using le(2) [of x] by simp
  qed
  have "distinct (map fst ?q)"
  proof -
    have "fst ` set q \<inter> set new = {}" using f new(2) by auto
    then show ?thesis using f new(1) by (auto simp: o_def)
  qed
  moreover have "sorted (map snd ?q)"
  proof -
    have "sorted (map (\<lambda>w. Suc d) new)" by (induction new) auto
    then show ?thesis using f le(1) by (auto simp: sorted_append o_def)
  qed
  moreover have "fst x \<in> vis' \<and> at_dist adj S (snd x) (fst x) \<and> near (snd x) \<and> snd x \<le> Suc (snd (hd ?q))"
    if x: "x \<in> set ?q" for x
  proof -
    have "snd x \<le> Suc d" using x le(1) [of x] by fastforce
    then have "snd x \<le> Suc (snd (hd ?q))" using hd x by fastforce
    moreover have "near (Suc d)" using ex by (simp add: near_def)
    ultimately show ?thesis using x f news vis' by auto
  qed
  moreover have "w \<in> fst ` set ?q \<or> set (adj w) \<subseteq> vis'" if w: "w \<in> vis'" "at_dist adj S e w" "expands e" for w e
  proof -
    have "w \<notin> dropped" using dropped w(2) by (auto simp: at_dist_def)
    then consider "w \<in> set new" | "w = v" | "w \<noteq> v" "w \<in> vis" using w(1) vis' by auto
    then show ?thesis
    proof cases
      case 1
      then show ?thesis by force
    next
      case 2
      then show ?thesis using new(2) vis' by auto
    next
      case 3
      then have "w \<in> fst ` set ((v, d) # q) \<or> set (adj w) \<subseteq> vis" using f w(2,3) by blast
      then show ?thesis using vis' 3 by auto
    qed
  qed
  ultimately show "frontier ?q vis'" using f vis' by (auto simp: frontier_def)
  have "at_dist adj S e w \<and> near e \<and> w \<notin> vis \<longleftrightarrow> w \<in> set new \<and> e = Suc d \<or> at_dist adj S e w \<and> near e \<and> w \<notin> vis'" for w e
  proof (cases "w \<in> set new")
    case True
    moreover have "near (Suc d)" using ex by (simp add: near_def)
    ultimately show ?thesis using news [OF True] at_dist_unique [of adj S e w "Suc d"] new(2) vis' by auto
  next
    case False
    have "w \<notin> dropped" if "at_dist adj S e w" using that dropped by (auto simp: at_dist_def)
    then show ?thesis using False vis' by auto
  qed
  then show "outcome ((v, d) # q) vis = insert (v, d) (outcome ?q vis')" by (auto simp: outcome_def)
qed

text \<open>What comes after the head is another node, at the same depth or deeper.\<close>

lemma outcome_ge: "frontier q vis \<Longrightarrow> x \<in> outcome q vis \<Longrightarrow> q \<noteq> [] \<and> snd (hd q) \<le> snd x"
proof -
  assume fr: "frontier q vis" and x: "x \<in> outcome q vis"
  have ne: "q \<noteq> []" using outcome_empty fr x by auto
  have "sorted (map snd q)" using fr by (simp add: frontier_def)
  then have "snd (hd q) \<le> snd x" if "x \<in> set q" using that by (cases q) auto
  moreover have "snd (hd q) \<le> snd x" if "at_dist adj S (snd x) (fst x)" "near (snd x)" "fst x \<notin> vis"
    using visited_upto [OF fr that(1,2)] that(3) by fastforce
  ultimately show ?thesis using ne x by (auto simp: outcome_def)
qed

lemma head_depth: "frontier ((v, d) # q) vis \<Longrightarrow> v \<in> vis \<and> v \<notin> fst ` set q \<and> (\<forall>x \<in> set q. d \<le> snd x)"
  by (auto simp: frontier_def)

lemma outcome_late:
  assumes fr: "frontier ((v, d) # q) vis"
  shows "\<not> expands d \<Longrightarrow> x \<in> outcome q vis \<Longrightarrow> fst x \<noteq> v \<and> d \<le> snd x"
    and "expands d \<Longrightarrow> distinct new \<Longrightarrow> set new = set (adj v) - vis \<Longrightarrow> vis' = vis \<union> set new \<union> dropped \<Longrightarrow>
      (\<And>w n. w \<in> dropped \<Longrightarrow> \<not> reach_in adj S n w) \<Longrightarrow>
      x \<in> outcome (q @ map (\<lambda>w. (w, Suc d)) new) vis' \<Longrightarrow> fst x \<noteq> v \<and> d \<le> snd x"
proof -
  note h = head_depth [OF fr]
  show "fst x \<noteq> v \<and> d \<le> snd x" if ex: "\<not> expands d" and x: "x \<in> outcome q vis"
  proof -
    note g = outcome_ge [OF frontier_stop(1) [OF fr ex] x]
    have "d \<le> snd (hd q)" using h g by (cases q) auto
    then have "d \<le> snd x" using g by linarith
    moreover have "fst x \<noteq> v" using h x by (auto simp: outcome_def)
    ultimately show ?thesis by simp
  qed
  show "fst x \<noteq> v \<and> d \<le> snd x" if ex: "expands d" and new: "distinct new" "set new = set (adj v) - vis"
    and vis': "vis' = vis \<union> set new \<union> dropped" and dr: "\<And>w n. w \<in> dropped \<Longrightarrow> \<not> reach_in adj S n w"
    and x: "x \<in> outcome (q @ map (\<lambda>w. (w, Suc d)) new) vis'"
  proof -
    let ?q = "q @ map (\<lambda>w. (w, Suc d)) new"
    have "?q \<noteq> [] \<and> snd (hd ?q) \<le> snd x" by (rule outcome_ge [OF _ x]) (rule frontier_expand(1) [OF fr ex new vis' dr])
    moreover have "d \<le> snd (hd ?q)" if "?q \<noteq> []"
      using h that by (cases q; cases new) auto
    ultimately have "d \<le> snd x" by fastforce
    moreover have "fst x \<noteq> v" using h new(2) vis' x by (auto simp: outcome_def)
    ultimately show ?thesis by simp
  qed
qed

end

end
