(* ===== verification/Traversal.thy ===== *)
theory Traversal
  imports Flow_Graph Frontier "HOL-Library.Multiset"
begin

text \<open>
  What a traversal reports. Breadth-first search reports every node within the depth limit once, at
  its distance, in order of distance; an unlimited search reports the nodes that can be reached, in
  either mode; each row hangs on an edge from the start or from an earlier row; and ancestors and
  descendants are the same relation read from its two ends.
\<close>

section \<open>The graph of a traversal\<close>

definition dropped :: "adjacencyIndex \<Rightarrow> traversalPolicy \<Rightarrow> string \<Rightarrow> bool" where
  "dropped idx pol v \<longleftrightarrow> tp_dropLocals pol \<and> isLocalVariable (node_of idx v)"

definition trav_adj :: "adjacencyIndex \<Rightarrow> string \<Rightarrow> traversalPolicy \<Rightarrow> string \<Rightarrow> string list" where
  "trav_adj idx dir pol v = filter (\<lambda>w. \<not> dropped idx pol w) (map (far_end dir) (dir_edges idx dir v))"

definition no_terminal :: "traversalPolicy \<Rightarrow> bool" where
  "no_terminal pol \<longleftrightarrow> (\<forall>t. \<not> tp_terminal pol t)"

abbreviation qi_row :: "queueItem \<Rightarrow> string \<times> nat" where
  "qi_row i \<equiv> (qi_id i, qi_depth i)"

abbreviation tr_row :: "traversalResult \<Rightarrow> string \<times> nat" where
  "tr_row r \<equiv> (tr_id r, tr_depth r)"

text \<open>What the loop over the edges of one item pushes.\<close>

definition pushed_as :: "string \<Rightarrow> traversalPolicy \<Rightarrow> queueItem \<Rightarrow> edge list \<Rightarrow> queueItem \<Rightarrow> bool" where
  "pushed_as dir pol cur es i \<longleftrightarrow> qi_depth i = Suc (qi_depth cur) \<and> (\<exists>e \<in> set es. qi_via i = Some e \<and> far_end dir e = qi_id i
     \<and> qi_terminal i = tp_terminal pol (ed_type e)
     \<and> qi_structural i = (qi_structural cur \<or> structuralEdgeTypes (ed_type e)))"

lemma push_edges_all:
  assumes "push_edges idx dir pol cur es vis = (q, vis')"
  shows "distinct (map qi_id q)
    \<and> set (map qi_id q) = {w \<in> far_end dir ` set es. \<not> dropped idx pol w} - set vis
    \<and> set vis' = set vis \<union> far_end dir ` set es \<and> (\<forall>i \<in> set q. pushed_as dir pol cur es i)"
  using assms
proof (induction es arbitrary: vis vis' q)
  case (Cons e es)
  let ?v = "far_end dir e"
  let ?item = "\<lparr>qi_id = ?v, qi_via = Some e, qi_depth = Suc (qi_depth cur), qi_terminal = tp_terminal pol (ed_type e),
    qi_structural = (qi_structural cur \<or> structuralEdgeTypes (ed_type e))\<rparr>"
  have more: "pushed_as dir pol cur es i \<Longrightarrow> pushed_as dir pol cur (e # es) i" for i by (auto simp: pushed_as_def)
  have item: "pushed_as dir pol cur (e # es) ?item" by (simp add: pushed_as_def)
  obtain q1 v1 where rest: "push_edges idx dir pol cur es (?v # vis) = (q1, v1)" by (rule prod.exhaust)
  consider "?v \<in> set vis" "push_edges idx dir pol cur es vis = (q, vis')"
    | "?v \<notin> set vis" "dropped idx pol ?v" "q1 = q" "v1 = vis'"
    | "?v \<notin> set vis" "\<not> dropped idx pol ?v" "v1 = vis'" "q = ?item # q1"
    using Cons.prems rest by (auto simp: Let_def dropped_def split: if_splits)
  then show ?case
  proof cases
    case 1
    show ?thesis using Cons.IH [OF 1(2)] 1(1) more by auto
  next
    case 2
    show ?thesis using Cons.IH [OF rest] 2 more by auto
  next
    case 3
    show ?thesis using Cons.IH [OF rest] 3 more item by auto
  qed
qed simp

lemmas push_edges_spec = push_edges_all [THEN conjunct1] push_edges_all [THEN conjunct2, THEN conjunct1]
  push_edges_all [THEN conjunct2, THEN conjunct2, THEN conjunct1]
  push_edges_all [THEN conjunct2, THEN conjunct2, THEN conjunct2]

lemma push_adj:
  assumes "push_edges idx dir pol cur (dir_edges idx dir (qi_id cur)) vis = (q, vis')"
  shows "set (map qi_id q) = set (trav_adj idx dir pol (qi_id cur)) - set vis"
  using push_edges_spec(2) [OF assms] by (auto simp: trav_adj_def)

lemma dropped_unreached:
  assumes "dropped idx pol w" "w \<noteq> start"
  shows "\<not> reach_in (trav_adj idx dir pol) {start} n w"
  using assms by (cases n) (auto simp: trav_adj_def)

section \<open>Breadth-first search\<close>

interpretation trav: bfs_frontier "trav_adj idx dir pol" "{start}" "\<lambda>d. maxDepth \<le> 0 \<or> int d < maxDepth"
  for idx dir pol start and maxDepth :: int
  by unfold_locales auto

text \<open>\<open>TraverseWithPolicy\<close> follows the contract of the search, one pop at a time.\<close>

lemma bfs_loop:
  assumes "mode = BFS" "no_terminal pol" "\<forall>i \<in> set q. \<not> qi_terminal i" "start \<in> set vis"
    and "trav.frontier idx dir pol start maxDepth (map qi_row q) (set vis)"
  shows "tr_row ` set (trav_loop idx dir mode maxDepth pol q vis)
      = {x \<in> trav.outcome idx dir pol start maxDepth (map qi_row q) (set vis). 0 < snd x}
    \<and> distinct (map tr_id (trav_loop idx dir mode maxDepth pol q vis))
    \<and> sorted (map tr_depth (trav_loop idx dir mode maxDepth pol q vis))"
  using assms
proof (induction idx dir mode maxDepth pol q vis rule: trav_loop.induct)
  case (1 idx dir mode maxDepth pol q vis)
  show ?case
  proof (cases q)
    case Nil
    then show ?thesis using trav.outcome_empty "1.prems"(5) by (simp add: trav_loop.simps pop_def)
  next
    case (Cons cur rest)
    have pop: "pop mode q = Some (cur, rest)" using Cons "1.prems"(1) by (simp add: pop_def)
    have fr: "trav.frontier idx dir pol start maxDepth ((qi_id cur, qi_depth cur) # map qi_row rest) (set vis)"
      using "1.prems"(5) Cons by simp
    note f = fr [unfolded trav.frontier_def]
    have halt: "halts maxDepth cur \<longleftrightarrow> \<not> (maxDepth \<le> 0 \<or> int (qi_depth cur) < maxDepth)"
      using "1.prems"(3) Cons by (auto simp: halts_def)
    have step: "tr_row ` set (report idx cur @ rs) = {x \<in> insert (qi_row cur) O'. 0 < snd x}
        \<and> distinct (map tr_id (report idx cur @ rs)) \<and> sorted (map tr_depth (report idx cur @ rs))"
      if rs: "tr_row ` set rs = {x \<in> O'. 0 < snd x}" "distinct (map tr_id rs)" "sorted (map tr_depth rs)"
        and late: "\<And>x. x \<in> O' \<Longrightarrow> fst x \<noteq> qi_id cur \<and> qi_depth cur \<le> snd x" for rs and O' :: "(string \<times> nat) set"
    proof -
      have lr: "qi_id cur \<noteq> tr_id r \<and> qi_depth cur \<le> tr_depth r" if "r \<in> set rs" for r
      proof -
        have "tr_row r \<in> O'" using rs(1) that by blast
        then show ?thesis using late [of "tr_row r"] by force
      qed
      then have "qi_id cur \<notin> tr_id ` set rs" by blast
      then show ?thesis using rs lr by (auto simp: report_def)
    qed
    show ?thesis
    proof (cases "halts maxDepth cur")
      case True
      then have ex: "\<not> (maxDepth \<le> 0 \<or> int (qi_depth cur) < maxDepth)" using halt by simp
      note st = trav.frontier_stop [OF fr ex]
      have ih: "tr_row ` set (trav_loop idx dir mode maxDepth pol rest vis)
          = {x \<in> trav.outcome idx dir pol start maxDepth (map qi_row rest) (set vis). 0 < snd x}
        \<and> distinct (map tr_id (trav_loop idx dir mode maxDepth pol rest vis))
        \<and> sorted (map tr_depth (trav_loop idx dir mode maxDepth pol rest vis))"
        by (rule "1.IH"(1) [OF pop refl True "1.prems"(1,2) _ "1.prems"(4) st(1)]) (use "1.prems"(3) Cons in simp)
      have eq: "trav_loop idx dir mode maxDepth pol q vis = report idx cur @ trav_loop idx dir mode maxDepth pol rest vis"
        by (subst trav_loop.simps) (simp add: pop True)
      have late: "fst x \<noteq> qi_id cur \<and> qi_depth cur \<le> snd x"
        if "x \<in> trav.outcome idx dir pol start maxDepth (map qi_row rest) (set vis)" for x
        using trav.outcome_late(1) [OF fr ex that] by simp
      have oq: "trav.outcome idx dir pol start maxDepth (map qi_row q) (set vis)
          = insert (qi_row cur) (trav.outcome idx dir pol start maxDepth (map qi_row rest) (set vis))" using st(2) Cons by simp
      show ?thesis unfolding eq oq
        by (rule step [OF ih [THEN conjunct1] ih [THEN conjunct2, THEN conjunct1] ih [THEN conjunct2, THEN conjunct2] late])
    next
      case False
      then have ex: "maxDepth \<le> 0 \<or> int (qi_depth cur) < maxDepth" using halt by simp
      obtain new vis1 where pe: "push_edges idx dir pol cur (dir_edges idx dir (qi_id cur)) vis = (new, vis1)" by (rule prod.exhaust)
      note ps = push_edges_spec [OF pe]
      have rows: "map qi_row new = map (\<lambda>w. (w, Suc (qi_depth cur))) (map qi_id new)" using ps(4) by (simp add: pushed_as_def)
      have new: "distinct (map qi_id new)" "set (map qi_id new) = set (trav_adj idx dir pol (qi_id cur)) - set vis"
        using ps(1) push_adj [OF pe] by simp_all
      have vis1: "set vis1 = set vis \<union> set (map qi_id new) \<union> {w \<in> far_end dir ` set (dir_edges idx dir (qi_id cur)) - set vis. dropped idx pol w}"
        using ps(3) new(2) by (auto simp: trav_adj_def)
      have un: "\<not> reach_in (trav_adj idx dir pol) {start} n w"
        if "w \<in> {w \<in> far_end dir ` set (dir_edges idx dir (qi_id cur)) - set vis. dropped idx pol w}" for w n
        using dropped_unreached [of idx pol w start] that "1.prems"(4) by auto
      note st = trav.frontier_expand [OF fr ex new vis1 un, folded rows]
      have ih: "tr_row ` set (trav_loop idx dir mode maxDepth pol (rest @ new) vis1)
          = {x \<in> trav.outcome idx dir pol start maxDepth (map qi_row (rest @ new)) (set vis1). 0 < snd x}
        \<and> distinct (map tr_id (trav_loop idx dir mode maxDepth pol (rest @ new) vis1))
        \<and> sorted (map tr_depth (trav_loop idx dir mode maxDepth pol (rest @ new) vis1))"
      proof (rule "1.IH"(2) [OF pop refl False pe [symmetric] refl "1.prems"(1,2)])
        show "\<forall>i \<in> set (rest @ new). \<not> qi_terminal i"
          using "1.prems"(2,3) Cons ps(4) by (auto simp: no_terminal_def pushed_as_def)
        show "start \<in> set vis1" using "1.prems"(4) ps(3) by simp
        show "trav.frontier idx dir pol start maxDepth (map qi_row (rest @ new)) (set vis1)" using st(1) by simp
      qed
      have eq: "trav_loop idx dir mode maxDepth pol q vis = report idx cur @ trav_loop idx dir mode maxDepth pol (rest @ new) vis1"
        by (subst trav_loop.simps) (simp add: pop False pe)
      have late: "fst x \<noteq> qi_id cur \<and> qi_depth cur \<le> snd x"
        if "x \<in> trav.outcome idx dir pol start maxDepth (map qi_row (rest @ new)) (set vis1)" for x
        using trav.outcome_late(2) [OF fr ex new vis1 un, of x] that rows by simp
      have oq: "trav.outcome idx dir pol start maxDepth (map qi_row q) (set vis)
          = insert (qi_row cur) (trav.outcome idx dir pol start maxDepth (map qi_row (rest @ new)) (set vis1))"
        using st(2) Cons by simp
      show ?thesis unfolding eq oq
        by (rule step [OF ih [THEN conjunct1] ih [THEN conjunct2, THEN conjunct1] ih [THEN conjunct2, THEN conjunct2] late])
    qed
  qed
qed

lemma bfs_rows:
  fixes dir :: string and maxDepth :: int
  assumes "node_of idx start \<noteq> None" "no_terminal pol"
  defines "rs \<equiv> TraverseWithPolicy idx start dir BFS maxDepth pol"
  shows "distinct (map tr_id rs) \<and> sorted (map tr_depth rs)
    \<and> (\<forall>v d. (v, d) \<in> tr_row ` set rs \<longleftrightarrow>
          0 < d \<and> at_dist (trav_adj idx dir pol) {start} d v \<and> (maxDepth \<le> 0 \<or> int d \<le> maxDepth))"
proof -
  let ?q = "[\<lparr>qi_id = start, qi_via = None, qi_depth = 0, qi_terminal = False, qi_structural = False\<rparr>]"
  have rs: "rs = trav_loop idx dir BFS maxDepth pol ?q [start]" using assms(1) by (auto simp: rs_def TraverseWithPolicy_def)
  have i: "trav.frontier idx dir pol start maxDepth (map qi_row ?q) (set [start])"
    "trav.outcome idx dir pol start maxDepth (map qi_row ?q) (set [start])
      = {(v, d). at_dist (trav_adj idx dir pol) {start} d v \<and> trav.near maxDepth d}"
    using trav.frontier_init [of "[start]" start idx dir pol maxDepth] by simp_all
  have "\<forall>i \<in> set ?q. \<not> qi_terminal i" "start \<in> set [start]" by simp_all
  note l = bfs_loop [OF refl assms(2) this i(1), folded rs, unfolded i(2)]
  have "trav.near maxDepth d \<longleftrightarrow> maxDepth \<le> 0 \<or> int d \<le> maxDepth" if "0 < d" for d
    using that by (auto simp: trav.near_def)
  then show ?thesis using l by auto
qed

section \<open>The search tree\<close>

text \<open>
  A row hangs on an edge from the start, or from the node of another row, one level up; it is
  structural when an edge on this path is.
\<close>

definition hangs :: "adjacencyIndex \<Rightarrow> string \<Rightarrow> string \<Rightarrow> traversalResult list \<Rightarrow> string \<Rightarrow> edge option \<Rightarrow> nat \<Rightarrow> bool \<Rightarrow> bool" where
  "hangs idx dir start rs v via d st \<longleftrightarrow> (\<exists>e. via = Some e \<and> far_end dir e = v
     \<and> (e \<in> set (dir_edges idx dir start) \<and> d = 1 \<and> st = structuralEdgeTypes (ed_type e)
        \<or> (\<exists>p \<in> set rs. e \<in> set (dir_edges idx dir (tr_id p)) \<and> d = Suc (tr_depth p)
              \<and> st = (tr_structural p \<or> structuralEdgeTypes (ed_type e)))))"

lemma hangs_mono: "hangs idx dir start rs v via d st \<Longrightarrow> set rs \<subseteq> set rs' \<Longrightarrow> hangs idx dir start rs' v via d st"
  unfolding hangs_def by blast

definition item_hangs :: "adjacencyIndex \<Rightarrow> string \<Rightarrow> string \<Rightarrow> traversalResult list \<Rightarrow> queueItem \<Rightarrow> bool" where
  "item_hangs idx dir start rs i \<longleftrightarrow> qi_id i = start \<and> qi_depth i = 0 \<and> \<not> qi_structural i
     \<or> 0 < qi_depth i \<and> hangs idx dir start rs (qi_id i) (qi_via i) (qi_depth i) (qi_structural i)"

lemma item_hangs_mono: "item_hangs idx dir start rs i \<Longrightarrow> set rs \<subseteq> set rs' \<Longrightarrow> item_hangs idx dir start rs' i"
  unfolding item_hangs_def using hangs_mono by blast

lemma pop_mset:
  assumes "pop mode q = Some (cur, rest)"
  shows "mset q = add_mset cur (mset rest)"
proof (cases "mode = BFS")
  case True
  then show ?thesis using assms by (cases q) (simp_all add: pop_def)
next
  case False
  then show ?thesis using assms by (cases q rule: rev_cases) (simp_all add: pop_def)
qed

lemma pop_set: "pop mode q = Some (cur, rest) \<Longrightarrow> set q = insert cur (set rest)"
  using pop_mset by (metis set_mset_add_mset_insert set_mset_mset)

lemma loop_tree:
  assumes "\<forall>i \<in> set q. item_hangs idx dir start seen i"
  shows "\<forall>r \<in> set (trav_loop idx dir mode maxDepth pol q vis).
    hangs idx dir start (seen @ trav_loop idx dir mode maxDepth pol q vis) (tr_id r) (tr_via r) (tr_depth r) (tr_structural r)"
  using assms
proof (induction idx dir mode maxDepth pol q vis arbitrary: seen rule: trav_loop.induct)
  case (1 idx dir mode maxDepth pol q vis)
  show ?case
  proof (cases "pop mode q")
    case None
    then show ?thesis by (simp add: trav_loop.simps)
  next
    case (Some cr)
    obtain cur rest where cr: "cr = (cur, rest)" by (rule prod.exhaust)
    have cur: "item_hangs idx dir start seen cur" and rest: "\<forall>i \<in> set rest. item_hangs idx dir start seen i"
      using "1.prems" pop_set Some cr by auto
    let ?seen = "seen @ report idx cur"
    have rest': "\<forall>i \<in> set rest. item_hangs idx dir start ?seen i" using rest item_hangs_mono by fastforce
    have rep: "hangs idx dir start rs (tr_id r) (tr_via r) (tr_depth r) (tr_structural r)"
      if "r \<in> set (report idx cur)" "set seen \<subseteq> set rs" for r rs
      using that cur hangs_mono [OF _ that(2)] by (auto simp: report_def item_hangs_def split: if_splits)
    have fin: "\<forall>r \<in> set (report idx cur @ ts). hangs idx dir start (seen @ report idx cur @ ts) (tr_id r) (tr_via r) (tr_depth r) (tr_structural r)"
      if "\<forall>r \<in> set ts. hangs idx dir start (?seen @ ts) (tr_id r) (tr_via r) (tr_depth r) (tr_structural r)" for ts
      using that rep by auto
    show ?thesis
    proof (cases "halts maxDepth cur")
      case True
      have "trav_loop idx dir mode maxDepth pol q vis = report idx cur @ trav_loop idx dir mode maxDepth pol rest vis"
        by (subst trav_loop.simps) (simp add: Some cr True)
      then show ?thesis using fin "1.IH"(1) [OF Some cr [symmetric] True rest'] by simp
    next
      case False
      obtain new vis1 where pe: "push_edges idx dir pol cur (dir_edges idx dir (qi_id cur)) vis = (new, vis1)" by (rule prod.exhaust)
      have "item_hangs idx dir start ?seen i" if "i \<in> set new" for i
      proof -
        from push_edges_spec(4) [OF pe] that obtain e where e: "e \<in> set (dir_edges idx dir (qi_id cur))" "qi_via i = Some e"
          "far_end dir e = qi_id i" "qi_structural i = (qi_structural cur \<or> structuralEdgeTypes (ed_type e))" "qi_depth i = Suc (qi_depth cur)"
          by (auto simp: pushed_as_def)
        show ?thesis
        proof (cases "qi_depth cur = 0")
          case True
          then have "qi_id cur = start" "\<not> qi_structural cur" using cur by (auto simp: item_hangs_def)
          then show ?thesis using e True by (simp add: item_hangs_def hangs_def)
        next
          case False
          then have "\<exists>p \<in> set (report idx cur). tr_id p = qi_id cur \<and> tr_depth p = qi_depth cur \<and> tr_structural p = qi_structural cur"
            by (simp add: report_def)
          then obtain p where p: "p \<in> set ?seen" "tr_id p = qi_id cur" "tr_depth p = qi_depth cur" "tr_structural p = qi_structural cur"
            unfolding set_append by blast
          have "hangs idx dir start ?seen (qi_id i) (qi_via i) (qi_depth i) (qi_structural i)"
            unfolding hangs_def
            by (rule exI [of _ e], intro conjI disjI2, rule e, rule e, rule bexI [OF _ p(1)]) (use e p in simp)
          then show ?thesis using e(5) by (simp add: item_hangs_def)
        qed
      qed
      then have all: "\<forall>i \<in> set (rest @ new). item_hangs idx dir start ?seen i" using rest' by auto
      have "trav_loop idx dir mode maxDepth pol q vis = report idx cur @ trav_loop idx dir mode maxDepth pol (rest @ new) vis1"
        by (subst trav_loop.simps) (simp add: Some cr False pe)
      then show ?thesis using fin "1.IH"(2) [OF Some cr [symmetric] False pe [symmetric] refl all] by simp
    qed
  qed
qed

lemma rows_hang:
  "r \<in> set (TraverseWithPolicy idx start dir mode maxDepth pol) \<Longrightarrow>
    hangs idx dir start (TraverseWithPolicy idx start dir mode maxDepth pol) (tr_id r) (tr_via r) (tr_depth r) (tr_structural r)"
  using loop_tree [of "[\<lparr>qi_id = start, qi_via = None, qi_depth = 0, qi_terminal = False, qi_structural = False\<rparr>]"
    idx dir start "[]" mode maxDepth pol "[start]"]
  by (auto simp: TraverseWithPolicy_def item_hangs_def split: if_splits)

section \<open>Unlimited traversal, in either mode\<close>

definition reaches :: "adjacencyIndex \<Rightarrow> string \<Rightarrow> traversalPolicy \<Rightarrow> string \<Rightarrow> string \<Rightarrow> bool" where
  "reaches idx dir pol = (\<lambda>a b. b \<in> set (trav_adj idx dir pol a))\<^sup>*\<^sup>*"

lemma unlimited_loop:
  assumes "maxDepth \<le> 0" "no_terminal pol" "\<forall>i \<in> set q. \<not> qi_terminal i"
    and "\<forall>i \<in> set q. reaches idx dir pol start (qi_id i) \<and> qi_id i \<in> set vis \<and> (qi_depth i = 0 \<longrightarrow> qi_id i = start)"
    and "distinct (map qi_id q)" "start \<in> set vis"
    and "\<forall>v \<in> set vis. reaches idx dir pol start v \<longrightarrow> v \<in> qi_id ` set q \<or> set (trav_adj idx dir pol v) \<subseteq> set vis"
  shows "tr_id ` set (trav_loop idx dir mode maxDepth pol q vis)
      = {qi_id i |i. i \<in> set q \<and> 0 < qi_depth i} \<union> {v. reaches idx dir pol start v \<and> v \<notin> set vis}
    \<and> distinct (map tr_id (trav_loop idx dir mode maxDepth pol q vis))"
  using assms
proof (induction idx dir mode maxDepth pol q vis rule: trav_loop.induct)
  case (1 idx dir mode maxDepth pol q vis)
  show ?case
  proof (cases "pop mode q")
    case None
    then have q: "q = []" by (auto simp: pop_def split: if_splits)
    have "v \<in> set vis" if "reaches idx dir pol start v" for v
      using that unfolding reaches_def
    proof (induction rule: rtranclp_induct)
      case (step u v)
      then show ?case using "1.prems"(7) q unfolding reaches_def by auto
    qed (rule "1.prems"(6))
    then show ?thesis using q by (auto simp: trav_loop.simps pop_def)
  next
    case (Some cr)
    obtain cur rest where cr: "cr = (cur, rest)" by (rule prod.exhaust)
    have sq: "set q = insert cur (set rest)" using pop_set Some cr by simp
    have dr: "distinct (map qi_id rest)" "qi_id cur \<notin> qi_id ` set rest"
    proof -
      have "mset q = add_mset cur (mset rest)" using pop_mset Some cr by simp
      then have "mset (map qi_id q) = mset (map qi_id (cur # rest))" by simp
      then have "distinct (map qi_id (cur # rest))" using "1.prems"(5) mset_eq_imp_distinct_iff by blast
      then show "distinct (map qi_id rest)" "qi_id cur \<notin> qi_id ` set rest" by simp_all
    qed
    have nh: "\<not> halts maxDepth cur" using "1.prems"(1,3) sq by (auto simp: halts_def)
    obtain new vis1 where pe: "push_edges idx dir pol cur (dir_edges idx dir (qi_id cur)) vis = (new, vis1)" by (rule prod.exhaust)
    note ps = push_edges_spec [OF pe] and pa = push_adj [OF pe]
    have rc: "reaches idx dir pol start (qi_id cur)" using "1.prems"(4) sq by simp
    have nr: "reaches idx dir pol start w" if "w \<in> set (trav_adj idx dir pol (qi_id cur))" for w
      using rc that unfolding reaches_def by (rule rtranclp.rtrancl_into_rtrancl)
    have sv: "set (trav_adj idx dir pol (qi_id cur)) \<subseteq> set vis1" "set vis \<subseteq> set vis1" using ps(3) by (auto simp: trav_adj_def)
    have idn: "qi_id ` set new = set (trav_adj idx dir pol (qi_id cur)) - set vis" using pa by simp
    have gone: "v \<notin> set vis1" if "v \<notin> set vis" "v \<notin> qi_id ` set new" "reaches idx dir pol start v" for v
    proof
      assume "v \<in> set vis1"
      then have "dropped idx pol v" using that(1,2) ps(3) idn by (auto simp: trav_adj_def)
      moreover have "v = start \<or> \<not> dropped idx pol v"
        using that(3) unfolding reaches_def by (cases rule: rtranclp.cases) (auto simp: trav_adj_def)
      ultimately show False using that(1) "1.prems"(6) by auto
    qed
    have ih: "tr_id ` set (trav_loop idx dir mode maxDepth pol (rest @ new) vis1)
        = {qi_id i |i. i \<in> set (rest @ new) \<and> 0 < qi_depth i} \<union> {v. reaches idx dir pol start v \<and> v \<notin> set vis1}
      \<and> distinct (map tr_id (trav_loop idx dir mode maxDepth pol (rest @ new) vis1))"
    proof (rule "1.IH"(2) [OF Some cr [symmetric] nh pe [symmetric] refl "1.prems"(1,2)])
      show "\<forall>i \<in> set (rest @ new). \<not> qi_terminal i"
        using "1.prems"(2,3) sq ps(4) by (auto simp: no_terminal_def pushed_as_def)
      show "\<forall>i \<in> set (rest @ new). reaches idx dir pol start (qi_id i) \<and> qi_id i \<in> set vis1 \<and> (qi_depth i = 0 \<longrightarrow> qi_id i = start)"
      proof
        fix i
        assume "i \<in> set (rest @ new)"
        then consider "i \<in> set rest" | "i \<in> set new" by auto
        then show "reaches idx dir pol start (qi_id i) \<and> qi_id i \<in> set vis1 \<and> (qi_depth i = 0 \<longrightarrow> qi_id i = start)"
        proof cases
          case 1
          then show ?thesis using "1.prems"(4) sq sv(2) by auto
        next
          case 2
          then have "qi_id i \<in> set (trav_adj idx dir pol (qi_id cur))" using idn by auto
          then show ?thesis using nr sv(1) ps(4) 2 by (auto simp: pushed_as_def)
        qed
      qed
      have "qi_id ` set rest \<subseteq> set vis" using "1.prems"(4) sq by auto
      then have "qi_id ` set rest \<inter> qi_id ` set new = {}" using idn by auto
      then show "distinct (map qi_id (rest @ new))" using dr(1) ps(1) by simp
      show "start \<in> set vis1" using "1.prems"(6) sv(2) by auto
      show "\<forall>v \<in> set vis1. reaches idx dir pol start v \<longrightarrow> v \<in> qi_id ` set (rest @ new) \<or> set (trav_adj idx dir pol v) \<subseteq> set vis1"
      proof (intro ballI impI)
        fix v
        assume v: "v \<in> set vis1" "reaches idx dir pol start v"
        then consider "v \<in> qi_id ` set new" | "v \<in> set vis" using gone by blast
        then show "v \<in> qi_id ` set (rest @ new) \<or> set (trav_adj idx dir pol v) \<subseteq> set vis1"
        proof cases
          case 2
          then have "v \<in> qi_id ` set q \<or> set (trav_adj idx dir pol v) \<subseteq> set vis" using "1.prems"(7) v(2) by blast
          then show ?thesis using sq sv by auto
        qed auto
      qed
    qed
    have eq: "trav_loop idx dir mode maxDepth pol q vis = report idx cur @ trav_loop idx dir mode maxDepth pol (rest @ new) vis1"
      by (subst trav_loop.simps) (simp add: Some cr nh pe)
    have cv: "qi_id cur \<in> set vis" "qi_id cur \<notin> qi_id ` set new" using "1.prems"(4) sq idn by auto
    have "qi_id cur \<notin> tr_id ` set (trav_loop idx dir mode maxDepth pol (rest @ new) vis1)"
      using ih dr(2) cv sv(2) by auto
    then have dist: "distinct (map tr_id (trav_loop idx dir mode maxDepth pol q vis))"
      unfolding eq using ih by (auto simp: report_def)
    have npos: "{qi_id i |i. i \<in> set new \<and> 0 < qi_depth i} = qi_id ` set new" using ps(4) by (auto simp: pushed_as_def)
    have "{v. reaches idx dir pol start v \<and> v \<notin> set vis} = qi_id ` set new \<union> {v. reaches idx dir pol start v \<and> v \<notin> set vis1}"
      using gone sv idn nr by auto
    moreover have "{qi_id i |i. i \<in> set (rest @ new) \<and> 0 < qi_depth i} = {qi_id i |i. i \<in> set rest \<and> 0 < qi_depth i} \<union> qi_id ` set new"
      using npos by auto
    moreover have "{qi_id i |i. i \<in> set q \<and> 0 < qi_depth i} = tr_id ` set (report idx cur) \<union> {qi_id i |i. i \<in> set rest \<and> 0 < qi_depth i}"
      using sq by (auto simp: report_def)
    ultimately have "tr_id ` set (trav_loop idx dir mode maxDepth pol q vis)
        = {qi_id i |i. i \<in> set q \<and> 0 < qi_depth i} \<union> {v. reaches idx dir pol start v \<and> v \<notin> set vis}"
      unfolding eq set_append image_Un using ih by auto
    then show ?thesis using dist by simp
  qed
qed

lemma unlimited_rows:
  fixes mode :: traversalMode and dir :: string
  assumes "node_of idx start \<noteq> None" "maxDepth \<le> 0" "no_terminal pol"
  defines "rs \<equiv> TraverseWithPolicy idx start dir mode maxDepth pol"
  shows "distinct (map tr_id rs) \<and> tr_id ` set rs = {v. reaches idx dir pol start v \<and> v \<noteq> start}"
proof -
  let ?q = "[\<lparr>qi_id = start, qi_via = None, qi_depth = 0, qi_terminal = False, qi_structural = False\<rparr>]"
  have rs: "rs = trav_loop idx dir mode maxDepth pol ?q [start]" using assms(1) by (auto simp: rs_def TraverseWithPolicy_def)
  show ?thesis unfolding rs
    using unlimited_loop [OF assms(2,3), of ?q idx dir start "[start]" mode] by (simp add: reaches_def)
qed

section \<open>The index\<close>

lemma adj_list_update: "adj_list (AList.update k es m) v = (if v = k then es else adj_list m v)"
  by (simp add: adj_list_def update_conv')

lemma AddNode_adj [simp]: "outEdges (AddNode n idx) = outEdges idx" "inEdges (AddNode n idx) = inEdges idx"
  by (simp_all add: AddNode_def outEdges_def inEdges_def fun_eq_iff)

lemma AddEdge_adj:
  "outEdges (AddEdge e idx) v = (if v = ed_from e then outEdges idx v @ [e] else outEdges idx v)"
  "inEdges (AddEdge e idx) v = (if v = ed_to e then inEdges idx v @ [e] else inEdges idx v)"
  by (simp_all add: AddEdge_def outEdges_def inEdges_def adj_list_update)

lemma AddEdge_nodes [simp]: "node_of (AddEdge e idx) = node_of idx"
  by (simp add: AddEdge_def node_of_def fun_eq_iff)

lemma AddNode_nodes: "node_of (AddNode n idx) v = (if v = nd_id n then Some n else node_of idx v)"
  by (simp add: AddNode_def node_of_def update_conv')

text \<open>The index holds the rows of the two tables: edges in order at both ends, the last node of each identifier.\<close>

lemma BuildIndex_edges:
  "outEdges (BuildIndex ns es) v = filter (\<lambda>e. ed_from e = v) es"
  "inEdges (BuildIndex ns es) v = filter (\<lambda>e. ed_to e = v) es"
proof -
  have n: "outEdges (fold AddNode ns NewAdjacencyIndex) v = []" "inEdges (fold AddNode ns NewAdjacencyIndex) v = []"
  proof -
    have "outEdges (fold AddNode ns i) = outEdges i" "inEdges (fold AddNode ns i) = inEdges i" for i
      by (induction ns arbitrary: i) simp_all
    then show "outEdges (fold AddNode ns NewAdjacencyIndex) v = []" "inEdges (fold AddNode ns NewAdjacencyIndex) v = []"
      by (simp_all add: NewAdjacencyIndex_def outEdges_def inEdges_def adj_list_def)
  qed
  have "outEdges (fold AddEdge es i) v = outEdges i v @ filter (\<lambda>e. ed_from e = v) es"
    "inEdges (fold AddEdge es i) v = inEdges i v @ filter (\<lambda>e. ed_to e = v) es" for i
    by (induction es arbitrary: i) (simp_all add: AddEdge_adj)
  then show "outEdges (BuildIndex ns es) v = filter (\<lambda>e. ed_from e = v) es"
    "inEdges (BuildIndex ns es) v = filter (\<lambda>e. ed_to e = v) es"
    by (simp_all add: BuildIndex_def n)
qed

lemma BuildIndex_nodes: "node_of (BuildIndex ns es) v = find (\<lambda>n. nd_id n = v) (rev ns)"
proof -
  have e: "node_of (fold AddEdge es i) = node_of i" for i by (induction es arbitrary: i) simp_all
  have "node_of (fold AddNode ns i) v = (case find (\<lambda>n. nd_id n = v) (rev ns) of Some n \<Rightarrow> Some n | None \<Rightarrow> node_of i v)" for i
    by (induction ns rule: rev_induct) (auto simp: AddNode_nodes)
  then show ?thesis
    by (simp add: BuildIndex_def e) (simp add: NewAdjacencyIndex_def node_of_def split: option.split)
qed

text \<open>Each edge is in the index at both of its ends.\<close>

definition index_linked :: "adjacencyIndex \<Rightarrow> bool" where
  "index_linked idx \<longleftrightarrow> (\<forall>e u v. e \<in> set (outEdges idx u) \<and> ed_to e = v \<longleftrightarrow> e \<in> set (inEdges idx v) \<and> ed_from e = u)"

lemma BuildIndex_linked: "index_linked (BuildIndex ns es)"
  by (auto simp: index_linked_def BuildIndex_edges)

lemma AddEdge_linked:
  assumes "index_linked idx"
  shows "index_linked (AddEdge e idx)"
  using assms by (auto simp: index_linked_def AddEdge_adj)

section \<open>Ancestors and descendants\<close>

lemma raw_adj:
  assumes "index_linked idx"
  shows "v \<in> set (trav_adj idx DirOut RawPolicy u) \<longleftrightarrow> u \<in> set (trav_adj idx DirIn RawPolicy v)"
proof -
  have ne: "DirOut \<noteq> DirIn" by (simp add: DirOut_def DirIn_def)
  have "\<not> dropped idx RawPolicy w" for w by (simp add: dropped_def RawPolicy_def)
  then have "v \<in> set (trav_adj idx DirOut RawPolicy u) \<longleftrightarrow> (\<exists>e \<in> set (outEdges idx u). ed_to e = v)"
    "u \<in> set (trav_adj idx DirIn RawPolicy v) \<longleftrightarrow> (\<exists>e \<in> set (inEdges idx v). ed_from e = u)"
    using ne by (auto simp: trav_adj_def dir_edges_def far_end_def)
  then show ?thesis using assms unfolding index_linked_def by blast
qed

lemma reach_in_Suc_left: "reach_in adj {u} (Suc n) v \<longleftrightarrow> (\<exists>w \<in> set (adj u). reach_in adj {w} n v)"
  by (induction n arbitrary: v) auto

lemma reach_in_reverse:
  assumes "\<And>u v. v \<in> set (adj u) \<longleftrightarrow> u \<in> set (adj' v)"
  shows "reach_in adj {u} n v \<longleftrightarrow> reach_in adj' {v} n u"
proof (induction n arbitrary: u)
  case (Suc n)
  have "reach_in adj {u} (Suc n) v \<longleftrightarrow> (\<exists>w \<in> set (adj u). reach_in adj' {v} n w)"
    unfolding reach_in_Suc_left using Suc.IH by blast
  then show ?case using assms by auto
qed auto

lemma at_dist_reverse:
  assumes "\<And>u v. v \<in> set (adj u) \<longleftrightarrow> u \<in> set (adj' v)"
  shows "at_dist adj {u} n v \<longleftrightarrow> at_dist adj' {v} n u"
  using reach_in_reverse [of adj adj' u _ v, OF assms] by (simp add: at_dist_def)

section \<open>Where a traversal stops short\<close>

text \<open>
  A node that is first met over a terminal edge is never expanded, also when it is met again over an
  edge that is not terminal: with containment terminal, the callee of a function that its caller's
  container contains is lost.
\<close>

definition mk_node :: "string \<Rightarrow> node" where
  "mk_node v = \<lparr>nd_id = v, nd_type = ''function'', nd_label = v, nd_service = ''s'', nd_file = ''f'', nd_line = 1,
     nd_endLine = 1, nd_language = ''go'', nd_meta = Map.empty\<rparr>"

definition mk_edge :: "string \<Rightarrow> string \<Rightarrow> edgeType \<Rightarrow> edge" where
  "mk_edge u v t = \<lparr>ed_id = u @ v, ed_from = u, ed_to = v, ed_type = t, ed_label = [], ed_confidence = [],
     ed_method = [], ed_path = [], ed_meta = Map.empty, ed_sources = [], ed_state = [], ed_granularity = []\<rparr>"

definition diamond :: adjacencyIndex where
  "diamond = BuildIndex (map mk_node [''a'', ''b'', ''c'', ''x''])
     [mk_edge ''a'' ''b'' EdgeTypeContains, mk_edge ''a'' ''x'' ''calls'', mk_edge ''x'' ''b'' ''calls'',
      mk_edge ''b'' ''c'' ''calls'']"

lemma terminal_edge_hides_calls:
  "map tr_id (TraverseWithPolicy diamond ''a'' DirOut BFS 0 ContainmentTerminal) = [''b'', ''x'']"
  "map tr_id (TraverseWithPolicy diamond ''a'' DirOut BFS 0 BlastRadiusPolicy) = [''b'', ''x'', ''c'']"
  by code_simp+

text \<open>A depth-first search with a depth limit misses nodes within the limit: it may meet a node on a long path first.\<close>

definition ladder :: adjacencyIndex where
  "ladder = BuildIndex (map mk_node [''a'', ''p'', ''q'', ''r'', ''w'', ''z''])
     [mk_edge ''a'' ''p'' ''calls'', mk_edge ''a'' ''q'' ''calls'', mk_edge ''q'' ''r'' ''calls'', mk_edge ''r'' ''w'' ''calls'',
      mk_edge ''p'' ''w'' ''calls'', mk_edge ''w'' ''z'' ''calls'']"

lemma limited_dfs_misses:
  "''z'' \<notin> set (map tr_id (Traverse ladder ''a'' DirOut DFS 3))"
  "(''z'', 3) \<in> set (map tr_row (Traverse ladder ''a'' DirOut BFS 3))"
  by code_simp+

section \<open>Properties\<close>

text \<open>
  C2: A breadth-first traversal is exact. Under a policy without terminal edges it reports each node
  at most once, in order of depth, and reports a node at depth \<open>d\<close> exactly when \<open>d\<close> is its positive
  distance from the start in the graph without dropped locals and is within the depth limit.
\<close>

theorem traversal_exact_distances:
  assumes "node_of idx start \<noteq> None" and "no_terminal pol"
  shows "distinct (map tr_id (TraverseWithPolicy idx start dir BFS maxDepth pol))
    \<and> sorted (map tr_depth (TraverseWithPolicy idx start dir BFS maxDepth pol))
    \<and> (\<forall>v d. (v, d) \<in> tr_row ` set (TraverseWithPolicy idx start dir BFS maxDepth pol) \<longleftrightarrow>
          0 < d \<and> at_dist (trav_adj idx dir pol) {start} d v \<and> (maxDepth \<le> 0 \<or> int d \<le> maxDepth))"
  by (rule bfs_rows [OF assms])

theorem traversal_exact_distances_witness:
  "at_dist (trav_adj diamond DirOut BlastRadiusPolicy) {''a''} 2 ''c''
    \<and> distinct (map tr_id (TraverseWithPolicy diamond ''a'' DirOut BFS 2 BlastRadiusPolicy))"
proof -
  have n: "node_of diamond ''a'' \<noteq> None" "no_terminal BlastRadiusPolicy"
    by code_simp (simp add: no_terminal_def BlastRadiusPolicy_def)
  have "(''c'', 2) \<in> tr_row ` set (TraverseWithPolicy diamond ''a'' DirOut BFS 2 BlastRadiusPolicy)" by code_simp
  then show ?thesis using traversal_exact_distances [OF n, of DirOut 2] by auto
qed

text \<open>
  The rows of a traversal form a tree of real edges, in either mode and under any policy: every
  row names an edge of the index that leads to its node from the start (depth 1) or from the node of
  another row one level up, and it is marked structural exactly when an edge on that path is.
\<close>

theorem traversal_rows_form_tree:
  assumes "r \<in> set (TraverseWithPolicy idx start dir mode maxDepth pol)"
  shows "hangs idx dir start (TraverseWithPolicy idx start dir mode maxDepth pol) (tr_id r) (tr_via r) (tr_depth r) (tr_structural r)"
  by (rule rows_hang [OF assms])

theorem traversal_rows_form_tree_witness:
  "\<exists>r :: traversalResult. tr_id r = ''c'' \<and> tr_structural r
     \<and> hangs diamond DirOut ''a'' (Traverse diamond ''a'' DirOut DFS 0) (tr_id r) (tr_via r) (tr_depth r) (tr_structural r)"
proof -
  have "list_ex (\<lambda>r. tr_id r = ''c'' \<and> tr_structural r) (TraverseWithPolicy diamond ''a'' DirOut DFS 0 RawPolicy)" by code_simp
  then obtain r where r: "r \<in> set (TraverseWithPolicy diamond ''a'' DirOut DFS 0 RawPolicy)" "tr_id r = ''c''" "tr_structural r"
    by (auto simp: list_ex_iff)
  show ?thesis unfolding Traverse_def by (rule exI [of _ r]) (intro conjI r traversal_rows_form_tree [OF r(1)])
qed

text \<open>
  Ancestors and descendants are one relation: in an index where each edge is listed at both of
  its ends, \<open>v\<close> is a descendant of \<open>u\<close> at depth \<open>d\<close> exactly when \<open>u\<close> is an ancestor of \<open>v\<close> at depth \<open>d\<close>,
  under the same limit.
\<close>

theorem ancestors_mirror_descendants:
  assumes "index_linked idx" and "node_of idx u \<noteq> None" and "node_of idx v \<noteq> None"
  shows "(v, d) \<in> tr_row ` set (Descendants idx u maxDepth) \<longleftrightarrow> (u, d) \<in> tr_row ` set (Ancestors idx v maxDepth)"
proof -
  have raw: "no_terminal RawPolicy" by (simp add: no_terminal_def RawPolicy_def)
  have "at_dist (trav_adj idx DirOut RawPolicy) {u} d v \<longleftrightarrow> at_dist (trav_adj idx DirIn RawPolicy) {v} d u"
    by (rule at_dist_reverse) (rule raw_adj [OF assms(1)])
  then show ?thesis
    using bfs_rows [OF assms(2) raw, of DirOut maxDepth] bfs_rows [OF assms(3) raw, of DirIn maxDepth]
    by (simp add: Descendants_def Ancestors_def Traverse_def)
qed

theorem ancestors_mirror_descendants_witness:
  "(''a'', 2) \<in> tr_row ` set (Ancestors diamond ''c'' 0)"
proof -
  have n: "node_of diamond ''a'' \<noteq> None" "node_of diamond ''c'' \<noteq> None" by code_simp+
  have "(''c'', 2) \<in> tr_row ` set (Descendants diamond ''a'' 0)" by code_simp
  then show ?thesis using ancestors_mirror_descendants [OF _ n, of 2 0] BuildIndex_linked unfolding diamond_def by blast
qed

end
