(* ===== verification/Evidence.thy ===== *)
theory Evidence
  imports Flow_Graph
begin

text \<open>
  The fusion of evidence (\<open>internal/evidence/provider.go\<close>, \<open>provenance.go\<close>, \<open>reconcile.go\<close>,
  \<open>stamp.go\<close>; \<open>internal/graph/epistemic.go\<close>): providers deliver edges with their sources, the reconciler joins
  them by channel, mints edges for what the static graph missed, and derives every verification
  state anew from the sources.

  A provider is its name and the result of its \<open>Collect\<close> call, which reads files and traces. The Go
  code keeps pointers to the working edges by channel key; here a confirmation maps over the
  working edges with that key. Sources with equal (provider, ref, time) keep their order.
\<close>

section \<open>Vocabulary\<close>

definition StateVerified :: string where "StateVerified = ''verified''"
definition StateCandidate :: string where "StateCandidate = ''candidate''"
definition StateObservedOnlyGap :: string where "StateObservedOnlyGap = ''observed_only_gap''"
definition StateConflicting :: string where "StateConflicting = ''conflicting''"

definition GranularityChannel :: string where "GranularityChannel = ''channel''"
definition GranularitySite :: string where "GranularitySite = ''site''"

definition ConfidencePartial :: string where "ConfidencePartial = ''partial''"
definition ConfidenceUnknown :: string where "ConfidenceUnknown = ''unknown''"
definition ConfidenceCandidate :: string where "ConfidenceCandidate = ''candidate''"

definition PStatic :: string where "PStatic = ''static''"
definition PContract :: string where "PContract = ''contract''"
definition PRuntime :: string where "PRuntime = ''runtime''"
definition PConfig :: string where "PConfig = ''config''"
definition PLlm :: string where "PLlm = ''llm''"

definition NodeTypeService :: nodeType where "NodeTypeService = ''service''"

lemma states_distinct [simp]:
  "StateVerified \<noteq> StateCandidate" "StateVerified \<noteq> StateObservedOnlyGap" "StateVerified \<noteq> StateConflicting"
  "StateCandidate \<noteq> StateVerified" "StateCandidate \<noteq> StateObservedOnlyGap" "StateCandidate \<noteq> StateConflicting"
  "StateObservedOnlyGap \<noteq> StateVerified" "StateObservedOnlyGap \<noteq> StateCandidate" "StateObservedOnlyGap \<noteq> StateConflicting"
  "StateConflicting \<noteq> StateVerified" "StateConflicting \<noteq> StateCandidate" "StateConflicting \<noteq> StateObservedOnlyGap"
  by (simp_all add: StateVerified_def StateCandidate_def StateObservedOnlyGap_def StateConflicting_def)

lemma providers_distinct [simp]:
  "PStatic \<noteq> PContract" "PStatic \<noteq> PRuntime" "PStatic \<noteq> PConfig" "PContract \<noteq> PStatic" "PRuntime \<noteq> PStatic" "PConfig \<noteq> PStatic"
  "PContract \<noteq> PRuntime" "PContract \<noteq> PConfig" "PRuntime \<noteq> PContract" "PConfig \<noteq> PContract" "PRuntime \<noteq> PConfig" "PConfig \<noteq> PRuntime"
  by (simp_all add: PStatic_def PContract_def PRuntime_def PConfig_def)

record unresolvedRef =
  ur_service :: string
  ur_file :: string
  ur_line :: int
  ur_name :: string
  ur_kind :: string
  ur_targets :: string

record evidence =
  ev_nodes :: "node list"
  ev_edges :: "edge list"
  ev_unresolved :: "unresolvedRef list"
  ev_clears :: "unresolvedRef list"
  ev_clearLocs :: "(string \<times> string \<times> int) list"

definition emptyEvidence :: evidence where
  "emptyEvidence = \<lparr>ev_nodes = [], ev_edges = [], ev_unresolved = [], ev_clears = [], ev_clearLocs = []\<rparr>"

record provider =
  pv_name :: string
  pv_collect :: "string + evidence"

datatype evidence_error =
    EUnknownProvider string
  | ECollect string string
  | EUnstamped "string list"

definition validProviderNames :: "string list" where
  "validProviderNames = [PStatic, PContract, PRuntime, PConfig, PLlm]"

definition ValidateProviderName :: "string \<Rightarrow> evidence_error option" where
  "ValidateProviderName n = (if n \<in> set validProviderNames then None else Some (EUnknownProvider n))"

fun NewReconciler :: "provider list \<Rightarrow> evidence_error + provider list" where
  "NewReconciler [] = Inr []"
| "NewReconciler (p # ps) =
     (case ValidateProviderName (pv_name p) of
        Some err \<Rightarrow> Inl err
      | None \<Rightarrow> bindE (NewReconciler ps) (\<lambda>qs. Inr (p # qs)))"

section \<open>Static provenance\<close>

definition staticRef :: "node option \<Rightarrow> string" where
  "staticRef n = (case n of None \<Rightarrow> []
     | Some n \<Rightarrow> if nd_file n = [] then [] else if nd_line n > 0 then nd_file n @ '':'' @ fmt_nat (nat (nd_line n)) else nd_file n)"

definition static_source :: "string \<Rightarrow> string \<Rightarrow> string \<Rightarrow> string \<Rightarrow> sourceRef" where
  "static_source conf ref layer rule = \<lparr>sr_provider = PStatic, sr_confidence = conf, sr_ref = ref, sr_observedAt = 0,
     sr_codeFile = [], sr_codeFunc = [], sr_layer = layer, sr_rule = rule\<rparr>"

definition or_candidate :: "string \<Rightarrow> string" where
  "or_candidate c = (if c = [] then ConfidenceCandidate else c)"

text \<open>The body of the loop of \<open>StaticProvider.Collect\<close>.\<close>

definition stamp_edge :: "node list \<Rightarrow> edge \<Rightarrow> edge" where
  "stamp_edge ns e =
     (let ref = staticRef (find (\<lambda>n. nd_id n = ed_from e) (rev ns));
          (layer, rule) = (case find (\<lambda>s. sr_provider s = PStatic) (ed_sources e) of
             Some s \<Rightarrow> (sr_layer s, sr_rule s) | None \<Rightarrow> ([], []));
          (layer1, rule1) = (if rule = [] then (''L1'', ''parser/'' @ ed_type e) else (layer, rule)) in
      e\<lparr>ed_sources := [static_source (or_candidate (ed_confidence e)) ref layer1 rule1], ed_state := [], ed_granularity := []\<rparr>)"

definition static_collect :: "node list \<Rightarrow> edge list \<Rightarrow> unresolvedRef list \<Rightarrow> evidence" where
  "static_collect ns es us = emptyEvidence\<lparr>ev_nodes := ns, ev_edges := map (stamp_edge ns) es, ev_unresolved := us\<rparr>"

definition StampStatic :: "string \<Rightarrow> string \<Rightarrow> string \<Rightarrow> edge \<Rightarrow> edge" where
  "StampStatic fromRef layer rule e =
     (let (layer1, rule1) = (case ed_sources e of
            [s] \<Rightarrow> if sr_provider s = PStatic
                    then (if sr_layer s \<noteq> [] then sr_layer s else layer, if sr_rule s \<noteq> [] then sr_rule s else rule)
                    else (layer, rule)
          | _ \<Rightarrow> (layer, rule)) in
      e\<lparr>ed_sources := [static_source (or_candidate (ed_confidence e)) fromRef layer1 rule1],
        ed_state := StateCandidate, ed_granularity := []\<rparr>)"

definition ValidateStaticProvenance :: "edge list \<Rightarrow> string list" where
  "ValidateStaticProvenance es =
     map ed_id (filter (\<lambda>e. list_ex (\<lambda>s. sr_provider s = PStatic \<and> sr_rule s = []) (ed_sources e)) es)"

section \<open>Joining by channel\<close>

text \<open>Type, label, from and to; the last two are empty when there is a label, and conversely.\<close>

type_synonym channelKey = "edgeType \<times> string \<times> string \<times> string"

definition keyOf :: "edge \<Rightarrow> channelKey" where
  "keyOf e = (if ed_label e \<noteq> [] then (ed_type e, ed_label e, [], []) else (ed_type e, [], ed_from e, ed_to e))"

definition source_key :: "sourceRef \<Rightarrow> string \<times> string" where
  "source_key s = (sr_provider s, sr_ref s)"

fun appendSource :: "sourceRef list \<Rightarrow> sourceRef list \<Rightarrow> sourceRef list" where
  "appendSource ex [] = ex"
| "appendSource ex (s # ss) =
     (if source_key s \<in> source_key ` set ex then appendSource ex ss else appendSource (ex @ [s]) ss)"

definition service_of :: "node list \<Rightarrow> string \<Rightarrow> string" where
  "service_of ns v = (case find (\<lambda>n. nd_id n = v) (rev ns) of Some n \<Rightarrow> nd_service n | None \<Rightarrow> [])"

definition serviceCompatible :: "string \<Rightarrow> edge \<Rightarrow> (string \<Rightarrow> string) \<Rightarrow> bool" where
  "serviceCompatible decl sp nodeService \<longleftrightarrow>
     decl = [] \<or> (nodeService (ed_from sp) = [] \<and> nodeService (ed_to sp) = [])
     \<or> nodeService (ed_from sp) = decl \<or> nodeService (ed_to sp) = decl"

definition endpointNodeID :: "edge \<Rightarrow> string" where
  "endpointNodeID e = ''gap-endpoint:'' @ ed_type e @ '':'' @ ed_label e"

definition syntheticEdgeID :: "edge \<Rightarrow> string \<Rightarrow> string \<Rightarrow> string" where
  "syntheticEdgeID e from to = ''gap:'' @ ed_type e @ '':'' @ ed_label e @ '':'' @ from @ ''->'' @ to"

text \<open>The edges of the static graph, the minted ones in the order of their minting, all nodes.\<close>

record fusion =
  fu_edges :: "edge list"
  fu_gaps :: "edge list"
  fu_nodes :: "node list"

definition known_id :: "node list \<Rightarrow> string \<Rightarrow> bool" where
  "known_id ns v \<longleftrightarrow> list_ex (\<lambda>n. nd_id n = v) ns"

definition confirms :: "(string \<Rightarrow> string) \<Rightarrow> edge \<Rightarrow> edge \<Rightarrow> bool" where
  "confirms nodeService pe sp \<longleftrightarrow> keyOf sp = keyOf pe \<and> serviceCompatible (ed_from pe) sp nodeService"

definition add_sources :: "edge \<Rightarrow> edge \<Rightarrow> edge" where
  "add_sources pe e = e\<lparr>ed_sources := appendSource (ed_sources e) (ed_sources pe)\<rparr>"

definition gap_ends :: "edge \<Rightarrow> string \<times> string" where
  "gap_ends pe = (if ed_from pe = [] then endpointNodeID pe else ed_from pe,
                  if ed_to pe = [] then endpointNodeID pe else ed_to pe)"

definition gap_edge :: "edge \<Rightarrow> edge" where
  "gap_edge pe = (let (from, to) = gap_ends pe in
     \<lparr>ed_id = syntheticEdgeID pe from to, ed_from = from, ed_to = to, ed_type = ed_type pe, ed_label = ed_label pe,
      ed_confidence = ConfidenceCandidate, ed_method = [], ed_path = [], ed_meta = Map.empty,
      ed_sources = ed_sources pe, ed_state = StateObservedOnlyGap, ed_granularity = []\<rparr>)"

definition gap_node :: "string \<Rightarrow> edge \<Rightarrow> string \<Rightarrow> node" where
  "gap_node prov pe v =
     (let (from, to) = gap_ends pe; ep = endpointNodeID pe in
      \<lparr>nd_id = v, nd_type = NodeTypeService, nd_label = (if ed_label pe \<noteq> [] \<and> v = ep then ed_label pe else v),
       nd_service = (if v = ep then (if from \<noteq> v then from else if to \<noteq> v then to else []) else v),
       nd_file = [], nd_line = 0, nd_endLine = 0, nd_language = [], nd_meta = [''source'' \<mapsto> prov]\<rparr>)"

definition mint_node :: "string \<Rightarrow> edge \<Rightarrow> string \<Rightarrow> node list \<Rightarrow> node list" where
  "mint_node prov pe v ns = (if known_id ns v then ns else ns @ [gap_node prov pe v])"

definition join_edge :: "(string \<Rightarrow> string) \<Rightarrow> string \<Rightarrow> edge \<Rightarrow> fusion \<Rightarrow> fusion" where
  "join_edge nodeService prov pe f =
     (if list_ex (confirms nodeService pe) (fu_edges f)
      then f\<lparr>fu_edges := map (\<lambda>e. if confirms nodeService pe e then add_sources pe e else e) (fu_edges f)\<rparr>
      else let g = gap_edge pe in
        if list_ex (\<lambda>h. ed_id h = ed_id g) (fu_gaps f)
        then f\<lparr>fu_gaps := map (\<lambda>h. if ed_id h = ed_id g then add_sources pe h else h) (fu_gaps f)\<rparr>
        else f\<lparr>fu_gaps := fu_gaps f @ [g],
               fu_nodes := mint_node prov pe (ed_to g) (mint_node prov pe (ed_from g) (fu_nodes f))\<rparr>)"

definition absorb_node :: "node \<Rightarrow> node list \<Rightarrow> node list" where
  "absorb_node n ns = (if known_id ns (nd_id n) then ns else ns @ [n])"

definition join_provider :: "(string \<Rightarrow> string) \<Rightarrow> string \<times> evidence \<Rightarrow> fusion \<Rightarrow> fusion" where
  "join_provider nodeService c f =
     (let f1 = fold (join_edge nodeService (fst c)) (ev_edges (snd c)) f in
      f1\<lparr>fu_nodes := fold absorb_node (ev_nodes (snd c)) (fu_nodes f1)\<rparr>)"

section \<open>Verification states\<close>

definition has_source :: "string list \<Rightarrow> sourceRef list \<Rightarrow> bool" where
  "has_source ps ss \<longleftrightarrow> list_ex (\<lambda>s. sr_provider s \<in> set ps) ss"

definition static_partial :: "sourceRef list \<Rightarrow> bool" where
  "static_partial ss \<longleftrightarrow> list_ex (\<lambda>s. sr_provider s = PStatic \<and> sr_confidence s = ConfidencePartial) ss"

definition computeState :: "sourceRef list \<Rightarrow> string" where
  "computeState ss =
     (let hasStatic = has_source [PStatic] ss; staticAmbiguous = static_partial ss;
          hasPinning = has_source [PRuntime, PConfig] ss; hasSpec = has_source [PContract] ss in
      if hasStatic \<and> hasPinning then StateVerified
      else if hasStatic \<and> hasSpec \<and> \<not> staticAmbiguous then StateVerified
      else if hasStatic then StateCandidate
      else if hasPinning \<or> hasSpec then StateObservedOnlyGap
      else StateCandidate)"

definition computeGranularity :: "sourceRef list \<Rightarrow> string" where
  "computeGranularity ss =
     (if list_ex (\<lambda>s. sr_provider s = PRuntime \<and> sr_codeFile s \<noteq> []) ss then GranularitySite else GranularityChannel)"

definition sortSources :: "sourceRef list \<Rightarrow> sourceRef list" where
  "sortSources ss = sort_key (\<lambda>s. sr_provider s) (sort_key (\<lambda>s. sr_ref s) (sort_key (\<lambda>s. sr_observedAt s) ss))"

definition set_state :: "edge \<Rightarrow> edge" where
  "set_state e =
     (let ss = sortSources (ed_sources e); st = computeState ss in
      e\<lparr>ed_sources := ss, ed_state := st, ed_granularity := (if st = StateVerified then computeGranularity ss else [])\<rparr>)"

definition verifiedChannels :: "edge list \<Rightarrow> channelKey list" where
  "verifiedChannels es = map keyOf (filter (\<lambda>e. ed_state e = StateVerified) es)"

definition mark_conflict :: "channelKey list \<Rightarrow> edge \<Rightarrow> edge" where
  "mark_conflict ks e =
     (if ed_state e = StateObservedOnlyGap \<and> keyOf e \<in> set ks
      then e\<lparr>ed_state := StateConflicting, ed_granularity := []\<rparr> else e)"

definition finish_edges :: "edge list \<Rightarrow> edge list" where
  "finish_edges es = (let es1 = map set_state es in
     sort_key ed_id (map (mark_conflict (verifiedChannels es1)) es1))"

section \<open>Unresolved references\<close>

definition DynamicUnresolvedKinds :: "string list" where
  "DynamicUnresolvedKinds = [''dynamic_url'', ''dynamic_topic'', ''dynamic_queue'', ''dynamic_channel'', ''dynamic_event'']"

definition clearKey :: "unresolvedRef \<Rightarrow> string \<times> string \<times> string \<times> int" where
  "clearKey u = (ur_service u, ur_file u, ur_name u, ur_line u)"

definition cleared :: "(string \<times> evidence) list \<Rightarrow> unresolvedRef \<Rightarrow> bool" where
  "cleared cs u \<longleftrightarrow> list_ex (\<lambda>c. list_ex (\<lambda>v. clearKey v = clearKey u) (ev_clears (snd c))) cs
     \<or> ur_kind u \<in> set DynamicUnresolvedKinds
       \<and> list_ex (\<lambda>c. list_ex (\<lambda>l. l = (ur_service u, ur_file u, ur_line u)) (ev_clearLocs (snd c))) cs"

section \<open>Reconcile\<close>

record reconcileResult =
  rr_nodes :: "node list"
  rr_edges :: "edge list"
  rr_unresolved :: "unresolvedRef list"

fun collect_all :: "provider list \<Rightarrow> evidence_error + (string \<times> evidence) list" where
  "collect_all [] = Inr []"
| "collect_all (p # ps) =
     (case pv_collect p of
        Inl err \<Rightarrow> Inl (ECollect (pv_name p) err)
      | Inr ev \<Rightarrow> bindE (collect_all ps) (\<lambda>cs. Inr ((pv_name p, ev) # cs)))"

text \<open>The static evidence is that of the last provider named \<open>static\<close>.\<close>

definition static_evidence :: "(string \<times> evidence) list \<Rightarrow> evidence" where
  "static_evidence cs = (case find (\<lambda>c. fst c = PStatic) (rev cs) of Some c \<Rightarrow> snd c | None \<Rightarrow> emptyEvidence)"

definition nonstatic :: "(string \<times> evidence) list \<Rightarrow> (string \<times> evidence) list" where
  "nonstatic cs = filter (\<lambda>c. fst c \<noteq> PStatic) cs"

definition fuse :: "evidence \<Rightarrow> (string \<times> evidence) list \<Rightarrow> fusion" where
  "fuse st cs = fold (join_provider (service_of (ev_nodes st))) cs
     \<lparr>fu_edges = ev_edges st, fu_gaps = [], fu_nodes = ev_nodes st\<rparr>"

definition Reconcile :: "provider list \<Rightarrow> evidence_error + reconcileResult" where
  "Reconcile ps =
     bindE (collect_all ps) (\<lambda>all.
       let st = static_evidence all; cs = nonstatic all; f = fuse st cs;
           es = finish_edges (fu_edges f @ fu_gaps f); bad = ValidateStaticProvenance es in
       if bad \<noteq> [] then Inl (EUnstamped bad)
       else Inr \<lparr>rr_nodes = fu_nodes f, rr_edges = es,
                 rr_unresolved = concat (map (\<lambda>c. ev_unresolved (snd c)) cs) @ filter (\<lambda>u. \<not> cleared cs u) (ev_unresolved st)\<rparr>)"

section \<open>The verdict of a query\<close>

definition EpistemicExact :: string where "EpistemicExact = ''exact''"
definition EpistemicLowerBound :: string where "EpistemicLowerBound = ''lower_bound''"

record verificationSummary =
  vs_verified :: nat
  vs_candidate :: nat
  vs_gap :: nat
  vs_conflicting :: nat

definition count_state :: "string \<Rightarrow> edge list \<Rightarrow> nat" where
  "count_state s es = length (filter (\<lambda>e. ed_state e = s) es)"

definition BuildVerificationSummary :: "edge list \<Rightarrow> verificationSummary" where
  "BuildVerificationSummary es = \<lparr>vs_verified = count_state StateVerified es, vs_candidate = count_state StateCandidate es,
     vs_gap = count_state StateObservedOnlyGap es, vs_conflicting = count_state StateConflicting es\<rparr>"

record trustStamp =
  ts_measured :: bool
  ts_stale :: bool

record epistemic =
  ep_verdict :: string
  ep_causes :: "string list"

definition BuildEpistemic :: "unresolvedRef list \<Rightarrow> bool \<Rightarrow> verificationSummary \<Rightarrow> trustStamp \<Rightarrow> epistemic" where
  "BuildEpistemic unres dynamicDispatch vs trust =
     (let causes = sort (concat [
            if unres \<noteq> [] then [''unresolved_reference''] else [],
            if dynamicDispatch then [''dynamic_dispatch''] else [],
            if vs_candidate vs > 0 then [''candidate_edge''] else [],
            if vs_conflicting vs > 0 then [''conflicting_evidence''] else [],
            if \<not> ts_measured trust then [''unmeasured_trust''] else [],
            if ts_stale trust then [''stale_trust''] else []]) in
      \<lparr>ep_verdict = (if causes \<noteq> [] then EpistemicLowerBound else EpistemicExact), ep_causes = causes\<rparr>)"

definition HasWeakConfidence :: "string list \<Rightarrow> bool" where
  "HasWeakConfidence cs \<longleftrightarrow> list_ex (\<lambda>c. c = ConfidencePartial \<or> c = ConfidenceUnknown) cs"

definition VerificationRank :: "string \<Rightarrow> nat" where
  "VerificationRank s = (if s = StateVerified then 0 else if s = StateObservedOnlyGap then 1
     else if s = StateCandidate then 2 else if s = StateConflicting then 3 else 4)"

end
