(* ===== verification/Fusion.thy ===== *)
theory Fusion
  imports Evidence "HOL-Library.Multiset"
begin

text \<open>
  What \<open>Reconcile\<close> guarantees: the join reaches every compatible static edge of a channel, no
  evidence is lost, minted edges never dangle, and the verification state of an edge follows from
  its sources and from the verified edges of its channel alone.
\<close>

section \<open>Sources\<close>

lemma appendSource_keys: "source_key ` set (appendSource ex ss) = source_key ` set ex \<union> source_key ` set ss"
  by (induction ex ss rule: appendSource.induct) auto

lemma appendSource_set: "set ex \<subseteq> set (appendSource ex ss) \<and> set (appendSource ex ss) \<subseteq> set ex \<union> set ss"
  by (induction ex ss rule: appendSource.induct) auto

lemma appendSource_distinct: "distinct (map source_key ex) \<Longrightarrow> distinct (map source_key (appendSource ex ss))"
  by (induction ex ss rule: appendSource.induct) auto

definition collect_sources :: "edge list \<Rightarrow> sourceRef list \<Rightarrow> sourceRef list" where
  "collect_sources pes ss = fold (\<lambda>pe ss. appendSource ss (ed_sources pe)) pes ss"

lemma collect_sources_simps [simp]:
  "collect_sources [] ss = ss"
  "collect_sources (pe # pes) ss = collect_sources pes (appendSource ss (ed_sources pe))"
  "collect_sources (pes @ qes) ss = collect_sources qes (collect_sources pes ss)"
  by (simp_all add: collect_sources_def)

lemma collect_sources_keys:
  "source_key ` set (collect_sources pes ss) = source_key ` set ss \<union> (\<Union>pe \<in> set pes. source_key ` set (ed_sources pe))"
  by (induction pes arbitrary: ss) (auto simp: appendSource_keys)

lemma collect_sources_set: "set (collect_sources pes ss) \<subseteq> set ss \<union> (\<Union>pe \<in> set pes. set (ed_sources pe))"
proof (induction pes arbitrary: ss)
  case (Cons pe pes)
  then show ?case using appendSource_set [of ss "ed_sources pe"] by fastforce
qed simp

lemma set_sortSources [simp]: "set (sortSources ss) = set ss"
  by (simp add: sortSources_def)

section \<open>The join\<close>

abbreviation with_sources :: "edge \<Rightarrow> sourceRef list \<Rightarrow> edge" where
  "with_sources e ss \<equiv> e\<lparr>ed_sources := ss\<rparr>"

lemma keyOf_sources [simp]: "keyOf (with_sources e ss) = keyOf e"
  by (simp add: keyOf_def)

lemma confirms_sources [simp]: "confirms svc pe (with_sources e ss) = confirms svc pe e"
  by (simp add: confirms_def serviceCompatible_def)

lemma add_sources_alt: "add_sources pe e = with_sources e (appendSource (ed_sources e) (ed_sources pe))"
  by (simp add: add_sources_def)

text \<open>The provider edges in the order in which they are joined, and those that no static edge matches.\<close>

definition offered :: "(string \<times> evidence) list \<Rightarrow> (string \<times> edge) list" where
  "offered cs = concat (map (\<lambda>c. map (Pair (fst c)) (ev_edges (snd c))) cs)"

definition confirmed_by :: "(string \<Rightarrow> string) \<Rightarrow> (string \<times> edge) list \<Rightarrow> edge \<Rightarrow> edge" where
  "confirmed_by svc ps e = with_sources e (collect_sources (filter (\<lambda>pe. confirms svc pe e) (map snd ps)) (ed_sources e))"

lemma confirmed_by_fields [simp]:
  "ed_id (confirmed_by svc ps e) = ed_id e" "ed_from (confirmed_by svc ps e) = ed_from e"
  "ed_to (confirmed_by svc ps e) = ed_to e" "keyOf (confirmed_by svc ps e) = keyOf e"
  "confirms svc pe (confirmed_by svc ps e) = confirms svc pe e"
  "ed_type (confirmed_by svc ps e) = ed_type e" "ed_label (confirmed_by svc ps e) = ed_label e"
  by (simp_all add: confirmed_by_def)

lemma confirmed_by_snoc:
  "confirmed_by svc (ps @ [p]) e = (if confirms svc (snd p) e then add_sources (snd p) (confirmed_by svc ps e) else confirmed_by svc ps e)"
  by (simp add: confirmed_by_def add_sources_alt)

definition add_gap :: "string \<times> edge \<Rightarrow> edge list \<Rightarrow> edge list" where
  "add_gap p gs = (let g = gap_edge (snd p) in
     if list_ex (\<lambda>h. ed_id h = ed_id g) gs then map (\<lambda>h. if ed_id h = ed_id g then add_sources (snd p) h else h) gs else gs @ [g])"

definition add_gap_nodes :: "string \<times> edge \<Rightarrow> edge list \<times> node list \<Rightarrow> edge list \<times> node list" where
  "add_gap_nodes p s = (let g = gap_edge (snd p) in
     (add_gap p (fst s), if list_ex (\<lambda>h. ed_id h = ed_id g) (fst s) then snd s
       else mint_node (fst p) (snd p) (ed_to g) (mint_node (fst p) (snd p) (ed_from g) (snd s))))"

definition unmatched :: "(string \<Rightarrow> string) \<Rightarrow> edge list \<Rightarrow> string \<times> edge \<Rightarrow> bool" where
  "unmatched svc es p \<longleftrightarrow> \<not> list_ex (confirms svc (snd p)) es"

text \<open>One joined edge, seen on the three parts of the state.\<close>

lemma join_edge_split:
  assumes "fu_edges f = map (confirmed_by svc ps) es"
  shows "fu_edges (join_edge svc prov pe f) = map (confirmed_by svc (ps @ [(prov, pe)])) es"
    "(fu_gaps (join_edge svc prov pe f), fu_nodes (join_edge svc prov pe f))
      = (if unmatched svc es (prov, pe) then add_gap_nodes (prov, pe) (fu_gaps f, fu_nodes f) else (fu_gaps f, fu_nodes f))"
proof -
  have m: "list_ex (confirms svc pe) (fu_edges f) \<longleftrightarrow> list_ex (confirms svc pe) es"
    by (simp add: assms list_ex_iff)
  show "fu_edges (join_edge svc prov pe f) = map (confirmed_by svc (ps @ [(prov, pe)])) es"
  proof (cases "list_ex (confirms svc pe) es")
    case True
    then show ?thesis using m by (simp add: join_edge_def assms confirmed_by_snoc o_def)
  next
    case False
    then have "confirmed_by svc (ps @ [(prov, pe)]) e = confirmed_by svc ps e" if "e \<in> set es" for e
      using that by (simp add: confirmed_by_snoc list_ex_iff)
    then show ?thesis using False m by (simp add: join_edge_def assms Let_def)
  qed
  show "(fu_gaps (join_edge svc prov pe f), fu_nodes (join_edge svc prov pe f))
      = (if unmatched svc es (prov, pe) then add_gap_nodes (prov, pe) (fu_gaps f, fu_nodes f) else (fu_gaps f, fu_nodes f))"
    using m by (simp add: join_edge_def unmatched_def add_gap_nodes_def add_gap_def Let_def)
qed

text \<open>
  The whole join: each static edge collects the sources of all the provider edges that confirm it,
  and the minted edges are built from the provider edges that match nothing.
\<close>

lemma fold_join_edges:
  assumes "fu_edges f = map (confirmed_by svc ps) es"
  shows "fu_edges (fold (join_edge svc prov) pes f) = map (confirmed_by svc (ps @ map (Pair prov) pes)) es
    \<and> (fu_gaps (fold (join_edge svc prov) pes f), fu_nodes (fold (join_edge svc prov) pes f))
        = fold add_gap_nodes (filter (unmatched svc es) (map (Pair prov) pes)) (fu_gaps f, fu_nodes f)"
  using assms
proof (induction pes arbitrary: f ps)
  case (Cons pe pes)
  note one = join_edge_split [OF Cons.prems, of prov pe]
  from Cons.IH [OF one(1)] one(2) show ?case by simp
qed simp

lemma add_gap_nodes_fst: "fst (fold add_gap_nodes us s) = fold add_gap us (fst s)"
  by (induction us arbitrary: s) (simp_all add: add_gap_nodes_def Let_def)

lemma fold_join_providers:
  assumes "fu_edges f = map (confirmed_by svc ps) es"
  shows "fu_edges (fold (join_provider svc) cs f) = map (confirmed_by svc (ps @ offered cs)) es
    \<and> fu_gaps (fold (join_provider svc) cs f) = fold add_gap (filter (unmatched svc es) (offered cs)) (fu_gaps f)"
  using assms
proof (induction cs arbitrary: f ps)
  case (Cons c cs)
  note one = fold_join_edges [OF Cons.prems, of "fst c" "ev_edges (snd c)"]
  let ?f1 = "join_provider svc c f"
  have e1: "fu_edges ?f1 = map (confirmed_by svc (ps @ map (Pair (fst c)) (ev_edges (snd c)))) es"
    using one by (simp add: join_provider_def Let_def)
  have "fu_gaps ?f1 = fst (fu_gaps (fold (join_edge svc (fst c)) (ev_edges (snd c)) f), fu_nodes (fold (join_edge svc (fst c)) (ev_edges (snd c)) f))"
    by (simp add: join_provider_def Let_def)
  then have g1: "fu_gaps ?f1 = fold add_gap (filter (unmatched svc es) (map (Pair (fst c)) (ev_edges (snd c)))) (fu_gaps f)"
    using one by (simp add: add_gap_nodes_fst)
  from Cons.IH [OF e1] show ?case by (simp add: g1 offered_def)
qed (simp add: offered_def)

lemma fuse_edges:
  "fu_edges (fuse st cs) = map (confirmed_by (service_of (ev_nodes st)) (offered cs)) (ev_edges st)"
  "fu_gaps (fuse st cs) = fold add_gap (filter (unmatched (service_of (ev_nodes st)) (ev_edges st)) (offered cs)) []"
proof -
  have "map (confirmed_by svc []) es = es" for svc es
    by (rule map_idI) (simp add: confirmed_by_def)
  then have "fu_edges \<lparr>fu_edges = ev_edges st, fu_gaps = [], fu_nodes = ev_nodes st\<rparr>
      = map (confirmed_by (service_of (ev_nodes st)) []) (ev_edges st)" by simp
  from fold_join_providers [OF this, of cs] show
    "fu_edges (fuse st cs) = map (confirmed_by (service_of (ev_nodes st)) (offered cs)) (ev_edges st)"
    "fu_gaps (fuse st cs) = fold add_gap (filter (unmatched (service_of (ev_nodes st)) (ev_edges st)) (offered cs)) []"
    by (simp_all add: fuse_def)
qed

section \<open>Minted edges\<close>

lemma gap_edge_fields [simp]:
  "ed_sources (gap_edge pe) = ed_sources pe" "ed_type (gap_edge pe) = ed_type pe" "ed_label (gap_edge pe) = ed_label pe"
  "ed_from (gap_edge pe) = fst (gap_ends pe)" "ed_to (gap_edge pe) = snd (gap_ends pe)"
  by (simp_all add: gap_edge_def split_beta Let_def)

lemma add_sources_fields [simp]:
  "ed_id (add_sources pe e) = ed_id e" "ed_from (add_sources pe e) = ed_from e" "ed_to (add_sources pe e) = ed_to e"
  "ed_type (add_sources pe e) = ed_type e" "ed_label (add_sources pe e) = ed_label e"
  by (simp_all add: add_sources_def)

text \<open>The provider edges that share the identifier of a minted edge, and what they make of it.\<close>

definition same_gap :: "(string \<times> edge) list \<Rightarrow> string \<Rightarrow> edge set" where
  "same_gap us i = {pe \<in> snd ` set us. ed_id (gap_edge pe) = i}"

definition gap_row :: "(string \<times> edge) list \<Rightarrow> edge \<Rightarrow> bool" where
  "gap_row us g \<longleftrightarrow> source_key ` set (ed_sources g) = (\<Union>pe \<in> same_gap us (ed_id g). source_key ` set (ed_sources pe))
     \<and> set (ed_sources g) \<subseteq> (\<Union>pe \<in> same_gap us (ed_id g). set (ed_sources pe))
     \<and> (\<exists>pe \<in> same_gap us (ed_id g). (ed_from g, ed_to g) = gap_ends pe \<and> ed_type g = ed_type pe \<and> ed_label g = ed_label pe)"

definition gaps_for :: "(string \<times> edge) list \<Rightarrow> edge list \<Rightarrow> bool" where
  "gaps_for us gs \<longleftrightarrow> distinct (map ed_id gs) \<and> ed_id ` set gs = (\<lambda>u. ed_id (gap_edge (snd u))) ` set us
     \<and> (\<forall>g \<in> set gs. gap_row us g)"

lemma same_gap_snoc: "same_gap (us @ [u]) i = (if ed_id (gap_edge (snd u)) = i then insert (snd u) (same_gap us i) else same_gap us i)"
  by (auto simp: same_gap_def)

lemma gap_row_other: "ed_id (gap_edge (snd u)) \<noteq> ed_id g \<Longrightarrow> gap_row (us @ [u]) g = gap_row us g"
  by (simp add: gap_row_def same_gap_snoc)

lemma gap_row_new: "same_gap us (ed_id (gap_edge (snd u))) = {} \<Longrightarrow> gap_row (us @ [u]) (gap_edge (snd u))"
  by (simp add: gap_row_def same_gap_snoc)

lemma gap_row_more:
  assumes "gap_row us g" "ed_id g = ed_id (gap_edge (snd u))"
  shows "gap_row (us @ [u]) (add_sources (snd u) g)"
proof -
  have k: "source_key ` set (ed_sources (add_sources (snd u) g)) = source_key ` set (ed_sources g) \<union> source_key ` set (ed_sources (snd u))"
    "set (ed_sources (add_sources (snd u) g)) \<subseteq> set (ed_sources g) \<union> set (ed_sources (snd u))"
    using appendSource_set [of "ed_sources g" "ed_sources (snd u)"] by (simp_all add: add_sources_def appendSource_keys)
  show ?thesis
    using assms k unfolding gap_row_def add_sources_fields same_gap_snoc by auto
qed

lemma add_gap_for:
  assumes a: "gaps_for us gs"
  shows "gaps_for (us @ [u]) (add_gap u gs)"
proof -
  let ?g = "gap_edge (snd u)"
  have d: "distinct (map ed_id gs)" "ed_id ` set gs = (\<lambda>u. ed_id (gap_edge (snd u))) ` set us" "\<And>g. g \<in> set gs \<Longrightarrow> gap_row us g"
    using a by (simp_all add: gaps_for_def)
  show ?thesis
  proof (cases "list_ex (\<lambda>h. ed_id h = ed_id ?g) gs")
    case True
    then have ag: "add_gap u gs = map (\<lambda>h. if ed_id h = ed_id ?g then add_sources (snd u) h else h) gs" by (simp add: add_gap_def Let_def)
    have ids: "map ed_id (add_gap u gs) = map ed_id gs" by (simp add: ag)
    from True have m: "ed_id ?g \<in> ed_id ` set gs" unfolding list_ex_iff by (metis image_eqI)
    have "gap_row (us @ [u]) h" if "h \<in> set (add_gap u gs)" for h
    proof -
      from that obtain g where g: "g \<in> set gs" "h = (if ed_id g = ed_id ?g then add_sources (snd u) g else g)" by (auto simp: ag)
      show ?thesis using d(3) [OF g(1)] g(2) gap_row_more gap_row_other by (cases "ed_id g = ed_id ?g") auto
    qed
    moreover have "ed_id ` set (add_gap u gs) = ed_id ` set gs" using ids by (metis set_map)
    ultimately show ?thesis using d(1,2) m ids by (auto simp: gaps_for_def)
  next
    case False
    then have ag: "add_gap u gs = gs @ [?g]" by (simp add: add_gap_def Let_def)
    have nu: "ed_id ?g \<notin> ed_id ` set gs" using False unfolding list_ex_iff by (metis imageE)
    then have "ed_id (gap_edge (snd w)) \<noteq> ed_id ?g" if "w \<in> set us" for w unfolding d(2) using that by (metis image_eqI)
    then have "same_gap us (ed_id ?g) = {}" by (auto simp: same_gap_def)
    then have "gap_row (us @ [u]) ?g" by (rule gap_row_new)
    moreover have "gap_row (us @ [u]) g" if "g \<in> set gs" for g
    proof -
      have "ed_id ?g \<noteq> ed_id g" using nu that by (metis image_eqI)
      then show ?thesis using gap_row_other d(3) [OF that] by simp
    qed
    ultimately show ?thesis using d(1,2) nu by (simp add: gaps_for_def ag)
  qed
qed

lemma gaps_for_fold: "gaps_for us (fold add_gap us [])"
proof (induction us rule: rev_induct)
  case (snoc u us)
  then show ?case using add_gap_for by simp
qed (simp add: gaps_for_def)

section \<open>States\<close>

lemma has_source_sort [simp]: "has_source ps (sortSources ss) = has_source ps ss" "static_partial (sortSources ss) = static_partial ss"
  by (simp_all add: has_source_def static_partial_def list_ex_iff)

lemma computeState_sort [simp]: "computeState (sortSources ss) = computeState ss"
  by (simp add: computeState_def)

lemma computeState_verified:
  "computeState ss = StateVerified \<longleftrightarrow> has_source [PStatic] ss
     \<and> (has_source [PRuntime, PConfig] ss \<or> has_source [PContract] ss \<and> \<not> static_partial ss)"
  by (simp add: computeState_def Let_def)

lemma computeState_gap:
  "computeState ss = StateObservedOnlyGap \<longleftrightarrow> \<not> has_source [PStatic] ss \<and> (has_source [PRuntime, PConfig] ss \<or> has_source [PContract] ss)"
  by (simp add: computeState_def Let_def)

lemma computeState_range: "computeState ss \<in> {StateVerified, StateCandidate, StateObservedOnlyGap}"
  by (simp add: computeState_def Let_def)

lemma keyOf_state [simp]: "keyOf (e\<lparr>ed_state := st, ed_granularity := g\<rparr>) = keyOf e"
  by (simp add: keyOf_def)

lemma mark_conflict_fields [simp]:
  "ed_id (mark_conflict ks e) = ed_id e" "ed_from (mark_conflict ks e) = ed_from e" "ed_to (mark_conflict ks e) = ed_to e"
  "ed_type (mark_conflict ks e) = ed_type e" "ed_label (mark_conflict ks e) = ed_label e"
  "ed_sources (mark_conflict ks e) = ed_sources e" "keyOf (mark_conflict ks e) = keyOf e"
  by (simp_all add: mark_conflict_def keyOf_def)

lemma set_state_fields [simp]:
  "ed_id (set_state e) = ed_id e" "ed_from (set_state e) = ed_from e" "ed_to (set_state e) = ed_to e"
  "ed_type (set_state e) = ed_type e" "ed_label (set_state e) = ed_label e"
  "ed_sources (set_state e) = sortSources (ed_sources e)" "keyOf (set_state e) = keyOf e"
  "ed_state (set_state e) = computeState (ed_sources e)"
  by (simp_all add: set_state_def keyOf_def Let_def)

text \<open>The state of a finished edge, from its sources and the verified edges of its channel.\<close>

definition state_in :: "edge list \<Rightarrow> edge \<Rightarrow> string" where
  "state_in es e =
     (if computeState (ed_sources e) = StateObservedOnlyGap \<and> (\<exists>v \<in> set es. keyOf v = keyOf e \<and> computeState (ed_sources v) = StateVerified)
      then StateConflicting else computeState (ed_sources e))"

lemma finish_states:
  assumes "e \<in> set (finish_edges es)"
  shows "ed_state e = state_in (finish_edges es) e"
    "ed_granularity e = (if ed_state e = StateVerified then computeGranularity (ed_sources e) else [])"
proof -
  let ?es1 = "map set_state es"
  let ?ks = "verifiedChannels ?es1"
  have set: "set (finish_edges es) = mark_conflict ?ks ` set_state ` set es" by (simp add: finish_edges_def Let_def image_image)
  have ks: "k \<in> set ?ks \<longleftrightarrow> (\<exists>v \<in> set (finish_edges es). keyOf v = k \<and> computeState (ed_sources v) = StateVerified)" for k
  proof -
    have "k \<in> set ?ks \<longleftrightarrow> (\<exists>v \<in> set es. keyOf v = k \<and> computeState (ed_sources v) = StateVerified)"
      by (induction es) (auto simp: verifiedChannels_def)
    then show ?thesis by (simp add: set)
  qed
  obtain d where d: "d \<in> set es" "e = mark_conflict ?ks (set_state d)" using assms unfolding set by blast
  then have c: "computeState (ed_sources e) = computeState (ed_sources d)" "keyOf e = keyOf d" by simp_all
  have "ed_state e = (if computeState (ed_sources e) = StateObservedOnlyGap \<and> keyOf e \<in> set ?ks then StateConflicting else computeState (ed_sources e))"
    using d by (simp add: mark_conflict_def)
  then show st: "ed_state e = state_in (finish_edges es) e" unfolding ks state_in_def .
  show "ed_granularity e = (if ed_state e = StateVerified then computeGranularity (ed_sources e) else [])"
    using d(2) by (auto simp: mark_conflict_def set_state_def Let_def)
qed

lemma state_in_iff:
  "state_in es e = StateVerified \<longleftrightarrow> computeState (ed_sources e) = StateVerified"
  "state_in es e = StateConflicting \<longleftrightarrow> computeState (ed_sources e) = StateObservedOnlyGap
     \<and> (\<exists>v \<in> set es. keyOf v = keyOf e \<and> computeState (ed_sources v) = StateVerified)"
  using computeState_range [of "ed_sources e"] by (auto simp: state_in_def)

lemma finish_skeleton:
  "sorted (map ed_id (finish_edges es))"
  "mset (map (\<lambda>e. (ed_id e, ed_from e, ed_to e, ed_type e, ed_label e)) (finish_edges es))
     = mset (map (\<lambda>e. (ed_id e, ed_from e, ed_to e, ed_type e, ed_label e)) es)"
  by (simp_all add: finish_edges_def Let_def o_def multiset.map_comp)

lemma finish_sources:
  "set (map (\<lambda>e. (ed_id e, keyOf e, set (ed_sources e))) (finish_edges es)) = set (map (\<lambda>e. (ed_id e, keyOf e, set (ed_sources e))) es)"
  by (auto simp: finish_edges_def Let_def image_image)

section \<open>The result\<close>

lemma Reconcile_unfold:
  assumes "Reconcile ps = Inr r"
  obtains all where "collect_all ps = Inr all"
    "rr_edges r = finish_edges (fu_edges (fuse (static_evidence all) (nonstatic all)) @ fu_gaps (fuse (static_evidence all) (nonstatic all)))"
    "rr_nodes r = fu_nodes (fuse (static_evidence all) (nonstatic all))"
    "rr_unresolved r = concat (map (\<lambda>c. ev_unresolved (snd c)) (nonstatic all))
       @ filter (\<lambda>u. \<not> cleared (nonstatic all) u) (ev_unresolved (static_evidence all))"
    "ValidateStaticProvenance (rr_edges r) = []"
  using assms by (auto simp: Reconcile_def Let_def split: if_splits)

lemma Reconcile_states:
  assumes "Reconcile ps = Inr r" "e \<in> set (rr_edges r)"
  shows "ed_state e = StateVerified \<longleftrightarrow> has_source [PStatic] (ed_sources e)
      \<and> (has_source [PRuntime, PConfig] (ed_sources e) \<or> has_source [PContract] (ed_sources e) \<and> \<not> static_partial (ed_sources e))"
    and "ed_state e = StateConflicting \<longleftrightarrow> \<not> has_source [PStatic] (ed_sources e)
      \<and> (has_source [PRuntime, PConfig] (ed_sources e) \<or> has_source [PContract] (ed_sources e))
      \<and> (\<exists>v \<in> set (rr_edges r). keyOf v = keyOf e \<and> ed_state v = StateVerified)"
    and "ed_granularity e = (if ed_state e = StateVerified then computeGranularity (ed_sources e) else [])"
proof -
  obtain es where es: "rr_edges r = finish_edges es" using assms(1) by (rule Reconcile_unfold)
  have st: "ed_state v = state_in (rr_edges r) v" if "v \<in> set (rr_edges r)" for v
    using finish_states(1) that unfolding es .
  show "ed_state e = StateVerified \<longleftrightarrow> has_source [PStatic] (ed_sources e)
      \<and> (has_source [PRuntime, PConfig] (ed_sources e) \<or> has_source [PContract] (ed_sources e) \<and> \<not> static_partial (ed_sources e))"
    unfolding st [OF assms(2)] state_in_iff computeState_verified ..
  have "(\<exists>v \<in> set (rr_edges r). keyOf v = keyOf e \<and> ed_state v = StateVerified)
    \<longleftrightarrow> (\<exists>v \<in> set (rr_edges r). keyOf v = keyOf e \<and> computeState (ed_sources v) = StateVerified)"
    using st state_in_iff(1) by auto
  then show "ed_state e = StateConflicting \<longleftrightarrow> \<not> has_source [PStatic] (ed_sources e)
      \<and> (has_source [PRuntime, PConfig] (ed_sources e) \<or> has_source [PContract] (ed_sources e))
      \<and> (\<exists>v \<in> set (rr_edges r). keyOf v = keyOf e \<and> ed_state v = StateVerified)"
    unfolding st [OF assms(2)] state_in_iff(2) computeState_gap by blast
  show "ed_granularity e = (if ed_state e = StateVerified then computeGranularity (ed_sources e) else [])"
    using finish_states(2) assms(2) unfolding es by blast
qed

text \<open>Every source a provider offers arrives on an edge of its channel, or on the edge minted for it.\<close>

lemma Reconcile_keeps_evidence:
  assumes run: "Reconcile ps = Inr r" and all: "collect_all ps = Inr all"
    and c: "c \<in> set all" "fst c \<noteq> PStatic" and pe: "pe \<in> set (ev_edges (snd c))"
  shows "\<exists>e \<in> set (rr_edges r). source_key ` set (ed_sources pe) \<subseteq> source_key ` set (ed_sources e)
    \<and> (keyOf e = keyOf pe \<or> ed_id e = ed_id (gap_edge pe))"
proof -
  let ?st = "static_evidence all" and ?cs = "nonstatic all"
  let ?svc = "service_of (ev_nodes ?st)"
  let ?us = "filter (unmatched ?svc (ev_edges ?st)) (offered ?cs)"
  let ?es = "fu_edges (fuse ?st ?cs) @ fu_gaps (fuse ?st ?cs)"
  have es: "rr_edges r = finish_edges ?es" by (rule Reconcile_unfold [OF run]) (use all in simp)
  have "c \<in> set ?cs" using c by (simp add: nonstatic_def)
  then have off: "(fst c, pe) \<in> set (offered ?cs)"
    unfolding offered_def set_concat set_map image_image by (rule UN_I) (use pe in simp)
  have "\<exists>e \<in> set ?es. source_key ` set (ed_sources pe) \<subseteq> source_key ` set (ed_sources e) \<and> (keyOf e = keyOf pe \<or> ed_id e = ed_id (gap_edge pe))"
  proof (cases "unmatched ?svc (ev_edges ?st) (fst c, pe)")
    case True
    then have u: "(fst c, pe) \<in> set ?us" using off by simp
    have g: "gaps_for ?us (fu_gaps (fuse ?st ?cs))" using gaps_for_fold fuse_edges(2) by metis
    have "ed_id (gap_edge pe) \<in> ed_id ` set (fu_gaps (fuse ?st ?cs))" using g u unfolding gaps_for_def by (metis image_eqI snd_conv)
    then obtain e where e: "e \<in> set (fu_gaps (fuse ?st ?cs))" "ed_id e = ed_id (gap_edge pe)" by (metis imageE)
    have "gap_row ?us e" using g e(1) by (simp add: gaps_for_def)
    moreover have "pe \<in> same_gap ?us (ed_id e)" using u e(2) by (force simp: same_gap_def)
    ultimately have "source_key ` set (ed_sources pe) \<subseteq> source_key ` set (ed_sources e)" unfolding gap_row_def by blast
    then show ?thesis using e by auto
  next
    case False
    then obtain e where e: "e \<in> set (ev_edges ?st)" "confirms ?svc pe e" by (auto simp: unmatched_def list_ex_iff)
    let ?e = "confirmed_by ?svc (offered ?cs) e"
    have "?e \<in> set (fu_edges (fuse ?st ?cs))" using e(1) by (simp add: fuse_edges(1))
    moreover have "pe \<in> set (filter (\<lambda>pe. confirms ?svc pe e) (map snd (offered ?cs)))" using off e(2) by force
    then have "source_key ` set (ed_sources pe) \<subseteq> source_key ` set (ed_sources ?e)"
      unfolding confirmed_by_def by (simp add: collect_sources_keys) blast
    moreover have "keyOf ?e = keyOf pe" using e(2) by (simp add: confirms_def)
    ultimately show ?thesis by (metis UnCI set_append)
  qed
  then obtain e where e: "e \<in> set ?es" "source_key ` set (ed_sources pe) \<subseteq> source_key ` set (ed_sources e)"
    "keyOf e = keyOf pe \<or> ed_id e = ed_id (gap_edge pe)" by blast
  have "(ed_id e, keyOf e, set (ed_sources e)) \<in> set (map (\<lambda>e. (ed_id e, keyOf e, set (ed_sources e))) (finish_edges ?es))"
    unfolding finish_sources using e(1) by auto
  then obtain e' where "e' \<in> set (finish_edges ?es)" "ed_id e' = ed_id e" "keyOf e' = keyOf e" "set (ed_sources e') = set (ed_sources e)" by auto
  then show ?thesis using e(2,3) unfolding es by metis
qed

text \<open>
  The provider edges that confirm no static edge; the edge that a static edge becomes; and an edge minted for
  provider edges.
\<close>

definition unconfirmed :: "(string \<times> evidence) list \<Rightarrow> edge set" where
  "unconfirmed all = {pe \<in> snd ` set (offered (nonstatic all)).
     \<forall>s \<in> set (ev_edges (static_evidence all)). \<not> confirms (service_of (ev_nodes (static_evidence all))) pe s}"

definition confirming :: "(string \<times> evidence) list \<Rightarrow> edge \<Rightarrow> edge set" where
  "confirming all s = {pe \<in> snd ` set (offered (nonstatic all)). confirms (service_of (ev_nodes (static_evidence all))) pe s}"

definition static_row :: "(string \<times> evidence) list \<Rightarrow> edge \<Rightarrow> edge \<Rightarrow> bool" where
  "static_row all s e \<longleftrightarrow> e\<lparr>ed_sources := [], ed_state := [], ed_granularity := []\<rparr> = s\<lparr>ed_sources := [], ed_state := [], ed_granularity := []\<rparr>
     \<and> source_key ` set (ed_sources e) = source_key ` set (ed_sources s) \<union> (\<Union>pe \<in> confirming all s. source_key ` set (ed_sources pe))
     \<and> set (ed_sources s) \<subseteq> set (ed_sources e) \<and> set (ed_sources e) \<subseteq> set (ed_sources s) \<union> (\<Union>pe \<in> confirming all s. set (ed_sources pe))"

definition minted_row :: "edge set \<Rightarrow> edge \<Rightarrow> bool" where
  "minted_row us g \<longleftrightarrow> source_key ` set (ed_sources g) = (\<Union>pe \<in> {pe \<in> us. ed_id (gap_edge pe) = ed_id g}. source_key ` set (ed_sources pe))
     \<and> set (ed_sources g) \<subseteq> (\<Union>pe \<in> {pe \<in> us. ed_id (gap_edge pe) = ed_id g}. set (ed_sources pe))
     \<and> (\<exists>pe \<in> us. ed_id (gap_edge pe) = ed_id g \<and> (ed_from g, ed_to g) = gap_ends pe \<and> ed_type g = ed_type pe \<and> ed_label g = ed_label pe)"

text \<open>Finishing an edge changes no more than its state, its granularity and the order of its sources.\<close>

definition finish_edge :: "channelKey list \<Rightarrow> edge \<Rightarrow> edge" where
  "finish_edge ks e = mark_conflict ks (set_state e)"

lemma finish_edge_fields [simp]:
  "set (ed_sources (finish_edge ks e)) = set (ed_sources e)" "ed_id (finish_edge ks e) = ed_id e"
  "ed_from (finish_edge ks e) = ed_from e" "ed_to (finish_edge ks e) = ed_to e"
  "ed_type (finish_edge ks e) = ed_type e" "ed_label (finish_edge ks e) = ed_label e"
  "(finish_edge ks e)\<lparr>ed_sources := [], ed_state := [], ed_granularity := []\<rparr> = e\<lparr>ed_sources := [], ed_state := [], ed_granularity := []\<rparr>"
  by (simp_all add: finish_edge_def) (simp add: mark_conflict_def set_state_def Let_def)

lemma finish_edges_alt: "\<exists>ks. finish_edges es = sort_key ed_id (map (finish_edge ks) es)"
  by (rule exI [of _ "verifiedChannels (map set_state es)"]) (simp add: finish_edges_def Let_def finish_edge_def [abs_def] comp_def)

lemma collect_sources_keeps: "set ss \<subseteq> set (collect_sources pes ss)"
proof (induction pes arbitrary: ss)
  case (Cons pe pes)
  then show ?case using appendSource_set [of ss "ed_sources pe"] by fastforce
qed simp

lemma confirmed_static_row:
  "static_row all s (finish_edge ks (confirmed_by (service_of (ev_nodes (static_evidence all))) (offered (nonstatic all)) s))"
proof -
  let ?pes = "filter (\<lambda>pe. confirms (service_of (ev_nodes (static_evidence all))) pe s) (map snd (offered (nonstatic all)))"
  have c: "set ?pes = confirming all s" by (auto simp: confirming_def)
  show ?thesis
    using collect_sources_set [of ?pes "ed_sources s"] collect_sources_keys [of ?pes "ed_sources s"] collect_sources_keeps [of "ed_sources s" ?pes]
    unfolding c by (simp add: static_row_def confirmed_by_def)
qed

lemma unmatched_unconfirmed:
  "snd ` set (filter (unmatched (service_of (ev_nodes (static_evidence all))) (ev_edges (static_evidence all))) (offered (nonstatic all))) = unconfirmed all"
  by (auto simp: unconfirmed_def unmatched_def list_ex_iff)

lemma gap_minted_row: "gap_row us g \<Longrightarrow> minted_row (snd ` set us) (finish_edge ks g)"
  unfolding gap_row_def minted_row_def same_gap_def by auto

lemma Reconcile_rows:
  assumes run: "Reconcile ps = Inr r" and all: "collect_all ps = Inr all"
  shows "\<exists>es gs. rr_edges r = sort_key ed_id (es @ gs)
        \<and> list_all2 (static_row all) (ev_edges (static_evidence all)) es
        \<and> distinct (map ed_id gs) \<and> ed_id ` set gs = (\<lambda>pe. ed_id (gap_edge pe)) ` unconfirmed all
        \<and> list_all (minted_row (unconfirmed all)) gs"
proof -
  let ?st = "static_evidence all" and ?cs = "nonstatic all"
  let ?us = "filter (unmatched (service_of (ev_nodes ?st)) (ev_edges ?st)) (offered ?cs)"
  let ?gs = "fu_gaps (fuse ?st ?cs)"
  have "rr_edges r = finish_edges (fu_edges (fuse ?st ?cs) @ ?gs)" by (rule Reconcile_unfold [OF run]) (use all in simp)
  then obtain ks where es: "rr_edges r = sort_key ed_id (map (finish_edge ks) (fu_edges (fuse ?st ?cs)) @ map (finish_edge ks) ?gs)"
    using finish_edges_alt by (metis map_append)
  have st: "list_all2 (static_row all) (ev_edges ?st) (map (finish_edge ks) (fu_edges (fuse ?st ?cs)))"
    unfolding fuse_edges(1) by (simp add: list_all2_conv_all_nth confirmed_static_row)
  have "gaps_for ?us ?gs" using gaps_for_fold fuse_edges(2) by metis
  then have g: "distinct (map ed_id ?gs)" "ed_id ` set ?gs = (\<lambda>pe. ed_id (gap_edge pe)) ` snd ` set ?us" "\<And>g. g \<in> set ?gs \<Longrightarrow> gap_row ?us g"
    unfolding gaps_for_def image_image by blast+
  have "list_all (minted_row (unconfirmed all)) (map (finish_edge ks) ?gs)"
    using gap_minted_row [OF g(3)] unfolding list_all_iff unmatched_unconfirmed by auto
  moreover have "map ed_id (map (finish_edge ks) ?gs) = map ed_id ?gs" by simp
  moreover have "ed_id ` set (map (finish_edge ks) ?gs) = (\<lambda>pe. ed_id (gap_edge pe)) ` unconfirmed all"
    using g(2) unfolding unmatched_unconfirmed by (simp add: image_image)
  ultimately show ?thesis using es st g(1) by metis
qed

section \<open>Nodes\<close>

lemma known_id_iff: "known_id ns v \<longleftrightarrow> v \<in> nd_id ` set ns"
  by (auto simp: known_id_def list_ex_iff)

lemma gap_node_id [simp]: "nd_id (gap_node prov pe v) = v"
  by (simp add: gap_node_def Let_def split_beta)

lemma mint_node_ids: "nd_id ` set (mint_node prov pe v ns) = insert v (nd_id ` set ns)"
  by (auto simp: mint_node_def known_id_iff)

lemma absorb_node_ids: "nd_id ` set (absorb_node n ns) = insert (nd_id n) (nd_id ` set ns)"
  by (auto simp: absorb_node_def known_id_iff)

lemma absorb_nodes_ids: "nd_id ` set (fold absorb_node ms ns) = nd_id ` set ms \<union> nd_id ` set ns"
  by (induction ms arbitrary: ns) (auto simp: absorb_node_ids)

lemma mint_node_distinct: "distinct (map nd_id ns) \<Longrightarrow> distinct (map nd_id (mint_node prov pe v ns))"
  by (simp add: mint_node_def known_id_iff)

lemma absorb_node_distinct: "distinct (map nd_id ns) \<Longrightarrow> distinct (map nd_id (absorb_node n ns))"
  by (simp add: absorb_node_def known_id_iff)

lemma absorb_nodes_distinct: "distinct (map nd_id ns) \<Longrightarrow> distinct (map nd_id (fold absorb_node ms ns))"
  by (induction ms arbitrary: ns) (simp_all add: absorb_node_distinct)

text \<open>Every minted edge has both its nodes, no node is lost, and identifiers stay distinct.\<close>

definition anchored :: "string set \<Rightarrow> fusion \<Rightarrow> bool" where
  "anchored ids f \<longleftrightarrow> ids \<subseteq> nd_id ` set (fu_nodes f)
     \<and> (\<forall>g \<in> set (fu_gaps f). ed_from g \<in> nd_id ` set (fu_nodes f) \<and> ed_to g \<in> nd_id ` set (fu_nodes f))"

lemma join_edge_anchored:
  assumes "anchored ids f"
  shows "anchored ids (join_edge svc prov pe f)"
  using assms by (auto simp: join_edge_def anchored_def Let_def mint_node_ids)

lemma join_edge_distinct: "distinct (map nd_id (fu_nodes f)) \<Longrightarrow> distinct (map nd_id (fu_nodes (join_edge svc prov pe f)))"
  by (simp add: join_edge_def Let_def mint_node_distinct)

lemma join_edges_anchored: "anchored ids f \<Longrightarrow> anchored ids (fold (join_edge svc prov) pes f)"
  by (induction pes arbitrary: f) (simp_all add: join_edge_anchored)

lemma join_edges_distinct: "distinct (map nd_id (fu_nodes f)) \<Longrightarrow> distinct (map nd_id (fu_nodes (fold (join_edge svc prov) pes f)))"
  by (induction pes arbitrary: f) (simp_all add: join_edge_distinct)

lemma join_provider_anchored:
  assumes "anchored ids f"
  shows "anchored (ids \<union> nd_id ` set (ev_nodes (snd c))) (join_provider svc c f)"
  using join_edges_anchored [OF assms, of svc "fst c" "ev_edges (snd c)"]
  by (auto simp: join_provider_def Let_def anchored_def absorb_nodes_ids)

lemma join_providers_anchored:
  assumes "anchored ids f"
  shows "anchored (ids \<union> (\<Union>c \<in> set cs. nd_id ` set (ev_nodes (snd c)))) (fold (join_provider svc) cs f)"
  using assms
proof (induction cs arbitrary: f ids)
  case (Cons c cs)
  from Cons.IH [OF join_provider_anchored [OF Cons.prems]] show ?case by (simp add: Un_assoc)
qed simp

lemma join_providers_distinct: "distinct (map nd_id (fu_nodes f)) \<Longrightarrow> distinct (map nd_id (fu_nodes (fold (join_provider svc) cs f)))"
  by (induction cs arbitrary: f) (simp_all add: join_provider_def Let_def absorb_nodes_distinct join_edges_distinct)

lemma fuse_anchored:
  "anchored (nd_id ` set (ev_nodes st) \<union> (\<Union>c \<in> set cs. nd_id ` set (ev_nodes (snd c)))) (fuse st cs)"
  unfolding fuse_def by (rule join_providers_anchored) (simp add: anchored_def)

lemma fuse_nodes_distinct: "distinct (map nd_id (ev_nodes st)) \<Longrightarrow> distinct (map nd_id (fu_nodes (fuse st cs)))"
  unfolding fuse_def by (rule join_providers_distinct) simp

section \<open>A run over static evidence alone\<close>

definition stamped :: "node list \<Rightarrow> edge \<Rightarrow> bool" where
  "stamped ns e \<longleftrightarrow> (\<exists>layer rule e0. rule \<noteq> []
     \<and> e = StampStatic (staticRef (find (\<lambda>n. nd_id n = ed_from e0) (rev ns))) layer rule e0)"

lemma or_candidate_idem [simp]: "or_candidate (or_candidate c) = or_candidate c"
  by (simp add: or_candidate_def ConfidenceCandidate_def)

lemma StampStatic_form:
  assumes "rule \<noteq> []"
  obtains l r where "r \<noteq> []"
    "StampStatic ref layer rule e = e\<lparr>ed_sources := [static_source (or_candidate (ed_confidence e)) ref l r],
       ed_state := StateCandidate, ed_granularity := []\<rparr>"
proof -
  define lr where "lr = (case ed_sources e of [s] \<Rightarrow> if sr_provider s = PStatic
        then (if sr_layer s \<noteq> [] then sr_layer s else layer, if sr_rule s \<noteq> [] then sr_rule s else rule)
        else (layer, rule) | _ \<Rightarrow> (layer, rule))"
  obtain l r where p: "lr = (l, r)" by (cases lr)
  have "snd lr \<noteq> []" using assms unfolding lr_def by (simp split: list.split)
  then have "r \<noteq> []" by (simp add: p)
  moreover have "StampStatic ref layer rule e = e\<lparr>ed_sources := [static_source (or_candidate (ed_confidence e)) ref l r],
       ed_state := StateCandidate, ed_granularity := []\<rparr>"
    unfolding StampStatic_def lr_def [symmetric] p by simp
  ultimately show ?thesis by (rule that)
qed

lemma computeState_static: "computeState [static_source c ref l r] = StateCandidate"
  by (simp add: computeState_def has_source_def static_source_def)

lemma sortSources_single [simp]: "sortSources [s] = [s]"
  by (simp add: sortSources_def)

lemma static_source_fields [simp]:
  "sr_provider (static_source c ref l r) = PStatic" "sr_layer (static_source c ref l r) = l" "sr_rule (static_source c ref l r) = r"
  by (simp_all add: static_source_def)

lemma stamped_fixpoint:
  assumes "stamped ns e"
  shows "set_state (stamp_edge ns e) = e"
proof -
  obtain layer rule e0 where s: "rule \<noteq> []" "e = StampStatic (staticRef (find (\<lambda>n. nd_id n = ed_from e0) (rev ns))) layer rule e0"
    using assms by (auto simp: stamped_def)
  let ?ref = "staticRef (find (\<lambda>n. nd_id n = ed_from e0) (rev ns))"
  obtain l r where r: "r \<noteq> []" and e: "e = e0\<lparr>ed_sources := [static_source (or_candidate (ed_confidence e0)) ?ref l r],
       ed_state := StateCandidate, ed_granularity := []\<rparr>"
    by (rule StampStatic_form [OF s(1), of ?ref layer e0]) (simp add: s(2))
  have conf: "ed_confidence e = ed_confidence e0" "ed_from e = ed_from e0" by (simp_all add: e)
  have "stamp_edge ns e = e\<lparr>ed_sources := [static_source (or_candidate (ed_confidence e0)) ?ref l r], ed_state := [], ed_granularity := []\<rparr>"
    using r by (simp add: stamp_edge_def conf) (simp add: e)
  then show ?thesis by (simp add: set_state_def computeState_static Let_def) (simp add: e)
qed

lemma finish_candidates:
  assumes "\<And>e. e \<in> set es \<Longrightarrow> ed_state (set_state e) \<noteq> StateObservedOnlyGap"
  shows "finish_edges es = sort_key ed_id (map set_state es)"
proof -
  have "map (mark_conflict ks) (map set_state es) = map set_state es" for ks
    by (rule map_idI) (use assms in \<open>auto simp: mark_conflict_def\<close>)
  then show ?thesis unfolding finish_edges_def Let_def by metis
qed

lemma stamped_fields:
  assumes "stamped ns e"
  shows "ed_state e = StateCandidate" "\<not> list_ex (\<lambda>s. sr_provider s = PStatic \<and> sr_rule s = []) (ed_sources e)"
proof -
  obtain layer rule e0 where s: "rule \<noteq> []" "e = StampStatic (staticRef (find (\<lambda>n. nd_id n = ed_from e0) (rev ns))) layer rule e0"
    using assms by (auto simp: stamped_def)
  let ?ref = "staticRef (find (\<lambda>n. nd_id n = ed_from e0) (rev ns))"
  show "ed_state e = StateCandidate" unfolding s(2) by (rule StampStatic_form [OF s(1), of ?ref layer e0]) simp
  show "\<not> list_ex (\<lambda>s. sr_provider s = PStatic \<and> sr_rule s = []) (ed_sources e)"
    unfolding s(2) by (rule StampStatic_form [OF s(1), of ?ref layer e0]) simp
qed

lemma static_run:
  assumes st: "\<And>e. e \<in> set es \<Longrightarrow> stamped ns e"
  shows "Reconcile [\<lparr>pv_name = PStatic, pv_collect = Inr (static_collect ns es us)\<rparr>]
    = Inr \<lparr>rr_nodes = ns, rr_edges = sort_key ed_id es, rr_unresolved = us\<rparr>"
proof -
  let ?c = "(PStatic, static_collect ns es us)"
  have ident: "map set_state (map (stamp_edge ns) es) = es"
    unfolding map_map by (rule map_idI) (simp add: st stamped_fixpoint)
  have "ed_state (set_state (stamp_edge ns e)) \<noteq> StateObservedOnlyGap" if "e \<in> set es" for e
    using st [OF that] by (simp add: stamped_fixpoint stamped_fields(1) [of ns] del: set_state_fields)
  then have fin: "finish_edges (map (stamp_edge ns) es) = sort_key ed_id es"
    using ident by (subst finish_candidates) auto
  have "filter (\<lambda>e. list_ex (\<lambda>s. sr_provider s = PStatic \<and> sr_rule s = []) (ed_sources e)) (sort_key ed_id es) = []"
    by (rule filter_False) (use st stamped_fields(2) in auto)
  then have val: "ValidateStaticProvenance (sort_key ed_id es) = []" by (simp add: ValidateStaticProvenance_def)
  show ?thesis
    by (simp add: Reconcile_def static_evidence_def nonstatic_def Let_def fuse_def static_collect_def emptyEvidence_def
        fin val cleared_def)
qed

section \<open>The verdict\<close>

lemma BuildEpistemic_exact:
  "ep_verdict (BuildEpistemic us dyn vs tr) = EpistemicExact
     \<longleftrightarrow> us = [] \<and> \<not> dyn \<and> vs_candidate vs = 0 \<and> vs_conflicting vs = 0 \<and> ts_measured tr \<and> \<not> ts_stale tr"
proof -
  have "EpistemicLowerBound \<noteq> EpistemicExact" by (simp add: EpistemicLowerBound_def EpistemicExact_def)
  moreover have "sort xs \<noteq> [] \<longleftrightarrow> xs \<noteq> []" for xs :: "string list" by (metis length_0_conv length_sort)
  ultimately show ?thesis unfolding BuildEpistemic_def Let_def by (auto simp: )
qed

lemma count_state_zero: "count_state s es = 0 \<longleftrightarrow> (\<forall>e \<in> set es. ed_state e \<noteq> s)"
  by (simp add: count_state_def filter_empty_conv)

section \<open>A small run\<close>

text \<open>
  Two services; the static graph has a call on channel \<open>x\<close> and an ambiguous one on \<open>y\<close>. A
  specification offers both channels and a third one that the static graph has missed.
\<close>

definition run_node :: "string \<Rightarrow> string \<Rightarrow> int \<Rightarrow> node" where
  "run_node v svc l = \<lparr>nd_id = v, nd_type = [], nd_label = v, nd_service = svc, nd_file = v, nd_line = l,
     nd_endLine = l, nd_language = [], nd_meta = Map.empty\<rparr>"

definition run_edge :: "string \<Rightarrow> string \<Rightarrow> string \<Rightarrow> string \<Rightarrow> string \<Rightarrow> sourceRef list \<Rightarrow> edge" where
  "run_edge i f t lab conf ss = \<lparr>ed_id = i, ed_from = f, ed_to = t, ed_type = ''call'', ed_label = lab, ed_confidence = conf,
     ed_method = [], ed_path = [], ed_meta = Map.empty, ed_sources = ss, ed_state = [], ed_granularity = []\<rparr>"

definition run_spec :: "string \<Rightarrow> sourceRef" where
  "run_spec ref = \<lparr>sr_provider = PContract, sr_confidence = [], sr_ref = ref, sr_observedAt = 0, sr_codeFile = [], sr_codeFunc = [],
     sr_layer = [], sr_rule = []\<rparr>"

definition run_nodes :: "node list" where
  "run_nodes = [run_node ''f'' ''web'' 3, run_node ''h'' ''api'' 8]"

definition run_static :: "edge list" where
  "run_static = map (StampStatic ''f:3'' ''L5'' ''r'')
     [run_edge ''e2'' ''f'' ''h'' ''x'' [] [], run_edge ''e1'' ''f'' ''h'' ''y'' ConfidencePartial []]"

text \<open>Its static edges were stamped while indexing.\<close>

lemma run_static_stamped:
  "\<forall>e \<in> set run_static. \<exists>layer rule e0. rule \<noteq> []
     \<and> e = StampStatic (staticRef (find (\<lambda>n. nd_id n = ed_from e0) (rev run_nodes))) layer rule e0"
proof
  fix e assume "e \<in> set run_static"
  then obtain e0 where e0: "e = StampStatic ''f:3'' ''L5'' ''r'' e0" "ed_from e0 = ''f''"
    by (auto simp: run_static_def run_edge_def)
  have "staticRef (find (\<lambda>n. nd_id n = ''f'') (rev run_nodes)) = ''f:3''" by code_simp
  then have "e = StampStatic (staticRef (find (\<lambda>n. nd_id n = ed_from e0) (rev run_nodes))) ''L5'' ''r'' e0"
    unfolding e0 by (simp only: e0(2))
  then show "\<exists>layer rule e0. rule \<noteq> [] \<and> e = StampStatic (staticRef (find (\<lambda>n. nd_id n = ed_from e0) (rev run_nodes))) layer rule e0"
    by (intro exI [of _ "''L5''"] exI [of _ "''r''"] exI [of _ e0] conjI) simp_all
qed

definition run_providers :: "provider list" where
  "run_providers =
     [\<lparr>pv_name = PStatic, pv_collect = Inr (static_collect run_nodes run_static [])\<rparr>,
      \<lparr>pv_name = PContract, pv_collect = Inr (emptyEvidence\<lparr>ev_edges :=
         [run_edge [] [] [] ''x'' [] [run_spec ''s1''], run_edge [] ''web'' [] ''y'' [] [run_spec ''s2''],
          run_edge [] ''m'' [] ''z'' [] [run_spec ''s3'']]\<rparr>)\<rparr>]"

definition run_result :: reconcileResult where
  "run_result = (case Reconcile run_providers of Inr r \<Rightarrow> r | Inl _ \<Rightarrow> \<lparr>rr_nodes = [], rr_edges = [], rr_unresolved = []\<rparr>)"

lemma run_states: "map (\<lambda>e. (ed_id e, ed_state e, static_partial (ed_sources e))) (rr_edges run_result)
  = [(''e1'', StateCandidate, True), (''e2'', StateVerified, False), (''gap:call:z:m->gap-endpoint:call:z'', StateObservedOnlyGap, False)]"
  by code_simp

lemma run_reconciles: "Reconcile run_providers = Inr run_result"
proof (cases "Reconcile run_providers")
  case (Inl e)
  then have "rr_edges run_result = []" by (simp add: run_result_def)
  then show ?thesis using run_states by simp
qed (simp add: run_result_def)

definition run_edges_at :: "nat \<Rightarrow> edge" where
  "run_edges_at i = rr_edges run_result ! i"

lemma run_edge_in: "run_edges_at 0 \<in> set (rr_edges run_result)" "run_edges_at 1 \<in> set (rr_edges run_result)"
proof -
  have "length (map (\<lambda>e. (ed_id e, ed_state e, static_partial (ed_sources e))) (rr_edges run_result)) = 3" unfolding run_states by simp
  then have "length (rr_edges run_result) = 3" by simp
  then show "run_edges_at 0 \<in> set (rr_edges run_result)" "run_edges_at 1 \<in> set (rr_edges run_result)"
    by (simp_all add: run_edges_at_def)
qed

definition run_collected :: "(string \<times> evidence) list" where
  "run_collected = (case collect_all run_providers of Inr a \<Rightarrow> a | Inl _ \<Rightarrow> [])"

lemma run_collects: "collect_all run_providers = Inr run_collected"
  using run_reconciles by (auto simp: run_collected_def Reconcile_def split: sum.splits)

section \<open>Properties\<close>

text \<open>An edge of the result: a static edge with its sources, or one minted with its two nodes.\<close>

lemma Reconcile_edge_cases:
  assumes run: "Reconcile ps = Inr r" and all: "collect_all ps = Inr all" and e: "e \<in> set (rr_edges r)"
  shows "(\<exists>s \<in> set (ev_edges (static_evidence all)). ed_from e = ed_from s \<and> ed_to e = ed_to s)
    \<or> (ed_from e \<in> nd_id ` set (rr_nodes r) \<and> ed_to e \<in> nd_id ` set (rr_nodes r))"
proof -
  let ?st = "static_evidence all" and ?cs = "nonstatic all"
  let ?es = "fu_edges (fuse ?st ?cs) @ fu_gaps (fuse ?st ?cs)"
  have es: "rr_edges r = finish_edges ?es" and ns: "rr_nodes r = fu_nodes (fuse ?st ?cs)"
    by (rule Reconcile_unfold [OF run], use all in simp)+
  let ?k = "\<lambda>e. (ed_id e, ed_from e, ed_to e, ed_type e, ed_label e)"
  have "?k e \<in># mset (map ?k (finish_edges ?es))" using e by (simp add: es)
  then obtain d where d: "d \<in> set ?es" "ed_from e = ed_from d" "ed_to e = ed_to d"
    unfolding finish_skeleton(2) by auto
  show ?thesis
  proof (cases "d \<in> set (fu_gaps (fuse ?st ?cs))")
    case True
    then show ?thesis using fuse_anchored [of ?st ?cs] d by (auto simp: anchored_def ns)
  next
    case False
    then have "d \<in> set (fu_edges (fuse ?st ?cs))" using d(1) by simp
    then show ?thesis using d by (auto simp: fuse_edges(1))
  qed
qed

text \<open>
  C3: the state of every edge follows from its sources alone: verified exactly with a static source
  and a runtime or config source, or a contract source when no static source is ambiguous
  (confidence partial); conflicting exactly when it was observed without static support on a
  channel that has a verified edge. Site granularity is only ever given to verified edges.
\<close>

theorem verification_state_exact:
  assumes "Reconcile ps = Inr r" "e \<in> set (rr_edges r)"
  shows "(ed_state e = StateVerified \<longleftrightarrow> has_source [PStatic] (ed_sources e)
      \<and> (has_source [PRuntime, PConfig] (ed_sources e) \<or> has_source [PContract] (ed_sources e) \<and> \<not> static_partial (ed_sources e)))
    \<and> (ed_state e = StateConflicting \<longleftrightarrow> \<not> has_source [PStatic] (ed_sources e)
      \<and> (has_source [PRuntime, PConfig] (ed_sources e) \<or> has_source [PContract] (ed_sources e))
      \<and> (\<exists>v \<in> set (rr_edges r). keyOf v = keyOf e \<and> ed_state v = StateVerified))
    \<and> ed_granularity e = (if ed_state e = StateVerified then computeGranularity (ed_sources e) else [])"
  using Reconcile_states [OF assms] by blast

theorem verification_state_exact_witness:
  "\<not> (has_source [PStatic] (ed_sources (run_edges_at 0)) \<and> has_source [PRuntime, PConfig] (ed_sources (run_edges_at 0)))
    \<and> static_partial (ed_sources (run_edges_at 0))"
proof -
  have "map (\<lambda>e. (ed_id e, ed_state e, static_partial (ed_sources e))) (rr_edges run_result) ! 0 = (''e1'', StateCandidate, True)"
    unfolding run_states by simp
  moreover have "rr_edges run_result \<noteq> []" using run_edge_in(1) by auto
  ultimately have "ed_state (run_edges_at 0) = StateCandidate" "static_partial (ed_sources (run_edges_at 0))"
    by (simp_all add: run_edges_at_def)
  then have "\<not> (has_source [PStatic] (ed_sources (run_edges_at 0)) \<and> has_source [PRuntime, PConfig] (ed_sources (run_edges_at 0)))"
    "static_partial (ed_sources (run_edges_at 0))"
    using verification_state_exact [OF run_reconciles run_edge_in(1)] by auto
  then show ?thesis ..
qed

text \<open>
  C34: no evidence is lost and none is invented. The static evidence is that of the last provider named \<open>static\<close>;
  an earlier one of that name is disregarded altogether (\<open>earlier_static_lost\<close>). The result is, in the order of the
  identifiers, one edge for each edge of the static evidence, confirmed or not, which differs from it only in sources,
  state and granularity, and has exactly its sources and those of the provider edges that confirm it; and
  one minted edge for each identifier among the provider edges that confirm no static edge, which has exactly the
  sources of those of that identifier. So every source of every other provider arrives, on an edge of its channel or
  on the edge minted for it. Sources are compared by provider and reference, as the reconciler does; of those that
  agree in both, the records that stay are some of those offered.
\<close>

theorem evidence_accounted_for:
  assumes "Reconcile ps = Inr r" "collect_all ps = Inr all"
  shows "(\<forall>(prov, pe) \<in> set (offered (nonstatic all)). \<exists>e \<in> set (rr_edges r).
        source_key ` set (ed_sources pe) \<subseteq> source_key ` set (ed_sources e) \<and> (keyOf e = keyOf pe \<or> ed_id e = ed_id (gap_edge pe)))
    \<and> (\<exists>es gs. rr_edges r = sort_key ed_id (es @ gs)
        \<and> list_all2 (static_row all) (ev_edges (static_evidence all)) es
        \<and> distinct (map ed_id gs) \<and> ed_id ` set gs = (\<lambda>pe. ed_id (gap_edge pe)) ` unconfirmed all
        \<and> list_all (minted_row (unconfirmed all)) gs)"
proof (rule conjI)
  have "case u of (prov, pe) \<Rightarrow> \<exists>e \<in> set (rr_edges r).
        source_key ` set (ed_sources pe) \<subseteq> source_key ` set (ed_sources e) \<and> (keyOf e = keyOf pe \<or> ed_id e = ed_id (gap_edge pe))"
    if u: "u \<in> set (offered (nonstatic all))" for u
  proof -
    obtain c where "c \<in> set all" "fst c \<noteq> PStatic" "snd u \<in> set (ev_edges (snd c))"
      using u by (auto simp: offered_def nonstatic_def)
    then show ?thesis unfolding split_beta by (rule Reconcile_keeps_evidence [OF assms])
  qed
  then show "\<forall>(prov, pe) \<in> set (offered (nonstatic all)). \<exists>e \<in> set (rr_edges r).
        source_key ` set (ed_sources pe) \<subseteq> source_key ` set (ed_sources e) \<and> (keyOf e = keyOf pe \<or> ed_id e = ed_id (gap_edge pe))" ..
qed (rule Reconcile_rows [OF assms])

theorem evidence_accounted_for_witness:
  "(\<exists>e \<in> set (rr_edges run_result). (PContract, ''s3'') \<in> source_key ` set (ed_sources e))
   \<and> length (rr_edges run_result) = length run_static + card ((\<lambda>pe. ed_id (gap_edge pe)) ` unconfirmed run_collected)"
proof (rule conjI)
  let ?u = "last (offered (nonstatic run_collected))"
  let ?pe = "snd ?u"
  have "offered (nonstatic run_collected) \<noteq> []" by code_simp
  then have "?u \<in> set (offered (nonstatic run_collected))" by simp
  from bspec [OF conjunct1 [OF evidence_accounted_for [OF run_reconciles run_collects]] this]
  obtain e where e: "e \<in> set (rr_edges run_result)" "source_key ` set (ed_sources ?pe) \<subseteq> source_key ` set (ed_sources e)"
    unfolding split_beta by (elim bexE conjE)
  have "map source_key (ed_sources ?pe) = [(PContract, ''s3'')]" by code_simp
  then have "(PContract, ''s3'') \<in> source_key ` set (ed_sources ?pe)" by (metis list.set_intros(1) set_map)
  then show "\<exists>e \<in> set (rr_edges run_result). (PContract, ''s3'') \<in> source_key ` set (ed_sources e)" using e(1,2) by blast
next
  obtain es gs where r: "rr_edges run_result = sort_key ed_id (es @ gs)"
      "list_all2 (static_row run_collected) (ev_edges (static_evidence run_collected)) es"
      "distinct (map ed_id gs)" "ed_id ` set gs = (\<lambda>pe. ed_id (gap_edge pe)) ` unconfirmed run_collected"
    using conjunct2 [OF evidence_accounted_for [OF run_reconciles run_collects]] by (elim exE conjE)
  have "length (ev_edges (static_evidence run_collected)) = length run_static" by code_simp
  moreover have "card (ed_id ` set gs) = length gs" using distinct_card [OF r(3)] by simp
  ultimately show "length (rr_edges run_result) = length run_static + card ((\<lambda>pe. ed_id (gap_edge pe)) ` unconfirmed run_collected)"
    using list_all2_lengthD [OF r(2)] by (simp add: r(1) r(4) [symmetric])
qed

text \<open>A departure: of two providers named \<open>static\<close> the first is collected and then disregarded, edges, nodes and sources.\<close>

lemma earlier_static_lost:
  "static_evidence ((PStatic, ev1) # cs @ [(PStatic, ev2)]) = ev2"
  "nonstatic ((PStatic, ev1) # cs @ [(PStatic, ev2)]) = nonstatic cs"
  by (simp_all add: static_evidence_def nonstatic_def)

text \<open>
  When the static graph has both nodes of each of its edges and distinct identifiers, so has the
  reconciled graph, minted edges included, and no node of the static graph or of a provider is lost.
\<close>

theorem reconciled_graph_closed:
  assumes "Reconcile ps = Inr r" "collect_all ps = Inr all"
    and "distinct (map nd_id (ev_nodes (static_evidence all)))"
    and "\<forall>s \<in> set (ev_edges (static_evidence all)). {ed_from s, ed_to s} \<subseteq> nd_id ` set (ev_nodes (static_evidence all))"
  shows "(\<forall>e \<in> set (rr_edges r). {ed_from e, ed_to e} \<subseteq> nd_id ` set (rr_nodes r))
    \<and> distinct (map nd_id (rr_nodes r))
    \<and> nd_id ` set (ev_nodes (static_evidence all)) \<subseteq> nd_id ` set (rr_nodes r)
    \<and> (\<forall>c \<in> set (nonstatic all). nd_id ` set (ev_nodes (snd c)) \<subseteq> nd_id ` set (rr_nodes r))"
proof -
  have ns: "rr_nodes r = fu_nodes (fuse (static_evidence all) (nonstatic all))"
    by (rule Reconcile_unfold [OF assms(1)]) (use assms(2) in simp)
  have "distinct (map nd_id (rr_nodes r))" unfolding ns using assms(3) by (rule fuse_nodes_distinct)
  moreover have keep: "nd_id ` set (ev_nodes (static_evidence all)) \<subseteq> nd_id ` set (rr_nodes r)"
    "\<forall>c \<in> set (nonstatic all). nd_id ` set (ev_nodes (snd c)) \<subseteq> nd_id ` set (rr_nodes r)"
    using fuse_anchored [of "static_evidence all" "nonstatic all"] unfolding anchored_def ns by blast+
  moreover have "{ed_from e, ed_to e} \<subseteq> nd_id ` set (rr_nodes r)" if "e \<in> set (rr_edges r)" for e
    using Reconcile_edge_cases [OF assms(1,2) that] assms(4) keep(1) by auto
  ultimately show ?thesis by blast
qed

theorem reconciled_graph_closed_witness:
  "{ed_from (run_edges_at 0), ed_to (run_edges_at 0)} \<subseteq> nd_id ` set (rr_nodes run_result) \<and> distinct (map nd_id (rr_nodes run_result))"
proof -
  have "distinct (map nd_id (ev_nodes (static_evidence run_collected)))" by code_simp
  moreover have "\<forall>s \<in> set (ev_edges (static_evidence run_collected)). {ed_from s, ed_to s} \<subseteq> nd_id ` set (ev_nodes (static_evidence run_collected))"
    by code_simp
  ultimately show ?thesis using reconciled_graph_closed [OF run_reconciles run_collects] run_edge_in(1) by blast
qed

text \<open>
  The stamp written while indexing and the reconciler agree. Edges that \<open>StampStatic\<close> stamped
  with the reference of their source node and a rule are a fixed point of a reconciliation over static
  evidence alone: it only sorts them, and it never fails.
\<close>

theorem static_stamp_is_fixpoint:
  assumes "\<forall>e \<in> set es. \<exists>layer rule e0. rule \<noteq> []
     \<and> e = StampStatic (staticRef (find (\<lambda>n. nd_id n = ed_from e0) (rev ns))) layer rule e0"
  shows "Reconcile [\<lparr>pv_name = PStatic, pv_collect = Inr (static_collect ns es us)\<rparr>]
    = Inr \<lparr>rr_nodes = ns, rr_edges = sort_key ed_id es, rr_unresolved = us\<rparr>"
  by (rule static_run) (use assms in \<open>simp add: stamped_def\<close>)

theorem static_stamp_is_fixpoint_witness:
  "Reconcile [\<lparr>pv_name = PStatic, pv_collect = Inr (static_collect run_nodes run_static [])\<rparr>]
    = Inr \<lparr>rr_nodes = run_nodes, rr_edges = sort_key ed_id run_static, rr_unresolved = []\<rparr>"
  by (rule static_stamp_is_fixpoint) (rule run_static_stamped)

end
