(* ===== verification/Go_Text.thy ===== *)
theory Go_Text
  imports Prelude "HOL-Library.Sublist"
begin

text \<open>
  What the contract matcher uses of Go's \<open>strings\<close> and \<open>regexp\<close> packages: searching, splitting and
  joining, and replacement by regular expressions with Go's rule that the leftmost match wins and
  earlier alternatives and longer repetitions are tried first.

  A regular expression is a function from a text to the list of its remainders, one for each way to
  match a prefix, best way first. Repetition is only used on character classes, so it recurses on
  the text. \<open>ToLower\<close> is modelled on ASCII letters.
\<close>

section \<open>Strings\<close>

fun split_on :: "char \<Rightarrow> string \<Rightarrow> string list" where
  "split_on d [] = [[]]"
| "split_on d (c # cs) =
     (if c = d then [] # split_on d cs
      else case split_on d cs of [] \<Rightarrow> [[c]] | s # ss \<Rightarrow> (c # s) # ss)"

fun str_join :: "string \<Rightarrow> string list \<Rightarrow> string" where
  "str_join sep [] = []"
| "str_join sep [s] = s"
| "str_join sep (s # t # ss) = s @ sep @ str_join sep (t # ss)"

fun index_str :: "string \<Rightarrow> string \<Rightarrow> nat option" where
  "index_str sub [] = (if sub = [] then Some 0 else None)"
| "index_str sub (c # cs) = (if prefix sub (c # cs) then Some 0 else map_option Suc (index_str sub cs))"

definition str_has :: "string \<Rightarrow> string \<Rightarrow> bool" where
  "str_has s sub \<longleftrightarrow> index_str sub s \<noteq> None"

definition trim_right :: "char \<Rightarrow> string \<Rightarrow> string" where
  "trim_right d s = rev (dropWhile (\<lambda>c. c = d) (rev s))"

definition trim :: "char \<Rightarrow> string \<Rightarrow> string" where
  "trim d s = trim_right d (dropWhile (\<lambda>c. c = d) s)"

definition lower_char :: "char \<Rightarrow> char" where
  "lower_char c = (let n = of_char c :: nat in if 65 \<le> n \<and> n \<le> 90 then char_of (n + 32) else c)"

definition to_lower :: "string \<Rightarrow> string" where
  "to_lower s = map lower_char s"

lemma split_on_nonempty [simp]: "split_on d s \<noteq> []"
  by (cases "(d, s)" rule: split_on.cases) (auto split: list.splits)

lemma split_on_plain: "d \<notin> set s \<Longrightarrow> split_on d s = [s]"
  by (induction s) auto

lemma split_on_append: "d \<notin> set s \<Longrightarrow> split_on d (s @ d # t) = s # split_on d t"
  by (induction s) auto

lemma str_join_Cons: "ss \<noteq> [] \<Longrightarrow> str_join sep (s # ss) = s @ sep @ str_join sep ss"
  by (cases ss) auto

lemma join_split: "str_join [d] (split_on d s) = s"
proof (induction s)
  case (Cons c cs)
  show ?case
  proof (cases "c = d")
    case True
    then show ?thesis using Cons by (simp add: str_join_Cons)
  next
    case False
    obtain t ts where t: "split_on d cs = t # ts" by (cases "split_on d cs") auto
    then show ?thesis using False Cons by (cases ts) simp_all
  qed
qed simp

lemma split_join:
  assumes "ss \<noteq> []" "\<And>s. s \<in> set ss \<Longrightarrow> d \<notin> set s"
  shows "split_on d (str_join [d] ss) = ss"
  using assms
proof (induction ss)
  case (Cons s ss)
  show ?case
  proof (cases "ss = []")
    case True
    then show ?thesis using Cons.prems split_on_plain by simp
  next
    case False
    then show ?thesis using Cons split_on_append [of d s] by (simp add: str_join_Cons)
  qed
qed simp

lemma split_parts: "s \<in> set (split_on d t) \<Longrightarrow> d \<notin> set s"
proof (induction t arbitrary: s)
  case (Cons c cs)
  show ?case
  proof (cases "c = d")
    case True
    then show ?thesis using Cons by auto
  next
    case False
    obtain t ts where "split_on d cs = t # ts" by (cases "split_on d cs") auto
    then show ?thesis using False Cons by auto
  qed
qed simp

lemma str_join_map_id: "map f ss = ss \<Longrightarrow> str_join sep (map f ss) = str_join sep ss"
  by simp

section \<open>Regular expressions\<close>

datatype re =
    Cls "char \<Rightarrow> bool"
  | CStar "char \<Rightarrow> bool"
  | RSeq re re
  | RAlt re re
  | ROpt re
  | EndText

fun cstar :: "(char \<Rightarrow> bool) \<Rightarrow> string \<Rightarrow> string list" where
  "cstar p [] = [[]]"
| "cstar p (c # cs) = (if p c then cstar p cs @ [c # cs] else [c # cs])"

fun rmatch :: "re \<Rightarrow> string \<Rightarrow> string list" where
  "rmatch (Cls p) s = (case s of [] \<Rightarrow> [] | c # cs \<Rightarrow> if p c then [cs] else [])"
| "rmatch (CStar p) s = cstar p s"
| "rmatch (RSeq r1 r2) s = concat (map (rmatch r2) (rmatch r1 s))"
| "rmatch (RAlt r1 r2) s = rmatch r1 s @ rmatch r2 s"
| "rmatch (ROpt r) s = rmatch r s @ [s]"
| "rmatch EndText s = (if s = [] then [[]] else [])"

text \<open>\<open>ReplaceAllString\<close>, for an expression that matches no empty text and a replacement without \<open>$\<close>.\<close>

function replace_all :: "re \<Rightarrow> string \<Rightarrow> string \<Rightarrow> string" where
  "replace_all r rep [] = []"
| "replace_all r rep (c # cs) =
     (case rmatch r (c # cs) of
        [] \<Rightarrow> c # replace_all r rep cs
      | t # _ \<Rightarrow> if length t < length (c # cs) then rep @ replace_all r rep t else c # replace_all r rep cs)"
  by pat_completeness auto
termination by (relation "measure (\<lambda>(r, rep, s). length s)") auto

text \<open>\<open>MatchString\<close> of an expression anchored at both ends.\<close>

definition full_match :: "re \<Rightarrow> string \<Rightarrow> bool" where
  "full_match r s \<longleftrightarrow> [] \<in> set (rmatch r s)"

definition CPlus :: "(char \<Rightarrow> bool) \<Rightarrow> re" where
  "CPlus p = RSeq (Cls p) (CStar p)"

definition RChar :: "char \<Rightarrow> re" where
  "RChar c = Cls (\<lambda>d. d = c)"

fun RLit :: "string \<Rightarrow> re" where
  "RLit [] = ROpt (Cls (\<lambda>_. False))"
| "RLit [c] = RChar c"
| "RLit (c # d # cs) = RSeq (RChar c) (RLit (d # cs))"

fun RRep :: "nat \<Rightarrow> (char \<Rightarrow> bool) \<Rightarrow> re" where
  "RRep 0 p = ROpt (Cls (\<lambda>_. False))"
| "RRep (Suc n) p = RSeq (Cls p) (RRep n p)"

lemma cstar_suffix: "t \<in> set (cstar p s) \<longleftrightarrow> (\<exists>u. s = u @ t \<and> (\<forall>c \<in> set u. p c))"
proof (induction s arbitrary: t)
  case (Cons c cs)
  show ?case
  proof (cases "p c")
    case True
    have "(\<exists>u. c # cs = u @ t \<and> (\<forall>c \<in> set u. p c)) \<longleftrightarrow> t = c # cs \<or> (\<exists>u. cs = u @ t \<and> (\<forall>c \<in> set u. p c))"
      using True by (auto simp: Cons_eq_append_conv)
    then show ?thesis using True Cons by auto
  next
    case False
    then show ?thesis by (auto simp: Cons_eq_append_conv)
  qed
qed auto

lemma cstar_longest: "hd (cstar p s) = dropWhile p s"
proof (induction s)
  case (Cons c cs)
  have "cstar p cs \<noteq> []" by (cases cs) auto
  then show ?case using Cons by auto
qed simp

lemma cstar_nonempty [simp]: "cstar p s \<noteq> []"
  by (cases s) auto

lemma cstar_stuck: "s = [] \<or> \<not> p (hd s) \<Longrightarrow> cstar p s = [s]"
  by (cases s) auto

lemma replace_all_step_skip: "rmatch r (c # cs) = [] \<Longrightarrow> replace_all r rep (c # cs) = c # replace_all r rep cs"
  by simp

lemma replace_all_step_hit:
  "rmatch r (c # cs) = t # ts \<Longrightarrow> length t \<le> length cs \<Longrightarrow> replace_all r rep (c # cs) = rep @ replace_all r rep t"
  by simp

declare replace_all.simps(2) [simp del]

text \<open>An expression that begins with a class passes over the characters outside of it.\<close>

lemma replace_all_skip_prefix:
  assumes "\<And>c. c \<in> set u \<Longrightarrow> \<not> p c"
  shows "replace_all (RSeq (Cls p) r) rep (u @ s) = u @ replace_all (RSeq (Cls p) r) rep s"
  using assms by (induction u) (simp_all add: replace_all_step_skip)

lemma replace_all_skip: "\<forall>c \<in> set s. \<not> p c \<Longrightarrow> replace_all (RSeq (Cls p) r) rep s = s"
  using replace_all_skip_prefix [of s p r rep "[]"] by simp

end
