(* ===== verification/Contract_Keys.thy ===== *)
theory Contract_Keys
  imports Go_Text
begin

text \<open>
  Channel keys (\<open>internal/contract/normalize.go\<close>): the normalizers, their registry, and the
  comparison of wildcarded paths.
\<close>

section \<open>The environment of a normalizer\<close>

record link =
  ln_from :: string
  ln_to :: string
  ln_via :: string
  ln_hint :: string
  ln_baseURL :: string
  ln_exchange :: string

record normalizeEnv =
  ne_from :: string
  ne_to :: string
  ne_links :: "link list"

type_synonym normalizer = "string \<Rightarrow> normalizeEnv \<Rightarrow> string"

definition slash :: char where "slash = CHR ''/''"
definition star :: string where "star = ''*''"

section \<open>Expressions\<close>

definition is_digit_c :: "char \<Rightarrow> bool" where
  "is_digit_c c \<longleftrightarrow> c \<in> set ''0123456789''"

definition is_hex_c :: "char \<Rightarrow> bool" where
  "is_hex_c c \<longleftrightarrow> c \<in> set ''0123456789abcdef''"

definition reParamColon :: re where
  "reParamColon = RSeq (RChar CHR '':'') (CPlus (\<lambda>c. c \<noteq> slash))"

definition reParamBrace :: re where
  "reParamBrace = RSeq (RChar CHR ''{'') (RSeq (CPlus (\<lambda>c. c \<noteq> CHR ''}'')) (RChar CHR ''}''))"

definition reParamRegex :: re where
  "reParamRegex = RSeq (RChar CHR ''['') (RSeq (CPlus (\<lambda>c. c \<noteq> CHR '']''))
     (RSeq (RChar CHR '']'') (ROpt (Cls (\<lambda>c. c \<in> set ''+*?'')))))"

definition reParamPrintf :: re where
  "reParamPrintf = RSeq (RChar CHR ''%'') (RSeq (CStar is_digit_c) (Cls (\<lambda>c. c \<in> set ''dsv'')))"

definition reInterpSegment :: re where
  "reInterpSegment = RSeq (CStar (\<lambda>c. c \<noteq> slash)) (RSeq (RChar CHR ''$'') (RSeq (RChar CHR ''{'')
     (RSeq (CStar (\<lambda>c. c \<noteq> CHR ''}'')) (RSeq (RChar CHR ''}'') (CStar (\<lambda>c. c \<noteq> slash))))))"

definition reFormatSuffix :: re where
  "reFormatSuffix = RSeq (RChar CHR ''.'') (RSeq (RAlt (RLit ''json'') (RAlt (RLit ''js'') (RAlt (RLit ''xml'')
     (RAlt (RLit ''csv'') (RLit ''html''))))) EndText)"

definition reUUID :: re where
  "reUUID = RSeq (RRep 8 is_hex_c) (RSeq (RChar CHR ''-'') (RSeq (RRep 4 is_hex_c) (RSeq (RChar CHR ''-'')
     (RSeq (RRep 4 is_hex_c) (RSeq (RChar CHR ''-'') (RSeq (RRep 4 is_hex_c) (RSeq (RChar CHR ''-'') (RRep 12 is_hex_c))))))))"

definition reResolvedIDSegment :: re where
  "reResolvedIDSegment = RAlt (CPlus is_digit_c) (RAlt reUUID (RRep 24 is_hex_c))"

definition reVersionSegment :: re where
  "reVersionSegment = RSeq (RChar CHR ''v'') (CPlus is_digit_c)"

section \<open>Paths\<close>

definition splitPath :: "string \<Rightarrow> string list" where
  "splitPath p = (let q = trim slash p in if q = [] then [] else split_on slash q)"

definition hasLiteralSegment :: "string \<Rightarrow> bool" where
  "hasLiteralSegment v \<longleftrightarrow> list_ex (\<lambda>s. s \<noteq> star) (splitPath v)"

section \<open>Normalizers\<close>

definition normParamWildcard :: normalizer where
  "normParamWildcard v env =
     replace_all reParamPrintf star (replace_all reParamRegex star (replace_all reParamBrace star
       (replace_all reParamColon star (replace_all reInterpSegment star v))))"

definition normResolvedIDWildcard :: normalizer where
  "normResolvedIDWildcard v env =
     (if v = [] then v
      else str_join [slash] (map (\<lambda>s. if s \<noteq> [] \<and> full_match reResolvedIDSegment s then star else s) (split_on slash v)))"

definition normQueryStrip :: normalizer where
  "normQueryStrip v env = (case index_str ''?'' v of Some i \<Rightarrow> take i v | None \<Rightarrow> v)"

definition normFormatSuffixStrip :: normalizer where
  "normFormatSuffixStrip v env = replace_all reFormatSuffix [] v"

definition is_quote :: "char \<Rightarrow> bool" where
  "is_quote c \<longleftrightarrow> c \<in> {CHR 0x22, CHR 0x27, CHR 0x60}"

definition normQuoteStrip :: normalizer where
  "normQuoteStrip v env = (if length v \<ge> 2 \<and> is_quote (hd v) \<and> last v = hd v then butlast (tl v) else v)"

definition normCaseFold :: normalizer where
  "normCaseFold v env = to_lower v"

definition normTrimSlash :: normalizer where
  "normTrimSlash v env = (if v = [] then [] else let p = trim_right slash v in if p = [] then [slash] else p)"

text \<open>The first link of the pair of services that has a base URL decides.\<close>

definition normBaseURLStrip :: normalizer where
  "normBaseURLStrip v env =
     (case find (\<lambda>l. ln_from l = ne_from env \<and> ln_to l = ne_to env \<and> ln_baseURL l \<noteq> []) (ne_links env) of
        None \<Rightarrow> v
      | Some l \<Rightarrow> if prefix (ln_baseURL l) v
          then (let s = drop (length (ln_baseURL l)) v in if s = [] then [slash] else s) else v)"

definition normSharedAnchorGuard :: normalizer where
  "normSharedAnchorGuard v env =
     (if v = [] then [] else let segs = splitPath v in
      if segs = [] then v else if list_ex (\<lambda>s. s \<noteq> star) segs then v else [])"

definition normEmptyPathGuard :: normalizer where
  "normEmptyPathGuard v env =
     (if v = [] then [] else let segs = splitPath v in
      if segs = [] then v else if list_ex (\<lambda>s. s \<noteq> star) segs then v else [])"

definition normURLToPath :: normalizer where
  "normURLToPath v env =
     (case index_str ''://'' v of
        Some i \<Rightarrow> (let rest = drop (i + 3) v in case index_str [slash] rest of Some j \<Rightarrow> drop j rest | None \<Rightarrow> [slash])
      | None \<Rightarrow> v)"

definition normDynamicHostStrip :: normalizer where
  "normDynamicHostStrip v env = (if prefix ''*/'' v then drop 1 v else v)"

definition normAMQPTopicWildcard :: normalizer where
  "normAMQPTopicWildcard v env =
     (if \<not> list_ex (\<lambda>c. c \<in> set ''#*'') v then v
      else str_join ''.'' (map (\<lambda>s. if s = ''#'' \<or> s = star then star else s) (split_on CHR ''.'' v)))"

definition topicIsOpen :: "string \<Rightarrow> bool" where
  "topicIsOpen k \<longleftrightarrow> k = [] \<or> list_all (\<lambda>s. s = star \<or> s = ''#'') (split_on CHR ''.'' k)"

definition normRegistry :: "(string \<times> normalizer) list" where
  "normRegistry =
     [(''param_wildcard'', normParamWildcard), (''query_strip'', normQueryStrip), (''quote_strip'', normQuoteStrip),
      (''case_fold'', normCaseFold), (''trim_slash'', normTrimSlash), (''base_url_strip'', normBaseURLStrip),
      (''shared_anchor_guard'', normSharedAnchorGuard), (''url_to_path'', normURLToPath),
      (''dynamic_host_strip'', normDynamicHostStrip), (''amqp_topic_wildcard'', normAMQPTopicWildcard),
      (''empty_path_guard'', normEmptyPathGuard), (''format_suffix_strip'', normFormatSuffixStrip),
      (''resolved_id_wildcard'', normResolvedIDWildcard)]"

definition NormalizerByName :: "string \<Rightarrow> normalizer option" where
  "NormalizerByName n = map_of normRegistry n"

definition apply_norms :: "normalizer list \<Rightarrow> normalizeEnv \<Rightarrow> string \<Rightarrow> string" where
  "apply_norms norms env v = fold (\<lambda>norm v. norm v env) norms v"

definition applyNormsToFields :: "string list \<Rightarrow> normalizer list \<Rightarrow> normalizeEnv \<Rightarrow> string list" where
  "applyNormsToFields vs norms env = map (apply_norms norms env) vs"

datatype contract_error =
    EUnknownNormalizer string
  | EVersionGate
  | EUnknownTier string
  | EPolicyMissing
  | EUnknownPolicy string

fun resolveNormalizers :: "string list \<Rightarrow> contract_error + normalizer list" where
  "resolveNormalizers [] = Inr []"
| "resolveNormalizers (n # ns) =
     (case NormalizerByName n of None \<Rightarrow> Inl (EUnknownNormalizer n)
      | Some f \<Rightarrow> bindE (resolveNormalizers ns) (\<lambda>fs. Inr (f # fs)))"

definition NormalizeFields :: "string list \<Rightarrow> string list \<Rightarrow> normalizeEnv \<Rightarrow> contract_error + string" where
  "NormalizeFields vs names env =
     bindE (resolveNormalizers names) (\<lambda>norms. Inr (str_join '' '' (applyNormsToFields vs norms env)))"

section \<open>Matching paths\<close>

definition pathBoilerplate :: "string list" where
  "pathBoilerplate = [''api'', ''apis'', ''rest'', ''public'', ''internal'']"

definition isBoilerplateSegment :: "string \<Rightarrow> bool" where
  "isBoilerplateSegment s \<longleftrightarrow> to_lower s \<in> set pathBoilerplate \<or> full_match reVersionSegment (to_lower s)"

text \<open>The prefix and the suffix around the only star of a segment that is not just a star.\<close>

definition splitGlob :: "string \<Rightarrow> (string \<times> string) option" where
  "splitGlob s =
     (case index_str star s of None \<Rightarrow> None
      | Some i \<Rightarrow> if s = star \<or> CHR ''*'' \<in> set (drop (i + 1) s) then None else Some (take i s, drop (i + 1) s))"

definition globFits :: "string \<Rightarrow> string \<Rightarrow> string \<Rightarrow> bool" where
  "globFits literal pre suf \<longleftrightarrow> \<not> (literal = [] \<or> literal = star \<or> length literal < length pre + length suf)
     \<and> prefix pre literal \<and> suffix suf literal \<and> (pre \<noteq> [] \<or> suf \<noteq> [])"

text \<open>Whether the segments match, whether the key has a wildcard, and the literal text they agree on.\<close>

definition segMatch :: "string \<Rightarrow> string \<Rightarrow> bool \<times> bool \<times> string" where
  "segMatch k p =
     (if k = p then (if k = star then (True, True, []) else (True, False, k))
      else if k = star then (True, True, [])
      else if p = star then (True, splitGlob k \<noteq> None, [])
      else case splitGlob k of
        Some (kPre, kSuf) \<Rightarrow>
          (case splitGlob p of
             Some (pPre, pSuf) \<Rightarrow>
               if kPre = pPre \<and> kSuf = pSuf \<and> (kPre \<noteq> [] \<or> kSuf \<noteq> []) then (True, True, kPre @ kSuf) else (False, True, [])
           | None \<Rightarrow> if globFits p kPre kSuf then (True, True, kPre @ kSuf) else (False, True, []))
      | None \<Rightarrow>
          (case splitGlob p of
             Some (pPre, pSuf) \<Rightarrow> if globFits k pPre pSuf then (True, False, pPre @ pSuf) else (False, False, [])
           | None \<Rightarrow> (False, False, [])))"

definition discriminates :: "bool \<times> bool \<times> string \<Rightarrow> bool" where
  "discriminates m \<longleftrightarrow> snd (snd m) \<noteq> [] \<and> \<not> isBoilerplateSegment (snd (snd m))"

definition wildcardAnchorScore :: "string \<Rightarrow> string \<Rightarrow> nat" where
  "wildcardAnchorScore key pattern =
     (let ks = splitPath key; ps = splitPath pattern in
      if length ks \<noteq> length ps then 0
      else length (filter (\<lambda>m. fst m \<and> discriminates m) (map2 segMatch ks ps)))"

definition pathMatchesPattern :: "string \<Rightarrow> string \<Rightarrow> bool" where
  "pathMatchesPattern key pattern =
     (let ks = splitPath key; ps = splitPath pattern; ms = map2 segMatch ks ps in
      length ks = length ps \<and> list_all fst ms \<and> (list_ex (\<lambda>m. fst (snd m)) ms \<longrightarrow> list_ex discriminates ms))"

end
