(* ===== verification/Key_Candidates.thy ===== *)
theory Key_Candidates
  imports Go_Text
begin

text \<open>
  The candidate list that travels in the meta value \<open>key_candidates\<close>
  (\<open>internal/contract/keywalk.go\<close>: \<open>MarshalKeyCandidates\<close>, \<open>ParseKeyCandidates\<close>), with the fragment of
  Go's \<open>encoding/json\<close> it uses: an array of strings. Bytes from 128 on are copied; Go replaces byte
  sequences that are not UTF-8 and escapes U+2028 and U+2029, which this model does not.
\<close>

section \<open>Encoding\<close>

definition hex_char :: "nat \<Rightarrow> char" where
  "hex_char n = (if n < 10 then char_of (48 + n) else char_of (87 + n))"

definition esc_u :: "nat \<Rightarrow> string" where
  "esc_u n = [CHR 0x5C, CHR ''u'', hex_char (n div 4096 mod 16), hex_char (n div 256 mod 16), hex_char (n div 16 mod 16), hex_char (n mod 16)]"

definition json_char :: "char \<Rightarrow> string" where
  "json_char c = (let n = of_char c :: nat in
     if n = 0x22 \<or> n = 0x5C then [CHR 0x5C, c]
     else if n = 8 then [CHR 0x5C, CHR ''b''] else if n = 12 then [CHR 0x5C, CHR ''f'']
     else if n = 10 then [CHR 0x5C, CHR ''n''] else if n = 13 then [CHR 0x5C, CHR ''r'']
     else if n = 9 then [CHR 0x5C, CHR ''t'']
     else if n < 32 \<or> n \<in> {0x3C, 0x3E, 0x26} then esc_u n
     else [c])"

definition json_string :: "string \<Rightarrow> string" where
  "json_string s = CHR 0x22 # concat (map json_char s) @ [CHR 0x22]"

definition MarshalKeyCandidates :: "string list \<Rightarrow> string" where
  "MarshalKeyCandidates vals = (if vals = [] then [] else ''['' @ str_join '','' (map json_string vals) @ '']'')"

section \<open>Decoding\<close>

definition hex_val :: "char \<Rightarrow> nat option" where
  "hex_val c = (let n = of_char c :: nat in
     if 48 \<le> n \<and> n \<le> 57 then Some (n - 48) else if 97 \<le> n \<and> n \<le> 102 then Some (n - 87)
     else if 65 \<le> n \<and> n \<le> 70 then Some (n - 55) else None)"

definition hex4 :: "char \<Rightarrow> char \<Rightarrow> char \<Rightarrow> char \<Rightarrow> nat option" where
  "hex4 a b c d = (case (hex_val a, hex_val b, hex_val c, hex_val d) of
     (Some w, Some x, Some y, Some z) \<Rightarrow> Some (w * 4096 + x * 256 + y * 16 + z) | _ \<Rightarrow> None)"

definition utf8 :: "nat \<Rightarrow> string" where
  "utf8 n = map char_of (if n < 0x80 then [n] else if n < 0x800 then [0xC0 + n div 64, 0x80 + n mod 64]
     else if n < 0x10000 then [0xE0 + n div 4096, 0x80 + n div 64 mod 64, 0x80 + n mod 64]
     else [0xF0 + n div 262144, 0x80 + n div 4096 mod 64, 0x80 + n div 64 mod 64, 0x80 + n mod 64])"

definition is_high :: "nat \<Rightarrow> bool" where "is_high n \<longleftrightarrow> 0xD800 \<le> n \<and> n < 0xDC00"
definition is_low :: "nat \<Rightarrow> bool" where "is_low n \<longleftrightarrow> 0xDC00 \<le> n \<and> n < 0xE000"

definition low_escape :: "string \<Rightarrow> (nat \<times> string) option" where
  "low_escape s = (case s of
     e # u # a # b # c # d # rest \<Rightarrow> if e = CHR 0x5C \<and> u = CHR ''u''
       then (case hex4 a b c d of Some m \<Rightarrow> if is_low m then Some (m, rest) else None | None \<Rightarrow> None) else None
   | _ \<Rightarrow> None)"

text \<open>A string after its opening quote: the value and what follows the closing quote.\<close>

definition simple_escape :: "char \<Rightarrow> char option" where
  "simple_escape e = (if e \<in> {CHR 0x22, CHR 0x5C, CHR ''/''} then Some e else if e = CHR ''b'' then Some (char_of (8 :: nat))
     else if e = CHR ''f'' then Some (char_of (12 :: nat)) else if e = CHR ''n'' then Some (char_of (10 :: nat))
     else if e = CHR ''r'' then Some (char_of (13 :: nat)) else if e = CHR ''t'' then Some (char_of (9 :: nat)) else None)"

function json_body :: "string \<Rightarrow> (string \<times> string) option" where
  "json_body s = (case s of [] \<Rightarrow> None
     | c # cs \<Rightarrow>
         if c = CHR 0x22 then Some ([], cs)
         else if c = CHR 0x5C then
           (case cs of [] \<Rightarrow> None
            | e # es \<Rightarrow>
                (case simple_escape e of
                   Some d \<Rightarrow> map_option (apfst (Cons d)) (json_body es)
                 | None \<Rightarrow> if e = CHR ''u'' \<and> length es \<ge> 4 then
                     (case hex4 (es ! 0) (es ! 1) (es ! 2) (es ! 3) of None \<Rightarrow> None
                      | Some n \<Rightarrow> let rest = drop 4 es in
                          if is_high n \<or> is_low n then
                            (case (if is_high n then low_escape rest else None) of
                               Some mr \<Rightarrow> if length (snd mr) < length s
                                 then map_option (apfst (\<lambda>v. utf8 (0x10000 + (n - 0xD800) * 1024 + (fst mr - 0xDC00)) @ v)) (json_body (snd mr))
                                 else None
                             | None \<Rightarrow> map_option (apfst (\<lambda>v. utf8 0xFFFD @ v)) (json_body rest))
                          else map_option (apfst (\<lambda>v. utf8 n @ v)) (json_body rest))
                   else None))
         else if (of_char c :: nat) < 32 then None
         else map_option (apfst (Cons c)) (json_body cs))"
  by pat_completeness auto
termination by (relation "measure length") auto

definition is_ws :: "char \<Rightarrow> bool" where
  "is_ws c \<longleftrightarrow> (of_char c :: nat) \<in> {0x20, 0x09, 0x0A, 0x0D}"

definition skip_ws :: "string \<Rightarrow> string" where
  "skip_ws s = dropWhile is_ws s"

text \<open>An element of the array: a string, or null, which leaves the empty string.\<close>

definition json_elem :: "string \<Rightarrow> (string \<times> string) option" where
  "json_elem s = (case s of [] \<Rightarrow> None
     | c # cs \<Rightarrow> if c = CHR 0x22 then json_body cs else if prefix ''null'' s then Some ([], drop 4 s) else None)"

text \<open>The elements after the opening bracket or a comma, up to the closing bracket.\<close>

function json_elems :: "string \<Rightarrow> (string list \<times> string) option" where
  "json_elems s =
     (case json_elem (skip_ws s) of None \<Rightarrow> None
      | Some (v, rest) \<Rightarrow>
          (case skip_ws rest of [] \<Rightarrow> None
           | c # cs \<Rightarrow> if c = CHR '']'' then Some ([v], cs)
               else if c = CHR '','' \<and> length cs < length s then map_option (apfst (Cons v)) (json_elems cs) else None))"
  by pat_completeness auto
termination by (relation "measure length") auto

definition json_strings :: "string \<Rightarrow> string list option" where
  "json_strings s =
     (case skip_ws s of [] \<Rightarrow> None
      | c # cs \<Rightarrow>
          if c = CHR ''['' then
            (case skip_ws cs of [] \<Rightarrow> None
             | d # ds \<Rightarrow> if d = CHR '']'' then (if skip_ws ds = [] then Some [] else None)
                 else (case json_elems cs of Some (vs, rest) \<Rightarrow> if skip_ws rest = [] then Some vs else None | None \<Rightarrow> None))
          else if prefix ''null'' (c # cs) \<and> skip_ws (drop 4 (c # cs)) = [] then Some [] else None)"

definition ParseKeyCandidates :: "string \<Rightarrow> string list" where
  "ParseKeyCandidates s = (if s = [] then [] else case json_strings s of None \<Rightarrow> [] | Some vals \<Rightarrow> vals)"

declare json_body.simps [simp del] json_elems.simps [simp del]

section \<open>Round trip\<close>

lemma json_body_quote: "json_body (CHR 0x22 # s) = Some ([], s)"
  by (subst json_body.simps) simp

definition ascii :: "string \<Rightarrow> bool" where
  "ascii s \<longleftrightarrow> (\<forall>c \<in> set s. (of_char c :: nat) < 128)"

lemma hex_val_char: "k < 16 \<Longrightarrow> hex_val (hex_char k) = Some k"
  by (cases "k < 10") (auto simp: hex_val_def hex_char_def Let_def)

lemma hex4_esc: "n < 65536 \<Longrightarrow>
  hex4 (hex_char (n div 4096 mod 16)) (hex_char (n div 256 mod 16)) (hex_char (n div 16 mod 16)) (hex_char (n mod 16)) = Some n"
proof -
  assume "n < 65536"
  then have "n div 4096 mod 16 = n div 4096" by simp
  moreover have "n div 256 = n div 16 div 16" "n div 4096 = n div 256 div 16" by (simp_all flip: div_mult2_eq)
  moreover have "n div 16 * 16 + n mod 16 = n" "n div 16 div 16 * 16 + n div 16 mod 16 = n div 16"
    "n div 256 div 16 * 16 + n div 256 mod 16 = n div 256"
    by (rule div_mult_mod_eq)+
  ultimately have "n div 4096 mod 16 * 4096 + n div 256 mod 16 * 256 + n div 16 mod 16 * 16 + n mod 16 = n" by linarith
  moreover have "hex_val (hex_char (k mod 16)) = Some (k mod 16)" for k by (simp add: hex_val_char)
  ultimately show ?thesis unfolding hex4_def by (simp only: prod.case option.case)
qed

lemma append_single: "(@) [c] = (#) c"
  by (rule ext) simp

lemma json_body_esc:
  assumes "n < 128"
  shows "json_body (esc_u n @ t) = map_option (apfst (Cons (char_of n))) (json_body t)"
proof -
  have "simple_escape CHR ''u'' = None" by (simp add: simple_escape_def)
  moreover have "\<not> is_high n" "\<not> is_low n" "utf8 n = [char_of n]"
    using assms by (simp_all add: is_high_def is_low_def utf8_def)
  ultimately show ?thesis
    using hex4_esc [of n] assms by (subst json_body.simps) (simp add: append_single esc_u_def numeral_3_eq_3 numeral_2_eq_2)
qed

lemma json_body_simple:
  assumes "simple_escape e = Some d"
  shows "json_body (CHR 0x5C # e # t) = map_option (apfst (Cons d)) (json_body t)"
  using assms by (subst json_body.simps) simp

lemma json_body_plain:
  assumes "(of_char c :: nat) \<ge> 32" "c \<noteq> CHR 0x22" "c \<noteq> CHR 0x5C"
  shows "json_body (c # t) = map_option (apfst (Cons c)) (json_body t)"
  using assms by (subst json_body.simps) simp

lemma char_eqI: "(of_char c :: nat) = n \<Longrightarrow> c = char_of n"
  by auto

lemma json_body_char: "json_body (json_char c @ t) = map_option (apfst (Cons c)) (json_body t)"
proof -
  define n where "n = (of_char c :: nat)"
  have c: "c = char_of n" by (simp add: n_def)
  have e: "simple_escape (char_of (0x22 :: nat)) = Some (char_of (0x22 :: nat))" "simple_escape (char_of (0x5C :: nat)) = Some (char_of (0x5C :: nat))"
    "simple_escape CHR ''b'' = Some (char_of (8 :: nat))" "simple_escape CHR ''f'' = Some (char_of (12 :: nat))"
    "simple_escape CHR ''n'' = Some (char_of (10 :: nat))" "simple_escape CHR ''r'' = Some (char_of (13 :: nat))"
    "simple_escape CHR ''t'' = Some (char_of (9 :: nat))"
    by code_simp+
  consider "n = 0x22 \<or> n = 0x5C" | "n \<in> {8, 12, 10, 13, 9}" | "n \<notin> {8, 12, 10, 13, 9}" "n < 32 \<or> n \<in> {0x3C, 0x3E, 0x26}"
    | "n \<notin> {0x22, 0x5C, 0x3C, 0x3E, 0x26}" "\<not> n < 32" by fastforce
  then show ?thesis
  proof cases
    case 1
    then have "json_char c = [CHR 0x5C, c]" by (simp add: json_char_def n_def [symmetric])
    moreover have "simple_escape c = Some c" using 1 e(1,2) unfolding c by auto
    ultimately show ?thesis by (simp add: json_body_simple)
  next
    case 2
    then show ?thesis using e(3-) by (auto simp: json_char_def n_def [symmetric] json_body_simple c)
  next
    case 3
    then have "json_char c = esc_u n" by (auto simp: json_char_def n_def [symmetric])
    then show ?thesis using json_body_esc [of n t] 3 c by auto
  next
    case 4
    then have "json_char c = [c]" by (auto simp: json_char_def n_def [symmetric])
    moreover have "c \<noteq> CHR 0x22" "c \<noteq> CHR 0x5C" using 4 by (auto simp: n_def)
    ultimately show ?thesis using 4 by (simp add: json_body_plain n_def)
  qed
qed

lemma json_body_string: "json_body (concat (map json_char s) @ CHR 0x22 # t) = Some (s, t)"
  by (induction s) (simp_all add: json_body_quote json_body_char)

lemma json_elem_string: "json_elem (json_string s @ t) = Some (s, t)"
  by (simp add: json_elem_def json_string_def json_body_string)

lemma skip_ws_stuck: "\<not> is_ws c \<Longrightarrow> skip_ws (c # s) = c # s"
  by (simp add: skip_ws_def)

lemma ws_marks [simp]: "\<not> is_ws CHR 0x22" "\<not> is_ws CHR ''[''" "\<not> is_ws CHR '']''" "\<not> is_ws CHR '',''"
  by (simp_all add: is_ws_def)

lemma json_elems_strings:
  "vals \<noteq> [] \<Longrightarrow> json_elems (str_join '','' (map json_string vals) @ '']'' @ t) = Some (vals, t)"
proof (induction vals)
  case (Cons v vs)
  have sk: "skip_ws (json_string v @ u) = json_string v @ u" for u by (simp add: json_string_def skip_ws_stuck)
  show ?case
  proof (cases "vs = []")
    case True
    then show ?thesis using sk [of "'']'' @ t"] json_elem_string [of v "'']'' @ t"] by (subst json_elems.simps) (simp add: skip_ws_stuck)
  next
    case False
    let ?r = "str_join '','' (map json_string vs) @ '']'' @ t"
    have s: "str_join '','' (map json_string (v # vs)) @ '']'' @ t = json_string v @ CHR '','' # ?r"
      using False by (simp add: str_join_Cons)
    have "json_elems (json_string v @ CHR '','' # ?r) = map_option (apfst (Cons v)) (json_elems ?r)"
      by (subst json_elems.simps) (simp add: sk json_elem_string skip_ws_stuck)
    then show ?thesis unfolding s using Cons.IH [OF False] by simp
  qed
qed simp

lemma json_elems_head: "vals \<noteq> [] \<Longrightarrow> \<exists>r. str_join '','' (map json_string vals) = CHR 0x22 # r"
  by (cases vals; cases "tl vals") (auto simp: json_string_def)

lemma json_strings_marshal:
  assumes "vals \<noteq> []"
  shows "json_strings (MarshalKeyCandidates vals) = Some vals"
proof -
  obtain r where r: "str_join '','' (map json_string vals) = CHR 0x22 # r" using json_elems_head [OF assms] by blast
  show ?thesis
    using json_elems_strings [OF assms, of "[]"] assms
    by (simp add: json_strings_def MarshalKeyCandidates_def skip_ws_stuck r) (simp add: skip_ws_def)
qed

lemma marshal_nonempty: "vals \<noteq> [] \<Longrightarrow> MarshalKeyCandidates vals \<noteq> []"
  by (simp add: MarshalKeyCandidates_def)

text \<open>
  Candidates survive their trip through node metadata: what one pass writes with
  \<open>MarshalKeyCandidates\<close> the contract engine reads back unchanged, for every list of ASCII texts,
  quotes, control characters and the characters that Go escapes for HTML included.
\<close>

theorem candidates_round_trip:
  assumes "\<forall>v \<in> set vals. ascii v"
  shows "ParseKeyCandidates (MarshalKeyCandidates vals) = vals"
  using json_strings_marshal [of vals] marshal_nonempty [of vals]
  by (cases "vals = []") (simp_all add: ParseKeyCandidates_def MarshalKeyCandidates_def)

theorem candidates_round_trip_witness:
  "ParseKeyCandidates (MarshalKeyCandidates [''/a/<b>'', [CHR 0x22, CHR 0x0A]]) = [''/a/<b>'', [CHR 0x22, CHR 0x0A]]"
  by (rule candidates_round_trip) (simp add: ascii_def)

end
