(* ===== verification/Contract_Engine.thy ===== *)
theory Contract_Engine
  imports Contract_Keys Key_Candidates Evidence
begin

text \<open>
  The contract engine (\<open>internal/contract/model.go\<close>, \<open>engine.go\<close>, \<open>loader.go\<close>, \<open>coverage.go\<close>): for each
  rule it splits the nodes into producers and consumers, indexes the consumers by channel key, and
  links every producer to the consumers of its key, tier by tier.

  Nodes are values where Go holds pointers into the node slice, which it never changes. The YAML maps
  of a rule are association lists in the order in which Go iterates over them. An override map is a
  partial function; the nil map is the empty one. The strconv rendering of an anchor ratio is exact
  for paths of fewer than 40 segments.
\<close>

section \<open>Rules\<close>

type_synonym ckind = string
type_synonym matchTier = string
type_synonym unmatchedPolicy = string

definition TierExact :: matchTier where "TierExact = ''exact''"
definition TierNormalized :: matchTier where "TierNormalized = ''normalized''"
definition TierWildcardAnchored :: matchTier where "TierWildcardAnchored = ''wildcard_anchored''"
definition TierExchangeOnly :: matchTier where "TierExchangeOnly = ''exchange_only''"

definition UnmatchedUnknownEdge :: unmatchedPolicy where "UnmatchedUnknownEdge = ''unknown_edge''"
definition UnmatchedLedger :: unmatchedPolicy where "UnmatchedLedger = ''ledger''"
definition UnmatchedDrop :: unmatchedPolicy where "UnmatchedDrop = ''drop''"

definition ConfidenceStatic :: string where "ConfidenceStatic = ''static''"
definition ConfidenceInferred :: string where "ConfidenceInferred = ''inferred''"

record endpointSpec =
  es_node :: nodeType
  es_where :: "(string \<times> string) list"
  es_notWhere :: "(string \<times> string) list"
  es_key :: "string list"
  es_keyFallbacks :: "(string \<times> string list) list"
  es_methodFallback :: "string list"
  es_targetServiceMeta :: string
  es_sameOriginRelative :: bool
  es_browserSameOrigin :: bool

record edgeSpec =
  eg_type :: edgeType
  eg_idPrefix :: string
  eg_sameService :: string
  eg_viaMeta :: "(string \<times> string) list"

record contractRule =
  ru_kind :: ckind
  ru_package :: string
  ru_versionRange :: string
  ru_producer :: endpointSpec
  ru_consumer :: endpointSpec
  ru_normalizers :: "string list"
  ru_match :: "matchTier list"
  ru_edge :: edgeSpec
  ru_unmatched :: unmatchedPolicy

definition validateRule :: "contractRule \<Rightarrow> contract_error option" where
  "validateRule r =
     (if ru_package r \<noteq> [] \<or> ru_versionRange r \<noteq> [] then Some EVersionGate
      else case find (\<lambda>n. NormalizerByName n = None) (ru_normalizers r) of
        Some n \<Rightarrow> Some (EUnknownNormalizer n)
      | None \<Rightarrow>
          (case find (\<lambda>t. t \<notin> {TierExact, TierNormalized, TierWildcardAnchored, TierExchangeOnly}) (ru_match r) of
             Some t \<Rightarrow> Some (EUnknownTier t)
           | None \<Rightarrow>
               if ru_unmatched r \<in> {UnmatchedUnknownEdge, UnmatchedLedger, UnmatchedDrop} then None
               else if ru_unmatched r = [] then Some EPolicyMissing
               else Some (EUnknownPolicy (ru_unmatched r))))"

definition dynamicKindFor :: "ckind \<Rightarrow> string" where
  "dynamicKindFor k =
     (if k \<in> {''http'', ''sse'', ''grpc'', ''graphql''} then ''dynamic_url''
      else if k \<in> {''kafka'', ''nats'', ''redis_pubsub''} then ''dynamic_topic''
      else if k = ''amqp'' then ''dynamic_url''
      else if k \<in> {''job'', ''sqs''} then ''dynamic_queue''
      else if k \<in> {''pusher'', ''hub''} then ''dynamic_channel''
      else if k = ''websocket'' then ''dynamic_event''
      else ''dynamic_'' @ k)"

section \<open>Producers and consumers\<close>

definition base_name :: "string \<Rightarrow> string" where
  "base_name f = last (split_on slash f)"

definition IsTestFilePath :: "string \<Rightarrow> bool" where
  "IsTestFilePath f \<longleftrightarrow> f \<noteq> [] \<and>
     (let low = to_lower f; base = base_name low in
        str_has base ''.test.'' \<or> str_has base ''.spec.''
        \<or> suffix ''_test.go'' base \<or> suffix ''_test.rb'' base \<or> suffix ''_spec.rb'' base \<or> prefix ''test_'' base
        \<or> list_ex (\<lambda>s. s \<in> {''test'', ''tests'', ''__tests__'', ''spec''}) (split_on slash low))"

definition where_ok :: "string \<Rightarrow> string \<Rightarrow> bool" where
  "where_ok expected actual =
     (if expected = [] then actual = []
      else if str_has expected ''|'' then actual \<in> set (split_on CHR ''|'' expected)
      else actual = expected)"

definition matchesWhere :: "node \<Rightarrow> (string \<times> string) list \<Rightarrow> bool" where
  "matchesWhere n w \<longleftrightarrow> list_all (\<lambda>(k, e). where_ok e (meta_get (nd_meta n) k)) w"

definition matchesNotWhere :: "node \<Rightarrow> (string \<times> string) list \<Rightarrow> bool" where
  "matchesNotWhere n w \<longleftrightarrow> list_all (\<lambda>(k, x). meta_get (nd_meta n) k \<noteq> x) w"

definition admits :: "endpointSpec \<Rightarrow> node \<Rightarrow> bool" where
  "admits spec n \<longleftrightarrow> \<not> IsTestFilePath (nd_file n) \<and> nd_type n = es_node spec
     \<and> matchesWhere n (es_where spec) \<and> matchesNotWhere n (es_notWhere spec)"

definition partitionNodes :: "node list \<Rightarrow> contractRule \<Rightarrow> node list \<times> node list" where
  "partitionNodes ns r = (filter (admits (ru_producer r)) ns, filter (admits (ru_consumer r)) ns)"

type_synonym override = "string \<rightharpoonup> string"

definition first_nonempty :: "node \<Rightarrow> string list \<Rightarrow> string" where
  "first_nonempty n ks = (case find (\<lambda>k. meta_get (nd_meta n) k \<noteq> []) ks of Some k \<Rightarrow> meta_get (nd_meta n) k | None \<Rightarrow> [])"

definition fallbacks :: "endpointSpec \<Rightarrow> string \<Rightarrow> string list" where
  "fallbacks spec f = (case map_of (es_keyFallbacks spec) f of Some ks \<Rightarrow> ks | None \<Rightarrow> [])"

definition raw_field :: "node \<Rightarrow> endpointSpec \<Rightarrow> override \<Rightarrow> string \<Rightarrow> string" where
  "raw_field n spec ov f =
     (case ov f of Some v \<Rightarrow> v
      | None \<Rightarrow> let v = meta_get (nd_meta n) f in if v \<noteq> [] then v else first_nonempty n (fallbacks spec f))"

definition buildRawFields :: "node \<Rightarrow> endpointSpec \<Rightarrow> override \<Rightarrow> string list" where
  "buildRawFields n spec ov = map (raw_field n spec ov) (es_key spec)"

definition producerEvidenceScore :: "node \<Rightarrow> nat" where
  "producerEvidenceScore n =
     (if meta_get (nd_meta n) ''path_evidence'' \<noteq> [] then 4 else 0)
     + (if meta_get (nd_meta n) ''confidence_ceiling'' \<noteq> [] then 2 else 0)
     + (if meta_get (nd_meta n) ''via_wrapper'' \<noteq> [] \<or> meta_get (nd_meta n) ''synthesized'' \<noteq> [] then 1 else 0)"

definition nul :: char where "nul = char_of (0 :: nat)"

lemma nul_split: "nul \<notin> set a \<Longrightarrow> nul \<notin> set b \<Longrightarrow> a @ nul # s = b @ nul # t \<Longrightarrow> a = b \<and> s = t"
proof -
  assume n: "nul \<notin> set a" "nul \<notin> set b" and eq: "a @ nul # s = b @ nul # t"
  have "takeWhile (\<lambda>c. c \<noteq> nul) (a @ nul # s) = a" "takeWhile (\<lambda>c. c \<noteq> nul) (b @ nul # t) = b"
    using n by (auto simp: takeWhile_append)
  then have "a = b" using eq by simp
  then show ?thesis using eq by simp
qed

definition fmt_int :: "int \<Rightarrow> string" where
  "fmt_int i = (if i < 0 then CHR ''-'' # fmt_nat (nat (- i)) else fmt_nat (nat i))"

definition key_text :: "string list \<Rightarrow> string" where
  "key_text fs = str_join '' '' fs"

definition siteKey :: "endpointSpec \<Rightarrow> node \<Rightarrow> string" where
  "siteKey spec p = nd_service p @ [nul] @ nd_file p @ [nul] @ fmt_int (nd_line p) @ [nul]
     @ key_text (buildRawFields p spec Map.empty)"

text \<open>The pass over the producers: the best index for each site, and which indices are kept.\<close>

definition dedupe_step :: "endpointSpec \<Rightarrow> node list \<Rightarrow> nat \<Rightarrow> (string \<rightharpoonup> nat) \<times> bool list \<Rightarrow> (string \<rightharpoonup> nat) \<times> bool list" where
  "dedupe_step spec ps i s =
     (let p = ps ! i; k = siteKey spec p in
      case fst s k of
        None \<Rightarrow> ((fst s)(k \<mapsto> i), (snd s)[i := True])
      | Some prev \<Rightarrow>
          if producerEvidenceScore p > producerEvidenceScore (ps ! prev)
          then ((fst s)(k \<mapsto> i), (snd s)[prev := False, i := True]) else s)"

definition dedupeProducers :: "node list \<Rightarrow> endpointSpec \<Rightarrow> node list" where
  "dedupeProducers ps spec =
     (if length ps < 2 then ps
      else let keep = snd (fold (dedupe_step spec ps) [0..<length ps] (Map.empty, replicate (length ps) False)) in
        map fst (filter snd (zip ps keep)))"

section \<open>Consumer indexes\<close>

record consumerIndexes =
  ci_exact :: "string \<rightharpoonup> node list"
  ci_norm :: "string \<rightharpoonup> node list"
  ci_normKeys :: "string list"

definition keyIsEmpty :: "string list \<Rightarrow> bool" where
  "keyIsEmpty fs \<longleftrightarrow> fs \<noteq> [] \<and> list_all (\<lambda>f. f = []) fs"

definition keyVoided :: "string list \<Rightarrow> string list \<Rightarrow> bool" where
  "keyVoided raw norm \<longleftrightarrow> list_ex (\<lambda>(r, n). r \<noteq> [] \<and> n = []) (zip raw norm)"

definition bucket :: "(string \<rightharpoonup> node list) \<Rightarrow> string \<Rightarrow> node list" where
  "bucket m k = (case m k of Some ns \<Rightarrow> ns | None \<Rightarrow> [])"

definition emptyIndexes :: consumerIndexes where
  "emptyIndexes = \<lparr>ci_exact = Map.empty, ci_norm = Map.empty, ci_normKeys = []\<rparr>"

definition index_consumer :: "endpointSpec \<Rightarrow> normalizer list \<Rightarrow> normalizeEnv \<Rightarrow> node \<Rightarrow> consumerIndexes \<Rightarrow> consumerIndexes" where
  "index_consumer spec norms env c ix =
     (let raw = buildRawFields c spec Map.empty; norm = applyNormsToFields raw norms env in
      if keyIsEmpty raw \<or> keyVoided raw norm then ix
      else ix\<lparr>ci_exact := (ci_exact ix)(key_text raw \<mapsto> bucket (ci_exact ix) (key_text raw) @ [c]),
              ci_normKeys := (if ci_norm ix (key_text norm) = None then ci_normKeys ix @ [key_text norm] else ci_normKeys ix),
              ci_norm := (ci_norm ix)(key_text norm \<mapsto> bucket (ci_norm ix) (key_text norm) @ [c])\<rparr>)"

definition buildConsumerIndexes :: "node list \<Rightarrow> endpointSpec \<Rightarrow> normalizer list \<Rightarrow> normalizeEnv \<Rightarrow> consumerIndexes" where
  "buildConsumerIndexes cs spec norms env = fold (index_consumer spec norms env) cs emptyIndexes"

definition filterByService :: "node list \<Rightarrow> string \<Rightarrow> node list" where
  "filterByService cs svc = (if svc = [] then cs else filter (\<lambda>c. nd_service c = svc) cs)"

definition filterBySameServicePolicy :: "node list \<Rightarrow> string \<Rightarrow> string \<Rightarrow> node list" where
  "filterBySameServicePolicy cs policy svc =
     (if policy = ''skip'' then filter (\<lambda>c. nd_service c \<noteq> svc) cs
      else if policy = ''same_service_only'' then filter (\<lambda>c. nd_service c = svc) cs
      else cs)"

definition sameServiceAllowed :: "string \<Rightarrow> node \<Rightarrow> node \<Rightarrow> bool" where
  "sameServiceAllowed policy p c =
     (let same = (nd_service p = nd_service c); pre = ''skip_unless_meta:'' in
      if policy = ''skip'' then \<not> same
      else if policy = ''keep'' then True
      else if policy = ''same_service_only'' then same
      else if prefix pre policy then \<not> same \<or> meta_get (nd_meta p) (drop (length pre) policy) \<noteq> []
      else True)"

section \<open>Tiers\<close>

definition splitAtFirstSlash :: "string \<Rightarrow> string \<times> string" where
  "splitAtFirstSlash k = (case index_str [slash] k of
     None \<Rightarrow> (k, []) | Some i \<Rightarrow> if i = 0 then (k, []) else (drop i k, take i k))"

definition splitFirstField :: "string \<Rightarrow> (string \<times> string) option" where
  "splitFirstField k = (case index_str '' '' k of None \<Rightarrow> None | Some i \<Rightarrow> Some (take i k, drop (i + 1) k))"

definition wildcard_hit :: "string \<Rightarrow> string \<Rightarrow> bool" where
  "wildcard_hit key consKey \<longleftrightarrow> snd (splitAtFirstSlash key) = snd (splitAtFirstSlash consKey)
     \<and> pathMatchesPattern (fst (splitAtFirstSlash key)) (fst (splitAtFirstSlash consKey))"

definition anchor_score :: "string \<Rightarrow> string \<Rightarrow> nat" where
  "anchor_score key consKey = wildcardAnchorScore (fst (splitAtFirstSlash key)) (fst (splitAtFirstSlash consKey))"

definition wildcardScan :: "string \<Rightarrow> consumerIndexes \<Rightarrow> node list \<times> nat" where
  "wildcardScan key ix =
     (if \<not> hasLiteralSegment (fst (splitAtFirstSlash key)) then ([], 0)
      else let matched = map (\<lambda>k. (k, anchor_score key k)) (filter (wildcard_hit key) (ci_normKeys ix));
               best = fold (\<lambda>m b. if snd m > b then snd m else b) matched 0 in
        (concat (map (\<lambda>m. bucket (ci_norm ix) (fst m)) (filter (\<lambda>m. \<not> snd m < best) matched)), best))"

definition exchangeOnlyScan :: "string \<Rightarrow> consumerIndexes \<Rightarrow> node list" where
  "exchangeOnlyScan key ix =
     (case splitFirstField key of None \<Rightarrow> []
      | Some (head, rest) \<Rightarrow>
          if head = [] then []
          else concat (map (bucket (ci_norm ix)) (filter (\<lambda>k. case splitFirstField k of None \<Rightarrow> False
                 | Some (h, r) \<Rightarrow> h = head \<and> (topicIsOpen rest \<or> topicIsOpen r)) (ci_normKeys ix))))"

definition fmt_ratio :: "nat \<Rightarrow> nat \<Rightarrow> string" where
  "fmt_ratio a b =
     (let q = 100 * a div b; r = 100 * a mod b;
          h = (if 2 * r > b \<or> 2 * r = b \<and> odd q then q + 1 else q) in
      fmt_nat (h div 100) @ ''.'' @ fmt_nat (h div 10 mod 10) @ fmt_nat (h mod 10))"

definition wildcardMatchMeta :: "string \<Rightarrow> (string \<rightharpoonup> string)" where
  "wildcardMatchMeta key =
     (let segs = splitPath (fst (splitAtFirstSlash key)) in
      if segs = [] then Map.empty
      else [''anchor_ratio'' \<mapsto> fmt_ratio (length (filter (\<lambda>s. s \<noteq> star) segs)) (length segs)])"

definition qExact :: int where "qExact = 1048576"
definition qNormalized :: int where "qNormalized = 1024"

text \<open>The hits of one tier, their confidence, match metadata and quality.\<close>

definition tier_hits :: "string \<Rightarrow> string \<Rightarrow> consumerIndexes \<Rightarrow> matchTier
    \<Rightarrow> node list \<times> string \<times> (string \<rightharpoonup> string) \<times> int" where
  "tier_hits rawKey normKey ix tier =
     (if tier = TierExact then (bucket (ci_exact ix) rawKey, ConfidenceStatic, Map.empty, qExact)
      else if tier = TierNormalized then (bucket (ci_norm ix) normKey, ConfidenceInferred, Map.empty, qNormalized)
      else if tier = TierWildcardAnchored then
        (let (hs, anchor) = wildcardScan normKey ix in (hs, ConfidenceInferred, wildcardMatchMeta normKey, int anchor))
      else if tier = TierExchangeOnly then (exchangeOnlyScan normKey ix, ConfidencePartial, Map.empty, 1)
      else ([], [], Map.empty, 0))"

fun findMatches :: "string \<Rightarrow> string \<Rightarrow> matchTier list \<Rightarrow> consumerIndexes
    \<Rightarrow> node list \<times> string \<times> (string \<rightharpoonup> string) \<times> int" where
  "findMatches rawKey normKey [] ix = ([], [], Map.empty, 0)"
| "findMatches rawKey normKey (t # ts) ix =
     (let m = tier_hits rawKey normKey ix t in if fst m \<noteq> [] then m else findMatches rawKey normKey ts ix)"

section \<open>Matching a producer\<close>

definition candidateMethodOverrides :: "node \<Rightarrow> endpointSpec \<Rightarrow> override list" where
  "candidateMethodOverrides n spec =
     (if es_methodFallback spec = [] \<or> ''method'' \<notin> set (es_key spec) \<or> meta_get (nd_meta n) ''method'' \<noteq> [] then [Map.empty]
      else map (\<lambda>m. [''method'' \<mapsto> m]) (es_methodFallback spec))"

definition distinctTargetServices :: "node list \<Rightarrow> nat" where
  "distinctTargetServices hits = length (remdups (filter (\<lambda>s. s \<noteq> []) (map nd_service hits)))"

definition ConfidenceRank :: "string \<Rightarrow> nat" where
  "ConfidenceRank c = (if c = ConfidenceUnknown then 0 else if c = ConfidencePartial then 1
     else if c = ConfidenceInferred then 2 else if c = ConfidenceStatic then 3 else 4)"

definition capConfidence :: "string \<Rightarrow> string \<Rightarrow> string" where
  "capConfidence conf ceiling =
     (if ceiling = [] then conf else if ConfidenceRank ceiling < ConfidenceRank conf then ceiling else conf)"

definition mergeOverrides :: "override \<Rightarrow> override \<Rightarrow> override" where
  "mergeOverrides a b = a ++ b"

text \<open>The keys of a producer under an override, unless they are unusable.\<close>

definition producer_keys :: "node \<Rightarrow> contractRule \<Rightarrow> normalizer list \<Rightarrow> normalizeEnv \<Rightarrow> override \<Rightarrow> (string \<times> string) option" where
  "producer_keys p rule norms env ov =
     (let raw = buildRawFields p (ru_producer rule) ov; norm = applyNormsToFields raw norms env in
      if keyVoided raw norm then None else Some (key_text raw, key_text norm))"

definition eligible_hits :: "node \<Rightarrow> contractRule \<Rightarrow> node list \<Rightarrow> node list" where
  "eligible_hits p rule hits = filter (sameServiceAllowed (eg_sameService (ru_edge rule)) p) hits"

definition edge_id :: "string \<Rightarrow> string \<Rightarrow> string \<Rightarrow> string" where
  "edge_id pre from to = pre @ '':'' @ from @ ''->'' @ to"

definition contract_edge :: "node \<Rightarrow> contractRule \<Rightarrow> string \<Rightarrow> string \<Rightarrow> string \<Rightarrow> (string \<rightharpoonup> string) \<Rightarrow> edge" where
  "contract_edge p rule to label conf meta =
     \<lparr>ed_id = edge_id (eg_idPrefix (ru_edge rule)) (nd_id p) to, ed_from = nd_id p, ed_to = to, ed_type = eg_type (ru_edge rule),
      ed_label = label, ed_confidence = conf, ed_method = [], ed_path = [], ed_meta = meta, ed_sources = [], ed_state = [], ed_granularity = []\<rparr>"

definition best_step :: "node \<Rightarrow> contractRule \<Rightarrow> normalizer list \<Rightarrow> normalizeEnv \<Rightarrow> consumerIndexes \<Rightarrow> override
    \<Rightarrow> (int \<times> override) option \<Rightarrow> (int \<times> override) option" where
  "best_step p rule norms env ix ov best =
     (if keyIsEmpty (buildRawFields p (ru_producer rule) ov) then best
      else case producer_keys p rule norms env ov of None \<Rightarrow> best
      | Some (raw, norm) \<Rightarrow>
          let (hits, conf, meta, q) = findMatches raw norm (ru_match rule) ix in
          if list_ex (sameServiceAllowed (eg_sameService (ru_edge rule)) p) hits
             \<and> (case best of None \<Rightarrow> True | Some (bq, bov) \<Rightarrow> q > bq)
          then Some (q, ov) else best)"

definition bestMethodOverride :: "node \<Rightarrow> contractRule \<Rightarrow> normalizer list \<Rightarrow> normalizeEnv \<Rightarrow> consumerIndexes \<Rightarrow> override list
    \<Rightarrow> override option" where
  "bestMethodOverride p rule norms env ix ovs = map_option snd (fold (best_step p rule norms env ix) ovs None)"

definition edge_meta :: "node \<Rightarrow> contractRule \<Rightarrow> (string \<rightharpoonup> string) \<Rightarrow> (string \<rightharpoonup> string)" where
  "edge_meta p rule matchMeta =
     (let m = meta_get (nd_meta p);
          em1 = fold (\<lambda>(k, v) em. if m k \<noteq> [] then em(''via'' \<mapsto> v) else em) (eg_viaMeta (ru_edge rule)) matchMeta;
          em2 = (if m ''via'' \<noteq> [] \<and> meta_get em1 ''via'' = [] then em1(''via'' \<mapsto> m ''via'') else em1);
          em3 = (if m ''key_resolved_via'' \<noteq> [] then em2(''resolved_via'' \<mapsto> m ''key_resolved_via'') else em2) in
      if m ''key_resolved_via'' \<noteq> [] \<and> m ''broker_field'' \<noteq> [] then em3(''handshake_field'' \<mapsto> m ''broker_field'') else em3)"

definition edge_confidence :: "node \<Rightarrow> node list \<Rightarrow> string \<Rightarrow> string" where
  "edge_confidence p hits conf =
     capConfidence (if distinctTargetServices hits > 1 then ConfidencePartial else conf) (meta_get (nd_meta p) ''confidence_ceiling'')"

text \<open>The edges of one override; no edge means that the next override is tried.\<close>

definition override_edges :: "node \<Rightarrow> contractRule \<Rightarrow> normalizer list \<Rightarrow> normalizeEnv \<Rightarrow> consumerIndexes \<Rightarrow> override \<Rightarrow> edge list" where
  "override_edges p rule norms env ix ov =
     (if keyIsEmpty (buildRawFields p (ru_producer rule) ov) then []
      else case producer_keys p rule norms env ov of None \<Rightarrow> []
      | Some (raw, norm) \<Rightarrow>
          let (hits, conf, meta, q) = findMatches raw norm (ru_match rule) ix; elig = eligible_hits p rule hits in
          if meta_get (nd_meta p) ''path_evidence'' = ''weak'' \<and> distinctTargetServices elig > 1 then []
          else map (\<lambda>h. contract_edge p rule (nd_id h) norm (edge_confidence p elig conf) (edge_meta p rule meta)) elig)"

fun first_edges :: "(override \<Rightarrow> edge list) \<Rightarrow> override list \<Rightarrow> edge list" where
  "first_edges f [] = []"
| "first_edges f (ov # ovs) = (if f ov \<noteq> [] then f ov else first_edges f ovs)"

definition matchProducer :: "node \<Rightarrow> contractRule \<Rightarrow> normalizer list \<Rightarrow> normalizeEnv \<Rightarrow> consumerIndexes \<Rightarrow> edge list" where
  "matchProducer p rule norms env ix =
     (let ovs = candidateMethodOverrides p (ru_producer rule);
          ovs1 = (if length ovs > 1 then (case bestMethodOverride p rule norms env ix ovs of Some b \<Rightarrow> [b] | None \<Rightarrow> ovs) else ovs) in
      first_edges (override_edges p rule norms env ix) ovs1)"

section \<open>Candidate keys\<close>

definition findDynamicKeyField :: "node \<Rightarrow> endpointSpec \<Rightarrow> string" where
  "findDynamicKeyField p spec =
     (case find (\<lambda>f. meta_get (nd_meta p) f = [] \<and> \<not> (f = ''method'' \<and> es_methodFallback spec \<noteq> [])
          \<and> \<not> list_ex (\<lambda>fb. meta_get (nd_meta p) fb \<noteq> []) (fallbacks spec f)) (es_key spec) of Some f \<Rightarrow> f | None \<Rightarrow> [])"

definition candidate_edges :: "node \<Rightarrow> contractRule \<Rightarrow> normalizer list \<Rightarrow> normalizeEnv \<Rightarrow> consumerIndexes \<Rightarrow> override \<Rightarrow> edge list" where
  "candidate_edges p rule norms env ix ov =
     (case producer_keys p rule norms env ov of None \<Rightarrow> []
      | Some (raw, norm) \<Rightarrow>
          let (hits, conf, meta, q) = findMatches raw norm (ru_match rule) ix in
          map (\<lambda>h. contract_edge p rule (nd_id h) norm ConfidenceInferred
               ([''confidence'' \<mapsto> ConfidenceInferred, ''via'' \<mapsto> ''branch_enum''] ++ meta)) (eligible_hits p rule hits))"

definition matchProducerWithKeyOverride :: "node \<Rightarrow> contractRule \<Rightarrow> normalizer list \<Rightarrow> normalizeEnv \<Rightarrow> consumerIndexes
    \<Rightarrow> string \<Rightarrow> string \<Rightarrow> edge list" where
  "matchProducerWithKeyOverride p rule norms env ix dynField cand =
     (let base = (if dynField \<noteq> [] then [dynField \<mapsto> cand] else Map.empty) in
      first_edges (\<lambda>m. candidate_edges p rule norms env ix (mergeOverrides base m)) (candidateMethodOverrides p (ru_producer rule)))"

section \<open>Origins\<close>

definition browserLanguages :: "string list" where
  "browserLanguages = [''javascript'', ''typescript'', ''jsx'', ''tsx'', ''vue'', ''svelte'']"

definition isBrowserExecuted :: "node \<Rightarrow> bool" where
  "isBrowserExecuted p \<longleftrightarrow> to_lower (nd_language p) \<in> set browserLanguages
     \<or> meta_get (nd_meta p) ''nav_link'' = ''true'' \<or> meta_get (nd_meta p) ''datastar'' \<noteq> []"

definition unquoted_fields :: "node \<Rightarrow> endpointSpec \<Rightarrow> string list" where
  "unquoted_fields p spec = map (\<lambda>v. normQuoteStrip v \<lparr>ne_from = [], ne_to = [], ne_links = []\<rparr>) (buildRawFields p spec Map.empty)"

definition names_host :: "string \<Rightarrow> bool" where
  "names_host v \<longleftrightarrow> str_has v ''://'' \<or> prefix ''//'' v"

definition producerKeyIsRootRelative :: "node \<Rightarrow> endpointSpec \<Rightarrow> bool" where
  "producerKeyIsRootRelative p spec \<longleftrightarrow>
     list_all (\<lambda>v. \<not> names_host v \<and> \<not> (prefix [slash] v \<and> splitPath v \<noteq> [])) (unquoted_fields p spec)"

definition producerKeyIsRelativeURL :: "node \<Rightarrow> endpointSpec \<Rightarrow> bool" where
  "producerKeyIsRelativeURL p spec \<longleftrightarrow>
     list_all (\<lambda>v. \<not> names_host v) (unquoted_fields p spec) \<and> list_ex (prefix [slash]) (unquoted_fields p spec)"

section \<open>Linking\<close>

record linkResult =
  lr_edges :: "edge list"
  lr_nodes :: "node list"
  lr_unresolved :: "unresolvedRef list"

text \<open>The result so far and the identifiers of the synthetic targets already made.\<close>

record linkState = linkResult +
  lk_synth :: "string list"

definition ledger_entry :: "node \<Rightarrow> string \<Rightarrow> string \<Rightarrow> unresolvedRef" where
  "ledger_entry p name kind = \<lparr>ur_service = nd_service p, ur_file = nd_file p, ur_line = nd_line p, ur_name = name, ur_kind = kind, ur_targets = []\<rparr>"

definition applyDynamicUnmatched :: "node \<Rightarrow> contractRule \<Rightarrow> linkState \<Rightarrow> linkState" where
  "applyDynamicUnmatched p rule s =
     s\<lparr>lr_unresolved := lr_unresolved s @ [ledger_entry p (meta_get (nd_meta p) ''key_dynamic_raw'') (dynamicKindFor (ru_kind rule))]\<rparr>"

definition synth_id :: "string \<Rightarrow> string" where
  "synth_id targetSvc = (if targetSvc \<noteq> [] then ''unresolved:'' @ targetSvc else ''unresolved'')"

definition synth_node :: "string \<Rightarrow> node" where
  "synth_node targetSvc = \<lparr>nd_id = synth_id targetSvc, nd_type = NodeTypeService, nd_label = synth_id targetSvc, nd_service = targetSvc,
     nd_file = [], nd_line = 0, nd_endLine = 0, nd_language = [], nd_meta = Map.empty\<rparr>"

definition applyUnmatched :: "node \<Rightarrow> contractRule \<Rightarrow> string \<Rightarrow> linkState \<Rightarrow> linkState" where
  "applyUnmatched p rule targetSvc s =
     (let rawKey = key_text (buildRawFields p (ru_producer rule) Map.empty); sid = synth_id targetSvc in
      if ru_unmatched rule = UnmatchedUnknownEdge then
        (let s1 = (if sid \<in> set (lk_synth s) then s
                   else s\<lparr>lk_synth := lk_synth s @ [sid], lr_nodes := lr_nodes s @ [synth_node targetSvc]\<rparr>) in
         s1\<lparr>lr_edges := lr_edges s1 @ [contract_edge p rule sid rawKey ConfidenceUnknown [''confidence'' \<mapsto> ConfidenceUnknown]]\<rparr>)
      else if ru_unmatched rule = UnmatchedLedger then
        s\<lparr>lr_unresolved := lr_unresolved s @ [ledger_entry p rawKey (ru_kind rule)]\<rparr>
      else s)"

definition target_service :: "contractRule \<Rightarrow> node \<Rightarrow> string" where
  "target_service rule p =
     (let spec = ru_producer rule;
          t = (if es_targetServiceMeta spec \<noteq> [] then meta_get (nd_meta p) (es_targetServiceMeta spec) else []) in
      if t = [] \<and> es_sameOriginRelative spec \<and> nd_service p \<noteq> [] \<and> producerKeyIsRootRelative p spec then nd_service p else t)"

definition producer_env :: "link list \<Rightarrow> node \<Rightarrow> string \<Rightarrow> normalizeEnv" where
  "producer_env links p targetSvc = \<lparr>ne_from = nd_service p, ne_to = targetSvc, ne_links = links\<rparr>"

type_synonym candCache = "string \<rightharpoonup> node list \<times> consumerIndexes"

definition cache_key :: "string \<Rightarrow> node \<Rightarrow> string" where
  "cache_key targetSvc p = targetSvc @ [nul] @ nd_service p"

definition candidate_set :: "contractRule \<Rightarrow> normalizer list \<Rightarrow> link list \<Rightarrow> node list \<Rightarrow> node \<Rightarrow> string \<Rightarrow> node list \<times> consumerIndexes" where
  "candidate_set rule norms links consumers p targetSvc =
     (let cands = filterBySameServicePolicy (filterByService consumers targetSvc) (eg_sameService (ru_edge rule)) (nd_service p) in
      (cands, buildConsumerIndexes cands (ru_consumer rule) norms (producer_env links p targetSvc)))"

definition cached_set :: "contractRule \<Rightarrow> normalizer list \<Rightarrow> link list \<Rightarrow> node list \<Rightarrow> node \<Rightarrow> string \<Rightarrow> candCache
    \<Rightarrow> (node list \<times> consumerIndexes) \<times> candCache" where
  "cached_set rule norms links consumers p targetSvc cache =
     (case cache (cache_key targetSvc p) of Some cs \<Rightarrow> (cs, cache)
      | None \<Rightarrow> let cs = candidate_set rule norms links consumers p targetSvc in (cs, cache(cache_key targetSvc p \<mapsto> cs)))"

definition pick_index :: "contractRule \<Rightarrow> normalizer list \<Rightarrow> normalizeEnv \<Rightarrow> node \<Rightarrow> string \<Rightarrow> node list \<times> consumerIndexes \<Rightarrow> consumerIndexes" where
  "pick_index rule norms env p targetSvc cs =
     (if es_browserSameOrigin (ru_producer rule) \<and> targetSvc = [] \<and> nd_service p \<noteq> []
         \<and> isBrowserExecuted p \<and> producerKeyIsRelativeURL p (ru_producer rule)
      then (let own = buildConsumerIndexes (filterByService (fst cs) (nd_service p)) (ru_consumer rule) norms env in
            if matchProducer p rule norms env own \<noteq> [] then own else snd cs)
      else snd cs)"

text \<open>What one producer contributes once its index is chosen.\<close>

definition producer_edges :: "contractRule \<Rightarrow> normalizer list \<Rightarrow> normalizeEnv \<Rightarrow> consumerIndexes \<Rightarrow> node \<Rightarrow> edge list" where
  "producer_edges rule norms env ix p =
     (let cands = ParseKeyCandidates (meta_get (nd_meta p) ''key_candidates'') in
      if cands \<noteq> [] then
        concat (map (matchProducerWithKeyOverride p rule norms env ix (findDynamicKeyField p (ru_producer rule))) cands)
      else matchProducer p rule norms env ix)"

definition is_dynamic_key :: "node \<Rightarrow> bool" where
  "is_dynamic_key p \<longleftrightarrow> meta_get (nd_meta p) ''key_dynamic'' = ''true''"

definition add_edges :: "edge list \<Rightarrow> linkState \<Rightarrow> linkState" where
  "add_edges es s = s\<lparr>lr_edges := lr_edges s @ es\<rparr>"

definition link_producer :: "contractRule \<Rightarrow> normalizer list \<Rightarrow> link list \<Rightarrow> node list \<Rightarrow> node
    \<Rightarrow> linkState \<times> candCache \<Rightarrow> linkState \<times> candCache" where
  "link_producer rule norms links consumers p sc =
     (let (s, cache) = sc in
      if is_dynamic_key p then (applyDynamicUnmatched p rule s, cache)
      else let targetSvc = target_service rule p; env = producer_env links p targetSvc;
               (cs, cache1) = cached_set rule norms links consumers p targetSvc cache;
               es = producer_edges rule norms env (pick_index rule norms env p targetSvc cs) p in
           (if es \<noteq> [] then add_edges es s else applyUnmatched p rule targetSvc s, cache1))"

definition rule_producers :: "node list \<Rightarrow> contractRule \<Rightarrow> node list" where
  "rule_producers ns rule = dedupeProducers (fst (partitionNodes ns rule)) (ru_producer rule)"

definition link_rule :: "node list \<Rightarrow> link list \<Rightarrow> contractRule \<Rightarrow> linkState \<Rightarrow> contract_error + linkState" where
  "link_rule ns links rule s =
     bindE (resolveNormalizers (ru_normalizers rule)) (\<lambda>norms.
       Inr (fst (fold (link_producer rule norms links (snd (partitionNodes ns rule))) (rule_producers ns rule) (s, Map.empty))))"

definition emptyState :: linkState where
  "emptyState = \<lparr>lr_edges = [], lr_nodes = [], lr_unresolved = [], lk_synth = []\<rparr>"

definition Link :: "node list \<Rightarrow> contractRule list \<Rightarrow> link list \<Rightarrow> contract_error + linkResult" where
  "Link ns rules links = bindE (foldE (link_rule ns links) rules emptyState) (\<lambda>s. Inr (linkResult.truncate s))"

section \<open>Coverage\<close>

record kindCoverage =
  kc_kind :: ckind
  kc_matched :: nat
  kc_unresolved :: nat
  kc_dynamic :: nat
  kc_indirect :: nat

text \<open>The kind of an edge type is that of the last rule with that type.\<close>

definition edge_kind :: "contractRule list \<Rightarrow> edge \<Rightarrow> ckind" where
  "edge_kind rules e = (case find (\<lambda>r. eg_type (ru_edge r) = ed_type e) (rev rules) of Some r \<Rightarrow> ru_kind r | None \<Rightarrow> [])"

definition kind_row :: "contractRule list \<Rightarrow> linkResult \<Rightarrow> ckind \<Rightarrow> kindCoverage" where
  "kind_row rules res k =
     (let es = filter (\<lambda>e. k \<noteq> [] \<and> edge_kind rules e = k) (lr_edges res);
          us = filter (\<lambda>u. ur_kind u = k) (lr_unresolved res) in
      \<lparr>kc_kind = k,
       kc_matched = length (filter (\<lambda>e. ed_confidence e \<noteq> ConfidenceUnknown) es),
       kc_unresolved = length (filter (\<lambda>e. ed_confidence e = ConfidenceUnknown) es)
         + (if k \<in> set DynamicUnresolvedKinds then 0 else length us),
       kc_dynamic = (if k \<in> set DynamicUnresolvedKinds then length us else 0),
       kc_indirect = length (filter (\<lambda>e. meta_get (ed_meta e) ''via'' \<in> {''alias'', ''wrapper''}) es)\<rparr>)"

definition ComputeCoverage :: "contractRule list \<Rightarrow> linkResult \<Rightarrow> kindCoverage list" where
  "ComputeCoverage rules res =
     map (kind_row rules res) (sort (remdups (map ru_kind rules @ map ur_kind (lr_unresolved res))))"

end
