(* ===== verification/Contract_Match.thy ===== *)
theory Contract_Match
  imports Contract_Engine
begin

text \<open>
  What a lookup in the consumer indexes returns. The locale \<open>consumer_lookup\<close> states the contract of
  an index over a list of keyed consumers and derives from it what every tier of \<open>findMatches\<close>
  returns; it is interpreted on the indexes the engine builds.
\<close>

section \<open>The contract of an index\<close>

text \<open>The two keys of a consumer, when it is indexed at all.\<close>

definition consumer_keys :: "endpointSpec \<Rightarrow> normalizer list \<Rightarrow> normalizeEnv \<Rightarrow> node \<Rightarrow> (string \<times> string) option" where
  "consumer_keys spec norms env c =
     (let raw = buildRawFields c spec Map.empty; norm = applyNormsToFields raw norms env in
      if keyIsEmpty raw \<or> keyVoided raw norm then None else Some (key_text raw, key_text norm))"

text \<open>When a consumer key answers a producer key on a tier.\<close>

definition tier_agrees :: "matchTier \<Rightarrow> string \<times> string \<Rightarrow> string \<times> string \<Rightarrow> bool" where
  "tier_agrees t pk ck \<longleftrightarrow>
     (if t = TierExact then fst ck = fst pk
      else if t = TierNormalized then snd ck = snd pk
      else if t = TierWildcardAnchored then hasLiteralSegment (fst (splitAtFirstSlash (snd pk))) \<and> wildcard_hit (snd pk) (snd ck)
      else if t = TierExchangeOnly then
        (case (splitFirstField (snd pk), splitFirstField (snd ck)) of
           (Some (head, rest), Some (h, r)) \<Rightarrow> head \<noteq> [] \<and> h = head \<and> (topicIsOpen rest \<or> topicIsOpen r) | _ \<Rightarrow> False)
      else False)"

definition tier_confidence :: "matchTier \<Rightarrow> string" where
  "tier_confidence t = (if t = TierExact then ConfidenceStatic else if t = TierExchangeOnly then ConfidencePartial else ConfidenceInferred)"

lemma tiers_distinct [simp]:
  "TierExact \<noteq> TierNormalized" "TierExact \<noteq> TierWildcardAnchored" "TierExact \<noteq> TierExchangeOnly"
  "TierNormalized \<noteq> TierExact" "TierNormalized \<noteq> TierWildcardAnchored" "TierNormalized \<noteq> TierExchangeOnly"
  "TierWildcardAnchored \<noteq> TierExact" "TierWildcardAnchored \<noteq> TierNormalized" "TierWildcardAnchored \<noteq> TierExchangeOnly"
  "TierExchangeOnly \<noteq> TierExact" "TierExchangeOnly \<noteq> TierNormalized" "TierExchangeOnly \<noteq> TierWildcardAnchored"
  by (simp_all add: TierExact_def TierNormalized_def TierWildcardAnchored_def TierExchangeOnly_def)

lemma fold_max_best:
  fixes ms :: "('a \<times> nat) list"
  shows "b \<le> fold (\<lambda>m b. if snd m > b then snd m else b) ms b"
    "m \<in> set ms \<Longrightarrow> snd m \<le> fold (\<lambda>m b. if snd m > b then snd m else b) ms b"
    "fold (\<lambda>m b. if snd m > b then snd m else b) ms b = b \<or> fold (\<lambda>m b. if snd m > b then snd m else b) ms b \<in> snd ` set ms"
proof (induction ms arbitrary: b)
  case (Cons a ms)
  {
    case 1
    show ?case using Cons(1) [of "if b < snd a then snd a else b"] by (auto split: if_splits)
  next
    case 2
    then show ?case using Cons(1) [of "if b < snd a then snd a else b"] Cons(2) by (auto split: if_splits)
  next
    case 3
    show ?case using Cons(3) [of "if b < snd a then snd a else b"] by (auto split: if_splits)
  }
qed simp_all

locale consumer_lookup =
  fixes ix :: consumerIndexes and cs :: "node list" and keys :: "node \<Rightarrow> (string \<times> string) option"
  assumes exact_law: "bucket (ci_exact ix) k = filter (\<lambda>c. \<exists>n. keys c = Some (k, n)) cs"
    and norm_law: "bucket (ci_norm ix) k = filter (\<lambda>c. \<exists>r. keys c = Some (r, k)) cs"
    and keys_law: "k \<in> set (ci_normKeys ix) \<longleftrightarrow> (\<exists>c \<in> set cs. \<exists>r. keys c = Some (r, k))"
begin

lemma norm_bucket_set: "c \<in> set (bucket (ci_norm ix) k) \<longleftrightarrow> c \<in> set cs \<and> (\<exists>r. keys c = Some (r, k))"
  by (simp add: norm_law)

text \<open>The consumers under the normalized keys that pass a test.\<close>

lemma scan_set:
  "c \<in> set (concat (map (bucket (ci_norm ix)) (filter P (ci_normKeys ix)))) \<longleftrightarrow> c \<in> set cs \<and> (\<exists>r k. keys c = Some (r, k) \<and> P k)"
proof
  assume "c \<in> set cs \<and> (\<exists>r k. keys c = Some (r, k) \<and> P k)"
  then obtain r k where k: "c \<in> set cs" "keys c = Some (r, k)" "P k" by blast
  then have "k \<in> set (ci_normKeys ix)" "c \<in> set (bucket (ci_norm ix) k)" by (auto simp: keys_law norm_bucket_set)
  then show "c \<in> set (concat (map (bucket (ci_norm ix)) (filter P (ci_normKeys ix))))" using k(3) by auto
qed (auto simp: norm_bucket_set)

text \<open>The wildcard tier returns the matching consumers with the best score, and only those.\<close>

definition best_score :: "string \<Rightarrow> nat \<Rightarrow> bool" where
  "best_score key b \<longleftrightarrow> (\<forall>c \<in> set cs. \<forall>r k. keys c = Some (r, k) \<longrightarrow> wildcard_hit key k \<longrightarrow> anchor_score key k \<le> b)"

lemma wildcardScan_set:
  "c \<in> set (fst (wildcardScan key ix)) \<longleftrightarrow>
     hasLiteralSegment (fst (splitAtFirstSlash key)) \<and> c \<in> set cs
     \<and> (\<exists>r k. keys c = Some (r, k) \<and> wildcard_hit key k \<and> best_score key (anchor_score key k))"
proof (cases "hasLiteralSegment (fst (splitAtFirstSlash key))")
  case True
  let ?m = "map (\<lambda>k. (k, anchor_score key k)) (filter (wildcard_hit key) (ci_normKeys ix))"
  let ?best = "fold (\<lambda>m b. if snd m > b then snd m else b) ?m 0"
  have "fst (wildcardScan key ix) = concat (map (\<lambda>m. bucket (ci_norm ix) (fst m)) (filter (\<lambda>m. \<not> snd m < ?best) ?m))"
    using True by (simp add: wildcardScan_def Let_def)
  also have "\<dots> = concat (map (bucket (ci_norm ix)) (filter (\<lambda>k. wildcard_hit key k \<and> \<not> anchor_score key k < ?best) (ci_normKeys ix)))"
    by (simp add: filter_map o_def conj_commute)
  finally have eq: "fst (wildcardScan key ix) = concat (map (bucket (ci_norm ix)) (filter (\<lambda>k. wildcard_hit key k \<and> \<not> anchor_score key k < ?best) (ci_normKeys ix)))" .
  have s: "c \<in> set (fst (wildcardScan key ix)) \<longleftrightarrow> c \<in> set cs \<and> (\<exists>r k. keys c = Some (r, k) \<and> wildcard_hit key k \<and> \<not> anchor_score key k < ?best)"
    unfolding eq by (rule scan_set)
  have upper: "anchor_score key k \<le> ?best" if "c \<in> set cs" "keys c = Some (r, k)" "wildcard_hit key k" for c r k
  proof -
    have "(k, anchor_score key k) \<in> set ?m" using that keys_law by auto
    from fold_max_best(2) [OF this, of 0] show ?thesis by simp
  qed
  have "\<not> anchor_score key k < ?best \<longleftrightarrow> best_score key (anchor_score key k)" if "c \<in> set cs" "keys c = Some (r, k)" "wildcard_hit key k" for c r k
  proof
    assume "\<not> anchor_score key k < ?best"
    then show "best_score key (anchor_score key k)" using upper unfolding best_score_def by (meson le_trans not_less)
  next
    assume b: "best_score key (anchor_score key k)"
    from fold_max_best(3) [of ?m 0] show "\<not> anchor_score key k < ?best"
    proof
      assume "?best \<in> snd ` set ?m"
      then obtain k' where "k' \<in> set (ci_normKeys ix)" "wildcard_hit key k'" "?best = anchor_score key k'" by auto
      then show ?thesis using b by (auto simp: best_score_def keys_law)
    qed simp
  qed
  then show ?thesis using True s by blast
qed (simp add: wildcardScan_def)

lemma exchangeOnlyScan_set:
  "c \<in> set (exchangeOnlyScan key ix) \<longleftrightarrow> c \<in> set cs \<and> (\<exists>r k head rest h q. keys c = Some (r, k) \<and> splitFirstField key = Some (head, rest)
     \<and> splitFirstField k = Some (h, q) \<and> head \<noteq> [] \<and> h = head \<and> (topicIsOpen rest \<or> topicIsOpen q))"
proof (cases "splitFirstField key")
  case (Some hr)
  obtain head rest where hr: "hr = (head, rest)" by (cases hr)
  show ?thesis
  proof (cases "head = []")
    case False
    have eq: "exchangeOnlyScan key ix = concat (map (bucket (ci_norm ix)) (filter (\<lambda>k. case splitFirstField k of None \<Rightarrow> False
        | Some (h, r) \<Rightarrow> h = head \<and> (topicIsOpen rest \<or> topicIsOpen r)) (ci_normKeys ix)))"
      using Some hr False by (simp add: exchangeOnlyScan_def)
    have sel: "(case splitFirstField k of None \<Rightarrow> False | Some (h, r) \<Rightarrow> h = head \<and> (topicIsOpen rest \<or> topicIsOpen r))
        \<longleftrightarrow> (\<exists>h q. splitFirstField k = Some (h, q) \<and> h = head \<and> (topicIsOpen rest \<or> topicIsOpen q))" for k
      by (auto split: option.splits)
    show ?thesis unfolding eq scan_set sel using Some hr False by simp
  qed (simp add: exchangeOnlyScan_def Some hr)
qed (simp add: exchangeOnlyScan_def)

text \<open>Every hit of a tier agrees with the producer key on it, and a tier misses only when nothing agrees.\<close>

lemma tier_hits_agree:
  assumes "c \<in> set (fst (tier_hits rawKey normKey ix t))"
  shows "c \<in> set cs \<and> (\<exists>ck. keys c = Some ck \<and> tier_agrees t (rawKey, normKey) ck)"
proof -
  consider "t = TierExact" | "t = TierNormalized" | "t = TierWildcardAnchored" | "t = TierExchangeOnly"
    | "t \<notin> {TierExact, TierNormalized, TierWildcardAnchored, TierExchangeOnly}" by blast
  then show ?thesis
  proof cases
    case 1
    then show ?thesis using assms by (auto simp: tier_hits_def tier_agrees_def exact_law)
  next
    case 2
    then show ?thesis using assms by (auto simp: tier_hits_def tier_agrees_def norm_law)
  next
    case 3
    then have "c \<in> set (fst (wildcardScan normKey ix))" using assms by (simp add: tier_hits_def split_beta)
    then show ?thesis using 3 unfolding wildcardScan_set by (auto simp: tier_agrees_def)
  next
    case 4
    then have "c \<in> set (exchangeOnlyScan normKey ix)" using assms by (simp add: tier_hits_def)
    then show ?thesis using 4 unfolding exchangeOnlyScan_set by (force simp: tier_agrees_def)
  next
    case 5
    then show ?thesis using assms by (simp add: tier_hits_def)
  qed
qed

lemma tier_hits_complete:
  assumes "c \<in> set cs" "keys c = Some ck" "tier_agrees t (rawKey, normKey) ck"
  shows "fst (tier_hits rawKey normKey ix t) \<noteq> []"
proof -
  obtain r k where ck: "ck = (r, k)" by (cases ck)
  consider "t = TierExact" | "t = TierNormalized" | "t = TierWildcardAnchored" | "t = TierExchangeOnly"
    using assms(3) unfolding tier_agrees_def by (meson)
  then show ?thesis
  proof cases
    case 1
    then have "c \<in> set (fst (tier_hits rawKey normKey ix t))" using assms ck by (auto simp: tier_hits_def tier_agrees_def exact_law)
    then show ?thesis by auto
  next
    case 2
    then have "c \<in> set (fst (tier_hits rawKey normKey ix t))" using assms ck by (auto simp: tier_hits_def tier_agrees_def norm_law)
    then show ?thesis by auto
  next
    case 3
    let ?S = "{anchor_score normKey k |c r k. c \<in> set cs \<and> keys c = Some (r, k) \<and> wildcard_hit normKey k}"
    have fin: "finite ?S"
      by (rule finite_subset [of _ "(\<lambda>c. anchor_score normKey (snd (the (keys c)))) ` set cs"]) force+
    have lit: "hasLiteralSegment (fst (splitAtFirstSlash normKey))" and "anchor_score normKey k \<in> ?S"
      using assms 3 ck by (auto simp: tier_agrees_def)
    then have "Max ?S \<in> ?S" by (intro Max_in [OF fin]) blast
    then obtain c' r' k' where c': "c' \<in> set cs" "keys c' = Some (r', k')" "wildcard_hit normKey k'" "Max ?S = anchor_score normKey k'" by blast
    have "best_score normKey (anchor_score normKey k')"
      unfolding best_score_def c'(4) [symmetric] using Max_ge [OF fin] by blast
    then have "c' \<in> set (fst (wildcardScan normKey ix))" unfolding wildcardScan_set using lit c' by blast
    then show ?thesis using 3 by (auto simp: tier_hits_def split_beta)
  next
    case 4
    then have "c \<in> set (exchangeOnlyScan normKey ix)"
      unfolding exchangeOnlyScan_set using assms ck by (auto simp: tier_agrees_def split: option.splits)
    then show ?thesis using 4 by (auto simp: tier_hits_def)
  qed
qed

text \<open>The first tier of the rule on which any consumer agrees decides.\<close>

lemma findMatches_first:
  assumes "findMatches rawKey normKey ts ix = (hits, conf, meta, q)" "hits \<noteq> []"
  shows "\<exists>us t vs. ts = us @ t # vs \<and> conf = tier_confidence t
     \<and> (\<forall>c \<in> set hits. c \<in> set cs \<and> (\<exists>ck. keys c = Some ck \<and> tier_agrees t (rawKey, normKey) ck))
     \<and> (\<forall>u \<in> set us. \<forall>c \<in> set cs. \<forall>ck. keys c = Some ck \<longrightarrow> \<not> tier_agrees u (rawKey, normKey) ck)"
  using assms(1)
proof (induction ts)
  case Nil
  then show ?case using assms(2) by simp
next
  case (Cons t ts)
  show ?case
  proof (cases "fst (tier_hits rawKey normKey ix t) = []")
    case True
    then obtain us t' vs where r: "ts = us @ t' # vs" "conf = tier_confidence t'"
      "\<forall>c \<in> set hits. c \<in> set cs \<and> (\<exists>ck. keys c = Some ck \<and> tier_agrees t' (rawKey, normKey) ck)"
      "\<forall>u \<in> set us. \<forall>c \<in> set cs. \<forall>ck. keys c = Some ck \<longrightarrow> \<not> tier_agrees u (rawKey, normKey) ck"
      using Cons by (auto simp: Let_def)
    have "\<forall>c \<in> set cs. \<forall>ck. keys c = Some ck \<longrightarrow> \<not> tier_agrees t (rawKey, normKey) ck"
      using tier_hits_complete True by blast
    then show ?thesis using r by (intro exI [of _ "t # us"] exI [of _ t'] exI [of _ vs]) auto
  next
    case False
    then have th: "tier_hits rawKey normKey ix t = (hits, conf, meta, q)" using Cons.prems by (simp add: Let_def)
    then have "conf = tier_confidence t" using assms(2)
      by (auto simp: tier_hits_def tier_confidence_def split: if_splits prod.splits)
    moreover have "\<forall>c \<in> set hits. c \<in> set cs \<and> (\<exists>ck. keys c = Some ck \<and> tier_agrees t (rawKey, normKey) ck)"
      using tier_hits_agree [of _ rawKey normKey t] th by simp
    ultimately show ?thesis by (intro exI [of _ "[]"] exI [of _ t] exI [of _ ts]) auto
  qed
qed

lemma findMatches_none:
  assumes "fst (findMatches rawKey normKey ts ix) = []" "t \<in> set ts" "c \<in> set cs" "keys c = Some ck"
  shows "\<not> tier_agrees t (rawKey, normKey) ck"
  using assms(1,2)
proof (induction ts)
  case (Cons u us)
  show ?case
  proof (cases "fst (tier_hits rawKey normKey ix u) = []")
    case True
    then show ?thesis using Cons tier_hits_complete [OF assms(3,4)] by (auto simp: Let_def)
  next
    case False
    then show ?thesis using Cons.prems by (simp add: Let_def)
  qed
qed simp

end

section \<open>The engine's indexes keep the contract\<close>

lemma index_consumer_keys:
  "index_consumer spec norms env c ix = (case consumer_keys spec norms env c of None \<Rightarrow> ix
     | Some (r, n) \<Rightarrow> ix\<lparr>ci_exact := (ci_exact ix)(r \<mapsto> bucket (ci_exact ix) r @ [c]),
         ci_normKeys := (if ci_norm ix n = None then ci_normKeys ix @ [n] else ci_normKeys ix),
         ci_norm := (ci_norm ix)(n \<mapsto> bucket (ci_norm ix) n @ [c])\<rparr>)"
  by (simp add: index_consumer_def consumer_keys_def Let_def)

lemma bucket_upd: "bucket (m(k \<mapsto> ns)) j = (if j = k then ns else bucket m j)"
  by (simp add: bucket_def)

definition index_inv :: "consumerIndexes \<Rightarrow> node list \<Rightarrow> (node \<Rightarrow> (string \<times> string) option) \<Rightarrow> bool" where
  "index_inv ix cs keys \<longleftrightarrow>
     (\<forall>k. bucket (ci_exact ix) k = filter (\<lambda>c. \<exists>n. keys c = Some (k, n)) cs)
     \<and> (\<forall>k. bucket (ci_norm ix) k = filter (\<lambda>c. \<exists>r. keys c = Some (r, k)) cs)
     \<and> (\<forall>k. k \<in> set (ci_normKeys ix) \<longleftrightarrow> (\<exists>c \<in> set cs. \<exists>r. keys c = Some (r, k)))
     \<and> (\<forall>k. ci_norm ix k = None \<longleftrightarrow> k \<notin> set (ci_normKeys ix)) \<and> distinct (ci_normKeys ix)"

lemma index_consumer_inv:
  assumes inv: "index_inv ix cs (consumer_keys spec norms env)"
  shows "index_inv (index_consumer spec norms env c ix) (cs @ [c]) (consumer_keys spec norms env)"
proof (cases "consumer_keys spec norms env c")
  case None
  then show ?thesis using inv by (simp add: index_consumer_keys index_inv_def)
next
  case (Some rn)
  obtain r n where rn: "rn = (r, n)" by (cases rn)
  let ?ix = "index_consumer spec norms env c ix" and ?keys = "consumer_keys spec norms env"
  have i: "\<And>k. bucket (ci_exact ix) k = filter (\<lambda>c. \<exists>n. ?keys c = Some (k, n)) cs"
    "\<And>k. bucket (ci_norm ix) k = filter (\<lambda>c. \<exists>r. ?keys c = Some (r, k)) cs"
    "\<And>k. k \<in> set (ci_normKeys ix) \<longleftrightarrow> (\<exists>c \<in> set cs. \<exists>r. ?keys c = Some (r, k))"
    "\<And>k. ci_norm ix k = None \<longleftrightarrow> k \<notin> set (ci_normKeys ix)" "distinct (ci_normKeys ix)"
    using inv by (simp_all add: index_inv_def)
  have e: "ci_exact ?ix = (ci_exact ix)(r \<mapsto> bucket (ci_exact ix) r @ [c])"
    "ci_norm ?ix = (ci_norm ix)(n \<mapsto> bucket (ci_norm ix) n @ [c])"
    "ci_normKeys ?ix = (if ci_norm ix n = None then ci_normKeys ix @ [n] else ci_normKeys ix)"
    by (simp_all add: index_consumer_keys Some rn)
  have "bucket (ci_exact ?ix) k = filter (\<lambda>c. \<exists>n. ?keys c = Some (k, n)) (cs @ [c])" for k
    using Some rn by (auto simp: e bucket_upd i(1))
  moreover have "bucket (ci_norm ?ix) k = filter (\<lambda>c. \<exists>r. ?keys c = Some (r, k)) (cs @ [c])" for k
    using Some rn by (auto simp: e bucket_upd i(2))
  moreover have "set (ci_normKeys ?ix) = insert n (set (ci_normKeys ix))" using i(4) [of n] by (auto simp: e)
  moreover have "(\<exists>d \<in> set (cs @ [c]). \<exists>r. ?keys d = Some (r, k)) \<longleftrightarrow> k = n \<or> k \<in> set (ci_normKeys ix)" for k
    using Some rn by (auto simp: i(3))
  moreover have "distinct (ci_normKeys ?ix)" using i(4) [of n] i(5) by (simp add: e)
  moreover have "ci_norm ?ix k = None \<longleftrightarrow> k \<noteq> n \<and> k \<notin> set (ci_normKeys ix)" for k using i(4) [of k] by (simp add: e)
  ultimately show ?thesis unfolding index_inv_def by simp
qed

lemma build_inv: "index_inv (buildConsumerIndexes cs spec norms env) cs (consumer_keys spec norms env)"
proof (induction cs rule: rev_induct)
  case Nil
  then show ?case by (simp add: buildConsumerIndexes_def emptyIndexes_def index_inv_def bucket_def)
next
  case (snoc c cs)
  from index_consumer_inv [OF snoc, of c] show ?case by (simp add: buildConsumerIndexes_def)
qed

interpretation built: consumer_lookup "buildConsumerIndexes cs spec norms env" cs "consumer_keys spec norms env"
  for cs spec norms env
  by unfold_locales (use build_inv [of cs spec norms env] in \<open>simp_all add: index_inv_def\<close>)

end
