(* ===== verification/Contract_Link.thy ===== *)
theory Contract_Link
  imports Contract_Match
begin

text \<open>
  The linking pass as a whole. A reference definition gives what each producer contributes on its own,
  with the candidates computed afresh; the engine, with its cache, its running result and its set of
  synthetic targets, computes the concatenation of the contributions. What an edge means, that no
  producer is lost, and the guard against ambiguous fan-out follow from the reference.
\<close>

section \<open>What a producer contributes\<close>

definition rule_norms :: "contractRule \<Rightarrow> normalizer list" where
  "rule_norms rule = (case resolveNormalizers (ru_normalizers rule) of Inr ns \<Rightarrow> ns | Inl _ \<Rightarrow> [])"

definition rule_consumers :: "node list \<Rightarrow> contractRule \<Rightarrow> node list" where
  "rule_consumers ns rule = snd (partitionNodes ns rule)"

definition own_env :: "contractRule \<Rightarrow> link list \<Rightarrow> node \<Rightarrow> normalizeEnv" where
  "own_env rule links p = producer_env links p (target_service rule p)"

definition own_index :: "contractRule \<Rightarrow> link list \<Rightarrow> node list \<Rightarrow> node \<Rightarrow> consumerIndexes" where
  "own_index rule links consumers p =
     pick_index rule (rule_norms rule) (own_env rule links p) p (target_service rule p)
       (candidate_set rule (rule_norms rule) links consumers p (target_service rule p))"

definition found_edges :: "contractRule \<Rightarrow> link list \<Rightarrow> node list \<Rightarrow> node \<Rightarrow> edge list" where
  "found_edges rule links consumers p =
     (if is_dynamic_key p then []
      else producer_edges rule (rule_norms rule) (own_env rule links p) (own_index rule links consumers p) p)"

definition raw_key :: "contractRule \<Rightarrow> node \<Rightarrow> string" where
  "raw_key rule p = key_text (buildRawFields p (ru_producer rule) Map.empty)"

definition unknown_edge :: "contractRule \<Rightarrow> node \<Rightarrow> edge" where
  "unknown_edge rule p = contract_edge p rule (synth_id (target_service rule p)) (raw_key rule p) ConfidenceUnknown [''confidence'' \<mapsto> ConfidenceUnknown]"

definition falls_through :: "contractRule \<Rightarrow> link list \<Rightarrow> node list \<Rightarrow> unmatchedPolicy \<Rightarrow> node \<Rightarrow> bool" where
  "falls_through rule links consumers pol p \<longleftrightarrow>
     \<not> is_dynamic_key p \<and> found_edges rule links consumers p = [] \<and> ru_unmatched rule = pol"

definition given_edges :: "contractRule \<Rightarrow> link list \<Rightarrow> node list \<Rightarrow> node \<Rightarrow> edge list" where
  "given_edges rule links consumers p = found_edges rule links consumers p
     @ (if falls_through rule links consumers UnmatchedUnknownEdge p then [unknown_edge rule p] else [])"

definition given_refs :: "contractRule \<Rightarrow> link list \<Rightarrow> node list \<Rightarrow> node \<Rightarrow> unresolvedRef list" where
  "given_refs rule links consumers p =
     (if is_dynamic_key p then [ledger_entry p (meta_get (nd_meta p) ''key_dynamic_raw'') (dynamicKindFor (ru_kind rule))]
      else if falls_through rule links consumers UnmatchedLedger p then [ledger_entry p (raw_key rule p) (ru_kind rule)] else [])"

definition given_targets :: "contractRule \<Rightarrow> link list \<Rightarrow> node list \<Rightarrow> node \<Rightarrow> string list" where
  "given_targets rule links consumers p =
     (if falls_through rule links consumers UnmatchedUnknownEdge p then [target_service rule p] else [])"

definition over_rules :: "node list \<Rightarrow> contractRule list \<Rightarrow> (contractRule \<Rightarrow> node list \<Rightarrow> node \<Rightarrow> 'a list) \<Rightarrow> 'a list" where
  "over_rules ns rules f = concat (map (\<lambda>rule. concat (map (f rule (rule_consumers ns rule)) (rule_producers ns rule))) rules)"

text \<open>The elements of a list in the order in which they first occur.\<close>

definition firsts :: "'a list \<Rightarrow> 'a list" where
  "firsts xs = rev (remdups (rev xs))"

definition Link_reference :: "node list \<Rightarrow> contractRule list \<Rightarrow> link list \<Rightarrow> linkResult" where
  "Link_reference ns rules links =
     \<lparr>lr_edges = over_rules ns rules (\<lambda>rule. given_edges rule links),
      lr_nodes = map synth_node (firsts (over_rules ns rules (\<lambda>rule. given_targets rule links))),
      lr_unresolved = over_rules ns rules (\<lambda>rule. given_refs rule links)\<rparr>"

section \<open>The engine computes the reference\<close>

lemma policies_distinct [simp]:
  "UnmatchedUnknownEdge \<noteq> UnmatchedLedger" "UnmatchedUnknownEdge \<noteq> UnmatchedDrop" "UnmatchedLedger \<noteq> UnmatchedUnknownEdge"
  "UnmatchedLedger \<noteq> UnmatchedDrop" "UnmatchedDrop \<noteq> UnmatchedUnknownEdge" "UnmatchedDrop \<noteq> UnmatchedLedger"
  by (simp_all add: UnmatchedUnknownEdge_def UnmatchedLedger_def UnmatchedDrop_def)

lemma firsts_snoc: "firsts (xs @ [x]) = (if x \<in> set xs then firsts xs else firsts xs @ [x])"
  by (simp add: firsts_def)

lemma set_firsts [simp]: "set (firsts xs) = set xs"
  by (simp add: firsts_def)

lemma synth_id_inj: "synth_id s = synth_id t \<longleftrightarrow> s = t"
  by (auto simp: synth_id_def)

text \<open>The running result stands for the edges, references and targets contributed so far.\<close>

definition stands_for :: "linkState \<Rightarrow> edge list \<Rightarrow> unresolvedRef list \<Rightarrow> string list \<Rightarrow> bool" where
  "stands_for s es us ts \<longleftrightarrow> lr_edges s = es \<and> lr_unresolved s = us
     \<and> lk_synth s = map synth_id (firsts ts) \<and> lr_nodes s = map synth_node (firsts ts)"

definition apart :: "contractRule \<Rightarrow> node \<Rightarrow> bool" where
  "apart rule p \<longleftrightarrow> nul \<notin> set (target_service rule p)"

definition cache_ok :: "contractRule \<Rightarrow> link list \<Rightarrow> node list \<Rightarrow> candCache \<Rightarrow> bool" where
  "cache_ok rule links consumers cache \<longleftrightarrow>
     (\<forall>p cs. apart rule p \<longrightarrow> cache (cache_key (target_service rule p) p) = Some cs
        \<longrightarrow> cs = candidate_set rule (rule_norms rule) links consumers p (target_service rule p))"

lemma cache_key_inj:
  "apart rule p \<Longrightarrow> apart rule q \<Longrightarrow> cache_key (target_service rule p) p = cache_key (target_service rule q) q
     \<Longrightarrow> target_service rule p = target_service rule q \<and> nd_service p = nd_service q"
  using nul_split [of "target_service rule p" "target_service rule q"] by (simp add: cache_key_def apart_def)

lemma candidate_set_cong:
  "nd_service p = nd_service q \<Longrightarrow> candidate_set rule norms links consumers p t = candidate_set rule norms links consumers q t"
  by (simp add: candidate_set_def producer_env_def)

lemma cached_set_ok:
  assumes "cache_ok rule links consumers cache" "apart rule p"
    and "cached_set rule (rule_norms rule) links consumers p (target_service rule p) cache = (cs, cache1)"
  shows "cs = candidate_set rule (rule_norms rule) links consumers p (target_service rule p) \<and> cache_ok rule links consumers cache1"
proof (cases "cache (cache_key (target_service rule p) p)")
  case None
  then have "cs = candidate_set rule (rule_norms rule) links consumers p (target_service rule p)"
    "cache1 = cache(cache_key (target_service rule p) p \<mapsto> cs)"
    using assms(3) by (auto simp: cached_set_def Let_def)
  moreover have "cache_ok rule links consumers cache1"
    unfolding cache_ok_def
  proof (intro allI impI)
    fix q ds assume q: "apart rule q" "cache1 (cache_key (target_service rule q) q) = Some ds"
    show "ds = candidate_set rule (rule_norms rule) links consumers q (target_service rule q)"
    proof (cases "cache_key (target_service rule q) q = cache_key (target_service rule p) p")
      case True
      then have "target_service rule q = target_service rule p" "nd_service q = nd_service p"
        using cache_key_inj [OF q(1) assms(2)] by blast+
      then show ?thesis using q(2) calculation True candidate_set_cong [of q p] by simp
    next
      case False
      then have "cache (cache_key (target_service rule q) q) = Some ds" using q(2) calculation(2) by simp
      then show ?thesis using assms(1) q(1) unfolding cache_ok_def by blast
    qed
  qed
  ultimately show ?thesis by blast
next
  case (Some ds)
  then have "cs = ds" "cache1 = cache" using assms(3) by (auto simp: cached_set_def)
  moreover have "ds = candidate_set rule (rule_norms rule) links consumers p (target_service rule p)"
    using assms(1,2) Some unfolding cache_ok_def by blast
  ultimately show ?thesis using assms(1) by simp
qed

lemma link_producer_step:
  assumes s: "stands_for s es us ts" and c: "cache_ok rule links consumers cache" and a: "apart rule p"
  shows "stands_for (fst (link_producer rule (rule_norms rule) links consumers p (s, cache)))
      (es @ given_edges rule links consumers p) (us @ given_refs rule links consumers p) (ts @ given_targets rule links consumers p)
    \<and> cache_ok rule links consumers (snd (link_producer rule (rule_norms rule) links consumers p (s, cache)))"
proof (cases "is_dynamic_key p")
  case True
  then have "given_edges rule links consumers p = []" "given_targets rule links consumers p = []"
    by (simp_all add: given_edges_def found_edges_def falls_through_def given_targets_def)
  then show ?thesis using True s c by (simp add: link_producer_def applyDynamicUnmatched_def given_refs_def stands_for_def)
next
  case False
  obtain cs cache1 where cs: "cached_set rule (rule_norms rule) links consumers p (target_service rule p) cache = (cs, cache1)"
    by (rule prod.exhaust)
  let ?es = "found_edges rule links consumers p"
  note ok = cached_set_ok [OF c a cs]
  have step: "link_producer rule (rule_norms rule) links consumers p (s, cache)
      = (if ?es \<noteq> [] then add_edges ?es s else applyUnmatched p rule (target_service rule p) s, cache1)"
    using False ok cs by (simp add: link_producer_def Let_def found_edges_def own_index_def own_env_def)
  have "stands_for (if ?es \<noteq> [] then add_edges ?es s else applyUnmatched p rule (target_service rule p) s)
      (es @ given_edges rule links consumers p) (us @ given_refs rule links consumers p) (ts @ given_targets rule links consumers p)"
  proof (cases "?es = []")
    case True
    have syn: "synth_id (target_service rule p) \<in> set (lk_synth s) \<longleftrightarrow> target_service rule p \<in> set ts"
      using s by (auto simp: stands_for_def synth_id_inj)
    have ft: "falls_through rule links consumers pol p \<longleftrightarrow> ru_unmatched rule = pol" for pol
      using True False by (simp add: falls_through_def)
    show ?thesis
      using s True False unfolding given_edges_def given_refs_def given_targets_def ft
      by (auto simp: applyUnmatched_def Let_def syn synth_id_inj stands_for_def unknown_edge_def raw_key_def firsts_snoc)
  next
    case ne: False
    then have "\<not> falls_through rule links consumers pol p" for pol by (simp add: falls_through_def)
    then show ?thesis using s ne False by (simp add: add_edges_def stands_for_def given_edges_def given_refs_def given_targets_def)
  qed
  then show ?thesis using ok by (simp add: step)
qed

lemma link_producers:
  assumes "stands_for s es us ts" "cache_ok rule links consumers cache" "\<forall>p \<in> set ps. apart rule p"
  shows "stands_for (fst (fold (link_producer rule (rule_norms rule) links consumers) ps (s, cache)))
      (es @ concat (map (given_edges rule links consumers) ps)) (us @ concat (map (given_refs rule links consumers) ps))
      (ts @ concat (map (given_targets rule links consumers) ps))"
  using assms
proof (induction ps arbitrary: s es us ts cache)
  case (Cons p ps)
  obtain s1 c1 where sc: "link_producer rule (rule_norms rule) links consumers p (s, cache) = (s1, c1)" by (rule prod.exhaust)
  have "apart rule p" using Cons.prems(3) by simp
  from link_producer_step [OF Cons.prems(1,2) this] sc
  have "stands_for s1 (es @ given_edges rule links consumers p) (us @ given_refs rule links consumers p) (ts @ given_targets rule links consumers p)"
    "cache_ok rule links consumers c1" by simp_all
  from Cons.IH [OF this] Cons.prems(3) show ?case by (simp add: sc)
qed simp

text \<open>A rule that passes the load checks names only registered normalizers.\<close>

lemma resolve_known: "(\<forall>n \<in> set names. NormalizerByName n \<noteq> None) \<Longrightarrow> \<exists>fs. resolveNormalizers names = Inr fs"
  by (induction names) (auto split: option.splits)

lemma valid_resolves:
  assumes "validateRule rule = None"
  shows "resolveNormalizers (ru_normalizers rule) = Inr (rule_norms rule)"
proof -
  have "find (\<lambda>n. NormalizerByName n = None) (ru_normalizers rule) = None"
    using assms by (auto simp: validateRule_def split: if_splits option.splits)
  then have "\<forall>n \<in> set (ru_normalizers rule). NormalizerByName n \<noteq> None" by (auto simp: find_None_iff)
  then show ?thesis using resolve_known [of "ru_normalizers rule"] by (auto simp: rule_norms_def)
qed

lemma link_rules:
  assumes "stands_for s es us ts" "\<forall>rule \<in> set rules. validateRule rule = None"
    "\<forall>rule \<in> set rules. \<forall>p \<in> set (rule_producers ns rule). apart rule p"
  shows "\<exists>s'. foldE (link_rule ns links) rules s = Inr s' \<and> stands_for s' (es @ over_rules ns rules (\<lambda>rule. given_edges rule links))
     (us @ over_rules ns rules (\<lambda>rule. given_refs rule links)) (ts @ over_rules ns rules (\<lambda>rule. given_targets rule links))"
  using assms
proof (induction rules arbitrary: s es us ts)
  case (Cons rule rules)
  let ?s1 = "fst (fold (link_producer rule (rule_norms rule) links (rule_consumers ns rule)) (rule_producers ns rule) (s, Map.empty))"
  have one: "link_rule ns links rule s = Inr ?s1"
    using Cons.prems(2) valid_resolves [of rule] by (simp add: link_rule_def rule_consumers_def)
  have "cache_ok rule links (rule_consumers ns rule) Map.empty" by (simp add: cache_ok_def)
  from link_producers [OF Cons.prems(1) this] Cons.prems(3)
  have st: "stands_for ?s1 (es @ concat (map (given_edges rule links (rule_consumers ns rule)) (rule_producers ns rule)))
     (us @ concat (map (given_refs rule links (rule_consumers ns rule)) (rule_producers ns rule)))
     (ts @ concat (map (given_targets rule links (rule_consumers ns rule)) (rule_producers ns rule)))" by simp
  from Cons.IH [OF st] Cons.prems(2,3) show ?case by (simp add: one over_rules_def)
qed (simp add: over_rules_def)

lemma Link_is_reference:
  assumes "\<forall>rule \<in> set rules. validateRule rule = None"
    and "\<forall>rule \<in> set rules. \<forall>p \<in> set (rule_producers ns rule). apart rule p"
  shows "Link ns rules links = Inr (Link_reference ns rules links)"
proof -
  have "stands_for emptyState [] [] []" by (simp add: stands_for_def emptyState_def firsts_def)
  from link_rules [OF this assms] obtain s' where s': "foldE (link_rule ns links) rules emptyState = Inr s'"
    "stands_for s' (over_rules ns rules (\<lambda>rule. given_edges rule links)) (over_rules ns rules (\<lambda>rule. given_refs rule links))
       (over_rules ns rules (\<lambda>rule. given_targets rule links))" by auto
  then have "linkResult.truncate s' = Link_reference ns rules links"
    by (simp add: stands_for_def Link_reference_def linkResult.truncate_def)
  then show ?thesis by (simp add: Link_def s'(1))
qed

lemma over_rules_set:
  "x \<in> set (over_rules ns rules f) \<longleftrightarrow> (\<exists>rule \<in> set rules. \<exists>p \<in> set (rule_producers ns rule). x \<in> set (f rule (rule_consumers ns rule) p))"
  by (auto simp: over_rules_def)

end
