(* ===== verification/Contract_Edges.thy ===== *)
theory Contract_Edges
  imports Contract_Link
begin

text \<open>
  What the edges of a producer mean. Soundness: the keys of both ends agree on a tier of the rule.
  Completeness: a producer that found nothing had nothing to find. The shape of a producer's edges
  gives the guard against ambiguous fan-out, and the pass over duplicated call sites keeps the best
  node of each site.
\<close>

section \<open>Overrides\<close>

lemma first_edges_empty: "first_edges f ovs = [] \<longleftrightarrow> (\<forall>ov \<in> set ovs. f ov = [])"
  by (induction ovs) auto

lemma first_edges_from: "first_edges f ovs \<noteq> [] \<Longrightarrow> \<exists>ov \<in> set ovs. first_edges f ovs = f ov"
  by (induction ovs) auto

lemma first_edges_in: "e \<in> set (first_edges f ovs) \<Longrightarrow> \<exists>ov \<in> set ovs. e \<in> set (f ov)"
  by (induction ovs) (auto split: if_splits)

lemma best_step_in: "best_step p rule norms env ix ov best = Some (q, b) \<Longrightarrow> b = ov \<or> best = Some (q, b)"
  by (auto simp: best_step_def Let_def split: option.splits prod.splits if_splits)

lemma best_fold_in: "fold (best_step p rule norms env ix) ovs best = Some (q, b) \<Longrightarrow> b \<in> set ovs \<or> best = Some (q, b)"
proof (induction ovs arbitrary: best)
  case (Cons ov ovs)
  then show ?case using best_step_in [of p rule norms env ix ov best q b] by fastforce
qed simp

definition usable :: "node \<Rightarrow> contractRule \<Rightarrow> normalizer list \<Rightarrow> normalizeEnv \<Rightarrow> override \<Rightarrow> string \<times> string \<Rightarrow> bool" where
  "usable p rule norms env ov pk \<longleftrightarrow>
     \<not> keyIsEmpty (buildRawFields p (ru_producer rule) ov) \<and> producer_keys p rule norms env ov = Some pk"

definition hits_of :: "contractRule \<Rightarrow> consumerIndexes \<Rightarrow> string \<times> string \<Rightarrow> node list" where
  "hits_of rule ix pk = fst (findMatches (fst pk) (snd pk) (ru_match rule) ix)"

definition weak :: "node \<Rightarrow> bool" where
  "weak p \<longleftrightarrow> meta_get (nd_meta p) ''path_evidence'' = ''weak''"

lemma override_edges_cases:
  obtains (none) "override_edges p rule norms env ix ov = []" "\<And>pk. \<not> usable p rule norms env ov pk"
    | (some) raw norm hits conf meta q where "usable p rule norms env ov (raw, norm)"
        "findMatches raw norm (ru_match rule) ix = (hits, conf, meta, q)"
        "override_edges p rule norms env ix ov = (if weak p \<and> distinctTargetServices (eligible_hits p rule hits) > 1 then []
           else map (\<lambda>h. contract_edge p rule (nd_id h) norm (edge_confidence p (eligible_hits p rule hits) conf) (edge_meta p rule meta))
                  (eligible_hits p rule hits))"
proof (cases "keyIsEmpty (buildRawFields p (ru_producer rule) ov)")
  case True
  then show ?thesis by (intro none) (simp_all add: override_edges_def usable_def)
next
  case k: False
  show ?thesis
  proof (cases "producer_keys p rule norms env ov")
    case None
    then show ?thesis by (intro none) (simp_all add: override_edges_def usable_def)
  next
    case (Some pk)
    obtain raw norm where pk: "pk = (raw, norm)" by (cases pk)
    obtain hits conf meta q where fm: "findMatches raw norm (ru_match rule) ix = (hits, conf, meta, q)" by (metis prod_cases4)
    show ?thesis
      by (rule some [of raw norm hits conf meta q]) (use k Some pk fm in \<open>simp_all add: override_edges_def usable_def weak_def Let_def\<close>)
  qed
qed

lemma override_edges_empty:
  assumes "\<not> weak p"
  shows "override_edges p rule norms env ix ov = []
    \<longleftrightarrow> (\<forall>pk. usable p rule norms env ov pk \<longrightarrow> eligible_hits p rule (hits_of rule ix pk) = [])"
proof (cases rule: override_edges_cases [of p rule norms env ix ov])
  case none
  then show ?thesis by simp
next
  case (some raw norm hits conf meta q)
  then have "usable p rule norms env ov pk \<longleftrightarrow> pk = (raw, norm)" for pk by (auto simp: usable_def)
  then show ?thesis using some assms by (simp add: hits_of_def)
qed

lemma best_fold_eligible:
  assumes "fold (best_step p rule norms env ix) ovs best = Some (q, b)" "best = None"
  shows "\<exists>pk. usable p rule norms env b pk \<and> eligible_hits p rule (hits_of rule ix pk) \<noteq> []"
proof -
  define ok where "ok = (\<lambda>best :: (int \<times> override) option. \<forall>q b. best = Some (q, b)
     \<longrightarrow> (\<exists>pk. usable p rule norms env b pk \<and> eligible_hits p rule (hits_of rule ix pk) \<noteq> []))"
  have step: "ok (best_step p rule norms env ix ov best)" if "ok best" for ov best
  proof (cases "keyIsEmpty (buildRawFields p (ru_producer rule) ov) \<or> producer_keys p rule norms env ov = None")
    case True
    then have "best_step p rule norms env ix ov best = best" by (auto simp: best_step_def)
    then show ?thesis using that by simp
  next
    case False
    then obtain raw norm where pk: "producer_keys p rule norms env ov = Some (raw, norm)" by auto
    obtain hits conf meta q where fm: "findMatches raw norm (ru_match rule) ix = (hits, conf, meta, q)" by (metis prod_cases4)
    have u: "usable p rule norms env ov (raw, norm)" using False pk by (simp add: usable_def)
    have "list_ex (sameServiceAllowed (eg_sameService (ru_edge rule)) p) hits \<longleftrightarrow> eligible_hits p rule (hits_of rule ix (raw, norm)) \<noteq> []"
      by (auto simp: hits_of_def fm eligible_hits_def list_ex_iff filter_empty_conv)
    then have "best_step p rule norms env ix ov best = best \<or>
        best_step p rule norms env ix ov best = Some (q, ov) \<and> eligible_hits p rule (hits_of rule ix (raw, norm)) \<noteq> []"
      using False pk fm by (simp add: best_step_def)
    then show ?thesis
    proof (elim disjE conjE)
      assume "best_step p rule norms env ix ov best = best"
      then show ?thesis using that by simp
    next
      assume b: "best_step p rule norms env ix ov best = Some (q, ov)" "eligible_hits p rule (hits_of rule ix (raw, norm)) \<noteq> []"
      show ?thesis unfolding ok_def b(1) using u b(2) by blast
    qed
  qed
  have "ok (fold (best_step p rule norms env ix) ovs best)" if "ok best" for best
    using that by (induction ovs arbitrary: best) (simp_all add: step)
  from this [of best] assms show ?thesis by (auto simp: ok_def)
qed

text \<open>The overrides that \<open>matchProducer\<close> settles on, and when it comes back empty.\<close>

lemma matchProducer_override:
  assumes "matchProducer p rule norms env ix \<noteq> []"
  shows "\<exists>ov \<in> set (candidateMethodOverrides p (ru_producer rule)). matchProducer p rule norms env ix = override_edges p rule norms env ix ov"
proof -
  let ?ovs = "candidateMethodOverrides p (ru_producer rule)"
  let ?ovs1 = "if length ?ovs > 1 then (case bestMethodOverride p rule norms env ix ?ovs of Some b \<Rightarrow> [b] | None \<Rightarrow> ?ovs) else ?ovs"
  have m: "matchProducer p rule norms env ix = first_edges (override_edges p rule norms env ix) ?ovs1"
    by (simp add: matchProducer_def Let_def)
  have "set ?ovs1 \<subseteq> set ?ovs"
    using best_fold_in [of p rule norms env ix ?ovs None] by (auto simp: bestMethodOverride_def split: option.splits)
  then show ?thesis using first_edges_from assms unfolding m by blast
qed

lemma matchProducer_in:
  assumes "e \<in> set (matchProducer p rule norms env ix)"
  shows "\<exists>ov \<in> set (candidateMethodOverrides p (ru_producer rule)). e \<in> set (override_edges p rule norms env ix ov)"
proof -
  have "matchProducer p rule norms env ix \<noteq> []" using assms by auto
  from matchProducer_override [OF this] assms show ?thesis by metis
qed

lemma matchProducer_empty:
  assumes "\<not> weak p" "matchProducer p rule norms env ix = []" "ov \<in> set (candidateMethodOverrides p (ru_producer rule))"
  shows "override_edges p rule norms env ix ov = []"
proof -
  let ?ovs = "candidateMethodOverrides p (ru_producer rule)"
  show ?thesis
  proof (cases "length ?ovs > 1 \<and> bestMethodOverride p rule norms env ix ?ovs \<noteq> None")
    case True
    then obtain q b where b: "fold (best_step p rule norms env ix) ?ovs None = Some (q, b)" "bestMethodOverride p rule norms env ix ?ovs = Some b"
      by (auto simp: bestMethodOverride_def)
    then have "override_edges p rule norms env ix b = []" using assms(2) True by (auto simp: matchProducer_def Let_def split: if_splits)
    then show ?thesis using best_fold_eligible [OF b(1)] override_edges_empty [OF assms(1)] by blast
  next
    case False
    then have "first_edges (override_edges p rule norms env ix) ?ovs = []"
      using assms(2) by (auto simp: matchProducer_def Let_def split: if_splits)
    then show ?thesis using assms(3) by (simp add: first_edges_empty)
  qed
qed

section \<open>Candidates\<close>

lemma candidate_set_alt:
  "candidate_set rule norms links consumers p t =
     (filterBySameServicePolicy (filterByService consumers t) (eg_sameService (ru_edge rule)) (nd_service p),
      buildConsumerIndexes (filterBySameServicePolicy (filterByService consumers t) (eg_sameService (ru_edge rule)) (nd_service p))
        (ru_consumer rule) norms (producer_env links p t))"
  by (simp add: candidate_set_def Let_def)

definition candidates :: "contractRule \<Rightarrow> node list \<Rightarrow> node \<Rightarrow> node list" where
  "candidates rule consumers p =
     filterBySameServicePolicy (filterByService consumers (target_service rule p)) (eg_sameService (ru_edge rule)) (nd_service p)"

definition candidate_ok :: "contractRule \<Rightarrow> node \<Rightarrow> node \<Rightarrow> bool" where
  "candidate_ok rule p c \<longleftrightarrow> (target_service rule p \<noteq> [] \<longrightarrow> nd_service c = target_service rule p)
     \<and> sameServiceAllowed (eg_sameService (ru_edge rule)) p c"

definition prefiltered :: "contractRule \<Rightarrow> bool" where
  "prefiltered rule \<longleftrightarrow> \<not> prefix ''skip_unless_meta:'' (eg_sameService (ru_edge rule))"

lemma candidates_ok:
  assumes "prefiltered rule"
  shows "c \<in> set (candidates rule consumers p) \<longleftrightarrow> c \<in> set consumers \<and> candidate_ok rule p c"
  using assms
  by (auto simp: candidates_def filterByService_def filterBySameServicePolicy_def candidate_ok_def sameServiceAllowed_def prefiltered_def Let_def)

lemma candidates_sub: "c \<in> set (candidates rule consumers p) \<Longrightarrow> c \<in> set consumers \<and> (target_service rule p \<noteq> [] \<longrightarrow> nd_service c = target_service rule p)"
  by (auto simp: candidates_def filterByService_def filterBySameServicePolicy_def split: if_splits)

text \<open>The chosen index is built over candidates of the producer: all of them, or those of its own service.\<close>

lemma own_index_cases:
  obtains (all) "own_index rule links consumers p = buildConsumerIndexes (candidates rule consumers p) (ru_consumer rule) (rule_norms rule) (own_env rule links p)"
    | (own) "own_index rule links consumers p
        = buildConsumerIndexes (filterByService (candidates rule consumers p) (nd_service p)) (ru_consumer rule) (rule_norms rule) (own_env rule links p)"
      "matchProducer p rule (rule_norms rule) (own_env rule links p) (own_index rule links consumers p) \<noteq> []"
proof -
  have c: "candidate_set rule (rule_norms rule) links consumers p (target_service rule p)
      = (candidates rule consumers p, buildConsumerIndexes (candidates rule consumers p) (ru_consumer rule) (rule_norms rule) (own_env rule links p))"
    by (simp add: candidate_set_alt candidates_def own_env_def)
  let ?all = "buildConsumerIndexes (candidates rule consumers p) (ru_consumer rule) (rule_norms rule) (own_env rule links p)"
  let ?own = "buildConsumerIndexes (filterByService (candidates rule consumers p) (nd_service p)) (ru_consumer rule) (rule_norms rule) (own_env rule links p)"
  have "own_index rule links consumers p = ?all
      \<or> own_index rule links consumers p = ?own \<and> matchProducer p rule (rule_norms rule) (own_env rule links p) ?own \<noteq> []"
    unfolding own_index_def pick_index_def c Let_def fst_conv snd_conv by (simp split: if_split)
  then show ?thesis using all own by metis
qed

lemma own_index_hits:
  assumes "findMatches raw norm ts (own_index rule links consumers p) = (hits, conf, meta, q)" "hits \<noteq> []"
  shows "\<exists>t \<in> set ts. conf = tier_confidence t \<and> (\<forall>c \<in> set hits. c \<in> set (candidates rule consumers p)
     \<and> (\<exists>ck. consumer_keys (ru_consumer rule) (rule_norms rule) (own_env rule links p) c = Some ck \<and> tier_agrees t (raw, norm) ck))"
proof -
  have sub: "set (filterByService (candidates rule consumers p) (nd_service p)) \<subseteq> set (candidates rule consumers p)"
    by (auto simp: filterByService_def)
  show ?thesis
  proof (cases rule: own_index_cases [of rule links consumers p])
    case all
    obtain us t vs where t: "ts = us @ t # vs" "conf = tier_confidence t" "\<forall>c \<in> set hits. c \<in> set (candidates rule consumers p)
        \<and> (\<exists>ck. consumer_keys (ru_consumer rule) (rule_norms rule) (own_env rule links p) c = Some ck \<and> tier_agrees t (raw, norm) ck)"
      using built.findMatches_first [OF assms(1) [unfolded all] assms(2)] by blast
    have "t \<in> set ts" by (simp add: t(1))
    then show ?thesis using t(2,3) by blast
  next
    case own
    obtain us t vs where t: "ts = us @ t # vs" "conf = tier_confidence t" "\<forall>c \<in> set hits. c \<in> set (filterByService (candidates rule consumers p) (nd_service p))
        \<and> (\<exists>ck. consumer_keys (ru_consumer rule) (rule_norms rule) (own_env rule links p) c = Some ck \<and> tier_agrees t (raw, norm) ck)"
      using built.findMatches_first [OF assms(1) [unfolded own(1)] assms(2)] by blast
    have "t \<in> set ts" by (simp add: t(1))
    then show ?thesis using t(2,3) sub by blast
  qed
qed

section \<open>Soundness\<close>

definition producer_overrides :: "contractRule \<Rightarrow> node \<Rightarrow> override list" where
  "producer_overrides rule p =
     (let ms = candidateMethodOverrides p (ru_producer rule);
          f = findDynamicKeyField p (ru_producer rule);
          ks = ParseKeyCandidates (meta_get (nd_meta p) ''key_candidates'') in
      if ks = [] then ms
      else concat (map (\<lambda>k. map (mergeOverrides (if f \<noteq> [] then [f \<mapsto> k] else Map.empty)) ms) ks))"

definition has_candidates :: "node \<Rightarrow> bool" where
  "has_candidates p \<longleftrightarrow> ParseKeyCandidates (meta_get (nd_meta p) ''key_candidates'') \<noteq> []"

text \<open>An edge that a key of the producer and a key of a consumer justify.\<close>

definition justified :: "contractRule \<Rightarrow> link list \<Rightarrow> node \<Rightarrow> node \<Rightarrow> edge \<Rightarrow> bool" where
  "justified rule links p c e \<longleftrightarrow> candidate_ok rule p c \<and> ed_from e = nd_id p \<and> ed_to e = nd_id c \<and> ed_type e = eg_type (ru_edge rule)
     \<and> (\<exists>ov \<in> set (producer_overrides rule p). \<exists>t \<in> set (ru_match rule). \<exists>pk ck.
          producer_keys p rule (rule_norms rule) (own_env rule links p) ov = Some pk
          \<and> consumer_keys (ru_consumer rule) (rule_norms rule) (own_env rule links p) c = Some ck
          \<and> tier_agrees t pk ck \<and> ed_label e = snd pk
          \<and> (if has_candidates p then ed_confidence e = ConfidenceInferred
             else ConfidenceRank (ed_confidence e) \<le> ConfidenceRank (tier_confidence t)))"

lemma justifiedI:
  assumes "candidate_ok rule p c" "ed_from e = nd_id p" "ed_to e = nd_id c" "ed_type e = eg_type (ru_edge rule)"
    "ov \<in> set (producer_overrides rule p)" "t \<in> set (ru_match rule)"
    "producer_keys p rule (rule_norms rule) (own_env rule links p) ov = Some pk"
    "consumer_keys (ru_consumer rule) (rule_norms rule) (own_env rule links p) c = Some ck"
    "tier_agrees t pk ck" "ed_label e = snd pk"
    "if has_candidates p then ed_confidence e = ConfidenceInferred else ConfidenceRank (ed_confidence e) \<le> ConfidenceRank (tier_confidence t)"
  shows "justified rule links p c e"
  using assms unfolding justified_def by blast

lemma contract_edge_fields [simp]:
  "ed_from (contract_edge p rule to l conf m) = nd_id p" "ed_to (contract_edge p rule to l conf m) = to"
  "ed_type (contract_edge p rule to l conf m) = eg_type (ru_edge rule)" "ed_label (contract_edge p rule to l conf m) = l"
  "ed_confidence (contract_edge p rule to l conf m) = conf"
  by (simp_all add: contract_edge_def)

lemma confidences_distinct [simp]:
  "ConfidenceUnknown \<noteq> ConfidencePartial" "ConfidenceUnknown \<noteq> ConfidenceInferred" "ConfidenceUnknown \<noteq> ConfidenceStatic"
  "ConfidencePartial \<noteq> ConfidenceUnknown" "ConfidencePartial \<noteq> ConfidenceInferred" "ConfidencePartial \<noteq> ConfidenceStatic"
  "ConfidenceInferred \<noteq> ConfidenceUnknown" "ConfidenceInferred \<noteq> ConfidencePartial" "ConfidenceInferred \<noteq> ConfidenceStatic"
  "ConfidenceStatic \<noteq> ConfidenceUnknown" "ConfidenceStatic \<noteq> ConfidencePartial" "ConfidenceStatic \<noteq> ConfidenceInferred"
  by (simp_all add: ConfidenceUnknown_def ConfidencePartial_def ConfidenceInferred_def ConfidenceStatic_def)

lemma ConfidenceRank_simps [simp]:
  "ConfidenceRank ConfidenceUnknown = 0" "ConfidenceRank ConfidencePartial = 1" "ConfidenceRank ConfidenceInferred = 2" "ConfidenceRank ConfidenceStatic = 3"
  by (simp_all add: ConfidenceRank_def)

lemma capConfidence_le: "ConfidenceRank (capConfidence conf ceiling) \<le> ConfidenceRank conf"
  by (auto simp: capConfidence_def)

lemma edge_confidence_le:
  "ConfidenceRank (edge_confidence p hits (tier_confidence t)) \<le> ConfidenceRank (tier_confidence t)"
proof -
  have "ConfidenceRank ConfidencePartial \<le> ConfidenceRank (tier_confidence t)" by (simp add: tier_confidence_def)
  then have "ConfidenceRank (if distinctTargetServices hits > 1 then ConfidencePartial else tier_confidence t) \<le> ConfidenceRank (tier_confidence t)"
    by simp
  then show ?thesis unfolding edge_confidence_def by (rule le_trans [OF capConfidence_le])
qed

lemma eligible_sub: "c \<in> set (eligible_hits p rule hits) \<longleftrightarrow> c \<in> set hits \<and> sameServiceAllowed (eg_sameService (ru_edge rule)) p c"
  by (auto simp: eligible_hits_def)

lemma matchProducer_justified:
  assumes "e \<in> set (matchProducer p rule (rule_norms rule) (own_env rule links p) (own_index rule links consumers p))" "\<not> has_candidates p"
  shows "\<exists>c \<in> set consumers. justified rule links p c e"
proof -
  let ?ix = "own_index rule links consumers p" and ?norms = "rule_norms rule" and ?env = "own_env rule links p"
  obtain ov where ov: "ov \<in> set (candidateMethodOverrides p (ru_producer rule))" "e \<in> set (override_edges p rule ?norms ?env ?ix ov)"
    using matchProducer_in [OF assms(1)] by blast
  show ?thesis
  proof (cases rule: override_edges_cases [of p rule ?norms ?env ?ix ov])
    case none
    then show ?thesis using ov(2) by simp
  next
    case (some raw norm hits conf meta q)
    have "e \<in> set (map (\<lambda>h. contract_edge p rule (nd_id h) norm (edge_confidence p (eligible_hits p rule hits) conf) (edge_meta p rule meta))
        (eligible_hits p rule hits))"
      using ov(2) unfolding some(3) by (simp split: if_splits)
    then obtain c where c: "c \<in> set (eligible_hits p rule hits)"
      "e = contract_edge p rule (nd_id c) norm (edge_confidence p (eligible_hits p rule hits) conf) (edge_meta p rule meta)"
      unfolding set_map by (rule imageE)
    then have h: "c \<in> set hits" "hits \<noteq> []" by (auto simp: eligible_sub)
    from own_index_hits [OF some(2) h(2)] h(1) obtain t ck where t: "t \<in> set (ru_match rule)" "conf = tier_confidence t"
      "c \<in> set (candidates rule consumers p)" "consumer_keys (ru_consumer rule) ?norms ?env c = Some ck" "tier_agrees t (raw, norm) ck" by blast
    have "candidate_ok rule p c" using candidates_sub [OF t(3)] c(1) by (simp add: candidate_ok_def eligible_sub)
    moreover have "ov \<in> set (producer_overrides rule p)" using ov(1) assms(2) by (simp add: producer_overrides_def has_candidates_def Let_def)
    moreover have "producer_keys p rule ?norms ?env ov = Some (raw, norm)" using some(1) by (simp add: usable_def)
    moreover have "c \<in> set consumers" using candidates_sub [OF t(3)] by simp
    ultimately show ?thesis
      using t assms(2) edge_confidence_le by (intro bexI [of _ c] justifiedI [of rule p c e ov t links "(raw, norm)" ck]) (simp_all add: c(2))
  qed
qed

lemma candidate_edges_justified:
  assumes "e \<in> set (matchProducerWithKeyOverride p rule (rule_norms rule) (own_env rule links p) (own_index rule links consumers p)
      (findDynamicKeyField p (ru_producer rule)) k)" "k \<in> set (ParseKeyCandidates (meta_get (nd_meta p) ''key_candidates''))"
  shows "\<exists>c \<in> set consumers. justified rule links p c e"
proof -
  let ?ix = "own_index rule links consumers p" and ?norms = "rule_norms rule" and ?env = "own_env rule links p"
  let ?base = "if findDynamicKeyField p (ru_producer rule) \<noteq> [] then [findDynamicKeyField p (ru_producer rule) \<mapsto> k] else Map.empty"
  have hc: "has_candidates p" using assms(2) by (auto simp: has_candidates_def)
  obtain m where m: "m \<in> set (candidateMethodOverrides p (ru_producer rule))" "e \<in> set (candidate_edges p rule ?norms ?env ?ix (mergeOverrides ?base m))"
    using first_edges_in [OF assms(1) [unfolded matchProducerWithKeyOverride_def Let_def]] by blast
  obtain raw norm where pk: "producer_keys p rule ?norms ?env (mergeOverrides ?base m) = Some (raw, norm)"
  proof (cases "producer_keys p rule ?norms ?env (mergeOverrides ?base m)")
    case None
    then show ?thesis using m(2) unfolding candidate_edges_def None by simp
  next
    case (Some pk)
    then show ?thesis by (cases pk) (simp add: that)
  qed
  obtain hits conf meta q where fm: "findMatches raw norm (ru_match rule) ?ix = (hits, conf, meta, q)" by (metis prod_cases4)
  from m(2) obtain c where c: "c \<in> set (eligible_hits p rule hits)"
    "e = contract_edge p rule (nd_id c) norm ConfidenceInferred ([''confidence'' \<mapsto> ConfidenceInferred, ''via'' \<mapsto> ''branch_enum''] ++ meta)"
    unfolding candidate_edges_def pk option.case prod.case fm Let_def set_map by (rule imageE)
  then have h: "c \<in> set hits" "hits \<noteq> []" by (auto simp: eligible_sub)
  from own_index_hits [OF fm h(2)] h(1) obtain t ck where t: "t \<in> set (ru_match rule)"
    "c \<in> set (candidates rule consumers p)" "consumer_keys (ru_consumer rule) ?norms ?env c = Some ck" "tier_agrees t (raw, norm) ck" by blast
  have "candidate_ok rule p c" using candidates_sub [OF t(2)] c(1) by (simp add: candidate_ok_def eligible_sub)
  moreover have "mergeOverrides ?base m \<in> set (producer_overrides rule p)"
    using m(1) assms(2) by (auto simp: producer_overrides_def Let_def)
  moreover have "c \<in> set consumers" using candidates_sub [OF t(2)] by simp
  ultimately show ?thesis
    using t hc pk by (intro bexI [of _ c] justifiedI [of rule p c e "mergeOverrides ?base m" t links "(raw, norm)" ck]) (simp_all add: c(2))
qed

lemma found_edges_justified:
  assumes "e \<in> set (found_edges rule links consumers p)"
  shows "\<exists>c \<in> set consumers. justified rule links p c e"
  using assms matchProducer_justified candidate_edges_justified
  by (auto simp: found_edges_def producer_edges_def Let_def has_candidates_def split: if_splits)

section \<open>Completeness\<close>

text \<open>
  A producer that found nothing: no key it may use and no consumer it may reach agree on any tier.
  Weak path evidence is excepted, since it suppresses matches on purpose.
\<close>

lemma found_none:
  assumes "found_edges rule links consumers p = []" "\<not> is_dynamic_key p" "\<not> has_candidates p" "\<not> weak p" "prefiltered rule"
    and "ov \<in> set (producer_overrides rule p)" "usable p rule (rule_norms rule) (own_env rule links p) ov pk"
    and "c \<in> set consumers" "candidate_ok rule p c" "consumer_keys (ru_consumer rule) (rule_norms rule) (own_env rule links p) c = Some ck"
    and "t \<in> set (ru_match rule)"
  shows "\<not> tier_agrees t pk ck"
proof -
  let ?ix = "own_index rule links consumers p" and ?norms = "rule_norms rule" and ?env = "own_env rule links p"
  have none: "matchProducer p rule ?norms ?env ?ix = []"
    using assms(1,2,3) by (simp add: found_edges_def producer_edges_def has_candidates_def)
  have ov: "ov \<in> set (candidateMethodOverrides p (ru_producer rule))"
    using assms(3,6) by (simp add: producer_overrides_def has_candidates_def Let_def)
  show ?thesis
  proof (cases rule: own_index_cases [of rule links consumers p])
    case all
    have "eligible_hits p rule (hits_of rule ?ix pk) = []"
      using matchProducer_empty [OF assms(4) none ov] override_edges_empty [OF assms(4)] assms(7) by blast
    moreover have "set (eligible_hits p rule (hits_of rule ?ix pk)) = set (hits_of rule ?ix pk)"
    proof -
      obtain hits conf meta q where fm: "findMatches (fst pk) (snd pk) (ru_match rule) ?ix = (hits, conf, meta, q)" by (metis prod_cases4)
      have "sameServiceAllowed (eg_sameService (ru_edge rule)) p h" if "h \<in> set hits" for h
      proof -
        have "hits \<noteq> []" using that by auto
        from own_index_hits [OF fm this] that have "h \<in> set (candidates rule consumers p)" by blast
        then show ?thesis using candidates_ok [OF assms(5)] by (simp add: candidate_ok_def)
      qed
      then show ?thesis by (auto simp: hits_of_def fm eligible_sub)
    qed
    ultimately have "hits_of rule ?ix pk = []" by simp
    moreover have "c \<in> set (candidates rule consumers p)" using candidates_ok [OF assms(5)] assms(8,9) by blast
    ultimately show ?thesis
      using built.findMatches_none [of "fst pk" "snd pk" "ru_match rule" "candidates rule consumers p" "ru_consumer rule" ?norms ?env t c ck] assms(10,11)
      by (simp add: hits_of_def all)
  next
    case own
    then show ?thesis using none by simp
  qed
qed

section \<open>Fan-out\<close>

text \<open>The edges of a producer without key candidates go to one list of consumers, at one confidence.\<close>

lemma found_shape:
  assumes "\<not> has_candidates p"
  shows "\<exists>hits conf. set hits \<subseteq> set consumers \<and> map ed_to (found_edges rule links consumers p) = map nd_id hits
     \<and> (\<forall>e \<in> set (found_edges rule links consumers p). ed_confidence e = edge_confidence p hits conf)
     \<and> (weak p \<longrightarrow> distinctTargetServices hits \<le> 1)"
proof (cases "found_edges rule links consumers p = []")
  case True
  then show ?thesis by (intro exI [of _ "[]"]) (simp add: distinctTargetServices_def)
next
  case False
  let ?ix = "own_index rule links consumers p" and ?norms = "rule_norms rule" and ?env = "own_env rule links p"
  have m: "found_edges rule links consumers p = matchProducer p rule ?norms ?env ?ix"
    using assms False by (auto simp: found_edges_def producer_edges_def has_candidates_def)
  then obtain ov where ov: "found_edges rule links consumers p = override_edges p rule ?norms ?env ?ix ov"
    using matchProducer_override [of p rule ?norms ?env ?ix] False by auto
  show ?thesis
  proof (cases rule: override_edges_cases [of p rule ?norms ?env ?ix ov])
    case none
    then show ?thesis using False ov by simp
  next
    case (some raw norm hits conf meta q)
    then have ng: "\<not> (weak p \<and> distinctTargetServices (eligible_hits p rule hits) > 1)" using False ov by (auto split: if_splits)
    have f: "found_edges rule links consumers p = map (\<lambda>h. contract_edge p rule (nd_id h) norm
        (edge_confidence p (eligible_hits p rule hits) conf) (edge_meta p rule meta)) (eligible_hits p rule hits)"
      unfolding ov some(3) by (rule if_not_P [OF ng])
    have "hits \<noteq> []" using False f by (auto simp: eligible_hits_def)
    from own_index_hits [OF some(2) this] have "set (eligible_hits p rule hits) \<subseteq> set consumers"
      using candidates_sub by (fastforce simp: eligible_sub)
    then show ?thesis using ng by (intro exI [of _ "eligible_hits p rule hits"] exI [of _ conf]) (auto simp: f o_def)
  qed
qed

lemma fan_out_partial:
  assumes "distinctTargetServices hits > 1" "meta_get (nd_meta p) ''confidence_ceiling'' \<noteq> ConfidenceUnknown"
  shows "edge_confidence p hits conf = ConfidencePartial"
proof -
  have "ConfidenceRank c < ConfidenceRank ConfidencePartial \<longleftrightarrow> c = ConfidenceUnknown" for c
    by (simp add: ConfidenceRank_def)
  then show ?thesis using assms by (simp add: edge_confidence_def capConfidence_def)
qed

end
