(* ===== verification/Call_Sites.thy ===== *)
theory Call_Sites
  imports Contract_Engine
begin

text \<open>
  \<open>dedupeProducers\<close>: of the producers that describe one call site, exactly the first one with the most
  evidence is kept, in the order of the input.
\<close>

definition best_of_site :: "endpointSpec \<Rightarrow> node list \<Rightarrow> nat \<Rightarrow> nat \<Rightarrow> bool" where
  "best_of_site spec ps m i \<longleftrightarrow> (\<forall>j < m. siteKey spec (ps ! j) = siteKey spec (ps ! i) \<longrightarrow>
     producerEvidenceScore (ps ! j) < producerEvidenceScore (ps ! i)
     \<or> producerEvidenceScore (ps ! j) = producerEvidenceScore (ps ! i) \<and> i \<le> j)"

definition dedupe_inv :: "endpointSpec \<Rightarrow> node list \<Rightarrow> nat \<Rightarrow> (string \<rightharpoonup> nat) \<times> bool list \<Rightarrow> bool" where
  "dedupe_inv spec ps m s \<longleftrightarrow> length (snd s) = length ps
     \<and> (\<forall>k. fst s k = None \<longleftrightarrow> (\<forall>i < m. siteKey spec (ps ! i) \<noteq> k))
     \<and> (\<forall>k i. fst s k = Some i \<longrightarrow> i < m \<and> siteKey spec (ps ! i) = k \<and> best_of_site spec ps m i)
     \<and> (\<forall>i < length ps. snd s ! i \<longleftrightarrow> i < m \<and> best_of_site spec ps m i)"

lemma best_of_site_Suc:
  "best_of_site spec ps (Suc m) i \<longleftrightarrow> best_of_site spec ps m i
     \<and> (siteKey spec (ps ! m) = siteKey spec (ps ! i) \<longrightarrow> producerEvidenceScore (ps ! m) < producerEvidenceScore (ps ! i)
         \<or> producerEvidenceScore (ps ! m) = producerEvidenceScore (ps ! i) \<and> i \<le> m)"
  unfolding best_of_site_def less_Suc_eq by blast

lemma best_of_site_unique:
  assumes "best_of_site spec ps m i" "best_of_site spec ps m j" "i < m" "j < m" "siteKey spec (ps ! i) = siteKey spec (ps ! j)"
  shows "i = j"
  using assms unfolding best_of_site_def by (metis le_antisym less_asym less_irrefl)

lemma dedupe_step_inv:
  assumes inv: "dedupe_inv spec ps m s" and m: "m < length ps"
  shows "dedupe_inv spec ps (Suc m) (dedupe_step spec ps m s)"
proof -
  let ?k = "siteKey spec (ps ! m)"
  have i: "length (snd s) = length ps" "\<And>k. fst s k = None \<longleftrightarrow> (\<forall>i < m. siteKey spec (ps ! i) \<noteq> k)"
    "\<And>k i. fst s k = Some i \<Longrightarrow> i < m \<and> siteKey spec (ps ! i) = k \<and> best_of_site spec ps m i"
    "\<And>i. i < length ps \<Longrightarrow> snd s ! i \<longleftrightarrow> i < m \<and> best_of_site spec ps m i"
    using inv unfolding dedupe_inv_def by blast+
  have other: "best_of_site spec ps (Suc m) j \<longleftrightarrow> best_of_site spec ps m j" if "siteKey spec (ps ! j) \<noteq> ?k" for j
    using that by (auto simp: best_of_site_Suc)
  have othersome: "j < Suc m \<and> siteKey spec (ps ! j) = k \<and> best_of_site spec ps (Suc m) j" if "fst s k = Some j" "k \<noteq> ?k" for k j
    using i(3) [OF that(1)] that(2) other [of j] by auto
  show ?thesis
  proof (cases "fst s ?k")
    case None
    then have fresh: "\<And>j. j < m \<Longrightarrow> siteKey spec (ps ! j) \<noteq> ?k" using i(2) by blast
    then have bm: "best_of_site spec ps (Suc m) m" by (auto simp: best_of_site_def less_Suc_eq)
    have st: "dedupe_step spec ps m s = ((fst s)(?k \<mapsto> m), (snd s)[m := True])" using None by (simp add: dedupe_step_def Let_def)
    show ?thesis
      unfolding st dedupe_inv_def fst_conv snd_conv
    proof (intro conjI allI impI)
      fix k show "((fst s)(?k \<mapsto> m)) k = None \<longleftrightarrow> (\<forall>i < Suc m. siteKey spec (ps ! i) \<noteq> k)" using i(2) [of k] by (auto simp: less_Suc_eq)
    next
      fix k j assume "((fst s)(?k \<mapsto> m)) k = Some j"
      then show "j < Suc m" "siteKey spec (ps ! j) = k" "best_of_site spec ps (Suc m) j"
        using othersome [of k j] bm by (auto split: if_splits)
    next
      fix j assume "j < length ps"
      then show "(snd s)[m := True] ! j \<longleftrightarrow> j < Suc m \<and> best_of_site spec ps (Suc m) j"
        using i(1,4) bm other [of j] fresh [of j] by (cases "j = m") auto
    qed (simp add: i(1))
  next
    case (Some prev)
    note p = i(3) [OF Some]
    show ?thesis
    proof (cases "producerEvidenceScore (ps ! prev) < producerEvidenceScore (ps ! m)")
      case True
      have bm: "best_of_site spec ps (Suc m) m"
        unfolding best_of_site_Suc
      proof (intro conjI impI)
        show "best_of_site spec ps m m"
          unfolding best_of_site_def
        proof (intro allI impI disjI1)
          fix j assume "j < m" "siteKey spec (ps ! j) = siteKey spec (ps ! m)"
          then have "producerEvidenceScore (ps ! j) \<le> producerEvidenceScore (ps ! prev)"
            using p unfolding best_of_site_def by fastforce
          then show "producerEvidenceScore (ps ! j) < producerEvidenceScore (ps ! m)" using True by simp
        qed
      qed simp
      have lost: "\<not> best_of_site spec ps (Suc m) j" if "j < m" "siteKey spec (ps ! j) = ?k" for j
        using that bm best_of_site_unique [of spec ps "Suc m" j m] by auto
      have st: "dedupe_step spec ps m s = ((fst s)(?k \<mapsto> m), (snd s)[prev := False, m := True])" using Some True by (simp add: dedupe_step_def Let_def)
      show ?thesis
        unfolding st dedupe_inv_def fst_conv snd_conv
      proof (intro conjI allI impI)
        fix k show "((fst s)(?k \<mapsto> m)) k = None \<longleftrightarrow> (\<forall>i < Suc m. siteKey spec (ps ! i) \<noteq> k)" using i(2) [of k] by (auto simp: less_Suc_eq)
      next
        fix k j assume "((fst s)(?k \<mapsto> m)) k = Some j"
        then show "j < Suc m" "siteKey spec (ps ! j) = k" "best_of_site spec ps (Suc m) j"
          using othersome [of k j] bm by (auto split: if_splits)
      next
        fix j assume j: "j < length ps"
        show "(snd s)[prev := False, m := True] ! j \<longleftrightarrow> j < Suc m \<and> best_of_site spec ps (Suc m) j"
        proof (cases "siteKey spec (ps ! j) = ?k")
          case True
          have "j < m \<Longrightarrow> snd s ! j \<Longrightarrow> j = prev"
            using i(4) [OF j] p best_of_site_unique [of spec ps m j prev] True by auto
          moreover have "(snd s)[prev := False, m := True] ! j \<longleftrightarrow> j = m \<or> j \<noteq> prev \<and> snd s ! j"
            using i(1) m j p by (simp add: nth_list_update)
          moreover have "snd s ! j \<Longrightarrow> j < m" using i(4) [OF j] by simp
          ultimately show ?thesis using lost [of j] True bm by (auto simp: less_Suc_eq)
        next
          case False
          then have "j \<noteq> m" "j \<noteq> prev" using p by auto
          then show ?thesis using i(4) [OF j] other [OF False] by auto
        qed
      qed (simp add: i(1))
    next
      case False
      have st: "dedupe_step spec ps m s = s" using Some False by (simp add: dedupe_step_def Let_def)
      have not: "\<not> best_of_site spec ps (Suc m) m" using p False unfolding best_of_site_def by (metis less_Suc_eq not_le)
      have keep: "best_of_site spec ps (Suc m) j \<longleftrightarrow> best_of_site spec ps m j" if "j < m" for j
      proof (cases "siteKey spec (ps ! j) = ?k")
        case True
        have "j = prev" if "best_of_site spec ps m j"
          using that best_of_site_unique [of spec ps m j prev] \<open>j < m\<close> p True by auto
        then show ?thesis using False that by (auto simp: best_of_site_Suc)
      qed (rule other)
      show ?thesis
        unfolding st dedupe_inv_def
      proof (intro conjI allI impI)
        fix k show "fst s k = None \<longleftrightarrow> (\<forall>i < Suc m. siteKey spec (ps ! i) \<noteq> k)" using i(2) [of k] Some by (auto simp: less_Suc_eq)
      next
        fix k j assume "fst s k = Some j"
        then show "j < Suc m" "siteKey spec (ps ! j) = k" "best_of_site spec ps (Suc m) j" using i(3) [of k j] keep [of j] by auto
      next
        fix j assume "j < length ps"
        then show "snd s ! j \<longleftrightarrow> j < Suc m \<and> best_of_site spec ps (Suc m) j" using i(4) [of j] keep [of j] not by (auto simp: less_Suc_eq)
      qed (simp add: i(1))
    qed
  qed
qed

lemma dedupe_fold_inv: "m \<le> length ps \<Longrightarrow> dedupe_inv spec ps m (fold (dedupe_step spec ps) [0..<m] (Map.empty, replicate (length ps) False))"
proof (induction m)
  case (Suc m)
  then show ?case using dedupe_step_inv [of spec ps m] by simp
qed (simp add: dedupe_inv_def)

lemma kept_by_index:
  assumes "length keep = length ps"
  shows "map fst (filter snd (zip ps keep)) = map ((!) ps) (filter ((!) keep) [0..<length ps])"
proof -
  have "zip ps keep = map (\<lambda>i. (ps ! i, keep ! i)) [0..<length ps]" by (rule nth_equalityI) (simp_all add: assms)
  then show ?thesis by (simp add: filter_map o_def)
qed

lemma dedupe_exact:
  "dedupeProducers ps spec = map ((!) ps) (filter (best_of_site spec ps (length ps)) [0..<length ps])"
proof (cases "length ps < 2")
  case True
  then have "best_of_site spec ps (length ps) i" if "i < length ps" for i
  proof -
    have "j = i" if "j < length ps" for j using True that \<open>i < length ps\<close> by linarith
    then show ?thesis by (auto simp: best_of_site_def)
  qed
  then have "filter (best_of_site spec ps (length ps)) [0..<length ps] = [0..<length ps]" by (intro filter_True) simp
  then show ?thesis using True by (simp add: dedupeProducers_def map_nth)
next
  case False
  let ?s = "fold (dedupe_step spec ps) [0..<length ps] (Map.empty, replicate (length ps) False)"
  have inv: "dedupe_inv spec ps (length ps) ?s" by (rule dedupe_fold_inv) simp
  have "dedupeProducers ps spec = map ((!) ps) (filter ((!) (snd ?s)) [0..<length ps])"
    using False kept_by_index [of "snd ?s" ps] inv by (simp add: dedupeProducers_def Let_def dedupe_inv_def)
  also have "filter ((!) (snd ?s)) [0..<length ps] = filter (best_of_site spec ps (length ps)) [0..<length ps]"
    by (rule filter_cong) (use inv in \<open>auto simp: dedupe_inv_def\<close>)
  finally show ?thesis .
qed

text \<open>Every call site keeps one of its producers.\<close>

lemma site_has_best:
  assumes "i < length ps"
  shows "\<exists>j < length ps. siteKey spec (ps ! j) = siteKey spec (ps ! i) \<and> best_of_site spec ps (length ps) j
    \<and> producerEvidenceScore (ps ! i) \<le> producerEvidenceScore (ps ! j)"
proof -
  let ?s = "fold (dedupe_step spec ps) [0..<length ps] (Map.empty, replicate (length ps) False)"
  have inv: "dedupe_inv spec ps (length ps) ?s" by (rule dedupe_fold_inv) simp
  then have "fst ?s (siteKey spec (ps ! i)) \<noteq> None" using assms unfolding dedupe_inv_def by blast
  then obtain j where "fst ?s (siteKey spec (ps ! i)) = Some j" by blast
  then have j: "j < length ps" "siteKey spec (ps ! j) = siteKey spec (ps ! i)" "best_of_site spec ps (length ps) j"
    using inv unfolding dedupe_inv_def by blast+
  then have "producerEvidenceScore (ps ! i) \<le> producerEvidenceScore (ps ! j)"
    using assms unfolding best_of_site_def by (metis less_imp_le order_refl)
  then show ?thesis using j by blast
qed

text \<open>
  Of the producers that share a call site (service, file, line and key) exactly one is kept, the
  first with the highest evidence score; the rest go, the order stays, and no site loses its last
  producer.
\<close>

theorem dedupe_keeps_best:
  "dedupeProducers ps spec = map ((!) ps) (filter (\<lambda>i. \<forall>j < length ps. siteKey spec (ps ! j) = siteKey spec (ps ! i) \<longrightarrow>
       producerEvidenceScore (ps ! j) < producerEvidenceScore (ps ! i)
       \<or> producerEvidenceScore (ps ! j) = producerEvidenceScore (ps ! i) \<and> i \<le> j) [0..<length ps])
    \<and> siteKey spec ` set (dedupeProducers ps spec) = siteKey spec ` set ps
    \<and> distinct (map (siteKey spec) (dedupeProducers ps spec))"
proof (intro conjI)
  let ?I = "filter (best_of_site spec ps (length ps)) [0..<length ps]"
  show "dedupeProducers ps spec = map ((!) ps) (filter (\<lambda>i. \<forall>j < length ps. siteKey spec (ps ! j) = siteKey spec (ps ! i) \<longrightarrow>
       producerEvidenceScore (ps ! j) < producerEvidenceScore (ps ! i)
       \<or> producerEvidenceScore (ps ! j) = producerEvidenceScore (ps ! i) \<and> i \<le> j) [0..<length ps])"
    unfolding dedupe_exact best_of_site_def ..
  show "siteKey spec ` set (dedupeProducers ps spec) = siteKey spec ` set ps"
  proof
    show "siteKey spec ` set ps \<subseteq> siteKey spec ` set (dedupeProducers ps spec)"
    proof
      fix k assume "k \<in> siteKey spec ` set ps"
      then obtain i where "i < length ps" "k = siteKey spec (ps ! i)" by (auto simp: in_set_conv_nth)
      then obtain j where "j < length ps" "siteKey spec (ps ! j) = k" "best_of_site spec ps (length ps) j"
        using site_has_best [of i ps spec] by auto
      then show "k \<in> siteKey spec ` set (dedupeProducers ps spec)" by (auto simp: dedupe_exact)
    qed
  qed (auto simp: dedupe_exact)
  have "inj_on (\<lambda>i. siteKey spec (ps ! i)) (set ?I)"
    by (rule inj_onI) (use best_of_site_unique in auto)
  then show "distinct (map (siteKey spec) (dedupeProducers ps spec))" by (simp add: dedupe_exact distinct_map o_def)
qed

definition site_nodes :: "node list" where
  "site_nodes = map (\<lambda>(v, meta). \<lparr>nd_id = v, nd_type = ''c'', nd_label = v, nd_service = ''w'', nd_file = ''f'', nd_line = 1, nd_endLine = 1,
     nd_language = ''go'', nd_meta = map_of meta\<rparr>) [(''a'', [(''path'', ''/x'')]), (''b'', [(''path'', ''/x''), (''path_evidence'', ''weak'')]), (''c'', [])]"

definition site_spec :: endpointSpec where
  "site_spec = \<lparr>es_node = ''c'', es_where = [], es_notWhere = [], es_key = [''path''], es_keyFallbacks = [], es_methodFallback = [],
     es_targetServiceMeta = [], es_sameOriginRelative = False, es_browserSameOrigin = False\<rparr>"

theorem dedupe_keeps_best_witness:
  "map nd_id (dedupeProducers site_nodes site_spec) = [''b'', ''c''] \<and> distinct (map (siteKey site_spec) (dedupeProducers site_nodes site_spec))"
proof
  show "map nd_id (dedupeProducers site_nodes site_spec) = [''b'', ''c'']" by code_simp
  show "distinct (map (siteKey site_spec) (dedupeProducers site_nodes site_spec))"
    using dedupe_keeps_best [of site_nodes site_spec] by blast
qed

end
