(* ===== verification/Contract_Props.thy ===== *)
theory Contract_Props
  imports Contract_Edges Call_Sites
begin

text \<open>
  The properties of the contract engine, with small graphs on which they apply, and the inputs on
  which the engine departs from its comments.
\<close>

section \<open>Small graphs\<close>

definition mini_node :: "string \<Rightarrow> string \<Rightarrow> string \<Rightarrow> (string \<times> string) list \<Rightarrow> node" where
  "mini_node v ty svc meta = \<lparr>nd_id = v, nd_type = ty, nd_label = v, nd_service = svc, nd_file = ''f'', nd_line = 1,
     nd_endLine = 1, nd_language = ''go'', nd_meta = map_of meta\<rparr>"

definition mini_spec :: "string \<Rightarrow> string list \<Rightarrow> endpointSpec" where
  "mini_spec ty ks = \<lparr>es_node = ty, es_where = [], es_notWhere = [], es_key = ks, es_keyFallbacks = [], es_methodFallback = [],
     es_targetServiceMeta = [], es_sameOriginRelative = False, es_browserSameOrigin = False\<rparr>"

definition mini_rule :: "string list \<Rightarrow> string list \<Rightarrow> matchTier list \<Rightarrow> contractRule" where
  "mini_rule ks norms tiers = \<lparr>ru_kind = ''http'', ru_package = [], ru_versionRange = [], ru_producer = mini_spec ''c'' ks,
     ru_consumer = mini_spec ''h'' ks, ru_normalizers = norms, ru_match = tiers,
     ru_edge = \<lparr>eg_type = ''call'', eg_idPrefix = ''l'', eg_sameService = ''keep'', eg_viaMeta = []\<rparr>, ru_unmatched = UnmatchedUnknownEdge\<rparr>"

definition mini_links :: "node list \<Rightarrow> contractRule \<Rightarrow> (string \<times> string \<times> string) list" where
  "mini_links ns rule = (case Link ns [rule] [] of Inr r \<Rightarrow> map (\<lambda>e. (ed_from e, ed_to e, ed_confidence e)) (lr_edges r) | Inl _ \<Rightarrow> [])"

definition path_rule :: contractRule where
  "path_rule = mini_rule [''path''] [''param_wildcard''] [TierExact, TierNormalized, TierWildcardAnchored]"

definition path_nodes :: "node list" where
  "path_nodes = [mini_node ''p'' ''c'' ''w'' [(''path'', ''/u/%d'')], mini_node ''a'' ''h'' ''a'' [(''path'', ''/u/:i'')],
     mini_node ''q'' ''c'' ''w'' [(''path'', ''/z'')]]"

lemma path_links: "mini_links path_nodes path_rule = [(''p'', ''a'', ConfidenceInferred), (''q'', ''unresolved'', ConfidenceUnknown)]"
  by code_simp

section \<open>Departures\<close>

text \<open>
  A key that comes from \<open>key_candidates\<close> bypasses the guard against ambiguous fan-out: the edges to two
  services keep confidence inferred, so a specification verifies both.
\<close>

definition fan_nodes :: "node list" where
  "fan_nodes = [mini_node ''p'' ''c'' ''w'' [(''key_candidates'', MarshalKeyCandidates [''/x''])],
     mini_node ''a'' ''h'' ''a'' [(''path'', ''/x'')], mini_node ''b'' ''h'' ''b'' [(''path'', ''/x'')]]"

lemma candidate_fan_out_unguarded:
  "mini_links fan_nodes path_rule = [(''p'', ''a'', ConfidenceInferred), (''p'', ''b'', ConfidenceInferred)]
   \<and> computeState [static_source ConfidenceInferred [] [] [], (static_source [] [] [] [])\<lparr>sr_provider := PContract\<rparr>] = StateVerified"
  by code_simp

text \<open>The same producer with a plain key gets partial edges, which a specification cannot verify.\<close>

lemma plain_fan_out_guarded:
  "mini_links (mini_node ''p'' ''c'' ''w'' [(''path'', ''/x'')] # tl fan_nodes) path_rule = [(''p'', ''a'', ConfidencePartial), (''p'', ''b'', ConfidencePartial)]"
  by code_simp

text \<open>A candidate that is matched on the exchange alone is stamped inferred, not partial.\<close>

definition topic_rule :: contractRule where
  "topic_rule = mini_rule [''exchange'', ''key''] [] [TierExchangeOnly]"

definition topic_nodes :: "node list" where
  "topic_nodes = [mini_node ''p'' ''c'' ''w'' [(''exchange'', ''e''), (''key_candidates'', MarshalKeyCandidates [''#''])],
     mini_node ''a'' ''h'' ''a'' [(''exchange'', ''e''), (''key'', ''k'')]]"

lemma exchange_candidate_inferred: "mini_links topic_nodes topic_rule = [(''p'', ''a'', ConfidenceInferred)]"
  by code_simp

text \<open>A client whose path is unknown meets a handler that is registered under the empty path, guard or no guard.\<close>

definition empty_rule :: contractRule where
  "empty_rule = mini_rule [''method'', ''path''] [''trim_slash'', ''empty_path_guard''] [TierExact, TierNormalized]"

lemma empty_paths_meet:
  "mini_links [mini_node ''p'' ''c'' ''w'' [(''method'', ''G'')], mini_node ''a'' ''h'' ''a'' [(''method'', ''G''), (''path'', [])]] empty_rule
     = [(''p'', ''a'', ConfidenceStatic)]"
  by code_simp

text \<open>A ceiling below partial takes the mark of ambiguity off again, and a specification verifies the edge.\<close>

lemma unknown_ceiling_verifies:
  "mini_links (mini_node ''p'' ''c'' ''w'' [(''path'', ''/x''), (''confidence_ceiling'', ConfidenceUnknown)] # tl fan_nodes) path_rule
     = [(''p'', ''a'', ConfidenceUnknown), (''p'', ''b'', ConfidenceUnknown)]
   \<and> computeState [static_source ConfidenceUnknown [] [] [], (static_source [] [] [] [])\<lparr>sr_provider := PContract\<rparr>] = StateVerified"
  by code_simp

section \<open>Properties\<close>

text \<open>A rule set that the loader accepts, over nodes whose target services hold no NUL.\<close>

definition rules_load :: "node list \<Rightarrow> contractRule list \<Rightarrow> bool" where
  "rules_load ns rules \<longleftrightarrow> (\<forall>rule \<in> set rules. validateRule rule = None)
     \<and> (\<forall>rule \<in> set rules. \<forall>p \<in> set (rule_producers ns rule). nul \<notin> set (target_service rule p))"

lemma loadable_links: "rules_load ns rules \<Longrightarrow> Link ns rules links = Inr (Link_reference ns rules links)"
  by (rule Link_is_reference) (simp_all add: rules_load_def apart_def)

lemma rule_producers_in: "p \<in> set (rule_producers ns rule) \<Longrightarrow> p \<in> set ns \<and> admits (ru_producer rule) p"
proof -
  assume "p \<in> set (rule_producers ns rule)"
  then have "p \<in> set (fst (partitionNodes ns rule))" by (auto simp: rule_producers_def dedupe_exact)
  then show ?thesis by (simp add: partitionNodes_def)
qed

lemma rule_consumers_in: "c \<in> set (rule_consumers ns rule) \<longleftrightarrow> c \<in> set ns \<and> admits (ru_consumer rule) c"
  by (simp add: rule_consumers_def partitionNodes_def)

lemma producer_represented:
  assumes "p \<in> set ns" "admits (ru_producer rule) p"
  obtains q where "q \<in> set (rule_producers ns rule)" "siteKey (ru_producer rule) q = siteKey (ru_producer rule) p"
    "producerEvidenceScore p \<le> producerEvidenceScore q"
proof -
  let ?ps = "fst (partitionNodes ns rule)"
  have "p \<in> set ?ps" using assms by (simp add: partitionNodes_def)
  then obtain i where i: "i < length ?ps" "p = ?ps ! i" by (auto simp: in_set_conv_nth)
  obtain j where "j < length ?ps" "siteKey (ru_producer rule) (?ps ! j) = siteKey (ru_producer rule) p"
    "best_of_site (ru_producer rule) ?ps (length ?ps) j" "producerEvidenceScore p \<le> producerEvidenceScore (?ps ! j)"
    using site_has_best [OF i(1), of "ru_producer rule"] i(2) by blast
  then show ?thesis by (intro that [of "?ps ! j"]) (auto simp: rule_producers_def dedupe_exact)
qed

lemma contributes:
  assumes "rule \<in> set rules" "q \<in> set (rule_producers ns rule)"
  shows "set (f rule (rule_consumers ns rule) q) \<subseteq> set (over_rules ns rules f)"
  unfolding over_rules_def using assms by fastforce

lemma mini_loadable: "rules_load ns [mini_rule ks norms tiers]" if "validateRule (mini_rule ks norms tiers) = None"
  using that by (simp add: rules_load_def target_service_def mini_rule_def mini_spec_def)

lemma path_loadable: "rules_load ns [path_rule]"
  unfolding path_rule_def by (rule mini_loadable) code_simp

text \<open>
  C8: the linking pass computes its reference: loading checks keep it from panicking, its cache of
  candidate sets is transparent, and its result is the contributions of the kept producers, rule by
  rule and in node order, with one synthetic node for each unresolved target service in the order of
  first need.
\<close>

theorem link_computes_contributions:
  assumes "\<forall>rule \<in> set rules. validateRule rule = None"
    and "\<forall>rule \<in> set rules. \<forall>p \<in> set (rule_producers ns rule). nul \<notin> set (target_service rule p)"
  shows "Link ns rules links = Inr
     \<lparr>lr_edges = over_rules ns rules (\<lambda>rule. given_edges rule links),
      lr_nodes = map synth_node (firsts (over_rules ns rules (\<lambda>rule. given_targets rule links))),
      lr_unresolved = over_rules ns rules (\<lambda>rule. given_refs rule links)\<rparr>"
  using loadable_links [of ns rules links] assms by (simp add: rules_load_def Link_reference_def)

theorem link_computes_contributions_witness:
  "\<exists>r. Link path_nodes [path_rule] [] = Inr r \<and> lr_edges r = over_rules path_nodes [path_rule] (\<lambda>rule. given_edges rule [])"
proof -
  have "rules_load path_nodes [path_rule]" by (rule path_loadable)
  then have "\<forall>rule \<in> set [path_rule]. validateRule rule = None"
    "\<forall>rule \<in> set [path_rule]. \<forall>p \<in> set (rule_producers path_nodes rule). nul \<notin> set (target_service rule p)"
    unfolding rules_load_def by blast+
  note run = link_computes_contributions [OF this, of "[]"]
  show ?thesis unfolding run by simp
qed

text \<open>
  C9: every edge of the result is justified. It joins an admitted producer to an admitted consumer that
  the service policies allow, their keys agree on a tier of the rule under one of the producer's
  overrides, the label is the producer's normalized key, and its confidence does not exceed that of the
  tier (or is inferred, for candidate keys); or it is the placeholder of a producer that found nothing.
\<close>

theorem link_edges_justified:
  assumes "rules_load ns rules" "Link ns rules links = Inr r" "e \<in> set (lr_edges r)"
  shows "\<exists>rule \<in> set rules. \<exists>p \<in> set ns. admits (ru_producer rule) p \<and>
     ((\<exists>c \<in> set ns. admits (ru_consumer rule) c \<and> justified rule links p c e)
      \<or> (e = unknown_edge rule p \<and> ru_unmatched rule = UnmatchedUnknownEdge \<and> found_edges rule links (rule_consumers ns rule) p = []))"
proof -
  have "r = Link_reference ns rules links" using loadable_links [OF assms(1), of links] assms(2) by simp
  then have "e \<in> set (over_rules ns rules (\<lambda>rule. given_edges rule links))" using assms(3) by (simp add: Link_reference_def)
  then obtain rule p where rp: "rule \<in> set rules" "p \<in> set (rule_producers ns rule)" "e \<in> set (given_edges rule links (rule_consumers ns rule) p)"
    unfolding over_rules_set by blast
  note p = rule_producers_in [OF rp(2)]
  show ?thesis
  proof (cases "e \<in> set (found_edges rule links (rule_consumers ns rule) p)")
    case True
    from found_edges_justified [OF this] show ?thesis using rp(1) p rule_consumers_in by blast
  next
    case False
    then have "e = unknown_edge rule p" "falls_through rule links (rule_consumers ns rule) UnmatchedUnknownEdge p"
      using rp(3) by (auto simp: given_edges_def split: if_splits)
    then show ?thesis using rp(1) p unfolding falls_through_def by blast
  qed
qed

theorem link_edges_justified_witness:
  "\<exists>r e. Link path_nodes [path_rule] [] = Inr r \<and> e \<in> set (lr_edges r)
    \<and> (\<exists>rule \<in> set [path_rule]. \<exists>p \<in> set path_nodes. admits (ru_producer rule) p)"
proof -
  let ?r = "Link_reference path_nodes [path_rule] []"
  have run: "Link path_nodes [path_rule] [] = Inr ?r" by (rule loadable_links [OF path_loadable])
  have "map (\<lambda>e. (ed_from e, ed_to e, ed_confidence e)) (lr_edges ?r) \<noteq> []" using path_links by (simp add: mini_links_def run)
  then have e: "hd (lr_edges ?r) \<in> set (lr_edges ?r)" by simp
  have "\<exists>rule \<in> set [path_rule]. \<exists>p \<in> set path_nodes. admits (ru_producer rule) p"
    using link_edges_justified [OF path_loadable run e] by blast
  then show ?thesis using run e by blast
qed

text \<open>
  C10: no producer is lost. For every admitted producer, the kept producer of its call site (with at
  least its evidence) is answered: a dynamic key is in the ledger under its dynamic kind, matches are
  in the result, and without a match the policy of the rule is carried out. And when nothing was found
  (without candidate keys or weak path evidence, under a policy that filters before indexing), then no
  usable key of the producer agrees with any consumer it may reach on any tier of the rule.
\<close>

theorem every_producer_answered:
  assumes "rules_load ns rules" "Link ns rules links = Inr r" "rule \<in> set rules" "p \<in> set ns" "admits (ru_producer rule) p"
  shows "\<exists>q \<in> set ns. siteKey (ru_producer rule) q = siteKey (ru_producer rule) p \<and> producerEvidenceScore p \<le> producerEvidenceScore q
    \<and> (if is_dynamic_key q
       then ledger_entry q (meta_get (nd_meta q) ''key_dynamic_raw'') (dynamicKindFor (ru_kind rule)) \<in> set (lr_unresolved r)
       else set (found_edges rule links (rule_consumers ns rule) q) \<subseteq> set (lr_edges r)
         \<and> (found_edges rule links (rule_consumers ns rule) q = [] \<longrightarrow>
              (ru_unmatched rule = UnmatchedUnknownEdge \<longrightarrow> unknown_edge rule q \<in> set (lr_edges r)
                 \<and> synth_node (target_service rule q) \<in> set (lr_nodes r))
            \<and> (ru_unmatched rule = UnmatchedLedger \<longrightarrow> ledger_entry q (raw_key rule q) (ru_kind rule) \<in> set (lr_unresolved r))
            \<and> (\<not> has_candidates q \<and> \<not> weak q \<and> prefiltered rule \<longrightarrow>
                 (\<forall>ov \<in> set (producer_overrides rule q). \<forall>pk ck. \<forall>c \<in> set ns. \<forall>t \<in> set (ru_match rule).
                    usable q rule (rule_norms rule) (own_env rule links q) ov pk \<and> admits (ru_consumer rule) c \<and> candidate_ok rule q c
                    \<and> consumer_keys (ru_consumer rule) (rule_norms rule) (own_env rule links q) c = Some ck \<longrightarrow> \<not> tier_agrees t pk ck))))"
proof -
  obtain q where q: "q \<in> set (rule_producers ns rule)" "siteKey (ru_producer rule) q = siteKey (ru_producer rule) p"
    "producerEvidenceScore p \<le> producerEvidenceScore q"
    using producer_represented [OF assms(4,5)] by blast
  have r: "r = Link_reference ns rules links" using loadable_links [OF assms(1), of links] assms(2) by simp
  let ?cs = "rule_consumers ns rule"
  have es: "set (given_edges rule links ?cs q) \<subseteq> set (lr_edges r)" and us: "set (given_refs rule links ?cs q) \<subseteq> set (lr_unresolved r)"
    unfolding r Link_reference_def linkResult.simps
    by (rule contributes [OF assms(3) q(1), of "\<lambda>rule. given_edges rule links"], rule contributes [OF assms(3) q(1), of "\<lambda>rule. given_refs rule links"])
  have ts: "synth_node ` set (given_targets rule links ?cs q) \<subseteq> set (lr_nodes r)"
    unfolding r Link_reference_def linkResult.simps set_map set_firsts
    by (rule image_mono) (rule contributes [OF assms(3) q(1), of "\<lambda>rule. given_targets rule links"])
  have none: "\<not> tier_agrees t pk ck"
    if "found_edges rule links ?cs q = []" "\<not> is_dynamic_key q" "\<not> has_candidates q \<and> \<not> weak q \<and> prefiltered rule"
      "ov \<in> set (producer_overrides rule q)" "c \<in> set ns" "t \<in> set (ru_match rule)"
      "usable q rule (rule_norms rule) (own_env rule links q) ov pk \<and> admits (ru_consumer rule) c \<and> candidate_ok rule q c
        \<and> consumer_keys (ru_consumer rule) (rule_norms rule) (own_env rule links q) c = Some ck" for ov pk ck c t
    using found_none [of rule links ?cs q ov pk c ck t] that rule_consumers_in by blast
  show ?thesis
  proof (rule bexI [of _ q], intro conjI)
    show "q \<in> set ns" using rule_producers_in [OF q(1)] by simp
  qed (use q es us ts none in \<open>auto simp: given_edges_def given_refs_def given_targets_def falls_through_def\<close>)
qed

theorem every_producer_answered_witness:
  "\<exists>q \<in> set path_nodes. siteKey (ru_producer path_rule) q = siteKey (ru_producer path_rule) (path_nodes ! 2)
     \<and> producerEvidenceScore (path_nodes ! 2) \<le> producerEvidenceScore q"
proof -
  have "path_nodes ! 2 \<in> set path_nodes" by (simp add: path_nodes_def)
  moreover have "admits (ru_producer path_rule) (path_nodes ! 2)" by code_simp
  ultimately show ?thesis
    using every_producer_answered [OF path_loadable loadable_links [OF path_loadable], of path_rule "path_nodes ! 2"]
    unfolding list.set(2) by blast
qed

text \<open>Producers that the guard against ambiguous fan-out does not cover.\<close>

definition unguarded :: "node \<Rightarrow> bool" where
  "unguarded p \<longleftrightarrow> has_candidates p \<or> meta_get (nd_meta p) ''confidence_ceiling'' = ConfidenceUnknown"

definition only_specs :: "sourceRef list \<Rightarrow> bool" where
  "only_specs ss \<longleftrightarrow> ss \<noteq> [] \<and> (\<forall>s \<in> set ss. sr_provider s = PContract)"

text \<open>What specifications make of a static edge depends on its confidence alone.\<close>

lemma spec_state:
  assumes "only_specs ss"
  shows "computeState (static_source c ref layer ru # ss) = (if c = ConfidencePartial then StateCandidate else StateVerified)"
proof -
  have "\<not> has_source [PRuntime, PConfig] (static_source c ref layer ru # ss)" "has_source [PContract] (static_source c ref layer ru # ss)"
    using assms by (cases ss; auto simp: only_specs_def has_source_def list_ex_iff static_source_def)+
  moreover have "has_source [PStatic] (static_source c ref layer ru # ss)" by (simp add: has_source_def static_source_def)
  moreover have "static_partial (static_source c ref layer ru # ss) \<longleftrightarrow> c = ConfidencePartial"
    using assms by (auto simp: only_specs_def static_partial_def static_source_def list_ex_iff)
  ultimately show ?thesis by (simp add: computeState_def Let_def)
qed

lemma targets_exist:
  assumes "\<And>e. e \<in> set es \<Longrightarrow> \<exists>c \<in> set cs. nd_id c = ed_to e"
  shows "\<exists>hits. set hits \<subseteq> set cs \<and> map ed_to es = map nd_id hits"
  using assms
proof (induction es)
  case (Cons e es)
  obtain c where "c \<in> set cs" "nd_id c = ed_to e" using Cons.prems by auto
  moreover obtain hits where "set hits \<subseteq> set cs" "map ed_to es = map nd_id hits" using Cons.IH Cons.prems by auto
  ultimately show ?case by (intro exI [of _ "c # hits"]) simp
qed simp

lemma fan_out_unknown:
  assumes "distinctTargetServices hits > 1" "meta_get (nd_meta p) ''confidence_ceiling'' = ConfidenceUnknown"
  shows "edge_confidence p hits conf = ConfidenceUnknown"
  using assms by (simp add: edge_confidence_def capConfidence_def ConfidenceRank_def ConfidenceUnknown_def ConfidencePartial_def)

text \<open>
  C11: the guard against ambiguous fan-out, from the match to the verdict, and its exact reach. The edges of a
  producer go to consumers; when these belong to several services, every edge is partial, and no specification
  verifies it, however many agree, exactly if the producer's key is written at the call site and its own ceiling is
  not unknown. The other producers are not guarded: a specification verifies each edge of their fan-out
  (\<open>candidate_fan_out_unguarded\<close>, \<open>unknown_ceiling_verifies\<close>). Weak path evidence yields no ambiguous edge of a
  written key at all.
\<close>

theorem fan_out_guard_exact:
  shows "\<exists>hits. set hits \<subseteq> set consumers \<and> map ed_to (found_edges rule links consumers p) = map nd_id hits
     \<and> (weak p \<and> \<not> has_candidates p \<longrightarrow> distinctTargetServices hits \<le> 1)
     \<and> (distinctTargetServices hits > 1 \<longrightarrow>
          (\<forall>e \<in> set (found_edges rule links consumers p). (ed_confidence e = ConfidencePartial \<longleftrightarrow> \<not> unguarded p)
             \<and> (\<forall>ref layer ru ss. only_specs ss \<longrightarrow>
                  computeState (static_source (or_candidate (ed_confidence e)) ref layer ru # ss)
                    = (if unguarded p then StateVerified else StateCandidate))))"
proof -
  let ?es = "found_edges rule links consumers p"
  have state: "(ed_confidence e = ConfidencePartial \<longleftrightarrow> \<not> unguarded p) \<and> (\<forall>ref layer ru ss. only_specs ss \<longrightarrow>
        computeState (static_source (or_candidate (ed_confidence e)) ref layer ru # ss) = (if unguarded p then StateVerified else StateCandidate))"
    if "ed_confidence e = (if has_candidates p then ConfidenceInferred
          else if meta_get (nd_meta p) ''confidence_ceiling'' = ConfidenceUnknown then ConfidenceUnknown else ConfidencePartial)" for e
    using that by (auto simp: spec_state unguarded_def or_candidate_def ConfidenceInferred_def ConfidenceUnknown_def ConfidencePartial_def)
  show ?thesis
  proof (cases "has_candidates p")
    case True
    have "\<exists>c \<in> set consumers. nd_id c = ed_to e" "ed_confidence e = ConfidenceInferred" if "e \<in> set ?es" for e
      using found_edges_justified [OF that] True unfolding justified_def by auto
    then show ?thesis using targets_exist [of ?es consumers] True state by (metis (no_types, lifting))
  next
    case False
    obtain hits conf where h: "set hits \<subseteq> set consumers" "map ed_to ?es = map nd_id hits"
      "\<forall>e \<in> set ?es. ed_confidence e = edge_confidence p hits conf" "weak p \<longrightarrow> distinctTargetServices hits \<le> 1"
      using found_shape [OF False, of consumers rule links] by blast
    have "ed_confidence e = (if has_candidates p then ConfidenceInferred
          else if meta_get (nd_meta p) ''confidence_ceiling'' = ConfidenceUnknown then ConfidenceUnknown else ConfidencePartial)"
      if "distinctTargetServices hits > 1" "e \<in> set ?es" for e
      using h(3) that fan_out_partial [OF that(1)] fan_out_unknown [OF that(1)] False by auto
    then show ?thesis using h state by (intro exI [of _ hits]) blast
  qed
qed

definition fan_plain :: node where
  "fan_plain = mini_node ''p'' ''c'' ''w'' [(''path'', ''/x'')]"

definition route_spec :: sourceRef where
  "route_spec = (static_source [] [] [] [])\<lparr>sr_provider := PContract\<rparr>"

theorem fan_out_guard_exact_witness:
  "list_all (\<lambda>e. computeState [static_source (or_candidate (ed_confidence e)) [] [] [], route_spec] = StateCandidate)
     (found_edges path_rule [] (tl fan_nodes) fan_plain) \<and> length (found_edges path_rule [] (tl fan_nodes) fan_plain) = 2"
proof -
  let ?es = "found_edges path_rule [] (tl fan_nodes) fan_plain"
  obtain hits where h: "set hits \<subseteq> set (tl fan_nodes)" "map ed_to ?es = map nd_id hits"
    "distinctTargetServices hits > 1 \<longrightarrow> (\<forall>e \<in> set ?es. \<forall>ref layer ru ss. only_specs ss \<longrightarrow>
       computeState (static_source (or_candidate (ed_confidence e)) ref layer ru # ss) = (if unguarded fan_plain then StateVerified else StateCandidate))"
    using fan_out_guard_exact [of "tl fan_nodes" path_rule "[]" fan_plain] by blast
  have ids: "map nd_id hits = [''a'', ''b'']" unfolding h(2) [symmetric] by code_simp
  then obtain a b where ab: "hits = [a, b]" "nd_id a = ''a''" "nd_id b = ''b''" by (auto simp: map_eq_Cons_conv)
  have "nd_service a = ''a''" "nd_service b = ''b''" using h(1) ab by (auto simp: fan_nodes_def mini_node_def)
  then have "distinctTargetServices hits > 1" by (simp add: ab distinctTargetServices_def)
  moreover have "\<not> unguarded fan_plain" "only_specs [route_spec]" by code_simp (simp add: only_specs_def route_spec_def)
  moreover have "length ?es = 2" by code_simp
  ultimately show ?thesis using h(3) by (simp add: list_all_iff)
qed

end
