(* ===== verification/Route_Groups.thy ===== *)
theory Route_Groups
  imports Contract_Engine "HOL-Library.Product_Lexorder"
begin

text \<open>
  Route groups (\<open>internal/contract/routegroup.go\<close>): a route that is declared inside a router group gets
  the prefix of the group put before its path. The groups and the functions that receive a group are
  collected over all nodes, the prefix chains are resolved per file, the parameters of registrar
  functions are seeded from their callers, and the routes are stamped. The last section is
  \<open>persistComposedRoutes\<close> of \<open>internal/indexer/indexer.go\<close>, which writes the composed routes back.

  \<open>sort.Slice\<close> is modelled as a stable sort; for the registrar calls the order of ties has no effect
  (\<open>seeds_least\<close>), for nested groups it would need two groups that start on one line.
\<close>

section \<open>Descriptors\<close>

record ginGroup =
  gg_varName :: string
  gg_prefix :: string
  gg_receiver :: string
  gg_line :: int

record chiGroup =
  cg_prefix :: string
  cg_line :: int
  cg_endLine :: int

record registrarFunc =
  rf_defFile :: string
  rf_param :: string

record registrarCall =
  rc_callee :: string
  rc_arg :: string
  rc_file :: string
  rc_line :: int

record groups =
  gs_gin :: "string \<rightharpoonup> ginGroup list"
  gs_chi :: "string \<rightharpoonup> chiGroup list"
  gs_funcs :: "string \<rightharpoonup> registrarFunc"
  gs_calls :: "registrarCall list"

definition NodeTypeHTTPHandler :: nodeType where "NodeTypeHTTPHandler = ''http_handler''"
definition NodeTypeRouteGroup :: nodeType where "NodeTypeRouteGroup = ''route_group''"

definition stripQuotes :: "string \<Rightarrow> string" where
  "stripQuotes s =
     (if length s \<ge> 2 \<and> hd s = last s \<and> (hd s = CHR 0x22 \<or> hd s = CHR 0x27 \<or> hd s = CHR 0x60)
      then butlast (tl s) else s)"

text \<open>\<open>fmt.Sscanf(v, "%d", &i)\<close> for an \<open>i\<close> that holds 0: blanks, a sign, digits; 0 when there is no number or it is out of range.\<close>

definition is_blank :: "char \<Rightarrow> bool" where
  "is_blank c \<longleftrightarrow> (of_char c :: nat) \<in> {9, 11, 12, 13, 32}"

definition scan_int :: "string \<Rightarrow> int" where
  "scan_int v =
     (let s = dropWhile is_blank v;
          neg = (s \<noteq> [] \<and> hd s = CHR ''-'');
          ds = takeWhile is_digit (if s \<noteq> [] \<and> hd s \<in> {CHR ''-'', CHR ''+''} then tl s else s);
          n = (if neg then - int (parse_digits ds) else int (parse_digits ds)) in
      if ds = [] \<or> n < - (2 ^ 63) \<or> n \<ge> 2 ^ 63 then 0 else n)"

section \<open>Collecting\<close>

definition pattern_of :: "node \<Rightarrow> string" where
  "pattern_of n = meta_get (nd_meta n) ''pattern''"

definition is_gin_group :: "string \<Rightarrow> bool" where "is_gin_group pat \<longleftrightarrow> prefix ''gin_route_group'' pat"
definition is_chi_group :: "string \<Rightarrow> bool" where "is_chi_group pat \<longleftrightarrow> prefix ''chi_route_group'' pat"

text \<open>A registrar that is defined twice keeps the least pair of file and parameter.\<close>

definition add_func :: "string \<Rightarrow> registrarFunc \<Rightarrow> groups \<Rightarrow> groups" where
  "add_func name rf g =
     (case gs_funcs g name of
        Some old \<Rightarrow> if rf_defFile rf > rf_defFile old \<or> rf_defFile rf = rf_defFile old \<and> rf_param rf \<ge> rf_param old then g
                    else g\<lparr>gs_funcs := (gs_funcs g)(name \<mapsto> rf)\<rparr>
      | None \<Rightarrow> g\<lparr>gs_funcs := (gs_funcs g)(name \<mapsto> rf)\<rparr>)"

definition append_at :: "string \<Rightarrow> 'a \<Rightarrow> (string \<rightharpoonup> 'a list) \<Rightarrow> (string \<rightharpoonup> 'a list)" where
  "append_at f x m = m(f \<mapsto> (case m f of Some xs \<Rightarrow> xs | None \<Rightarrow> []) @ [x])"

definition collect_variable :: "node \<Rightarrow> groups \<Rightarrow> groups" where
  "collect_variable n g =
     (let m = meta_get (nd_meta n) in
      if pattern_of n = ''gin_group_registrar_func'' then
        (if m ''name'' = [] \<or> m ''param'' = [] then g
         else add_func (m ''name'') \<lparr>rf_defFile = nd_file n, rf_param = m ''param''\<rparr> g)
      else if pattern_of n = ''gin_group_registrar_call'' then
        (if m ''callee'' = [] \<or> m ''arg'' = [] \<or> IsTestFilePath (nd_file n) then g
         else g\<lparr>gs_calls := gs_calls g @ [\<lparr>rc_callee = m ''callee'', rc_arg = m ''arg'', rc_file = nd_file n, rc_line = nd_line n\<rparr>]\<rparr>)
      else g)"

definition collect_group :: "node \<Rightarrow> groups \<Rightarrow> groups" where
  "collect_group n g =
     (let m = meta_get (nd_meta n) in
      if is_gin_group (pattern_of n) then
        (if m ''var_name'' = [] \<or> nd_meta n ''prefix'' = None then g
         else g\<lparr>gs_gin := append_at (nd_file n)
           \<lparr>gg_varName = m ''var_name'', gg_prefix = stripQuotes (m ''prefix''), gg_receiver = m ''receiver'', gg_line = nd_line n\<rparr> (gs_gin g)\<rparr>)
      else if is_chi_group (pattern_of n) then
        (if stripQuotes (m ''prefix'') = [] then g
         else g\<lparr>gs_chi := append_at (nd_file n)
           \<lparr>cg_prefix = stripQuotes (m ''prefix''), cg_line = nd_line n,
            cg_endLine = (if m ''end_line'' \<noteq> [] then scan_int (m ''end_line'') else 0)\<rparr> (gs_chi g)\<rparr>)
      else g)"

definition collect_node :: "node \<Rightarrow> groups \<Rightarrow> groups" where
  "collect_node n g =
     (if nd_type n = NodeTypeVariable then collect_variable n g
      else if nd_type n \<noteq> NodeTypeHTTPHandler \<and> nd_type n \<noteq> NodeTypeRouteGroup then g
      else collect_group n g)"

definition collect_groups :: "node list \<Rightarrow> groups" where
  "collect_groups ns = fold (collect_node) ns \<lparr>gs_gin = Map.empty, gs_chi = Map.empty, gs_funcs = Map.empty, gs_calls = []\<rparr>"

section \<open>Prefix chains\<close>

definition known_var :: "ginGroup list \<Rightarrow> (string \<rightharpoonup> string) \<Rightarrow> string \<Rightarrow> bool" where
  "known_var gs seed v \<longleftrightarrow> v \<in> gg_varName ` set gs \<or> seed v \<noteq> None"

definition resolve_group :: "(string \<Rightarrow> bool) \<Rightarrow> ginGroup \<Rightarrow> (string \<rightharpoonup> string) \<times> bool \<Rightarrow> (string \<rightharpoonup> string) \<times> bool" where
  "resolve_group known g s =
     (let pm = fst s in
      if pm (gg_varName g) \<noteq> None then s
      else if known (gg_receiver g) then
        (case pm (gg_receiver g) of Some p \<Rightarrow> (pm(gg_varName g \<mapsto> p @ gg_prefix g), True) | None \<Rightarrow> s)
      else (pm(gg_varName g \<mapsto> gg_prefix g), True))"

definition resolve_round :: "(string \<Rightarrow> bool) \<Rightarrow> ginGroup list \<Rightarrow> (string \<rightharpoonup> string) \<Rightarrow> (string \<rightharpoonup> string) \<times> bool" where
  "resolve_round known gs pm = fold (resolve_group known) gs (pm, False)"

primrec resolve_rounds :: "(string \<Rightarrow> bool) \<Rightarrow> ginGroup list \<Rightarrow> nat \<Rightarrow> (string \<rightharpoonup> string) \<Rightarrow> (string \<rightharpoonup> string)" where
  "resolve_rounds known gs 0 pm = pm"
| "resolve_rounds known gs (Suc n) pm =
     (case resolve_round known gs pm of (pm', changed) \<Rightarrow> if changed then resolve_rounds known gs n pm' else pm')"

definition resolveGinPrefixes :: "ginGroup list \<Rightarrow> (string \<rightharpoonup> string) \<Rightarrow> (string \<rightharpoonup> string)" where
  "resolveGinPrefixes gs seed = resolve_rounds (known_var gs seed) gs (length gs + 1) seed"

section \<open>Registrar parameters\<close>

definition seed_call :: "groups \<Rightarrow> (string \<rightharpoonup> (string \<rightharpoonup> string)) \<Rightarrow> registrarCall \<Rightarrow> (string \<rightharpoonup> (string \<rightharpoonup> string)) \<Rightarrow> (string \<rightharpoonup> (string \<rightharpoonup> string))" where
  "seed_call g pms c seeds =
     (case pms (rc_file c) of None \<Rightarrow> seeds
      | Some pm \<Rightarrow> (case pm (rc_arg c) of None \<Rightarrow> seeds
      | Some fullPrefix \<Rightarrow> (case gs_funcs g (rc_callee c) of None \<Rightarrow> seeds
      | Some rf \<Rightarrow>
          let m = (case seeds (rf_defFile rf) of Some m \<Rightarrow> m | None \<Rightarrow> Map.empty) in
          (case m (rf_param rf) of
             Some prev \<Rightarrow> if prev \<le> fullPrefix then seeds(rf_defFile rf \<mapsto> m) else seeds(rf_defFile rf \<mapsto> m(rf_param rf \<mapsto> fullPrefix))
           | None \<Rightarrow> seeds(rf_defFile rf \<mapsto> m(rf_param rf \<mapsto> fullPrefix))))))"

definition own_prefixes :: "groups \<Rightarrow> (string \<rightharpoonup> (string \<rightharpoonup> string))" where
  "own_prefixes g f = map_option (\<lambda>gs. resolveGinPrefixes gs Map.empty) (gs_gin g f)"

definition sorted_calls :: "groups \<Rightarrow> registrarCall list" where
  "sorted_calls g = sort_key (\<lambda>c. (rc_file c, rc_line c)) (gs_calls g)"

definition seedByFile :: "groups \<Rightarrow> (string \<rightharpoonup> (string \<rightharpoonup> string))" where
  "seedByFile g = fold (seed_call g (own_prefixes g)) (sorted_calls g) Map.empty"

definition groups_of :: "groups \<Rightarrow> string \<Rightarrow> ginGroup list" where
  "groups_of g f = (case gs_gin g f of Some gs \<Rightarrow> gs | None \<Rightarrow> [])"

definition ginPrefixByFile :: "groups \<Rightarrow> (string \<rightharpoonup> (string \<rightharpoonup> string))" where
  "ginPrefixByFile g =
     (let seeds = seedByFile g in
      (\<lambda>f. case seeds f of Some seed \<Rightarrow> Some (resolveGinPrefixes (groups_of g f) seed) | None \<Rightarrow> own_prefixes g f))"

section \<open>Stamping\<close>

definition setPath :: "string \<Rightarrow> node \<Rightarrow> node" where
  "setPath path n =
     (let old = meta_get (nd_meta n) ''path'' in
      if path = old then n
      else let m = (nd_meta n)(''path'' \<mapsto> path, ''full_path'' \<mapsto> path); method = meta_get m ''method'' in
        (if nd_label n = method @ '' '' @ old then n\<lparr>nd_meta := m, nd_label := method @ '' '' @ path\<rparr> else n\<lparr>nd_meta := m\<rparr>))"

definition containing :: "int \<Rightarrow> chiGroup list \<Rightarrow> chiGroup list" where
  "containing line gs = filter (\<lambda>g. cg_endLine g > 0 \<and> line > cg_line g \<and> line \<le> cg_endLine g) gs"

definition chi_prefix :: "int \<Rightarrow> chiGroup list \<Rightarrow> string" where
  "chi_prefix line gs = concat (map cg_prefix (sort_key cg_line (containing line gs)))"

text \<open>The prefix of a route: that of its router variable, else that of the groups around its line.\<close>

definition gin_prefix :: "(string \<rightharpoonup> (string \<rightharpoonup> string)) \<Rightarrow> node \<Rightarrow> string option" where
  "gin_prefix pms n =
     (case pms (nd_file n) of None \<Rightarrow> None
      | Some pm \<Rightarrow> let router = meta_get (nd_meta n) ''router'' in if router \<noteq> [] then pm router else None)"

definition is_route :: "node \<Rightarrow> bool" where
  "is_route n \<longleftrightarrow> nd_type n = NodeTypeHTTPHandler \<and> \<not> is_gin_group (pattern_of n) \<and> \<not> is_chi_group (pattern_of n)"

definition is_composed :: "node \<Rightarrow> bool" where
  "is_composed n \<longleftrightarrow> meta_get (nd_meta n) ''full_path'' \<noteq> [] \<and> meta_get (nd_meta n) ''full_path'' = meta_get (nd_meta n) ''path''"

definition stamp_route :: "groups \<Rightarrow> (string \<rightharpoonup> (string \<rightharpoonup> string)) \<Rightarrow> node \<Rightarrow> node" where
  "stamp_route g pms n =
     (if \<not> is_route n \<or> is_composed n then n
      else let path = meta_get (nd_meta n) ''path'' in
        (case gin_prefix pms n of
           Some p \<Rightarrow> setPath (p @ path) n
         | None \<Rightarrow> (case gs_chi g (nd_file n) of None \<Rightarrow> n
             | Some gs \<Rightarrow> if containing (nd_line n) gs \<noteq> [] then setPath (chi_prefix (nd_line n) gs @ path) n else n)))"

definition EnrichRouteGroups :: "node list \<Rightarrow> node list" where
  "EnrichRouteGroups ns =
     (let g = collect_groups ns in map (stamp_route g (ginPrefixByFile g)) ns)"

section \<open>Writing composed routes back\<close>

definition composed_routes :: "node list \<Rightarrow> (string \<rightharpoonup> string \<times> string)" where
  "composed_routes enriched =
     fold (\<lambda>n m. let fp = meta_get (nd_meta n) ''full_path'' in if fp \<noteq> [] then m(nd_id n \<mapsto> (fp, nd_label n)) else m) enriched Map.empty"

text \<open>The nodes as they are handed to the writer, which is not modelled.\<close>

definition write_back :: "(string \<rightharpoonup> string \<times> string) \<Rightarrow> node \<Rightarrow> node" where
  "write_back composed n =
     (case composed (nd_id n) of None \<Rightarrow> n
      | Some (fp, label) \<Rightarrow> n\<lparr>nd_meta := (nd_meta n)(''full_path'' \<mapsto> fp), nd_label := label\<rparr>)"

definition persistComposedRoutes :: "node list \<Rightarrow> node list \<Rightarrow> node list" where
  "persistComposedRoutes enriched persisted = map (write_back (composed_routes enriched)) persisted"

section \<open>Prefix chains are exact\<close>

text \<open>
  The specification: a seeded variable has its seed; a group on a router that is no group has its own
  prefix; a group on a group with a prefix extends it.
\<close>

inductive prefix_chain :: "ginGroup list \<Rightarrow> (string \<rightharpoonup> string) \<Rightarrow> string \<Rightarrow> string \<Rightarrow> bool" for gs seed where
  seeded: "seed v = Some p \<Longrightarrow> prefix_chain gs seed v p"
| root: "g \<in> set gs \<Longrightarrow> seed (gg_varName g) = None \<Longrightarrow> \<not> known_var gs seed (gg_receiver g) \<Longrightarrow> prefix_chain gs seed (gg_varName g) (gg_prefix g)"
| nested: "g \<in> set gs \<Longrightarrow> seed (gg_varName g) = None \<Longrightarrow> prefix_chain gs seed (gg_receiver g) p \<Longrightarrow> prefix_chain gs seed (gg_varName g) (p @ gg_prefix g)"

lemma chain_known: "prefix_chain gs seed v p \<Longrightarrow> known_var gs seed v"
  by (induction rule: prefix_chain.induct) (auto simp: known_var_def)

definition chained :: "ginGroup list \<Rightarrow> (string \<rightharpoonup> string) \<Rightarrow> (string \<rightharpoonup> string) \<Rightarrow> bool" where
  "chained gs seed pm \<longleftrightarrow> seed \<subseteq>\<^sub>m pm \<and> (\<forall>v p. pm v = Some p \<longrightarrow> prefix_chain gs seed v p)"

lemma resolve_group_chained:
  assumes "chained gs seed (fst s)" "g \<in> set gs"
  shows "chained gs seed (fst (resolve_group (known_var gs seed) g s)) \<and> fst s \<subseteq>\<^sub>m fst (resolve_group (known_var gs seed) g s)"
proof (cases "fst s (gg_varName g)")
  case None
  then have "seed (gg_varName g) = None" using assms(1) by (auto simp: chained_def map_le_def dom_def)
  then show ?thesis using assms None
    by (auto simp: resolve_group_def Let_def chained_def map_le_def dom_def split: option.split intro: prefix_chain.intros)
qed (use assms in \<open>auto simp: resolve_group_def Let_def\<close>)

definition stuck :: "(string \<Rightarrow> bool) \<Rightarrow> (string \<rightharpoonup> string) \<Rightarrow> ginGroup \<Rightarrow> bool" where
  "stuck known pm g \<longleftrightarrow> pm (gg_varName g) \<noteq> None \<or> known (gg_receiver g) \<and> pm (gg_receiver g) = None"

lemma resolve_group_changes:
  "snd (resolve_group known g s) \<or> resolve_group known g s = s \<and> stuck known (fst s) g"
  "snd s \<Longrightarrow> snd (resolve_group known g s)"
  "\<not> snd s \<Longrightarrow> snd (resolve_group known g s) \<Longrightarrow> fst s (gg_varName g) = None \<and> fst (resolve_group known g s) (gg_varName g) \<noteq> None"
  by (auto simp: resolve_group_def stuck_def Let_def split: option.splits if_splits)

lemma resolve_fold:
  assumes "chained gs seed (fst s)" "set xs \<subseteq> set gs"
  defines "t \<equiv> fold (resolve_group (known_var gs seed)) xs s"
  shows "chained gs seed (fst t) \<and> fst s \<subseteq>\<^sub>m fst t \<and> (snd s \<longrightarrow> snd t)
    \<and> (\<not> snd t \<longrightarrow> t = s \<and> (\<forall>g \<in> set xs. stuck (known_var gs seed) (fst s) g))
    \<and> (snd t \<and> \<not> snd s \<longrightarrow> (\<exists>v \<in> gg_varName ` set gs. fst s v = None \<and> fst t v \<noteq> None))"
  unfolding t_def using assms(1,2)
proof (induction xs arbitrary: s)
  case (Cons g xs)
  let ?s = "resolve_group (known_var gs seed) g s"
  have step: "chained gs seed (fst ?s)" "fst s \<subseteq>\<^sub>m fst ?s"
    using resolve_group_chained [OF Cons.prems(1), of g] Cons.prems(2) by simp_all
  have IH: "chained gs seed (fst (fold (resolve_group (known_var gs seed)) xs ?s)) \<and> fst ?s \<subseteq>\<^sub>m fst (fold (resolve_group (known_var gs seed)) xs ?s)
      \<and> (snd ?s \<longrightarrow> snd (fold (resolve_group (known_var gs seed)) xs ?s))
      \<and> (\<not> snd (fold (resolve_group (known_var gs seed)) xs ?s) \<longrightarrow> fold (resolve_group (known_var gs seed)) xs ?s = ?s
           \<and> (\<forall>g \<in> set xs. stuck (known_var gs seed) (fst ?s) g))
      \<and> (snd (fold (resolve_group (known_var gs seed)) xs ?s) \<and> \<not> snd ?s \<longrightarrow>
           (\<exists>v \<in> gg_varName ` set gs. fst ?s v = None \<and> fst (fold (resolve_group (known_var gs seed)) xs ?s) v \<noteq> None))"
    using Cons.IH [OF step(1)] Cons.prems(2) by simp
  let ?t = "fold (resolve_group (known_var gs seed)) xs ?s"
  have le: "fst s \<subseteq>\<^sub>m fst ?t" using step(2) IH map_le_trans by blast
  have new: "\<exists>v \<in> gg_varName ` set gs. fst s v = None \<and> fst ?t v \<noteq> None" if "snd ?t" "\<not> snd s"
  proof (cases "snd ?s")
    case True
    then have *: "fst s (gg_varName g) = None" "fst ?s (gg_varName g) \<noteq> None" using resolve_group_changes(3) that(2) by blast+
    then have "fst ?t (gg_varName g) \<noteq> None" using IH by (auto simp: map_le_def dom_def)
    then show ?thesis using * Cons.prems(2) by auto
  next
    case False
    then have "?s = s" using resolve_group_changes(1) by blast
    then show ?thesis using IH that by metis
  qed
  show ?case
    using IH le new resolve_group_changes(1) [of "known_var gs seed" g s] resolve_group_changes(2) [of s "known_var gs seed" g] by auto
qed simp

lemma resolve_rounds_settle:
  assumes "chained gs seed pm" "card (gg_varName ` set gs - dom pm) < n"
  shows "chained gs seed (resolve_rounds (known_var gs seed) gs n pm)
    \<and> (\<forall>g \<in> set gs. stuck (known_var gs seed) (resolve_rounds (known_var gs seed) gs n pm) g)"
  using assms
proof (induction n arbitrary: pm)
  case (Suc n)
  let ?t = "resolve_round (known_var gs seed) gs pm"
  note R = resolve_fold [of gs seed "(pm, False)" gs, folded resolve_round_def, simplified, OF Suc.prems(1)]
  show ?case
  proof (cases "snd ?t")
    case True
    then obtain v where v: "v \<in> gg_varName ` set gs" "pm v = None" "fst ?t v \<noteq> None" using R by auto
    have "dom pm \<subseteq> dom (fst ?t)" using R by (simp add: map_le_implies_dom_le)
    then have "gg_varName ` set gs - dom (fst ?t) \<subset> gg_varName ` set gs - dom pm" using v by blast
    then have "card (gg_varName ` set gs - dom (fst ?t)) < card (gg_varName ` set gs - dom pm)" by (intro psubset_card_mono) auto
    then have "card (gg_varName ` set gs - dom (fst ?t)) < n" using Suc.prems(2) by simp
    then show ?thesis using Suc.IH [of "fst ?t"] R True by (simp add: case_prod_beta)
  next
    case False
    then have "?t = (pm, False)" using R by simp
    then show ?thesis using R Suc.prems(1) by simp
  qed
qed simp

lemma resolve_settles:
  "chained gs seed (resolveGinPrefixes gs seed) \<and> (\<forall>g \<in> set gs. stuck (known_var gs seed) (resolveGinPrefixes gs seed) g)"
  unfolding resolveGinPrefixes_def
proof (rule resolve_rounds_settle)
  show "chained gs seed seed" by (simp add: chained_def prefix_chain.seeded)
  have "card (gg_varName ` set gs - dom seed) \<le> card (gg_varName ` set gs)" by (rule card_mono) auto
  also have "\<dots> \<le> length gs" by (metis card_image_le card_length finite_set order_trans)
  finally show "card (gg_varName ` set gs - dom seed) < length gs + 1" by simp
qed

lemma resolve_sound: "resolveGinPrefixes gs seed v = Some p \<Longrightarrow> prefix_chain gs seed v p"
  using resolve_settles unfolding chained_def by blast

lemma resolve_complete: "prefix_chain gs seed v p \<Longrightarrow> resolveGinPrefixes gs seed v \<noteq> None"
proof (induction rule: prefix_chain.induct)
  case (seeded v p)
  then show ?case using resolve_settles [of gs seed] by (auto simp: chained_def map_le_def dom_def)
next
  case (root g)
  then show ?case using resolve_settles [of gs seed] by (auto simp: stuck_def)
next
  case (nested g p)
  then show ?case using resolve_settles [of gs seed] by (auto simp: stuck_def)
qed

lemma chain_unique:
  assumes "distinct (map gg_varName gs)"
  shows "prefix_chain gs seed v p \<Longrightarrow> prefix_chain gs seed v q \<Longrightarrow> p = q"
proof (induction arbitrary: q rule: prefix_chain.induct)
  case (seeded v p)
  from seeded.prems show ?case by (cases rule: prefix_chain.cases) (use seeded.hyps in auto)
next
  case (root g)
  from root.prems show ?case
  proof (cases rule: prefix_chain.cases)
    case (root h)
    then show ?thesis using assms root.hyps \<open>g \<in> set gs\<close> by (auto simp: distinct_map inj_on_def)
  next
    case (nested h p)
    then have "h = g" using assms \<open>g \<in> set gs\<close> by (auto simp: distinct_map inj_on_def)
    then show ?thesis using chain_known nested \<open>\<not> known_var gs seed (gg_receiver g)\<close> by blast
  qed (use root.hyps in simp)
next
  case (nested g p)
  from nested.prems show ?case
  proof (cases rule: prefix_chain.cases)
    case (root h)
    then have "h = g" using assms nested.hyps by (auto simp: distinct_map inj_on_def)
    then show ?thesis using chain_known nested.hyps root by blast
  next
    case (nested h p')
    then have "h = g" using assms \<open>g \<in> set gs\<close> by (auto simp: distinct_map inj_on_def)
    then show ?thesis using nested nested.IH by blast
  qed (use nested.hyps in simp)
qed

lemma resolve_iff_chain:
  assumes "distinct (map gg_varName gs)"
  shows "resolveGinPrefixes gs seed v = Some p \<longleftrightarrow> prefix_chain gs seed v p"
  using resolve_sound resolve_complete chain_unique [OF assms] by (metis not_None_eq)

end
