(* ===== verification/Route_Props.thy ===== *)
theory Route_Props
  imports Route_Groups
begin

text \<open>
  What the route-group pass computes: the seeds of registrar parameters do not depend on the order of
  the calls, every route gets the prefix of its chain, and the pass can be repeated, on its own result
  and on the nodes it wrote back.
\<close>

section \<open>Seeds\<close>

definition seed_at :: "(string \<rightharpoonup> (string \<rightharpoonup> string)) \<Rightarrow> string \<Rightarrow> (string \<rightharpoonup> string)" where
  "seed_at seeds f = (case seeds f of Some m \<Rightarrow> m | None \<Rightarrow> Map.empty)"

text \<open>The prefix that a call passes, and where.\<close>

definition passes :: "groups \<Rightarrow> registrarCall \<Rightarrow> string \<Rightarrow> string \<Rightarrow> string \<Rightarrow> bool" where
  "passes g c f v p \<longleftrightarrow> (\<exists>pm rf. own_prefixes g (rc_file c) = Some pm \<and> pm (rc_arg c) = Some p
     \<and> gs_funcs g (rc_callee c) = Some rf \<and> rf_defFile rf = f \<and> rf_param rf = v)"

definition passed :: "groups \<Rightarrow> registrarCall list \<Rightarrow> string \<Rightarrow> string \<Rightarrow> string set" where
  "passed g cs f v = {p. \<exists>c \<in> set cs. passes g c f v p}"

definition least_seed :: "string set \<Rightarrow> string option" where
  "least_seed S = (if S = {} then None else Some (Min S))"

lemma passes_unique: "passes g c f v p \<Longrightarrow> passes g c f' v' p' \<Longrightarrow> f' = f \<and> v' = v \<and> p' = p"
  by (auto simp: passes_def)

lemma finite_passed: "finite (passed g cs f v)"
proof -
  have "passed g cs f v = (\<Union>c \<in> set cs. {p. passes g c f v p})" by (auto simp: passed_def)
  moreover have "finite {p. passes g c f v p}" for c
    by (rule finite_subset [of _ "{THE p. passes g c f v p}"]) (auto dest: passes_unique intro!: the_equality [symmetric])
  ultimately show ?thesis by simp
qed

lemma seed_call_at:
  "seed_at (seed_call g (own_prefixes g) c seeds) f v =
     (if \<exists>p. passes g c f v p then Some (case seed_at seeds f v of None \<Rightarrow> (THE p. passes g c f v p) | Some q \<Rightarrow> min q (THE p. passes g c f v p))
      else seed_at seeds f v)"
proof (cases "\<exists>f' v' p. passes g c f' v' p")
  case True
  then obtain pm rf p where c: "own_prefixes g (rc_file c) = Some pm" "pm (rc_arg c) = Some p" "gs_funcs g (rc_callee c) = Some rf"
    by (auto simp: passes_def)
  have iff: "passes g c f v q \<longleftrightarrow> q = p \<and> rf_defFile rf = f \<and> rf_param rf = v" for q using c by (auto simp: passes_def)
  have step: "seed_call g (own_prefixes g) c seeds = seeds(rf_defFile rf \<mapsto>
      (case seed_at seeds (rf_defFile rf) (rf_param rf) of Some prev \<Rightarrow> if prev \<le> p then seed_at seeds (rf_defFile rf)
         else (seed_at seeds (rf_defFile rf))(rf_param rf \<mapsto> p) | None \<Rightarrow> (seed_at seeds (rf_defFile rf))(rf_param rf \<mapsto> p)))"
    by (simp add: seed_call_def c Let_def seed_at_def split: option.split)
  show ?thesis
    unfolding step iff by (auto simp: seed_at_def min_def split: option.splits)
next
  case False
  then have "seed_call g (own_prefixes g) c seeds = seeds"
    by (auto simp: seed_call_def passes_def split: option.split)
  then show ?thesis using False by auto
qed

lemma fold_seeds: "seed_at (fold (seed_call g (own_prefixes g)) cs Map.empty) f v = least_seed (passed g cs f v)"
proof (induction cs rule: rev_induct)
  case Nil
  then show ?case by (simp add: seed_at_def least_seed_def passed_def)
next
  case (snoc c cs)
  show ?case
  proof (cases "\<exists>p. passes g c f v p")
    case True
    then obtain p where p: "passes g c f v p" by blast
    then have the: "(THE p. passes g c f v p) = p" by (auto dest: passes_unique)
    have "passed g (cs @ [c]) f v = insert p (passed g cs f v)" using p passes_unique by (auto simp: passed_def)
    then show ?thesis using finite_passed [of g cs f v] p
      by (auto simp: seed_call_at snoc the least_seed_def min.commute)
  next
    case False
    then have "passed g (cs @ [c]) f v = passed g cs f v" by (auto simp: passed_def)
    then show ?thesis using False by (simp add: seed_call_at snoc)
  qed
qed

text \<open>The least prefix wins, in whatever order the calls are visited.\<close>

lemma seeds_least: "seed_at (seedByFile g) f v = least_seed (passed g (gs_calls g) f v)"
  by (simp add: seedByFile_def fold_seeds sorted_calls_def passed_def)

lemma resolve_empty: "resolveGinPrefixes [] Map.empty = Map.empty"
  by (simp add: resolveGinPrefixes_def resolve_round_def)

lemma prefixes_of_file:
  "(case ginPrefixByFile g f of None \<Rightarrow> None | Some pm \<Rightarrow> pm v) = resolveGinPrefixes (groups_of g f) (seed_at (seedByFile g) f) v"
  by (simp add: ginPrefixByFile_def Let_def own_prefixes_def groups_of_def seed_at_def resolve_empty split: option.split)

section \<open>Stamping\<close>

lemma setPath_path: "meta_get (nd_meta (setPath x n)) ''path'' = x"
  by (simp add: setPath_def Let_def) (simp add: meta_get_def)

lemma setPath_same: "setPath (meta_get (nd_meta n) ''path'') n = n"
  by (simp add: setPath_def)

lemma setPath_composed: "x \<noteq> meta_get (nd_meta n) ''path'' \<Longrightarrow> x \<noteq> [] \<Longrightarrow> is_composed (setPath x n)"
  by (simp add: setPath_def Let_def is_composed_def) (simp add: meta_get_def)

definition route_prefix :: "groups \<Rightarrow> (string \<rightharpoonup> (string \<rightharpoonup> string)) \<Rightarrow> node \<Rightarrow> string" where
  "route_prefix g pms n = (case gin_prefix pms n of Some p \<Rightarrow> p
     | None \<Rightarrow> (case gs_chi g (nd_file n) of None \<Rightarrow> [] | Some gs \<Rightarrow> chi_prefix (nd_line n) gs))"

lemma stamp_is_setPath:
  "stamp_route g pms n = (if is_route n \<and> \<not> is_composed n then setPath (route_prefix g pms n @ meta_get (nd_meta n) ''path'') n else n)"
proof -
  have "containing (nd_line n) gs = [] \<Longrightarrow> chi_prefix (nd_line n) gs = []" for gs by (simp add: chi_prefix_def)
  then show ?thesis by (auto simp: stamp_route_def Let_def route_prefix_def setPath_same split: option.split)
qed

lemma setPath_unchanged: "setPath (p @ meta_get (nd_meta n) ''path'') n = n \<or> is_composed (setPath (p @ meta_get (nd_meta n) ''path'') n)"
  using setPath_composed [of "p @ meta_get (nd_meta n) ''path''" n] setPath_same [of n] by (cases "p = []") simp_all

lemma stamp_twice: "stamp_route g pms (stamp_route g pms n) = stamp_route g pms n"
  using setPath_unchanged [of "route_prefix g pms n" n] by (auto simp: stamp_is_setPath)

section \<open>Collecting ignores paths and labels\<close>

definition alike :: "node \<Rightarrow> node \<Rightarrow> bool" where
  "alike n m \<longleftrightarrow> nd_type n = nd_type m \<and> nd_file n = nd_file m \<and> nd_line n = nd_line m
     \<and> (\<forall>k. k \<noteq> ''path'' \<and> k \<noteq> ''full_path'' \<longrightarrow> nd_meta n k = nd_meta m k)"

lemma alike_setPath: "alike (setPath x n) n"
  by (simp add: setPath_def Let_def alike_def)

lemma alike_stamp: "alike (stamp_route g pms n) n"
  by (simp add: stamp_is_setPath alike_setPath) (simp add: alike_def)

lemma alike_write: "alike (write_back m n) n"
  by (simp add: write_back_def alike_def split: option.split)

lemma collect_alike:
  assumes "alike n m"
  shows "collect_node n g = collect_node m g"
proof -
  have same: "nd_meta n k = nd_meta m k" if "k \<noteq> ''path''" "k \<noteq> ''full_path''" for k
    using assms that unfolding alike_def by blast
  have ks: "nd_meta n ''pattern'' = nd_meta m ''pattern''" "nd_meta n ''name'' = nd_meta m ''name''" "nd_meta n ''param'' = nd_meta m ''param''"
    "nd_meta n ''callee'' = nd_meta m ''callee''" "nd_meta n ''arg'' = nd_meta m ''arg''" "nd_meta n ''var_name'' = nd_meta m ''var_name''"
    "nd_meta n ''prefix'' = nd_meta m ''prefix''" "nd_meta n ''receiver'' = nd_meta m ''receiver''" "nd_meta n ''end_line'' = nd_meta m ''end_line''"
    by (rule same; simp)+
  have at: "nd_type n = nd_type m" "nd_file n = nd_file m" "nd_line n = nd_line m" using assms unfolding alike_def by blast+
  show ?thesis unfolding collect_node_def collect_variable_def collect_group_def pattern_of_def meta_get_def Let_def ks at by (rule refl)
qed

lemma collect_alike_list:
  assumes "list_all2 alike ns ms"
  shows "collect_groups ns = collect_groups ms"
proof -
  have "fold collect_node ns g = fold collect_node ms g" for g
    using assms by (induction arbitrary: g rule: list_all2_induct) (simp_all add: collect_alike)
  then show ?thesis by (simp add: collect_groups_def)
qed

lemma enrich_alike: "list_all2 alike (EnrichRouteGroups ns) ns"
  by (simp add: EnrichRouteGroups_def Let_def list_all2_map1 list_all2_same alike_stamp)

text \<open>Running the pass on its own result changes nothing, although it reads and writes the same entry of the node.\<close>

lemma enrich_idempotent: "EnrichRouteGroups (EnrichRouteGroups ns) = EnrichRouteGroups ns"
proof -
  have "collect_groups (EnrichRouteGroups ns) = collect_groups ns" by (rule collect_alike_list [OF enrich_alike])
  then show ?thesis by (simp add: EnrichRouteGroups_def Let_def stamp_twice)
qed

section \<open>Writing back\<close>

definition fresh_paths :: "node list \<Rightarrow> bool" where
  "fresh_paths ns \<longleftrightarrow> distinct (map nd_id ns) \<and> (\<forall>n \<in> set ns. meta_get (nd_meta n) ''full_path'' = [])"

lemma setPath_id: "nd_id (setPath x n) = nd_id n"
  by (simp add: setPath_def Let_def)

lemma stamp_id: "nd_id (stamp_route g pms n) = nd_id n"
  by (simp add: stamp_is_setPath setPath_id)

lemma composed_other: "v \<notin> nd_id ` set ns \<Longrightarrow>
  fold (\<lambda>n m. if meta_get (nd_meta n) ''full_path'' \<noteq> [] then m(nd_id n \<mapsto> (meta_get (nd_meta n) ''full_path'', nd_label n)) else m) ns m v = m v"
  by (induction ns arbitrary: m) auto

lemma composed_lookup:
  assumes "n \<in> set ns" "distinct (map nd_id ns)"
  shows "composed_routes ns (nd_id n) = (let fp = meta_get (nd_meta n) ''full_path'' in if fp \<noteq> [] then Some (fp, nd_label n) else None)"
proof -
  obtain xs ys where ns: "ns = xs @ n # ys" using split_list [OF assms(1)] by blast
  then have "nd_id n \<notin> nd_id ` set ys" "nd_id n \<notin> nd_id ` set xs" using assms(2) by auto
  then show ?thesis by (simp add: composed_routes_def ns composed_other Let_def)
qed

text \<open>A route that was written back is stamped as the first time.\<close>

lemma setPath_again:
  assumes "x \<noteq> meta_get (nd_meta n) ''path''"
  defines "n' \<equiv> n\<lparr>nd_meta := (nd_meta n)(''full_path'' \<mapsto> x), nd_label := nd_label (setPath x n)\<rparr>"
  shows "setPath x n' = setPath x n" "meta_get (nd_meta n') ''path'' = meta_get (nd_meta n) ''path''" "\<not> is_composed n'"
proof -
  have p: "nd_meta n' ''path'' = nd_meta n ''path''" "nd_meta n' ''method'' = nd_meta n ''method''" "nd_meta n' ''full_path'' = Some x" by (simp_all add: n'_def)
  show p': "meta_get (nd_meta n') ''path'' = meta_get (nd_meta n) ''path''" by (simp add: meta_get_def p)
  show "\<not> is_composed n'" using assms(1) by (simp add: is_composed_def meta_get_def p)
  have m: "(nd_meta n')(''path'' \<mapsto> x, ''full_path'' \<mapsto> x) = (nd_meta n)(''path'' \<mapsto> x, ''full_path'' \<mapsto> x)" by (simp add: n'_def fun_eq_iff)
  have r: "n'\<lparr>nd_meta := y\<rparr> = n\<lparr>nd_meta := y, nd_label := nd_label (setPath x n)\<rparr>" for y by (simp add: n'_def)
  have l: "nd_label n' = nd_label (setPath x n)" by (simp add: n'_def)
  let ?m = "(nd_meta n)(''path'' \<mapsto> x, ''full_path'' \<mapsto> x)"
  let ?old = "meta_get (nd_meta n) ''path''" and ?verb = "meta_get ?m ''method''"
  show "setPath x n' = setPath x n"
  proof (cases "nd_label n = ?verb @ '' '' @ ?old")
    case True
    then have s: "setPath x n = n\<lparr>nd_meta := ?m, nd_label := ?verb @ '' '' @ x\<rparr>" using assms(1) by (simp add: setPath_def Let_def)
    then have "nd_label n' \<noteq> ?verb @ '' '' @ ?old" using assms(1) l by simp
    then have "setPath x n' = n'\<lparr>nd_meta := ?m\<rparr>" using assms(1) by (simp add: setPath_def Let_def p' m)
    then show ?thesis by (simp add: r s)
  next
    case False
    then have s: "setPath x n = n\<lparr>nd_meta := ?m\<rparr>" using assms(1) by (simp add: setPath_def Let_def)
    then have "nd_label n' \<noteq> ?verb @ '' '' @ ?old" using False l by simp
    then have "setPath x n' = n'\<lparr>nd_meta := ?m\<rparr>" using assms(1) by (simp add: setPath_def Let_def p' m)
    then show ?thesis by (simp add: r s)
  qed
qed

lemma alike_meta: "alike n' n \<Longrightarrow> k \<noteq> ''path'' \<Longrightarrow> k \<noteq> ''full_path'' \<Longrightarrow> nd_meta n' k = nd_meta n k"
  by (simp add: alike_def)

lemma alike_at: "alike n' n \<Longrightarrow> nd_type n' = nd_type n" "alike n' n \<Longrightarrow> nd_file n' = nd_file n" "alike n' n \<Longrightarrow> nd_line n' = nd_line n"
  by (simp_all add: alike_def)

lemma alike_prefix: "alike n' n \<Longrightarrow> route_prefix g pms n' = route_prefix g pms n"
  unfolding route_prefix_def gin_prefix_def meta_get_def alike_at alike_meta [of n' n "''router''", simplified] ..

lemma alike_route: "alike n' n \<Longrightarrow> is_route n' = is_route n"
  unfolding is_route_def pattern_of_def meta_get_def alike_at alike_meta [of n' n "''pattern''", simplified] ..

lemma stamp_written:
  fixes g :: groups and pms :: "string \<rightharpoonup> (string \<rightharpoonup> string)"
  assumes "n \<in> set ns" "distinct (map nd_id ns)" "meta_get (nd_meta n) ''full_path'' = []"
  defines "es \<equiv> map (stamp_route g pms) ns"
  shows "stamp_route g pms (write_back (composed_routes es) n) = stamp_route g pms n"
proof -
  let ?e = "stamp_route g pms n" and ?x = "route_prefix g pms n @ meta_get (nd_meta n) ''path''"
  have "?e \<in> set es" "distinct (map nd_id es)" using assms(1,2) by (simp_all add: es_def o_def stamp_id)
  note look = composed_lookup [OF this, unfolded stamp_id]
  show ?thesis
  proof (cases "is_route n \<and> ?x \<noteq> meta_get (nd_meta n) ''path''")
    case True
    have nc: "\<not> is_composed n" using assms(3) by (simp add: is_composed_def)
    then have e: "?e = setPath ?x n" using True by (simp add: stamp_is_setPath)
    have fp: "meta_get (nd_meta ?e) ''full_path'' = ?x" unfolding e using True by (simp add: setPath_def Let_def meta_get_def)
    have "?x \<noteq> []" using True by auto
    then have "composed_routes es (nd_id n) = Some (?x, nd_label ?e)" unfolding look fp Let_def by simp
    then have w: "write_back (composed_routes es) n = n\<lparr>nd_meta := (nd_meta n)(''full_path'' \<mapsto> ?x), nd_label := nd_label (setPath ?x n)\<rparr>"
      by (simp add: write_back_def e)
    note A = alike_write [of "composed_routes es" n]
    have "?x \<noteq> meta_get (nd_meta n) ''path''" using True by simp
    note again = setPath_again [OF this, folded w]
    show ?thesis unfolding stamp_is_setPath [of g pms "write_back (composed_routes es) n"] alike_prefix [OF A] alike_route [OF A] again(2)
      using again(1,3) True e by simp
  next
    case False
    then have e: "?e = n" using setPath_same [of n] by (auto simp: stamp_is_setPath)
    then have "composed_routes es (nd_id n) = None" unfolding look using assms(3) by (simp add: Let_def)
    then show ?thesis by (simp add: write_back_def)
  qed
qed

lemma reindex_stable:
  assumes "distinct (map nd_id ns)" "\<forall>n \<in> set ns. meta_get (nd_meta n) ''full_path'' = []"
  shows "EnrichRouteGroups (persistComposedRoutes (EnrichRouteGroups ns) ns) = EnrichRouteGroups ns"
proof -
  let ?g = "collect_groups ns"
  have "list_all2 alike (persistComposedRoutes (EnrichRouteGroups ns) ns) ns"
    by (simp add: persistComposedRoutes_def list_all2_map1 list_all2_same alike_write)
  then have g: "collect_groups (persistComposedRoutes (EnrichRouteGroups ns) ns) = ?g" by (rule collect_alike_list)
  have es: "EnrichRouteGroups ns = map (stamp_route ?g (ginPrefixByFile ?g)) ns" by (simp add: EnrichRouteGroups_def Let_def)
  have "EnrichRouteGroups (persistComposedRoutes (EnrichRouteGroups ns) ns)
      = map (stamp_route ?g (ginPrefixByFile ?g)) (persistComposedRoutes (EnrichRouteGroups ns) ns)"
    unfolding EnrichRouteGroups_def [of "persistComposedRoutes (EnrichRouteGroups ns) ns"] g Let_def ..
  also have "\<dots> = map (stamp_route ?g (ginPrefixByFile ?g)) ns"
    unfolding persistComposedRoutes_def map_map o_def es
    by (rule map_cong [OF refl]) (use stamp_written [OF _ assms(1)] assms(2) in blast)
  finally show ?thesis unfolding es .
qed

section \<open>Small inputs\<close>

definition route_node :: "string \<Rightarrow> string \<Rightarrow> string \<Rightarrow> int \<Rightarrow> (string \<times> string) list \<Rightarrow> node" where
  "route_node v ty lab line meta = \<lparr>nd_id = v, nd_type = ty, nd_label = lab, nd_service = ''s'', nd_file = ''f'', nd_line = line,
     nd_endLine = line, nd_language = ''go'', nd_meta = map_of meta\<rparr>"

definition group_node :: "string \<Rightarrow> string \<Rightarrow> string \<Rightarrow> string \<Rightarrow> node" where
  "group_node v var recv pre = route_node v NodeTypeRouteGroup pre 1
     [(''pattern'', ''gin_route_group''), (''var_name'', var), (''receiver'', recv), (''prefix'', pre)]"

definition get_node :: "string \<Rightarrow> string \<Rightarrow> string \<Rightarrow> int \<Rightarrow> node" where
  "get_node v router path line = route_node v NodeTypeHTTPHandler (''G '' @ path) line [(''method'', ''G''), (''path'', path), (''router'', router)]"

text \<open>The groups are listed child first, so the chain needs a second round.\<close>

definition route_nodes :: "node list" where
  "route_nodes = [group_node ''b'' ''u'' ''v'' ''/u'', group_node ''a'' ''v'' ''r'' ''/v'', get_node ''h'' ''u'' ''/:id'' 3, get_node ''k'' ''r'' ''/k'' 4]"

definition routes_of :: "node list \<Rightarrow> (string \<times> string) list" where
  "routes_of ns = map (\<lambda>n. (nd_id n, nd_label n)) (filter is_route (EnrichRouteGroups ns))"

lemma route_demo: "routes_of route_nodes = [(''h'', ''G /v/u/:id''), (''k'', ''G /k'')]"
  by code_simp

text \<open>
  Groups are looked up by variable and file only: of two functions in one file that both name a group
  \<open>g\<close>, the routes of the second get the prefix of the first.
\<close>

lemma scopes_conflated:
  "routes_of [group_node ''a'' ''g'' ''r'' ''/a'', get_node ''h'' ''g'' ''/x'' 2, group_node ''b'' ''g'' ''q'' ''/b'', get_node ''k'' ''g'' ''/x'' 9]
     = [(''h'', ''G /a/x''), (''k'', ''G /a/x'')]"
  by code_simp

section \<open>Properties\<close>

text \<open>
  C12: a route that was not composed before gets exactly the prefix of its group. The prefix comes from a
  chain of groups that starts at a router that is no group, or at the parameter of a registrar function,
  whose seed is the least of the prefixes its callers pass; when the router variable has no such chain,
  it is the prefixes of the groups whose body contains the line, the outermost first. When the
  variables of a file are distinct the chain is unique, so the result does not depend on the order of
  the declarations.
\<close>

theorem routes_get_their_prefix:
  assumes "i < length ns" "is_route (ns ! i)" "\<not> is_composed (ns ! i)"
  defines "g \<equiv> collect_groups ns" and "f \<equiv> nd_file (ns ! i)" and "router \<equiv> meta_get (nd_meta (ns ! i)) ''router''"
  defines "chain \<equiv> prefix_chain (groups_of g f) (\<lambda>v. least_seed (passed g (gs_calls g) f v))"
  shows "(\<exists>p. meta_get (nd_meta (EnrichRouteGroups ns ! i)) ''path'' = p @ meta_get (nd_meta (ns ! i)) ''path''
      \<and> (if router \<noteq> [] \<and> (\<exists>q. chain router q) then chain router p
         else p = (case gs_chi g f of None \<Rightarrow> [] | Some gs \<Rightarrow> chi_prefix (nd_line (ns ! i)) gs)))
    \<and> (distinct (map gg_varName (groups_of g f)) \<longrightarrow> (\<forall>v p q. chain v p \<and> chain v q \<longrightarrow> p = q))"
proof
  have seed: "seed_at (seedByFile g) f = (\<lambda>v. least_seed (passed g (gs_calls g) f v))" by (rule ext) (rule seeds_least)
  have gin: "gin_prefix (ginPrefixByFile g) (ns ! i) =
      (if router = [] then None else resolveGinPrefixes (groups_of g f) (\<lambda>v. least_seed (passed g (gs_calls g) f v)) router)"
    unfolding seed [symmetric] prefixes_of_file [symmetric] by (simp add: gin_prefix_def f_def router_def Let_def split: option.split)
  have E: "EnrichRouteGroups ns ! i = setPath (route_prefix g (ginPrefixByFile g) (ns ! i) @ meta_get (nd_meta (ns ! i)) ''path'') (ns ! i)"
    using assms(1-3) by (simp add: EnrichRouteGroups_def Let_def g_def stamp_is_setPath)
  let ?p = "route_prefix g (ginPrefixByFile g) (ns ! i)"
  have "if router \<noteq> [] \<and> (\<exists>q. chain router q) then chain router ?p
      else ?p = (case gs_chi g f of None \<Rightarrow> [] | Some gs \<Rightarrow> chi_prefix (nd_line (ns ! i)) gs)"
  proof (cases "router \<noteq> [] \<and> (\<exists>q. chain router q)")
    case True
    then obtain p where p: "resolveGinPrefixes (groups_of g f) (\<lambda>v. least_seed (passed g (gs_calls g) f v)) router = Some p"
      using resolve_complete unfolding chain_def by blast
    then have "?p = p" using True by (simp add: route_prefix_def gin)
    then show ?thesis using True resolve_sound [OF p] by (simp add: chain_def)
  next
    case False
    then have "gin_prefix (ginPrefixByFile g) (ns ! i) = None"
      using resolve_sound unfolding gin chain_def by (metis not_None_eq)
    then have "?p = (case gs_chi g f of None \<Rightarrow> [] | Some gs \<Rightarrow> chi_prefix (nd_line (ns ! i)) gs)" by (simp add: route_prefix_def f_def)
    then show ?thesis using False by (simp only: if_False)
  qed
  then show "\<exists>p. meta_get (nd_meta (EnrichRouteGroups ns ! i)) ''path'' = p @ meta_get (nd_meta (ns ! i)) ''path''
      \<and> (if router \<noteq> [] \<and> (\<exists>q. chain router q) then chain router p
         else p = (case gs_chi g f of None \<Rightarrow> [] | Some gs \<Rightarrow> chi_prefix (nd_line (ns ! i)) gs))"
    by (intro exI [of _ ?p]) (simp only: E setPath_path simp_thms)
  show "distinct (map gg_varName (groups_of g f)) \<longrightarrow> (\<forall>v p q. chain v p \<and> chain v q \<longrightarrow> p = q)"
    unfolding chain_def using chain_unique by blast
qed

theorem routes_get_their_prefix_witness:
  "\<exists>p. meta_get (nd_meta (EnrichRouteGroups route_nodes ! 2)) ''path'' = p @ ''/:id''"
proof -
  have "2 < length route_nodes" by (simp add: route_nodes_def)
  moreover have "is_route (route_nodes ! 2)" by code_simp
  moreover have "\<not> is_composed (route_nodes ! 2)" by code_simp
  moreover have "meta_get (nd_meta (route_nodes ! 2)) ''path'' = ''/:id''" by code_simp
  ultimately show ?thesis using routes_get_their_prefix [of 2 route_nodes] by metis
qed

text \<open>
  C13: composition may be repeated. The pass changes nothing on its own result, and when its result is
  written back to the stored nodes (the label and the composed path, not the path itself), the next run
  over the stored nodes gives the same result again: no prefix is ever stacked twice.
\<close>

theorem composition_repeatable:
  "EnrichRouteGroups (EnrichRouteGroups ns) = EnrichRouteGroups ns
   \<and> (distinct (map nd_id ns) \<and> (\<forall>n \<in> set ns. meta_get (nd_meta n) ''full_path'' = []) \<longrightarrow>
        EnrichRouteGroups (persistComposedRoutes (EnrichRouteGroups ns) ns) = EnrichRouteGroups ns)"
  using enrich_idempotent reindex_stable by blast

theorem composition_repeatable_witness:
  "EnrichRouteGroups (persistComposedRoutes (EnrichRouteGroups route_nodes) route_nodes) = EnrichRouteGroups route_nodes
   \<and> map nd_label (persistComposedRoutes (EnrichRouteGroups route_nodes) route_nodes) = [''/u'', ''/v'', ''G /v/u/:id'', ''G /k'']"
proof
  have "distinct (map nd_id route_nodes)" by code_simp
  moreover have "list_all (\<lambda>n. meta_get (nd_meta n) ''full_path'' = []) route_nodes" by code_simp
  ultimately show "EnrichRouteGroups (persistComposedRoutes (EnrichRouteGroups route_nodes) route_nodes) = EnrichRouteGroups route_nodes"
    using composition_repeatable [of route_nodes] unfolding list_all_iff by blast
  show "map nd_label (persistComposedRoutes (EnrichRouteGroups route_nodes) route_nodes) = [''/u'', ''/v'', ''G /v/u/:id'', ''G /k'']"
    by code_simp
qed

end
