(* ===== verification/Dead_Code.thy ===== *)
theory Dead_Code
  imports Route_Groups
begin

text \<open>
  Dead code (\<open>internal/deadcode/deadcode.go\<close>): callables without callers, variables without readers,
  types without uses and Rails views that nothing renders; with the classification of roots
  (\<open>classifyRoot\<close> of \<open>internal/indexer/indexer.go\<close>, \<open>ClassifyEntrypoint\<close> of \<open>internal/graph/flows.go\<close>).
\<close>

section \<open>Node and edge types\<close>

definition NodeTypeFunction :: nodeType where "NodeTypeFunction = ''function''"
definition NodeTypeMethod :: nodeType where "NodeTypeMethod = ''method''"
definition NodeTypeComponent :: nodeType where "NodeTypeComponent = ''component''"
definition NodeTypeFile :: nodeType where "NodeTypeFile = ''file''"
definition NodeTypeStruct :: nodeType where "NodeTypeStruct = ''struct''"
definition NodeTypeInterface :: nodeType where "NodeTypeInterface = ''interface''"
definition NodeTypeTypeAlias :: nodeType where "NodeTypeTypeAlias = ''type_alias''"
definition NodeTypeClass :: nodeType where "NodeTypeClass = ''class''"

definition EdgeTypeReads :: edgeType where "EdgeTypeReads = ''reads''"
definition EdgeTypeRenders :: edgeType where "EdgeTypeRenders = ''renders''"
definition EdgeTypeComponentImpl :: edgeType where "EdgeTypeComponentImpl = ''component_impl''"

definition invokingEdgeTypes :: "edgeType list" where
  "invokingEdgeTypes = [''calls'', ''spawns'', EdgeTypeRenders, ''job_enqueue'', ''job_perform'', ''sidekiq_enqueue'',
     ''sidekiq_perform'', ''subscribes'', ''dom_listen'', EdgeTypeComponentImpl]"

definition typeUseEdgeTypes :: "edgeType list" where
  "typeUseEdgeTypes = [EdgeTypeUsesType, EdgeTypeInstantiates, ''inherits'', ''implements'', ''returns'', ''consumes'',
     ''response_of'', ''references'']"

definition invoking :: "edge \<Rightarrow> bool" where "invoking e \<longleftrightarrow> ed_type e \<in> set invokingEdgeTypes"

definition type_use :: "edge \<Rightarrow> bool" where "type_use e \<longleftrightarrow> ed_type e \<in> set typeUseEdgeTypes"

text \<open>The edge from a generated twin to its component.\<close>

definition templ_bridge :: "edge \<Rightarrow> bool" where
  "templ_bridge e \<longleftrightarrow> ed_type e = EdgeTypeComponentImpl \<and> meta_get (ed_meta e) ''via'' = ''templ_generated''"

section \<open>Roots\<close>

definition entrypointTypes :: "nodeType list" where
  "entrypointTypes = [NodeTypeHTTPHandler, ''route'', ''worker'', ''subscriber'', ''grpc_handler'', ''graphql_resolver'']"

text \<open>The kind and, when the node is no entry point, its other root kind.\<close>

definition ClassifyEntrypoint :: "node \<Rightarrow> string \<times> string \<times> bool" where
  "ClassifyEntrypoint n =
     (if nd_type n \<in> set entrypointTypes then (nd_type n, [], True)
      else let rk = meta_get (nd_meta n) ''root_kind'' in
        if nd_type n = NodeTypeFunction \<and> rk \<noteq> [] then
          (if rk = ''entrypoint'' then (''function'', [], True) else ([], rk, False))
        else ([], [], False))"

definition stampRootKind :: "string \<Rightarrow> node \<Rightarrow> node" where
  "stampRootKind k n = n\<lparr>nd_meta := (nd_meta n)(''root_kind'' \<mapsto> k)\<rparr>"

text \<open>\<open>None\<close> when the node is left alone.\<close>

definition classifyRoot :: "(string \<Rightarrow> bool) \<Rightarrow> (string \<Rightarrow> bool) \<Rightarrow> node \<Rightarrow> node option" where
  "classifyRoot incoming referenced n =
     (let m = meta_get (nd_meta n) in
      if nd_type n \<noteq> NodeTypeFunction \<and> nd_type n \<noteq> NodeTypeMethod then None
      else if nd_label n \<in> {''main'', ''init'', ''(module)''} then Some (stampRootKind ''entrypoint'' n)
      else if m ''kind'' = ''rake_block'' \<or> m ''kind'' = ''callback_block'' then Some (stampRootKind ''entrypoint'' n)
      else if nd_label n = ''(script)'' then (if incoming (nd_id n) then None else Some (stampRootKind ''entrypoint'' n))
      else if incoming (nd_id n) then None
      else Some (stampRootKind
        (if referenced (nd_id n) \<or> m ''pattern'' = ''object_method_pair'' \<or> m ''js_accessor'' = ''true'' \<or> m ''referenced_as_value'' = ''true''
         then ''callback'' else ''unreachable'') n))"

definition is_callable :: "nodeType \<Rightarrow> bool" where
  "is_callable t \<longleftrightarrow> t \<in> {NodeTypeFunction, NodeTypeMethod, NodeTypeComponent}"

definition isTypeDecl :: "nodeType \<Rightarrow> bool" where
  "isTypeDecl t \<longleftrightarrow> t \<in> {NodeTypeStruct, NodeTypeInterface, NodeTypeTypeAlias}"

definition reflect_dispatched :: "node \<Rightarrow> bool" where
  "reflect_dispatched n \<longleftrightarrow> meta_get (nd_meta n) ''reflect_dispatched'' = ''true''"

definition is_entry :: "node \<Rightarrow> bool" where
  "is_entry n \<longleftrightarrow> snd (snd (ClassifyEntrypoint n)) \<or> fst (snd (ClassifyEntrypoint n)) = ''callback''"

definition isLiveRoot :: "node \<Rightarrow> bool" where
  "isLiveRoot n =
     (if is_callable (nd_type n) then is_entry n \<or> IsTestFilePath (nd_file n) \<or> reflect_dispatched n
      else \<not> (isTypeDecl (nd_type n) \<or> nd_type n = NodeTypeClass \<or> nd_type n = NodeTypeVariable))"

section \<open>Callers, readers and uses\<close>

text \<open>
  The walk back over bridges, with the set of visited nodes that all calls share. The fuel bounds the
  nesting of calls.
\<close>

fun visit_edges :: "adjacencyIndex \<Rightarrow> nat \<Rightarrow> string \<Rightarrow> edge list \<Rightarrow> string list \<Rightarrow> bool \<times> string list" where
  "visit_edges idx n v [] seen = (False, seen)"
| "visit_edges idx n v (e # es) seen =
     (if \<not> invoking e then visit_edges idx n v es seen
      else if templ_bridge e then
        (if ed_from e \<in> set seen then visit_edges idx n v es seen
         else case n of 0 \<Rightarrow> (False, seen)
           | Suc m \<Rightarrow> (case visit_edges idx m (ed_from e) (inEdges idx (ed_from e)) (List.insert v seen) of
               (found, seen1) \<Rightarrow> if found then (True, seen1) else visit_edges idx n v es seen1))
      else (True, seen))"

definition hasCaller :: "adjacencyIndex \<Rightarrow> string \<Rightarrow> bool" where
  "hasCaller idx v = fst (visit_edges idx (2 * length (ix_in idx)) v (inEdges idx v) [])"

definition isGeneratedTemplTwin :: "adjacencyIndex \<Rightarrow> node \<Rightarrow> bool" where
  "isGeneratedTemplTwin idx n \<longleftrightarrow> nd_type n = NodeTypeFunction \<and> suffix ''_templ.go'' (nd_file n)
     \<and> list_ex templ_bridge (outEdges idx (nd_id n))"

definition hasReader :: "adjacencyIndex \<Rightarrow> string \<Rightarrow> bool" where
  "hasReader idx v \<longleftrightarrow> list_ex (\<lambda>e. ed_type e = EdgeTypeReads) (inEdges idx v)"

definition hasRenderer :: "adjacencyIndex \<Rightarrow> string \<Rightarrow> bool" where
  "hasRenderer idx v \<longleftrightarrow> list_ex (\<lambda>e. ed_type e = EdgeTypeRenders) (inEdges idx v)"

definition hasTypeUse :: "adjacencyIndex \<Rightarrow> string \<Rightarrow> bool" where
  "hasTypeUse idx v \<longleftrightarrow> list_ex type_use (inEdges idx v)"

section \<open>Reachability from live roots\<close>

definition follows :: "bool \<Rightarrow> edge \<Rightarrow> bool" where
  "follows includeTypes e \<longleftrightarrow> invoking e \<or> includeTypes \<and> type_use e"

text \<open>The identifiers that are enqueued, in order, when some are live already.\<close>

fun enqueue_all :: "string list \<Rightarrow> string set \<Rightarrow> string list" where
  "enqueue_all [] live = []"
| "enqueue_all (v # vs) live = (if v \<in> live then enqueue_all vs live else v # enqueue_all vs (insert v live))"

definition live_succ :: "adjacencyIndex \<Rightarrow> bool \<Rightarrow> string \<Rightarrow> string list" where
  "live_succ idx includeTypes v = map ed_to (filter (follows includeTypes) (outEdges idx v))"

lemma enqueue_all_spec: "distinct (enqueue_all vs live) \<and> set (enqueue_all vs live) = set vs - live"
  by (induction vs live rule: enqueue_all.induct) auto

lemma live_succ_ends: "set (live_succ idx t v) \<subseteq> ends idx"
  using far_end_in [of _ idx DirOut v] by (auto simp: live_succ_def dir_edges_def far_end_def DirOut_def DirIn_def)

function live_loop :: "adjacencyIndex \<Rightarrow> bool \<Rightarrow> string list \<Rightarrow> string list \<Rightarrow> string list" where
  "live_loop idx t [] live = live"
| "live_loop idx t (v # q) live =
     (let new = enqueue_all (live_succ idx t v) (set live) in live_loop idx t (q @ new) (live @ new))"
  by pat_completeness auto
termination
proof (relation "measure (\<lambda>(idx, t, q, live). card (ends idx - set live) + length q)", goal_cases)
  case 1
  then show ?case by simp
next
  case (2 idx t v q live new)
  note s = enqueue_all_spec [of "live_succ idx t v" "set live", folded 2]
  then have sub: "set new \<subseteq> ends idx - set live" using live_succ_ends [of idx t v] by auto
  have "card (ends idx - set (live @ new)) = card (ends idx - set live - set new)" by (simp add: Diff_Diff_Int set_diff_eq)
  also have "\<dots> = card (ends idx - set live) - card (set new)" using sub by (intro card_Diff_subset) auto
  also have "card (set new) = length new" using s by (intro distinct_card) simp
  finally have "card (ends idx - set (live @ new)) = card (ends idx - set live) - length new" .
  moreover have "length new \<le> card (ends idx - set live)" using s sub by (metis card_mono distinct_card finite_Diff finite_ends)
  ultimately show ?case by simp
qed

definition liveReachable :: "adjacencyIndex \<Rightarrow> bool \<Rightarrow> string list" where
  "liveReachable idx t =
     (let roots = enqueue_all (map fst (filter (\<lambda>(v, n). isLiveRoot n) (ix_nodes idx))) {} in live_loop idx t roots roots)"

section \<open>Rails views\<close>

definition trim_prefix :: "string \<Rightarrow> string \<Rightarrow> string" where
  "trim_prefix p s = (if prefix p s then drop (length p) s else s)"

definition trim_suffix :: "string \<Rightarrow> string \<Rightarrow> string" where
  "trim_suffix p s = (if suffix p s then take (length s - length p) s else s)"

definition isRailsViewFile :: "string \<Rightarrow> bool" where
  "isRailsViewFile f \<longleftrightarrow> suffix ''.erb'' f \<and> str_has f ''app/views/'' \<and> \<not> str_has f ''app/views/layouts/''
     \<and> \<not> str_has (to_lower f) ''mailer''"

definition last_index :: "char \<Rightarrow> string \<Rightarrow> nat option" where
  "last_index c s = (if c \<in> set s then Some (length s - 1 - length (takeWhile (\<lambda>x. x \<noteq> c) (rev s))) else None)"

definition railsViewIdentifier :: "string \<Rightarrow> string" where
  "railsViewIdentifier f =
     (case index_str ''app/views/'' f of None \<Rightarrow> []
      | Some i \<Rightarrow>
          let rel = drop (i + length ''app/views/'') f;
              cut = (case last_index slash rel of None \<Rightarrow> 0 | Some j \<Rightarrow> Suc j);
              dir = take cut rel;
              base = trim_suffix ''.erb'' (drop cut rel);
              base1 = (case last_index CHR ''.'' base of None \<Rightarrow> base | Some j \<Rightarrow> take j base) in
          trim_suffix ''/'' dir @ ''/'' @ trim_prefix ''_'' base1)"

definition route_key :: "string \<Rightarrow> string \<Rightarrow> string" where
  "route_key service ident = service @ [nul] @ ident"

definition railsRouteTargets :: "adjacencyIndex \<Rightarrow> string list" where
  "railsRouteTargets idx =
     concat (map (\<lambda>(v, n).
       let m = meta_get (nd_meta n); action = trim_prefix '':'' (m ''action''); resource = m ''resource'' in
       if nd_type n \<noteq> NodeTypeHTTPHandler \<or> nd_language n \<noteq> ''ruby'' \<or> action = [] \<or> resource = [] then []
       else [route_key (nd_service n)
         ((if m ''controller_module'' \<noteq> [] then m ''controller_module'' @ ''/'' @ resource else resource) @ ''/'' @ action)]) (ix_nodes idx))"

record dynamicRenderTarget =
  dr_service :: string
  dr_literal :: string
  dr_exact :: bool

definition render_target :: "unresolvedRef \<Rightarrow> dynamicRenderTarget list" where
  "render_target r =
     (if ur_kind r = ''erb_render_dynamic'' \<or> ur_kind r = ''erb_render_unresolved'' then
        (let name = trim_prefix [CHR 0x27] (trim_prefix [CHR 0x22] (ur_name r));
             cut = index_str ''#{'' name;
             name1 = (case cut of None \<Rightarrow> name | Some i \<Rightarrow> take i name);
             name2 = trim_prefix ''/'' name1 in
         if name2 = [] then []
         else [\<lparr>dr_service = ur_service r, dr_literal = name2, dr_exact = (ur_kind r = ''erb_render_unresolved'' \<and> cut = None)\<rparr>])
      else [])"

definition railsDynamicRenderTargets :: "unresolvedRef list \<Rightarrow> dynamicRenderTarget list" where
  "railsDynamicRenderTargets refs = concat (map render_target refs)"

definition isDeadRailsView :: "adjacencyIndex \<Rightarrow> node \<Rightarrow> string list \<Rightarrow> dynamicRenderTarget list \<Rightarrow> bool" where
  "isDeadRailsView idx n liveRoutes dynTargets =
     (let ident = railsViewIdentifier (nd_file n) in
      \<not> hasRenderer idx (nd_id n) \<and> ident \<noteq> []
      \<and> route_key (nd_service n) (trim_prefix ''devise/'' ident) \<notin> set liveRoutes
      \<and> \<not> list_ex (\<lambda>t. dr_service t = nd_service n \<and> (if dr_exact t then ident = dr_literal t else prefix (dr_literal t) ident)) dynTargets)"

section \<open>The scan\<close>

record deadItem =
  di_id :: string
  di_label :: string
  di_type :: string
  di_service :: string
  di_file :: string
  di_line :: int
  di_endLine :: int

record deadOptions =
  do_service :: string
  do_file :: string
  do_transitive :: bool
  do_includeTypes :: bool
  do_refs :: "unresolvedRef list"

definition item_of :: "node \<Rightarrow> deadItem" where
  "item_of n = \<lparr>di_id = nd_id n, di_label = nd_label n, di_type = nd_type n, di_service = nd_service n, di_file = nd_file n,
     di_line = nd_line n, di_endLine = nd_endLine n\<rparr>"

definition reached :: "adjacencyIndex \<Rightarrow> deadOptions \<Rightarrow> string list \<Rightarrow> string \<Rightarrow> bool" where
  "reached idx opts live v = (if do_transitive opts then v \<in> set live else hasCaller idx v)"

definition typeHasLiveMethod :: "adjacencyIndex \<Rightarrow> string \<Rightarrow> deadOptions \<Rightarrow> string list \<Rightarrow> bool" where
  "typeHasLiveMethod idx v opts live \<longleftrightarrow>
     list_ex (\<lambda>e. ed_type e = EdgeTypeContains
       \<and> (case node_of idx (ed_to e) of None \<Rightarrow> False | Some m \<Rightarrow> nd_type m = NodeTypeMethod \<or> nd_type m = NodeTypeFunction)
       \<and> reached idx opts live (ed_to e)) (outEdges idx v)"

text \<open>A callable that is exempt from the scan.\<close>

definition spared :: "adjacencyIndex \<Rightarrow> node \<Rightarrow> bool" where
  "spared idx n \<longleftrightarrow> is_entry n \<or> IsTestFilePath (nd_file n) \<or> reflect_dispatched n \<or> isGeneratedTemplTwin idx n"

definition in_scope :: "deadOptions \<Rightarrow> node \<Rightarrow> bool" where
  "in_scope opts n \<longleftrightarrow> (do_service opts = [] \<or> nd_service n = do_service opts) \<and> (do_file opts = [] \<or> nd_file n = do_file opts)"

definition flagged :: "adjacencyIndex \<Rightarrow> deadOptions \<Rightarrow> string list \<Rightarrow> dynamicRenderTarget list \<Rightarrow> string list \<Rightarrow> node \<Rightarrow> bool" where
  "flagged idx opts routes dyn live n =
     (let callable = is_callable (nd_type n);
          view = (nd_type n = NodeTypeFile \<and> isRailsViewFile (nd_file n));
          ty = (do_includeTypes opts \<and> isTypeDecl (nd_type n)) in
      if \<not> callable \<and> nd_type n \<noteq> NodeTypeVariable \<and> \<not> view \<and> \<not> ty then False
      else if \<not> in_scope opts n then False
      else if ty then
        \<not> IsTestFilePath (nd_file n)
        \<and> (if do_transitive opts then nd_id n \<notin> set live else \<not> hasTypeUse idx (nd_id n))
        \<and> \<not> typeHasLiveMethod idx (nd_id n) opts live
      else if view then isDeadRailsView idx n routes dyn
      else if \<not> callable then
        meta_get (nd_meta n) ''scope'' \<in> {''package'', ''module''} \<and> \<not> IsTestFilePath (nd_file n) \<and> \<not> hasReader idx (nd_id n)
      else \<not> spared idx n \<and> \<not> reached idx opts live (nd_id n))"

definition item_key :: "deadItem \<Rightarrow> string \<times> string \<times> int \<times> string" where
  "item_key i = (di_service i, di_file i, di_line i, di_id i)"

definition Build_dead :: "adjacencyIndex \<Rightarrow> deadOptions \<Rightarrow> deadItem list" where
  "Build_dead idx opts =
     (let routes = railsRouteTargets idx; dyn = railsDynamicRenderTargets (do_refs opts);
          live = (if do_transitive opts then liveReachable idx (do_includeTypes opts) else []) in
      sort_key item_key (map item_of (filter (flagged idx opts routes dyn live) (map snd (ix_nodes idx)))))"

end
