(* ===== verification/Dead_Props.thy ===== *)
theory Dead_Props
  imports Dead_Code Traversal
begin

text \<open>
  What the scan for dead code reports: the walk over bridges finds exactly the called nodes, the
  transitive mode flags exactly what no live root reaches, and the report does not depend on the order
  of the node map.
\<close>

section \<open>Callers\<close>

text \<open>A node is called when an edge invokes it, or when the twin behind a bridge is called.\<close>

inductive called :: "adjacencyIndex \<Rightarrow> string \<Rightarrow> bool" for idx where
  direct: "e \<in> set (inEdges idx v) \<Longrightarrow> invoking e \<Longrightarrow> \<not> templ_bridge e \<Longrightarrow> called idx v"
| bridged: "e \<in> set (inEdges idx v) \<Longrightarrow> invoking e \<Longrightarrow> templ_bridge e \<Longrightarrow> called idx (ed_from e) \<Longrightarrow> called idx v"

lemma visit_sound:
  "fst (visit_edges idx n v es seen) \<Longrightarrow> set es \<subseteq> set (inEdges idx v) \<Longrightarrow> called idx v"
proof (induction idx n v es seen rule: visit_edges.induct)
  case (2 idx n v e es seen)
  then show ?case
    by (cases n) (auto split: if_splits prod.splits intro: called.intros)
qed simp

definition quiet :: "adjacencyIndex \<Rightarrow> string set \<Rightarrow> edge \<Rightarrow> bool" where
  "quiet idx D e \<longleftrightarrow> (invoking e \<longrightarrow> templ_bridge e \<and> ed_from e \<in> D)"

lemma quiet_mono: "quiet idx D e \<Longrightarrow> D \<subseteq> D' \<Longrightarrow> quiet idx D' e"
  by (auto simp: quiet_def)

lemma closed_not_called:
  assumes "\<forall>u \<in> D. \<forall>e \<in> set (inEdges idx u). quiet idx D e"
  shows "called idx v \<Longrightarrow> v \<notin> D"
  by (induction rule: called.induct) (use assms in \<open>auto simp: quiet_def\<close>)

text \<open>The fuel that a call needs.\<close>

definition callers_keys :: "adjacencyIndex \<Rightarrow> string set" where
  "callers_keys idx = fst ` set (ix_in idx)"

definition need :: "adjacencyIndex \<Rightarrow> string \<Rightarrow> string list \<Rightarrow> nat" where
  "need idx v seen = 2 * card (callers_keys idx - set seen) + (if v \<in> set seen then 1 else 0)"

lemma in_keys: "inEdges idx v \<noteq> [] \<Longrightarrow> v \<in> callers_keys idx"
  by (force simp: inEdges_def adj_list_def callers_keys_def dest: map_of_SomeD split: option.splits)

lemma finite_keys [simp]: "finite (callers_keys idx)"
  by (simp add: callers_keys_def)

lemma need_insert:
  assumes "v \<in> callers_keys idx" "w \<notin> set seen"
  shows "need idx w (List.insert v seen) < need idx v seen"
proof (cases "v \<in> set seen")
  case True
  then show ?thesis using assms by (auto simp: need_def insert_absorb)
next
  case False
  then have "callers_keys idx - set (List.insert v seen) \<subset> callers_keys idx - set seen" using assms(1) by auto
  then have "card (callers_keys idx - set (List.insert v seen)) < card (callers_keys idx - set seen)" by (intro psubset_card_mono) auto
  then show ?thesis using False by (simp add: need_def)
qed

lemma need_mono:
  assumes "v \<in> callers_keys idx" "set seen \<union> {v} \<subseteq> set seen'"
  shows "need idx v seen' \<le> need idx v seen"
proof (cases "v \<in> set seen")
  case True
  then show ?thesis using assms(2) by (auto simp: need_def intro!: card_mono)
next
  case False
  then have "callers_keys idx - set seen' \<subset> callers_keys idx - set seen" using assms by auto
  then have "card (callers_keys idx - set seen') < card (callers_keys idx - set seen)" by (intro psubset_card_mono) auto
  then show ?thesis using assms(2) False by (simp add: need_def)
qed

lemma visit_complete:
  assumes "visit_edges idx n v es seen = (False, seen')" "set es \<subseteq> set (inEdges idx v)" "need idx v seen \<le> n"
  shows "set seen \<subseteq> set seen' \<and> (\<exists>D. set seen' \<subseteq> set seen \<union> D \<union> {v}
    \<and> (\<forall>u \<in> D. \<forall>e \<in> set (inEdges idx u). quiet idx (D \<union> set seen \<union> {v}) e)
    \<and> (\<forall>e \<in> set es. quiet idx (D \<union> set seen \<union> {v}) e))"
  using assms
proof (induction idx n v es seen arbitrary: seen' rule: visit_edges.induct)
  case (1 idx n v seen)
  then show ?case by (intro conjI exI [of _ "{}"]) auto
next
  case (2 idx n v e es seen)
  note IH = "2.IH" and prems = "2.prems"
  have es: "set es \<subseteq> set (inEdges idx v)" using prems(2) by simp
  have v: "v \<in> callers_keys idx" using prems(2) by (intro in_keys) auto
  show ?case
  proof (cases "invoking e")
    case False
    then obtain D where "set seen \<subseteq> set seen'" "set seen' \<subseteq> set seen \<union> D \<union> {v}"
      "\<forall>u \<in> D. \<forall>e \<in> set (inEdges idx u). quiet idx (D \<union> set seen \<union> {v}) e" "\<forall>e \<in> set es. quiet idx (D \<union> set seen \<union> {v}) e"
      using IH(1) [OF False _ es prems(3)] prems(1) by auto
    moreover have "quiet idx (D \<union> set seen \<union> {v}) e" using False by (simp add: quiet_def)
    ultimately show ?thesis by (intro conjI exI [of _ D]) auto
  next
    case inv: True
    have templ: "templ_bridge e" using prems(1) inv by (simp split: if_splits)
    show ?thesis
    proof (cases "ed_from e \<in> set seen")
      case True
      then obtain D where "set seen \<subseteq> set seen'" "set seen' \<subseteq> set seen \<union> D \<union> {v}"
        "\<forall>u \<in> D. \<forall>e \<in> set (inEdges idx u). quiet idx (D \<union> set seen \<union> {v}) e" "\<forall>e \<in> set es. quiet idx (D \<union> set seen \<union> {v}) e"
        using IH(2) [OF _ templ True _ es prems(3)] inv templ prems(1) by auto
      moreover have "quiet idx (D \<union> set seen \<union> {v}) e" using True templ by (simp add: quiet_def)
      ultimately show ?thesis by (intro conjI exI [of _ D]) auto
    next
      case new: False
      let ?w = "ed_from e" and ?seen1 = "List.insert v seen"
      have less: "need idx ?w ?seen1 < n" using need_insert [OF v new] prems(3) by simp
      then obtain m where n: "n = Suc m" by (cases n) auto
      obtain seen2 where s2: "visit_edges idx m ?w (inEdges idx ?w) ?seen1 = (False, seen2)"
        and rest: "visit_edges idx n v es seen2 = (False, seen')"
        using prems(1) inv templ new n by (auto split: if_splits prod.splits)
      have "need idx ?w ?seen1 \<le> m" using less n by simp
      note N = IH(3) [OF _ templ new n s2 subset_refl this]
      then obtain D1 where D1: "set ?seen1 \<subseteq> set seen2" "set seen2 \<subseteq> set ?seen1 \<union> D1 \<union> {?w}"
        "\<forall>u \<in> D1. \<forall>e \<in> set (inEdges idx u). quiet idx (D1 \<union> set ?seen1 \<union> {?w}) e"
        "\<forall>e \<in> set (inEdges idx ?w). quiet idx (D1 \<union> set ?seen1 \<union> {?w}) e" using inv by auto
      have "set seen \<union> {v} \<subseteq> set seen2" using D1(1) by auto
      then have "need idx v seen2 \<le> n" using need_mono [OF v] prems(3) order_trans by blast
      then obtain D2 where D2: "set seen2 \<subseteq> set seen'" "set seen' \<subseteq> set seen2 \<union> D2 \<union> {v}"
        "\<forall>u \<in> D2. \<forall>e \<in> set (inEdges idx u). quiet idx (D2 \<union> set seen2 \<union> {v}) e"
        "\<forall>e \<in> set es. quiet idx (D2 \<union> set seen2 \<union> {v}) e"
        using IH(4) [OF _ templ new n s2 [symmetric] _ rest es] inv by auto
      let ?D = "insert ?w (D1 \<union> D2)"
      have sub1: "D1 \<union> set ?seen1 \<union> {?w} \<subseteq> ?D \<union> set seen \<union> {v}" by auto
      have sub2: "D2 \<union> set seen2 \<union> {v} \<subseteq> ?D \<union> set seen \<union> {v}" using D1(2) by auto
      have "quiet idx (?D \<union> set seen \<union> {v}) e" using templ by (simp add: quiet_def)
      then show ?thesis using D1 D2 quiet_mono [OF _ sub1] quiet_mono [OF _ sub2]
        by (intro conjI exI [of _ ?D]) auto
    qed
  qed
qed

lemma hasCaller_exact: "hasCaller idx v \<longleftrightarrow> called idx v"
proof
  show "called idx v" if "hasCaller idx v" using that visit_sound [OF _ subset_refl] by (simp add: hasCaller_def)
  show "hasCaller idx v" if c: "called idx v"
  proof (rule ccontr)
    assume "\<not> hasCaller idx v"
    then obtain seen' where run: "visit_edges idx (2 * length (ix_in idx)) v (inEdges idx v) [] = (False, seen')"
      by (cases "visit_edges idx (2 * length (ix_in idx)) v (inEdges idx v) []") (simp add: hasCaller_def)
    have "card (callers_keys idx) \<le> length (ix_in idx)" by (metis callers_keys_def card_image_le card_length finite_set order_trans)
    then have "need idx v [] \<le> 2 * length (ix_in idx)" by (simp add: need_def)
    then obtain D where "\<forall>u \<in> D. \<forall>e \<in> set (inEdges idx u). quiet idx (D \<union> {v}) e" "\<forall>e \<in> set (inEdges idx v). quiet idx (D \<union> {v}) e"
      using visit_complete [OF run subset_refl] by auto
    then show False using closed_not_called [of "D \<union> {v}" idx v] c by auto
  qed
qed

section \<open>Live nodes\<close>

lemma live_loop_reaches:
  assumes "set roots \<subseteq> set live" "set q \<subseteq> set live"
    and "\<forall>v \<in> set live. \<exists>r \<in> set roots. (\<lambda>a b. b \<in> set (live_succ idx t a))\<^sup>*\<^sup>* r v"
    and "\<forall>v \<in> set live. v \<in> set q \<or> set (live_succ idx t v) \<subseteq> set live"
  shows "set (live_loop idx t q live) = {v. \<exists>r \<in> set roots. (\<lambda>a b. b \<in> set (live_succ idx t a))\<^sup>*\<^sup>* r v}"
  using assms
proof (induction idx t q live rule: live_loop.induct)
  case (1 idx t live)
  have "v \<in> set live" if "(\<lambda>a b. b \<in> set (live_succ idx t a))\<^sup>*\<^sup>* r v" "r \<in> set roots" for r v
    using that by (induction rule: rtranclp_induct) (use "1.prems" in auto)
  then show ?case using "1.prems"(3) by auto
next
  case (2 idx t v q live)
  let ?new = "enqueue_all (live_succ idx t v) (set live)"
  have new: "set ?new = set (live_succ idx t v) - set live" using enqueue_all_spec by blast
  have "v \<in> set live" using "2.prems"(2) by simp
  then obtain r where r: "r \<in> set roots" "(\<lambda>a b. b \<in> set (live_succ idx t a))\<^sup>*\<^sup>* r v" using "2.prems"(3) by blast
  have "\<exists>r \<in> set roots. (\<lambda>a b. b \<in> set (live_succ idx t a))\<^sup>*\<^sup>* r w" if "w \<in> set ?new" for w
    using r that new rtranclp.rtrancl_into_rtrancl [of _ r v w] by blast
  then have "set (live_loop idx t (q @ ?new) (live @ ?new)) = {v. \<exists>r \<in> set roots. (\<lambda>a b. b \<in> set (live_succ idx t a))\<^sup>*\<^sup>* r v}"
    by (intro "2.IH" [OF refl]) (use "2.prems" new in auto)
  then show ?case by (simp add: Let_def)
qed

definition live :: "adjacencyIndex \<Rightarrow> bool \<Rightarrow> string \<Rightarrow> bool" where
  "live idx t v \<longleftrightarrow> (\<exists>(r, n) \<in> set (ix_nodes idx). isLiveRoot n \<and> (\<lambda>a b. \<exists>e \<in> set (outEdges idx a). follows t e \<and> ed_to e = b)\<^sup>*\<^sup>* r v)"

lemma liveReachable_exact: "v \<in> set (liveReachable idx t) \<longleftrightarrow> live idx t v"
proof -
  let ?roots = "enqueue_all (map fst (filter (\<lambda>(v, n). isLiveRoot n) (ix_nodes idx))) {}"
  have roots: "set ?roots = fst ` {(v, n) \<in> set (ix_nodes idx). isLiveRoot n}" using enqueue_all_spec by auto
  have step: "(\<lambda>a b. b \<in> set (live_succ idx t a)) = (\<lambda>a b. \<exists>e \<in> set (outEdges idx a). follows t e \<and> ed_to e = b)"
    by (intro ext) (auto simp: live_succ_def)
  have "set (liveReachable idx t) = {v. \<exists>r \<in> set ?roots. (\<lambda>a b. b \<in> set (live_succ idx t a))\<^sup>*\<^sup>* r v}"
    unfolding liveReachable_def Let_def by (rule live_loop_reaches) auto
  then show ?thesis unfolding step roots live_def by force
qed

section \<open>The report\<close>

text \<open>The node map: a key is the identifier of its node and occurs once.\<close>

definition index_keyed :: "adjacencyIndex \<Rightarrow> bool" where
  "index_keyed idx \<longleftrightarrow> distinct (map fst (ix_nodes idx)) \<and> (\<forall>(v, n) \<in> set (ix_nodes idx). nd_id n = v)"

lemma in_update: "x \<in> set (AList.update k v al) \<Longrightarrow> x = (k, v) \<or> x \<in> set al"
  by (induction al) (auto split: if_splits)

lemma BuildIndex_keyed: "index_keyed (BuildIndex ns es)"
proof -
  have nodes: "index_keyed (fold AddNode ns idx)" if "index_keyed idx" for idx
    using that
  proof (induction ns arbitrary: idx)
    case (Cons n ns)
    have "index_keyed (AddNode n idx)"
      using Cons.prems by (auto simp: index_keyed_def AddNode_def distinct_update dest!: in_update)
    then show ?case using Cons.IH by simp
  qed simp
  have edges: "ix_nodes (fold AddEdge es idx) = ix_nodes idx" for idx
    by (induction es arbitrary: idx) (simp_all add: AddEdge_def)
  show ?thesis using nodes [of NewAdjacencyIndex] by (simp add: BuildIndex_def index_keyed_def edges NewAdjacencyIndex_def)
qed

definition is_reached :: "adjacencyIndex \<Rightarrow> deadOptions \<Rightarrow> string \<Rightarrow> bool" where
  "is_reached idx opts v = (if do_transitive opts then live idx (do_includeTypes opts) v else called idx v)"

definition scan_live :: "adjacencyIndex \<Rightarrow> deadOptions \<Rightarrow> string list" where
  "scan_live idx opts = (if do_transitive opts then liveReachable idx (do_includeTypes opts) else [])"

definition flags :: "adjacencyIndex \<Rightarrow> deadOptions \<Rightarrow> node \<Rightarrow> bool" where
  "flags idx opts n = flagged idx opts (railsRouteTargets idx) (railsDynamicRenderTargets (do_refs opts)) (scan_live idx opts) n"

lemma reached_iff: "reached idx opts (scan_live idx opts) v \<longleftrightarrow> is_reached idx opts v"
  by (simp add: reached_def scan_live_def is_reached_def liveReachable_exact hasCaller_exact)

lemma Build_dead_flags: "Build_dead idx opts = sort_key item_key (map item_of (filter (flags idx opts) (map snd (ix_nodes idx))))"
  by (simp add: Build_dead_def Let_def flags_def [abs_def] scan_live_def)

lemma keyed_unique:
  assumes "index_keyed idx" "(v, n) \<in> set (ix_nodes idx)" "(w, m) \<in> set (ix_nodes idx)" "nd_id m = nd_id n"
  shows "m = n"
proof -
  have "v = nd_id n" "w = nd_id m" using assms(1-3) by (force simp: index_keyed_def)+
  then have "v = w" using assms(4) by simp
  then show ?thesis using assms by (auto simp: index_keyed_def dest: eq_key_imp_eq_value)
qed

lemma reported_iff:
  assumes "index_keyed idx" "(v, n) \<in> set (ix_nodes idx)"
  shows "item_of n \<in> set (Build_dead idx opts) \<longleftrightarrow> flags idx opts n"
proof
  assume "item_of n \<in> set (Build_dead idx opts)"
  then obtain w m where m: "(w, m) \<in> set (ix_nodes idx)" "flags idx opts m" "item_of m = item_of n" by (auto simp: Build_dead_flags)
  from m(3) have "nd_id m = nd_id n" by (simp add: item_of_def)
  then show "flags idx opts n" using keyed_unique [OF assms m(1)] m(2) by simp
qed (use assms in \<open>auto simp: Build_dead_flags intro: rev_image_eqI\<close>)

lemma report_distinct: "index_keyed idx \<Longrightarrow> distinct (map di_id (Build_dead idx opts))"
proof -
  assume k: "index_keyed idx"
  have ids: "map nd_id (map snd (ix_nodes idx)) = map fst (ix_nodes idx)"
    using k by (induction "ix_nodes idx") (auto simp: index_keyed_def)
  let ?xs = "filter (flags idx opts) (map snd (ix_nodes idx))"
  have "distinct (map nd_id ?xs)" using k ids by (simp add: index_keyed_def distinct_map_filter del: map_map)
  moreover have "mset (map di_id (Build_dead idx opts)) = mset (map nd_id ?xs)"
    by (simp add: Build_dead_flags item_of_def multiset.map_comp o_def)
  ultimately show ?thesis by (metis mset_eq_imp_distinct_iff)
qed

text \<open>The report in an index with the same nodes in another order.\<close>

lemma same_nodes_report:
  assumes k: "index_keyed idx" and m: "mset (ix_nodes idx') = mset (ix_nodes idx)"
    and e: "ix_out idx' = ix_out idx" "ix_in idx' = ix_in idx"
  shows "Build_dead idx' opts = Build_dead idx opts"
proof -
  have edges: "outEdges idx' = outEdges idx" "inEdges idx' = inEdges idx" by (simp_all add: fun_eq_iff outEdges_def inEdges_def e)
  have nodes: "set (ix_nodes idx') = set (ix_nodes idx)" using m by (metis set_mset_mset)
  have "mset (map fst (ix_nodes idx')) = mset (map fst (ix_nodes idx))" using m by simp
  then have d: "distinct (map fst (ix_nodes idx'))" using k by (metis index_keyed_def mset_eq_imp_distinct_iff)
  have "map_of (ix_nodes idx') = map_of (ix_nodes idx)"
    using d k nodes by (intro map_of_eqI ext) (auto simp: index_keyed_def intro!: map_of_eqI)
  then have node: "node_of idx' = node_of idx" by (simp add: fun_eq_iff node_of_def)
  have called: "called idx' v \<longleftrightarrow> called idx v" for v
  proof
    show "called idx v" if "called idx' v" using that by (induction rule: called.induct) (auto simp: edges intro: called.intros)
    show "called idx' v" if "called idx v" using that by (induction rule: called.induct) (auto simp: edges intro: called.intros)
  qed
  have live: "live idx' t v \<longleftrightarrow> live idx t v" for t v by (simp add: live_def nodes edges)
  have reached: "reached idx' opts (scan_live idx' opts) v \<longleftrightarrow> reached idx opts (scan_live idx opts) v" for v
    by (simp add: reached_iff is_reached_def live called)
  have scan: "v \<in> set (scan_live idx' opts) \<longleftrightarrow> v \<in> set (scan_live idx opts)" for v
    by (simp add: scan_live_def liveReachable_exact live)
  have routes: "set (railsRouteTargets idx') = set (railsRouteTargets idx)" by (simp add: railsRouteTargets_def nodes)
  have "flags idx' opts n \<longleftrightarrow> flags idx opts n" for n
    unfolding flags_def flagged_def typeHasLiveMethod_def isDeadRailsView_def spared_def isGeneratedTemplTwin_def
      hasTypeUse_def hasReader_def hasRenderer_def reached scan routes edges node ..
  then have f: "flags idx' opts = flags idx opts" by (simp add: fun_eq_iff)
  let ?xs = "map item_of (filter (flags idx opts) (map snd (ix_nodes idx)))"
  let ?ys = "map item_of (filter (flags idx opts) (map snd (ix_nodes idx')))"
  have "mset ?ys = mset ?xs" using m by simp
  moreover have "inj_on item_key (set ?ys)"
  proof (rule inj_onI)
    fix i j assume "i \<in> set ?ys" "j \<in> set ?ys" "item_key i = item_key j"
    then obtain v n w m where n: "(v, n) \<in> set (ix_nodes idx)" "(w, m) \<in> set (ix_nodes idx)" "i = item_of n" "j = item_of m" "item_key i = item_key j"
      by (auto simp: nodes)
    then have "nd_id m = nd_id n" by (simp add: item_key_def item_of_def)
    then show "i = j" using keyed_unique [OF k n(1,2)] n by simp
  qed
  moreover have "sorted (map item_key (sort_key item_key ?xs))" by simp
  moreover have "mset ?ys = mset (sort_key item_key ?xs)" using m by simp
  ultimately have "sort_key item_key ?ys = sort_key item_key ?xs" by (intro sort_key_inj_key_eq)
  then show ?thesis unfolding Build_dead_flags f .
qed

section \<open>Small graphs\<close>

definition dead_node :: "string \<Rightarrow> string \<Rightarrow> string \<Rightarrow> (string \<times> string) list \<Rightarrow> node" where
  "dead_node v ty file meta = \<lparr>nd_id = v, nd_type = ty, nd_label = v, nd_service = ''s'', nd_file = file, nd_line = 1,
     nd_endLine = 1, nd_language = ''go'', nd_meta = map_of meta\<rparr>"

text \<open>\<open>main\<close> calls \<open>a\<close>; \<open>b\<close> and \<open>c\<close> only call each other.\<close>

definition cluster :: adjacencyIndex where
  "cluster = BuildIndex [dead_node ''m'' NodeTypeFunction ''x.go'' [(''root_kind'', ''entrypoint'')],
       dead_node ''a'' NodeTypeFunction ''x.go'' [], dead_node ''b'' NodeTypeFunction ''x.go'' [], dead_node ''c'' NodeTypeMethod ''x.go'' []]
     [mk_edge ''m'' ''a'' ''calls'', mk_edge ''b'' ''c'' ''calls'', mk_edge ''c'' ''b'' ''calls'']"

definition scan_options :: "bool \<Rightarrow> bool \<Rightarrow> deadOptions" where
  "scan_options tr ty = \<lparr>do_service = [], do_file = [], do_transitive = tr, do_includeTypes = ty, do_refs = []\<rparr>"

lemma cluster_scans:
  "Build_dead cluster (scan_options False False) = []"
  "map di_id (Build_dead cluster (scan_options True False)) = [''b'', ''c'']"
  by code_simp+

text \<open>
  A method that is referenced as a value is classified as a callback, but the classification is only
  read for functions: the scan reports the method and spares the same function.
\<close>

definition classified :: "nodeType \<Rightarrow> node" where
  "classified ty = (case classifyRoot (\<lambda>_. False) (\<lambda>_. True) (dead_node ''f'' ty ''x.go'' []) of Some n \<Rightarrow> n | None \<Rightarrow> dead_node ''g'' ty ''x.go'' [])"

lemma method_callback_reported:
  "meta_get (nd_meta (classified NodeTypeMethod)) ''root_kind'' = ''callback''"
  "map di_id (Build_dead (BuildIndex [classified NodeTypeMethod] []) (scan_options False False)) = [''f'']"
  "Build_dead (BuildIndex [classified NodeTypeFunction] []) (scan_options False False) = []"
  by code_simp+

text \<open>
  A bridge is followed to the callers of the twin, but not to its status as a root: a component whose
  twin is used as a value is reported by the plain scan and live in the transitive one.
\<close>

lemma bridge_from_callback:
  "map di_id (Build_dead (BuildIndex [dead_node ''t'' NodeTypeFunction ''x_templ.go'' [(''root_kind'', ''callback'')], dead_node ''c'' NodeTypeComponent ''x.templ'' []]
     [(mk_edge ''t'' ''c'' EdgeTypeComponentImpl)\<lparr>ed_meta := [''via'' \<mapsto> ''templ_generated'']\<rparr>]) (scan_options False False)) = [''c'']"
  "Build_dead (BuildIndex [dead_node ''t'' NodeTypeFunction ''x_templ.go'' [(''root_kind'', ''callback'')], dead_node ''c'' NodeTypeComponent ''x.templ'' []]
     [(mk_edge ''t'' ''c'' EdgeTypeComponentImpl)\<lparr>ed_meta := [''via'' \<mapsto> ''templ_generated'']\<rparr>]) (scan_options True False) = []"
  by code_simp+

section \<open>Properties\<close>

lemma kinds_apart:
  "is_callable ty \<Longrightarrow> \<not> isTypeDecl ty \<and> ty \<noteq> NodeTypeFile \<and> ty \<noteq> NodeTypeVariable"
  "isTypeDecl ty \<Longrightarrow> \<not> is_callable ty \<and> ty \<noteq> NodeTypeFile \<and> ty \<noteq> NodeTypeVariable"
  by (auto simp: is_callable_def isTypeDecl_def NodeTypeFunction_def NodeTypeMethod_def NodeTypeComponent_def NodeTypeStruct_def
      NodeTypeInterface_def NodeTypeTypeAlias_def NodeTypeFile_def NodeTypeVariable_def)

lemma node_in: "node_of idx v = Some n \<Longrightarrow> (v, n) \<in> set (ix_nodes idx)"
  by (simp add: node_of_def map_of_SomeD)

lemma flags_callable: "is_callable (nd_type n) \<Longrightarrow> flags idx opts n \<longleftrightarrow> in_scope opts n \<and> \<not> spared idx n \<and> \<not> is_reached idx opts (nd_id n)"
  using kinds_apart(1) [of "nd_type n"] by (simp add: flags_def flagged_def reached_iff)

lemma live_method_iff:
  "typeHasLiveMethod idx v opts (scan_live idx opts) \<longleftrightarrow> (\<exists>e \<in> set (outEdges idx v). ed_type e = EdgeTypeContains \<and> is_reached idx opts (ed_to e)
     \<and> (\<exists>m. node_of idx (ed_to e) = Some m \<and> nd_type m \<in> {NodeTypeMethod, NodeTypeFunction}))"
  unfolding typeHasLiveMethod_def reached_iff list_ex_iff by (intro bex_cong refl) (auto split: option.splits)

lemma scan_live_iff: "do_transitive opts \<Longrightarrow> v \<in> set (scan_live idx opts) \<longleftrightarrow> live idx (do_includeTypes opts) v"
  by (simp add: scan_live_def liveReachable_exact)

lemma flags_type:
  "isTypeDecl (nd_type n) \<Longrightarrow> flags idx opts n \<longleftrightarrow> do_includeTypes opts \<and> in_scope opts n \<and> \<not> IsTestFilePath (nd_file n)
     \<and> (if do_transitive opts then \<not> live idx True (nd_id n) else \<forall>e \<in> set (inEdges idx (nd_id n)). \<not> type_use e)
     \<and> \<not> (\<exists>e \<in> set (outEdges idx (nd_id n)). ed_type e = EdgeTypeContains \<and> is_reached idx opts (ed_to e)
          \<and> (\<exists>m. node_of idx (ed_to e) = Some m \<and> nd_type m \<in> {NodeTypeMethod, NodeTypeFunction}))"
  using kinds_apart(2) [of "nd_type n"]
  by (cases "do_includeTypes opts"; cases "do_transitive opts")
    (simp_all add: flags_def flagged_def live_method_iff hasTypeUse_def list_ex_iff scan_live_iff)

lemma flags_variable:
  "nd_type n = NodeTypeVariable \<Longrightarrow> flags idx opts n \<longleftrightarrow> in_scope opts n \<and> meta_get (nd_meta n) ''scope'' \<in> {''package'', ''module''}
     \<and> \<not> IsTestFilePath (nd_file n) \<and> (\<forall>e \<in> set (inEdges idx (nd_id n)). ed_type e \<noteq> EdgeTypeReads)"
  using kinds_apart [of "nd_type n"]
  by (auto simp: flags_def flagged_def hasReader_def list_ex_iff NodeTypeVariable_def NodeTypeFile_def)

text \<open>
  C15: the scan for dead code is exact. The report lists every flagged node once, in order; a callable is
  flagged when it is in scope, not exempt, and nothing calls it (through the bridges of generated
  twins, however they are nested), or in transitive mode no live root reaches it; a variable of a
  package when nothing reads it; and a type, when asked for, when nothing uses it and no method of it is
  reached.
\<close>

theorem dead_code_exact:
  assumes "index_keyed idx" "(v, n) \<in> set (ix_nodes idx)"
  shows "sorted (map item_key (Build_dead idx opts)) \<and> distinct (map di_id (Build_dead idx opts))
    \<and> (is_callable (nd_type n) \<longrightarrow> (item_of n \<in> set (Build_dead idx opts) \<longleftrightarrow> in_scope opts n \<and> \<not> spared idx n \<and> \<not> is_reached idx opts v))
    \<and> (nd_type n = NodeTypeVariable \<longrightarrow> (item_of n \<in> set (Build_dead idx opts) \<longleftrightarrow> in_scope opts n
         \<and> meta_get (nd_meta n) ''scope'' \<in> {''package'', ''module''} \<and> \<not> IsTestFilePath (nd_file n)
         \<and> (\<forall>e \<in> set (inEdges idx v). ed_type e \<noteq> EdgeTypeReads)))
    \<and> (isTypeDecl (nd_type n) \<longrightarrow> (item_of n \<in> set (Build_dead idx opts) \<longleftrightarrow> do_includeTypes opts \<and> in_scope opts n \<and> \<not> IsTestFilePath (nd_file n)
         \<and> (if do_transitive opts then \<not> live idx True v else \<forall>e \<in> set (inEdges idx v). \<not> type_use e)
         \<and> \<not> (\<exists>e \<in> set (outEdges idx v). ed_type e = EdgeTypeContains \<and> is_reached idx opts (ed_to e)
              \<and> (\<exists>m. node_of idx (ed_to e) = Some m \<and> nd_type m \<in> {NodeTypeMethod, NodeTypeFunction}))))"
proof -
  have v: "nd_id n = v" using assms(1,2) by (force simp: index_keyed_def)
  have "sorted (map item_key (Build_dead idx opts))" by (simp add: Build_dead_flags)
  then show ?thesis
    using report_distinct [OF assms(1)] flags_callable [of n idx opts] flags_variable [of n idx opts] flags_type [of n idx opts]
    unfolding reported_iff [OF assms(1,2)] v by blast
qed

lemma cluster_keyed: "index_keyed cluster"
  unfolding cluster_def by (rule BuildIndex_keyed)

theorem dead_code_exact_witness:
  "\<not> called cluster ''m'' \<and> called cluster ''b'' \<and> \<not> live cluster False ''b'' \<and> distinct (map di_id (Build_dead cluster (scan_options True False)))"
proof -
  have "\<not> hasCaller cluster ''m''" "hasCaller cluster ''b''" by code_simp+
  then have c: "\<not> called cluster ''m''" "called cluster ''b''" by (simp_all add: hasCaller_exact)
  let ?n = "dead_node ''b'' NodeTypeFunction ''x.go'' []"
  have n: "(''b'', ?n) \<in> set (ix_nodes cluster)"
    by (rule node_in) (simp add: cluster_def BuildIndex_nodes dead_node_def)
  have "is_callable (nd_type ?n)" by code_simp
  moreover have "item_of ?n \<in> set (Build_dead cluster (scan_options True False))" by code_simp
  ultimately show ?thesis using dead_code_exact [OF cluster_keyed n, of "scan_options True False"] c by (simp add: scan_options_def is_reached_def)
qed

text \<open>
  The report is a function of the graph: the order in which the node map is iterated, which Go
  leaves open, changes neither its content nor its order.
\<close>

theorem report_order_independent:
  assumes "mset (ix_nodes idx') = mset (ix_nodes (BuildIndex ns es))" "ix_out idx' = ix_out (BuildIndex ns es)" "ix_in idx' = ix_in (BuildIndex ns es)"
  shows "Build_dead idx' opts = Build_dead (BuildIndex ns es) opts"
  by (rule same_nodes_report [OF BuildIndex_keyed assms])

theorem report_order_independent_witness:
  "Build_dead (cluster\<lparr>ix_nodes := rev (ix_nodes cluster)\<rparr>) (scan_options True False) = Build_dead cluster (scan_options True False)"
  unfolding cluster_def by (rule report_order_independent) simp_all

text \<open>
  The transitive mode only adds to the plain one: a callable that the plain scan reports is also
  reported transitively, in an index that lists every edge at both ends and in which no bridge starts at
  a live root (\<open>bridge_from_callback\<close> shows what happens otherwise). And what a node reported
  transitively is invoked from is itself not live.
\<close>

theorem transitive_flags_more:
  assumes "index_keyed idx" "index_linked idx" "(v, n) \<in> set (ix_nodes idx)" "is_callable (nd_type n)"
    and bridges: "\<forall>(r, m) \<in> set (ix_nodes idx). isLiveRoot m \<longrightarrow> (\<forall>e \<in> set (outEdges idx r). \<not> templ_bridge e)"
  shows "(item_of n \<in> set (Build_dead idx (opts\<lparr>do_transitive := False, do_includeTypes := False\<rparr>)) \<longrightarrow>
       item_of n \<in> set (Build_dead idx (opts\<lparr>do_transitive := True, do_includeTypes := False\<rparr>)))
    \<and> (item_of n \<in> set (Build_dead idx (opts\<lparr>do_transitive := True, do_includeTypes := False\<rparr>)) \<longrightarrow>
       (\<forall>u. \<forall>e \<in> set (outEdges idx u). ed_to e = v \<and> invoking e \<longrightarrow> \<not> live idx False u))"
proof -
  have v: "nd_id n = v" using assms(1,3) by (force simp: index_keyed_def)
  have scope: "in_scope (opts\<lparr>do_transitive := b, do_includeTypes := False\<rparr>) n = in_scope opts n" for b by (simp add: in_scope_def)
  have root: "called idx w \<or> (\<exists>(r, m) \<in> set (ix_nodes idx). r = w \<and> isLiveRoot m)"
    if "(r, m) \<in> set (ix_nodes idx)" "isLiveRoot m" "(\<lambda>a b. \<exists>e \<in> set (outEdges idx a). follows False e \<and> ed_to e = b)\<^sup>*\<^sup>* r w" for r m w
    using that(3)
  proof (induction rule: rtranclp_induct)
    case base
    then show ?case using that by blast
  next
    case (step u w)
    then obtain e where e: "e \<in> set (outEdges idx u)" "invoking e" "ed_to e = w" by (auto simp: follows_def)
    then have i: "e \<in> set (inEdges idx w)" "ed_from e = u" using assms(2) by (auto simp: index_linked_def)
    show ?case
    proof (cases "templ_bridge e")
      case True
      then have "called idx u" using step.IH bridges e(1) by blast
      then show ?thesis using called.bridged [OF i(1) e(2) True] i(2) by simp
    next
      case False
      then show ?thesis using called.direct [OF i(1) e(2)] by blast
    qed
  qed
  have spared: "isLiveRoot n \<Longrightarrow> spared idx n" using assms(4) by (auto simp: isLiveRoot_def spared_def)
  have "called idx v \<or> isLiveRoot n" if l: "live idx False v"
  proof -
    from l obtain r m where "(r, m) \<in> set (ix_nodes idx)" "isLiveRoot m" "(\<lambda>a b. \<exists>e \<in> set (outEdges idx a). follows False e \<and> ed_to e = b)\<^sup>*\<^sup>* r v"
      unfolding live_def by blast
    from root [OF this] obtain m where "called idx v \<or> (v, m) \<in> set (ix_nodes idx) \<and> isLiveRoot m" by blast
    moreover have "(v, m) \<in> set (ix_nodes idx) \<Longrightarrow> nd_id m = nd_id n" using assms(1) v by (force simp: index_keyed_def)
    ultimately show ?thesis using keyed_unique [OF assms(1,3), of v m] by blast
  qed
  then have one: "in_scope opts n \<and> \<not> spared idx n \<and> \<not> called idx v \<longrightarrow> in_scope opts n \<and> \<not> spared idx n \<and> \<not> live idx False v"
    using spared by blast
  have step: "live idx False v" if "e \<in> set (outEdges idx u)" "ed_to e = v" "invoking e" "live idx False u" for u e
    using that unfolding live_def by (auto simp: follows_def intro: rtranclp.rtrancl_into_rtrancl)
  have modes: "is_reached idx (opts\<lparr>do_transitive := False, do_includeTypes := False\<rparr>) v \<longleftrightarrow> called idx v"
    "is_reached idx (opts\<lparr>do_transitive := True, do_includeTypes := False\<rparr>) v \<longleftrightarrow> live idx False v" by (simp_all add: is_reached_def)
  show ?thesis
    unfolding reported_iff [OF assms(1,3)] flags_callable [OF assms(4)] scope v modes
  proof (rule conjI [OF one], intro impI allI ballI notI)
    fix u e
    assume "in_scope opts n \<and> \<not> spared idx n \<and> \<not> live idx False v" "e \<in> set (outEdges idx u)" "ed_to e = v \<and> invoking e" "live idx False u"
    then show False using step [of e u] by simp
  qed
qed

definition lonely :: adjacencyIndex where
  "lonely = BuildIndex [dead_node ''m'' NodeTypeFunction ''x.go'' [(''root_kind'', ''entrypoint'')], dead_node ''a'' NodeTypeMethod ''x.go'' []]
     [mk_edge ''a'' ''m'' ''calls'']"

theorem transitive_flags_more_witness:
  "item_of (dead_node ''a'' NodeTypeMethod ''x.go'' []) \<in> set (Build_dead lonely (scan_options True False))"
proof -
  let ?n = "dead_node ''a'' NodeTypeMethod ''x.go'' []"
  have k: "index_keyed lonely" unfolding lonely_def by (rule BuildIndex_keyed)
  have l: "index_linked lonely" unfolding lonely_def by (rule BuildIndex_linked)
  have n: "(''a'', ?n) \<in> set (ix_nodes lonely)"
    by (rule node_in) (simp add: lonely_def BuildIndex_nodes dead_node_def)
  have c: "is_callable (nd_type ?n)" by code_simp
  have "list_all (\<lambda>(r, m). isLiveRoot m \<longrightarrow> list_all (\<lambda>e. \<not> templ_bridge e) (outEdges lonely r)) (ix_nodes lonely)" by code_simp
  then have b: "\<forall>(r, m) \<in> set (ix_nodes lonely). isLiveRoot m \<longrightarrow> (\<forall>e \<in> set (outEdges lonely r). \<not> templ_bridge e)"
    by (auto simp: list_all_iff)
  have "item_of ?n \<in> set (Build_dead lonely ((scan_options True False)\<lparr>do_transitive := False, do_includeTypes := False\<rparr>))" by code_simp
  then have "item_of ?n \<in> set (Build_dead lonely ((scan_options True False)\<lparr>do_transitive := True, do_includeTypes := False\<rparr>))"
    using transitive_flags_more [OF k l n c b, of "scan_options True False"] by blast
  moreover have "(scan_options True False)\<lparr>do_transitive := True, do_includeTypes := False\<rparr> = scan_options True False" by (simp add: scan_options_def)
  ultimately show ?thesis by (simp only:)
qed

end
