(* ===== verification/Edge_Persistence.thy ===== *)
theory Edge_Persistence
  imports Fusion
begin

text \<open>
  Writing reconciled edges back (\<open>internal/indexer/indexer.go\<close>): the indexer skips an edge whose
  provenance the reconciler left as it was stored. The table of edges is a map from identifiers on
  which the last write of an identifier wins.
\<close>

section \<open>Model\<close>

definition write_edge :: "edge \<Rightarrow> (string \<rightharpoonup> edge) \<Rightarrow> (string \<rightharpoonup> edge)" where
  "write_edge e m = m(ed_id e \<mapsto> e)"

definition edges_by_id :: "edge list \<Rightarrow> (string \<rightharpoonup> edge)" where
  "edges_by_id es = fold write_edge es Map.empty"

definition same_source :: "sourceRef \<Rightarrow> sourceRef \<Rightarrow> bool" where
  "same_source a b \<longleftrightarrow> sr_provider a = sr_provider b \<and> sr_confidence a = sr_confidence b \<and> sr_ref a = sr_ref b
     \<and> sr_observedAt a = sr_observedAt b \<and> sr_codeFile a = sr_codeFile b \<and> sr_codeFunc a = sr_codeFunc b"

definition evidenceEdgeUnchanged :: "edge \<Rightarrow> edge \<Rightarrow> bool" where
  "evidenceEdgeUnchanged prev next \<longleftrightarrow> ed_state prev = ed_state next \<and> ed_granularity prev = ed_granularity next
     \<and> length (ed_sources prev) = length (ed_sources next) \<and> list_all2 same_source (ed_sources prev) (ed_sources next)"

definition id_count :: "edge list \<Rightarrow> string \<Rightarrow> nat" where
  "id_count es v = length (filter (\<lambda>e. ed_id e = v) es)"

definition skips :: "edge list \<Rightarrow> edge list \<Rightarrow> edge \<Rightarrow> bool" where
  "skips before after e \<longleftrightarrow> id_count after (ed_id e) = 1
     \<and> (case edges_by_id before (ed_id e) of Some prev \<Rightarrow> evidenceEdgeUnchanged prev e | None \<Rightarrow> False)"

text \<open>The loop that writes the result of a reconciliation over the edges it started from.\<close>

definition persistReconciled :: "edge list \<Rightarrow> edge list \<Rightarrow> (string \<rightharpoonup> edge) \<Rightarrow> (string \<rightharpoonup> edge)" where
  "persistReconciled before after store = fold (\<lambda>e m. if skips before after e then m else write_edge e m) after store"

section \<open>Lookups\<close>

lemma fold_write: "fold write_edge es m v = (case find (\<lambda>e. ed_id e = v) (rev es) of Some e \<Rightarrow> Some e | None \<Rightarrow> m v)"
proof (induction es rule: rev_induct)
  case (snoc e es)
  then show ?case by (simp add: write_edge_def)
qed simp

lemma edges_by_id_find: "edges_by_id es v = find (\<lambda>e. ed_id e = v) (rev es)"
  by (simp add: edges_by_id_def fold_write split: option.split)

lemma persist_filter: "persistReconciled before after store = fold write_edge (filter (\<lambda>e. \<not> skips before after e) after) store"
proof -
  have "fold (\<lambda>e m. if P e then m else write_edge e m) es m = fold write_edge (filter (\<lambda>e. \<not> P e) es) m" for P es m
    by (induction es arbitrary: m) auto
  then show ?thesis by (simp add: persistReconciled_def)
qed

lemma find_filter_same: "(\<And>e. e \<in> set es \<Longrightarrow> P e \<Longrightarrow> Q e) \<Longrightarrow> find P (filter Q es) = find P es"
  by (induction es) auto

lemma find_filter_none: "(\<And>e. e \<in> set es \<Longrightarrow> P e \<Longrightarrow> \<not> Q e) \<Longrightarrow> find P (filter Q es) = None"
  by (auto simp: find_None_iff)

lemma unique_by_count:
  assumes "id_count es v = 1" "e \<in> set es" "ed_id e = v" "d \<in> set es" "ed_id d = v"
  shows "d = e"
proof -
  obtain x where "filter (\<lambda>e. ed_id e = v) es = [x]" using assms(1) unfolding id_count_def by (metis One_nat_def length_0_conv length_Suc_conv)
  then have "{e \<in> set es. ed_id e = v} = {x}" by (metis list.set(1,2) set_filter)
  moreover have "d \<in> {e \<in> set es. ed_id e = v}" "e \<in> {e \<in> set es. ed_id e = v}" using assms(2-5) by simp_all
  ultimately show ?thesis by simp
qed

lemma find_in: "find P xs = Some x \<Longrightarrow> x \<in> set xs \<and> P x"
  by (auto simp: find_Some_iff)

text \<open>What skipping leaves in the table: the stored edge where the new one is skipped, and the new one everywhere else.\<close>

lemma persist_lookup:
  assumes "ed_id ` set before \<subseteq> ed_id ` set after"
  obtains "persistReconciled before after (edges_by_id before) v = edges_by_id after v"
  | e prev where "e \<in> set after" "ed_id e = v" "skips before after e" "edges_by_id before v = Some prev" "edges_by_id after v = Some e"
    "persistReconciled before after (edges_by_id before) v = Some prev"
proof -
  let ?P = "\<lambda>e. ed_id e = v" and ?keep = "\<lambda>e. \<not> skips before after e"
  have look: "persistReconciled before after (edges_by_id before) v
      = (case find ?P (filter ?keep (rev after)) of Some e \<Rightarrow> Some e | None \<Rightarrow> edges_by_id before v)"
    by (simp add: persist_filter fold_write rev_filter)
  show thesis
  proof (cases "\<exists>e \<in> set after. ed_id e = v \<and> skips before after e")
    case True
    then obtain e where e: "e \<in> set after" "ed_id e = v" "skips before after e" by blast
    then have one: "id_count after v = 1" by (simp add: skips_def)
    have all: "d \<in> set after \<Longrightarrow> ed_id d = v \<Longrightarrow> d = e" for d using unique_by_count [OF one e(1,2)] by blast
    then have "find ?P (filter ?keep (rev after)) = None" using e(3) by (intro find_filter_none) auto
    moreover obtain prev where p: "edges_by_id before v = Some prev" using e by (auto simp: skips_def split: option.splits)
    moreover obtain d where d: "find ?P (rev after) = Some d" using e by (cases "find ?P (rev after)") (auto simp: find_None_iff)
    moreover have "d = e" using find_in [OF d] all by auto
    ultimately show thesis using that(2) [OF e(1,2,3) p] by (simp add: look edges_by_id_find [of after])
  next
    case False
    then have "find ?P (filter ?keep (rev after)) = find ?P (rev after)" by (intro find_filter_same) auto
    moreover have "edges_by_id before v = None" if "find ?P (rev after) = None"
    proof -
      have "v \<notin> ed_id ` set after" using that by (auto simp: find_None_iff)
      then have "v \<notin> ed_id ` set before" using assms by blast
      then show ?thesis by (auto simp: edges_by_id_find find_None_iff)
    qed
    ultimately show thesis using that(1) by (auto simp: look edges_by_id_find [of after] split: option.split)
  qed
qed

section \<open>Stamped edges\<close>

lemma stamped_single:
  assumes "stamped ns e"
  obtains x where "ed_sources e = [x]" "stamp_edge ns e = e\<lparr>ed_state := [], ed_granularity := []\<rparr>"
proof -
  let ?d = "stamp_edge ns e"
  obtain x where x: "ed_sources ?d = [x]" "ed_state ?d = []" "ed_granularity ?d = []"
    by (simp add: stamp_edge_def Let_def case_prod_beta)
  have "ed_sources (set_state ?d) = [x]" using x(1) by simp
  then have e: "ed_sources e = [x]" using stamped_fixpoint [OF assms] by simp
  have "?d = e\<lparr>ed_sources := [x], ed_state := [], ed_granularity := []\<rparr>"
    using x(1) by (auto simp: stamp_edge_def Let_def case_prod_beta)
  then have "?d = e\<lparr>ed_state := [], ed_granularity := []\<rparr>" using e by (cases e) simp
  then show thesis by (rule that [OF e])
qed

lemma unchanged_stored:
  assumes st: "stamped ns prev" and u: "evidenceEdgeUnchanged prev (mark_conflict ks (set_state (confirmed_by svc ps (stamp_edge ns prev))))"
  shows "mark_conflict ks (set_state (confirmed_by svc ps (stamp_edge ns prev))) = prev"
proof -
  obtain x where x: "ed_sources prev = [x]" "stamp_edge ns prev = prev\<lparr>ed_state := [], ed_granularity := []\<rparr>" by (rule stamped_single [OF st])
  define ss where "ss = collect_sources (filter (\<lambda>pe. confirms svc pe (stamp_edge ns prev)) (map snd ps)) [x]"
  have c: "confirmed_by svc ps (stamp_edge ns prev) = with_sources (stamp_edge ns prev) ss"
    by (simp add: confirmed_by_def ss_def x)
  have "length (sortSources ss) = 1" using u by (simp add: evidenceEdgeUnchanged_def x(1) c)
  then have "length ss = 1" by (simp add: sortSources_def)
  moreover have "x \<in> set ss" using collect_sources_keeps [of "[x]"] by (simp add: ss_def)
  ultimately have "ss = [x]" by (cases ss) auto
  then have "confirmed_by svc ps (stamp_edge ns prev) = stamp_edge ns prev" unfolding c using x by (cases prev) simp
  then have "set_state (confirmed_by svc ps (stamp_edge ns prev)) = prev" using stamped_fixpoint [OF st] by simp
  then show ?thesis using stamped_fields(1) [OF st] by (simp add: mark_conflict_def StateCandidate_def StateObservedOnlyGap_def)
qed

lemma result_edges:
  assumes "Reconcile ps = Inr r" "collect_all ps = Inr all"
  obtains ks gaps where "set (rr_edges r) = mark_conflict ks ` set_state ` set (map (confirmed_by (service_of (ev_nodes (static_evidence all)))
      (offered (nonstatic all))) (ev_edges (static_evidence all)) @ gaps)"
proof -
  have es: "rr_edges r = finish_edges (fu_edges (fuse (static_evidence all) (nonstatic all)) @ fu_gaps (fuse (static_evidence all) (nonstatic all)))"
    by (rule Reconcile_unfold [OF assms(1)]) (use assms(2) in simp)
  show thesis by (rule that) (simp only: es finish_edges_def Let_def set_sort set_map fuse_edges(1))
qed

text \<open>
  What the comparison does not look at: the layer and the rule of a source. Nothing else of an edge that is skipped
  differs from what is stored, since reconciliation does not touch the other fields.
\<close>

definition unlayered :: "edge \<Rightarrow> edge" where
  "unlayered e = e\<lparr>ed_sources := map (\<lambda>s. s\<lparr>sr_layer := [], sr_rule := []\<rparr>) (ed_sources e)\<rparr>"

lemma same_sources_unlayered:
  "list_all2 same_source ss ts \<Longrightarrow> map (\<lambda>s. s\<lparr>sr_layer := [], sr_rule := []\<rparr>) ss = map (\<lambda>s. s\<lparr>sr_layer := [], sr_rule := []\<rparr>) ts"
  by (induction rule: list_all2_induct) (simp_all add: same_source_def)

lemma reconciled_fields:
  "(mark_conflict ks (set_state (confirmed_by svc ps (stamp_edge ns e))))\<lparr>ed_sources := ss, ed_state := st, ed_granularity := g\<rparr>
    = e\<lparr>ed_sources := ss, ed_state := st, ed_granularity := g\<rparr>"
  by (simp add: mark_conflict_def Evidence.set_state_def confirmed_by_def stamp_edge_def Let_def case_prod_beta)

lemma unchanged_unlayered:
  assumes "evidenceEdgeUnchanged prev next" and "\<And>ss st g. next\<lparr>ed_sources := ss, ed_state := st, ed_granularity := g\<rparr> = prev\<lparr>ed_sources := ss, ed_state := st, ed_granularity := g\<rparr>"
  shows "unlayered prev = unlayered next"
proof -
  have u: "ed_state prev = ed_state next" "ed_granularity prev = ed_granularity next" "list_all2 same_source (ed_sources prev) (ed_sources next)"
    using assms(1) by (simp_all add: evidenceEdgeUnchanged_def)
  have "unlayered e = e\<lparr>ed_sources := map (\<lambda>s. s\<lparr>sr_layer := [], sr_rule := []\<rparr>) (ed_sources e), ed_state := ed_state e, ed_granularity := ed_granularity e\<rparr>" for e
    by (simp add: unlayered_def)
  then show ?thesis using u assms(2) same_sources_unlayered [OF u(3)] by metis
qed

lemma reconciled_has_source: "ed_sources (mark_conflict ks (set_state (confirmed_by svc ps (stamp_edge ns e)))) \<noteq> []"
proof -
  have "ed_sources (stamp_edge ns e) \<noteq> []" by (simp add: stamp_edge_def Let_def case_prod_beta)
  then have "collect_sources pes (ed_sources (stamp_edge ns e)) \<noteq> []" for pes
    using collect_sources_keeps [of "ed_sources (stamp_edge ns e)" pes] by (auto simp: subset_eq)
  moreover have "sortSources ss = [] \<longleftrightarrow> ss = []" for ss by (metis length_0_conv length_sort sortSources_def)
  ultimately show ?thesis by (simp add: mark_conflict_def Evidence.set_state_def confirmed_by_def Let_def)
qed

text \<open>
  C17: the indexer may skip what the reconciler did not change. Whatever edges the table was filled with, stamped by a
  link pass or raw from the parsers, whatever the other providers report, and even when several edges share an
  identifier, writing back only the edges that changed leaves the table as if every edge of the result had been
  written, up to the layer and the rule of sources, which the comparison leaves out. An edge that was stored with a
  rule, or without any source, as the parsers leave it, is left exactly as if it had been written;
  \<open>rule_not_written\<close> shows that a stored edge whose source lacks a rule is not.
\<close>

theorem skipping_is_transparent:
  assumes "Reconcile ps = Inr r" "collect_all ps = Inr all" "static_evidence all = static_collect ns es us"
  shows "(\<forall>v. map_option unlayered (persistReconciled es (rr_edges r) (edges_by_id es) v) = map_option unlayered (edges_by_id (rr_edges r) v))
    \<and> (\<forall>v. (\<forall>e. edges_by_id es v = Some e \<longrightarrow> ed_sources e = [] \<or> stamped ns e)
          \<longrightarrow> persistReconciled es (rr_edges r) (edges_by_id es) v = edges_by_id (rr_edges r) v)"
proof -
  let ?conf = "\<lambda>e. confirmed_by (service_of ns) (offered (nonstatic all)) (stamp_edge ns e)"
  have sc: "ev_nodes (static_evidence all) = ns" "ev_edges (static_evidence all) = map (stamp_edge ns) es"
    by (simp_all add: assms(3) static_collect_def)
  obtain ks gaps where res: "set (rr_edges r) = mark_conflict ks ` set_state ` set (map ?conf es @ gaps)"
    using result_edges [OF assms(1,2)] unfolding sc by (metis (no_types, lifting) map_map comp_def map_eq_conv)
  let ?new = "\<lambda>e. mark_conflict ks (set_state (?conf e))"
  have image: "?new e \<in> set (rr_edges r)" if "e \<in> set es" for e using that by (auto simp: res)
  have id: "ed_id (?new e) = ed_id e" for e by (simp add: stamp_edge_def Let_def case_prod_beta)
  have sub: "ed_id ` set es \<subseteq> ed_id ` set (rr_edges r)" using image id by (metis image_subsetI image_eqI)
  have skipped: "e = ?new prev" "evidenceEdgeUnchanged prev (?new prev)"
    if "e \<in> set (rr_edges r)" "skips es (rr_edges r) e" "edges_by_id es (ed_id e) = Some prev" for e prev
  proof -
    have prev: "prev \<in> set es" "ed_id prev = ed_id e" "evidenceEdgeUnchanged prev e" "id_count (rr_edges r) (ed_id e) = 1"
      using that find_in [of "\<lambda>d. ed_id d = ed_id e" "rev es" prev] by (auto simp: skips_def edges_by_id_find)
    show "e = ?new prev" using unique_by_count [OF prev(4) that(1) refl image [OF prev(1)]] id prev(2) by simp
    then show "evidenceEdgeUnchanged prev (?new prev)" using prev(3) by simp
  qed
  have "map_option unlayered (persistReconciled es (rr_edges r) (edges_by_id es) v) = map_option unlayered (edges_by_id (rr_edges r) v)" for v
  proof (cases rule: persist_lookup [OF sub, of v])
    case (2 e prev)
    then have "unlayered prev = unlayered e"
      using skipped [of e prev] unchanged_unlayered [of prev "?new prev"] reconciled_fields by simp
    then show ?thesis using 2 by simp
  qed simp
  moreover have "persistReconciled es (rr_edges r) (edges_by_id es) v = edges_by_id (rr_edges r) v"
    if stored: "\<forall>e. edges_by_id es v = Some e \<longrightarrow> ed_sources e = [] \<or> stamped ns e" for v
  proof (cases rule: persist_lookup [OF sub, of v])
    case (2 e prev)
    then have new: "e = ?new prev" "evidenceEdgeUnchanged prev (?new prev)" using skipped [of e prev] by simp_all
    then have "ed_sources prev \<noteq> []" using reconciled_has_source [of ks "service_of ns" "offered (nonstatic all)" ns prev]
      by (auto simp: evidenceEdgeUnchanged_def)
    then have "?new prev = prev" using stored 2(4) unchanged_stored new(2) by blast
    then show ?thesis using 2 new(1) by simp
  qed simp
  ultimately show ?thesis by blast
qed

lemma run_static_evidence: "static_evidence run_collected = static_collect run_nodes run_static []"
  by (simp add: run_collected_def run_providers_def static_evidence_def PStatic_def PContract_def)

theorem skipping_is_transparent_witness:
  "persistReconciled run_static (rr_edges run_result) (edges_by_id run_static) = edges_by_id (rr_edges run_result)
   \<and> map_option ed_state (edges_by_id (rr_edges run_result) ''e2'') = Some StateVerified"
proof
  have "stamped run_nodes e" if "edges_by_id run_static v = Some e" for v e
    using that find_in [of "\<lambda>d. ed_id d = v" "rev run_static" e] run_static_stamped by (auto simp: edges_by_id_find stamped_def)
  then show "persistReconciled run_static (rr_edges run_result) (edges_by_id run_static) = edges_by_id (rr_edges run_result)"
    using skipping_is_transparent [OF run_reconciles run_collects run_static_evidence] by (intro ext) blast
  show "map_option ed_state (edges_by_id (rr_edges run_result) ''e2'') = Some StateVerified" by code_simp
qed

text \<open>
  The comparison leaves out the layer and the rule of a source. An edge that was stored without a rule
  gets one from the reconciler, and the table keeps the edge without it.
\<close>

definition unruled :: "edge list" where
  "unruled = [StampStatic ''f:3'' [] [] (run_edge ''e2'' ''f'' ''h'' ''x'' [] [])]"

definition rules_in :: "edge option \<Rightarrow> string list" where
  "rules_in e = (case e of Some e \<Rightarrow> map sr_rule (ed_sources e) | None \<Rightarrow> [])"

lemma rule_not_written:
  "(case Reconcile [\<lparr>pv_name = PStatic, pv_collect = Inr (static_collect run_nodes unruled [])\<rparr>] of
      Inr r \<Rightarrow> (rules_in (edges_by_id (rr_edges r) ''e2''), rules_in (persistReconciled unruled (rr_edges r) (edges_by_id unruled) ''e2''))
    | Inl _ \<Rightarrow> ([], [])) = ([''parser/call''], [[]])"
  by code_simp

end
