(* ===== verification/Blast_Radius.thy ===== *)
theory Blast_Radius
  imports Dead_Code
begin

text \<open>
  The answer to "what breaks if this changes" (\<open>internal/impact/impact.go\<close>): traversals from one or
  more roots, the classes of noise (\<open>internal/graph/noiseclass.go\<close>), the assembled result, the ledger of
  unresolved references that is attached to it (\<open>internal/graph/unresolved.go\<close>) and its verdict.

  A traversal reports an identifier without a node when an edge dangles; the code dereferences the
  missing node, so such an answer is a panic here.
\<close>

section \<open>Noise\<close>

type_synonym noiseClass = string

definition NoiseNone :: noiseClass where "NoiseNone = []"
definition NoiseFilterChain :: noiseClass where "NoiseFilterChain = ''filter_chain''"
definition NoiseMixin :: noiseClass where "NoiseMixin = ''mixin''"
definition NoiseContainment :: noiseClass where "NoiseContainment = ''containment''"
definition NoiseRenderTree :: noiseClass where "NoiseRenderTree = ''render_tree''"
definition NoiseTestCode :: noiseClass where "NoiseTestCode = ''test_code''"

definition testFileSuffixes :: "string list" where
  "testFileSuffixes = [''_test.go'', ''.test.ts'', ''.test.tsx'', ''.test.js'', ''.test.jsx'', ''.spec.ts'', ''.spec.tsx'', ''.spec.js'',
     ''.spec.jsx'', ''_spec.rb'', ''_test.rb'', ''_test.py'', ''_test.py3'']"

definition isTestFile :: "string \<Rightarrow> bool" where
  "isTestFile p \<longleftrightarrow> p \<noteq> [] \<and> (list_ex (\<lambda>s. suffix s p) testFileSuffixes \<or> prefix ''test_'' (base_name p)
     \<or> list_ex (\<lambda>s. str_has p s) [''/spec/'', ''/tests/'', ''/__tests__/''])"

definition ClassifyEdgeNoise :: "edge \<Rightarrow> node option \<Rightarrow> node option \<Rightarrow> noiseClass" where
  "ClassifyEdgeNoise e src dst =
     (if meta_get (ed_meta e) ''via'' \<in> {''rails_filter'', ''gin_middleware_use'', ''express_middleware_use'', ''closure_param''} then NoiseFilterChain
      else if ed_type e = ''inherits'' then NoiseMixin
      else if structuralEdgeTypes (ed_type e) then NoiseContainment
      else if ed_type e \<noteq> ''dom_contract'' \<and> (case dst of None \<Rightarrow> False | Some d \<Rightarrow> nd_type d \<in> {''element'', ''dom_target''}) then NoiseRenderTree
      else if (case src of None \<Rightarrow> False | Some n \<Rightarrow> isTestFile (nd_file n)) \<or> (case dst of None \<Rightarrow> False | Some n \<Rightarrow> isTestFile (nd_file n))
        then NoiseTestCode
      else NoiseNone)"

text \<open>The classes that are shown.\<close>

type_synonym noiseInclude = "noiseClass list"

definition Allows :: "noiseInclude \<Rightarrow> noiseClass \<Rightarrow> bool" where
  "Allows inc c \<longleftrightarrow> c = NoiseNone \<or> c \<in> set inc"

definition allNoiseClasses :: "noiseClass list" where
  "allNoiseClasses = [NoiseFilterChain, NoiseMixin, NoiseContainment, NoiseRenderTree, NoiseTestCode]"

definition AllNoiseInclude :: noiseInclude where
  "AllNoiseInclude = allNoiseClasses"

fun parse_include :: "string list \<Rightarrow> noiseInclude \<Rightarrow> string + noiseInclude" where
  "parse_include [] out = Inr out"
| "parse_include (k # ks) out =
     (if k = ''all'' then Inr (out @ allNoiseClasses)
      else if k = ''none'' \<or> k = [] then parse_include ks out
      else if k \<notin> set allNoiseClasses then Inl k
      else parse_include ks (out @ [k]))"

definition ParseNoiseInclude :: "string list \<Rightarrow> string + noiseInclude" where
  "ParseNoiseInclude ks = parse_include ks []"

definition DefaultNoiseInclude :: "string \<Rightarrow> noiseInclude" where
  "DefaultNoiseInclude intent = (if intent = ''generate'' then [NoiseRenderTree] else [])"

definition ResolveNoiseInclude :: "string list \<Rightarrow> string \<Rightarrow> string + noiseInclude" where
  "ResolveNoiseInclude raw task = (if raw \<noteq> [] then ParseNoiseInclude raw else Inr (DefaultNoiseInclude task))"

section \<open>Hits\<close>

record hit =
  ht_node :: node
  ht_via :: "edge option"
  ht_depth :: nat
  ht_structural :: bool

record blastOptions =
  bo_depth :: int
  bo_service :: string
  bo_direction :: string
  bo_policy :: traversalPolicy
  bo_include :: noiseInclude

definition hit_of :: "traversalResult \<Rightarrow> hit option" where
  "hit_of r = map_option (\<lambda>n. \<lparr>ht_node = n, ht_via = tr_via r, ht_depth = tr_depth r, ht_structural = tr_structural r\<rparr>) (tr_node r)"

definition hits_from :: "adjacencyIndex \<Rightarrow> string \<Rightarrow> string \<Rightarrow> blastOptions \<Rightarrow> hit list option" where
  "hits_from idx root dir opts = those (map hit_of (TraverseWithPolicy idx root dir BFS (bo_depth opts) (bo_policy opts)))"

definition hit_id :: "hit \<Rightarrow> string" where "hit_id h = nd_id (ht_node h)"

definition join_directions :: "hit list \<Rightarrow> hit list \<Rightarrow> hit list" where
  "join_directions back fwd = back @ filter (\<lambda>d. hit_id d \<notin> hit_id ` set back) fwd"

definition keep_service :: "string \<Rightarrow> hit list \<Rightarrow> hit list" where
  "keep_service svc hs = (if svc \<noteq> [] then filter (\<lambda>h. nd_service (ht_node h) = svc) hs else hs)"

text \<open>\<open>None\<close> is the panic.\<close>

definition traverseFrom :: "adjacencyIndex \<Rightarrow> string \<Rightarrow> blastOptions \<Rightarrow> hit list option" where
  "traverseFrom idx root opts =
     map_option (keep_service (bo_service opts))
       (if bo_direction opts = ''forward'' then hits_from idx root DirOut opts
        else if bo_direction opts = ''both'' then
          Option.bind (hits_from idx root DirIn opts) (\<lambda>back. map_option (join_directions back) (hits_from idx root DirOut opts))
        else hits_from idx root DirIn opts)"

definition direction :: "string \<Rightarrow> string" where
  "direction d = (if d = [] then ''backward'' else d)"

section \<open>The assembled answer\<close>

record caller =
  cl_node :: node
  cl_depth :: nat
  cl_structural :: bool
  cl_edgeType :: string
  cl_confidence :: string
  cl_edgeMeta :: "string \<rightharpoonup> string"
  cl_state :: string
  cl_granularity :: string
  cl_sources :: "sourceRef list"

record blastResult =
  bl_target :: node
  bl_targets :: "node list"
  bl_callers :: "caller list"
  bl_entryPoints :: "node list"
  bl_services :: "string list"
  bl_triggers :: "(string \<times> nat) list"
  bl_depth :: int
  bl_direction :: string
  bl_total :: nat
  bl_unresolved :: "unresolvedRef list"
  bl_summary :: verificationSummary
  bl_hidden :: "string \<rightharpoonup> nat"

definition hit_class :: "adjacencyIndex \<Rightarrow> hit \<Rightarrow> noiseClass" where
  "hit_class idx h =
     (case ht_via h of None \<Rightarrow> NoiseNone
      | Some e \<Rightarrow> ClassifyEdgeNoise e (node_of idx (if ed_from e = hit_id h then ed_to e else ed_from e)) (Some (ht_node h)))"

definition hide_step :: "adjacencyIndex \<Rightarrow> noiseInclude \<Rightarrow> hit \<Rightarrow> hit list \<times> (string \<rightharpoonup> nat) \<Rightarrow> hit list \<times> (string \<rightharpoonup> nat)" where
  "hide_step idx inc h s =
     (if Allows inc (hit_class idx h) then (fst s @ [h], snd s)
      else (fst s, (snd s)(hit_class idx h \<mapsto> Suc (case snd s (hit_class idx h) of Some n \<Rightarrow> n | None \<Rightarrow> 0))))"

definition caller_of :: "hit \<Rightarrow> caller" where
  "caller_of h =
     (case ht_via h of
        None \<Rightarrow> \<lparr>cl_node = ht_node h, cl_depth = ht_depth h, cl_structural = ht_structural h, cl_edgeType = [], cl_confidence = [],
          cl_edgeMeta = Map.empty, cl_state = [], cl_granularity = [], cl_sources = []\<rparr>
      | Some e \<Rightarrow> \<lparr>cl_node = ht_node h, cl_depth = ht_depth h, cl_structural = ht_structural h, cl_edgeType = ed_type e,
          cl_confidence = ed_confidence e, cl_edgeMeta = ed_meta e, cl_state = ed_state e, cl_granularity = ed_granularity e,
          cl_sources = ed_sources e\<rparr>)"

definition foreign_services :: "adjacencyIndex \<Rightarrow> hit \<Rightarrow> string list" where
  "foreign_services idx h =
     concat (map (\<lambda>e. case node_of idx (ed_from e) of None \<Rightarrow> []
       | Some n \<Rightarrow> if nd_service n \<noteq> nd_service (ht_node h) then [nd_service n] else []) (inEdges idx (hit_id h)))"

definition triggers_of :: "adjacencyIndex \<Rightarrow> hit list \<Rightarrow> (string \<times> nat) list" where
  "triggers_of idx hs =
     (let ss = concat (map (foreign_services idx) hs) in map (\<lambda>s. (s, count_list ss s)) (sort (remdups ss)))"

definition via_edges :: "hit list \<Rightarrow> edge list" where
  "via_edges hs = concat (map (\<lambda>h. case ht_via h of None \<Rightarrow> [] | Some e \<Rightarrow> [e]) hs)"

definition assemble :: "adjacencyIndex \<Rightarrow> blastOptions \<Rightarrow> node \<Rightarrow> node list \<Rightarrow> hit list \<Rightarrow> blastResult" where
  "assemble idx opts target targets hits =
     (let (hs, hidden) = fold (hide_step idx (bo_include opts)) hits ([], Map.empty) in
      \<lparr>bl_target = target, bl_targets = targets, bl_callers = map caller_of hs,
       bl_entryPoints = map ht_node (filter (\<lambda>h. inEdges idx (hit_id h) = []) hs),
       bl_services = sort (remdups (map (\<lambda>h. nd_service (ht_node h)) hs)), bl_triggers = triggers_of idx hs,
       bl_depth = bo_depth opts, bl_direction = direction (bo_direction opts), bl_total = length hs, bl_unresolved = [],
       bl_summary = BuildVerificationSummary (via_edges hs), bl_hidden = hidden\<rparr>)"

definition Build_blast :: "adjacencyIndex \<Rightarrow> node \<Rightarrow> blastOptions \<Rightarrow> blastResult option" where
  "Build_blast idx root opts = map_option (assemble idx opts root []) (traverseFrom idx (nd_id root) opts)"

section \<open>Several roots\<close>

text \<open>The nearest hit of every node so far.\<close>

definition merge_hit :: "hit \<Rightarrow> (string \<times> hit) list \<Rightarrow> (string \<times> hit) list" where
  "merge_hit a m =
     (case map_of m (hit_id a) of
        Some existing \<Rightarrow> if ht_depth a < ht_depth existing then AList.update (hit_id a) a m else m
      | None \<Rightarrow> AList.update (hit_id a) a m)"

fun merge_roots :: "adjacencyIndex \<Rightarrow> blastOptions \<Rightarrow> node list \<Rightarrow> (string \<times> hit) list \<Rightarrow> (string \<times> hit) list option" where
  "merge_roots idx opts [] m = Some m"
| "merge_roots idx opts (r # rs) m =
     (case traverseFrom idx (nd_id r) opts of None \<Rightarrow> None | Some hs \<Rightarrow> merge_roots idx opts rs (fold merge_hit hs m))"

definition multi_hits :: "adjacencyIndex \<Rightarrow> blastOptions \<Rightarrow> node list \<Rightarrow> hit list option" where
  "multi_hits idx opts roots = map_option (\<lambda>m. sort_key (\<lambda>h. (ht_depth h, hit_id h)) (map snd m)) (merge_roots idx opts roots [])"

definition BuildMulti :: "adjacencyIndex \<Rightarrow> node list \<Rightarrow> blastOptions \<Rightarrow> blastResult option" where
  "BuildMulti idx roots opts =
     (case roots of
        [] \<Rightarrow> None
      | [r] \<Rightarrow> Build_blast idx r opts
      | r # rs \<Rightarrow> map_option (assemble idx opts r roots) (multi_hits idx opts roots))"

section \<open>Unresolved references\<close>

definition UnresolvedInFiles :: "unresolvedRef list \<Rightarrow> string set \<Rightarrow> unresolvedRef list" where
  "UnresolvedInFiles refs files = filter (\<lambda>r. ur_file r \<in> files) refs"

definition retractableKinds :: "string \<rightharpoonup> edgeType" where
  "retractableKinds = [''inherits_unresolved'' \<mapsto> ''inherits'', ''call_ref'' \<mapsto> ''calls'',
     ''instantiates_unresolved'' \<mapsto> EdgeTypeInstantiates, ''import_ref'' \<mapsto> EdgeTypeImports]"

definition witness_key :: "string \<Rightarrow> string \<Rightarrow> string \<Rightarrow> string \<Rightarrow> string" where
  "witness_key svc file name ty = svc @ [nul] @ file @ [nul] @ name @ [nul] @ ty"

definition witness_keys :: "node list \<Rightarrow> edge list \<Rightarrow> string list" where
  "witness_keys ns es =
     concat (map (\<lambda>e. case (find (\<lambda>n. nd_id n = ed_from e) (rev ns), find (\<lambda>n. nd_id n = ed_to e) (rev ns)) of
       (Some from, Some to) \<Rightarrow> [witness_key (nd_service from) (nd_file from) (nd_label to) (ed_type e)] | _ \<Rightarrow> []) es)"

definition RetractResolvedRefs :: "unresolvedRef list \<Rightarrow> node list \<Rightarrow> edge list \<Rightarrow> unresolvedRef list" where
  "RetractResolvedRefs refs ns es =
     (if refs = [] then refs
      else let keys = witness_keys ns es in
        filter (\<lambda>r. \<not> (case retractableKinds (ur_kind r) of None \<Rightarrow> False
          | Some et \<Rightarrow> witness_key (ur_service r) (ur_file r) (ur_name r) et \<in> set keys)) refs)"

definition isExternalFrameworkRef :: "string list \<Rightarrow> unresolvedRef \<Rightarrow> bool" where
  "isExternalFrameworkRef declared r =
     (if ur_kind r = ''jsx_framework_component'' then True
      else if ur_kind r = ''jsx_component_unresolved'' then \<not> str_has (ur_name r) ''.'' \<and> ur_name r \<notin> set declared
      else if ur_kind r = ''inherits_unresolved'' then
        (if suffix ''.Component'' (ur_name r) \<or> suffix ''.PureComponent'' (ur_name r) then True
         else if ur_name r \<in> {''React.Component'', ''React.PureComponent'', ''React.Fragment'', ''HTMLElement''} then True
         else if ur_name r \<in> {''Component'', ''PureComponent''} then ur_name r \<notin> set declared
         else False)
      else False)"

definition DropExternalFrameworkRefs :: "unresolvedRef list \<Rightarrow> adjacencyIndex option \<Rightarrow> unresolvedRef list" where
  "DropExternalFrameworkRefs refs idx =
     (let declared = (case idx of None \<Rightarrow> []
        | Some i \<Rightarrow> map nd_label (filter (\<lambda>n. nd_type n \<in> {NodeTypeFunction, NodeTypeMethod, NodeTypeClass, NodeTypeComponent}) (map snd (ix_nodes i)))) in
      filter (\<lambda>r. \<not> isExternalFrameworkRef declared r) refs)"

definition AttachUnresolved :: "unresolvedRef list \<Rightarrow> blastResult \<Rightarrow> blastResult" where
  "AttachUnresolved refs r =
     r\<lparr>bl_unresolved := UnresolvedInFiles refs (insert (nd_file (bl_target r)) ((\<lambda>c. nd_file (cl_node c)) ` set (bl_callers r)))\<rparr>"

definition FinalizeEpistemic :: "trustStamp \<Rightarrow> blastResult \<Rightarrow> epistemic" where
  "FinalizeEpistemic trust r =
     BuildEpistemic (bl_unresolved r) (HasWeakConfidence (map cl_confidence (bl_callers r))) (bl_summary r) trust"

end
