(* ===== verification/Blast_Props.thy ===== *)
theory Blast_Props
  imports Blast_Radius Dead_Props Fusion
begin

text \<open>
  What an answer about impact contains: exactly the nodes within reach of a root, at the distance of the
  nearest one; every hidden hit is counted; and the verdict is exact only when nothing in the answer is
  in doubt.
\<close>

section \<open>Hits\<close>

text \<open>No edge dangles.\<close>

definition index_closed :: "adjacencyIndex \<Rightarrow> bool" where
  "index_closed idx \<longleftrightarrow> (\<forall>v \<in> ends idx. node_of idx v \<noteq> None)"

lemma loop_nodes: "r \<in> set (trav_loop idx dir mode mx pol q vis) \<Longrightarrow> tr_node r = node_of idx (tr_id r)"
proof (induction idx dir mode mx pol q vis rule: trav_loop.induct)
  case (1 idx dir mode mx pol q vis)
  show ?case
  proof (cases "pop mode q")
    case None
    then show ?thesis using "1.prems" by (simp add: trav_loop.simps)
  next
    case (Some cr)
    obtain cur rest where cr: "cr = (cur, rest)" by (cases cr)
    obtain new vis1 where pe: "push_edges idx dir pol cur (dir_edges idx dir (qi_id cur)) vis = (new, vis1)" by fastforce
    have rep: "r \<in> set (report idx cur) \<Longrightarrow> tr_node r = node_of idx (tr_id r)" by (auto simp: report_def split: if_splits)
    show ?thesis
    proof (cases "halts mx cur")
      case True
      then show ?thesis using "1.prems" "1.IH"(1) [OF Some cr [symmetric] True] rep Some cr by (auto simp: trav_loop.simps [of idx dir mode mx pol q vis])
    next
      case False
      then show ?thesis using "1.prems" "1.IH"(2) [OF Some cr [symmetric] False pe [symmetric] refl] rep Some cr pe
        by (auto simp: trav_loop.simps [of idx dir mode mx pol q vis])
    qed
  qed
qed

lemma row_node:
  assumes "r \<in> set (TraverseWithPolicy idx start dir mode mx pol)"
  shows "tr_node r = node_of idx (tr_id r)" "tr_id r \<in> ends idx"
proof -
  show "tr_node r = node_of idx (tr_id r)" using assms loop_nodes by (auto simp: TraverseWithPolicy_def split: if_splits)
  obtain e u where "e \<in> set (dir_edges idx dir u)" "far_end dir e = tr_id r" using rows_hang [OF assms] unfolding hangs_def by blast
  then show "tr_id r \<in> ends idx" using far_end_in by metis
qed

lemma keyed_id: "index_keyed idx \<Longrightarrow> node_of idx v = Some n \<Longrightarrow> nd_id n = v"
  using node_in [of idx v n] by (force simp: index_keyed_def)

lemma those_map_Some: "(\<And>x. x \<in> set xs \<Longrightarrow> f x = Some (g x)) \<Longrightarrow> those (map f xs) = Some (map g xs)"
  by (induction xs) auto

definition hop :: "adjacencyIndex \<Rightarrow> string \<Rightarrow> blastOptions \<Rightarrow> string \<Rightarrow> string \<Rightarrow> nat \<Rightarrow> bool" where
  "hop idx dir opts root v d \<longleftrightarrow> 0 < d \<and> at_dist (trav_adj idx dir (bo_policy opts)) {root} d v \<and> (bo_depth opts \<le> 0 \<or> int d \<le> bo_depth opts)"

text \<open>The hits of a direction, as pairs of identifier and depth.\<close>

definition places :: "hit list \<Rightarrow> (string \<times> nat) set" where
  "places hs = (\<lambda>h. (hit_id h, ht_depth h)) ` set hs"

lemma hits_from_exact:
  assumes "index_keyed idx" "index_closed idx" "no_terminal (bo_policy opts)" "node_of idx root \<noteq> None"
  obtains hs where "hits_from idx root dir opts = Some hs" "distinct (map hit_id hs)" "\<forall>v d. (v, d) \<in> places hs \<longleftrightarrow> hop idx dir opts root v d"
    "\<forall>h \<in> set hs. node_of idx (hit_id h) = Some (ht_node h)"
proof -
  let ?rows = "TraverseWithPolicy idx root dir BFS (bo_depth opts) (bo_policy opts)"
  have node: "node_of idx (tr_id r) = Some (the (tr_node r))" "tr_node r = Some (the (tr_node r))" if "r \<in> set ?rows" for r
    using row_node [OF that] assms(2) by (auto simp: index_closed_def)
  define g where "g = (\<lambda>r :: traversalResult. \<lparr>ht_node = the (tr_node r), ht_via = tr_via r, ht_depth = tr_depth r, ht_structural = tr_structural r\<rparr>)"
  have g: "hit_of r = Some (g r)" if "r \<in> set ?rows" for r
    using node(2) [OF that] unfolding hit_of_def g_def by (metis (no_types, lifting) option.map(2))
  have id: "hit_id (g r) = tr_id r" if "r \<in> set ?rows" for r
    using keyed_id [OF assms(1) node(1) [OF that]] by (simp add: hit_id_def g_def)
  have rows: "distinct (map tr_id ?rows)" "\<And>v d. (v, d) \<in> tr_row ` set ?rows \<longleftrightarrow> hop idx dir opts root v d"
    using bfs_rows [OF assms(4,3)] unfolding hop_def by blast+
  show thesis
  proof (rule that)
    show "hits_from idx root dir opts = Some (map g ?rows)" unfolding hits_from_def by (rule those_map_Some) (rule g)
    have ids: "map hit_id (map g ?rows) = map tr_id ?rows" unfolding map_map comp_def by (rule map_cong [OF refl id])
    show "distinct (map hit_id (map g ?rows))" unfolding ids by (rule rows(1))
    have "places (map g ?rows) = tr_row ` set ?rows" unfolding places_def set_map image_image
    proof (rule image_cong [OF refl])
      fix r assume "r \<in> set ?rows"
      moreover have "ht_depth (g r) = tr_depth r" by (simp add: g_def)
      ultimately show "(hit_id (g r), ht_depth (g r)) = tr_row r" by (simp add: id)
    qed
    then show "\<forall>v d. (v, d) \<in> places (map g ?rows) \<longleftrightarrow> hop idx dir opts root v d" using rows(2) by simp
    show "\<forall>h \<in> set (map g ?rows). node_of idx (hit_id h) = Some (ht_node h)" using id node(1) by (auto simp: g_def)
  qed
qed

definition root_hop :: "adjacencyIndex \<Rightarrow> blastOptions \<Rightarrow> string \<Rightarrow> string \<Rightarrow> nat \<Rightarrow> bool" where
  "root_hop idx opts root v d \<longleftrightarrow>
     (if bo_direction opts = ''forward'' then hop idx DirOut opts root v d
      else if bo_direction opts = ''both'' then hop idx DirIn opts root v d \<or> (\<forall>d'. \<not> hop idx DirIn opts root v d') \<and> hop idx DirOut opts root v d
      else hop idx DirIn opts root v d)
     \<and> (bo_service opts = [] \<or> (\<exists>n. node_of idx v = Some n \<and> nd_service n = bo_service opts))"

lemma places_append [simp]: "places (xs @ ys) = places xs \<union> places ys"
  by (simp add: places_def image_Un)

lemma hit_ids_places: "hit_id ` set hs = fst ` places hs"
  by (simp add: places_def image_image)

lemma keep_service_facts:
  assumes "\<forall>h \<in> set hs. node_of idx (hit_id h) = Some (ht_node h)"
  shows "places (keep_service svc hs) = {(v, d) \<in> places hs. svc = [] \<or> (\<exists>n. node_of idx v = Some n \<and> nd_service n = svc)}"
    and "distinct (map hit_id hs) \<Longrightarrow> distinct (map hit_id (keep_service svc hs))"
  using assms by (force simp: keep_service_def places_def) (simp add: keep_service_def distinct_map_filter)

lemma join_facts:
  "places (join_directions back fwd) = places back \<union> {(v, d) \<in> places fwd. v \<notin> fst ` places back}"
  "distinct (map hit_id back) \<Longrightarrow> distinct (map hit_id fwd) \<Longrightarrow> distinct (map hit_id (join_directions back fwd))"
proof -
  show "places (join_directions back fwd) = places back \<union> {(v, d) \<in> places fwd. v \<notin> fst ` places back}"
    unfolding join_directions_def places_append by (auto simp: places_def image_image)
  assume "distinct (map hit_id back)" "distinct (map hit_id fwd)"
  then show "distinct (map hit_id (join_directions back fwd))"
    unfolding join_directions_def map_append distinct_append by (auto simp: distinct_map_filter image_def)
qed

lemma traverseFrom_exact:
  assumes "index_keyed idx" "index_closed idx" "no_terminal (bo_policy opts)" "node_of idx root \<noteq> None"
  obtains hs where "traverseFrom idx root opts = Some hs" "distinct (map hit_id hs)" "\<forall>v d. (v, d) \<in> places hs \<longleftrightarrow> root_hop idx opts root v d"
proof -
  obtain hin where i: "hits_from idx root DirIn opts = Some hin" "distinct (map hit_id hin)"
    "\<forall>v d. (v, d) \<in> places hin \<longleftrightarrow> hop idx DirIn opts root v d" "\<forall>h \<in> set hin. node_of idx (hit_id h) = Some (ht_node h)"
    using hits_from_exact [OF assms, of DirIn] by metis
  obtain hout where o: "hits_from idx root DirOut opts = Some hout" "distinct (map hit_id hout)"
    "\<forall>v d. (v, d) \<in> places hout \<longleftrightarrow> hop idx DirOut opts root v d" "\<forall>h \<in> set hout. node_of idx (hit_id h) = Some (ht_node h)"
    using hits_from_exact [OF assms, of DirOut] by metis
  define hs where "hs = (if bo_direction opts = ''forward'' then hout else if bo_direction opts = ''both'' then join_directions hin hout else hin)"
  have t: "traverseFrom idx root opts = Some (keep_service (bo_service opts) hs)" by (simp add: traverseFrom_def hs_def i(1) o(1))
  have nodes: "\<forall>h \<in> set hs. node_of idx (hit_id h) = Some (ht_node h)" using i(4) o(4) by (auto simp: hs_def join_directions_def)
  have d: "distinct (map hit_id hs)" using i(2) o(2) join_facts(2) by (simp add: hs_def)
  have "(v, n) \<in> places (keep_service (bo_service opts) hs) \<longleftrightarrow> root_hop idx opts root v n" for v n
  proof -
    have "v \<in> fst ` places hin \<longleftrightarrow> (\<exists>d'. hop idx DirIn opts root v d')" using i(3) by force
    then have "(v, n) \<in> places hs \<longleftrightarrow> (if bo_direction opts = ''forward'' then hop idx DirOut opts root v n
      else if bo_direction opts = ''both'' then hop idx DirIn opts root v n \<or> (\<forall>d'. \<not> hop idx DirIn opts root v d') \<and> hop idx DirOut opts root v n
      else hop idx DirIn opts root v n)"
      using i(3) o(3) by (auto simp: hs_def join_facts(1))
    then show ?thesis unfolding keep_service_facts(1) [OF nodes] root_hop_def by simp
  qed
  then show thesis using that [OF t] keep_service_facts(2) [OF nodes d] by blast
qed

section \<open>The nearest root\<close>

definition nearest :: "(string \<times> nat) set \<Rightarrow> (string \<times> nat) set" where
  "nearest S = {(v, d) \<in> S. \<forall>d'. (v, d') \<in> S \<longrightarrow> d \<le> d'}"

lemma set_update: "distinct (map fst al) \<Longrightarrow> set (AList.update k v al) = insert (k, v) {x \<in> set al. fst x \<noteq> k}"
  by (induction al) (auto simp: image_iff)

lemma nearest_exists:
  assumes "(v, d) \<in> S" obtains m where "(v, m) \<in> nearest S" "m \<le> d"
proof -
  define m where "m = (LEAST d. (v, d) \<in> S)"
  have "(v, m) \<in> S" "\<And>d'. (v, d') \<in> S \<Longrightarrow> m \<le> d'"
    unfolding m_def using LeastI [of "\<lambda>d. (v, d) \<in> S", OF assms] Least_le [of "\<lambda>d. (v, d) \<in> S"] by auto
  then show thesis using that [of m] assms by (simp add: nearest_def)
qed

lemma nearest_insert:
  "(v, m) \<in> nearest S \<Longrightarrow> m \<le> d \<Longrightarrow> nearest (insert (v, d) S) = nearest S"
  "\<forall>m. (v, m) \<in> nearest S \<longrightarrow> d < m \<Longrightarrow> nearest (insert (v, d) S) = insert (v, d) {x \<in> nearest S. fst x \<noteq> v}"
proof -
  show "(v, m) \<in> nearest S \<Longrightarrow> m \<le> d \<Longrightarrow> nearest (insert (v, d) S) = nearest S"
    by (auto simp: nearest_def)
  assume far: "\<forall>m. (v, m) \<in> nearest S \<longrightarrow> d < m"
  have le: "d < e" if ve: "(v, e) \<in> S" for e
  proof -
    obtain m where m: "(v, m) \<in> nearest S" "m \<le> e" using ve by (rule nearest_exists)
    have "d < m" using far m(1) by simp
    then show ?thesis using m(2) by simp
  qed
  have "(u, e) \<in> nearest (insert (v, d) S) \<longleftrightarrow> (u, e) \<in> insert (v, d) {x \<in> nearest S. fst x \<noteq> v}" for u e
  proof (cases "u = v")
    case True
    have "(v, d) \<in> nearest (insert (v, d) S)" using le by (auto simp: nearest_def intro: less_imp_le)
    moreover have "e = d" if "(v, e) \<in> nearest (insert (v, d) S)"
    proof (rule ccontr)
      assume "e \<noteq> d"
      then have "(v, e) \<in> S" "e \<le> d" using that by (simp_all add: nearest_def)
      then show False using le [of e] by simp
    qed
    ultimately have "(v, e) \<in> nearest (insert (v, d) S) \<longleftrightarrow> e = d" by metis
    then show ?thesis using True by simp
  qed (simp add: nearest_def)
  then show "nearest (insert (v, d) S) = insert (v, d) {x \<in> nearest S. fst x \<noteq> v}" by (simp add: set_eq_iff split_paired_all)
qed

lemma nearest_fst [simp]: "fst ` nearest S = fst ` S"
proof -
  have "nearest S \<subseteq> S" by (auto simp: nearest_def)
  moreover have "fst ` S \<subseteq> fst ` nearest S"
  proof
    fix v assume "v \<in> fst ` S"
    then obtain d where "(v, d) \<in> S" by force
    then obtain m where "(v, m) \<in> nearest S" by (rule nearest_exists)
    then show "v \<in> fst ` nearest S" by force
  qed
  ultimately show ?thesis by blast
qed

definition nearest_merge :: "(string \<times> nat) set \<Rightarrow> (string \<times> hit) list \<Rightarrow> bool" where
  "nearest_merge S m \<longleftrightarrow> distinct (map fst m) \<and> (\<forall>(v, h) \<in> set m. hit_id h = v) \<and> (\<lambda>(v, h). (v, ht_depth h)) ` set m = nearest S"

lemma merge_hit_nearest:
  assumes "nearest_merge S m"
  shows "nearest_merge (insert (hit_id h, ht_depth h) S) (merge_hit h m)"
proof -
  let ?v = "hit_id h" and ?d = "ht_depth h"
  have m: "distinct (map fst m)" "\<And>v k. (v, k) \<in> set m \<Longrightarrow> hit_id k = v" "(\<lambda>(v, h). (v, ht_depth h)) ` set m = nearest S"
    using assms by (auto simp: nearest_merge_def)
  have near: "(v, d) \<in> nearest S \<longleftrightarrow> (\<exists>k. (v, k) \<in> set m \<and> ht_depth k = d)" for v d
    unfolding m(3) [symmetric] by force
  have closer: "nearest_merge (insert (?v, ?d) S) (AList.update ?v h m)" if "\<forall>e. (?v, e) \<in> nearest S \<longrightarrow> ?d < e"
    unfolding nearest_merge_def nearest_insert(2) [OF that] set_update [OF m(1)] m(3) [symmetric]
    using m(2) by (auto simp: distinct_update [OF m(1)])
  show ?thesis
  proof (cases "map_of m ?v")
    case None
    then have "(?v, e) \<notin> nearest S" for e using near by (auto simp: map_of_eq_None_iff image_iff)
    then show ?thesis using closer None by (simp add: merge_hit_def)
  next
    case (Some k)
    then have k: "(?v, k) \<in> set m" by (rule map_of_SomeD)
    have only: "(?v, e) \<in> nearest S \<longleftrightarrow> e = ht_depth k" for e
      unfolding near using k eq_key_imp_eq_value [OF m(1) k] by metis
    show ?thesis
    proof (cases "?d < ht_depth k")
      case True
      then show ?thesis using closer only Some by (simp add: merge_hit_def)
    next
      case False
      then have "nearest (insert (?v, ?d) S) = nearest S" using nearest_insert(1) only by simp
      then show ?thesis using False Some assms by (simp add: merge_hit_def nearest_merge_def)
    qed
  qed
qed

lemma fold_merge_nearest: "nearest_merge S m \<Longrightarrow> nearest_merge (places hs \<union> S) (fold merge_hit hs m)"
proof (induction hs arbitrary: S m)
  case (Cons h hs)
  have "places (h # hs) \<union> S = places hs \<union> insert (hit_id h, ht_depth h) S" by (simp add: places_def)
  then show ?case using Cons.IH [OF merge_hit_nearest [OF Cons.prems, of h]] by simp
qed (simp add: places_def)

lemma nearest_places: "distinct (map hit_id hs) \<Longrightarrow> nearest (places hs) = places hs"
  by (auto simp: nearest_def places_def distinct_map inj_on_def)

lemma merge_roots_nearest:
  assumes "index_keyed idx" "index_closed idx" "no_terminal (bo_policy opts)" "\<forall>r \<in> set roots. node_of idx (nd_id r) \<noteq> None" "nearest_merge S m"
  obtains m' where "merge_roots idx opts roots m = Some m'" "nearest_merge ({(v, d). \<exists>r \<in> set roots. root_hop idx opts (nd_id r) v d} \<union> S) m'"
  using assms(4,5)
proof (induction roots arbitrary: S m thesis)
  case Nil
  then show ?case by simp
next
  case (Cons r rs)
  have "node_of idx (nd_id r) \<noteq> None" using Cons.prems(2) by simp
  then obtain hs where hs: "traverseFrom idx (nd_id r) opts = Some hs" "\<forall>v d. (v, d) \<in> places hs \<longleftrightarrow> root_hop idx opts (nd_id r) v d"
    by (rule traverseFrom_exact [OF assms(1-3)])
  have rest: "\<forall>r \<in> set rs. node_of idx (nd_id r) \<noteq> None" using Cons.prems(2) by simp
  obtain m' where m': "merge_roots idx opts rs (fold merge_hit hs m) = Some m'"
    "nearest_merge ({(v, d). \<exists>r \<in> set rs. root_hop idx opts (nd_id r) v d} \<union> (places hs \<union> S)) m'"
    by (rule Cons.IH [OF _ rest fold_merge_nearest [OF Cons.prems(3)]])
  have "places hs = {(v, d). root_hop idx opts (nd_id r) v d}" using hs(2) by auto
  then have "{(v, d). \<exists>r \<in> set rs. root_hop idx opts (nd_id r) v d} \<union> (places hs \<union> S)
    = {(v, d). \<exists>r \<in> set (r # rs). root_hop idx opts (nd_id r) v d} \<union> S" by auto
  then show ?case using Cons.prems(1) [of m'] m' hs(1) by simp
qed

section \<open>The assembled answer\<close>

lemma hide_fold:
  "fold (hide_step idx inc) hs (shown, hid) =
    (shown @ filter (\<lambda>h. Allows inc (hit_class idx h)) hs,
     \<lambda>c. let k = length (filter (\<lambda>h. hit_class idx h = c \<and> \<not> Allows inc c) hs) in
        if k = 0 then hid c else Some (k + (case hid c of Some n \<Rightarrow> n | None \<Rightarrow> 0)))"
proof (induction hs arbitrary: shown hid)
  case (Cons h hs)
  then show ?case by (cases "Allows inc (hit_class idx h)") (auto simp: hide_step_def Let_def fun_eq_iff split: option.splits)
qed (simp add: Let_def)

lemma assemble_fields:
  "bl_callers (assemble idx opts t ts hs) = map caller_of (filter (\<lambda>h. Allows (bo_include opts) (hit_class idx h)) hs)"
  "bl_total (assemble idx opts t ts hs) = length (filter (\<lambda>h. Allows (bo_include opts) (hit_class idx h)) hs)"
  "bl_targets (assemble idx opts t ts hs) = ts"
  "bl_target (assemble idx opts t ts hs) = t"
  "bl_hidden (assemble idx opts t ts hs) = (\<lambda>c. let k = length (filter (\<lambda>h. hit_class idx h = c \<and> \<not> Allows (bo_include opts) c) hs) in
     if k = 0 then None else Some k)"
  "bl_summary (assemble idx opts t ts hs) = BuildVerificationSummary (via_edges (filter (\<lambda>h. Allows (bo_include opts) (hit_class idx h)) hs))"
  by (simp_all add: assemble_def hide_fold fun_eq_iff)

lemma hit_class_known: "hit_class idx h \<in> insert NoiseNone (set allNoiseClasses)"
  by (auto simp: hit_class_def ClassifyEdgeNoise_def allNoiseClasses_def split: option.splits)

lemma allow_all: "Allows AllNoiseInclude (hit_class idx h)"
  using hit_class_known [of idx h] by (auto simp: Allows_def AllNoiseInclude_def)

lemma caller_of_fields [simp]:
  "cl_node (caller_of h) = ht_node h" "cl_depth (caller_of h) = ht_depth h"
  "cl_confidence (caller_of h) = (case ht_via h of None \<Rightarrow> [] | Some e \<Rightarrow> ed_confidence e)"
  "cl_state (caller_of h) = (case ht_via h of None \<Rightarrow> [] | Some e \<Rightarrow> ed_state e)"
  by (simp_all add: caller_of_def split: option.splits)

text \<open>The hits an answer is assembled from.\<close>

definition raw_hits :: "adjacencyIndex \<Rightarrow> node list \<Rightarrow> blastOptions \<Rightarrow> hit list option" where
  "raw_hits idx roots opts = (case roots of [] \<Rightarrow> None | [r] \<Rightarrow> traverseFrom idx (nd_id r) opts | _ \<Rightarrow> multi_hits idx opts roots)"

lemma BuildMulti_raw:
  "BuildMulti idx roots opts = map_option (assemble idx opts (hd roots) (if tl roots = [] then [] else roots)) (raw_hits idx roots opts)"
  by (simp add: BuildMulti_def raw_hits_def Build_blast_def split: list.splits)

lemma raw_hits_exact:
  assumes "index_keyed idx" "index_closed idx" "no_terminal (bo_policy opts)" "roots \<noteq> []" "\<forall>r \<in> set roots. node_of idx (nd_id r) \<noteq> None"
  obtains hs where "raw_hits idx roots opts = Some hs" "distinct (map hit_id hs)"
    "places hs = nearest {(v, d). \<exists>r \<in> set roots. root_hop idx opts (nd_id r) v d}"
proof (cases "tl roots = []")
  case True
  then obtain r where r: "roots = [r]" using assms(4) by (cases roots) auto
  have "node_of idx (nd_id r) \<noteq> None" using assms(5) r by simp
  then obtain hs where hs: "traverseFrom idx (nd_id r) opts = Some hs" "distinct (map hit_id hs)" "\<forall>v d. (v, d) \<in> places hs \<longleftrightarrow> root_hop idx opts (nd_id r) v d"
    by (rule traverseFrom_exact [OF assms(1-3)])
  have "places hs = {(v, d). \<exists>r \<in> set roots. root_hop idx opts (nd_id r) v d}" using hs(3) r by auto
  then show thesis using that [of hs] hs nearest_places [OF hs(2)] r by (simp add: raw_hits_def)
next
  case False
  have raw: "raw_hits idx roots opts = multi_hits idx opts roots" using False assms(4) by (auto simp: raw_hits_def split: list.splits)
  have "nearest_merge {} []" by (simp add: nearest_merge_def nearest_def)
  then obtain m where m: "merge_roots idx opts roots [] = Some m" "nearest_merge ({(v, d). \<exists>r \<in> set roots. root_hop idx opts (nd_id r) v d} \<union> {}) m"
    by (rule merge_roots_nearest [OF assms(1-3,5)])
  let ?hs = "sort_key (\<lambda>h. (ht_depth h, hit_id h)) (map snd m)"
  have ids: "map hit_id (map snd m) = map fst m" using m(2) by (auto simp: nearest_merge_def)
  have "distinct (map hit_id (map snd m))" unfolding ids using m(2) by (simp add: nearest_merge_def)
  then have "distinct (map hit_id ?hs)" by (simp add: distinct_map del: map_map)
  moreover have "places ?hs = (\<lambda>(v, h). (v, ht_depth h)) ` set m"
    unfolding places_def set_sort set_map image_image by (rule image_cong [OF refl]) (use m(2) in \<open>auto simp: nearest_merge_def\<close>)
  ultimately show thesis using that [of ?hs] raw m by (simp add: multi_hits_def nearest_merge_def)
qed


text \<open>\<open>b\<close> calls \<open>a\<close>, \<open>c\<close> calls \<open>b\<close> and \<open>z\<close>; a test calls \<open>z\<close>.\<close>

definition town :: adjacencyIndex where
  "town = BuildIndex [dead_node ''a'' NodeTypeFunction ''x.go'' [], dead_node ''b'' NodeTypeFunction ''x.go'' [],
       dead_node ''c'' NodeTypeFunction ''x.go'' [], dead_node ''z'' NodeTypeFunction ''y.go'' [], dead_node ''t'' NodeTypeFunction ''y_test.go'' []]
     [mk_edge ''b'' ''a'' ''calls'', mk_edge ''c'' ''b'' ''calls'', mk_edge ''c'' ''z'' ''calls'', mk_edge ''t'' ''z'' ''calls'']"

definition town_roots :: "node list" where
  "town_roots = [dead_node ''a'' NodeTypeFunction ''x.go'' [], dead_node ''z'' NodeTypeFunction ''y.go'' []]"

definition town_options :: "noiseInclude \<Rightarrow> blastOptions" where
  "town_options inc = \<lparr>bo_depth = 0, bo_service = [], bo_direction = [], bo_policy = BlastRadiusPolicy, bo_include = inc\<rparr>"

definition hidden_count :: "blastResult \<Rightarrow> noiseClass \<Rightarrow> nat" where
  "hidden_count r c = (case bl_hidden r c of Some n \<Rightarrow> n | None \<Rightarrow> 0)"

definition answer_rows :: "blastResult option \<Rightarrow> (string \<times> nat) list option" where
  "answer_rows = map_option (\<lambda>r. map (\<lambda>c. (nd_id (cl_node c), cl_depth c)) (bl_callers r))"

lemma town_answers:
  "answer_rows (BuildMulti town town_roots (town_options AllNoiseInclude)) = Some [(''b'', 1), (''c'', 1), (''t'', 1)]"
  "answer_rows (BuildMulti town town_roots (town_options [])) = Some [(''b'', 1), (''c'', 1)]"
  "map_option (\<lambda>r. hidden_count r NoiseTestCode) (BuildMulti town town_roots (town_options [])) = Some 1"
  by code_simp+


section \<open>What is hidden\<close>

lemma traverseFrom_include: "traverseFrom idx root (opts\<lparr>bo_include := inc\<rparr>) = traverseFrom idx root opts"
  by (simp add: traverseFrom_def hits_from_def)

lemma merge_roots_include: "merge_roots idx (opts\<lparr>bo_include := inc\<rparr>) roots m = merge_roots idx opts roots m"
  by (induction roots arbitrary: m) (simp_all add: traverseFrom_include split: option.splits)

lemma raw_hits_include: "raw_hits idx roots (opts\<lparr>bo_include := inc\<rparr>) = raw_hits idx roots opts"
  unfolding raw_hits_def multi_hits_def merge_roots_include traverseFrom_include by (rule refl)

lemma count_classes:
  assumes "finite C" "\<forall>h \<in> set hs. P h \<longrightarrow> f h \<in> C"
  shows "length (filter P hs) = (\<Sum>c \<in> C. length (filter (\<lambda>h. f h = c \<and> P h) hs))"
  using assms(2)
proof (induction hs)
  case (Cons h hs)
  have IH: "length (filter P hs) = (\<Sum>c \<in> C. length (filter (\<lambda>h. f h = c \<and> P h) hs))" using Cons by simp
  show ?case
  proof (cases "P h")
    case True
    have "(\<Sum>c \<in> C. length (filter (\<lambda>h. f h = c \<and> P h) (h # hs)))
      = (\<Sum>c \<in> C. length (filter (\<lambda>h. f h = c \<and> P h) hs) + (if f h = c then 1 else 0))"
      using True by (intro sum.cong) auto
    also have "\<dots> = (\<Sum>c \<in> C. length (filter (\<lambda>h. f h = c \<and> P h) hs)) + 1"
      using True Cons.prems assms(1) by (simp add: sum.distrib)
    finally show ?thesis using True IH by simp
  qed (simp add: IH)
qed simp

lemma hidden_counts:
  "hidden_count (assemble idx opts t ts hs) c = length (filter (\<lambda>h. hit_class idx h = c \<and> \<not> Allows (bo_include opts) (hit_class idx h)) hs)"
proof -
  have "filter (\<lambda>h. hit_class idx h = c \<and> \<not> Allows (bo_include opts) c) hs
    = filter (\<lambda>h. hit_class idx h = c \<and> \<not> Allows (bo_include opts) (hit_class idx h)) hs" by (rule filter_cong) auto
  then show ?thesis by (simp add: hidden_count_def assemble_fields(5) Let_def)
qed

text \<open>
  C18: hiding noise loses nothing silently. The answer with some classes hidden is the full answer with
  callers left out, in the same order, and every one that is left out is counted under its class; a class
  that is shown is never counted.
\<close>

theorem hidden_noise_is_counted:
  assumes "BuildMulti idx roots opts = Some r" "BuildMulti idx roots (opts\<lparr>bo_include := AllNoiseInclude\<rparr>) = Some full"
  shows "subseq (bl_callers r) (bl_callers full) \<and> bl_total full = bl_total r + (\<Sum>c \<in> set allNoiseClasses. hidden_count r c)
    \<and> (\<forall>c \<in> set (bo_include opts). hidden_count r c = 0)"
proof -
  let ?ts = "if tl roots = [] then [] else roots" and ?shown = "\<lambda>h. Allows (bo_include opts) (hit_class idx h)"
  obtain hs where hs: "raw_hits idx roots opts = Some hs" "r = assemble idx opts (hd roots) ?ts hs"
    using assms(1) by (auto simp: BuildMulti_raw)
  have full: "full = assemble idx (opts\<lparr>bo_include := AllNoiseInclude\<rparr>) (hd roots) ?ts hs"
    using assms(2) hs(1) by (simp add: BuildMulti_raw raw_hits_include)
  have all: "bl_callers full = map caller_of hs" "bl_total full = length hs" unfolding full assemble_fields by (simp_all add: allow_all)
  have "subseq (map caller_of (filter ?shown hs)) (map caller_of hs)" by (rule subseq_map) (rule subseq_filter_left)
  moreover have "\<forall>h \<in> set hs. \<not> ?shown h \<longrightarrow> hit_class idx h \<in> set allNoiseClasses"
    using hit_class_known [of idx] by (auto simp: Allows_def)
  then have "length (filter (\<lambda>h. \<not> ?shown h) hs) = (\<Sum>c \<in> set allNoiseClasses. hidden_count r c)"
    unfolding hs(2) hidden_counts by (intro count_classes) simp_all
  moreover have "\<forall>c \<in> set (bo_include opts). hidden_count r c = 0"
    unfolding hs(2) hidden_counts by (auto simp: filter_empty_conv Allows_def)
  ultimately show ?thesis
    unfolding all hs(2) assemble_fields(1,2) using sum_length_filter_compl [of ?shown hs] by simp
qed

theorem hidden_noise_is_counted_witness:
  "map_option bl_total (BuildMulti town town_roots (town_options AllNoiseInclude))
    = map_option (\<lambda>r. bl_total r + (\<Sum>c \<in> set allNoiseClasses. hidden_count r c)) (BuildMulti town town_roots (town_options []))"
proof -
  obtain r full where r: "BuildMulti town town_roots (town_options []) = Some r" "BuildMulti town town_roots (town_options AllNoiseInclude) = Some full"
    using town_answers(1,2) by (auto simp: answer_rows_def)
  have "town_options AllNoiseInclude = (town_options [])\<lparr>bo_include := AllNoiseInclude\<rparr>" by (simp add: town_options_def)
  then show ?thesis using hidden_noise_is_counted [OF r(1), of full] r by simp
qed

section \<open>The verdict\<close>

lemma via_states:
  "(\<forall>e \<in> set (via_edges hs). ed_state e \<noteq> s) \<longleftrightarrow> (\<forall>c \<in> set (map caller_of hs). cl_state c \<noteq> s)" if "s \<noteq> []"
  using that by (induction hs) (auto simp: via_edges_def split: option.splits)

text \<open>The files in which an unresolved reference counts: the file of the first root and those of the callers shown.\<close>

definition consulted_files :: "node list \<Rightarrow> blastResult \<Rightarrow> string set" where
  "consulted_files roots r = insert (nd_file (hd roots)) ((\<lambda>c. nd_file (cl_node c)) ` set (bl_callers r))"

lemma verdict_causes:
  "set (ep_causes (BuildEpistemic unres weak vs trust)) =
     {c. c = ''unresolved_reference'' \<and> unres \<noteq> [] \<or> c = ''dynamic_dispatch'' \<and> weak \<or> c = ''candidate_edge'' \<and> vs_candidate vs > 0
       \<or> c = ''conflicting_evidence'' \<and> vs_conflicting vs > 0 \<or> c = ''unmeasured_trust'' \<and> \<not> ts_measured trust \<or> c = ''stale_trust'' \<and> ts_stale trust}"
  "sorted (ep_causes (BuildEpistemic unres weak vs trust))"
  "ep_verdict (BuildEpistemic unres weak vs trust) = (if ep_causes (BuildEpistemic unres weak vs trust) = [] then EpistemicExact else EpistemicLowerBound)"
proof -
  have e: "set (if b then [x] else []) = {c. c = x \<and> b}" for b and x :: string by simp
  show "set (ep_causes (BuildEpistemic unres weak vs trust)) =
     {c. c = ''unresolved_reference'' \<and> unres \<noteq> [] \<or> c = ''dynamic_dispatch'' \<and> weak \<or> c = ''candidate_edge'' \<and> vs_candidate vs > 0
       \<or> c = ''conflicting_evidence'' \<and> vs_conflicting vs > 0 \<or> c = ''unmeasured_trust'' \<and> \<not> ts_measured trust \<or> c = ''stale_trust'' \<and> ts_stale trust}"
    unfolding BuildEpistemic_def Let_def epistemic.simps set_sort concat.simps set_append e
    by (simp only: Collect_disj_eq list.set(1) Un_empty_right)
  show "sorted (ep_causes (BuildEpistemic unres weak vs trust))" unfolding BuildEpistemic_def Let_def epistemic.simps by (rule sorted_sort)
  show "ep_verdict (BuildEpistemic unres weak vs trust) = (if ep_causes (BuildEpistemic unres weak vs trust) = [] then EpistemicExact else EpistemicLowerBound)"
    unfolding BuildEpistemic_def Let_def epistemic.simps by (simp only: if_not_P if_P split: if_split) blast
qed

text \<open>
  C16: the verdict names its doubts. An impact answer is called exact if and only if it names no cause of doubt, and it
  names, in order, exactly those that apply: a reference that is unresolved in the file of the first root or of a
  caller that is shown; a shown caller that was reached over an edge of partial or unknown confidence, over a
  candidate, or over conflicting evidence; trust that was not measured; trust that is stale. The files of further
  roots and of hidden callers are not consulted (\<open>second_root_unscoped\<close>), so what the verdict vouches for is the answer of
  the first root, as far as it is shown.
\<close>

theorem verdict_names_its_doubts:
  assumes "BuildMulti idx roots opts = Some r"
  defines "ep refs trust \<equiv> FinalizeEpistemic trust (AttachUnresolved refs r)"
  shows "(ep_verdict (ep refs trust) = EpistemicExact \<longleftrightarrow> ep_causes (ep refs trust) = [])
    \<and> sorted (ep_causes (ep refs trust))
    \<and> set (ep_causes (ep refs trust)) =
       {c. c = ''unresolved_reference'' \<and> (\<exists>u \<in> set refs. ur_file u \<in> consulted_files roots r)
         \<or> c = ''dynamic_dispatch'' \<and> (\<exists>k \<in> set (bl_callers r). cl_confidence k \<in> {ConfidencePartial, ConfidenceUnknown})
         \<or> c = ''candidate_edge'' \<and> (\<exists>k \<in> set (bl_callers r). cl_state k = StateCandidate)
         \<or> c = ''conflicting_evidence'' \<and> (\<exists>k \<in> set (bl_callers r). cl_state k = StateConflicting)
         \<or> c = ''unmeasured_trust'' \<and> \<not> ts_measured trust \<or> c = ''stale_trust'' \<and> ts_stale trust}"
proof -
  let ?ts = "if tl roots = [] then [] else roots"
  obtain hs where r: "r = assemble idx opts (hd roots) ?ts hs" using assms(1) by (auto simp: BuildMulti_raw)
  let ?hs = "filter (\<lambda>h. Allows (bo_include opts) (hit_class idx h)) hs"
  have c: "bl_callers r = map caller_of ?hs" "bl_target r = hd roots" "bl_summary r = BuildVerificationSummary (via_edges ?hs)"
    by (simp_all add: r assemble_fields)
  have s: "StateCandidate \<noteq> []" "StateConflicting \<noteq> []" by (simp_all add: StateCandidate_def StateConflicting_def)
  have refs: "UnresolvedInFiles refs F \<noteq> [] \<longleftrightarrow> (\<exists>u \<in> set refs. ur_file u \<in> F)" for F by (simp add: UnresolvedInFiles_def filter_empty_conv)
  have weak: "HasWeakConfidence (map cl_confidence cs) \<longleftrightarrow> (\<exists>c \<in> set cs. cl_confidence c \<in> {ConfidencePartial, ConfidenceUnknown})" for cs
    by (auto simp: HasWeakConfidence_def list_ex_iff)
  have zero: "vs_candidate (bl_summary r) = 0 \<longleftrightarrow> (\<forall>c \<in> set (bl_callers r). cl_state c \<noteq> StateCandidate)"
    "vs_conflicting (bl_summary r) = 0 \<longleftrightarrow> (\<forall>c \<in> set (bl_callers r). cl_state c \<noteq> StateConflicting)"
    unfolding c BuildVerificationSummary_def verificationSummary.simps count_state_zero via_states [OF s(1)] via_states [OF s(2)] by (rule refl)+
  then have counts: "vs_candidate (bl_summary r) > 0 \<longleftrightarrow> (\<exists>c \<in> set (bl_callers r). cl_state c = StateCandidate)"
    "vs_conflicting (bl_summary r) > 0 \<longleftrightarrow> (\<exists>c \<in> set (bl_callers r). cl_state c = StateConflicting)" by auto
  have ep: "ep refs trust = BuildEpistemic (UnresolvedInFiles refs (consulted_files roots r)) (HasWeakConfidence (map cl_confidence (bl_callers r))) (bl_summary r) trust"
    for refs trust unfolding ep_def FinalizeEpistemic_def AttachUnresolved_def consulted_files_def by (simp add: c(2))
  have "EpistemicExact \<noteq> EpistemicLowerBound" by (simp add: EpistemicExact_def EpistemicLowerBound_def)
  then show ?thesis unfolding ep verdict_causes(1) verdict_causes(3) refs weak counts using verdict_causes(2) by simp
qed

definition blind_spot :: "string \<Rightarrow> unresolvedRef" where
  "blind_spot file = \<lparr>ur_service = ''s'', ur_file = file, ur_line = 3, ur_name = ''f'', ur_kind = ''call_ref'', ur_targets = []\<rparr>"

definition fresh :: trustStamp where "fresh = \<lparr>ts_measured = True, ts_stale = False\<rparr>"

lemma town_reversed:
  "map_option (\<lambda>r. list_all (\<lambda>c. cl_confidence c \<notin> {ConfidencePartial, ConfidenceUnknown} \<and> cl_state c \<notin> {StateCandidate, StateConflicting}) (bl_callers r))
     (BuildMulti town (rev town_roots) (town_options [])) = Some True"
  by code_simp

theorem verdict_names_its_doubts_witness:
  "map_option (\<lambda>r. ep_causes (FinalizeEpistemic fresh (AttachUnresolved [blind_spot ''y.go''] r))) (BuildMulti town (rev town_roots) (town_options []))
     = Some [''unresolved_reference'']"
proof -
  obtain r where r: "BuildMulti town (rev town_roots) (town_options []) = Some r"
    by (cases "BuildMulti town (rev town_roots) (town_options [])") (use town_reversed in simp_all)
  let ?ep = "FinalizeEpistemic fresh (AttachUnresolved [blind_spot ''y.go''] r)"
  have plain: "\<forall>c \<in> set (bl_callers r). cl_confidence c \<notin> {ConfidencePartial, ConfidenceUnknown} \<and> cl_state c \<notin> {StateCandidate, StateConflicting}"
    using town_reversed by (simp add: r list_all_iff)
  have first: "''y.go'' \<in> consulted_files (rev town_roots) r" by (simp add: consulted_files_def town_roots_def dead_node_def)
  note causes = verdict_names_its_doubts [OF r, of fresh "[blind_spot ''y.go'']"]
  have "set (ep_causes ?ep) = {''unresolved_reference''}" using causes plain first by (auto simp: fresh_def blind_spot_def)
  moreover have "distinct (ep_causes ?ep)" by (simp add: FinalizeEpistemic_def BuildEpistemic_def Let_def)
  ultimately have "length (ep_causes ?ep) = 1" "hd (ep_causes ?ep) = ''unresolved_reference''"
    by (simp_all add: distinct_card [symmetric]) (metis empty_iff hd_in_set insert_iff list.set(1))
  then have "ep_causes ?ep = [''unresolved_reference'']" by (cases "ep_causes ?ep") simp_all
  then show ?thesis by (simp add: r)
qed

text \<open>
  A departure: the files of the other roots are not looked at. A reference in the file of the second
  root, which nothing calls, leaves the verdict of the joint answer exact, though it makes the answer for
  that root alone a lower bound.
\<close>

definition two_islands :: adjacencyIndex where
  "two_islands = BuildIndex [dead_node ''a'' NodeTypeFunction ''x.go'' [], dead_node ''z'' NodeTypeFunction ''y.go'' []] []"

definition verdict_of :: "adjacencyIndex \<Rightarrow> node list \<Rightarrow> unresolvedRef list \<Rightarrow> string option" where
  "verdict_of idx roots refs = map_option (\<lambda>r. ep_verdict (FinalizeEpistemic fresh (AttachUnresolved refs r))) (BuildMulti idx roots (town_options []))"

lemma second_root_unscoped:
  "verdict_of two_islands town_roots [blind_spot ''y.go''] = Some EpistemicExact"
  "verdict_of two_islands (tl town_roots) [blind_spot ''y.go''] = Some EpistemicLowerBound"
  by code_simp+

section \<open>References that were resolved later\<close>

lemma find_rev_keyed:
  assumes "distinct (map nd_id ns)"
  shows "find (\<lambda>n. nd_id n = v) (rev ns) = Some n \<longleftrightarrow> n \<in> set ns \<and> nd_id n = v"
proof
  assume "find (\<lambda>n. nd_id n = v) (rev ns) = Some n"
  then show "n \<in> set ns \<and> nd_id n = v" by (auto simp: find_Some_iff) (metis length_rev nth_mem set_rev)
next
  assume n: "n \<in> set ns \<and> nd_id n = v"
  have "find (\<lambda>n. nd_id n = v) (rev ns) \<noteq> None" using n by (auto simp: find_None_iff)
  then obtain m where m: "find (\<lambda>n. nd_id n = v) (rev ns) = Some m" by blast
  then have "m \<in> set ns" "nd_id m = v" by (auto simp: find_Some_iff) (metis length_rev nth_mem set_rev)
  then have "m = n" using n assms by (auto simp: distinct_map inj_on_def)
  then show "find (\<lambda>n. nd_id n = v) (rev ns) = Some n" using m by simp
qed

text \<open>An edge that witnesses the resolution of a reference.\<close>

definition resolves :: "node list \<Rightarrow> edge \<Rightarrow> unresolvedRef \<Rightarrow> bool" where
  "resolves ns e u \<longleftrightarrow> retractableKinds (ur_kind u) = Some (ed_type e)
     \<and> (\<exists>m \<in> set ns. \<exists>n \<in> set ns. ed_from e = nd_id m \<and> ed_to e = nd_id n
          \<and> nd_service m = ur_service u \<and> nd_file m = ur_file u \<and> nd_label n = ur_name u)"

definition nul_free :: "string list \<Rightarrow> bool" where
  "nul_free ss \<longleftrightarrow> (\<forall>s \<in> set ss. nul \<notin> set s)"

lemma witness_key_inj:
  "nul_free [a, b, c] \<Longrightarrow> nul_free [a', b', c'] \<Longrightarrow> witness_key a b c t = witness_key a' b' c' t' \<longleftrightarrow> a = a' \<and> b = b' \<and> c = c' \<and> t = t'"
  unfolding witness_key_def nul_free_def
  using nul_split [of a a' "b @ [nul] @ c @ [nul] @ t"] nul_split [of b b' "c @ [nul] @ t"] nul_split [of c c' t] by auto

lemma one_witness:
  "k \<in> set (case (a, b) of (Some m, Some n) \<Rightarrow> [g m n] | _ \<Rightarrow> []) \<longleftrightarrow> (\<exists>m n. a = Some m \<and> b = Some n \<and> k = g m n)"
  by (cases a; cases b) auto

lemma witness_keys_iff:
  assumes "distinct (map nd_id ns)" "\<forall>n \<in> set ns. nul_free [nd_service n, nd_file n, nd_label n]" "nul_free [ur_service u, ur_file u, ur_name u]"
  shows "witness_key (ur_service u) (ur_file u) (ur_name u) ty \<in> set (witness_keys ns es)
    \<longleftrightarrow> (\<exists>e \<in> set es. ed_type e = ty \<and> (\<exists>m \<in> set ns. \<exists>n \<in> set ns. ed_from e = nd_id m \<and> ed_to e = nd_id n
          \<and> nd_service m = ur_service u \<and> nd_file m = ur_file u \<and> nd_label n = ur_name u))"
proof -
  let ?key = "witness_key (ur_service u) (ur_file u) (ur_name u) ty"
  have "?key \<in> set (witness_keys ns es) \<longleftrightarrow> (\<exists>e \<in> set es. \<exists>m n. find (\<lambda>n. nd_id n = ed_from e) (rev ns) = Some m
      \<and> find (\<lambda>n. nd_id n = ed_to e) (rev ns) = Some n \<and> ?key = witness_key (nd_service m) (nd_file m) (nd_label n) (ed_type e))"
    unfolding witness_keys_def set_concat set_map UN_simps(10) UN_iff one_witness by (rule refl)
  also have "\<dots> \<longleftrightarrow> (\<exists>e \<in> set es. \<exists>m \<in> set ns. \<exists>n \<in> set ns. ed_from e = nd_id m \<and> ed_to e = nd_id n
      \<and> ?key = witness_key (nd_service m) (nd_file m) (nd_label n) (ed_type e))"
    unfolding find_rev_keyed [OF assms(1)] by metis
  also have "\<dots> \<longleftrightarrow> (\<exists>e \<in> set es. \<exists>m \<in> set ns. \<exists>n \<in> set ns. ed_from e = nd_id m \<and> ed_to e = nd_id n
      \<and> (nd_service m = ur_service u \<and> nd_file m = ur_file u \<and> nd_label n = ur_name u \<and> ed_type e = ty))"
  proof (intro bex_cong refl conj_cong)
    fix e m n assume "m \<in> set ns" "n \<in> set ns"
    then have "nul_free [nd_service m, nd_file m, nd_label n]" using assms(2) by (simp add: nul_free_def)
    then show "?key = witness_key (nd_service m) (nd_file m) (nd_label n) (ed_type e)
      \<longleftrightarrow> nd_service m = ur_service u \<and> nd_file m = ur_file u \<and> nd_label n = ur_name u \<and> ed_type e = ty"
      using witness_key_inj [OF assms(3)] by metis
  qed
  finally show ?thesis by blast
qed

text \<open>
  An unresolved reference is retracted exactly when some edge of the kind that resolves it leaves a
  node of the reference's own file and service and ends in a node of the name it asked for; every other
  reference is kept, in order.
\<close>

theorem retraction_exact:
  assumes "distinct (map nd_id ns)" "\<forall>n \<in> set ns. nul_free [nd_service n, nd_file n, nd_label n]"
    and "\<forall>u \<in> set refs. nul_free [ur_service u, ur_file u, ur_name u]"
  shows "RetractResolvedRefs refs ns es = filter (\<lambda>u. \<forall>e \<in> set es. \<not> resolves ns e u) refs"
proof (cases "refs = []")
  case False
  have "(case retractableKinds (ur_kind u) of None \<Rightarrow> False
      | Some et \<Rightarrow> witness_key (ur_service u) (ur_file u) (ur_name u) et \<in> set (witness_keys ns es)) \<longleftrightarrow> (\<exists>e \<in> set es. resolves ns e u)"
    if "u \<in> set refs" for u
  proof (cases "retractableKinds (ur_kind u)")
    case None
    then show ?thesis by (simp add: resolves_def)
  next
    case (Some et)
    have "nul_free [ur_service u, ur_file u, ur_name u]" using assms(3) that by blast
    from witness_keys_iff [OF assms(1,2) this] Some show ?thesis unfolding resolves_def by auto
  qed
  then show ?thesis using False unfolding RetractResolvedRefs_def Let_def by (simp cong: filter_cong)
qed (simp add: RetractResolvedRefs_def)

theorem retraction_exact_witness:
  "map ur_file (RetractResolvedRefs [blind_spot ''x.go'', blind_spot ''y.go'']
     [dead_node ''a'' NodeTypeFunction ''x.go'' [], dead_node ''f'' NodeTypeFunction ''z.go'' []] [mk_edge ''a'' ''f'' ''calls'']) = [''y.go'']"
proof -
  let ?ns = "[dead_node ''a'' NodeTypeFunction ''x.go'' [], dead_node ''f'' NodeTypeFunction ''z.go'' []]"
  let ?refs = "[blind_spot ''x.go'', blind_spot ''y.go'']"
  have "distinct (map nd_id ?ns)" by code_simp
  moreover have "list_all (\<lambda>n. nul_free [nd_service n, nd_file n, nd_label n]) ?ns" by code_simp
  moreover have "list_all (\<lambda>u. nul_free [ur_service u, ur_file u, ur_name u]) ?refs" by code_simp
  moreover have "map ur_file (filter (\<lambda>u. list_all (\<lambda>e. \<not> resolves ?ns e u) [mk_edge ''a'' ''f'' ''calls'']) ?refs) = [''y.go'']" by code_simp
  ultimately show ?thesis using retraction_exact [of ?ns ?refs "[mk_edge ''a'' ''f'' ''calls'']"] by (simp add: list_all_iff)
qed

section \<open>Two notions of a test file\<close>

text \<open>
  A departure: the class of test noise and the scan for dead code do not agree on what a test file is,
  though both say they follow the same convention.
\<close>

lemma test_files_disagree:
  "isTestFile ''app_test.py'' \<and> \<not> IsTestFilePath ''app_test.py''"
  "\<not> isTestFile ''svc/test/helper.rb'' \<and> IsTestFilePath ''svc/test/helper.rb''"
  by code_simp+

end
