(* ===== verification/Flow_Paths.thy ===== *)
theory Flow_Paths
  imports Dead_Code
begin

text \<open>
  The flow engine (\<open>internal/graph/flows.go\<close>): the catalog of entry points, the shortest simple paths
  between two nodes and the stitching of waypoints. A path that names a node the index lacks would be a nil
  dereference in Go; it is the error \<open>ENilNode\<close> here.
\<close>

section \<open>Entry points\<close>

definition NodeTypeChannel :: nodeType where "NodeTypeChannel = ''channel''"

definition is_space :: "char \<Rightarrow> bool" where
  "is_space c \<longleftrightarrow> (let n = of_char c :: nat in n = 32 \<or> 9 \<le> n \<and> n \<le> 13)"

definition trim_space :: "string \<Rightarrow> string" where
  "trim_space s = rev (dropWhile is_space (rev (dropWhile is_space s)))"

record entrypointItem =
  ep_nodeID :: string
  ep_kind :: string
  ep_label :: string
  ep_service :: string
  ep_file :: string
  ep_line :: int
  ep_endLine :: int
  ep_channel :: string

record entrypointsResult =
  er_entrypoints :: "entrypointItem list"
  er_skipped :: "(string \<times> nat) list"

definition channelLabel :: "node \<Rightarrow> string" where
  "channelLabel cn =
     (let ex = meta_get (nd_meta cn) ''exchange''; rk = meta_get (nd_meta cn) ''routing_key'' in
      if ex \<noteq> [] \<or> rk \<noteq> [] then trim_space (ex @ '' '' @ rk) else nd_label cn)"

definition channel_at :: "adjacencyIndex \<Rightarrow> string list \<Rightarrow> node option" where
  "channel_at idx vs = (case concat (map (\<lambda>v. case node_of idx v of Some n \<Rightarrow> if nd_type n = NodeTypeChannel then [n] else [] | None \<Rightarrow> []) vs) of
     [] \<Rightarrow> None | n # _ \<Rightarrow> Some n)"

definition entrypointChannel :: "adjacencyIndex \<Rightarrow> node \<Rightarrow> string" where
  "entrypointChannel idx n =
     (let m = meta_get (nd_meta n) ''method''; p = meta_get (nd_meta n) ''path'' in
      if m \<noteq> [] \<or> p \<noteq> [] then trim_space (m @ '' '' @ p)
      else case channel_at idx (map ed_from (inEdges idx (nd_id n))) of
        Some cn \<Rightarrow> channelLabel cn
      | None \<Rightarrow> (case channel_at idx (map ed_to (outEdges idx (nd_id n))) of Some cn \<Rightarrow> channelLabel cn | None \<Rightarrow> []))"

definition entry_item :: "adjacencyIndex \<Rightarrow> node \<Rightarrow> entrypointItem" where
  "entry_item idx n = \<lparr>ep_nodeID = nd_id n, ep_kind = fst (ClassifyEntrypoint n), ep_label = nd_label n, ep_service = nd_service n,
     ep_file = nd_file n, ep_line = nd_line n, ep_endLine = nd_endLine n, ep_channel = entrypointChannel idx n\<rparr>"

text \<open>The items and the bucket a node falls into.\<close>

definition entry_step :: "adjacencyIndex \<Rightarrow> string \<Rightarrow> node \<Rightarrow> entrypointItem list \<times> string list" where
  "entry_step idx service n =
     (if service \<noteq> [] \<and> nd_service n \<noteq> service then ([], [])
      else case ClassifyEntrypoint n of
        (k, skip, ok) \<Rightarrow>
          if \<not> ok then ([], if skip \<noteq> [] then [skip] else [])
          else if IsTestFilePath (nd_file n) then ([], [''test_file''])
          else ([entry_item idx n], []))"

definition entry_key :: "entrypointItem \<Rightarrow> string \<times> string \<times> int \<times> string" where
  "entry_key i = (ep_service i, ep_file i, ep_line i, ep_nodeID i)"

definition tally :: "string list \<Rightarrow> (string \<times> nat) list" where
  "tally ss = map (\<lambda>s. (s, count_list ss s)) (sort (remdups ss))"

definition Entrypoints :: "adjacencyIndex \<Rightarrow> string \<Rightarrow> string \<Rightarrow> entrypointsResult" where
  "Entrypoints idx service kind =
     (let steps = map (\<lambda>x. entry_step idx service (snd x)) (ix_nodes idx); items = concat (map fst steps) in
      \<lparr>er_entrypoints = sort_key entry_key (if kind \<noteq> [] then filter (\<lambda>i. ep_kind i = kind) items else items),
       er_skipped = tally (concat (map snd steps))\<rparr>)"

section \<open>Hops\<close>

record flowHop =
  fh_nodeID :: string
  fh_label :: string
  fh_service :: string
  fh_edgeType :: string
  fh_edgeLabel :: string
  fh_crossService :: bool
  fh_confidence :: string
  fh_state :: string

definition flowHopFromNode :: "node \<Rightarrow> flowHop" where
  "flowHopFromNode n = \<lparr>fh_nodeID = nd_id n, fh_label = nd_label n, fh_service = nd_service n, fh_edgeType = [], fh_edgeLabel = [],
     fh_crossService = False, fh_confidence = [], fh_state = []\<rparr>"

definition crosses :: "adjacencyIndex \<Rightarrow> edge \<Rightarrow> bool" where
  "crosses idx e = (case (node_of idx (ed_from e), node_of idx (ed_to e)) of
     (Some a, Some b) \<Rightarrow> nd_service a \<noteq> nd_service b | _ \<Rightarrow> False)"

definition hop_over :: "adjacencyIndex \<Rightarrow> node \<Rightarrow> edge \<Rightarrow> flowHop" where
  "hop_over idx n e = (flowHopFromNode n)\<lparr>fh_edgeType := ed_type e, fh_edgeLabel := ed_label e, fh_confidence := ed_confidence e,
     fh_state := ed_state e, fh_crossService := crosses idx e\<rparr>"

fun hops_over :: "adjacencyIndex \<Rightarrow> string list \<Rightarrow> edge list \<Rightarrow> flowHop list option" where
  "hops_over idx (v # vs) (e # es) =
     (case node_of idx v of None \<Rightarrow> None | Some n \<Rightarrow> map_option ((#) (hop_over idx n e)) (hops_over idx vs es))"
| "hops_over idx _ _ = Some []"

definition pathToFlowHops :: "adjacencyIndex \<Rightarrow> string list \<Rightarrow> edge list \<Rightarrow> flowHop list option" where
  "pathToFlowHops idx vs es =
     (case vs of [] \<Rightarrow> Some []
      | v # ws \<Rightarrow> (case node_of idx v of None \<Rightarrow> None | Some n \<Rightarrow> map_option ((#) (flowHopFromNode n)) (hops_over idx ws es)))"

section \<open>Shortest simple paths\<close>

definition isFlowEdge :: "edge \<Rightarrow> bool" where
  "isFlowEdge e \<longleftrightarrow> ed_type e \<noteq> EdgeTypeContains \<and> ed_type e \<noteq> EdgeTypeDeclares"

definition HasOutgoingFlowEdge :: "adjacencyIndex \<Rightarrow> string \<Rightarrow> bool" where
  "HasOutgoingFlowEdge idx v \<longleftrightarrow> list_ex isFlowEdge (outEdges idx v)"

definition sortedFlowEdges :: "adjacencyIndex \<Rightarrow> string \<Rightarrow> edge list" where
  "sortedFlowEdges idx v = sort_key (\<lambda>e. (ed_type e, ed_to e)) (filter isFlowEdge (outEdges idx v))"

definition maxPathsExplored :: int where "maxPathsExplored = 20000"

text \<open>The set of nodes on the path is read off the list of its nodes.\<close>

record pathState =
  ps_nodes :: "string list"
  ps_edges :: "edge list"

definition grow :: "pathState \<Rightarrow> edge \<Rightarrow> pathState" where
  "grow cur e = \<lparr>ps_nodes = ps_nodes cur @ [ed_to e], ps_edges = ps_edges cur @ [e]\<rparr>"

definition open_edges :: "adjacencyIndex \<Rightarrow> pathState \<Rightarrow> edge list" where
  "open_edges idx cur = filter (\<lambda>e. ed_to e \<notin> set (ps_nodes cur) \<and> node_of idx (ed_to e) \<noteq> None) (sortedFlowEdges idx (last (ps_nodes cur)))"

definition arriving :: "adjacencyIndex \<Rightarrow> string \<Rightarrow> pathState \<Rightarrow> pathState list" where
  "arriving idx to cur = map (grow cur) (filter (\<lambda>e. ed_to e = to) (open_edges idx cur))"

definition passing :: "adjacencyIndex \<Rightarrow> string \<Rightarrow> pathState \<Rightarrow> pathState list" where
  "passing idx to cur = map (grow cur) (filter (\<lambda>e. ed_to e \<noteq> to) (open_edges idx cur))"

function path_loop :: "adjacencyIndex \<Rightarrow> string \<Rightarrow> int \<Rightarrow> pathState list \<Rightarrow> int \<Rightarrow> pathState list \<Rightarrow> pathState list" where
  "path_loop idx to maxDepth q explored found =
     (if q = [] \<or> explored \<ge> maxPathsExplored then found
      else if int (length (ps_nodes (hd q))) - 1 \<ge> maxDepth then path_loop idx to maxDepth (tl q) (explored + 1) found
      else path_loop idx to maxDepth (tl q @ passing idx to (hd q)) (explored + 1) (found @ arriving idx to (hd q)))"
  by pat_completeness auto
termination by (relation "measure (\<lambda>(idx, to, maxDepth, q, explored, found). nat (maxPathsExplored - explored))") auto

declare path_loop.simps [simp del]

definition edgeIDSeq :: "edge list \<Rightarrow> string" where
  "edgeIDSeq es = str_join [nul] (map ed_id es)"

definition path_key :: "pathState \<Rightarrow> nat \<times> string" where
  "path_key p = (length (ps_edges p), edgeIDSeq (ps_edges p))"

datatype flowError = ENodeNotFound string | ENoWaypoints | ENotConnected string string | ENilNode

record flowPathsResult =
  fp_paths :: "flowHop list list"
  fp_reachable :: bool

definition clamp :: "int \<Rightarrow> int \<Rightarrow> int \<Rightarrow> int" where
  "clamp dflt cap x = (let y = (if x \<le> 0 then dflt else x) in if y > cap then cap else y)"

definition start_path :: "string \<Rightarrow> pathState" where
  "start_path v = \<lparr>ps_nodes = [v], ps_edges = []\<rparr>"

definition best_paths :: "adjacencyIndex \<Rightarrow> string \<Rightarrow> string \<Rightarrow> int \<Rightarrow> int \<Rightarrow> pathState list" where
  "best_paths idx from to k maxDepth =
     take (nat (clamp 5 20 k)) (sort_key path_key (path_loop idx to (clamp 10 50 maxDepth) [start_path from] 0 []))"

definition KShortestFlowPaths :: "adjacencyIndex \<Rightarrow> string \<Rightarrow> string \<Rightarrow> int \<Rightarrow> int \<Rightarrow> flowError + flowPathsResult" where
  "KShortestFlowPaths idx from to k maxDepth =
     (if node_of idx from = None then Inl (ENodeNotFound from)
      else if node_of idx to = None then Inl (ENodeNotFound to)
      else if from = to then Inr \<lparr>fp_paths = [], fp_reachable = False\<rparr>
      else case those (map (\<lambda>p. pathToFlowHops idx (ps_nodes p) (ps_edges p)) (best_paths idx from to k maxDepth)) of
        None \<Rightarrow> Inl ENilNode
      | Some ps \<Rightarrow> Inr \<lparr>fp_paths = ps, fp_reachable = (ps \<noteq> [])\<rparr>)"

section \<open>Waypoints\<close>

record candidateNode =
  cn_nodeID :: string
  cn_label :: string
  cn_service :: string
  cn_type :: string
  cn_via :: string

record refineResult =
  rf_chain :: "flowHop list"
  rf_upstream :: "candidateNode list"
  rf_downstream :: "candidateNode list"

definition neighborCandidates :: "adjacencyIndex \<Rightarrow> string \<Rightarrow> string \<Rightarrow> candidateNode list" where
  "neighborCandidates idx v dir =
     (let es = sort_key (\<lambda>e. (ed_type e, far_end dir e)) (filter isFlowEdge (dir_edges idx dir v)) in
      concat (map (\<lambda>e. case node_of idx (far_end dir e) of None \<Rightarrow> []
        | Some n \<Rightarrow> [\<lparr>cn_nodeID = nd_id n, cn_label = nd_label n, cn_service = nd_service n, cn_type = nd_type n, cn_via = ed_type e\<rparr>]) es))"

fun stitch :: "adjacencyIndex \<Rightarrow> string \<Rightarrow> string list \<Rightarrow> flowHop list \<Rightarrow> flowError + flowHop list" where
  "stitch idx v [] chain = Inr chain"
| "stitch idx v (w # ws) chain =
     bindE (KShortestFlowPaths idx v w 1 50) (\<lambda>res.
       if \<not> fp_reachable res then Inl (ENotConnected v w)
       else let seg = hd (fp_paths res) in stitch idx w ws (chain @ (if chain = [] then seg else tl seg)))"

definition RefineWaypoints :: "adjacencyIndex \<Rightarrow> string list \<Rightarrow> string \<Rightarrow> flowError + refineResult" where
  "RefineWaypoints idx ids direction =
     (if ids = [] then Inl ENoWaypoints
      else case find (\<lambda>v. node_of idx v = None) ids of
        Some v \<Rightarrow> Inl (ENodeNotFound v)
      | None \<Rightarrow>
          let ordered = (if direction = ''backward'' then rev ids else ids) in
          bindE (if tl ordered = [] then (case node_of idx (hd ordered) of None \<Rightarrow> Inl ENilNode | Some n \<Rightarrow> Inr [flowHopFromNode n])
                 else stitch idx (hd ordered) (tl ordered) [])
            (\<lambda>chain. Inr \<lparr>rf_chain = chain, rf_upstream = neighborCandidates idx (hd ordered) DirIn,
               rf_downstream = neighborCandidates idx (last ordered) DirOut\<rparr>))"

end
