(* ===== verification/Flow_Props.thy ===== *)
theory Flow_Props
  imports Flow_Paths Dead_Props
begin

text \<open>
  The search for paths returns simple flow paths, shortest first, and misses one only behind all it
  returns; stitched waypoints form one connected walk; every entry point is listed or counted.
\<close>

section \<open>Walks over flow edges\<close>

fun flow_walk :: "adjacencyIndex \<Rightarrow> string \<Rightarrow> edge list \<Rightarrow> string \<Rightarrow> bool" where
  "flow_walk idx v [] w \<longleftrightarrow> v = w"
| "flow_walk idx v (e # es) w \<longleftrightarrow>
     e \<in> set (outEdges idx v) \<and> isFlowEdge e \<and> node_of idx (ed_to e) \<noteq> None \<and> flow_walk idx (ed_to e) es w"

lemma walk_append: "flow_walk idx v (es @ fs) w \<longleftrightarrow> (\<exists>u. flow_walk idx v es u \<and> flow_walk idx u fs w)"
  by (induction es arbitrary: v) auto

lemma walk_last: "flow_walk idx v es w \<Longrightarrow> last (v # map ed_to es) = w"
  by (induction es arbitrary: v) auto

definition stops :: "string \<Rightarrow> edge list \<Rightarrow> string list" where
  "stops v es = v # map ed_to es"

text \<open>The simple flow paths of at most \<open>d\<close> edges.\<close>

definition flow_paths :: "adjacencyIndex \<Rightarrow> string \<Rightarrow> string \<Rightarrow> int \<Rightarrow> edge list set" where
  "flow_paths idx from to d = {es. flow_walk idx from es to \<and> distinct (stops from es) \<and> int (length es) \<le> d}"

text \<open>Their beginnings, before they arrive.\<close>

definition partial_paths :: "adjacencyIndex \<Rightarrow> string \<Rightarrow> string \<Rightarrow> int \<Rightarrow> edge list set" where
  "partial_paths idx from to d = {es. (\<exists>u. flow_walk idx from es u) \<and> distinct (stops from es) \<and> to \<notin> set (stops from es) \<and> int (length es) \<le> d}"

section \<open>The states of the search\<close>

definition state_ok :: "adjacencyIndex \<Rightarrow> string \<Rightarrow> string \<Rightarrow> int \<Rightarrow> pathState \<Rightarrow> bool" where
  "state_ok idx from to d p \<longleftrightarrow> ps_nodes p = stops from (ps_edges p) \<and> distinct (stops from (ps_edges p)) \<and> to \<notin> set (stops from (ps_edges p))
     \<and> flow_walk idx from (ps_edges p) (last (ps_nodes p)) \<and> int (length (ps_edges p)) \<le> d"

lemma not_there: "to \<notin> set (stops v es) \<Longrightarrow> last (stops v es) \<noteq> to"
  using last_in_set [of "stops v es"] by (auto simp: stops_def)

lemma state_partial: "state_ok idx from to d p \<Longrightarrow> ps_edges p \<in> partial_paths idx from to d"
  unfolding state_ok_def partial_paths_def mem_Collect_eq by metis

definition completions :: "adjacencyIndex \<Rightarrow> string \<Rightarrow> string \<Rightarrow> int \<Rightarrow> pathState \<Rightarrow> edge list set" where
  "completions idx from to d p = {es \<in> flow_paths idx from to d. \<exists>ys. es = ps_edges p @ ys}"

lemma open_edges_set:
  "set (open_edges idx p) = {e \<in> set (outEdges idx (last (ps_nodes p))). isFlowEdge e \<and> ed_to e \<notin> set (ps_nodes p) \<and> node_of idx (ed_to e) \<noteq> None}"
  by (auto simp: open_edges_def sortedFlowEdges_def)

lemma stops_snoc: "stops v (es @ [e]) = stops v es @ [ed_to e]"
  by (simp add: stops_def)

lemma extended:
  assumes "state_ok idx from to d p" "e \<in> set (open_edges idx p)" "int (length (ps_edges p)) < d"
  shows "flow_walk idx from (ps_edges (grow p e)) (ed_to e)" "distinct (stops from (ps_edges (grow p e)))"
    "ps_nodes (grow p e) = stops from (ps_edges (grow p e))" "ed_to e \<noteq> to \<Longrightarrow> state_ok idx from to d (grow p e)"
proof -
  have p: "ps_nodes p = stops from (ps_edges p)" "distinct (stops from (ps_edges p))" "to \<notin> set (stops from (ps_edges p))"
    "flow_walk idx from (ps_edges p) (last (ps_nodes p))" using assms(1) unfolding state_ok_def by blast+
  have e: "e \<in> set (outEdges idx (last (ps_nodes p)))" "isFlowEdge e" "ed_to e \<notin> set (ps_nodes p)" "node_of idx (ed_to e) \<noteq> None"
    using assms(2) unfolding open_edges_set by simp_all
  show w: "flow_walk idx from (ps_edges (grow p e)) (ed_to e)" using p(4) e by (auto simp: grow_def walk_append)
  show d: "distinct (stops from (ps_edges (grow p e)))" using p(1,2) e(3) by (simp add: grow_def stops_snoc)
  show n: "ps_nodes (grow p e) = stops from (ps_edges (grow p e))" using p(1) by (simp add: grow_def stops_snoc)
  assume "ed_to e \<noteq> to"
  then show "state_ok idx from to d (grow p e)"
    using w d n p(3) assms(3) unfolding state_ok_def by (simp add: grow_def stops_snoc)
qed

lemma completions_step:
  assumes "state_ok idx from to d p" "int (length (ps_edges p)) < d"
  shows "completions idx from to d p = ps_edges ` set (arriving idx to p) \<union> (\<Union>s \<in> set (passing idx to p). completions idx from to d s)"
proof (intro equalityI subsetI)
  fix es assume "es \<in> completions idx from to d p"
  then obtain ys where ys: "es = ps_edges p @ ys" and es: "flow_walk idx from es to" "distinct (stops from es)" "int (length es) \<le> d"
    by (auto simp: completions_def flow_paths_def)
  have p: "ps_nodes p = stops from (ps_edges p)" "to \<notin> set (stops from (ps_edges p))" using assms(1) by (simp_all add: state_ok_def)
  obtain u where u: "flow_walk idx from (ps_edges p) u" "flow_walk idx u ys to" using es(1) ys by (auto simp: walk_append)
  have ul: "u = last (ps_nodes p)" using walk_last [OF u(1)] p(1) by (simp add: stops_def)
  have "ys \<noteq> []"
  proof
    assume "ys = []"
    then have "to = last (stops from (ps_edges p))" using u(2) ul p(1) by simp
    then show False using not_there [OF p(2)] by simp
  qed
  then obtain e zs where e: "ys = e # zs" by (cases ys) auto
  have oe: "e \<in> set (open_edges idx p)"
    unfolding open_edges_set using u(2) e ul es(2) p(1) ys by (auto simp: stops_def)
  show "es \<in> ps_edges ` set (arriving idx to p) \<union> (\<Union>s \<in> set (passing idx to p). completions idx from to d s)"
  proof (cases "ed_to e = to")
    case True
    have "zs = []"
    proof (rule ccontr)
      assume zs: "zs \<noteq> []"
      then have "last (map ed_to zs) = to" using walk_last [of idx "ed_to e" zs to] u(2) e by simp
      then have "to \<in> set (map ed_to zs)" using zs last_in_set [of "map ed_to zs"] by auto
      then show False using es(2) ys e True by (auto simp: stops_def)
    qed
    then have "es = ps_edges (grow p e)" using ys e by (simp add: grow_def)
    then show ?thesis using oe True by (auto simp: arriving_def)
  next
    case False
    have "es = ps_edges (grow p e) @ zs" using ys e by (simp add: grow_def)
    then have "es \<in> completions idx from to d (grow p e)" using es by (auto simp: completions_def flow_paths_def)
    then show ?thesis using oe False by (auto simp: passing_def)
  qed
next
  fix es assume "es \<in> ps_edges ` set (arriving idx to p) \<union> (\<Union>s \<in> set (passing idx to p). completions idx from to d s)"
  then consider e where "e \<in> set (open_edges idx p)" "ed_to e = to" "es = ps_edges (grow p e)"
    | e where "e \<in> set (open_edges idx p)" "es \<in> completions idx from to d (grow p e)"
    by (auto simp: arriving_def passing_def)
  then show "es \<in> completions idx from to d p"
  proof cases
    case 1
    then show ?thesis using extended(1,2) [OF assms(1) 1(1) assms(2)] assms(2)
      by (auto simp: completions_def flow_paths_def grow_def)
  qed (auto simp: completions_def grow_def)
qed

lemma completions_deep: "state_ok idx from to d p \<Longrightarrow> d \<le> int (length (ps_edges p)) \<Longrightarrow> completions idx from to d p = {}"
proof -
  assume p: "state_ok idx from to d p" "d \<le> int (length (ps_edges p))"
  have "False" if "flow_walk idx from (ps_edges p @ ys) to" "int (length (ps_edges p @ ys)) \<le> d" for ys
  proof -
    have "length ys = 0" using that(2) p(2) unfolding length_append by linarith
    then have "last (stops from (ps_edges p)) = to" using walk_last [OF that(1)] by (simp add: stops_def)
    then show False using p(1) not_there [of "to" "from" "ps_edges p"] by (simp add: state_ok_def)
  qed
  then show ?thesis by (auto simp: completions_def flow_paths_def)
qed

lemma completions_longer:
  assumes "state_ok idx from to d p" "es \<in> completions idx from to d p"
  shows "length (ps_edges p) < length es"
proof -
  obtain ys where ys: "es = ps_edges p @ ys" "flow_walk idx from es to" using assms(2) by (auto simp: completions_def flow_paths_def)
  have "ys \<noteq> []"
  proof
    assume "ys = []"
    then have "last (stops from (ps_edges p)) = to" using walk_last [OF ys(2)] ys(1) by (simp add: stops_def)
    then show False using assms(1) not_there [of "to" "from" "ps_edges p"] by (simp add: state_ok_def)
  qed
  then show ?thesis using ys(1) by simp
qed

section \<open>The loop\<close>

text \<open>What has been found and what the queue can still become are all paths; the queue is in order of length.\<close>

definition search_inv :: "adjacencyIndex \<Rightarrow> string \<Rightarrow> string \<Rightarrow> int \<Rightarrow> pathState list \<Rightarrow> pathState list \<Rightarrow> bool" where
  "search_inv idx from to d q found \<longleftrightarrow>
     (\<forall>p \<in> set q. state_ok idx from to d p) \<and> (\<forall>f \<in> set found. ps_nodes f = stops from (ps_edges f))
     \<and> ps_edges ` set found \<union> (\<Union>p \<in> set q. completions idx from to d p) = flow_paths idx from to d
     \<and> sorted (map (\<lambda>p. length (ps_edges p)) q)
     \<and> (\<forall>p \<in> set q. \<forall>s \<in> set q \<union> set found. length (ps_edges s) \<le> Suc (length (ps_edges p)))"

lemma search_start:
  assumes "from \<noteq> to" "0 \<le> d"
  shows "search_inv idx from to d [start_path from] []"
  using assms by (simp add: search_inv_def state_ok_def start_path_def stops_def completions_def)

lemma search_drop:
  assumes "search_inv idx from to d (p # q) found" "d \<le> int (length (ps_nodes p)) - 1"
  shows "search_inv idx from to d q found"
proof -
  have p: "state_ok idx from to d p" using assms(1) by (simp add: search_inv_def)
  then have "ps_nodes p = stops from (ps_edges p)" by (simp add: state_ok_def)
  then have "completions idx from to d p = {}" using assms(2) by (intro completions_deep [OF p]) (simp add: stops_def)
  then show ?thesis using assms(1) by (simp add: search_inv_def)
qed

lemma grown:
  assumes "s \<in> set (passing idx to p) \<union> set (arriving idx to p)"
  obtains e where "s = grow p e" "e \<in> set (open_edges idx p)" "s \<in> set (passing idx to p) \<longrightarrow> ed_to e \<noteq> to"
proof (cases "s \<in> set (passing idx to p)")
  case True
  then show thesis using that by (auto simp: passing_def)
next
  case False
  then have "s \<in> set (arriving idx to p)" using assms by simp
  then show thesis using that False unfolding arriving_def by auto
qed

lemma search_step:
  assumes inv: "search_inv idx from to d (p # q) found" and short: "\<not> d \<le> int (length (ps_nodes p)) - 1"
  shows "search_inv idx from to d (q @ passing idx to p) (found @ arriving idx to p)"
proof -
  let ?len = "\<lambda>p :: pathState. length (ps_edges p)"
  have p: "state_ok idx from to d p" using inv by (simp add: search_inv_def)
  have ok: "\<forall>s \<in> set q. state_ok idx from to d s" using inv by (simp add: search_inv_def)
  have lt: "int (?len p) < d" using short p by (simp add: state_ok_def stops_def)
  have new: "?len s = Suc (?len p) \<and> ps_nodes s = stops from (ps_edges s)
      \<and> (s \<in> set (passing idx to p) \<longrightarrow> state_ok idx from to d s)" if s: "s \<in> set (passing idx to p) \<union> set (arriving idx to p)" for s
  proof -
    obtain e where e: "s = grow p e" "e \<in> set (open_edges idx p)" "s \<in> set (passing idx to p) \<longrightarrow> ed_to e \<noteq> to" using s by (rule grown)
    then show ?thesis using extended(3,4) [OF p e(2) lt] by (auto simp: grow_def)
  qed
  have ord: "\<forall>s \<in> set q. ?len p \<le> ?len s \<and> ?len s \<le> Suc (?len p)" "sorted (map ?len q)"
    using inv by (auto simp: search_inv_def)
  have fnd: "\<forall>f \<in> set found. ?len f \<le> Suc (?len p)" using inv by (simp add: search_inv_def)
  have "sorted (map ?len (passing idx to p))" using new by (simp add: sorted_iff_nth_mono)
  then have "sorted (map ?len (q @ passing idx to p))" using ord new by (auto simp: sorted_append)
  moreover have "\<forall>s \<in> set (q @ passing idx to p). state_ok idx from to d s" using ok new by auto
  moreover have "\<forall>f \<in> set (found @ arriving idx to p). ps_nodes f = stops from (ps_edges f)" using inv new by (auto simp: search_inv_def)
  moreover have "ps_edges ` set (found @ arriving idx to p) \<union> (\<Union>s \<in> set (q @ passing idx to p). completions idx from to d s) = flow_paths idx from to d"
  proof -
    have "ps_edges ` set found \<union> (completions idx from to d p \<union> (\<Union>s \<in> set q. completions idx from to d s)) = flow_paths idx from to d"
      using inv unfolding search_inv_def by simp
    then show ?thesis unfolding set_append completions_step [OF p lt] image_Un UN_Un by (simp only: Un_ac Union_Un_distrib)
  qed
  moreover have "?len s \<le> Suc (?len t)"
    if "t \<in> set (q @ passing idx to p)" "s \<in> set (q @ passing idx to p) \<union> set (found @ arriving idx to p)" for s t
  proof -
    have "?len p \<le> ?len t" using that(1) ord(1) new by force
    moreover have "?len s \<le> Suc (?len p)" using that(2) ord(1) new fnd by fastforce
    ultimately show ?thesis by simp
  qed
  ultimately show ?thesis unfolding search_inv_def by blast
qed

text \<open>Which partial paths were looked at, none twice.\<close>

definition once_inv :: "adjacencyIndex \<Rightarrow> string \<Rightarrow> string \<Rightarrow> int \<Rightarrow> pathState list \<Rightarrow> edge list set \<Rightarrow> pathState list \<Rightarrow> bool" where
  "once_inv idx from to d q looked found \<longleftrightarrow>
     finite looked \<and> looked \<subseteq> partial_paths idx from to d \<and> distinct (map ps_edges q) \<and> distinct (map ps_edges found)
     \<and> looked \<inter> ps_edges ` set q = {} \<and> (\<forall>x e. x @ [e] \<in> looked \<union> ps_edges ` set q \<union> ps_edges ` set found \<longrightarrow> x \<in> looked)"

lemma once_look:
  assumes "once_inv idx from to d (p # q) looked found" "ps_edges p \<in> partial_paths idx from to d"
  shows "once_inv idx from to d q (insert (ps_edges p) looked) found" "ps_edges p \<notin> looked"
  using assms by (auto simp: once_inv_def)

lemma distinct_grown:
  assumes "distinct (outEdges idx (last (ps_nodes p)))"
  shows "distinct (map ps_edges (passing idx to p))" "distinct (map ps_edges (arriving idx to p))"
  using assms by (auto simp: passing_def arriving_def open_edges_def sortedFlowEdges_def distinct_map inj_on_def grow_def)

lemma image_fresh:
  "(\<And>s. s \<in> P \<union> A \<Longrightarrow> f s \<notin> L \<union> Q \<union> F) \<Longrightarrow> Q \<inter> f ` P = {} \<and> F \<inter> f ` A = {} \<and> L \<inter> f ` P = {}"
  by blast

lemma once_step:
  assumes inv: "once_inv idx from to d (p # q) looked found" and p: "state_ok idx from to d p"
    and dist: "distinct (outEdges idx (last (ps_nodes p)))"
  shows "once_inv idx from to d (q @ passing idx to p) (insert (ps_edges p) looked) (found @ arriving idx to p)"
proof -
  let ?p = "ps_edges p"
  have i: "once_inv idx from to d q (insert ?p looked) found" "?p \<notin> looked" using once_look [OF inv state_partial [OF p]] by simp_all
  have new: "ps_edges s = ?p @ [e]" if "s = grow p e" for s e using that by (simp add: grow_def)
  have fresh: "ps_edges s \<notin> insert ?p looked \<union> ps_edges ` set q \<union> ps_edges ` set found"
    if s: "s \<in> set (passing idx to p) \<union> set (arriving idx to p)" for s
  proof
    obtain e where e: "s = grow p e" using s by (rule grown)
    assume "ps_edges s \<in> insert ?p looked \<union> ps_edges ` set q \<union> ps_edges ` set found"
    then have "?p @ [e] \<in> looked \<union> ps_edges ` set (p # q) \<union> ps_edges ` set found" using new [OF e] by auto
    then have "?p \<in> looked" using inv unfolding once_inv_def by blast
    then show False using i(2) by simp
  qed
  have pre: "x = ?p" if "x @ [e] = ps_edges s" "s \<in> set (passing idx to p) \<union> set (arriving idx to p)" for x e s
    using that by (auto simp: passing_def arriving_def grow_def)
  have f: "ps_edges ` set q \<inter> ps_edges ` set (passing idx to p) = {}" "ps_edges ` set found \<inter> ps_edges ` set (arriving idx to p) = {}"
    "insert ?p looked \<inter> ps_edges ` set (passing idx to p) = {}"
    using image_fresh [of "set (passing idx to p)" "set (arriving idx to p)" ps_edges, OF fresh] by metis+
  have o: "distinct (map ps_edges q)" "distinct (map ps_edges found)" "insert ?p looked \<inter> ps_edges ` set q = {}" "finite (insert ?p looked)"
    "insert ?p looked \<subseteq> partial_paths idx from to d"
    using i(1) unfolding once_inv_def by metis+
  have q: "distinct (map ps_edges (q @ passing idx to p))" "distinct (map ps_edges (found @ arriving idx to p))"
    unfolding map_append distinct_append set_map using o(1,2) f(1,2) distinct_grown [OF dist] by blast+
  have q3: "insert ?p looked \<inter> ps_edges ` set (q @ passing idx to p) = {}"
    unfolding set_append image_Un Int_Un_distrib using o(3) f(3) by blast
  have "x \<in> insert ?p looked"
    if x: "x @ [e] \<in> insert ?p looked \<union> ps_edges ` set (q @ passing idx to p) \<union> ps_edges ` set (found @ arriving idx to p)" for x e
  proof (cases "x @ [e] \<in> insert ?p looked \<union> ps_edges ` set q \<union> ps_edges ` set found")
    case True
    then show ?thesis using i(1) unfolding once_inv_def by metis
  next
    case False
    then obtain s where "s \<in> set (passing idx to p) \<union> set (arriving idx to p)" "x @ [e] = ps_edges s" using x False by auto
    then show ?thesis using pre by blast
  qed
  then show ?thesis unfolding once_inv_def using o(4,5) q q3 by metis
qed

text \<open>The cap is only hit when there are as many partial paths as it allows.\<close>

definition exhausted :: "adjacencyIndex \<Rightarrow> string \<Rightarrow> string \<Rightarrow> int \<Rightarrow> bool" where
  "exhausted idx from to d \<longleftrightarrow> (\<exists>S. finite S \<and> S \<subseteq> partial_paths idx from to d \<and> int (card S) = maxPathsExplored)"

lemma path_loop_found:
  assumes "search_inv idx from to d q found" "once_inv idx from to d q looked found" "int (card looked) = explored" "explored \<le> maxPathsExplored"
    "\<forall>v. distinct (outEdges idx v)"
  shows "let r = path_loop idx to d q explored found in
    (\<forall>f \<in> set r. ps_nodes f = stops from (ps_edges f)) \<and> distinct (map ps_edges r) \<and> ps_edges ` set r \<subseteq> flow_paths idx from to d
    \<and> (\<forall>es \<in> flow_paths idx from to d - ps_edges ` set r. \<forall>f \<in> set r. length (ps_edges f) \<le> length es)
    \<and> (ps_edges ` set r = flow_paths idx from to d \<or> exhausted idx from to d)"
  using assms
proof (induction idx "to" d q explored found arbitrary: looked rule: path_loop.induct)
  case (1 idx "to" d q explored found)
  note inv = "1.prems"(1) and once = "1.prems"(2) and card = "1.prems"(3) and dist = "1.prems"(5)
  show ?case
  proof (cases "q = [] \<or> explored \<ge> maxPathsExplored")
    case True
    then have r: "path_loop idx to d q explored found = found" by (simp add: path_loop.simps)
    have all: "ps_edges ` set found \<union> (\<Union>p \<in> set q. completions idx from to d p) = flow_paths idx from to d"
      using inv unfolding search_inv_def by blast
    have later: "length (ps_edges f) \<le> length es" if f: "f \<in> set found" "es \<in> flow_paths idx from to d - ps_edges ` set found" for f es
    proof -
      obtain p where p: "p \<in> set q" "es \<in> completions idx from to d p" using f(2) all by blast
      have "state_ok idx from to d p" "length (ps_edges f) \<le> Suc (length (ps_edges p))" using inv p(1) f(1) unfolding search_inv_def by blast+
      then show ?thesis using completions_longer [OF _ p(2)] by fastforce
    qed
    have "ps_edges ` set found = flow_paths idx from to d \<or> exhausted idx from to d"
    proof (cases "q = []")
      case False
      then have "int (card looked) = maxPathsExplored" using True card "1.prems"(4) by simp
      moreover have "finite looked" "looked \<subseteq> partial_paths idx from to d" using once unfolding once_inv_def by simp_all
      ultimately show ?thesis unfolding exhausted_def by (intro disjI2 exI [of _ looked]) simp
    qed (use all in simp)
    moreover have "\<forall>f \<in> set found. ps_nodes f = stops from (ps_edges f)" using inv unfolding search_inv_def by blast
    moreover have "distinct (map ps_edges found)" using once unfolding once_inv_def by metis
    moreover have "ps_edges ` set found \<subseteq> flow_paths idx from to d" using all by blast
    ultimately show ?thesis unfolding r Let_def using later by blast
  next
    case False
    then obtain p ps where q: "q = p # ps" by (cases q) auto
    have ok: "state_ok idx from to d p" using inv q by (simp add: search_inv_def)
    have l: "once_inv idx from to d ps (insert (ps_edges p) looked) found" "ps_edges p \<notin> looked"
      using once_look [OF once [unfolded q] state_partial [OF ok]] by simp_all
    have "finite looked" using once by (simp add: once_inv_def)
    then have c: "int (card (insert (ps_edges p) looked)) = explored + 1" using l(2) card by simp
    have cap: "explored + 1 \<le> maxPathsExplored" using False by simp
    show ?thesis
    proof (cases "int (length (ps_nodes (hd q))) - 1 \<ge> d")
      case True
      have eq: "path_loop idx to d q explored found = path_loop idx to d ps (explored + 1) found"
        by (subst path_loop.simps) (use False True q in simp)
      have "search_inv idx from to d ps found" using search_drop [of idx "from" "to" d p ps] inv True q by simp
      from "1.IH"(1) [OF False True, unfolded q list.sel, OF this l(1) c cap dist] show ?thesis unfolding eq .
    next
      case deep: False
      have eq: "path_loop idx to d q explored found = path_loop idx to d (ps @ passing idx to p) (explored + 1) (found @ arriving idx to p)"
        by (subst path_loop.simps) (use False deep q in simp)
      have s: "search_inv idx from to d (ps @ passing idx to p) (found @ arriving idx to p)"
        using search_step [of idx "from" "to" d p ps] inv deep q by simp
      have d1: "distinct (outEdges idx (last (ps_nodes p)))" using dist by simp
      from "1.IH"(2) [OF False deep, unfolded q list.sel, OF s once_step [OF once [unfolded q] ok d1] c cap dist] show ?thesis unfolding eq .
    qed
  qed
qed

text \<open>The chain that is shown for a path.\<close>

definition chain_of :: "adjacencyIndex \<Rightarrow> string \<Rightarrow> edge list \<Rightarrow> flowHop list" where
  "chain_of idx v es = flowHopFromNode (the (node_of idx v)) # map (\<lambda>e. hop_over idx (the (node_of idx (ed_to e))) e) es"

lemma hops_over_walk: "flow_walk idx v es w \<Longrightarrow> hops_over idx (map ed_to es) es = Some (map (\<lambda>e. hop_over idx (the (node_of idx (ed_to e))) e) es)"
  by (induction es arbitrary: v) auto

lemma hops_of_path:
  "node_of idx v \<noteq> None \<Longrightarrow> flow_walk idx v es w \<Longrightarrow> pathToFlowHops idx (stops v es) es = Some (chain_of idx v es)"
  using hops_over_walk [of idx v es w] by (auto simp: pathToFlowHops_def stops_def chain_of_def)

definition rank :: "edge list \<Rightarrow> nat \<times> string" where
  "rank es = (length es, edgeIDSeq es)"

lemma those_Some: "(\<And>x. x \<in> set xs \<Longrightarrow> f x = Some (g x)) \<Longrightarrow> those (map f xs) = Some (map g xs)"
  by (induction xs) auto

lemma take_sorted_least:
  assumes "sorted (map f xs)" "x \<in> set xs" "x \<notin> set (take K xs)"
  shows "length (take K xs) = K" "y \<in> set (take K xs) \<Longrightarrow> f y \<le> f x"
proof -
  have "x \<in> set (take K xs) \<union> set (drop K xs)" using assms(2) by (metis append_take_drop_id set_append)
  then have x: "x \<in> set (drop K xs)" using assms(3) by simp
  then have "K < length xs" by (cases "K < length xs") auto
  then show "length (take K xs) = K" by simp
  assume y: "y \<in> set (take K xs)"
  have "sorted (map f (take K xs) @ map f (drop K xs))" using assms(1) by (metis append_take_drop_id map_append)
  then show "f y \<le> f x" using x y by (simp add: sorted_append)
qed

lemma best_paths_ranked:
  fixes k d :: int
  assumes "from \<noteq> to" "\<forall>v. distinct (outEdges idx v)"
  defines "pss \<equiv> map ps_edges (best_paths idx from to k d)" and "D \<equiv> clamp 10 50 d" and "K \<equiv> nat (clamp 5 20 k)"
  shows "\<forall>p \<in> set (best_paths idx from to k d). ps_nodes p = stops from (ps_edges p)" "distinct pss" "set pss \<subseteq> flow_paths idx from to D"
    "sorted (map rank pss)" "length pss \<le> K" "\<forall>es \<in> flow_paths idx from to D - set pss. \<forall>fs \<in> set pss. length fs \<le> length es"
    "exhausted idx from to D \<or> (\<forall>es \<in> flow_paths idx from to D - set pss. length pss = K \<and> (\<forall>fs \<in> set pss. rank fs \<le> rank es))"
proof -
  have D: "0 \<le> D" by (simp add: D_def clamp_def Let_def)
  define r where "r = path_loop idx to D [start_path from] 0 []"
  have once: "once_inv idx from to D [start_path from] {} []" by (simp add: once_inv_def start_path_def)
  have r: "\<forall>f \<in> set r. ps_nodes f = stops from (ps_edges f)" "distinct (map ps_edges r)" "ps_edges ` set r \<subseteq> flow_paths idx from to D"
    "\<forall>es \<in> flow_paths idx from to D - ps_edges ` set r. \<forall>f \<in> set r. length (ps_edges f) \<le> length es"
    "ps_edges ` set r = flow_paths idx from to D \<or> exhausted idx from to D"
    using path_loop_found [OF search_start [OF assms(1) D] once _ _ assms(2), of 0] unfolding r_def Let_def by (simp_all add: maxPathsExplored_def)
  define s where "s = sort_key path_key r"
  have best: "best_paths idx from to k d = take K s" by (simp add: best_paths_def s_def r_def K_def D_def)
  have s: "set s = set r" "sorted (map path_key s)" "distinct (map ps_edges s)"
    using r(2) by (simp_all add: s_def distinct_map)
  have key: "path_key p = rank (ps_edges p)" for p by (simp add: path_key_def rank_def)
  have pss: "pss = take K (map ps_edges s)" by (simp add: pss_def best take_map)
  show "\<forall>p \<in> set (best_paths idx from to k d). ps_nodes p = stops from (ps_edges p)" using r(1) s(1) set_take_subset [of K s] by (auto simp: best)
  show "distinct pss" "length pss \<le> K" using s(3) by (simp_all add: pss)
  show sub: "set pss \<subseteq> flow_paths idx from to D" using r(3) s(1) set_take_subset [of K "map ps_edges s"] by (auto simp: pss)
  have ranked: "map rank (map ps_edges s) = map path_key s" by (simp add: key)
  show "sorted (map rank pss)" unfolding pss take_map [symmetric] ranked using s(2) by (rule sorted_wrt_take)
  have "sorted (map rank (map ps_edges s))" unfolding ranked by (rule s(2))
  note least = take_sorted_least [OF this, of _ K, folded pss]
  have r_s: "ps_edges ` set r = set (map ps_edges s)" by (simp add: s(1))
  show "\<forall>es \<in> flow_paths idx from to D - set pss. \<forall>fs \<in> set pss. length fs \<le> length es"
  proof (intro ballI)
    fix es fs assume es: "es \<in> flow_paths idx from to D - set pss" and fs: "fs \<in> set pss"
    show "length fs \<le> length es"
    proof (cases "es \<in> ps_edges ` set r")
      case True
      then have "rank fs \<le> rank es" using least(2) [of es fs] es fs unfolding r_s by blast
      then show ?thesis by (auto simp: rank_def less_eq_prod_def)
    next
      case False
      obtain f where "f \<in> set r" "fs = ps_edges f" using fs s(1) set_take_subset [of K "map ps_edges s"] unfolding pss by auto
      then show ?thesis using r(4) es False by auto
    qed
  qed
  show "exhausted idx from to D \<or> (\<forall>es \<in> flow_paths idx from to D - set pss. length pss = K \<and> (\<forall>fs \<in> set pss. rank fs \<le> rank es))"
    using r(5) least unfolding r_s by blast
qed

section \<open>Paths between two nodes\<close>

lemma shortest_chains:
  fixes k d :: int
  assumes "node_of idx from \<noteq> None" "node_of idx to \<noteq> None" "from \<noteq> to" "\<forall>v. distinct (outEdges idx v)"
  shows "KShortestFlowPaths idx from to k d = Inr \<lparr>fp_paths = map (\<lambda>p. chain_of idx from (ps_edges p)) (best_paths idx from to k d),
    fp_reachable = (best_paths idx from to k d \<noteq> [])\<rparr>"
proof -
  let ?bs = "best_paths idx from to k d"
  have "pathToFlowHops idx (ps_nodes p) (ps_edges p) = Some (chain_of idx from (ps_edges p))" if "p \<in> set ?bs" for p
  proof -
    have n: "ps_nodes p = stops from (ps_edges p)" using best_paths_ranked(1) [OF assms(3,4), where k = k and d = d] that by simp
    have "ps_edges p \<in> set (map ps_edges ?bs)" using that by simp
    then have "flow_walk idx from (ps_edges p) to" using best_paths_ranked(3) [OF assms(3,4), where k = k and d = d] unfolding flow_paths_def by blast
    then show ?thesis unfolding n by (rule hops_of_path [OF assms(1)])
  qed
  then have "those (map (\<lambda>p. pathToFlowHops idx (ps_nodes p) (ps_edges p)) ?bs) = Some (map (\<lambda>p. chain_of idx from (ps_edges p)) ?bs)"
    by (rule those_Some)
  then show ?thesis using assms(1-3) by (auto simp: KShortestFlowPaths_def)
qed

text \<open>
  C20: a query for paths answers with distinct simple flow paths from the first node to the second, at
  most as many as asked for, in order of length and then of their edges. A path that is left out is never
  shorter than one that is shown; unless the graph has as many partial paths as the search may look
  at, the answer is exactly the least paths in that order, and it is empty only if there is none.
\<close>

theorem shortest_paths_ranked:
  assumes "node_of idx from \<noteq> None" "node_of idx to \<noteq> None" "from \<noteq> to" "\<forall>v. distinct (outEdges idx v)"
  shows "\<exists>pss. KShortestFlowPaths idx from to k d = Inr \<lparr>fp_paths = map (chain_of idx from) pss, fp_reachable = (pss \<noteq> [])\<rparr>
    \<and> distinct pss \<and> set pss \<subseteq> flow_paths idx from to (clamp 10 50 d) \<and> sorted (map rank pss) \<and> int (length pss) \<le> clamp 5 20 k
    \<and> (\<forall>es \<in> flow_paths idx from to (clamp 10 50 d) - set pss. \<forall>fs \<in> set pss. length fs \<le> length es)
    \<and> (exhausted idx from to (clamp 10 50 d)
       \<or> (\<forall>es \<in> flow_paths idx from to (clamp 10 50 d) - set pss. int (length pss) = clamp 5 20 k \<and> (\<forall>fs \<in> set pss. rank fs \<le> rank es)))"
proof -
  have K: "0 \<le> clamp 5 20 k" by (simp add: clamp_def Let_def)
  note b = best_paths_ranked [OF assms(3,4), where k = k and d = d]
  have n: "length xs = nat (clamp 5 20 k) \<longleftrightarrow> int (length xs) = clamp 5 20 k" "length xs \<le> nat (clamp 5 20 k) \<longleftrightarrow> int (length xs) \<le> clamp 5 20 k"
    for xs :: "edge list list" using K by linarith+
  let ?pss = "map ps_edges (best_paths idx from to k d)"
  have "KShortestFlowPaths idx from to k d = Inr \<lparr>fp_paths = map (chain_of idx from) ?pss, fp_reachable = (?pss \<noteq> [])\<rparr>"
    unfolding shortest_chains [OF assms] by (simp add: comp_def)
  then show ?thesis using b(2-7) unfolding n by (intro exI [of _ ?pss] conjI)
qed

section \<open>Waypoints\<close>

text \<open>The walk along the waypoints, one path per pair.\<close>

fun legs :: "adjacencyIndex \<Rightarrow> string \<Rightarrow> string list \<Rightarrow> edge list list \<Rightarrow> bool" where
  "legs idx v [] [] \<longleftrightarrow> True"
| "legs idx v (w # ws) (es # ess) \<longleftrightarrow> es \<in> flow_paths idx v w 50 \<and> legs idx w ws ess"
| "legs idx v _ _ \<longleftrightarrow> False"

lemma legs_walk: "legs idx v ws ess \<Longrightarrow> flow_walk idx v (concat ess) (last (v # ws))"
  by (induction idx v ws ess rule: legs.induct) (auto simp: walk_append flow_paths_def)

lemma chain_append: "chain_of idx v es @ tl (chain_of idx w fs) = chain_of idx v (es @ fs)"
  by (simp add: chain_of_def)

lemma one_path:
  assumes "node_of idx v \<noteq> None" "node_of idx w \<noteq> None" "\<forall>v. distinct (outEdges idx v)"
  obtains "KShortestFlowPaths idx v w 1 50 = Inr \<lparr>fp_paths = [], fp_reachable = False\<rparr>" "v = w \<or> flow_paths idx v w 50 = {} \<or> exhausted idx v w 50"
  | es where "KShortestFlowPaths idx v w 1 50 = Inr \<lparr>fp_paths = [chain_of idx v es], fp_reachable = True\<rparr>" "es \<in> flow_paths idx v w 50"
proof (cases "v = w")
  case True
  then show thesis using that(1) assms by (simp add: KShortestFlowPaths_def)
next
  case False
  have c: "clamp 10 50 50 = 50" "clamp 5 20 1 = 1" by (simp_all add: clamp_def)
  define pss where "pss = map ps_edges (best_paths idx v w 1 50)"
  have p: "KShortestFlowPaths idx v w 1 50 = Inr \<lparr>fp_paths = map (chain_of idx v) pss, fp_reachable = (pss \<noteq> [])\<rparr>"
    unfolding shortest_chains [OF assms(1,2) False assms(3)] pss_def by (simp add: comp_def)
  note b = best_paths_ranked(3,5,7) [OF False assms(3), where k = 1 and d = 50, folded pss_def, unfolded c]
  show thesis
  proof (cases pss)
    case Nil
    then have "flow_paths idx v w 50 = {} \<or> exhausted idx v w 50" using b(3) by auto
    then show thesis using that(1) p Nil by simp
  next
    case (Cons es rest)
    then have "pss = [es]" using b(2) by simp
    then show thesis using that(2) p b(1) by simp
  qed
qed

definition consecutive :: "'a \<Rightarrow> 'a \<Rightarrow> 'a list \<Rightarrow> bool" where
  "consecutive a b xs \<longleftrightarrow> (\<exists>ys zs. xs = ys @ a # b # zs)"

lemma stitch_legs:
  assumes "\<forall>w \<in> set (v # ws). node_of idx w \<noteq> None" "\<forall>v. distinct (outEdges idx v)"
  shows "(\<exists>ess. legs idx v ws ess \<and> stitch idx v ws (chain_of idx u es) = Inr (chain_of idx u (es @ concat ess)))
    \<or> (\<exists>a b. stitch idx v ws (chain_of idx u es) = Inl (ENotConnected a b) \<and> consecutive a b (v # ws)
         \<and> (a = b \<or> flow_paths idx a b 50 = {} \<or> exhausted idx a b 50))"
  using assms(1)
proof (induction ws arbitrary: v es)
  case Nil
  show ?case by (intro disjI1 exI [of _ "[]"]) simp
next
  case (Cons w ws)
  have n: "node_of idx v \<noteq> None" "node_of idx w \<noteq> None" using Cons.prems by auto
  show ?case
  proof (rule one_path [OF n assms(2)])
    assume k: "KShortestFlowPaths idx v w 1 50 = Inr \<lparr>fp_paths = [], fp_reachable = False\<rparr>" "v = w \<or> flow_paths idx v w 50 = {} \<or> exhausted idx v w 50"
    have "consecutive v w (v # w # ws)" unfolding consecutive_def by (intro exI [of _ "[]"] exI [of _ ws]) simp
    then show ?thesis using k by (intro disjI2 exI [of _ v] exI [of _ w]) simp
  next
    fix fs assume k: "KShortestFlowPaths idx v w 1 50 = Inr \<lparr>fp_paths = [chain_of idx v fs], fp_reachable = True\<rparr>" "fs \<in> flow_paths idx v w 50"
    have ne: "chain_of idx u es \<noteq> []" by (simp add: chain_of_def)
    have eq: "stitch idx v (w # ws) (chain_of idx u es) = stitch idx w ws (chain_of idx u (es @ fs))"
      using k(1) ne by (simp add: Let_def chain_append)
    have "\<forall>x \<in> set (w # ws). node_of idx x \<noteq> None" using Cons.prems by simp
    from Cons.IH [OF this, of "es @ fs"] show ?thesis
    proof (elim disjE [of "\<exists>ess. P ess" for P] exE conjE)
      fix ess assume "legs idx w ws ess" "stitch idx w ws (chain_of idx u (es @ fs)) = Inr (chain_of idx u ((es @ fs) @ concat ess))"
      then have "legs idx v (w # ws) (fs # ess) \<and> stitch idx v (w # ws) (chain_of idx u es) = Inr (chain_of idx u (es @ concat (fs # ess)))"
        unfolding eq using k(2) by simp
      then show ?thesis by blast
    next
      fix a b assume a: "stitch idx w ws (chain_of idx u (es @ fs)) = Inl (ENotConnected a b)" "consecutive a b (w # ws)"
        "a = b \<or> flow_paths idx a b 50 = {} \<or> exhausted idx a b 50"
      have "consecutive a b (v # w # ws)" using a(2) unfolding consecutive_def by (metis append_Cons)
      then show ?thesis unfolding eq using a(1,3) by blast
    qed
  qed
qed

definition route :: "string \<Rightarrow> string list \<Rightarrow> string list" where
  "route dir ids = (if dir = ''backward'' then rev ids else ids)"

lemma stitch_route:
  assumes "\<forall>w \<in> set (v # w # ws). node_of idx w \<noteq> None" "\<forall>v. distinct (outEdges idx v)"
  shows "(\<exists>ess. legs idx v (w # ws) ess \<and> stitch idx v (w # ws) [] = Inr (chain_of idx v (concat ess)))
    \<or> (\<exists>a b. stitch idx v (w # ws) [] = Inl (ENotConnected a b) \<and> consecutive a b (v # w # ws)
         \<and> (a = b \<or> flow_paths idx a b 50 = {} \<or> exhausted idx a b 50))"
proof -
  have n: "node_of idx v \<noteq> None" "node_of idx w \<noteq> None" using assms(1) by auto
  show ?thesis
  proof (rule one_path [OF n assms(2)])
    assume k: "KShortestFlowPaths idx v w 1 50 = Inr \<lparr>fp_paths = [], fp_reachable = False\<rparr>" "v = w \<or> flow_paths idx v w 50 = {} \<or> exhausted idx v w 50"
    have "consecutive v w (v # w # ws)" unfolding consecutive_def by (intro exI [of _ "[]"] exI [of _ ws]) simp
    then show ?thesis using k by (intro disjI2 exI [of _ v] exI [of _ w]) simp
  next
    fix fs assume k: "KShortestFlowPaths idx v w 1 50 = Inr \<lparr>fp_paths = [chain_of idx v fs], fp_reachable = True\<rparr>" "fs \<in> flow_paths idx v w 50"
    have eq: "stitch idx v (w # ws) [] = stitch idx w ws (chain_of idx v fs)" using k(1) by (simp add: Let_def)
    have "\<forall>x \<in> set (w # ws). node_of idx x \<noteq> None" using assms(1) by simp
    from stitch_legs [OF this assms(2), of v fs] show ?thesis
    proof (elim disjE [of "\<exists>ess. P ess" for P] exE conjE)
      fix ess assume "legs idx w ws ess" "stitch idx w ws (chain_of idx v fs) = Inr (chain_of idx v (fs @ concat ess))"
      then have "legs idx v (w # ws) (fs # ess) \<and> stitch idx v (w # ws) [] = Inr (chain_of idx v (concat (fs # ess)))"
        unfolding eq using k(2) by simp
      then show ?thesis by blast
    next
      fix a b assume a: "stitch idx w ws (chain_of idx v fs) = Inl (ENotConnected a b)" "consecutive a b (w # ws)"
        "a = b \<or> flow_paths idx a b 50 = {} \<or> exhausted idx a b 50"
      have "consecutive a b (v # w # ws)" using a(2) unfolding consecutive_def by (metis append_Cons)
      then show ?thesis unfolding eq using a(1,3) by blast
    qed
  qed
qed

text \<open>
  C21: stitching waypoints is all or nothing. When it succeeds, the chain is the display of one walk, made
  of a simple flow path for every pair of consecutive waypoints, in the direction asked for. When it
  fails, the error names what is wrong: no waypoints, an unknown one, or two consecutive ones without a
  path (or too many partial paths to look at).
\<close>

theorem waypoints_stitched:
  assumes "\<forall>v. distinct (outEdges idx v)"
  shows "case RefineWaypoints idx ids dir of
      Inr r \<Rightarrow> \<exists>ess. legs idx (hd (route dir ids)) (tl (route dir ids)) ess \<and> rf_chain r = chain_of idx (hd (route dir ids)) (concat ess)
        \<and> flow_walk idx (hd (route dir ids)) (concat ess) (last (route dir ids))
    | Inl (ENotConnected a b) \<Rightarrow> consecutive a b (route dir ids) \<and> (a = b \<or> flow_paths idx a b 50 = {} \<or> exhausted idx a b 50)
    | Inl (ENodeNotFound v) \<Rightarrow> v \<in> set ids \<and> node_of idx v = None
    | Inl ENoWaypoints \<Rightarrow> ids = []
    | Inl ENilNode \<Rightarrow> False"
proof (cases "ids = []")
  case True
  then show ?thesis by (simp add: RefineWaypoints_def)
next
  case ne: False
  show ?thesis
  proof (cases "find (\<lambda>v. node_of idx v = None) ids")
    case (Some v)
    then have "v \<in> set ids \<and> node_of idx v = None" by (auto simp: find_Some_iff)
    then show ?thesis using ne Some by (simp add: RefineWaypoints_def)
  next
    case None
    let ?r = "route dir ids"
    have nodes: "\<forall>w \<in> set ?r. node_of idx w \<noteq> None" using None by (auto simp: find_None_iff route_def)
    have r: "RefineWaypoints idx ids dir = bindE (if tl ?r = [] then (case node_of idx (hd ?r) of None \<Rightarrow> Inl ENilNode | Some n \<Rightarrow> Inr [flowHopFromNode n])
                 else stitch idx (hd ?r) (tl ?r) [])
            (\<lambda>chain. Inr \<lparr>rf_chain = chain, rf_upstream = neighborCandidates idx (hd ?r) DirIn,
               rf_downstream = neighborCandidates idx (last ?r) DirOut\<rparr>)"
      using ne None unfolding RefineWaypoints_def route_def Let_def by simp
    have "?r \<noteq> []" using ne by (simp add: route_def)
    then consider v where "?r = [v]" | v w ws where "?r = v # w # ws" by (metis neq_Nil_conv)
    then show ?thesis
    proof cases
      case 1
      then obtain n where "node_of idx v = Some n" using nodes by auto
      then show ?thesis unfolding r 1 by (intro exI [of _ "[]"] | simp add: chain_of_def)+
    next
      case 2
      have w: "\<forall>x \<in> set (v # w # ws). node_of idx x \<noteq> None" using nodes 2 by simp
      from stitch_route [OF w assms] show ?thesis
      proof (elim disjE [of "\<exists>ess. P ess" for P] exE conjE)
        fix ess assume l: "legs idx v (w # ws) ess" "stitch idx v (w # ws) [] = Inr (chain_of idx v (concat ess))"
        then show ?thesis unfolding r 2 using legs_walk [OF l(1)] by (simp del: stitch.simps last.simps) blast
      next
        fix a b assume "stitch idx v (w # ws) [] = Inl (ENotConnected a b)" "consecutive a b (v # w # ws)"
          "a = b \<or> flow_paths idx a b 50 = {} \<or> exhausted idx a b 50"
        then show ?thesis unfolding r 2 by (simp del: stitch.simps)
      qed
    qed
  qed
qed

section \<open>A small graph\<close>

definition crossing :: adjacencyIndex where
  "crossing = BuildIndex (map (\<lambda>v. dead_node v NodeTypeFunction ''x.go'' []) [''a'', ''b'', ''c'', ''d''])
     [mk_edge ''a'' ''b'' ''calls'', mk_edge ''b'' ''d'' ''calls'', mk_edge ''a'' ''d'' ''spawns'', mk_edge ''a'' ''c'' ''contains'', mk_edge ''c'' ''d'' ''calls'']"

lemma out_distinct:
  assumes "list_all (\<lambda>(v, es). distinct (map ed_id es)) (ix_out idx)"
  shows "\<forall>v. distinct (outEdges idx v)"
proof
  fix v
  show "distinct (outEdges idx v)"
  proof (cases "map_of (ix_out idx) v")
    case (Some es)
    then have "distinct (map ed_id es)" using assms map_of_SomeD [OF Some] by (auto simp: list_all_iff)
    then show ?thesis using Some by (simp add: outEdges_def adj_list_def distinct_map)
  qed (simp add: outEdges_def adj_list_def)
qed

lemma crossing_distinct: "\<forall>v. distinct (outEdges crossing v)"
  by (rule out_distinct) code_simp

theorem shortest_paths_ranked_witness:
  "\<exists>pss. set pss \<subseteq> flow_paths crossing ''a'' ''d'' 10 \<and> map length pss = [1, 2]"
proof -
  have n: "node_of crossing ''a'' \<noteq> None" "node_of crossing ''d'' \<noteq> None" "''a'' \<noteq> ''d''" by code_simp+
  obtain pss where p: "KShortestFlowPaths crossing ''a'' ''d'' 3 0 = Inr \<lparr>fp_paths = map (chain_of crossing ''a'') pss, fp_reachable = (pss \<noteq> [])\<rparr>"
    "set pss \<subseteq> flow_paths crossing ''a'' ''d'' (clamp 10 50 0)"
    using shortest_paths_ranked [OF n crossing_distinct, of 3 0] by blast
  have "(case KShortestFlowPaths crossing ''a'' ''d'' 3 0 of Inr r \<Rightarrow> map (\<lambda>c. length c - 1) (fp_paths r) | Inl _ \<Rightarrow> []) = [1, 2]" by code_simp
  then have "map length pss = [1, 2]" unfolding p(1) by (simp add: comp_def chain_of_def)
  then show ?thesis using p(2) by (intro exI [of _ pss]) (simp add: clamp_def)
qed

definition chain_ids :: "flowError + refineResult \<Rightarrow> string list" where
  "chain_ids r = (case r of Inl _ \<Rightarrow> [] | Inr r \<Rightarrow> map fh_nodeID (rf_chain r))"

theorem waypoints_stitched_witness:
  "\<exists>ess. legs crossing ''b'' [''d''] ess \<and> legs crossing ''a'' [''b''] ess = False"
proof -
  have "chain_ids (RefineWaypoints crossing [''d'', ''b''] ''backward'') = [''b'', ''d'']" by code_simp
  then obtain r where r: "RefineWaypoints crossing [''d'', ''b''] ''backward'' = Inr r"
    by (cases "RefineWaypoints crossing [''d'', ''b''] ''backward''") (auto simp: chain_ids_def)
  have o: "route ''backward'' [''d'', ''b''] = [''b'', ''d'']" by code_simp
  obtain ess where l: "legs crossing ''b'' [''d''] ess"
    using waypoints_stitched [OF crossing_distinct, of "[''d'', ''b'']" "''backward''"] unfolding r o by auto
  then obtain es where e: "ess = [es]" "flow_walk crossing ''b'' es ''d''" by (cases ess; cases "tl ess") (auto simp: flow_paths_def)
  have "''b'' \<noteq> ''d''" by simp
  then have "\<not> legs crossing ''a'' [''b''] ess" using e walk_last [of crossing "''b''" es "''d''"] walk_last [of crossing "''a''" es "''b''"]
    by (cases es) (auto simp: flow_paths_def)
  then show ?thesis using l by blast
qed

text \<open>A departure: a waypoint that is given twice in a row is reported as not connected to itself.\<close>

lemma repeated_waypoint:
  "case RefineWaypoints crossing [''a'', ''a''] ''forward'' of Inl (ENotConnected v w) \<Rightarrow> v = ''a'' \<and> w = ''a'' | _ \<Rightarrow> False"
  by code_simp

section \<open>The catalog of entry points\<close>

definition is_entry_here :: "string \<Rightarrow> node \<Rightarrow> bool" where
  "is_entry_here service n \<longleftrightarrow> (service = [] \<or> nd_service n = service) \<and> snd (snd (ClassifyEntrypoint n))"

text \<open>The catalog lists the entry points outside of test files and nothing else, in order, and the tally holds all the rest.\<close>

lemma entry_listed:
  "ep \<in> set (er_entrypoints (Entrypoints idx service kind)) \<longleftrightarrow>
     (\<exists>v n. (v, n) \<in> set (ix_nodes idx) \<and> ep = entry_item idx n \<and> is_entry_here service n \<and> \<not> IsTestFilePath (nd_file n)
        \<and> (kind = [] \<or> fst (ClassifyEntrypoint n) = kind))"
proof -
  have one: "fst (entry_step idx service n) = (if is_entry_here service n \<and> \<not> IsTestFilePath (nd_file n) then [entry_item idx n] else [])" for n
    by (cases "ClassifyEntrypoint n") (auto simp: entry_step_def is_entry_here_def)
  have kinds: "ep_kind (entry_item idx n) = fst (ClassifyEntrypoint n)" for n by (simp add: entry_item_def)
  have items: "set (concat (map fst (map (\<lambda>x. entry_step idx service (snd x)) (ix_nodes idx))))
    = entry_item idx ` {n. \<exists>v. (v, n) \<in> set (ix_nodes idx) \<and> is_entry_here service n \<and> \<not> IsTestFilePath (nd_file n)}" (is "set ?items = ?S")
    by (auto simp: one split: if_splits)
  have "set (er_entrypoints (Entrypoints idx service kind)) = {i \<in> set ?items. kind = [] \<or> ep_kind i = kind}"
    by (auto simp: Entrypoints_def Let_def)
  then have "ep \<in> set (er_entrypoints (Entrypoints idx service kind)) \<longleftrightarrow> ep \<in> ?S \<and> (kind = [] \<or> ep_kind ep = kind)" unfolding items by simp
  also have "\<dots> \<longleftrightarrow> (\<exists>v n. (v, n) \<in> set (ix_nodes idx) \<and> ep = entry_item idx n \<and> is_entry_here service n \<and> \<not> IsTestFilePath (nd_file n)
        \<and> (kind = [] \<or> ep_kind ep = kind))" by blast
  also have "\<dots> \<longleftrightarrow> (\<exists>v n. (v, n) \<in> set (ix_nodes idx) \<and> ep = entry_item idx n \<and> is_entry_here service n \<and> \<not> IsTestFilePath (nd_file n)
        \<and> (kind = [] \<or> fst (ClassifyEntrypoint n) = kind))" by (intro ex_cong1 conj_cong refl) (simp add: kinds)
  finally show ?thesis .
qed

lemma entries_sorted: "sorted (map entry_key (er_entrypoints (Entrypoints idx service kind)))"
  by (simp add: Entrypoints_def Let_def)

lemma tally_total: "sum_list (map snd (tally ss)) = length ss"
proof -
  have "sum_list (map snd (tally ss)) = (\<Sum>s \<in> set ss. count_list ss s)"
    by (simp add: tally_def comp_def sum_list_distinct_conv_sum_set)
  then show ?thesis by (simp add: sum_count_set)
qed

text \<open>No entry point disappears: what is not listed is counted.\<close>

lemma entries_accounted:
  "length (er_entrypoints (Entrypoints idx service [])) + sum_list (map snd (er_skipped (Entrypoints idx service [])))
     = length (filter (\<lambda>(v, n). is_entry_here service n \<or> (service = [] \<or> nd_service n = service) \<and> fst (snd (ClassifyEntrypoint n)) \<noteq> []) (ix_nodes idx))"
proof -
  let ?st = "\<lambda>x. entry_step idx service (snd x)"
  have one: "length (fst (?st x)) + length (snd (?st x))
    = (if (\<lambda>(v, n). is_entry_here service n \<or> (service = [] \<or> nd_service n = service) \<and> fst (snd (ClassifyEntrypoint n)) \<noteq> []) x then 1 else 0)" for x
    by (cases x; cases "ClassifyEntrypoint (snd x)") (auto simp: entry_step_def is_entry_here_def)
  have "length (concat (map fst (map ?st xs))) + length (concat (map snd (map ?st xs)))
    = length (filter (\<lambda>(v, n). is_entry_here service n \<or> (service = [] \<or> nd_service n = service) \<and> fst (snd (ClassifyEntrypoint n)) \<noteq> []) xs)" for xs
  proof (induction xs)
    case (Cons x xs)
    then show ?case using one [of x] by (simp split: if_splits)
  qed simp
  then show ?thesis by (simp add: Entrypoints_def Let_def tally_total)
qed

end
