(* ===== verification/Predicates.thy ===== *)
theory Predicates
  imports Flow_Paths
begin

text \<open>
  The \<open>when:\<close> language of emit specifications (\<open>internal/factpipe/predicate.go\<close>): its lexer, its parser,
  which builds functions, and the comparison of values. A row maps columns to values, and a column it
  lacks reads as the empty string, as a Go map does.

  The parser works on the list of the remaining tokens; its recursion is bounded by fuel, one unit for
  each token that a nested call has consumed.
\<close>

type_synonym pred_row = "string \<Rightarrow> string"
type_synonym valFn = "pred_row \<Rightarrow> pred_row list \<Rightarrow> string"
type_synonym boolFn = "pred_row \<Rightarrow> pred_row list \<Rightarrow> bool"

datatype tok_kind = TIdent | TStr | TInt | TOp | TPunc

type_synonym ptok = "tok_kind \<times> string"

datatype predError = EBare char | EUnterminated | EUnexpectedChar char | EExpected tok_kind string | ENoOperator | ENoValue
  | ENotValue ptok | ENoIdent | ETrailing string | EPredFuel

section \<open>Lexer\<close>

definition is_alpha :: "char \<Rightarrow> bool" where
  "is_alpha c \<longleftrightarrow> (let n = of_char c :: nat in n = 95 \<or> 65 \<le> n \<and> n \<le> 90 \<or> 97 \<le> n \<and> n \<le> 122)"

definition isIdentPart :: "char \<Rightarrow> bool" where
  "isIdentPart c \<longleftrightarrow> is_alpha c \<or> is_digit c"

definition is_white :: "char \<Rightarrow> bool" where
  "is_white c \<longleftrightarrow> (of_char c :: nat) \<in> {32, 9, 10, 13}"

definition quotes :: "char set" where
  "quotes = {CHR 0x22, CHR 0x27}"

function lexPredicate :: "string \<Rightarrow> predError + ptok list" where
  "lexPredicate [] = Inr []"
| "lexPredicate (c # cs) =
     (if is_white c then lexPredicate cs
      else if c \<in> {CHR ''('', CHR '')'', CHR '',''} then map_sum id ((#) (TPunc, [c])) (lexPredicate cs)
      else if c \<in> {CHR ''='', CHR ''!'', CHR ''<'', CHR ''>''} then
        (if cs \<noteq> [] \<and> hd cs = CHR ''='' then map_sum id ((#) (TOp, [c, CHR ''=''])) (lexPredicate (tl cs))
         else if c \<in> {CHR ''<'', CHR ''>''} then map_sum id ((#) (TOp, [c])) (lexPredicate cs)
         else Inl (EBare c))
      else if c \<in> quotes then
        (let body = takeWhile (\<lambda>d. d \<noteq> c) cs; rest = dropWhile (\<lambda>d. d \<noteq> c) cs in
         if rest = [] then Inl EUnterminated else map_sum id ((#) (TStr, body)) (lexPredicate (tl rest)))
      else if is_digit c then map_sum id ((#) (TInt, takeWhile is_digit (c # cs))) (lexPredicate (dropWhile is_digit cs))
      else if is_alpha c then map_sum id ((#) (TIdent, takeWhile isIdentPart (c # cs))) (lexPredicate (dropWhile isIdentPart cs))
      else Inl (EUnexpectedChar c))"
  by pat_completeness auto
termination
  by (relation "measure length")
    (auto simp: less_Suc_eq_le length_dropWhile_le intro: le_trans [OF diff_le_self])

section \<open>Values\<close>

definition accept :: "tok_kind \<Rightarrow> string \<Rightarrow> ptok list \<Rightarrow> ptok list option" where
  "accept k v ts = (case ts of t # r \<Rightarrow> if fst t = k \<and> (v = [] \<or> snd t = v) then Some r else None | [] \<Rightarrow> None)"

definition expect :: "tok_kind \<Rightarrow> string \<Rightarrow> ptok list \<Rightarrow> predError + ptok list" where
  "expect k v ts = (case accept k v ts of Some r \<Rightarrow> Inr r | None \<Rightarrow> Inl (EExpected k v))"

definition parseIdent :: "ptok list \<Rightarrow> predError + string \<times> ptok list" where
  "parseIdent ts = (case ts of (TIdent, v) # r \<Rightarrow> Inr (v, r) | _ \<Rightarrow> Inl ENoIdent)"

fun parse_by :: "ptok list \<Rightarrow> predError + string list \<times> ptok list" where
  "parse_by ((TIdent, g) # (TPunc, p) # ts) =
     (if p = '','' then map_sum id (\<lambda>(gs, r). (g # gs, r)) (parse_by ts) else Inr ([g], (TPunc, p) # ts))"
| "parse_by ((TIdent, g) # ts) = Inr ([g], ts)"
| "parse_by _ = Inl ENoIdent"

definition sameGroup :: "pred_row \<Rightarrow> pred_row \<Rightarrow> string list \<Rightarrow> bool" where
  "sameGroup a b by_cols \<longleftrightarrow> list_all (\<lambda>k. a k = b k) by_cols"

definition aggregate :: "bool \<Rightarrow> string \<Rightarrow> string list \<Rightarrow> valFn" where
  "aggregate dist col by_cols = (\<lambda>row rows.
     let same = filter (\<lambda>r. sameGroup row r by_cols) rows in
     if dist then fmt_nat (length (remdups (map (\<lambda>r. r col) same))) else fmt_nat (length same))"

definition parseAggregate :: "string \<Rightarrow> ptok list \<Rightarrow> predError + valFn \<times> ptok list" where
  "parseAggregate kind ts =
     bindE (expect TPunc ''('' ts) (\<lambda>ts1.
     bindE (parseIdent ts1) (\<lambda>(col, ts2).
     bindE (case accept TIdent ''by'' ts2 of Some r \<Rightarrow> parse_by r | None \<Rightarrow> Inr ([], ts2)) (\<lambda>(by_cols, ts3).
     bindE (expect TPunc '')'' ts3) (\<lambda>ts4. Inr (aggregate (kind = ''count_distinct'') col by_cols, ts4)))))"

definition parseValue :: "ptok list \<Rightarrow> predError + valFn \<times> ptok list" where
  "parseValue ts =
     (case ts of
        [] \<Rightarrow> Inl ENoValue
      | (k, v) # r \<Rightarrow>
          if k = TStr \<or> k = TInt then Inr (\<lambda>_ _. v, r)
          else if k = TIdent then
            (if v = ''null'' then Inr (\<lambda>_ _. [], r)
             else if v = ''count'' \<or> v = ''count_distinct'' then parseAggregate v r
             else if v = ''origin'' then
               bindE (expect TPunc ''('' r) (\<lambda>ts1. bindE (parseIdent ts1) (\<lambda>(col, ts2).
                 bindE (expect TPunc '')'' ts2) (\<lambda>ts3. Inr (\<lambda>row _. row (''origin:'' @ col), ts3))))
             else Inr (\<lambda>row _. row v, r))
          else Inl (ENotValue (k, v)))"

section \<open>Comparison\<close>

text \<open>\<open>strconv.Atoi\<close> at 64 bits.\<close>

definition int_digits :: "string \<Rightarrow> int" where
  "int_digits s = fold (\<lambda>c n. 10 * n + (of_char c - 48)) s 0"

definition atoi :: "string \<Rightarrow> int option" where
  "atoi s =
     (let neg = (s \<noteq> [] \<and> hd s = CHR ''-''); ds = (if s \<noteq> [] \<and> hd s \<in> {CHR ''-'', CHR ''+''} then tl s else s);
          v = (if neg then - int_digits ds else int_digits ds) in
      if ds \<noteq> [] \<and> list_all is_digit ds \<and> - 9223372036854775808 \<le> v \<and> v \<le> 9223372036854775807 then Some v else None)"

definition compare_by :: "string \<Rightarrow> bool \<Rightarrow> bool \<Rightarrow> bool" where
  "compare_by oper lt eq =
     (if oper = ''=='' then eq else if oper = ''!='' then \<not> eq else if oper = ''<'' then lt else if oper = ''<='' then lt \<or> eq
      else if oper = ''>'' then \<not> lt \<and> \<not> eq else if oper = ''>='' then \<not> lt else False)"

definition compareVals :: "string \<Rightarrow> string \<Rightarrow> string \<Rightarrow> bool" where
  "compareVals l r oper =
     (case (atoi l, atoi r) of
        (Some i, Some j) \<Rightarrow> compare_by oper (i < j) (i = j)
      | _ \<Rightarrow> compare_by oper (l < r) (l = r))"

definition null_or_compare :: "bool \<Rightarrow> string \<Rightarrow> string \<Rightarrow> string \<Rightarrow> bool" where
  "null_or_compare isNull oper l r =
     (if isNull \<and> oper = ''=='' then l = [] else if isNull \<and> oper = ''!='' then l \<noteq> [] else compareVals l r oper)"

section \<open>Parser\<close>

definition parse_starts :: "ptok list \<Rightarrow> predError + boolFn \<times> ptok list" where
  "parse_starts ts =
     bindE (expect TPunc ''('' ts) (\<lambda>ts1. bindE (parseValue ts1) (\<lambda>(a, ts2). bindE (expect TPunc '','' ts2) (\<lambda>ts3.
       bindE (parseValue ts3) (\<lambda>(b, ts4). bindE (expect TPunc '')'' ts4) (\<lambda>ts5. Inr (\<lambda>row rows. prefix (b row rows) (a row rows), ts5))))))"

definition parse_comparison :: "ptok list \<Rightarrow> predError + boolFn \<times> ptok list" where
  "parse_comparison ts =
     bindE (parseValue ts) (\<lambda>(lhs, ts1).
       case ts1 of
         (TOp, oper) # ts2 \<Rightarrow>
           bindE (parseValue ts2) (\<lambda>(rhs, ts3).
             let isNull = (ts2 \<noteq> [] \<and> hd ts2 = (TIdent, ''null'')) in
             Inr (\<lambda>row rows. null_or_compare isNull oper (lhs row rows) (rhs row rows), ts3))
       | _ \<Rightarrow> Inl ENoOperator)"

definition parse_test :: "ptok list \<Rightarrow> predError + boolFn \<times> ptok list" where
  "parse_test ts = (case accept TIdent ''startswith'' ts of Some r \<Rightarrow> parse_starts r | None \<Rightarrow> parse_comparison ts)"

function (sequential) parseOr :: "nat \<Rightarrow> ptok list \<Rightarrow> predError + boolFn \<times> ptok list"
  and orLoop :: "nat \<Rightarrow> boolFn \<Rightarrow> ptok list \<Rightarrow> predError + boolFn \<times> ptok list"
  and parseAnd :: "nat \<Rightarrow> ptok list \<Rightarrow> predError + boolFn \<times> ptok list"
  and andLoop :: "nat \<Rightarrow> boolFn \<Rightarrow> ptok list \<Rightarrow> predError + boolFn \<times> ptok list"
  and parseNot :: "nat \<Rightarrow> ptok list \<Rightarrow> predError + boolFn \<times> ptok list"
  and parsePrimary :: "nat \<Rightarrow> ptok list \<Rightarrow> predError + boolFn \<times> ptok list"
where
  "parseOr n ts = bindE (parseAnd n ts) (\<lambda>(l, r). orLoop n l r)"
| "orLoop n l ts = (case accept TIdent ''or'' ts of None \<Rightarrow> Inr (l, ts)
     | Some r \<Rightarrow> (case n of 0 \<Rightarrow> Inl EPredFuel
         | Suc m \<Rightarrow> bindE (parseAnd m r) (\<lambda>(f, r1). orLoop m (\<lambda>row rows. l row rows \<or> f row rows) r1)))"
| "parseAnd n ts = bindE (parseNot n ts) (\<lambda>(l, r). andLoop n l r)"
| "andLoop n l ts = (case accept TIdent ''and'' ts of None \<Rightarrow> Inr (l, ts)
     | Some r \<Rightarrow> (case n of 0 \<Rightarrow> Inl EPredFuel
         | Suc m \<Rightarrow> bindE (parseNot m r) (\<lambda>(f, r1). andLoop m (\<lambda>row rows. l row rows \<and> f row rows) r1)))"
| "parseNot n ts = (case accept TIdent ''not'' ts of None \<Rightarrow> parsePrimary n ts
     | Some r \<Rightarrow> (case n of 0 \<Rightarrow> Inl EPredFuel
         | Suc m \<Rightarrow> bindE (parseNot m r) (\<lambda>(f, r1). Inr (\<lambda>row rows. \<not> f row rows, r1))))"
| "parsePrimary n ts = (case accept TPunc ''('' ts of None \<Rightarrow> parse_test ts
     | Some r \<Rightarrow> (case n of 0 \<Rightarrow> Inl EPredFuel
         | Suc m \<Rightarrow> bindE (parseOr m r) (\<lambda>(f, r1). bindE (expect TPunc '')'' r1) (\<lambda>r2. Inr (f, r2)))))"
  by pat_completeness auto
termination
  by (relation "measures [case_sum (case_sum fst (case_sum fst fst)) (case_sum fst (case_sum fst fst)),
      case_sum (case_sum (\<lambda>_. 5) (case_sum (\<lambda>_. 4) (\<lambda>_. 3))) (case_sum (\<lambda>_. 2) (case_sum (\<lambda>_. 1) (\<lambda>_. 0)))]") auto

definition compilePredicate :: "string \<Rightarrow> predError + boolFn option" where
  "compilePredicate src =
     (if trim_space src = [] then Inr None
      else bindE (lexPredicate src) (\<lambda>ts. bindE (parseOr (length ts) ts) (\<lambda>(f, r).
        if r \<noteq> [] then Inl (ETrailing (snd (hd r))) else Inr (Some f))))"

end
