(* ===== verification/Predicate_Props.thy ===== *)
theory Predicate_Props
  imports Predicates
begin

text \<open>
  What the \<open>when:\<close> language means. Conditions are given an abstract syntax with a meaning and a printer that
  uses as few parentheses as possible; compiling the printed text yields the meaning. The fuel of the
  parser is never used up.
\<close>

section \<open>Abstract syntax\<close>

datatype pval = VStr string | VInt string | VNull | VCol string | VOrigin string | VCount bool string "string list"

datatype cond = CStarts pval pval | CCmp pval string pval | CNot cond | CAnd cond cond | COr cond cond

fun val_sem :: "pval \<Rightarrow> valFn" where
  "val_sem (VStr s) = (\<lambda>_ _. s)"
| "val_sem (VInt s) = (\<lambda>_ _. s)"
| "val_sem VNull = (\<lambda>_ _. [])"
| "val_sem (VCol c) = (\<lambda>row _. row c)"
| "val_sem (VOrigin c) = (\<lambda>row _. row (''origin:'' @ c))"
| "val_sem (VCount dist c by_cols) = (\<lambda>row rows.
     let same = filter (\<lambda>r. \<forall>k \<in> set by_cols. row k = r k) rows in
     fmt_nat (if dist then card ((\<lambda>r. r c) ` set same) else length same))"

fun cond_sem :: "cond \<Rightarrow> boolFn" where
  "cond_sem (CStarts a b) = (\<lambda>row rows. prefix (val_sem b row rows) (val_sem a row rows))"
| "cond_sem (CCmp a oper b) = (\<lambda>row rows. compareVals (val_sem a row rows) (val_sem b row rows) oper)"
| "cond_sem (CNot p) = (\<lambda>row rows. \<not> cond_sem p row rows)"
| "cond_sem (CAnd p q) = (\<lambda>row rows. cond_sem p row rows \<and> cond_sem q row rows)"
| "cond_sem (COr p q) = (\<lambda>row rows. cond_sem p row rows \<or> cond_sem q row rows)"

section \<open>Printing\<close>

abbreviation tk_open :: ptok where "tk_open \<equiv> (TPunc, ''('')"
abbreviation tk_close :: ptok where "tk_close \<equiv> (TPunc, '')'')"
abbreviation tk_comma :: ptok where "tk_comma \<equiv> (TPunc, '','')"
abbreviation tk_word :: "string \<Rightarrow> ptok" where "tk_word v \<equiv> (TIdent, v)"

fun by_toks :: "string list \<Rightarrow> ptok list" where
  "by_toks [] = []"
| "by_toks [g] = [tk_word g]"
| "by_toks (g # gs) = tk_word g # tk_comma # by_toks gs"

fun val_toks :: "pval \<Rightarrow> ptok list" where
  "val_toks (VStr s) = [(TStr, s)]"
| "val_toks (VInt s) = [(TInt, s)]"
| "val_toks VNull = [tk_word ''null'']"
| "val_toks (VCol c) = [tk_word c]"
| "val_toks (VOrigin c) = [tk_word ''origin'', tk_open, tk_word c, tk_close]"
| "val_toks (VCount dist c by_cols) = tk_word (if dist then ''count_distinct'' else ''count'') # tk_open # tk_word c #
     (if by_cols = [] then [] else tk_word ''by'' # by_toks by_cols) @ [tk_close]"

fun show_or :: "cond \<Rightarrow> ptok list" and show_and :: "cond \<Rightarrow> ptok list" and show_not :: "cond \<Rightarrow> ptok list" where
  "show_or (COr p q) = show_and p @ tk_word ''or'' # show_or q"
| "show_or (CAnd p q) = show_not p @ tk_word ''and'' # show_and q"
| "show_or p = show_not p"
| "show_and (CAnd p q) = show_not p @ tk_word ''and'' # show_and q"
| "show_and (COr p q) = tk_open # (show_and p @ tk_word ''or'' # show_or q) @ [tk_close]"
| "show_and p = show_not p"
| "show_not (CStarts a b) = tk_word ''startswith'' # tk_open # val_toks a @ tk_comma # val_toks b @ [tk_close]"
| "show_not (CCmp a oper b) = val_toks a @ (TOp, oper) # val_toks b"
| "show_not (CNot p) = tk_word ''not'' # show_not p"
| "show_not (CAnd p q) = tk_open # (show_not p @ tk_word ''and'' # show_and q) @ [tk_close]"
| "show_not (COr p q) = tk_open # (show_and p @ tk_word ''or'' # show_or q) @ [tk_close]"

text \<open>A column in value position is not one of the words that start something else there.\<close>

fun val_plain :: "pval \<Rightarrow> bool" where
  "val_plain (VCol c) \<longleftrightarrow> c \<notin> {''null'', ''count'', ''count_distinct'', ''origin''}"
| "val_plain _ \<longleftrightarrow> True"

fun cond_plain :: "cond \<Rightarrow> bool" where
  "cond_plain (CStarts a b) \<longleftrightarrow> val_plain a \<and> val_plain b"
| "cond_plain (CCmp a oper b) \<longleftrightarrow> val_plain a \<and> val_plain b \<and> a \<noteq> VCol ''not'' \<and> a \<noteq> VCol ''startswith''"
| "cond_plain (CNot p) \<longleftrightarrow> cond_plain p"
| "cond_plain (CAnd p q) \<longleftrightarrow> cond_plain p \<and> cond_plain q"
| "cond_plain (COr p q) \<longleftrightarrow> cond_plain p \<and> cond_plain q"

section \<open>Parsing what was printed\<close>

lemma accept_simps [simp]:
  "accept k v [] = None" "accept k v (t # r) = (if fst t = k \<and> (v = [] \<or> snd t = v) then Some r else None)"
  by (simp_all add: accept_def)

lemma expect_simps [simp]: "v \<noteq> [] \<Longrightarrow> expect k v ((k, v) # r) = Inr r"
  by (simp add: expect_def)

lemma parse_by_toks: "gs \<noteq> [] \<Longrightarrow> parse_by (by_toks gs @ tk_close # r) = Inr (gs, tk_close # r)"
  by (induction gs rule: by_toks.induct) simp_all

lemma aggregate_sem: "aggregate dist c by_cols = val_sem (VCount dist c by_cols)"
  by (intro ext) (simp add: aggregate_def sameGroup_def list_all_iff Let_def length_remdups_card_conv)

lemma parse_val: "val_plain v \<Longrightarrow> parseValue (val_toks v @ r) = Inr (val_sem v, r)"
proof (cases v)
  case (VCount dist c by_cols)
  have kind: "((if dist then ''count_distinct'' else ''count'') = ''count_distinct'') = dist" by simp
  have agg: "parseAggregate (if dist then ''count_distinct'' else ''count'')
      (tk_open # tk_word c # (if by_cols = [] then [] else tk_word ''by'' # by_toks by_cols) @ [tk_close] @ r)
    = Inr (val_sem (VCount dist c by_cols), r)"
    unfolding parseAggregate_def kind aggregate_sem [symmetric]
    by (cases "by_cols = []") (simp_all add: parseIdent_def parse_by_toks)
  then show ?thesis unfolding VCount by (simp add: parseValue_def del: val_sem.simps)
qed (auto simp: parseValue_def parseIdent_def)

lemma null_redundant: "(isNull \<Longrightarrow> r = []) \<Longrightarrow> null_or_compare isNull oper l r = compareVals l r oper"
  by (auto simp: null_or_compare_def compareVals_def compare_by_def atoi_def Let_def split: option.splits)

lemma val_null: "val_plain v \<Longrightarrow> hd (val_toks v @ r) = tk_word ''null'' \<Longrightarrow> v = VNull"
  by (cases v) (auto split: if_splits)

lemma val_toks_nonempty [simp]: "val_toks v \<noteq> []"
  by (cases v) simp_all

lemma parse_cmp:
  assumes "val_plain a" "val_plain b"
  shows "parse_comparison (val_toks a @ (TOp, oper) # val_toks b @ r) = Inr (cond_sem (CCmp a oper b), r)"
proof -
  have "hd (val_toks b @ r) = tk_word ''null'' \<Longrightarrow> val_sem b row rows = []" for row rows
    using val_null [OF assms(2)] by fastforce
  then have "null_or_compare (hd (val_toks b @ r) = tk_word ''null'') oper l (val_sem b row rows) = compareVals l (val_sem b row rows) oper" for l row rows
    by (intro null_redundant) auto
  then show ?thesis by (simp add: parse_comparison_def parse_val [OF assms(1)] parse_val [OF assms(2)] Let_def)
qed

lemma parse_starts_toks:
  "val_plain a \<Longrightarrow> val_plain b \<Longrightarrow> parse_starts (tk_open # val_toks a @ tk_comma # val_toks b @ tk_close # r) = Inr (cond_sem (CStarts a b), r)"
  by (simp add: parse_starts_def parse_val)

text \<open>The next token is none of the given words.\<close>

definition not_at :: "string list \<Rightarrow> ptok list \<Rightarrow> bool" where
  "not_at ws r \<longleftrightarrow> (\<forall>w \<in> set ws. \<forall>t. r \<noteq> tk_word w # t)"

lemma not_at_accept: "not_at ws r \<Longrightarrow> w \<in> set ws \<Longrightarrow> w \<noteq> [] \<Longrightarrow> accept TIdent w r = None"
  by (cases r) (auto simp: not_at_def accept_def)

lemma not_at_close [simp]: "not_at ws (tk_close # r)" "not_at ws []"
  by (simp_all add: not_at_def)

lemma val_first:
  "val_plain v \<Longrightarrow> v \<noteq> VCol ''not'' \<Longrightarrow> accept TIdent ''not'' (val_toks v @ r) = None"
  "val_plain v \<Longrightarrow> v \<noteq> VCol ''startswith'' \<Longrightarrow> accept TIdent ''startswith'' (val_toks v @ r) = None"
  "accept TPunc ''('' (val_toks v @ r) = None"
  by (cases v; simp)+

declare parseOr.simps [simp del] orLoop.simps [simp del] parseAnd.simps [simp del] andLoop.simps [simp del]
  parseNot.simps [simp del] parsePrimary.simps [simp del]

definition reads_not :: "cond \<Rightarrow> bool" where
  "reads_not p \<longleftrightarrow> (\<forall>n r. length (show_not p) \<le> n \<longrightarrow> parseNot n (show_not p @ r) = Inr (cond_sem p, r))"

definition reads_and :: "cond \<Rightarrow> bool" where
  "reads_and p \<longleftrightarrow> (\<forall>n r. length (show_and p) \<le> n \<longrightarrow> not_at [''and''] r \<longrightarrow>
     parseAnd n (show_and p @ r) = Inr (cond_sem p, r)
     \<and> (\<forall>l. andLoop (Suc n) l (tk_word ''and'' # show_and p @ r) = Inr (\<lambda>row rows. l row rows \<and> cond_sem p row rows, r)))"

definition reads_or :: "cond \<Rightarrow> bool" where
  "reads_or p \<longleftrightarrow> (\<forall>n r. length (show_or p) \<le> n \<longrightarrow> not_at [''and'', ''or''] r \<longrightarrow>
     parseOr n (show_or p @ r) = Inr (cond_sem p, r)
     \<and> (\<forall>l. orLoop (Suc n) l (tk_word ''or'' # show_or p @ r) = Inr (\<lambda>row rows. l row rows \<or> cond_sem p row rows, r)))"

lemma stop_and: "not_at [''and''] r \<Longrightarrow> andLoop n l r = Inr (l, r)"
  by (simp add: andLoop.simps not_at_accept)

lemma stop_or: "not_at [''and'', ''or''] r \<Longrightarrow> orLoop n l r = Inr (l, r)"
  by (simp add: orLoop.simps not_at_accept)

lemma not_at_fewer: "not_at [''and'', ''or''] r \<Longrightarrow> not_at [''and''] r"
  by (simp add: not_at_def)

lemma reads_and_single: "reads_not p \<Longrightarrow> show_and p = show_not p \<Longrightarrow> reads_and p"
  by (simp add: reads_and_def reads_not_def parseAnd.simps andLoop.simps [of "Suc n" for n] stop_and)

lemma reads_or_single: "reads_and p \<Longrightarrow> show_or p = show_and p \<Longrightarrow> reads_or p"
  by (simp add: reads_or_def reads_and_def parseOr.simps orLoop.simps [of "Suc n" for n] stop_or not_at_fewer)

lemma reads_and_chain:
  assumes "reads_not p" "reads_and q" "length (show_not p) + length (show_and q) < n" "not_at [''and''] r"
  shows "parseAnd n (show_not p @ tk_word ''and'' # show_and q @ r) = Inr (cond_sem (CAnd p q), r)"
proof -
  obtain m where m: "n = Suc m" "length (show_and q) \<le> m" using assms(3) by (cases n) auto
  have "parseNot n (show_not p @ tk_word ''and'' # show_and q @ r) = Inr (cond_sem p, tk_word ''and'' # show_and q @ r)"
    using assms(1,3) unfolding reads_not_def by simp
  moreover have "andLoop n (cond_sem p) (tk_word ''and'' # show_and q @ r) = Inr (cond_sem (CAnd p q), r)"
    using assms(2,4) m unfolding reads_and_def by simp
  ultimately show ?thesis by (simp add: parseAnd.simps)
qed

lemma reads_or_chain:
  assumes "reads_and p" "reads_or q" "length (show_and p) + length (show_or q) < n" "not_at [''and'', ''or''] r"
  shows "parseOr n (show_and p @ tk_word ''or'' # show_or q @ r) = Inr (cond_sem (COr p q), r)"
proof -
  obtain m where m: "n = Suc m" "length (show_or q) \<le> m" using assms(3) by (cases n) auto
  have "not_at [''and''] (tk_word ''or'' # show_or q @ r)" by (simp add: not_at_def)
  then have "parseAnd n (show_and p @ tk_word ''or'' # show_or q @ r) = Inr (cond_sem p, tk_word ''or'' # show_or q @ r)"
    using assms(1,3) unfolding reads_and_def by simp
  moreover have "orLoop n (cond_sem p) (tk_word ''or'' # show_or q @ r) = Inr (cond_sem (COr p q), r)"
    using assms(2,4) m unfolding reads_or_def by simp
  ultimately show ?thesis by (simp add: parseOr.simps)
qed

lemma reads_parens:
  assumes "show_not p = tk_open # body @ [tk_close]"
    and "\<And>n r. length body \<le> n \<Longrightarrow> parseOr n (body @ tk_close # r) = Inr (cond_sem p, tk_close # r)"
  shows "reads_not p"
proof -
  have "parseNot (Suc m) (show_not p @ r) = Inr (cond_sem p, r)" if "length body \<le> m" for m r
    using assms(2) [OF that, of r] by (simp add: assms(1) parseNot.simps parsePrimary.simps)
  moreover have "\<exists>m. n = Suc m \<and> length body \<le> m" if "length (show_not p) \<le> n" for n
    using that by (cases n) (auto simp: assms(1))
  ultimately show ?thesis unfolding reads_not_def by blast
qed

lemma printed_is_read: "cond_plain p \<Longrightarrow> reads_not p \<and> reads_and p \<and> reads_or p"
proof (induction p)
  case (CStarts a b)
  then have "reads_not (CStarts a b)"
    by (simp add: reads_not_def parseNot.simps parsePrimary.simps parse_test_def parse_starts_toks del: cond_sem.simps)
  then show ?case using reads_and_single reads_or_single by simp
next
  case (CCmp a oper b)
  then have "reads_not (CCmp a oper b)"
    by (simp add: reads_not_def parseNot.simps parsePrimary.simps parse_test_def parse_cmp val_first del: cond_sem.simps)
  then show ?case using reads_and_single reads_or_single by simp
next
  case (CNot p)
  have "parseNot n (tk_word ''not'' # show_not p @ r) = Inr (cond_sem (CNot p), r)" if "Suc (length (show_not p)) \<le> n" for n r
    using CNot that by (cases n) (simp_all add: reads_not_def parseNot.simps [of "Suc m" for m])
  then have "reads_not (CNot p)" by (simp add: reads_not_def)
  then show ?case using reads_and_single reads_or_single by simp
next
  case (CAnd p q)
  then have pq: "reads_not p" "reads_and q" by simp_all
  have par: "parseAnd n (show_not p @ tk_word ''and'' # show_and q @ r) = Inr (cond_sem (CAnd p q), r)"
    if "length (show_not p) + length (show_and q) < n" "not_at [''and''] r" for n r
    by (rule reads_and_chain [OF pq that])
  have "andLoop (Suc n) l (tk_word ''and'' # show_not p @ tk_word ''and'' # show_and q @ r)
      = Inr (\<lambda>row rows. l row rows \<and> cond_sem (CAnd p q) row rows, r)"
    if n: "length (show_not p) + length (show_and q) < n" "not_at [''and''] r" for n r l
  proof -
    obtain m where m: "n = Suc m" "length (show_and q) \<le> m" using n(1) by (cases n) auto
    have "parseNot n (show_not p @ tk_word ''and'' # show_and q @ r) = Inr (cond_sem p, tk_word ''and'' # show_and q @ r)"
      using pq(1) n(1) unfolding reads_not_def by simp
    moreover have "andLoop n (\<lambda>row rows. l row rows \<and> cond_sem p row rows) (tk_word ''and'' # show_and q @ r)
        = Inr (\<lambda>row rows. (l row rows \<and> cond_sem p row rows) \<and> cond_sem q row rows, r)"
      using pq(2) n(2) m unfolding reads_and_def by simp
    ultimately show ?thesis by (simp add: andLoop.simps [of "Suc n"] conj_assoc)
  qed
  then have a: "reads_and (CAnd p q)" using par unfolding reads_and_def by (simp del: cond_sem.simps)
  have "reads_not (CAnd p q)"
  proof (rule reads_parens)
    fix n r assume n: "length (show_not p @ tk_word ''and'' # show_and q) \<le> n"
    then show "parseOr n ((show_not p @ tk_word ''and'' # show_and q) @ tk_close # r) = Inr (cond_sem (CAnd p q), tk_close # r)"
      using par [of n "tk_close # r"] by (simp add: parseOr.simps stop_or del: cond_sem.simps)
  qed simp
  then show ?case using a reads_or_single by simp
next
  case (COr p q)
  then have pq: "reads_and p" "reads_or q" by simp_all
  have par: "parseOr n (show_and p @ tk_word ''or'' # show_or q @ r) = Inr (cond_sem (COr p q), r)"
    if "length (show_and p) + length (show_or q) < n" "not_at [''and'', ''or''] r" for n r
    by (rule reads_or_chain [OF pq that])
  have "orLoop (Suc n) l (tk_word ''or'' # show_and p @ tk_word ''or'' # show_or q @ r)
      = Inr (\<lambda>row rows. l row rows \<or> cond_sem (COr p q) row rows, r)"
    if n: "length (show_and p) + length (show_or q) < n" "not_at [''and'', ''or''] r" for n r l
  proof -
    obtain m where m: "n = Suc m" "length (show_or q) \<le> m" using n(1) by (cases n) auto
    have "not_at [''and''] (tk_word ''or'' # show_or q @ r)" by (simp add: not_at_def)
    then have "parseAnd n (show_and p @ tk_word ''or'' # show_or q @ r) = Inr (cond_sem p, tk_word ''or'' # show_or q @ r)"
      using pq(1) n(1) unfolding reads_and_def by simp
    moreover have "orLoop n (\<lambda>row rows. l row rows \<or> cond_sem p row rows) (tk_word ''or'' # show_or q @ r)
        = Inr (\<lambda>row rows. (l row rows \<or> cond_sem p row rows) \<or> cond_sem q row rows, r)"
      using pq(2) n(2) m unfolding reads_or_def by simp
    ultimately show ?thesis by (simp add: orLoop.simps [of "Suc n"] disj_assoc)
  qed
  then have o: "reads_or (COr p q)" using par unfolding reads_or_def by (simp del: cond_sem.simps)
  have "reads_not (COr p q)"
  proof (rule reads_parens)
    fix n r assume n: "length (show_and p @ tk_word ''or'' # show_or q) \<le> n"
    then show "parseOr n ((show_and p @ tk_word ''or'' # show_or q) @ tk_close # r) = Inr (cond_sem (COr p q), tk_close # r)"
      using par [of n "tk_close # r"] by (simp del: cond_sem.simps)
  qed simp
  then show ?case using o reads_and_single by simp
qed

section \<open>Text\<close>

definition render_tok :: "ptok \<Rightarrow> string" where
  "render_tok t = (if fst t = TStr then (if CHR 0x22 \<in> set (snd t) then CHR 0x27 # snd t @ [CHR 0x27] else CHR 0x22 # snd t @ [CHR 0x22])
     else snd t)"

definition render :: "ptok list \<Rightarrow> string" where
  "render ts = concat (map (\<lambda>t. render_tok t @ '' '') ts)"

definition comparison_ops :: "string list" where
  "comparison_ops = [''=='', ''!='', ''<='', ''>='', ''<'', ''>'']"

definition is_word :: "string \<Rightarrow> bool" where
  "is_word v \<longleftrightarrow> v \<noteq> [] \<and> is_alpha (hd v) \<and> list_all isIdentPart v"

text \<open>The tokens that the lexer can return; a string that holds both kinds of quotes cannot be written.\<close>

definition tok_ok :: "ptok \<Rightarrow> bool" where
  "tok_ok t = (case t of
      (TIdent, v) \<Rightarrow> is_word v
    | (TStr, v) \<Rightarrow> CHR 0x22 \<notin> set v \<or> CHR 0x27 \<notin> set v
    | (TInt, v) \<Rightarrow> v \<noteq> [] \<and> list_all is_digit v
    | (TOp, v) \<Rightarrow> v \<in> set comparison_ops
    | (TPunc, v) \<Rightarrow> v \<in> {''('', '')'', '',''})"

lemma takeWhile_all: "list_all p v \<Longrightarrow> \<not> p c \<Longrightarrow> takeWhile p (v @ c # s) = v \<and> dropWhile p (v @ c # s) = c # s"
  by (induction v) simp_all

lemma blank_simps [simp]: "is_white CHR '' ''" "\<not> isIdentPart CHR '' ''" "\<not> is_digit CHR '' ''"
  by code_simp+

lemma lex_blank [simp]: "lexPredicate (CHR '' '' # s) = lexPredicate s"
  by simp

lemma alpha_class: "is_alpha c \<Longrightarrow> \<not> is_white c \<and> c \<notin> {CHR ''('', CHR '')'', CHR '',''} \<and> c \<notin> {CHR ''='', CHR ''!'', CHR ''<'', CHR ''>''}
    \<and> c \<notin> quotes \<and> \<not> is_digit c"
  by (auto simp: is_alpha_def is_white_def quotes_def is_digit_def Let_def)

lemma digit_class: "is_digit c \<Longrightarrow> \<not> is_white c \<and> c \<notin> {CHR ''('', CHR '')'', CHR '',''} \<and> c \<notin> {CHR ''='', CHR ''!'', CHR ''<'', CHR ''>''}
    \<and> c \<notin> quotes"
  by (auto simp: is_white_def quotes_def is_digit_def)

lemma lex_word: "is_word v \<Longrightarrow> lexPredicate (v @ CHR '' '' # s) = map_sum id ((#) (TIdent, v)) (lexPredicate s)"
proof (cases v)
  case (Cons c cs)
  assume v: "is_word v"
  then have c: "is_alpha c" "list_all isIdentPart cs" using Cons by (simp_all add: is_word_def)
  then have p: "isIdentPart c" by (simp add: isIdentPart_def)
  have w: "takeWhile isIdentPart (cs @ CHR '' '' # s) = cs" "dropWhile isIdentPart (cs @ CHR '' '' # s) = CHR '' '' # s"
    using takeWhile_all [OF c(2), of "CHR '' ''" s] by simp_all
  show ?thesis unfolding Cons append_Cons
    by (subst lexPredicate.simps) (use alpha_class [OF c(1)] c(1) p w in simp)
qed (simp add: is_word_def)

lemma lex_int: "v \<noteq> [] \<Longrightarrow> list_all is_digit v \<Longrightarrow> lexPredicate (v @ CHR '' '' # s) = map_sum id ((#) (TInt, v)) (lexPredicate s)"
proof (cases v)
  case (Cons c cs)
  assume "list_all is_digit v"
  then have c: "is_digit c" "list_all is_digit cs" using Cons by simp_all
  have w: "takeWhile is_digit (cs @ CHR '' '' # s) = cs" "dropWhile is_digit (cs @ CHR '' '' # s) = CHR '' '' # s"
    using takeWhile_all [OF c(2), of "CHR '' ''" s] by simp_all
  show ?thesis unfolding Cons append_Cons
    by (subst lexPredicate.simps) (use digit_class [OF c(1)] c(1) w in simp)
qed simp

lemma quote_class: "q \<in> quotes \<Longrightarrow> \<not> is_white q \<and> q \<notin> {CHR ''('', CHR '')'', CHR '',''} \<and> q \<notin> {CHR ''='', CHR ''!'', CHR ''<'', CHR ''>''}"
  by (auto simp: is_white_def quotes_def)

lemma lex_quoted: "q \<in> quotes \<Longrightarrow> q \<notin> set v \<Longrightarrow> lexPredicate (q # v @ q # s) = map_sum id ((#) (TStr, v)) (lexPredicate s)"
proof -
  assume q: "q \<in> quotes" "q \<notin> set v"
  have w: "takeWhile (\<lambda>d. d \<noteq> q) (v @ q # s) = v" "dropWhile (\<lambda>d. d \<noteq> q) (v @ q # s) = q # s"
    using q(2) by (induction v) auto
  show ?thesis by (subst lexPredicate.simps) (use quote_class [OF q(1)] q(1) w in \<open>simp add: Let_def\<close>)
qed

lemma lex_tok: "tok_ok t \<Longrightarrow> lexPredicate (render_tok t @ CHR '' '' # s) = map_sum id ((#) t) (lexPredicate s)"
proof (cases t)
  case (Pair k v)
  assume ok: "tok_ok t"
  show ?thesis
  proof (cases k)
    case TIdent
    then show ?thesis using ok Pair by (simp add: tok_ok_def render_tok_def lex_word)
  next
    case TStr
    then have "CHR 0x22 \<notin> set v \<or> CHR 0x27 \<notin> set v" using ok Pair by (simp add: tok_ok_def)
    then show ?thesis using Pair TStr lex_quoted [of "CHR 0x22" v "CHR '' '' # s"] lex_quoted [of "CHR 0x27" v "CHR '' '' # s"]
      by (simp add: render_tok_def quotes_def del: lexPredicate.simps)
  next
    case TInt
    then show ?thesis using ok Pair by (simp add: tok_ok_def render_tok_def lex_int)
  next
    case TOp
    then have "v \<in> set comparison_ops" using ok Pair by (simp add: tok_ok_def)
    then show ?thesis using Pair TOp by (auto simp: comparison_ops_def render_tok_def is_white_def)
  next
    case TPunc
    then have "v \<in> {''('', '')'', '',''}" using ok Pair by (simp add: tok_ok_def)
    then show ?thesis using Pair TPunc by (auto simp: render_tok_def is_white_def)
  qed
qed

declare lexPredicate.simps [simp del]

lemma lex_render: "list_all tok_ok ts \<Longrightarrow> lexPredicate (render ts) = Inr ts"
  by (induction ts) (simp_all add: render_def lex_tok lexPredicate.simps(1))

section \<open>Compiling\<close>

definition cond_text :: "cond \<Rightarrow> string" where
  "cond_text p = render (show_or p)"

definition cond_ok :: "cond \<Rightarrow> bool" where
  "cond_ok p \<longleftrightarrow> cond_plain p \<and> list_all tok_ok (show_or p)"

lemma show_nonempty: "show_not p \<noteq> [] \<and> show_and p \<noteq> [] \<and> show_or p \<noteq> []"
  by (induction p) simp_all

lemma trim_space_keeps: "c \<in> set s \<Longrightarrow> \<not> is_space c \<Longrightarrow> trim_space s \<noteq> []"
proof -
  assume c: "c \<in> set s" "\<not> is_space c"
  have "dropWhile is_space s \<noteq> []" using c by (metis dropWhile_eq_Nil_conv)
  then have "\<not> is_space (hd (dropWhile is_space s))" "hd (dropWhile is_space s) \<in> set (rev (dropWhile is_space s))"
    using hd_dropWhile [of is_space s] by auto
  then have "dropWhile is_space (rev (dropWhile is_space s)) \<noteq> []" by (metis dropWhile_eq_Nil_conv)
  then show ?thesis unfolding trim_space_def by simp
qed

lemma render_visible: "ts \<noteq> [] \<Longrightarrow> list_all tok_ok ts \<Longrightarrow> \<exists>c \<in> set (render ts). \<not> is_space c"
proof -
  assume ts: "ts \<noteq> []" "list_all tok_ok ts"
  then obtain t r where t: "ts = t # r" by (cases ts) auto
  have "\<exists>c \<in> set (render_tok t). \<not> is_space c"
  proof (cases t)
    case (Pair k v)
    have ok: "tok_ok (k, v)" using ts(2) t Pair by simp
    show ?thesis
    proof (cases k)
      case TIdent
      then have "is_alpha (hd v)" "v \<noteq> []" using ok by (simp_all add: tok_ok_def is_word_def)
      moreover have "is_alpha c \<Longrightarrow> \<not> is_space c" for c by (auto simp: is_alpha_def is_space_def Let_def)
      ultimately show ?thesis using Pair TIdent by (intro bexI [of _ "hd v"]) (simp_all add: render_tok_def)
    next
      case TStr
      have "\<not> is_space CHR 0x22" "\<not> is_space CHR 0x27" by code_simp+
      then show ?thesis using Pair TStr by (auto simp: render_tok_def)
    next
      case TInt
      then have "is_digit (hd v)" "v \<noteq> []" using ok by (cases v; simp add: tok_ok_def)+
      moreover have "is_digit c \<Longrightarrow> \<not> is_space c" for c by (auto simp: is_digit_def is_space_def Let_def)
      ultimately show ?thesis using Pair TInt by (intro bexI [of _ "hd v"]) (simp_all add: render_tok_def)
    next
      case TOp
      then have "v \<in> set comparison_ops" using ok by (simp add: tok_ok_def)
      then show ?thesis using Pair TOp by (auto simp: render_tok_def comparison_ops_def is_space_def)
    next
      case TPunc
      then have "v \<in> {''('', '')'', '',''}" using ok by (simp add: tok_ok_def)
      then show ?thesis using Pair TPunc by (auto simp: render_tok_def is_space_def)
    qed
  qed
  then show ?thesis unfolding t render_def by auto
qed

text \<open>
  C19: compiling a condition yields its meaning. A condition that is printed with the usual precedences
  (\<open>not\<close> before \<open>and\<close> before \<open>or\<close>) and with parentheses only where they are needed is compiled to the
  function that means it, for every row and every relation.
\<close>

theorem condition_round_trip:
  assumes "cond_ok p"
  shows "compilePredicate (cond_text p) = Inr (Some (cond_sem p))"
proof -
  have ok: "cond_plain p" "list_all tok_ok (show_or p)" using assms by (simp_all add: cond_ok_def)
  have "\<exists>c \<in> set (cond_text p). \<not> is_space c" unfolding cond_text_def using render_visible show_nonempty ok(2) by blast
  then have v: "trim_space (cond_text p) \<noteq> []" using trim_space_keeps by blast
  have "reads_or p" using printed_is_read [OF ok(1)] by simp
  then have "parseOr (length (show_or p)) (show_or p @ []) = Inr (cond_sem p, [])" unfolding reads_or_def by (blast intro: order_refl not_at_close(2))
  then have parsed: "parseOr (length (show_or p)) (show_or p) = Inr (cond_sem p, [])" by simp
  have lexed: "lexPredicate (cond_text p) = Inr (show_or p)" unfolding cond_text_def by (rule lex_render [OF ok(2)])
  show ?thesis using v by (simp add: compilePredicate_def lexed parsed del: cond_sem.simps)
qed

text \<open>Three handlers share a guard twice over; the condition is \<open>count(Target by Guard) >= 2 and not Depth == null or Kind != Name\<close>.\<close>

definition demo_cond :: cond where
  "demo_cond = COr (CAnd (CCmp (VCount True ''Target'' [''Guard'']) ''>='' (VInt ''2'')) (CNot (CCmp (VCol ''Depth'') ''=='' VNull)))
     (CCmp (VCol ''Kind'') ''!='' (VCol ''Name''))"

theorem condition_round_trip_witness:
  "compilePredicate ''count_distinct ( Target by Guard ) >= 2 and not Depth == null or Kind != Name '' = Inr (Some (cond_sem demo_cond))"
proof -
  have ok: "cond_ok demo_cond" by code_simp
  have shown: "cond_text demo_cond = ''count_distinct ( Target by Guard ) >= 2 and not Depth == null or Kind != Name ''" by code_simp
  show ?thesis unfolding shown [symmetric] by (rule condition_round_trip [OF ok])
qed

section \<open>Fuel\<close>

text \<open>A result that is no lack of fuel and leaves at most \<open>n\<close> tokens.\<close>

definition leaves :: "nat \<Rightarrow> predError + 'a \<times> ptok list \<Rightarrow> bool" where
  "leaves n res \<longleftrightarrow> res \<noteq> Inl EPredFuel \<and> (\<forall>x r. res = Inr (x, r) \<longrightarrow> length r \<le> n)"

lemma leaves_Inr [simp]: "leaves n (Inr (x, r)) \<longleftrightarrow> length r \<le> n"
  by (simp add: leaves_def)

lemma leaves_bind:
  "leaves n m \<Longrightarrow> (\<And>x r. length r \<le> n \<Longrightarrow> m = Inr (x, r) \<Longrightarrow> leaves k (f (x, r))) \<Longrightarrow> leaves k (bindE m f)"
  by (cases m) (auto simp: leaves_def)

lemma leaves_expect:
  "(\<And>r. length r < length ts \<Longrightarrow> leaves k (f r)) \<Longrightarrow> leaves k (bindE (expect kd v ts) f)"
  by (cases ts) (auto simp: leaves_def expect_def split: if_splits)

lemma leaves_le: "leaves n res \<Longrightarrow> n \<le> k \<Longrightarrow> leaves k res"
  by (auto simp: leaves_def)

lemma leaves_ident: "leaves (length ts) (parseIdent ts)"
  by (auto simp: parseIdent_def leaves_def split: list.splits prod.splits tok_kind.splits)

lemma leaves_by: "leaves (length ts) (parse_by ts)"
  by (induction ts rule: parse_by.induct) (auto simp: leaves_def map_sum_def split: sum.splits if_splits)

lemma leaves_aggregate: "leaves (length ts) (parseAggregate kind ts)"
  unfolding parseAggregate_def
proof (rule leaves_expect)
  fix r1 :: "ptok list" assume r1: "length r1 < length ts"
  show "leaves (length ts) (bindE (parseIdent r1) (\<lambda>(col, ts2).
     bindE (case accept TIdent ''by'' ts2 of Some r \<Rightarrow> parse_by r | None \<Rightarrow> Inr ([], ts2)) (\<lambda>(by_cols, ts3).
     bindE (expect TPunc '')'' ts3) (\<lambda>ts4. Inr (aggregate (kind = ''count_distinct'') col by_cols, ts4)))))"
  proof (rule leaves_bind [OF leaves_ident], unfold prod.case)
    fix col and r2 :: "ptok list" assume r2: "length r2 \<le> length r1"
    have "leaves (length ts) (case accept TIdent ''by'' r2 of Some r \<Rightarrow> parse_by r | None \<Rightarrow> Inr ([], r2))"
      using r1 r2 leaves_le [OF leaves_by, of _ "length ts"] by (cases r2) (auto split: option.splits)
    then show "leaves (length ts) (bindE (case accept TIdent ''by'' r2 of Some r \<Rightarrow> parse_by r | None \<Rightarrow> Inr ([], r2)) (\<lambda>(by_cols, ts3).
       bindE (expect TPunc '')'' ts3) (\<lambda>ts4. Inr (aggregate (kind = ''count_distinct'') col by_cols, ts4))))"
      by (rule leaves_bind) (auto intro!: leaves_expect)
  qed
qed

lemma leaves_value: "leaves (length ts) (parseValue ts)"
proof (cases ts)
  case (Cons t r)
  obtain k v where t: "t = (k, v)" by (cases t)
  have o: "leaves (Suc (length r)) (bindE (expect TPunc ''('' r) (\<lambda>ts1. bindE (parseIdent ts1) (\<lambda>(col, ts2).
                 bindE (expect TPunc '')'' ts2) (\<lambda>ts3. Inr (\<lambda>row (_ :: pred_row list). row (''origin:'' @ col), ts3)))))"
    by (rule leaves_expect, rule leaves_bind [OF leaves_ident]) (auto intro!: leaves_expect)
  have a: "leaves (Suc (length r)) (parseAggregate v r)" by (rule leaves_le [OF leaves_aggregate]) simp
  show ?thesis unfolding Cons t
    by (simp only: parseValue_def list.case prod.case list.size add_Suc_right add_0_right split: if_split)
      (intro conjI impI; (rule o | rule a | simp add: leaves_def))
qed (simp add: parseValue_def leaves_def)

lemma leaves_test: "leaves (length ts) (parse_test ts)"
proof -
  have s: "leaves (length r) (parse_starts r)" for r
    unfolding parse_starts_def
    apply (rule leaves_expect)
    apply (rule leaves_bind [OF leaves_value])
    apply (unfold prod.case)
    apply (rule leaves_expect)
    apply (rule leaves_bind [OF leaves_value])
    apply (unfold prod.case)
    apply (rule leaves_expect)
    apply simp
    done
  have c: "leaves (length ts) (parse_comparison ts)"
    unfolding parse_comparison_def
  proof (rule leaves_bind [OF leaves_value], unfold prod.case)
    fix lhs and r :: "ptok list" assume r: "length r \<le> length ts"
    show "leaves (length ts) (case r of
         (TOp, oper) # ts2 \<Rightarrow>
           bindE (parseValue ts2) (\<lambda>(rhs, ts3).
             let isNull = (ts2 \<noteq> [] \<and> hd ts2 = (TIdent, ''null'')) in
             Inr (\<lambda>row rows. null_or_compare isNull oper (lhs row rows) (rhs row rows), ts3))
       | _ \<Rightarrow> Inl ENoOperator)"
      using r by (cases r; cases "fst (hd r)") (auto simp: leaves_def [of _ "Inl x" for x] Let_def intro!: leaves_bind [OF leaves_value])
  qed
  show ?thesis
  proof (cases "accept TIdent ''startswith'' ts")
    case (Some r)
    then have "length r \<le> length ts" by (cases ts) (auto split: if_splits)
    then show ?thesis using leaves_le [OF s] Some by (simp add: parse_test_def)
  qed (simp add: parse_test_def c)
qed

lemma accept_shorter: "accept k v ts = Some r \<Longrightarrow> length r < length ts"
  by (cases ts) (auto split: if_splits)

lemma fuel_suffices:
  "length ts \<le> n \<Longrightarrow> leaves (length ts) (parseOr n ts)"
  "length ts \<le> n \<Longrightarrow> leaves (length ts) (orLoop n l ts)"
  "length ts \<le> n \<Longrightarrow> leaves (length ts) (parseAnd n ts)"
  "length ts \<le> n \<Longrightarrow> leaves (length ts) (andLoop n l ts)"
  "length ts \<le> n \<Longrightarrow> leaves (length ts) (parseNot n ts)"
  "length ts \<le> n \<Longrightarrow> leaves (length ts) (parsePrimary n ts)"
proof (induction n ts and n l ts and n ts and n l ts and n ts and n ts
    rule: parseOr_orLoop_parseAnd_andLoop_parseNot_parsePrimary.induct)
  case (1 n ts)
  have "leaves (length ts) (orLoop n f r)" if "length r \<le> length ts" "parseAnd n ts = Inr (f, r)" for f r
    using "1.IH"(2) [OF that(2) refl] "1.prems" that(1) by (auto intro: leaves_le)
  then show ?case unfolding parseOr.simps [of n ts] by (intro leaves_bind [OF "1.IH"(1) [OF "1.prems"]]) simp
next
  case (2 n l ts)
  show ?case
  proof (cases "accept TIdent ''or'' ts")
    case (Some r)
    then obtain m where m: "n = Suc m" "length r \<le> m" "length r < length ts" using accept_shorter [OF Some] "2.prems" by (cases n) auto
    have "leaves (length ts) (orLoop m (\<lambda>row rows. l row rows \<or> f row rows) r1)" if "length r1 \<le> length r" "parseAnd m r = Inr (f, r1)" for f r1
      using "2.IH"(2) [OF Some m(1) that(2) refl] m that(1) by (auto intro: leaves_le)
    moreover have "leaves (length r) (parseAnd m r)" by (rule "2.IH"(1) [OF Some m(1,2)])
    ultimately show ?thesis unfolding m(1) orLoop.simps [of "Suc m" l ts] Some option.case nat.case by (auto intro!: leaves_bind [of "length r"])
  qed (simp add: orLoop.simps)
next
  case (3 n ts)
  have "leaves (length ts) (andLoop n f r)" if "length r \<le> length ts" "parseNot n ts = Inr (f, r)" for f r
    using "3.IH"(2) [OF that(2) refl] "3.prems" that(1) by (auto intro: leaves_le)
  then show ?case unfolding parseAnd.simps [of n ts] by (intro leaves_bind [OF "3.IH"(1) [OF "3.prems"]]) simp
next
  case (4 n l ts)
  show ?case
  proof (cases "accept TIdent ''and'' ts")
    case (Some r)
    then obtain m where m: "n = Suc m" "length r \<le> m" "length r < length ts" using accept_shorter [OF Some] "4.prems" by (cases n) auto
    have "leaves (length ts) (andLoop m (\<lambda>row rows. l row rows \<and> f row rows) r1)" if "length r1 \<le> length r" "parseNot m r = Inr (f, r1)" for f r1
      using "4.IH"(2) [OF Some m(1) that(2) refl] m that(1) by (auto intro: leaves_le)
    moreover have "leaves (length r) (parseNot m r)" by (rule "4.IH"(1) [OF Some m(1,2)])
    ultimately show ?thesis unfolding m(1) andLoop.simps [of "Suc m" l ts] Some option.case nat.case by (auto intro!: leaves_bind [of "length r"])
  qed (simp add: andLoop.simps)
next
  case (5 n ts)
  show ?case
  proof (cases "accept TIdent ''not'' ts")
    case None
    then show ?thesis using "5.IH"(1) [OF None "5.prems"] by (simp add: parseNot.simps)
  next
    case (Some r)
    then obtain m where m: "n = Suc m" "length r \<le> m" "length r < length ts" using accept_shorter [OF Some] "5.prems" by (cases n) auto
    have "leaves (length r) (parseNot m r)" by (rule "5.IH"(2) [OF Some m(1,2)])
    then show ?thesis unfolding m(1) parseNot.simps [of "Suc m" ts] Some option.case nat.case using m(3) by (auto intro!: leaves_bind [of "length r"])
  qed
next
  case (6 n ts)
  show ?case
  proof (cases "accept TPunc ''('' ts")
    case None
    then show ?thesis using leaves_test by (simp add: parsePrimary.simps)
  next
    case (Some r)
    then obtain m where m: "n = Suc m" "length r \<le> m" "length r < length ts" using accept_shorter [OF Some] "6.prems" by (cases n) auto
    have "leaves (length r) (parseOr m r)" by (rule "6.IH" [OF Some m(1,2)])
    then show ?thesis unfolding m(1) parsePrimary.simps [of "Suc m" ts] Some option.case nat.case using m(3) by (auto intro!: leaves_bind [of "length r"] leaves_expect)
  qed
qed

lemma lex_no_fuel: "lexPredicate s \<noteq> Inl EPredFuel"
proof (induction s rule: lexPredicate.induct)
  case (2 c cs)
  have map: "map_sum id f x = Inl EPredFuel \<longleftrightarrow> x = Inl EPredFuel" for f :: "ptok list \<Rightarrow> ptok list" and x :: "predError + ptok list"
    by (cases x) auto
  from 2 show ?case unfolding lexPredicate.simps(2) [of c cs] Let_def by (simp add: map lexPredicate.simps(1))
qed (simp add: lexPredicate.simps(1))

text \<open>The fuel never shows: compiling any text ends with a function or with one of the errors of the source.\<close>

lemma compile_never_starves: "compilePredicate src \<noteq> Inl EPredFuel"
proof (cases "lexPredicate src")
  case (Inr ts)
  have "leaves (length ts) (parseOr (length ts) ts)" by (rule fuel_suffices(1)) simp
  then show ?thesis using Inr by (cases "parseOr (length ts) ts") (auto simp: compilePredicate_def leaves_def split: if_splits)
qed (use lex_no_fuel [of src] in \<open>auto simp: compilePredicate_def\<close>)

section \<open>Comparison\<close>

text \<open>Of two values exactly one of the three relations holds, whether they compare as numbers or as text.\<close>

lemma compare_total:
  "compareVals l r ''=='' \<longleftrightarrow> \<not> compareVals l r ''!=''"
  "compareVals l r ''<='' \<longleftrightarrow> compareVals l r ''<'' \<or> compareVals l r ''==''"
  "compareVals l r ''>='' \<longleftrightarrow> \<not> compareVals l r ''<''"
  "compareVals l r ''>'' \<longleftrightarrow> \<not> compareVals l r ''<=''"
  by (auto simp: compareVals_def compare_by_def split: option.splits)

text \<open>A departure: since the kind of comparison is chosen pair by pair, the order is not transitive.\<close>

lemma compare_cycle:
  "compareVals ''9'' ''10'' ''<'' \<and> compareVals ''10'' ''1a'' ''<'' \<and> compareVals ''1a'' ''9'' ''<''"
  by code_simp

end
