(* ===== verification/Emit.thy ===== *)
theory Emit
  imports Predicates
begin

text \<open>
  Emission (\<open>internal/factpipe/emit.go\<close>): an \<open>emit:\<close> block, its compilation, and the step from the tuples of
  a derived relation to edges, nodes, patches, unresolved references and ledger rows. A Go map in a
  specification is a list of pairs with distinct keys; the provenance of a tuple, which the Datalog engine
  answers, is an argument.
\<close>

section \<open>Values of fields\<close>

record valueRef =
  vr_arg :: string
  vr_literal :: string
  vr_template :: string
  vr_isLit :: bool

text \<open>What a field of the YAML document can be: a scalar, or a mapping with any of three keys.\<close>

datatype yamlRef = YScalar string | YMapping string "string option" string

definition UnmarshalYAML :: "yamlRef \<Rightarrow> valueRef" where
  "UnmarshalYAML y =
     (case y of
        YScalar v \<Rightarrow> \<lparr>vr_arg = [], vr_literal = v, vr_template = [], vr_isLit = True\<rparr>
      | YMapping a l t \<Rightarrow> \<lparr>vr_arg = a, vr_literal = (case l of Some v \<Rightarrow> v | None \<Rightarrow> []), vr_template = t, vr_isLit = (l \<noteq> None)\<rparr>)"

definition unset_ref :: valueRef where
  "unset_ref = \<lparr>vr_arg = [], vr_literal = [], vr_template = [], vr_isLit = False\<rparr>"

definition ref_set :: "valueRef \<Rightarrow> bool" where
  "ref_set v \<longleftrightarrow> vr_arg v \<noteq> [] \<or> vr_isLit v \<or> vr_template v \<noteq> []"

text \<open>The pattern \<open>templatePlaceholder\<close> after its opening brace: a name and what follows the closing brace.\<close>

definition templatePlaceholder :: "string \<Rightarrow> (string \<times> string) option" where
  "templatePlaceholder s =
     (let name = takeWhile isIdentPart s; rest = dropWhile isIdentPart s in
      if name \<noteq> [] \<and> is_alpha (hd name) \<and> rest \<noteq> [] \<and> hd rest = CHR ''}'' then Some (name, tl rest) else None)"

lemma placeholder_shorter:
  assumes "templatePlaceholder s = Some (n, r)"
  shows "length r < length s"
proof -
  have r: "dropWhile isIdentPart s \<noteq> []" "r = tl (dropWhile isIdentPart s)"
    using assms unfolding templatePlaceholder_def Let_def by (simp_all split: if_splits)
  then have "length r < length (dropWhile isIdentPart s)" by (cases "dropWhile isIdentPart s") simp_all
  then show ?thesis using length_dropWhile_le [of isIdentPart s] by (rule less_le_trans)
qed

function fill_template :: "pred_row \<Rightarrow> string \<Rightarrow> string" where
  "fill_template row [] = []"
| "fill_template row (c # cs) =
     (case (if c = CHR ''{'' then templatePlaceholder cs else None) of
        Some (name, rest) \<Rightarrow> row name @ fill_template row rest
      | None \<Rightarrow> c # fill_template row cs)"
  by pat_completeness auto
termination
  by (relation "measure (length \<circ> snd)") (auto dest!: placeholder_shorter split: if_splits)

definition resolve_ref :: "valueRef \<Rightarrow> pred_row \<Rightarrow> string" where
  "resolve_ref v row =
     (if vr_arg v \<noteq> [] then row (vr_arg v)
      else if vr_template v \<noteq> [] then fill_template row (vr_template v)
      else vr_literal v)"

text \<open>\<open>if v.set() { if n, err := strconv.Atoi(v.resolve(row)); err == nil { \<dots> } }\<close>\<close>

definition int_field :: "valueRef \<Rightarrow> pred_row \<Rightarrow> int" where
  "int_field v row = (if ref_set v then (case atoi (resolve_ref v row) of Some n \<Rightarrow> n | None \<Rightarrow> 0) else 0)"

section \<open>Specifications\<close>

type_synonym metaSpec = "(string \<times> valueRef) list"

record emitEdge =
  sp_from :: valueRef
  sp_to :: valueRef
  sp_type :: string
  sp_label :: valueRef
  sp_method :: valueRef
  sp_path :: valueRef

record mintSpec =
  mi_node :: string
  mi_id :: valueRef
  mi_label :: valueRef
  mi_service :: valueRef
  mi_file :: valueRef
  mi_line :: valueRef
  mi_endLine :: valueRef
  mi_language :: valueRef
  mi_meta :: metaSpec

record replaceSpec =
  re_old :: valueRef
  re_node :: string
  re_id :: valueRef
  re_label :: valueRef
  re_service :: valueRef
  re_file :: valueRef
  re_line :: valueRef
  re_language :: valueRef
  re_meta :: metaSpec

definition asMint :: "replaceSpec \<Rightarrow> mintSpec" where
  "asMint r = \<lparr>mi_node = re_node r, mi_id = re_id r, mi_label = re_label r, mi_service = re_service r, mi_file = re_file r,
     mi_line = re_line r, mi_endLine = unset_ref, mi_language = re_language r, mi_meta = re_meta r\<rparr>"

record patchSpec =
  pa_id :: valueRef
  pa_node :: string
  pa_label :: valueRef
  pa_component :: valueRef
  pa_endLine :: valueRef
  pa_meta :: metaSpec
  pa_deleteMeta :: "string list"

record confRule =
  cf_when :: string
  cf_value :: string
  cf_else :: string

record fanOutSpec =
  fo_key :: "string list"
  fo_max :: int
  fo_onExceed :: string

record unresolvedRefSpec =
  us_service :: valueRef
  us_name :: valueRef
  us_file :: valueRef
  us_line :: valueRef
  us_kind :: valueRef
  us_targets :: valueRef

record emitSpec =
  es_relation :: string
  es_columns :: "string list"
  es_rule :: string
  es_edge :: emitEdge
  es_mint :: "mintSpec option"
  es_replace :: "replaceSpec option"
  es_delete :: "valueRef option"
  es_patch :: "patchSpec option"
  es_resolved :: "(valueRef \<times> valueRef) option"
  es_meta :: metaSpec
  es_confidence :: "confRule list"
  es_abstain :: string
  es_fanOut :: "fanOutSpec option"
  es_dedup :: "string list"
  es_unresolved :: "(string \<times> unresolvedRefSpec) option"

definition frozenEdgeTypes :: "string list" where
  "frozenEdgeTypes = [''contains'', ''calls'', ''imports'', ''references'', ''renders'', ''defined_in'', ''component_impl'',
     ''http_call'', ''publishes'', ''subscribes'', ''job_enqueue'', ''job_perform'', ''navigates_to'', ''spawns'', ''dom_read'',
     ''dom_write'', ''dom_listen'', ''dom_contract'', ''backed_by'', ''reads'', ''queries'', ''persists'']"

definition frozenNodeTypes :: "string list" where
  "frozenNodeTypes = [''file'', ''subscriber'', ''publisher'', ''http_client'', ''variable'', ''route'', ''component'', ''element'',
     ''http_handler'']"

section \<open>Compilation\<close>

datatype emitError = ENoRelation | EEdgeEnds | EEdgeType string | EMintType string | EMintId | EReplaceOld | EReplaceType string
  | EReplaceId | EDeleteOld | EPatchId | EPatchType string | EResolvedPair | ETwoVerbs | ENothingToEmit | EUnresolvedKind
  | EAbstain predError | EUnresolvedWhen predError | EConfidence nat predError

record compiledEmit =
  ce_spec :: emitSpec
  ce_abstain :: "boolFn option"
  ce_unresolved :: "boolFn option"
  ce_confidence :: "(boolFn option \<times> string) list"

definition has_edge :: "emitSpec \<Rightarrow> bool" where
  "has_edge s \<longleftrightarrow> sp_type (es_edge s) \<noteq> []"

definition check_edge :: "emitSpec \<Rightarrow> emitError + unit" where
  "check_edge s =
     (if \<not> has_edge s then Inr ()
      else if \<not> ref_set (sp_from (es_edge s)) \<or> \<not> ref_set (sp_to (es_edge s)) then Inl EEdgeEnds
      else if sp_type (es_edge s) \<notin> set frozenEdgeTypes then Inl (EEdgeType (sp_type (es_edge s)))
      else Inr ())"

definition check_mint :: "emitSpec \<Rightarrow> emitError + unit" where
  "check_mint s =
     (case es_mint s of
        None \<Rightarrow> Inr ()
      | Some m \<Rightarrow> if mi_node m \<notin> set frozenNodeTypes then Inl (EMintType (mi_node m))
                  else if \<not> ref_set (mi_id m) then Inl EMintId else Inr ())"

definition check_replace :: "emitSpec \<Rightarrow> emitError + unit" where
  "check_replace s =
     (case es_replace s of
        None \<Rightarrow> Inr ()
      | Some r \<Rightarrow> if \<not> ref_set (re_old r) then Inl EReplaceOld
                  else if re_node r \<notin> set frozenNodeTypes then Inl (EReplaceType (re_node r))
                  else if \<not> ref_set (re_id r) then Inl EReplaceId else Inr ())"

definition check_delete :: "emitSpec \<Rightarrow> emitError + unit" where
  "check_delete s = (case es_delete s of Some v \<Rightarrow> if \<not> ref_set v then Inl EDeleteOld else Inr () | None \<Rightarrow> Inr ())"

definition check_patch :: "emitSpec \<Rightarrow> emitError + unit" where
  "check_patch s =
     (case es_patch s of
        None \<Rightarrow> Inr ()
      | Some p \<Rightarrow> if \<not> ref_set (pa_id p) then Inl EPatchId
                  else if pa_node p \<noteq> [] \<and> pa_node p \<notin> set frozenNodeTypes then Inl (EPatchType (pa_node p)) else Inr ())"

definition check_resolved :: "emitSpec \<Rightarrow> emitError + unit" where
  "check_resolved s =
     (case es_resolved s of Some (svc, name) \<Rightarrow> if \<not> ref_set svc \<or> \<not> ref_set name then Inl EResolvedPair else Inr () | None \<Rightarrow> Inr ())"

definition verbs :: "emitSpec \<Rightarrow> bool list" where
  "verbs s = [es_mint s \<noteq> None, es_replace s \<noteq> None, es_delete s \<noteq> None, es_patch s \<noteq> None]"

definition check_shape :: "emitSpec \<Rightarrow> emitError + unit" where
  "check_shape s =
     (if length (filter id (verbs s)) > 1 then Inl ETwoVerbs
      else if \<not> has_edge s \<and> \<not> list_ex id (verbs s) \<and> es_resolved s = None then Inl ENothingToEmit
      else case es_unresolved s of
        Some (_, r) \<Rightarrow> if \<not> ref_set (us_kind r) then Inl EUnresolvedKind else Inr ()
      | None \<Rightarrow> Inr ())"

definition wrapE :: "('e \<Rightarrow> 'f) \<Rightarrow> 'e + 'a \<Rightarrow> 'f + 'a" where
  "wrapE f m = map_sum f id m"

fun compile_confidence :: "nat \<Rightarrow> confRule list \<Rightarrow> emitError + (boolFn option \<times> string) list" where
  "compile_confidence i [] = Inr []"
| "compile_confidence i (c # cs) =
     bindE (if cf_else c \<noteq> [] then Inr (None, cf_else c)
            else map_sum (EConfidence i) (\<lambda>p. (p, cf_value c)) (compilePredicate (cf_when c)))
       (\<lambda>x. map_sum id ((#) x) (compile_confidence (Suc i) cs))"

definition compileEmit :: "emitSpec \<Rightarrow> emitError + compiledEmit" where
  "compileEmit s =
     (if es_relation s = [] then Inl ENoRelation
      else bindE (check_edge s) (\<lambda>_. bindE (check_mint s) (\<lambda>_. bindE (check_replace s) (\<lambda>_. bindE (check_delete s) (\<lambda>_.
        bindE (check_patch s) (\<lambda>_. bindE (check_resolved s) (\<lambda>_. bindE (check_shape s) (\<lambda>_.
        bindE (wrapE EAbstain (compilePredicate (es_abstain s))) (\<lambda>a.
        bindE (case es_unresolved s of Some (w, _) \<Rightarrow> wrapE EUnresolvedWhen (compilePredicate w) | None \<Rightarrow> Inr None) (\<lambda>u.
        bindE (compile_confidence 0 (es_confidence s)) (\<lambda>cs.
          Inr \<lparr>ce_spec = s, ce_abstain = a, ce_unresolved = u, ce_confidence = cs\<rparr>)))))))))))"

fun CompileEmitSpecs :: "emitSpec list \<Rightarrow> (string \<times> emitError) + compiledEmit list" where
  "CompileEmitSpecs [] = Inr []"
| "CompileEmitSpecs (s # ss) =
     bindE (wrapE (Pair (es_relation s)) (compileEmit s)) (\<lambda>ce. map_sum id ((#) ce) (CompileEmitSpecs ss))"

definition emit_relation :: "compiledEmit \<Rightarrow> string" where
  "emit_relation e = es_relation (ce_spec e)"

section \<open>Rows\<close>

text \<open>A row maps its columns, and the positions of all its values, to the values.\<close>

definition put_value :: "string list \<Rightarrow> nat \<times> string \<Rightarrow> pred_row \<Rightarrow> pred_row" where
  "put_value cols jv m = (if fst jv < length cols then m(cols ! fst jv := snd jv) else m)(fmt_nat (fst jv) := snd jv)"

definition row_of :: "string list \<Rightarrow> string list \<Rightarrow> pred_row" where
  "row_of cols t = fold (put_value cols) (enumerate 0 t) (\<lambda>_. [])"

definition some_meta :: "(valueRef \<Rightarrow> string \<Rightarrow> bool) \<Rightarrow> metaSpec \<Rightarrow> pred_row \<Rightarrow> string \<rightharpoonup> string" where
  "some_meta keep ms row =
     map_of (map (\<lambda>(k, r). (k, resolve_ref r row)) (filter (\<lambda>(k, r). keep r (resolve_ref r row)) ms))"

record nodePatch =
  np_id :: string
  np_type :: string
  np_label :: string
  np_meta :: "string \<rightharpoonup> string"
  np_component :: bool
  np_endLine :: int
  np_deleteMeta :: "string list"

definition buildPatch :: "patchSpec \<Rightarrow> pred_row \<Rightarrow> nodePatch option" where
  "buildPatch p row =
     (let v = resolve_ref (pa_id p) row in
      if v = [] then None
      else Some \<lparr>np_id = v, np_type = pa_node p, np_label = resolve_ref (pa_label p) row, np_meta = some_meta (\<lambda>_ x. x \<noteq> []) (pa_meta p) row,
        np_component = (resolve_ref (pa_component p) row = ''true''), np_endLine = int_field (pa_endLine p) row,
        np_deleteMeta = pa_deleteMeta p\<rparr>)"

text \<open>A literal forces its key, even when it is empty.\<close>

definition buildNode :: "mintSpec \<Rightarrow> pred_row \<Rightarrow> node option" where
  "buildNode m row =
     (let v = resolve_ref (mi_id m) row in
      if v = [] then None
      else Some \<lparr>nd_id = v, nd_type = mi_node m, nd_label = resolve_ref (mi_label m) row, nd_service = resolve_ref (mi_service m) row,
        nd_file = resolve_ref (mi_file m) row, nd_line = int_field (mi_line m) row, nd_endLine = int_field (mi_endLine m) row,
        nd_language = resolve_ref (mi_language m) row, nd_meta = some_meta (\<lambda>r x. x \<noteq> [] \<or> vr_isLit r) (mi_meta m) row\<rparr>)"

definition buildReplace :: "replaceSpec \<Rightarrow> pred_row \<Rightarrow> (node \<times> string) option" where
  "buildReplace r row =
     (let old = resolve_ref (re_old r) row in
      if old = [] then None else map_option (\<lambda>n. (n, old)) (buildNode (asMint r) row))"

definition confidenceFor :: "compiledEmit \<Rightarrow> pred_row \<Rightarrow> pred_row list \<Rightarrow> string" where
  "confidenceFor e row rows =
     (case find (\<lambda>(p, v). case p of None \<Rightarrow> True | Some f \<Rightarrow> f row rows) (ce_confidence e) of Some (_, v) \<Rightarrow> v | None \<Rightarrow> [])"

text \<open>
  What the engine knows about a tuple of a relation: the one rule that \<open>RuleOf\<close> found, and the rule of the
  first derivation that \<open>Of\<close> lists, where it lists one.
\<close>

record provenance =
  pv_ruleOf :: "string \<Rightarrow> string list \<Rightarrow> string option"
  pv_first :: "string \<Rightarrow> string list \<Rightarrow> string option"

definition edge_rule :: "emitSpec \<Rightarrow> string list \<Rightarrow> provenance option \<Rightarrow> string" where
  "edge_rule s tup prov =
     (let dflt = (if es_rule s = [] then es_relation s else es_rule s) in
      case prov of
        None \<Rightarrow> dflt
      | Some p \<Rightarrow> (case (case pv_ruleOf p (es_relation s) tup of Some r \<Rightarrow> Some r | None \<Rightarrow> pv_first p (es_relation s) tup) of
          Some r \<Rightarrow> if r \<noteq> [] then r else dflt
        | None \<Rightarrow> dflt))"

definition edge_name :: "string \<Rightarrow> string \<Rightarrow> string \<Rightarrow> string \<Rightarrow> string" where
  "edge_name v w label ty = v @ ''->'' @ w @ '':'' @ (if label \<noteq> [] then label else ty)"

definition buildEdge :: "compiledEmit \<Rightarrow> pred_row \<Rightarrow> pred_row list \<Rightarrow> string list \<Rightarrow> provenance option \<Rightarrow> edge" where
  "buildEdge e row rows tup prov =
     (let s = ce_spec e; ed = es_edge s;
          v = resolve_ref (sp_from ed) row; w = resolve_ref (sp_to ed) row; label = resolve_ref (sp_label ed) row;
          conf = confidenceFor e row rows in
      \<lparr>ed_id = edge_name v w label (sp_type ed), ed_from = v, ed_to = w, ed_type = sp_type ed, ed_label = label, ed_confidence = conf,
       ed_method = (if ref_set (sp_method ed) then resolve_ref (sp_method ed) row else []),
       ed_path = (if ref_set (sp_path ed) then resolve_ref (sp_path ed) row else []),
       ed_meta = some_meta (\<lambda>_ x. x \<noteq> []) (es_meta s) row,
       ed_sources = [static_source conf [] ''L3'' (edge_rule s tup prov)], ed_state = [], ed_granularity = []\<rparr>)"

definition opt_field :: "valueRef \<Rightarrow> pred_row \<Rightarrow> string" where
  "opt_field v row = (if ref_set v then resolve_ref v row else [])"

definition buildUnresolved :: "unresolvedRefSpec \<Rightarrow> pred_row \<Rightarrow> unresolvedRef" where
  "buildUnresolved r row = \<lparr>ur_service = opt_field (us_service r) row, ur_file = opt_field (us_file r) row, ur_line = int_field (us_line r) row,
     ur_name = opt_field (us_name r) row, ur_kind = resolve_ref (us_kind r) row, ur_targets = opt_field (us_targets r) row\<rparr>"

definition key_field :: "edge \<Rightarrow> string \<Rightarrow> string" where
  "key_field e f =
     (if f = ''from'' then ed_from e else if f = ''to'' then ed_to e else if f = ''type'' then ed_type e
      else if f = ''label'' then ed_label e else if f = ''method'' then ed_method e else if f = ''path'' then ed_path e else [])"

definition dedupKey :: "emitSpec \<Rightarrow> edge \<Rightarrow> string" where
  "dedupKey s e = str_join [nul] (map (key_field e) (if es_dedup s = [] then [''from'', ''to'', ''type'', ''label''] else es_dedup s))"

definition dedupStrings :: "string list \<Rightarrow> string list" where
  "dedupStrings xs = remdups_adj xs"

definition unresolved_key :: "unresolvedRef \<Rightarrow> string \<times> string \<times> string \<times> int" where
  "unresolved_key u = (ur_kind u, ur_name u, ur_file u, ur_line u)"

definition sortUnresolved :: "unresolvedRef list \<Rightarrow> unresolvedRef list" where
  "sortUnresolved us = sort_key unresolved_key us"

section \<open>Application\<close>

record emitResult =
  em_edges :: "edge list"
  em_nodes :: "node list"
  em_unresolved :: "unresolvedRef list"
  em_ledger :: "unresolvedRef list"
  em_replaced :: "string \<rightharpoonup> string"
  em_deleted :: "string list"
  em_patches :: "nodePatch list"
  em_resolved :: "string list"

definition no_result :: emitResult where
  "no_result = \<lparr>em_edges = [], em_nodes = [], em_unresolved = [], em_ledger = [], em_replaced = Map.empty, em_deleted = [],
     em_patches = [], em_resolved = []\<rparr>"

text \<open>The variables of the loop: the result, the keys that were seen, and the edges that wait for the fan-out check.\<close>

record emitLoop =
  el_res :: emitResult
  el_seen :: "string list"
  el_pend :: "(edge \<times> string) list"

definition add_node :: "node \<Rightarrow> emitResult \<Rightarrow> emitResult" where
  "add_node n res = (if nd_id n \<in> set (map nd_id (em_nodes res)) then res else res\<lparr>em_nodes := em_nodes res @ [n]\<rparr>)"

definition mint_row :: "emitSpec \<Rightarrow> pred_row \<Rightarrow> emitResult \<Rightarrow> emitResult" where
  "mint_row s row res =
     (case es_mint s of None \<Rightarrow> res | Some m \<Rightarrow> (case buildNode m row of None \<Rightarrow> res | Some n \<Rightarrow> add_node n res))"

definition replace_row :: "emitSpec \<Rightarrow> pred_row \<Rightarrow> emitResult \<Rightarrow> emitResult" where
  "replace_row s row res =
     (case es_replace s of
        None \<Rightarrow> res
      | Some r \<Rightarrow> (case buildReplace r row of
          None \<Rightarrow> res
        | Some (n, old) \<Rightarrow> (let res1 = add_node n res in res1\<lparr>em_replaced := (em_replaced res1)(old \<mapsto> nd_id n)\<rparr>)))"

definition delete_row :: "emitSpec \<Rightarrow> pred_row \<Rightarrow> emitResult \<Rightarrow> emitResult" where
  "delete_row s row res =
     (case es_delete s of
        None \<Rightarrow> res
      | Some v \<Rightarrow> (let old = resolve_ref v row in if old \<noteq> [] then res\<lparr>em_deleted := em_deleted res @ [old]\<rparr> else res))"

definition patch_row :: "emitSpec \<Rightarrow> pred_row \<Rightarrow> emitResult \<Rightarrow> emitResult" where
  "patch_row s row res =
     (case es_patch s of
        None \<Rightarrow> res
      | Some p \<Rightarrow> (case buildPatch p row of None \<Rightarrow> res | Some q \<Rightarrow> res\<lparr>em_patches := em_patches res @ [q]\<rparr>))"

definition resolved_row :: "emitSpec \<Rightarrow> pred_row \<Rightarrow> emitResult \<Rightarrow> emitResult" where
  "resolved_row s row res =
     (case es_resolved s of
        None \<Rightarrow> res
      | Some (a, b) \<Rightarrow>
          (let svc = resolve_ref a row; name = resolve_ref b row in
           if svc \<noteq> [] \<and> name \<noteq> [] then res\<lparr>em_resolved := em_resolved res @ [svc @ [nul] @ name]\<rparr> else res))"

definition fan_key :: "emitSpec \<Rightarrow> pred_row \<Rightarrow> string" where
  "fan_key s row = (case es_fanOut s of None \<Rightarrow> [] | Some fo \<Rightarrow> str_join [nul] (map row (fo_key fo)))"

definition edge_row :: "compiledEmit \<Rightarrow> pred_row list \<Rightarrow> provenance option \<Rightarrow> string list \<Rightarrow> pred_row \<Rightarrow> emitLoop \<Rightarrow> emitLoop" where
  "edge_row e rows prov tup row st =
     (if \<not> has_edge (ce_spec e) then st
      else let ed = buildEdge e row rows tup prov; key = dedupKey (ce_spec e) ed in
        if key \<in> set (el_seen st) then st
        else st\<lparr>el_seen := key # el_seen st, el_pend := el_pend st @ [(ed, fan_key (ce_spec e) row)]\<rparr>)"

definition abstains :: "compiledEmit \<Rightarrow> pred_row list \<Rightarrow> pred_row \<Rightarrow> bool" where
  "abstains e rows row \<longleftrightarrow> (case ce_abstain e of Some f \<Rightarrow> f row rows | None \<Rightarrow> False)"

definition not_resolved :: "compiledEmit \<Rightarrow> pred_row list \<Rightarrow> pred_row \<Rightarrow> bool" where
  "not_resolved e rows row \<longleftrightarrow> (case ce_unresolved e of Some f \<Rightarrow> f row rows | None \<Rightarrow> False)"

definition unresolved_row :: "compiledEmit \<Rightarrow> pred_row \<Rightarrow> unresolvedRef list" where
  "unresolved_row e row = (case es_unresolved (ce_spec e) of Some (_, r) \<Rightarrow> [buildUnresolved r row] | None \<Rightarrow> [])"

definition apply_row :: "compiledEmit \<Rightarrow> pred_row list \<Rightarrow> provenance option \<Rightarrow> string list \<times> pred_row \<Rightarrow> emitLoop \<Rightarrow> emitLoop" where
  "apply_row e rows prov tr st =
     (let tup = fst tr; row = snd tr; s = ce_spec e; res = el_res st in
      if abstains e rows row then st
      else if not_resolved e rows row then st\<lparr>el_res := res\<lparr>em_unresolved := em_unresolved res @ unresolved_row e row\<rparr>\<rparr>
      else edge_row e rows prov tup row
             (st\<lparr>el_res := resolved_row s row (patch_row s row (delete_row s row (replace_row s row (mint_row s row res))))\<rparr>))"

definition group_of :: "(edge \<times> string) list \<Rightarrow> string \<Rightarrow> edge list" where
  "group_of pend gk = map fst (filter (\<lambda>p. snd p = gk) pend)"

definition overfull :: "emitSpec \<Rightarrow> (edge \<times> string) list \<Rightarrow> string list" where
  "overfull s pend =
     (case es_fanOut s of
        None \<Rightarrow> []
      | Some fo \<Rightarrow> if fo_max fo > 0
          then filter (\<lambda>gk. int (length (group_of pend gk)) > fo_max fo) (sort (remdups (map snd pend))) else [])"

definition ledger_row :: "emitSpec \<Rightarrow> (edge \<times> string) list \<Rightarrow> string \<Rightarrow> unresolvedRef" where
  "ledger_row s pend gk = \<lparr>ur_service = [], ur_file = [], ur_line = 0, ur_name = map (\<lambda>c. if c = nul then CHR ''|'' else c) gk,
     ur_kind = es_relation s @ ''_fanout'', ur_targets = str_join [CHR 0x0A] (dedupStrings (sort (map ed_to (group_of pend gk))))\<rparr>"

definition cap_fan_out :: "emitSpec \<Rightarrow> (edge \<times> string) list \<Rightarrow> emitResult \<Rightarrow> emitResult" where
  "cap_fan_out s pend res =
     (let over = overfull s pend; rows = map (ledger_row s pend) over;
          how = (case es_fanOut s of Some fo \<Rightarrow> fo_onExceed fo | None \<Rightarrow> []);
          res1 = res\<lparr>em_edges := map fst (filter (\<lambda>p. snd p \<notin> set over) pend)\<rparr> in
      if how = ''drop'' then res1
      else if how = ''unresolved'' then res1\<lparr>em_unresolved := em_unresolved res1 @ rows\<rparr>
      else res1\<lparr>em_ledger := em_ledger res1 @ rows\<rparr>)"

definition sort_result :: "emitResult \<Rightarrow> emitResult" where
  "sort_result res = res\<lparr>em_edges := sort_key ed_id (em_edges res), em_nodes := sort_key nd_id (em_nodes res),
     em_unresolved := sortUnresolved (em_unresolved res), em_ledger := sortUnresolved (em_ledger res),
     em_deleted := dedupStrings (sort (em_deleted res)), em_patches := sort_key np_id (em_patches res),
     em_resolved := dedupStrings (sort (em_resolved res))\<rparr>"

definition run_rows :: "compiledEmit \<Rightarrow> string list list \<Rightarrow> provenance option \<Rightarrow> emitLoop" where
  "run_rows e tups prov =
     (let rows = map (row_of (es_columns (ce_spec e))) tups in
      fold (apply_row e rows prov) (zip tups rows) \<lparr>el_res = no_result, el_seen = [], el_pend = []\<rparr>)"

definition Apply :: "compiledEmit \<Rightarrow> string list list \<Rightarrow> provenance option \<Rightarrow> emitResult" where
  "Apply e tups prov = (let st = run_rows e tups prov in sort_result (cap_fan_out (ce_spec e) (el_pend st) (el_res st)))"

end
