(* ===== verification/Emit_Props.thy ===== *)
theory Emit_Props
  imports Emit Predicate_Props
begin

text \<open>
  What emission yields. The loop over the rows is compared with a description of the rows that count: an edge
  comes from the first row of its key among the rows that neither abstain nor stay unresolved, and it is kept
  unless its fan-out group is over the cap.
\<close>

section \<open>Which rows count\<close>

definition nth_row :: "compiledEmit \<Rightarrow> string list list \<Rightarrow> nat \<Rightarrow> pred_row" where
  "nth_row e tups i = row_of (es_columns (ce_spec e)) (tups ! i)"

definition all_rows :: "compiledEmit \<Rightarrow> string list list \<Rightarrow> pred_row list" where
  "all_rows e tups = map (row_of (es_columns (ce_spec e))) tups"

definition row_edge :: "compiledEmit \<Rightarrow> string list list \<Rightarrow> provenance option \<Rightarrow> nat \<Rightarrow> edge" where
  "row_edge e tups prov i = buildEdge e (nth_row e tups i) (all_rows e tups) (tups ! i) prov"

definition row_key :: "compiledEmit \<Rightarrow> string list list \<Rightarrow> provenance option \<Rightarrow> nat \<Rightarrow> string" where
  "row_key e tups prov i = dedupKey (ce_spec e) (row_edge e tups prov i)"

definition row_fan :: "compiledEmit \<Rightarrow> string list list \<Rightarrow> nat \<Rightarrow> string" where
  "row_fan e tups i = fan_key (ce_spec e) (nth_row e tups i)"

text \<open>A row is asserted when neither condition holds on it; it counts when no earlier asserted row has its key.\<close>

definition asserted :: "compiledEmit \<Rightarrow> string list list \<Rightarrow> nat \<Rightarrow> bool" where
  "asserted e tups i \<longleftrightarrow> i < length tups \<and> \<not> abstains e (all_rows e tups) (nth_row e tups i)
     \<and> \<not> not_resolved e (all_rows e tups) (nth_row e tups i)"

definition counts :: "compiledEmit \<Rightarrow> string list list \<Rightarrow> provenance option \<Rightarrow> nat \<Rightarrow> bool" where
  "counts e tups prov i \<longleftrightarrow> has_edge (ce_spec e) \<and> asserted e tups i
     \<and> (\<forall>j < i. asserted e tups j \<longrightarrow> row_key e tups prov j \<noteq> row_key e tups prov i)"

definition fan_size :: "compiledEmit \<Rightarrow> string list list \<Rightarrow> provenance option \<Rightarrow> string \<Rightarrow> nat" where
  "fan_size e tups prov gk = card {i. counts e tups prov i \<and> row_fan e tups i = gk}"

definition fan_capped :: "compiledEmit \<Rightarrow> string list list \<Rightarrow> provenance option \<Rightarrow> string \<Rightarrow> bool" where
  "fan_capped e tups prov gk \<longleftrightarrow>
     (\<exists>fo. es_fanOut (ce_spec e) = Some fo \<and> fo_max fo > 0 \<and> int (fan_size e tups prov gk) > fo_max fo)"

definition emits :: "compiledEmit \<Rightarrow> string list list \<Rightarrow> provenance option \<Rightarrow> nat \<Rightarrow> bool" where
  "emits e tups prov i \<longleftrightarrow> counts e tups prov i \<and> \<not> fan_capped e tups prov (row_fan e tups i)"

section \<open>The loop\<close>

lemma el_of_steps [simp]:
  "el_seen (st\<lparr>el_res := r\<rparr>) = el_seen st" "el_pend (st\<lparr>el_res := r\<rparr>) = el_pend st"
  by simp_all

text \<open>The edges that wait are those of the rows that count, and the keys that were seen are those of the asserted rows.\<close>

definition loop_inv :: "compiledEmit \<Rightarrow> string list list \<Rightarrow> provenance option \<Rightarrow> nat \<Rightarrow> emitLoop \<Rightarrow> bool" where
  "loop_inv e tups prov n st \<longleftrightarrow>
     el_pend st = map (\<lambda>i. (row_edge e tups prov i, row_fan e tups i)) (filter (counts e tups prov) [0..<n])
     \<and> set (el_seen st) = (if has_edge (ce_spec e) then row_key e tups prov ` {i. i < n \<and> asserted e tups i} else {})"

lemma edge_row_loop:
  assumes inv: "loop_inv e tups prov n st" and n: "n < length tups" and a: "asserted e tups n"
  shows "loop_inv e tups prov (Suc n) (edge_row e (all_rows e tups) prov (tups ! n) (nth_row e tups n) (st\<lparr>el_res := r\<rparr>))"
proof (cases "has_edge (ce_spec e)")
  case False
  then have "\<not> counts e tups prov n" by (simp add: counts_def)
  then show ?thesis using inv False by (simp add: loop_inv_def edge_row_def)
next
  case True
  have ed: "buildEdge e (nth_row e tups n) (all_rows e tups) (tups ! n) prov = row_edge e tups prov n" by (simp add: row_edge_def)
  have key: "dedupKey (ce_spec e) (row_edge e tups prov n) = row_key e tups prov n" by (simp add: row_key_def)
  have fan: "fan_key (ce_spec e) (nth_row e tups n) = row_fan e tups n" by (simp add: row_fan_def)
  have pend: "el_pend st = map (\<lambda>i. (row_edge e tups prov i, row_fan e tups i)) (filter (counts e tups prov) [0..<n])"
    and old: "set (el_seen st) = row_key e tups prov ` {i. i < n \<and> asserted e tups i}"
    using inv True by (simp_all add: loop_inv_def)
  have seen: "row_key e tups prov n \<in> set (el_seen st) \<longleftrightarrow> (\<exists>j < n. asserted e tups j \<and> row_key e tups prov j = row_key e tups prov n)"
    unfolding old image_iff by (simp add: conj_assoc) (metis (no_types))
  have keys: "row_key e tups prov ` {i. i < Suc n \<and> asserted e tups i} = insert (row_key e tups prov n) (row_key e tups prov ` {i. i < n \<and> asserted e tups i})"
    using a by (auto simp: less_Suc_eq)
  have row: "edge_row e (all_rows e tups) prov (tups ! n) (nth_row e tups n) (st\<lparr>el_res := r\<rparr>)
      = (if row_key e tups prov n \<in> set (el_seen st) then st\<lparr>el_res := r\<rparr>
         else st\<lparr>el_res := r, el_seen := row_key e tups prov n # el_seen st, el_pend := el_pend st @ [(row_edge e tups prov n, row_fan e tups n)]\<rparr>)"
    using True by (simp add: edge_row_def ed key fan Let_def)
  show ?thesis
  proof (cases "row_key e tups prov n \<in> set (el_seen st)")
    case s: True
    then have "\<not> counts e tups prov n" using seen by (auto simp: counts_def)
    then show ?thesis unfolding loop_inv_def row keys using True s by (simp add: pend old insert_absorb)
  next
    case s: False
    then have "counts e tups prov n" using seen True a by (auto simp: counts_def)
    then show ?thesis unfolding loop_inv_def row keys using True s by (simp add: pend old)
  qed
qed

lemma apply_row_loop:
  assumes inv: "loop_inv e tups prov n st" and n: "n < length tups"
  shows "loop_inv e tups prov (Suc n) (apply_row e (all_rows e tups) prov (tups ! n, nth_row e tups n) st)"
proof (cases "asserted e tups n")
  case True
  then have "\<not> abstains e (all_rows e tups) (nth_row e tups n)" "\<not> not_resolved e (all_rows e tups) (nth_row e tups n)"
    by (simp_all add: asserted_def)
  then show ?thesis by (simp add: apply_row_def Let_def edge_row_loop [OF inv n True])
next
  case False
  then have skipped: "abstains e (all_rows e tups) (nth_row e tups n) \<or> not_resolved e (all_rows e tups) (nth_row e tups n)"
    using n by (simp add: asserted_def)
  have "\<not> counts e tups prov n" "{i. i < Suc n \<and> asserted e tups i} = {i. i < n \<and> asserted e tups i}"
    using False by (auto simp: counts_def less_Suc_eq)
  then have "loop_inv e tups prov (Suc n) st" using inv by (simp add: loop_inv_def)
  then have "\<And>r. loop_inv e tups prov (Suc n) (st\<lparr>el_res := r\<rparr>)" by (simp add: loop_inv_def)
  then show ?thesis using skipped \<open>loop_inv e tups prov (Suc n) st\<close> by (auto simp: apply_row_def Let_def)
qed

lemma fold_rows:
  assumes step: "\<And>n st. n < length xs \<Longrightarrow> P n st \<Longrightarrow> P (Suc n) (f (xs ! n) st)" and start: "P 0 st"
  shows "P (length xs) (fold f xs st)"
proof -
  have "n \<le> length xs \<Longrightarrow> P n (fold f (take n xs) st)" for n
  proof (induction n)
    case 0
    then show ?case using start by simp
  next
    case (Suc n)
    then show ?case using step [of n "fold f (take n xs) st"] by (simp add: take_Suc_conv_app_nth)
  qed
  from this [of "length xs"] show ?thesis by simp
qed

text \<open>Induction over the rows of a run.\<close>

lemma run_rows_induct:
  assumes step: "\<And>n st. n < length tups \<Longrightarrow> P n st \<Longrightarrow> P (Suc n) (apply_row e (all_rows e tups) prov (tups ! n, nth_row e tups n) st)"
    and start: "P 0 \<lparr>el_res = no_result, el_seen = [], el_pend = []\<rparr>"
  shows "P (length tups) (run_rows e tups prov)"
proof -
  let ?xs = "zip tups (all_rows e tups)"
  have len: "length ?xs = length tups" by (simp add: all_rows_def)
  have at: "?xs ! n = (tups ! n, nth_row e tups n)" if "n < length tups" for n
    using that by (simp add: all_rows_def nth_row_def)
  have "P (length ?xs) (fold (apply_row e (all_rows e tups) prov) ?xs \<lparr>el_res = no_result, el_seen = [], el_pend = []\<rparr>)"
    by (rule fold_rows) (use step start len at in simp_all)
  then show ?thesis unfolding len by (simp add: run_rows_def all_rows_def [symmetric] Let_def)
qed

lemma run_pending:
  "el_pend (run_rows e tups prov) = map (\<lambda>i. (row_edge e tups prov i, row_fan e tups i)) (filter (counts e tups prov) [0..<length tups])"
proof -
  have "loop_inv e tups prov (length tups) (run_rows e tups prov)"
    by (rule run_rows_induct [where P = "loop_inv e tups prov"]) (simp_all add: apply_row_loop, simp add: loop_inv_def)
  then show ?thesis by (simp add: loop_inv_def)
qed

section \<open>The cap on fan-out\<close>

lemma counts_finite: "finite {i. counts e tups prov i \<and> P i}"
  by (rule finite_subset [of _ "{..<length tups}"]) (auto simp: counts_def asserted_def)

lemma group_size: "length (group_of (el_pend (run_rows e tups prov)) gk) = fan_size e tups prov gk"
proof -
  have "length (group_of (el_pend (run_rows e tups prov)) gk) = length (filter (\<lambda>i. counts e tups prov i \<and> row_fan e tups i = gk) [0..<length tups])"
    by (simp add: group_of_def run_pending filter_map o_def conj_commute)
  also have "\<dots> = card {i. i < length tups \<and> counts e tups prov i \<and> row_fan e tups i = gk}"
    by (simp add: length_filter_conv_card cong: conj_cong)
  also have "{i. i < length tups \<and> counts e tups prov i \<and> row_fan e tups i = gk} = {i. counts e tups prov i \<and> row_fan e tups i = gk}"
    by (auto simp: counts_def asserted_def)
  finally show ?thesis by (simp add: fan_size_def)
qed

lemma overfull_iff:
  assumes "counts e tups prov i"
  shows "row_fan e tups i \<in> set (overfull (ce_spec e) (el_pend (run_rows e tups prov))) \<longleftrightarrow> fan_capped e tups prov (row_fan e tups i)"
proof -
  have "i < length tups" using assms by (simp add: counts_def asserted_def)
  then have "row_fan e tups i \<in> snd ` set (el_pend (run_rows e tups prov))" using assms by (force simp: run_pending)
  then show ?thesis by (cases "es_fanOut (ce_spec e)") (simp_all add: overfull_def fan_capped_def group_size)
qed

lemma cap_edges [simp]: "em_edges (cap_fan_out s pend res) = map fst (filter (\<lambda>p. snd p \<notin> set (overfull s pend)) pend)"
  by (simp add: cap_fan_out_def Let_def)

lemma kept_edges:
  "map fst (filter (\<lambda>p. snd p \<notin> set (overfull (ce_spec e) (el_pend (run_rows e tups prov)))) (el_pend (run_rows e tups prov)))
     = map (row_edge e tups prov) (filter (emits e tups prov) [0..<length tups])"
proof -
  have "filter (\<lambda>i. row_fan e tups i \<notin> set (overfull (ce_spec e) (el_pend (run_rows e tups prov)))) (filter (counts e tups prov) [0..<length tups])
      = filter (emits e tups prov) [0..<length tups]"
    unfolding filter_filter by (rule filter_cong) (auto simp: emits_def overfull_iff)
  then show ?thesis by (simp add: run_pending filter_map o_def)
qed

lemma sort_result_fields [simp]:
  "em_edges (sort_result res) = sort_key ed_id (em_edges res)" "em_nodes (sort_result res) = sort_key nd_id (em_nodes res)"
  "em_unresolved (sort_result res) = sortUnresolved (em_unresolved res)" "em_ledger (sort_result res) = sortUnresolved (em_ledger res)"
  "em_replaced (sort_result res) = em_replaced res" "em_deleted (sort_result res) = dedupStrings (sort (em_deleted res))"
  "em_patches (sort_result res) = sort_key np_id (em_patches res)" "em_resolved (sort_result res) = dedupStrings (sort (em_resolved res))"
  by (simp_all add: sort_result_def)

lemma Apply_edges: "em_edges (Apply e tups prov) = sort_key ed_id (map (row_edge e tups prov) (filter (emits e tups prov) [0..<length tups]))"
  by (simp add: Apply_def Let_def kept_edges)

lemma emits_in: "emits e tups prov i \<Longrightarrow> row_edge e tups prov i \<in> set (em_edges (Apply e tups prov))"
  by (auto simp: Apply_edges emits_def counts_def asserted_def)

text \<open>Of the rows that count, those of one fan-out group are all emitted or none is.\<close>

lemma fan_within:
  assumes "es_fanOut (ce_spec e) = Some fo" "fo_max fo > 0"
  shows "int (card {i. emits e tups prov i \<and> row_fan e tups i = gk}) \<le> fo_max fo"
proof (cases "fan_capped e tups prov gk")
  case True
  then have none: "{i. emits e tups prov i \<and> row_fan e tups i = gk} = {}" by (auto simp: emits_def)
  show ?thesis unfolding none using assms(2) by simp
next
  case False
  then have "{i. emits e tups prov i \<and> row_fan e tups i = gk} = {i. counts e tups prov i \<and> row_fan e tups i = gk}"
    by (auto simp: emits_def)
  then have "card {i. emits e tups prov i \<and> row_fan e tups i = gk} = fan_size e tups prov gk" by (simp add: fan_size_def)
  then show ?thesis using False assms by (simp add: fan_capped_def)
qed

lemma distinct_map_sort: "distinct (map f (sort_key k xs)) \<longleftrightarrow> distinct (map f xs)"
  by (simp add: distinct_map)

text \<open>
  C28: the edges of a relation. Applying a compiled block to the tuples of its relation yields, sorted by
  identifier, the edges of exactly those rows that are asserted, that are the first of their key and whose
  fan-out group does not exceed the cap; and of no group are more edges emitted than the cap allows.
\<close>

theorem emitted_edges_exact:
  "em_edges (Apply e tups prov) = sort_key ed_id (map (row_edge e tups prov) (filter (emits e tups prov) [0..<length tups]))
   \<and> distinct (map (dedupKey (ce_spec e)) (em_edges (Apply e tups prov)))
   \<and> (case es_fanOut (ce_spec e) of
        Some fo \<Rightarrow> fo_max fo \<le> 0 \<or> (\<forall>gk. int (card {i. emits e tups prov i \<and> row_fan e tups i = gk}) \<le> fo_max fo)
      | None \<Rightarrow> emits e tups prov = counts e tups prov)"
proof (intro conjI)
  show "em_edges (Apply e tups prov) = sort_key ed_id (map (row_edge e tups prov) (filter (emits e tups prov) [0..<length tups]))"
    by (rule Apply_edges)
  have inj: "inj_on (row_key e tups prov) {i. emits e tups prov i}"
  proof (rule inj_onI)
    fix i j
    assume "i \<in> {i. emits e tups prov i}" "j \<in> {i. emits e tups prov i}" "row_key e tups prov i = row_key e tups prov j"
    then show "i = j" by (metis (no_types, lifting) counts_def emits_def linorder_neqE_nat mem_Collect_eq)
  qed
  have "distinct (map (row_key e tups prov) (filter (emits e tups prov) [0..<length tups]))"
    unfolding distinct_map by (intro conjI distinct_filter distinct_upt inj_on_subset [OF inj]) auto
  moreover have "map (row_key e tups prov) (filter (emits e tups prov) [0..<length tups])
      = map (dedupKey (ce_spec e)) (map (row_edge e tups prov) (filter (emits e tups prov) [0..<length tups]))"
    by (simp add: row_key_def)
  ultimately have "distinct (map (dedupKey (ce_spec e)) (map (row_edge e tups prov) (filter (emits e tups prov) [0..<length tups])))" by simp
  then show "distinct (map (dedupKey (ce_spec e)) (em_edges (Apply e tups prov)))"
    unfolding Apply_edges distinct_map_sort .
  show "case es_fanOut (ce_spec e) of
        Some fo \<Rightarrow> fo_max fo \<le> 0 \<or> (\<forall>gk. int (card {i. emits e tups prov i \<and> row_fan e tups i = gk}) \<le> fo_max fo)
      | None \<Rightarrow> emits e tups prov = counts e tups prov"
  proof (cases "es_fanOut (ce_spec e)")
    case None
    then show ?thesis by (simp add: emits_def fan_capped_def fun_eq_iff)
  next
    case (Some fo)
    then show ?thesis using fan_within [OF Some] by (simp add: not_le disj_imp)
  qed
qed

section \<open>Nothing is lost\<close>

lemma row_unresolved [simp]:
  "em_unresolved (mint_row s row res) = em_unresolved res" "em_unresolved (replace_row s row res) = em_unresolved res"
  "em_unresolved (delete_row s row res) = em_unresolved res" "em_unresolved (patch_row s row res) = em_unresolved res"
  "em_unresolved (resolved_row s row res) = em_unresolved res"
  by (auto simp: mint_row_def replace_row_def delete_row_def patch_row_def resolved_row_def add_node_def Let_def split: option.splits prod.splits)

lemma edge_row_res [simp]: "el_res (edge_row e rows prov tup row st) = el_res st"
  by (simp add: edge_row_def Let_def)

definition open_row :: "compiledEmit \<Rightarrow> string list list \<Rightarrow> nat \<Rightarrow> bool" where
  "open_row e tups i \<longleftrightarrow> \<not> abstains e (all_rows e tups) (nth_row e tups i) \<and> not_resolved e (all_rows e tups) (nth_row e tups i)"

lemma run_unresolved:
  "em_unresolved (el_res (run_rows e tups prov)) = concat (map (\<lambda>i. unresolved_row e (nth_row e tups i)) (filter (open_row e tups) [0..<length tups]))"
  by (rule run_rows_induct [where P = "\<lambda>n st. em_unresolved (el_res st)
        = concat (map (\<lambda>i. unresolved_row e (nth_row e tups i)) (filter (open_row e tups) [0..<n]))"])
    (auto simp: apply_row_def open_row_def Let_def no_result_def)

lemma cap_unresolved:
  "set (em_unresolved res) \<subseteq> set (em_unresolved (cap_fan_out s pend res))"
  by (auto simp: cap_fan_out_def Let_def)

lemma cap_reports:
  assumes "gk \<in> set (overfull s pend)" "es_fanOut s = Some fo" "fo_onExceed fo \<noteq> ''drop''"
  shows "ledger_row s pend gk \<in> set (if fo_onExceed fo = ''unresolved'' then em_unresolved (cap_fan_out s pend res) else em_ledger (cap_fan_out s pend res))"
  using assms by (simp add: cap_fan_out_def Let_def)

definition first_asserted :: "compiledEmit \<Rightarrow> string list list \<Rightarrow> provenance option \<Rightarrow> nat \<Rightarrow> nat" where
  "first_asserted e tups prov i = (LEAST j. asserted e tups j \<and> row_key e tups prov j = row_key e tups prov i)"

lemma first_counts:
  assumes "has_edge (ce_spec e)" "asserted e tups i"
  shows "counts e tups prov (first_asserted e tups prov i)" "row_key e tups prov (first_asserted e tups prov i) = row_key e tups prov i"
proof -
  let ?P = "\<lambda>j. asserted e tups j \<and> row_key e tups prov j = row_key e tups prov i"
  have l: "?P (LEAST j. ?P j)" by (rule LeastI [of ?P i]) (use assms in simp)
  show "counts e tups prov (first_asserted e tups prov i)"
    unfolding counts_def first_asserted_def using assms(1) l not_less_Least [of _ ?P] by metis
  show "row_key e tups prov (first_asserted e tups prov i) = row_key e tups prov i" using l by (simp add: first_asserted_def)
qed

text \<open>The rows of the report on a group over the cap.\<close>

definition reports_group :: "emitSpec \<Rightarrow> string \<Rightarrow> string \<Rightarrow> unresolvedRef \<Rightarrow> bool" where
  "reports_group s gk target r \<longleftrightarrow> ur_kind r = es_relation s @ ''_fanout'' \<and> ur_name r = map (\<lambda>c. if c = nul then CHR ''|'' else c) gk
     \<and> (\<exists>ts. ur_targets r = str_join [CHR 0x0A] ts \<and> target \<in> set ts)"

lemma capped_reported:
  assumes c: "counts e tups prov j" and over: "fan_capped e tups prov (row_fan e tups j)" and fo: "es_fanOut (ce_spec e) = Some fo"
    and how: "fo_onExceed fo \<noteq> ''drop''"
  shows "\<exists>r \<in> set (if fo_onExceed fo = ''unresolved'' then em_unresolved (Apply e tups prov) else em_ledger (Apply e tups prov)).
    reports_group (ce_spec e) (row_fan e tups j) (ed_to (row_edge e tups prov j)) r"
proof -
  let ?pend = "el_pend (run_rows e tups prov)" and ?res = "el_res (run_rows e tups prov)"
  let ?r = "ledger_row (ce_spec e) ?pend (row_fan e tups j)"
  have "?r \<in> set (if fo_onExceed fo = ''unresolved'' then em_unresolved (cap_fan_out (ce_spec e) ?pend ?res) else em_ledger (cap_fan_out (ce_spec e) ?pend ?res))"
    by (rule cap_reports) (use overfull_iff [OF c] over fo how in simp_all)
  then have reported: "?r \<in> set (if fo_onExceed fo = ''unresolved'' then em_unresolved (Apply e tups prov) else em_ledger (Apply e tups prov))"
    by (cases "fo_onExceed fo = ''unresolved''") (simp_all add: Apply_def Let_def sortUnresolved_def)
  have "j < length tups" using c by (simp add: counts_def asserted_def)
  then have "row_edge e tups prov j \<in> set (group_of ?pend (row_fan e tups j))" using c by (force simp: group_of_def run_pending)
  then have "ed_to (row_edge e tups prov j) \<in> set (dedupStrings (sort (map ed_to (group_of ?pend (row_fan e tups j)))))"
    by (simp add: dedupStrings_def)
  then have "reports_group (ce_spec e) (row_fan e tups j) (ed_to (row_edge e tups prov j)) ?r"
    unfolding reports_group_def ledger_row_def by auto
  then show ?thesis using reported by (rule bexI)
qed

text \<open>
  C29: no row is lost silently. A row of the relation abstains, or is not resolved and reported as such, or its
  block has no edge to emit, or a row of its key, itself or an earlier one, decides: the edge of that row is emitted,
  or its fan-out group is over the cap, more rows of new keys than the positive limit of the block, and, unless the
  block says \<open>drop\<close>, a reported row names the group and the target. So the edge of a row that asserts one is dropped
  without a trace only by a block configured to drop, and only in a group over its cap.
\<close>

theorem rows_accounted:
  assumes i: "i < length tups"
  shows "abstains e (all_rows e tups) (nth_row e tups i)
    \<or> not_resolved e (all_rows e tups) (nth_row e tups i) \<and> set (unresolved_row e (nth_row e tups i)) \<subseteq> set (em_unresolved (Apply e tups prov))
    \<or> \<not> has_edge (ce_spec e)
    \<or> (\<exists>j \<le> i. row_key e tups prov j = row_key e tups prov i \<and>
        (row_edge e tups prov j \<in> set (em_edges (Apply e tups prov))
         \<or> (\<exists>fo. es_fanOut (ce_spec e) = Some fo \<and> fo_max fo > 0 \<and> int (fan_size e tups prov (row_fan e tups j)) > fo_max fo
              \<and> (fo_onExceed fo = ''drop''
              \<or> (\<exists>r \<in> set (if fo_onExceed fo = ''unresolved'' then em_unresolved (Apply e tups prov) else em_ledger (Apply e tups prov)).
                   reports_group (ce_spec e) (row_fan e tups j) (ed_to (row_edge e tups prov j)) r)))))"
proof (cases "asserted e tups i \<and> has_edge (ce_spec e)")
  case False
  moreover have "set (unresolved_row e (nth_row e tups i)) \<subseteq> set (em_unresolved (Apply e tups prov))" if "open_row e tups i"
  proof -
    have "set (unresolved_row e (nth_row e tups i)) \<subseteq> set (em_unresolved (el_res (run_rows e tups prov)))"
      using that i by (auto simp: run_unresolved)
    then show ?thesis using cap_unresolved [of "el_res (run_rows e tups prov)"] by (fastforce simp: Apply_def Let_def sortUnresolved_def)
  qed
  ultimately show ?thesis using i unfolding asserted_def open_row_def by blast
next
  case True
  let ?j = "first_asserted e tups prov i"
  have c: "counts e tups prov ?j" and k: "row_key e tups prov ?j = row_key e tups prov i" using first_counts True by blast+
  have le: "?j \<le> i" unfolding first_asserted_def by (rule Least_le) (use True in simp)
  show ?thesis
  proof (cases "fan_capped e tups prov (row_fan e tups ?j)")
    case False
    then have "row_edge e tups prov ?j \<in> set (em_edges (Apply e tups prov))" by (intro emits_in) (simp add: emits_def c)
    then show ?thesis using le k by blast
  next
    case over: True
    then obtain fo where fo: "es_fanOut (ce_spec e) = Some fo" "fo_max fo > 0" "int (fan_size e tups prov (row_fan e tups ?j)) > fo_max fo"
      by (auto simp: fan_capped_def)
    then show ?thesis using le k capped_reported [OF c over fo(1)] by blast
  qed
qed

section \<open>The vocabulary\<close>

text \<open>What the checks of a compiled block establish.\<close>

lemma compiled_spec:
  assumes "compileEmit s = Inr e"
  shows "ce_spec e = s" "es_relation s \<noteq> []" "has_edge s \<Longrightarrow> sp_type (es_edge s) \<in> set frozenEdgeTypes"
    "es_mint s = Some m \<Longrightarrow> mi_node m \<in> set frozenNodeTypes" "es_replace s = Some r \<Longrightarrow> re_node r \<in> set frozenNodeTypes"
    "es_patch s = Some p \<Longrightarrow> pa_node p = [] \<or> pa_node p \<in> set frozenNodeTypes"
    "es_mint s = None \<or> es_replace s = None"
proof -
  have c: "es_relation s \<noteq> []" "check_edge s = Inr ()" "check_mint s = Inr ()" "check_replace s = Inr ()" "check_patch s = Inr ()"
      "check_shape s = Inr ()" "ce_spec e = s"
    using assms unfolding compileEmit_def by (auto split: if_splits)
  show "ce_spec e = s" "es_relation s \<noteq> []" by (rule c)+
  show "sp_type (es_edge s) \<in> set frozenEdgeTypes" if "has_edge s" using c(2) that by (simp add: check_edge_def split: if_splits)
  show "mi_node m \<in> set frozenNodeTypes" if "es_mint s = Some m" using c(3) that by (simp add: check_mint_def split: if_splits)
  show "re_node r \<in> set frozenNodeTypes" if "es_replace s = Some r" using c(4) that by (simp add: check_replace_def split: if_splits)
  show "pa_node p = [] \<or> pa_node p \<in> set frozenNodeTypes" if "es_patch s = Some p"
    using c(5) that by (simp add: check_patch_def split: if_splits)
  show "es_mint s = None \<or> es_replace s = None"
    using c(6) by (auto simp: check_shape_def verbs_def split: if_splits)
qed

text \<open>The node of a row: the minted one or the replacement.\<close>

definition row_minted :: "compiledEmit \<Rightarrow> string list list \<Rightarrow> nat \<Rightarrow> node option" where
  "row_minted e tups i =
     (case es_mint (ce_spec e) of
        Some m \<Rightarrow> buildNode m (nth_row e tups i)
      | None \<Rightarrow> (case es_replace (ce_spec e) of Some r \<Rightarrow> map_option fst (buildReplace r (nth_row e tups i)) | None \<Rightarrow> None))"

definition first_node :: "compiledEmit \<Rightarrow> string list list \<Rightarrow> nat \<Rightarrow> node \<Rightarrow> bool" where
  "first_node e tups i n \<longleftrightarrow> asserted e tups i \<and> row_minted e tups i = Some n
     \<and> (\<forall>j < i. asserted e tups j \<longrightarrow> (\<forall>m. row_minted e tups j = Some m \<longrightarrow> nd_id m \<noteq> nd_id n))"

lemma nodes_kept [simp]:
  "em_nodes (delete_row s row res) = em_nodes res" "em_nodes (patch_row s row res) = em_nodes res" "em_nodes (resolved_row s row res) = em_nodes res"
  by (auto simp: delete_row_def patch_row_def resolved_row_def Let_def split: option.splits prod.splits)

lemma row_nodes:
  assumes "es_mint (ce_spec e) = None \<or> es_replace (ce_spec e) = None"
  shows "em_nodes (replace_row (ce_spec e) (nth_row e tups i) (mint_row (ce_spec e) (nth_row e tups i) res))
    = (case row_minted e tups i of None \<Rightarrow> em_nodes res | Some n \<Rightarrow> em_nodes (add_node n res))"
  using assms by (auto simp: replace_row_def mint_row_def row_minted_def Let_def split: option.splits prod.splits)

definition nodes_inv :: "compiledEmit \<Rightarrow> string list list \<Rightarrow> nat \<Rightarrow> node list \<Rightarrow> bool" where
  "nodes_inv e tups n ns \<longleftrightarrow> distinct (map nd_id ns) \<and> set ns = {m. \<exists>i < n. first_node e tups i m}
     \<and> nd_id ` set ns = {v. \<exists>i < n. asserted e tups i \<and> map_option nd_id (row_minted e tups i) = Some v}"

lemma nodes_inv_skip:
  assumes "nodes_inv e tups n ns" "\<not> asserted e tups n \<or> row_minted e tups n = None"
  shows "nodes_inv e tups (Suc n) ns"
proof -
  have a: "(\<exists>i < Suc n. first_node e tups i m) \<longleftrightarrow> (\<exists>i < n. first_node e tups i m)" for m
    using assms(2) by (auto simp: less_Suc_eq first_node_def)
  have b: "(\<exists>i < Suc n. asserted e tups i \<and> map_option nd_id (row_minted e tups i) = Some v)
      \<longleftrightarrow> (\<exists>i < n. asserted e tups i \<and> map_option nd_id (row_minted e tups i) = Some v)" for v
    using assms(2) by (auto simp: less_Suc_eq)
  show ?thesis unfolding nodes_inv_def a b using assms(1) unfolding nodes_inv_def .
qed

lemma nodes_inv_add:
  assumes inv: "nodes_inv e tups n (em_nodes res)" and a: "asserted e tups n" and m: "row_minted e tups n = Some m"
  shows "nodes_inv e tups (Suc n) (em_nodes (add_node m res))"
proof -
  have ids: "nd_id ` set (em_nodes res) = {v. \<exists>i < n. asserted e tups i \<and> map_option nd_id (row_minted e tups i) = Some v}"
    and d: "distinct (map nd_id (em_nodes res))" and s: "set (em_nodes res) = {m. \<exists>i < n. first_node e tups i m}"
    using inv unfolding nodes_inv_def by blast+
  have known: "nd_id m \<in> nd_id ` set (em_nodes res) \<longleftrightarrow> (\<exists>j < n. asserted e tups j \<and> (\<exists>m'. row_minted e tups j = Some m' \<and> nd_id m' = nd_id m))"
    unfolding ids by auto
  then have first: "first_node e tups n m' \<longleftrightarrow> m' = m \<and> nd_id m \<notin> nd_id ` set (em_nodes res)" for m'
    unfolding first_node_def using a m by auto
  have more: "{v. \<exists>i < Suc n. asserted e tups i \<and> map_option nd_id (row_minted e tups i) = Some v} = insert (nd_id m) (nd_id ` set (em_nodes res))"
    unfolding ids using a m by (auto simp: less_Suc_eq)
  have "{m'. first_node e tups n m'} = (if nd_id m \<in> nd_id ` set (em_nodes res) then {} else {m})"
    using first by auto
  moreover have "{m'. \<exists>i < Suc n. first_node e tups i m'} = set (em_nodes res) \<union> {m'. first_node e tups n m'}"
    unfolding s by (auto simp: less_Suc_eq)
  ultimately have firsts: "{m'. \<exists>i < Suc n. first_node e tups i m'}
      = set (em_nodes res) \<union> (if nd_id m \<in> nd_id ` set (em_nodes res) then {} else {m})" by simp
  show ?thesis
  proof (cases "nd_id m \<in> nd_id ` set (em_nodes res)")
    case True
    then show ?thesis unfolding nodes_inv_def more firsts using d by (simp add: add_node_def insert_absorb)
  next
    case False
    then show ?thesis unfolding nodes_inv_def more firsts using d by (auto simp: add_node_def)
  qed
qed

lemma run_minted:
  assumes "es_mint (ce_spec e) = None \<or> es_replace (ce_spec e) = None"
  shows "nodes_inv e tups (length tups) (em_nodes (el_res (run_rows e tups prov)))"
proof (rule run_rows_induct [where P = "\<lambda>n st. nodes_inv e tups n (em_nodes (el_res st))"])
  fix n and st :: emitLoop
  assume n: "n < length tups" and inv: "nodes_inv e tups n (em_nodes (el_res st))"
  show "nodes_inv e tups (Suc n) (em_nodes (el_res (apply_row e (all_rows e tups) prov (tups ! n, nth_row e tups n) st)))"
  proof (cases "asserted e tups n")
    case False
    then have "em_nodes (el_res (apply_row e (all_rows e tups) prov (tups ! n, nth_row e tups n) st)) = em_nodes (el_res st)"
      using n by (auto simp: asserted_def apply_row_def Let_def)
    then show ?thesis using nodes_inv_skip [OF inv] False by simp
  next
    case True
    then have ns: "em_nodes (el_res (apply_row e (all_rows e tups) prov (tups ! n, nth_row e tups n) st))
        = (case row_minted e tups n of None \<Rightarrow> em_nodes (el_res st) | Some m \<Rightarrow> em_nodes (add_node m (el_res st)))"
      by (simp add: asserted_def apply_row_def Let_def row_nodes [OF assms])
    show ?thesis
    proof (cases "row_minted e tups n")
      case None
      then show ?thesis unfolding ns using nodes_inv_skip [OF inv] by simp
    next
      case (Some m)
      then show ?thesis unfolding ns using nodes_inv_add [OF inv True Some] by simp
    qed
  qed
next
  show "nodes_inv e tups 0 (em_nodes (el_res \<lparr>el_res = no_result, el_seen = [], el_pend = []\<rparr>))"
    by (simp add: nodes_inv_def no_result_def)
qed

lemma cap_keeps [simp]:
  "em_nodes (cap_fan_out s pend res) = em_nodes res" "em_replaced (cap_fan_out s pend res) = em_replaced res"
  "em_patches (cap_fan_out s pend res) = em_patches res"
  by (simp_all add: cap_fan_out_def Let_def)

text \<open>Replacements name nodes of the result, and patches come from the block.\<close>

definition side_clean :: "emitSpec \<Rightarrow> emitResult \<Rightarrow> bool" where
  "side_clean s res \<longleftrightarrow> ran (em_replaced res) \<subseteq> nd_id ` set (em_nodes res)
     \<and> (\<forall>p \<in> set (em_patches res). np_id p \<noteq> [] \<and> (\<exists>q. es_patch s = Some q \<and> np_type p = pa_node q))"

lemma add_node_ids: "nd_id ` set (em_nodes (add_node n res)) = insert (nd_id n) (nd_id ` set (em_nodes res))"
  by (auto simp: add_node_def)

lemma add_node_keeps [simp]: "em_replaced (add_node n res) = em_replaced res" "em_patches (add_node n res) = em_patches res"
  by (simp_all add: add_node_def)

lemma side_rows:
  assumes "side_clean s res"
  shows "side_clean s (mint_row s row res)" "side_clean s (replace_row s row res)" "side_clean s (delete_row s row res)"
    "side_clean s (patch_row s row res)" "side_clean s (resolved_row s row res)"
proof -
  have r: "ran (em_replaced res) \<subseteq> nd_id ` set (em_nodes res)"
    and p: "\<forall>p \<in> set (em_patches res). np_id p \<noteq> [] \<and> (\<exists>q. es_patch s = Some q \<and> np_type p = pa_node q)"
    using assms unfolding side_clean_def by blast+
  show "side_clean s (mint_row s row res)"
    using r p by (auto simp: side_clean_def mint_row_def add_node_ids split: option.splits)
  show "side_clean s (replace_row s row res)"
    using r p by (auto simp: side_clean_def replace_row_def add_node_ids Let_def ran_def split: option.splits prod.splits)
  show "side_clean s (delete_row s row res)" using r p by (auto simp: side_clean_def delete_row_def Let_def split: option.splits)
  show "side_clean s (patch_row s row res)"
    using r p by (auto simp: side_clean_def patch_row_def buildPatch_def Let_def split: option.splits if_splits)
  show "side_clean s (resolved_row s row res)" using r p by (auto simp: side_clean_def resolved_row_def Let_def split: option.splits prod.splits)
qed

lemma run_side: "side_clean (ce_spec e) (el_res (run_rows e tups prov))"
proof (rule run_rows_induct [where P = "\<lambda>n st. side_clean (ce_spec e) (el_res st)"])
  fix n and st :: emitLoop
  assume ok: "side_clean (ce_spec e) (el_res st)"
  have "side_clean (ce_spec e) (el_res st\<lparr>em_unresolved := us\<rparr>)" for us using ok by (simp add: side_clean_def)
  then show "side_clean (ce_spec e) (el_res (apply_row e (all_rows e tups) prov (tups ! n, nth_row e tups n) st))"
    using ok by (simp add: apply_row_def Let_def side_rows)
next
  show "side_clean (ce_spec e) (el_res \<lparr>el_res = no_result, el_seen = [], el_pend = []\<rparr>)" by (simp add: side_clean_def no_result_def)
qed

lemma edge_rule_nonempty: "es_relation s \<noteq> [] \<Longrightarrow> edge_rule s tup prov \<noteq> []"
  by (auto simp: edge_rule_def Let_def split: option.splits if_splits)

lemma buildNode_ok: "buildNode m row = Some n \<Longrightarrow> nd_type n = mi_node m \<and> nd_id n \<noteq> []"
  by (auto simp: buildNode_def Let_def split: if_splits)

lemma row_node_ok:
  assumes "compileEmit s = Inr e" "row_minted e tups i = Some n"
  shows "nd_type n \<in> set frozenNodeTypes \<and> nd_id n \<noteq> []"
  using assms(2) compiled_spec [OF assms(1)]
  by (auto simp: row_minted_def buildReplace_def asMint_def Let_def split: option.splits if_splits dest!: buildNode_ok)

text \<open>
  C30: emission stays in the vocabulary. Whatever the rows, a compiled block emits edges of the frozen edge
  types, each with one static source that names a rule; it mints nodes of the frozen node types, one for every
  identifier that an asserted row names, the one of the first such row; a replacement names one of these
  nodes; and patches have identifiers and keep to the types.
\<close>

theorem emission_in_vocabulary:
  assumes c: "compileEmit s = Inr e"
  shows "(\<forall>ed \<in> set (em_edges (Apply e tups prov)). ed_type ed \<in> set frozenEdgeTypes
        \<and> (\<exists>rule. rule \<noteq> [] \<and> ed_sources ed = [static_source (ed_confidence ed) [] ''L3'' rule]))
    \<and> (\<forall>n \<in> set (em_nodes (Apply e tups prov)). nd_type n \<in> set frozenNodeTypes \<and> nd_id n \<noteq> [])
    \<and> sorted (map nd_id (em_nodes (Apply e tups prov))) \<and> distinct (map nd_id (em_nodes (Apply e tups prov)))
    \<and> set (em_nodes (Apply e tups prov)) = {n. \<exists>i < length tups. first_node e tups i n}
    \<and> ran (em_replaced (Apply e tups prov)) \<subseteq> nd_id ` set (em_nodes (Apply e tups prov))
    \<and> (\<forall>p \<in> set (em_patches (Apply e tups prov)). np_id p \<noteq> [] \<and> (np_type p = [] \<or> np_type p \<in> set frozenNodeTypes))"
proof -
  note spec = compiled_spec [OF c]
  have verbs: "es_mint (ce_spec e) = None \<or> es_replace (ce_spec e) = None" using spec(1,7) by simp
  note ns = run_minted [OF verbs, of tups prov, unfolded nodes_inv_def]
  have nodes: "em_nodes (Apply e tups prov) = sort_key nd_id (em_nodes (el_res (run_rows e tups prov)))" by (simp add: Apply_def Let_def)
  have set_nodes: "set (em_nodes (Apply e tups prov)) = {n. \<exists>i < length tups. first_node e tups i n}" using ns nodes by simp
  have side: "side_clean (ce_spec e) (Apply e tups prov)"
    using run_side [of e tups prov] by (simp add: side_clean_def Apply_def Let_def)
  have edges: "ed_type ed \<in> set frozenEdgeTypes \<and> (\<exists>rule. rule \<noteq> [] \<and> ed_sources ed = [static_source (ed_confidence ed) [] ''L3'' rule])"
    if mem: "ed \<in> set (em_edges (Apply e tups prov))" for ed
  proof -
    from mem obtain i where i: "emits e tups prov i" "ed = row_edge e tups prov i" by (auto simp: Apply_edges)
    then have "has_edge s" using spec(1) by (simp add: emits_def counts_def)
    moreover have "ed_type ed = sp_type (es_edge s)" "ed_sources ed = [static_source (ed_confidence ed) [] ''L3'' (edge_rule s (tups ! i) prov)]"
      using i(2) spec(1) by (simp_all add: row_edge_def buildEdge_def Let_def)
    ultimately show ?thesis using spec(3) edge_rule_nonempty [OF spec(2)] by auto
  qed
  have types: "nd_type n \<in> set frozenNodeTypes \<and> nd_id n \<noteq> []" if mem: "n \<in> set (em_nodes (Apply e tups prov))" for n
  proof -
    from mem obtain i where "first_node e tups i n" unfolding set_nodes by blast
    then show ?thesis using row_node_ok [OF c, of tups i n] by (simp add: first_node_def)
  qed
  have patches: "np_id p \<noteq> [] \<and> (np_type p = [] \<or> np_type p \<in> set frozenNodeTypes)" if "p \<in> set (em_patches (Apply e tups prov))" for p
  proof -
    have "np_id p \<noteq> [] \<and> (\<exists>q. es_patch s = Some q \<and> np_type p = pa_node q)"
      using bspec [OF conjunct2 [OF side [unfolded side_clean_def spec(1)]] that] .
    then obtain q where "es_patch s = Some q" "np_type p = pa_node q" "np_id p \<noteq> []" by (elim conjE exE)
    then show ?thesis using spec(6) [of q] by simp
  qed
  show ?thesis using edges types set_nodes patches side ns by (auto simp: nodes distinct_map_sort side_clean_def)
qed

section \<open>A block at work\<close>

definition arg_ref :: "string \<Rightarrow> valueRef" where "arg_ref c = UnmarshalYAML (YMapping c None [])"

text \<open>Guards of handlers: at most one target of a handler, no edge from a handler to itself, an unknown target is reported.\<close>

definition guard_spec :: emitSpec where
  "guard_spec = \<lparr>es_relation = ''guard'', es_columns = [''Handler'', ''Target'', ''Kind''], es_rule = [],
     es_edge = \<lparr>sp_from = arg_ref ''Handler'', sp_to = arg_ref ''Target'', sp_type = ''calls'',
       sp_label = UnmarshalYAML (YMapping [] None ''{Kind} :{Target}''), sp_method = unset_ref, sp_path = unset_ref\<rparr>,
     es_mint = Some \<lparr>mi_node = ''file'', mi_id = arg_ref ''Handler'', mi_label = unset_ref, mi_service = unset_ref, mi_file = unset_ref,
       mi_line = unset_ref, mi_endLine = unset_ref, mi_language = unset_ref, mi_meta = []\<rparr>,
     es_replace = None, es_delete = None, es_patch = None, es_resolved = None, es_meta = [],
     es_confidence = [\<lparr>cf_when = ''Kind == before'', cf_value = ''static'', cf_else = []\<rparr>, \<lparr>cf_when = [], cf_value = [], cf_else = ''inferred''\<rparr>],
     es_abstain = ''Handler == Target'', es_fanOut = Some \<lparr>fo_key = [''Handler''], fo_max = 1, fo_onExceed = ''ledger_only''\<rparr>,
     es_dedup = [], es_unresolved = Some (''Target == null'', \<lparr>us_service = unset_ref, us_name = arg_ref ''Handler'', us_file = unset_ref,
       us_line = unset_ref, us_kind = UnmarshalYAML (YScalar ''middleware''), us_targets = unset_ref\<rparr>)\<rparr>"

definition guard_rows :: "string list list" where
  "guard_rows = [[''a'', ''b'', ''only''], [''a'', ''b'', ''only''], [''c'', [], ''only''], [''d'', ''d'', ''only''],
     [''e'', ''f'', ''only''], [''e'', ''g'', ''only'']]"

definition run_block :: "emitSpec \<Rightarrow> string list list \<Rightarrow> emitResult option" where
  "run_block s tups = (case compileEmit s of Inr e \<Rightarrow> Some (Apply e tups None) | Inl _ \<Rightarrow> None)"


lemma guard_result:
  "map_option (\<lambda>r. (map ed_id (em_edges r), map ur_name (em_unresolved r), map ur_name (em_ledger r), map nd_id (em_nodes r))) (run_block guard_spec guard_rows)
     = Some ([''a->b:only :b''], [''c''], [''e''], [''a'', ''e''])"
  by code_simp

definition guard_block :: compiledEmit where "guard_block = projr (compileEmit guard_spec)"

lemma guard_compiles: "compileEmit guard_spec = Inr guard_block"
proof -
  have "isl (compileEmit guard_spec) = False" by code_simp
  then show ?thesis unfolding guard_block_def by (cases "compileEmit guard_spec") simp_all
qed

text \<open>Of the two guards of \<open>e\<close>, the block, which allows one, emits neither.\<close>

theorem emitted_edges_exact_witness:
  "map ed_id (em_edges (Apply guard_block guard_rows None)) = [''a->b:only :b'']
   \<and> int (card {i. emits guard_block guard_rows None i \<and> row_fan guard_block guard_rows i = ''e''}) \<le> 1"
proof -
  have fo: "es_fanOut (ce_spec guard_block) = Some \<lparr>fo_key = [''Handler''], fo_max = 1, fo_onExceed = ''ledger_only''\<rparr>"
    using compiled_spec(1) [OF guard_compiles] by (simp add: guard_spec_def)
  have "int (card {i. emits guard_block guard_rows None i \<and> row_fan guard_block guard_rows i = ''e''}) \<le> 1"
    using emitted_edges_exact [of guard_block guard_rows None] unfolding fo by simp
  moreover have "map ed_id (em_edges (Apply guard_block guard_rows None)) = [''a->b:only :b'']" by code_simp
  ultimately show ?thesis by (rule conjI [rotated])
qed

theorem rows_accounted_witness:
  "4 < length guard_rows \<and> (\<exists>j \<le> 4. row_key guard_block guard_rows None j = row_key guard_block guard_rows None 4 \<and>
        (row_edge guard_block guard_rows None j \<in> set (em_edges (Apply guard_block guard_rows None))
         \<or> (\<exists>r \<in> set (em_ledger (Apply guard_block guard_rows None)).
              reports_group (ce_spec guard_block) (row_fan guard_block guard_rows j) (ed_to (row_edge guard_block guard_rows None j)) r)))"
proof -
  have fo: "es_fanOut (ce_spec guard_block) = Some \<lparr>fo_key = [''Handler''], fo_max = 1, fo_onExceed = ''ledger_only''\<rparr>"
    and edge: "has_edge (ce_spec guard_block)"
    using compiled_spec(1) [OF guard_compiles] by (simp_all add: guard_spec_def has_edge_def)
  have len: "4 < length guard_rows" by (simp add: guard_rows_def)
  have asserted: "\<not> abstains guard_block (all_rows guard_block guard_rows) (nth_row guard_block guard_rows 4)"
    "\<not> not_resolved guard_block (all_rows guard_block guard_rows) (nth_row guard_block guard_rows 4)"
    by code_simp+
  show ?thesis using len rows_accounted [OF len, of guard_block None] asserted edge unfolding fo by auto
qed

theorem emission_in_vocabulary_witness:
  "list_all (\<lambda>n. nd_type n \<in> set frozenNodeTypes) (em_nodes (Apply guard_block guard_rows None))
   \<and> list_all (\<lambda>ed. ed_type ed \<in> set frozenEdgeTypes) (em_edges (Apply guard_block guard_rows None))
   \<and> map nd_id (em_nodes (Apply guard_block guard_rows None)) = [''a'', ''e'']"
proof -
  have "map nd_id (em_nodes (Apply guard_block guard_rows None)) = [''a'', ''e'']" by code_simp
  then show ?thesis using emission_in_vocabulary [OF guard_compiles, of guard_rows None] unfolding list_all_iff by blast
qed

section \<open>Departures\<close>

text \<open>An edge without a label is named by its type, so it shares its identifier with an edge whose label is that type.\<close>

definition label_spec :: emitSpec where
  "label_spec = guard_spec\<lparr>es_edge := \<lparr>sp_from = arg_ref ''Handler'', sp_to = arg_ref ''Target'', sp_type = ''calls'', sp_label = arg_ref ''Kind'',
     sp_method = unset_ref, sp_path = unset_ref\<rparr>, es_fanOut := None, es_unresolved := None\<rparr>"

lemma edge_ids_collide:
  "map_option (map (\<lambda>e. (ed_id e, ed_label e)) \<circ> em_edges) (run_block label_spec [[''a'', ''b'', []], [''a'', ''b'', ''calls'']])
     = Some [(''a->b:calls'', []), (''a->b:calls'', ''calls'')]"
  by code_simp

text \<open>A row whose end resolves to nothing still yields an edge, which nodes and replacements do not.\<close>

lemma empty_ends_emitted:
  "map_option (map (\<lambda>e. (ed_from e, ed_to e)) \<circ> em_edges) (run_block label_spec [[[], ''b'', ''x'']]) = Some [([], ''b'')]"
  by code_simp

text \<open>
  The condition \<open>origin(X)\<close> reads an entry of the row that emission never writes, so it is empty whatever the
  rows, unless a column has that very name.
\<close>

lemma untouched_column:
  assumes "k \<notin> set cols" "\<And>j. fmt_nat j \<noteq> k"
  shows "row_of cols t k = []"
proof -
  have "cols ! j \<noteq> k" if "j < length cols" for j using assms(1) nth_mem [OF that] by (intro notI) simp
  then have "put_value cols jv m k = m k" for jv m
    using assms(2) [of "fst jv"] by (cases "fst jv < length cols") (auto simp: put_value_def)
  then have "fold (put_value cols) js m k = m k" for js m by (induction js arbitrary: m) simp_all
  then show ?thesis by (simp add: row_of_def)
qed

lemma origin_always_empty:
  assumes "''origin:'' @ x \<notin> set cols"
  shows "row_of cols t (''origin:'' @ x) = []"
proof (rule untouched_column [OF assms])
  fix j
  show "fmt_nat j \<noteq> ''origin:'' @ x"
  proof
    assume eq: "fmt_nat j = ''origin:'' @ x"
    have "is_digit (CHR ''o'')" using fmt_nat_digits [of j] unfolding eq by simp
    then show False by (simp add: is_digit_def)
  qed
qed

end
