(* ===== verification/Go_Path.thy ===== *)
theory Go_Path
  imports Emit
begin

text \<open>What the fact pipeline uses of Go's \<open>path\<close> package: slash-separated paths, processed lexically.\<close>

definition path_sep :: char where "path_sep = CHR ''/''"

text \<open>One element of a path: empty and single-dot elements vanish, a double dot removes the element before it.\<close>

definition clean_step :: "bool \<Rightarrow> string \<Rightarrow> string list \<Rightarrow> string list" where
  "clean_step rooted c st =
     (if c = [] \<or> c = ''.'' then st
      else if c = ''..'' then
        (case st of [] \<Rightarrow> if rooted then [] else [''..''] | d # ds \<Rightarrow> if d = ''..'' then ''..'' # st else ds)
      else c # st)"

definition clean_parts :: "bool \<Rightarrow> string \<Rightarrow> string list" where
  "clean_parts rooted p = rev (fold (clean_step rooted) (split_on path_sep p) [])"

definition path_clean :: "string \<Rightarrow> string" where
  "path_clean p =
     (if p = [] then ''.''
      else let rooted = (hd p = path_sep); ds = clean_parts rooted p in
        if rooted then path_sep # str_join [path_sep] ds
        else if ds = [] then ''.'' else str_join [path_sep] ds)"

definition path_join :: "string \<Rightarrow> string \<Rightarrow> string" where
  "path_join a b =
     (if a = [] \<and> b = [] then []
      else if a = [] then path_clean b
      else if b = [] then path_clean a
      else path_clean (a @ [path_sep] @ b))"

text \<open>\<open>path.Split\<close>: the directory keeps its last slash.\<close>

definition path_base :: "string \<Rightarrow> string" where
  "path_base p = rev (takeWhile (\<lambda>c. c \<noteq> path_sep) (rev p))"

definition path_split :: "string \<Rightarrow> string \<times> string" where
  "path_split p = (take (length p - length (path_base p)) p, path_base p)"

definition path_dir :: "string \<Rightarrow> string" where
  "path_dir p = path_clean (fst (path_split p))"

definition path_ext :: "string \<Rightarrow> string" where
  "path_ext p =
     (let b = path_base p; e = rev (takeWhile (\<lambda>c. c \<noteq> CHR ''.'') (rev b)) in
      if length e < length b then CHR ''.'' # e else [])"

lemma split_dir_base: "fst (path_split p) @ snd (path_split p) = p"
proof -
  have "suffix (path_base p) p" unfolding path_base_def suffix_to_prefix using takeWhile_is_prefix [of _ "rev p"] by simp
  then obtain zs where zs: "p = zs @ path_base p" by (auto simp: suffix_def)
  then have "length p = length zs + length (path_base p)" by (metis length_append)
  then have "fst (path_split p) = zs" using zs by (simp add: path_split_def) (metis append_eq_conv_conj)
  then show ?thesis using zs by (simp add: path_split_def)
qed

section \<open>Clean paths\<close>

text \<open>The elements of a clean relative path: some double dots, then names.\<close>

definition plain_part :: "string \<Rightarrow> bool" where
  "plain_part c \<longleftrightarrow> c \<noteq> [] \<and> c \<noteq> ''.'' \<and> c \<noteq> ''..'' \<and> path_sep \<notin> set c"

definition dots_then_plain :: "string list \<Rightarrow> bool" where
  "dots_then_plain ds \<longleftrightarrow> (\<exists>n qs. ds = replicate n ''..'' @ qs \<and> list_all plain_part qs)"

text \<open>The stack of the loop, innermost element first.\<close>

definition clean_stack :: "bool \<Rightarrow> string list \<Rightarrow> bool" where
  "clean_stack rooted st \<longleftrightarrow> (\<exists>n qs. st = qs @ replicate n ''..'' \<and> list_all plain_part qs \<and> (rooted \<longrightarrow> n = 0))"

lemma clean_step_stack:
  assumes st: "clean_stack rooted st" and c: "path_sep \<notin> set c"
  shows "clean_stack rooted (clean_step rooted c st)"
proof -
  obtain n qs where q: "st = qs @ replicate n ''..''" "list_all plain_part qs" "rooted \<longrightarrow> n = 0" using st by (auto simp: clean_stack_def)
  consider "c = [] \<or> c = ''.''" | "c = ''..''" | "plain_part c" using c by (auto simp: plain_part_def)
  then show ?thesis
  proof cases
    case 1
    then show ?thesis using st by (simp add: clean_step_def)
  next
    case 2
    show ?thesis
    proof (cases qs)
      case Nil
      then have step: "clean_step rooted c st = (if rooted then [] else replicate (Suc n) ''..'')"
        using q 2 by (cases n) (simp_all add: clean_step_def)
      show ?thesis
      proof (cases rooted)
        case True
        then show ?thesis unfolding step by (auto simp: clean_stack_def)
      next
        case False
        then show ?thesis unfolding step clean_stack_def by (intro exI [of _ "Suc n"] exI [of _ "[]"]) simp
      qed
    next
      case (Cons d ds)
      then have "clean_step rooted c st = ds @ replicate n ''..''" using q 2 by (simp add: clean_step_def plain_part_def)
      then show ?thesis using q Cons by (auto simp: clean_stack_def)
    qed
  next
    case 3
    then have "clean_step rooted c st = (c # qs) @ replicate n ''..''" using q by (simp add: clean_step_def plain_part_def)
    then show ?thesis unfolding clean_stack_def using 3 q by (intro exI [of _ n] exI [of _ "c # qs"]) simp
  qed
qed

lemma clean_fold_stack: "\<forall>c \<in> set cs. path_sep \<notin> set c \<Longrightarrow> clean_stack rooted st \<Longrightarrow> clean_stack rooted (fold (clean_step rooted) cs st)"
  by (induction cs arbitrary: st) (simp_all add: clean_step_stack)

lemma clean_parts_ok: "dots_then_plain (clean_parts rooted p)" "rooted \<Longrightarrow> list_all plain_part (clean_parts rooted p)"
proof -
  have "\<forall>c \<in> set (split_on path_sep p). path_sep \<notin> set c" using split_parts by blast
  moreover have "clean_stack rooted []" by (simp add: clean_stack_def)
  ultimately have "clean_stack rooted (fold (clean_step rooted) (split_on path_sep p) [])" by (rule clean_fold_stack)
  then obtain n qs where q: "fold (clean_step rooted) (split_on path_sep p) [] = qs @ replicate n ''..''" "list_all plain_part qs" "rooted \<longrightarrow> n = 0"
    by (auto simp: clean_stack_def)
  then show "dots_then_plain (clean_parts rooted p)" unfolding dots_then_plain_def clean_parts_def
    by (intro exI [of _ n] exI [of _ "rev qs"]) (simp add: list_all_rev)
  show "list_all plain_part (clean_parts rooted p)" if rooted using q that by (simp add: clean_parts_def list_all_rev)
qed

end
