(* ===== verification/Facts.thy ===== *)
theory Facts
  imports Go_Path
begin

text \<open>
  The facts of the pipeline: \<open>fact.go\<close>, the bridge that asserts the graph so far (\<open>bridge.go\<close>), and the blocks
  that derive joined columns, read configuration values, assert literal tables and call hubs (\<open>derive.go\<close>,
  \<open>config.go\<close>, \<open>table.go\<close>, \<open>hub.go\<close>).

  What \<open>configsrc.Load\<close> finds on disk, the rows that a checked-in artifact yields and the registered hubs are
  arguments, and so is the order in which Go enumerates the keys of a node's metadata.
\<close>

section \<open>Facts\<close>

datatype atomKind = AtomStr | AtomNode | AtomInt

record atom =
  at_str :: string
  at_node :: string
  at_int :: int
  at_kind :: atomKind

definition Str :: "string \<Rightarrow> atom" where "Str s = \<lparr>at_str = s, at_node = [], at_int = 0, at_kind = AtomStr\<rparr>"
definition Node :: "string \<Rightarrow> atom" where "Node v = \<lparr>at_str = [], at_node = v, at_int = 0, at_kind = AtomNode\<rparr>"
definition IntA :: "int \<Rightarrow> atom" where "IntA n = \<lparr>at_str = [], at_node = [], at_int = n, at_kind = AtomInt\<rparr>"

definition fmt_signed :: "int \<Rightarrow> string" where
  "fmt_signed n = (if n < 0 then CHR ''-'' # fmt_nat (nat (- n)) else fmt_nat (nat n))"

definition Value :: "atom \<Rightarrow> string" where
  "Value a = (case at_kind a of AtomNode \<Rightarrow> at_node a | AtomInt \<Rightarrow> fmt_signed (at_int a) | AtomStr \<Rightarrow> at_str a)"

datatype originKind = OriginPattern | OriginGraph | OriginPrimitive | OriginPlugin

record factOrigin =
  fg_kind :: originKind
  fg_file :: string
  fg_line :: int
  fg_pos :: int
  fg_pattern :: string

record fact =
  fc_pred :: string
  fc_args :: "atom list"
  fc_origin :: factOrigin

record factSet =
  fs_facts :: "fact list"
  fs_byFile :: "(string \<times> nat list) list"

definition NewFactSet :: factSet where "NewFactSet = \<lparr>fs_facts = [], fs_byFile = []\<rparr>"

definition file_index :: "factSet \<Rightarrow> string \<Rightarrow> nat list" where
  "file_index s file = (case map_of (fs_byFile s) file of Some ix \<Rightarrow> ix | None \<Rightarrow> [])"

definition fs_add :: "fact \<Rightarrow> factSet \<Rightarrow> factSet" where
  "fs_add f s =
     (let file = fg_file (fc_origin f) in
      \<lparr>fs_facts = fs_facts s @ [f], fs_byFile = AList.update file (file_index s file @ [length (fs_facts s)]) (fs_byFile s)\<rparr>)"

definition ByFile :: "factSet \<Rightarrow> string \<Rightarrow> fact list" where
  "ByFile s file = map ((!) (fs_facts s)) (file_index s file)"

definition fs_all :: "factSet \<Rightarrow> fact list" where "fs_all s = fs_facts s"

definition fs_len :: "factSet \<Rightarrow> nat" where "fs_len s = length (fs_facts s)"

definition Files :: "factSet \<Rightarrow> string list" where "Files s = sort (map fst (fs_byFile s))"

definition add_facts :: "fact list \<Rightarrow> factSet \<Rightarrow> factSet" where
  "add_facts fs s = fold fs_add fs s"

text \<open>A relation as the rules see it: the rendered arguments of its facts.\<close>

definition tuple_of :: "fact \<Rightarrow> string list" where "tuple_of f = map Value (fc_args f)"

definition relation_of :: "string \<Rightarrow> fact list \<Rightarrow> string list list" where
  "relation_of rel fs = map tuple_of (filter (\<lambda>f. fc_pred f = rel) fs)"

section \<open>The graph as facts\<close>

definition EdgeTypeCalls :: edgeType where "EdgeTypeCalls = ''calls''"
definition EdgeTypeInherits :: edgeType where "EdgeTypeInherits = ''inherits''"

record linkHint =
  lh_from :: string
  lh_to :: string
  lh_baseURL :: string
  lh_hint :: string

record resolvedName =
  rn_site :: string
  rn_name :: string
  rn_target :: string
  rn_depth :: int

record snapshot =
  sn_nodes :: "node list"
  sn_edges :: "edge list"
  sn_imports :: "(string \<times> string) list"
  sn_resolved :: "resolvedName list"
  sn_files :: "string list"
  sn_servicePath :: string
  sn_links :: "linkHint list"
  sn_unresolved :: "unresolvedRef list"

definition ancestorDistCap :: nat where "ancestorDistCap = 32"

text \<open>The maps from identifiers to files, types and labels hold the last node of an identifier.\<close>

definition last_node :: "snapshot \<Rightarrow> string \<Rightarrow> node option" where
  "last_node s v = find (\<lambda>n. nd_id n = v) (rev (sn_nodes s))"

definition file_of :: "snapshot \<Rightarrow> string \<Rightarrow> string" where
  "file_of s v = (case last_node s v of Some n \<Rightarrow> nd_file n | None \<Rightarrow> [])"

definition type_of :: "snapshot \<Rightarrow> string \<Rightarrow> string" where
  "type_of s v = (case last_node s v of Some n \<Rightarrow> nd_type n | None \<Rightarrow> [])"

definition label_of :: "snapshot \<Rightarrow> string \<Rightarrow> string" where
  "label_of s v = (case last_node s v of Some n \<Rightarrow> nd_label n | None \<Rightarrow> [])"

definition graph_fact :: "string \<Rightarrow> atom list \<Rightarrow> string \<Rightarrow> int \<Rightarrow> fact" where
  "graph_fact rel args file line = \<lparr>fc_pred = rel, fc_args = args,
     fc_origin = \<lparr>fg_kind = OriginGraph, fg_file = file, fg_line = line, fg_pos = 0, fg_pattern = rel\<rparr>\<rparr>"

definition node_facts :: "(node \<Rightarrow> string list) \<Rightarrow> node \<Rightarrow> fact list" where
  "node_facts ks n =
     (let fact = (\<lambda>rel args. graph_fact rel args (nd_file n) (nd_line n)); v = Node (nd_id n) in
      [fact ''node'' [v, Str (nd_type n), Str (nd_file n), Str (nd_service n)]]
      @ (if nd_label n \<noteq> [] then [fact ''node_label'' [v, Str (nd_label n)]] else [])
      @ (if nd_line n > 0 then [fact ''node_start'' [v, IntA (nd_line n)]] else [])
      @ (if nd_endLine n > 0 then [fact ''node_line'' [v, IntA (nd_line n), IntA (nd_endLine n)]] else [])
      @ map (\<lambda>k. fact ''node_meta'' [v, Str k, Str (meta_get (nd_meta n) k)]) (sort (ks n)))"

definition ranked_files :: "snapshot \<Rightarrow> string list" where
  "ranked_files s = sort (remdups (map nd_file (sn_nodes s)))"

definition rank_facts :: "snapshot \<Rightarrow> fact list" where
  "rank_facts s = map (\<lambda>(n, f). graph_fact ''file_rank'' [Str f, IntA (int n)] f 0) (enumerate 0 (ranked_files s))"

definition call_facts :: "edge \<Rightarrow> string \<Rightarrow> int \<Rightarrow> (string \<times> string) list \<Rightarrow> fact list" where
  "call_facts e file cseq seen =
     [graph_fact ''calls_edge'' [Node (ed_from e), Str (ed_label e), Node (ed_to e)] file 0,
      graph_fact ''calls_edge_seq'' [Node (ed_from e), Str (ed_label e), Node (ed_to e), IntA cseq] file 0]
     @ (if (ed_from e, ed_label e) \<in> set seen then [] else [graph_fact ''calls_edge_any'' [Node (ed_from e), Str (ed_label e)] file 0])"

definition inherit_facts :: "edge \<Rightarrow> string \<Rightarrow> fact list" where
  "inherit_facts e file =
     [graph_fact ''inherits'' [Node (ed_from e), Node (ed_to e)] file 0,
      graph_fact (if meta_get (ed_meta e) ''via'' = ''mixin'' then ''includes_module'' else ''class_super'')
        [Node (ed_from e), Node (ed_to e)] file 0]"

text \<open>The loop over the edges, with the ordinal of the next call and the pairs that \<open>calls_edge_any\<close> has seen.\<close>

fun edge_facts :: "snapshot \<Rightarrow> int \<Rightarrow> (string \<times> string) list \<Rightarrow> edge list \<Rightarrow> fact list" where
  "edge_facts s cseq seen [] = []"
| "edge_facts s cseq seen (e # es) =
     (let file = file_of s (ed_from e) in
      graph_fact ''edge'' [Node (ed_from e), Str (ed_type e), Node (ed_to e)] file 0 #
      (if ed_type e = EdgeTypeCalls then call_facts e file cseq seen @ edge_facts s (cseq + 1) ((ed_from e, ed_label e) # seen) es
       else if ed_type e = EdgeTypeInherits then inherit_facts e file @ edge_facts s cseq seen es
       else if ed_type e = EdgeTypeContains \<and> type_of s (ed_from e) = NodeTypeClass then
         graph_fact ''defines'' [Node (ed_from e), Str (label_of s (ed_to e)), Node (ed_to e)] file 0 # edge_facts s cseq seen es
       else edge_facts s cseq seen es))"

definition inheritsAdj :: "snapshot \<Rightarrow> string \<Rightarrow> string list" where
  "inheritsAdj s v = map ed_to (filter (\<lambda>e. ed_type e = EdgeTypeInherits \<and> ed_from e = v) (sn_edges s))"

text \<open>One level of the walk over ancestors: what is visited, and the next frontier.\<close>

definition visit_ancestor :: "string \<Rightarrow> string list \<times> string list \<Rightarrow> string list \<times> string list" where
  "visit_ancestor a sn = (if a \<in> set (fst sn) then sn else (a # fst sn, snd sn @ [a]))"

definition ancestor_level :: "(string \<Rightarrow> string list) \<Rightarrow> string list \<Rightarrow> string list \<Rightarrow> string list \<times> string list" where
  "ancestor_level adj seen front = fold visit_ancestor (concat (map adj front)) (seen, [])"

fun ancestor_walk :: "(string \<Rightarrow> string list) \<Rightarrow> nat \<Rightarrow> nat \<Rightarrow> string list \<Rightarrow> string list \<Rightarrow> (string \<times> nat) list" where
  "ancestor_walk adj 0 depth seen front = []"
| "ancestor_walk adj (Suc n) depth seen front =
     (if front = [] then []
      else let (seen1, nxt) = ancestor_level adj seen front in map (\<lambda>a. (a, depth)) nxt @ ancestor_walk adj n (Suc depth) seen1 nxt)"

definition ancestor_facts :: "snapshot \<Rightarrow> node \<Rightarrow> fact list" where
  "ancestor_facts s n =
     (if type_of s (nd_id n) \<noteq> NodeTypeClass then []
      else map (\<lambda>(a, d). graph_fact ''ancestor_dist'' [Node (nd_id n), Node a, IntA (int d)] (file_of s (nd_id n)) 0)
        (ancestor_walk (inheritsAdj s) ancestorDistCap 1 [nd_id n] [nd_id n]))"

definition service_file_fact :: "string \<Rightarrow> fact" where
  "service_file_fact f =
     (let (dir, base) = path_split f; ext = path_ext base in
      graph_fact ''service_file'' [Str f, Str (trim_suffix ''/'' dir), Str (trim_suffix ext base), Str ext] f 0)"

definition graph_facts :: "(node \<Rightarrow> string list) \<Rightarrow> snapshot \<Rightarrow> fact list" where
  "graph_facts ks s =
     concat (map (node_facts ks) (sn_nodes s)) @ rank_facts s @ edge_facts s 0 [] (sn_edges s)
     @ concat (map (ancestor_facts s) (sn_nodes s))
     @ map service_file_fact (filter (\<lambda>f. f \<noteq> []) (sort (remdups (sn_files s))))
     @ map (\<lambda>(file, pkg). graph_fact ''import'' [Str file, Str pkg] file 0) (sn_imports s)
     @ map (\<lambda>r. graph_fact ''resolved'' [Node (rn_site r), Str (rn_name r), Node (rn_target r), IntA (rn_depth r)] (file_of s (rn_site r)) 0)
         (sn_resolved s)"

definition GraphFacts :: "(node \<Rightarrow> string list) \<Rightarrow> snapshot \<Rightarrow> factSet \<Rightarrow> factSet" where
  "GraphFacts ks s fs = add_facts (graph_facts ks s) fs"

section \<open>Joined columns\<close>

record deriveSpec =
  ds_relation_of :: string
  ds_from :: string
  ds_columns :: "string list"
  ds_separator :: "string option"

datatype blockError = BNoRelation | BFromNotMeta | BFewColumns | BEmptyColumn | BNoSeparator | BNoFrom | BSameRelation
  | BRowsOrArtifact | BNoAgainst | BUnknownArtifact | BNoName | BUnknownHub

definition check_derive :: "deriveSpec \<Rightarrow> blockError option" where
  "check_derive d =
     (if ds_relation_of d = [] then Some BNoRelation
      else if ds_from d \<noteq> ''node_meta'' then Some BFromNotMeta
      else if length (ds_columns d) < 2 then Some BFewColumns
      else if list_ex (\<lambda>c. c = []) (ds_columns d) then Some BEmptyColumn
      else if ds_separator d = None then Some BNoSeparator else None)"

text \<open>The loop of the \<open>Compile\<dots>Specs\<close> functions: the first error ends it.\<close>

fun compile_all :: "('s \<Rightarrow> blockError option) \<Rightarrow> 's list \<Rightarrow> blockError + 's list" where
  "compile_all check [] = Inr []"
| "compile_all check (s # ss) = (case check s of Some err \<Rightarrow> Inl err | None \<Rightarrow> map_sum id ((#) s) (compile_all check ss))"

definition CompileDeriveSpecs :: "deriveSpec list \<Rightarrow> blockError + deriveSpec list" where
  "CompileDeriveSpecs ds = compile_all check_derive ds"

text \<open>The columns of the nodes, in first-seen order; of two values of a column the first is kept.\<close>

type_synonym metaColumns = "(string \<times> (string \<times> string \<times> factOrigin) list) list"

definition is_meta :: "fact \<Rightarrow> bool" where
  "is_meta f \<longleftrightarrow> fc_pred f = ''node_meta'' \<and> length (fc_args f) \<ge> 3"

definition note_column :: "fact \<Rightarrow> metaColumns \<Rightarrow> metaColumns" where
  "note_column f nm =
     (if \<not> is_meta f then nm
      else let v = Value (fc_args f ! 0); k = at_str (fc_args f ! 1); x = at_str (fc_args f ! 2);
               cols = (case map_of nm v of Some cs \<Rightarrow> cs | None \<Rightarrow> []) in
        AList.update v (if map_of cols k = None then cols @ [(k, x, fc_origin f)] else cols) nm)"

fun joined :: "string \<Rightarrow> string list \<Rightarrow> string" where
  "joined sep [] = []"
| "joined sep (p # ps) = fold (\<lambda>q s. s @ sep @ q) ps p"

definition primitive_fact :: "string \<Rightarrow> atom list \<Rightarrow> string \<Rightarrow> int \<Rightarrow> fact" where
  "primitive_fact rel args file line = \<lparr>fc_pred = rel, fc_args = args,
     fc_origin = \<lparr>fg_kind = OriginPrimitive, fg_file = file, fg_line = line, fg_pos = 0, fg_pattern = rel\<rparr>\<rparr>"

definition derive_one :: "deriveSpec \<Rightarrow> string \<times> (string \<times> string \<times> factOrigin) list \<Rightarrow> fact list" where
  "derive_one d vc =
     (case those (map (map_of (snd vc)) (ds_columns d)) of
        None \<Rightarrow> []
      | Some parts \<Rightarrow>
          [\<lparr>fc_pred = ds_relation_of d,
            fc_args = [Node (fst vc), Str (joined (case ds_separator d of Some sep \<Rightarrow> sep | None \<Rightarrow> []) (map fst parts))],
            fc_origin = (snd (hd parts))\<lparr>fg_pattern := ds_relation_of d\<rparr>\<rparr>])"

definition derive_facts :: "deriveSpec list \<Rightarrow> fact list \<Rightarrow> fact list" where
  "derive_facts ds fs = (let nm = fold note_column fs [] in concat (map (\<lambda>d. concat (map (derive_one d) nm)) ds))"

definition ApplyDerive :: "deriveSpec list \<Rightarrow> factSet \<Rightarrow> factSet" where
  "ApplyDerive ds fs = add_facts (derive_facts ds (fs_all fs)) fs"

section \<open>Configuration values, tables and hubs\<close>

record configSpec =
  cs_relation :: string
  cs_from :: string

definition check_config :: "configSpec \<Rightarrow> blockError option" where
  "check_config c =
     (if cs_relation c = [] then Some BNoRelation else if cs_from c = [] then Some BNoFrom
      else if cs_from c = cs_relation c then Some BSameRelation else None)"

definition CompileConfigSpecs :: "configSpec list \<Rightarrow> blockError + configSpec list" where
  "CompileConfigSpecs cs = compile_all check_config cs"

text \<open>The values of a variable: the text and where it was found.\<close>

type_synonym configValues = "string \<Rightarrow> (string \<times> string) list"

definition reads_from :: "string \<Rightarrow> nat \<Rightarrow> fact \<Rightarrow> bool" where
  "reads_from rel n f \<longleftrightarrow> fc_pred f = rel \<and> length (fc_args f) \<ge> n"

definition config_fact :: "configValues \<Rightarrow> configSpec \<Rightarrow> fact \<Rightarrow> fact list" where
  "config_fact vals c f =
     (let file = at_str (fc_args f ! 0); line = at_int (fc_args f ! 1); envVar = at_str (fc_args f ! 2) in
      map (\<lambda>(v, ref). primitive_fact (cs_relation c) [Str file, IntA line, Str envVar, Str v, Str ref] file line) (vals envVar))"

definition config_facts :: "configValues \<Rightarrow> configSpec list \<Rightarrow> fact list \<Rightarrow> fact list" where
  "config_facts vals cs fs = concat (map (\<lambda>c. concat (map (config_fact vals c) (filter (reads_from (cs_from c) 3) fs))) cs)"

definition ApplyConfig :: "(string \<Rightarrow> configValues) \<Rightarrow> configSpec list \<Rightarrow> string \<Rightarrow> factSet \<Rightarrow> factSet" where
  "ApplyConfig load cs svcPath fs =
     (if cs = [] \<or> svcPath = [] then fs else add_facts (config_facts (load svcPath) cs (fs_all fs)) fs)"

record tableSpec =
  tb_relation :: string
  tb_rows :: "string list list"
  tb_artifact :: string
  tb_against :: string
  tb_againstArg :: nat

definition check_table :: "(string \<Rightarrow> bool) \<Rightarrow> tableSpec \<Rightarrow> blockError option" where
  "check_table known t =
     (if tb_relation t = [] then Some BNoRelation
      else if (tb_rows t \<noteq> []) = (tb_artifact t \<noteq> []) then Some BRowsOrArtifact
      else if tb_artifact t \<noteq> [] \<and> tb_against t = [] then Some BNoAgainst
      else if tb_artifact t \<noteq> [] \<and> \<not> known (tb_artifact t) then Some BUnknownArtifact else None)"

definition CompileTableSpecs :: "(string \<Rightarrow> bool) \<Rightarrow> tableSpec list \<Rightarrow> blockError + tableSpec list" where
  "CompileTableSpecs known ts = compile_all (check_table known) ts"

definition declarative_facts :: "tableSpec \<Rightarrow> fact list" where
  "declarative_facts t = map (\<lambda>row. primitive_fact (tb_relation t) (map Str row) [] 0) (tb_rows t)"

text \<open>
  What an artifact block adds depends on the files of the service and on the arguments that corroborate them:
  the string atoms at one position of the facts it is checked against.
\<close>

type_synonym artifactRows = "tableSpec \<Rightarrow> string \<Rightarrow> string list \<Rightarrow> fact list"

definition known_args :: "tableSpec \<Rightarrow> fact list \<Rightarrow> string list" where
  "known_args t fs =
     map (\<lambda>f. at_str (fc_args f ! tb_againstArg t))
       (filter (\<lambda>f. fc_pred f = tb_against t \<and> tb_againstArg t < length (fc_args f) \<and> at_kind (fc_args f ! tb_againstArg t) = AtomStr) fs)"

definition table_facts :: "artifactRows \<Rightarrow> string \<Rightarrow> tableSpec \<Rightarrow> fact list \<Rightarrow> fact list" where
  "table_facts art svcPath t fs =
     (if tb_rows t \<noteq> [] then declarative_facts t
      else if svcPath = [] then [] else art t svcPath (known_args t fs))"

definition ApplyTable :: "artifactRows \<Rightarrow> tableSpec list \<Rightarrow> string \<Rightarrow> factSet \<Rightarrow> factSet" where
  "ApplyTable art ts svcPath fs = fold (\<lambda>t s. add_facts (table_facts art svcPath t (fs_all s)) s) ts fs"

type_synonym hubs = "string \<Rightarrow> (snapshot \<Rightarrow> fact list) option"

definition check_hub :: "hubs \<Rightarrow> string \<Rightarrow> blockError option" where
  "check_hub reg name = (if name = [] then Some BNoName else if reg name = None then Some BUnknownHub else None)"

definition CompileHubSpecs :: "hubs \<Rightarrow> string list \<Rightarrow> blockError + string list" where
  "CompileHubSpecs reg hs = compile_all (check_hub reg) hs"

definition ApplyHub :: "hubs \<Rightarrow> string list \<Rightarrow> snapshot \<Rightarrow> factSet \<Rightarrow> factSet" where
  "ApplyHub reg hs sn fs = fold (\<lambda>h s. case reg h of None \<Rightarrow> s | Some fn \<Rightarrow> add_facts (fn sn) s) hs fs"

end
