(* ===== verification/Path_Resolution.thy ===== *)
theory Path_Resolution
  imports Facts
begin

text \<open>
  The path primitive (\<open>internal/factpipe/resolve.go\<close>): the candidates that a reference may name, in order of
  precedence, looked up in the service's file list; and the variant that finds the files of a directory.
\<close>

record resolveSpec =
  rs_relation :: string
  rs_from :: string
  rs_roots :: "string list"
  rs_extensions :: "string list"
  rs_partialPrefix :: string
  rs_indexFiles :: "string list"
  rs_ownDirFirst :: bool
  rs_dir :: bool
  rs_recursive :: bool
  rs_stripExt :: "string list"

definition check_resolve :: "resolveSpec \<Rightarrow> blockError option" where
  "check_resolve s =
     (if rs_relation s = [] then Some BNoRelation else if rs_from s = [] then Some BNoFrom
      else if rs_from s = rs_relation s then Some BSameRelation else None)"

definition CompileResolveSpecs :: "resolveSpec list \<Rightarrow> blockError + resolveSpec list" where
  "CompileResolveSpecs ss = compile_all check_resolve ss"

definition exts :: "resolveSpec \<Rightarrow> string list" where
  "exts r = (if rs_extensions r = [] then [[]] else rs_extensions r)"

definition anchors :: "resolveSpec \<Rightarrow> string \<Rightarrow> string list" where
  "anchors r fromFile =
     (let a = (if rs_ownDirFirst r then [path_dir fromFile] else []) @ rs_roots r in
      if a = [] then [path_dir fromFile] else a)"

definition add_candidate :: "string \<Rightarrow> string list \<Rightarrow> string list" where
  "add_candidate p out =
     (let q = path_clean p in
      if q = ''.'' \<or> q = [path_sep] \<or> prefix ''../'' q then out
      else let c = trim_prefix [path_sep] q in if c \<in> set out then out else out @ [c])"

text \<open>The raw candidates below one anchor, before they are cleaned and deduplicated.\<close>

definition with_partial :: "resolveSpec \<Rightarrow> string \<Rightarrow> string \<Rightarrow> string \<Rightarrow> string \<Rightarrow> string list" where
  "with_partial r whole dir base ext =
     (whole @ ext) # (if rs_partialPrefix r \<noteq> [] then [path_join dir (rs_partialPrefix r @ base) @ ext] else [])"

definition raw_candidates :: "resolveSpec \<Rightarrow> string \<Rightarrow> string \<Rightarrow> string list" where
  "raw_candidates r spec anchor =
     (let stem = path_join anchor spec; dir = trim_suffix ''/'' (fst (path_split stem)); base = snd (path_split stem); specExt = path_ext base in
      (if specExt \<noteq> [] then [stem] else [])
      @ (if specExt \<noteq> [] \<and> specExt \<in> set (rs_stripExt r)
         then map (\<lambda>x. take (length stem - length specExt) stem @ x) (exts r) else [])
      @ concat (map (with_partial r stem dir base) (exts r))
      @ concat (map (\<lambda>ix. concat (map (with_partial r (path_join stem ix) stem ix) (exts r))) (rs_indexFiles r)))"

definition path_candidates :: "resolveSpec \<Rightarrow> string \<Rightarrow> string \<Rightarrow> string list" where
  "path_candidates r fromFile spec0 =
     (let spec = trim_space spec0 in
      if spec = [] then [] else fold add_candidate (concat (map (raw_candidates r spec) (anchors r fromFile))) [])"

text \<open>The position of a path among the distinct paths of the list, in lexical order.\<close>

definition lexical_files :: "string list \<Rightarrow> string list" where
  "lexical_files files = filter (\<lambda>f. f \<noteq> []) (sort (remdups files))"

definition fileRank :: "string list \<Rightarrow> string \<rightharpoonup> nat" where
  "fileRank files = map_of (zip (lexical_files files) [0..<length (lexical_files files)])"

definition resolve_path :: "resolveSpec \<Rightarrow> string \<Rightarrow> string \<Rightarrow> (string \<rightharpoonup> nat) \<Rightarrow> (string \<times> nat) option" where
  "resolve_path r fromFile spec rank =
     (case find (\<lambda>c. rank c \<noteq> None) (path_candidates r fromFile spec) of Some c \<Rightarrow> Some (c, the (rank c)) | None \<Rightarrow> None)"

definition add_dir :: "string \<Rightarrow> string list \<Rightarrow> string list" where
  "add_dir p0 out =
     (if p0 = [path_sep] \<or> prefix ''../'' p0 then out
      else let p1 = trim_prefix [path_sep] p0; p = (if p1 = ''.'' then [] else p1) in if p \<in> set out then out else out @ [p])"

definition dirCandidates :: "resolveSpec \<Rightarrow> string \<Rightarrow> string \<Rightarrow> string list" where
  "dirCandidates r fromFile spec0 =
     (let spec = trim_space spec0 in
      if spec = [] then [] else fold (\<lambda>a. add_dir (path_clean (path_join a spec))) (anchors r fromFile) [])"

definition underResolvedDir :: "string \<Rightarrow> string \<Rightarrow> bool \<Rightarrow> bool" where
  "underResolvedDir file dir recursive =
     (if recursive then dir = [] \<or> prefix (dir @ [path_sep]) file
      else if dir = [] then path_dir file = ''.'' else path_dir file = dir)"

text \<open>\<open>strings.EqualFold\<close> on ASCII.\<close>

definition equal_fold :: "string \<Rightarrow> string \<Rightarrow> bool" where
  "equal_fold a b \<longleftrightarrow> to_lower a = to_lower b"

definition in_dir :: "resolveSpec \<Rightarrow> string \<Rightarrow> string \<Rightarrow> string \<Rightarrow> string \<Rightarrow> bool" where
  "in_dir r fromFile ext dir f \<longleftrightarrow> f \<noteq> [] \<and> f \<noteq> fromFile \<and> underResolvedDir f dir (rs_recursive r)
     \<and> (ext = [] \<or> equal_fold (path_ext f) ext)"

fun first_dir :: "resolveSpec \<Rightarrow> string \<Rightarrow> string \<Rightarrow> string list \<Rightarrow> string list \<Rightarrow> string list option" where
  "first_dir r fromFile ext files [] = None"
| "first_dir r fromFile ext files (d # ds) =
     (let out = filter (in_dir r fromFile ext d) files in if out \<noteq> [] then Some (sort out) else first_dir r fromFile ext files ds)"

definition resolveDir :: "resolveSpec \<Rightarrow> string \<Rightarrow> string \<Rightarrow> string \<Rightarrow> string list \<Rightarrow> string list option" where
  "resolveDir r fromFile spec ext files = first_dir r fromFile ext files (dirCandidates r fromFile spec)"

text \<open>A file that the list lacks has rank zero in the map.\<close>

definition rank_atom :: "(string \<rightharpoonup> nat) \<Rightarrow> string \<Rightarrow> atom" where
  "rank_atom rank f = IntA (case rank f of Some n \<Rightarrow> int n | None \<Rightarrow> 0)"

definition resolve_targets :: "resolveSpec \<Rightarrow> string list \<Rightarrow> (string \<rightharpoonup> nat) \<Rightarrow> fact \<Rightarrow> string list" where
  "resolve_targets r files rank f =
     (let fromFile = at_str (fc_args f ! 0); spec = at_str (fc_args f ! 2) in
      if rs_dir r then
        (case resolveDir r fromFile spec (if length (fc_args f) > 3 then at_str (fc_args f ! 3) else []) files of Some ts \<Rightarrow> ts | None \<Rightarrow> [])
      else (case resolve_path r fromFile spec rank of Some (t, _) \<Rightarrow> [t] | None \<Rightarrow> []))"

definition resolve_fact :: "resolveSpec \<Rightarrow> string list \<Rightarrow> (string \<rightharpoonup> nat) \<Rightarrow> fact \<Rightarrow> fact list" where
  "resolve_fact r files rank f =
     map (\<lambda>t. primitive_fact (rs_relation r) [fc_args f ! 0, fc_args f ! 1, Str (at_str (fc_args f ! 2)), Str t, rank_atom rank t]
            (at_str (fc_args f ! 0)) (at_int (fc_args f ! 1)))
       (resolve_targets r files rank f)"

definition resolve_facts :: "resolveSpec list \<Rightarrow> string list \<Rightarrow> fact list \<Rightarrow> fact list" where
  "resolve_facts rs files fs =
     concat (map (\<lambda>r. concat (map (resolve_fact r files (fileRank files)) (filter (reads_from (rs_from r) 3) fs))) rs)"

definition ApplyResolves :: "resolveSpec list \<Rightarrow> string list \<Rightarrow> factSet \<Rightarrow> factSet" where
  "ApplyResolves rs files fs = add_facts (resolve_facts rs files (fs_all fs)) fs"

end
