(* ===== verification/Bridge_Props.thy ===== *)
theory Bridge_Props
  imports Path_Resolution Frontier
begin

text \<open>
  What the facts of the pipeline mean: the index of a fact set by files, the relations that the bridge asserts
  (distances between a class and its ancestors, ranks of files, ordinals of calls), joined columns, and the
  targets of path references.
\<close>

section \<open>Fact sets\<close>

definition fact_file :: "fact \<Rightarrow> string" where "fact_file f = fg_file (fc_origin f)"

text \<open>The index holds the positions of the facts of each file, and lists the files that have facts.\<close>

definition factSet_ok :: "factSet \<Rightarrow> bool" where
  "factSet_ok s \<longleftrightarrow> (\<forall>file. file_index s file = filter (\<lambda>i. fact_file (fs_facts s ! i) = file) [0..<length (fs_facts s)])
     \<and> distinct (map fst (fs_byFile s)) \<and> fst ` set (fs_byFile s) = fact_file ` set (fs_facts s)"

lemma NewFactSet_ok: "factSet_ok NewFactSet"
  by (simp add: factSet_ok_def NewFactSet_def file_index_def)

lemma file_index_add: "file_index (fs_add f s) file = (if file = fact_file f then file_index s file @ [length (fs_facts s)] else file_index s file)"
  by (simp add: file_index_def fs_add_def fact_file_def Let_def update_conv')

lemma fs_add_ok [inv_intros]:
  assumes "factSet_ok s"
  shows "factSet_ok (fs_add f s)"
proof -
  have old: "\<And>v. file_index s v = filter (\<lambda>i. fact_file (fs_facts s ! i) = v) [0..<length (fs_facts s)]"
    "distinct (map fst (fs_byFile s))" "fst ` set (fs_byFile s) = fact_file ` set (fs_facts s)"
    using assms by (simp_all add: factSet_ok_def)
  have facts: "fs_facts (fs_add f s) = fs_facts s @ [f]" by (simp add: fs_add_def Let_def)
  have keys: "fst ` set (fs_byFile (fs_add f s)) = insert (fact_file f) (fst ` set (fs_byFile s))"
    by (simp add: fs_add_def Let_def fact_file_def dom_update)
  have dist: "distinct (map fst (fs_byFile (fs_add f s)))" using old(2) by (simp add: fs_add_def Let_def distinct_update)
  have same: "filter (\<lambda>i. fact_file ((fs_facts s @ [f]) ! i) = v) [0..<length (fs_facts s)] = file_index s v" for v
    unfolding old(1) by (rule filter_cong) (auto simp: nth_append)
  show ?thesis unfolding factSet_ok_def
  proof (intro conjI allI)
    fix v
    show "file_index (fs_add f s) v = filter (\<lambda>i. fact_file (fs_facts (fs_add f s) ! i) = v) [0..<length (fs_facts (fs_add f s))]"
      unfolding facts file_index_add by (simp add: same)
  qed (use dist keys old(3) facts in auto)
qed

lemma add_facts_ok [inv_intros]: "factSet_ok s \<Longrightarrow> factSet_ok (add_facts fs s)"
  unfolding add_facts_def by (induction fs arbitrary: s) (simp_all add: fs_add_ok)

lemma add_facts_all [simp]: "fs_all (add_facts fs s) = fs_all s @ fs"
  unfolding add_facts_def fs_all_def by (induction fs arbitrary: s) (simp_all add: fs_add_def Let_def)

lemma NewFactSet_all [simp]: "fs_all NewFactSet = []"
  by (simp add: fs_all_def NewFactSet_def)

lemma ByFile_filter:
  assumes "factSet_ok s"
  shows "ByFile s file = filter (\<lambda>f. fact_file f = file) (fs_all s)"
proof -
  have "ByFile s file = map ((!) (fs_facts s)) (filter ((\<lambda>f. fact_file f = file) \<circ> (!) (fs_facts s)) [0..<length (fs_facts s)])"
    using assms by (simp add: ByFile_def factSet_ok_def o_def)
  also have "\<dots> = filter (\<lambda>f. fact_file f = file) (map ((!) (fs_facts s)) [0..<length (fs_facts s)])" by (simp only: filter_map)
  finally show ?thesis by (simp add: map_nth fs_all_def)
qed

section \<open>Levels of ancestors\<close>

lemma visit_ancestor_pair [simp]:
  "visit_ancestor a (seen, nxt) = (if a \<in> set seen then (seen, nxt) else (a # seen, nxt @ [a]))"
  by (simp add: visit_ancestor_def)

lemma visit_ancestors:
  "fold visit_ancestor as (seen, nxt) = (seen1, nxt1) \<Longrightarrow> distinct nxt \<Longrightarrow> set nxt \<subseteq> set seen \<Longrightarrow>
     set seen1 = set seen \<union> set as \<and> set nxt1 = set nxt \<union> (set as - set seen) \<and> distinct nxt1"
proof (induction as arbitrary: seen nxt)
  case Nil
  then show ?case by simp
next
  case (Cons a as)
  show ?case
  proof (cases "a \<in> set seen")
    case True
    then have "fold visit_ancestor as (seen, nxt) = (seen1, nxt1)" using Cons.prems(1) by simp
    from Cons.IH [OF this Cons.prems(2,3)] show ?thesis using True by auto
  next
    case False
    then have "fold visit_ancestor as (a # seen, nxt @ [a]) = (seen1, nxt1)" using Cons.prems(1) by simp
    moreover have "distinct (nxt @ [a])" "set (nxt @ [a]) \<subseteq> set (a # seen)" using Cons.prems(2,3) False by auto
    ultimately have "set seen1 = set (a # seen) \<union> set as \<and> set nxt1 = set (nxt @ [a]) \<union> (set as - set (a # seen)) \<and> distinct nxt1"
      by (rule Cons.IH)
    then show ?thesis using Cons.prems(3) False by auto
  qed
qed

lemma ancestor_level_sets:
  assumes "ancestor_level adj seen front = (seen1, nxt)"
  shows "set seen1 = set seen \<union> (\<Union>v \<in> set front. set (adj v))" "set nxt = (\<Union>v \<in> set front. set (adj v)) - set seen" "distinct nxt"
  using visit_ancestors [of "concat (map adj front)" seen "[]" seen1 nxt] assms by (simp_all add: ancestor_level_def)

text \<open>The walk lists every node at its distance from the start, up to the cap.\<close>

lemma far_nodes_end:
  assumes "\<And>v. \<not> at_dist adj S k v" "k \<le> d"
  shows "\<not> at_dist adj S d v"
  using assms(2)
proof (induction d arbitrary: v)
  case 0
  then show ?case using assms(1) by simp
next
  case (Suc d)
  show ?case
  proof (cases "k = Suc d")
    case True
    then show ?thesis using assms(1) by simp
  next
    case False
    then show ?thesis using Suc at_dist_pred [of adj S d v] by (metis le_SucE)
  qed
qed

lemma next_level:
  assumes front: "set front = {v. at_dist adj S k v}" and seen: "set seen = {v. \<exists>m \<le> k. reach_in adj S m v}"
  shows "(\<Union>v \<in> set front. set (adj v)) - set seen = {v. at_dist adj S (Suc k) v}"
    "set seen \<union> (\<Union>v \<in> set front. set (adj v)) = {v. \<exists>m \<le> Suc k. reach_in adj S m v}"
proof -
  have fresh: "(\<Union>v \<in> set front. set (adj v)) - set seen = {v. at_dist adj S (Suc k) v}"
  proof (rule set_eqI, rule iffI)
    fix w
    assume "w \<in> (\<Union>v \<in> set front. set (adj v)) - set seen"
    then obtain v where v: "at_dist adj S k v" "w \<in> set (adj v)" "\<forall>m \<le> k. \<not> reach_in adj S m w" unfolding front seen by blast
    then have "reach_in adj S (Suc k) w" by (auto simp: at_dist_def)
    then show "w \<in> {v. at_dist adj S (Suc k) v}" using v(3) unfolding at_dist_def by (simp add: less_Suc_eq_le del: reach_in.simps)
  next
    fix w
    assume "w \<in> {v. at_dist adj S (Suc k) v}"
    then have w: "at_dist adj S (Suc k) w" by simp
    then obtain v where "at_dist adj S k v" "w \<in> set (adj v)" by (rule at_dist_pred)
    moreover have "w \<notin> set seen" using w unfolding at_dist_def seen by (simp add: less_Suc_eq_le del: reach_in.simps)
    ultimately show "w \<in> (\<Union>v \<in> set front. set (adj v)) - set seen" unfolding front by blast
  qed
  show "(\<Union>v \<in> set front. set (adj v)) - set seen = {v. at_dist adj S (Suc k) v}" by (rule fresh)
  have "{v. \<exists>m \<le> Suc k. reach_in adj S m v} = set seen \<union> {v. at_dist adj S (Suc k) v}"
  proof (rule set_eqI, rule iffI)
    fix w
    assume "w \<in> {v. \<exists>m \<le> Suc k. reach_in adj S m v}"
    then obtain m where "m \<le> Suc k" "reach_in adj S m w" by blast
    then obtain m' where "m' \<le> Suc k" "at_dist adj S m' w" using reach_at_dist by (metis le_trans)
    then show "w \<in> set seen \<union> {v. at_dist adj S (Suc k) v}"
      unfolding seen by (cases "m' = Suc k") (auto simp: at_dist_def simp del: reach_in.simps)
  next
    fix w
    assume "w \<in> set seen \<union> {v. at_dist adj S (Suc k) v}"
    then show "w \<in> {v. \<exists>m \<le> Suc k. reach_in adj S m v}"
      unfolding seen at_dist_def by (auto simp del: reach_in.simps intro: le_SucI)
  qed
  then show "set seen \<union> (\<Union>v \<in> set front. set (adj v)) = {v. \<exists>m \<le> Suc k. reach_in adj S m v}"
    unfolding fresh [symmetric] by blast
qed

lemma ancestor_walk_exact:
  assumes "set front = {v. at_dist adj S k v}" "set seen = {v. \<exists>m \<le> k. reach_in adj S m v}"
  shows "set (ancestor_walk adj n (Suc k) seen front) = {(v, d). k < d \<and> d \<le> k + n \<and> at_dist adj S d v}
    \<and> distinct (map fst (ancestor_walk adj n (Suc k) seen front))"
  using assms
proof (induction n arbitrary: k seen front)
  case 0
  then show ?case by auto
next
  case (Suc n)
  show ?case
  proof (cases "front = []")
    case True
    then have "\<And>v. \<not> at_dist adj S k v" using Suc.prems(1) by auto
    then have "\<not> at_dist adj S d v" if "k < d" for d v using far_nodes_end [of adj S k d v] that by simp
    then show ?thesis using True by auto
  next
    case False
    obtain seen1 nxt where lv: "ancestor_level adj seen front = (seen1, nxt)" by fastforce
    note sets = ancestor_level_sets [OF lv] and nl = next_level [OF Suc.prems]
    have IH: "set (ancestor_walk adj n (Suc (Suc k)) seen1 nxt) = {(v, d). Suc k < d \<and> d \<le> Suc k + n \<and> at_dist adj S d v}"
        "distinct (map fst (ancestor_walk adj n (Suc (Suc k)) seen1 nxt))"
      using Suc.IH [of nxt "Suc k" seen1] sets nl by simp_all
    have walk: "ancestor_walk adj (Suc n) (Suc k) seen front = map (\<lambda>a. (a, Suc k)) nxt @ ancestor_walk adj n (Suc (Suc k)) seen1 nxt"
      using False lv by simp
    have nxt: "set nxt = {v. at_dist adj S (Suc k) v}" using sets(2) nl(1) by simp
    have split: "{(v, d). k < d \<and> d \<le> k + Suc n \<and> at_dist adj S d v}
        = (\<lambda>a. (a, Suc k)) ` {v. at_dist adj S (Suc k) v} \<union> {(v, d). Suc k < d \<and> d \<le> Suc k + n \<and> at_dist adj S d v}"
      by (auto simp: image_iff) (metis Suc_lessI)
    have "v \<notin> fst ` set (ancestor_walk adj n (Suc (Suc k)) seen1 nxt)" if "v \<in> set nxt" for v
      using that at_dist_unique [of adj S "Suc k" v] unfolding IH(1) nxt by force
    then have "distinct (map fst (map (\<lambda>a. (a, Suc k)) nxt @ ancestor_walk adj n (Suc (Suc k)) seen1 nxt))"
      using IH(2) sets(3) by (auto simp: o_def)
    moreover have "set (map (\<lambda>a. (a, Suc k)) nxt @ ancestor_walk adj n (Suc (Suc k)) seen1 nxt)
        = {(v, d). k < d \<and> d \<le> k + Suc n \<and> at_dist adj S d v}"
      unfolding split set_append set_map nxt IH(1) ..
    ultimately show ?thesis unfolding walk by blast
  qed
qed

lemma ancestors_of:
  "set (ancestor_walk adj n 1 [v] [v]) = {(a, d). 0 < d \<and> d \<le> n \<and> at_dist adj {v} d a}"
  "distinct (map fst (ancestor_walk adj n 1 [v] [v]))"
proof -
  have "set [v] = {w. at_dist adj {v} 0 w}" "set [v] = {w. \<exists>m \<le> 0. reach_in adj {v} m w}" by (auto simp: at_dist_def)
  from ancestor_walk_exact [OF this, of n]
  show "set (ancestor_walk adj n 1 [v] [v]) = {(a, d). 0 < d \<and> d \<le> n \<and> at_dist adj {v} d a}"
    "distinct (map fst (ancestor_walk adj n 1 [v] [v]))" by simp_all
qed

section \<open>The relations of the bridge\<close>

lemma relation_of_append [simp]: "relation_of rel (fs @ gs) = relation_of rel fs @ relation_of rel gs"
  by (simp add: relation_of_def)

lemma relation_of_none [simp]: "(\<And>f. f \<in> set fs \<Longrightarrow> fc_pred f \<noteq> rel) \<Longrightarrow> relation_of rel fs = []"
  by (simp add: relation_of_def filter_empty_conv)

lemma graph_fact_fields [simp]:
  "fc_pred (graph_fact rel args file line) = rel" "fc_args (graph_fact rel args file line) = args"
  by (simp_all add: graph_fact_def)

lemma Value_simps [simp]: "Value (Str s) = s" "Value (Node v) = v" "Value (IntA n) = fmt_signed n"
  by (simp_all add: Value_def Str_def Node_def IntA_def)

lemma fmt_int_nat [simp]: "fmt_signed (int n) = fmt_nat n"
  by (simp add: fmt_signed_def)

definition node_preds :: "string set" where
  "node_preds = {''node'', ''node_label'', ''node_start'', ''node_line'', ''node_meta''}"

lemma node_facts_preds: "f \<in> set (node_facts ks n) \<Longrightarrow> fc_pred f \<in> node_preds"
  by (auto simp: node_facts_def node_preds_def Let_def split: if_splits)

definition edge_preds :: "string set" where
  "edge_preds = {''edge'', ''calls_edge'', ''calls_edge_seq'', ''calls_edge_any'', ''inherits'', ''class_super'', ''includes_module'', ''defines''}"

lemma edge_facts_preds: "f \<in> set (edge_facts s q seen es) \<Longrightarrow> fc_pred f \<in> edge_preds"
proof (induction es arbitrary: q seen)
  case Nil
  then show ?case by simp
next
  case (Cons e es)
  have head: "fc_pred f \<in> edge_preds" if "f \<in> set (call_facts e v q seen) \<or> f \<in> set (inherit_facts e v)" for v
    using that by (auto simp: call_facts_def inherit_facts_def edge_preds_def split: if_splits)
  show ?case using Cons.prems Cons.IH head by (auto simp: Let_def edge_preds_def split: if_splits)
qed

lemma later_preds:
  "f \<in> set (rank_facts s) \<Longrightarrow> fc_pred f = ''file_rank''" "f \<in> set (ancestor_facts s n) \<Longrightarrow> fc_pred f = ''ancestor_dist''"
  "fc_pred (service_file_fact p) = ''service_file''"
  by (auto simp: rank_facts_def ancestor_facts_def service_file_fact_def Let_def split: if_splits prod.splits)

lemma relation_of_Nil [simp]: "relation_of rel [] = []"
  by (simp add: relation_of_def)

lemma relation_of_Cons [simp]: "relation_of rel (f # fs) = (if fc_pred f = rel then tuple_of f # relation_of rel fs else relation_of rel fs)"
  by (simp add: relation_of_def)

lemma relation_of_concat: "relation_of rel (concat fss) = concat (map (relation_of rel) fss)"
  by (induction fss) simp_all

lemma outside_parts:
  "rel \<notin> node_preds \<Longrightarrow> relation_of rel (concat (map (node_facts ks) ns)) = []"
  "rel \<noteq> ''file_rank'' \<Longrightarrow> relation_of rel (rank_facts s) = []"
  "rel \<notin> edge_preds \<Longrightarrow> relation_of rel (edge_facts s q seen es) = []"
  "rel \<noteq> ''ancestor_dist'' \<Longrightarrow> relation_of rel (concat (map (ancestor_facts s) ns)) = []"
  "rel \<noteq> ''service_file'' \<Longrightarrow> relation_of rel (map service_file_fact ps) = []"
  "rel \<noteq> ''import'' \<Longrightarrow> relation_of rel (map (\<lambda>(v, pkg). graph_fact ''import'' (xs v pkg) v 0) ims) = []"
  "rel \<noteq> ''resolved'' \<Longrightarrow> relation_of rel (map (\<lambda>r. graph_fact ''resolved'' (ys r) (v r) 0) rs) = []"
  by (rule relation_of_none; use node_facts_preds edge_facts_preds later_preds in fastforce)+

lemma parts_apart:
  "''ancestor_dist'' \<notin> node_preds" "''ancestor_dist'' \<notin> edge_preds" "''file_rank'' \<notin> node_preds" "''file_rank'' \<notin> edge_preds"
  "''service_file'' \<notin> node_preds" "''service_file'' \<notin> edge_preds"
  by (simp_all add: node_preds_def edge_preds_def)

lemma edge_pred_apart:
  "rel \<in> edge_preds \<Longrightarrow> rel \<notin> node_preds \<and> rel \<noteq> ''file_rank'' \<and> rel \<noteq> ''ancestor_dist'' \<and> rel \<noteq> ''service_file'' \<and> rel \<noteq> ''import'' \<and> rel \<noteq> ''resolved''"
  by (auto simp: node_preds_def edge_preds_def)

lemma bridge_parts:
  "rel \<in> edge_preds \<Longrightarrow> relation_of rel (graph_facts ks s) = relation_of rel (edge_facts s 0 [] (sn_edges s))"
  "relation_of ''file_rank'' (graph_facts ks s) = relation_of ''file_rank'' (rank_facts s)"
  "relation_of ''ancestor_dist'' (graph_facts ks s) = relation_of ''ancestor_dist'' (concat (map (ancestor_facts s) (sn_nodes s)))"
  by (simp_all add: graph_facts_def outside_parts parts_apart edge_pred_apart)

lemma ancestor_tuples:
  "set (relation_of ''ancestor_dist'' (graph_facts ks s)) = {[sub, a, fmt_nat d] | sub a d.
     sub \<in> nd_id ` set (sn_nodes s) \<and> type_of s sub = NodeTypeClass \<and> 0 < d \<and> d \<le> ancestorDistCap \<and> at_dist (inheritsAdj s) {sub} d a}"
proof -
  have one: "set (relation_of ''ancestor_dist'' (ancestor_facts s n)) = {[nd_id n, a, fmt_nat d] | a d.
      type_of s (nd_id n) = NodeTypeClass \<and> 0 < d \<and> d \<le> ancestorDistCap \<and> at_dist (inheritsAdj s) {nd_id n} d a}" for n
  proof (cases "type_of s (nd_id n) = NodeTypeClass")
    case True
    have "set (relation_of ''ancestor_dist'' (ancestor_facts s n))
        = (\<lambda>(a, d). [nd_id n, a, fmt_nat d]) ` set (ancestor_walk (inheritsAdj s) ancestorDistCap 1 [nd_id n] [nd_id n])"
      using True by (simp add: ancestor_facts_def relation_of_def filter_map o_def case_prod_unfold tuple_of_def image_image)
    also have "\<dots> = {[nd_id n, a, fmt_nat d] | a d. type_of s (nd_id n) = NodeTypeClass \<and> 0 < d \<and> d \<le> ancestorDistCap
        \<and> at_dist (inheritsAdj s) {nd_id n} d a}"
      unfolding ancestors_of(1) using True by auto
    finally show ?thesis .
  next
    case False
    then show ?thesis by (simp add: ancestor_facts_def)
  qed
  show ?thesis unfolding bridge_parts(3) relation_of_concat by (auto simp: one)
qed

lemma sorted_rank:
  assumes "sorted xs" "distinct xs" "i < length xs"
  shows "card {g \<in> set xs. g < xs ! i} = i"
proof -
  have less: "xs ! a < xs ! b \<longleftrightarrow> a < b" if "a < length xs" "b < length xs" for a b
    using assms(1,2) that by (metis less_le linorder_not_le nth_eq_iff_index_eq sorted_nth_mono)
  have "{g \<in> set xs. g < xs ! i} = (!) xs ` {..<i}"
  proof (rule set_eqI, rule iffI)
    fix g
    assume "g \<in> {g \<in> set xs. g < xs ! i}"
    then obtain a where "a < length xs" "g = xs ! a" "xs ! a < xs ! i" by (auto simp: in_set_conv_nth)
    then show "g \<in> (!) xs ` {..<i}" using less assms(3) by blast
  next
    fix g
    assume "g \<in> (!) xs ` {..<i}"
    then obtain a where a: "a < i" "g = xs ! a" by blast
    then have "a < length xs" using assms(3) by simp
    then show "g \<in> {g \<in> set xs. g < xs ! i}" using a less assms(3) by simp
  qed
  moreover have "inj_on ((!) xs) {..<i}" using assms(2,3) by (auto simp: inj_on_def nth_eq_iff_index_eq)
  ultimately show ?thesis by (simp add: card_image)
qed

lemma rank_tuples:
  "set (relation_of ''file_rank'' (graph_facts ks s))
     = {[f, fmt_nat (card {g \<in> nd_file ` set (sn_nodes s). g < f})] | f. f \<in> nd_file ` set (sn_nodes s)}"
proof -
  let ?xs = "ranked_files s"
  have xs: "sorted ?xs" "distinct ?xs" "set ?xs = nd_file ` set (sn_nodes s)" by (simp_all add: ranked_files_def)
  have "relation_of ''file_rank'' (graph_facts ks s) = map (\<lambda>(n, f). [f, fmt_nat n]) (enumerate 0 ?xs)"
    unfolding bridge_parts(2) by (simp add: rank_facts_def relation_of_def filter_map o_def case_prod_unfold tuple_of_def)
  moreover have "enumerate 0 ?xs = map (\<lambda>i. (i, ?xs ! i)) [0..<length ?xs]" by (rule nth_equalityI) (simp_all add: nth_enumerate_eq)
  ultimately have "set (relation_of ''file_rank'' (graph_facts ks s)) = (\<lambda>i. [?xs ! i, fmt_nat i]) ` {i. i < length ?xs}"
    by (simp add: image_image atLeast0LessThan lessThan_def)
  also have "\<dots> = (\<lambda>i. [?xs ! i, fmt_nat (card {g \<in> set ?xs. g < ?xs ! i})]) ` {i. i < length ?xs}"
    by (rule image_cong) (simp_all add: sorted_rank [OF xs(1,2)])
  also have "\<dots> = (\<lambda>f. [f, fmt_nat (card {g \<in> set ?xs. g < f})]) ` set ?xs"
    by (auto simp: set_conv_nth)
  finally show ?thesis unfolding xs(3) by auto
qed

text \<open>Calls carry their ordinal among the calls, and the pairs of \<open>calls_edge_any\<close> are listed once.\<close>

definition call_edges :: "edge list \<Rightarrow> edge list" where "call_edges es = filter (\<lambda>e. ed_type e = EdgeTypeCalls) es"

lemma edge_kinds_apart: "EdgeTypeCalls \<noteq> EdgeTypeInherits" "EdgeTypeCalls \<noteq> EdgeTypeContains" "EdgeTypeInherits \<noteq> EdgeTypeContains"
  by (simp_all add: EdgeTypeCalls_def EdgeTypeInherits_def EdgeTypeContains_def)

lemma call_seq_facts:
  "relation_of ''calls_edge_seq'' (edge_facts s (int q) seen es)
     = map (\<lambda>(i, e). [ed_from e, ed_label e, ed_to e, fmt_nat i]) (enumerate q (call_edges es))"
proof (induction es arbitrary: q seen)
  case Nil
  then show ?case by (simp add: call_edges_def)
next
  case (Cons e es)
  have suc: "int q + 1 = int (Suc q)" by simp
  show ?case using Cons.IH [of q] Cons.IH [of "Suc q"]
    by (simp add: Let_def call_edges_def call_facts_def inherit_facts_def tuple_of_def edge_kinds_apart suc del: of_nat_Suc)
qed

lemma inherit_tuples:
  "relation_of ''inherits'' (edge_facts s q seen es) = map (\<lambda>e. [ed_from e, ed_to e]) (filter (\<lambda>e. ed_type e = EdgeTypeInherits) es)"
  "relation_of ''class_super'' (edge_facts s q seen es)
     = map (\<lambda>e. [ed_from e, ed_to e]) (filter (\<lambda>e. ed_type e = EdgeTypeInherits \<and> meta_get (ed_meta e) ''via'' \<noteq> ''mixin'') es)"
  "relation_of ''includes_module'' (edge_facts s q seen es)
     = map (\<lambda>e. [ed_from e, ed_to e]) (filter (\<lambda>e. ed_type e = EdgeTypeInherits \<and> meta_get (ed_meta e) ''via'' = ''mixin'') es)"
  by (induction es arbitrary: q seen) (simp_all add: Let_def call_facts_def inherit_facts_def tuple_of_def edge_kinds_apart)

lemma edge_tuples:
  "relation_of ''edge'' (edge_facts s q seen es) = map (\<lambda>e. [ed_from e, ed_type e, ed_to e]) es"
  "relation_of ''defines'' (edge_facts s q seen es) = map (\<lambda>e. [ed_from e, label_of s (ed_to e), ed_to e])
     (filter (\<lambda>e. ed_type e = EdgeTypeContains \<and> type_of s (ed_from e) = NodeTypeClass) es)"
  by (induction es arbitrary: q seen) (simp_all add: Let_def call_facts_def inherit_facts_def tuple_of_def edge_kinds_apart edge_kinds_apart [symmetric])

text \<open>
  C31: the graph as facts. Whatever the graph, \<open>ancestor_dist\<close> holds exactly of a class, a node and the number of
  inheritance edges on a shortest path between them, up to the cap; \<open>file_rank\<close> numbers the files of the nodes
  without gaps in lexical order; \<open>inherits\<close> is split without a rest into mixins, the edges of inheritance
  that say so, and superclasses, the others; a class defines what it contains; and the calls are numbered in the
  order of the edges.
\<close>

theorem bridge_relations_exact:
  "set (relation_of ''ancestor_dist'' (graph_facts ks s)) = {[sub, a, fmt_nat d] | sub a d.
     sub \<in> nd_id ` set (sn_nodes s) \<and> type_of s sub = NodeTypeClass \<and> 0 < d \<and> d \<le> 32 \<and> at_dist (inheritsAdj s) {sub} d a}
   \<and> set (relation_of ''file_rank'' (graph_facts ks s))
     = {[f, fmt_nat (card {g \<in> nd_file ` set (sn_nodes s). g < f})] | f. f \<in> nd_file ` set (sn_nodes s)}
   \<and> set (relation_of ''inherits'' (graph_facts ks s)) = {[v, w] | v w. w \<in> set (inheritsAdj s v)}
   \<and> set (relation_of ''inherits'' (graph_facts ks s))
     = set (relation_of ''class_super'' (graph_facts ks s)) \<union> set (relation_of ''includes_module'' (graph_facts ks s))
   \<and> relation_of ''class_super'' (graph_facts ks s)
     = map (\<lambda>e. [ed_from e, ed_to e]) (filter (\<lambda>e. ed_type e = EdgeTypeInherits \<and> meta_get (ed_meta e) ''via'' \<noteq> ''mixin'') (sn_edges s))
   \<and> relation_of ''includes_module'' (graph_facts ks s)
     = map (\<lambda>e. [ed_from e, ed_to e]) (filter (\<lambda>e. ed_type e = EdgeTypeInherits \<and> meta_get (ed_meta e) ''via'' = ''mixin'') (sn_edges s))
   \<and> relation_of ''defines'' (graph_facts ks s) = map (\<lambda>e. [ed_from e, label_of s (ed_to e), ed_to e])
       (filter (\<lambda>e. ed_type e = EdgeTypeContains \<and> type_of s (ed_from e) = NodeTypeClass) (sn_edges s))
   \<and> relation_of ''edge'' (graph_facts ks s) = map (\<lambda>e. [ed_from e, ed_type e, ed_to e]) (sn_edges s)
   \<and> relation_of ''calls_edge_seq'' (graph_facts ks s)
     = map (\<lambda>(i, e). [ed_from e, ed_label e, ed_to e, fmt_nat i]) (enumerate 0 (call_edges (sn_edges s)))"
proof (intro conjI)
  have preds: "''inherits'' \<in> edge_preds" "''class_super'' \<in> edge_preds" "''includes_module'' \<in> edge_preds" "''edge'' \<in> edge_preds"
    "''calls_edge_seq'' \<in> edge_preds" "''defines'' \<in> edge_preds" by (simp_all add: edge_preds_def)
  show "set (relation_of ''ancestor_dist'' (graph_facts ks s)) = {[sub, a, fmt_nat d] | sub a d.
     sub \<in> nd_id ` set (sn_nodes s) \<and> type_of s sub = NodeTypeClass \<and> 0 < d \<and> d \<le> 32 \<and> at_dist (inheritsAdj s) {sub} d a}"
    unfolding ancestor_tuples ancestorDistCap_def by (rule refl)
  show "set (relation_of ''file_rank'' (graph_facts ks s))
     = {[f, fmt_nat (card {g \<in> nd_file ` set (sn_nodes s). g < f})] | f. f \<in> nd_file ` set (sn_nodes s)}" by (rule rank_tuples)
  show "set (relation_of ''inherits'' (graph_facts ks s)) = {[v, w] | v w. w \<in> set (inheritsAdj s v)}"
    unfolding bridge_parts(1) [OF preds(1)] inherit_tuples inheritsAdj_def by auto
  show "set (relation_of ''inherits'' (graph_facts ks s))
     = set (relation_of ''class_super'' (graph_facts ks s)) \<union> set (relation_of ''includes_module'' (graph_facts ks s))"
    unfolding bridge_parts(1) [OF preds(1)] bridge_parts(1) [OF preds(2)] bridge_parts(1) [OF preds(3)] inherit_tuples by auto
  show "relation_of ''class_super'' (graph_facts ks s)
     = map (\<lambda>e. [ed_from e, ed_to e]) (filter (\<lambda>e. ed_type e = EdgeTypeInherits \<and> meta_get (ed_meta e) ''via'' \<noteq> ''mixin'') (sn_edges s))"
    unfolding bridge_parts(1) [OF preds(2)] inherit_tuples by (rule refl)
  show "relation_of ''includes_module'' (graph_facts ks s)
     = map (\<lambda>e. [ed_from e, ed_to e]) (filter (\<lambda>e. ed_type e = EdgeTypeInherits \<and> meta_get (ed_meta e) ''via'' = ''mixin'') (sn_edges s))"
    unfolding bridge_parts(1) [OF preds(3)] inherit_tuples by (rule refl)
  show "relation_of ''defines'' (graph_facts ks s) = map (\<lambda>e. [ed_from e, label_of s (ed_to e), ed_to e])
       (filter (\<lambda>e. ed_type e = EdgeTypeContains \<and> type_of s (ed_from e) = NodeTypeClass) (sn_edges s))"
    unfolding bridge_parts(1) [OF preds(6)] edge_tuples by (rule refl)
  show "relation_of ''edge'' (graph_facts ks s) = map (\<lambda>e. [ed_from e, ed_type e, ed_to e]) (sn_edges s)"
    unfolding bridge_parts(1) [OF preds(4)] edge_tuples by (rule refl)
  show "relation_of ''calls_edge_seq'' (graph_facts ks s)
     = map (\<lambda>(i, e). [ed_from e, ed_label e, ed_to e, fmt_nat i]) (enumerate 0 (call_edges (sn_edges s)))"
    unfolding bridge_parts(1) [OF preds(5)] using call_seq_facts [of s 0] by simp
qed

end
