(* ===== verification/Resolution_Props.thy ===== *)
theory Resolution_Props
  imports Bridge_Props
begin

text \<open>What path references resolve to: the first candidate that the service has, and which paths are candidates.\<close>

section \<open>Candidates\<close>

text \<open>A path inside the repository: plain names, at least one.\<close>

definition inside :: "string \<Rightarrow> bool" where
  "inside c \<longleftrightarrow> (\<exists>ps. ps \<noteq> [] \<and> list_all plain_part ps \<and> c = str_join [path_sep] ps)"

lemma plain_head: "plain_part p \<Longrightarrow> p \<noteq> [] \<and> hd p \<noteq> path_sep"
  by (cases p) (auto simp: plain_part_def)

lemma clean_inside:
  "path_clean p \<noteq> ''.'' \<Longrightarrow> path_clean p \<noteq> [path_sep] \<Longrightarrow> \<not> prefix ''../'' (path_clean p) \<Longrightarrow>
     trim_prefix [path_sep] (path_clean p) = ''..'' \<or> inside (trim_prefix [path_sep] (path_clean p))"
proof -
  assume a: "path_clean p \<noteq> ''.''" "path_clean p \<noteq> [path_sep]" "\<not> prefix ''../'' (path_clean p)"
  have p: "p \<noteq> []" using a(1) by (auto simp: path_clean_def)
  show ?thesis
  proof (cases "hd p = path_sep")
    case True
    let ?ds = "clean_parts True p"
    have c: "path_clean p = path_sep # str_join [path_sep] ?ds" using p True by (simp add: path_clean_def)
    have "?ds \<noteq> []" using a(2) c by (cases ?ds) auto
    then show ?thesis using clean_parts_ok(2) [of True p] unfolding inside_def c by (auto simp: trim_prefix_def)
  next
    case False
    let ?ds = "clean_parts False p"
    have ne: "?ds \<noteq> []" and c: "path_clean p = str_join [path_sep] ?ds"
      using p False a(1) by (auto simp: path_clean_def Let_def split: if_splits)
    obtain n qs where ds: "?ds = replicate n ''..'' @ qs" "list_all plain_part qs" using clean_parts_ok(1) [of False p] by (auto simp: dots_then_plain_def)
    show ?thesis
    proof (cases n)
      case 0
      then obtain q qs' where q: "?ds = q # qs'" "plain_part q" using ne ds by (cases qs) auto
      then have "\<not> prefix [path_sep] (str_join [path_sep] ?ds)"
        using plain_head [OF q(2)] by (cases qs'; cases q) auto
      then show ?thesis unfolding inside_def c using ds 0 ne by (auto simp: trim_prefix_def)
    next
      case (Suc m)
      have "replicate m ''..'' @ qs = []"
      proof (rule ccontr)
        assume more: "replicate m ''..'' @ qs \<noteq> []"
        have "?ds = ''..'' # replicate m ''..'' @ qs" using ds(1) Suc by simp
        then have "str_join [path_sep] ?ds = ''..'' @ [path_sep] @ str_join [path_sep] (replicate m ''..'' @ qs)"
          using str_join_Cons [OF more] by simp
        then show False using a(3) unfolding c by (simp add: path_sep_def)
      qed
      then have "path_clean p = ''..''" unfolding c ds(1) Suc by simp
      then show ?thesis by (simp add: trim_prefix_def path_sep_def)
    qed
  qed
qed

definition clean_candidate :: "string \<Rightarrow> bool" where "clean_candidate c \<longleftrightarrow> c = ''..'' \<or> inside c"

lemma add_candidate_ok:
  "list_all clean_candidate out \<and> distinct out \<Longrightarrow> list_all clean_candidate (add_candidate p out) \<and> distinct (add_candidate p out)"
  using clean_inside [of p] by (auto simp: add_candidate_def Let_def clean_candidate_def)

lemma candidates_inside: "list_all clean_candidate (path_candidates r fromFile spec) \<and> distinct (path_candidates r fromFile spec)"
proof -
  have "list_all clean_candidate out \<and> distinct out \<Longrightarrow> list_all clean_candidate (fold add_candidate ps out) \<and> distinct (fold add_candidate ps out)" for ps out
    using add_candidate_ok by (induction ps arbitrary: out) simp_all
  from this [of "[]"] show ?thesis by (simp add: path_candidates_def Let_def)
qed

text \<open>The candidates in order: the paths below the anchors, cleaned, those that lead out left aside.\<close>

definition raw_paths :: "resolveSpec \<Rightarrow> string \<Rightarrow> string \<Rightarrow> string list" where
  "raw_paths r fromFile spec =
     (if trim_space spec = [] then [] else concat (map (raw_candidates r (trim_space spec)) (anchors r fromFile)))"

definition kept :: "string \<Rightarrow> bool" where
  "kept p \<longleftrightarrow> path_clean p \<noteq> ''.'' \<and> path_clean p \<noteq> [path_sep] \<and> \<not> prefix ''../'' (path_clean p)"

definition cleaned :: "string \<Rightarrow> string" where "cleaned p = trim_prefix [path_sep] (path_clean p)"

lemma add_candidate_alt: "add_candidate p out = (if kept p \<and> cleaned p \<notin> set out then out @ [cleaned p] else out)"
  by (simp add: add_candidate_def kept_def cleaned_def Let_def)

lemma fold_add_candidate: "fold add_candidate ps [] = rev (remdups (rev (map cleaned (filter kept ps))))"
  by (induction ps rule: rev_induct) (simp_all add: add_candidate_alt)

lemma candidates_in_order:
  "path_candidates r fromFile spec = rev (remdups (rev (map cleaned (filter kept (raw_paths r fromFile spec)))))"
  by (simp add: path_candidates_def raw_paths_def Let_def fold_add_candidate)

section \<open>Ranks\<close>

lemma fileRank_exact: "fileRank files f = (if f \<in> set files \<and> f \<noteq> [] then Some (card {g \<in> set files. g \<noteq> [] \<and> g < f}) else None)"
proof -
  let ?xs = "lexical_files files"
  have xs: "sorted ?xs" "distinct ?xs" and set: "set ?xs = {f \<in> set files. f \<noteq> []}"
    by (auto simp: lexical_files_def sorted_filter [where f = id, simplified])
  show ?thesis
  proof (cases "f \<in> set ?xs")
    case False
    then have "f \<notin> fst ` set (zip ?xs [0..<length ?xs])" by (auto dest: set_zip_leftD)
    then have "fileRank files f = None" by (simp add: fileRank_def map_of_eq_None_iff)
    then show ?thesis using False set by auto
  next
    case True
    then obtain i where i: "i < length ?xs" "?xs ! i = f" by (auto simp: in_set_conv_nth)
    have "map_of (zip ?xs [0..<length ?xs]) f = Some i"
      unfolding i(2) [symmetric] using i(1) xs(2) by (simp add: map_of_zip_nth)
    moreover have "card {g \<in> set ?xs. g < f} = i" using sorted_rank [OF xs i(1)] i(2) by simp
    moreover have "{g \<in> set ?xs. g < f} = {g \<in> set files. g \<noteq> [] \<and> g < f}" using set by auto
    ultimately show ?thesis using True set by (simp add: fileRank_def)
  qed
qed

section \<open>Targets\<close>

definition is_first :: "('a \<Rightarrow> bool) \<Rightarrow> 'a list \<Rightarrow> 'a \<Rightarrow> bool" where
  "is_first P xs x \<longleftrightarrow> (\<exists>as bs. xs = as @ x # bs \<and> P x \<and> (\<forall>a \<in> set as. \<not> P a))"

lemma find_first: "find P xs = Some x \<longleftrightarrow> is_first P xs x"
proof
  assume "find P xs = Some x"
  then obtain i where i: "i < length xs" "P (xs ! i)" "x = xs ! i" "\<forall>j < i. \<not> P (xs ! j)" by (auto simp: find_Some_iff)
  then have "xs = take i xs @ x # drop (Suc i) xs" by (simp add: id_take_nth_drop)
  moreover have "\<forall>a \<in> set (take i xs). \<not> P a" using i(1,4) by (auto simp: in_set_conv_nth)
  ultimately show "is_first P xs x" unfolding is_first_def using i(2,3) by blast
next
  assume "is_first P xs x"
  then obtain as bs where "xs = as @ x # bs" "P x" "\<forall>a \<in> set as. \<not> P a" by (auto simp: is_first_def)
  then show "find P xs = Some x" by (induction as arbitrary: xs) auto
qed

lemma resolve_path_exact:
  "resolve_path r fromFile spec (fileRank files) = Some (t, n) \<longleftrightarrow>
     is_first (\<lambda>c. c \<in> set files \<and> c \<noteq> []) (path_candidates r fromFile spec) t \<and> n = card {g \<in> set files. g \<noteq> [] \<and> g < t}"
proof -
  have "(\<lambda>c. fileRank files c \<noteq> None) = (\<lambda>c. c \<in> set files \<and> c \<noteq> [])" by (simp add: fileRank_exact fun_eq_iff)
  then have path: "resolve_path r fromFile spec (fileRank files)
      = (case find (\<lambda>c. c \<in> set files \<and> c \<noteq> []) (path_candidates r fromFile spec) of Some c \<Rightarrow> Some (c, the (fileRank files c)) | None \<Rightarrow> None)"
    by (simp add: resolve_path_def)
  show ?thesis
  proof (cases "find (\<lambda>c. c \<in> set files \<and> c \<noteq> []) (path_candidates r fromFile spec)")
    case None
    then show ?thesis unfolding path find_first [symmetric] by simp
  next
    case (Some c)
    then have "c \<in> set files \<and> c \<noteq> []" unfolding find_Some_iff by (elim exE conjE) simp
    then have "the (fileRank files c) = card {g \<in> set files. g \<noteq> [] \<and> g < c}" by (simp add: fileRank_exact)
    then show ?thesis unfolding path find_first [symmetric] Some by auto
  qed
qed

lemma first_dir_exact:
  "first_dir r fromFile ext files ds = Some ts \<longleftrightarrow>
     (\<exists>d. is_first (\<lambda>d. list_ex (in_dir r fromFile ext d) files) ds d \<and> ts = sort (filter (in_dir r fromFile ext d) files))"
proof -
  have "first_dir r fromFile ext files ds
      = map_option (\<lambda>d. sort (filter (in_dir r fromFile ext d) files)) (find (\<lambda>d. list_ex (in_dir r fromFile ext d) files) ds)"
    by (induction ds) (auto simp: Let_def filter_empty_conv list_ex_iff)
  then show ?thesis by (auto simp: find_first [symmetric])
qed

text \<open>
  C32: references are resolved by precedence. The candidates are the raw paths in order, cleaned, each the first time
  it occurs, without those that begin with \<open>../\<close> and those that name the root itself. A reference resolves to the first candidate that the
  service's file list has, or to nothing when the list has none, and carries the lexical rank of that file among
  the files of the list: not the position of the candidate, which the comment at the head of the source names.
  A reference to a directory resolves to all the matching files of the first candidate directory that has any. A
  candidate is a path inside the repository or the parent directory itself, which the check for paths that lead out
  lets through.
\<close>

theorem references_resolve_by_precedence:
  "(resolve_path r fromFile spec (fileRank files) = Some (t, n) \<longleftrightarrow>
      is_first (\<lambda>c. c \<in> set files \<and> c \<noteq> []) (path_candidates r fromFile spec) t \<and> n = card {g \<in> set files. g \<noteq> [] \<and> g < t})
   \<and> (resolveDir r fromFile spec ext files = Some ts \<longleftrightarrow>
      (\<exists>d. is_first (\<lambda>d. list_ex (in_dir r fromFile ext d) files) (dirCandidates r fromFile spec) d
         \<and> ts = sort (filter (in_dir r fromFile ext d) files)))
   \<and> path_candidates r fromFile spec = rev (remdups (rev (map cleaned (filter kept (raw_paths r fromFile spec)))))
   \<and> list_all (\<lambda>c. inside c \<or> c = ''..'') (path_candidates r fromFile spec)"
proof -
  have "list_all (\<lambda>c. inside c \<or> c = ''..'') (path_candidates r fromFile spec)"
    using candidates_inside [of r fromFile spec] by (auto simp: clean_candidate_def list_all_iff)
  then show ?thesis unfolding resolveDir_def using resolve_path_exact first_dir_exact candidates_in_order by blast
qed

section \<open>A stylesheet\<close>

definition sass_block :: resolveSpec where
  "sass_block = \<lparr>rs_relation = ''sass_target'', rs_from = ''sass_import'', rs_roots = [''vendor/css''], rs_extensions = [''.scss'', ''.css''],
     rs_partialPrefix = ''_'', rs_indexFiles = [''index''], rs_ownDirFirst = True, rs_dir = False, rs_recursive = False, rs_stripExt = []\<rparr>"

definition sass_files :: "string list" where
  "sass_files = [''app/css/main.scss'', ''app/lib/_grid.scss'', ''vendor/css/grid.css'', ''vendor/css/forms/index.scss'']"

lemma sass_targets:
  "resolve_path sass_block ''app/css/main.scss'' ''../lib/grid'' (fileRank sass_files) = Some (''app/lib/_grid.scss'', 1)"
  "resolve_path sass_block ''app/css/main.scss'' '' forms '' (fileRank sass_files) = Some (''vendor/css/forms/index.scss'', 2)"
  "resolve_path sass_block ''app/css/main.scss'' ''../../../etc/x'' (fileRank sass_files) = None"
  by code_simp+

text \<open>
  A departure: the rank of a hit is not the precedence of its candidate. The first candidate hits, with rank one; and
  two candidates of one reference, the preferred one later in the lexical order, are ranked against their precedence.
\<close>

lemma rank_is_not_precedence:
  "path_candidates sass_block ''app/css/main.scss'' ''../lib/_grid.scss'' ! 0 = ''app/lib/_grid.scss''"
  "resolve_path sass_block ''app/css/main.scss'' ''../lib/_grid.scss'' (fileRank sass_files) = Some (''app/lib/_grid.scss'', 1)"
  "map (fileRank [''app/css/x.css'', ''app/css/x.scss'']) (filter (\<lambda>c. c \<in> {''app/css/x.css'', ''app/css/x.scss''})
     (path_candidates sass_block ''app/css/main.scss'' ''x'')) = [Some 1, Some 0]"
  by code_simp+

text \<open>A departure: a candidate that is the parent of the repository itself is not recognised as leading out of it.\<close>

lemma parent_directory_kept: "''..'' \<in> set (path_candidates (sass_block\<lparr>rs_extensions := []\<rparr>) ''main.scss'' ''..'')"
  by code_simp

end
