(* ===== verification/Pipeline.thy ===== *)
theory Pipeline
  imports Path_Resolution Answers
begin

text \<open>
  The pipeline of frameworks (\<open>internal/factpipe/pipeline/pipeline.go\<close>): how a framework is assembled from its
  blocks and rules, how one framework runs (facts of the graph and of its patterns, the derived blocks, the
  Datalog program, emission) and how the results of all frameworks are merged.

  Arguments stand for what the source takes from elsewhere: the facts that the tree-sitter patterns of a
  framework extract, the configuration values on disk, the rows of artifacts, the registered hubs, and what the
  engine answers about the provenance of a tuple. The frameworks of a run are independent, so running them
  concurrently gives the list of their results.
\<close>

declare fkey_inj [simp del]

section \<open>Frameworks\<close>

record gate =
  ga_package :: string
  ga_versionRange :: string

text \<open>The comparison of versions belongs to a third-party package.\<close>

definition gate_active :: "(string \<Rightarrow> string \<Rightarrow> bool) \<Rightarrow> (string \<rightharpoonup> string) \<Rightarrow> gate \<Rightarrow> bool" where
  "gate_active in_range versions g \<longleftrightarrow>
     ga_package g = [] \<or> (case versions (ga_package g) of None \<Rightarrow> False | Some v \<Rightarrow> ga_versionRange g = [] \<or> in_range v (ga_versionRange g))"

record framework =
  fw_name :: string
  fw_language :: string
  fw_gate :: gate
  fw_hasFacts :: bool
  fw_rules :: program
  fw_emits :: "compiledEmit list"
  fw_resolves :: "resolveSpec list"
  fw_configs :: "configSpec list"
  fw_tables :: "tableSpec list"
  fw_hubs :: "string list"
  fw_derives :: "deriveSpec list"
  fw_goals :: "string list"

text \<open>The decoded document of a framework and its rule text.\<close>

record frameworkDoc =
  fd_name :: string
  fd_dir :: string
  fd_language :: string
  fd_gate :: gate
  fd_hasFacts :: bool
  fd_emit :: "emitSpec list"
  fd_resolve :: "resolveSpec list"
  fd_config :: "configSpec list"
  fd_table :: "tableSpec list"
  fd_hub :: "string list"
  fd_derive :: "deriveSpec list"
  fd_rulePath :: string
  fd_rules :: string

datatype pipeError = PNoEmit | PEmit "string \<times> emitError" | PBlock blockError | PRules dl_error | PNoFacts | PEval dl_error

definition emit_goals :: "compiledEmit list \<Rightarrow> string list" where
  "emit_goals es = rev (remdups (rev (map emit_relation es)))"

definition loadFramework :: "hubs \<Rightarrow> (string \<Rightarrow> bool) \<Rightarrow> frameworkDoc \<Rightarrow> pipeError + framework" where
  "loadFramework reg known d =
     (if fd_emit d = [] then Inl PNoEmit
      else bindE (wrapE PEmit (CompileEmitSpecs (fd_emit d))) (\<lambda>emits.
        bindE (wrapE PBlock (CompileResolveSpecs (fd_resolve d))) (\<lambda>resolves.
        bindE (wrapE PBlock (CompileConfigSpecs (fd_config d))) (\<lambda>configs.
        bindE (wrapE PBlock (CompileTableSpecs known (fd_table d))) (\<lambda>tables.
        bindE (wrapE PBlock (CompileHubSpecs reg (fd_hub d))) (\<lambda>hs.
        bindE (wrapE PBlock (CompileDeriveSpecs (fd_derive d))) (\<lambda>derives.
        bindE (wrapE PRules (Compile (fd_rules d) (fd_rulePath d))) (\<lambda>prog.
          Inr \<lparr>fw_name = fd_name d, fw_language = (if fd_language d = [] then path_base (fd_dir d) else fd_language d),
            fw_gate = fd_gate d, fw_hasFacts = fd_hasFacts d, fw_rules = prog, fw_emits = emits, fw_resolves = resolves,
            fw_configs = configs, fw_tables = tables, fw_hubs = hs, fw_derives = derives, fw_goals = emit_goals emits\<rparr>))))))))"

definition ByName :: "framework list \<Rightarrow> string \<Rightarrow> framework option" where
  "ByName reg name = find (\<lambda>fw. fw_name fw = name) reg"

text \<open>Of two dependencies of one name the last one gives the version.\<close>

definition Active :: "(string \<Rightarrow> string \<Rightarrow> bool) \<Rightarrow> framework list \<Rightarrow> (string \<times> string) list \<Rightarrow> framework list" where
  "Active in_range reg svcDeps = filter (\<lambda>fw. gate_active in_range (map_of (rev svcDeps)) (fw_gate fw)) reg"

section \<open>Facts as relations\<close>

definition indexByPred :: "fact list \<Rightarrow> (string \<times> fact list) list" where
  "indexByPred fs = fold (\<lambda>f idx. AList.update (fc_pred f) ((case map_of idx (fc_pred f) of Some gs \<Rightarrow> gs | None \<Rightarrow> []) @ [f]) idx) fs []"

definition indexed :: "(string \<times> 'a list) list \<Rightarrow> string \<Rightarrow> 'a list" where
  "indexed idx p = (case map_of idx p of Some xs \<Rightarrow> xs | None \<Rightarrow> [])"

definition buildBaseTuples :: "(string \<times> fact list) list \<Rightarrow> (string \<times> tuple list) list" where
  "buildBaseTuples idx = map (\<lambda>(p, fs). (p, map tuple_of fs)) idx"

definition add_fact :: "fact \<Rightarrow> factRelations \<Rightarrow> factRelations" where
  "add_fact f fr = Add (fc_pred f) [tuple_of f] fr"

definition declare_missing :: "string list \<Rightarrow> string set \<Rightarrow> factRelations \<Rightarrow> factRelations" where
  "declare_missing rels present fr = fold (\<lambda>rel fr. if rel \<in> present then fr else Declare rel fr) rels fr"

definition factRelations_of :: "framework \<Rightarrow> fact list \<Rightarrow> factRelations" where
  "factRelations_of fw fs =
     declare_missing (pr_base (fw_rules fw)) (set (map fc_pred fs)) (fold add_fact fs (NewFactRelations (fw_goals fw)))"

definition add_base :: "(string \<times> tuple list) list \<Rightarrow> string \<Rightarrow> factRelations \<Rightarrow> factRelations" where
  "add_base baseTuples p fr = (if indexed baseTuples p \<noteq> [] then Add p (indexed baseTuples p) fr else fr)"

definition factRelationsWithBase ::
  "framework \<Rightarrow> fact list \<Rightarrow> nat \<Rightarrow> string list \<Rightarrow> (string \<times> tuple list) list \<Rightarrow> factRelations" where
  "factRelationsWithBase fw fs n preds baseTuples =
     declare_missing (pr_base (fw_rules fw)) ({p \<in> set preds. indexed baseTuples p \<noteq> []} \<union> set (map fc_pred (drop n fs)))
       (fold add_fact (drop n fs) (fold (add_base baseTuples) preds (NewFactRelations (fw_goals fw))))"

definition frameworkKeepSet :: "framework \<Rightarrow> string list" where
  "frameworkKeepSet fw =
     pr_base (fw_rules fw) @ map rs_from (fw_resolves fw) @ map cs_from (fw_configs fw)
     @ filter (\<lambda>a. a \<noteq> []) (map tb_against (fw_tables fw)) @ (if fw_derives fw \<noteq> [] then [''node_meta''] else [])"

section \<open>One framework\<close>

record pipeInputs =
  pi_keys :: "node \<Rightarrow> string list"
  pi_extracted :: "string \<Rightarrow> fact list"
  pi_config :: "string \<Rightarrow> configValues"
  pi_artifact :: artifactRows
  pi_hubs :: hubs
  pi_provenance :: "engine \<Rightarrow> provenance"

text \<open>The facts a framework adds to those it has copied: of its patterns, and of its blocks in their order.\<close>

definition apply_blocks :: "pipeInputs \<Rightarrow> framework \<Rightarrow> snapshot \<Rightarrow> factSet \<Rightarrow> factSet" where
  "apply_blocks pin fw sn fs =
     ApplyDerive (fw_derives fw) (ApplyHub (pi_hubs pin) (fw_hubs fw) sn (ApplyTable (pi_artifact pin) (fw_tables fw) (sn_servicePath sn)
       (ApplyConfig (pi_config pin) (fw_configs fw) (sn_servicePath sn) (ApplyResolves (fw_resolves fw) (sn_files sn) fs))))"

definition applyMatches :: "pipeInputs \<Rightarrow> framework \<Rightarrow> factSet \<Rightarrow> pipeError + factSet" where
  "applyMatches pin fw fs =
     (if \<not> fw_hasFacts fw \<and> fw_hubs fw = [] then Inl PNoFacts else Inr (add_facts (pi_extracted pin (fw_name fw)) fs))"

definition append_result :: "emitResult \<Rightarrow> emitResult \<Rightarrow> emitResult" where
  "append_result r er = \<lparr>em_edges = em_edges r @ em_edges er, em_nodes = em_nodes r @ em_nodes er,
     em_unresolved = em_unresolved r @ em_unresolved er, em_ledger = em_ledger r @ em_ledger er,
     em_replaced = em_replaced r ++ em_replaced er, em_deleted = em_deleted r @ em_deleted er,
     em_patches = em_patches r @ em_patches er, em_resolved = em_resolved r @ em_resolved er\<rparr>"

definition goal_rows :: "(string \<times> tuple list) list \<Rightarrow> string \<Rightarrow> tuple list" where
  "goal_rows drv rel = (case map_of drv rel of Some ts \<Rightarrow> ts | None \<Rightarrow> [])"

definition emit_blocks :: "compiledEmit list \<Rightarrow> (string \<times> tuple list) list \<Rightarrow> provenance \<Rightarrow> emitResult" where
  "emit_blocks es drv prov =
     fold (\<lambda>e r. append_result r (Apply e (goal_rows drv (emit_relation e)) (Some prov))) es no_result"

definition keep_preds :: "framework \<Rightarrow> string list" where
  "keep_preds fw = sort (remdups (frameworkKeepSet fw))"

definition copy_base :: "(string \<times> fact list) list \<Rightarrow> string list \<Rightarrow> factSet" where
  "copy_base baseIndex preds = fold (\<lambda>p. add_facts (indexed baseIndex p)) preds NewFactSet"

definition runFramework ::
  "nat \<Rightarrow> pipeInputs \<Rightarrow> framework \<Rightarrow> (string \<times> fact list) list \<Rightarrow> (string \<times> tuple list) list \<Rightarrow> snapshot \<Rightarrow> pipeError + emitResult" where
  "runFramework fuel pin fw baseIndex baseTuples sn =
     (let preds = keep_preds fw; fset = copy_base baseIndex preds; n = fs_len fset in
      bindE (applyMatches pin fw fset) (\<lambda>fset1.
        let fr = factRelationsWithBase fw (fs_all (apply_blocks pin fw sn fset1)) n preds baseTuples in
        bindE (wrapE PEval (Eval_program fuel (fw_rules fw) fr)) (\<lambda>(drv, e).
          Inr (emit_blocks (fw_emits fw) drv (pi_provenance pin e)))))"

text \<open>The introspection of one framework: its patterns run on their own and every fact of the graph is copied.\<close>

definition EvalOnce :: "nat \<Rightarrow> pipeInputs \<Rightarrow> framework \<Rightarrow> snapshot \<Rightarrow> string list \<Rightarrow> pipeError + (string \<times> tuple list) list" where
  "EvalOnce fuel pin fw sn extraGoals =
     bindE (applyMatches pin fw (GraphFacts (pi_keys pin) sn NewFactSet)) (\<lambda>fset.
       let fr = factRelations_of fw (fs_all (apply_blocks pin fw sn fset)) in
       map_sum PEval fst (Eval_program fuel (fw_rules fw) (fr\<lparr>fr_goals := fr_goals fr @ extraGoals\<rparr>)))"

section \<open>All frameworks\<close>

definition stampService :: "string \<Rightarrow> unresolvedRef list \<Rightarrow> unresolvedRef list" where
  "stampService svc us = map (\<lambda>u. if ur_service u = [] then u\<lparr>ur_service := svc\<rparr> else u) us"

definition run_unresolved_key :: "unresolvedRef \<Rightarrow> string \<times> string \<times> string \<times> string \<times> int" where
  "run_unresolved_key u = (ur_kind u, ur_name u, ur_service u, ur_file u, ur_line u)"

definition merge_result :: "string \<Rightarrow> emitResult \<Rightarrow> emitResult \<Rightarrow> emitResult" where
  "merge_result svc r res =
     (append_result res (r\<lparr>em_nodes := [], em_unresolved := stampService svc (em_unresolved r), em_ledger := stampService svc (em_ledger r)\<rparr>))
       \<lparr>em_nodes := em_nodes (fold add_node (em_nodes r) res)\<rparr>"

definition sort_run :: "emitResult \<Rightarrow> emitResult" where
  "sort_run res = res\<lparr>em_edges := sort_key ed_id (em_edges res), em_nodes := sort_key nd_id (em_nodes res),
     em_unresolved := sort_key run_unresolved_key (em_unresolved res), em_ledger := sort_key run_unresolved_key (em_ledger res),
     em_deleted := dedupStrings (sort (em_deleted res)), em_patches := sort_key np_id (em_patches res),
     em_resolved := dedupStrings (sort (em_resolved res))\<rparr>"

text \<open>The first framework that fails gives the error of the run, with its name.\<close>

fun merge_all :: "string \<Rightarrow> (string \<times> (pipeError + emitResult)) list \<Rightarrow> emitResult \<Rightarrow> (string \<times> pipeError) + emitResult" where
  "merge_all svc [] res = Inr res"
| "merge_all svc ((name, r) # rs) res = bindE (wrapE (Pair name) r) (\<lambda>er. merge_all svc rs (merge_result svc er res))"

definition run_service :: "snapshot \<Rightarrow> string" where
  "run_service sn = (case sn_nodes sn of [] \<Rightarrow> [] | n # _ \<Rightarrow> nd_service n)"

definition Run_pipeline :: "nat \<Rightarrow> pipeInputs \<Rightarrow> framework list \<Rightarrow> snapshot \<Rightarrow> (string \<times> pipeError) + emitResult" where
  "Run_pipeline fuel pin fws sn =
     (let base = GraphFacts (pi_keys pin) sn NewFactSet; baseIndex = indexByPred (fs_all base); baseTuples = buildBaseTuples baseIndex in
      bindE (merge_all (run_service sn) (map (\<lambda>fw. (fw_name fw, runFramework fuel pin fw baseIndex baseTuples sn)) fws) no_result)
        (\<lambda>res. Inr (sort_run res)))"

end
