(* ===== verification/Pipeline_Props.thy ===== *)
theory Pipeline_Props
  imports Pipeline Bridge_Props Emit_Props
begin

text \<open>
  The pipeline is right to take its shortcuts, and its parts fit together: the facts that are copied for a
  framework are all that its blocks and rules read, converting them once for all frameworks gives the same
  relations, and the edges of a run are those of the perfect model of the framework's rules over these facts.
\<close>

section \<open>The index by predicates\<close>

definition of_pred :: "string \<Rightarrow> fact list \<Rightarrow> fact list" where
  "of_pred p fs = filter (\<lambda>f. fc_pred f = p) fs"

lemma of_pred_append [simp]: "of_pred p (fs @ gs) = of_pred p fs @ of_pred p gs"
  by (simp add: of_pred_def)

lemma of_pred_in: "f \<in> set (of_pred p fs) \<Longrightarrow> fc_pred f = p"
  by (simp add: of_pred_def)

lemma pred_of_pred: "q \<in> fc_pred ` set (of_pred p fs) \<longleftrightarrow> q = p \<and> of_pred p fs \<noteq> []"
proof -
  have "fc_pred ` set gs = (if gs = [] then {} else {p})" if "\<And>g. g \<in> set gs \<Longrightarrow> fc_pred g = p" for gs
    using that by (cases gs) auto
  from this [of "of_pred p fs"] show ?thesis using of_pred_in by (auto split: if_splits)
qed

lemma relation_of_pred: "relation_of p fs = map tuple_of (of_pred p fs)"
  by (simp add: relation_of_def of_pred_def)

lemma indexed_update: "indexed (AList.update q xs idx) p = (if p = q then xs else indexed idx p)"
  by (simp add: indexed_def update_conv')

lemma indexed_fold:
  "indexed (fold (\<lambda>f idx. AList.update (fc_pred f) ((case map_of idx (fc_pred f) of Some gs \<Rightarrow> gs | None \<Rightarrow> []) @ [f]) idx) fs idx) p
     = indexed idx p @ of_pred p fs"
proof (induction fs arbitrary: idx)
  case Nil
  then show ?case by (simp add: of_pred_def)
next
  case (Cons f fs)
  have "indexed (AList.update (fc_pred f) ((case map_of idx (fc_pred f) of Some gs \<Rightarrow> gs | None \<Rightarrow> []) @ [f]) idx) p
      = indexed idx p @ (if fc_pred f = p then [f] else [])"
    by (simp add: indexed_update) (simp add: indexed_def)
  then show ?case by (simp add: Cons.IH of_pred_def)
qed

lemma indexByPred_exact: "indexed (indexByPred fs) p = of_pred p fs"
  by (simp add: indexByPred_def indexed_fold) (simp add: indexed_def)

lemma indexed_tuples: "indexed (buildBaseTuples idx) p = map tuple_of (indexed idx p)"
proof -
  have "map_of (buildBaseTuples idx) p = map_option (map tuple_of) (map_of idx p)"
    by (induction idx) (auto simp: buildBaseTuples_def)
  then show ?thesis by (simp add: indexed_def split: option.split)
qed

section \<open>Converting once\<close>

lemma Add_twice: "Add rel us (Add rel ts fr) = Add rel (ts @ us) fr"
  by (simp add: Add_def update_conv')

lemma fold_add_same:
  "(\<And>f. f \<in> set fs \<Longrightarrow> fc_pred f = p) \<Longrightarrow> fs \<noteq> [] \<Longrightarrow> fold add_fact fs fr = Add p (map tuple_of fs) fr"
proof (induction fs arbitrary: fr)
  case Nil
  then show ?case by simp
next
  case (Cons f fs)
  show ?case
  proof (cases "fs = []")
    case True
    then show ?thesis using Cons.prems by (simp add: add_fact_def)
  next
    case False
    then have "fold add_fact fs (add_fact f fr) = Add p (map tuple_of fs) (add_fact f fr)" using Cons.prems by (intro Cons.IH) simp_all
    moreover have "add_fact f fr = Add p [tuple_of f] fr" using Cons.prems(1) [of f] by (simp add: add_fact_def)
    ultimately show ?thesis by (simp add: Add_twice)
  qed
qed

lemma add_base_facts:
  "add_base (buildBaseTuples (indexByPred base)) p fr = fold add_fact (of_pred p base) fr"
  using fold_add_same [of "of_pred p base" p fr] of_pred_in
  by (cases "of_pred p base = []") (auto simp: add_base_def indexed_tuples indexByPred_exact)

definition copied :: "fact list \<Rightarrow> string list \<Rightarrow> fact list" where
  "copied base preds = concat (map (\<lambda>p. of_pred p base) preds)"

lemma copy_base_all: "fs_all (copy_base (indexByPred base) preds) = copied base preds"
proof -
  have "fs_all (fold (\<lambda>p. add_facts (indexed (indexByPred base) p)) preds s) = fs_all s @ copied base preds" for s
    by (induction preds arbitrary: s) (simp_all add: copied_def indexByPred_exact)
  then show ?thesis by (simp add: copy_base_def)
qed

lemma fs_len_all: "fs_len s = length (fs_all s)"
  by (simp add: fs_len_def fs_all_def)

text \<open>The fast path builds the relations that converting every fact would build.\<close>

lemma fast_relations:
  "factRelationsWithBase fw (copied base preds @ own) (length (copied base preds)) preds (buildBaseTuples (indexByPred base))
     = factRelations_of fw (copied base preds @ own)"
proof -
  have "fold (add_base (buildBaseTuples (indexByPred base))) preds fr = fold add_fact (copied base preds) fr" for fr
    by (induction preds arbitrary: fr) (simp_all add: add_base_facts copied_def)
  moreover have "{p \<in> set preds. indexed (buildBaseTuples (indexByPred base)) p \<noteq> []} = set (map fc_pred (copied base preds))"
  proof -
    have "set (map fc_pred (copied base preds)) = (\<Union>p \<in> set preds. fc_pred ` set (of_pred p base))" by (auto simp: copied_def)
    also have "\<dots> = {p \<in> set preds. of_pred p base \<noteq> []}"
    proof (rule set_eqI)
      fix q
      have "q \<in> fc_pred ` set (of_pred p base) \<longleftrightarrow> q = p \<and> of_pred p base \<noteq> []" for p by (rule pred_of_pred)
      then show "q \<in> (\<Union>p \<in> set preds. fc_pred ` set (of_pred p base)) \<longleftrightarrow> q \<in> {p \<in> set preds. of_pred p base \<noteq> []}" by auto
    qed
    finally show ?thesis by (simp add: indexed_tuples indexByPred_exact)
  qed
  ultimately show ?thesis by (simp add: factRelationsWithBase_def factRelations_of_def)
qed

section \<open>What a framework reads\<close>

text \<open>Two lists of facts that agree on some predicates.\<close>

definition agree :: "string set \<Rightarrow> fact list \<Rightarrow> fact list \<Rightarrow> bool" where
  "agree K fs gs \<longleftrightarrow> (\<forall>p \<in> K. of_pred p fs = of_pred p gs)"

lemma agree_append: "agree K fs gs \<Longrightarrow> agree K (fs @ hs) (gs @ hs)"
  by (simp add: agree_def)

lemma agreeD: "agree K fs gs \<Longrightarrow> p \<in> K \<Longrightarrow> of_pred p fs = of_pred p gs"
  by (simp add: agree_def)

lemma copied_agrees:
  assumes "distinct preds"
  shows "agree (set preds) (copied base preds) base"
  unfolding agree_def
proof
  fix p
  assume "p \<in> set preds"
  then obtain as bs where split: "preds = as @ p # bs" by (meson split_list)
  have other: "of_pred p (of_pred q base) = (if p = q then of_pred p base else [])" for q
    by (auto simp: of_pred_def filter_empty_conv)
  have none: "p \<notin> set qs \<Longrightarrow> of_pred p (copied base qs) = []" for qs
  proof (induction qs)
    case Nil
    then show ?case by (simp add: copied_def of_pred_def)
  next
    case (Cons q qs)
    then show ?case using other [of q] by (simp add: copied_def)
  qed
  have "p \<notin> set as" "p \<notin> set bs" using assms split by auto
  then show "of_pred p (copied base preds) = of_pred p base"
    using none [of as] none [of bs] other [of p] unfolding split by (simp add: copied_def)
qed

lemma reads_from_pred: "filter (reads_from p n) fs = filter (\<lambda>f. length (fc_args f) \<ge> n) (of_pred p fs)"
  by (induction fs) (simp_all add: reads_from_def of_pred_def)

lemma resolve_facts_agree:
  assumes "agree K fs gs" "rs_from ` set rs \<subseteq> K"
  shows "resolve_facts rs files fs = resolve_facts rs files gs"
proof -
  have "of_pred (rs_from r) fs = of_pred (rs_from r) gs" if "r \<in> set rs" for r using assms that by (intro agreeD) auto
  then show ?thesis unfolding resolve_facts_def reads_from_pred by (intro arg_cong [where f = concat] map_cong) simp_all
qed

lemma config_facts_agree:
  assumes "agree K fs gs" "cs_from ` set cs \<subseteq> K"
  shows "config_facts vals cs fs = config_facts vals cs gs"
proof -
  have "of_pred (cs_from c) fs = of_pred (cs_from c) gs" if "c \<in> set cs" for c using assms that by (intro agreeD) auto
  then show ?thesis unfolding config_facts_def reads_from_pred by (intro arg_cong [where f = concat] map_cong) simp_all
qed

lemma known_args_pred: "known_args t fs = map (\<lambda>f. at_str (fc_args f ! tb_againstArg t))
    (filter (\<lambda>f. tb_againstArg t < length (fc_args f) \<and> at_kind (fc_args f ! tb_againstArg t) = AtomStr) (of_pred (tb_against t) fs))"
  by (simp add: known_args_def of_pred_def conj_commute conj_left_commute)

lemma table_facts_agree:
  "agree K fs gs \<Longrightarrow> tb_rows t \<noteq> [] \<or> tb_against t \<in> K \<Longrightarrow> table_facts art svc t fs = table_facts art svc t gs"
  by (auto simp: table_facts_def known_args_pred dest: agreeD)

lemma derive_facts_agree:
  assumes "agree K fs gs" "ds = [] \<or> ''node_meta'' \<in> K"
  shows "derive_facts ds fs = derive_facts ds gs"
proof (cases "ds = []")
  case True
  then show ?thesis by (simp add: derive_facts_def)
next
  case False
  have cols: "fold note_column hs nm = fold note_column (of_pred ''node_meta'' hs) nm" for hs nm
    by (induction hs arbitrary: nm) (auto simp: of_pred_def note_column_def is_meta_def)
  have "fold note_column fs [] = fold note_column gs []"
    unfolding cols [of fs] cols [of gs] using agreeD [OF assms(1)] assms(2) False by simp
  then show ?thesis by (simp add: derive_facts_def)
qed

text \<open>The facts that the blocks of a framework add, as a function of those before them.\<close>

fun tables_facts :: "artifactRows \<Rightarrow> string \<Rightarrow> tableSpec list \<Rightarrow> fact list \<Rightarrow> fact list" where
  "tables_facts art svc [] fs = []"
| "tables_facts art svc (t # ts) fs = table_facts art svc t fs @ tables_facts art svc ts (fs @ table_facts art svc t fs)"

definition hub_facts :: "hubs \<Rightarrow> string list \<Rightarrow> snapshot \<Rightarrow> fact list" where
  "hub_facts reg hs sn = concat (map (\<lambda>h. case reg h of None \<Rightarrow> [] | Some fn \<Rightarrow> fn sn) hs)"

definition block_facts :: "pipeInputs \<Rightarrow> framework \<Rightarrow> snapshot \<Rightarrow> fact list \<Rightarrow> fact list" where
  "block_facts pin fw sn fs =
     (let r = resolve_facts (fw_resolves fw) (sn_files sn) fs;
          c = (if fw_configs fw = [] \<or> sn_servicePath sn = [] then [] else config_facts (pi_config pin (sn_servicePath sn)) (fw_configs fw) (fs @ r));
          t = tables_facts (pi_artifact pin) (sn_servicePath sn) (fw_tables fw) (fs @ r @ c);
          h = hub_facts (pi_hubs pin) (fw_hubs fw) sn in
      r @ c @ t @ h @ derive_facts (fw_derives fw) (fs @ r @ c @ t @ h))"

lemma ApplyTable_all: "fs_all (ApplyTable art ts svc s) = fs_all s @ tables_facts art svc ts (fs_all s)"
  unfolding ApplyTable_def by (induction ts arbitrary: s) simp_all

lemma ApplyHub_all: "fs_all (ApplyHub reg hs sn s) = fs_all s @ hub_facts reg hs sn"
  unfolding ApplyHub_def by (induction hs arbitrary: s) (simp_all add: hub_facts_def split: option.split)

lemma apply_blocks_all: "fs_all (apply_blocks pin fw sn s) = fs_all s @ block_facts pin fw sn (fs_all s)"
  by (simp add: apply_blocks_def block_facts_def ApplyDerive_def ApplyConfig_def ApplyResolves_def ApplyTable_all ApplyHub_all Let_def)

lemma tables_facts_agree:
  "agree K fs gs \<Longrightarrow> (\<And>t. t \<in> set ts \<Longrightarrow> tb_rows t \<noteq> [] \<or> tb_against t \<in> K) \<Longrightarrow> tables_facts art svc ts fs = tables_facts art svc ts gs"
proof (induction ts arbitrary: fs gs)
  case Nil
  then show ?case by simp
next
  case (Cons t ts)
  have t: "table_facts art svc t fs = table_facts art svc t gs" using table_facts_agree Cons.prems by simp
  have "tables_facts art svc ts (fs @ table_facts art svc t gs) = tables_facts art svc ts (gs @ table_facts art svc t gs)"
    by (rule Cons.IH) (use Cons.prems agree_append in auto)
  then show ?case by (simp add: t)
qed

definition tables_checked :: "framework \<Rightarrow> bool" where
  "tables_checked fw \<longleftrightarrow> (\<forall>t \<in> set (fw_tables fw). tb_rows t \<noteq> [] \<or> tb_against t \<noteq> [])"

lemma block_facts_agree:
  assumes a: "agree (set (frameworkKeepSet fw)) fs gs" and tables: "tables_checked fw"
  shows "block_facts pin fw sn fs = block_facts pin fw sn gs"
proof -
  let ?K = "set (frameworkKeepSet fw)"
  define r where "r = resolve_facts (fw_resolves fw) (sn_files sn) gs"
  define c where "c = (if fw_configs fw = [] \<or> sn_servicePath sn = [] then []
    else config_facts (pi_config pin (sn_servicePath sn)) (fw_configs fw) (gs @ r))"
  define t where "t = tables_facts (pi_artifact pin) (sn_servicePath sn) (fw_tables fw) (gs @ r @ c)"
  have r: "resolve_facts (fw_resolves fw) (sn_files sn) fs = r"
    unfolding r_def by (rule resolve_facts_agree [OF a]) (auto simp: frameworkKeepSet_def)
  have c: "(if fw_configs fw = [] \<or> sn_servicePath sn = [] then []
      else config_facts (pi_config pin (sn_servicePath sn)) (fw_configs fw) (fs @ r)) = c"
    unfolding c_def by (simp, intro impI config_facts_agree [OF agree_append [OF a]]) (auto simp: frameworkKeepSet_def)
  have t: "tables_facts (pi_artifact pin) (sn_servicePath sn) (fw_tables fw) (fs @ r @ c) = t"
    unfolding t_def by (rule tables_facts_agree [OF agree_append [OF a]])
      (use tables in \<open>auto simp: tables_checked_def frameworkKeepSet_def\<close>)
  have d: "derive_facts (fw_derives fw) (fs @ r @ c @ t @ hub_facts (pi_hubs pin) (fw_hubs fw) sn)
      = derive_facts (fw_derives fw) (gs @ r @ c @ t @ hub_facts (pi_hubs pin) (fw_hubs fw) sn)"
    by (rule derive_facts_agree [OF agree_append [OF a]]) (auto simp: frameworkKeepSet_def)
  show ?thesis unfolding block_facts_def Let_def r c t d r_def [symmetric] c_def [symmetric] t_def [symmetric] ..
qed

section \<open>Nothing a framework reads is left behind\<close>

lemma wrapE_Inr [simp]: "wrapE f m = Inr x \<longleftrightarrow> m = Inr x"
  by (cases m) (simp_all add: wrapE_def)

lemma map_sum_InrE: "map_sum f g m = Inr y \<Longrightarrow> (\<And>x. m = Inr x \<Longrightarrow> y = g x \<Longrightarrow> P) \<Longrightarrow> P"
  by (cases m) auto

lemma compile_all_checks: "compile_all check ss = Inr ts \<Longrightarrow> ts = ss \<and> (\<forall>s \<in> set ss. check s = None)"
  by (induction ss arbitrary: ts) (auto split: option.splits elim!: map_sum_InrE)

lemma loaded_framework:
  assumes "loadFramework reg known d = Inr fw"
  shows "tables_checked fw" "fw_goals fw = emit_goals (fw_emits fw)" "CompileEmitSpecs (fd_emit d) = Inr (fw_emits fw)"
    "Compile (fd_rules d) (fd_rulePath d) = Inr (fw_rules fw)"
proof -
  from assms obtain ts where ts: "compile_all (check_table known) (fd_table d) = Inr ts" "fw_tables fw = ts"
      and "fw_goals fw = emit_goals (fw_emits fw)" "wrapE PEmit (CompileEmitSpecs (fd_emit d)) = Inr (fw_emits fw)"
      "wrapE PRules (Compile (fd_rules d) (fd_rulePath d)) = Inr (fw_rules fw)"
    unfolding loadFramework_def by (auto simp: CompileTableSpecs_def split: if_splits)
  then show "fw_goals fw = emit_goals (fw_emits fw)" "CompileEmitSpecs (fd_emit d) = Inr (fw_emits fw)"
    "Compile (fd_rules d) (fd_rulePath d) = Inr (fw_rules fw)"
    by simp_all
  show "tables_checked fw" unfolding tables_checked_def
  proof
    fix t
    assume "t \<in> set (fw_tables fw)"
    then have "check_table known t = None" using compile_all_checks [OF ts(1)] ts(2) by auto
    then show "tb_rows t \<noteq> [] \<or> tb_against t \<noteq> []" by (auto simp: check_table_def split: if_splits)
  qed
qed

text \<open>The facts of a run of one framework, when it copies what it keeps and when it copies everything.\<close>

definition kept_facts :: "pipeInputs \<Rightarrow> framework \<Rightarrow> snapshot \<Rightarrow> fact list" where
  "kept_facts pin fw sn =
     (let fs = copied (graph_facts (pi_keys pin) sn) (keep_preds fw) @ pi_extracted pin (fw_name fw) in fs @ block_facts pin fw sn fs)"

definition all_facts :: "pipeInputs \<Rightarrow> framework \<Rightarrow> snapshot \<Rightarrow> fact list" where
  "all_facts pin fw sn =
     (let fs = graph_facts (pi_keys pin) sn @ pi_extracted pin (fw_name fw) in fs @ block_facts pin fw sn fs)"

lemma keep_preds_facts: "distinct (keep_preds fw)" "set (keep_preds fw) = set (frameworkKeepSet fw)"
  by (simp_all add: keep_preds_def)

lemma kept_agrees:
  assumes "tables_checked fw"
  shows "agree (set (frameworkKeepSet fw)) (kept_facts pin fw sn) (all_facts pin fw sn)"
proof -
  let ?base = "graph_facts (pi_keys pin) sn" and ?ext = "pi_extracted pin (fw_name fw)"
  have a: "agree (set (frameworkKeepSet fw)) (copied ?base (keep_preds fw) @ ?ext) (?base @ ?ext)"
    using agree_append [OF copied_agrees [OF keep_preds_facts(1)]] unfolding keep_preds_facts(2) .
  have "block_facts pin fw sn (copied ?base (keep_preds fw) @ ?ext) = block_facts pin fw sn (?base @ ?ext)"
    by (rule block_facts_agree [OF a assms])
  then show ?thesis unfolding kept_facts_def all_facts_def Let_def using agree_append [OF a] by simp
qed

lemma GraphFacts_all: "fs_all (GraphFacts ks sn NewFactSet) = graph_facts ks sn"
  by (simp add: GraphFacts_def)

text \<open>A run evaluates the program over the relations of the facts it keeps.\<close>

lemma runFramework_facts:
  "runFramework fuel pin fw (indexByPred (graph_facts (pi_keys pin) sn)) (buildBaseTuples (indexByPred (graph_facts (pi_keys pin) sn))) sn
     = (if \<not> fw_hasFacts fw \<and> fw_hubs fw = [] then Inl PNoFacts
        else bindE (wrapE PEval (Eval_program fuel (fw_rules fw) (factRelations_of fw (kept_facts pin fw sn))))
          (\<lambda>(rows, e). Inr (emit_blocks (fw_emits fw) rows (pi_provenance pin e))))"
proof -
  let ?base = "graph_facts (pi_keys pin) sn" and ?ext = "pi_extracted pin (fw_name fw)"
  let ?fs = "copied ?base (keep_preds fw) @ ?ext"
  have all: "fs_all (apply_blocks pin fw sn (add_facts ?ext (copy_base (indexByPred ?base) (keep_preds fw)))) = ?fs @ block_facts pin fw sn ?fs"
    by (simp add: apply_blocks_all copy_base_all)
  have "factRelationsWithBase fw (?fs @ block_facts pin fw sn ?fs) (length (copied ?base (keep_preds fw))) (keep_preds fw)
      (buildBaseTuples (indexByPred ?base)) = factRelations_of fw (kept_facts pin fw sn)"
    using fast_relations [of fw ?base "keep_preds fw" "?ext @ block_facts pin fw sn ?fs"] by (simp add: kept_facts_def Let_def)
  then show ?thesis by (simp add: runFramework_def applyMatches_def Let_def all fs_len_all copy_base_all)
qed

text \<open>The relations of some facts, as the program receives them.\<close>

lemma rels_add_fact: "map_of (fr_rels (add_fact f fr)) p
    = (if p = fc_pred f then Some ((case map_of (fr_rels fr) p of Some us \<Rightarrow> us | None \<Rightarrow> []) @ [tuple_of f]) else map_of (fr_rels fr) p)"
  by (simp add: add_fact_def Add_def update_conv')

lemma rels_fold: "indexed (fr_rels (fold add_fact fs fr)) p = indexed (fr_rels fr) p @ relation_of p fs"
proof (induction fs arbitrary: fr)
  case Nil
  then show ?case by simp
next
  case (Cons f fs)
  have "indexed (fr_rels (add_fact f fr)) p = indexed (fr_rels fr) p @ (if fc_pred f = p then [tuple_of f] else [])"
    by (simp add: indexed_def rels_add_fact)
  then show ?case by (simp add: Cons.IH)
qed

lemma rels_declare: "indexed (fr_rels (declare_missing rels present fr)) p = indexed (fr_rels fr) p"
proof -
  have "indexed (fr_rels (Declare rel fr)) p = indexed (fr_rels fr) p" for rel fr
    by (simp add: Declare_def indexed_def map_add_def split: option.split)
  then show ?thesis unfolding declare_missing_def by (induction rels arbitrary: fr) auto
qed

lemma factRelations_goals: "fr_goals (factRelations_of fw fs) = fw_goals fw"
proof -
  have "fr_goals (fold add_fact fs fr) = fr_goals fr" for fr by (induction fs arbitrary: fr) (simp_all add: add_fact_def Add_def)
  moreover have "fr_goals (declare_missing rels pres fr) = fr_goals fr" for rels pres fr
    unfolding declare_missing_def by (induction rels arbitrary: fr) (simp_all add: Declare_def)
  ultimately show ?thesis by (simp add: factRelations_of_def NewFactRelations_def)
qed

lemma relations_exact: "indexed (fr_rels (factRelations_of fw fs)) p = relation_of p fs"
  unfolding factRelations_of_def rels_declare rels_fold by (simp add: indexed_def NewFactRelations_def)

text \<open>
  C27: nothing that a framework reads is left behind. Copying for a framework only the facts of the relations
  that its rules and blocks name, and converting them to tuples once for all frameworks, gives every relation
  of the keep set exactly the tuples that it has when all the facts of the graph are copied, the tuples that the
  blocks derive from them included.
\<close>

theorem keep_set_suffices:
  assumes "loadFramework reg known d = Inr fw"
  shows "\<exists>fr. runFramework fuel pin fw (indexByPred (graph_facts (pi_keys pin) sn)) (buildBaseTuples (indexByPred (graph_facts (pi_keys pin) sn))) sn
       = (if \<not> fw_hasFacts fw \<and> fw_hubs fw = [] then Inl PNoFacts
          else bindE (wrapE PEval (Eval_program fuel (fw_rules fw) fr)) (\<lambda>(rows, e). Inr (emit_blocks (fw_emits fw) rows (pi_provenance pin e))))
     \<and> fr_goals fr = fr_goals (factRelations_of fw (all_facts pin fw sn))
     \<and> (\<forall>p \<in> set (pr_base (fw_rules fw)). indexed (fr_rels fr) p = indexed (fr_rels (factRelations_of fw (all_facts pin fw sn))) p)"
proof (intro exI conjI ballI)
  show "runFramework fuel pin fw (indexByPred (graph_facts (pi_keys pin) sn)) (buildBaseTuples (indexByPred (graph_facts (pi_keys pin) sn))) sn
       = (if \<not> fw_hasFacts fw \<and> fw_hubs fw = [] then Inl PNoFacts
          else bindE (wrapE PEval (Eval_program fuel (fw_rules fw) (factRelations_of fw (kept_facts pin fw sn))))
            (\<lambda>(rows, e). Inr (emit_blocks (fw_emits fw) rows (pi_provenance pin e))))" by (rule runFramework_facts)
  show "fr_goals (factRelations_of fw (kept_facts pin fw sn)) = fr_goals (factRelations_of fw (all_facts pin fw sn))"
    by (simp add: factRelations_goals)
  fix p
  assume "p \<in> set (pr_base (fw_rules fw))"
  then have "p \<in> set (frameworkKeepSet fw)" by (simp add: frameworkKeepSet_def)
  then have "of_pred p (kept_facts pin fw sn) = of_pred p (all_facts pin fw sn)"
    by (rule agreeD [OF kept_agrees [OF loaded_framework(1) [OF assms]]])
  then show "indexed (fr_rels (factRelations_of fw (kept_facts pin fw sn))) p = indexed (fr_rels (factRelations_of fw (all_facts pin fw sn))) p"
    unfolding relations_exact relation_of_pred by simp
qed

section \<open>A framework means its perfect model\<close>

lemma rels_distinct: "distinct (map fst (fr_rels (factRelations_of fw fs)))"
proof -
  have "distinct (map fst (fr_rels (Declare rel fr)))" if "distinct (map fst (fr_rels fr))" for rel fr
    using that by (auto simp: Declare_def map_of_eq_None_iff)
  then have "distinct (map fst (fr_rels fr)) \<Longrightarrow> distinct (map fst (fr_rels (declare_missing rels pres fr)))" for rels pres fr
    unfolding declare_missing_def by (induction rels arbitrary: fr) auto
  moreover have "distinct (map fst (fr_rels fr)) \<Longrightarrow> distinct (map fst (fr_rels (fold add_fact fs fr)))" for fr
    by (induction fs arbitrary: fr) (simp_all add: add_fact_def Add_def distinct_update)
  ultimately show ?thesis by (simp add: factRelations_of_def NewFactRelations_def)
qed

lemma given_indexed:
  assumes "distinct (map fst rels)"
  shows "given rels p = map canon ` set (indexed rels p)"
proof (cases "map_of rels p")
  case None
  then have "p \<notin> fst ` set rels" by (simp add: map_of_eq_None_iff)
  then have "\<forall>(r, us) \<in> set rels. r \<noteq> p" by force
  then have "given rels p = {}" unfolding given_def by auto
  then show ?thesis using None by (simp add: indexed_def)
next
  case (Some ts)
  have only: "(p, us) \<in> set rels \<longleftrightarrow> us = ts" for us
    using Some assms by (metis map_of_SomeD map_of_is_SomeI option.inject)
  have "x \<in> given rels p \<longleftrightarrow> (\<exists>us. (p, us) \<in> set rels \<and> x \<in> map canon ` set us)" for x
  proof
    assume "\<exists>us. (p, us) \<in> set rels \<and> x \<in> map canon ` set us"
    then obtain us where "(p, us) \<in> set rels" "x \<in> map canon ` set us" by blast
    then show "x \<in> given rels p" unfolding given_def by (intro UN_I [of "(p, us)"]) simp_all
  qed (auto simp: given_def split: if_splits)
  then have "given rels p = map canon ` set ts" unfolding only by (intro set_eqI) simp
  then show ?thesis using Some by (simp add: indexed_def)
qed

lemma append_edges: "em_edges (append_result r er) = em_edges r @ em_edges er"
  by (simp add: append_result_def)

lemma goal_rows_in:
  assumes "map fst res = goals" "g \<in> set goals"
  shows "(g, goal_rows res g) \<in> set res"
proof -
  have "map_of res g \<noteq> None" using assms by (auto simp: map_of_eq_None_iff)
  then show ?thesis by (auto simp: goal_rows_def dest: map_of_SomeD)
qed

lemma emit_goals_set: "set (emit_goals es) = emit_relation ` set es"
  by (simp add: emit_goals_def)


text \<open>
  C26: a framework means its perfect model. When a framework runs whose rules bind the variables of a negated literal
  by earlier literals of the same body, and whose facts and constants fit the symbol table, the engine holds exactly
  the facts of the graph, of its patterns and of its blocks, its rules have a perfect model over them, and the
  result is what the emit blocks yield on exactly the tuples that their relations have in that model. The condition on
  negation is not checked when rules are loaded (\<open>Loading.unordered_negation_accepted\<close>). Of the rule files under
  \<open>rules/\<close> all but \<open>ruby/rails_route_actions.dl\<close> meet it; two rules of that one begin with a negation
  whose variable is bound only later, and the theorem says nothing about a framework that loads it.
\<close>

theorem framework_run_exact:
  assumes load: "loadFramework reg known d = Inr fw"
    and run: "runFramework (Suc n) pin fw (indexByPred (graph_facts (pi_keys pin) sn)) (buildBaseTuples (indexByPred (graph_facts (pi_keys pin) sn))) sn = Inr r"
    and parse: "parseRules (fd_rules d) (fd_rulePath d) = Inr rules" and neg: "\<forall>rl \<in> set rules. neg_ordered rl"
    and room: "fact_width (fr_rels (factRelations_of fw (kept_facts pin fw sn))) + length (rule_constants rules) \<le> 2 ^ 31"
  shows "\<exists>e' M rows. map erase (en_ruleOrder e') = map erase rules
     \<and> (\<forall>p. named_facts e' p = map canon ` set (relation_of p (kept_facts pin fw sn)))
     \<and> perfect_model (en_ruleOrder e') (facts e') (en_syms e') M
     \<and> (\<forall>b \<in> set (fw_emits fw). answers e' M (emit_relation b) (rows (emit_relation b)))
     \<and> r = fold (\<lambda>b res. append_result res (Apply b (rows (emit_relation b)) (Some (pi_provenance pin e')))) (fw_emits fw) no_result"
proof -
  let ?fr = "factRelations_of fw (kept_facts pin fw sn)"
  from run obtain rows e' where ev: "Eval_program (Suc n) (fw_rules fw) ?fr = Inr (rows, e')"
      and r: "r = emit_blocks (fw_emits fw) rows (pi_provenance pin e')"
    unfolding runFramework_facts by (auto split: if_splits)
  have prog: "pr_src (fw_rules fw) = fd_rules d" "pr_name (fw_rules fw) = fd_rulePath d"
    using loaded_framework(4) [OF load] by (auto simp: Compile_def dest!: sym [of _ "fw_rules fw"])
  have ans: "map fst rows = fr_goals ?fr" "map erase (en_ruleOrder e') = map erase rules" "named_facts e' = given (fr_rels ?fr)"
      "\<exists>M. perfect_model (en_ruleOrder e') (facts e') (en_syms e') M \<and> (\<forall>(g, us) \<in> set rows. answers e' M g us \<and> distinct us)"
    using Eval_answers [OF ev] parse neg room unfolding prog by blast+
  then obtain M where M: "perfect_model (en_ruleOrder e') (facts e') (en_syms e') M" "\<forall>(g, us) \<in> set rows. answers e' M g us \<and> distinct us"
    by blast
  have goals: "fr_goals ?fr = emit_goals (fw_emits fw)" using loaded_framework(2) [OF load] by (simp add: factRelations_goals)
  have exact: "answers e' M (emit_relation b) (goal_rows rows (emit_relation b))" if "b \<in> set (fw_emits fw)" for b
  proof -
    have "emit_relation b \<in> set (emit_goals (fw_emits fw))" using that by (simp add: emit_goals_set)
    then have "(emit_relation b, goal_rows rows (emit_relation b)) \<in> set rows" using goal_rows_in ans(1) goals by metis
    then show ?thesis using M(2) by blast
  qed
  have facts: "named_facts e' p = map canon ` set (relation_of p (kept_facts pin fw sn))" for p
    unfolding ans(3) given_indexed [OF rels_distinct] relations_exact ..
  show ?thesis using ans(2) facts M(1) exact r unfolding emit_blocks_def by blast
qed

section \<open>The merge\<close>

lemma add_nodes:
  "distinct (map nd_id (em_nodes res)) \<Longrightarrow> distinct (map nd_id (em_nodes (fold add_node ns res)))
     \<and> nd_id ` set (em_nodes (fold add_node ns res)) = nd_id ` set (em_nodes res) \<union> nd_id ` set ns"
proof (induction ns arbitrary: res)
  case Nil
  then show ?case by simp
next
  case (Cons m ns)
  have "distinct (map nd_id (em_nodes (add_node m res)))" using Cons.prems by (simp add: add_node_def)
  from Cons.IH [OF this] show ?case by (simp add: add_node_ids)
qed

lemma merge_result_fields [simp]:
  "em_edges (merge_result svc r res) = em_edges res @ em_edges r" "em_nodes (merge_result svc r res) = em_nodes (fold add_node (em_nodes r) res)"
  "em_patches (merge_result svc r res) = em_patches res @ em_patches r"
  by (simp_all add: merge_result_def append_result_def)

lemma merge_all_ok:
  "merge_all svc rs res = Inr out \<Longrightarrow> distinct (map nd_id (em_nodes res)) \<Longrightarrow>
     (\<forall>(name, r) \<in> set rs. \<exists>er. r = Inr er) \<and> em_edges out = em_edges res @ concat (map (\<lambda>(name, r). em_edges (projr r)) rs)
     \<and> distinct (map nd_id (em_nodes out)) \<and> nd_id ` set (em_nodes out) = nd_id ` set (em_nodes res) \<union> (\<Union>(name, r) \<in> set rs. nd_id ` set (em_nodes (projr r)))"
proof (induction rs arbitrary: res)
  case Nil
  then show ?case by simp
next
  case (Cons x rs)
  obtain name r where x: "x = (name, r)" by fastforce
  then obtain er where er: "r = Inr er" "merge_all svc rs (merge_result svc er res) = Inr out" using Cons.prems(1) by auto
  have "distinct (map nd_id (em_nodes (merge_result svc er res)))" using add_nodes [OF Cons.prems(2)] by simp
  from Cons.IH [OF er(2) this] show ?case using add_nodes [OF Cons.prems(2), of "em_nodes er"] x er(1) by auto
qed

lemma merge_all_fails:
  "merge_all svc rs res = Inl (name, err) \<Longrightarrow> \<exists>as bs. rs = as @ (name, Inl err) # bs \<and> (\<forall>(m, r) \<in> set as. \<exists>er. r = Inr er)"
proof (induction rs arbitrary: res)
  case Nil
  then show ?case by simp
next
  case (Cons x rs)
  obtain m r where x: "x = (m, r)" by fastforce
  show ?case
  proof (cases r)
    case (Inl err')
    then have "m = name \<and> err' = err" using Cons.prems x by (simp add: wrapE_def)
    then show ?thesis using x Inl by (intro exI [of _ "[]"] exI [of _ rs]) simp
  next
    case (Inr er)
    then have "merge_all svc rs (merge_result svc er res) = Inl (name, err)" using Cons.prems x by (simp add: wrapE_def)
    from Cons.IH [OF this] obtain as bs where "rs = as @ (name, Inl err) # bs" "\<forall>(m, r) \<in> set as. \<exists>er. r = Inr er" by blast
    then show ?thesis using x Inr by (intro exI [of _ "x # as"] exI [of _ bs]) simp
  qed
qed

definition framework_result :: "nat \<Rightarrow> pipeInputs \<Rightarrow> snapshot \<Rightarrow> framework \<Rightarrow> pipeError + emitResult" where
  "framework_result fuel pin sn fw =
     runFramework fuel pin fw (indexByPred (graph_facts (pi_keys pin) sn)) (buildBaseTuples (indexByPred (graph_facts (pi_keys pin) sn))) sn"

text \<open>
  C33: a run of all frameworks is all or nothing. Either every framework succeeds, and then the edges of the run
  are the edges of all frameworks, sorted, and its nodes have distinct identifiers, those of all frameworks; or
  the run fails with the error of the first framework, in the given order, that fails.
\<close>

theorem run_all_or_nothing:
  "case Run_pipeline fuel pin fws sn of
     Inr res \<Rightarrow> list_all (\<lambda>fw. \<exists>er. framework_result fuel pin sn fw = Inr er) fws
       \<and> em_edges res = sort_key ed_id (concat (map (\<lambda>fw. em_edges (projr (framework_result fuel pin sn fw))) fws))
       \<and> sorted (map nd_id (em_nodes res)) \<and> distinct (map nd_id (em_nodes res))
       \<and> nd_id ` set (em_nodes res) = (\<Union>fw \<in> set fws. nd_id ` set (em_nodes (projr (framework_result fuel pin sn fw))))
   | Inl (name, err) \<Rightarrow> \<exists>as fw bs. fws = as @ fw # bs \<and> fw_name fw = name \<and> framework_result fuel pin sn fw = Inl err
       \<and> list_all (\<lambda>f. \<exists>er. framework_result fuel pin sn f = Inr er) as"
proof -
  let ?rs = "map (\<lambda>fw. (fw_name fw, framework_result fuel pin sn fw)) fws"
  have run: "Run_pipeline fuel pin fws sn = bindE (merge_all (run_service sn) ?rs no_result) (\<lambda>res. Inr (sort_run res))"
    by (simp add: Run_pipeline_def Let_def framework_result_def GraphFacts_all)
  show ?thesis
  proof (cases "merge_all (run_service sn) ?rs no_result")
    case (Inl x)
    obtain name err where x: "x = (name, err)" by fastforce
    obtain as bs where split: "?rs = as @ (name, Inl err) # bs" "\<forall>(m, r) \<in> set as. \<exists>er. r = Inr er"
      using merge_all_fails [OF Inl [unfolded x]] by blast
    then obtain fs fw gs where fs: "fws = fs @ fw # gs" "as = map (\<lambda>fw. (fw_name fw, framework_result fuel pin sn fw)) fs"
        "fw_name fw = name" "framework_result fuel pin sn fw = Inl err"
      by (auto simp: map_eq_append_conv map_eq_Cons_conv)
    have "list_all (\<lambda>f. \<exists>er. framework_result fuel pin sn f = Inr er) fs" using split(2) fs(2) by (auto simp: list_all_iff)
    then show ?thesis unfolding run Inl x using fs by auto
  next
    case (Inr out)
    have start: "distinct (map nd_id (em_nodes no_result))" by (simp add: no_result_def)
    note ok = merge_all_ok [OF Inr start]
    have "list_all (\<lambda>fw. \<exists>er. framework_result fuel pin sn fw = Inr er) fws" using ok by (auto simp: list_all_iff)
    moreover have "em_edges out = concat (map (\<lambda>fw. em_edges (projr (framework_result fuel pin sn fw))) fws)"
      using ok by (simp add: no_result_def o_def)
    moreover have "nd_id ` set (em_nodes out) = (\<Union>fw \<in> set fws. nd_id ` set (em_nodes (projr (framework_result fuel pin sn fw))))"
      using ok by (simp add: no_result_def)
    ultimately show ?thesis unfolding run Inr using ok by (simp add: sort_run_def distinct_map_sort)
  qed
qed

end
