(* ===== verification/Pipeline_Demo.thy ===== *)
theory Pipeline_Demo
  imports Pipeline_Props Demo
begin

text \<open>
  A framework small enough to be run by the simplifier: a literal table gives the relation that its one rule
  reads, and the emit block mints a node for every tuple that the rule derives.
\<close>

definition table_doc :: frameworkDoc where
  "table_doc = \<lparr>fd_name = ''routes'', fd_dir = ''frameworks/ruby'', fd_language = [], fd_gate = \<lparr>ga_package = ''rails'', ga_versionRange = []\<rparr>,
     fd_hasFacts = True,
     fd_emit = [guard_spec\<lparr>es_relation := ''p'', es_columns := [''Handler''],
       es_edge := \<lparr>sp_from = unset_ref, sp_to = unset_ref, sp_type = [], sp_label = unset_ref, sp_method = unset_ref, sp_path = unset_ref\<rparr>,
       es_confidence := [], es_abstain := [], es_fanOut := None, es_unresolved := None\<rparr>],
     fd_resolve = [], fd_config = [],
     fd_table = [\<lparr>tb_relation = ''q'', tb_rows = [[''a'']], tb_artifact = [], tb_against = [], tb_againstArg = 0\<rparr>],
     fd_hub = [], fd_derive = [],
     fd_rulePath = ''t'', fd_rules = ''p(X):-q(X).''\<rparr>"

definition table_framework :: framework where
  "table_framework = projr (loadFramework (\<lambda>_. None) (\<lambda>_. False) table_doc)"

definition one_node :: snapshot where
  "one_node = \<lparr>sn_nodes = [\<lparr>nd_id = ''n'', nd_type = ''file'', nd_label = ''n.rb'', nd_service = ''web'', nd_file = ''n.rb'', nd_line = 1,
       nd_endLine = 9, nd_language = ''ruby'', nd_meta = [''const'' \<mapsto> ''N'', ''callee'' \<mapsto> ''m'']\<rparr>],
     sn_edges = [], sn_imports = [], sn_resolved = [], sn_files = [''n.rb''], sn_servicePath = [], sn_links = [], sn_unresolved = []\<rparr>"

definition demo_inputs :: pipeInputs where
  "demo_inputs = \<lparr>pi_keys = (\<lambda>_. [''callee'', ''const'']), pi_extracted = (\<lambda>_. []), pi_config = (\<lambda>_ _. []), pi_artifact = (\<lambda>_ _ _. []),
     pi_hubs = (\<lambda>_. None), pi_provenance = (\<lambda>_. \<lparr>pv_ruleOf = (\<lambda>_ _. None), pv_first = (\<lambda>_ _. None)\<rparr>)\<rparr>"

abbreviation demo_index :: "(string \<times> fact list) list" where
  "demo_index \<equiv> indexByPred (graph_facts (pi_keys demo_inputs) one_node)"

lemma table_loads: "loadFramework (\<lambda>_. None) (\<lambda>_. False) table_doc = Inr table_framework"
proof -
  have "isl (loadFramework (\<lambda>_. None) (\<lambda>_. False) table_doc) = False" by code_simp
  then show ?thesis unfolding table_framework_def by (cases "loadFramework (\<lambda>_. None) (\<lambda>_. False) table_doc") simp_all
qed

lemma table_relations:
  "fr_rels (factRelations_of table_framework (kept_facts demo_inputs table_framework one_node)) = [(''q'', [[''a'']])]"
  "fr_goals (factRelations_of table_framework (kept_facts demo_inputs table_framework one_node)) = [''p'']"
  by code_simp+

lemma table_eval:
  "Eval_program 1 (fw_rules table_framework) (factRelations_of table_framework (kept_facts demo_inputs table_framework one_node))
     = Inr ([(''p'', [[''a'']])], demo_e3)"
proof -
  have "fw_rules table_framework = demo"
  proof -
    have "pr_src (fw_rules table_framework) = pr_src demo" "pr_name (fw_rules table_framework) = pr_name demo"
      "pr_base (fw_rules table_framework) = pr_base demo"
      by code_simp+
    then show ?thesis by simp
  qed
  moreover have "factRelations_of table_framework (kept_facts demo_inputs table_framework one_node) = demo_facts"
    using table_relations by (simp add: demo_facts_def Add_def NewFactRelations_def)
  ultimately show ?thesis using demo_states(4) by simp
qed

lemma table_emitted:
  "map nd_id (em_nodes (emit_blocks (fw_emits table_framework) [(''p'', [[''a'']])] \<lparr>pv_ruleOf = (\<lambda>_ _. None), pv_first = (\<lambda>_ _. None)\<rparr>)) = [''a'']"
  by code_simp

lemma table_run:
  "\<exists>r. runFramework 1 demo_inputs table_framework demo_index (buildBaseTuples demo_index) one_node = Inr r \<and> map nd_id (em_nodes r) = [''a'']"
proof -
  have facts: "fw_hasFacts table_framework" by code_simp
  have prov: "pi_provenance demo_inputs demo_e3 = \<lparr>pv_ruleOf = (\<lambda>_ _. None), pv_first = (\<lambda>_ _. None)\<rparr>" by (simp add: demo_inputs_def)
  show ?thesis unfolding runFramework_facts table_eval using facts table_emitted by (simp add: wrapE_def prov)
qed

text \<open>The framework keeps its table and the metadata of the node, and drops the other facts of the graph.\<close>

theorem keep_set_suffices_witness:
  "list_all (\<lambda>p. \<exists>fr. indexed (fr_rels fr) p = indexed (fr_rels (factRelations_of table_framework (all_facts demo_inputs table_framework one_node))) p
        \<and> runFramework 1 demo_inputs table_framework demo_index (buildBaseTuples demo_index) one_node
          = bindE (wrapE PEval (Eval_program 1 (fw_rules table_framework) fr))
              (\<lambda>(rows, e). Inr (emit_blocks (fw_emits table_framework) rows (pi_provenance demo_inputs e))))
     (pr_base (fw_rules table_framework))
   \<and> pr_base (fw_rules table_framework) = [''q'']
   \<and> length (kept_facts demo_inputs table_framework one_node) < length (all_facts demo_inputs table_framework one_node)"
proof (intro conjI)
  have facts: "fw_hasFacts table_framework" by code_simp
  obtain fr where "runFramework 1 demo_inputs table_framework demo_index (buildBaseTuples demo_index) one_node
      = bindE (wrapE PEval (Eval_program 1 (fw_rules table_framework) fr))
          (\<lambda>(rows, e). Inr (emit_blocks (fw_emits table_framework) rows (pi_provenance demo_inputs e)))"
      "\<forall>p \<in> set (pr_base (fw_rules table_framework)).
         indexed (fr_rels fr) p = indexed (fr_rels (factRelations_of table_framework (all_facts demo_inputs table_framework one_node))) p"
    using keep_set_suffices [OF table_loads, of 1 demo_inputs one_node] facts by auto
  then show "list_all (\<lambda>p. \<exists>fr. indexed (fr_rels fr) p = indexed (fr_rels (factRelations_of table_framework (all_facts demo_inputs table_framework one_node))) p
        \<and> runFramework 1 demo_inputs table_framework demo_index (buildBaseTuples demo_index) one_node
          = bindE (wrapE PEval (Eval_program 1 (fw_rules table_framework) fr))
              (\<lambda>(rows, e). Inr (emit_blocks (fw_emits table_framework) rows (pi_provenance demo_inputs e))))
     (pr_base (fw_rules table_framework))"
    unfolding list_all_iff by blast
  show "pr_base (fw_rules table_framework) = [''q'']" by code_simp
  show "length (kept_facts demo_inputs table_framework one_node) < length (all_facts demo_inputs table_framework one_node)" by code_simp
qed

theorem framework_run_exact_witness:
  "\<exists>e' M rows r. runFramework 1 demo_inputs table_framework demo_index (buildBaseTuples demo_index) one_node = Inr r
     \<and> map nd_id (em_nodes r) = [''a'']
     \<and> named_facts e' ''q'' = {[''a'']} \<and> perfect_model (en_ruleOrder e') (facts e') (en_syms e') M
     \<and> answers e' M ''p'' (rows ''p'')
     \<and> r = fold (\<lambda>b res. append_result res (Apply b (rows (emit_relation b)) (Some (pi_provenance demo_inputs e')))) (fw_emits table_framework) no_result"
proof -
  obtain r where r: "runFramework (Suc 0) demo_inputs table_framework demo_index (buildBaseTuples demo_index) one_node = Inr r"
      "map nd_id (em_nodes r) = [''a'']"
    using table_run by auto
  have parse: "parseRules (fd_rules table_doc) (fd_rulePath table_doc) = Inr demo_rules"
    using demo_parse by (simp add: table_doc_def demo_def)
  have room: "fact_width (fr_rels (factRelations_of table_framework (kept_facts demo_inputs table_framework one_node))) + length (rule_constants demo_rules) \<le> 2 ^ 31"
    using demo_rules_facts(2) table_relations(1) by (simp add: fact_width_def)
  have rel: "map (map canon) (relation_of ''q'' (kept_facts demo_inputs table_framework one_node)) = [[''a'']]" by code_simp
  then have q: "map canon ` set (relation_of ''q'' (kept_facts demo_inputs table_framework one_node)) = {[''a'']}"
    by (metis (no_types) list.set_map list.simps(15) empty_set)
  have emits: "map emit_relation (fw_emits table_framework) = [''p'']" by code_simp
  then obtain b where b: "b \<in> set (fw_emits table_framework)" "emit_relation b = ''p''" by (cases "fw_emits table_framework") auto
  obtain e' M rows where run: "\<forall>p. named_facts e' p = map canon ` set (relation_of p (kept_facts demo_inputs table_framework one_node))"
      "perfect_model (en_ruleOrder e') (facts e') (en_syms e') M"
      "\<forall>b \<in> set (fw_emits table_framework). answers e' M (emit_relation b) (rows (emit_relation b))"
      "r = fold (\<lambda>b res. append_result res (Apply b (rows (emit_relation b)) (Some (pi_provenance demo_inputs e')))) (fw_emits table_framework) no_result"
    using framework_run_exact [OF table_loads r(1) parse demo_neg room] by blast
  have "named_facts e' ''q'' = {[''a'']}" unfolding q [symmetric] using run(1) by (rule spec)
  moreover have "answers e' M ''p'' (rows ''p'')" using bspec [OF run(3) b(1)] unfolding b(2) .
  ultimately show ?thesis using r run(2,4) unfolding One_nat_def by (intro exI conjI)
qed

end
