(* ===== verification/Traces.thy ===== *)
theory Traces
  imports Blast_Radius
begin

text \<open>
  Traces (\<open>internal/trace/trace.go\<close>): the flat listing of a traversal and the enumeration of linear chains
  around a node, with the classes of noise that are hidden.

  Go walks with a mutable stack; here the stack is an argument, and the variables that the walk accumulates are a
  record. A chain is kept as the nodes and edges of the stack and rendered when the walk is over, which is the
  same because the index does not change. The sources of an edge are kept as they are, without the rendering
  and ageing of \<open>marshalSources\<close>. \<open>sort.Slice\<close> is taken as stable.
\<close>

section \<open>Hops\<close>

definition MaxChains :: int where "MaxChains = 100"
definition ExploreChains :: int where "ExploreChains = MaxChains * 5"

record traceHop =
  th_id :: string
  th_type :: string
  th_label :: string
  th_service :: string
  th_file :: string
  th_line :: int
  th_language :: string
  th_meta :: "string \<rightharpoonup> string"
  th_edgeType :: string
  th_edgeLabel :: string
  th_confidence :: string
  th_edgeMeta :: "string \<rightharpoonup> string"
  th_cross :: bool
  th_depth :: nat
  th_state :: string
  th_granularity :: string
  th_sources :: "sourceRef list"

definition labelOrID :: "node \<Rightarrow> string" where
  "labelOrID n = (if nd_label n \<noteq> [] then nd_label n else nd_id n)"

definition nodeHop :: "node \<Rightarrow> traceHop" where
  "nodeHop n = \<lparr>th_id = nd_id n, th_type = nd_type n, th_label = labelOrID n, th_service = nd_service n, th_file = nd_file n,
     th_line = nd_line n, th_language = nd_language n, th_meta = nd_meta n, th_edgeType = [], th_edgeLabel = [], th_confidence = [],
     th_edgeMeta = Map.empty, th_cross = False, th_depth = 0, th_state = [], th_granularity = [], th_sources = []\<rparr>"

text \<open>An edge that crosses services marks its hop; a mark is never taken back.\<close>

definition edge_crosses :: "adjacencyIndex \<Rightarrow> edge \<Rightarrow> bool" where
  "edge_crosses idx e =
     (case (node_of idx (ed_from e), node_of idx (ed_to e)) of (Some a, Some b) \<Rightarrow> nd_service a \<noteq> nd_service b | _ \<Rightarrow> False)"

definition applyEdge :: "adjacencyIndex \<Rightarrow> edge \<Rightarrow> traceHop \<Rightarrow> traceHop" where
  "applyEdge idx e h = h\<lparr>th_edgeType := ed_type e, th_edgeLabel := ed_label e, th_confidence := ed_confidence e, th_edgeMeta := ed_meta e,
     th_state := ed_state e, th_granularity := ed_granularity e, th_sources := ed_sources e, th_cross := th_cross h \<or> edge_crosses idx e\<rparr>"

section \<open>The flat listing\<close>

definition bump :: "string \<Rightarrow> (string \<rightharpoonup> nat) \<Rightarrow> string \<rightharpoonup> nat" where
  "bump c hidden = hidden(c \<mapsto> Suc (case hidden c of Some n \<Rightarrow> n | None \<Rightarrow> 0))"

definition result_class :: "adjacencyIndex \<Rightarrow> traversalResult \<Rightarrow> node \<Rightarrow> noiseClass option" where
  "result_class idx tr n =
     map_option (\<lambda>e. ClassifyEdgeNoise e (node_of idx (if ed_from e = nd_id n then ed_to e else ed_from e)) (Some n)) (tr_via tr)"

definition hop_at :: "adjacencyIndex \<Rightarrow> traversalResult \<Rightarrow> node \<Rightarrow> traceHop" where
  "hop_at idx tr n = (let h = (nodeHop n)\<lparr>th_depth := tr_depth tr\<rparr> in case tr_via tr of None \<Rightarrow> h | Some e \<Rightarrow> applyEdge idx e h)"

definition via_list :: "traversalResult \<Rightarrow> edge list" where
  "via_list tr = (case tr_via tr of Some e \<Rightarrow> [e] | None \<Rightarrow> [])"

fun toHops :: "adjacencyIndex \<Rightarrow> noiseInclude \<Rightarrow> traversalResult list \<Rightarrow> (string \<rightharpoonup> nat) \<Rightarrow> traceHop list \<times> edge list \<times> (string \<rightharpoonup> nat)" where
  "toHops idx inc [] hidden = ([], [], hidden)"
| "toHops idx inc (tr # trs) hidden =
     (case tr_node tr of
        None \<Rightarrow> toHops idx inc trs hidden
      | Some n \<Rightarrow>
          let c = (case result_class idx tr n of Some c \<Rightarrow> c | None \<Rightarrow> NoiseNone) in
          if \<not> Allows inc c then toHops idx inc trs (bump c hidden)
          else let (hs, es, hid) = toHops idx inc trs hidden in (hop_at idx tr n # hs, via_list tr @ es, hid))"

section \<open>Chains\<close>

definition hopLocLabel :: "traceHop \<Rightarrow> string" where
  "hopLocLabel h =
     (if th_file h = [] then th_label h
      else if th_line h > 0 then th_file h @ '':'' @ fmt_int (th_line h) @ '' '' @ th_label h
      else th_file h @ '' '' @ th_label h)"

text \<open>The mark around a service is the character U+2016, three bytes.\<close>

definition service_bar :: string where "service_bar = [CHR 0xE2, CHR 0x80, CHR 0x96]"

definition render_hop :: "traceHop \<Rightarrow> string" where
  "render_hop h =
     '' -['' @ (if th_edgeType h = [] then ''?'' else th_edgeType h)
     @ (if th_confidence h = ConfidencePartial \<or> th_confidence h = ConfidenceUnknown then ''?'' else [])
     @ '']-> '' @ (if th_cross h then service_bar @ th_service h @ service_bar @ '' '' else []) @ hopLocLabel h"

definition renderChain :: "traceHop list \<Rightarrow> string" where
  "renderChain hs =
     (case hs of [] \<Rightarrow> [] | h # rest \<Rightarrow> ''('' @ th_service h @ '') '' @ hopLocLabel h @ concat (map render_hop rest))"

record chain =
  ch_hops :: "traceHop list"
  ch_text :: string

text \<open>The service of a hop against the one before it.\<close>

fun mark_crossings :: "string \<Rightarrow> traceHop list \<Rightarrow> traceHop list" where
  "mark_crossings svc [] = []"
| "mark_crossings svc (h # hs) = (if th_service h \<noteq> svc then h\<lparr>th_cross := True\<rparr> else h) # mark_crossings (th_service h) hs"

text \<open>
  A snapshot of the stack: its nodes, and the edges between them. Both are reversed for a backward chain, so that
  every hop has the edge that leads into it; \<open>None\<close> is the panic of a node that the index does not have.
\<close>

type_synonym stack = "string list \<times> edge list"

definition flow_order :: "string \<Rightarrow> stack \<Rightarrow> stack" where
  "flow_order dir s = (if dir = DirIn then (rev (fst s), rev (snd s)) else s)"

definition chain_hops :: "adjacencyIndex \<Rightarrow> node list \<Rightarrow> edge list \<Rightarrow> traceHop list" where
  "chain_hops idx ns es =
     (case ns of
        [] \<Rightarrow> []
      | n # rest \<Rightarrow> nodeHop n # mark_crossings (nd_service n) (map2 (\<lambda>e m. applyEdge idx e (nodeHop m)) es rest))"

definition buildChain :: "adjacencyIndex \<Rightarrow> string \<Rightarrow> stack \<Rightarrow> chain option" where
  "buildChain idx dir s =
     (let (path, es) = flow_order dir s in
      map_option (\<lambda>ns. let hs = chain_hops idx ns es in \<lparr>ch_hops = hs, ch_text = renderChain hs\<rparr>) (those (map (node_of idx) path)))"

definition sortedEdges :: "adjacencyIndex \<Rightarrow> string \<Rightarrow> string \<Rightarrow> edge list" where
  "sortedEdges idx v dir = sort_key (\<lambda>e. (ed_type e, far_end dir e)) (dir_edges idx dir v)"

section \<open>The walk\<close>

record walkParams =
  wp_dir :: string
  wp_maxDepth :: int
  wp_maxDisplay :: int
  wp_maxExplore :: int
  wp_include :: noiseInclude

record walkState =
  ws_out :: "stack list"
  ws_explored :: int
  ws_hidden :: "string \<rightharpoonup> nat"
  ws_truncated :: bool

definition prune :: "noiseClass \<Rightarrow> walkState \<Rightarrow> walkState" where
  "prune c st = st\<lparr>ws_explored := ws_explored st + 1, ws_hidden := bump c (ws_hidden st)\<rparr>"

definition cut_short :: "walkState \<Rightarrow> walkState" where
  "cut_short st = st\<lparr>ws_truncated := True\<rparr>"

definition leaf :: "walkParams \<Rightarrow> stack \<Rightarrow> walkState \<Rightarrow> walkState" where
  "leaf P s st =
     (let st1 = st\<lparr>ws_explored := ws_explored st + 1\<rparr> in
      if int (length (ws_out st)) < wp_maxDisplay P then st1\<lparr>ws_out := ws_out st @ [s]\<rparr> else cut_short st1)"

definition open_list :: "adjacencyIndex \<Rightarrow> walkParams \<Rightarrow> string list \<Rightarrow> edge list" where
  "open_list idx P path =
     (if wp_maxDepth P \<le> 0 \<or> int (length path) - 1 < wp_maxDepth P then sortedEdges idx (last path) (wp_dir P) else [])"

definition free_nodes :: "adjacencyIndex \<Rightarrow> string list \<Rightarrow> nat" where
  "free_nodes idx path = card (fst ` set (ix_nodes idx) - set path)"

lemma push_frees:
  assumes "v \<notin> set path" "node_of idx v \<noteq> None"
  shows "free_nodes idx (path @ [v]) < free_nodes idx path"
proof -
  have "v \<in> fst ` set (ix_nodes idx)" using assms(2) by (force simp: node_of_def dest: map_of_SomeD)
  then show ?thesis unfolding free_nodes_def using assms(1) by (intro psubset_card_mono) auto
qed

text \<open>
  The loop over the edges of the top of the stack. The flag says whether the walk has gone on from here; the
  return from the loop when the budget is spent skips the leaf.
\<close>

function walk :: "adjacencyIndex \<Rightarrow> walkParams \<Rightarrow> string list \<Rightarrow> edge list \<Rightarrow> bool \<Rightarrow> edge list \<Rightarrow> walkState \<Rightarrow> walkState" where
  "walk idx P path vias extended [] st = (if \<not> extended \<and> length path > 1 then leaf P (path, vias) st else st)"
| "walk idx P path vias extended (e # es) st =
     (let v = far_end (wp_dir P) e in
      if v \<in> set path \<or> node_of idx v = None then walk idx P path vias extended es st
      else let c = ClassifyEdgeNoise e (node_of idx (last path)) (node_of idx v) in
        if \<not> Allows (wp_include P) c then
          let st1 = prune c st in
          if ws_explored st1 \<ge> wp_maxExplore P then cut_short st1 else walk idx P path vias extended es st1
        else
          let st1 = (if ws_explored st \<ge> wp_maxExplore P then cut_short st
                     else walk idx P (path @ [v]) (vias @ [e]) False (open_list idx P (path @ [v])) st) in
          if ws_explored st1 \<ge> wp_maxExplore P then cut_short st1 else walk idx P path vias True es st1)"
  by pat_completeness auto

termination
  by (relation "measures [\<lambda>(idx, P, path, vias, ext, es, st). free_nodes idx path, \<lambda>(idx, P, path, vias, ext, es, st). length es]")
     (use push_frees in auto)

declare walk.simps [simp del]

text \<open>\<open>None\<close> is the panic on a node that the index does not have.\<close>

definition enumerateChains ::
  "adjacencyIndex \<Rightarrow> string \<Rightarrow> walkParams \<Rightarrow> (chain list \<times> (string \<rightharpoonup> nat) \<times> bool) option" where
  "enumerateChains idx root P =
     (if wp_maxDisplay P \<le> 0 \<or> wp_maxExplore P \<le> 0 then Some ([], Map.empty, True)
      else let st = walk idx P [root] [] False (open_list idx P [root])
                      \<lparr>ws_out = [], ws_explored = 0, ws_hidden = Map.empty, ws_truncated = False\<rparr> in
        map_option (\<lambda>cs. (cs, ws_hidden st, ws_truncated st)) (those (map (buildChain idx (wp_dir P)) (ws_out st))))"

section \<open>The answer\<close>

record traceResult =
  tc_root :: node
  tc_direction :: string
  tc_depth :: int
  tc_nodes :: "traceHop list"
  tc_chains :: "chain list"
  tc_edgeTypes :: "string list"
  tc_services :: "string list"
  tc_truncated :: bool
  tc_hidden :: "string \<rightharpoonup> nat"
  tc_unresolved :: "unresolvedRef list"
  tc_summary :: verificationSummary

definition mergeHidden :: "(string \<rightharpoonup> nat) \<Rightarrow> (string \<rightharpoonup> nat) \<Rightarrow> string \<rightharpoonup> nat" where
  "mergeHidden dst src =
     (\<lambda>k. case src k of None \<Rightarrow> dst k | Some n \<Rightarrow> Some ((case dst k of Some m \<Rightarrow> m | None \<Rightarrow> 0) + n))"

text \<open>The variables that the two directions share: hops, edges, chains, the tally of hidden classes and the mark of a cut.\<close>

record traceParts =
  tp_nodes :: "traceHop list"
  tp_edges :: "edge list"
  tp_chains :: "chain list"
  tp_hidden :: "string \<rightharpoonup> nat"
  tp_truncated :: bool

definition chain_params :: "string \<Rightarrow> int \<Rightarrow> noiseInclude \<Rightarrow> int \<Rightarrow> chain list \<Rightarrow> walkParams" where
  "chain_params dir depth inc exploreChains before =
     \<lparr>wp_dir = dir, wp_maxDepth = depth, wp_maxDisplay = MaxChains - int (length before),
      wp_maxExplore = (if exploreChains \<le> 0 then ExploreChains else exploreChains), wp_include = inc\<rparr>"

definition trace_direction ::
  "adjacencyIndex \<Rightarrow> string \<Rightarrow> string \<Rightarrow> int \<Rightarrow> noiseInclude \<Rightarrow> int \<Rightarrow> traceParts \<Rightarrow> traceParts option" where
  "trace_direction idx root dir depth inc exploreChains p =
     (let (hs, es, hid) = toHops idx inc (Traverse idx root dir BFS depth) (tp_hidden p) in
      map_option (\<lambda>(cs, hid2, cutoff).
          \<lparr>tp_nodes = tp_nodes p @ hs, tp_edges = tp_edges p @ es, tp_chains = tp_chains p @ cs, tp_hidden = mergeHidden hid hid2,
           tp_truncated = (tp_truncated p \<or> cutoff)\<rparr>)
        (enumerateChains idx root (chain_params dir depth inc exploreChains (tp_chains p))))"

definition goes :: "string \<Rightarrow> string \<Rightarrow> bool" where
  "goes dirn d \<longleftrightarrow> dirn = d \<or> dirn = ''both''"

definition Run_parts :: "adjacencyIndex \<Rightarrow> string \<Rightarrow> string \<Rightarrow> int \<Rightarrow> noiseInclude \<Rightarrow> int \<Rightarrow> traceParts option" where
  "Run_parts idx root dirn depth inc exploreChains =
     (let p0 = \<lparr>tp_nodes = [], tp_edges = [], tp_chains = [], tp_hidden = Map.empty, tp_truncated = False\<rparr> in
      Option.bind (if goes dirn ''backward'' then trace_direction idx root DirIn depth inc exploreChains p0 else Some p0)
        (\<lambda>p. if goes dirn ''forward'' then trace_direction idx root DirOut depth inc exploreChains p else Some p))"

text \<open>The outer \<open>None\<close> is the panic, the inner one the answer for a root that is not in the index.\<close>

definition Run_trace :: "adjacencyIndex \<Rightarrow> string \<Rightarrow> string \<Rightarrow> int \<Rightarrow> noiseInclude \<Rightarrow> int \<Rightarrow> traceResult option option" where
  "Run_trace idx root dirn depth inc exploreChains =
     (case node_of idx root of
        None \<Rightarrow> Some None
      | Some n \<Rightarrow> map_option (\<lambda>p. Some
          \<lparr>tc_root = n, tc_direction = dirn, tc_depth = depth, tc_nodes = tp_nodes p, tc_chains = tp_chains p,
           tc_edgeTypes = sort (remdups (filter (\<lambda>t. t \<noteq> []) (map th_edgeType (tp_nodes p)))),
           tc_services = sort (remdups (nd_service n # map th_service (tp_nodes p))), tc_truncated = tp_truncated p,
           tc_hidden = tp_hidden p, tc_unresolved = [], tc_summary = BuildVerificationSummary (tp_edges p)\<rparr>)
        (Run_parts idx root dirn depth inc exploreChains))"

text \<open>The chains alone, for the search corpus; without a panic, as \<open>Run_trace\<close>.\<close>

definition ChainsOnly :: "adjacencyIndex \<Rightarrow> string \<Rightarrow> string \<Rightarrow> int \<Rightarrow> noiseInclude \<Rightarrow> int \<Rightarrow> chain list option option" where
  "ChainsOnly idx root dirn depth inc exploreChains =
     (if node_of idx root = None then Some None
      else map_option Some
        (Option.bind (if goes dirn ''backward''
                      then map_option fst (enumerateChains idx root (chain_params DirIn depth inc exploreChains [])) else Some [])
          (\<lambda>cs. if goes dirn ''forward''
             then map_option (\<lambda>r. cs @ fst r) (enumerateChains idx root (chain_params DirOut depth inc exploreChains cs)) else Some cs)))"

definition AttachUnresolved_trace :: "unresolvedRef list \<Rightarrow> traceResult \<Rightarrow> traceResult" where
  "AttachUnresolved_trace refs r =
     r\<lparr>tc_unresolved := UnresolvedInFiles refs
        (insert (nd_file (tc_root r)) (th_file ` set (tc_nodes r) \<union> (\<Union>c \<in> set (tc_chains r). th_file ` set (ch_hops c))))\<rparr>"

definition FinalizeEpistemic_trace :: "trustStamp \<Rightarrow> traceResult \<Rightarrow> epistemic" where
  "FinalizeEpistemic_trace trust r =
     BuildEpistemic (tc_unresolved r) (HasWeakConfidence (map th_confidence (tc_nodes r))) (tc_summary r) trust"

text \<open>The short form: a line for every node and the text of every chain.\<close>

definition compact_nodes :: "traceResult \<Rightarrow> string list" where
  "compact_nodes r = map (\<lambda>h. hopLocLabel h @ '' ['' @ th_type h @ '']'') (tc_nodes r)"

definition compact_root :: "traceResult \<Rightarrow> string" where
  "compact_root r = ''('' @ nd_service (tc_root r) @ '') '' @ hopLocLabel (nodeHop (tc_root r)) @ '' ['' @ nd_type (tc_root r) @ '']''"

end
