(* ===== verification/Trace_Props.thy ===== *)
theory Trace_Props
  imports Traces Blast_Props "HOL-Library.Sublist"
begin

text \<open>
  What a trace shows. The walk is compared with a list of events, the chains and the pruned edges in the order in
  which a walk without bounds would meet them: the walk spends its budget along that list. The chains themselves
  are characterised by a step relation on stacks.
\<close>

section \<open>The walk as a list of events\<close>

definition shut :: "adjacencyIndex \<Rightarrow> walkParams \<Rightarrow> string list \<Rightarrow> edge \<Rightarrow> bool" where
  "shut idx P path e \<longleftrightarrow> far_end (wp_dir P) e \<in> set path \<or> node_of idx (far_end (wp_dir P) e) = None"

definition edge_class :: "adjacencyIndex \<Rightarrow> walkParams \<Rightarrow> string list \<Rightarrow> edge \<Rightarrow> noiseClass" where
  "edge_class idx P path e = ClassifyEdgeNoise e (node_of idx (last path)) (node_of idx (far_end (wp_dir P) e))"

definition noisy :: "adjacencyIndex \<Rightarrow> walkParams \<Rightarrow> string list \<Rightarrow> edge \<Rightarrow> bool" where
  "noisy idx P path e \<longleftrightarrow> \<not> Allows (wp_include P) (edge_class idx P path e)"

function events :: "adjacencyIndex \<Rightarrow> walkParams \<Rightarrow> string list \<Rightarrow> edge list \<Rightarrow> bool \<Rightarrow> edge list \<Rightarrow> (stack + noiseClass) list" where
  "events idx P path vias extended [] = (if \<not> extended \<and> length path > 1 then [Inl (path, vias)] else [])"
| "events idx P path vias extended (e # es) =
     (if shut idx P path e then events idx P path vias extended es
      else if noisy idx P path e then Inr (edge_class idx P path e) # events idx P path vias extended es
      else events idx P (path @ [far_end (wp_dir P) e]) (vias @ [e]) False (open_list idx P (path @ [far_end (wp_dir P) e]))
        @ events idx P path vias True es)"
  by pat_completeness auto

termination
  by (relation "measures [\<lambda>(idx, P, path, vias, ext, es). free_nodes idx path, \<lambda>(idx, P, path, vias, ext, es). length es]")
     (use push_frees in \<open>auto simp: shut_def\<close>)

declare events.simps [simp del]

definition happen :: "walkParams \<Rightarrow> stack + noiseClass \<Rightarrow> walkState \<Rightarrow> walkState" where
  "happen P ev st = (case ev of Inl s \<Rightarrow> leaf P s st | Inr c \<Rightarrow> prune c st)"

definition guard :: "walkParams \<Rightarrow> walkState \<Rightarrow> walkState" where
  "guard P st = (if ws_explored st \<ge> wp_maxExplore P then cut_short st else st)"

fun spend :: "walkParams \<Rightarrow> (stack + noiseClass) list \<Rightarrow> walkState \<Rightarrow> walkState" where
  "spend P [] st = st"
| "spend P (ev # evs) st =
     (let st1 = happen P ev st in if ws_explored st1 \<ge> wp_maxExplore P then cut_short st1 else spend P evs st1)"

lemma cut_short_simps [simp]:
  "ws_explored (cut_short st) = ws_explored st" "ws_out (cut_short st) = ws_out st" "ws_hidden (cut_short st) = ws_hidden st" "ws_truncated (cut_short st)"
  "cut_short (cut_short st) = cut_short st"
  by (simp_all add: cut_short_def)

lemma cut_short_twice: "ws_truncated st \<Longrightarrow> cut_short st = st"
  by (simp add: cut_short_def)

lemma spend_append:
  assumes "ws_explored st < wp_maxExplore P"
  shows "spend P (as @ bs) st = (if ws_explored (spend P as st) \<ge> wp_maxExplore P then spend P as st else spend P bs (spend P as st))"
  using assms by (induction as arbitrary: st) (simp_all add: Let_def)

lemma spend_one: "spend P [ev] st = guard P (happen P ev st)"
  by (simp add: guard_def Let_def)

lemma guard_cut [simp]: "guard P (cut_short st) = cut_short st"
  by (simp add: guard_def)

lemma guard_below: "ws_explored st < wp_maxExplore P \<Longrightarrow> guard P st = st"
  by (simp add: guard_def)

lemma walk_steps:
  "shut idx P path e \<Longrightarrow> walk idx P path vias ext (e # es) st = walk idx P path vias ext es st"
  "\<not> shut idx P path e \<Longrightarrow> noisy idx P path e \<Longrightarrow> walk idx P path vias ext (e # es) st
     = (let st1 = prune (edge_class idx P path e) st in
        if ws_explored st1 \<ge> wp_maxExplore P then cut_short st1 else walk idx P path vias ext es st1)"
  "\<not> shut idx P path e \<Longrightarrow> \<not> noisy idx P path e \<Longrightarrow> ws_explored st < wp_maxExplore P \<Longrightarrow> walk idx P path vias ext (e # es) st
     = (let v = far_end (wp_dir P) e; st1 = walk idx P (path @ [v]) (vias @ [e]) False (open_list idx P (path @ [v])) st in
        if ws_explored st1 \<ge> wp_maxExplore P then cut_short st1 else walk idx P path vias True es st1)"
  by (auto simp: walk.simps(2) Let_def shut_def noisy_def edge_class_def)

lemma walk_end: "walk idx P path vias ext [] st = (if \<not> ext \<and> length path > 1 then leaf P (path, vias) st else st)"
  by (simp add: walk.simps)

lemma walk_spends:
  "ws_explored st < wp_maxExplore P \<Longrightarrow> guard P (walk idx P path vias ext es st) = spend P (events idx P path vias ext es) st"
proof (induction idx P path vias ext es arbitrary: st rule: events.induct)
  case (1 idx P path vias ext)
  then show ?case by (simp add: walk_end events.simps guard_below happen_def guard_def Let_def)
next
  case (2 idx P path vias ext e es)
  let ?v = "far_end (wp_dir P) e"
  consider "shut idx P path e" | "\<not> shut idx P path e" "noisy idx P path e" | "\<not> shut idx P path e" "\<not> noisy idx P path e" by blast
  then show ?case
  proof cases
    case 1
    then show ?thesis using "2.IH"(1) "2.prems" by (simp add: walk_steps events.simps)
  next
    case 2
    then show ?thesis using "2.IH"(2) by (simp add: walk_steps events.simps Let_def happen_def)
  next
    case 3
    let ?child = "events idx P (path @ [?v]) (vias @ [e]) False (open_list idx P (path @ [?v]))"
    let ?st1 = "walk idx P (path @ [?v]) (vias @ [e]) False (open_list idx P (path @ [?v])) st"
    have child: "guard P ?st1 = spend P ?child st" using "2.IH"(3) [OF 3 "2.prems"] .
    have ev: "events idx P path vias ext (e # es) = ?child @ events idx P path vias True es" using 3 by (simp add: events.simps)
    show ?thesis
    proof (cases "ws_explored ?st1 \<ge> wp_maxExplore P")
      case True
      then show ?thesis unfolding ev spend_append [OF "2.prems"] child [symmetric] walk_steps(3) [OF 3 "2.prems"]
        by (simp add: guard_def Let_def)
    next
      case False
      then have "guard P (walk idx P path vias True es ?st1) = spend P (events idx P path vias True es) ?st1" using "2.IH"(4) [OF 3] by simp
      then show ?thesis unfolding ev spend_append [OF "2.prems"] child [symmetric] walk_steps(3) [OF 3 "2.prems"]
        using False by (simp add: guard_below Let_def)
    qed
  qed
qed

text \<open>At the root, where there is no leaf, the walk itself notices that its budget is spent.\<close>

lemma root_notices:
  "length path \<le> 1 \<Longrightarrow> ws_explored st < wp_maxExplore P \<Longrightarrow> wp_maxExplore P \<le> ws_explored (walk idx P path vias ext es st) \<Longrightarrow>
     ws_truncated (walk idx P path vias ext es st)"
proof (induction idx P path vias ext es arbitrary: st rule: events.induct)
  case (1 idx P path vias ext)
  then show ?case by (simp add: walk_end)
next
  case (2 idx P path vias ext e es)
  consider "shut idx P path e" | "\<not> shut idx P path e" "noisy idx P path e" | "\<not> shut idx P path e" "\<not> noisy idx P path e" by blast
  then show ?case
  proof cases
    case 1
    then show ?thesis using "2.IH"(1) "2.prems" by (simp add: walk_steps)
  next
    case 2
    then show ?thesis using "2.IH"(2) [OF 2 "2.prems"(1)] "2.prems"(3) by (simp add: walk_steps Let_def split: if_splits)
  next
    case 3
    then show ?thesis using "2.IH"(4) [OF 3 "2.prems"(1)] "2.prems"(2,3) by (simp add: walk_steps Let_def split: if_splits)
  qed
qed

lemma root_spends:
  assumes "length path \<le> 1" "ws_explored st < wp_maxExplore P"
  shows "walk idx P path vias ext es st = spend P (events idx P path vias ext es) st"
  using walk_spends [OF assms(2)] root_notices [OF assms] by (metis cut_short_twice guard_def)

section \<open>The budget\<close>

definition chains_in :: "(stack + noiseClass) list \<Rightarrow> stack list" where
  "chains_in evs = map projl (filter isl evs)"

definition prunes_in :: "(stack + noiseClass) list \<Rightarrow> noiseClass list" where
  "prunes_in evs = map projr (filter (\<lambda>ev. \<not> isl ev) evs)"

lemma in_simps [simp]:
  "chains_in [] = []" "chains_in (Inl s # evs) = s # chains_in evs" "chains_in (Inr c # evs) = chains_in evs"
  "prunes_in [] = []" "prunes_in (Inl s # evs) = prunes_in evs" "prunes_in (Inr c # evs) = c # prunes_in evs"
  "chains_in (as @ bs) = chains_in as @ chains_in bs" "prunes_in (as @ bs) = prunes_in as @ prunes_in bs"
  by (simp_all add: chains_in_def prunes_in_def)

lemma first_chains: "set (take k (chains_in (take n evs))) \<subseteq> set (chains_in evs)"
proof -
  have "chains_in evs = chains_in (take n evs) @ chains_in (drop n evs)" by (simp flip: in_simps(7))
  then show ?thesis using set_take_subset [of k "chains_in (take n evs)"] by auto
qed

lemma happen_simps [simp]:
  "ws_explored (happen P ev st) = ws_explored st + 1"
  "ws_out (happen P (Inr c) st) = ws_out st" "ws_hidden (happen P (Inr c) st) = bump c (ws_hidden st)"
  "ws_truncated (happen P (Inr c) st) = ws_truncated st" "ws_hidden (happen P (Inl s) st) = ws_hidden st"
  "ws_out (happen P (Inl s) st) = (if int (length (ws_out st)) < wp_maxDisplay P then ws_out st @ [s] else ws_out st)"
  "ws_truncated (happen P (Inl s) st) = (ws_truncated st \<or> \<not> int (length (ws_out st)) < wp_maxDisplay P)"
  by (auto simp: happen_def leaf_def prune_def cut_short_def Let_def split: sum.split)

lemma take_take_append: "take n (take n xs @ ys) = take n (xs @ ys)"
  by (cases "length xs \<le> n") simp_all

lemma happen_out:
  assumes "int (length (ws_out st)) \<le> wp_maxDisplay P"
  shows "ws_out (happen P ev st) = take (nat (wp_maxDisplay P)) (ws_out st @ chains_in [ev])"
    and "int (length (ws_out (happen P ev st))) \<le> wp_maxDisplay P"
proof -
  have "ws_out (happen P (Inl s) st) = take (nat (wp_maxDisplay P)) (ws_out st @ [s])" for s
  proof (cases "int (length (ws_out st)) < wp_maxDisplay P")
    case False
    then have "nat (wp_maxDisplay P) = length (ws_out st)" using assms by simp
    then show ?thesis using False by simp
  qed simp
  then show "ws_out (happen P ev st) = take (nat (wp_maxDisplay P)) (ws_out st @ chains_in [ev])" using assms by (cases ev) simp_all
  then have "length (ws_out (happen P ev st)) \<le> nat (wp_maxDisplay P)" by (metis length_take min.cobounded2)
  then show "int (length (ws_out (happen P ev st))) \<le> wp_maxDisplay P" using assms by linarith
qed

text \<open>
  The budget buys a prefix of the events. The display keeps the first chains of that prefix, every hidden edge in
  it is tallied, and the answer is cut when a chain did not fit or when the budget is spent.
\<close>

lemma spend_exact:
  assumes "ws_explored st < wp_maxExplore P" "int (length (ws_out st)) \<le> wp_maxDisplay P"
  shows "ws_out (spend P evs st) = take (nat (wp_maxDisplay P)) (ws_out st @ chains_in (take (nat (wp_maxExplore P - ws_explored st)) evs))
    \<and> ws_hidden (spend P evs st) = fold bump (prunes_in (take (nat (wp_maxExplore P - ws_explored st)) evs)) (ws_hidden st)
    \<and> (ws_truncated (spend P evs st) \<longleftrightarrow> ws_truncated st
        \<or> int (length (ws_out st @ chains_in (take (nat (wp_maxExplore P - ws_explored st)) evs))) > wp_maxDisplay P
        \<or> ws_explored st + int (length evs) \<ge> wp_maxExplore P)"
  using assms
proof (induction evs arbitrary: st)
  case Nil
  then show ?case by simp
next
  case (Cons ev evs)
  let ?st1 = "happen P ev st" and ?n = "nat (wp_maxExplore P - (ws_explored st + 1))"
  have met: "take (nat (wp_maxExplore P - ws_explored st)) (ev # evs) = ev # take ?n evs"
    using Cons.prems(1) by (simp add: take_Cons' nat_diff_distrib algebra_simps nat_minus_as_int)
  have out: "take (nat (wp_maxDisplay P)) (ws_out ?st1 @ chains_in es) = take (nat (wp_maxDisplay P)) (ws_out st @ chains_in (ev # es))" for es
    unfolding happen_out(1) [OF Cons.prems(2)] take_take_append by (cases ev) simp_all
  have hid: "fold bump (prunes_in es) (ws_hidden ?st1) = fold bump (prunes_in (ev # es)) (ws_hidden st)" for es by (cases ev) simp_all
  have trunc: "ws_truncated ?st1 \<or> int (length (ws_out ?st1 @ chains_in es)) > wp_maxDisplay P
      \<longleftrightarrow> ws_truncated st \<or> int (length (ws_out st @ chains_in (ev # es))) > wp_maxDisplay P" for es
    using Cons.prems(2) by (cases ev) auto
  show ?case
  proof (cases "ws_explored st + 1 \<ge> wp_maxExplore P")
    case True
    then have "?n = 0" "spend P (ev # evs) st = cut_short ?st1" using Cons.prems(1) by (simp_all add: Let_def)
    then show ?thesis unfolding met using True out [of "[]"] hid [of "[]"] happen_out(2) [OF Cons.prems(2), of ev] by (simp del: happen_simps)
  next
    case False
    then have step: "spend P (ev # evs) st = spend P evs ?st1" "ws_explored ?st1 < wp_maxExplore P" by (simp_all add: Let_def)
    have explored: "ws_explored ?st1 = ws_explored st + 1" by simp
    show ?thesis
      using Cons.IH [OF step(2) happen_out(2) [OF Cons.prems(2)]] trunc [of "take ?n evs"]
      unfolding met step(1) explored out hid by auto
  qed
qed

section \<open>Chains as walks of stacks\<close>

text \<open>One step of a chain: an edge that is neither shut nor hidden, within the depth limit.\<close>

definition open_edge :: "adjacencyIndex \<Rightarrow> walkParams \<Rightarrow> string list \<Rightarrow> edge \<Rightarrow> bool" where
  "open_edge idx P path e \<longleftrightarrow> e \<in> set (open_list idx P path) \<and> \<not> shut idx P path e \<and> \<not> noisy idx P path e"

definition push :: "walkParams \<Rightarrow> stack \<Rightarrow> edge \<Rightarrow> stack" where
  "push P s e = (fst s @ [far_end (wp_dir P) e], snd s @ [e])"

inductive continues :: "adjacencyIndex \<Rightarrow> walkParams \<Rightarrow> stack \<Rightarrow> stack \<Rightarrow> bool" for idx P where
  "open_edge idx P (fst s) e \<Longrightarrow> continues idx P s (push P s e)"

inductive_simps continues_simp: "continues idx P s t"

definition complete :: "adjacencyIndex \<Rightarrow> walkParams \<Rightarrow> stack \<Rightarrow> bool" where
  "complete idx P s \<longleftrightarrow> length (fst s) > 1 \<and> (\<nexists>e. open_edge idx P (fst s) e)"

text \<open>The chains below the edges that are left, and the classes that are pruned there.\<close>

definition chains_below :: "adjacencyIndex \<Rightarrow> walkParams \<Rightarrow> stack \<Rightarrow> edge set \<Rightarrow> stack set" where
  "chains_below idx P s E = {t. \<exists>e \<in> E. \<not> shut idx P (fst s) e \<and> \<not> noisy idx P (fst s) e \<and> (continues idx P)\<^sup>*\<^sup>* (push P s e) t \<and> complete idx P t}"

definition prunes_at :: "adjacencyIndex \<Rightarrow> walkParams \<Rightarrow> string list \<Rightarrow> edge set \<Rightarrow> noiseClass set" where
  "prunes_at idx P path E = {edge_class idx P path e | e. e \<in> E \<and> \<not> shut idx P path e \<and> noisy idx P path e}"

definition prunes_below :: "adjacencyIndex \<Rightarrow> walkParams \<Rightarrow> stack \<Rightarrow> edge set \<Rightarrow> noiseClass set" where
  "prunes_below idx P s E = prunes_at idx P (fst s) E \<union>
     {c. \<exists>e \<in> E. \<not> shut idx P (fst s) e \<and> \<not> noisy idx P (fst s) e \<and>
        (\<exists>t. (continues idx P)\<^sup>*\<^sup>* (push P s e) t \<and> c \<in> prunes_at idx P (fst t) (set (open_list idx P (fst t))))}"

lemma reaches_unfold:
  "(continues idx P)\<^sup>*\<^sup>* s t \<longleftrightarrow> t = s \<or> (\<exists>e. open_edge idx P (fst s) e \<and> (continues idx P)\<^sup>*\<^sup>* (push P s e) t)"
proof
  assume "(continues idx P)\<^sup>*\<^sup>* s t"
  then show "t = s \<or> (\<exists>e. open_edge idx P (fst s) e \<and> (continues idx P)\<^sup>*\<^sup>* (push P s e) t)"
  proof (cases rule: converse_rtranclpE)
    case (step u)
    then show ?thesis by (auto simp: continues_simp)
  qed simp
next
  assume "t = s \<or> (\<exists>e. open_edge idx P (fst s) e \<and> (continues idx P)\<^sup>*\<^sup>* (push P s e) t)"
  then show "(continues idx P)\<^sup>*\<^sup>* s t"
  proof (elim disjE exE conjE)
    fix e
    assume "open_edge idx P (fst s) e" "(continues idx P)\<^sup>*\<^sup>* (push P s e) t"
    then show "(continues idx P)\<^sup>*\<^sup>* s t" by (intro converse_rtranclp_into_rtranclp [of "continues idx P" s "push P s e" t] continues.intros)
  qed simp
qed

lemma some_reached:
  "(\<exists>t. (continues idx P)\<^sup>*\<^sup>* s t \<and> Q t) \<longleftrightarrow> Q s \<or> (\<exists>e. open_edge idx P (fst s) e \<and> (\<exists>t. (continues idx P)\<^sup>*\<^sup>* (push P s e) t \<and> Q t))"
proof
  assume "\<exists>t. (continues idx P)\<^sup>*\<^sup>* s t \<and> Q t"
  then obtain t where t: "(continues idx P)\<^sup>*\<^sup>* s t" "Q t" by blast
  from t(1) show "Q s \<or> (\<exists>e. open_edge idx P (fst s) e \<and> (\<exists>t. (continues idx P)\<^sup>*\<^sup>* (push P s e) t \<and> Q t))"
    unfolding reaches_unfold [of idx P s] using t(2) by blast
next
  assume "Q s \<or> (\<exists>e. open_edge idx P (fst s) e \<and> (\<exists>t. (continues idx P)\<^sup>*\<^sup>* (push P s e) t \<and> Q t))"
  then show "\<exists>t. (continues idx P)\<^sup>*\<^sup>* s t \<and> Q t" using reaches_unfold [THEN iffD2] by blast
qed

lemma chains_unfold:
  "{t. (continues idx P)\<^sup>*\<^sup>* s t \<and> complete idx P t}
     = (if length (fst s) > 1 \<and> (\<forall>e \<in> set (open_list idx P (fst s)). shut idx P (fst s) e \<or> noisy idx P (fst s) e) then {s} else {})
       \<union> chains_below idx P s (set (open_list idx P (fst s)))"
proof -
  have "complete idx P s \<longleftrightarrow> length (fst s) > 1 \<and> (\<forall>e \<in> set (open_list idx P (fst s)). shut idx P (fst s) e \<or> noisy idx P (fst s) e)"
    by (auto simp: complete_def open_edge_def)
  then show ?thesis unfolding chains_below_def by (subst reaches_unfold) (auto simp: open_edge_def)
qed

lemma prunes_unfold:
  "{c. \<exists>t. (continues idx P)\<^sup>*\<^sup>* s t \<and> c \<in> prunes_at idx P (fst t) (set (open_list idx P (fst t)))} = prunes_below idx P s (set (open_list idx P (fst s)))"
  unfolding prunes_below_def some_reached [of idx P s] by (auto simp: open_edge_def)

lemma below_insert:
  "chains_below idx P s (insert e E) = chains_below idx P s E \<union>
     (if shut idx P (fst s) e \<or> noisy idx P (fst s) e then {} else {t. (continues idx P)\<^sup>*\<^sup>* (push P s e) t \<and> complete idx P t})"
  "prunes_below idx P s (insert e E) = prunes_below idx P s E \<union>
     (if shut idx P (fst s) e then {} else if noisy idx P (fst s) e then {edge_class idx P (fst s) e}
      else {c. \<exists>t. (continues idx P)\<^sup>*\<^sup>* (push P s e) t \<and> c \<in> prunes_at idx P (fst t) (set (open_list idx P (fst t)))})"
  unfolding chains_below_def prunes_below_def prunes_at_def by auto

lemma events_exact:
  "set (chains_in (events idx P path vias ext es))
     = (if \<not> ext \<and> length path > 1 \<and> (\<forall>e \<in> set es. shut idx P path e \<or> noisy idx P path e) then {(path, vias)} else {})
       \<union> chains_below idx P (path, vias) (set es)
   \<and> set (prunes_in (events idx P path vias ext es)) = prunes_below idx P (path, vias) (set es)"
proof (induction idx P path vias ext es rule: events.induct)
  case (1 idx P path vias ext)
  then show ?case by (simp add: events.simps chains_below_def prunes_below_def prunes_at_def)
next
  case (2 idx P path vias ext e es)
  consider "shut idx P path e" | "\<not> shut idx P path e" "noisy idx P path e" | "\<not> shut idx P path e" "\<not> noisy idx P path e" by blast
  then show ?case
  proof cases
    case 1
    then show ?thesis using "2.IH"(1) by (simp add: events.simps below_insert)
  next
    case 2
    then show ?thesis using "2.IH"(2) [OF 2] by (simp add: events.simps below_insert)
  next
    case 3
    let ?s = "(path @ [far_end (wp_dir P) e], vias @ [e])"
    have s: "push P (path, vias) e = ?s" by (simp add: push_def)
    show ?thesis
      using "2.IH"(3) [OF 3] "2.IH"(4) [OF 3] 3 chains_unfold [of idx P ?s] prunes_unfold [of idx P ?s]
      by (simp add: events.simps below_insert s Un_commute)
  qed
qed

text \<open>The chains of a root in the order of the walk, and the classes of the edges that are pruned on the way.\<close>

definition walk_events :: "adjacencyIndex \<Rightarrow> walkParams \<Rightarrow> string \<Rightarrow> (stack + noiseClass) list" where
  "walk_events idx P root = events idx P [root] [] False (open_list idx P [root])"

definition hidden_tally :: "(noiseClass \<rightharpoonup> nat) \<Rightarrow> noiseClass \<Rightarrow> nat" where
  "hidden_tally hidden c = (case hidden c of None \<Rightarrow> 0 | Some n \<Rightarrow> n)"

definition all_chains :: "adjacencyIndex \<Rightarrow> walkParams \<Rightarrow> string \<Rightarrow> stack list" where
  "all_chains idx P root = chains_in (walk_events idx P root)"

definition all_prunes :: "adjacencyIndex \<Rightarrow> walkParams \<Rightarrow> string \<Rightarrow> noiseClass list" where
  "all_prunes idx P root = prunes_in (walk_events idx P root)"

lemma all_chains_exact:
  "set (all_chains idx P root) = {t. (continues idx P)\<^sup>*\<^sup>* ([root], []) t \<and> complete idx P t}"
  "set (all_prunes idx P root) = {c. \<exists>t. (continues idx P)\<^sup>*\<^sup>* ([root], []) t \<and> c \<in> prunes_at idx P (fst t) (set (open_list idx P (fst t)))}"
  using events_exact [of idx P "[root]" "[]" False "open_list idx P [root]"] chains_unfold [of idx P "([root], [])"]
    prunes_unfold [of idx P "([root], [])"]
  unfolding all_chains_def all_prunes_def walk_events_def by simp_all

section \<open>Stacks are paths of the graph\<close>

definition stack_ok :: "adjacencyIndex \<Rightarrow> walkParams \<Rightarrow> stack \<Rightarrow> bool" where
  "stack_ok idx P s \<longleftrightarrow> length (fst s) = Suc (length (snd s)) \<and> distinct (fst s) \<and> list_all (\<lambda>v. node_of idx v \<noteq> None) (fst s)
     \<and> (\<forall>i < length (snd s). snd s ! i \<in> set (dir_edges idx (wp_dir P) (fst s ! i)) \<and> far_end (wp_dir P) (snd s ! i) = fst s ! Suc i)"

lemma push_ok:
  assumes "stack_ok idx P s" "open_edge idx P (fst s) e"
  shows "stack_ok idx P (push P s e)"
proof -
  obtain path vias where s: "s = (path, vias)" by (cases s)
  have ok: "length path = Suc (length vias)" "distinct path" "list_all (\<lambda>v. node_of idx v \<noteq> None) path"
    "\<And>i. i < length vias \<Longrightarrow> vias ! i \<in> set (dir_edges idx (wp_dir P) (path ! i)) \<and> far_end (wp_dir P) (vias ! i) = path ! Suc i"
    using assms(1) by (simp_all add: stack_ok_def s)
  have e: "e \<in> set (dir_edges idx (wp_dir P) (last path))" "far_end (wp_dir P) e \<notin> set path" "node_of idx (far_end (wp_dir P) e) \<noteq> None"
    using assms(2) by (auto simp: open_edge_def open_list_def sortedEdges_def shut_def s split: if_splits)
  have "last path = path ! length vias" using ok(1) by (metis diff_Suc_1 last_conv_nth length_0_conv nat.distinct(1))
  then have "(vias @ [e]) ! i \<in> set (dir_edges idx (wp_dir P) ((path @ [far_end (wp_dir P) e]) ! i))
      \<and> far_end (wp_dir P) ((vias @ [e]) ! i) = (path @ [far_end (wp_dir P) e]) ! Suc i" if "i < Suc (length vias)" for i
    using that ok(1,4) e(1) by (cases "i = length vias") (simp_all add: nth_append)
  then show ?thesis using ok e unfolding stack_ok_def push_def s by simp
qed

lemma reached_ok:
  assumes "(continues idx P)\<^sup>*\<^sup>* ([root], []) t" "node_of idx root \<noteq> None"
  shows "stack_ok idx P t \<and> hd (fst t) = root"
  using assms
proof (induction rule: rtranclp_induct)
  case base
  then show ?case by (simp add: stack_ok_def)
next
  case (step s t)
  then show ?case using push_ok [of idx P s] by (auto simp: continues_simp push_def stack_ok_def hd_append)
qed

text \<open>In the order of the flow, every edge leads from one node to the next.\<close>

definition linked :: "stack \<Rightarrow> bool" where
  "linked s \<longleftrightarrow> length (fst s) = Suc (length (snd s)) \<and>
     (\<forall>i < length (snd s). ed_from (snd s ! i) = fst s ! i \<and> ed_to (snd s ! i) = fst s ! Suc i)"

lemma flow_order_linked:
  assumes "stack_ok (BuildIndex ns es) P s"
  shows "linked (flow_order (wp_dir P) s)" "set (snd s) \<subseteq> set es"
proof -
  obtain path vias where s: "s = (path, vias)" by (cases s)
  have ok: "length path = Suc (length vias)"
    "\<And>i. i < length vias \<Longrightarrow> vias ! i \<in> set (dir_edges (BuildIndex ns es) (wp_dir P) (path ! i)) \<and> far_end (wp_dir P) (vias ! i) = path ! Suc i"
    using assms by (simp_all add: stack_ok_def s)
  have "vias ! i \<in> set es" if "i < length vias" for i
    using ok(2) [OF that] by (auto simp: dir_edges_def BuildIndex_edges split: if_splits)
  then show "set (snd s) \<subseteq> set es" unfolding s by (metis in_set_conv_nth snd_conv subsetI)
  show "linked (flow_order (wp_dir P) s)"
  proof (cases "wp_dir P = DirIn")
    case False
    then show ?thesis using ok by (simp add: linked_def flow_order_def s dir_edges_def BuildIndex_edges far_end_def)
  next
    case True
    have "ed_from (rev vias ! i) = rev path ! i \<and> ed_to (rev vias ! i) = rev path ! Suc i" if i: "i < length vias" for i
    proof -
      let ?j = "length vias - Suc i"
      have "Suc ?j = length vias - i" "rev path ! i = path ! (length vias - i)" "rev path ! Suc i = path ! ?j" "rev vias ! i = vias ! ?j"
        using i ok(1) by (simp_all add: rev_nth)
      then show ?thesis using ok(2) [of ?j] i True by (simp add: dir_edges_def BuildIndex_edges far_end_def)
    qed
    then show ?thesis using True ok(1) by (simp add: linked_def flow_order_def s)
  qed
qed

section \<open>How a chain reads\<close>

lemma mark_crossings_nth:
  "i < length hs \<Longrightarrow> mark_crossings svc hs ! i
     = (if th_service (hs ! i) \<noteq> (case i of 0 \<Rightarrow> svc | Suc j \<Rightarrow> th_service (hs ! j)) then (hs ! i)\<lparr>th_cross := True\<rparr> else hs ! i)"
proof (induction hs arbitrary: svc i)
  case (Cons h hs)
  then show ?case by (cases i) (auto split: nat.split)
qed simp

lemma mark_crossings_length [simp]: "length (mark_crossings svc hs) = length hs"
  by (induction hs arbitrary: svc) simp_all

text \<open>Every hop after the first has the edge from the hop before it, and its mark says whether the service changes.\<close>

definition reads_as_flow :: "edge list \<Rightarrow> traceHop list \<Rightarrow> bool" where
  "reads_as_flow es hs \<longleftrightarrow> (\<forall>i. Suc i < length hs \<longrightarrow> (\<exists>e \<in> set es. ed_from e = th_id (hs ! i) \<and> ed_to e = th_id (hs ! Suc i)
     \<and> th_edgeType (hs ! Suc i) = ed_type e \<and> th_confidence (hs ! Suc i) = ed_confidence e
     \<and> (th_cross (hs ! Suc i) \<longleftrightarrow> th_service (hs ! i) \<noteq> th_service (hs ! Suc i))))"

lemma chain_hops_nth:
  assumes "length ns = Suc (length es)"
  shows "length (chain_hops idx ns es) = length ns" "chain_hops idx ns es ! 0 = nodeHop (ns ! 0)"
    "i < length es \<Longrightarrow> chain_hops idx ns es ! Suc i
       = (let h = applyEdge idx (es ! i) (nodeHop (ns ! Suc i)) in if nd_service (ns ! Suc i) \<noteq> nd_service (ns ! i) then h\<lparr>th_cross := True\<rparr> else h)"
proof -
  obtain n rest where ns: "ns = n # rest" using assms by (cases ns) simp_all
  have len: "length es = length rest" using assms ns by simp
  then show "length (chain_hops idx ns es) = length ns" "chain_hops idx ns es ! 0 = nodeHop (ns ! 0)" by (simp_all add: chain_hops_def ns)
  assume i: "i < length es"
  have svc: "th_service (applyEdge idx e (nodeHop m)) = nd_service m" for e m by (simp add: applyEdge_def nodeHop_def)
  show "chain_hops idx ns es ! Suc i
       = (let h = applyEdge idx (es ! i) (nodeHop (ns ! Suc i)) in if nd_service (ns ! Suc i) \<noteq> nd_service (ns ! i) then h\<lparr>th_cross := True\<rparr> else h)"
    using i len by (cases i) (simp_all add: chain_hops_def ns mark_crossings_nth svc Let_def)
qed

lemma chain_reads:
  assumes idx: "idx = BuildIndex ns es" and s: "stack_ok idx P s"
  obtains c where "buildChain idx (wp_dir P) s = Some c" "map th_id (ch_hops c) = fst (flow_order (wp_dir P) s)" "reads_as_flow es (ch_hops c)"
    "ch_text c = renderChain (ch_hops c)"
proof -
  obtain path vias where fo: "flow_order (wp_dir P) s = (path, vias)" by fastforce
  have l: "length path = Suc (length vias)" "\<And>i. i < length vias \<Longrightarrow> ed_from (vias ! i) = path ! i \<and> ed_to (vias ! i) = path ! Suc i"
    using flow_order_linked(1) [of ns es P s] s idx fo by (simp_all add: linked_def)
  have sub: "set vias \<subseteq> set es" using flow_order_linked(2) [of ns es P s] s idx fo by (auto simp: flow_order_def split: if_splits)
  have known: "node_of idx v \<noteq> None" if "v \<in> set path" for v
    using s that fo by (auto simp: stack_ok_def flow_order_def list_all_iff split: if_splits)
  let ?ms = "map (\<lambda>v. the (node_of idx v)) path"
  have ms: "those (map (node_of idx) path) = Some ?ms" by (rule those_map_Some) (use known in auto)
  let ?hs = "chain_hops idx ?ms vias"
  have len: "length ?ms = Suc (length vias)" using l(1) by simp
  have node: "node_of idx (path ! i) = Some (?ms ! i)" "nd_id (?ms ! i) = path ! i" if "i < length path" for i
    using known [of "path ! i"] that keyed_id [OF BuildIndex_keyed, of ns es "path ! i"] by (auto simp: idx)
  note nth = chain_hops_nth [OF len, where idx = idx]
  have ids: "map th_id ?hs = path"
  proof (rule nth_equalityI)
    show "length (map th_id ?hs) = length path" using nth(1) by simp
    fix i
    assume i: "i < length (map th_id ?hs)"
    show "map th_id ?hs ! i = path ! i"
    proof (cases i)
      case 0
      then show ?thesis using i nth(1,2) node(2) [of 0] by (simp add: hd_conv_nth nodeHop_def)
    next
      case (Suc j)
      then have "j < length vias" using i nth(1) len by simp
      then show ?thesis using i nth(1) nth(3) [of j] node(2) [of i] Suc l(1) by (simp add: applyEdge_def nodeHop_def Let_def)
    qed
  qed
  have "reads_as_flow es ?hs" unfolding reads_as_flow_def
  proof (intro allI impI)
    fix i
    assume "Suc i < length ?hs"
    then have i: "i < length vias" using nth(1) len by simp
    have th: "th_id (?hs ! i) = path ! i" "th_id (?hs ! Suc i) = path ! Suc i" using ids i l(1) by (metis length_map nth_map less_Suc_eq Suc_less_eq)+
    have svc: "th_service (?hs ! j) = nd_service (?ms ! j)" if "j < length path" for j
      using that nth(2) nth(3) [of "j - 1"] l(1) by (cases j) (simp_all add: hd_conv_nth nodeHop_def applyEdge_def Let_def)
    have cross: "edge_crosses idx (vias ! i) \<longleftrightarrow> nd_service (?ms ! i) \<noteq> nd_service (?ms ! Suc i)"
      unfolding edge_crosses_def using l(2) [OF i] known [of "path ! i"] known [of "path ! Suc i"] i l(1)
      by (cases "node_of idx (path ! i)"; cases "node_of idx (path ! Suc i)") simp_all
    have hop: "th_edgeType (?hs ! Suc i) = ed_type (vias ! i)" "th_confidence (?hs ! Suc i) = ed_confidence (vias ! i)"
      "th_cross (?hs ! Suc i) \<longleftrightarrow> edge_crosses idx (vias ! i) \<or> nd_service (?ms ! Suc i) \<noteq> nd_service (?ms ! i)"
      unfolding nth(3) [OF i] by (simp_all add: applyEdge_def nodeHop_def Let_def)
    have services: "th_service (?hs ! i) = nd_service (?ms ! i)" "th_service (?hs ! Suc i) = nd_service (?ms ! Suc i)"
      using svc [of i] svc [of "Suc i"] i l(1) by linarith+
    have "vias ! i \<in> set es" using i sub nth_mem by blast
    then show "\<exists>e \<in> set es. ed_from e = th_id (?hs ! i) \<and> ed_to e = th_id (?hs ! Suc i) \<and> th_edgeType (?hs ! Suc i) = ed_type e
        \<and> th_confidence (?hs ! Suc i) = ed_confidence e \<and> (th_cross (?hs ! Suc i) \<longleftrightarrow> th_service (?hs ! i) \<noteq> th_service (?hs ! Suc i))"
      unfolding th services hop cross using l(2) [OF i] by metis
  qed
  then show thesis using that [of "\<lparr>ch_hops = ?hs, ch_text = renderChain ?hs\<rparr>"] ids fo ms by (simp add: buildChain_def Let_def)
qed

section \<open>The enumeration\<close>

lemma bump_count: "(case fold bump cs m c of None \<Rightarrow> 0 | Some n \<Rightarrow> n) = (case m c of None \<Rightarrow> 0 | Some n \<Rightarrow> n) + count_list cs c"
  by (induction cs arbitrary: m) (auto simp: bump_def split: option.split)

lemma events_parts: "length (chains_in evs) + length (prunes_in evs) = length evs"
  by (induction evs) (auto simp: chains_in_def prunes_in_def)

lemma built_all:
  assumes "idx = BuildIndex ns es" "\<forall>s \<in> set ss. stack_ok idx P s"
  shows "\<exists>cs. those (map (buildChain idx (wp_dir P)) ss) = Some cs \<and> map Some cs = map (buildChain idx (wp_dir P)) ss"
  using assms(2)
proof (induction ss)
  case (Cons s ss)
  then obtain cs where "those (map (buildChain idx (wp_dir P)) ss) = Some cs" "map Some cs = map (buildChain idx (wp_dir P)) ss" by auto
  moreover obtain c where "buildChain idx (wp_dir P) s = Some c" using chain_reads [OF assms(1), of P s] Cons.prems by auto
  ultimately show ?case by (intro exI [of _ "c # cs"]) simp
qed simp

lemma chains_exact_raw:
  assumes idx: "idx = BuildIndex ns es" and root: "node_of idx root \<noteq> None"
    and pos: "0 < wp_maxDisplay P" "0 < wp_maxExplore P"
  shows "\<exists>cs hidden cutoff met. enumerateChains idx root P = Some (cs, hidden, cutoff) \<and> met = take (nat (wp_maxExplore P)) (walk_events idx P root)
    \<and> map Some cs = map (buildChain idx (wp_dir P)) (take (nat (wp_maxDisplay P)) (chains_in met))
    \<and> hidden_tally hidden = count_list (prunes_in met)
    \<and> (cutoff \<longleftrightarrow> int (length (chains_in met)) > wp_maxDisplay P \<or> int (length (walk_events idx P root)) \<ge> wp_maxExplore P)"
proof -
  let ?st0 = "\<lparr>ws_out = [], ws_explored = 0, ws_hidden = Map.empty, ws_truncated = False\<rparr>"
  let ?evs = "walk_events idx P root"
  define st where "st = spend P ?evs ?st0"
  define met where "met = take (nat (wp_maxExplore P)) ?evs"
  have walk: "walk idx P [root] [] False (open_list idx P [root]) ?st0 = st"
    unfolding st_def walk_events_def using pos(2) by (intro root_spends) simp_all
  have spent: "ws_out st = take (nat (wp_maxDisplay P)) (chains_in met)" "ws_hidden st = fold bump (prunes_in met) Map.empty"
    "ws_truncated st \<longleftrightarrow> int (length (chains_in met)) > wp_maxDisplay P \<or> int (length ?evs) \<ge> wp_maxExplore P"
    using spend_exact [of ?st0 P ?evs] pos unfolding st_def met_def by simp_all
  have "set (ws_out st) \<subseteq> set (all_chains idx P root)" unfolding spent(1) met_def all_chains_def by (rule first_chains)
  then have "\<forall>s \<in> set (ws_out st). stack_ok idx P s" using all_chains_exact(1) [of idx P root] reached_ok [OF _ root] by blast
  then obtain cs where cs: "those (map (buildChain idx (wp_dir P)) (ws_out st)) = Some cs" "map Some cs = map (buildChain idx (wp_dir P)) (ws_out st)"
    using built_all [OF idx] by blast
  have "enumerateChains idx root P = Some (cs, ws_hidden st, ws_truncated st)"
    using pos by (simp add: enumerateChains_def walk cs(1))
  moreover have "hidden_tally (ws_hidden st) = count_list (prunes_in met)"
    unfolding spent(2) using bump_count [of "prunes_in met" Map.empty] by (simp add: hidden_tally_def fun_eq_iff)
  ultimately show ?thesis using cs(2) spent(1,3)
    by (intro exI [of _ cs] exI [of _ "ws_hidden st"] exI [of _ "ws_truncated st"] exI [of _ met]) (simp add: met_def)
qed

text \<open>
  C22: the chains of a trace, whether the budget suffices or not. On a built index the enumeration never panics. The
  reference is the list of events of a walk without bounds, in its order: its chains are exactly the simple paths
  from the root, over edges that are not hidden, that cannot be continued within the depth limit, and its hidden
  edges are exactly those met on such paths. The budget buys the first events of that list, as many as it
  allows. The answer shows the first chains among these, as many as the display holds, and tallies every hidden edge
  among them under its class. It is marked as cut exactly when one of these chains did not fit the display or when
  the list has at least as many events as the budget, so also when the last event spends it
  (\<open>complete_but_cut\<close>, against the comment on \<open>enumerateChains\<close>).
\<close>

theorem chains_exact:
  assumes idx: "idx = BuildIndex ns es" and root: "node_of idx root \<noteq> None"
    and pos: "0 < wp_maxDisplay P" "0 < wp_maxExplore P"
  shows "\<exists>cs hidden cutoff met. enumerateChains idx root P = Some (cs, hidden, cutoff) \<and> met = take (nat (wp_maxExplore P)) (walk_events idx P root)
    \<and> map Some cs = map (buildChain idx (wp_dir P)) (take (nat (wp_maxDisplay P)) (chains_in met))
    \<and> hidden_tally hidden = count_list (prunes_in met)
    \<and> (cutoff \<longleftrightarrow> int (length (chains_in met)) > wp_maxDisplay P \<or> int (length (walk_events idx P root)) \<ge> wp_maxExplore P)
    \<and> set (chains_in (walk_events idx P root)) = {t. (continues idx P)\<^sup>*\<^sup>* ([root], []) t \<and> complete idx P t}
    \<and> set (prunes_in (walk_events idx P root))
        = {c. \<exists>t. (continues idx P)\<^sup>*\<^sup>* ([root], []) t \<and> c \<in> prunes_at idx P (fst t) (set (open_list idx P (fst t)))}"
  using chains_exact_raw [OF assms] all_chains_exact [of idx P root] unfolding all_chains_def all_prunes_def by simp

section \<open>The answer\<close>

text \<open>What a chain of the answer is, in a direction of the walk.\<close>

definition flow_chain :: "edge list \<Rightarrow> string \<Rightarrow> string \<Rightarrow> chain \<Rightarrow> bool" where
  "flow_chain es dir root c \<longleftrightarrow> length (ch_hops c) > 1 \<and> distinct (map th_id (ch_hops c)) \<and> reads_as_flow es (ch_hops c)
     \<and> ch_text c = renderChain (ch_hops c)
     \<and> (if dir = DirIn then th_id (last (ch_hops c)) = root else th_id (hd (ch_hops c)) = root)"

lemma complete_chain:
  assumes idx: "idx = BuildIndex ns es" and root: "node_of idx root \<noteq> None"
    and t: "(continues idx P)\<^sup>*\<^sup>* ([root], []) t" "complete idx P t" and c: "buildChain idx (wp_dir P) t = Some c"
  shows "flow_chain es (wp_dir P) root c"
proof -
  have ok: "stack_ok idx P t" "hd (fst t) = root" using reached_ok [OF t(1) root] by simp_all
  obtain c' where c': "buildChain idx (wp_dir P) t = Some c'" "map th_id (ch_hops c') = fst (flow_order (wp_dir P) t)" "reads_as_flow es (ch_hops c')"
    "ch_text c' = renderChain (ch_hops c')" by (rule chain_reads [OF idx ok(1)])
  have len: "length (fst t) > 1" using t(2) by (simp add: complete_def)
  then have ne: "fst t \<noteq> []" "ch_hops c' \<noteq> []" "length (ch_hops c') = length (fst t)"
    using arg_cong [OF c'(2), of length] by (auto simp: flow_order_def split: if_splits)
  have "distinct (map th_id (ch_hops c'))" using ok(1) unfolding c'(2) by (simp add: stack_ok_def flow_order_def)
  moreover have "if wp_dir P = DirIn then th_id (last (ch_hops c')) = root else th_id (hd (ch_hops c')) = root"
    using ne(1,2) ok(2) c'(2) by (auto simp: flow_order_def last_rev hd_map last_map split: if_splits)
      (metis hd_map last_map last_rev)+
  ultimately show ?thesis using c c' len ne(3) unfolding flow_chain_def by (auto split: if_splits)
qed

lemma enumerated_chains:
  assumes idx: "idx = BuildIndex ns es" and root: "node_of idx root \<noteq> None" and e: "enumerateChains idx root P = Some (cs, hidden, cutoff)"
    and explore: "0 < wp_maxExplore P"
  shows "list_all (flow_chain es (wp_dir P) root) cs" "int (length cs) \<le> max 0 (wp_maxDisplay P)"
proof -
  have "list_all (flow_chain es (wp_dir P) root) cs \<and> int (length cs) \<le> max 0 (wp_maxDisplay P)"
  proof (cases "0 < wp_maxDisplay P")
    case False
    then show ?thesis using e by (simp add: enumerateChains_def)
  next
    case True
    define shown where "shown = take (nat (wp_maxDisplay P)) (chains_in (take (nat (wp_maxExplore P)) (walk_events idx P root)))"
    have s: "map Some cs = map (buildChain idx (wp_dir P)) shown" "set shown \<subseteq> set (all_chains idx P root)" "int (length shown) \<le> wp_maxDisplay P"
      using chains_exact_raw [OF idx root True explore] e True first_chains unfolding shown_def all_chains_def by auto
    have "flow_chain es (wp_dir P) root c" if "c \<in> set cs" for c
    proof -
      have "Some c \<in> set (map (buildChain idx (wp_dir P)) shown)" unfolding s(1) [symmetric] using that by simp
      then obtain t where t: "t \<in> set shown" "buildChain idx (wp_dir P) t = Some c" by auto
      then have "t \<in> set (all_chains idx P root)" using s(2) by blast
      then show ?thesis using complete_chain [OF idx root _ _ t(2)] by (simp add: all_chains_exact(1))
    qed
    moreover have "length cs = length shown" using arg_cong [OF s(1), of length] by simp
    ultimately show ?thesis using s(3) by (simp add: list_all_iff)
  qed
  then show "list_all (flow_chain es (wp_dir P) root) cs" "int (length cs) \<le> max 0 (wp_maxDisplay P)" by simp_all
qed

lemma direction_chains:
  assumes "trace_direction idx root dir depth inc ex p = Some q"
  obtains cs hid cutoff where "enumerateChains idx root (chain_params dir depth inc ex (tp_chains p)) = Some (cs, hid, cutoff)"
    "tp_chains q = tp_chains p @ cs"
  using assms by (auto simp: trace_direction_def Let_def split: prod.splits)

lemma chain_params_simps [simp]:
  "wp_dir (chain_params dir depth inc ex before) = dir" "0 < wp_maxExplore (chain_params dir depth inc ex before)"
  "wp_maxDisplay (chain_params dir depth inc ex before) = MaxChains - int (length before)"
  by (simp_all add: chain_params_def ExploreChains_def MaxChains_def)

text \<open>
  C23: a trace reads as the flow. Every chain of an answer has distinct nodes, of which each but the first has an
  edge of the graph from the one before it, with a mark exactly where the service changes; forward chains begin
  with the root and backward chains end with it; and there are never more than a hundred.
\<close>

theorem trace_reads_as_flow:
  assumes "Run_trace (BuildIndex ns es) root dirn depth inc ex = Some (Some r)"
  shows "list_all (\<lambda>c. flow_chain es DirIn root c \<and> dirn \<noteq> ''forward'' \<or> flow_chain es DirOut root c \<and> dirn \<noteq> ''backward'') (tc_chains r)
    \<and> length (tc_chains r) \<le> 100"
proof -
  let ?idx = "BuildIndex ns es" and ?p0 = "\<lparr>tp_nodes = [], tp_edges = [], tp_chains = [], tp_hidden = Map.empty, tp_truncated = False\<rparr>"
  from assms have root: "node_of ?idx root \<noteq> None" by (auto simp: Run_trace_def split: option.splits)
  from assms obtain q where q: "Run_parts ?idx root dirn depth inc ex = Some q" "tc_chains r = tp_chains q"
    by (auto simp: Run_trace_def split: option.splits)
  then obtain p where p: "(if goes dirn ''backward'' then trace_direction ?idx root DirIn depth inc ex ?p0 else Some ?p0) = Some p"
      "(if goes dirn ''forward'' then trace_direction ?idx root DirOut depth inc ex p else Some p) = Some q"
    unfolding Run_parts_def Let_def by (auto simp: bind_eq_Some_conv simp del: split_paired_All)
  have new: "list_all (flow_chain es dir root) cs \<and> length (before @ cs) \<le> 100"
    if "enumerateChains ?idx root (chain_params dir depth inc ex before) = Some (cs, hid, cutoff)" "length before \<le> 100" for dir before cs hid cutoff
    using enumerated_chains [OF refl root that(1)] that(2) by (auto simp: MaxChains_def)
  have bwd: "list_all (\<lambda>c. flow_chain es DirIn root c \<and> dirn \<noteq> ''forward'') (tp_chains p) \<and> length (tp_chains p) \<le> 100"
  proof (cases "goes dirn ''backward''")
    case True
    then obtain cs hid cutoff where "enumerateChains ?idx root (chain_params DirIn depth inc ex []) = Some (cs, hid, cutoff)" "tp_chains p = cs"
      using p(1) by (auto elim: direction_chains)
    then show ?thesis using new [of DirIn "[]"] True by (auto simp: goes_def list_all_iff)
  next
    case False
    then show ?thesis using p(1) by auto
  qed
  show ?thesis
  proof (cases "goes dirn ''forward''")
    case True
    then obtain cs hid cutoff where "enumerateChains ?idx root (chain_params DirOut depth inc ex (tp_chains p)) = Some (cs, hid, cutoff)"
        "tp_chains q = tp_chains p @ cs"
      using p(2) by (auto elim: direction_chains)
    then show ?thesis using new [of DirOut "tp_chains p"] bwd True unfolding q(2) by (auto simp: goes_def list_all_iff)
  next
    case False
    then show ?thesis using p(2) bwd unfolding q(2) by (auto simp: list_all_iff)
  qed
qed

text \<open>
  The chains alone. The corpus builder, which skips the flat listing and its tallies, gets exactly the chains
  of the full answer.
\<close>

theorem chains_only_agrees:
  "ChainsOnly idx root dirn depth inc ex = map_option (map_option tc_chains) (Run_trace idx root dirn depth inc ex)"
proof (cases "node_of idx root")
  case None
  then show ?thesis by (simp add: ChainsOnly_def Run_trace_def)
next
  case (Some n)
  have dir: "map_option tp_chains (trace_direction idx root dir depth inc ex p)
      = map_option (\<lambda>r. tp_chains p @ fst r) (enumerateChains idx root (chain_params dir depth inc ex (tp_chains p)))" for dir p
    by (cases "enumerateChains idx root (chain_params dir depth inc ex (tp_chains p))") (auto simp: trace_direction_def Let_def split: prod.splits)
  let ?p0 = "\<lparr>tp_nodes = [], tp_edges = [], tp_chains = [], tp_hidden = Map.empty, tp_truncated = False\<rparr>"
  let ?bwd = "if goes dirn ''backward'' then trace_direction idx root DirIn depth inc ex ?p0 else Some ?p0"
  have bwd: "map_option tp_chains ?bwd = (if goes dirn ''backward''
      then map_option fst (enumerateChains idx root (chain_params DirIn depth inc ex [])) else Some [])"
    using dir [of DirIn ?p0] by simp
  have parts: "map_option tp_chains (Run_parts idx root dirn depth inc ex)
      = Option.bind (map_option tp_chains ?bwd) (\<lambda>cs. if goes dirn ''forward''
          then map_option (\<lambda>r. cs @ fst r) (enumerateChains idx root (chain_params DirOut depth inc ex cs)) else Some cs)"
    unfolding Run_parts_def Let_def by (cases ?bwd) (auto simp: dir)
  have "map_option (map_option tc_chains) (Run_trace idx root dirn depth inc ex)
      = map_option Some (map_option tp_chains (Run_parts idx root dirn depth inc ex))"
    using Some by (simp add: Run_trace_def option.map_comp o_def)
  then show ?thesis unfolding ChainsOnly_def parts bwd using Some by simp
qed

section \<open>A trace at work\<close>

text \<open>
  \<open>a\<close> calls \<open>c\<close>, also by way of \<open>b\<close>, which lives in another service and calls \<open>c\<close> with partial confidence;
  \<open>a\<close> contains \<open>d\<close>.
\<close>

definition town_nodes :: "node list" where
  "town_nodes = [dead_node ''a'' NodeTypeFunction ''x.go'' [], (dead_node ''b'' NodeTypeFunction ''y.go'' [])\<lparr>nd_service := ''t''\<rparr>,
     dead_node ''c'' NodeTypeFunction ''x.go'' [], dead_node ''d'' NodeTypeVariable ''x.go'' []]"

definition town_edges :: "edge list" where
  "town_edges = [mk_edge ''a'' ''c'' ''calls'', mk_edge ''a'' ''b'' ''calls'', (mk_edge ''b'' ''c'' ''calls'')\<lparr>ed_confidence := ConfidencePartial\<rparr>,
     mk_edge ''a'' ''d'' ''contains'']"

definition tour :: adjacencyIndex where "tour = BuildIndex town_nodes town_edges"

definition tour_params :: "int \<Rightarrow> walkParams" where
  "tour_params explore = \<lparr>wp_dir = DirOut, wp_maxDepth = 0, wp_maxDisplay = 10, wp_maxExplore = explore, wp_include = []\<rparr>"

definition texts :: "traceResult option option \<Rightarrow> string list option" where
  "texts r = (case r of Some (Some t) \<Rightarrow> Some (map ch_text (tc_chains t)) | _ \<Rightarrow> None)"

lemma tour_texts:
  "texts (Run_trace tour ''c'' ''backward'' 0 [] 0) = Some [''(s) x.go:1 a -[calls]-> x.go:1 c'',
     ''(s) x.go:1 a -[calls]-> '' @ service_bar @ ''t'' @ service_bar @ '' y.go:1 b -[calls?]-> '' @ service_bar @ ''s'' @ service_bar @ '' x.go:1 c'']"
  by code_simp

lemma tour_events:
  "map fst (all_chains tour (tour_params 10) ''a'') = [[''a'', ''b'', ''c''], [''a'', ''c'']]" "all_prunes tour (tour_params 10) ''a'' = [''containment'']"
  by code_simp+

text \<open>With a budget of two events the walk shows the first two chains and does not meet the hidden edge.\<close>

theorem chains_exact_witness:
  "\<exists>cs hidden. enumerateChains tour ''a'' (tour_params 2) = Some (cs, hidden, True) \<and> length cs = 2 \<and> hidden_tally hidden ''containment'' = 0"
proof -
  have root: "node_of tour ''a'' \<noteq> None" by code_simp
  have evs: "map (map_sum fst id) (walk_events tour (tour_params 2) ''a'') = [Inl [''a'', ''b'', ''c''], Inl [''a'', ''c''], Inr ''containment'']" by code_simp
  have "length (walk_events tour (tour_params 2) ''a'') = Suc (Suc (Suc 0))" using arg_cong [OF evs, of length] by simp
  then obtain e1 e2 z where es: "walk_events tour (tour_params 2) ''a'' = [e1, e2, z]" by (auto simp: length_Suc_conv)
  have "isl e1" "isl e2" using evs unfolding es by (cases e1; cases e2; simp)+
  then obtain x y where xyz: "walk_events tour (tour_params 2) ''a'' = [Inl x, Inl y, z]" unfolding es by (auto simp: isl_def)
  have par: "wp_maxDisplay (tour_params 2) = 10" "wp_maxExplore (tour_params 2) = 2" by (simp_all add: tour_params_def)
  then obtain cs hidden cutoff where *: "enumerateChains tour ''a'' (tour_params 2) = Some (cs, hidden, cutoff)"
      "map Some cs = map (buildChain tour (wp_dir (tour_params 2))) [x, y]" "hidden_tally hidden = count_list []" "cutoff"
    using chains_exact [OF tour_def root, of "tour_params 2"] by (auto simp: xyz numeral_2_eq_2)
  have "length (map Some cs) = 2" unfolding *(2) by simp
  then show ?thesis using * by auto
qed

theorem trace_reads_as_flow_witness:
  "\<exists>r. Run_trace (BuildIndex town_nodes town_edges) ''c'' ''backward'' 0 [] 0 = Some (Some r) \<and> length (tc_chains r) = 2
     \<and> list_all (\<lambda>c. th_id (last (ch_hops c)) = ''c'') (tc_chains r)"
proof -
  obtain r where r: "Run_trace (BuildIndex town_nodes town_edges) ''c'' ''backward'' 0 [] 0 = Some (Some r)" "length (tc_chains r) = 2"
    using arg_cong [OF tour_texts, of "map_option length"] unfolding texts_def tour_def by (auto split: option.splits)
  have "list_all (\<lambda>c. th_id (last (ch_hops c)) = ''c'') (tc_chains r)"
    using conjunct1 [OF trace_reads_as_flow [OF r(1)]] by (auto simp: list_all_iff flow_chain_def split: if_splits)
  then show ?thesis using r by blast
qed

section \<open>Departures\<close>

text \<open>A budget that is spent by the last event marks a complete answer as cut.\<close>

lemma complete_but_cut:
  "map_option (\<lambda>(cs, hidden, cutoff). (length cs, cutoff)) (enumerateChains tour ''a'' (tour_params 3)) = Some (2, True)"
  "map_option (\<lambda>(cs, hidden, cutoff). (length cs, cutoff)) (enumerateChains tour ''a'' (tour_params 4)) = Some (2, False)"
  by code_simp+

text \<open>The tally of hidden classes, which is documented as one of chains, counts the edge of the listing again.\<close>

lemma hidden_counted_twice:
  "(case Run_trace tour ''a'' ''forward'' 0 [] 0 of Some (Some t) \<Rightarrow> tc_hidden t ''containment'' | _ \<Rightarrow> None) = Some 2"
  by code_simp

text \<open>
  The verdict looks at the edges over which the traversal found its nodes, not at those of the chains: it is exact
  although a chain of the answer has an edge of partial confidence.
\<close>

lemma weak_chain_exact_verdict:
  "(case Run_trace tour ''a'' ''forward'' 0 [] 0 of
      Some (Some t) \<Rightarrow> Some (ep_verdict (FinalizeEpistemic_trace fresh t) = EpistemicExact,
        list_ex (\<lambda>c. list_ex (\<lambda>h. th_confidence h = ConfidencePartial) (ch_hops c)) (tc_chains t))
    | _ \<Rightarrow> None) = Some (True, True)"
  by code_simp

text \<open>The hops of the chains that the corpus gets carry the sources of their edges.\<close>

lemma corpus_chains_have_sources:
  "(case ChainsOnly (BuildIndex town_nodes [(mk_edge ''a'' ''b'' ''calls'')\<lparr>ed_sources := [static_source ConfidenceStatic [] ''L1'' []]\<rparr>]) ''a'' ''forward'' 0 [] 0 of
      Some (Some cs) \<Rightarrow> map (\<lambda>c. map (\<lambda>h. length (th_sources h)) (ch_hops c)) cs
    | _ \<Rightarrow> []) = [[0, 1]]"
  by code_simp


end
