(* ===== verification/Budgets.thy ===== *)
theory Budgets
  imports Dead_Code "HOL-Library.Sublist"
begin

text \<open>
  Token budgets (\<open>internal/budget/budget.go\<close>): the search for the longest prefix that fits, the second pass
  over what was omitted, and source snippets. The cost of an output is the length of its JSON encoding, so the
  estimate is an argument; the content of a file is an argument too, and \<open>None\<close> when it cannot be read.
\<close>

section \<open>Estimates\<close>

definition LevelDetail :: string where "LevelDetail = ''detail''"
definition LevelSummary :: string where "LevelSummary = ''summary''"

definition bytesPerToken :: nat where "bytesPerToken = 4"

text \<open>The length of the encoding, or \<open>None\<close> when it fails.\<close>

definition Estimate :: "nat option \<Rightarrow> nat" where
  "Estimate len = (case len of None \<Rightarrow> 0 | Some n \<Rightarrow> (n + bytesPerToken - 1) div bytesPerToken)"

record budgetInfo =
  bi_maxTokens :: int
  bi_estimated :: int
  bi_level :: string
  bi_note :: string
  bi_omittedFiles :: nat

definition AppendNote :: "string \<Rightarrow> budgetInfo \<Rightarrow> budgetInfo" where
  "AppendNote note i = i\<lparr>bi_note := (if bi_note i = [] then note else bi_note i @ ''; '' @ note)\<rparr>"

section \<open>The longest prefix\<close>

function trim_loop :: "(int \<Rightarrow> int) \<Rightarrow> int \<Rightarrow> int \<Rightarrow> int \<Rightarrow> int \<Rightarrow> int" where
  "trim_loop est maxTokens best lo hi =
     (if lo \<le> hi then
        let mid = (lo + hi) div 2 in
        if est mid \<le> maxTokens then trim_loop est maxTokens mid (mid + 1) hi
        else trim_loop est maxTokens best lo (mid - 1)
      else best)"
  by pat_completeness auto

termination
  by (relation "measure (\<lambda>(est, mx, best, lo, hi). nat (hi - lo + 1))") auto

declare trim_loop.simps [simp del]

definition TrimToFit :: "int \<Rightarrow> int \<Rightarrow> (int \<Rightarrow> int) \<Rightarrow> int" where
  "TrimToFit count maxTokens est =
     (if count \<le> 1 \<or> est count \<le> maxTokens then count else trim_loop est maxTokens 1 1 (count - 1))"

section \<open>What still fits\<close>

fun backfill_loop :: "(nat \<Rightarrow> int) \<Rightarrow> int \<Rightarrow> nat list \<Rightarrow> nat list" where
  "backfill_loop cost headroom [] = []"
| "backfill_loop cost headroom (i # is) =
     (if cost i > headroom then backfill_loop cost headroom is else i # backfill_loop cost (headroom - cost i) is)"

definition Backfill :: "nat \<Rightarrow> nat \<Rightarrow> int \<Rightarrow> int \<Rightarrow> (nat \<Rightarrow> int) \<Rightarrow> nat list" where
  "Backfill n kept maxTokens used cost =
     (if kept \<ge> n then []
      else if maxTokens - used \<le> 0 then []
      else backfill_loop cost (maxTokens - used) [kept..<n])"

section \<open>Snippets\<close>

definition newline :: char where "newline = CHR 0x0A"

text \<open>Lines from a 1-based start; out of range reads as nothing.\<close>

definition Snippet :: "string option \<Rightarrow> int \<Rightarrow> int \<Rightarrow> string" where
  "Snippet content start n =
     (case content of
        None \<Rightarrow> []
      | Some data \<Rightarrow>
          let lines = split_on newline data in
          if n \<le> 0 \<or> start \<le> 0 \<or> start > int (length lines) then []
          else str_join [newline] (take (nat (min (start - 1 + n) (int (length lines)) - (start - 1))) (drop (nat (start - 1)) lines)))"

definition SnippetSpan :: "string option \<Rightarrow> int \<Rightarrow> int \<Rightarrow> int \<Rightarrow> string \<times> bool" where
  "SnippetSpan content start end' maxLines =
     (case content of
        None \<Rightarrow> ([], False)
      | Some data \<Rightarrow>
          let lines = split_on newline data in
          if start \<le> 0 \<or> maxLines \<le> 0 \<or> start > int (length lines) then ([], False)
          else let last0 = min (if end' < start then start - 1 + maxLines else end') (int (length lines));
                   truncated = last0 - start + 1 > maxLines;
                   last1 = (if truncated then start - 1 + maxLines else last0) in
            (str_join [newline] (take (nat (last1 - (start - 1))) (drop (nat (start - 1)) lines)), truncated))"

section \<open>Appending to a slice\<close>

text \<open>
  The caller appends the admitted items to the prefix it kept. The prefix is a slice of the full list, whose array has
  room for them, so Go writes them over the omitted items, one after the other, while it reads the items from
  that same array.
\<close>

fun append_in_place :: "nat \<Rightarrow> nat list \<Rightarrow> 'a list \<Rightarrow> 'a list" where
  "append_in_place k [] xs = take k xs"
| "append_in_place k (i # is) xs = append_in_place (Suc k) is (xs[k := xs ! i])"

lemma append_in_place_safe:
  "sorted_wrt (<) is \<Longrightarrow> \<forall>i \<in> set is. k \<le> i \<and> i < length xs \<Longrightarrow> append_in_place k is xs = take k xs @ map (\<lambda>i. xs ! i) is"
proof (induction "is" arbitrary: k xs)
  case Nil
  then show ?case by simp
next
  case (Cons i "is")
  have k: "k < length xs" using Cons.prems(2) by auto
  have "append_in_place (Suc k) is (xs[k := xs ! i]) = take (Suc k) (xs[k := xs ! i]) @ map (\<lambda>j. xs[k := xs ! i] ! j) is"
    using Cons.prems by (intro Cons.IH) auto
  moreover have "map (\<lambda>j. xs[k := xs ! i] ! j) is = map (\<lambda>j. xs ! j) is"
    using Cons.prems by (intro map_cong refl nth_list_update_neq) auto
  moreover have "take (Suc k) (xs[k := xs ! i]) = take k xs @ [xs ! i]" using k by (simp add: take_Suc_conv_app_nth)
  ultimately show ?case by simp
qed

section \<open>What the search finds\<close>

definition monotone_upto :: "int \<Rightarrow> (int \<Rightarrow> int) \<Rightarrow> bool" where
  "monotone_upto n est \<longleftrightarrow> (\<forall>a b. 1 \<le> a \<and> a \<le> b \<and> b \<le> n \<longrightarrow> est a \<le> est b)"

text \<open>Invariants of the loop: what lies below \<open>lo\<close> and is kept fits, what lies above \<open>hi\<close> does not.\<close>

lemma trim_loop_spec:
  assumes "1 \<le> lo" "lo \<le> hi + 1" "hi \<le> n" "1 \<le> best" "best = lo - 1 \<and> est best \<le> mx \<or> best = 1 \<and> lo = 1"
    and "monotone_upto n est \<Longrightarrow> \<forall>m. hi < m \<and> m \<le> n \<longrightarrow> mx < est m"
  shows "(est (trim_loop est mx best lo hi) \<le> mx \<or> trim_loop est mx best lo hi = 1) \<and> 1 \<le> trim_loop est mx best lo hi
     \<and> trim_loop est mx best lo hi \<le> max best hi
     \<and> (monotone_upto n est \<longrightarrow> (\<forall>m. trim_loop est mx best lo hi < m \<and> m \<le> n \<longrightarrow> mx < est m))"
  using assms
proof (induction est mx best lo hi rule: trim_loop.induct)
  case (1 est mx best lo hi)
  let ?mid = "(lo + hi) div 2"
  show ?case
  proof (cases "lo \<le> hi")
    case False
    then have "trim_loop est mx best lo hi = best" by (subst trim_loop.simps) simp
    moreover have "best = lo - 1 \<and> est best \<le> mx \<or> best = 1 \<and> hi \<le> 1" "hi = lo - 1" using "1.prems"(2,5) False by auto
    ultimately show ?thesis using "1.prems"(4,6) by auto
  next
    case True
    then have mid: "lo \<le> ?mid" "?mid \<le> hi" by simp_all
    show ?thesis
    proof (cases "est ?mid \<le> mx")
      case fits: True
      then have "trim_loop est mx best lo hi = trim_loop est mx ?mid (?mid + 1) hi"
        using True by (subst trim_loop.simps) (simp add: Let_def)
      then show ?thesis using "1.IH"(1) [OF True refl fits] "1.prems" mid fits by (simp add: le_max_iff_disj)
    next
      case False
      then have eq: "trim_loop est mx best lo hi = trim_loop est mx best lo (?mid - 1)"
        using True by (subst trim_loop.simps) (simp add: Let_def)
      have above: "\<forall>m. ?mid - 1 < m \<and> m \<le> n \<longrightarrow> mx < est m" if "monotone_upto n est"
      proof (intro allI impI)
        fix m
        assume "?mid - 1 < m \<and> m \<le> n"
        then have "est ?mid \<le> est m" using that "1.prems"(1) mid unfolding monotone_upto_def by auto
        then show "mx < est m" using False by simp
      qed
      have range: "lo \<le> ?mid - 1 + 1" "?mid - 1 \<le> n" using "1.prems"(3) mid by simp_all
      have "max best (?mid - 1) \<le> max best hi" using mid by simp
      moreover note ih = "1.IH"(2) [OF True refl False "1.prems"(1) range "1.prems"(4,5)]
      have "(est (trim_loop est mx best lo (?mid - 1)) \<le> mx \<or> trim_loop est mx best lo (?mid - 1) = 1)
        \<and> 1 \<le> trim_loop est mx best lo (?mid - 1) \<and> trim_loop est mx best lo (?mid - 1) \<le> max best (?mid - 1)
        \<and> (monotone_upto n est \<longrightarrow> (\<forall>m. trim_loop est mx best lo (?mid - 1) < m \<and> m \<le> n \<longrightarrow> mx < est m))"
        by (rule ih, rule above)
      ultimately show ?thesis unfolding eq by (meson order_trans)
    qed
  qed
qed

lemma trim_facts:
  assumes "1 \<le> count"
  shows "1 \<le> TrimToFit count mx est \<and> TrimToFit count mx est \<le> count \<and> (est (TrimToFit count mx est) \<le> mx \<or> TrimToFit count mx est = 1)
    \<and> (monotone_upto count est \<longrightarrow> (\<forall>m. TrimToFit count mx est < m \<and> m \<le> count \<longrightarrow> mx < est m))"
proof (cases "count \<le> 1 \<or> est count \<le> mx")
  case True
  then show ?thesis using assms by (auto simp: TrimToFit_def)
next
  case False
  then have "mx < est m" if "count - 1 < m" "m \<le> count" for m using that by (metis not_le zle_diff1_eq antisym_conv2)
  then show ?thesis using trim_loop_spec [of 1 "count - 1" count 1 est mx] False assms by (auto simp: TrimToFit_def)
qed

lemma trim_none: "count \<le> 0 \<Longrightarrow> TrimToFit count mx est = count"
  by (simp add: TrimToFit_def)

text \<open>
  The longest prefix. The search returns a prefix of at least one item that fits the budget, unless not even
  one does; and when the estimate grows with the prefix, as it is required to, no longer prefix fits.
\<close>

theorem trim_is_largest_fit:
  assumes "1 \<le> count"
  shows "1 \<le> TrimToFit count mx est \<and> TrimToFit count mx est \<le> count \<and> (est (TrimToFit count mx est) \<le> mx \<or> TrimToFit count mx est = 1)
    \<and> (monotone_upto count est \<longrightarrow> (\<forall>m. TrimToFit count mx est < m \<and> m \<le> count \<longrightarrow> mx < est m))"
  by (rule trim_facts [OF assms])

theorem trim_is_largest_fit_witness:
  "1 \<le> TrimToFit 5 7 (\<lambda>n. 2 * n) \<and> TrimToFit 5 7 (\<lambda>n. 2 * n) = 3 \<and> (\<exists>m. m = TrimToFit 5 7 (\<lambda>n. 2 * n) + 1 \<and> 7 < 2 * m)"
proof -
  have mono: "monotone_upto 5 (\<lambda>n. 2 * n)" by (simp add: monotone_upto_def)
  have "TrimToFit 5 7 (\<lambda>n. 2 * n) = 3" by (simp add: TrimToFit_def trim_loop.simps)
  moreover have "7 < 2 * (4::int)"
    using trim_is_largest_fit [of 5 7 "\<lambda>n. 2 * n"] mono calculation by auto
  ultimately show ?thesis by simp
qed

section \<open>What the second pass admits\<close>

definition spent :: "(nat \<Rightarrow> int) \<Rightarrow> nat list \<Rightarrow> int" where
  "spent cost is = sum_list (map cost is)"

lemma spent_simps [simp]: "spent cost [] = 0" "spent cost (i # is) = cost i + spent cost is"
  by (simp_all add: spent_def)

lemma backfill_loop_set: "set (backfill_loop cost h is) \<subseteq> set is"
  by (induction "is" arbitrary: h) auto

lemma backfill_loop_spec:
  assumes "sorted_wrt (<) is"
  shows "sorted_wrt (<) (backfill_loop cost h is) \<and> (0 \<le> h \<longrightarrow> spent cost (backfill_loop cost h is) \<le> h)
    \<and> (\<forall>i \<in> set is. i \<in> set (backfill_loop cost h is) \<longleftrightarrow> cost i \<le> h - spent cost (filter (\<lambda>j. j < i) (backfill_loop cost h is)))"
  using assms
proof (induction "is" arbitrary: h)
  case Nil
  then show ?case by simp
next
  case (Cons i "is")
  have gt: "\<And>j. j \<in> set is \<Longrightarrow> i < j" and s: "sorted_wrt (<) is" using Cons.prems by simp_all
  have later: "\<And>j. j \<in> set (backfill_loop cost h' is) \<Longrightarrow> i < j" for h' using backfill_loop_set gt by blast
  then have none: "filter (\<lambda>j. j < i) (backfill_loop cost h' is) = []" "i \<notin> set (backfill_loop cost h' is)" for h'
    by (fastforce simp: filter_empty_conv)+
  show ?case
  proof (cases "cost i > h")
    case True
    then show ?thesis using Cons.IH [OF s, of h] none [of h] by simp
  next
    case False
    have "j \<in> set (backfill_loop cost h (i # is)) \<longleftrightarrow> cost j \<le> h - spent cost (filter (\<lambda>k. k < j) (backfill_loop cost h (i # is)))"
      if "j \<in> set is" for j
    proof -
      have b: "backfill_loop cost h (i # is) = i # backfill_loop cost (h - cost i) is" using False by simp
      have "j \<noteq> i" "filter (\<lambda>k. k < j) (i # backfill_loop cost (h - cost i) is) = i # filter (\<lambda>k. k < j) (backfill_loop cost (h - cost i) is)"
        using gt [OF that] by simp_all
      moreover have "j \<in> set (backfill_loop cost (h - cost i) is)
          \<longleftrightarrow> cost j \<le> h - cost i - spent cost (filter (\<lambda>k. k < j) (backfill_loop cost (h - cost i) is))"
        using Cons.IH [OF s, of "h - cost i"] that by blast
      ultimately show ?thesis unfolding b by (simp add: algebra_simps)
    qed
    moreover have "sorted_wrt (<) (backfill_loop cost h (i # is))" "0 \<le> h \<longrightarrow> spent cost (backfill_loop cost h (i # is)) \<le> h"
      using Cons.IH [OF s, of "h - cost i"] False later by auto
    ultimately show ?thesis using False none by simp
  qed
qed

lemma backfill_facts:
  "(kept < n \<and> used < mx \<longrightarrow> (\<forall>i. i \<in> set (Backfill n kept mx used cost) \<longleftrightarrow>
        kept \<le> i \<and> i < n \<and> cost i \<le> mx - used - spent cost (filter (\<lambda>j. j < i) (Backfill n kept mx used cost))))
    \<and> used + spent cost (Backfill n kept mx used cost) \<le> max used mx
    \<and> (length xs = n \<longrightarrow> append_in_place kept (Backfill n kept mx used cost) xs = take kept xs @ map (\<lambda>i. xs ! i) (Backfill n kept mx used cost))"
proof (cases "kept < n \<and> used < mx")
  case False
  then show ?thesis by (auto simp: Backfill_def)
next
  case True
  let ?is = "[kept..<n]" and ?b = "Backfill n kept mx used cost"
  have b: "?b = backfill_loop cost (mx - used) ?is" using True by (simp add: Backfill_def)
  have s: "sorted_wrt (<) ?is" by simp
  note spec = backfill_loop_spec [OF s, of cost "mx - used"]
  have range: "\<forall>i \<in> set ?b. kept \<le> i \<and> i < n" using backfill_loop_set [of cost "mx - used" ?is] unfolding b by auto
  have "i \<in> set ?b \<longleftrightarrow> kept \<le> i \<and> i < n \<and> cost i \<le> mx - used - spent cost (filter (\<lambda>j. j < i) ?b)" for i
  proof -
    have "i \<in> set ?is \<longrightarrow> (i \<in> set ?b \<longleftrightarrow> cost i \<le> mx - used - spent cost (filter (\<lambda>j. j < i) ?b))" using spec unfolding b by blast
    moreover have "i \<in> set ?is \<longleftrightarrow> kept \<le> i \<and> i < n" by simp
    ultimately show ?thesis using range by blast
  qed
  moreover have "used + spent cost ?b \<le> max used mx" using spec True unfolding b by simp
  moreover have "append_in_place kept ?b xs = take kept xs @ map (\<lambda>i. xs ! i) ?b" if "length xs = n"
  proof (rule append_in_place_safe)
    show "sorted_wrt (<) ?b" using spec unfolding b by (rule conjunct1)
    show "\<forall>i \<in> set ?b. kept \<le> i \<and> i < length xs" using range that by simp
  qed
  ultimately show ?thesis by blast
qed

text \<open>
  C25: the second pass. Of the omitted items it admits exactly those, in order, whose cost fits into what the budget
  still has after the items admitted before; together they stay within the budget, and the items that are
  appended in place are the ones that were meant.
\<close>

theorem backfill_within_budget:
  "(kept < n \<and> used < mx \<longrightarrow> (\<forall>i. i \<in> set (Backfill n kept mx used cost) \<longleftrightarrow>
        kept \<le> i \<and> i < n \<and> cost i \<le> mx - used - spent cost (filter (\<lambda>j. j < i) (Backfill n kept mx used cost))))
    \<and> used + spent cost (Backfill n kept mx used cost) \<le> max used mx
    \<and> (length xs = n \<longrightarrow> append_in_place kept (Backfill n kept mx used cost) xs = take kept xs @ map (\<lambda>i. xs ! i) (Backfill n kept mx used cost))"
  by (rule backfill_facts)

theorem backfill_within_budget_witness:
  "Backfill 6 2 20 11 ((!) [5, 6, 7, 4, 6, 3]) = [2] \<and> (2::nat) < 6 \<and> (11::int) < 20
   \<and> append_in_place 2 (Backfill 6 2 20 11 ((!) [5, 6, 7, 4, 6, 3])) ''abcdef'' = ''abc''
   \<and> ((2::nat) \<in> set (Backfill 6 2 20 11 ((!) [5, 6, 7, 4, 6, 3])))"
proof -
  have b: "Backfill 6 2 20 11 ((!) [5, 6, 7, 4, 6, 3]) = [2]" by code_simp
  have "append_in_place 2 (Backfill 6 2 20 11 ((!) [5, 6, 7, 4, 6, 3])) ''abcdef'' = take 2 ''abcdef'' @ map ((!) ''abcdef'') [2]"
    using conjunct2 [OF conjunct2 [OF backfill_within_budget [of 2 6 11 20 "(!) [5, 6, 7, 4, 6, 3]" "''abcdef''"]]] unfolding b by simp
  then show ?thesis using b by simp
qed

end
