(* ===== verification/Trace_Budget.thy ===== *)
theory Trace_Budget
  imports Traces Budgets "HOL-Library.Multiset"
begin

text \<open>
  Fitting a trace into a token budget (\<open>ApplyBudget\<close> of \<open>internal/trace/trace.go\<close>). The lengths of the JSON
  encodings of an answer, with the report that is attached to it, and of a hop are arguments, and \<open>None\<close> when the
  encoding fails. The code estimates an answer before it attaches the report. The reserve of a tenth is
  computed in floating point, which agrees with the integer division for any budget below 2 ^ 50.
\<close>

section \<open>The operation\<close>

definition token_cost :: "('a \<Rightarrow> nat option) \<Rightarrow> 'a \<Rightarrow> int" where
  "token_cost enc x = int (Estimate (enc x))"

text \<open>The answer while it is trimmed, before a report is attached to it.\<close>

definition answer_cost :: "(traceResult \<times> budgetInfo option \<Rightarrow> nat option) \<Rightarrow> traceResult \<Rightarrow> int" where
  "answer_cost enc r = token_cost enc (r, None)"

text \<open>The budget of the prefix cut: nine tenths, rounded to zero.\<close>

definition cutBudget :: "int \<Rightarrow> int" where
  "cutBudget maxTokens = maxTokens * 9 div 10"

definition with_chains :: "traceResult \<Rightarrow> int \<Rightarrow> traceResult" where
  "with_chains r n = r\<lparr>tc_chains := take (nat n) (tc_chains r)\<rparr>"

definition with_nodes :: "traceResult \<Rightarrow> int \<Rightarrow> traceResult" where
  "with_nodes r m = r\<lparr>tc_nodes := take (nat m) (tc_nodes r)\<rparr>"

definition mark_cut :: "bool \<Rightarrow> traceResult \<Rightarrow> traceResult" where
  "mark_cut c r = (if c then r\<lparr>tc_truncated := True\<rparr> else r)"

definition chains_note :: "int \<Rightarrow> nat \<Rightarrow> string" where
  "chains_note n whole = ''chains trimmed to '' @ fmt_int n @ '' of '' @ fmt_nat whole"

definition nodes_note :: "nat \<Rightarrow> nat \<Rightarrow> nat \<Rightarrow> string" where
  "nodes_note kept whole admitted =
     '', nodes trimmed to '' @ fmt_nat kept @ '' of '' @ fmt_nat whole @ '' to fit max_tokens''
     @ (if admitted > 0 then '' ('' @ fmt_nat admitted @ '' cheap node(s) admitted out of depth order to use leftover budget)'' else [])"

definition budget_info :: "int \<Rightarrow> int \<Rightarrow> string \<Rightarrow> string \<Rightarrow> budgetInfo" where
  "budget_info mx est level note = \<lparr>bi_maxTokens = mx, bi_estimated = est, bi_level = level, bi_note = note, bi_omittedFiles = 0\<rparr>"

definition cut_chains :: "(traceResult \<times> budgetInfo option \<Rightarrow> nat option) \<Rightarrow> int \<Rightarrow> traceResult \<Rightarrow> int" where
  "cut_chains enc mx r = TrimToFit (int (length (tc_chains r))) mx (\<lambda>n. answer_cost enc (with_chains r n))"

definition cut_nodes :: "(traceResult \<times> budgetInfo option \<Rightarrow> nat option) \<Rightarrow> int \<Rightarrow> traceResult \<Rightarrow> int" where
  "cut_nodes enc mx r = TrimToFit (int (length (tc_nodes r))) (cutBudget mx) (\<lambda>m. answer_cost enc (with_nodes r m))"

text \<open>The omitted nodes that are admitted, appended in place, and the order by depth restored.\<close>

definition admitted_nodes :: "(traceResult \<times> budgetInfo option \<Rightarrow> nat option) \<Rightarrow> (traceHop \<Rightarrow> nat option) \<Rightarrow> int \<Rightarrow> traceResult \<Rightarrow> nat list" where
  "admitted_nodes enc encHop mx r =
     (let m = cut_nodes enc mx r in
      Backfill (length (tc_nodes r)) (nat m) mx (answer_cost enc (with_nodes r m)) (\<lambda>i. token_cost encHop (tc_nodes r ! i)))"

definition backfilled :: "(traceResult \<times> budgetInfo option \<Rightarrow> nat option) \<Rightarrow> (traceHop \<Rightarrow> nat option) \<Rightarrow> int \<Rightarrow> traceResult \<Rightarrow> traceHop list" where
  "backfilled enc encHop mx r =
     (let adm = admitted_nodes enc encHop mx r; ns = append_in_place (nat (cut_nodes enc mx r)) adm (tc_nodes r) in
      if adm = [] then ns else sort_key th_depth ns)"

definition ApplyBudget :: "(traceResult \<times> budgetInfo option \<Rightarrow> nat option) \<Rightarrow> (traceHop \<Rightarrow> nat option) \<Rightarrow> int \<Rightarrow> traceResult \<Rightarrow> traceResult \<times> budgetInfo option" where
  "ApplyBudget enc encHop mx r =
     (if mx \<le> 0 then (r, None)
      else if answer_cost enc r \<le> mx then (r, Some (budget_info mx (answer_cost enc r) LevelDetail []))
      else
        let all = length (tc_chains r); n = cut_chains enc mx r; r1 = mark_cut (n < int all) (with_chains r n) in
        if answer_cost enc r1 \<le> mx then
          (r1, Some (budget_info mx (answer_cost enc r1) LevelDetail (chains_note n all @ '' to fit max_tokens'')))
        else
          let adm = admitted_nodes enc encHop mx r1;
              r2 = mark_cut (cut_nodes enc mx r1 < int (length (tc_nodes r1))) (r1\<lparr>tc_nodes := backfilled enc encHop mx r1\<rparr>) in
          (r2, Some (budget_info mx (answer_cost enc r2) LevelSummary
                (chains_note n all @ nodes_note (length (tc_nodes r2)) (length (tc_nodes r1)) (length adm)))))"


section \<open>What a cut keeps\<close>

lemma token_cost_nonneg: "0 \<le> token_cost enc x"
  by (simp add: token_cost_def)

lemma cut_range:
  fixes enc :: "traceResult \<times> budgetInfo option \<Rightarrow> nat option" and mx :: int and r :: traceResult
  shows "0 \<le> cut_chains enc mx r" "cut_chains enc mx r \<le> int (length (tc_chains r))"
    and "0 \<le> cut_nodes enc mx r" "cut_nodes enc mx r \<le> int (length (tc_nodes r))"
    and "tc_chains r \<noteq> [] \<Longrightarrow> 1 \<le> cut_chains enc mx r" "tc_nodes r \<noteq> [] \<Longrightarrow> 1 \<le> cut_nodes enc mx r"
proof -
  have "0 \<le> TrimToFit (int k) b est \<and> TrimToFit (int k) b est \<le> int k \<and> (0 < k \<longrightarrow> 1 \<le> TrimToFit (int k) b est)" for k b est
    using trim_facts [of "int k" b est] trim_none [of "int k" b est] by (cases "k = 0") auto
  then show "0 \<le> cut_chains enc mx r" "cut_chains enc mx r \<le> int (length (tc_chains r))"
    "0 \<le> cut_nodes enc mx r" "cut_nodes enc mx r \<le> int (length (tc_nodes r))"
    "tc_chains r \<noteq> [] \<Longrightarrow> 1 \<le> cut_chains enc mx r" "tc_nodes r \<noteq> [] \<Longrightarrow> 1 \<le> cut_nodes enc mx r"
    unfolding cut_chains_def cut_nodes_def by (simp_all add: Suc_le_eq)
qed

lemma picked_subseq:
  assumes "sorted_wrt (<) is" "\<forall>i \<in> set is. k \<le> i \<and> i < length xs"
  shows "subseq (map ((!) xs) is) (drop k xs)"
  using assms
proof (induction "is" arbitrary: k)
  case Nil
  then show ?case by simp
next
  case (Cons i "is")
  have "subseq (map ((!) xs) is) (drop (Suc i) xs)" using Cons.prems by (intro Cons.IH) auto
  moreover have "drop i xs = xs ! i # drop (Suc i) xs" using Cons.prems(2) by (simp add: Cons_nth_drop_Suc)
  ultimately have "subseq (xs ! i # map ((!) xs) is) (drop i xs)" by simp
  moreover have "suffix (drop i xs) (drop k xs)" using Cons.prems(2) by (simp add: suffix_def) (metis append_take_drop_id drop_drop le_add_diff_inverse2)
  ultimately show ?case by (metis list.simps(9) subseq_order.order_trans suffix_imp_subseq)
qed

lemma backfill_range:
  "sorted_wrt (<) (Backfill n kept mx used cost)" "\<forall>i \<in> set (Backfill n kept mx used cost). kept \<le> i \<and> i < n"
proof -
  have s: "sorted_wrt (<) [kept..<n]" by simp
  show "sorted_wrt (<) (Backfill n kept mx used cost)"
    using conjunct1 [OF backfill_loop_spec [OF s]] by (simp add: Backfill_def)
  show "\<forall>i \<in> set (Backfill n kept mx used cost). kept \<le> i \<and> i < n"
    using backfill_loop_set [of cost "mx - used" "[kept..<n]"] by (auto simp: Backfill_def)
qed

lemma admitted_facts:
  shows "sorted_wrt (<) (admitted_nodes enc encHop mx r)"
    and "\<forall>i \<in> set (admitted_nodes enc encHop mx r). nat (cut_nodes enc mx r) \<le> i \<and> i < length (tc_nodes r)"
  unfolding admitted_nodes_def Let_def by (rule backfill_range)+

lemma appended_nodes:
  "append_in_place (nat (cut_nodes enc mx r)) (admitted_nodes enc encHop mx r) (tc_nodes r)
    = take (nat (cut_nodes enc mx r)) (tc_nodes r) @ map ((!) (tc_nodes r)) (admitted_nodes enc encHop mx r)"
  using append_in_place_safe [OF admitted_facts] by simp

lemma appended_subseq:
  "subseq (append_in_place (nat (cut_nodes enc mx r)) (admitted_nodes enc encHop mx r) (tc_nodes r)) (tc_nodes r)"
proof -
  have "subseq (take k xs @ map ((!) xs) is) (take k xs @ drop k xs)" if "subseq (map ((!) xs) is) (drop k xs)"
    for k and xs :: "traceHop list" and "is" using that by (rule list_emb_append_mono [OF subseq_order.refl])
  then show ?thesis unfolding appended_nodes using picked_subseq [OF admitted_facts] by (metis append_take_drop_id)
qed

lemma subseq_sorted: "subseq xs ys \<Longrightarrow> sorted (map f ys) \<Longrightarrow> sorted (map f xs)"
  by (induction rule: list_emb.induct) (auto dest: list_emb_set)

lemma subseq_mset: "subseq xs ys \<Longrightarrow> mset xs \<subseteq># mset ys"
proof (induction rule: list_emb.induct)
  case (list_emb_Cons xs ys y)
  have "mset ys \<subseteq># mset (y # ys)" by simp
  with list_emb_Cons.IH show ?case by (rule subset_mset.order_trans)
qed simp_all

lemma backfilled_facts:
  shows "mset (backfilled enc encHop mx r) \<subseteq># mset (tc_nodes r)"
    and "tc_nodes r \<noteq> [] \<Longrightarrow> backfilled enc encHop mx r \<noteq> []"
    and "sorted (map th_depth (tc_nodes r)) \<Longrightarrow> subseq (backfilled enc encHop mx r) (tc_nodes r)"
proof -
  let ?ns = "append_in_place (nat (cut_nodes enc mx r)) (admitted_nodes enc encHop mx r) (tc_nodes r)"
  have b: "backfilled enc encHop mx r = (if admitted_nodes enc encHop mx r = [] then ?ns else sort_key th_depth ?ns)"
    by (simp add: backfilled_def Let_def)
  show "mset (backfilled enc encHop mx r) \<subseteq># mset (tc_nodes r)"
  proof -
    have "mset (if c then xs else sort_key th_depth xs) = mset xs" for c and xs :: "traceHop list" by simp
    then show ?thesis unfolding b using subseq_mset [OF appended_subseq] by (simp only:)
  qed
  show "tc_nodes r \<noteq> [] \<Longrightarrow> backfilled enc encHop mx r \<noteq> []"
  proof -
    assume "tc_nodes r \<noteq> []"
    then have "?ns \<noteq> []" using cut_range(6) [of r enc mx] by (simp add: appended_nodes)
    moreover have "xs \<noteq> [] \<Longrightarrow> (if c then xs else sort_key th_depth xs) \<noteq> []" for c and xs :: "traceHop list"
      by (metis length_0_conv length_sort)
    ultimately show ?thesis unfolding b by blast
  qed
  assume s: "sorted (map th_depth (tc_nodes r))"
  then have "sort_key th_depth ?ns = ?ns" using subseq_sorted [OF appended_subseq] by (metis sort_key_id_if_sorted)
  then show "subseq (backfilled enc encHop mx r) (tc_nodes r)" unfolding b using appended_subseq by (simp only: if_cancel)
qed


section \<open>The property\<close>

text \<open>What a cut leaves alone: everything but the two lists and the mark of a cut.\<close>

definition frame_of :: "traceResult \<Rightarrow> traceResult" where
  "frame_of r = r\<lparr>tc_chains := [], tc_nodes := [], tc_truncated := False\<rparr>"

lemma cut_simps [simp]:
  "tc_chains (with_chains r n) = take (nat n) (tc_chains r)" "tc_nodes (with_chains r n) = tc_nodes r"
  "tc_truncated (with_chains r n) = tc_truncated r" "frame_of (with_chains r n) = frame_of r"
  "tc_chains (mark_cut c r) = tc_chains r" "tc_nodes (mark_cut c r) = tc_nodes r"
  "tc_truncated (mark_cut c r) = (c \<or> tc_truncated r)" "frame_of (mark_cut c r) = frame_of r"
  "frame_of (r\<lparr>tc_nodes := ns\<rparr>) = frame_of r"
  by (simp_all add: with_chains_def mark_cut_def frame_of_def)

definition fits_or_summary :: "(traceResult \<times> budgetInfo option \<Rightarrow> nat option) \<Rightarrow> int \<Rightarrow> traceResult \<Rightarrow> budgetInfo \<Rightarrow> bool" where
  "fits_or_summary enc mx r b \<longleftrightarrow>
     bi_maxTokens b = mx \<and> bi_estimated b = answer_cost enc r \<and> bi_level b \<in> {LevelDetail, LevelSummary}
     \<and> (bi_level b = LevelDetail \<longrightarrow> answer_cost enc r \<le> mx)"

text \<open>
  C24: a budget only takes away. The answer keeps a prefix of its chains and some of its nodes, at least one of each,
  in the order of the answer when that was by depth, and nothing else changes; whatever is missing is announced
  by the mark of a cut. The report names the estimate of the answer as it is without the report, and at the
  level of detail this estimate is within the budget; the tokens of the report itself are not counted
  (\<open>report_not_counted\<close>), and at the level of a summary nothing is promised.
\<close>

theorem budget_only_cuts:
  assumes "ApplyBudget enc encHop mx r = (r', b)"
  shows "prefix (tc_chains r') (tc_chains r) \<and> mset (tc_nodes r') \<subseteq># mset (tc_nodes r)
    \<and> (tc_chains r \<noteq> [] \<longrightarrow> tc_chains r' \<noteq> []) \<and> (tc_nodes r \<noteq> [] \<longrightarrow> tc_nodes r' \<noteq> [])
    \<and> (sorted (map th_depth (tc_nodes r)) \<longrightarrow> subseq (tc_nodes r') (tc_nodes r))
    \<and> frame_of r' = frame_of r
    \<and> (tc_truncated r \<or> tc_chains r' \<noteq> tc_chains r \<or> tc_nodes r' \<noteq> tc_nodes r \<longrightarrow> tc_truncated r')
    \<and> (case b of None \<Rightarrow> mx \<le> 0 \<and> r' = r | Some i \<Rightarrow> 0 < mx \<and> fits_or_summary enc mx r' i)"
proof -
  consider "mx \<le> 0" | "0 < mx" "answer_cost enc r \<le> mx" | "0 < mx" "mx < answer_cost enc r" by linarith
  then show ?thesis
  proof cases
    case 1
    then show ?thesis using assms by (auto simp: ApplyBudget_def)
  next
    case 2
    then show ?thesis using assms by (auto simp: ApplyBudget_def fits_or_summary_def budget_info_def)
  next
    case 3
    define n where "n = cut_chains enc mx r"
    define r1 where "r1 = mark_cut (n < int (length (tc_chains r))) (with_chains r n)"
    have chains: "prefix (tc_chains r1) (tc_chains r)" "tc_chains r \<noteq> [] \<longrightarrow> tc_chains r1 \<noteq> []" "tc_nodes r1 = tc_nodes r"
      "frame_of r1 = frame_of r" "tc_truncated r \<or> tc_chains r1 \<noteq> tc_chains r \<longrightarrow> tc_truncated r1"
      using cut_range(1) [of enc mx r] cut_range(2) [of enc mx r] cut_range(5) [of r enc mx] by (auto simp: r1_def n_def take_is_prefix)
    show ?thesis
    proof (cases "answer_cost enc r1 \<le> mx")
      case True
      then have "r' = r1" "\<exists>i. b = Some i \<and> fits_or_summary enc mx r1 i"
        using assms 3 by (auto simp: ApplyBudget_def Let_def r1_def n_def fits_or_summary_def budget_info_def)
      then show ?thesis using chains 3 by auto
    next
      case False
      define r2 where "r2 = mark_cut (cut_nodes enc mx r1 < int (length (tc_nodes r1))) (r1\<lparr>tc_nodes := backfilled enc encHop mx r1\<rparr>)"
      have b: "r' = r2" "\<exists>i. b = Some i \<and> fits_or_summary enc mx r2 i"
        using assms 3 False by (auto simp: ApplyBudget_def Let_def r1_def n_def r2_def fits_or_summary_def budget_info_def LevelDetail_def LevelSummary_def)
      have "tc_nodes r2 = tc_nodes r1" if "\<not> cut_nodes enc mx r1 < int (length (tc_nodes r1))"
        using that cut_range(4) [of enc mx r1] by (simp add: r2_def backfilled_def admitted_nodes_def Backfill_def Let_def)
      then have "tc_nodes r2 \<noteq> tc_nodes r1 \<longrightarrow> tc_truncated r2" "tc_truncated r1 \<longrightarrow> tc_truncated r2" "tc_chains r2 = tc_chains r1" "frame_of r2 = frame_of r1"
        "tc_nodes r2 = backfilled enc encHop mx r1"
        by (auto simp: r2_def)
      then show ?thesis using chains b backfilled_facts(1) [of enc encHop mx r1] backfilled_facts(2) [of r1 enc encHop mx] backfilled_facts(3) [of r1 enc encHop mx] 3 by auto
    qed
  qed
qed

text \<open>An answer with three nodes and two chains, each of which costs two tokens, as a report does.\<close>

definition small_node :: node where
  "small_node = \<lparr>nd_id = ''n'', nd_type = NodeTypeFunction, nd_label = ''n'', nd_service = ''s'', nd_file = ''x.go'', nd_line = 1, nd_endLine = 2,
     nd_language = ''go'', nd_meta = Map.empty\<rparr>"

definition small_hop :: "nat \<Rightarrow> traceHop" where
  "small_hop d = (nodeHop small_node)\<lparr>th_depth := d\<rparr>"

definition small_answer :: traceResult where
  "small_answer = \<lparr>tc_root = small_node, tc_direction = ''both'', tc_depth = 0,
     tc_nodes = map small_hop [1, 2, 3], tc_chains = replicate 2 \<lparr>ch_hops = [], ch_text = []\<rparr>, tc_edgeTypes = [], tc_services = [],
     tc_truncated = False, tc_hidden = Map.empty, tc_unresolved = [], tc_summary = BuildVerificationSummary []\<rparr>"

definition two_tokens_each :: "traceResult \<times> budgetInfo option \<Rightarrow> nat option" where
  "two_tokens_each rb = Some (8 * (length (tc_nodes (fst rb)) + length (tc_chains (fst rb)) + (if snd rb = None then 0 else 1)))"

lemma small_cut:
  "let (r', b) = ApplyBudget two_tokens_each (\<lambda>h. Some 7) 6 small_answer in
     length (tc_chains r') = 1 \<and> map th_depth (tc_nodes r') = [1, 2] \<and> map_option bi_level b = Some LevelSummary"
  by code_simp

theorem budget_only_cuts_witness:
  "\<exists>r' b. ApplyBudget two_tokens_each (\<lambda>h. Some 7) 6 small_answer = (r', b) \<and> length (tc_chains r') = 1 \<and> length (tc_nodes r') = 2
     \<and> tc_truncated r' \<and> mset (tc_nodes r') \<subseteq># mset (tc_nodes small_answer)"
proof -
  obtain r' b where rb: "ApplyBudget two_tokens_each (\<lambda>h. Some 7) 6 small_answer = (r', b)" by fastforce
  have len: "length (tc_chains r') = 1" "map th_depth (tc_nodes r') = [1, 2]" using small_cut by (simp_all add: rb)
  then have "length (tc_nodes r') = 2" by (metis length_map length_Cons list.size(3) numeral_2_eq_2)
  moreover have "tc_chains r' \<noteq> tc_chains small_answer" using len by (auto simp: small_answer_def)
  ultimately show ?thesis using budget_only_cuts [OF rb] rb len by blast
qed

text \<open>
  A departure: the answer that is emitted carries the report, so one that is said to fit exceeds the budget.
\<close>

lemma report_not_counted:
  "(case ApplyBudget two_tokens_each (\<lambda>h. Some 7) 8 small_answer of
      (r', Some b) \<Rightarrow> (bi_level b = LevelDetail, bi_estimated b, token_cost two_tokens_each (r', Some b))
    | (r', None) \<Rightarrow> (False, 0, 0)) = (True, 8, 10)"
  by code_simp

end
