(* ===== verification/Graph_Files.thy ===== *)
theory Graph_Files
  imports Blast_Props
begin

text \<open>
  The files of a graph (\<open>internal/graph/files.go\<close>): the list of files with their counts, the nodes of a file, and the
  files that a change of a file reaches. Go's maps from files to entries are association lists, whose order the
  final sort makes irrelevant; a row of a traversal without a node is a panic. \<open>sort.Slice\<close> is taken as stable.
\<close>

section \<open>Grouping\<close>

text \<open>The loop that looks an entry up, creates it when it is missing, and updates it.\<close>

definition update_entry :: "'k \<Rightarrow> ('v option \<Rightarrow> 'v) \<Rightarrow> ('k \<times> 'v) list \<Rightarrow> ('k \<times> 'v) list" where
  "update_entry k f m = AList.update k (f (map_of m k)) m"

definition group_by :: "('a \<Rightarrow> 'k) \<Rightarrow> ('a \<Rightarrow> 'v option \<Rightarrow> 'v) \<Rightarrow> 'a list \<Rightarrow> ('k \<times> 'v) list" where
  "group_by key step xs = fold (\<lambda>x. update_entry (key x) (step x)) xs []"

lemma group_fold:
  assumes "distinct (map fst m)"
  shows "distinct (map fst (fold (\<lambda>x. update_entry (key x) (step x)) xs m))"
    and "map_of (fold (\<lambda>x. update_entry (key x) (step x)) xs m) k
      = fold (\<lambda>x v. Some (step x v)) (filter (\<lambda>x. key x = k) xs) (map_of m k)"
  using assms by (induction xs arbitrary: m) (auto simp: update_entry_def distinct_update update_conv)

lemma fold_Some: "xs \<noteq> [] \<Longrightarrow> fold (\<lambda>x v. Some (step x v)) xs v = Some (step (last xs) (fold (\<lambda>x v. Some (step x v)) (butlast xs) v))"
  by (induction xs arbitrary: v) auto

text \<open>A group has an entry for every key, and the entry is the fold over the elements of that key.\<close>

lemma group_by_facts:
  shows "distinct (map fst (group_by key step xs))"
    and "map_of (group_by key step xs) k = fold (\<lambda>x v. Some (step x v)) (filter (\<lambda>x. key x = k) xs) None"
    and "fst ` set (group_by key step xs) = key ` set xs"
proof -
  show "distinct (map fst (group_by key step xs))" "map_of (group_by key step xs) k = fold (\<lambda>x v. Some (step x v)) (filter (\<lambda>x. key x = k) xs) None"
    for k unfolding group_by_def using group_fold [of "[]" key step xs] by simp_all
  note m = this(2)
  have "k \<in> fst ` set (group_by key step xs) \<longleftrightarrow> k \<in> key ` set xs" for k
  proof -
    have "k \<in> fst ` set (group_by key step xs) \<longleftrightarrow> map_of (group_by key step xs) k \<noteq> None" by (simp add: map_of_eq_None_iff)
    also have "\<dots> \<longleftrightarrow> filter (\<lambda>x. key x = k) xs \<noteq> []" unfolding m by (cases "filter (\<lambda>x. key x = k) xs = []") (simp_all add: fold_Some)
    finally show ?thesis by (auto simp: filter_empty_conv)
  qed
  then show "fst ` set (group_by key step xs) = key ` set xs" by blast
qed

text \<open>An invariant of the entry against the elements so far.\<close>

lemma group_entry:
  assumes "(k, v) \<in> set (group_by key step xs)"
    and init: "\<And>x. key x = k \<Longrightarrow> x \<in> set xs \<Longrightarrow> P [x] (step x None)"
    and step: "\<And>x ys w. key x = k \<Longrightarrow> x \<in> set xs \<Longrightarrow> ys \<noteq> [] \<Longrightarrow> P ys w \<Longrightarrow> P (ys @ [x]) (step x (Some w))"
  shows "P (filter (\<lambda>x. key x = k) xs) v"
proof -
  have fold: "ys \<noteq> [] \<Longrightarrow> (\<forall>x \<in> set ys. key x = k \<and> x \<in> set xs) \<Longrightarrow> \<exists>w. fold (\<lambda>x v. Some (step x v)) ys None = Some w \<and> P ys w" for ys
  proof (induction ys rule: rev_induct)
    case (snoc x ys)
    then show ?case using init step by (cases "ys = []") auto
  qed simp
  have m: "map_of (group_by key step xs) k = Some v" using assms(1) by (intro map_of_is_SomeI group_by_facts(1))
  then have some: "fold (\<lambda>x v. Some (step x v)) (filter (\<lambda>x. key x = k) xs) None = Some v" unfolding group_by_facts(2) .
  then have "filter (\<lambda>x. key x = k) xs \<noteq> []" by (metis fold_simps(1) option.distinct(1))
  moreover have "\<forall>x \<in> set (filter (\<lambda>x. key x = k) xs). key x = k \<and> x \<in> set xs" by simp
  ultimately obtain w where "fold (\<lambda>x v. Some (step x v)) (filter (\<lambda>x. key x = k) xs) None = Some w" "P (filter (\<lambda>x. key x = k) xs) w"
    using fold by blast
  then show ?thesis unfolding some by simp
qed

section \<open>The list of files\<close>

record fileSummary =
  fs_file :: string
  fs_service :: string
  fs_counts :: "nodeType \<rightharpoonup> nat"

definition matches_query :: "string \<Rightarrow> node \<Rightarrow> bool" where
  "matches_query q n \<longleftrightarrow> nd_file n \<noteq> [] \<and> (q = [] \<or> str_has (to_lower (nd_file n)) (to_lower q))"

definition count_node :: "node \<Rightarrow> fileSummary option \<Rightarrow> fileSummary" where
  "count_node n fs =
     (let s = (case fs of Some s \<Rightarrow> s | None \<Rightarrow> \<lparr>fs_file = nd_file n, fs_service = nd_service n, fs_counts = Map.empty\<rparr>) in
      s\<lparr>fs_counts := (fs_counts s)(nd_type n \<mapsto> Suc (case fs_counts s (nd_type n) of Some k \<Rightarrow> k | None \<Rightarrow> 0))\<rparr>)"

definition file_key :: "node \<Rightarrow> string \<times> string" where
  "file_key n = (nd_service n, nd_file n)"

definition ListFiles :: "adjacencyIndex \<Rightarrow> string \<Rightarrow> int \<Rightarrow> fileSummary list" where
  "ListFiles idx q limit =
     (let out = sort_key (\<lambda>s. (fs_file s, fs_service s)) (map snd (group_by file_key count_node (filter (matches_query q) (map snd (ix_nodes idx))))) in
      if limit > 0 \<and> int (length out) > limit then take (nat limit) out else out)"

section \<open>The nodes of a file\<close>

definition suffix_match :: "string \<Rightarrow> string \<Rightarrow> bool" where
  "suffix_match path f \<longleftrightarrow> suffix (CHR ''/'' # path) f \<or> suffix (CHR ''/'' # f) path"

definition NodesInFile :: "adjacencyIndex \<Rightarrow> string \<Rightarrow> string \<Rightarrow> node list" where
  "NodesInFile idx service path =
     (let ns = filter (\<lambda>n. service = [] \<or> nd_service n = service) (map snd (ix_nodes idx));
          exact = filter (\<lambda>n. nd_file n = path) ns;
          near = filter (\<lambda>n. nd_file n \<noteq> path \<and> suffix_match path (nd_file n)) ns in
      sort_key (\<lambda>n. (nd_file n, nd_line n, nd_id n)) (if exact = [] then near else exact))"

section \<open>The impact of a file\<close>

record fileImpactEntry =
  fi_file :: string
  fi_service :: string
  fi_nodes :: nat
  fi_minDepth :: nat
  fi_edgeTypes :: "string list"
  fi_noise :: "string list"

definition appendUnique :: "string \<Rightarrow> string list \<Rightarrow> string list" where
  "appendUnique v l = (if v \<in> set l then l else l @ [v])"

definition impact_directions :: "string \<Rightarrow> string list" where
  "impact_directions d = (if d = ''backward'' then [DirIn] else if d = ''both'' then [DirOut, DirIn] else [DirOut])"

definition service_file :: "node \<Rightarrow> string" where
  "service_file n = nd_service n @ [nul] @ nd_file n"

definition note_via :: "adjacencyIndex \<Rightarrow> hit \<Rightarrow> fileImpactEntry \<Rightarrow> fileImpactEntry" where
  "note_via idx h e =
     (case ht_via h of
        None \<Rightarrow> e
      | Some v \<Rightarrow> e\<lparr>fi_edgeTypes := appendUnique (ed_type v) (fi_edgeTypes e),
                  fi_noise := (if hit_class idx h \<noteq> NoiseNone then appendUnique (hit_class idx h) (fi_noise e) else fi_noise e)\<rparr>)"

definition touch_file :: "adjacencyIndex \<Rightarrow> bool \<Rightarrow> hit \<Rightarrow> fileImpactEntry option \<Rightarrow> fileImpactEntry" where
  "touch_file idx firstVisit h e0 =
     (let e = (case e0 of Some e \<Rightarrow> e
           | None \<Rightarrow> \<lparr>fi_file = nd_file (ht_node h), fi_service = nd_service (ht_node h), fi_nodes = 0, fi_minDepth = ht_depth h, fi_edgeTypes = [], fi_noise = []\<rparr>)
      in note_via idx h (e\<lparr>fi_nodes := (if firstVisit then Suc (fi_nodes e) else fi_nodes e), fi_minDepth := min (ht_depth h) (fi_minDepth e)\<rparr>))"

text \<open>The two maps of the loop: entries by service and file, and the best depth of every node.\<close>

type_synonym impactState = "((string \<times> string) \<times> fileImpactEntry) list \<times> (string \<rightharpoonup> nat)"

definition visit_hit :: "adjacencyIndex \<Rightarrow> string set \<Rightarrow> hit \<Rightarrow> impactState \<Rightarrow> impactState" where
  "visit_hit idx seedFiles h st =
     (case snd st (hit_id h) of
        Some prev \<Rightarrow>
          if prev \<le> ht_depth h then st
          else (if service_file (ht_node h) \<in> seedFiles then fst st else update_entry (file_key (ht_node h)) (touch_file idx False h) (fst st),
                (snd st)(hit_id h \<mapsto> ht_depth h))
      | None \<Rightarrow> (if service_file (ht_node h) \<in> seedFiles then fst st else update_entry (file_key (ht_node h)) (touch_file idx True h) (fst st),
                (snd st)(hit_id h \<mapsto> ht_depth h)))"

definition seed_hits :: "adjacencyIndex \<Rightarrow> string \<Rightarrow> int \<Rightarrow> traversalPolicy \<Rightarrow> node list \<Rightarrow> hit list option" where
  "seed_hits idx d maxDepth policy seeds =
     map_option concat (those (map (\<lambda>n. those (map hit_of (TraverseWithPolicy idx (nd_id n) d BFS maxDepth policy))) seeds))"

definition FileImpactWithPolicy :: "adjacencyIndex \<Rightarrow> string \<Rightarrow> string \<Rightarrow> string \<Rightarrow> int \<Rightarrow> traversalPolicy \<Rightarrow> fileImpactEntry list option" where
  "FileImpactWithPolicy idx service path dirn maxDepth policy =
     (let seeds = NodesInFile idx service path in
      if seeds = [] then Some []
      else map_option (\<lambda>hs.
          sort_key (\<lambda>e. (fi_minDepth e, fi_file e, fi_service e))
            (map ((\<lambda>e. e\<lparr>fi_edgeTypes := sort (fi_edgeTypes e), fi_noise := sort (fi_noise e)\<rparr>) \<circ> snd)
              (fst (fold (visit_hit idx (service_file ` set seeds)) hs ([], Map.empty)))))
        (map_option concat (those (map (\<lambda>d. seed_hits idx d maxDepth policy seeds) (impact_directions dirn)))))"

definition FileImpact :: "adjacencyIndex \<Rightarrow> string \<Rightarrow> string \<Rightarrow> string \<Rightarrow> int \<Rightarrow> fileImpactEntry list option" where
  "FileImpact idx service path dirn maxDepth = FileImpactWithPolicy idx service path dirn maxDepth RawPolicy"


section \<open>What the list of files says\<close>

lemma map_sort_key: "map f (sort_key f xs) = sort (map f xs)"
  by (rule properties_for_sort [symmetric]) (simp_all add: mset_map [symmetric] del: mset_map, metis mset_map mset_sort)

definition counted :: "fileSummary \<Rightarrow> nodeType \<Rightarrow> nat" where
  "counted s t = (case fs_counts s t of Some k \<Rightarrow> k | None \<Rightarrow> 0)"

lemma count_node_simps [simp]:
  "fs_file (count_node n None) = nd_file n" "fs_service (count_node n None) = nd_service n"
  "counted (count_node n None) t = (if nd_type n = t then 1 else 0)"
  "fs_file (count_node n (Some s)) = fs_file s" "fs_service (count_node n (Some s)) = fs_service s"
  "counted (count_node n (Some s)) t = (if nd_type n = t then Suc (counted s t) else counted s t)"
  by (simp_all add: count_node_def counted_def)

lemma file_entry:
  assumes "(k, s) \<in> set (group_by file_key count_node ns)"
  shows "fs_service s = fst k \<and> fs_file s = snd k \<and> (\<forall>t. counted s t = length (filter (\<lambda>n. nd_type n = t) (filter (\<lambda>n. file_key n = k) ns)))"
  using assms
  by (rule group_entry [where P = "\<lambda>ys s. fs_service s = fst k \<and> fs_file s = snd k \<and> (\<forall>t. counted s t = length (filter (\<lambda>n. nd_type n = t) ys))"])
     (auto simp: file_key_def)

text \<open>
  The list of files. Every file that matches is listed once for each of its services, in order of path and
  service whatever the order of the node map, with the number of its nodes of every type; a limit takes the first.
\<close>

theorem files_listed_exactly:
  defines "ns idx q \<equiv> filter (matches_query q) (map snd (ix_nodes idx))"
  shows "ListFiles idx q limit = (if limit > 0 then take (nat limit) (ListFiles idx q 0) else ListFiles idx q 0)
    \<and> map (\<lambda>s. (fs_file s, fs_service s)) (ListFiles idx q 0) = sorted_list_of_set ((\<lambda>n. (nd_file n, nd_service n)) ` set (ns idx q))
    \<and> list_all (\<lambda>s. counted s = (\<lambda>t. length (filter (\<lambda>n. nd_file n = fs_file s \<and> nd_service n = fs_service s \<and> nd_type n = t) (ns idx q)))) (ListFiles idx q 0)"
proof -
  let ?g = "group_by file_key count_node (ns idx q)" and ?f = "\<lambda>s. (fs_file s, fs_service s)"
  have all: "ListFiles idx q 0 = sort_key ?f (map snd ?g)" by (simp add: ListFiles_def ns_def)
  have lim: "ListFiles idx q limit = (if limit > 0 then take (nat limit) (ListFiles idx q 0) else ListFiles idx q 0)"
    unfolding all by (auto simp: ListFiles_def ns_def Let_def)
  have keys: "map ?f (map snd ?g) = map prod.swap (map fst ?g)"
    using file_entry [of _ _ "ns idx q"] by (auto simp: prod.swap_def)
  have "distinct (map prod.swap (map fst ?g))" using group_by_facts(1) [of file_key count_node "ns idx q"]
    by (intro iffD2 [OF distinct_map [of prod.swap]]) (simp add: inj_on_def prod.swap_def prod_eq_iff)
  then have d: "distinct (map ?f (map snd ?g))" unfolding keys .
  have "set (map ?f (map snd ?g)) = prod.swap ` file_key ` set (ns idx q)" unfolding keys group_by_facts(3) [of file_key count_node "ns idx q", symmetric] by (simp add: image_image)
  then have members: "set (map ?f (map snd ?g)) = (\<lambda>n. (nd_file n, nd_service n)) ` set (ns idx q)" by (simp add: image_image file_key_def)
  have listed: "map ?f (ListFiles idx q 0) = sorted_list_of_set ((\<lambda>n. (nd_file n, nd_service n)) ` set (ns idx q))"
    unfolding all map_sort_key members [symmetric] sorted_list_of_set_sort_remdups distinct_remdups_id [OF d] ..
  have "counted s = (\<lambda>t. length (filter (\<lambda>n. nd_file n = fs_file s \<and> nd_service n = fs_service s \<and> nd_type n = t) (ns idx q)))"
    if "s \<in> set (ListFiles idx q 0)" for s
  proof -
    have "s \<in> snd ` set ?g" using that by (simp add: all)
    then obtain p where p: "s = snd p" "p \<in> set ?g" by (rule imageE)
    then have entry: "fs_service s = fst (fst p) \<and> fs_file s = snd (fst p)
        \<and> (\<forall>t. counted s t = length (filter (\<lambda>n. nd_type n = t) (filter (\<lambda>n. file_key n = fst p) (ns idx q))))"
      by (intro file_entry) simp
    then have "filter (\<lambda>n. nd_type n = t) (filter (\<lambda>n. file_key n = fst p) (ns idx q))
        = filter (\<lambda>n. nd_file n = fs_file s \<and> nd_service n = fs_service s \<and> nd_type n = t) (ns idx q)" for t
      unfolding filter_filter by (intro filter_cong refl) (auto simp: file_key_def prod_eq_iff)
    then show ?thesis using entry by (simp add: fun_eq_iff)
  qed
  then show ?thesis using lim listed by (simp add: list_all_iff)
qed


section \<open>What the impact of a file says\<close>

text \<open>The hits on the nodes of a file, outside the files of the seeds.\<close>

definition hits_in :: "string set \<Rightarrow> hit list \<Rightarrow> string \<times> string \<Rightarrow> hit set" where
  "hits_in seedFiles hs k = {h \<in> set hs. file_key (ht_node h) = k \<and> service_file (ht_node h) \<notin> seedFiles}"

definition impact_inv :: "string set \<Rightarrow> hit list \<Rightarrow> impactState \<Rightarrow> bool" where
  "impact_inv seedFiles hs st \<longleftrightarrow>
     distinct (map fst (fst st))
     \<and> (\<forall>v. snd st v = (let D = ht_depth ` {h \<in> set hs. hit_id h = v} in if D = {} then None else Some (Min D)))
     \<and> fst ` set (fst st) = {k. hits_in seedFiles hs k \<noteq> {}}
     \<and> (\<forall>(k, e) \<in> set (fst st). fi_service e = fst k \<and> fi_file e = snd k
          \<and> fi_nodes e = card (hit_id ` hits_in seedFiles hs k) \<and> fi_minDepth e = Min (ht_depth ` hits_in seedFiles hs k))"

lemma note_via_simps [simp]:
  "fi_service (note_via idx h e) = fi_service e" "fi_file (note_via idx h e) = fi_file e"
  "fi_nodes (note_via idx h e) = fi_nodes e" "fi_minDepth (note_via idx h e) = fi_minDepth e"
  by (cases "ht_via h"; simp add: note_via_def)+

lemma touch_simps [simp]:
  "fi_service (touch_file idx b h None) = nd_service (ht_node h)" "fi_file (touch_file idx b h None) = nd_file (ht_node h)"
  "fi_nodes (touch_file idx b h None) = (if b then 1 else 0)" "fi_minDepth (touch_file idx b h None) = ht_depth h"
  "fi_service (touch_file idx b h (Some e)) = fi_service e" "fi_file (touch_file idx b h (Some e)) = fi_file e"
  "fi_nodes (touch_file idx b h (Some e)) = (if b then Suc (fi_nodes e) else fi_nodes e)"
  "fi_minDepth (touch_file idx b h (Some e)) = min (ht_depth h) (fi_minDepth e)"
  by (simp_all add: touch_file_def Let_def)

lemma hits_in_snoc:
  "hits_in S (hs @ [h]) k = (if file_key (ht_node h) = k \<and> service_file (ht_node h) \<notin> S then insert h (hits_in S hs k) else hits_in S hs k)"
  by (auto simp: hits_in_def)

lemma hits_in_finite [simp]: "finite (hits_in S hs k)"
  by (simp add: hits_in_def)

text \<open>An entry that is created or updated for one hit.\<close>

lemma touch_entry:
  assumes d: "distinct (map fst m)" and keys: "fst ` set m = {k. H k \<noteq> {}}" and fin: "\<And>k. finite (H k)"
    and ent: "\<forall>(k, e) \<in> set m. fi_service e = fst k \<and> fi_file e = snd k \<and> fi_nodes e = card (hit_id ` H k) \<and> fi_minDepth e = Min (ht_depth ` H k)"
    and k0: "k0 = file_key (ht_node h)" and new: "b \<longleftrightarrow> hit_id h \<notin> hit_id ` H k0" and old: "b \<or> H k0 \<noteq> {}"
  shows "distinct (map fst (update_entry k0 (touch_file idx b h) m))"
    and "fst ` set (update_entry k0 (touch_file idx b h) m) = {k. (H(k0 := insert h (H k0))) k \<noteq> {}}"
    and "\<forall>(k, e) \<in> set (update_entry k0 (touch_file idx b h) m). fi_service e = fst k \<and> fi_file e = snd k
      \<and> fi_nodes e = card (hit_id ` (H(k0 := insert h (H k0))) k) \<and> fi_minDepth e = Min (ht_depth ` (H(k0 := insert h (H k0))) k)"
proof -
  show "distinct (map fst (update_entry k0 (touch_file idx b h) m))" using d by (simp add: update_entry_def distinct_update)
  show "fst ` set (update_entry k0 (touch_file idx b h) m) = {k. (H(k0 := insert h (H k0))) k \<noteq> {}}"
    using keys by (auto simp: update_entry_def dom_update [symmetric] set_update [OF d] image_iff)
  have at: "fi_service e = fst k0 \<and> fi_file e = snd k0 \<and> fi_nodes e = card (hit_id ` insert h (H k0)) \<and> fi_minDepth e = Min (ht_depth ` insert h (H k0))"
    if e: "e = touch_file idx b h (map_of m k0)" for e
  proof (cases "map_of m k0")
    case None
    then have "k0 \<notin> fst ` set m" by (simp add: map_of_eq_None_iff)
    then have "H k0 = {}" using keys by simp
    then show ?thesis using e None old k0 by (simp add: file_key_def)
  next
    case (Some e0)
    then have e0: "(k0, e0) \<in> set m" by (rule map_of_SomeD)
    then have ne: "H k0 \<noteq> {}" using keys by (metis (mono_tags, lifting) fst_conv imageI mem_Collect_eq)
    have "fi_service e0 = fst k0 \<and> fi_file e0 = snd k0 \<and> fi_nodes e0 = card (hit_id ` H k0) \<and> fi_minDepth e0 = Min (ht_depth ` H k0)"
      using ent e0 by blast
    then show ?thesis using e Some ne fin [of k0] new by (simp add: card_insert_if insert_absorb)
  qed
  show "\<forall>(k, e) \<in> set (update_entry k0 (touch_file idx b h) m). fi_service e = fst k \<and> fi_file e = snd k
      \<and> fi_nodes e = card (hit_id ` (H(k0 := insert h (H k0))) k) \<and> fi_minDepth e = Min (ht_depth ` (H(k0 := insert h (H k0))) k)"
    unfolding update_entry_def set_update [OF d] using at ent by auto
qed


definition one_node_each :: "hit list \<Rightarrow> bool" where
  "one_node_each hs \<longleftrightarrow> (\<forall>h \<in> set hs. \<forall>h' \<in> set hs. hit_id h = hit_id h' \<longrightarrow> ht_node h = ht_node h')"

lemma best_snoc:
  assumes "\<forall>v. nd v = (let D = ht_depth ` {h \<in> set hs. hit_id h = v} in if D = {} then None else Some (Min D))"
  shows "(case nd (hit_id h) of Some prev \<Rightarrow> if prev \<le> ht_depth h then nd else nd(hit_id h \<mapsto> ht_depth h) | None \<Rightarrow> nd(hit_id h \<mapsto> ht_depth h)) v
    = (let D = ht_depth ` {k \<in> set (hs @ [h]). hit_id k = v} in if D = {} then None else Some (Min D))"
proof (cases "v = hit_id h")
  case True
  have ins: "{k \<in> set (hs @ [h]). hit_id k = hit_id h} = insert h {k \<in> set hs. hit_id k = hit_id h}" by auto
  show ?thesis
  proof (cases "{k \<in> set hs. hit_id k = hit_id h} = {}")
    case False
    then have "nd (hit_id h) = Some (Min (ht_depth ` {k \<in> set hs. hit_id k = hit_id h}))" using assms by (simp add: Let_def)
    moreover have "Min (insert (ht_depth h) (ht_depth ` {k \<in> set hs. hit_id k = hit_id h})) = min (ht_depth h) (Min (ht_depth ` {k \<in> set hs. hit_id k = hit_id h}))"
      using False by (intro Min_insert) auto
    ultimately show ?thesis unfolding True ins image_insert by (simp only: Let_def option.case insert_not_empty if_False) (simp add: min_def)
  next
    case none: True
    then have "nd (hit_id h) = None" using assms by (simp add: Let_def)
    then show ?thesis unfolding True ins none by simp
  qed
next
  case False
  then have same: "{k \<in> set (hs @ [h]). hit_id k = v} = {k \<in> set hs. hit_id k = v}" by auto
  show ?thesis unfolding same assms [rule_format, of v, symmetric] using False by (simp split: option.split)
qed

lemma visit_inv:
  assumes inv: "impact_inv S hs st" and one: "one_node_each (hs @ [h])"
  shows "impact_inv S (hs @ [h]) (visit_hit idx S h st)"
proof -
  obtain m nd where st: "st = (m, nd)" by fastforce
  let ?k0 = "file_key (ht_node h)" and ?H = "hits_in S hs"
  have d: "distinct (map fst m)" and keys: "fst ` set m = {k. ?H k \<noteq> {}}"
    and nd: "\<forall>v. nd v = (let D = ht_depth ` {h \<in> set hs. hit_id h = v} in if D = {} then None else Some (Min D))"
    and ent: "\<forall>(k, e) \<in> set m. fi_service e = fst k \<and> fi_file e = snd k \<and> fi_nodes e = card (hit_id ` ?H k) \<and> fi_minDepth e = Min (ht_depth ` ?H k)"
    using inv by (simp_all add: impact_inv_def st)
  have snd: "snd (visit_hit idx S h st)
    = (case nd (hit_id h) of Some prev \<Rightarrow> if prev \<le> ht_depth h then nd else nd(hit_id h \<mapsto> ht_depth h) | None \<Rightarrow> nd(hit_id h \<mapsto> ht_depth h))"
    by (simp add: visit_hit_def st split: option.split)
  have same: "h' \<in> ?H ?k0" if "h' \<in> set hs" "hit_id h' = hit_id h" "service_file (ht_node h) \<notin> S" for h'
    using that one unfolding one_node_each_def hits_in_def by (metis (mono_tags, lifting) UnCI list.set_intros(1) mem_Collect_eq set_append)
  have H: "(\<lambda>k. hits_in S (hs @ [h]) k) = (if service_file (ht_node h) \<in> S then ?H else ?H(?k0 := insert h (?H ?k0)))"
    by (auto simp: hits_in_snoc fun_eq_iff)
  let ?ok = "\<lambda>m H. distinct (map fst m) \<and> fst ` set m = {k. H k \<noteq> {}} \<and> (\<forall>(k, e) \<in> set m. fi_service e = fst k \<and> fi_file e = snd k
     \<and> fi_nodes e = card (hit_id ` H k) \<and> fi_minDepth e = Min (ht_depth ` H k))"
  have ok0: "?ok m ?H" using d keys ent by blast
  have touched: "?ok (update_entry ?k0 (touch_file idx b h) m) (?H(?k0 := insert h (?H ?k0)))"
    if "b \<longleftrightarrow> hit_id h \<notin> hit_id ` ?H ?k0" "b \<or> ?H ?k0 \<noteq> {}" for b
    using touch_entry [OF d keys hits_in_finite ent refl that] by blast
  have "?ok (fst (visit_hit idx S h st)) (hits_in S (hs @ [h]))"
  proof (cases "nd (hit_id h)")
    case None
    then have "{k \<in> set hs. hit_id k = hit_id h} = {}" using nd [rule_format, of "hit_id h"] None by (simp add: Let_def split: if_splits)
    then have "hit_id h \<notin> hit_id ` ?H ?k0" by (auto simp: hits_in_def)
    then show ?thesis using None touched [of True] ok0 unfolding H by (simp add: visit_hit_def st)
  next
    case (Some prev)
    then have D: "{k \<in> set hs. hit_id k = hit_id h} \<noteq> {}" "prev = Min (ht_depth ` {k \<in> set hs. hit_id k = hit_id h})"
      using nd [rule_format, of "hit_id h"] Some by (simp_all add: Let_def split: if_splits)
    then have "prev \<in> ht_depth ` {k \<in> set hs. hit_id k = hit_id h}" by simp
    then obtain h' where h': "h' \<in> set hs" "hit_id h' = hit_id h" "ht_depth h' = prev" by auto
    show ?thesis
    proof (cases "service_file (ht_node h) \<in> S")
      case True
      then show ?thesis using ok0 Some unfolding H by (simp add: visit_hit_def st)
    next
      case False
      then have in_H: "h' \<in> ?H ?k0" using same h' by simp
      show ?thesis
      proof (cases "prev \<le> ht_depth h")
        case True
        have ids: "hit_id ` insert h (?H ?k0) = hit_id ` ?H ?k0" using in_H h'(2) by (metis image_insert insert_absorb imageI)
        have "Min (insert (ht_depth h) (ht_depth ` ?H ?k0)) = Min (ht_depth ` ?H ?k0)"
          using in_H h'(3) True by (subst Min_insert) (auto intro!: min_absorb2 order_trans [OF Min_le, of _ "ht_depth h'"])
        then have "?ok m (?H(?k0 := insert h (?H ?k0)))" using ok0 in_H ids by auto
        then show ?thesis using Some True False unfolding H by (simp add: visit_hit_def st)
      next
        case later: False
        have "hit_id h \<in> hit_id ` ?H ?k0" using in_H h'(2) by (metis imageI)
        then have "?ok (update_entry ?k0 (touch_file idx False h) m) (?H(?k0 := insert h (?H ?k0)))"
          using in_H by (intro touched) auto
        then show ?thesis using Some later False unfolding H by (simp add: visit_hit_def st)
      qed
    qed
  qed
  then show ?thesis unfolding impact_inv_def snd using best_snoc [OF nd] by blast
qed


definition walk_options :: "int \<Rightarrow> traversalPolicy \<Rightarrow> blastOptions" where
  "walk_options maxDepth policy = \<lparr>bo_depth = maxDepth, bo_service = [], bo_direction = [], bo_policy = policy, bo_include = []\<rparr>"

lemma concat_hits:
  assumes "\<And>x. x \<in> set xs \<Longrightarrow> \<exists>hs. f x = Some hs \<and> places hs = R x \<and> (\<forall>h \<in> set hs. node_of idx (hit_id h) = Some (ht_node h))"
  shows "\<exists>hs. map_option concat (those (map f xs)) = Some hs \<and> places hs = (\<Union>x \<in> set xs. R x) \<and> (\<forall>h \<in> set hs. node_of idx (hit_id h) = Some (ht_node h))"
  using assms
proof (induction xs)
  case Nil
  then show ?case by (simp add: places_def)
next
  case (Cons x xs)
  obtain hs where "f x = Some hs" "places hs = R x" "\<forall>h \<in> set hs. node_of idx (hit_id h) = Some (ht_node h)"
    using Cons.prems by fastforce
  moreover obtain hs' where "map_option concat (those (map f xs)) = Some hs'" "places hs' = (\<Union>x \<in> set xs. R x)"
    "\<forall>h \<in> set hs'. node_of idx (hit_id h) = Some (ht_node h)" using Cons.IH Cons.prems by auto
  ultimately show ?case by (auto simp: ball_Un)
qed

lemma all_hits:
  assumes "index_keyed idx" "index_closed idx" "no_terminal policy" "\<forall>n \<in> set seeds. node_of idx (nd_id n) \<noteq> None"
  shows "\<exists>hs. map_option concat (those (map (\<lambda>d. seed_hits idx d mx policy seeds) dirs)) = Some hs
    \<and> places hs = (\<Union>d \<in> set dirs. \<Union>n \<in> set seeds. {(v, k). hop idx d (walk_options mx policy) (nd_id n) v k})
    \<and> (\<forall>h \<in> set hs. node_of idx (hit_id h) = Some (ht_node h))"
proof (rule concat_hits)
  fix d
  show "\<exists>hs. seed_hits idx d mx policy seeds = Some hs \<and> places hs = (\<Union>n \<in> set seeds. {(v, k). hop idx d (walk_options mx policy) (nd_id n) v k})
      \<and> (\<forall>h \<in> set hs. node_of idx (hit_id h) = Some (ht_node h))"
    unfolding seed_hits_def
  proof (rule concat_hits)
    fix n assume n: "n \<in> set seeds"
    have pol: "no_terminal (bo_policy (walk_options mx policy))" using assms(3) by (simp add: walk_options_def)
    obtain hs where "hits_from idx (nd_id n) d (walk_options mx policy) = Some hs"
      "\<forall>v k. (v, k) \<in> places hs \<longleftrightarrow> hop idx d (walk_options mx policy) (nd_id n) v k" "\<forall>h \<in> set hs. node_of idx (hit_id h) = Some (ht_node h)"
      using hits_from_exact [OF assms(1,2) pol, of "nd_id n" d] assms(4) n by metis
    then show "\<exists>hs. those (map hit_of (TraverseWithPolicy idx (nd_id n) d BFS mx policy)) = Some hs
        \<and> places hs = {(v, k). hop idx d (walk_options mx policy) (nd_id n) v k} \<and> (\<forall>h \<in> set hs. node_of idx (hit_id h) = Some (ht_node h))"
      by (auto simp: hits_from_def walk_options_def)
  qed
qed

text \<open>The nodes of a file that a walk from one of the seeds reaches, with the depths.\<close>

definition reached_in :: "adjacencyIndex \<Rightarrow> node list \<Rightarrow> string \<Rightarrow> blastOptions \<Rightarrow> string \<times> string \<Rightarrow> (string \<times> nat) set" where
  "reached_in idx seeds dirn opts k =
     {(v, d). (\<exists>dir \<in> set (impact_directions dirn). \<exists>n \<in> set seeds. hop idx dir opts (nd_id n) v d)
        \<and> (\<exists>m. node_of idx v = Some m \<and> file_key m = k \<and> service_file m \<notin> service_file ` set seeds)}"

lemma impact_fold:
  assumes "one_node_each hs"
  shows "impact_inv S hs (fold (visit_hit idx S) hs ([], Map.empty))"
  using assms
proof (induction hs rule: rev_induct)
  case Nil
  then show ?case by (simp add: impact_inv_def hits_in_def)
next
  case (snoc h hs)
  have one: "one_node_each hs" using snoc.prems unfolding one_node_each_def set_append by blast
  have "fold (visit_hit idx S) (hs @ [h]) ([], Map.empty) = visit_hit idx S h (fold (visit_hit idx S) hs ([], Map.empty))" by simp
  then show ?case using visit_inv [OF snoc.IH [OF one] snoc.prems, of idx] by (simp only:)
qed

lemma nodes_in_index: "index_keyed idx \<Longrightarrow> n \<in> set (NodesInFile idx service path) \<Longrightarrow> node_of idx (nd_id n) \<noteq> None"
proof -
  assume keyed: "index_keyed idx" and n: "n \<in> set (NodesInFile idx service path)"
  have "set (NodesInFile idx service path) \<subseteq> snd ` set (ix_nodes idx)" by (auto simp: NodesInFile_def Let_def)
  then obtain v where v: "(v, n) \<in> set (ix_nodes idx)" using n by fastforce
  then have "nd_id n = v" using keyed by (auto simp: index_keyed_def)
  moreover have "v \<in> fst ` set (ix_nodes idx)" using v by (rule image_eqI [rotated]) simp
  ultimately show ?thesis by (simp add: node_of_def map_of_eq_None_iff)
qed

text \<open>
  The impact of a file. On a closed index the answer exists and lists exactly the files outside the given
  ones with a node that a walk from one of its nodes reaches, each service and file once and in order of depth, path
  and service, with the number of those nodes and the depth of the nearest.
\<close>

theorem file_impact_exact:
  assumes "index_keyed idx" "index_closed idx" "no_terminal policy"
  shows "\<exists>es. FileImpactWithPolicy idx service path dirn mx policy = Some es
    \<and> sorted (map (\<lambda>e. (fi_minDepth e, fi_file e, fi_service e)) es) \<and> distinct (map (\<lambda>e. (fi_service e, fi_file e)) es)
    \<and> (\<lambda>e. (fi_service e, fi_file e)) ` set es = {k. reached_in idx (NodesInFile idx service path) dirn (walk_options mx policy) k \<noteq> {}}
    \<and> (\<forall>e \<in> set es. let r = reached_in idx (NodesInFile idx service path) dirn (walk_options mx policy) (fi_service e, fi_file e) in
         fi_nodes e = card (fst ` r) \<and> fi_minDepth e = Min (snd ` r))"
proof (cases "NodesInFile idx service path = []")
  case True
  then show ?thesis by (simp add: FileImpactWithPolicy_def reached_in_def)
next
  case False
  let ?seeds = "NodesInFile idx service path" and ?opts = "walk_options mx policy"
  let ?S = "service_file ` set ?seeds" and ?r = "reached_in idx (NodesInFile idx service path) dirn (walk_options mx policy)"
  have seeds: "\<forall>n \<in> set ?seeds. node_of idx (nd_id n) \<noteq> None" using nodes_in_index [OF assms(1)] by blast
  obtain hs where hs: "map_option concat (those (map (\<lambda>d. seed_hits idx d mx policy ?seeds) (impact_directions dirn))) = Some hs"
    "places hs = (\<Union>d \<in> set (impact_directions dirn). \<Union>n \<in> set ?seeds. {(v, k). hop idx d ?opts (nd_id n) v k})"
    "\<forall>h \<in> set hs. node_of idx (hit_id h) = Some (ht_node h)"
    using all_hits [OF assms seeds, of mx "impact_directions dirn"] by (elim exE conjE) (rule that)
  let ?m = "fst (fold (visit_hit idx ?S) hs ([], Map.empty))" and ?s = "\<lambda>e. e\<lparr>fi_edgeTypes := sort (fi_edgeTypes e), fi_noise := sort (fi_noise e)\<rparr>"
  define es where "es = sort_key (\<lambda>e. (fi_minDepth e, fi_file e, fi_service e)) (map (?s \<circ> snd) ?m)"
  have run: "FileImpactWithPolicy idx service path dirn mx policy = Some es"
    using False unfolding FileImpactWithPolicy_def Let_def hs(1) es_def by simp
  have one: "one_node_each hs" unfolding one_node_each_def using hs(3) by (metis option.inject)
  have r: "?r k = (\<lambda>h. (hit_id h, ht_depth h)) ` hits_in ?S hs k" for k
  proof -
    have "(v, d) \<in> ?r k \<longleftrightarrow> (v, d) \<in> places hs \<and> (\<exists>m. node_of idx v = Some m \<and> file_key m = k \<and> service_file m \<notin> ?S)" for v d
      unfolding reached_in_def hs(2) by auto
    moreover have "(v, d) \<in> places hs \<and> (\<exists>m. node_of idx v = Some m \<and> file_key m = k \<and> service_file m \<notin> ?S)
        \<longleftrightarrow> (\<exists>h \<in> hits_in ?S hs k. (v, d) = (hit_id h, ht_depth h))" for v d
    proof
      assume l: "(v, d) \<in> places hs \<and> (\<exists>m. node_of idx v = Some m \<and> file_key m = k \<and> service_file m \<notin> ?S)"
      then obtain h where h: "h \<in> set hs" "v = hit_id h" "d = ht_depth h" by (auto simp: places_def)
      then have "file_key (ht_node h) = k \<and> service_file (ht_node h) \<notin> ?S" using l hs(3) by auto
      then show "\<exists>h \<in> hits_in ?S hs k. (v, d) = (hit_id h, ht_depth h)" using h by (intro bexI [of _ h]) (simp_all add: hits_in_def)
    next
      assume "\<exists>h \<in> hits_in ?S hs k. (v, d) = (hit_id h, ht_depth h)"
      then obtain h where h: "h \<in> set hs" "file_key (ht_node h) = k" "service_file (ht_node h) \<notin> ?S" "v = hit_id h" "d = ht_depth h"
        by (auto simp: hits_in_def)
      then have "(v, d) \<in> places hs" unfolding places_def by (intro image_eqI [of _ _ h]) simp_all
      moreover have "node_of idx v = Some (ht_node h)" using hs(3) h by simp
      ultimately show "(v, d) \<in> places hs \<and> (\<exists>m. node_of idx v = Some m \<and> file_key m = k \<and> service_file m \<notin> ?S)" using h by blast
    qed
    ultimately show ?thesis by (auto simp: image_iff)
  qed
  have parts: "fst ` ?r k = hit_id ` hits_in ?S hs k" "snd ` ?r k = ht_depth ` hits_in ?S hs k" for k
    unfolding r by (simp_all add: image_image)
  note inv = impact_fold [OF one, of ?S idx, unfolded impact_inv_def]
  have d: "distinct (map fst ?m)" and keys: "fst ` set ?m = {k. ?r k \<noteq> {}}" using inv unfolding r by simp_all
  have ent: "\<And>k e. (k, e) \<in> set ?m \<Longrightarrow> fi_service e = fst k \<and> fi_file e = snd k \<and> fi_nodes e = card (fst ` ?r k) \<and> fi_minDepth e = Min (snd ` ?r k)"
    using inv unfolding parts by blast
  have key: "map (\<lambda>e. (fi_service e, fi_file e)) (map (?s \<circ> snd) ?m) = map fst ?m"
    using ent by (auto simp: prod_eq_iff)
  have "distinct (map (\<lambda>e. (fi_service e, fi_file e)) es)"
    using d unfolding es_def key [symmetric] by (simp add: distinct_map del: map_map)
  moreover have "(\<lambda>e. (fi_service e, fi_file e)) ` set es = {k. ?r k \<noteq> {}}"
  proof -
    have "(\<lambda>e. (fi_service e, fi_file e)) ` set es = set (map (\<lambda>e. (fi_service e, fi_file e)) (map (?s \<circ> snd) ?m))"
      unfolding es_def by (simp add: image_image)
    also have "\<dots> = fst ` set ?m" unfolding key by (rule set_map)
    finally show ?thesis unfolding keys .
  qed
  moreover have "fi_nodes e = card (fst ` ?r (fi_service e, fi_file e)) \<and> fi_minDepth e = Min (snd ` ?r (fi_service e, fi_file e))"
    if "e \<in> set es" for e
  proof -
    have "e \<in> (\<lambda>p. ?s (snd p)) ` set ?m" using that unfolding es_def by simp
    then obtain p where p: "e = ?s (snd p)" "p \<in> set ?m" by (rule imageE)
    then have "(fst p, snd p) \<in> set ?m" by simp
    from ent [OF this] show ?thesis using p(1) by simp
  qed
  ultimately show ?thesis using run by (intro exI [of _ es]) (simp add: es_def Let_def)
qed

section \<open>A small graph\<close>

theorem file_impact_exact_witness:
  "\<exists>es. FileImpactWithPolicy town [] ''y.go'' ''backward'' 0 BlastRadiusPolicy = Some es
    \<and> (\<lambda>e. (fi_service e, fi_file e)) ` set es
      = {k. reached_in town (NodesInFile town [] ''y.go'') ''backward'' (walk_options 0 BlastRadiusPolicy) k \<noteq> {}}"
proof -
  have "index_keyed town" unfolding town_def by (rule BuildIndex_keyed)
  moreover have "index_closed town" by code_simp
  moreover have "no_terminal BlastRadiusPolicy" by (simp add: no_terminal_def BlastRadiusPolicy_def)
  ultimately show ?thesis using file_impact_exact [of town BlastRadiusPolicy "[]" "''y.go''" "''backward''" 0] by blast
qed

lemma town_file_impact:
  "map_option (map (\<lambda>e. (fi_file e, fi_nodes e, fi_minDepth e, fi_edgeTypes e))) (FileImpact town [] ''y.go'' ''backward'' 0)
    = Some [(''x.go'', 1, 1, [''calls'']), (''y_test.go'', 1, 1, [''calls''])]"
  by code_simp

text \<open>A departure: a query that ends in a slash matches every node that has no file.\<close>

lemma slash_matches_fileless: "suffix_match (d @ ''/'') []"
  by (simp add: suffix_match_def)

end
