(* ===== verification/Spec2Isabelle.thy ===== *)
theory Spec2Isabelle
  imports Demo Value_Lattice Jobs Traversal Fusion Contract_Props Route_Props Dead_Props Edge_Persistence Blast_Props Flow_Props Predicate_Props Emit_Props
    Bridge_Props Resolution_Props Pipeline_Props Pipeline_Demo Trace_Props Trace_Budget Graph_Files
begin

text \<open>
  A verification library for polyflow, a tool that builds a cross-language flow graph of a code base
  and answers questions about it. Modelled here are the parts that carry its own core logic: the
  Datalog engine that derives the graph's edges from facts (\<open>internal/datalog\<close>), the pipeline that makes the
  facts and emits the edges (\<open>internal/factpipe\<close>), the lattice of
  resolved string values (\<open>internal/valuegraph/value.go\<close>), the contract engine that links services over
  the keys of their endpoints (\<open>internal/contract\<close>), the fusion of evidence about an edge
  (\<open>internal/evidence\<close>), the traversal of the graph (\<open>internal/graph/query.go\<close>) and the background-job
  engine with its table (\<open>internal/jobs\<close>, \<open>internal/ops/store.go\<close>).

  \<^bold>\<open>How the parts interact.\<close> Rule packs are parsed, checked and stratified when they are loaded; facts
  are interned and stored in indexed relations; a query over a free goal evaluates the strongly
  connected components of the goal's dependency cone bottom-up, with semi-naive rounds, and a bound
  query uses memo tables top-down. The answers are revealed and sorted. A framework of the fact pipeline asserts the
  graph so far and its own facts, runs such a program and emits edges, nodes and patches for its answers. Value resolution builds
  values with \<open>Concat\<close> and \<open>Union\<close> and reads them with \<open>Strings\<close>; the strings become keys, or lists of
  candidate keys, in the metadata of nodes. Handlers in route groups get their full path, the linking
  pass joins producers and consumers whose keys agree, and its edges are stamped with static provenance.
  Reconciliation joins that evidence with the one of specifications, traces and configuration and gives
  every edge its state, and the edges that changed are written back; traversals, the impact of a change and
  the scan for dead code read the index of the resulting graph. Long-running work (indexing,
  evaluation, reconciliation) runs as a job.

  \<^bold>\<open>Theories, in the order of the code.\<close>
  \<^item> \<open>Prelude\<close>: errors as sums (\<open>bindE\<close>, \<open>foldE\<close>), decimal numerals, words, shared lemmas.
  \<^item> \<open>Interner\<close>: \<open>interner\<close> of \<open>engine.go\<close> and the integer symbols of \<open>builtin.go\<close>, at 32 bits; packed
    tuple and subgoal keys. Shown: interning and revealing is the identity up to normal numerals, and
    keys are injective.
  \<^item> \<open>Rel_Store\<close>: \<open>relation\<close> of \<open>engine.go\<close> with its blocks, key set and lazy index. The locale
    \<open>tuple_store\<close> states the contract of an ordered set of tuples; it is interpreted on the model.
  \<^item> \<open>Rules\<close>: \<open>parse.go\<close>: lexer, parser, aggregates, variable numbering, \<open>checkSafe\<close>.
  \<^item> \<open>Strata\<close>: \<open>strata.go\<close>; \<open>stratify\<close> decides stratifiability and returns the least stratification.
  \<^item> \<open>Eval\<close>: \<open>solve.go\<close> (\<open>join\<close>, \<open>evalRule\<close>, \<open>record\<close>) and \<open>agg.go\<close>, over an explicit engine state.
  \<^item> \<open>Semantics\<close>: what a join enumerates, proved once in the locales \<open>body_source\<close> and
    \<open>rule_emission\<close> for any source of body tuples; \<open>BottomUp\<close> and \<open>Aggregate\<close> interpret them.
  \<^item> \<open>Model\<close>: the specification, the perfect model of a stratified program with aggregates.
  \<^item> \<open>BottomUp\<close>, \<open>Aggregate\<close>, \<open>Component\<close>: \<open>bottomup.go\<close>; the table invariant, aggregates at their
    flush, and that a component reaches its fixpoint.
  \<^item> \<open>Tarjan\<close>, \<open>Cone\<close>: \<open>cone\<close> and \<open>solveBottomUp\<close>.
  \<^item> \<open>TopDown\<close>: the tabled evaluator.
  \<^item> \<open>Engine\<close>: \<open>New\<close>, \<open>Assert\<close>, \<open>LoadRules\<close>, \<open>Query\<close>, \<open>Provenance\<close> and \<open>program.go\<close>.
  \<^item> \<open>Loading\<close>: what parsing and the load checks establish.
  \<^item> \<open>Answers\<close>: from symbols back to names: facts, queries and \<open>Eval\<close> at the level of strings.
  \<^item> \<open>Progress\<close>: when a query fails. The errors by which the engine checks itself never occur on a loaded
    program, every other error names its cause in the data, and so a query within the caps returns.
  \<^item> \<open>Demo\<close>: a program that is run through the whole engine, for the witnesses.
  \<^item> \<open>Value_Lattice\<close>: \<open>value.go\<close>; enumeration against a denotation, algebra of \<open>Concat\<close> and \<open>Union\<close>.
  \<^item> \<open>Frontier\<close>: breadth-first search over an abstract successor function: what the queue loop visits, in
    which order and at which distance. \<open>Flow_Graph\<close>: nodes, edges, the adjacency index (\<open>model.go\<close>) and the
    traversals of \<open>query.go\<close>. \<open>Traversal\<close>: exact distances, the tree of rows, ancestors against descendants.
  \<^item> \<open>Evidence\<close>: \<open>provenance.go\<close>, \<open>provider.go\<close>, \<open>reconcile.go\<close>, \<open>stamp.go\<close> and the verdicts of \<open>epistemic.go\<close>
    and \<open>verification.go\<close>. \<open>Fusion\<close>: one edge for every static edge and one
    minted for unconfirmed ones, with exactly the sources of those they stand for, states follow from sources, the result is
    a closed graph, and stamping is a fixed point of static reconciliation.
  \<^item> \<open>Go_Text\<close>: the string functions and the regular expressions of the source, with greedy matching.
    \<open>Contract_Keys\<close>: \<open>normalize.go\<close>. \<open>Key_Candidates\<close>: the candidate list of \<open>keywalk.go\<close> as JSON, which survives a
    round trip.
  \<^item> \<open>Contract_Engine\<close>: \<open>engine.go\<close>, \<open>model.go\<close>, \<open>validateRule\<close> and \<open>coverage.go\<close>. \<open>Contract_Match\<close>: the locale
    \<open>consumer_lookup\<close> is the contract of an index of consumers, interpreted on the built one; what a tier
    finds. \<open>Contract_Link\<close>: the pass against a reference without cache and accumulators. \<open>Contract_Edges\<close> and
    \<open>Call_Sites\<close>: the justification of edges and the deduplication of producers. \<open>Contract_Props\<close>: the
    properties, and inputs on which the engine departs from its comments.
  \<^item> \<open>Route_Groups\<close>: \<open>routegroup.go\<close> and \<open>persistComposedRoutes\<close>, with the specification of prefix chains.
    \<open>Route_Props\<close>: seeds do not depend on the order of calls, routes get their prefix, repetition is safe.
  \<^item> \<open>Dead_Code\<close>: \<open>deadcode.go\<close>, \<open>ClassifyEntrypoint\<close> of \<open>flows.go\<close> and \<open>classifyRoot\<close> of \<open>indexer.go\<close>. \<open>Dead_Props\<close>:
    the walk over bridges and the search from live roots are exact, so is the report, and the order of the
    node map does not show in it.
  \<^item> \<open>Edge_Persistence\<close>: the write-back of reconciled edges (\<open>indexer.go\<close>); when skipping unchanged ones is invisible.
  \<^item> \<open>Blast_Radius\<close>: \<open>impact.go\<close>, \<open>noiseclass.go\<close> and \<open>unresolved.go\<close>. \<open>Blast_Props\<close>: the impact of several roots
    is the nearest hit of every node, hidden noise is counted, and which doubts the verdict names. \<open>Graph_Files\<close>: \<open>files.go\<close>, files and what
    is reached from them.
  \<^item> \<open>Traces\<close>: \<open>internal/trace/trace.go\<close>, the listing of a traversal and the enumeration of chains around a node.
    \<open>Trace_Props\<close>: the walk against the list of all chains and hidden edges, along which it spends its budget; every
    chain reads as the flow. \<open>Budgets\<close>: \<open>internal/budget/budget.go\<close>; \<open>Trace_Budget\<close>: \<open>ApplyBudget\<close> of a trace, which
    only takes away; its report is not part of the estimate.
  \<^item> \<open>Flow_Paths\<close>: \<open>flows.go\<close>: the catalog of entry points, the search for the shortest simple paths and the
    stitching of waypoints. \<open>Flow_Props\<close>: the search answers with the least paths in rank order unless it has
    looked at as many partial paths as \<open>maxPathsExplored\<close>; stitched waypoints are one walk; every node of the
    catalog is listed or counted as skipped.
  \<^item> \<open>Predicates\<close>: \<open>predicate.go\<close>, the conditions of emit specifications. \<open>Predicate_Props\<close>: what a condition prints
    as compiles to its meaning, the parser never runs out of fuel, comparison is total and has cycles.
  \<^item> \<open>Emit\<close>: \<open>emit.go\<close>, from the tuples of a relation to edges, nodes, patches and reports. \<open>Emit_Props\<close>: which rows
    yield an edge, that no row is lost, and that emission stays in the frozen vocabulary.
  \<^item> \<open>Go_Path\<close>: Go's \<open>path\<close> package as the source uses it. \<open>Facts\<close>: \<open>fact.go\<close>, \<open>bridge.go\<close>, \<open>derive.go\<close>, \<open>config.go\<close>,
    \<open>table.go\<close> and \<open>hub.go\<close>. \<open>Path_Resolution\<close>: \<open>resolve.go\<close>. \<open>Bridge_Props\<close>: the relations of the graph, with exact
    distances to ancestors. \<open>Resolution_Props\<close>: references resolve by the precedence of their candidates.
  \<^item> \<open>Pipeline\<close>: \<open>pipeline.go\<close>: loading a framework, one run of it, the merge of all runs. \<open>Pipeline_Props\<close>: the keep
    set suffices, a framework means the perfect model of its rules, a run is all or nothing. \<open>Pipeline_Demo\<close>: a
    framework that is loaded and run, for the witnesses.
  \<^item> \<open>Jobs\<close>: \<open>manager.go\<close> as a step relation over the locked sections, with the jobs table.

  \<^bold>\<open>State and errors.\<close> Go's pointers to tables are table keys, maps are functions, and an operation that
  can fail is a sum whose left side has one constructor per error of the source; \<open>EPanic\<close> stands for an
  index out of range. Go's pointers to nodes are the nodes themselves, since no operation of the graph
  passes mutates a node it shares. The metadata of a node is a partial map and an absent entry reads as
  the empty string. What an evidence provider collects is an argument of \<open>Reconcile\<close>; what patterns
  extract, the configuration values, the rows of artifacts, the registered hubs and the provenance of a tuple are
  arguments of the pipeline, and so is the order in which Go enumerates the keys of a node's metadata. \<open>Assert\<close> keeps its changes when it fails; the engine after a failed query is not
  followed. \<open>Eval\<close> returns its answers as a list of pairs, one per goal, where Go fills a map.

  \<^bold>\<open>Bounds and fuel.\<close> The semi-naive loop has as many rounds as \<open>MaxRounds\<close> allows and then the error of the
  source. The recursions of \<open>collect\<close>, \<open>strong\<close> and \<open>cycle_walk\<close> have the number of relations as fuel,
  proved sufficient. The tabled evaluator's nesting has explicit fuel, and a goal without rules needs
  one unit. The rounds of \<open>resolveGinPrefixes\<close> are those of the source, one more than there are groups, and
  \<open>resolve_settles\<close> shows that they suffice. The queue loop of a traversal has a termination measure. The engine theorems assume that negated literals are bound by earlier literals
  (\<open>neg_ordered\<close>): \<open>Loading.unordered_negation_accepted\<close> shows that the load check does not ensure it.
  Of the rule files of the repository only \<open>rules/ruby/rails_route_actions.dl\<close> does not meet it, so they say
  nothing about a framework that loads it.
  They also assume that symbols fit the 31 bits of the interner.

  \<^bold>\<open>Not modelled.\<close> The parsers, linkers and pattern matchers walk syntax trees of a third-party C library;
  the stores, servers, indexer and command line are input and output over SQLite, the file system and
  the network. Within the modelled packages, capacity hints (\<open>reserve\<close>) and cached patterns
  (\<open>newRulePatterns\<close>, \<open>planBody\<close>) have no counterpart, and the work of a job is arbitrary. Case folding is
  that of ASCII; JSON is the fragment that a list of strings needs; the fraction \<open>anchor_ratio\<close> is rounded
  exactly, which agrees with floating point for paths of fewer than forty segments; a framework is given decoded, without its
  YAML text; concurrent frameworks are the list of their results, and the errors of the shared matcher, the
  statistics and \<open>TreeSitterMatcher\<close> are left out; hubs and artifact readers walk syntax trees and files; \<open>sort.Slice\<close> is taken
  as stable. An impact answer has neither the age nor the rendering of its sources, nor the count of stale evidence; nor has a trace. The lengths of JSON
  encodings, on which token budgets rest, are arguments. The walkers that find candidate keys read syntax trees, and the rule files are input.
\<close>

section \<open>The engine as a whole\<close>

text \<open>
  C1: \<open>Program.Eval\<close> is correct end to end. When it returns answers, they are one list per requested
  goal, in the order of the goals; the rules it evaluated are the parsed ones (up to interned
  constants), the facts are the given ones with numerals normalised, and each list is sorted,
  without duplicates, and holds exactly the tuples of the goal in the perfect model of these
  rules over these facts. The hypotheses: negated literals are bound by earlier ones, and the
  symbols fit the 31 bits of an interned string.
\<close>

theorem eval_computes_perfect_model:
  assumes "Eval_program (Suc n) p f = Inr (res, e')" and "parseRules (pr_src p) (pr_name p) = Inr rules"
    and "\<forall>r \<in> set rules. neg_ordered r"
    and "fact_width (fr_rels f) + length (rule_constants rules) \<le> 2 ^ 31"
  shows "map fst res = fr_goals f \<and> map erase (en_ruleOrder e') = map erase rules
    \<and> named_facts e' = given (fr_rels f)
    \<and> (\<exists>M. perfect_model (en_ruleOrder e') (facts e') (en_syms e') M
          \<and> (\<forall>(g, us) \<in> set res. answers e' M g us \<and> distinct us))"
  by (rule Eval_answers [OF assms])

theorem eval_computes_perfect_model_witness:
  "\<exists>e' M. Eval_program 1 demo demo_facts = Inr ([(''p'', [[''a'']])], e')
     \<and> perfect_model (en_ruleOrder e') (facts e') (en_syms e') M \<and> answers e' M ''p'' [[''a'']]"
proof -
  have run: "Eval_program (Suc 0) demo demo_facts = Inr ([(''p'', [[''a'']])], demo_e3)" using demo_states(4) by simp
  have room: "fact_width (fr_rels demo_facts) + length (rule_constants demo_rules) \<le> 2 ^ 31"
    using demo_width demo_rules_facts(2) by simp
  from eval_computes_perfect_model [OF run demo_parse demo_neg room] demo_states(4) show ?thesis by auto
qed

text \<open>
  C4: A query that returns is exact and leaves the engine ready: its answer is sorted, has no
  duplicates when the symbol table is well formed, and is the set of tuples of the goal in the
  perfect model; the engine then serves the same model and program. This holds for derived
  relations (evaluated bottom-up) and for asserted ones.
\<close>

theorem query_is_exact:
  assumes "serving ar M e" and "Query (Suc n) goal e = Inr (us, e')"
  shows "answers e M goal us \<and> serving ar M e' \<and> same_prog e e' \<and> (interner_ok (en_syms e) \<longrightarrow> distinct us)"
  by (rule Query_answers [OF assms])

theorem query_is_exact_witness:
  "\<exists>ar M e e'. serving ar M e \<and> Query 1 ''p'' e = Inr ([[''a'']], e') \<and> answers e M ''p'' [[''a'']] \<and> serving ar M e'"
proof -
  obtain ar M where sv: "serving ar M demo_e2" using demo_engine_ok by blast
  have "Query (Suc 0) ''p'' demo_e2 = Inr ([[''a'']], demo_e3)" using demo_states(3) by simp
  from query_is_exact [OF sv this] sv demo_states(3) show ?thesis by blast
qed



text \<open>
  C35: A query on a loaded engine returns the exact answer, or it fails for a reason in the data: a
  relation of the perfect model exceeds \<open>MaxTuples\<close>, the derived relations have more tuples than
  \<open>MaxRounds\<close>, a comparison (or \<open>min\<close>, \<open>max\<close>) meets a symbol that is not a number, or groups are sorted
  while no string is interned. The engine's own consistency errors (an unbound variable, a negated
  relation that is not complete, an unknown relation) never occur.
\<close>

theorem query_fails_only_on_data:
  assumes "serving ar M e" and "closed_engine e" and "arityOf e goal = Inr a" and "0 \<le> a"
  shows "case Query (Suc n) goal e of Inr (us, e') \<Rightarrow> answers e M goal us | Inl err \<Rightarrow> run_error e M err"
proof (cases "Query (Suc n) goal e")
  case (Inl err)
  then show ?thesis using Query_fails [OF assms Inl] by simp
next
  case (Inr r)
  then show ?thesis using Query_answers [OF assms(1), of n goal "fst r" "snd r"] by (cases r) simp
qed

theorem query_fails_only_on_data_witness:
  "\<exists>M. case Query (Suc 0) ''p'' demo_e2 of Inr (us, e') \<Rightarrow> answers demo_e2 M ''p'' us | Inl err \<Rightarrow> run_error demo_e2 M err"
proof -
  obtain ar M where sv: "engine_ok ar M demo_e2" "serving ar M demo_e2" by (rule demo_engine_ok)
  obtain a where a: "arityOf demo_e2 ''p'' = Inr a" "0 \<le> a" by (rule demo_arity)
  show ?thesis by (rule exI [of _ M]) (rule query_fails_only_on_data [OF sv(2) demo_closed a])
qed

text \<open>
  C36: A query returns: on a loaded engine whose rules have no aggregates and no numeric comparisons,
  and whose model is within \<open>MaxTuples\<close> and \<open>MaxRounds\<close>, every goal with a known arity gets its answer.
\<close>

theorem query_within_caps_returns:
  assumes "serving ar M e" and "closed_engine e" and "arityOf e goal = Inr a" and "0 \<le> a"
    and "within_caps e M" and "symbolic e"
  shows "\<exists>us e'. Query (Suc n) goal e = Inr (us, e') \<and> answers e M goal us"
  by (rule Query_returns [OF assms])

theorem query_within_caps_returns_witness:
  "\<exists>M us e'. Query (Suc 0) ''p'' demo_e2 = Inr (us, e') \<and> answers demo_e2 M ''p'' us"
proof -
  obtain ar M where sv: "engine_ok ar M demo_e2" "serving ar M demo_e2" by (rule demo_engine_ok)
  obtain a where a: "arityOf demo_e2 ''p'' = Inr a" "0 \<le> a" by (rule demo_arity)
  show ?thesis
    by (rule exI [of _ M]) (rule query_within_caps_returns [OF sv(2) demo_closed a demo_within_caps [OF sv(2)] demo_symbolic])
qed

text \<open>
  A successful \<open>LoadRules\<close> closes the program: every relation that a rule reads is built in,
  derived or asserted, and every symbol of the facts and of the rules' constants has a name.
\<close>

theorem load_closes_program:
  assumes "LoadRules src name e = Inr e'" and "parseRules src name = Inr rules" and "syms_ok e"
    and "length (strs (en_syms e)) + length (rule_constants (en_ruleOrder e @ rules)) \<le> 2 ^ 31"
  shows "closed_engine e'"
  by (rule LoadRules_closed [OF assms])

theorem load_closes_program_witness:
  "LoadRules (pr_src demo) (pr_name demo) demo_e1 = Inr demo_e2 \<and> closed_engine demo_e2"
  using load_closes_program [OF demo_states(2) demo_parse demo_e1_ok(6) demo_room] demo_states(2) by blast

text \<open>
  A successful \<open>Assert\<close> adds exactly the given tuples, with numerals in normal form, to the
  named relation and changes no other relation; every fact can still be revealed.
\<close>

theorem assert_adds_exactly:
  assumes "base_ok e" and "syms_ok e" and "Assert rel ts e = (None, e')"
    and "length (strs (en_syms e)) + length (concat ts) \<le> 2 ^ 31"
  shows "syms_ok e' \<and> length (strs (en_syms e')) \<le> length (strs (en_syms e)) + length (concat ts)
    \<and> named_facts e' = (named_facts e)(rel := named_facts e rel \<union> map canon ` set ts)"
  by (rule Assert_facts [OF assms])

theorem assert_adds_exactly_witness:
  "\<exists>e'. Assert ''q'' [[''a'']] demo_engine = (None, e') \<and> named_facts e' ''q'' = map canon ` {[''a'']}"
proof -
  have "length (strs (en_syms demo_engine)) + length (concat [[''a'']]) \<le> 2 ^ 31" by (simp add: New_syms_ok(3))
  from assert_adds_exactly [OF New_base_ok New_syms_ok(1) demo_states(1) this] demo_states(1) New_syms_ok(2) show ?thesis by simp
qed

text \<open>
  C5: Bottom-up evaluation of a derived goal returns its relation in the perfect model, each tuple
  once, and the engine's tables still agree with that model.
\<close>

theorem bottom_up_computes_model:
  assumes "engine_ok ar M e" and "derived e goal" and "solveBottomUp goal e = Inr (ts, e')"
  shows "set ts = M goal \<and> distinct ts \<and> engine_ok ar M e' \<and> same_prog e e'
    \<and> tb_complete e' (free_key goal (ar goal))"
  by (rule solveBottomUp_result [OF assms])

theorem bottom_up_computes_model_witness:
  "\<exists>ar M e ts e'. engine_ok ar M e \<and> solveBottomUp ''p'' e = Inr (ts, e') \<and> set ts = M ''p'' \<and> length ts = 1"
proof -
  obtain ar M where e: "engine_ok ar M demo_e2" "serving ar M demo_e2" by (rule demo_engine_ok)
  obtain ts where "solveBottomUp ''p'' demo_e2 = Inr (ts, demo_e3)" "length ts = 1" by (rule demo_bottom_up [OF e(2)])
  then show ?thesis using bottom_up_computes_model [OF e(1), of "''p''" ts demo_e3] e(1) demo_derived by blast
qed

text \<open>
  The specification is unambiguous: a program that \<open>stratify\<close> accepts has exactly one perfect
  model over any facts, and it is the one built stratum by stratum.
\<close>

theorem stratified_unique_model:
  assumes "stratify rules = Inr st"
  shows "perfect_model rules B S (model_of rules B S st)
    \<and> (\<forall>M. perfect_model rules B S M \<longrightarrow> M = model_of rules B S st)"
proof -
  have st: "stratification rules st" using stratify_least [of rules] assms by simp
  then show ?thesis using model_of_perfect perfect_model_unique by metis
qed

theorem stratified_unique_model_witness:
  "\<exists>st. stratify [] = Inr st \<and> perfect_model [] (\<lambda>_. {}) newInterner (model_of [] (\<lambda>_. {}) newInterner st)"
proof -
  obtain st where "stratify [] = Inr st" using stratify_least [of "[]"] by (auto simp: stratification_def split: sum.splits)
  then show ?thesis using stratified_unique_model by blast
qed

text \<open>
  C6: One strongly connected component is evaluated to its fixpoint: when every relation that its
  rules read outside the component is complete, evaluation keeps the invariant (every table is
  part of the perfect model, complete tables are all of it) and completes exactly the component.
\<close>

theorem component_reaches_fixpoint:
  assumes "bu_inv M ar e0 bu e" and "comp_ready e0 bu rels" and "evalComponent rels (bu, e) = Inr (bu', e')"
  shows "bu_inv M ar e0 bu' e' \<and> (\<forall>rel. bu_complete bu' rel \<longleftrightarrow> rel \<in> set rels \<or> bu_complete bu rel)"
  by (rule evalComponent_result [OF assms])

theorem component_reaches_fixpoint_witness:
  "\<exists>M ar e rels bu' e'. evalComponent rels (newBottomUp, e) = Inr (bu', e') \<and> bu_inv M ar e bu' e'
     \<and> (\<forall>rel. bu_complete bu' rel \<longleftrightarrow> rel \<in> set rels)"
proof -
  obtain ar M where e: "engine_ok ar M demo_e2" "serving ar M demo_e2" by (rule demo_engine_ok)
  define e where "e = demo_e2"
  obtain ts where "solveBottomUp ''p'' demo_e2 = Inr (ts, demo_e3)" by (rule demo_bottom_up [OF e(2)])
  then have d: "engine_ok ar M e" "derived e ''p''" "solveBottomUp ''p'' e = Inr (ts, demo_e3)"
    using e(1) demo_derived by (simp_all add: e_def)
  have pr: "prog_ok ar e" and inv: "bu_inv M ar e newBottomUp e"
    using d(1) by (simp_all add: engine_ok_def bu_inv_def bu_ok_def newBottomUp_def)
  obtain st where st: "stratification (en_ruleOrder e) st" using d(1) by (auto simp: engine_ok_def)
  note c = cone_spec [OF pr d(2)]
  obtain rels cs where cn: "cone e ''p'' = rels # cs" using c(2) by (cases "cone e ''p''") (auto simp: emitted_def)
  have "comp_ready e newBottomUp (cone e ''p'' ! 0)"
    by (rule comp_ready_at [OF pr st c(1) _ c(3)]) (simp_all add: cn newBottomUp_def emitted_def)
  then have rd: "comp_ready e newBottomUp rels" by (simp add: cn)
  from d(3) obtain bu1 e1 where run: "evalComponent rels (newBottomUp, e) = Inr (bu1, e1)" by (auto simp: solveBottomUp_def cn)
  from component_reaches_fixpoint [OF inv rd run] run show ?thesis by (fastforce simp: newBottomUp_def)
qed

end
